(* ===== verification/Mark_Prelude.thy ===== *)
theory Mark_Prelude
  imports Complex_Main "HOL-Library.Product_Lexorder" "HOL-Library.List_Lexorder" "HOL-Library.Char_ord"
    "HOL-Library.Option_ord" "HOL-Library.AList" "HOL-Library.Sublist"
    "HOL-Library.Multiset"
begin

text \<open>
  Shared vocabulary of the development: the Python exceptions the modelled code raises,
  Unicode text as lists of code points, the result type of operations that may raise, and
  generic lemmas on lists, association lists and sorting that several components use.
\<close>

section \<open>Exceptions and results\<close>

text \<open>The exceptions the modelled code raises itself. A result is \<open>Inl\<close> of the
  exception or \<open>Inr\<close> of the returned value.\<close>

datatype py_error = ValueError | KeyError | TypeError | RuntimeError | PermissionError | LookupError

definition bind_res :: "'e + 'a \<Rightarrow> ('a \<Rightarrow> 'e + 'b) \<Rightarrow> 'e + 'b" where
  "bind_res r f = (case r of Inl e \<Rightarrow> Inl e | Inr x \<Rightarrow> f x)"

lemma bind_res_simps [simp]:
  "bind_res (Inl e) f = Inl e"
  "bind_res (Inr x) f = f x"
  by (simp_all add: bind_res_def)

lemma bind_res_Inr_iff: "bind_res r f = Inr y \<longleftrightarrow> (\<exists>x. r = Inr x \<and> f x = Inr y)"
  by (cases r) auto

section \<open>Text\<close>

text \<open>
  Python's \<open>str\<close> is a sequence of Unicode code points; where its length or a character
  beyond Latin-1 matters it is a list of code points. \<open>u ''abc''\<close> is such a text.
  Identifiers, whose only use is equality, are plain strings.
\<close>

type_synonym ustr = "nat list"

definition u :: "string \<Rightarrow> ustr" where
  "u s = map of_char s"

lemma u_simps [simp]: "u [] = []" "u (c # cs) = of_char c # u cs"
  by (simp_all add: u_def)

lemma length_u [simp]: "length (u s) = length s"
  by (simp add: u_def)

text \<open>The code points for which \<open>str.isspace\<close> holds (\<open>str.split()\<close>, \<open>strip()\<close>).\<close>

definition py_isspace :: "nat \<Rightarrow> bool" where
  "py_isspace c \<longleftrightarrow> 9 \<le> c \<and> c \<le> 13 \<or> 28 \<le> c \<and> c \<le> 32 \<or> c = 133 \<or> c = 160 \<or> c = 5760
     \<or> 8192 \<le> c \<and> c \<le> 8202 \<or> c = 8232 \<or> c = 8233 \<or> c = 8239 \<or> c = 8287 \<or> c = 12288"

definition py_lstrip :: "ustr \<Rightarrow> ustr" where
  "py_lstrip = dropWhile py_isspace"

definition py_rstrip :: "ustr \<Rightarrow> ustr" where
  "py_rstrip s = rev (dropWhile py_isspace (rev s))"

definition py_strip :: "ustr \<Rightarrow> ustr" where
  "py_strip s = py_rstrip (py_lstrip s)"

lemma py_rstrip_prefix: "prefix (py_rstrip s) s"
  by (metis py_rstrip_def suffix_dropWhile suffix_to_prefix rev_rev_ident)

lemma length_py_rstrip: "length (py_rstrip s) \<le> length s"
  using py_rstrip_prefix by (rule prefix_length_le)

lemma py_strip_clean:
  "s \<noteq> [] \<Longrightarrow> \<not> py_isspace (hd s) \<Longrightarrow> \<not> py_isspace (last s) \<Longrightarrow> py_strip s = s"
proof -
  have "dropWhile p xs = xs" if "xs = [] \<or> \<not> p (hd xs)" for p and xs :: ustr
    using that by (cases xs) auto
  then show "s \<noteq> [] \<Longrightarrow> \<not> py_isspace (hd s) \<Longrightarrow> \<not> py_isspace (last s) \<Longrightarrow> py_strip s = s"
    by (simp add: py_strip_def py_lstrip_def py_rstrip_def hd_rev)
qed

text \<open>\<open>sep.join(lines)\<close>.\<close>

fun py_join :: "'a list \<Rightarrow> 'a list list \<Rightarrow> 'a list" where
  "py_join sep [] = []"
| "py_join sep [x] = x"
| "py_join sep (x # y # ys) = x @ sep @ py_join sep (y # ys)"

lemma length_py_join:
  "xs \<noteq> [] \<Longrightarrow> length (py_join sep xs) = sum_list (map length xs) + length sep * (length xs - 1)"
  by (induction sep xs rule: py_join.induct) auto

section \<open>Lists\<close>

lemma sorted_filter_upt: "sorted (filter P [m..<n])"
  by (induction n) (auto simp: sorted_append)

lemma map_nth_append_left:
  "(\<And>i. i \<in> set is \<Longrightarrow> i < length xs) \<Longrightarrow> map (\<lambda>i. (xs @ ys) ! i) is = map (\<lambda>i. xs ! i) is"
  by (rule map_cong) (auto simp: nth_append)

lemma subseq_map_filter_nth:
  "subseq (map (\<lambda>i. xs ! i) (filter P [0..<length xs])) xs"
proof (induction xs rule: rev_induct)
  case Nil
  then show ?case by simp
next
  case (snoc x xs)
  have "map (\<lambda>i. (xs @ [x]) ! i) (filter P [0..<length xs])
      = map (\<lambda>i. xs ! i) (filter P [0..<length xs])"
    by (rule map_nth_append_left) auto
  with snoc show ?case
    by (auto simp del: map_eq_conv intro: subseq_rev_drop_many list_emb_append2)
qed

text \<open>\<open>max(xs, key=f)\<close> of a non-empty list: the first element with the largest key.\<close>

fun py_max_key :: "('a \<Rightarrow> 'k::linorder) \<Rightarrow> 'a \<Rightarrow> 'a list \<Rightarrow> 'a" where
  "py_max_key f x [] = x"
| "py_max_key f x (y # ys) = py_max_key f (if f x < f y then y else x) ys"

lemma py_max_key_in: "py_max_key f x xs \<in> set (x # xs)"
  by (induction f x xs rule: py_max_key.induct) (auto split: if_splits)

lemma py_max_key_ge: "y \<in> set (x # xs) \<Longrightarrow> f y \<le> f (py_max_key f x xs)"
proof (induction f x xs arbitrary: y rule: py_max_key.induct)
  case (2 f x z zs)
  let ?b = "if f x < f z then z else x"
  have b: "f ?b \<le> f (py_max_key f ?b zs)"
    by (rule "2.IH") simp
  have "f x \<le> f ?b" "f z \<le> f ?b" by auto
  with b "2.prems" "2.IH" show ?case by fastforce
qed simp

lemma length_remove1_py_max_key:
  "length (remove1 (py_max_key f x xs) (x # xs)) < length (x # xs)"
  using py_max_key_in[of f x xs] by (simp add: length_remove1 del: remove1.simps)

lemma subseq_remove1: "subseq (remove1 x xs) xs"
  by (induction xs) auto

lemma subseq_set_mono: "subseq xs ys \<Longrightarrow> set xs \<subseteq> set ys"
  by (induction rule: list_emb.induct) auto

lemma sum_list_map_sort_key: "sum_list (map f (sort_key k xs)) = sum_list (map f xs)"
  for f :: "'a \<Rightarrow> 'b::comm_monoid_add"
  by (simp only: sum_mset_sum_list[symmetric] mset_map mset_sort)

lemma subseq_distinct: "subseq xs ys \<Longrightarrow> distinct ys \<Longrightarrow> distinct xs"
  by (induction rule: list_emb.induct) (auto dest: subseq_set_mono)

lemma int_sum_list_map: "int (sum_list (map f xs)) = sum_list (map (\<lambda>x. int (f x)) xs)"
  by (induction xs) auto

lemma sort_key_eq_Nil [simp]: "sort_key k xs = [] \<longleftrightarrow> xs = []"
  by (metis length_sort length_0_conv)

lemma map_of_rev_distinct: "distinct (map fst xs) \<Longrightarrow> map_of (rev xs) = map_of xs"
  by (subst map_of_inject_set) (simp_all add: rev_map[symmetric])

text \<open>A stable descending sort: \<open>list.sort(key=f, reverse=True)\<close>, and SQL's
  \<open>ORDER BY f DESC\<close> over rows in rowid order.\<close>

definition sort_key_desc :: "('a \<Rightarrow> 'k::linorder) \<Rightarrow> 'a list \<Rightarrow> 'a list" where
  "sort_key_desc f xs = rev (sort_key f (rev xs))"

lemma set_sort_key_desc [simp]: "set (sort_key_desc f xs) = set xs"
  by (simp add: sort_key_desc_def)

lemma length_sort_key_desc [simp]: "length (sort_key_desc f xs) = length xs"
  by (simp add: sort_key_desc_def)

lemma mset_sort_key_desc [simp]: "mset (sort_key_desc f xs) = mset xs"
  by (simp add: sort_key_desc_def)

lemma distinct_sort_key_desc [simp]: "distinct (sort_key_desc f xs) \<longleftrightarrow> distinct xs"
  by (simp add: sort_key_desc_def)

lemma sort_key_desc_simps [simp]:
  "sort_key_desc f [] = []" "sort_key_desc f [x] = [x]"
  by (simp_all add: sort_key_desc_def)

lemma sort_key_desc_sorted: "sorted (rev (map f (sort_key_desc f xs)))"
  by (simp add: sort_key_desc_def rev_map[symmetric])

text \<open>\<open>LIMIT n\<close>; \<open>None\<close> for no limit, and a negative limit is no limit in SQLite.\<close>

definition sql_limit :: "int option \<Rightarrow> 'a list \<Rightarrow> 'a list" where
  "sql_limit n xs = (case n of None \<Rightarrow> xs | Some k \<Rightarrow> if k < 0 then xs else take (nat k) xs)"

lemma set_sql_limit: "set (sql_limit n xs) \<subseteq> set xs"
  using set_take_subset by (fastforce simp: sql_limit_def split: option.splits if_splits)

section \<open>Tables with a primary key\<close>

text \<open>A table is the list of its rows in rowid order. An upsert keeps the row's place, an
  \<open>INSERT OR REPLACE\<close> moves it to the end.\<close>

definition tbl_get :: "('r \<Rightarrow> 'k) \<Rightarrow> 'r list \<Rightarrow> 'k \<Rightarrow> 'r option" where
  "tbl_get key rows k = find (\<lambda>r. key r = k) rows"

definition tbl_upsert :: "('r \<Rightarrow> 'k) \<Rightarrow> 'r \<Rightarrow> 'r list \<Rightarrow> 'r list" where
  "tbl_upsert key row rows =
     (if key row \<in> set (map key rows) then map (\<lambda>r. if key r = key row then row else r) rows
      else rows @ [row])"

definition tbl_replace :: "('r \<Rightarrow> 'k) \<Rightarrow> 'r \<Rightarrow> 'r list \<Rightarrow> 'r list" where
  "tbl_replace key row rows = filter (\<lambda>r. key r \<noteq> key row) rows @ [row]"

definition tbl_update :: "('r \<Rightarrow> bool) \<Rightarrow> ('r \<Rightarrow> 'r) \<Rightarrow> 'r list \<Rightarrow> 'r list" where
  "tbl_update p g rows = map (\<lambda>r. if p r then g r else r) rows"

definition tbl_delete :: "('r \<Rightarrow> bool) \<Rightarrow> 'r list \<Rightarrow> 'r list" where
  "tbl_delete p rows = filter (\<lambda>r. \<not> p r) rows"

abbreviation tbl_ok :: "('r \<Rightarrow> 'k) \<Rightarrow> 'r list \<Rightarrow> bool" where
  "tbl_ok key rows \<equiv> distinct (map key rows)"

lemma tbl_get_None: "tbl_get key rows k = None \<longleftrightarrow> k \<notin> key ` set rows"
  by (auto simp: tbl_get_def find_None_iff)

lemma tbl_get_SomeD: "tbl_get key rows k = Some r \<Longrightarrow> r \<in> set rows \<and> key r = k"
  by (auto simp: tbl_get_def find_Some_iff)

lemma tbl_get_Some: "tbl_ok key rows \<Longrightarrow> tbl_get key rows k = Some r \<longleftrightarrow> r \<in> set rows \<and> key r = k"
  by (induction rows) (auto simp: tbl_get_def)

lemma tbl_ok_upsert [simp]: "tbl_ok key rows \<Longrightarrow> tbl_ok key (tbl_upsert key row rows)"
proof -
  have "map key (map (\<lambda>r. if key r = key row then row else r) rows) = map key rows"
    unfolding map_map comp_def by (rule map_cong) auto
  then show "tbl_ok key rows \<Longrightarrow> tbl_ok key (tbl_upsert key row rows)"
    unfolding tbl_upsert_def by (auto simp del: map_map)
qed

lemma tbl_get_upsert:
  "tbl_get key (tbl_upsert key row rows) k = (if k = key row then Some row else tbl_get key rows k)"
proof (cases "key row \<in> set (map key rows)")
  case True
  have "find (\<lambda>r. key r = k) (map (\<lambda>r. if key r = key row then row else r) rs)
      = (if k = key row then (if key row \<in> key ` set rs then Some row else None)
         else find (\<lambda>r. key r = k) rs)" for rs
    by (induction rs) auto
  with True show ?thesis by (simp add: tbl_get_def tbl_upsert_def)
next
  case False
  then have "find (\<lambda>r. key r = k) (rows @ [row]) = (if k = key row then Some row else find (\<lambda>r. key r = k) rows)"
    by (induction rows) auto
  with False show ?thesis by (simp add: tbl_get_def tbl_upsert_def)
qed

lemma tbl_ok_filter [simp]: "tbl_ok key rows \<Longrightarrow> tbl_ok key (filter p rows)"
  by (rule distinct_map_filter)

lemma tbl_ok_replace [simp]: "tbl_ok key rows \<Longrightarrow> tbl_ok key (tbl_replace key row rows)"
  by (auto simp: tbl_replace_def distinct_map_filter)

lemma tbl_get_replace:
  "tbl_get key (tbl_replace key row rows) k = (if k = key row then Some row else tbl_get key rows k)"
proof -
  have "find (\<lambda>r. key r = k) (filter (\<lambda>r. key r \<noteq> key row) rows @ [row])
      = (if k = key row then Some row else find (\<lambda>r. key r = k) rows)"
    by (induction rows) auto
  then show ?thesis by (simp add: tbl_get_def tbl_replace_def)
qed

lemma tbl_ok_update [simp]:
  "(\<And>r. key (g r) = key r) \<Longrightarrow> tbl_ok key (tbl_update p g rows) \<longleftrightarrow> tbl_ok key rows"
proof -
  assume "\<And>r. key (g r) = key r"
  then have "map key (tbl_update p g rows) = map key rows" by (simp add: tbl_update_def)
  then show ?thesis by simp
qed

lemma tbl_get_update:
  "(\<And>r. key (g r) = key r) \<Longrightarrow>
   tbl_get key (tbl_update p g rows) k = map_option (\<lambda>r. if p r then g r else r) (tbl_get key rows k)"
  by (induction rows) (auto simp: tbl_get_def tbl_update_def)

lemma tbl_ok_delete [simp]: "tbl_ok key rows \<Longrightarrow> tbl_ok key (tbl_delete p rows)"
  by (simp add: tbl_delete_def distinct_map_filter)

lemma set_tbl_delete [simp]: "set (tbl_delete p rows) = {r \<in> set rows. \<not> p r}"
  by (auto simp: tbl_delete_def)

lemma tbl_get_delete_key:
  "tbl_get key (tbl_delete (\<lambda>r. key r = k') rows) k = (if k = k' then None else tbl_get key rows k)"
  by (induction rows) (auto simp: tbl_get_def tbl_delete_def)

lemma length_filter_upt_less: "\<exists>i<n. \<not> P i \<Longrightarrow> length (filter P [0..<n]) < n"
  using length_filter_less[of _ "[0..<n]" P] by auto

end
