(* ===== verification/Budget.thy ===== *)
theory Budget
  imports Mark_Prelude
begin

text \<open>
  The context budget of \<^verbatim>\<open>context/budget.py\<close>: a hard cap in tokens on one injected
  block, filled with whole candidate lines by section priority, and the briefing presets'
  budget split of \<^verbatim>\<open>context/presets.py\<close>. Text is a list of code points, because the
  default token counter measures its length. A renderer is any function from the kept
  items to text, as in the code.
\<close>

section \<open>Items, budgets and counters\<close>

datatype budget_section = SCorrections | SUnknown | SRelevant | SFacts | SRecords | SLinked
  | SRelated | SAssistant

definition SECTIONS :: "budget_section list" where
  "SECTIONS = [SCorrections, SUnknown, SRelevant, SFacts, SRecords, SLinked, SRelated, SAssistant]"

fun section_name :: "budget_section \<Rightarrow> string" where
  "section_name SCorrections = ''corrections''"
| "section_name SUnknown = ''unknown''"
| "section_name SRelevant = ''relevant''"
| "section_name SFacts = ''facts''"
| "section_name SRecords = ''records''"
| "section_name SLinked = ''linked''"
| "section_name SRelated = ''related''"
| "section_name SAssistant = ''assistant''"

fun section_rank :: "budget_section \<Rightarrow> nat" where
  "section_rank SCorrections = 0"
| "section_rank SUnknown = 1"
| "section_rank SRelevant = 2"
| "section_rank SFacts = 3"
| "section_rank SRecords = 4"
| "section_rank SLinked = 5"
| "section_rank SRelated = 6"
| "section_rank SAssistant = 7"

definition ELLIPSIS :: nat where "ELLIPSIS = 0x2026"

definition MIN_TRUNCATED_CHARS :: int where "MIN_TRUNCATED_CHARS = 8"

definition estimate_tokens :: "ustr \<Rightarrow> int" where
  "estimate_tokens t = (if t = [] then 0 else (int (length t) + 3) div 4)"

record budget_item =
  it_section :: budget_section
  it_text :: ustr
  it_group :: "ustr option"
  it_ref :: "string option"

text \<open>\<open>BudgetItem(...)\<close> refuses a section name that is not in \<open>SECTIONS\<close>.\<close>

definition budget_item_new ::
  "string \<Rightarrow> ustr \<Rightarrow> ustr option \<Rightarrow> string option \<Rightarrow> py_error + budget_item" where
  "budget_item_new sec txt grp ref =
     (case find (\<lambda>s. section_name s = sec) SECTIONS of
        None \<Rightarrow> Inl ValueError
      | Some s \<Rightarrow> Inr \<lparr>it_section = s, it_text = txt, it_group = grp, it_ref = ref\<rparr>)"

text \<open>\<open>if item.group\<close>: neither \<open>None\<close> nor the empty string.\<close>

definition has_group :: "budget_item \<Rightarrow> bool" where
  "has_group it \<longleftrightarrow> (case it_group it of None \<Rightarrow> False | Some g \<Rightarrow> g \<noteq> [])"

record context_budget =
  max_tokens :: nat
  budget_fill :: bool
  token_counter :: "(ustr \<Rightarrow> int) option"

text \<open>The values a caller may pass as a budget.\<close>

datatype budget_arg = BNone | BInt int | BBool bool | BBudget context_budget

definition context_budget_new ::
  "budget_arg \<Rightarrow> bool \<Rightarrow> (ustr \<Rightarrow> int) option \<Rightarrow> py_error + context_budget" where
  "context_budget_new arg fill counter =
     (case arg of
        BInt n \<Rightarrow> (if n < 0 then Inl ValueError
                   else Inr \<lparr>max_tokens = nat n, budget_fill = fill, token_counter = counter\<rparr>)
      | _ \<Rightarrow> Inl ValueError)"

definition as_budget ::
  "budget_arg \<Rightarrow> (ustr \<Rightarrow> int) option \<Rightarrow> bool \<Rightarrow> py_error + context_budget option" where
  "as_budget arg counter fill =
     (case arg of
        BNone \<Rightarrow> Inr None
      | BBudget b \<Rightarrow> Inr (Some b)
      | _ \<Rightarrow> bind_res (context_budget_new arg fill counter) (\<lambda>b. Inr (Some b)))"

text \<open>\<open>max(0, int(counter(text)))\<close>; \<open>nat\<close> of a negative integer is 0.\<close>

definition count_tokens :: "context_budget \<Rightarrow> ustr \<Rightarrow> nat" where
  "count_tokens b t =
     (if t = [] then 0
      else nat ((case token_counter b of None \<Rightarrow> estimate_tokens | Some c \<Rightarrow> c) t))"

definition split_budget :: "int \<Rightarrow> ustr \<Rightarrow> (ustr \<Rightarrow> int) option \<Rightarrow> int" where
  "split_budget budget_tokens fixed_text counter =
     (let used = (if fixed_text = [] then 0
                  else (case counter of None \<Rightarrow> estimate_tokens | Some c \<Rightarrow> c) fixed_text)
      in max 0 (budget_tokens - used))"

section \<open>Rendering\<close>

fun render_from :: "ustr option \<Rightarrow> budget_item list \<Rightarrow> ustr list" where
  "render_from grp [] = []"
| "render_from grp (it # its) =
     (if has_group it \<and> it_group it \<noteq> grp then [the (it_group it)] else [])
     @ it_text it # render_from (it_group it) its"

definition render_lines :: "budget_item list \<Rightarrow> ustr" where
  "render_lines its = py_join [10] (render_from None its)"

section \<open>Cutting one item\<close>

definition cut_item :: "budget_item \<Rightarrow> int \<Rightarrow> budget_item" where
  "cut_item it n = it\<lparr>it_text := py_rstrip (take (nat n) (it_text it)) @ [ELLIPSIS]\<rparr>"

definition cut_fits :: "context_budget \<Rightarrow> (budget_item list \<Rightarrow> ustr) \<Rightarrow> budget_item \<Rightarrow> int \<Rightarrow> bool" where
  "cut_fits b render it n \<longleftrightarrow> count_tokens b (render [cut_item it n]) \<le> max_tokens b"

text \<open>The binary search of \<open>_truncate\<close>, over the length \<open>middle\<close> of the kept prefix.\<close>

function truncate_search ::
  "context_budget \<Rightarrow> (budget_item list \<Rightarrow> ustr) \<Rightarrow> budget_item \<Rightarrow> int \<Rightarrow> int \<Rightarrow> budget_item option
     \<Rightarrow> budget_item option" where
  "truncate_search b render it low high best =
     (if low \<le> high then
        let middle = (low + high) div 2; candidate = cut_item it middle
        in if count_tokens b (render [candidate]) \<le> max_tokens b
           then truncate_search b render it (middle + 1) high (Some candidate)
           else truncate_search b render it low (middle - 1) best
      else best)"
  by pat_completeness auto
termination
  by (relation "measure (\<lambda>(b, render, it, low, high, best). nat (high - low + 1))") auto

declare truncate_search.simps [simp del]

definition truncate_item ::
  "context_budget \<Rightarrow> (budget_item list \<Rightarrow> ustr) \<Rightarrow> budget_item \<Rightarrow> budget_item option" where
  "truncate_item b render it =
     truncate_search b render it MIN_TRUNCATED_CHARS (int (length (it_text it)) - 1) None"

section \<open>Filling by priority\<close>

definition priority_key :: "budget_item list \<Rightarrow> nat \<Rightarrow> nat \<times> nat" where
  "priority_key items i = (section_rank (it_section (items ! i)), i)"

definition priority_order :: "budget_item list \<Rightarrow> nat list" where
  "priority_order items = sort_key (priority_key items) [0..<length items]"

record fill_state =
  remaining :: int
  chosen :: "nat \<Rightarrow> budget_item option"
  groups :: "ustr list"
  truncated :: bool

definition item_cost :: "context_budget \<Rightarrow> ustr list \<Rightarrow> budget_item \<Rightarrow> int" where
  "item_cost b grps it =
     int (count_tokens b (it_text it)) + 1
     + (if has_group it \<and> the (it_group it) \<notin> set grps
        then int (count_tokens b (the (it_group it))) + 1 else 0)"

text \<open>The end of the loop body: charge the cost and remember the group.\<close>

definition charge :: "budget_item \<Rightarrow> int \<Rightarrow> fill_state \<Rightarrow> fill_state" where
  "charge it cost s = s\<lparr>remaining := remaining s - cost,
     groups := (if has_group it then the (it_group it) # groups s else groups s)\<rparr>"

definition fill_step ::
  "context_budget \<Rightarrow> (budget_item list \<Rightarrow> ustr) \<Rightarrow> budget_item list \<Rightarrow> bool \<Rightarrow> nat \<Rightarrow> fill_state
     \<Rightarrow> fill_state" where
  "fill_step b render items first index s =
     (let item = items ! index; cost = item_cost b (groups s) item
      in if cost \<le> remaining s then
           charge item cost (s\<lparr>chosen := (chosen s)(index \<mapsto> item)\<rparr>)
         else if first then
           (case truncate_item b render item of
              None \<Rightarrow> s
            | Some c \<Rightarrow> charge item (int (count_tokens b (render [c])))
                (s\<lparr>chosen := (chosen s)(index \<mapsto> c), truncated := True\<rparr>))
         else s)"

fun fill_loop ::
  "context_budget \<Rightarrow> (budget_item list \<Rightarrow> ustr) \<Rightarrow> budget_item list \<Rightarrow> bool \<Rightarrow> nat list \<Rightarrow> fill_state
     \<Rightarrow> fill_state" where
  "fill_loop b render items first [] s = s"
| "fill_loop b render items first (i # is) s =
     fill_loop b render items False is (fill_step b render items first i s)"

section \<open>Verification of the rendered text\<close>

definition render_kept ::
  "(budget_item list \<Rightarrow> ustr) \<Rightarrow> (nat \<Rightarrow> budget_item option) \<Rightarrow> nat list \<Rightarrow> ustr" where
  "render_kept render ch keep = (if keep = [] then [] else render (map (\<lambda>i. the (ch i)) keep))"

text \<open>The \<open>while keep and count(text) > max_tokens\<close> loop: drop the worst kept item.\<close>

function trim_loop ::
  "context_budget \<Rightarrow> (budget_item list \<Rightarrow> ustr) \<Rightarrow> budget_item list \<Rightarrow> (nat \<Rightarrow> budget_item option)
     \<Rightarrow> nat list \<Rightarrow> bool \<Rightarrow> nat list \<times> bool" where
  "trim_loop b render items ch [] trunc = ([], trunc)"
| "trim_loop b render items ch (k # ks) trunc =
     (if count_tokens b (render_kept render ch (k # ks)) > max_tokens b then
        let worst = py_max_key (priority_key items) k ks
        in trim_loop b render items ch (remove1 worst (k # ks))
             (trunc \<and> worst \<noteq> hd (priority_order items))
      else (k # ks, trunc))"
  by pat_completeness auto
termination
  by (relation "measure (\<lambda>(b, render, items, ch, keep, trunc). length keep)")
    (use length_remove1_py_max_key in \<open>auto simp del: remove1.simps\<close>)

declare trim_loop.simps(2) [simp del]

section \<open>Usage and the whole fit\<close>

record section_usage =
  su_included :: nat
  su_dropped :: nat
  su_tokens :: nat

record budget_usage =
  bu_max_tokens :: nat
  bu_used_tokens :: nat
  bu_sections :: "(budget_section \<times> section_usage) list"
  bu_truncated :: bool

definition bu_included :: "budget_usage \<Rightarrow> nat" where
  "bu_included us = sum_list (map (su_included \<circ> snd) (bu_sections us))"

definition bu_dropped :: "budget_usage \<Rightarrow> nat" where
  "bu_dropped us = sum_list (map (su_dropped \<circ> snd) (bu_sections us))"

definition bu_remaining :: "budget_usage \<Rightarrow> nat" where
  "bu_remaining us = bu_max_tokens us - bu_used_tokens us"

record fit_result =
  fit_items :: "budget_item list"
  fit_text :: ustr
  fit_usage :: budget_usage

definition empty_usage :: section_usage where
  "empty_usage = \<lparr>su_included = 0, su_dropped = 0, su_tokens = 0\<rparr>"

definition usage_step ::
  "context_budget \<Rightarrow> budget_item list \<Rightarrow> (nat \<Rightarrow> budget_item option) \<Rightarrow> nat list \<Rightarrow> nat
     \<Rightarrow> (budget_section \<Rightarrow> section_usage option) \<Rightarrow> (budget_section \<Rightarrow> section_usage option)" where
  "usage_step b items ch keep index m =
     (let sec = it_section (items ! index);
          old = (case m sec of None \<Rightarrow> empty_usage | Some x \<Rightarrow> x)
      in m(sec \<mapsto> (if index \<in> set keep
           then \<lparr>su_included = su_included old + 1, su_dropped = su_dropped old,
                  su_tokens = su_tokens old + count_tokens b (it_text (the (ch index)))\<rparr>
           else \<lparr>su_included = su_included old, su_dropped = su_dropped old + 1,
                  su_tokens = su_tokens old\<rparr>)))"

definition usage_of ::
  "context_budget \<Rightarrow> budget_item list \<Rightarrow> (nat \<Rightarrow> budget_item option) \<Rightarrow> nat list \<Rightarrow> ustr \<Rightarrow> bool
     \<Rightarrow> budget_usage" where
  "usage_of b items ch keep text trunc =
     (let sections = fold (usage_step b items ch keep) [0..<length items] Map.empty
      in \<lparr>bu_max_tokens = max_tokens b, bu_used_tokens = count_tokens b text,
          bu_sections = List.map_filter (\<lambda>s. map_option (\<lambda>x. (s, x)) (sections s)) SECTIONS,
          bu_truncated = trunc\<rparr>)"

definition overhead_probe :: budget_item where
  "overhead_probe = \<lparr>it_section = SRecords, it_text = [], it_group = None, it_ref = None\<rparr>"

definition initial_fill ::
  "context_budget \<Rightarrow> (budget_item list \<Rightarrow> ustr) \<Rightarrow> budget_item list \<Rightarrow> fill_state" where
  "initial_fill b render items =
     \<lparr>remaining = int (max_tokens b)
        - (if items = [] then 0 else int (count_tokens b (render [overhead_probe]))),
      chosen = Map.empty, groups = [], truncated = False\<rparr>"

definition budget_fit ::
  "context_budget \<Rightarrow> (budget_item list \<Rightarrow> ustr) \<Rightarrow> budget_item list \<Rightarrow> fit_result" where
  "budget_fit b render items =
     (let s = fill_loop b render items True (priority_order items) (initial_fill b render items);
          (keep, trunc) = trim_loop b render items (chosen s)
            (filter (\<lambda>i. chosen s i \<noteq> None) [0..<length items]) (truncated s);
          text = render_kept render (chosen s) keep
      in \<lparr>fit_items = map (\<lambda>i. the (chosen s i)) keep, fit_text = text,
          fit_usage = usage_of b items (chosen s) keep text trunc\<rparr>)"

section \<open>Lemmas\<close>

lemma priority_order_set [simp]: "set (priority_order items) = {..<length items}"
  by (auto simp: priority_order_def)

lemma priority_order_distinct [simp]: "distinct (priority_order items)"
  by (simp add: priority_order_def)

lemma priority_key_inj: "priority_key items i = priority_key items j \<Longrightarrow> i = j"
  by (simp add: priority_key_def)

lemma count_tokens_Nil [simp]: "count_tokens b [] = 0"
  by (simp add: count_tokens_def)

lemma render_kept_Nil [simp]: "render_kept render ch [] = []"
  by (simp add: render_kept_def)

text \<open>One turn of the verification loop.\<close>

lemma trim_loop_over:
  "max_tokens b < count_tokens b (render_kept render ch (k # ks)) \<Longrightarrow>
   trim_loop b render items ch (k # ks) tr =
     trim_loop b render items ch (remove1 (py_max_key (priority_key items) k ks) (k # ks))
       (tr \<and> py_max_key (priority_key items) k ks \<noteq> hd (priority_order items))"
  by (simp add: trim_loop.simps(2) Let_def)

lemma trim_loop_done:
  "count_tokens b (render_kept render ch (k # ks)) \<le> max_tokens b \<Longrightarrow>
   trim_loop b render items ch (k # ks) tr = (k # ks, tr)"
  by (simp add: trim_loop.simps(2) Let_def)

text \<open>The verification loop ends with a text that fits, whatever the renderer adds.\<close>

lemma trim_loop_fits:
  "count_tokens b (render_kept render ch (fst (trim_loop b render items ch keep tr))) \<le> max_tokens b"
proof (induction b render items ch keep tr rule: trim_loop.induct)
  case (2 b render items ch k ks tr)
  then show ?case
    by (simp add: trim_loop.simps(2) Let_def)
qed simp

lemma trim_loop_subseq:
  "subseq (fst (trim_loop b render items ch keep tr)) keep"
proof (induction b render items ch keep tr rule: trim_loop.induct)
  case (2 b render items ch k ks tr)
  show ?case
  proof (cases "max_tokens b < count_tokens b (render_kept render ch (k # ks))")
    case True
    note "2.IH"[OF True refl]
    also note subseq_remove1
    finally show ?thesis by (simp only: trim_loop_over[OF True])
  next
    case False
    then show ?thesis by (simp add: trim_loop_done)
  qed
qed simp

text \<open>It only ever removes the kept item of lowest priority.\<close>

lemma trim_loop_priority:
  assumes "distinct keep" "i \<in> set (fst (trim_loop b render items ch keep tr))" "j \<in> set keep"
    "priority_key items j < priority_key items i"
  shows "j \<in> set (fst (trim_loop b render items ch keep tr))"
  using assms
proof (induction b render items ch keep tr rule: trim_loop.induct)
  case (2 b render items ch k ks tr)
  let ?w = "py_max_key (priority_key items) k ks"
  show ?case
  proof (cases "max_tokens b < count_tokens b (render_kept render ch (k # ks))")
    case True
    note eq = trim_loop_over[OF True]
    have i: "i \<in> set (fst (trim_loop b render items ch (k # ks) tr))" by (rule "2.prems"(2))
    then have "i \<in> set (k # ks)"
      using subseq_set_mono[OF trim_loop_subseq] by blast
    then have "priority_key items i \<le> priority_key items ?w"
      by (rule py_max_key_ge)
    with "2.prems"(4) have "j \<noteq> ?w" by auto
    then have j: "j \<in> set (remove1 ?w (k # ks))"
      using "2.prems"(1,3) by (simp add: set_remove1_eq del: remove1.simps)
    have d: "distinct (remove1 ?w (k # ks))"
      using "2.prems"(1) by (rule distinct_remove1)
    show ?thesis
      using "2.IH"[OF True refl d _ j "2.prems"(4)] i unfolding eq by blast
  next
    case False
    with "2.prems" show ?thesis by (simp add: trim_loop_done)
  qed
qed simp

text \<open>The truncation flag survives only while the first item in priority order is kept.\<close>

lemma trim_loop_flag_mono: "snd (trim_loop b render items ch keep tr) \<Longrightarrow> tr"
proof (induction b render items ch keep tr rule: trim_loop.induct)
  case (2 b render items ch k ks tr)
  then show ?case
    by (cases "max_tokens b < count_tokens b (render_kept render ch (k # ks))")
      (simp_all add: trim_loop_over trim_loop_done)
qed simp

lemma trim_loop_flag:
  assumes "tr" "distinct keep"
    "hd (priority_order items) \<in> set (fst (trim_loop b render items ch keep tr))"
  shows "snd (trim_loop b render items ch keep tr)"
  using assms
proof (induction b render items ch keep tr rule: trim_loop.induct)
  case (2 b render items ch k ks tr)
  let ?w = "py_max_key (priority_key items) k ks"
  show ?case
  proof (cases "max_tokens b < count_tokens b (render_kept render ch (k # ks))")
    case True
    note eq = trim_loop_over[OF True]
    have first: "hd (priority_order items) \<in> set (remove1 ?w (k # ks))"
      using "2.prems"(3) subseq_set_mono[OF trim_loop_subseq] unfolding eq by blast
    then have "?w \<noteq> hd (priority_order items)"
      using "2.prems"(2) by (auto simp: set_remove1_eq simp del: remove1.simps)
    with "2.IH"[OF True refl _ distinct_remove1[OF "2.prems"(2)]] "2.prems"(1,3) show ?thesis
      unfolding eq by blast
  next
    case False
    with "2.prems" show ?thesis by (simp add: trim_loop_done)
  qed
qed simp

section \<open>Filling\<close>

text \<open>What one iteration of the fill loop does to the chosen items.\<close>

lemma fill_step_chosen:
  "chosen (fill_step b render items first i s) =
     (if item_cost b (groups s) (items ! i) \<le> remaining s then (chosen s)(i \<mapsto> items ! i)
      else if first \<and> truncate_item b render (items ! i) \<noteq> None
        then (chosen s)(i := truncate_item b render (items ! i))
      else chosen s)"
  by (auto simp: fill_step_def charge_def Let_def split: option.splits)

lemma fill_step_truncated:
  "truncated (fill_step b render items first i s) \<longleftrightarrow>
     truncated s \<or> first \<and> item_cost b (groups s) (items ! i) > remaining s
       \<and> truncate_item b render (items ! i) \<noteq> None"
  by (auto simp: fill_step_def charge_def Let_def split: option.splits)

lemma fill_loop_chosen_later:
  "chosen (fill_loop b render items False is s) j = Some it \<Longrightarrow>
     chosen s j = Some it \<or> j \<in> set is \<and> it = items ! j"
  by (induction b render items False "is" s rule: fill_loop.induct)
    (fastforce simp: fill_step_chosen split: if_splits)+

lemma fill_loop_truncated_later [simp]:
  "truncated (fill_loop b render items False is s) = truncated s"
  by (induction b render items False "is" s rule: fill_loop.induct) (auto simp: fill_step_truncated)

text \<open>After the loop every chosen item is the given one, except the first in priority order,
  which may be its cut; the flag says which.\<close>

lemma fill_loop_chosen:
  assumes "chosen (fill_loop b render items True (i # is) (initial_fill b render items)) j = Some it"
    and "distinct (i # is)"
  shows "j \<in> set (i # is) \<and>
    (it = items ! j \<or> j = i \<and> truncate_item b render (items ! i) = Some it
       \<and> truncated (fill_loop b render items True (i # is) (initial_fill b render items)))"
proof -
  let ?s1 = "fill_step b render items True i (initial_fill b render items)"
  have "chosen ?s1 j = Some it \<or> j \<in> set is \<and> it = items ! j"
    using assms(1) by (auto dest: fill_loop_chosen_later)
  then show ?thesis
    by (auto simp: fill_step_chosen fill_step_truncated initial_fill_def split: if_splits)
qed

section \<open>The whole fit\<close>

definition fit_filled :: "context_budget \<Rightarrow> (budget_item list \<Rightarrow> ustr) \<Rightarrow> budget_item list
    \<Rightarrow> fill_state" where
  "fit_filled b render items =
     fill_loop b render items True (priority_order items) (initial_fill b render items)"

abbreviation "fit_chosen b render items \<equiv> chosen (fit_filled b render items)"

definition fit_trimmed :: "context_budget \<Rightarrow> (budget_item list \<Rightarrow> ustr) \<Rightarrow> budget_item list
    \<Rightarrow> nat list \<times> bool" where
  "fit_trimmed b render items = trim_loop b render items (fit_chosen b render items)
     (filter (\<lambda>i. fit_chosen b render items i \<noteq> None) [0..<length items])
     (truncated (fit_filled b render items))"

abbreviation "fit_keep b render items \<equiv> fst (fit_trimmed b render items)"

lemma budget_fit_eq: "budget_fit b render items =
  (let keep = fit_keep b render items; ch = fit_chosen b render items; text = render_kept render ch keep
   in \<lparr>fit_items = map (\<lambda>i. the (ch i)) keep, fit_text = text,
       fit_usage = usage_of b items ch keep text (snd (fit_trimmed b render items))\<rparr>)"
  by (simp add: budget_fit_def fit_filled_def fit_trimmed_def Let_def split: prod.splits)

lemma fit_items_eq: "fit_items (budget_fit b render items) =
    map (\<lambda>i. the (fit_chosen b render items i)) (fit_keep b render items)"
  by (simp add: budget_fit_eq Let_def)

lemma bu_truncated_eq: "bu_truncated (fit_usage (budget_fit b render items)) = snd (fit_trimmed b render items)"
  by (simp add: budget_fit_eq usage_of_def Let_def)

lemma fit_text_eq: "fit_text (budget_fit b render items) =
    render_kept render (fit_chosen b render items) (fit_keep b render items)"
  by (simp add: budget_fit_eq Let_def)

lemma fit_text_render: "fit_text (budget_fit b render items) =
    (if fit_items (budget_fit b render items) = [] then [] else render (fit_items (budget_fit b render items)))"
  by (simp add: fit_text_eq fit_items_eq render_kept_def)

lemma fit_keep_subseq: "subseq (fit_keep b render items)
    (filter (\<lambda>i. fit_chosen b render items i \<noteq> None) [0..<length items])"
  unfolding fit_trimmed_def by (rule trim_loop_subseq)

lemma fit_keep_subseq_upt: "subseq (fit_keep b render items) [0..<length items]"
  using fit_keep_subseq subseq_filter_left subseq_order.order_trans by blast

lemma fit_chosen_cases:
  assumes "i \<in> set (fit_keep b render items)"
  shows "i < length items \<and> (\<exists>it. fit_chosen b render items i = Some it \<and>
    (it = items ! i \<or> i = hd (priority_order items) \<and> truncate_item b render (items ! i) = Some it
       \<and> bu_truncated (fit_usage (budget_fit b render items))))"
proof -
  let ?s = "fit_filled b render items"
  have sub: "i \<in> set (filter (\<lambda>i. chosen ?s i \<noteq> None) [0..<length items])"
    using assms fit_keep_subseq subseq_set_mono by blast
  then obtain it where it: "chosen ?s i = Some it" and lt: "i < length items"
    by auto
  then obtain f fs where ord: "priority_order items = f # fs"
    using priority_order_set[of items] by (cases "priority_order items") auto
  have d: "distinct (f # fs)" using priority_order_distinct[of items] ord by simp
  from fill_loop_chosen[OF it[unfolded fit_filled_def ord] d]
  have c: "it = items ! i \<or> i = f \<and> truncate_item b render (items ! f) = Some it \<and> truncated ?s"
    by (simp add: ord fit_filled_def)
  have "truncated ?s \<Longrightarrow> i = f \<Longrightarrow> snd (fit_trimmed b render items)"
    using assms unfolding fit_trimmed_def by (intro trim_loop_flag) (auto simp: ord)
  with c it lt show ?thesis by (auto simp: ord bu_truncated_eq)
qed

lemma fit_items_subseq:
  "subseq (fit_items (budget_fit b render items))
     (map (\<lambda>i. if i \<in> set (fit_keep b render items) then the (fit_chosen b render items i) else items ! i)
        [0..<length items])" (is "subseq _ (map ?f _)")
proof -
  have "fit_items (budget_fit b render items) = map ?f (fit_keep b render items)"
    by (simp add: fit_items_eq)
  also have "subseq \<dots> (map ?f [0..<length items])"
    by (rule subseq_map[OF fit_keep_subseq_upt])
  finally show ?thesis .
qed

text \<open>C7: the rendered text of a fit never costs more tokens than the cap, under the budget's own
  counter and whatever the renderer adds (tags, headers); no assumption on either is needed.\<close>

theorem budget_hard_cap:
  "count_tokens b (fit_text (budget_fit b render items)) \<le> max_tokens b"
  unfolding fit_text_eq fit_trimmed_def by (rule trim_loop_fits)

text \<open>The kept items are the given items, whole and in the given order, except that the item
  that comes first by priority may be replaced by its cut, and then the usage says so.\<close>

theorem budget_whole_items_in_order:
  "subseq (fit_items (budget_fit b render items)) items
   \<or> bu_truncated (fit_usage (budget_fit b render items)) \<and>
     (\<exists>c. truncate_item b render (items ! hd (priority_order items)) = Some c \<and>
       subseq (fit_items (budget_fit b render items)) (items[hd (priority_order items) := c]))"
proof -
  let ?K = "set (fit_keep b render items)" and ?c = "fit_chosen b render items"
  let ?h = "hd (priority_order items)"
  let ?f = "\<lambda>i. if i \<in> ?K then the (?c i) else items ! i"
  show ?thesis
  proof (cases "?h \<in> ?K \<and> ?c ?h \<noteq> Some (items ! ?h)")
    case False
    have "items ! i = ?f (0 + i)" if "i < length items" for i
      using False fit_chosen_cases[of i b render items] by (cases "i = ?h") auto
    then have "map ?f [0..<length items] = items"
      by (intro map_upt_eqI) simp_all
    then show ?thesis using fit_items_subseq by metis
  next
    case True
    then obtain c where c: "?c ?h = Some c" "truncate_item b render (items ! ?h) = Some c"
      "bu_truncated (fit_usage (budget_fit b render items))" "?h < length items"
      using fit_chosen_cases[of ?h] by fastforce
    have "items[?h := c] ! i = ?f (0 + i)" if "i < length (items[?h := c])" for i
      using True c that fit_chosen_cases[of i b render items] by (cases "i = ?h") auto
    then have "map ?f [0..<length items] = items[?h := c]"
      by (intro map_upt_eqI) simp_all
    then show ?thesis using fit_items_subseq c by metis
  qed
qed

section \<open>The cut is the longest that fits\<close>

text \<open>Where a shorter prefix never costs more, the search returns the longest prefix that fits.\<close>

lemma truncate_search_longest:
  assumes "\<And>m n. lo0 \<le> m \<Longrightarrow> m \<le> n \<Longrightarrow> n \<le> hi0 \<Longrightarrow> cut_fits b render it n \<Longrightarrow> cut_fits b render it m"
    and "lo0 \<le> low" "high \<le> hi0"
    and "\<And>n. high < n \<Longrightarrow> n \<le> hi0 \<Longrightarrow> \<not> cut_fits b render it n"
    and "best = (if lo0 < low then Some (cut_item it (low - 1)) else None)"
    and "lo0 < low \<Longrightarrow> cut_fits b render it (low - 1)" "low \<le> high + 1"
  shows "(\<forall>n. lo0 \<le> n \<and> n \<le> hi0 \<longrightarrow> \<not> cut_fits b render it n)
        \<and> truncate_search b render it low high best = None
      \<or> (\<exists>n. lo0 \<le> n \<and> n \<le> hi0 \<and> cut_fits b render it n
        \<and> truncate_search b render it low high best = Some (cut_item it n)
        \<and> (\<forall>k. n < k \<and> k \<le> hi0 \<longrightarrow> \<not> cut_fits b render it k))"
  using assms
proof (induction b render it low high best rule: truncate_search.induct)
  case (1 b render it low high best)
  let ?m = "(low + high) div 2"
  show ?case
  proof (cases "low \<le> high")
    case False
    then have eq: "truncate_search b render it low high best = best" "low = high + 1"
      using "1.prems"(7) by (auto simp: truncate_search.simps[of _ _ _ low])
    show ?thesis
    proof (cases "lo0 < low")
      case True
      then show ?thesis
        using "1.prems" eq by (intro disjI2 exI[of _ "low - 1"]) auto
    next
      case False
      then show ?thesis using "1.prems" eq by (intro disjI1) auto
    qed
  next
    case True
    then have m: "low \<le> ?m" "?m \<le> high" by auto
    show ?thesis
    proof (cases "cut_fits b render it ?m")
      case fits: True
      have eq: "truncate_search b render it low high best =
          truncate_search b render it (?m + 1) high (Some (cut_item it ?m))"
        using True fits by (simp add: truncate_search.simps[of _ _ _ low] cut_fits_def Let_def)
      show ?thesis
        unfolding eq
        by (rule "1.IH"(1)[OF True refl refl fits[unfolded cut_fits_def] "1.prems"(1)])
          (use "1.prems" fits m in auto)
    next
      case fails: False
      have eq: "truncate_search b render it low high best = truncate_search b render it low (?m - 1) best"
        using True fails by (simp add: truncate_search.simps[of _ _ _ low] cut_fits_def Let_def)
      have above: "\<not> cut_fits b render it n" if "?m - 1 < n" "n \<le> hi0" for n
        using fails "1.prems"(1)[of ?m n] "1.prems"(2) m that by auto
      show ?thesis
        unfolding eq
        by (rule "1.IH"(2)[OF True refl refl fails[unfolded cut_fits_def] "1.prems"(1) "1.prems"(2) _
            above "1.prems"(5) "1.prems"(6)]) (use "1.prems" m in auto)
    qed
  qed
qed

text \<open>Where a longer prefix never costs less, the binary search of \<open>_truncate\<close> returns the
  longest prefix (of at least eight characters) whose rendering fits the cap, and nothing exactly
  when none fits.\<close>

theorem budget_cut_longest:
  assumes "\<And>m n. MIN_TRUNCATED_CHARS \<le> m \<Longrightarrow> m \<le> n \<Longrightarrow> n < int (length (it_text it)) \<Longrightarrow>
      cut_fits b render it n \<Longrightarrow> cut_fits b render it m"
  shows "(case truncate_item b render it of
      None \<Rightarrow> \<not> (\<exists>n. MIN_TRUNCATED_CHARS \<le> n \<and> n < int (length (it_text it)) \<and> cut_fits b render it n)
    | Some c \<Rightarrow> (\<exists>n. MIN_TRUNCATED_CHARS \<le> n \<and> n < int (length (it_text it)) \<and> c = cut_item it n
        \<and> cut_fits b render it n \<and> \<not> (\<exists>k. n < k \<and> k < int (length (it_text it)) \<and> cut_fits b render it k)))"
proof (cases "MIN_TRUNCATED_CHARS < int (length (it_text it))")
  case True
  then show ?thesis
    using truncate_search_longest[of MIN_TRUNCATED_CHARS "int (length (it_text it)) - 1" b render it
        MIN_TRUNCATED_CHARS "int (length (it_text it)) - 1" None] assms
    by (fastforce simp: truncate_item_def split: option.splits)
next
  case False
  then show ?thesis by (auto simp: truncate_item_def truncate_search.simps)
qed

section \<open>Usage accounts for every item\<close>

abbreviation section_items :: "budget_item list \<Rightarrow> budget_section \<Rightarrow> (nat \<Rightarrow> bool) \<Rightarrow> nat list \<Rightarrow> nat list" where
  "section_items items sec P is \<equiv> filter (\<lambda>i. it_section (items ! i) = sec \<and> P i) is"

lemma usage_step_apply:
  "usage_step b items ch keep i m s = (if it_section (items ! i) \<noteq> s then m s
     else Some (let old = (case m s of None \<Rightarrow> empty_usage | Some x \<Rightarrow> x)
       in if i \<in> set keep
           then \<lparr>su_included = su_included old + 1, su_dropped = su_dropped old,
                  su_tokens = su_tokens old + count_tokens b (it_text (the (ch i)))\<rparr>
           else \<lparr>su_included = su_included old, su_dropped = su_dropped old + 1,
                  su_tokens = su_tokens old\<rparr>))"
  by (auto simp: usage_step_def Let_def)

definition usage_at ::
  "context_budget \<Rightarrow> budget_item list \<Rightarrow> (nat \<Rightarrow> budget_item option) \<Rightarrow> nat list \<Rightarrow> budget_section
     \<Rightarrow> nat list \<Rightarrow> section_usage option" where
  "usage_at b items ch keep sec is =
     (if section_items items sec (\<lambda>_. True) is = [] then None
      else Some \<lparr>su_included = length (section_items items sec (\<lambda>i. i \<in> set keep) is),
        su_dropped = length (section_items items sec (\<lambda>i. i \<notin> set keep) is),
        su_tokens = sum_list (map (\<lambda>i. count_tokens b (it_text (the (ch i))))
          (section_items items sec (\<lambda>i. i \<in> set keep) is))\<rparr>)"

lemma usage_step_at:
  assumes "m sec = usage_at b items ch keep sec is"
  shows "usage_step b items ch keep i m sec = usage_at b items ch keep sec (is @ [i])"
proof -
  have none: "section_items items sec P is = []" if "section_items items sec (\<lambda>_. True) is = []" for P
    using that by (auto simp: filter_empty_conv)
  show ?thesis
    using none assms
    by (cases "it_section (items ! i) = sec"; cases "section_items items sec (\<lambda>_. True) is = []")
      (simp_all add: usage_step_apply usage_at_def Let_def empty_usage_def)
qed

lemma usage_fold:
  "fold (usage_step b items ch keep) is Map.empty sec = usage_at b items ch keep sec is"
proof (induction "is" rule: rev_induct)
  case (snoc i "is")
  have "fold (usage_step b items ch keep) (is @ [i]) Map.empty
      = usage_step b items ch keep i (fold (usage_step b items ch keep) is Map.empty)"
    by simp
  then show ?case
    using usage_step_at[where m = "fold (usage_step b items ch keep) is Map.empty", OF snoc.IH] by simp
qed (simp add: usage_at_def)

lemma sections_partition:
  "sum_list (map (\<lambda>s. length (section_items items s P is)) SECTIONS) = length (filter P is)"
proof (induction "is")
  case (Cons i "is")
  then show ?case
    by (cases "it_section (items ! i)") (auto simp: SECTIONS_def)
qed (simp add: SECTIONS_def)

lemma sum_list_map_filter_section:
  "(\<And>s. m s = None \<Longrightarrow> g s = 0) \<Longrightarrow> (\<And>s x. m s = Some x \<Longrightarrow> f x = g s) \<Longrightarrow>
   sum_list (map (f \<circ> snd) (List.map_filter (\<lambda>s. map_option (\<lambda>x. (s, x)) (m s)) xs)) = sum_list (map g xs)"
  for f :: "'a \<Rightarrow> nat"
  by (induction xs) (auto simp: List.map_filter_simps split: option.splits)

lemma usage_of_counts:
  "bu_included (usage_of b items ch keep text tr) = length (filter (\<lambda>i. i \<in> set keep) [0..<length items])"
  "bu_dropped (usage_of b items ch keep text tr) = length (filter (\<lambda>i. i \<notin> set keep) [0..<length items])"
proof -
  have none: "section_items items s (\<lambda>_. True) is = [] \<Longrightarrow> section_items items s P is = []" for s P "is"
    by (auto simp: filter_empty_conv)
  show "bu_included (usage_of b items ch keep text tr) = length (filter (\<lambda>i. i \<in> set keep) [0..<length items])"
    unfolding sections_partition[of items "\<lambda>i. i \<in> set keep", symmetric] bu_included_def usage_of_def Let_def
      budget_usage.simps
    by (rule sum_list_map_filter_section) (use none in \<open>auto simp: usage_fold usage_at_def split: if_splits\<close>)
  show "bu_dropped (usage_of b items ch keep text tr) = length (filter (\<lambda>i. i \<notin> set keep) [0..<length items])"
    unfolding sections_partition[of items "\<lambda>i. i \<notin> set keep", symmetric] bu_dropped_def usage_of_def Let_def
      budget_usage.simps
    by (rule sum_list_map_filter_section) (use none in \<open>auto simp: usage_fold usage_at_def split: if_splits\<close>)
qed

lemma length_fit_keep:
  "length (filter (\<lambda>i. i \<in> set (fit_keep b render items)) [0..<length items]) = length (fit_keep b render items)"
proof -
  have d: "distinct (fit_keep b render items)"
    using fit_keep_subseq_upt by (rule subseq_distinct) simp
  have "set (filter (\<lambda>i. i \<in> set (fit_keep b render items)) [0..<length items]) = set (fit_keep b render items)"
    using subseq_set_mono[OF fit_keep_subseq_upt[of b render items]] by auto
  then show ?thesis
    using d by (metis distinct_card distinct_filter distinct_upt)
qed


text \<open>The usage report accounts for every item: the included count is the number of kept items,
  included and dropped together are all items, and the used tokens are those of the final text.\<close>

theorem budget_usage_accounts:
  "bu_included (fit_usage (budget_fit b render items)) = length (fit_items (budget_fit b render items))
   \<and> bu_included (fit_usage (budget_fit b render items)) + bu_dropped (fit_usage (budget_fit b render items))
       = length items
   \<and> bu_used_tokens (fit_usage (budget_fit b render items)) = count_tokens b (fit_text (budget_fit b render items))"
  using length_fit_keep[of b render items]
    sum_length_filter_compl[of "\<lambda>i. i \<in> set (fit_keep b render items)" "[0..<length items]"]
  by (simp add: budget_fit_eq Let_def usage_of_counts) (simp add: usage_of_def Let_def)

section \<open>Nothing is dropped from a selection that fits\<close>

lemma fill_loop_all:
  assumes "sum_list (map (\<lambda>i. int (count_tokens b (it_text (items ! i))) + 1) is) \<le> remaining s"
    "\<forall>i\<in>set is. \<not> has_group (items ! i)"
  shows "(\<forall>i. chosen (fill_loop b render items fs is s) i =
      (if i \<in> set is then Some (items ! i) else chosen s i))
    \<and> truncated (fill_loop b render items fs is s) = truncated s"
  using assms
proof (induction b render items fs "is" s rule: fill_loop.induct)
  case (2 b render items fs i "is" s)
  let ?c = "\<lambda>i. int (count_tokens b (it_text (items ! i))) + 1"
  have nonneg: "0 \<le> sum_list (map ?c is)" by (rule sum_list_nonneg) auto
  have cost: "item_cost b (groups s) (items ! i) = ?c i" and le: "?c i \<le> remaining s"
    using "2.prems" nonneg by (auto simp: item_cost_def)
  have step: "fill_step b render items fs i s =
      charge (items ! i) (?c i) (s\<lparr>chosen := (chosen s)(i \<mapsto> items ! i)\<rparr>)"
    using cost le by (simp add: fill_step_def Let_def)
  have rem: "remaining (fill_step b render items fs i s) = remaining s - ?c i"
    "truncated (fill_step b render items fs i s) = truncated s"
    "chosen (fill_step b render items fs i s) = (chosen s)(i \<mapsto> items ! i)"
    by (simp_all add: step charge_def)
  have fits: "sum_list (map ?c is) \<le> remaining (fill_step b render items fs i s)"
    using "2.prems"(1) unfolding rem by simp
  show ?case
    using "2.IH"[OF fits] "2.prems"(2) by (simp add: rem)
qed simp

lemma trim_loop_fitting:
  "count_tokens b (render_kept render ch keep) \<le> max_tokens b \<Longrightarrow>
   trim_loop b render items ch keep tr = (keep, tr)"
  by (cases keep) (simp_all add: trim_loop_done)

lemma estimate_tokens_append_bound:
  "estimate_tokens (py_join [10] xs) \<le> sum_list (map (\<lambda>x. int (nat (estimate_tokens x)) + 1) xs)"
proof -
  have each: "int (length x) \<le> 4 * int (nat (estimate_tokens x))" for x
    by (auto simp: estimate_tokens_def)
  have len: "int (length (py_join [10] xs)) \<le> 4 * sum_list (map (\<lambda>x. int (nat (estimate_tokens x)) + 1) xs)" for xs
  proof (induction "[10::nat]" xs rule: py_join.induct)
    case (2 x)
    then show ?case using each[of x] by simp
  next
    case (3 x y ys)
    then show ?case using each[of x] by simp
  qed simp
  have "4 * estimate_tokens (py_join [10] xs) \<le> int (length (py_join [10] xs)) + 3" by (auto simp: estimate_tokens_def)
  with len[of xs] show ?thesis by linarith
qed

lemma render_from_plain:
  "\<forall>it\<in>set its. \<not> has_group it \<Longrightarrow> render_from g its = map it_text its"
  by (induction g its rule: render_from.induct) auto

lemma render_lines_cost:
  assumes "token_counter b = None" "\<forall>it\<in>set its. \<not> has_group it"
  shows "int (count_tokens b (render_lines its)) \<le> sum_list (map (\<lambda>it. int (count_tokens b (it_text it)) + 1) its)"
proof -
  have c: "count_tokens b t = nat (estimate_tokens t)" for t
    using assms(1) by (simp add: count_tokens_def estimate_tokens_def)
  have nn: "0 \<le> sum_list (map (\<lambda>x. int (nat (estimate_tokens x)) + 1) (map it_text its))"
    by (rule sum_list_nonneg) auto
  show ?thesis
    using estimate_tokens_append_bound[of "map it_text its"] nn
    by (simp add: c render_lines_def render_from_plain[OF assms(2)] comp_def)
qed

text \<open>With the default counter and the plain renderer, items without group headers whose line
  costs fit the cap together are all kept and none is cut: the final verification removes nothing.\<close>

theorem budget_keeps_what_fits:
  assumes "token_counter b = None" "\<forall>it\<in>set items. \<not> has_group it"
    "sum_list (map (\<lambda>it. count_tokens b (it_text it) + 1) items) \<le> max_tokens b"
  shows "fit_items (budget_fit b render_lines items) = items
    \<and> \<not> bu_truncated (fit_usage (budget_fit b render_lines items))"
proof -
  let ?ord = "priority_order items" and ?s0 = "initial_fill b render_lines items"
  have "sum_list (map (\<lambda>i. int (count_tokens b (it_text (items ! i))) + 1) ?ord)
      = sum_list (map (\<lambda>i. int (count_tokens b (it_text (items ! i))) + 1) [0..<length items])"
    unfolding priority_order_def by (rule sum_list_map_sort_key)
  also have "\<dots> = sum_list (map (\<lambda>it. int (count_tokens b (it_text it)) + 1) (map ((!) items) [0..<length items]))"
    by (simp only: map_map comp_def)
  also have "\<dots> = int (sum_list (map (\<lambda>it. count_tokens b (it_text it) + 1) items))"
    by (simp add: map_nth int_sum_list_map add.commute)
  finally have sum: "sum_list (map (\<lambda>i. int (count_tokens b (it_text (items ! i))) + 1) ?ord)
      = int (sum_list (map (\<lambda>it. count_tokens b (it_text it) + 1) items))" .
  have probe: "render_lines [overhead_probe] = []"
    by (simp add: render_lines_def overhead_probe_def has_group_def)
  have fits: "sum_list (map (\<lambda>i. int (count_tokens b (it_text (items ! i))) + 1) ?ord) \<le> remaining ?s0"
    using assms(3) by (simp add: sum initial_fill_def probe)
  have ng: "\<forall>i\<in>set ?ord. \<not> has_group (items ! i)" using assms(2) by simp
  note all = fill_loop_all[OF fits ng, of render_lines True]
  have ch: "i < length items \<Longrightarrow> fit_chosen b render_lines items i = Some (items ! i)" for i
    using all by (simp add: fit_filled_def)
  have idx: "filter (\<lambda>i. fit_chosen b render_lines items i \<noteq> None) [0..<length items] = [0..<length items]"
    by (rule filter_True) (use ch in auto)
  have tx: "map (\<lambda>i. the (fit_chosen b render_lines items i)) [0..<length items] = items"
    by (rule map_upt_eqI) (use ch in auto)
  have "int (count_tokens b (render_lines items)) \<le> int (sum_list (map (\<lambda>it. count_tokens b (it_text it) + 1) items))"
    using render_lines_cost[OF assms(1,2)] by (simp only: int_sum_list_map of_nat_add of_nat_1)
  then have "count_tokens b (render_lines items) \<le> max_tokens b"
    using assms(3) by linarith
  then have fit: "count_tokens b (render_kept render_lines (fit_chosen b render_lines items) [0..<length items])
      \<le> max_tokens b" by (simp add: render_kept_def tx)
  have trimmed: "fit_trimmed b render_lines items = ([0..<length items], truncated (fit_filled b render_lines items))"
    unfolding fit_trimmed_def idx by (rule trim_loop_fitting[OF fit])
  have "\<not> truncated (fit_filled b render_lines items)"
    using all by (simp add: fit_filled_def initial_fill_def)
  then show ?thesis
    by (simp add: fit_items_eq bu_truncated_eq trimmed tx)
qed

section \<open>Witnesses\<close>

definition wit_budget :: context_budget where
  "wit_budget = \<lparr>max_tokens = 4, budget_fill = False, token_counter = None\<rparr>"

definition wit_line :: "nat \<Rightarrow> budget_item" where
  "wit_line n = \<lparr>it_section = SCorrections, it_text = replicate n 97, it_group = None, it_ref = None\<rparr>"

lemma py_rstrip_replicate: "\<not> py_isspace c \<Longrightarrow> py_rstrip (replicate n c) = replicate n c"
proof -
  assume "\<not> py_isspace c"
  then have "dropWhile py_isspace (replicate n c) = replicate n c" by (cases n) simp_all
  then show ?thesis by (simp add: py_rstrip_def)
qed

lemma wit_cut_fits:
  assumes "8 \<le> n" "n < 40"
  shows "cut_fits wit_budget render_lines (wit_line 40) n \<longleftrightarrow> n \<le> 15"
  using assms
  by (auto simp: cut_fits_def cut_item_def wit_line_def wit_budget_def render_lines_def has_group_def
      count_tokens_def estimate_tokens_def py_rstrip_replicate py_isspace_def min_def)

lemma budget_cut_longest_witness:
  "\<exists>n. truncate_item wit_budget render_lines (wit_line 40) = Some (cut_item (wit_line 40) n) \<and> n = 15"
proof -
  have len: "length (it_text (wit_line 40)) = 40" by (simp add: wit_line_def)
  have fit: "cut_fits wit_budget render_lines (wit_line 40) 15" by (simp add: wit_cut_fits)
  have "case truncate_item wit_budget render_lines (wit_line 40) of
      None \<Rightarrow> \<not> (\<exists>n. MIN_TRUNCATED_CHARS \<le> n \<and> n < int (length (it_text (wit_line 40)))
          \<and> cut_fits wit_budget render_lines (wit_line 40) n)
    | Some c \<Rightarrow> (\<exists>n. MIN_TRUNCATED_CHARS \<le> n \<and> n < int (length (it_text (wit_line 40)))
        \<and> c = cut_item (wit_line 40) n \<and> cut_fits wit_budget render_lines (wit_line 40) n
        \<and> \<not> (\<exists>k. n < k \<and> k < int (length (it_text (wit_line 40)))
              \<and> cut_fits wit_budget render_lines (wit_line 40) k))"
    by (rule budget_cut_longest) (auto simp: MIN_TRUNCATED_CHARS_def len wit_cut_fits)
  then show ?thesis
    using fit by (force simp: MIN_TRUNCATED_CHARS_def len wit_cut_fits split: option.splits)
qed

lemma budget_keeps_what_fits_witness:
  "fit_items (budget_fit wit_budget render_lines [wit_line 8, wit_line 0]) = [wit_line 8, wit_line 0]"
proof -
  have "fit_items (budget_fit wit_budget render_lines [wit_line 8, wit_line 0]) = [wit_line 8, wit_line 0]
    \<and> \<not> bu_truncated (fit_usage (budget_fit wit_budget render_lines [wit_line 8, wit_line 0]))"
    by (rule budget_keeps_what_fits)
      (simp_all add: wit_budget_def wit_line_def has_group_def count_tokens_def estimate_tokens_def)
  then show ?thesis by simp
qed

text \<open>\<open>render_lines\<close> prints a group header whenever the group changes, so a group that is
  interrupted has its header twice, while the fill charges it once.\<close>

lemma render_lines_repeats_header:
  "render_lines [\<lparr>it_section = SFacts, it_text = u ''a'', it_group = Some (u ''H''), it_ref = None\<rparr>,
     \<lparr>it_section = SFacts, it_text = u ''b'', it_group = None, it_ref = None\<rparr>,
     \<lparr>it_section = SFacts, it_text = u ''c'', it_group = Some (u ''H''), it_ref = None\<rparr>]
   = py_join [10] [u ''H'', u ''a'', u ''b'', u ''H'', u ''c'']"
  by (simp add: render_lines_def has_group_def)

end
