(* ===== verification/Py_Text.thy ===== *)
theory Py_Text
  imports Mark_Prelude
begin

text \<open>
  Python's text operations that several components use, beyond the prelude: splitting at white
  space and at a separator, with the laws that say what joining, stripping and concatenating do to
  the words of a text.
\<close>

section \<open>Words: str.split()\<close>

fun words_acc :: "ustr \<Rightarrow> ustr \<Rightarrow> ustr list" where
  "words_acc cur [] = (if cur = [] then [] else [rev cur])"
| "words_acc cur (c # cs) =
     (if py_isspace c then (if cur = [] then words_acc [] cs else rev cur # words_acc [] cs)
      else words_acc (c # cur) cs)"

definition py_split :: "ustr \<Rightarrow> ustr list" where
  "py_split s = words_acc [] s"

lemma py_split_Nil [simp]: "py_split [] = []"
  by (simp add: py_split_def)

lemma words_acc_space: "py_isspace c \<Longrightarrow> words_acc cur (a @ c # b) = words_acc cur a @ py_split b"
  by (induction cur a rule: words_acc.induct) (simp_all add: py_split_def)

lemma py_split_space: "py_isspace c \<Longrightarrow> py_split (a @ c # b) = py_split a @ py_split b"
  using words_acc_space[of c "[]" a b] by (simp add: py_split_def)

lemma py_split_skip: "py_isspace c \<Longrightarrow> py_split (c # b) = py_split b"
  using py_split_space[of c "[]" b] by simp

lemma py_split_snoc: "py_isspace c \<Longrightarrow> py_split (a @ [c]) = py_split a"
  using py_split_space[of c a "[]"] by simp

lemma py_split_drop: "py_split (dropWhile py_isspace s) = py_split s"
  by (induction s) (simp_all add: py_split_skip)

lemma py_split_spaces: "\<forall>c\<in>set b. py_isspace c \<Longrightarrow> py_split (a @ b) = py_split a"
proof (induction b rule: rev_induct)
  case (snoc c b)
  then show ?case using py_split_snoc[of c "a @ b"] by simp
qed simp

lemma py_split_blank: "\<forall>c\<in>set b. py_isspace c \<Longrightarrow> py_split b = []"
  using py_split_spaces[of b "[]"] by simp

lemma py_rstrip_split: "\<exists>b. s = py_rstrip s @ b \<and> (\<forall>c\<in>set b. py_isspace c)"
proof -
  have "rev s = takeWhile py_isspace (rev s) @ dropWhile py_isspace (rev s)" by simp
  then have "s = py_rstrip s @ rev (takeWhile py_isspace (rev s))"
    unfolding py_rstrip_def by (metis rev_append rev_rev_ident)
  then show ?thesis by (metis set_rev set_takeWhileD)
qed

lemma py_split_strip [simp]: "py_split (py_strip s) = py_split s"
  by (metis py_lstrip_def py_rstrip_split py_split_drop py_split_spaces py_strip_def)

lemma py_split_join: "py_isspace c \<Longrightarrow> py_split (py_join [c] xs) = concat (map py_split xs)"
  by (induction "[c]" xs rule: py_join.induct) (simp_all add: py_split_space)

lemma words_acc_words:
  "list_all (\<lambda>c. \<not> py_isspace c) cur \<Longrightarrow>
   list_all (\<lambda>w. w \<noteq> [] \<and> list_all (\<lambda>c. \<not> py_isspace c) w) (words_acc cur s)"
  by (induction cur s rule: words_acc.induct) simp_all

lemma py_split_word: "w \<in> set (py_split s) \<Longrightarrow> w \<noteq> [] \<and> (\<forall>c\<in>set w. \<not> py_isspace c)"
  using words_acc_words[of "[]" s] by (simp add: py_split_def list_all_iff)

lemma words_acc_single: "\<forall>c\<in>set w. \<not> py_isspace c \<Longrightarrow> words_acc cur w = words_acc (rev w @ cur) []"
  by (induction w arbitrary: cur) simp_all

lemma py_split_one: "w \<noteq> [] \<Longrightarrow> \<forall>c\<in>set w. \<not> py_isspace c \<Longrightarrow> py_split w = [w]"
  by (simp add: py_split_def words_acc_single)

section \<open>Splitting at a separator: s.split(c)\<close>

fun split_on :: "nat \<Rightarrow> ustr \<Rightarrow> ustr list" where
  "split_on d [] = [[]]"
| "split_on d (c # cs) =
     (if c = d then [] # split_on d cs else (case split_on d cs of [] \<Rightarrow> [[c]] | x # xs \<Rightarrow> (c # x) # xs))"

lemma split_on_ne [simp]: "split_on d s \<noteq> []"
  by (induction d s rule: split_on.induct) (auto split: list.splits)

lemma split_on_join [simp]: "py_join [d] (split_on d s) = s"
proof (induction d s rule: split_on.induct)
  case (2 d c cs)
  show ?case
  proof (cases "split_on d cs")
    case (Cons x xs)
    with 2 show ?thesis by (cases xs) auto
  qed simp
qed simp

lemma split_on_parts: "x \<in> set (split_on d s) \<Longrightarrow> d \<notin> set x"
  by (induction d s arbitrary: x rule: split_on.induct) (auto split: list.splits if_splits)

lemma split_on_word: "d \<notin> set s \<Longrightarrow> split_on d s = [s]"
  by (induction d s rule: split_on.induct) auto

lemma split_on_join_inverse:
  "xs \<noteq> [] \<Longrightarrow> \<forall>x\<in>set xs. d \<notin> set x \<Longrightarrow> split_on d (py_join [d] xs) = xs"
proof (induction "[d]" xs rule: py_join.induct)
  case (3 x y ys)
  have "split_on d (x @ d # r) = x # split_on d r" if "d \<notin> set x" for x r
    using that by (induction x) auto
  with 3 show ?case by simp
qed (simp_all add: split_on_word)

end
