(* ===== verification/Chunking.thy ===== *)
theory Chunking
  imports Py_Text
begin

text \<open>
  Document chunking (\<open>documents/chunking.py\<close>): a document becomes sections of blocks
  (paragraphs and fenced code under a heading path, or top-level definitions of a source file), and
  the blocks of a section are packed into chunks within a token budget, with an overlap. Texts are
  lists of code points. The regular expressions are written out as the functions they denote; the
  table of word characters (\<open>\w\<close>) is the parameter \<open>wd\<close>.
\<close>

section \<open>Regular expressions\<close>

text \<open>\<open>_TOKEN\<close>: a run of word characters, or one other character that is no white
  space. \<open>inw\<close> says that the scan is inside a word.\<close>

fun count_tokens_from :: "(nat \<Rightarrow> bool) \<Rightarrow> bool \<Rightarrow> ustr \<Rightarrow> nat" where
  "count_tokens_from wd inw [] = 0"
| "count_tokens_from wd inw (c # cs) =
     (if py_isspace c then count_tokens_from wd False cs
      else if wd c then (if inw then 0 else 1) + count_tokens_from wd True cs
      else 1 + count_tokens_from wd False cs)"

definition estimate_tokens :: "(nat \<Rightarrow> bool) \<Rightarrow> ustr \<Rightarrow> nat" where
  "estimate_tokens wd s = count_tokens_from wd False s"

text \<open>\<open>_HEADING\<close>: at most three spaces, one to six \<open>#\<close>, white space, the title
  (lazily: the shortest one after which only spaces, closing \<open>#\<close> and spaces follow). A
  heading of white space alone needs two of them and has an empty title.\<close>

definition indent_ok :: "ustr \<Rightarrow> bool" where
  "indent_ok s \<longleftrightarrow> length (takeWhile py_isspace s) \<le> 3"

definition closing :: "ustr \<Rightarrow> bool" where
  "closing t \<longleftrightarrow> dropWhile py_isspace (dropWhile (\<lambda>c. c = 35) (dropWhile py_isspace t)) = []"

definition lazy_title :: "ustr \<Rightarrow> ustr" where
  "lazy_title rest = take (hd (filter (\<lambda>n. closing (drop n rest)) [1..<length rest + 1])) rest"

definition heading :: "ustr \<Rightarrow> (nat \<times> ustr) option" where
  "heading line =
     (let s = dropWhile py_isspace line; hashes = length (takeWhile (\<lambda>c. c = 35) s); s1 = drop hashes s;
          gap = length (takeWhile py_isspace s1); rest = drop gap s1
      in if \<not> indent_ok line \<or> hashes = 0 \<or> hashes > 6 \<or> gap = 0 then None
         else if rest \<noteq> [] then Some (hashes, py_strip (lazy_title rest))
         else if gap \<ge> 2 then Some (hashes, []) else None)"

text \<open>\<open>_FENCE\<close>: at most three spaces and a run of at least three backticks or tildes, the
  fence mark.\<close>

definition fence_mark :: "ustr \<Rightarrow> ustr option" where
  "fence_mark line =
     (let s = dropWhile py_isspace line; ticks = takeWhile (\<lambda>c. c = 96) s; tildes = takeWhile (\<lambda>c. c = 126) s
      in if \<not> indent_ok line then None
         else if length ticks \<ge> 3 then Some ticks else if length tildes \<ge> 3 then Some tildes else None)"

text \<open>\<open>_SENTENCE_END.split\<close>: cut at the white space between a full stop, exclamation or
  question mark and an ASCII capital or digit, perhaps after an opening quote or bracket.\<close>

definition starts_sentence :: "ustr \<Rightarrow> bool" where
  "starts_sentence s =
     (let cap = (\<lambda>t. case t of [] \<Rightarrow> False | c # cs \<Rightarrow> 65 \<le> c \<and> c \<le> 90 \<or> 48 \<le> c \<and> c \<le> 57)
      in cap s \<or> (case s of c # cs \<Rightarrow> c \<in> {34, 39, 40, 91} \<and> cap cs | [] \<Rightarrow> False))"

definition sentence_ends :: "ustr \<Rightarrow> nat \<Rightarrow> ustr \<Rightarrow> bool" where
  "sentence_ends acc c cs \<longleftrightarrow> (case acc of d # ds \<Rightarrow> d \<in> {46, 33, 63} | [] \<Rightarrow> False)
     \<and> py_isspace c \<and> starts_sentence (dropWhile py_isspace cs)"

function sentences_from :: "ustr \<Rightarrow> ustr \<Rightarrow> ustr list" where
  "sentences_from acc [] = [rev acc]"
| "sentences_from acc (c # cs) =
     (if sentence_ends acc c cs then rev acc # sentences_from [] (dropWhile py_isspace cs)
      else sentences_from (c # acc) cs)"
  by pat_completeness auto
termination
  by (relation "measure (\<lambda>(acc, s). length s)") (auto simp: length_dropWhile_le le_imp_less_Suc)

definition split_sentences :: "ustr \<Rightarrow> ustr list" where
  "split_sentences s = sentences_from [] s"

section \<open>Sections\<close>

text \<open>\<open>text.replace("\r\n", "\n").split("\n")\<close>.\<close>

fun drop_cr :: "ustr \<Rightarrow> ustr" where
  "drop_cr (c # d # cs) = (if c = 13 \<and> d = 10 then 10 # drop_cr cs else c # drop_cr (d # cs))"
| "drop_cr cs = cs"

definition text_lines :: "ustr \<Rightarrow> ustr list" where
  "text_lines s = split_on 10 (drop_cr s)"

abbreviation lines_text :: "ustr list \<Rightarrow> ustr" where
  "lines_text ls \<equiv> py_join [10] ls"

type_synonym section_blocks = "ustr list \<times> ustr list"

record scan =
  sc_sections :: "section_blocks list"
  sc_stack :: "(nat \<times> ustr) list"
  sc_blocks :: "ustr list"
  sc_paragraph :: "ustr list"
  sc_fence :: "(ustr list \<times> ustr) option"

definition scan_start :: scan where
  "scan_start = \<lparr>sc_sections = [], sc_stack = [], sc_blocks = [], sc_paragraph = [], sc_fence = None\<rparr>"

definition section_path :: "ustr list \<Rightarrow> scan \<Rightarrow> ustr list" where
  "section_path base s = base @ map snd (sc_stack s)"

definition end_paragraph :: "scan \<Rightarrow> scan" where
  "end_paragraph s = (if sc_paragraph s \<noteq> []
     then s\<lparr>sc_blocks := sc_blocks s @ [py_strip (lines_text (sc_paragraph s))], sc_paragraph := []\<rparr> else s)"

definition end_section :: "ustr list \<Rightarrow> scan \<Rightarrow> scan" where
  "end_section base s = (if sc_blocks s \<noteq> []
     then s\<lparr>sc_sections := sc_sections s @ [(section_path base s, sc_blocks s)]\<rparr> else s)"

definition starts_with :: "ustr \<Rightarrow> ustr \<Rightarrow> bool" where
  "starts_with mark s \<longleftrightarrow> take (length mark) s = mark"

definition scan_line :: "ustr list \<Rightarrow> ustr \<Rightarrow> scan \<Rightarrow> scan" where
  "scan_line base line s =
     (case sc_fence s of
        Some (fl, mark) \<Rightarrow>
          (if starts_with mark (py_strip line)
           then s\<lparr>sc_blocks := sc_blocks s @ [lines_text (fl @ [line])], sc_fence := None\<rparr>
           else s\<lparr>sc_fence := Some (fl @ [line], mark)\<rparr>)
      | None \<Rightarrow>
          (case fence_mark line of
             Some mark \<Rightarrow> (end_paragraph s)\<lparr>sc_fence := Some ([line], mark)\<rparr>
           | None \<Rightarrow>
               (case heading line of
                  Some (level, name) \<Rightarrow>
                    (let s1 = end_section base (end_paragraph s)
                     in s1\<lparr>sc_blocks := [], sc_stack := filter (\<lambda>(l, n). l < level) (sc_stack s1) @ [(level, name)]\<rparr>)
                | None \<Rightarrow>
                    if py_strip line \<noteq> [] then s\<lparr>sc_paragraph := sc_paragraph s @ [line]\<rparr> else end_paragraph s)))"

definition scan_end :: "ustr list \<Rightarrow> scan \<Rightarrow> section_blocks list" where
  "scan_end base s =
     (let s1 = (case sc_fence s of Some (fl, mark) \<Rightarrow> s\<lparr>sc_blocks := sc_blocks s @ [lines_text fl]\<rparr> | None \<Rightarrow> s)
      in sc_sections (end_section base (end_paragraph s1)))"

definition has_h1 :: "ustr list \<Rightarrow> bool" where
  "has_h1 ls \<longleftrightarrow> (\<exists>l\<in>set ls. case heading l of Some (level, name) \<Rightarrow> level = 1 | None \<Rightarrow> False)"

definition title_root :: "ustr option \<Rightarrow> ustr list" where
  "title_root title = (case title of Some t \<Rightarrow> if t \<noteq> [] then [t] else [] | None \<Rightarrow> [])"

definition markdown_sections :: "ustr \<Rightarrow> ustr option \<Rightarrow> section_blocks list" where
  "markdown_sections t title =
     (let ls = text_lines t; base = (if has_h1 ls then [] else title_root title)
      in scan_end base (fold (scan_line base) ls scan_start))"

text \<open>\<open>_TOP_LEVEL\<close>: one of the keywords, at the start of the line and ending at a word
  boundary; the words of a two-word keyword are separated by white space.\<close>

fun keyword_rest :: "string list \<Rightarrow> ustr \<Rightarrow> ustr option" where
  "keyword_rest [] s = Some s"
| "keyword_rest (w # ws) s =
     (if starts_with (u w) s
      then (let r = drop (length w) s
            in if ws = [] then Some r
               else if takeWhile py_isspace r = [] then None else keyword_rest ws (dropWhile py_isspace r))
      else None)"

definition TOP_LEVEL :: "string list list" where
  "TOP_LEVEL = [[''async'', ''def''], [''def''], [''class''], [''function''], [''fn''], [''func''], [''pub'', ''fn''],
     [''impl''], [''struct''], [''interface''], [''type''], [''const''], [''let''],
     [''export'', ''function''], [''export'', ''class''], [''export'', ''const''],
     [''export'', ''default'', ''function''], [''export'', ''default'', ''class''], [''export'', ''default'', ''const'']]"

definition top_level :: "(nat \<Rightarrow> bool) \<Rightarrow> ustr \<Rightarrow> bool" where
  "top_level wd line \<longleftrightarrow> list_ex (\<lambda>k. case keyword_rest k line of
     None \<Rightarrow> False | Some r \<Rightarrow> (case r of [] \<Rightarrow> True | c # cs \<Rightarrow> \<not> wd c)) TOP_LEVEL"

text \<open>\<open>" ".join(line.split("(")[0].split(":")[0].split()[:3])\<close>.\<close>

definition definition_name :: "ustr \<Rightarrow> ustr" where
  "definition_name line = py_join [32] (take 3 (py_split (hd (split_on 58 (hd (split_on 40 line))))))"

definition strip_newlines :: "ustr \<Rightarrow> ustr" where
  "strip_newlines s = rev (dropWhile (\<lambda>c. c = 10) (rev (dropWhile (\<lambda>c. c = 10) s)))"

definition code_section :: "ustr list \<Rightarrow> ustr option \<Rightarrow> ustr list \<Rightarrow> section_blocks list" where
  "code_section base name current = (if py_strip (lines_text current) = [] then []
     else [(base @ title_root name, [strip_newlines (lines_text current)])])"

fun code_scan :: "(nat \<Rightarrow> bool) \<Rightarrow> ustr list \<Rightarrow> ustr option \<Rightarrow> ustr list \<Rightarrow> ustr list \<Rightarrow> section_blocks list" where
  "code_scan wd base name current [] = code_section base name current"
| "code_scan wd base name current (line # ls) =
     (if top_level wd line
      then code_section base name current @ code_scan wd base (Some (definition_name line)) [line] ls
      else code_scan wd base name (current @ [line]) ls)"

definition code_sections :: "(nat \<Rightarrow> bool) \<Rightarrow> ustr \<Rightarrow> ustr option \<Rightarrow> section_blocks list" where
  "code_sections wd t title = code_scan wd (title_root title) None [] (text_lines t)"

section \<open>Packing\<close>

text \<open>The exceptions: a refused argument, \<open>parts[0]\<close> of an empty list, and
  \<open>.group\<close> of no match.\<close>

datatype chunk_error = BadArgument | NoParts | NoMatch

text \<open>A piece: the separator that goes before it when it follows another piece, and its text.\<close>

type_synonym piece = "ustr \<times> ustr"

fun pack_words :: "(nat \<Rightarrow> bool) \<Rightarrow> nat \<Rightarrow> ustr list \<Rightarrow> ustr list \<Rightarrow> ustr list" where
  "pack_words wd budget cur [] = (if cur = [] then [] else [py_join [32] cur])"
| "pack_words wd budget cur (w # ws) =
     (if cur \<noteq> [] \<and> estimate_tokens wd (py_join [32] (cur @ [w])) > budget
      then py_join [32] cur # pack_words wd budget [w] ws else pack_words wd budget (cur @ [w]) ws)"

definition split_words :: "(nat \<Rightarrow> bool) \<Rightarrow> nat \<Rightarrow> ustr \<Rightarrow> ustr list" where
  "split_words wd budget s = pack_words wd budget [] (py_split s)"

fun pack_lines :: "(nat \<Rightarrow> bool) \<Rightarrow> nat \<Rightarrow> ustr \<Rightarrow> ustr \<Rightarrow> ustr list \<Rightarrow> ustr list \<Rightarrow> ustr list" where
  "pack_lines wd cap opener mark cur [] = (if cur = [] then [] else [lines_text (opener # cur @ [mark])])"
| "pack_lines wd cap opener mark cur (l # ls) =
     (if cur \<noteq> [] \<and> estimate_tokens wd (lines_text (cur @ [l])) > cap
      then lines_text (opener # cur @ [mark]) # pack_lines wd cap opener mark [l] ls
      else pack_lines wd cap opener mark (cur @ [l]) ls)"

definition split_fence :: "(nat \<Rightarrow> bool) \<Rightarrow> nat \<Rightarrow> ustr \<Rightarrow> chunk_error + ustr list" where
  "split_fence wd cap block =
     (let ls = split_on 10 block
      in case fence_mark (hd ls) of
           None \<Rightarrow> Inl NoMatch
         | Some mark \<Rightarrow> Inr (pack_lines wd cap (hd ls) mark [] (filter (\<lambda>l. fence_mark l = None) (List.tl ls))))"

definition fence_cap :: "nat \<Rightarrow> nat" where
  "fence_cap budget = max (budget * 8) 2000"

definition split_block :: "(nat \<Rightarrow> bool) \<Rightarrow> nat \<Rightarrow> ustr \<Rightarrow> chunk_error + ustr list" where
  "split_block wd budget block =
     (if estimate_tokens wd block \<le> budget then Inr [block]
      else if fence_mark block \<noteq> None
      then (if estimate_tokens wd block \<le> fence_cap budget then Inr [block] else split_fence wd (fence_cap budget) block)
      else Inr (concat (map (\<lambda>s. if estimate_tokens wd s \<le> budget then [s] else split_words wd budget s)
             (split_sentences block))))"

definition block_pieces :: "ustr \<Rightarrow> ustr list \<Rightarrow> chunk_error + piece list" where
  "block_pieces block parts =
     (case parts of [] \<Rightarrow> Inl NoParts
      | x # xs \<Rightarrow> Inr (([10, 10], x) # map (\<lambda>y. (if fence_mark block = None then [32] else [10, 10], y)) xs))"

fun pieces :: "(nat \<Rightarrow> bool) \<Rightarrow> nat \<Rightarrow> ustr list \<Rightarrow> chunk_error + piece list" where
  "pieces wd budget [] = Inr []"
| "pieces wd budget (b # bs) =
     bind_res (split_block wd budget b) (\<lambda>parts. bind_res (block_pieces b parts) (\<lambda>ps.
       bind_res (pieces wd budget bs) (\<lambda>qs. Inr (ps @ qs))))"

definition piece_cost :: "(nat \<Rightarrow> bool) \<Rightarrow> piece \<Rightarrow> nat" where
  "piece_cost wd p = estimate_tokens wd (snd p)"

fun tail_loop :: "(nat \<Rightarrow> bool) \<Rightarrow> nat \<Rightarrow> piece list \<Rightarrow> nat \<Rightarrow> piece list \<Rightarrow> piece list" where
  "tail_loop wd most kept sz [] = kept"
| "tail_loop wd most kept sz (p # ps) =
     (if fence_mark (snd p) \<noteq> None \<or> sz + piece_cost wd p > most then kept
      else tail_loop wd most (p # kept) (sz + piece_cost wd p) ps)"

definition tail_pieces :: "(nat \<Rightarrow> bool) \<Rightarrow> piece list \<Rightarrow> nat \<Rightarrow> int \<Rightarrow> piece list" where
  "tail_pieces wd ps overlap room =
     (if overlap = 0 \<or> room \<le> 0 then [] else tail_loop wd (min overlap (nat room)) [] 0 (rev ps))"

text \<open>The pieces of each body; \<open>pack\<close> joins them.\<close>

fun pack_groups :: "(nat \<Rightarrow> bool) \<Rightarrow> nat \<Rightarrow> nat \<Rightarrow> piece list \<Rightarrow> nat \<Rightarrow> piece list \<Rightarrow> piece list list" where
  "pack_groups wd budget overlap cur sz [] = (if cur = [] then [] else [cur])"
| "pack_groups wd budget overlap cur sz (p # ps) =
     (let cost = piece_cost wd p
      in if cur \<noteq> [] \<and> sz + cost > budget
         then (let kept = tail_pieces wd cur overlap (int budget - int cost)
               in cur # pack_groups wd budget overlap (kept @ [p]) (sum_list (map (piece_cost wd) kept) + cost) ps)
         else pack_groups wd budget overlap (cur @ [p]) (sz + cost) ps)"

definition join_pieces :: "piece list \<Rightarrow> ustr" where
  "join_pieces ps = (case ps of [] \<Rightarrow> [] | p # qs \<Rightarrow> snd p @ concat (map (\<lambda>(sep, t). sep @ t) qs))"

definition pack :: "(nat \<Rightarrow> bool) \<Rightarrow> nat \<Rightarrow> nat \<Rightarrow> ustr list \<Rightarrow> chunk_error + ustr list" where
  "pack wd budget overlap blocks =
     bind_res (pieces wd budget blocks) (\<lambda>ps. Inr (map join_pieces (pack_groups wd budget overlap [] 0 ps)))"

section \<open>Chunks\<close>

record chunk =
  ch_index :: nat
  ch_path :: "ustr list"
  ch_body :: ustr

definition SEPARATOR :: ustr where "SEPARATOR = [32, 8250, 32]"

definition chunk_stored_text :: "chunk \<Rightarrow> ustr" where
  "chunk_stored_text c = (if ch_path c = [] then ch_body c
     else [35, 32] @ py_join SEPARATOR (ch_path c) @ [10, 10] @ ch_body c)"

definition add_chunks :: "ustr list \<Rightarrow> ustr list \<Rightarrow> chunk list \<Rightarrow> chunk list" where
  "add_chunks path bodies cs =
     cs @ map (\<lambda>(i, b). \<lparr>ch_index = i, ch_path = path, ch_body = b\<rparr>) (enumerate (length cs) bodies)"

fun chunk_sections :: "(nat \<Rightarrow> bool) \<Rightarrow> nat \<Rightarrow> nat \<Rightarrow> chunk list \<Rightarrow> section_blocks list \<Rightarrow> chunk_error + chunk list" where
  "chunk_sections wd budget overlap cs [] = Inr cs"
| "chunk_sections wd budget overlap cs ((path, blocks) # rest) =
     bind_res (pack wd budget overlap blocks) (\<lambda>bodies. chunk_sections wd budget overlap (add_chunks path bodies cs) rest)"

definition chunk_text :: "(nat \<Rightarrow> bool) \<Rightarrow> ustr \<Rightarrow> ustr option \<Rightarrow> bool \<Rightarrow> int \<Rightarrow> int \<Rightarrow> chunk_error + chunk list" where
  "chunk_text wd t title code chunk_tokens overlap =
     (if chunk_tokens \<le> 0 \<or> overlap < 0 \<or> overlap \<ge> chunk_tokens then Inl BadArgument
      else chunk_sections wd (nat chunk_tokens) (nat overlap) []
        (if code then code_sections wd t title else markdown_sections t title))"

section \<open>Token counts\<close>

lemma count_tokens_space:
  "py_isspace c \<Longrightarrow> count_tokens_from wd inw (a @ c # b) = count_tokens_from wd inw a + estimate_tokens wd b"
  by (induction wd inw a rule: count_tokens_from.induct) (simp_all add: estimate_tokens_def)

lemma estimate_tokens_space:
  "py_isspace c \<Longrightarrow> estimate_tokens wd (a @ c # b) = estimate_tokens wd a + estimate_tokens wd b"
  by (simp add: estimate_tokens_def count_tokens_space)

lemma estimate_tokens_Nil [simp]: "estimate_tokens wd [] = 0"
  by (simp add: estimate_tokens_def)

lemma isspace_newline [simp]: "py_isspace 10" "py_isspace 32"
  by (simp_all add: py_isspace_def)

definition separated :: "piece \<Rightarrow> bool" where
  "separated p \<longleftrightarrow> fst p = [32] \<or> fst p = [10, 10]"

lemma estimate_tokens_join:
  "list_all separated ps \<Longrightarrow> estimate_tokens wd (join_pieces ps) = sum_list (map (piece_cost wd) ps)"
proof -
  have sep: "estimate_tokens wd (a @ fst p @ snd p @ b) = estimate_tokens wd a + estimate_tokens wd (snd p @ b)"
    if "separated p" for a b p
    using that estimate_tokens_space[of 10 wd a "10 # snd p @ b"] estimate_tokens_space[of 10 wd "[]" "snd p @ b"]
      estimate_tokens_space[of 32 wd a "snd p @ b"] by (auto simp: separated_def)
  have "estimate_tokens wd (a @ concat (map (\<lambda>(sep, t). sep @ t) qs)) = estimate_tokens wd a + sum_list (map (piece_cost wd) qs)"
    if "list_all separated qs" for qs a
    using that
  proof (induction qs arbitrary: a)
    case (Cons q qs)
    have "a @ concat (map (\<lambda>(sep, t). sep @ t) (q # qs)) = a @ fst q @ snd q @ concat (map (\<lambda>(sep, t). sep @ t) qs)"
      by (simp add: case_prod_unfold)
    then show ?case using Cons sep[of q a] by (simp add: piece_cost_def)
  qed simp
  then show "list_all separated ps \<Longrightarrow> ?thesis"
    by (cases ps) (simp_all add: join_pieces_def piece_cost_def)
qed

lemma py_split_join_pieces:
  "list_all separated ps \<Longrightarrow> py_split (join_pieces ps) = concat (map (\<lambda>p. py_split (snd p)) ps)"
proof -
  have sep: "py_split (a @ fst p @ snd p @ b) = py_split a @ py_split (snd p @ b)" if "separated p" for a b p
    using that py_split_space[of 10 a "10 # snd p @ b"] py_split_skip[of 10 "snd p @ b"]
      py_split_space[of 32 a "snd p @ b"] by (auto simp: separated_def)
  have "py_split (a @ concat (map (\<lambda>(sep, t). sep @ t) qs)) = py_split a @ concat (map (\<lambda>p. py_split (snd p)) qs)"
    if "list_all separated qs" for qs a
    using that
  proof (induction qs arbitrary: a)
    case (Cons q qs)
    have "a @ concat (map (\<lambda>(sep, t). sep @ t) (q # qs)) = a @ fst q @ snd q @ concat (map (\<lambda>(sep, t). sep @ t) qs)"
      by (simp add: case_prod_unfold)
    then show ?case using Cons sep[of q a] by simp
  qed simp
  then show "list_all separated ps \<Longrightarrow> ?thesis" by (cases ps) (simp_all add: join_pieces_def)
qed

section \<open>Packing within the budget\<close>

lemma tail_loop_fits:
  "sum_list (map (piece_cost wd) kept) \<le> sz \<Longrightarrow> sz \<le> most \<Longrightarrow>
   sum_list (map (piece_cost wd) (tail_loop wd most kept sz ps)) \<le> most"
  by (induction wd most kept sz ps rule: tail_loop.induct) auto

lemma tail_pieces_fit:
  "sum_list (map (piece_cost wd) (tail_pieces wd ps overlap room)) \<le> min overlap (nat room)"
  using tail_loop_fits[of wd "[]" 0 "min overlap (nat room)" "rev ps"] by (simp add: tail_pieces_def)

lemma tail_loop_suffix: "\<exists>k. tail_loop wd most kept sz ps = rev (take k ps) @ kept"
proof (induction wd most kept sz ps rule: tail_loop.induct)
  case (2 wd most kept sz p ps)
  show ?case
  proof (cases "fence_mark (snd p) \<noteq> None \<or> sz + piece_cost wd p > most")
    case True
    then show ?thesis by (intro exI[of _ 0]) simp
  next
    case False
    with 2 obtain k where "tail_loop wd most (p # kept) (sz + piece_cost wd p) ps = rev (take k ps) @ p # kept" by blast
    with False show ?thesis by (intro exI[of _ "Suc k"]) auto
  qed
qed simp

lemma tail_pieces_suffix: "suffix (tail_pieces wd ps overlap room) ps"
proof -
  obtain k where "tail_loop wd (min overlap (nat room)) [] 0 (rev ps) = rev (take k (rev ps))"
    using tail_loop_suffix[of wd "min overlap (nat room)" "[]" 0 "rev ps"] by auto
  then show ?thesis
    by (simp add: tail_pieces_def) (metis rev_rev_ident suffix_to_prefix take_is_prefix)
qed

lemma pack_groups_fit:
  assumes "sz = sum_list (map (piece_cost wd) cur)" "sz \<le> budget \<or> (\<exists>p. cur = [p])"
    "g \<in> set (pack_groups wd budget overlap cur sz ps)"
  shows "sum_list (map (piece_cost wd) g) \<le> budget \<or> (\<exists>p. g = [p])"
  using assms
proof (induction wd budget overlap cur sz ps rule: pack_groups.induct)
  case (2 wd budget overlap cur sz p ps)
  let ?cost = "piece_cost wd p"
  show ?case
  proof (cases "cur \<noteq> [] \<and> sz + ?cost > budget")
    case True
    let ?kept = "tail_pieces wd cur overlap (int budget - int ?cost)"
    have "sum_list (map (piece_cost wd) ?kept) \<le> nat (int budget - int ?cost)"
      using tail_pieces_fit[of wd cur overlap "int budget - int ?cost"] by simp
    moreover have "?kept = []" if "budget < ?cost" using that by (simp add: tail_pieces_def)
    ultimately have "sum_list (map (piece_cost wd) (?kept @ [p])) \<le> budget \<or> (\<exists>q. ?kept @ [p] = [q])"
      by (cases "budget < ?cost") auto
    moreover have "g = cur \<or> g \<in> set (pack_groups wd budget overlap (?kept @ [p]) (sum_list (map (piece_cost wd) ?kept) + ?cost) ps)"
      using True "2.prems"(3) by (simp add: Let_def)
    ultimately show ?thesis using "2.IH"(1)[OF refl True refl] "2.prems"(1,2) by auto
  next
    case False
    then have "sum_list (map (piece_cost wd) (cur @ [p])) \<le> budget \<or> (\<exists>q. cur @ [p] = [q])"
      using "2.prems"(1) by auto
    with False 2 show ?thesis by auto
  qed
qed (auto split: if_splits)

lemma pack_groups_pieces: "g \<in> set (pack_groups wd budget overlap cur sz ps) \<Longrightarrow> set g \<subseteq> set cur \<union> set ps"
proof (induction wd budget overlap cur sz ps rule: pack_groups.induct)
  case (2 wd budget overlap cur sz p ps)
  let ?kept = "tail_pieces wd cur overlap (int budget - int (piece_cost wd p))"
  have "set ?kept \<subseteq> set cur" using tail_pieces_suffix set_mono_suffix by blast
  with 2 show ?case by (fastforce simp: Let_def split: if_splits)
qed (auto split: if_splits)

text \<open>Nothing is lost and the order is kept: the pieces are a subsequence of what the groups
  hold, overlaps included.\<close>

lemma pack_groups_complete: "subseq (cur @ ps) (concat (pack_groups wd budget overlap cur sz ps))"
proof (induction wd budget overlap cur sz ps rule: pack_groups.induct)
  case (2 wd budget overlap cur sz p ps)
  show ?case
  proof (cases "cur \<noteq> [] \<and> sz + piece_cost wd p > budget")
    case True
    let ?kept = "tail_pieces wd cur overlap (int budget - int (piece_cost wd p))"
    let ?groups = "pack_groups wd budget overlap (?kept @ [p]) (sum_list (map (piece_cost wd) ?kept) + piece_cost wd p) ps"
    have "subseq ((?kept @ [p]) @ ps) (concat ?groups)" by (rule "2.IH"(1)[OF refl True refl])
    then have "subseq (p # ps) (concat ?groups)" 
      using subseq_order.trans[OF list_emb_append2[OF subseq_order.order_refl]] by fastforce
    with True show ?thesis by (simp add: Let_def list_emb_append_mono)
  next
    case False
    with "2.IH"(2)[OF refl False] show ?thesis by (auto simp: Let_def)
  qed
qed simp

section \<open>What the parts of a block are\<close>

text \<open>A part fits the budget, or cannot be split: it is fenced code or a single word.\<close>

definition part_ok :: "(nat \<Rightarrow> bool) \<Rightarrow> nat \<Rightarrow> ustr \<Rightarrow> bool" where
  "part_ok wd budget s \<longleftrightarrow> estimate_tokens wd s \<le> budget \<or> fence_mark s \<noteq> None \<or> py_split s = [s]"

lemma pack_words_ok:
  "estimate_tokens wd (py_join [32] cur) \<le> budget \<or> length cur \<le> 1 \<Longrightarrow>
   list_all (\<lambda>w. py_split w = [w]) (cur @ ws) \<Longrightarrow> list_all (part_ok wd budget) (pack_words wd budget cur ws)"
proof (induction wd budget cur ws rule: pack_words.induct)
  case (1 wd budget cur)
  then show ?case by (cases cur) (auto simp: part_ok_def)
next
  case (2 wd budget cur w ws)
  have "part_ok wd budget (py_join [32] cur)" if "cur \<noteq> []"
    using 2(3,4) that by (cases cur) (auto simp: part_ok_def)
  with 2 show ?case by (cases "cur = []") auto
qed

lemma pack_words_words:
  "concat (map py_split (pack_words wd budget cur ws)) = concat (map py_split (cur @ ws))"
  by (induction wd budget cur ws rule: pack_words.induct) (auto simp: py_split_join)

lemma split_words_ok: "list_all (part_ok wd budget) (split_words wd budget s)"
  unfolding split_words_def
  by (rule pack_words_ok) (auto simp: list_all_iff dest!: py_split_word intro: py_split_one)

lemma split_words_words: "concat (map py_split (split_words wd budget s)) = py_split s"
proof -
  have "map py_split (py_split s) = map (\<lambda>w. [w]) (py_split s)"
    by (rule map_cong[OF refl]) (use py_split_word py_split_one in blast)
  then show ?thesis by (simp add: split_words_def pack_words_words del: map_eq_conv)
qed

lemma sentences_words: "concat (map py_split (sentences_from acc s)) = py_split (rev acc @ s)"
proof (induction acc s rule: sentences_from.induct)
  case (2 acc c cs)
  show ?case
  proof (cases "sentence_ends acc c cs")
    case True
    then have "py_isspace c" by (simp add: sentence_ends_def)
    with True 2 show ?thesis by (simp add: py_split_space py_split_drop)
  qed (use 2 in simp)
qed simp

lemma takeWhile_stops: "dropWhile P l \<noteq> [] \<Longrightarrow> takeWhile P (l @ r) = takeWhile P l \<and> dropWhile P (l @ r) = dropWhile P l @ r"
  by (induction l) auto

lemma fence_mark_first_line: "fence_mark l \<noteq> None \<Longrightarrow> fence_mark (l @ 10 # r) = fence_mark l"
proof -
  assume l: "fence_mark l \<noteq> None"
  let ?s = "dropWhile py_isspace l"
  have "?s \<noteq> []"
  proof
    assume "?s = []"
    then have "fence_mark l = None" unfolding fence_mark_def Let_def by (simp del: dropWhile_eq_Nil_conv)
    with l show False ..
  qed
  then have "takeWhile py_isspace (l @ 10 # r) = takeWhile py_isspace l" "dropWhile py_isspace (l @ 10 # r) = ?s @ 10 # r"
    using takeWhile_stops by blast+
  moreover have "takeWhile (\<lambda>c. c = k) (s @ 10 # r) = takeWhile (\<lambda>c. c = k) s" if "k \<noteq> 10" for k s
    using that by (induction s) auto
  ultimately show ?thesis by (simp add: fence_mark_def Let_def indent_ok_def)
qed

lemma pack_lines_fenced:
  "fence_mark opener = Some m \<Longrightarrow> list_all (\<lambda>s. fence_mark s \<noteq> None) (pack_lines wd cap opener mark cur ls)"
proof (induction wd cap opener mark cur ls rule: pack_lines.induct)
  case (1 wd cap opener mark cur)
  then show ?case using fence_mark_first_line by (cases cur) auto
next
  case (2 wd cap opener mark cur l ls)
  then show ?case using fence_mark_first_line by (cases cur) auto
qed

lemma split_block_ok:
  assumes "split_block wd budget b = Inr parts"
  shows "list_all (part_ok wd budget) parts"
    "fence_mark b = None \<or> estimate_tokens wd b \<le> fence_cap budget \<Longrightarrow> concat (map py_split parts) = py_split b"
proof -
  consider "parts = [b]" "estimate_tokens wd b \<le> budget \<or> fence_mark b \<noteq> None"
    | "fence_mark b \<noteq> None" "\<not> estimate_tokens wd b \<le> fence_cap budget" "split_fence wd (fence_cap budget) b = Inr parts"
    | "fence_mark b = None" "parts = concat (map (\<lambda>s. if estimate_tokens wd s \<le> budget then [s] else split_words wd budget s) (split_sentences b))"
    using assms by (auto simp: split_block_def split: if_splits)
  then have "list_all (part_ok wd budget) parts \<and>
    (fence_mark b = None \<or> estimate_tokens wd b \<le> fence_cap budget \<longrightarrow> concat (map py_split parts) = py_split b)"
  proof cases
    case 1
    then show ?thesis by (auto simp: part_ok_def)
  next
    case 2
    then have "list_all (\<lambda>s. fence_mark s \<noteq> None) parts"
      using pack_lines_fenced[of "hd (split_on 10 b)"]
      by (cases "fence_mark (hd (split_on 10 b))") (auto simp: split_fence_def Let_def)
    with 2 show ?thesis by (auto simp: part_ok_def list_all_iff)
  next
    case 3
    have "list_all (part_ok wd budget) parts"
      using split_words_ok[of wd budget] by (auto simp: 3(2) list_all_iff part_ok_def)
    moreover have "concat (map py_split parts) = concat (map py_split (split_sentences b))"
    proof -
      have "concat (map py_split (concat (map (\<lambda>s. if estimate_tokens wd s \<le> budget then [s] else split_words wd budget s) xs)))
        = concat (map py_split xs)" for xs
        by (induction xs) (auto simp: split_words_words)
      then show ?thesis by (simp only: 3(2))
    qed
    ultimately show ?thesis by (simp add: split_sentences_def sentences_words)
  qed
  then show "list_all (part_ok wd budget) parts"
    "fence_mark b = None \<or> estimate_tokens wd b \<le> fence_cap budget \<Longrightarrow> concat (map py_split parts) = py_split b" by blast+
qed

definition fence_uncut :: "(nat \<Rightarrow> bool) \<Rightarrow> nat \<Rightarrow> ustr \<Rightarrow> bool" where
  "fence_uncut wd budget b \<longleftrightarrow> fence_mark b = None \<or> estimate_tokens wd b \<le> fence_cap budget"

lemma block_pieces_ok:
  assumes "block_pieces b parts = Inr ps"
  shows "list_all separated ps" "map snd ps = parts"
  using assms by (auto simp: block_pieces_def separated_def list_all_iff comp_def split: list.splits if_splits)

lemma pieces_ok:
  "pieces wd budget bs = Inr ps \<Longrightarrow> list_all separated ps \<and> list_all (\<lambda>p. part_ok wd budget (snd p)) ps
     \<and> (list_all (fence_uncut wd budget) bs \<longrightarrow> concat (map (\<lambda>p. py_split (snd p)) ps) = concat (map py_split bs))"
proof (induction wd budget bs arbitrary: ps rule: pieces.induct)
  case (2 wd budget b bs)
  then obtain parts ps1 qs where *: "split_block wd budget b = Inr parts" "block_pieces b parts = Inr ps1"
    "pieces wd budget bs = Inr qs" "ps = ps1 @ qs" by (auto simp: bind_res_Inr_iff)
  note parts = split_block_ok[OF *(1)] and ps1 = block_pieces_ok[OF *(2)]
  have "list_all (\<lambda>p. part_ok wd budget (snd p)) ps1" using parts(1) by (simp add: ps1(2)[symmetric] list_all_iff)
  moreover have "concat (map (\<lambda>p. py_split (snd p)) ps1) = concat (map py_split parts)"
    by (simp add: ps1(2)[symmetric] comp_def)
  ultimately show ?case using "2.IH"[OF *(3)] ps1 parts(2) * by (auto simp: fence_uncut_def)
qed simp

section \<open>Bodies of a section\<close>

lemma pack_ok:
  assumes "pack wd budget overlap bs = Inr bodies"
  shows "list_all (part_ok wd budget) bodies"
    "list_all (fence_uncut wd budget) bs \<Longrightarrow> subseq (concat (map py_split bs)) (concat (map py_split bodies))"
proof -
  obtain ps where ps: "pieces wd budget bs = Inr ps" and bodies: "bodies = map join_pieces (pack_groups wd budget overlap [] 0 ps)"
    using assms by (auto simp: pack_def bind_res_Inr_iff)
  let ?gs = "pack_groups wd budget overlap [] 0 ps"
  note ok = pieces_ok[OF ps]
  have sub: "set g \<subseteq> set ps" if "g \<in> set ?gs" for g using pack_groups_pieces[OF that] by simp
  then have sep: "list_all separated g" if "g \<in> set ?gs" for g using that ok by (fastforce simp: list_all_iff)
  have "part_ok wd budget (join_pieces g)" if g: "g \<in> set ?gs" for g
  proof -
    have "sum_list (map (piece_cost wd) g) \<le> budget \<or> (\<exists>p. g = [p])"
      by (rule pack_groups_fit[OF _ _ g]) simp_all
    then show ?thesis
    proof
      assume "\<exists>p. g = [p]"
      then obtain p where "g = [p]" by blast
      with ok sub[OF g] show ?thesis by (auto simp: join_pieces_def list_all_iff)
    qed (simp add: part_ok_def estimate_tokens_join[OF sep[OF g]])
  qed
  then show "list_all (part_ok wd budget) bodies" by (auto simp: bodies list_all_iff)
  assume "list_all (fence_uncut wd budget) bs"
  with ok have "concat (map py_split bs) = concat (map (\<lambda>p. py_split (snd p)) ps)" by simp
  also have "subseq \<dots> (concat (map (\<lambda>p. py_split (snd p)) (concat ?gs)))"
  proof -
    have mono: "subseq xs ys \<Longrightarrow> subseq (concat (map f xs)) (concat (map f ys))" for f :: "piece \<Rightarrow> ustr list" and xs ys
      by (induction rule: list_emb.induct) (auto intro: list_emb_append_mono)
    show ?thesis by (rule mono) (use pack_groups_complete[of "[]" ps] in simp)
  qed
  also have "concat (map (\<lambda>p. py_split (snd p)) (concat ?gs)) = concat (map py_split bodies)"
  proof -
    have "map (\<lambda>g. py_split (join_pieces g)) ?gs = map (\<lambda>g. concat (map (\<lambda>p. py_split (snd p)) g)) ?gs"
      by (rule map_cong[OF refl]) (rule py_split_join_pieces[OF sep])
    moreover have "concat (map f (concat gs)) = concat (map (\<lambda>g. concat (map f g)) gs)" for f :: "piece \<Rightarrow> ustr list" and gs
      by (induction gs) auto
    ultimately show ?thesis by (simp add: bodies comp_def del: map_eq_conv)
  qed
  finally show "subseq (concat (map py_split bs)) (concat (map py_split bodies))" .
qed

section \<open>Sections hold every line but the headings\<close>

text \<open>The lines that are content: every line of a fence, and outside fences every line that is no
  heading.\<close>

fun content_lines :: "ustr option \<Rightarrow> ustr list \<Rightarrow> ustr list" where
  "content_lines f [] = []"
| "content_lines (Some mark) (l # ls) =
     l # content_lines (if starts_with mark (py_strip l) then None else Some mark) ls"
| "content_lines None (l # ls) =
     (case fence_mark l of
        Some mark \<Rightarrow> l # content_lines (Some mark) ls
      | None \<Rightarrow> if heading l = None then l # content_lines None ls else content_lines None ls)"

abbreviation words_of :: "ustr list \<Rightarrow> ustr list" where
  "words_of xs \<equiv> concat (map py_split xs)"

definition scan_words :: "scan \<Rightarrow> ustr list" where
  "scan_words s = words_of (concat (map snd (sc_sections s))) @ words_of (sc_blocks s) @ words_of (sc_paragraph s)
     @ (case sc_fence s of None \<Rightarrow> [] | Some (fl, mark) \<Rightarrow> words_of fl)"

definition scan_ok :: "scan \<Rightarrow> bool" where
  "scan_ok s \<longleftrightarrow> sc_fence s = None \<or> sc_paragraph s = []"

lemma words_lines_text: "py_split (lines_text ls) = words_of ls"
  by (simp add: py_split_join)

lemma end_paragraph_words: "sc_fence s = None \<Longrightarrow> scan_words (end_paragraph s) = scan_words s"
  by (simp add: end_paragraph_def scan_words_def words_lines_text)

lemma end_paragraph_sel [simp]:
  "sc_paragraph (end_paragraph s) = []" "sc_fence (end_paragraph s) = sc_fence s"
  by (simp_all add: end_paragraph_def)

lemma end_section_words:
  "sc_fence s = None \<Longrightarrow> sc_paragraph s = [] \<Longrightarrow>
   words_of (concat (map snd (sc_sections (end_section base s)))) = scan_words s"
  by (simp add: end_section_def scan_words_def)

lemma end_section_sel [simp]:
  "sc_paragraph (end_section base s) = sc_paragraph s" "sc_fence (end_section base s) = sc_fence s"
  by (simp_all add: end_section_def)

lemma scan_line_words:
  assumes "scan_ok s"
  shows "scan_ok (scan_line base l s)"
    "scan_words (scan_line base l s) @ words_of (content_lines (map_option snd (sc_fence (scan_line base l s))) ls)
       = scan_words s @ words_of (content_lines (map_option snd (sc_fence s)) (l # ls))"
proof -
  let ?r = "scan_line base l s"
  consider fl mark where "sc_fence s = Some (fl, mark)" | "sc_fence s = None" by (cases "sc_fence s") auto
  then have "scan_ok ?r \<and> scan_words ?r @ words_of (content_lines (map_option snd (sc_fence ?r)) ls)
       = scan_words s @ words_of (content_lines (map_option snd (sc_fence s)) (l # ls))"
  proof cases
    case 1
    then have "sc_paragraph s = []" using assms by (simp add: scan_ok_def)
    with 1 show ?thesis by (auto simp: scan_line_def scan_ok_def scan_words_def words_lines_text)
  next
    case none: 2
    note par = end_paragraph_words[OF none]
    consider mark where "fence_mark l = Some mark" | level name where "fence_mark l = None" "heading l = Some (level, name)"
      | "fence_mark l = None" "heading l = None" "py_strip l \<noteq> []"
      | "fence_mark l = None" "heading l = None" "py_strip l = []"
      by (cases "fence_mark l"; cases "heading l") auto
    then show ?thesis
    proof cases
      case 1
      have "?r = (end_paragraph s)\<lparr>sc_fence := Some ([l], mark)\<rparr>" using none 1 by (simp add: scan_line_def)
      moreover have "scan_words ((end_paragraph s)\<lparr>sc_fence := Some ([l], mark)\<rparr>) = scan_words (end_paragraph s) @ py_split l"
        by (simp add: scan_words_def none)
      ultimately show ?thesis using none 1 by (simp add: par scan_ok_def)
    next
      case 2
      let ?s1 = "end_section base (end_paragraph s)"
      have r: "?r = ?s1\<lparr>sc_blocks := [], sc_stack := filter (\<lambda>(x, n). x < level) (sc_stack ?s1) @ [(level, name)]\<rparr>"
        using none 2 by (simp add: scan_line_def Let_def)
      have "words_of (concat (map snd (sc_sections ?s1))) = scan_words s"
        by (subst end_section_words) (simp_all add: none par)
      then have "scan_words ?r = scan_words s" by (simp add: r scan_words_def none)
      then show ?thesis using none 2 by (simp add: r scan_ok_def)
    next
      case 3
      then show ?thesis using none by (simp add: scan_line_def scan_ok_def scan_words_def)
    next
      case 4
      then have "py_split l = []" by (metis py_split_Nil py_split_strip)
      then show ?thesis using none 4 by (simp add: scan_line_def scan_ok_def par)
    qed
  qed
  then show "scan_ok ?r" "scan_words ?r @ words_of (content_lines (map_option snd (sc_fence ?r)) ls)
       = scan_words s @ words_of (content_lines (map_option snd (sc_fence s)) (l # ls))" by blast+
qed

lemma scan_lines_words:
  "scan_ok s \<Longrightarrow> scan_ok (fold (scan_line base) ls s) \<and>
   scan_words (fold (scan_line base) ls s) = scan_words s @ words_of (content_lines (map_option snd (sc_fence s)) ls)"
proof (induction ls arbitrary: s)
  case (Cons l ls)
  show ?case
    using scan_line_words(1)[OF Cons.prems, of base l] scan_line_words(2)[OF Cons.prems, of base l ls]
      Cons.IH[of "scan_line base l s"] by simp
qed simp

lemma scan_end_words: "scan_ok s \<Longrightarrow> words_of (concat (map snd (scan_end base s))) = scan_words s"
proof -
  assume ok: "scan_ok s"
  define s1 where "s1 = (case sc_fence s of Some (fl, mark) \<Rightarrow> s\<lparr>sc_blocks := sc_blocks s @ [lines_text fl]\<rparr> | None \<Rightarrow> s)"
  define s2 where "s2 = s1\<lparr>sc_fence := None\<rparr>"
  have w: "scan_words s2 = scan_words s"
    using ok by (auto simp: s2_def s1_def scan_ok_def scan_words_def words_lines_text split: option.splits)
  have e: "sc_sections (end_section base (end_paragraph s1)) = sc_sections (end_section base (end_paragraph s2))"
    by (simp add: s2_def end_section_def end_paragraph_def section_path_def)
  have "words_of (concat (map snd (sc_sections (end_section base (end_paragraph s2))))) = scan_words s2"
    by (subst end_section_words) (simp_all add: s2_def end_paragraph_words)
  then show ?thesis by (simp add: scan_end_def s1_def[symmetric] e w)
qed

lemma markdown_words:
  "words_of (concat (map snd (markdown_sections t title))) = words_of (content_lines None (text_lines t))"
proof -
  define base where "base = (if has_h1 (text_lines t) then [] else title_root title)"
  have start: "scan_ok scan_start" "scan_words scan_start = []" "sc_fence scan_start = None"
    by (simp_all add: scan_start_def scan_ok_def scan_words_def)
  with scan_lines_words[OF start(1), of base "text_lines t"] show ?thesis
    by (simp add: markdown_sections_def Let_def base_def[symmetric] scan_end_words)
qed

section \<open>Chunks\<close>

lemma map_body_add_chunks [simp]: "map ch_body (add_chunks path bodies cs) = map ch_body cs @ bodies"
  by (simp add: add_chunks_def comp_def case_prod_unfold)

lemma map_index_add_chunks: "map ch_index cs = [0..<length cs] \<Longrightarrow>
    map ch_index (add_chunks path bodies cs) = [0..<length (add_chunks path bodies cs)]"
  by (simp add: add_chunks_def comp_def case_prod_unfold upt_add_eq_append[of 0 "length cs" "length bodies", simplified])

lemma chunk_sections_ok:
  "chunk_sections wd budget overlap cs0 secs = Inr cs \<Longrightarrow> \<exists>bodies. map ch_body cs = map ch_body cs0 @ bodies
     \<and> list_all (part_ok wd budget) bodies \<and> (map ch_index cs0 = [0..<length cs0] \<longrightarrow> map ch_index cs = [0..<length cs])
     \<and> (list_all (\<lambda>s. list_all (fence_uncut wd budget) (snd s)) secs
         \<longrightarrow> subseq (words_of (concat (map snd secs))) (words_of bodies))"
proof (induction wd budget overlap cs0 secs rule: chunk_sections.induct)
  case (2 wd budget overlap cs0 path blocks rest)
  then obtain bodies where b: "pack wd budget overlap blocks = Inr bodies"
    "chunk_sections wd budget overlap (add_chunks path bodies cs0) rest = Inr cs" by (auto simp: bind_res_Inr_iff)
  from "2.IH"[OF b(2)] obtain more where more: "map ch_body cs = map ch_body cs0 @ bodies @ more"
    "list_all (part_ok wd budget) more"
    "map ch_index (add_chunks path bodies cs0) = [0..<length (add_chunks path bodies cs0)] \<longrightarrow> map ch_index cs = [0..<length cs]"
    "list_all (\<lambda>s. list_all (fence_uncut wd budget) (snd s)) rest \<longrightarrow> subseq (words_of (concat (map snd rest))) (words_of more)"
    by auto
  then show ?case
    using pack_ok[OF b(1)] map_index_add_chunks[of cs0 path bodies]
    by (intro exI[of _ "bodies @ more"]) (auto intro: list_emb_append_mono)
qed simp

text \<open>Without a fence that must be cut, chunking cannot fail.\<close>

lemma count_tokens_pos: "count_tokens_from wd inw s > 0 \<Longrightarrow> py_split s \<noteq> []"
proof (induction wd inw s rule: count_tokens_from.induct)
  case (2 wd inw c cs)
  show ?case
  proof (cases "py_isspace c")
    case False
    have "words_acc cur cs \<noteq> []" if "cur \<noteq> []" for cur cs using that by (induction cur cs rule: words_acc.induct) auto
    with False show ?thesis by (simp add: py_split_def)
  qed (use 2 in \<open>simp add: py_split_skip\<close>)
qed simp

lemma split_words_ne: "estimate_tokens wd s > budget \<Longrightarrow> split_words wd budget s \<noteq> []"
proof -
  assume "estimate_tokens wd s > budget"
  then have "py_split s \<noteq> []" using count_tokens_pos[of wd False s] by (simp add: estimate_tokens_def)
  then show ?thesis using split_words_words[of wd budget s] by auto
qed

lemma sentences_ne: "sentences_from acc s \<noteq> []"
  by (induction acc s rule: sentences_from.induct) auto

lemma split_block_total:
  assumes "fence_uncut wd budget b" shows "\<exists>x xs. split_block wd budget b = Inr (x # xs)"
proof -
  let ?f = "\<lambda>s. if estimate_tokens wd s \<le> budget then [s] else split_words wd budget s"
  obtain s ss where ss: "split_sentences b = s # ss" using sentences_ne by (metis neq_Nil_conv split_sentences_def)
  have "?f s \<noteq> []" using split_words_ne[of budget wd s] by auto
  then have "concat (map ?f (split_sentences b)) \<noteq> []" by (simp add: ss)
  then obtain x xs where "concat (map ?f (split_sentences b)) = x # xs" by (metis neq_Nil_conv)
  then show ?thesis using assms by (auto simp: split_block_def fence_uncut_def)
qed

lemma pieces_total: "list_all (fence_uncut wd budget) bs \<Longrightarrow> \<exists>ps. pieces wd budget bs = Inr ps"
proof (induction wd budget bs rule: pieces.induct)
  case (2 wd budget b bs)
  then obtain x xs where "split_block wd budget b = Inr (x # xs)" using split_block_total[of wd budget b] by auto
  with 2 show ?case by (auto simp: block_pieces_def)
qed simp

lemma chunk_sections_total:
  "list_all (\<lambda>s. list_all (fence_uncut wd budget) (snd s)) secs \<Longrightarrow> \<exists>cs. chunk_sections wd budget overlap cs0 secs = Inr cs"
proof (induction wd budget overlap cs0 secs rule: chunk_sections.induct)
  case (2 wd budget overlap cs0 path blocks rest)
  then obtain ps where "pieces wd budget blocks = Inr ps" using pieces_total[of wd budget blocks] by auto
  with 2 show ?case by (auto simp: pack_def)
qed simp



lemmas chunk_eval = text_lines_def markdown_sections_def has_h1_def heading_def fence_mark_def indent_ok_def scan_line_def
  scan_end_def scan_start_def end_paragraph_def end_section_def section_path_def title_root_def py_strip_def py_lstrip_def
  py_rstrip_def py_isspace_def Let_def

lemma wit_sections: "markdown_sections (u ''a. B'') None = [([], [u ''a. B''])]"
  by (simp add: chunk_eval)

lemma wit_tokens: "estimate_tokens (\<lambda>c. c > 64) (u ''a. B'') = 3" "estimate_tokens (\<lambda>c. c > 64) (u ''a'') = 1"
    "estimate_tokens (\<lambda>c. c > 64) (u ''B'') = 1" "estimate_tokens (\<lambda>c. c > 64) (u ''a.'') = 2"
  by (simp_all add: estimate_tokens_def py_isspace_def)

lemma wit_block: "split_block (\<lambda>c. c > 64) 2 (u ''a. B'') = Inr [u ''a.'', u ''B'']"
proof -
  have f: "fence_mark (u ''a. B'') = None" by (simp add: chunk_eval)
  have s: "split_sentences (u ''a. B'') = [u ''a.'', u ''B'']"
    by (simp add: split_sentences_def sentence_ends_def starts_sentence_def py_isspace_def Let_def)
  show ?thesis unfolding split_block_def wit_tokens f s by (simp add: wit_tokens del: u_simps)
qed

lemma wit_chunks: "chunk_text (\<lambda>c. c > 64) (u ''a. B'') None False 2 0 = Inr [\<lparr>ch_index = 0, ch_path = [], ch_body = u ''a.''\<rparr>,
    \<lparr>ch_index = 1, ch_path = [], ch_body = u ''B''\<rparr>]"
proof -
  have f: "fence_mark (u ''a. B'') = None" by (simp add: chunk_eval)
  show ?thesis
    by (simp add: chunk_text_def wit_sections pack_def wit_block block_pieces_def f piece_cost_def wit_tokens tail_pieces_def
        join_pieces_def add_chunks_def del: u_simps)
qed



text \<open>A comment line inside a code fence counts as a first-level heading, so the title is dropped
  from the path of every chunk.\<close>

lemma fence_comment_hides_the_title:
  "markdown_sections (u ''```'' @ [10] @ u ''# x'' @ [10] @ u ''```'') (Some (u ''T''))
     = [([], [u ''```'' @ [10] @ u ''# x'' @ [10] @ u ''```''])]"
proof -
  let ?t = "u ''```'' @ [10] @ u ''# x'' @ [10] @ u ''```''"
  have lines: "text_lines ?t = [u ''```'', u ''# x'', u ''```'']" by (simp add: text_lines_def)
  have mark: "fence_mark (u ''```'') = Some (u ''```'')"
    by (simp add: fence_mark_def indent_ok_def py_isspace_def Let_def)
  have "heading (u ''# x'') = Some (1, u ''x'')"
    by (simp add: heading_def indent_ok_def py_isspace_def Let_def lazy_title_def closing_def py_strip_def py_lstrip_def py_rstrip_def)
  then have h1: "has_h1 [u ''```'', u ''# x'', u ''```'']" by (simp add: has_h1_def del: u_simps)
  have strip: "\<not> starts_with (u ''```'') (py_strip (u ''# x''))" "starts_with (u ''```'') (py_strip (u ''```''))"
    by (simp_all add: starts_with_def py_strip_def py_lstrip_def py_rstrip_def py_isspace_def)
  show ?thesis
    unfolding markdown_sections_def lines
    by (simp add: Let_def h1 scan_line_def mark strip scan_start_def scan_end_def end_paragraph_def
        end_section_def section_path_def del: u_simps)
qed

text \<open>A fence over the cap whose opening line holds everything makes chunking fail, and a cut
  fence loses its lines that look like a fence of another kind.\<close>

lemma huge_opening_line_fails:
  "2000 \<le> n \<Longrightarrow> split_block (\<lambda>c. False) 1 (u ''```'' @ replicate n 33) = Inr []"
proof -
  assume n: "2000 \<le> n"
  let ?b = "u ''```'' @ replicate n 33"
  have "count_tokens_from (\<lambda>c. False) False (replicate n 33) = n" for n
    by (induction n) (simp_all add: py_isspace_def)
  then have e: "estimate_tokens (\<lambda>c. False) ?b = n + 3" by (simp add: estimate_tokens_def py_isspace_def)
  have m: "fence_mark ?b \<noteq> None" by (simp add: fence_mark_def Let_def indent_ok_def py_isspace_def)
  have "split_on 10 ?b = [?b]" by (rule split_on_word) auto
  with m have "split_fence (\<lambda>c. False) (fence_cap 1) ?b = Inr []" by (auto simp: split_fence_def Let_def)
  then show ?thesis using e m n unfolding split_block_def by (simp add: fence_cap_def)
qed

lemma cut_fence_loses_fence_lines:
  "split_fence (\<lambda>c. False) 1 (u ''```'' @ [10] @ u ''a'' @ [10] @ u ''~~~'' @ [10] @ u ''```'')
     = Inr [u ''```'' @ [10] @ u ''a'' @ [10] @ u ''```'']"
  by (simp add: split_fence_def estimate_tokens_def chunk_eval)

end
