(* ===== verification/Json.thy ===== *)
theory Json
  imports Mark_Prelude
begin

text \<open>
  The part of \<open>json.dumps\<close> that the block hashes rest on: null, booleans, strings, arrays and
  objects, with no whitespace and every character outside printable ASCII escaped
  (\<open>ensure_ascii\<close>). The texts are prefix free, so equal texts come from equal values; this
  is what makes a hash over the canonical text commit to every field.
\<close>

section \<open>Values and their text\<close>

datatype json = JNull | JBool bool | JStr ustr | JArr "json list" | JObj "(ustr \<times> json) list"

definition hex_digit :: "nat \<Rightarrow> nat" where
  "hex_digit n = (if n < 10 then 48 + n else 87 + n)"

definition hex_val :: "nat \<Rightarrow> nat" where
  "hex_val c = (if c < 58 then c - 48 else c - 87)"

definition json_u :: "nat \<Rightarrow> ustr" where
  "json_u n = [92, 117, hex_digit (n div 4096 mod 16), hex_digit (n div 256 mod 16),
     hex_digit (n div 16 mod 16), hex_digit (n mod 16)]"

text \<open>One character: short escapes, printable ASCII, a four-digit escape, or a surrogate pair.\<close>

definition json_esc :: "nat \<Rightarrow> ustr" where
  "json_esc c =
     (if c = 34 then [92, 34] else if c = 92 then [92, 92]
      else if c = 10 then [92, 110] else if c = 13 then [92, 114] else if c = 9 then [92, 116]
      else if c = 12 then [92, 102] else if c = 8 then [92, 98]
      else if 32 \<le> c \<and> c \<le> 126 then [c]
      else if c < 65536 then json_u c
      else json_u (55296 + (c - 65536) div 1024) @ json_u (56320 + (c - 65536) mod 1024))"

definition json_str :: "ustr \<Rightarrow> ustr" where
  "json_str s = 34 # concat (map json_esc s) @ [34]"

fun json_dumps :: "json \<Rightarrow> ustr" where
  "json_dumps JNull = u ''null''"
| "json_dumps (JBool b) = (if b then u ''true'' else u ''false'')"
| "json_dumps (JStr s) = json_str s"
| "json_dumps (JArr xs) = 91 # py_join [44] (map json_dumps xs) @ [93]"
| "json_dumps (JObj kvs) =
     123 # py_join [44] (map (\<lambda>(k, v). json_str k @ 58 # json_dumps v) kvs) @ [125]"

text \<open>\<open>sort_keys=True\<close> orders the entries of the object by key.\<close>

definition json_dumps_sorted :: "(ustr \<times> json) list \<Rightarrow> ustr" where
  "json_dumps_sorted kvs = json_dumps (JObj (sort_key fst kvs))"

text \<open>Unicode scalar values: Python strings that can be encoded hold no surrogates.\<close>

definition uni_scalar :: "nat \<Rightarrow> bool" where
  "uni_scalar c \<longleftrightarrow> c < 55296 \<or> 57344 \<le> c \<and> c < 1114112"

definition ustr_valid :: "ustr \<Rightarrow> bool" where
  "ustr_valid s \<longleftrightarrow> list_all uni_scalar s"

fun json_valid :: "json \<Rightarrow> bool" where
  "json_valid JNull \<longleftrightarrow> True"
| "json_valid (JBool b) \<longleftrightarrow> True"
| "json_valid (JStr s) \<longleftrightarrow> ustr_valid s"
| "json_valid (JArr xs) \<longleftrightarrow> list_all json_valid xs"
| "json_valid (JObj kvs) \<longleftrightarrow> list_all (\<lambda>(k, v). ustr_valid k \<and> json_valid v) kvs"

section \<open>Reading one escaped character back\<close>

definition hex4_val :: "nat \<Rightarrow> nat \<Rightarrow> nat \<Rightarrow> nat \<Rightarrow> nat" where
  "hex4_val a b c d = ((hex_val a * 16 + hex_val b) * 16 + hex_val c) * 16 + hex_val d"

text \<open>The value of a four-digit escape at the front of a text, and the rest.\<close>

definition json_read_u :: "ustr \<Rightarrow> (nat \<times> ustr) option" where
  "json_read_u s =
     (if 6 \<le> length s \<and> s ! 0 = 92 \<and> s ! 1 = 117
      then Some (hex4_val (s ! 2) (s ! 3) (s ! 4) (s ! 5), drop 6 s) else None)"

definition json_read_short :: "nat \<Rightarrow> nat option" where
  "json_read_short e = map_of [(34, 34), (92, 92), (110, 10), (114, 13), (116, 9), (102, 12), (98, 8)] e"

fun json_read_char :: "ustr \<Rightarrow> (nat \<times> ustr) option" where
  "json_read_char [] = None"
| "json_read_char (c # r) =
     (if c \<noteq> 92 then Some (c, r)
      else case json_read_u (c # r) of
        Some (v, r1) \<Rightarrow>
          (if 55296 \<le> v \<and> v < 56320 then
             case json_read_u r1 of
               Some (w, r2) \<Rightarrow> Some (65536 + (v - 55296) * 1024 + (w - 56320), r2)
             | None \<Rightarrow> None
           else Some (v, r1))
      | None \<Rightarrow> (case r of [] \<Rightarrow> None
          | e # r1 \<Rightarrow> map_option (\<lambda>x. (x, r1)) (json_read_short e)))"

lemma hex_val_digit [simp]: "n < 16 \<Longrightarrow> hex_val (hex_digit n) = n"
  by (simp add: hex_val_def hex_digit_def)

lemma hex4_val_digits:
  assumes "n < 65536"
  shows "hex4_val (hex_digit (n div 4096 mod 16)) (hex_digit (n div 256 mod 16))
     (hex_digit (n div 16 mod 16)) (hex_digit (n mod 16)) = n"
proof -
  have d: "n div 256 = n div 16 div 16" "n div 4096 = n div 16 div 16 div 16"
    by (simp_all add: div_mult2_eq[symmetric])
  have "n div 16 div 16 div 16 < 16" using assms by (simp add: div_mult2_eq[symmetric])
  then have top: "n div 16 div 16 div 16 mod 16 = n div 16 div 16 div 16" by simp
  have v: "hex_val (hex_digit (k mod 16)) = k mod 16" for k by simp
  show ?thesis unfolding hex4_val_def v unfolding d top div_mult_mod_eq ..
qed

lemma json_read_u_esc [simp]: "n < 65536 \<Longrightarrow> json_read_u (json_u n @ r) = Some (n, r)"
  using hex4_val_digits[of n] by (simp add: json_read_u_def json_u_def)

lemma json_u_Cons: "\<exists>t. json_u n = 92 # t"
  by (simp add: json_u_def)

lemma json_read_char_pair:
  "json_read_u (92 # t) = Some (v, r1) \<Longrightarrow> 55296 \<le> v \<Longrightarrow> v < 56320 \<Longrightarrow> json_read_u r1 = Some (w, r2) \<Longrightarrow>
   json_read_char (92 # t) = Some (65536 + (v - 55296) * 1024 + (w - 56320), r2)"
  by simp

text \<open>Reading undoes escaping, whatever follows.\<close>

lemma json_read_char_esc:
  assumes "uni_scalar c"
  shows "json_read_char (json_esc c @ r) = Some (c, r)"
proof -
  consider "c \<in> {34, 92, 10, 13, 9, 12, 8}" | "c \<notin> {34, 92, 10, 13, 9, 12, 8}" "32 \<le> c" "c \<le> 126"
    | "c \<notin> {34, 92, 10, 13, 9, 12, 8}" "\<not> (32 \<le> c \<and> c \<le> 126)" "c < 65536"
    | "65536 \<le> c"
    by fastforce
  then show ?thesis
  proof cases
    case 1
    then show ?thesis by (auto simp: json_esc_def json_read_u_def json_read_short_def)
  next
    case 2
    then show ?thesis by (simp add: json_esc_def)
  next
    case 3
    obtain t where t: "json_u c @ r = 92 # t" using json_u_Cons[of c] by auto
    have "json_esc c = json_u c" using 3 by (auto simp: json_esc_def)
    then show ?thesis
      using json_read_u_esc[of c r] 3 assms by (auto simp: t uni_scalar_def)
  next
    case 4
    let ?hi = "55296 + (c - 65536) div 1024" and ?lo = "56320 + (c - 65536) mod 1024"
    have range: "c < 1114112" using assms 4 by (auto simp: uni_scalar_def)
    then have hi: "?hi < 56320" and lo: "?lo < 57344" using 4 by auto
    obtain t where t: "json_u ?hi @ json_u ?lo @ r = 92 # t" using json_u_Cons[of ?hi] by auto
    have esc: "json_esc c @ r = json_u ?hi @ json_u ?lo @ r" using 4 by (simp add: json_esc_def)
    have read: "json_read_u (92 # t) = Some (?hi, json_u ?lo @ r)"
      unfolding t[symmetric] using hi by (intro json_read_u_esc) simp
    have "json_read_char (92 # t) = Some (65536 + (?hi - 55296) * 1024 + (?lo - 56320), r)"
      by (rule json_read_char_pair[OF read _ hi]) (use lo in \<open>auto intro: json_read_u_esc\<close>)
    also have "65536 + (?hi - 55296) * 1024 + (?lo - 56320) = 65536 + (c - 65536)"
      by (simp only: add_diff_cancel_left' add.assoc div_mult_mod_eq)
    also have "\<dots> = c" using 4 by simp
    finally show ?thesis unfolding esc t .
  qed
qed

lemma json_esc_unique:
  assumes "uni_scalar c" "uni_scalar d" "json_esc c @ r = json_esc d @ s"
  shows "c = d \<and> r = s"
proof -
  have "Some (c, r) = json_read_char (json_esc d @ s)"
    using json_read_char_esc[OF assms(1), of r] by (simp only: assms(3))
  also have "\<dots> = Some (d, s)" by (rule json_read_char_esc[OF assms(2)])
  finally show ?thesis by simp
qed

text \<open>No escaped character begins with the closing quote.\<close>

lemma json_esc_not_quote: "json_esc c @ r \<noteq> 34 # s"
  by (auto simp: json_esc_def json_u_def split: if_splits)

lemma json_body_unique:
  "ustr_valid s \<Longrightarrow> ustr_valid t \<Longrightarrow>
   concat (map json_esc s) @ 34 # r = concat (map json_esc t) @ 34 # r' \<Longrightarrow> s = t \<and> r = r'"
proof (induction s arbitrary: t)
  case Nil
  show ?case
  proof (cases t)
    case (Cons d t')
    have "json_esc d @ concat (map json_esc t') @ 34 # r' = 34 # r"
      using Nil.prems(3) by (simp add: Cons)
    with json_esc_not_quote show ?thesis by blast
  qed (use Nil.prems in auto)
next
  case (Cons c s)
  have eq: "json_esc c @ concat (map json_esc s) @ 34 # r = concat (map json_esc t) @ 34 # r'"
    using Cons.prems(3) by simp
  show ?case
  proof (cases t)
    case Nil
    with eq json_esc_not_quote show ?thesis by simp
  next
    case t: (Cons d t')
    have "c = d \<and> concat (map json_esc s) @ 34 # r = concat (map json_esc t') @ 34 # r'"
      by (rule json_esc_unique) (use Cons.prems(1,2) eq t in \<open>auto simp: ustr_valid_def\<close>)
    moreover have "ustr_valid s" "ustr_valid t'"
      using Cons.prems(1,2) t by (auto simp: ustr_valid_def)
    ultimately show ?thesis using Cons.IH[of t'] t by blast
  qed
qed

lemma json_str_unique:
  assumes "ustr_valid s" "ustr_valid t" "json_str s @ r = json_str t @ r'"
  shows "s = t \<and> r = r'"
  using assms(3) by (intro json_body_unique[OF assms(1,2)]) (simp add: json_str_def)


section \<open>Texts are prefix free\<close>

lemma json_dumps_hd: "\<exists>c t. json_dumps x = c # t \<and> c \<notin> {44, 93, 125}"
  by (cases x) (auto simp: json_str_def)

text \<open>A non-empty separated sequence is unique up to its closing bracket.\<close>

lemma json_join_unique:
  assumes "\<And>x y r s. x \<in> set xs \<Longrightarrow> y \<in> set ys \<Longrightarrow> f x @ r = f y @ s \<Longrightarrow> x = y \<and> r = s"
    and "\<And>x. \<exists>h t. f x = h # t \<and> h \<noteq> close" "close \<noteq> 44"
    and "py_join [44] (map f xs) @ close # r = py_join [44] (map f ys) @ close # s"
  shows "xs = ys \<and> r = s"
  using assms(1,4)
proof (induction xs arbitrary: ys)
  case Nil
  show ?case
  proof (cases ys)
    case (Cons y ys')
    obtain h t where h: "f y = h # t" "h \<noteq> close" using assms(2) by blast
    have "\<exists>w. py_join [44] (map f ys) = f y @ w" using Cons by (cases ys') auto
    then obtain w where "py_join [44] (map f ys) = h # w" using h by auto
    with Nil.prems(2) h show ?thesis by simp
  qed (use Nil.prems in auto)
next
  case (Cons x xs)
  show ?case
  proof (cases ys)
    case Nil
    obtain h t where h: "f x = h # t" "h \<noteq> close" using assms(2) by blast
    have "\<exists>w. py_join [44] (map f (x # xs)) = f x @ w" by (cases xs) auto
    then obtain w where "py_join [44] (map f (x # xs)) = h # w" using h by auto
    with Cons.prems(2) h Nil show ?thesis by simp
  next
    case ys: (Cons y ys')
    let ?rest = "\<lambda>zs q. (if zs = [] then close # q else 44 # py_join [44] (map f zs) @ close # q)"
    have split: "py_join [44] (map f (z # zs)) @ close # q = f z @ ?rest zs q" for z zs q
      by (cases zs) auto
    have "x = y \<and> ?rest xs r = ?rest ys' s"
      using Cons.prems by (intro Cons.prems(1)) (auto simp: ys split simp del: py_join.simps list.map)
    then have "x = y" and "py_join [44] (map f xs) @ close # r = py_join [44] (map f ys') @ close # s"
      using assms(3) by (auto split: if_splits)
    with Cons.IH[of ys'] Cons.prems(1) ys show ?thesis by auto
  qed
qed

lemma json_dumps_unique:
  "json_valid x \<Longrightarrow> json_valid y \<Longrightarrow> json_dumps x @ r = json_dumps y @ s \<Longrightarrow> x = y \<and> r = s"
proof (induction x arbitrary: y r s)
  case JNull
  then show ?case by (cases y) (auto simp: json_str_def split: if_splits)
next
  case (JBool b)
  then show ?case by (cases y) (auto simp: json_str_def split: if_splits)
next
  case (JStr t)
  show ?case
  proof (cases y)
    case (JStr t')
    then show ?thesis using JStr.prems json_str_unique[of t t' r s] by simp
  qed (use JStr.prems in \<open>auto simp: json_str_def split: if_splits\<close>)
next
  case (JArr xs)
  show ?case
  proof (cases y)
    case y: (JArr ys)
    have "xs = ys \<and> r = s"
    proof (rule json_join_unique)
      show "py_join [44] (map json_dumps xs) @ 93 # r = py_join [44] (map json_dumps ys) @ 93 # s"
        using JArr.prems(3) y by simp
      show "a = b \<and> p = q" if "a \<in> set xs" "b \<in> set ys" "json_dumps a @ p = json_dumps b @ q" for a b p q
        using JArr.IH[OF that(1) _ _ that(3)] JArr.prems(1,2) y that by (auto simp: list_all_iff)
      show "\<exists>h t. json_dumps a = h # t \<and> h \<noteq> 93" for a using json_dumps_hd[of a] by auto
    qed simp
    with y show ?thesis by simp
  qed (use JArr.prems in \<open>auto simp: json_str_def split: if_splits\<close>)
next
  case (JObj kvs)
  let ?f = "\<lambda>(k, v). json_str k @ 58 # json_dumps v"
  show ?case
  proof (cases y)
    case y: (JObj kvs')
    have "kvs = kvs' \<and> r = s"
    proof (rule json_join_unique)
      show "py_join [44] (map ?f kvs) @ 125 # r = py_join [44] (map ?f kvs') @ 125 # s"
        using JObj.prems(3) y by simp
      show "a = b \<and> p = q" if "a \<in> set kvs" "b \<in> set kvs'" and eq: "?f a @ p = ?f b @ q" for a b p q
      proof -
        obtain k v k' v' where ab: "a = (k, v)" "b = (k', v')" by (cases a; cases b) auto
        have val: "ustr_valid k" "json_valid v" "ustr_valid k'" "json_valid v'"
          using JObj.prems(1,2) y that(1,2) ab by (auto simp: list_all_iff)
        have "k = k' \<and> 58 # json_dumps v @ p = 58 # json_dumps v' @ q"
          using eq by (intro json_str_unique[OF val(1,3)]) (simp add: ab)
        then have "k = k'" "json_dumps v @ p = json_dumps v' @ q" by auto
        with JObj.IH[OF that(1)[unfolded ab], of v v' p q] val show ?thesis by (auto simp: ab)
      qed
      show "\<exists>h t. ?f a = h # t \<and> h \<noteq> 125" for a by (cases a) (auto simp: json_str_def)
    qed simp
    with y show ?thesis by simp
  qed (use JObj.prems in \<open>auto simp: json_str_def split: if_splits\<close>)
qed

lemma json_dumps_inj: "json_valid x \<Longrightarrow> json_valid y \<Longrightarrow> json_dumps x = json_dumps y \<longleftrightarrow> x = y"
  using json_dumps_unique[of x y "[]" "[]"] by auto

text \<open>With sorted keys the text determines every entry of the object.\<close>

lemma json_sorted_entries:
  assumes "json_valid (JObj xs)" "json_valid (JObj ys)" "json_dumps_sorted xs = json_dumps_sorted ys"
  shows "set xs = set ys"
proof -
  have v: "json_valid (JObj (sort_key fst zs))" if "json_valid (JObj zs)" for zs :: "(ustr \<times> json) list"
    using that by (simp add: list_all_iff)
  have "sort_key fst xs = sort_key fst ys"
    using assms(3) json_dumps_inj[OF v[OF assms(1)] v[OF assms(2)]] by (simp add: json_dumps_sorted_def)
  then show ?thesis by (metis set_sort)
qed

end
