(* ===== verification/Timestamps.thy ===== *)
theory Timestamps
  imports Mark_Prelude
begin

text \<open>
  Aware UTC datetimes as the code uses them: ordered, subtracted, and stored as the text
  \<open>datetime.isoformat()\<close> gives. SQLite compares that text, so the theory shows that the
  text order is the chronological order; the store theories then compare datetimes directly.
\<close>

section \<open>Datetimes\<close>

datatype datetime = DT (dt_year: nat) (dt_month: nat) (dt_day: nat) (dt_hour: nat) (dt_minute: nat)
  (dt_second: nat) (dt_micro: nat)

fun dt_key :: "datetime \<Rightarrow> nat \<times> nat \<times> nat \<times> nat \<times> nat \<times> nat \<times> nat" where
  "dt_key (DT y mo d h mi s us) = (y, mo, d, h, mi, s, us)"

fun dt_valid :: "datetime \<Rightarrow> bool" where
  "dt_valid (DT y mo d h mi s us) \<longleftrightarrow> 1 \<le> y \<and> y \<le> 9999 \<and> 1 \<le> mo \<and> mo \<le> 12 \<and> 1 \<le> d \<and> d \<le> 31
     \<and> h \<le> 23 \<and> mi \<le> 59 \<and> s \<le> 59 \<and> us \<le> 999999"

lemma dt_key_inj: "dt_key a = dt_key b \<longleftrightarrow> a = b"
  by (cases a; cases b) auto

instantiation datetime :: linorder
begin

definition less_eq_datetime :: "datetime \<Rightarrow> datetime \<Rightarrow> bool" where
  "a \<le> b \<longleftrightarrow> dt_key a \<le> dt_key b"

definition less_datetime :: "datetime \<Rightarrow> datetime \<Rightarrow> bool" where
  "a < b \<longleftrightarrow> dt_key a < dt_key b"

instance
proof
  fix a b c :: datetime
  show "a < b \<longleftrightarrow> a \<le> b \<and> \<not> b \<le> a"
    unfolding less_eq_datetime_def less_datetime_def by (rule less_le_not_le)
  show "a \<le> a" by (simp add: less_eq_datetime_def)
  show "a \<le> b \<Longrightarrow> b \<le> c \<Longrightarrow> a \<le> c"
    unfolding less_eq_datetime_def by (rule order_trans)
  show "a \<le> b \<Longrightarrow> b \<le> a \<Longrightarrow> a = b"
    unfolding less_eq_datetime_def dt_key_inj[symmetric] by (rule antisym)
  show "a \<le> b \<or> b \<le> a"
    unfolding less_eq_datetime_def by (rule linear)
qed

end

text \<open>Microseconds since 0000-03-01 (proleptic Gregorian), for differences of datetimes.\<close>

fun dt_micros :: "datetime \<Rightarrow> int" where
  "dt_micros (DT y mo d h mi s us) =
     (let yy = (if mo \<le> 2 then int y - 1 else int y);
          mp = (int mo + 9) mod 12;
          days = 365 * yy + yy div 4 - yy div 100 + yy div 400 + (153 * mp + 2) div 5 + int d - 1
      in ((days * 24 + int h) * 60 + int mi) * 60000000 + int s * 1000000 + int us)"

text \<open>\<open>(a - b).total_seconds() > n\<close> for an integer number of seconds.\<close>

definition elapsed_more_than :: "datetime \<Rightarrow> datetime \<Rightarrow> int \<Rightarrow> bool" where
  "elapsed_more_than a b n \<longleftrightarrow> dt_micros a - dt_micros b > n * 1000000"

section \<open>ISO text\<close>

definition digit_char :: "nat \<Rightarrow> char" where
  "digit_char n = char_of (48 + n)"

text \<open>\<open>f"{n:0kd}"\<close> for a number of at most \<open>k\<close> digits.\<close>

fun pad_digits :: "nat \<Rightarrow> nat \<Rightarrow> string" where
  "pad_digits 0 n = []"
| "pad_digits (Suc k) n = pad_digits k (n div 10) @ [digit_char (n mod 10)]"

definition iso_tail :: "nat \<Rightarrow> string" where
  "iso_tail us = (if us = 0 then [] else ''.'' @ pad_digits 6 us) @ ''+00:00''"

fun iso_text :: "datetime \<Rightarrow> string" where
  "iso_text (DT y mo d h mi s us) =
     pad_digits 4 y @ ''-'' @ pad_digits 2 mo @ ''-'' @ pad_digits 2 d @ ''T'' @ pad_digits 2 h @ '':''
     @ pad_digits 2 mi @ '':'' @ pad_digits 2 s @ iso_tail us"

lemma length_pad_digits [simp]: "length (pad_digits k n) = k"
  by (induction k arbitrary: n) auto

lemma digit_char_less: "m < 10 \<Longrightarrow> n < 10 \<Longrightarrow> digit_char m < digit_char n \<longleftrightarrow> m < n"
  by (simp add: digit_char_def less_char_def of_char_of)

lemma digit_char_inj: "m < 10 \<Longrightarrow> n < 10 \<Longrightarrow> digit_char m = digit_char n \<longleftrightarrow> m = n"
  using digit_char_less[of m n] digit_char_less[of n m] by (metis nat_neq_iff order_less_irrefl)

lemma list_less_append:
  "length a = length b \<Longrightarrow> a @ x < b @ y \<longleftrightarrow> a < b \<or> a = b \<and> x < y"
  for a b x y :: "'a::linorder list"
  by (induction a b rule: list_induct2) auto

lemma pad_digits_inj: "m < 10 ^ k \<Longrightarrow> n < 10 ^ k \<Longrightarrow> pad_digits k m = pad_digits k n \<longleftrightarrow> m = n"
proof (induction k arbitrary: m n)
  case (Suc k)
  have "m div 10 < 10 ^ k" "n div 10 < 10 ^ k"
    using Suc.prems by (simp_all add: less_mult_imp_div_less mult.commute)
  then have "pad_digits (Suc k) m = pad_digits (Suc k) n \<longleftrightarrow> m div 10 = n div 10 \<and> m mod 10 = n mod 10"
    by (simp add: Suc.IH digit_char_inj)
  also have "\<dots> \<longleftrightarrow> m = n" by (metis div_mult_mod_eq)
  finally show ?case .
qed simp

lemma pad_digits_less: "m < 10 ^ k \<Longrightarrow> n < 10 ^ k \<Longrightarrow> pad_digits k m < pad_digits k n \<longleftrightarrow> m < n"
proof (induction k arbitrary: m n)
  case (Suc k)
  have b: "m div 10 < 10 ^ k" "n div 10 < 10 ^ k"
    using Suc.prems by (simp_all add: less_mult_imp_div_less mult.commute)
  have "pad_digits (Suc k) m < pad_digits (Suc k) n
      \<longleftrightarrow> m div 10 < n div 10 \<or> m div 10 = n div 10 \<and> m mod 10 < n mod 10"
    using b by (simp add: list_less_append Suc.IH pad_digits_inj digit_char_less)
  also have "\<dots> \<longleftrightarrow> 10 * (m div 10) + m mod 10 < 10 * (n div 10) + n mod 10"
    using mod_less_divisor[of 10 m] mod_less_divisor[of 10 n] by linarith
  also have "\<dots> \<longleftrightarrow> m < n" by simp
  finally show ?case .
qed simp

lemma iso_tail_less: "a \<le> 999999 \<Longrightarrow> b \<le> 999999 \<Longrightarrow> iso_tail a < iso_tail b \<longleftrightarrow> a < b"
  by (auto simp: iso_tail_def list_less_append pad_digits_less pad_digits_inj less_char_def
      simp del: pad_digits.simps)

lemma iso_text_less_iff:
  "dt_valid a \<Longrightarrow> dt_valid b \<Longrightarrow> iso_text a < iso_text b \<longleftrightarrow> a < b"
  by (cases a; cases b)
    (auto simp: less_datetime_def list_less_append pad_digits_less pad_digits_inj iso_tail_less
      simp del: pad_digits.simps)

lemma iso_text_inj: "dt_valid a \<Longrightarrow> dt_valid b \<Longrightarrow> iso_text a = iso_text b \<longleftrightarrow> a = b"
  using iso_text_less_iff[of a b] iso_text_less_iff[of b a]
  by (cases a b rule: linorder_cases) auto

text \<open>SQLite's comparison of stored ISO timestamps is chronological: for valid UTC
  datetimes the text order is the order of the instants, although a zero microsecond field is
  left out of the text, and different datetimes have different texts.\<close>

theorem iso_text_order:
  assumes "dt_valid a" "dt_valid b"
  shows "(iso_text a < iso_text b \<longleftrightarrow> a < b) \<and> (iso_text a = iso_text b \<longleftrightarrow> a = b)"
  by (intro conjI iso_text_less_iff[OF assms] iso_text_inj[OF assms])

lemma iso_text_order_witness:
  "iso_text (DT 2026 1 31 23 59 59 0) < iso_text (DT 2026 1 31 23 59 59 1)"
  using iso_text_order[of "DT 2026 1 31 23 59 59 0" "DT 2026 1 31 23 59 59 1"]
  by (simp add: less_datetime_def)

end
