(* ===== verification/Fragments.thy ===== *)
theory Fragments
  imports Timestamps
begin

text \<open>
  The data model of \<^verbatim>\<open>types/\<close>: the lifecycle, scope, tier and block-status enums with the
  state transition table (\<^verbatim>\<open>memory_enums.py\<close>), memory fragments and their lifecycle
  operations (\<^verbatim>\<open>memory_fragment.py\<close>), memory blocks (\<^verbatim>\<open>memory_block.py\<close>) and graph nodes,
  edges and block links (\<^verbatim>\<open>graph.py\<close>). The clock is the argument \<open>now\<close>; weights,
  importances and confidences are real numbers.
\<close>

section \<open>Enums\<close>

datatype memory_state = RAW | UNVERIFIED | VERIFIED | PROMOTED | CONTRADICTED | QUARANTINED

datatype memory_scope = ScopeSession | ScopeAgent | ScopeUser | ScopeGlobal

datatype memory_tier = WORKING | EPISODIC | SEMANTIC | PROCEDURAL | GLOBAL_TIER

datatype block_status = BLOCK_OPEN | BLOCK_SEALED | BLOCK_QUARANTINED

definition all_states :: "memory_state list" where
  "all_states = [RAW, UNVERIFIED, VERIFIED, PROMOTED, CONTRADICTED, QUARANTINED]"

fun transitions :: "memory_state \<Rightarrow> memory_state set" where
  "transitions RAW = {UNVERIFIED, CONTRADICTED}"
| "transitions UNVERIFIED = {VERIFIED, CONTRADICTED}"
| "transitions VERIFIED = {PROMOTED, CONTRADICTED, QUARANTINED}"
| "transitions PROMOTED = {CONTRADICTED, QUARANTINED}"
| "transitions CONTRADICTED = {UNVERIFIED}"
| "transitions QUARANTINED = {UNVERIFIED}"

definition can_transition_to :: "memory_state \<Rightarrow> memory_state \<Rightarrow> bool" where
  "can_transition_to s t \<longleftrightarrow> t \<in> transitions s"

section \<open>Fragments\<close>

text \<open>The metadata values the modelled code reads or writes; any other JSON is text.\<close>

datatype meta_val = MvBool bool | MvInt int | MvText ustr | MvTexts "ustr list"
  | MvHashes "(ustr \<times> ustr) list" | MvDecay real datetime

type_synonym metadata = "(string \<times> meta_val) list"

record fragment =
  fr_id :: ustr
  fr_content :: ustr
  fr_agent :: ustr
  fr_block :: "ustr option"
  fr_scope :: memory_scope
  fr_tier :: memory_tier
  fr_session :: "ustr option"
  fr_importance :: real
  fr_state :: memory_state
  fr_confidence :: real
  fr_ttl :: "int option"
  fr_created :: datetime
  fr_updated :: datetime
  fr_accessed :: "datetime option"
  fr_tags :: "string list"
  fr_source :: "ustr option"
  fr_meta :: metadata
  fr_embedding :: "real list option"
  fr_contradictions :: "ustr list"

text \<open>\<open>MemoryFragment(...)\<close>: the content is stripped and must not be blank, and the two
  scores must lie in [0, 1].\<close>

definition fragment_validated :: "fragment \<Rightarrow> py_error + fragment" where
  "fragment_validated f =
     (let v = py_strip (fr_content f)
      in if v = [] then Inl ValueError
         else if \<not> (0 \<le> fr_importance f \<and> fr_importance f \<le> 1) then Inl ValueError
         else if \<not> (0 \<le> fr_confidence f \<and> fr_confidence f \<le> 1) then Inl ValueError
         else Inr (f\<lparr>fr_content := v\<rparr>))"

fun fragment_kind_of :: "string list \<Rightarrow> string option" where
  "fragment_kind_of [] = None"
| "fragment_kind_of (t # ts) =
     (if take 5 t = ''kind:'' \<and> length t > 5 then Some (drop 5 t) else fragment_kind_of ts)"

definition fragment_kind :: "fragment \<Rightarrow> string option" where
  "fragment_kind f = fragment_kind_of (fr_tags f)"

definition is_working_memory :: "fragment \<Rightarrow> bool" where
  "is_working_memory f \<longleftrightarrow> fr_ttl f \<noteq> None \<or> fr_tier f = WORKING"

definition is_expired :: "datetime \<Rightarrow> fragment \<Rightarrow> bool" where
  "is_expired now f = (case fr_ttl f of None \<Rightarrow> False | Some t \<Rightarrow> elapsed_more_than now (fr_created f) t)"

definition transition_to :: "datetime \<Rightarrow> fragment \<Rightarrow> memory_state \<Rightarrow> py_error + fragment" where
  "transition_to now f s =
     (if \<not> can_transition_to (fr_state f) s then Inl ValueError
      else Inr (f\<lparr>fr_state := s, fr_updated := now\<rparr>))"

text \<open>\<open>sorted(set([*ids, other_id]))\<close>.\<close>

definition mark_contradicted :: "datetime \<Rightarrow> fragment \<Rightarrow> ustr \<Rightarrow> fragment" where
  "mark_contradicted now f other =
     f\<lparr>fr_state := CONTRADICTED, fr_contradictions := sort (remdups (fr_contradictions f @ [other])),
       fr_updated := now\<rparr>"

definition touch_fragment :: "datetime \<Rightarrow> fragment \<Rightarrow> fragment" where
  "touch_fragment now f = f\<lparr>fr_accessed := Some now\<rparr>"

section \<open>Graph nodes, edges and block links\<close>

text \<open>Node types and relations by their string value: the relation vocabulary is open.\<close>

definition known_relations :: "string list" where
  "known_relations = [''related_to'', ''supports'', ''contradicts'', ''causes'', ''part_of'',
     ''derived_from'', ''references'', ''mentions'', ''owns'', ''appears_in'', ''located_at'', ''symbolizes'']"

definition expansive_relations :: "string list" where
  "expansive_relations = [''related_to'', ''supports'', ''part_of'', ''derived_from'', ''owns'',
     ''appears_in'', ''located_at'']"

definition relation_is_known :: "string \<Rightarrow> bool" where
  "relation_is_known r \<longleftrightarrow> r \<in> set known_relations"

definition relation_is_expansive :: "string \<Rightarrow> bool" where
  "relation_is_expansive r \<longleftrightarrow> r \<in> set expansive_relations \<or> \<not> relation_is_known r"

record node =
  nd_id :: ustr
  nd_type :: string
  nd_label :: ustr
  nd_agent :: "ustr option"
  nd_fragment :: "ustr option"
  nd_document :: "ustr option"
  nd_weight :: real
  nd_created :: datetime

record edge =
  ed_id :: ustr
  ed_source :: ustr
  ed_target :: ustr
  ed_relation :: string
  ed_weight :: real
  ed_agent :: ustr
  ed_created :: datetime
  ed_block :: "ustr option"

record block_link =
  bl_id :: ustr
  bl_source :: ustr
  bl_target :: ustr
  bl_relation :: string
  bl_weight :: real
  bl_agent :: ustr
  bl_created :: datetime

section \<open>Blocks\<close>

record block =
  bk_id :: ustr
  bk_name :: ustr
  bk_agent :: ustr
  bk_type :: string
  bk_session :: "ustr option"
  bk_status :: block_status
  bk_content_hash :: "ustr option"
  bk_prev_id :: "ustr option"
  bk_prev_hash :: "ustr option"
  bk_sealed_at :: "datetime option"
  bk_fragments :: "fragment list"
  bk_created :: datetime
  bk_meta :: metadata

definition bk_is_sealed :: "block \<Rightarrow> bool" where
  "bk_is_sealed b \<longleftrightarrow> bk_status b = BLOCK_SEALED"

definition bk_is_quarantined :: "block \<Rightarrow> bool" where
  "bk_is_quarantined b \<longleftrightarrow> bk_status b = BLOCK_QUARANTINED"

definition block_add :: "block \<Rightarrow> fragment \<Rightarrow> py_error + block" where
  "block_add b f =
     (if fr_agent f \<noteq> bk_agent b then Inl ValueError
      else Inr (b\<lparr>bk_fragments := bk_fragments b @ [f\<lparr>fr_block := Some (bk_id b)\<rparr>]\<rparr>))"

definition working_fragments :: "block \<Rightarrow> fragment list" where
  "working_fragments b = filter is_working_memory (bk_fragments b)"

definition ltm_fragments :: "block \<Rightarrow> fragment list" where
  "ltm_fragments b = filter (\<lambda>f. \<not> is_working_memory f) (bk_fragments b)"

definition expired_fragments :: "datetime \<Rightarrow> block \<Rightarrow> fragment list" where
  "expired_fragments now b = filter (is_expired now) (bk_fragments b)"

definition by_state :: "block \<Rightarrow> memory_state \<Rightarrow> fragment list" where
  "by_state b s = filter (\<lambda>f. fr_state f = s) (bk_fragments b)"

definition block_retrievable :: "block \<Rightarrow> fragment list" where
  "block_retrievable b = filter (\<lambda>f. fr_state f \<notin> {RAW, CONTRADICTED, QUARANTINED}) (bk_fragments b)"

definition block_stats :: "block \<Rightarrow> (memory_state \<times> nat) list" where
  "block_stats b = fold (\<lambda>f c. AList.update (fr_state f) (the (map_of c (fr_state f)) + 1) c)
     (bk_fragments b) (map (\<lambda>s. (s, 0)) all_states)"

section \<open>The state machine\<close>

text \<open>A run of \<open>transition_to\<close> calls on one fragment.\<close>

inductive reaches :: "memory_state \<Rightarrow> memory_state \<Rightarrow> bool" where
  reaches_refl: "reaches s s"
| reaches_step: "can_transition_to s t \<Longrightarrow> reaches t w \<Longrightarrow> reaches s w"

lemma transition_to_Inr_iff:
  "transition_to now f s = Inr g \<longleftrightarrow>
     can_transition_to (fr_state f) s \<and> g = f\<lparr>fr_state := s, fr_updated := now\<rparr>"
  by (auto simp: transition_to_def)

fun run_transitions :: "datetime \<Rightarrow> fragment \<Rightarrow> memory_state list \<Rightarrow> py_error + fragment" where
  "run_transitions now f [] = Inr f"
| "run_transitions now f (s # ss) = bind_res (transition_to now f s) (\<lambda>g. run_transitions now g ss)"

lemma run_transitions_snoc:
  "run_transitions now f (ss @ [s]) = bind_res (run_transitions now f ss) (\<lambda>g. transition_to now g s)"
proof (induction ss arbitrary: f)
  case Nil
  show ?case by (cases "transition_to now f s") auto
next
  case (Cons t ss)
  then show ?case by (cases "transition_to now f t") auto
qed

lemma run_transitions_content:
  "run_transitions now f ss = Inr g \<Longrightarrow> fr_content g = fr_content f \<and> fr_id g = fr_id f"
  by (induction ss arbitrary: f) (auto simp: bind_res_Inr_iff transition_to_Inr_iff)

lemma run_transitions_state:
  "run_transitions now f ss = Inr g \<Longrightarrow> fr_state g = last (fr_state f # ss)"
proof (induction ss arbitrary: f)
  case (Cons s ss)
  then obtain h where h: "transition_to now f s = Inr h" "run_transitions now h ss = Inr g"
    by (auto simp: bind_res_Inr_iff)
  from h(1) have "fr_state h = s" by (simp add: transition_to_Inr_iff)
  with Cons.IH[OF h(2)] show ?case by simp
qed simp

text \<open>A fragment that a sequence of \<open>transition_to\<close> calls brings to PROMOTED (from
  any other state) was VERIFIED immediately before, and before that UNVERIFIED: promotion is only
  reached through verification, and no run of transitions changes the content.\<close>

theorem promotion_needs_verification:
  assumes "run_transitions now f (ss @ [s1, s2, PROMOTED]) = Inr g"
  shows "s2 = VERIFIED \<and> s1 = UNVERIFIED \<and> fr_content g = fr_content f"
proof -
  have "run_transitions now f ((((ss @ [s1]) @ [s2]) @ [PROMOTED])) = Inr g"
    using assms by simp
  then obtain h1 h2 where h: "run_transitions now f (ss @ [s1]) = Inr h1"
    "transition_to now h1 s2 = Inr h2" "transition_to now h2 PROMOTED = Inr g"
    unfolding run_transitions_snoc by (auto simp: bind_res_Inr_iff)
  have "fr_state h1 = s1" using run_transitions_state[OF h(1)] by simp
  then have "can_transition_to s1 s2" "can_transition_to s2 PROMOTED"
    using h(2,3) by (auto simp: transition_to_Inr_iff)
  then have "s2 = VERIFIED" and s12: "can_transition_to s1 s2"
    by (cases s2; simp add: can_transition_to_def)+
  moreover from this have "s1 = UNVERIFIED"
    by (cases s1) (simp_all add: can_transition_to_def)
  moreover have "fr_content g = fr_content f"
    using run_transitions_content[OF assms] by blast
  ultimately show ?thesis by blast
qed

definition wit_fragment :: fragment where
  "wit_fragment = \<lparr>fr_id = u ''f1'', fr_content = u ''the sky is blue'', fr_agent = u ''a'', fr_block = None,
     fr_scope = ScopeAgent, fr_tier = EPISODIC, fr_session = None, fr_importance = 1 / 2, fr_state = RAW,
     fr_confidence = 1, fr_ttl = None, fr_created = DT 2026 1 1 0 0 0 0, fr_updated = DT 2026 1 1 0 0 0 0,
     fr_accessed = None, fr_tags = [], fr_source = None, fr_meta = [], fr_embedding = None,
     fr_contradictions = []\<rparr>"

lemma promotion_needs_verification_witness:
  "\<exists>g. run_transitions (DT 2026 1 2 0 0 0 0) wit_fragment [UNVERIFIED, VERIFIED, PROMOTED] = Inr g
     \<and> fr_content g = u ''the sky is blue''"
proof -
  have "\<exists>g. run_transitions (DT 2026 1 2 0 0 0 0) wit_fragment ([] @ [UNVERIFIED, VERIFIED, PROMOTED]) = Inr g"
    by (simp add: transition_to_def can_transition_to_def wit_fragment_def)
  then obtain g where g: "run_transitions (DT 2026 1 2 0 0 0 0) wit_fragment
      ([] @ [UNVERIFIED, VERIFIED, PROMOTED]) = Inr g" ..
  from promotion_needs_verification[OF g] g show ?thesis by (auto simp: wit_fragment_def)
qed

lemma reaches_trans: "reaches s t \<Longrightarrow> reaches t w \<Longrightarrow> reaches s w"
  by (induction rule: reaches.induct) (auto intro: reaches_step)

lemma reaches_one: "can_transition_to s t \<Longrightarrow> reaches s t"
  by (rule reaches_step[OF _ reaches_refl])

lemma reaches_unverified: "reaches s UNVERIFIED"
proof -
  have c: "reaches CONTRADICTED UNVERIFIED" by (rule reaches_one) (simp add: can_transition_to_def)
  show ?thesis
  proof (cases s)
    case UNVERIFIED
    then show ?thesis using reaches_refl by simp
  next
    case QUARANTINED
    then show ?thesis by (intro reaches_one) (simp add: can_transition_to_def)
  qed (use c reaches_one in \<open>auto intro: reaches_step simp: can_transition_to_def\<close>)
qed

lemma unverified_reaches: "t \<noteq> RAW \<Longrightarrow> reaches UNVERIFIED t"
proof -
  have v: "reaches UNVERIFIED VERIFIED" by (rule reaches_one) (simp add: can_transition_to_def)
  have "reaches VERIFIED t" if "t \<in> {VERIFIED, PROMOTED, CONTRADICTED, QUARANTINED}"
    using that reaches_refl by (auto intro: reaches_one simp: can_transition_to_def)
  then show "t \<noteq> RAW \<Longrightarrow> reaches UNVERIFIED t"
    using v reaches_refl by (cases t) (auto intro: reaches_trans)
qed

lemma raw_not_entered: "reaches s RAW \<Longrightarrow> s = RAW"
proof (induction s RAW rule: reaches.induct)
  case (reaches_step s t)
  then show ?case by (cases s) (auto simp: can_transition_to_def)
qed simp

text \<open>Of the lifecycle states, every one can be reached from every other by allowed
  transitions, except that RAW is never entered again: no fragment is stuck, and RAW is left for
  good.\<close>

theorem state_reachability:
  "reaches s t = (if t = RAW then s = RAW else True)"
  using reaches_trans[OF reaches_unverified unverified_reaches] raw_not_entered reaches_refl by auto

end
