(* ===== verification/Facts.thy ===== *)
theory Facts
  imports Json Fragments
begin

text \<open>
  Bi-temporal facts: typed values (\<^verbatim>\<open>store/_sqlite/fact_codec.py\<close>), normalised keys
  (\<^verbatim>\<open>codec.py\<close>), and the facts table with its single-valued chains (\<^verbatim>\<open>facts.py\<close>), its
  multi-valued and scheduled values (\<^verbatim>\<open>facts_multi.py\<close>), the restore of exported rows
  (\<^verbatim>\<open>fact_import.py\<close>), the cascades of \<^verbatim>\<open>lifecycle.py\<close> and the agent's view of it
  (\<^verbatim>\<open>memory/facts.py\<close>). The clock \<open>now\<close>, a fresh row id and the Unicode lower-casing
  function \<open>lower\<close> are arguments. Values are shown as the provider decrypts them.
\<close>

section \<open>Typed values\<close>

text \<open>A text, or any other JSON value by its canonical text (which never starts with a quote).\<close>

datatype fact_value = FText ustr | FJson ustr

definition TYPED :: ustr where "TYPED = 31 # u ''mark-json:''"

text \<open>\<open>json.dumps\<close> of a string with \<open>ensure_ascii=False\<close>.\<close>

definition raw_esc :: "nat \<Rightarrow> ustr" where
  "raw_esc c = (if c < 32 \<or> c = 34 \<or> c = 92 then json_esc c else [c])"

definition raw_str :: "ustr \<Rightarrow> ustr" where
  "raw_str s = 34 # concat (map raw_esc s) @ [34]"

function read_str :: "ustr \<Rightarrow> ustr option" where
  "read_str [] = None"
| "read_str (c # s) =
     (if c = 34 then (if s = [] then Some [] else None)
      else case json_read_char (c # s) of
        None \<Rightarrow> None
      | Some (x, r) \<Rightarrow> if length r \<le> length s then map_option ((#) x) (read_str r) else None)"
  by pat_completeness auto
termination by (relation "measure length") auto

text \<open>\<open>json.loads\<close>: a string, or another value, which is its own canonical text.\<close>

definition json_value :: "ustr \<Rightarrow> fact_value option" where
  "json_value t = (if t \<noteq> [] \<and> hd t = 34 then map_option FText (read_str (tl t)) else Some (FJson t))"

definition encode_value :: "fact_value \<Rightarrow> py_error + ustr" where
  "encode_value v =
     (let t = (case v of FText s \<Rightarrow> if take (length TYPED) s = TYPED then TYPED @ raw_str s else s
               | FJson j \<Rightarrow> TYPED @ j)
      in if ustr_valid t then Inr t else Inl ValueError)"

definition decode_value :: "ustr \<Rightarrow> fact_value" where
  "decode_value t =
     (if take (length TYPED) t = TYPED then
        (case json_value (drop (length TYPED) t) of Some v \<Rightarrow> v | None \<Rightarrow> FText t)
      else FText t)"

fun value_text :: "fact_value \<Rightarrow> ustr" where
  "value_text (FText s) = s"
| "value_text (FJson j) = j"

definition same_value :: "fact_value \<Rightarrow> fact_value \<Rightarrow> bool" where
  "same_value stored wanted \<longleftrightarrow> encode_value stored = encode_value wanted \<or> value_text stored = value_text wanted"

section \<open>Keys\<close>

definition is_sep :: "nat \<Rightarrow> bool" where
  "is_sep c \<longleftrightarrow> py_isspace c \<or> c = 95 \<or> c = 45"

fun fold_seps :: "ustr \<Rightarrow> ustr" where
  "fold_seps [] = []"
| "fold_seps [c] = (if is_sep c then [32] else [c])"
| "fold_seps (c # d # cs) =
     (if is_sep c then (if is_sep d then fold_seps (d # cs) else 32 # fold_seps (d # cs))
      else c # fold_seps (d # cs))"

definition strip_chars :: "nat set \<Rightarrow> ustr \<Rightarrow> ustr" where
  "strip_chars A s = rev (dropWhile (\<lambda>c. c \<in> A) (rev (dropWhile (\<lambda>c. c \<in> A) s)))"

definition rstrip_chars :: "nat set \<Rightarrow> ustr \<Rightarrow> ustr" where
  "rstrip_chars A s = rev (dropWhile (\<lambda>c. c \<in> A) (rev s))"

definition fact_key :: "(ustr \<Rightarrow> ustr) \<Rightarrow> ustr \<Rightarrow> ustr" where
  "fact_key lower t =
     rstrip_chars {32, 46, 44, 59, 58, 33, 63}
       (strip_chars {32, 34, 39, 40, 41, 91, 93, 123, 125}
         (fold_seps (map (\<lambda>c. if c = 8217 then 39 else c) (lower t))))"

section \<open>The facts table\<close>

record fact =
  fc_id :: ustr
  fc_agent :: ustr
  fc_subject :: ustr
  fc_skey :: ustr
  fc_attr :: ustr
  fc_akey :: ustr
  fc_value :: ustr
  fc_from :: datetime
  fc_to :: "datetime option"
  fc_recorded :: datetime
  fc_retracted :: "datetime option"
  fc_source :: "ustr option"
  fc_meta :: metadata

definition MULTI_KEY :: string where "MULTI_KEY = ''multi_valued''"

fun truthy :: "meta_val \<Rightarrow> bool" where
  "truthy (MvBool b) \<longleftrightarrow> b"
| "truthy (MvInt n) \<longleftrightarrow> n \<noteq> 0"
| "truthy (MvText s) \<longleftrightarrow> s \<noteq> []"
| "truthy (MvTexts xs) \<longleftrightarrow> xs \<noteq> []"
| "truthy (MvHashes xs) \<longleftrightarrow> xs \<noteq> []"
| "truthy (MvDecay r t) \<longleftrightarrow> True"

definition is_multi :: "fact \<Rightarrow> bool" where
  "is_multi r = (case map_of (fc_meta r) MULTI_KEY of None \<Rightarrow> False | Some v \<Rightarrow> truthy v)"

definition on_timeline :: "ustr \<Rightarrow> ustr \<Rightarrow> ustr \<Rightarrow> fact \<Rightarrow> bool" where
  "on_timeline a s k r \<longleftrightarrow> fc_agent r = a \<and> fc_skey r = s \<and> fc_akey r = k"

abbreviation fact_live :: "fact \<Rightarrow> bool" where
  "fact_live r \<equiv> fc_retracted r = None"

text \<open>The rows of one chain, in the order of \<open>ORDER BY valid_from, recorded_at, rowid\<close>.\<close>

definition timeline :: "fact list \<Rightarrow> ustr \<Rightarrow> ustr \<Rightarrow> ustr \<Rightarrow> fact list" where
  "timeline rows a s k = sort_key (\<lambda>r. (fc_from r, fc_recorded r))
     (filter (\<lambda>r. on_timeline a s k r \<and> fact_live r \<and> \<not> is_multi r) rows)"

definition next_froms :: "fact list \<Rightarrow> datetime option list" where
  "next_froms rs = map (\<lambda>i. if i + 1 < length rs then Some (fc_from (rs ! (i + 1))) else None) [0..<length rs]"

definition set_ends :: "(ustr \<times> datetime option) list \<Rightarrow> fact list \<Rightarrow> fact list" where
  "set_ends upd rows = map (\<lambda>r. case map_of upd (fc_id r) of None \<Rightarrow> r | Some t \<Rightarrow> r\<lparr>fc_to := t\<rparr>) rows"

definition rechain :: "fact list \<Rightarrow> ustr \<Rightarrow> ustr \<Rightarrow> ustr \<Rightarrow> fact list" where
  "rechain rows a s k = (let tl = timeline rows a s k in set_ends (zip (map fc_id tl) (next_froms tl)) rows)"

definition retract_ids :: "datetime \<Rightarrow> ustr list \<Rightarrow> fact list \<Rightarrow> fact list" where
  "retract_ids now ids rows = tbl_update (\<lambda>r. fc_id r \<in> set ids) (\<lambda>r. r\<lparr>fc_retracted := Some now\<rparr>) rows"

text \<open>Multi-valued rows that began by \<open>v\<close> and are still open then end at \<open>v\<close>.\<close>

definition end_multi :: "ustr \<Rightarrow> ustr \<Rightarrow> ustr \<Rightarrow> datetime \<Rightarrow> fact list \<Rightarrow> fact list" where
  "end_multi a s k v rows = tbl_update
     (\<lambda>r. on_timeline a s k r \<and> fact_live r \<and> fc_from r \<le> v
        \<and> (case fc_to r of None \<Rightarrow> True | Some t \<Rightarrow> v < t) \<and> is_multi r)
     (\<lambda>r. r\<lparr>fc_to := Some v\<rparr>) rows"

definition same_time_rows :: "fact list \<Rightarrow> ustr \<Rightarrow> ustr \<Rightarrow> ustr \<Rightarrow> datetime \<Rightarrow> fact list" where
  "same_time_rows rows a s k v = sort_key fc_recorded
     (filter (\<lambda>r. on_timeline a s k r \<and> fc_from r = v \<and> fact_live r \<and> \<not> is_multi r) rows)"

text \<open>The row that an \<open>INSERT\<close> adds; its \<open>valid_to\<close> is open.\<close>

definition new_fact ::
  "ustr \<Rightarrow> ustr \<Rightarrow> ustr \<Rightarrow> ustr \<Rightarrow> ustr \<Rightarrow> ustr \<Rightarrow> ustr \<Rightarrow> datetime \<Rightarrow> datetime \<Rightarrow> ustr option
     \<Rightarrow> metadata \<Rightarrow> fact" where
  "new_fact fid a subject s attr k enc v recorded source meta =
     \<lparr>fc_id = fid, fc_agent = a, fc_subject = py_strip subject, fc_skey = s, fc_attr = py_strip attr,
      fc_akey = k, fc_value = enc, fc_from = v, fc_to = None, fc_recorded = recorded, fc_retracted = None,
      fc_source = source, fc_meta = meta\<rparr>"

definition fact_set ::
  "(ustr \<Rightarrow> ustr) \<Rightarrow> datetime \<Rightarrow> ustr \<Rightarrow> fact list \<Rightarrow> ustr \<Rightarrow> ustr \<Rightarrow> ustr \<Rightarrow> fact_value \<Rightarrow> datetime
     \<Rightarrow> ustr option \<Rightarrow> metadata \<Rightarrow> bool \<Rightarrow> py_error + (fact list \<times> fact option)" where
  "fact_set lower now fid rows a subject attr value v source meta correction =
     (let s = fact_key lower subject; k = fact_key lower attr
      in if s = [] \<or> k = [] then Inl ValueError
         else bind_res (encode_value value) (\<lambda>enc.
           let same = same_time_rows rows a s k v
           in if \<not> correction \<and> same \<noteq> [] \<and> fc_value (last same) = enc then
                Inr (rows, tbl_get fc_id rows (fc_id (last same)))
              else
                (let rows1 = (if correction then retract_ids now (map fc_id same) rows else rows);
                     new = new_fact fid a subject s attr k enc v now source (filter (\<lambda>(x, y). x \<noteq> MULTI_KEY) meta);
                     rows2 = rechain (end_multi a s k v (rows1 @ [new])) a s k
                 in Inr (rows2, tbl_get fc_id rows2 fid))))"

definition collapse :: "fact list \<Rightarrow> fact list" where
  "collapse rs = rev (fold (\<lambda>r acc. case acc of
       h # t \<Rightarrow> if decode_value (fc_value h) = decode_value (fc_value r) then h\<lparr>fc_to := fc_to r\<rparr> # t else r # acc
     | [] \<Rightarrow> [r]) rs [])"

definition fact_history :: "(ustr \<Rightarrow> ustr) \<Rightarrow> fact list \<Rightarrow> ustr \<Rightarrow> ustr \<Rightarrow> ustr \<Rightarrow> fact list" where
  "fact_history lower rows a subject attr = collapse (sort_key (\<lambda>r. (fc_from r, fc_recorded r))
     (filter (\<lambda>r. on_timeline a (fact_key lower subject) (fact_key lower attr) r \<and> fact_live r) rows))"

text \<open>Valid at \<open>t\<close>: started at or before it and not ended by then.\<close>

definition valid_at :: "datetime \<Rightarrow> fact \<Rightarrow> bool" where
  "valid_at t r \<longleftrightarrow> fc_from r \<le> t \<and> (case fc_to r of None \<Rightarrow> True | Some e \<Rightarrow> t < e)"

definition key_matches :: "(ustr \<Rightarrow> ustr) \<Rightarrow> ustr option \<Rightarrow> ustr \<Rightarrow> bool" where
  "key_matches lower want x \<longleftrightarrow> (case want of None \<Rightarrow> True | Some t \<Rightarrow> x = fact_key lower t)"

definition fact_current ::
  "(ustr \<Rightarrow> ustr) \<Rightarrow> datetime \<Rightarrow> fact list \<Rightarrow> ustr \<Rightarrow> ustr option \<Rightarrow> ustr option \<Rightarrow> fact list" where
  "fact_current lower now rows a subject attr =
     sort_key (\<lambda>r. (fc_skey r, fc_akey r, fc_from r, fc_recorded r))
       (filter (\<lambda>r. fc_agent r = a \<and> fact_live r \<and> valid_at now r
          \<and> key_matches lower subject (fc_skey r) \<and> key_matches lower attr (fc_akey r)) rows)"

definition fact_as_of ::
  "(ustr \<Rightarrow> ustr) \<Rightarrow> fact list \<Rightarrow> ustr \<Rightarrow> ustr \<Rightarrow> ustr \<Rightarrow> datetime \<Rightarrow> fact option" where
  "fact_as_of lower rows a subject attr t =
     (case sort_key_desc fc_from (filter (\<lambda>r. on_timeline a (fact_key lower subject) (fact_key lower attr) r
             \<and> fact_live r \<and> valid_at t r) rows) of
        [] \<Rightarrow> None | r # _ \<Rightarrow> Some r)"

definition fact_retract ::
  "(ustr \<Rightarrow> ustr) \<Rightarrow> datetime \<Rightarrow> fact list \<Rightarrow> ustr \<Rightarrow> ustr \<Rightarrow> ustr option \<Rightarrow> fact_value option
     \<Rightarrow> fact list \<times> nat" where
  "fact_retract lower now rows a subject attr value =
     (let s = fact_key lower subject;
          hit = filter (\<lambda>r. fc_agent r = a \<and> fc_skey r = s \<and> fact_live r \<and> key_matches lower attr (fc_akey r)
            \<and> (case value of None \<Rightarrow> True | Some v \<Rightarrow> same_value (decode_value (fc_value r)) v)) rows;
          rows1 = retract_ids now (map fc_id hit) rows
      in (fold (\<lambda>k rs. rechain rs a s k) (remdups (map fc_akey hit)) rows1, length hit))"

definition fact_subjects :: "fact list \<Rightarrow> ustr \<Rightarrow> ustr list" where
  "fact_subjects rows a = remdups (map fc_skey (filter (\<lambda>r. fc_agent r = a \<and> fact_live r) rows))"

section \<open>Multi-valued and scheduled values\<close>

definition open_rows :: "fact list \<Rightarrow> ustr \<Rightarrow> ustr \<Rightarrow> ustr \<Rightarrow> datetime \<Rightarrow> fact list" where
  "open_rows rows a s k t = filter (\<lambda>r. on_timeline a s k r \<and> fact_live r
     \<and> (case fc_to r of None \<Rightarrow> True | Some e \<Rightarrow> t < e)) rows"

definition fact_add ::
  "(ustr \<Rightarrow> ustr) \<Rightarrow> datetime \<Rightarrow> ustr \<Rightarrow> fact list \<Rightarrow> ustr \<Rightarrow> ustr \<Rightarrow> ustr \<Rightarrow> fact_value \<Rightarrow> datetime
     \<Rightarrow> ustr option \<Rightarrow> metadata \<Rightarrow> py_error + (fact list \<times> fact option)" where
  "fact_add lower now fid rows a subject attr value v source meta =
     (let s = fact_key lower subject; k = fact_key lower attr
      in if s = [] \<or> k = [] then Inl ValueError
         else bind_res (encode_value value) (\<lambda>enc.
           case find (\<lambda>r. fc_value r = enc) (open_rows rows a s k v) of
             Some r \<Rightarrow> Inr (rows, tbl_get fc_id rows (fc_id r))
           | None \<Rightarrow>
               (let new = new_fact fid a subject s attr k enc v now source (AList.update MULTI_KEY (MvBool True) meta)
                in Inr (rows @ [new], tbl_get fc_id (rows @ [new]) fid))))"

definition fact_remove ::
  "(ustr \<Rightarrow> ustr) \<Rightarrow> fact list \<Rightarrow> ustr \<Rightarrow> ustr \<Rightarrow> ustr \<Rightarrow> fact_value \<Rightarrow> datetime \<Rightarrow> py_error + (fact list \<times> nat)" where
  "fact_remove lower rows a subject attr value t =
     (let s = fact_key lower subject; k = fact_key lower attr
      in bind_res (encode_value value) (\<lambda>enc.
           let hit = filter (\<lambda>r. is_multi r \<and> fc_value r = enc) (open_rows rows a s k t)
           in Inr (tbl_update (\<lambda>r. fc_id r \<in> set (map fc_id hit)) (\<lambda>r. r\<lparr>fc_to := Some t\<rparr>) rows, length hit)))"

definition fact_scheduled ::
  "(ustr \<Rightarrow> ustr) \<Rightarrow> datetime \<Rightarrow> fact list \<Rightarrow> ustr \<Rightarrow> ustr option \<Rightarrow> ustr option \<Rightarrow> fact list" where
  "fact_scheduled lower now rows a subject attr =
     sort_key (\<lambda>r. (fc_from r, fc_recorded r))
       (filter (\<lambda>r. fc_agent r = a \<and> fact_live r \<and> now < fc_from r
          \<and> key_matches lower subject (fc_skey r) \<and> key_matches lower attr (fc_akey r)) rows)"

section \<open>Restoring exported rows\<close>

record fact_export =
  fx_subject :: ustr
  fx_attr :: ustr
  fx_value :: fact_value
  fx_from :: datetime
  fx_recorded :: "datetime option"
  fx_source :: "ustr option"
  fx_meta :: metadata

definition fact_rows :: "fact list \<Rightarrow> ustr \<Rightarrow> fact list" where
  "fact_rows rows a = sort_key (\<lambda>r. (fc_from r, fc_recorded r)) (filter (\<lambda>r. fc_agent r = a \<and> fact_live r) rows)"

text \<open>A row as \<open>export_jsonl\<close> writes it: without its id and without \<open>valid_to\<close>.\<close>

definition export_row :: "fact \<Rightarrow> fact_export" where
  "export_row r = \<lparr>fx_subject = fc_subject r, fx_attr = fc_attr r, fx_value = decode_value (fc_value r),
     fx_from = fc_from r, fx_recorded = Some (fc_recorded r), fx_source = fc_source r, fx_meta = fc_meta r\<rparr>"

definition import_fact_row ::
  "(ustr \<Rightarrow> ustr) \<Rightarrow> datetime \<Rightarrow> ustr \<Rightarrow> fact list \<Rightarrow> ustr \<Rightarrow> fact_export \<Rightarrow> py_error + (fact list \<times> bool)" where
  "import_fact_row lower now fid rows a x =
     (let s = fact_key lower (fx_subject x); k = fact_key lower (fx_attr x)
      in if s = [] \<or> k = [] then Inl ValueError
         else bind_res (encode_value (fx_value x)) (\<lambda>enc.
           if list_ex (\<lambda>r. on_timeline a s k r \<and> fc_from r = fx_from x \<and> fact_live r
                \<and> (case fx_recorded x of None \<Rightarrow> True | Some t \<Rightarrow> fc_recorded r = t) \<and> fc_value r = enc) rows
           then Inr (rows, False)
           else
             (let new = new_fact fid a (fx_subject x) s (fx_attr x) k enc (fx_from x)
                    (case fx_recorded x of None \<Rightarrow> now | Some t \<Rightarrow> t) (fx_source x) (fx_meta x);
                  rows1 = rows @ [new]
              in Inr (if is_multi new then rows1 else rechain rows1 a s k, True))))"

section \<open>Cascades\<close>

fun py_chunks :: "nat \<Rightarrow> 'a list \<Rightarrow> 'a list list" where
  "py_chunks 0 xs = []"
| "py_chunks (Suc n) [] = []"
| "py_chunks (Suc n) (x # xs) = (x # take n xs) # py_chunks (Suc n) (drop n xs)"

definition SQL_CHUNK :: nat where "SQL_CHUNK = 900"

definition cascade_chunk ::
  "datetime \<Rightarrow> bool \<Rightarrow> ustr \<Rightarrow> ustr list \<Rightarrow> fact list \<Rightarrow> fact list" where
  "cascade_chunk now secure a ids rows =
     (let hit = (\<lambda>r. fc_agent r = a \<and> fc_source r \<in> Some ` set ids);
          keys = remdups (map (\<lambda>r. (fc_skey r, fc_akey r)) (filter hit rows));
          rows1 = (if secure then tbl_delete hit rows
            else tbl_update (\<lambda>r. hit r \<and> fact_live r) (\<lambda>r. r\<lparr>fc_retracted := Some now\<rparr>) rows)
      in fold (\<lambda>(s, k) rs. rechain rs a s k) keys rows1)"

definition cascade_facts ::
  "datetime \<Rightarrow> bool \<Rightarrow> ustr \<Rightarrow> ustr list \<Rightarrow> fact list \<Rightarrow> fact list" where
  "cascade_facts now secure a ids rows = fold (cascade_chunk now secure a) (py_chunks SQL_CHUNK ids) rows"

definition fact_delete ::
  "(ustr \<Rightarrow> ustr) \<Rightarrow> fact list \<Rightarrow> ustr \<Rightarrow> ustr \<Rightarrow> ustr option \<Rightarrow> ustr option \<Rightarrow> fact list \<times> nat" where
  "fact_delete lower rows a subject attr value =
     (let s = fact_key lower subject;
          hit = filter (\<lambda>r. fc_agent r = a \<and> fc_skey r = s \<and> key_matches lower attr (fc_akey r)
            \<and> (case value of None \<Rightarrow> True | Some v \<Rightarrow> fc_value r = v)) rows;
          rows1 = tbl_delete (\<lambda>r. fc_id r \<in> set (map fc_id hit)) rows
      in (fold (\<lambda>k rs. rechain rs a s k) (remdups (map fc_akey hit)) rows1, length hit))"

definition facts_from_fragments :: "fact list \<Rightarrow> ustr \<Rightarrow> ustr list \<Rightarrow> nat" where
  "facts_from_fragments rows a ids =
     sum_list (map (\<lambda>c. length (filter (\<lambda>r. fc_agent r = a \<and> fact_live r \<and> fc_source r \<in> Some ` set c) rows))
       (py_chunks SQL_CHUNK ids))"

section \<open>The agent's view\<close>

definition facts_get :: "(ustr \<Rightarrow> ustr) \<Rightarrow> datetime \<Rightarrow> fact list \<Rightarrow> ustr \<Rightarrow> ustr \<Rightarrow> ustr \<Rightarrow> fact option" where
  "facts_get lower now rows a subject attr =
     (let found = fact_current lower now rows a (Some subject) (Some attr)
      in if found = [] then None else Some (last found))"

text \<open>\<open>delete(value=...)\<close> passes \<open>str(value)\<close> on; \<open>pystr\<close> is Python's \<open>str\<close>.\<close>

definition facts_delete ::
  "(ustr \<Rightarrow> ustr) \<Rightarrow> (fact_value \<Rightarrow> ustr) \<Rightarrow> fact list \<Rightarrow> ustr \<Rightarrow> ustr \<Rightarrow> ustr option \<Rightarrow> fact_value option
     \<Rightarrow> fact list \<times> nat" where
  "facts_delete lower pystr rows a subject attr value = fact_delete lower rows a subject attr (map_option pystr value)"

section \<open>Value round trip\<close>

lemma raw_esc_read: "uni_scalar c \<Longrightarrow> json_read_char (raw_esc c @ r) = Some (c, r)"
  using json_read_char_esc[of c r] by (auto simp: raw_esc_def)

lemma raw_esc_hd: "\<exists>h t. raw_esc c = h # t \<and> h \<noteq> 34"
  by (auto simp: raw_esc_def json_esc_def json_u_def)

lemma read_raw_str: "list_all uni_scalar s \<Longrightarrow> read_str (concat (map raw_esc s) @ [34]) = Some s"
proof (induction s)
  case (Cons c s)
  obtain h t where h: "raw_esc c = h # t" "h \<noteq> 34" using raw_esc_hd by blast
  have "json_read_char (h # t @ concat (map raw_esc s) @ [34]) = Some (c, concat (map raw_esc s) @ [34])"
    using raw_esc_read[of c "concat (map raw_esc s) @ [34]"] Cons.prems h by simp
  then show ?case using Cons h by simp
qed simp

lemma json_value_raw: "list_all uni_scalar s \<Longrightarrow> json_value (raw_str s) = Some (FText s)"
  by (simp add: json_value_def raw_str_def read_raw_str)

text \<open>Values as Python has them: other JSON values are written by their canonical text, which does
  not start with a quote.\<close>

fun value_ok :: "fact_value \<Rightarrow> bool" where
  "value_ok (FText s) = True"
| "value_ok (FJson j) = (j = [] \<or> hd j \<noteq> 34)"

lemma raw_str_scalar: "ustr_valid (TYPED @ raw_str s) \<Longrightarrow> list_all uni_scalar s"
proof -
  have "uni_scalar c" if "\<forall>x\<in>set (raw_esc c). uni_scalar x" for c
    using that by (auto simp: raw_esc_def uni_scalar_def split: if_splits)
  then show "ustr_valid (TYPED @ raw_str s) \<Longrightarrow> list_all uni_scalar s"
    by (fastforce simp: ustr_valid_def raw_str_def list_all_iff)
qed

text \<open>Typed values survive storage: whatever value is encoded without an error decodes to the
  same value with the same type, even a text that starts with the internal marker. So a number and
  its rendering as text stay different values.\<close>

theorem fact_value_roundtrip:
  assumes "value_ok v"
  shows "case encode_value v of Inr t \<Rightarrow> decode_value t = v | Inl e \<Rightarrow> e = ValueError"
proof (cases v)
  case (FText s)
  show ?thesis
  proof (cases "take (length TYPED) s = TYPED")
    case True
    then show ?thesis
      using raw_str_scalar[of s] json_value_raw[of s] FText
      by (auto simp: encode_value_def decode_value_def Let_def)
  next
    case False
    then show ?thesis by (simp add: FText encode_value_def decode_value_def)
  qed
next
  case (FJson j)
  then have "json_value j = Some v" using assms by (auto simp: json_value_def)
  then show ?thesis by (simp add: FJson encode_value_def decode_value_def Let_def)
qed

lemma fact_value_roundtrip_witness:
  "(case encode_value (FJson (u ''4444'')) of Inr t \<Rightarrow> decode_value t = FJson (u ''4444'') | Inl e \<Rightarrow> e = ValueError)
   \<and> (case encode_value (FText (u ''4444'')) of Inr t \<Rightarrow> decode_value t = FText (u ''4444'') | Inl e \<Rightarrow> e = ValueError)"
  using fact_value_roundtrip[of "FJson (u ''4444'')"] fact_value_roundtrip[of "FText (u ''4444'')"] by simp

section \<open>Timelines\<close>

lemma insort_key_map: "(\<And>x. f (g x) = f x) \<Longrightarrow> insort_key f (g x) (map g xs) = map g (insort_key f x xs)"
  by (induction xs) auto

lemma sort_key_map: "(\<And>x. f (g x) = f x) \<Longrightarrow> sort_key f (map g xs) = map g (sort_key f xs)"
  by (induction xs) (simp_all add: insort_key_map)

abbreviation fact_order :: "fact \<Rightarrow> datetime \<times> datetime" where
  "fact_order r \<equiv> (fc_from r, fc_recorded r)"

abbreviation chain_row :: "ustr \<Rightarrow> ustr \<Rightarrow> ustr \<Rightarrow> fact \<Rightarrow> bool" where
  "chain_row a s k r \<equiv> on_timeline a s k r \<and> fact_live r \<and> \<not> is_multi r"

lemma set_timeline: "set (timeline rows a s k) = {r \<in> set rows. chain_row a s k r}"
  by (auto simp: timeline_def)

lemma timeline_map:
  assumes "\<And>r. fact_order (g r) = fact_order r" "\<And>r. chain_row a s k (g r) = chain_row a s k r"
  shows "timeline (map g rows) a s k = map g (timeline rows a s k)"
proof -
  have "filter (chain_row a s k) (map g rows) = map g (filter (chain_row a s k) rows)"
    using assms(2) by (simp add: filter_map comp_def)
  then show ?thesis unfolding timeline_def by (simp only: sort_key_map[of fact_order g, OF assms(1)])
qed

text \<open>Every row ends where the next one of its chain begins; the last is open.\<close>

definition chain_ok :: "fact list \<Rightarrow> ustr \<Rightarrow> ustr \<Rightarrow> ustr \<Rightarrow> bool" where
  "chain_ok rows a s k \<longleftrightarrow> map fc_to (timeline rows a s k) = next_froms (timeline rows a s k)"

lemma chain_ok_cong: "timeline rows' a s k = timeline rows a s k \<Longrightarrow> chain_ok rows' a s k = chain_ok rows a s k"
  by (simp add: chain_ok_def)

definition facts_ok :: "fact list \<Rightarrow> bool" where
  "facts_ok rows \<longleftrightarrow> tbl_ok fc_id rows \<and> (\<forall>a s k. chain_ok rows a s k)"

lemma length_next_froms [simp]: "length (next_froms rs) = length rs"
  by (simp add: next_froms_def)

lemma next_froms_map: "(\<And>r. fc_from (g r) = fc_from r) \<Longrightarrow> next_froms (map g rs) = next_froms rs"
  by (auto simp: next_froms_def intro!: map_cong)

definition end_by :: "(ustr \<times> datetime option) list \<Rightarrow> fact \<Rightarrow> fact" where
  "end_by upd r = (case map_of upd (fc_id r) of None \<Rightarrow> r | Some t \<Rightarrow> r\<lparr>fc_to := t\<rparr>)"

lemma set_ends_map: "set_ends upd rows = map (end_by upd) rows"
  by (simp add: set_ends_def end_by_def)

lemma end_by_simps [simp]:
  "fc_id (end_by upd r) = fc_id r" "fc_from (end_by upd r) = fc_from r" "fc_recorded (end_by upd r) = fc_recorded r"
  "fc_agent (end_by upd r) = fc_agent r" "fc_skey (end_by upd r) = fc_skey r" "fc_akey (end_by upd r) = fc_akey r"
  "fc_retracted (end_by upd r) = fc_retracted r" "fc_value (end_by upd r) = fc_value r" "fc_meta (end_by upd r) = fc_meta r"
  "fc_source (end_by upd r) = fc_source r" "fc_subject (end_by upd r) = fc_subject r" "fc_attr (end_by upd r) = fc_attr r"
  "is_multi (end_by upd r) = is_multi r" "on_timeline a s k (end_by upd r) = on_timeline a s k r"
  by (simp_all add: end_by_def is_multi_def on_timeline_def split: option.splits)

lemma rechain_map: "rechain rows a s k = map (end_by (zip (map fc_id (timeline rows a s k)) (next_froms (timeline rows a s k)))) rows"
  by (simp add: rechain_def set_ends_map Let_def)

lemma rechain_ids [simp]: "map fc_id (rechain rows a s k) = map fc_id rows"
  by (simp add: rechain_map)

lemma timeline_rechain:
  "timeline (rechain rows a s k) a' s' k'
     = map (end_by (zip (map fc_id (timeline rows a s k)) (next_froms (timeline rows a s k)))) (timeline rows a' s' k')"
  unfolding rechain_map by (rule timeline_map) simp_all

lemma distinct_timeline: "tbl_ok fc_id rows \<Longrightarrow> distinct (map fc_id (timeline rows a s k))"
  unfolding timeline_def by (simp add: distinct_map inj_on_def)

lemma rechain_chain_ok: "tbl_ok fc_id rows \<Longrightarrow> chain_ok (rechain rows a s k) a s k"
proof -
  assume ok: "tbl_ok fc_id rows"
  let ?tl = "timeline rows a s k"
  have "map (fc_to \<circ> end_by (zip (map fc_id ?tl) (next_froms ?tl))) ?tl = next_froms ?tl"
  proof (rule nth_equalityI)
    fix i assume "i < length (map (fc_to \<circ> end_by (zip (map fc_id ?tl) (next_froms ?tl))) ?tl)"
    then have i: "i < length ?tl" by simp
    then have "map_of (zip (map fc_id ?tl) (next_froms ?tl)) (fc_id (?tl ! i)) = Some (next_froms ?tl ! i)"
      using distinct_timeline[OF ok] by (auto simp: map_of_eq_Some_iff in_set_zip map_fst_zip intro!: exI[of _ i])
    with i show "map (fc_to \<circ> end_by (zip (map fc_id ?tl) (next_froms ?tl))) ?tl ! i = next_froms ?tl ! i"
      by (simp add: end_by_def)
  qed simp
  then show ?thesis unfolding chain_ok_def timeline_rechain by (simp add: next_froms_map)
qed

lemma rechain_other_timeline:
  assumes "(a', s', k') \<noteq> (a, s, k)" "tbl_ok fc_id rows"
  shows "timeline (rechain rows a s k) a' s' k' = timeline rows a' s' k'"
proof -
  let ?upd = "zip (map fc_id (timeline rows a s k)) (next_froms (timeline rows a s k))"
  have "end_by ?upd r = r" if "r \<in> set (timeline rows a' s' k')" for r
  proof -
    have "fc_id r \<notin> fc_id ` set (timeline rows a s k)"
    proof
      assume "fc_id r \<in> fc_id ` set (timeline rows a s k)"
      then obtain q where q: "q \<in> set (timeline rows a s k)" "fc_id q = fc_id r" by auto
      then have "q = r" using that assms(2) by (auto simp: set_timeline distinct_map dest: inj_onD)
      with q(1) that assms(1) show False by (auto simp: set_timeline on_timeline_def)
    qed
    moreover have "map fst ?upd = map fc_id (timeline rows a s k)" by (simp add: map_fst_zip)
    ultimately have "fc_id r \<notin> set (map fst ?upd)" by (metis set_map)
    then have "map_of ?upd (fc_id r) = None" by (metis map_of_eq_None_iff set_map)
    then show ?thesis by (simp only: end_by_def option.case)
  qed
  then show ?thesis unfolding timeline_rechain by (simp add: map_idI)
qed

lemma rechain_keeps_ok:
  assumes "tbl_ok fc_id rows" "\<And>a' s' k'. (a', s', k') \<noteq> (a, s, k) \<Longrightarrow> chain_ok rows a' s' k'"
  shows "facts_ok (rechain rows a s k)"
  unfolding facts_ok_def
proof (intro conjI allI)
  show "tbl_ok fc_id (rechain rows a s k)" using assms(1) by simp
  fix a' s' k'
  show "chain_ok (rechain rows a s k) a' s' k'"
  proof (cases "(a', s', k') = (a, s, k)")
    case True
    then show ?thesis using rechain_chain_ok[OF assms(1)] by simp
  next
    case False
    then show ?thesis
      using assms(2)[OF False] chain_ok_cong[OF rechain_other_timeline[OF False assms(1)]] by simp
  qed
qed

lemma fold_rechain_ok:
  assumes "tbl_ok fc_id rows" "\<And>k. k \<notin> set ks \<Longrightarrow> chain_ok rows a s k"
    and "\<And>a' s' k'. (a', s') \<noteq> (a, s) \<Longrightarrow> chain_ok rows a' s' k'"
  shows "facts_ok (fold (\<lambda>k rs. rechain rs a s k) ks rows)"
  using assms
proof (induction ks arbitrary: rows)
  case Nil
  have "chain_ok rows a' s' k'" for a' s' k'
    using Nil.prems(2)[of k'] Nil.prems(3)[of a' s' k'] by (cases "(a', s') = (a, s)") simp_all
  with Nil.prems(1) show ?case by (simp add: facts_ok_def)
next
  case (Cons k ks)
  have "facts_ok (fold (\<lambda>k rs. rechain rs a s k) ks (rechain rows a s k))"
  proof (rule Cons.IH)
    show "tbl_ok fc_id (rechain rows a s k)" using Cons.prems(1) by simp
    fix k' assume "k' \<notin> set ks"
    then show "chain_ok (rechain rows a s k) a s k'"
      using rechain_chain_ok[OF Cons.prems(1)] Cons.prems(2)[of k']
        chain_ok_cong[OF rechain_other_timeline[OF _ Cons.prems(1)], of a s k' a s k]
      by (cases "k' = k") auto
  next
    fix a' s' k' assume n: "(a', s') \<noteq> (a, s)"
    then show "chain_ok (rechain rows a s k) a' s' k'"
      using Cons.prems(3)[OF n] chain_ok_cong[OF rechain_other_timeline[OF _ Cons.prems(1)], of a' s' k' a s k] by auto
  qed
  then show ?case by simp
qed

text \<open>The same over chains of any subject, for the cascades.\<close>

lemma fold_rechain_keys_ok:
  assumes "tbl_ok fc_id rows" "\<And>s k. (s, k) \<notin> set ks \<Longrightarrow> chain_ok rows a s k"
    and "\<And>a' s' k'. a' \<noteq> a \<Longrightarrow> chain_ok rows a' s' k'"
  shows "facts_ok (fold (\<lambda>(s, k) rs. rechain rs a s k) ks rows)"
  using assms
proof (induction ks arbitrary: rows)
  case Nil
  have "chain_ok rows a' s' k'" for a' s' k'
    using Nil.prems(2)[of s' k'] Nil.prems(3)[of a' s' k'] by (cases "a' = a") simp_all
  with Nil.prems(1) show ?case by (simp add: facts_ok_def)
next
  case (Cons x ks)
  obtain s k where x: "x = (s, k)" by (cases x)
  have "facts_ok (fold (\<lambda>(s, k) rs. rechain rs a s k) ks (rechain rows a s k))"
  proof (rule Cons.IH)
    show "tbl_ok fc_id (rechain rows a s k)" using Cons.prems(1) by simp
    fix s' k' assume "(s', k') \<notin> set ks"
    then show "chain_ok (rechain rows a s k) a s' k'"
      using rechain_chain_ok[OF Cons.prems(1)] Cons.prems(2)[of s' k']
        chain_ok_cong[OF rechain_other_timeline[OF _ Cons.prems(1)], of a s' k' a s k]
      by (cases "(s', k') = (s, k)") (auto simp: x)
  next
    fix a' s' k' assume n: "a' \<noteq> a"
    then show "chain_ok (rechain rows a s k) a' s' k'"
      using Cons.prems(3)[OF n] chain_ok_cong[OF rechain_other_timeline[OF _ Cons.prems(1)], of a' s' k' a s k] by auto
  qed
  then show ?case by (simp add: x)
qed

lemma timeline_filter_cong:
  "filter (chain_row a s k) rows' = filter (chain_row a s k) rows \<Longrightarrow> timeline rows' a s k = timeline rows a s k"
  by (simp add: timeline_def)

lemma filter_update_off:
  assumes "\<And>r. r \<in> set rows \<Longrightarrow> p r \<Longrightarrow> \<not> q r \<and> \<not> q (g r)"
  shows "filter q (tbl_update p g rows) = filter q rows"
  using assms by (induction rows) (auto simp: tbl_update_def)

lemma filter_delete_off:
  "(\<And>r. r \<in> set rows \<Longrightarrow> p r \<Longrightarrow> \<not> q r) \<Longrightarrow> filter q (tbl_delete p rows) = filter q rows"
  by (induction rows) (auto simp: tbl_delete_def)

lemma retract_ids_ids [simp]: "map fc_id (retract_ids now ids rows) = map fc_id rows"
  by (simp add: retract_ids_def tbl_update_def)

lemma end_multi_ids [simp]: "map fc_id (end_multi a s k v rows) = map fc_id rows"
  by (simp add: end_multi_def tbl_update_def)

lemma timeline_retract:
  assumes "\<And>r. r \<in> set rows \<Longrightarrow> fc_id r \<in> set ids \<Longrightarrow> \<not> on_timeline a s k r"
  shows "timeline (retract_ids now ids rows) a s k = timeline rows a s k"
  unfolding retract_ids_def
  by (intro timeline_filter_cong filter_update_off) (use assms in \<open>auto simp: on_timeline_def\<close>)

lemma timeline_end_multi: "timeline (end_multi a s k v rows) a' s' k' = timeline rows a' s' k'"
  unfolding end_multi_def
  by (intro timeline_filter_cong filter_update_off) (auto simp: on_timeline_def is_multi_def)

lemma timeline_append_off: "\<not> chain_row a s k r \<Longrightarrow> timeline (rows @ [r]) a s k = timeline rows a s k"
  by (intro timeline_filter_cong) simp

lemma facts_okD: "facts_ok rows \<Longrightarrow> tbl_ok fc_id rows" "facts_ok rows \<Longrightarrow> chain_ok rows a s k"
  by (simp_all add: facts_ok_def)

lemma same_id: "tbl_ok fc_id rows \<Longrightarrow> r \<in> set rows \<Longrightarrow> q \<in> set rows \<Longrightarrow> fc_id r = fc_id q \<Longrightarrow> r = q"
  by (auto simp: distinct_map dest: inj_onD)

lemma new_fact_simps [simp]:
  "fc_id (new_fact fid a subject s attr k enc v rec src meta) = fid"
  "fc_agent (new_fact fid a subject s attr k enc v rec src meta) = a"
  "fc_skey (new_fact fid a subject s attr k enc v rec src meta) = s"
  "fc_akey (new_fact fid a subject s attr k enc v rec src meta) = k"
  "fc_value (new_fact fid a subject s attr k enc v rec src meta) = enc"
  "fc_from (new_fact fid a subject s attr k enc v rec src meta) = v"
  "fc_to (new_fact fid a subject s attr k enc v rec src meta) = None"
  "fc_recorded (new_fact fid a subject s attr k enc v rec src meta) = rec"
  "fc_retracted (new_fact fid a subject s attr k enc v rec src meta) = None"
  "fc_meta (new_fact fid a subject s attr k enc v rec src meta) = meta"
  "on_timeline a' s' k' (new_fact fid a subject s attr k enc v rec src meta) \<longleftrightarrow> a = a' \<and> s = s' \<and> k = k'"
  by (simp_all add: new_fact_def on_timeline_def)

lemma is_multi_new [simp]:
  "is_multi (new_fact fid a subject s attr k enc v rec src (AList.update MULTI_KEY (MvBool True) meta))"
  "\<not> is_multi (new_fact fid a subject s attr k enc v rec src (filter (\<lambda>(x, y). x \<noteq> MULTI_KEY) meta))"
proof -
  have "map_of (filter (\<lambda>(x, y). x \<noteq> MULTI_KEY) m) MULTI_KEY = None" for m :: metadata
    by (induction m) auto
  then show "is_multi (new_fact fid a subject s attr k enc v rec src (AList.update MULTI_KEY (MvBool True) meta))"
    "\<not> is_multi (new_fact fid a subject s attr k enc v rec src (filter (\<lambda>(x, y). x \<noteq> MULTI_KEY) meta))"
    by (simp_all add: is_multi_def AList.update_conv)
qed

section \<open>Every operation keeps the chains\<close>

lemma fact_set_ok:
  assumes "facts_ok rows" "fid \<notin> fc_id ` set rows"
    and "fact_set lower now fid rows a subject attr value v source meta correction = Inr (rows', f)"
  shows "facts_ok rows'"
proof -
  define s k where sk: "s = fact_key lower subject" "k = fact_key lower attr"
  define same where "same = same_time_rows rows a s k v"
  define rows1 where "rows1 = (if correction then retract_ids now (map fc_id same) rows else rows)"
  have "rows' = rows \<or> (\<exists>new. fc_id new = fid \<and> on_timeline a s k new
      \<and> rows' = rechain (end_multi a s k v (rows1 @ [new])) a s k)"
    using assms(3)
    unfolding fact_set_def sk[symmetric] Let_def same_def[symmetric] rows1_def[symmetric]
    by (auto simp: bind_res_Inr_iff split: if_splits intro!: exI[of _ "new_fact fid a subject s attr k _ v now source _"])
  then consider "rows' = rows"
    | new where "fc_id new = fid" "on_timeline a s k new" "rows' = rechain (end_multi a s k v (rows1 @ [new])) a s k"
    by blast
  then show ?thesis
  proof cases
    case 1
    then show ?thesis using assms(1) by simp
  next
    case 2
    have ids: "map fc_id rows1 = map fc_id rows" by (simp add: rows1_def)
    have off: "timeline rows1 a' s' k' = timeline rows a' s' k'" if "(a', s', k') \<noteq> (a, s, k)" for a' s' k'
    proof (cases correction)
      case True
      have off: "\<not> on_timeline a' s' k' r" if "r \<in> set rows" "fc_id r \<in> set (map fc_id same)" for r
      proof -
        from that(2) obtain q where "q \<in> set same" "fc_id r = fc_id q" by auto
        then have "on_timeline a s k r"
          using same_id[OF facts_okD(1)[OF assms(1)] that(1)] by (auto simp: same_def same_time_rows_def)
        with \<open>(a', s', k') \<noteq> (a, s, k)\<close> show ?thesis by (auto simp: on_timeline_def)
      qed
      have "timeline (retract_ids now (map fc_id same) rows) a' s' k' = timeline rows a' s' k'"
        by (rule timeline_retract) (rule off)
      with True show ?thesis by (simp add: rows1_def)
    qed (simp add: rows1_def)
    show ?thesis unfolding 2(3)
    proof (rule rechain_keeps_ok)
      have "distinct (map fc_id rows @ [fid])" using assms(1,2) by (auto simp: facts_ok_def)
      then show "tbl_ok fc_id (end_multi a s k v (rows1 @ [new]))" using 2(1) ids by simp
      fix a' s' k' assume n: "(a', s', k') \<noteq> (a, s, k)"
      then have "\<not> chain_row a' s' k' new" using 2(2) by (auto simp: on_timeline_def)
      then have "timeline (end_multi a s k v (rows1 @ [new])) a' s' k' = timeline rows a' s' k'"
        by (simp add: timeline_end_multi timeline_append_off off[OF n])
      with chain_ok_cong[OF this] show "chain_ok (end_multi a s k v (rows1 @ [new])) a' s' k'"
        using facts_okD(2)[OF assms(1)] by simp
    qed
  qed
qed

lemma fact_add_ok:
  assumes "facts_ok rows" "fid \<notin> fc_id ` set rows"
    and "fact_add lower now fid rows a subject attr value v source meta = Inr (rows', f)"
  shows "facts_ok rows'"
proof -
  have "rows' = rows \<or> (\<exists>new. fc_id new = fid \<and> is_multi new \<and> rows' = rows @ [new])"
    using assms(3) unfolding fact_add_def Let_def
    by (auto simp: bind_res_Inr_iff split: if_splits option.splits)
  then consider "rows' = rows" | new where "fc_id new = fid" "is_multi new" "rows' = rows @ [new]"
    by blast
  then show ?thesis
  proof cases
    case 1
    then show ?thesis using assms(1) by simp
  next
    case 2
    then have "timeline rows' a s k = timeline rows a s k" for a s k by (simp add: timeline_append_off)
    then have "chain_ok rows' a s k" for a s k using chain_ok_cong facts_okD(2)[OF assms(1)] by blast
    then show ?thesis using assms(1,2) 2 by (auto simp: facts_ok_def)
  qed
qed

lemma fact_remove_ok:
  assumes "facts_ok rows" "fact_remove lower rows a subject attr value t = Inr (rows', n)"
  shows "facts_ok rows'"
proof -
  define hit where "hit enc = filter (\<lambda>r. is_multi r \<and> fc_value r = enc)
    (open_rows rows a (fact_key lower subject) (fact_key lower attr) t)" for enc
  from assms(2) obtain enc where r: "rows' = tbl_update (\<lambda>r. fc_id r \<in> set (map fc_id (hit enc))) (\<lambda>r. r\<lparr>fc_to := Some t\<rparr>) rows"
    unfolding fact_remove_def hit_def by (auto simp: bind_res_Inr_iff Let_def)
  have "timeline rows' a' s' k' = timeline rows a' s' k'" for a' s' k'
    unfolding r
  proof (intro timeline_filter_cong filter_update_off)
    fix r assume "r \<in> set rows" "fc_id r \<in> set (map fc_id (hit enc))"
    then obtain q where "q \<in> set rows" "is_multi q" "fc_id r = fc_id q" by (auto simp: hit_def open_rows_def)
    with same_id[OF facts_okD(1)[OF assms(1)] \<open>r \<in> set rows\<close>] have "is_multi r" by metis
    then show "\<not> chain_row a' s' k' r \<and> \<not> chain_row a' s' k' (r\<lparr>fc_to := Some t\<rparr>)" by (simp add: is_multi_def)
  qed
  then have "chain_ok rows' a' s' k'" for a' s' k' using chain_ok_cong facts_okD(2)[OF assms(1)] by blast
  moreover have "tbl_ok fc_id rows'" unfolding r using facts_okD(1)[OF assms(1)] by simp
  ultimately show ?thesis by (simp add: facts_ok_def)
qed

lemma import_ok:
  assumes "facts_ok rows" "fid \<notin> fc_id ` set rows"
    and "import_fact_row lower now fid rows a x = Inr (rows', b)"
  shows "facts_ok rows'"
proof -
  define s k where sk: "s = fact_key lower (fx_subject x)" "k = fact_key lower (fx_attr x)"
  have "rows' = rows \<or> (\<exists>new. fc_id new = fid \<and> on_timeline a s k new
      \<and> rows' = (if is_multi new then rows @ [new] else rechain (rows @ [new]) a s k))"
    using assms(3) unfolding import_fact_row_def sk[symmetric] Let_def
    by (auto simp: bind_res_Inr_iff split: if_splits intro!: exI[of _ "new_fact fid a (fx_subject x) s (fx_attr x) k _ (fx_from x) _ (fx_source x) (fx_meta x)"])
  then consider "rows' = rows"
    | new where "fc_id new = fid" "on_timeline a s k new" "rows' = (if is_multi new then rows @ [new] else rechain (rows @ [new]) a s k)"
    by blast
  then show ?thesis
  proof cases
    case 1
    then show ?thesis using assms(1) by simp
  next
    case 2
    have ok: "tbl_ok fc_id (rows @ [new])" using assms(1,2) 2(1) by (auto simp: facts_ok_def)
    have other: "chain_ok (rows @ [new]) a' s' k'" if "\<not> chain_row a' s' k' new" for a' s' k'
      using chain_ok_cong[OF timeline_append_off[OF that]] facts_okD(2)[OF assms(1)] by blast
    show ?thesis
    proof (cases "is_multi new")
      case True
      then show ?thesis using 2(3) ok other by (simp add: facts_ok_def)
    next
      case False
      have "facts_ok (rechain (rows @ [new]) a s k)"
        by (rule rechain_keeps_ok[OF ok other]) (use 2(2) in \<open>auto simp: on_timeline_def\<close>)
      with False 2(3) show ?thesis by simp
    qed
  qed
qed

lemma fact_retract_ok:
  assumes "facts_ok rows"
  shows "facts_ok (fst (fact_retract lower now rows a subject attr value))"
proof -
  define s where "s = fact_key lower subject"
  define hit where "hit = filter (\<lambda>r. fc_agent r = a \<and> fc_skey r = s \<and> fact_live r \<and> key_matches lower attr (fc_akey r)
            \<and> (case value of None \<Rightarrow> True | Some v \<Rightarrow> same_value (decode_value (fc_value r)) v)) rows"
  have off: "timeline (retract_ids now (map fc_id hit) rows) a' s' k' = timeline rows a' s' k'"
    if "\<And>q. q \<in> set hit \<Longrightarrow> \<not> on_timeline a' s' k' q" for a' s' k'
  proof (rule timeline_retract)
    fix r assume r: "r \<in> set rows" "fc_id r \<in> set (map fc_id hit)"
    then obtain q where "q \<in> set hit" "fc_id r = fc_id q" "q \<in> set rows" by (auto simp: hit_def)
    with same_id[OF facts_okD(1)[OF assms] r(1)] have "r \<in> set hit" by metis
    then show "\<not> on_timeline a' s' k' r" by (rule that)
  qed
  have "facts_ok (fold (\<lambda>k rs. rechain rs a s k) (remdups (map fc_akey hit)) (retract_ids now (map fc_id hit) rows))"
  proof (rule fold_rechain_ok)
    show "tbl_ok fc_id (retract_ids now (map fc_id hit) rows)" using facts_okD(1)[OF assms] by simp
    fix k assume "k \<notin> set (remdups (map fc_akey hit))"
    then have "timeline (retract_ids now (map fc_id hit) rows) a s k = timeline rows a s k"
      by (intro off) (auto simp: on_timeline_def)
    with chain_ok_cong[OF this] show "chain_ok (retract_ids now (map fc_id hit) rows) a s k"
      using facts_okD(2)[OF assms] by simp
  next
    fix a' s' k' assume "(a', s') \<noteq> (a, s)"
    then have "timeline (retract_ids now (map fc_id hit) rows) a' s' k' = timeline rows a' s' k'"
      by (intro off) (auto simp: on_timeline_def hit_def)
    with chain_ok_cong[OF this] show "chain_ok (retract_ids now (map fc_id hit) rows) a' s' k'"
      using facts_okD(2)[OF assms] by simp
  qed
  then show ?thesis by (simp add: fact_retract_def Let_def s_def hit_def)
qed

lemma fact_delete_ok:
  assumes "facts_ok rows"
  shows "facts_ok (fst (fact_delete lower rows a subject attr value))"
proof -
  define s where "s = fact_key lower subject"
  define hit where "hit = filter (\<lambda>r. fc_agent r = a \<and> fc_skey r = s \<and> key_matches lower attr (fc_akey r)
            \<and> (case value of None \<Rightarrow> True | Some v \<Rightarrow> fc_value r = v)) rows"
  let ?rows1 = "tbl_delete (\<lambda>r. fc_id r \<in> set (map fc_id hit)) rows"
  have off: "timeline ?rows1 a' s' k' = timeline rows a' s' k'"
    if "\<And>q. q \<in> set hit \<Longrightarrow> \<not> on_timeline a' s' k' q" for a' s' k'
  proof (intro timeline_filter_cong filter_delete_off)
    fix r assume r: "r \<in> set rows" "fc_id r \<in> set (map fc_id hit)"
    then obtain q where "q \<in> set hit" "fc_id r = fc_id q" "q \<in> set rows" by (auto simp: hit_def)
    with same_id[OF facts_okD(1)[OF assms] r(1)] have "r \<in> set hit" by metis
    then show "\<not> chain_row a' s' k' r" using that by blast
  qed
  have "facts_ok (fold (\<lambda>k rs. rechain rs a s k) (remdups (map fc_akey hit)) ?rows1)"
  proof (rule fold_rechain_ok)
    show "tbl_ok fc_id ?rows1" using facts_okD(1)[OF assms] by simp
    fix k assume "k \<notin> set (remdups (map fc_akey hit))"
    then have "timeline ?rows1 a s k = timeline rows a s k" by (intro off) (auto simp: on_timeline_def)
    with chain_ok_cong[OF this] show "chain_ok ?rows1 a s k" using facts_okD(2)[OF assms] by simp
  next
    fix a' s' k' assume "(a', s') \<noteq> (a, s)"
    then have "timeline ?rows1 a' s' k' = timeline rows a' s' k'"
      by (intro off) (auto simp: on_timeline_def hit_def)
    with chain_ok_cong[OF this] show "chain_ok ?rows1 a' s' k'" using facts_okD(2)[OF assms] by simp
  qed
  then show ?thesis by (simp add: fact_delete_def Let_def s_def hit_def)
qed

lemma cascade_chunk_ok:
  assumes "facts_ok rows"
  shows "facts_ok (cascade_chunk now secure a ids rows)"
proof -
  let ?hit = "\<lambda>r. fc_agent r = a \<and> fc_source r \<in> Some ` set ids"
  define rows1 where "rows1 = (if secure then tbl_delete ?hit rows
            else tbl_update (\<lambda>r. ?hit r \<and> fact_live r) (\<lambda>r. r\<lparr>fc_retracted := Some now\<rparr>) rows)"
  have off: "timeline rows1 a' s' k' = timeline rows a' s' k'"
    if "\<And>q. q \<in> set rows \<Longrightarrow> ?hit q \<Longrightarrow> \<not> on_timeline a' s' k' q" for a' s' k'
  proof -
    have "filter (chain_row a' s' k') (tbl_update (\<lambda>r. ?hit r \<and> fact_live r) (\<lambda>r. r\<lparr>fc_retracted := Some now\<rparr>) rows)
        = filter (chain_row a' s' k') rows"
      by (rule filter_update_off) (use that in auto)
    moreover have "filter (chain_row a' s' k') (tbl_delete ?hit rows) = filter (chain_row a' s' k') rows"
      by (rule filter_delete_off) (use that in auto)
    ultimately show ?thesis by (intro timeline_filter_cong) (simp add: rows1_def)
  qed
  have "facts_ok (fold (\<lambda>(s, k) rs. rechain rs a s k) (remdups (map (\<lambda>r. (fc_skey r, fc_akey r)) (filter ?hit rows))) rows1)"
  proof (rule fold_rechain_keys_ok)
    show "tbl_ok fc_id rows1" using facts_okD(1)[OF assms] by (auto simp: rows1_def)
    fix s k assume "(s, k) \<notin> set (remdups (map (\<lambda>r. (fc_skey r, fc_akey r)) (filter ?hit rows)))"
    then have "timeline rows1 a s k = timeline rows a s k" by (intro off) (auto simp: on_timeline_def)
    with chain_ok_cong[OF this] show "chain_ok rows1 a s k" using facts_okD(2)[OF assms] by simp
  next
    fix a' s' k' assume "a' \<noteq> a"
    then have "timeline rows1 a' s' k' = timeline rows a' s' k'" by (intro off) (auto simp: on_timeline_def)
    with chain_ok_cong[OF this] show "chain_ok rows1 a' s' k'" using facts_okD(2)[OF assms] by simp
  qed
  then show ?thesis by (simp add: cascade_chunk_def Let_def rows1_def)
qed

lemma cascade_facts_ok: "facts_ok rows \<Longrightarrow> facts_ok (cascade_facts now secure a ids rows)"
proof -
  have "facts_ok rows \<Longrightarrow> facts_ok (fold (cascade_chunk now secure a) cs rows)" for cs
    by (induction cs arbitrary: rows) (simp_all add: cascade_chunk_ok)
  then show "facts_ok rows \<Longrightarrow> facts_ok (cascade_facts now secure a ids rows)" by (simp add: cascade_facts_def)
qed

text \<open>All writes to the facts table.\<close>

inductive facts_step :: "(ustr \<Rightarrow> ustr) \<Rightarrow> fact list \<Rightarrow> fact list \<Rightarrow> bool" for lower where
  fstep_set: "fid \<notin> fc_id ` set rows \<Longrightarrow>
     fact_set lower now fid rows a subject attr value v source meta correction = Inr (rows', f) \<Longrightarrow> facts_step lower rows rows'"
| fstep_add: "fid \<notin> fc_id ` set rows \<Longrightarrow>
     fact_add lower now fid rows a subject attr value v source meta = Inr (rows', f) \<Longrightarrow> facts_step lower rows rows'"
| fstep_remove: "fact_remove lower rows a subject attr value t = Inr (rows', n) \<Longrightarrow> facts_step lower rows rows'"
| fstep_retract: "facts_step lower rows (fst (fact_retract lower now rows a subject attr value'))"
| fstep_import: "fid \<notin> fc_id ` set rows \<Longrightarrow>
     import_fact_row lower now fid rows a x = Inr (rows', b) \<Longrightarrow> facts_step lower rows rows'"
| fstep_cascade: "facts_step lower rows (cascade_facts now secure a ids rows)"
| fstep_delete: "facts_step lower rows (fst (fact_delete lower rows a subject attr text))"

inductive facts_reachable :: "(ustr \<Rightarrow> ustr) \<Rightarrow> fact list \<Rightarrow> bool" for lower where
  facts_empty: "facts_reachable lower []"
| facts_next: "facts_reachable lower rows \<Longrightarrow> facts_step lower rows rows' \<Longrightarrow> facts_reachable lower rows'"

lemma facts_step_ok: "facts_step lower rows rows' \<Longrightarrow> facts_ok rows \<Longrightarrow> facts_ok rows'"
  by (cases rule: facts_step.cases)
    (blast intro: fact_set_ok fact_add_ok fact_remove_ok fact_retract_ok import_ok cascade_facts_ok fact_delete_ok)+

lemma next_froms_simps:
  "next_froms [] = []" "next_froms [x] = [None]" "next_froms (x # y # ys) = Some (fc_from y) # next_froms (y # ys)"
proof -
  have "next_froms (x # y # ys) ! i = (Some (fc_from y) # next_froms (y # ys)) ! i" if "i < length (x # y # ys)" for i
    using that by (cases i) (auto simp: next_froms_def simp del: upt_Suc)
  then show "next_froms (x # y # ys) = Some (fc_from y) # next_froms (y # ys)"
    by (intro nth_equalityI) simp_all
qed (simp_all add: next_froms_def)

lemma sorted_timeline: "sorted (map fc_from (timeline rows a s k))"
proof -
  have "sorted (map fact_order xs) \<Longrightarrow> sorted (map fc_from xs)" for xs
    by (induction xs) (auto simp: less_eq_prod_def)
  then show ?thesis unfolding timeline_def by simp
qed

text \<open>In a chain exactly the last row that started by \<open>t\<close> is valid at \<open>t\<close>.\<close>

lemma chain_valid_filter:
  assumes "sorted (map fc_from rs)" "map fc_to rs = next_froms rs"
  shows "filter (valid_at t) rs = (let xs = filter (\<lambda>r. fc_from r \<le> t) rs in if xs = [] then [] else [last xs])"
  using assms
proof (induction rs rule: induct_list012)
  case (3 x y ys)
  have to: "fc_to x = Some (fc_from y)" "map fc_to (y # ys) = next_froms (y # ys)"
    using "3.prems"(2) by (simp_all add: next_froms_simps)
  have IH: "filter (valid_at t) (y # ys) = (let xs = filter (\<lambda>r. fc_from r \<le> t) (y # ys) in if xs = [] then [] else [last xs])"
    using "3.IH"(2) "3.prems"(1) to(2) by simp
  show ?case
  proof (cases "fc_from y \<le> t")
    case True
    then have "\<not> valid_at t x" by (simp add: valid_at_def to(1) leD)
    with IH True show ?thesis by (simp add: Let_def)
  next
    case False
    then have e: "filter (\<lambda>r. fc_from r \<le> t) (y # ys) = []"
      using "3.prems"(1) by (auto simp: filter_empty_conv)
    then have "filter (valid_at t) (y # ys) = []" using IH by (simp add: Let_def del: filter.simps)
    moreover have "valid_at t x = (fc_from x \<le> t)" using False by (auto simp: valid_at_def to(1) not_le)
    ultimately show ?thesis using e by (auto simp: Let_def)
  qed
qed (auto simp: next_froms_simps valid_at_def Let_def)

section \<open>Properties\<close>

text \<open>C8: after any sequence of fact writes (sets, corrections, additions, removals, retractions,
  imports, cascades and deletes) every single-valued timeline is a chain: each live row is valid
  until the next one starts and only the last is open, so the intervals neither overlap nor leave a
  gap, and row ids are unique.\<close>

theorem fact_chains_hold:
  assumes "facts_reachable lower rows"
  shows "tbl_ok fc_id rows \<and> map fc_to (timeline rows a s k) = next_froms (timeline rows a s k)
    \<and> sorted (map fc_from (timeline rows a s k))"
proof -
  have "facts_ok rows" using assms
  proof (induction rule: facts_reachable.induct)
    case facts_empty
    show ?case by (simp add: facts_ok_def chain_ok_def timeline_def next_froms_def)
  next
    case (facts_next rows rows')
    show ?case by (rule facts_step_ok[OF facts_next.hyps(2) facts_next.IH])
  qed
  then show ?thesis using sorted_timeline by (simp add: facts_ok_def chain_ok_def)
qed

lemma sort_key_snoc_max:
  assumes "\<And>x. x \<in> set xs \<Longrightarrow> f x \<le> f y"
  shows "sort_key f (xs @ [y]) = sort_key f xs @ [y]"
proof (rule properties_for_sort_key)
  show "sorted (map f (sort_key f xs @ [y]))" using assms by (auto simp: sorted_append)
  fix k
  have "filter (\<lambda>x. f x = f k) (sort_key f xs) = filter (\<lambda>x. f x = f k) xs" by (rule sort_key_stable)
  then show "filter (\<lambda>x. f k = f x) (sort_key f xs @ [y]) = filter (\<lambda>x. f k = f x) (xs @ [y])"
    by (simp add: eq_commute[of "f k"])
qed simp

lemma mset_single_list: "mset xs = {#x#} \<Longrightarrow> xs = [x]"
  by (cases xs) (auto simp: single_is_union)

text \<open>The rows of a timeline without multi-valued rows that are valid at a time.\<close>

lemma filter_timeline_mset:
  assumes "\<And>r. r \<in> set rows \<Longrightarrow> q r \<Longrightarrow> \<not> is_multi r"
  shows "mset (filter (\<lambda>r. on_timeline a s k r \<and> fact_live r \<and> q r) rows) = mset (filter q (timeline rows a s k))"
proof -
  have "filter (\<lambda>r. on_timeline a s k r \<and> fact_live r \<and> q r) rows = filter q (filter (chain_row a s k) rows)"
    using assms by (induction rows) auto
  moreover have "mset (filter q (timeline rows a s k)) = mset (filter q (filter (chain_row a s k) rows))"
    unfolding timeline_def by (simp only: mset_filter mset_sort)
  ultimately show ?thesis by simp
qed

text \<open>C9: \<open>fact_as_of\<close> answers from history: for an attribute whose live values were all
  recorded with \<open>set\<close>, the value at a time is the last value of the timeline that started by
  then (the most recently recorded one where several started together), and there is none exactly
  when no value had started.\<close>

theorem as_of_is_last_started:
  assumes "facts_ok rows"
    and "\<forall>r\<in>set rows. on_timeline a (fact_key lower subject) (fact_key lower attr) r \<and> fact_live r \<longrightarrow> \<not> is_multi r"
  shows "fact_as_of lower rows a subject attr t =
    (let started = filter (\<lambda>r. fc_from r \<le> t) (timeline rows a (fact_key lower subject) (fact_key lower attr))
     in if started = [] then None else Some (last started))"
proof -
  define s k where "s = fact_key lower subject" "k = fact_key lower attr"
  note sk = this
  have "filter (\<lambda>r. on_timeline a s k r \<and> fact_live r \<and> valid_at t r) rows
      = filter (\<lambda>r. on_timeline a s k r \<and> fact_live r \<and> (on_timeline a s k r \<and> fact_live r \<and> valid_at t r)) rows"
    by (rule filter_cong) auto
  also have "mset \<dots> = mset (filter (\<lambda>r. on_timeline a s k r \<and> fact_live r \<and> valid_at t r) (timeline rows a s k))"
    by (rule filter_timeline_mset) (use assms(2) in \<open>auto simp: sk\<close>)
  also have "filter (\<lambda>r. on_timeline a s k r \<and> fact_live r \<and> valid_at t r) (timeline rows a s k)
      = filter (valid_at t) (timeline rows a s k)"
    by (rule filter_cong) (auto simp: set_timeline)
  also have "\<dots> = (let xs = filter (\<lambda>r. fc_from r \<le> t) (timeline rows a s k) in if xs = [] then [] else [last xs])"
    using facts_okD(2)[OF assms(1)] by (intro chain_valid_filter sorted_timeline) (simp add: chain_ok_def)
  finally have m: "mset (filter (\<lambda>r. on_timeline a s k r \<and> fact_live r \<and> valid_at t r) rows)
      = mset (let xs = filter (\<lambda>r. fc_from r \<le> t) (timeline rows a s k) in if xs = [] then [] else [last xs])" .
  show ?thesis
  proof (cases "filter (\<lambda>r. fc_from r \<le> t) (timeline rows a s k) = []")
    case True
    then have "filter (\<lambda>r. on_timeline a s k r \<and> fact_live r \<and> valid_at t r) rows = []" using m by simp
    with True show ?thesis unfolding fact_as_of_def sk[symmetric] by simp
  next
    case False
    then have "filter (\<lambda>r. on_timeline a s k r \<and> fact_live r \<and> valid_at t r) rows
        = [last (filter (\<lambda>r. fc_from r \<le> t) (timeline rows a s k))]"
      using m by (intro mset_single_list) (simp add: Let_def)
    with False show ?thesis unfolding fact_as_of_def sk[symmetric] by (simp add: Let_def)
  qed
qed

lemma rechain_tbl_get:
  "tbl_get fc_id (rechain rows a s k) i = map_option (end_by (zip (map fc_id (timeline rows a s k)) (next_froms (timeline rows a s k)))) (tbl_get fc_id rows i)"
proof -
  have "tbl_get fc_id (map (end_by upd) rs) i = map_option (end_by upd) (tbl_get fc_id rs i)" for upd rs
    by (induction rs) (auto simp: tbl_get_def)
  then show ?thesis unfolding rechain_map .
qed

lemma end_multi_row:
  "end_multi a s k v (rows @ [r]) = end_multi a s k v rows @ end_multi a s k v [r]"
  by (simp add: end_multi_def tbl_update_def)

lemma timeline_snoc_latest:
  assumes "chain_row a s k r" "\<And>x. x \<in> set rows \<Longrightarrow> chain_row a s k x \<Longrightarrow> fact_order x \<le> fact_order r"
  shows "timeline (rows @ [r]) a s k = timeline rows a s k @ [r]"
proof -
  have "filter (chain_row a s k) (rows @ [r]) = filter (chain_row a s k) rows @ [r]" using assms(1) by simp
  moreover have "sort_key fact_order (filter (chain_row a s k) rows @ [r])
      = sort_key fact_order (filter (chain_row a s k) rows) @ [r]"
    by (rule sort_key_snoc_max) (use assms(2) in \<open>simp del: less_eq_prod_simp\<close>)
  ultimately show ?thesis unfolding timeline_def by simp
qed

text \<open>A value set later than everything known becomes the one current value: when the live
  values of the attribute (added ones included) all started before \<open>v\<close>, then after
  \<open>set\<close> from \<open>v\<close> the attribute has, at every time from \<open>v\<close> on, exactly one
  current value, the row just recorded, with the encoded value.\<close>

theorem fact_set_becomes_current:
  assumes "facts_ok rows" "fid \<notin> fc_id ` set rows"
    and "\<forall>r\<in>set rows. on_timeline a (fact_key lower subject) (fact_key lower attr) r \<and> fact_live r \<longrightarrow> fc_from r < v"
    and "fact_set lower now fid rows a subject attr value v source meta correction = Inr (rows', f)"
    and "v \<le> t"
  shows "fact_current lower t rows' a (Some subject) (Some attr) = (case f of None \<Rightarrow> [] | Some r \<Rightarrow> [r])
    \<and> map_option fc_value f = (case encode_value value of Inr enc \<Rightarrow> Some enc | Inl e \<Rightarrow> None)
    \<and> facts_get lower t rows' a subject attr = f \<and> f \<noteq> None"
proof -
  define s k where "s = fact_key lower subject" "k = fact_key lower attr"
  note sk = this
  have same: "same_time_rows rows a s k v = []"
    using assms(3) by (auto simp: same_time_rows_def filter_empty_conv sk)
  obtain enc where enc: "encode_value value = Inr enc"
    using assms(4) by (auto simp: fact_set_def bind_res_Inr_iff Let_def split: if_splits)
  define new where "new = new_fact fid a subject s attr k enc v now source (filter (\<lambda>(x, y). x \<noteq> MULTI_KEY) meta)"
  define rows2 where "rows2 = end_multi a s k v (rows @ [new])"
  have "retract_ids now [] rows = rows" by (simp add: retract_ids_def tbl_update_def)
  then have r: "rows' = rechain rows2 a s k" and f: "f = tbl_get fc_id (rechain rows2 a s k) fid"
    using assms(4) unfolding fact_set_def sk[symmetric] Let_def same rows2_def new_def
    by (auto simp: enc split: if_splits)
  have new: "chain_row a s k new" "fc_id new = fid" "fc_from new = v" "fc_value new = enc" by (simp_all add: new_def)
  have ok: "facts_ok rows'" by (rule fact_set_ok[OF assms(1,2,4)])
  have nm: "end_multi a s k v [new] = [new]" by (simp add: end_multi_def tbl_update_def new_def)
  have tl2: "timeline rows2 a s k = timeline rows a s k @ [new]"
    unfolding rows2_def timeline_end_multi
    by (rule timeline_snoc_latest) (use new assms(3) in \<open>auto simp: sk less_eq_prod_def\<close>)
  define g where "g = end_by (zip (map fc_id (timeline rows2 a s k)) (next_froms (timeline rows2 a s k)))"
  have tl': "timeline rows' a s k = map g (timeline rows a s k) @ [g new]"
    unfolding r timeline_rechain g_def[symmetric] by (simp add: tl2)
  have g: "fc_from (g x) = fc_from x" "fc_id (g x) = fc_id x" "fc_value (g x) = fc_value x" for x by (simp_all add: g_def)
  have valid: "filter (valid_at t) (timeline rows' a s k) = [g new]"
  proof -
    have "filter (\<lambda>r. fc_from r \<le> t) (timeline rows' a s k) = filter (\<lambda>r. fc_from r \<le> t) (map g (timeline rows a s k)) @ [g new]"
      using assms(5) new(3) by (simp add: tl' g)
    moreover have "map fc_to (timeline rows' a s k) = next_froms (timeline rows' a s k)"
      using facts_okD(2)[OF ok] by (simp add: chain_ok_def)
    ultimately show ?thesis by (simp add: chain_valid_filter[OF sorted_timeline] Let_def)
  qed
  have "\<not> is_multi q" if "q \<in> set rows'" "on_timeline a s k q \<and> fact_live q \<and> valid_at t q" for q
  proof
    assume m: "is_multi q"
    from that(1) obtain q2 where q2: "q2 \<in> set rows2" "q = g q2" by (auto simp: r rechain_map g_def)
    have id2: "fc_id q2 \<notin> fc_id ` set (timeline rows2 a s k)"
    proof
      assume "fc_id q2 \<in> fc_id ` set (timeline rows2 a s k)"
      then obtain x where x: "x \<in> set (timeline rows2 a s k)" "fc_id x = fc_id q2" by auto
      moreover have "tbl_ok fc_id rows2" using ok by (simp add: facts_ok_def r)
      ultimately have "x = q2" using same_id q2(1) by (auto simp: set_timeline)
      with x(1) m q2(2) show False by (simp add: set_timeline g_def)
    qed
    have gq: "g q2 = q2"
    proof -
      have "fc_id q2 \<notin> set (map fst (zip (map fc_id (timeline rows2 a s k)) (next_froms (timeline rows2 a s k))))"
        using id2 by (simp add: map_fst_zip)
      then have "map_of (zip (map fc_id (timeline rows2 a s k)) (next_froms (timeline rows2 a s k))) (fc_id q2) = None"
        by (metis map_of_eq_None_iff set_map)
      then show ?thesis by (simp only: g_def end_by_def option.case)
    qed
    with q2 have q: "q \<in> set rows2" by simp
    then have "q \<noteq> new" using m new(1) by auto
    with q obtain q0 where q0: "q0 \<in> set rows" "q = (if on_timeline a s k q0 \<and> fact_live q0 \<and> fc_from q0 \<le> v
        \<and> (case fc_to q0 of None \<Rightarrow> True | Some e \<Rightarrow> v < e) \<and> is_multi q0 then q0\<lparr>fc_to := Some v\<rparr> else q0)"
      by (auto simp: rows2_def end_multi_row nm) (auto simp: end_multi_def tbl_update_def)
    have q0p: "on_timeline a s k q0" "fact_live q0" "is_multi q0"
      using that(2) m q0(2) by (auto simp: on_timeline_def is_multi_def split: if_splits)
    then have "fc_from q0 < v" using assms(3) q0(1) by (simp add: sk)
    with q0(2) q0p that(2) assms(5) show False by (auto simp: valid_at_def split: if_splits option.splits)
  qed
  then have "mset (filter (\<lambda>r. on_timeline a s k r \<and> fact_live r \<and> (on_timeline a s k r \<and> fact_live r \<and> valid_at t r)) rows')
      = mset (filter (\<lambda>r. on_timeline a s k r \<and> fact_live r \<and> valid_at t r) (timeline rows' a s k))"
    by (rule filter_timeline_mset)
  moreover have "filter (\<lambda>r. on_timeline a s k r \<and> fact_live r \<and> valid_at t r) (timeline rows' a s k) = [g new]"
    unfolding valid[symmetric] by (rule filter_cong) (auto simp: set_timeline)
  moreover have "filter (\<lambda>r. on_timeline a s k r \<and> fact_live r \<and> (on_timeline a s k r \<and> fact_live r \<and> valid_at t r)) rows'
      = filter (\<lambda>r. fc_agent r = a \<and> fact_live r \<and> valid_at t r \<and> key_matches lower (Some subject) (fc_skey r)
          \<and> key_matches lower (Some attr) (fc_akey r)) rows'"
    by (rule filter_cong) (auto simp: on_timeline_def key_matches_def sk)
  ultimately have cur: "filter (\<lambda>r. fc_agent r = a \<and> fact_live r \<and> valid_at t r \<and> key_matches lower (Some subject) (fc_skey r)
          \<and> key_matches lower (Some attr) (fc_akey r)) rows' = [g new]"
    by (intro mset_single_list) simp
  have "tbl_get fc_id rows2 fid = Some new"
  proof -
    have "tbl_ok fc_id rows2" "new \<in> set rows2"
      using ok nm by (simp_all add: facts_ok_def r rows2_def end_multi_row)
    then show ?thesis using new(2) by (simp add: tbl_get_Some)
  qed
  then have "f = Some (g new)" unfolding f rechain_tbl_get g_def by simp
  moreover from cur have "fact_current lower t rows' a (Some subject) (Some attr) = [g new]"
    by (simp add: fact_current_def)
  ultimately show ?thesis using g(3)[of new] new(4) by (simp add: enc facts_get_def Let_def)
qed

section \<open>Restores\<close>

text \<open>The fact lines of one export, each with the id it would get; a bad line is skipped, as
  \<open>import_jsonl\<close> does.\<close>

definition import_line :: "(ustr \<Rightarrow> ustr) \<Rightarrow> datetime \<Rightarrow> ustr \<Rightarrow> ustr \<times> fact_export \<Rightarrow> fact list \<Rightarrow> fact list" where
  "import_line lower now a = (\<lambda>(fid, x) rows.
     case import_fact_row lower now fid rows a x of Inl e \<Rightarrow> rows | Inr (rows', added) \<Rightarrow> rows')"

definition import_lines :: "(ustr \<Rightarrow> ustr) \<Rightarrow> datetime \<Rightarrow> ustr \<Rightarrow> (ustr \<times> fact_export) list \<Rightarrow> fact list \<Rightarrow> fact list" where
  "import_lines lower now a lines rows = fold (import_line lower now a) lines rows"

definition row_matches :: "(ustr \<Rightarrow> ustr) \<Rightarrow> ustr \<Rightarrow> fact_export \<Rightarrow> ustr \<Rightarrow> fact \<Rightarrow> bool" where
  "row_matches lower a x enc r \<longleftrightarrow>
     on_timeline a (fact_key lower (fx_subject x)) (fact_key lower (fx_attr x)) r
        \<and> fc_from r = fx_from x \<and> fact_live r
        \<and> (case fx_recorded x of None \<Rightarrow> True | Some t \<Rightarrow> fc_recorded r = t) \<and> fc_value r = enc"

definition has_row :: "(ustr \<Rightarrow> ustr) \<Rightarrow> ustr \<Rightarrow> fact_export \<Rightarrow> fact list \<Rightarrow> bool" where
  "has_row lower a x rows \<longleftrightarrow> (case encode_value (fx_value x) of Inl e \<Rightarrow> False
     | Inr enc \<Rightarrow> list_ex (row_matches lower a x enc) rows)"

lemma row_matches_end_by [simp]: "row_matches lower a x enc (end_by upd r) = row_matches lower a x enc r"
  by (cases "fx_recorded x") (simp_all add: row_matches_def)

text \<open>An import line is a no-op when its key is empty, its value cannot be encoded or an identical
  live row is there.\<close>

definition line_done :: "(ustr \<Rightarrow> ustr) \<Rightarrow> ustr \<Rightarrow> fact_export \<Rightarrow> fact list \<Rightarrow> bool" where
  "line_done lower a x rows \<longleftrightarrow> fact_key lower (fx_subject x) = [] \<or> fact_key lower (fx_attr x) = []
     \<or> (\<exists>e. encode_value (fx_value x) = Inl e) \<or> has_row lower a x rows"

lemma has_row_cases: "encode_value (fx_value x) = Inr enc \<Longrightarrow> has_row lower a x rows \<longleftrightarrow>
     list_ex (row_matches lower a x enc) rows"
  by (simp add: has_row_def)

text \<open>What one import line does.\<close>

lemma import_line_eq:
  "import_line lower now a (fid, x) rows =
     (if line_done lower a x rows then rows
      else let new = new_fact fid a (fx_subject x) (fact_key lower (fx_subject x)) (fx_attr x) (fact_key lower (fx_attr x))
             (case encode_value (fx_value x) of Inr enc \<Rightarrow> enc | Inl e \<Rightarrow> []) (fx_from x)
             (case fx_recorded x of None \<Rightarrow> now | Some t \<Rightarrow> t) (fx_source x) (fx_meta x)
           in if is_multi new then rows @ [new]
              else rechain (rows @ [new]) a (fact_key lower (fx_subject x)) (fact_key lower (fx_attr x)))"
proof (cases "encode_value (fx_value x)")
  case (Inl e)
  then show ?thesis by (simp add: import_line_def import_fact_row_def line_done_def Let_def)
next
  case (Inr enc)
  then show ?thesis
    unfolding import_line_def import_fact_row_def line_done_def has_row_cases[OF Inr] row_matches_def[abs_def]
    by (simp add: Let_def)
qed

lemma import_line_noop: "line_done lower a x rows \<Longrightarrow> import_line lower now a (fid, x) rows = rows"
  by (simp add: import_line_eq)

lemma has_row_map:
  "has_row lower a x (map (end_by upd) rows) = has_row lower a x rows"
  by (cases "encode_value (fx_value x)") (simp_all add: has_row_def list_ex_iff)

lemma has_row_append: "has_row lower a x rows \<Longrightarrow> has_row lower a x (rows @ rs)"
  by (cases "encode_value (fx_value x)") (auto simp: has_row_def)

lemma import_line_cases:
  "import_line lower now a (fid, x) rows = rows
   \<or> (\<exists>new upd. import_line lower now a (fid, x) rows = map (end_by upd) (rows @ [new]))"
proof -
  have 1: "rs = map (end_by []) rs" for rs by (simp add: end_by_def map_idI)
  show ?thesis
    unfolding import_line_eq rechain_map Let_def by (metis 1)
qed

lemma import_line_keeps_done: "line_done lower a x rows \<Longrightarrow> line_done lower a x (import_line lower now a l rows)"
proof -
  assume d: "line_done lower a x rows"
  obtain fid y where l: "l = (fid, y)" by (cases l)
  from import_line_cases[of lower now a fid y rows] d show ?thesis
    unfolding l line_done_def by (auto simp: has_row_map has_row_append simp del: map_append)
qed

lemma import_line_done: "line_done lower a x (import_line lower now a (fid, x) rows)"
proof (cases "line_done lower a x rows")
  case True
  then show ?thesis by (simp add: import_line_noop)
next
  case False
  then obtain enc where enc: "encode_value (fx_value x) = Inr enc"
    by (cases "encode_value (fx_value x)") (auto simp: line_done_def)
  let ?s = "fact_key lower (fx_subject x)" and ?k = "fact_key lower (fx_attr x)"
  define new where "new = new_fact fid a (fx_subject x) ?s (fx_attr x) ?k enc (fx_from x)
                    (case fx_recorded x of None \<Rightarrow> now | Some t \<Rightarrow> t) (fx_source x) (fx_meta x)"
  have "has_row lower a x (rows @ [new])"
    by (simp add: has_row_cases[OF enc] row_matches_def new_def split: option.splits)
  then have "has_row lower a x (if is_multi new then rows @ [new] else rechain (rows @ [new]) a ?s ?k)"
    by (simp add: rechain_map has_row_map del: map_append)
  moreover have "import_line lower now a (fid, x) rows = (if is_multi new then rows @ [new] else rechain (rows @ [new]) a ?s ?k)"
    using False by (simp add: import_line_eq enc new_def)
  ultimately show ?thesis by (simp add: line_done_def)
qed

lemma import_lines_keep_done: "line_done lower a x rows \<Longrightarrow> line_done lower a x (import_lines lower now a ls rows)"
  unfolding import_lines_def by (induction ls arbitrary: rows) (simp_all add: import_line_keeps_done)

lemma import_lines_done: "(fid, x) \<in> set ls \<Longrightarrow> line_done lower a x (import_lines lower now a ls rows)"
proof (induction ls arbitrary: rows)
  case (Cons l ls)
  have "import_lines lower now a (l # ls) rows = import_lines lower now a ls (import_line lower now a l rows)"
    by (simp add: import_lines_def)
  with Cons import_lines_keep_done[OF import_line_done] show ?case by (cases "l = (fid, x)") auto
qed simp

lemma import_lines_noop:
  "(\<And>fid x. (fid, x) \<in> set ls \<Longrightarrow> line_done lower a x rows) \<Longrightarrow> import_lines lower now a ls rows = rows"
  unfolding import_lines_def
proof (induction ls)
  case (Cons l ls)
  obtain fid x where l: "l = (fid, x)" by (cases l)
  have "import_line lower now a l rows = rows" unfolding l by (rule import_line_noop) (use Cons.prems l in auto)
  moreover have "fold (import_line lower now a) ls rows = rows" by (rule Cons.IH) (use Cons.prems in auto)
  ultimately show ?case by simp
qed simp

text \<open>C10: restoring is idempotent: importing the fact lines of an export a second time, at any
  later time and whatever ids would be drawn, changes nothing, including sequences of several values
  with the same start.\<close>

theorem import_is_idempotent:
  "import_lines lower now2 a (zip fids (map snd lines)) (import_lines lower now1 a lines rows)
   = import_lines lower now1 a lines rows"
proof (rule import_lines_noop)
  fix fid x assume "(fid, x) \<in> set (zip fids (map snd lines))"
  then have "x \<in> set (map snd lines)" by (rule set_zip_rightD)
  then obtain fid1 where "(fid1, x) \<in> set lines" by auto
  then show "line_done lower a x (import_lines lower now1 a lines rows)" by (rule import_lines_done)
qed

section \<open>Forgetting\<close>

lemma concat_py_chunks: "n > 0 \<Longrightarrow> concat (py_chunks n xs) = xs"
  by (induction n xs rule: py_chunks.induct) auto

text \<open>A fact some memory in \<open>ids\<close> is the source of.\<close>

definition sourced :: "ustr \<Rightarrow> ustr list \<Rightarrow> fact \<Rightarrow> bool" where
  "sourced a ids r \<longleftrightarrow> fc_agent r = a \<and> fc_source r \<in> Some ` set ids"

text \<open>Everything of a row but its end and its retraction mark.\<close>

definition fact_core where
  "fact_core r = (fc_id r, fc_agent r, fc_subject r, fc_skey r, fc_attr r, fc_akey r, fc_value r, fc_from r,
     fc_recorded r, fc_source r, fc_meta r)"

lemma fact_core_end_by [simp]: "fact_core (end_by upd r) = fact_core r"
  by (simp add: fact_core_def)

lemma core_rechain_fold:
  "map (\<lambda>r. (fact_core r, fc_retracted r)) (fold (\<lambda>(s, k) rs. rechain rs a s k) ks rows)
   = map (\<lambda>r. (fact_core r, fc_retracted r)) rows"
proof (induction ks arbitrary: rows)
  case (Cons x ks)
  then show ?case by (cases x) (simp add: rechain_map)
qed simp

lemma sourced_core: "fact_core r = fact_core q \<Longrightarrow> sourced a ids r = sourced a ids q"
  by (simp add: sourced_def fact_core_def)

lemma cascade_chunk_rows:
  "map (\<lambda>r. (fact_core r, fc_retracted r)) (cascade_chunk now secure a ids rows)
   = (if secure then map (\<lambda>r. (fact_core r, fc_retracted r)) (filter (\<lambda>r. \<not> sourced a ids r) rows)
      else map (\<lambda>r. (fact_core r, if sourced a ids r \<and> fact_live r then Some now else fc_retracted r)) rows)"
  unfolding cascade_chunk_def Let_def core_rechain_fold
  by (auto simp: tbl_delete_def tbl_update_def sourced_def fact_core_def intro!: map_cong arg_cong[of _ _ "map _"] filter_cong)

lemma cascade_live_cores:
  "map fact_core (filter fact_live (cascade_chunk now secure a ids rows))
   = map fact_core (filter (\<lambda>r. fact_live r \<and> \<not> sourced a ids r) rows)"
proof -
  have "map fact_core (filter fact_live rs) = map fst (filter (\<lambda>(c, t). t = None) (map (\<lambda>r. (fact_core r, fc_retracted r)) rs))" for rs
    by (induction rs) auto
  then have "map fact_core (filter fact_live (cascade_chunk now secure a ids rows))
      = map fst (filter (\<lambda>(c, t). t = None) (if secure then map (\<lambda>r. (fact_core r, fc_retracted r)) (filter (\<lambda>r. \<not> sourced a ids r) rows)
      else map (\<lambda>r. (fact_core r, if sourced a ids r \<and> fact_live r then Some now else fc_retracted r)) rows))"
    by (simp only: cascade_chunk_rows)
  also have "\<dots> = map fact_core (filter (\<lambda>r. fact_live r \<and> \<not> sourced a ids r) rows)"
    by (induction rows) auto
  finally show ?thesis .
qed

lemma sourced_append: "sourced a (xs @ ys) r \<longleftrightarrow> sourced a xs r \<or> sourced a ys r"
  by (auto simp: sourced_def)

lemma map_core_filter_sourced:
  "map fact_core rs = map fact_core qs \<Longrightarrow>
   map fact_core (filter (\<lambda>r. \<not> sourced a ids r) rs) = map fact_core (filter (\<lambda>r. \<not> sourced a ids r) qs)"
proof (induction rs arbitrary: qs)
  case (Cons r rs)
  then obtain q qs' where q: "qs = q # qs'" "fact_core r = fact_core q" "map fact_core rs = map fact_core qs'"
    by (cases qs) auto
  with Cons.IH[OF q(3)] sourced_core[OF q(2)] show ?case by simp
qed simp

lemma cascade_chunk_cores:
  "map fact_core (cascade_chunk now secure a ids rows)
   = map fact_core (if secure then filter (\<lambda>r. \<not> sourced a ids r) rows else rows)"
proof -
  have "map fact_core rs = map fst (map (\<lambda>r. (fact_core r, fc_retracted r)) rs)" for rs :: "fact list"
    by (simp add: comp_def)
  then have "map fact_core (cascade_chunk now secure a ids rows) = map fst
     (if secure then map (\<lambda>r. (fact_core r, fc_retracted r)) (filter (\<lambda>r. \<not> sourced a ids r) rows)
      else map (\<lambda>r. (fact_core r, if sourced a ids r \<and> fact_live r then Some now else fc_retracted r)) rows)"
    by (simp only: cascade_chunk_rows)
  then show ?thesis by (simp add: comp_def)
qed

lemma cascade_fold:
  "map fact_core (filter fact_live (fold (cascade_chunk now secure a) cs rows))
     = map fact_core (filter (\<lambda>r. fact_live r \<and> \<not> sourced a (concat cs) r) rows)
   \<and> map fact_core (fold (cascade_chunk now secure a) cs rows)
     = map fact_core (if secure then filter (\<lambda>r. \<not> sourced a (concat cs) r) rows else rows)"
proof (induction cs arbitrary: rows)
  case Nil
  show ?case by (simp add: sourced_def)
next
  case (Cons c cs)
  let ?rows1 = "cascade_chunk now secure a c rows"
  have "map fact_core (filter (\<lambda>r. \<not> sourced a (concat cs) r) (filter fact_live ?rows1))
      = map fact_core (filter (\<lambda>r. \<not> sourced a (concat cs) r) (filter (\<lambda>r. fact_live r \<and> \<not> sourced a c r) rows))"
    by (rule map_core_filter_sourced) (rule cascade_live_cores)
  moreover have "map fact_core (filter (\<lambda>r. \<not> sourced a (concat cs) r) ?rows1)
      = map fact_core (filter (\<lambda>r. \<not> sourced a (concat cs) r) (if secure then filter (\<lambda>r. \<not> sourced a c r) rows else rows))"
    by (rule map_core_filter_sourced) (rule cascade_chunk_cores)
  ultimately show ?case
    using Cons.IH[of ?rows1] cascade_chunk_cores[of now secure a c rows]
    by (cases secure) (simp_all add: sourced_append conj_ac)
qed


section \<open>Witnesses\<close>

definition wit_fact :: fact where
  "wit_fact = new_fact (u ''x1'') (u ''a'') (u ''svc'') (u ''svc'') (u ''port'') (u ''port'') (u ''80'')
     (DT 2026 1 1 0 0 0 0) (DT 2026 1 1 0 0 0 0) (Some (u ''f1'')) []"

lemma wit_fact_key: "fact_key (\<lambda>t. t) (u ''svc'') = u ''svc''" "fact_key (\<lambda>t. t) (u ''port'') = u ''port''"
  by (simp_all add: fact_key_def rstrip_chars_def strip_chars_def is_sep_def py_isspace_def)

lemma wit_fact_ok: "facts_ok [wit_fact]"
proof -
  have "timeline [wit_fact] a s k = [wit_fact] \<or> timeline [wit_fact] a s k = []" for a s k
    by (simp add: timeline_def)
  moreover have "map fc_to [wit_fact] = next_froms [wit_fact]" by (simp add: next_froms_simps wit_fact_def)
  ultimately have "chain_ok [wit_fact] a s k" for a s k
    unfolding chain_ok_def by (metis list.map(1) next_froms_simps(1))
  then show ?thesis by (simp add: facts_ok_def)
qed

lemma wit_fact_simps [simp]:
  "fc_id wit_fact = u ''x1''" "fc_from wit_fact = DT 2026 1 1 0 0 0 0" "fc_source wit_fact = Some (u ''f1'')"
  "fc_agent wit_fact = u ''a''" "fact_live wit_fact" "\<not> is_multi wit_fact"
  by (simp_all add: wit_fact_def is_multi_def new_fact_def)


lemma as_of_is_last_started_witness:
  "fact_as_of (\<lambda>t. t) [wit_fact] (u ''a'') (u ''svc'') (u ''port'') (DT 2026 3 1 0 0 0 0) = Some wit_fact
   \<and> fact_as_of (\<lambda>t. t) [wit_fact] (u ''a'') (u ''svc'') (u ''port'') (DT 2025 3 1 0 0 0 0) = None"
proof -
  have "timeline [wit_fact] (u ''a'') (u ''svc'') (u ''port'') = [wit_fact]"
    by (simp add: timeline_def is_multi_def new_fact_def wit_fact_def on_timeline_def)
  then show ?thesis
    using as_of_is_last_started[OF wit_fact_ok, of "u ''a''" "\<lambda>t. t" "u ''svc''" "u ''port''" "DT 2026 3 1 0 0 0 0"]
      as_of_is_last_started[OF wit_fact_ok, of "u ''a''" "\<lambda>t. t" "u ''svc''" "u ''port''" "DT 2025 3 1 0 0 0 0"]
    by (simp add: wit_fact_key less_eq_datetime_def Let_def del: u_simps)
qed

lemma fact_set_becomes_current_witness:
  "\<exists>rows r. fact_set (\<lambda>t. t) (DT 2026 2 1 0 0 0 0) (u ''x2'') [wit_fact] (u ''a'') (u ''svc'') (u ''port'')
       (FText (u ''81'')) (DT 2026 2 1 0 0 0 0) None [] False = Inr (rows, Some r)
     \<and> fact_current (\<lambda>t. t) (DT 2026 3 1 0 0 0 0) rows (u ''a'') (Some (u ''svc'')) (Some (u ''port'')) = [r]
     \<and> fc_value r = u ''81''"
proof -
  have enc: "encode_value (FText (u ''81'')) = Inr (u ''81'')"
    by (simp add: encode_value_def TYPED_def ustr_valid_def uni_scalar_def)
  have "\<exists>rows f. fact_set (\<lambda>t. t) (DT 2026 2 1 0 0 0 0) (u ''x2'') [wit_fact] (u ''a'') (u ''svc'') (u ''port'')
       (FText (u ''81'')) (DT 2026 2 1 0 0 0 0) None [] False = Inr (rows, f)"
    unfolding fact_set_def wit_fact_key enc Let_def by simp
  then obtain rows f where s: "fact_set (\<lambda>t. t) (DT 2026 2 1 0 0 0 0) (u ''x2'') [wit_fact] (u ''a'') (u ''svc'') (u ''port'')
       (FText (u ''81'')) (DT 2026 2 1 0 0 0 0) None [] False = Inr (rows, f)" by blast
  have "fact_current (\<lambda>t. t) (DT 2026 3 1 0 0 0 0) rows (u ''a'') (Some (u ''svc'')) (Some (u ''port'')) = (case f of None \<Rightarrow> [] | Some r \<Rightarrow> [r])
    \<and> map_option fc_value f = (case encode_value (FText (u ''81'')) of Inr enc \<Rightarrow> Some enc | Inl e \<Rightarrow> None)
    \<and> facts_get (\<lambda>t. t) (DT 2026 3 1 0 0 0 0) rows (u ''a'') (u ''svc'') (u ''port'') = f \<and> f \<noteq> None"
    by (rule fact_set_becomes_current[OF wit_fact_ok _ _ s]) (simp_all add: less_datetime_def less_eq_datetime_def)
  with s enc show ?thesis by auto
qed

lemma fact_chains_hold_witness:
  "\<exists>rows r. fact_set (\<lambda>t. t) (DT 2026 2 1 0 0 0 0) (u ''x2'') [] (u ''a'') (u ''svc'') (u ''port'')
       (FText (u ''81'')) (DT 2026 2 1 0 0 0 0) None [] False = Inr (rows, r)
     \<and> map fc_to (timeline rows (u ''a'') (u ''svc'') (u ''port'')) = next_froms (timeline rows (u ''a'') (u ''svc'') (u ''port''))"
proof -
  have enc: "encode_value (FText (u ''81'')) = Inr (u ''81'')"
    by (simp add: encode_value_def TYPED_def ustr_valid_def uni_scalar_def)
  have "\<exists>rows f. fact_set (\<lambda>t. t) (DT 2026 2 1 0 0 0 0) (u ''x2'') [] (u ''a'') (u ''svc'') (u ''port'')
       (FText (u ''81'')) (DT 2026 2 1 0 0 0 0) None [] False = Inr (rows, f)"
    unfolding fact_set_def wit_fact_key enc Let_def by simp
  then obtain rows f where s: "fact_set (\<lambda>t. t) (DT 2026 2 1 0 0 0 0) (u ''x2'') [] (u ''a'') (u ''svc'') (u ''port'')
       (FText (u ''81'')) (DT 2026 2 1 0 0 0 0) None [] False = Inr (rows, f)" by blast
  have "facts_reachable (\<lambda>t. t) rows" by (rule facts_next[OF facts_empty fstep_set[OF _ s]]) simp
  from fact_chains_hold[OF this] s show ?thesis by blast
qed

section \<open>Where the code falls short\<close>

text \<open>An exported row carries no end, and a multi-valued row is not re-chained on import: a value
  that was removed comes back as a current value after a restore.\<close>

lemma import_reopens_removed_value:
  assumes "encode_value (decode_value (fc_value r)) = Inr (fc_value r)" "is_multi r"
    and "fact_key lower (fc_subject r) \<noteq> []" "fact_key lower (fc_attr r) \<noteq> []" "fc_from r \<le> t"
  shows "\<exists>new. import_fact_row lower now fid [] a (export_row r) = Inr ([new], True)
     \<and> fc_value new = fc_value r \<and> valid_at t new"
proof -
  define new where "new = new_fact fid a (fc_subject r) (fact_key lower (fc_subject r)) (fc_attr r) (fact_key lower (fc_attr r))
      (fc_value r) (fc_from r) (fc_recorded r) (fc_source r) (fc_meta r)"
  have "is_multi new" using assms(2) by (simp add: new_def is_multi_def)
  then have "import_fact_row lower now fid [] a (export_row r) = Inr ([new], True)"
    using assms(1,3,4) by (simp add: import_fact_row_def export_row_def Let_def new_def)
  then show ?thesis using assms(5) by (intro exI[of _ new]) (simp add: new_def valid_at_def)
qed

text \<open>\<open>delete(value=...)\<close> compares the typed encoding of the stored value with
  \<open>str(value)\<close>: a stored number, boolean, list or dictionary is never found by its value.\<close>

lemma delete_by_typed_value_deletes_nothing:
  assumes "\<forall>r\<in>set rows. take (length TYPED) (fc_value r) = TYPED" "take (length TYPED) (pystr (FJson j)) \<noteq> TYPED"
  shows "facts_delete lower pystr rows a subject attr (Some (FJson j)) = (rows, 0)"
proof -
  have n: "filter (\<lambda>r. fc_agent r = a \<and> fc_skey r = s \<and> key_matches lower attr (fc_akey r) \<and> fc_value r = pystr (FJson j)) rows = []" for s
    using assms by (auto simp: filter_empty_conv)
  show ?thesis by (simp add: facts_delete_def fact_delete_def n Let_def tbl_delete_def)
qed

text \<open>Normalised keys are not fixed points of the normalisation, so a key that
  \<open>fact_subjects\<close> returns need not find its own facts.\<close>

lemma fact_key_not_idempotent:
  "fact_key (\<lambda>t. t) (u ''x (y).'') = u ''x (y)'' \<and> fact_key (\<lambda>t. t) (u ''x (y)'') = u ''x (y''"
  by (simp add: fact_key_def rstrip_chars_def strip_chars_def is_sep_def py_isspace_def)

end
