(* ===== verification/Store.thy ===== *)
theory Store
  imports Fragments
begin

text \<open>
  The SQLite store of \<^verbatim>\<open>store/_sqlite/\<close>: fragment writes (\<^verbatim>\<open>fragments.py\<close>) and reads
  (\<^verbatim>\<open>fragment_reads.py\<close>, \<^verbatim>\<open>rows.py\<close>), content digests (\<^verbatim>\<open>security/hasher.py\<close>), blocks and
  their members (\<^verbatim>\<open>blocks.py\<close>) and the graph tables (\<^verbatim>\<open>graph.py\<close>). A table is the list of its
  rows in rowid order; a transaction that raises returns the error and no new state. The
  encryption provider and SHA-256 are arguments: a provider encrypts, decrypts and digests text.
  Rows hold the stored (encrypted) content.
\<close>

section \<open>Encryption providers and content digests\<close>

record provider =
  pv_encrypt :: "ustr \<Rightarrow> ustr"
  pv_decrypt :: "ustr \<Rightarrow> ustr option"
  pv_digest :: "ustr \<Rightarrow> ustr"
  pv_sha :: "ustr \<Rightarrow> ustr"

text \<open>The default provider stores plaintext and digests with the given SHA-256.\<close>

definition noop_provider :: "(ustr \<Rightarrow> ustr) \<Rightarrow> provider" where
  "noop_provider sha = \<lparr>pv_encrypt = (\<lambda>t. t), pv_decrypt = Some, pv_digest = sha, pv_sha = sha\<rparr>"

definition HMAC_PREFIX :: ustr where "HMAC_PREFIX = u ''hmac-sha256:''"

definition hash_attach :: "provider \<Rightarrow> fragment \<Rightarrow> fragment" where
  "hash_attach P f = f\<lparr>fr_meta := AList.update ''content_hash'' (MvText (pv_digest P (fr_content f))) (fr_meta f)\<rparr>"

definition hash_verify :: "provider \<Rightarrow> ustr \<Rightarrow> ustr \<Rightarrow> bool" where
  "hash_verify P content expected \<longleftrightarrow>
     (if take (length HMAC_PREFIX) expected = HMAC_PREFIX then pv_digest P content else pv_sha P content)
       = expected"

definition hash_check :: "provider \<Rightarrow> fragment \<Rightarrow> bool" where
  "hash_check P f = (case map_of (fr_meta f) ''content_hash'' of
     Some (MvText e) \<Rightarrow> hash_verify P (fr_content f) e | _ \<Rightarrow> True)"

section \<open>Tables\<close>

record store_db =
  db_fragments :: "fragment list"
  db_blocks :: "block list"
  db_nodes :: "node list"
  db_edges :: "edge list"
  db_block_nodes :: "(ustr \<times> ustr \<times> datetime) list"
  db_links :: "block_link list"

definition empty_db :: store_db where
  "empty_db = \<lparr>db_fragments = [], db_blocks = [], db_nodes = [], db_edges = [], db_block_nodes = [],
     db_links = []\<rparr>"

definition retrievable_states :: "memory_state list" where
  "retrievable_states = [UNVERIFIED, VERIFIED, PROMOTED]"

definition is_retrievable :: "memory_state \<Rightarrow> bool" where
  "is_retrievable s \<longleftrightarrow> s \<in> set retrievable_states"

section \<open>Fragment writes\<close>

text \<open>\<open>_store_row\<close>: refuse another agent's id; the flag says whether an existing row left the
  retrievable states.\<close>

definition store_row :: "provider \<Rightarrow> store_db \<Rightarrow> fragment \<Rightarrow> py_error + (store_db \<times> bool)" where
  "store_row P db f =
     (let f1 = hash_attach P f; row = f1\<lparr>fr_content := pv_encrypt P (fr_content f1)\<rparr>;
          existing = tbl_get fr_id (db_fragments db) (fr_id f)
      in case existing of
           Some e \<Rightarrow> if fr_agent e \<noteq> fr_agent f then Inl ValueError
             else Inr (db\<lparr>db_fragments := tbl_upsert fr_id row (db_fragments db)\<rparr>,
               is_retrievable (fr_state e) \<and> \<not> is_retrievable (fr_state f))
         | None \<Rightarrow> Inr (db\<lparr>db_fragments := tbl_upsert fr_id row (db_fragments db)\<rparr>, False))"

text \<open>\<open>store_many\<close>: one transaction; returns the ids and the ids that became unretrievable
  (emitted to listeners after the commit).\<close>

fun store_many :: "provider \<Rightarrow> store_db \<Rightarrow> fragment list \<Rightarrow> py_error + (store_db \<times> ustr list \<times> ustr list)" where
  "store_many P db [] = Inr (db, [], [])"
| "store_many P db (f # fs) =
     bind_res (store_row P db f) (\<lambda>(db1, gone).
       bind_res (store_many P db1 fs) (\<lambda>(db2, ids, unret).
         Inr (db2, fr_id f # ids, (if gone then [fr_id f] else []) @ unret)))"

definition store_fragment :: "provider \<Rightarrow> store_db \<Rightarrow> fragment \<Rightarrow> py_error + store_db" where
  "store_fragment P db f = bind_res (store_many P db [f]) (\<lambda>(db', ids, unret). Inr db')"

definition update_state :: "datetime \<Rightarrow> store_db \<Rightarrow> ustr \<Rightarrow> memory_state \<Rightarrow> store_db" where
  "update_state now db fid s = db\<lparr>db_fragments :=
     tbl_update (\<lambda>r. fr_id r = fid) (\<lambda>r. r\<lparr>fr_state := s, fr_updated := now\<rparr>) (db_fragments db)\<rparr>"

definition update_embedding :: "store_db \<Rightarrow> ustr \<Rightarrow> real list \<Rightarrow> store_db" where
  "update_embedding db fid e = db\<lparr>db_fragments :=
     tbl_update (\<lambda>r. fr_id r = fid) (\<lambda>r. r\<lparr>fr_embedding := Some e\<rparr>) (db_fragments db)\<rparr>"

definition delete_fragment :: "store_db \<Rightarrow> ustr \<Rightarrow> store_db \<times> bool" where
  "delete_fragment db fid =
     (case tbl_get fr_id (db_fragments db) fid of
        None \<Rightarrow> (db, False)
      | Some r \<Rightarrow> (db\<lparr>db_fragments := tbl_delete (\<lambda>r. fr_id r = fid) (db_fragments db)\<rparr>, True))"

definition clear_fragments :: "store_db \<Rightarrow> ustr option \<Rightarrow> store_db" where
  "clear_fragments db agent = db\<lparr>db_fragments :=
     (case agent of None \<Rightarrow> [] | Some a \<Rightarrow> tbl_delete (\<lambda>r. fr_agent r = a) (db_fragments db))\<rparr>"

definition persist_tampered :: "datetime \<Rightarrow> store_db \<Rightarrow> ustr list \<Rightarrow> store_db" where
  "persist_tampered now db fids = db\<lparr>db_fragments :=
     tbl_update (\<lambda>r. fr_id r \<in> set fids \<and> fr_state r \<noteq> CONTRADICTED)
       (\<lambda>r. r\<lparr>fr_state := CONTRADICTED, fr_updated := now\<rparr>) (db_fragments db)\<rparr>"

definition update_importance_many :: "datetime \<Rightarrow> store_db \<Rightarrow> (ustr \<times> real) list \<Rightarrow> store_db" where
  "update_importance_many now db upds = fold (\<lambda>(fid, imp) d. d\<lparr>db_fragments :=
     tbl_update (\<lambda>r. fr_id r = fid) (\<lambda>r. r\<lparr>fr_importance := max 0 (min 1 imp), fr_updated := now\<rparr>)
       (db_fragments d)\<rparr>) upds db"

text \<open>\<open>touch_many\<close>: duplicates count as repeated accesses.\<close>

definition access_count :: "metadata \<Rightarrow> int" where
  "access_count m = (case map_of m ''access_count'' of Some (MvInt n) \<Rightarrow> n | _ \<Rightarrow> 0)"

definition touch_many :: "datetime \<Rightarrow> store_db \<Rightarrow> ustr list \<Rightarrow> store_db" where
  "touch_many now db fids = db\<lparr>db_fragments := tbl_update (\<lambda>r. fr_id r \<in> set fids)
     (\<lambda>r. r\<lparr>fr_accessed := Some now, fr_updated := now,
        fr_meta := AList.update ''access_count''
          (MvInt (access_count (fr_meta r) + int (count_list fids (fr_id r)))) (fr_meta r)\<rparr>)
     (db_fragments db)\<rparr>"

section \<open>Fragment reads\<close>

definition UNREADABLE :: ustr where
  "UNREADABLE = u ''[unreadable memory: stored content could not be decrypted]''"

text \<open>\<open>_decode_fragment\<close>: decrypt, strip (the model's own validation), check the digest. A
  mismatch relabels the fragment CONTRADICTED; the flag says whether that must be persisted.
  Blank content is never stored: \<open>fragment_validated\<close> refuses it.\<close>

definition decode_fragment :: "provider \<Rightarrow> fragment \<Rightarrow> fragment \<times> bool" where
  "decode_fragment P row =
     (let content = pv_decrypt P (fr_content row);
          f = row\<lparr>fr_content := (case content of Some c \<Rightarrow> py_strip c | None \<Rightarrow> UNREADABLE)\<rparr>
      in if content = None \<or> \<not> hash_check P f then
           if fr_state f = QUARANTINED then (f, False)
           else (f\<lparr>fr_state := CONTRADICTED\<rparr>, fr_state f \<noteq> CONTRADICTED)
         else (f, False))"

definition get_fragment :: "provider \<Rightarrow> datetime \<Rightarrow> store_db \<Rightarrow> ustr \<Rightarrow> store_db \<times> fragment option" where
  "get_fragment P now db fid =
     (case tbl_get fr_id (db_fragments db) fid of
        None \<Rightarrow> (db, None)
      | Some row \<Rightarrow>
          (let (f, tampered) = decode_fragment P row
           in (if tampered then persist_tampered now db [fr_id f] else db, Some f)))"

definition get_many :: "provider \<Rightarrow> datetime \<Rightarrow> store_db \<Rightarrow> ustr list \<Rightarrow> store_db \<times> (ustr \<times> fragment) list" where
  "get_many P now db ids =
     (let rows = filter (\<lambda>r. fr_id r \<in> set ids) (db_fragments db);
          tampered = map fr_id (filter (\<lambda>r. snd (decode_fragment P r)) rows)
      in (if tampered = [] then db else persist_tampered now db tampered,
          map (\<lambda>r. (fr_id r, fst (decode_fragment P r))) rows))"

record fragment_filter =
  ff_scope :: "memory_scope option"
  ff_states :: "memory_state list"
  ff_tier :: "memory_tier option"
  ff_session :: "ustr option"
  ff_prefix :: "ustr option"
  ff_tags :: "string list"
  ff_block :: "ustr option"
  ff_blocks :: "ustr list"

definition no_filter :: fragment_filter where
  "no_filter = \<lparr>ff_scope = None, ff_states = [], ff_tier = None, ff_session = None, ff_prefix = None,
     ff_tags = [], ff_block = None, ff_blocks = []\<rparr>"

definition quarantined_blocks :: "store_db \<Rightarrow> ustr list" where
  "quarantined_blocks db = map bk_id (filter (\<lambda>b. bk_status b = BLOCK_QUARANTINED) (db_blocks db))"

text \<open>SQLite's \<open>LIKE\<close> ignores ASCII case.\<close>

definition ascii_lower :: "ustr \<Rightarrow> ustr" where
  "ascii_lower s = map (\<lambda>c. if 65 \<le> c \<and> c \<le> 90 then c + 32 else c) s"

definition like_prefix :: "ustr \<Rightarrow> ustr \<Rightarrow> bool" where
  "like_prefix p s \<longleftrightarrow> take (length p) (ascii_lower s) = ascii_lower p"

text \<open>The WHERE clause of \<open>_fragment_filters\<close>.\<close>

definition fragment_matches :: "store_db \<Rightarrow> ustr \<Rightarrow> fragment_filter \<Rightarrow> fragment \<Rightarrow> bool" where
  "fragment_matches db agent ff r \<longleftrightarrow>
     fr_agent r = agent
     \<and> (case fr_block r of None \<Rightarrow> True | Some b \<Rightarrow> b \<notin> set (quarantined_blocks db))
     \<and> (case ff_block ff of Some b \<Rightarrow> fr_block r = Some b
         | None \<Rightarrow> if ff_blocks ff = [] then True else fr_block r \<in> Some ` set (ff_blocks ff))
     \<and> (case ff_scope ff of None \<Rightarrow> True | Some s \<Rightarrow> fr_scope r = s)
     \<and> (case ff_tier ff of None \<Rightarrow> True | Some t \<Rightarrow> fr_tier r = t)
     \<and> (case ff_session ff of Some s \<Rightarrow> fr_session r = Some s
         | None \<Rightarrow> (case ff_prefix ff of None \<Rightarrow> True
             | Some p \<Rightarrow> (case fr_session r of None \<Rightarrow> False | Some s \<Rightarrow> like_prefix p s)))
     \<and> list_all (\<lambda>t. t \<in> set (fr_tags r)) (ff_tags ff)
     \<and> (if ff_states ff = [] then True else fr_state r \<in> set (ff_states ff))"

definition list_by_agent ::
  "provider \<Rightarrow> store_db \<Rightarrow> ustr \<Rightarrow> fragment_filter \<Rightarrow> int option \<Rightarrow> fragment list" where
  "list_by_agent P db agent ff lmt =
     map (\<lambda>r. fst (decode_fragment P r))
       (sql_limit lmt (sort_key_desc fr_importance (sort_key_desc fr_created
          (filter (fragment_matches db agent ff) (db_fragments db)))))"

definition embeddings_for_agent :: "store_db \<Rightarrow> ustr \<Rightarrow> (ustr \<times> real list option) list" where
  "embeddings_for_agent db agent = map (\<lambda>r. (fr_id r, fr_embedding r))
     (filter (\<lambda>r. fr_agent r = agent \<and> is_retrievable (fr_state r)) (db_fragments db))"

definition list_all_fragments :: "provider \<Rightarrow> store_db \<Rightarrow> fragment list" where
  "list_all_fragments P db = map (\<lambda>r. fst (decode_fragment P r)) (db_fragments db)"

definition existing_ids :: "store_db \<Rightarrow> ustr list \<Rightarrow> ustr list" where
  "existing_ids db ids = filter (\<lambda>i. i \<in> fr_id ` set (db_fragments db)) (remdups ids)"

definition count_fragments :: "store_db \<Rightarrow> ustr \<Rightarrow> nat" where
  "count_fragments db agent = length (filter (\<lambda>r. fr_agent r = agent) (db_fragments db))"

section \<open>Blocks\<close>

definition store_block :: "store_db \<Rightarrow> block \<Rightarrow> store_db" where
  "store_block db b = db\<lparr>db_blocks := tbl_replace bk_id (b\<lparr>bk_fragments := []\<rparr>) (db_blocks db)\<rparr>"

definition get_block :: "store_db \<Rightarrow> ustr \<Rightarrow> block option" where
  "get_block db bid = tbl_get bk_id (db_blocks db) bid"

definition get_block_by_name :: "store_db \<Rightarrow> ustr \<Rightarrow> ustr \<Rightarrow> block option" where
  "get_block_by_name db name agent = find (\<lambda>b. bk_name b = name \<and> bk_agent b = agent) (db_blocks db)"

definition list_blocks :: "store_db \<Rightarrow> ustr \<Rightarrow> block list" where
  "list_blocks db agent = sort_key_desc bk_created (filter (\<lambda>b. bk_agent b = agent) (db_blocks db))"

definition fragments_for_block :: "provider \<Rightarrow> store_db \<Rightarrow> ustr \<Rightarrow> fragment list" where
  "fragments_for_block P db bid = map (\<lambda>r. fst (decode_fragment P r))
     (sort_key_desc fr_importance (filter (\<lambda>r. fr_block r = Some bid) (db_fragments db)))"

text \<open>Moving a fragment out of a SEALED block is refused.\<close>

definition assign_fragment_block ::
  "datetime \<Rightarrow> store_db \<Rightarrow> ustr \<Rightarrow> ustr option \<Rightarrow> py_error + store_db" where
  "assign_fragment_block now db fid bid =
     (let sealed_elsewhere = (case tbl_get fr_id (db_fragments db) fid of
            None \<Rightarrow> False
          | Some r \<Rightarrow> (case fr_block r of None \<Rightarrow> False
              | Some cur \<Rightarrow> Some cur \<noteq> bid \<and> map_option bk_status (get_block db cur) = Some BLOCK_SEALED))
      in if sealed_elsewhere then Inl ValueError
         else Inr (db\<lparr>db_fragments := tbl_update (\<lambda>r. fr_id r = fid)
                (\<lambda>r. r\<lparr>fr_block := bid, fr_updated := now\<rparr>) (db_fragments db)\<rparr>))"

definition add_node_to_block :: "datetime \<Rightarrow> store_db \<Rightarrow> ustr \<Rightarrow> ustr \<Rightarrow> store_db" where
  "add_node_to_block now db bid nid =
     (if (bid, nid) \<in> set (map (\<lambda>(b, n, t). (b, n)) (db_block_nodes db)) then db
      else db\<lparr>db_block_nodes := db_block_nodes db @ [(bid, nid, now)]\<rparr>)"

definition remove_node_from_block :: "store_db \<Rightarrow> ustr \<Rightarrow> ustr \<Rightarrow> store_db \<times> bool" where
  "remove_node_from_block db bid nid =
     (db\<lparr>db_block_nodes := tbl_delete (\<lambda>(b, n, t). b = bid \<and> n = nid) (db_block_nodes db)\<rparr>,
      list_ex (\<lambda>(b, n, t). b = bid \<and> n = nid) (db_block_nodes db))"

definition nodes_in_block :: "store_db \<Rightarrow> ustr \<Rightarrow> node list" where
  "nodes_in_block db bid = List.map_filter (\<lambda>(b, n, t). tbl_get nd_id (db_nodes db) n)
     (sort_key (\<lambda>(b, n, t). t) (filter (\<lambda>(b, n, t). b = bid) (db_block_nodes db)))"

definition block_ids_for_node :: "store_db \<Rightarrow> ustr \<Rightarrow> ustr list" where
  "block_ids_for_node db nid = map fst
     (sort_key (\<lambda>(b, n, t). t) (filter (\<lambda>(b, n, t). n = nid) (db_block_nodes db)))"

definition edges_in_block :: "store_db \<Rightarrow> ustr \<Rightarrow> edge list" where
  "edges_in_block db bid = sort_key ed_created (filter (\<lambda>e. ed_block e = Some bid) (db_edges db))"

definition store_block_link :: "store_db \<Rightarrow> block_link \<Rightarrow> store_db" where
  "store_block_link db l = db\<lparr>db_links := tbl_replace bl_id l (db_links db)\<rparr>"

definition links_from_block :: "store_db \<Rightarrow> ustr \<Rightarrow> block_link list" where
  "links_from_block db bid = sort_key bl_created (filter (\<lambda>l. bl_source l = bid) (db_links db))"

definition links_to_block :: "store_db \<Rightarrow> ustr \<Rightarrow> block_link list" where
  "links_to_block db bid = sort_key bl_created (filter (\<lambda>l. bl_target l = bid) (db_links db))"

definition delete_block_link :: "store_db \<Rightarrow> ustr \<Rightarrow> store_db \<times> bool" where
  "delete_block_link db lid =
     (db\<lparr>db_links := tbl_delete (\<lambda>l. bl_id l = lid) (db_links db)\<rparr>, list_ex (\<lambda>l. bl_id l = lid) (db_links db))"

definition list_blocks_by_status :: "store_db \<Rightarrow> ustr \<Rightarrow> block_status \<Rightarrow> block list" where
  "list_blocks_by_status db agent s =
     sort_key bk_created (filter (\<lambda>b. bk_agent b = agent \<and> bk_status b = s) (db_blocks db))"

definition latest_sealed_block :: "store_db \<Rightarrow> ustr \<Rightarrow> ustr option \<Rightarrow> block option" where
  "latest_sealed_block db agent excl =
     (case sort_key_desc bk_sealed_at (sort_key_desc bk_created
             (filter (\<lambda>b. bk_agent b = agent \<and> bk_status b = BLOCK_SEALED \<and> bk_sealed_at b \<noteq> None
                \<and> Some (bk_id b) \<noteq> excl) (db_blocks db))) of
        [] \<Rightarrow> None | b # _ \<Rightarrow> Some b)"

definition sealed_chain :: "store_db \<Rightarrow> ustr \<Rightarrow> block list" where
  "sealed_chain db agent = sort_key (\<lambda>b. (bk_sealed_at b, bk_created b))
     (filter (\<lambda>b. bk_agent b = agent \<and> bk_sealed_at b \<noteq> None
        \<and> bk_status b \<in> {BLOCK_SEALED, BLOCK_QUARANTINED}) (db_blocks db))"

section \<open>Graph tables\<close>

definition store_node :: "store_db \<Rightarrow> node \<Rightarrow> store_db" where
  "store_node db n = db\<lparr>db_nodes := tbl_replace nd_id n (db_nodes db)\<rparr>"

definition get_node :: "store_db \<Rightarrow> ustr \<Rightarrow> node option" where
  "get_node db nid = tbl_get nd_id (db_nodes db) nid"

definition get_node_by_label :: "store_db \<Rightarrow> ustr \<Rightarrow> ustr \<Rightarrow> node option" where
  "get_node_by_label db label agent =
     (case sort_key_desc nd_created (filter (\<lambda>n. nd_label n = label \<and> nd_agent n = Some agent) (db_nodes db)) of
        [] \<Rightarrow> None | n # _ \<Rightarrow> Some n)"

definition delete_edges_between :: "store_db \<Rightarrow> ustr \<Rightarrow> ustr \<Rightarrow> string option \<Rightarrow> store_db \<times> nat" where
  "delete_edges_between db s t rel =
     (let hit = (\<lambda>e. ed_source e = s \<and> ed_target e = t \<and> (case rel of None \<Rightarrow> True | Some r \<Rightarrow> ed_relation e = r))
      in (db\<lparr>db_edges := tbl_delete hit (db_edges db)\<rparr>, length (filter hit (db_edges db))))"

definition nodes_for_fragment :: "store_db \<Rightarrow> ustr \<Rightarrow> node list" where
  "nodes_for_fragment db fid = filter (\<lambda>n. nd_fragment n = Some fid) (db_nodes db)"

definition nodes_for_agent :: "store_db \<Rightarrow> ustr \<Rightarrow> node list" where
  "nodes_for_agent db agent = sort_key_desc nd_weight (filter (\<lambda>n. nd_agent n = Some agent) (db_nodes db))"

definition store_edge :: "store_db \<Rightarrow> edge \<Rightarrow> store_db" where
  "store_edge db e = db\<lparr>db_edges := tbl_replace ed_id e (db_edges db)\<rparr>"

definition edges_from_node :: "store_db \<Rightarrow> ustr \<Rightarrow> string list \<Rightarrow> edge list" where
  "edges_from_node db nid rels =
     filter (\<lambda>e. ed_source e = nid \<and> (if rels = [] then True else ed_relation e \<in> set rels)) (db_edges db)"

definition edges_to_node :: "store_db \<Rightarrow> ustr \<Rightarrow> edge list" where
  "edges_to_node db nid = filter (\<lambda>e. ed_target e = nid) (db_edges db)"

definition contradiction_edges :: "store_db \<Rightarrow> ustr \<Rightarrow> edge list" where
  "contradiction_edges db nid =
     filter (\<lambda>e. ed_relation e = ''contradicts'' \<and> (ed_source e = nid \<or> ed_target e = nid)) (db_edges db)"

definition list_edges :: "store_db \<Rightarrow> ustr \<Rightarrow> edge list" where
  "list_edges db agent = sort_key_desc ed_weight (filter (\<lambda>e. ed_agent e = agent) (db_edges db))"

definition delete_edge :: "store_db \<Rightarrow> ustr \<Rightarrow> store_db \<times> bool" where
  "delete_edge db eid =
     (db\<lparr>db_edges := tbl_delete (\<lambda>e. ed_id e = eid) (db_edges db)\<rparr>, list_ex (\<lambda>e. ed_id e = eid) (db_edges db))"

definition update_edge_weight :: "store_db \<Rightarrow> ustr \<Rightarrow> real \<Rightarrow> store_db" where
  "update_edge_weight db eid w = db\<lparr>db_edges :=
     tbl_update (\<lambda>e. ed_id e = eid) (\<lambda>e. e\<lparr>ed_weight := max 0 (min 1 w)\<rparr>) (db_edges db)\<rparr>"

end
