(* ===== verification/Store_Laws.thy ===== *)
theory Store_Laws
  imports Store
begin

text \<open>
  What the store promises. The encryption provider is an interface: the locale
  \<open>provider_laws\<close> states what the store relies on (decryption inverts encryption, a digest
  verifies against its own content) and is interpreted on the two providers of
  \<^verbatim>\<open>security/encryption.py\<close>. Theorems: reads return what was written, an agent's rows are
  never touched by another agent's writes, at-rest tampering is detected and persisted, listings
  stay within their filter, and the primary keys stay unique.
\<close>

section \<open>Encryption providers\<close>

locale provider_laws =
  fixes P :: provider
  assumes decrypt_encrypt: "pv_decrypt P (pv_encrypt P t) = Some t"
    and digest_verifies: "hash_verify P t (pv_digest P t)"
begin

lemma check_attached: "hash_check P (hash_attach P f)"
  by (simp add: hash_check_def hash_attach_def AList.update_conv digest_verifies)

lemma decode_stored:
  "py_strip (fr_content f) = fr_content f \<Longrightarrow>
   decode_fragment P ((hash_attach P f)\<lparr>fr_content := pv_encrypt P (fr_content f)\<rparr>)
     = (hash_attach P f, False)"
  using check_attached[of f]
  by (simp add: decode_fragment_def decrypt_encrypt hash_attach_def hash_check_def)

end

interpretation noop: provider_laws "noop_provider sha" for sha
  by unfold_locales (simp_all add: noop_provider_def hash_verify_def)

text \<open>The keyed provider in passphrase mode: a per-instance salt of 16 bytes in front of a Fernet
  token under the key derived from it, and a keyed digest marked by its prefix. Key derivation,
  Fernet, the MAC and SHA-256 are arguments.\<close>

definition SALT_SIZE :: nat where "SALT_SIZE = 16"

definition fernet_encrypt ::
  "(ustr \<Rightarrow> 'key) \<Rightarrow> ('key \<Rightarrow> ustr \<Rightarrow> ustr) \<Rightarrow> ustr \<Rightarrow> ustr \<Rightarrow> ustr" where
  "fernet_encrypt derive enc salt t = salt @ enc (derive salt) t"

definition fernet_decrypt ::
  "(ustr \<Rightarrow> 'key) \<Rightarrow> ('key \<Rightarrow> ustr \<Rightarrow> ustr option) \<Rightarrow> ustr \<Rightarrow> ustr option" where
  "fernet_decrypt derive dec d =
     (let salt = take SALT_SIZE d; token = drop SALT_SIZE d
      in if take 5 token \<noteq> u ''gAAAA'' then None else dec (derive salt) token)"

definition fernet_digest :: "(ustr \<Rightarrow> ustr) \<Rightarrow> ustr \<Rightarrow> ustr" where
  "fernet_digest mac t = HMAC_PREFIX @ mac t"

definition passphrase_provider where
  "passphrase_provider derive enc dec salt mac sha =
     \<lparr>pv_encrypt = fernet_encrypt derive enc salt, pv_decrypt = fernet_decrypt derive dec,
      pv_digest = fernet_digest mac, pv_sha = sha\<rparr>"

lemma hash_verify_fernet: "pv_digest P = fernet_digest mac \<Longrightarrow> hash_verify P t (fernet_digest mac t)"
  by (simp add: hash_verify_def fernet_digest_def)

lemma passphrase_provider_laws:
  assumes "length salt = SALT_SIZE"
    and "\<And>t. take 5 (enc (derive salt) t) = u ''gAAAA''"
    and "\<And>t. dec (derive salt) (enc (derive salt) t) = Some t"
  shows "provider_laws (passphrase_provider derive enc dec salt mac sha)"
proof
  fix t
  show "pv_decrypt (passphrase_provider derive enc dec salt mac sha)
      (pv_encrypt (passphrase_provider derive enc dec salt mac sha) t) = Some t"
    using assms
    by (simp add: passphrase_provider_def fernet_encrypt_def fernet_decrypt_def)
  show "hash_verify (passphrase_provider derive enc dec salt mac sha) t
      (pv_digest (passphrase_provider derive enc dec salt mac sha) t)"
    using hash_verify_fernet[of "passphrase_provider derive enc dec salt mac sha" mac t]
    by (simp add: passphrase_provider_def)
qed

section \<open>Table facts\<close>

lemma store_row_Inr_iff:
  "store_row P db f = Inr (db', g) \<longleftrightarrow>
     (\<forall>e. tbl_get fr_id (db_fragments db) (fr_id f) = Some e \<longrightarrow> fr_agent e = fr_agent f)
     \<and> db' = db\<lparr>db_fragments := tbl_upsert fr_id
          ((hash_attach P f)\<lparr>fr_content := pv_encrypt P (fr_content f)\<rparr>) (db_fragments db)\<rparr>
     \<and> g = (case tbl_get fr_id (db_fragments db) (fr_id f) of None \<Rightarrow> False
            | Some e \<Rightarrow> is_retrievable (fr_state e) \<and> \<not> is_retrievable (fr_state f))"
  by (auto simp: store_row_def Let_def hash_attach_def split: option.splits)

lemma filter_tbl_upsert:
  assumes "\<And>e. e \<in> set rows \<Longrightarrow> key e = key row \<Longrightarrow> \<not> p e" "\<not> p row"
  shows "filter p (tbl_upsert key row rows) = filter p rows"
proof -
  have "filter p (map (\<lambda>r. if key r = key row then row else r) rs) = filter p rs"
    if "set rs \<subseteq> set rows" for rs
    using that assms by (induction rs) auto
  then show ?thesis using assms(2) by (auto simp: tbl_upsert_def)
qed

lemma store_row_others:
  assumes "tbl_ok fr_id (db_fragments db)" "store_row P db f = Inr (db', g)"
    and "\<And>r. p r \<Longrightarrow> fr_agent r \<noteq> fr_agent f"
  shows "filter p (db_fragments db') = filter p (db_fragments db)"
proof -
  let ?row = "(hash_attach P f)\<lparr>fr_content := pv_encrypt P (fr_content f)\<rparr>"
  have row: "fr_id ?row = fr_id f" "fr_agent ?row = fr_agent f" by (simp_all add: hash_attach_def)
  from assms(2) have own: "\<And>e. tbl_get fr_id (db_fragments db) (fr_id f) = Some e \<Longrightarrow> fr_agent e = fr_agent f"
    and db': "db_fragments db' = tbl_upsert fr_id ?row (db_fragments db)"
    unfolding store_row_Inr_iff by auto
  show ?thesis unfolding db'
  proof (rule filter_tbl_upsert)
    fix e assume "e \<in> set (db_fragments db)" "fr_id e = fr_id ?row"
    then have "fr_agent e = fr_agent f"
      using own tbl_get_Some[OF assms(1)] row(1) by metis
    then show "\<not> p e" using assms(3) by blast
  next
    show "\<not> p ?row" using assms(3)[of ?row] row(2) by blast
  qed
qed

lemma store_row_ok:
  "tbl_ok fr_id (db_fragments db) \<Longrightarrow> store_row P db f = Inr (db', g) \<Longrightarrow> tbl_ok fr_id (db_fragments db')"
  by (simp add: store_row_Inr_iff)

lemma store_many_ok:
  "tbl_ok fr_id (db_fragments db) \<Longrightarrow> store_many P db fs = Inr (db', ids, un) \<Longrightarrow>
   tbl_ok fr_id (db_fragments db')"
  by (induction P db fs arbitrary: db' ids un rule: store_many.induct)
     (fastforce simp: bind_res_Inr_iff dest: store_row_ok)+

lemma store_many_others:
  assumes "tbl_ok fr_id (db_fragments db)" "store_many P db fs = Inr (db', ids, un)"
    and "\<And>r. p r \<Longrightarrow> fr_agent r \<notin> fr_agent ` set fs"
  shows "filter p (db_fragments db') = filter p (db_fragments db)"
  using assms
proof (induction P db fs arbitrary: db' ids un rule: store_many.induct)
  case (2 P db f fs)
  from "2.prems"(2) obtain db1 g ids2 un2 where
    s: "store_row P db f = Inr (db1, g)" "store_many P db1 fs = Inr (db', ids2, un2)"
    by (auto simp: bind_res_Inr_iff)
  have "filter p (db_fragments db') = filter p (db_fragments db1)"
    using "2.IH"[OF store_row_ok[OF "2.prems"(1) s(1)] s(2)] "2.prems"(3) by auto
  also have "\<dots> = filter p (db_fragments db)"
    by (rule store_row_others[OF "2.prems"(1) s(1)]) (use "2.prems"(3) in auto)
  finally show ?case .
qed simp

definition foreign :: "store_db \<Rightarrow> fragment \<Rightarrow> bool" where
  "foreign db f \<longleftrightarrow> (case tbl_get fr_id (db_fragments db) (fr_id f) of
     None \<Rightarrow> False | Some e \<Rightarrow> fr_agent e \<noteq> fr_agent f)"

lemma store_row_foreign:
  "store_row P db f = (if foreign db f then Inl ValueError else
     Inr (db\<lparr>db_fragments := tbl_upsert fr_id
          ((hash_attach P f)\<lparr>fr_content := pv_encrypt P (fr_content f)\<rparr>) (db_fragments db)\<rparr>,
       case tbl_get fr_id (db_fragments db) (fr_id f) of None \<Rightarrow> False
       | Some e \<Rightarrow> is_retrievable (fr_state e) \<and> \<not> is_retrievable (fr_state f)))"
  by (auto simp: store_row_def foreign_def Let_def hash_attach_def split: option.splits)

lemma store_row_keeps_foreign:
  "store_row P db g = Inr (db1, b) \<Longrightarrow> fr_agent f = fr_agent g \<Longrightarrow> foreign db1 f = foreign db f"
  by (auto simp: store_row_foreign foreign_def tbl_get_upsert hash_attach_def split: option.splits if_splits)

lemma store_many_foreign:
  "\<forall>f\<in>set fs. fr_agent f = a \<Longrightarrow>
   (\<exists>r. store_many P db fs = Inr r) \<longleftrightarrow> (\<forall>f\<in>set fs. \<not> foreign db f)"
proof (induction P db fs rule: store_many.induct)
  case (2 P db f fs)
  show ?case
  proof (cases "foreign db f")
    case False
    then obtain db1 g where s: "store_row P db f = Inr (db1, g)" by (auto simp: store_row_foreign)
    have "(\<exists>r. store_many P db1 fs = Inr r) \<longleftrightarrow> (\<forall>f\<in>set fs. \<not> foreign db1 f)"
      using "2.IH"[of db1] "2.prems" by auto
    also have "\<dots> \<longleftrightarrow> (\<forall>f\<in>set fs. \<not> foreign db f)"
      using store_row_keeps_foreign[OF s] "2.prems" by auto
    finally show ?thesis using s False
      by (cases "store_many P db1 fs") auto
  qed (simp add: store_row_foreign)
qed simp

lemma store_many_ids: "store_many P db fs = Inr (db', ids, un) \<Longrightarrow> ids = map fr_id fs"
proof (induction P db fs arbitrary: db' ids un rule: store_many.induct)
  case (2 P db f fs)
  from "2.prems" obtain db1 g ids2 un2 where
    s: "store_many P db1 fs = Inr (db', ids2, un2)" "ids = fr_id f # ids2"
    by (auto simp: bind_res_Inr_iff)
  with "2.IH"[OF s(1)] show ?case by simp
qed simp

lemma store_many_error: "store_many P db fs = Inl e \<Longrightarrow> e = ValueError"
proof (induction P db fs arbitrary: e rule: store_many.induct)
  case (2 P db f fs)
  show ?case
  proof (cases "foreign db f")
    case False
    then obtain db1 g where s: "store_row P db f = Inr (db1, g)" by (auto simp: store_row_foreign)
    show ?thesis using "2.prems" "2.IH"[of db1] s by (cases "store_many P db1 fs") auto
  qed (use "2.prems" in \<open>simp add: store_row_foreign\<close>)
qed simp

section \<open>Properties\<close>

text \<open>C3: one agent's writes never touch another agent's rows: a batch written for agent \<open>a\<close>
  either fails as a whole, exactly when one of its ids already belongs to another agent, or leaves
  every other agent's rows exactly as they were and in the same order.\<close>

theorem store_many_isolates_agents:
  assumes "tbl_ok fr_id (db_fragments db)" "\<forall>f\<in>set fs. fr_agent f = a"
  shows "case store_many P db fs of
      Inl e \<Rightarrow> e = ValueError \<and> list_ex (foreign db) fs
    | Inr (db', ids, unret) \<Rightarrow> \<not> list_ex (foreign db) fs
        \<and> filter (\<lambda>r. fr_agent r \<noteq> a) (db_fragments db') = filter (\<lambda>r. fr_agent r \<noteq> a) (db_fragments db)
        \<and> ids = map fr_id fs \<and> tbl_ok fr_id (db_fragments db')"
proof (cases "store_many P db fs")
  case (Inl e)
  have "e = ValueError" by (rule store_many_error[OF Inl])
  with Inl show ?thesis
    using store_many_foreign[OF assms(2), of P db] by (auto simp: list_ex_iff)
next
  case (Inr r)
  obtain db' ids unret where r: "r = (db', ids, unret)" by (cases r)
  have ids: "ids = map fr_id fs" by (rule store_many_ids[OF Inr[unfolded r]])
  have "filter (\<lambda>r. fr_agent r \<noteq> a) (db_fragments db') = filter (\<lambda>r. fr_agent r \<noteq> a) (db_fragments db)"
    by (rule store_many_others[OF assms(1) Inr[unfolded r]]) (use assms(2) in auto)
  with ids show ?thesis
    using store_many_foreign[OF assms(2), of P db] store_many_ok[OF assms(1) Inr[unfolded r]]
    unfolding Inr r by (auto simp: list_ex_iff)
qed

definition wit_sha :: "ustr \<Rightarrow> ustr" where "wit_sha t = u ''sha:'' @ t"

definition wit_db :: store_db where
  "wit_db = empty_db\<lparr>db_fragments := [wit_fragment\<lparr>fr_id := u ''f0'', fr_agent := u ''b''\<rparr>]\<rparr>"

lemma store_many_isolates_agents_witness:
  "case store_many (noop_provider wit_sha) wit_db [wit_fragment] of
      Inl e \<Rightarrow> e = ValueError \<and> list_ex (foreign wit_db) [wit_fragment]
    | Inr (db', ids, unret) \<Rightarrow> \<not> list_ex (foreign wit_db) [wit_fragment]
        \<and> filter (\<lambda>r. fr_agent r \<noteq> u ''a'') (db_fragments db') = filter (\<lambda>r. fr_agent r \<noteq> u ''a'') (db_fragments wit_db)
        \<and> ids = map fr_id [wit_fragment] \<and> tbl_ok fr_id (db_fragments db')"
  by (rule store_many_isolates_agents) (simp_all add: wit_db_def wit_fragment_def)





section \<open>Listings\<close>

lemma decode_fragment_keeps [simp]:
  "fr_id (fst (decode_fragment P r)) = fr_id r"
  "fr_agent (fst (decode_fragment P r)) = fr_agent r"
  "fr_block (fst (decode_fragment P r)) = fr_block r"
  "fr_importance (fst (decode_fragment P r)) = fr_importance r"
  "fr_created (fst (decode_fragment P r)) = fr_created r"
  by (simp_all add: decode_fragment_def Let_def)

lemma sorted_sql_limit: "sorted (rev (map f xs)) \<Longrightarrow> sorted (rev (map f (sql_limit n xs)))"
  by (auto simp: sql_limit_def take_map[symmetric] rev_take sorted_wrt_drop split: option.splits)

text \<open>A listing returns only the agent's own fragments, never one of a quarantined block,
  the most important first, at most as many as the limit asks for; without a limit it returns
  exactly the ids of the rows its filter selects.\<close>

theorem list_by_agent_scoped:
  "list_all (\<lambda>f. fr_agent f = agent
      \<and> (case fr_block f of None \<Rightarrow> True | Some b \<Rightarrow> b \<notin> set (quarantined_blocks db)))
     (list_by_agent P db agent ff lmt)
   \<and> sorted (rev (map fr_importance (list_by_agent P db agent ff lmt)))
   \<and> mset (map fr_id (list_by_agent P db agent ff None))
       = mset (map fr_id (filter (fragment_matches db agent ff) (db_fragments db)))
   \<and> (case lmt of Some (n) \<Rightarrow> (if n < 0 then True else length (list_by_agent P db agent ff lmt) \<le> nat n) | None \<Rightarrow> True)"
proof (intro conjI)
  let ?rows = "sql_limit lmt (sort_key_desc fr_importance (sort_key_desc fr_created
          (filter (fragment_matches db agent ff) (db_fragments db))))"
  have sub: "r \<in> set ?rows \<Longrightarrow> fragment_matches db agent ff r" for r
    using set_sql_limit[of lmt] by fastforce
  show "list_all (\<lambda>f. fr_agent f = agent
      \<and> (case fr_block f of None \<Rightarrow> True | Some b \<Rightarrow> b \<notin> set (quarantined_blocks db)))
     (list_by_agent P db agent ff lmt)"
    unfolding list_all_iff list_by_agent_def
  proof (rule ballI)
    fix f assume "f \<in> set (map (\<lambda>r. fst (decode_fragment P r)) ?rows)"
    then obtain r where r: "r \<in> set ?rows" "f = fst (decode_fragment P r)" by auto
    from sub[OF r(1)] show "fr_agent f = agent
      \<and> (case fr_block f of None \<Rightarrow> True | Some b \<Rightarrow> b \<notin> set (quarantined_blocks db))"
      unfolding r(2) fragment_matches_def by simp
  qed
  have "map fr_importance (list_by_agent P db agent ff lmt) = map fr_importance ?rows"
    by (simp add: list_by_agent_def)
  then show "sorted (rev (map fr_importance (list_by_agent P db agent ff lmt)))"
    by (simp only: sorted_sql_limit sort_key_desc_sorted)
  have "map fr_id (list_by_agent P db agent ff None)
      = map fr_id (sort_key_desc fr_importance (sort_key_desc fr_created
          (filter (fragment_matches db agent ff) (db_fragments db))))"
    by (simp add: list_by_agent_def sql_limit_def)
  then show "mset (map fr_id (list_by_agent P db agent ff None))
       = mset (map fr_id (filter (fragment_matches db agent ff) (db_fragments db)))"
    by (simp only: mset_map mset_sort_key_desc)
  show "case lmt of Some n \<Rightarrow> (if n < 0 then True else length (list_by_agent P db agent ff lmt) \<le> nat n) | None \<Rightarrow> True"
    by (simp add: list_by_agent_def sql_limit_def split: option.splits)
qed

text \<open>Listings decode without persisting: a tampered row that is still labelled VERIFIED is
  listed by a VERIFIED filter, as CONTRADICTED, and stays VERIFIED in the table until a \<open>get\<close>.\<close>

lemma listing_returns_tampered:
  "\<exists>db. map fr_state (list_by_agent (noop_provider wit_sha) db (u ''a'')
          (no_filter\<lparr>ff_states := [VERIFIED]\<rparr>) None) = [CONTRADICTED]
     \<and> map fr_state (db_fragments db) = [VERIFIED]"
proof -
  let ?row = "wit_fragment\<lparr>fr_state := VERIFIED, fr_meta := [(''content_hash'', MvText (u ''x''))]\<rparr>"
  have "\<not> hash_verify (noop_provider wit_sha) c (u ''x'')" for c
    by (simp add: hash_verify_def noop_provider_def wit_sha_def HMAC_PREFIX_def)
  then have "map fr_state (list_by_agent (noop_provider wit_sha) (empty_db\<lparr>db_fragments := [?row]\<rparr>) (u ''a'')
          (no_filter\<lparr>ff_states := [VERIFIED]\<rparr>) None) = [CONTRADICTED]"
    by (simp add: list_by_agent_def sql_limit_def fragment_matches_def no_filter_def wit_fragment_def
        decode_fragment_def hash_check_def quarantined_blocks_def empty_db_def Let_def)
  then show ?thesis by (intro exI[of _ "empty_db\<lparr>db_fragments := [?row]\<rparr>"]) simp
qed

section \<open>The store invariant\<close>

text \<open>Every way the store changes its tables, one rule per operation.\<close>

inductive store_step :: "provider \<Rightarrow> store_db \<Rightarrow> store_db \<Rightarrow> bool" for P where
  step_store: "fragment_validated f = Inr f \<Longrightarrow> store_row P db f = Inr (db', g) \<Longrightarrow> store_step P db db'"
| step_state: "store_step P db (update_state now db fid s)"
| step_embedding: "store_step P db (update_embedding db fid e)"
| step_delete: "store_step P db (Product_Type.fst (delete_fragment db fid))"
| step_clear: "store_step P db (clear_fragments db a)"
| step_get: "store_step P db (Product_Type.fst (get_fragment P now db fid))"
| step_get_many: "store_step P db (Product_Type.fst (get_many P now db fids))"
| step_importance: "store_step P db (update_importance_many now db upds)"
| step_touch: "store_step P db (touch_many now db fids)"
| step_assign: "assign_fragment_block now db fid bid = Inr db' \<Longrightarrow> store_step P db db'"
| step_block: "store_step P db (store_block db b)"
| step_add_node: "store_step P db (add_node_to_block now db bid nid)"
| step_remove_node: "store_step P db (Product_Type.fst (remove_node_from_block db bid nid))"
| step_link: "store_step P db (store_block_link db l)"
| step_unlink: "store_step P db (Product_Type.fst (delete_block_link db lid))"
| step_node: "store_step P db (store_node db n)"
| step_edge: "store_step P db (store_edge db e)"
| step_delete_between: "store_step P db (Product_Type.fst (delete_edges_between db s t rel))"
| step_delete_edge: "store_step P db (Product_Type.fst (delete_edge db eid))"
| step_edge_weight: "store_step P db (update_edge_weight db eid w)"

inductive store_reachable :: "provider \<Rightarrow> store_db \<Rightarrow> bool" for P where
  reachable_empty: "store_reachable P empty_db"
| reachable_step: "store_reachable P db \<Longrightarrow> store_step P db db' \<Longrightarrow> store_reachable P db'"

text \<open>A row that reads back as it was written: it decrypts to stripped text that its digest
  verifies, and its importance is a probability.\<close>

definition row_clean :: "provider \<Rightarrow> fragment \<Rightarrow> bool" where
  "row_clean P r \<longleftrightarrow> (case pv_decrypt P (fr_content r) of None \<Rightarrow> False
     | Some c \<Rightarrow> py_strip c = c \<and> hash_check P (r\<lparr>fr_content := c\<rparr>))
     \<and> 0 \<le> fr_importance r \<and> fr_importance r \<le> 1"

definition store_ok :: "provider \<Rightarrow> store_db \<Rightarrow> bool" where
  "store_ok P db \<longleftrightarrow> tbl_ok fr_id (db_fragments db) \<and> tbl_ok bk_id (db_blocks db) \<and> tbl_ok nd_id (db_nodes db)
     \<and> tbl_ok ed_id (db_edges db) \<and> tbl_ok bl_id (db_links db)
     \<and> tbl_ok (\<lambda>(b, n, t). (b, n)) (db_block_nodes db)
     \<and> list_all (row_clean P) (db_fragments db)"

lemma hash_check_iff:
  "hash_check P f \<longleftrightarrow> (\<forall>e. map_of (fr_meta f) ''content_hash'' = Some (MvText e) \<longrightarrow> hash_verify P (fr_content f) e)"
  by (auto simp: hash_check_def split: option.splits meta_val.splits)

lemma row_clean_cong:
  "fr_content r' = fr_content r \<Longrightarrow> fr_importance r' = fr_importance r \<Longrightarrow>
   map_of (fr_meta r') ''content_hash'' = map_of (fr_meta r) ''content_hash'' \<Longrightarrow>
   row_clean P r' = row_clean P r"
  by (cases "pv_decrypt P (fr_content r)") (simp_all add: row_clean_def hash_check_iff)

lemma row_clean_importance:
  "row_clean P r \<Longrightarrow> 0 \<le> i \<Longrightarrow> i \<le> 1 \<Longrightarrow> row_clean P (r\<lparr>fr_importance := i, fr_updated := now\<rparr>)"
  by (cases "pv_decrypt P (fr_content r)") (simp_all add: row_clean_def hash_check_iff)

lemma tbl_update_clean:
  assumes "list_all (row_clean P) rows" "\<And>r. row_clean P r \<Longrightarrow> row_clean P (g r)"
  shows "list_all (row_clean P) (tbl_update p g rows)"
  using assms by (auto simp: tbl_update_def list_all_iff)

lemma set_tbl_upsert: "set (tbl_upsert key row rows) \<subseteq> insert row (set rows)"
  by (auto simp: tbl_upsert_def)

context provider_laws
begin

lemma stored_row_clean:
  assumes "fragment_validated f = Inr f"
  shows "row_clean P ((hash_attach P f)\<lparr>fr_content := pv_encrypt P (fr_content f)\<rparr>)"
proof -
  have "py_strip (fr_content f) = fr_content f"
    using assms by (auto simp: fragment_validated_def Let_def split: if_splits dest: arg_cong[of _ _ fr_content])
  then show ?thesis
    using assms check_attached[of f]
    by (auto simp: row_clean_def decrypt_encrypt hash_attach_def hash_check_def fragment_validated_def Let_def split: if_splits)
qed

lemma store_row_clean:
  assumes "fragment_validated f = Inr f" "store_row P db f = Inr (db', g)" "list_all (row_clean P) (db_fragments db)"
  shows "list_all (row_clean P) (db_fragments db')"
  using assms(2,3) stored_row_clean[OF assms(1)]
    set_tbl_upsert[of fr_id "(hash_attach P f)\<lparr>fr_content := pv_encrypt P (fr_content f)\<rparr>" "db_fragments db"]
  by (auto simp: store_row_Inr_iff list_all_iff)

lemma clean_row_untampered: "row_clean P r \<Longrightarrow> \<not> snd (decode_fragment P r)"
  by (auto simp: row_clean_def decode_fragment_def Let_def split: option.splits)

end

lemma clean_rows:
  "list_all (row_clean P) (db_fragments db) \<Longrightarrow> list_all (row_clean P) (db_fragments (update_state now db fid s))"
  "list_all (row_clean P) (db_fragments db) \<Longrightarrow> list_all (row_clean P) (db_fragments (update_embedding db fid e))"
  "list_all (row_clean P) (db_fragments db) \<Longrightarrow> list_all (row_clean P) (db_fragments (touch_many now db fids))"
  "list_all (row_clean P) (db_fragments db) \<Longrightarrow> list_all (row_clean P) (db_fragments (persist_tampered now db fids))"
  by (auto simp: update_state_def update_embedding_def touch_many_def persist_tampered_def
      AList.update_conv intro!: tbl_update_clean intro: row_clean_cong[THEN iffD2])

lemma frame_rows [simp]:
  "tbl_ok fr_id (db_fragments (update_state now db fid s)) = tbl_ok fr_id (db_fragments db)"
  "tbl_ok fr_id (db_fragments (update_embedding db fid e)) = tbl_ok fr_id (db_fragments db)"
  "tbl_ok fr_id (db_fragments (touch_many now db fids)) = tbl_ok fr_id (db_fragments db)"
  "tbl_ok fr_id (db_fragments (persist_tampered now db fids)) = tbl_ok fr_id (db_fragments db)"
  by (simp_all add: update_state_def update_embedding_def touch_many_def persist_tampered_def)

text \<open>The tables other than \<open>fragments\<close>, with their keys.\<close>

definition rest_ok :: "store_db \<Rightarrow> bool" where
  "rest_ok db \<longleftrightarrow> tbl_ok bk_id (db_blocks db) \<and> tbl_ok nd_id (db_nodes db)
     \<and> tbl_ok ed_id (db_edges db) \<and> tbl_ok bl_id (db_links db)
     \<and> tbl_ok (\<lambda>(b, n, t). (b, n)) (db_block_nodes db)"

lemma store_ok_alt: "store_ok P db \<longleftrightarrow>
    tbl_ok fr_id (db_fragments db) \<and> list_all (row_clean P) (db_fragments db) \<and> rest_ok db"
  by (auto simp: store_ok_def rest_ok_def)

lemma rest_frame [simp]: "rest_ok (db_fragments_update h db) = rest_ok db"
  by (simp add: rest_ok_def)

lemma importance_many_ok:
  assumes "tbl_ok fr_id (db_fragments db)" "list_all (row_clean P) (db_fragments db)" "rest_ok db"
  shows "store_ok P (update_importance_many now db upds)"
  using assms unfolding update_importance_many_def
proof (induction upds arbitrary: db)
  case (Cons x upds)
  obtain fid i where x: "x = (fid, i)" by (cases x)
  have "list_all (row_clean P) (tbl_update (\<lambda>r. fr_id r = fid)
      (\<lambda>r. r\<lparr>fr_importance := max 0 (min 1 i), fr_updated := now\<rparr>) (db_fragments db))"
    by (rule tbl_update_clean[OF Cons.prems(2)]) (rule row_clean_importance, auto)
  then show ?case
    unfolding x fold.simps o_apply case_prod_conv by (intro Cons.IH) (use Cons.prems in simp_all)
qed (simp add: store_ok_alt)

lemma rest_ok_ops:
  "rest_ok db \<Longrightarrow> rest_ok (store_block db b)"
  "rest_ok db \<Longrightarrow> rest_ok (add_node_to_block now db bid nid)"
  "rest_ok db \<Longrightarrow> rest_ok (Product_Type.fst (remove_node_from_block db bid nid))"
  "rest_ok db \<Longrightarrow> rest_ok (store_block_link db l)"
  "rest_ok db \<Longrightarrow> rest_ok (Product_Type.fst (delete_block_link db lid))"
  "rest_ok db \<Longrightarrow> rest_ok (store_node db n)"
  "rest_ok db \<Longrightarrow> rest_ok (store_edge db e)"
  "rest_ok db \<Longrightarrow> rest_ok (Product_Type.fst (delete_edges_between db s t rel))"
  "rest_ok db \<Longrightarrow> rest_ok (Product_Type.fst (delete_edge db eid))"
  "rest_ok db \<Longrightarrow> rest_ok (update_edge_weight db eid w)"
  by (auto simp: rest_ok_def store_block_def add_node_to_block_def remove_node_from_block_def
      store_block_link_def delete_block_link_def store_node_def store_edge_def delete_edges_between_def
      delete_edge_def update_edge_weight_def Let_def split_def simp del: set_map image_eqI)

lemma fragments_frame [simp]:
  "db_fragments (store_block db b) = db_fragments db"
  "db_fragments (add_node_to_block now db bid nid) = db_fragments db"
  "db_fragments (Product_Type.fst (remove_node_from_block db bid nid)) = db_fragments db"
  "db_fragments (store_block_link db l) = db_fragments db"
  "db_fragments (Product_Type.fst (delete_block_link db lid)) = db_fragments db"
  "db_fragments (store_node db n) = db_fragments db"
  "db_fragments (store_edge db e) = db_fragments db"
  "db_fragments (Product_Type.fst (delete_edges_between db s t rel)) = db_fragments db"
  "db_fragments (Product_Type.fst (delete_edge db eid)) = db_fragments db"
  "db_fragments (update_edge_weight db eid w) = db_fragments db"
  by (simp_all add: store_block_def add_node_to_block_def remove_node_from_block_def
      store_block_link_def delete_block_link_def store_node_def store_edge_def delete_edges_between_def
      delete_edge_def update_edge_weight_def Let_def)

lemma persist_ok: "store_ok P db \<Longrightarrow> store_ok P (persist_tampered now db fids)"
  by (simp add: store_ok_alt clean_rows) (simp add: persist_tampered_def)

lemma get_ok:
  "store_ok P db \<Longrightarrow> store_ok P (Product_Type.fst (get_fragment P now db fid))"
  "store_ok P db \<Longrightarrow> store_ok P (Product_Type.fst (get_many P now db fids))"
  by (auto simp: get_fragment_def get_many_def Let_def split_def persist_ok split: option.splits)

lemma delete_ok:
  "store_ok P db \<Longrightarrow> store_ok P (Product_Type.fst (delete_fragment db fid))"
  "store_ok P db \<Longrightarrow> store_ok P (clear_fragments db a)"
  by (auto simp: store_ok_alt delete_fragment_def clear_fragments_def list_all_iff split: option.splits)

lemma assign_ok:
  "store_ok P db \<Longrightarrow> assign_fragment_block now db fid bid = Inr db' \<Longrightarrow> store_ok P db'"
proof -
  assume ok: "store_ok P db" and "assign_fragment_block now db fid bid = Inr db'"
  then have db': "db' = db\<lparr>db_fragments := tbl_update (\<lambda>r. fr_id r = fid)
                (\<lambda>r. r\<lparr>fr_block := bid, fr_updated := now\<rparr>) (db_fragments db)\<rparr>"
    by (auto simp: assign_fragment_block_def Let_def split: if_splits)
  have "list_all (row_clean P) (db_fragments db')"
    unfolding db' using ok
    by (auto simp: store_ok_alt intro!: tbl_update_clean intro: row_clean_cong[THEN iffD2])
  with ok show ?thesis by (simp add: db' store_ok_alt)
qed

lemma update_ok:
  "store_ok P db \<Longrightarrow> store_ok P (update_state now db fid s)"
  "store_ok P db \<Longrightarrow> store_ok P (update_embedding db fid e)"
  "store_ok P db \<Longrightarrow> store_ok P (touch_many now db fids)"
  by (simp_all add: store_ok_alt clean_rows) (simp_all add: update_state_def update_embedding_def touch_many_def)

lemma other_tables_ok:
  "store_ok P db \<Longrightarrow> store_ok P (store_block db b)"
  "store_ok P db \<Longrightarrow> store_ok P (add_node_to_block now db bid nid)"
  "store_ok P db \<Longrightarrow> store_ok P (Product_Type.fst (remove_node_from_block db bid nid))"
  "store_ok P db \<Longrightarrow> store_ok P (store_block_link db l)"
  "store_ok P db \<Longrightarrow> store_ok P (Product_Type.fst (delete_block_link db lid))"
  "store_ok P db \<Longrightarrow> store_ok P (store_node db n)"
  "store_ok P db \<Longrightarrow> store_ok P (store_edge db e)"
  "store_ok P db \<Longrightarrow> store_ok P (Product_Type.fst (delete_edges_between db s t rel))"
  "store_ok P db \<Longrightarrow> store_ok P (Product_Type.fst (delete_edge db eid))"
  "store_ok P db \<Longrightarrow> store_ok P (update_edge_weight db eid w)"
  by (simp_all add: store_ok_alt rest_ok_ops)

lemmas step_ok_rules = update_ok get_ok delete_ok other_tables_ok

context provider_laws
begin

lemma store_step_ok:
  assumes "store_step P db db'" "store_ok P db"
  shows "store_ok P db'"
  using assms
proof (induction rule: store_step.induct)
  case (step_store f db db' g)
  then show ?case
    using store_row_clean[OF step_store(1,2)] store_row_ok[OF _ step_store(2)]
    by (auto simp: store_ok_alt store_row_Inr_iff)
next
  case step_importance
  then show ?case by (intro importance_many_ok) (simp_all add: store_ok_alt)
next
  case (step_assign now db fid bid db')
  show ?case by (rule assign_ok[OF step_assign(2,1)])
qed (rule step_ok_rules, assumption)+

lemma store_reachable_ok: "store_reachable P db \<Longrightarrow> store_ok P db"
proof (induction rule: store_reachable.induct)
  case reachable_empty
  show ?case by (simp add: store_ok_def empty_db_def)
next
  case (reachable_step db db')
  show ?case by (rule store_step_ok[OF reachable_step.hyps(2) reachable_step.IH])
qed

end

text \<open>C5: whatever sequence of its operations ran, the store's primary keys are unique, every
  importance lies in [0, 1], and no row the store wrote itself is ever reported as tampered
  (contents being stored stripped, as the fragment model's own validation leaves them).\<close>

theorem store_invariant:
  assumes "provider_laws P" "store_reachable P db"
  shows "store_ok P db \<and> list_all (\<lambda>r. decode_fragment P r
      = (r\<lparr>fr_content := the (pv_decrypt P (fr_content r))\<rparr>, False)) (db_fragments db)"
proof -
  have ok: "store_ok P db" by (rule provider_laws.store_reachable_ok[OF assms])
  have "decode_fragment P r = (r\<lparr>fr_content := the (pv_decrypt P (fr_content r))\<rparr>, False)"
    if "row_clean P r" for r
    using that by (auto simp: row_clean_def decode_fragment_def Let_def split: option.splits)
  then show ?thesis using ok by (auto simp: store_ok_def list_all_iff)
qed

lemma store_invariant_witness:
  "\<exists>db. fr_id ` set (db_fragments db) = {u ''f1''}
     \<and> store_ok (noop_provider wit_sha) db \<and> list_all (\<lambda>r. decode_fragment (noop_provider wit_sha) r
      = (r\<lparr>fr_content := the (pv_decrypt (noop_provider wit_sha) (fr_content r))\<rparr>, False)) (db_fragments db)"
proof -
  have strip: "py_strip (fr_content wit_fragment) = fr_content wit_fragment"
    by (rule py_strip_clean) (simp_all add: wit_fragment_def py_isspace_def)
  have v: "fragment_validated wit_fragment = Inr wit_fragment"
    unfolding fragment_validated_def strip by (simp add: wit_fragment_def)
  have "\<exists>db g. store_row (noop_provider wit_sha) empty_db wit_fragment = Inr (db, g)"
    by (auto simp: store_row_foreign foreign_def empty_db_def tbl_get_def)
  then obtain db g where s: "store_row (noop_provider wit_sha) empty_db wit_fragment = Inr (db, g)"
    by blast
  have "store_reachable (noop_provider wit_sha) db"
    by (rule reachable_step[OF reachable_empty step_store[OF v s]])
  note inv = store_invariant[OF noop.provider_laws_axioms this]
  have "fr_id ` set (db_fragments db) = {u ''f1''}"
    using s by (auto simp: store_row_Inr_iff tbl_upsert_def empty_db_def hash_attach_def wit_fragment_def)
  with inv show ?thesis by blast
qed

end
