(* ===== verification/Kinds.thy ===== *)
theory Kinds
  imports Store_Laws
begin

text \<open>
  Memory kinds and lifecycle tags (\<^verbatim>\<open>mark/kinds.py\<close>). The label pattern is read by hand; its
  \<open>IGNORECASE\<close> also accepts a few letters outside ASCII, but a word with one of them names no
  kind, so comparing in ASCII gives the same kinds. \<open>dec\<close> is \<open>str.isdecimal\<close>, the pattern's
  digits.
\<close>

definition KINDS :: "string list" where
  "KINDS = [''decision'', ''todo'', ''bug'', ''fix'', ''preference'', ''snippet'', ''api'', ''note'']"

definition KIND_TAG_PREFIX :: string where "KIND_TAG_PREFIX = ''kind:''"
definition TAG_SUPERSEDED :: string where "TAG_SUPERSEDED = ''mark:superseded''"
definition TAG_RESOLVED :: string where "TAG_RESOLVED = ''mark:resolved''"

text \<open>\<open>normalize_kind\<close> of a text already stripped and in lower case.\<close>

definition normalize_kind :: "string option \<Rightarrow> py_error + string option" where
  "normalize_kind kind = (case kind of None \<Rightarrow> Inr None
     | Some t \<Rightarrow> if t \<in> set KINDS then Inr (Some t)
         else if t \<noteq> [] \<and> last t = CHR ''s'' \<and> butlast t \<in> set KINDS then Inr (Some (butlast t))
         else Inl ValueError)"

definition kind_tag :: "string \<Rightarrow> string" where
  "kind_tag kind = KIND_TAG_PREFIX @ kind"

definition label_kinds :: "(string \<times> string) list" where
  "label_kinds = [(''todo'', ''todo''), (''decision'', ''decision''), (''adr'', ''decision''), (''bug'', ''bug''),
     (''fix'', ''fix''), (''fixed'', ''fix''), (''done'', ''note''), (''note'', ''note''), (''api'', ''api''),
     (''snippet'', ''snippet'')]"

text \<open>The labels the pattern tries, in its order, each with the text after it.\<close>

definition adr_labels :: "(nat \<Rightarrow> bool) \<Rightarrow> ustr \<Rightarrow> (string \<times> ustr) list" where
  "adr_labels dec rest =
     (let rest1 = (case rest of [] \<Rightarrow> [] | c # cs \<Rightarrow> if c = 45 \<or> py_isspace c then cs else rest)
      in (if takeWhile dec rest1 \<noteq> [] then [(''adr'', dropWhile dec rest1)] else []) @ [(''adr'', rest)])"

definition label_candidates :: "(nat \<Rightarrow> bool) \<Rightarrow> ustr \<Rightarrow> (string \<times> ustr) list" where
  "label_candidates dec s = concat (map (\<lambda>w.
     if ascii_lower (take (length w) s) = u w
     then (if w = ''adr'' then adr_labels dec (drop (length w) s) else [(w, drop (length w) s)]) else [])
     [''todo'', ''decision'', ''adr'', ''bug'', ''fixed'', ''fix'', ''done'', ''note'', ''api'', ''snippet''])"

definition label_end :: "ustr \<Rightarrow> bool" where
  "label_end rest = (case dropWhile py_isspace rest of
       [] \<Rightarrow> False
     | c # cs \<Rightarrow> if c = 58 then True
         else c = 45 \<and> takeWhile py_isspace rest \<noteq> [] \<and> (case cs of [] \<Rightarrow> False | d # _ \<Rightarrow> py_isspace d))"

definition label_at :: "(nat \<Rightarrow> bool) \<Rightarrow> ustr \<Rightarrow> string option" where
  "label_at dec s = map_option fst (find (\<lambda>(w, rest). label_end rest) (label_candidates dec s))"

text \<open>An optional stamp of 1 to 40 characters in square brackets comes before the label.\<close>

definition after_stamp :: "ustr \<Rightarrow> ustr option" where
  "after_stamp s = (case s of [] \<Rightarrow> None
     | c # cs \<Rightarrow> let body = takeWhile (\<lambda>d. d \<noteq> 93) cs in
         if c = 91 \<and> 1 \<le> length body \<and> length body \<le> 40 \<and> length body < length cs
         then Some (dropWhile py_isspace (drop (Suc (length body)) cs)) else None)"

definition kind_from_text :: "(nat \<Rightarrow> bool) \<Rightarrow> ustr \<Rightarrow> string option" where
  "kind_from_text dec s =
     (let s1 = dropWhile py_isspace s;
          word = (case after_stamp s1 of
              Some s2 \<Rightarrow> (case label_at dec s2 of Some w \<Rightarrow> Some w | None \<Rightarrow> label_at dec s1)
            | None \<Rightarrow> label_at dec s1)
      in case word of None \<Rightarrow> None | Some w \<Rightarrow> map_of label_kinds w)"

definition has_kind_tag :: "string list \<Rightarrow> bool" where
  "has_kind_tag tags = list_ex (\<lambda>t. take (length KIND_TAG_PREFIX) t = KIND_TAG_PREFIX) tags"

fun kind_of_tags :: "string list \<Rightarrow> string option" where
  "kind_of_tags [] = None"
| "kind_of_tags (t # ts) = (if take (length KIND_TAG_PREFIX) t = KIND_TAG_PREFIX
     then Some (drop (length KIND_TAG_PREFIX) t) else kind_of_tags ts)"

definition kind_of :: "(nat \<Rightarrow> bool) \<Rightarrow> fragment \<Rightarrow> string option" where
  "kind_of dec f = (case kind_of_tags (fr_tags f) of Some k \<Rightarrow> Some k
     | None \<Rightarrow> kind_from_text dec (fr_content f))"

definition is_open :: "string list \<Rightarrow> bool" where
  "is_open tags \<longleftrightarrow> TAG_RESOLVED \<notin> set tags \<and> TAG_SUPERSEDED \<notin> set tags"

text \<open>\<open>_with_label_kind\<close> of the write path.\<close>

definition with_label_kind :: "(nat \<Rightarrow> bool) \<Rightarrow> ustr \<Rightarrow> string list option \<Rightarrow> string list option" where
  "with_label_kind dec content tags =
     (let ts = (case tags of None \<Rightarrow> [] | Some ts \<Rightarrow> ts)
      in if has_kind_tag ts then tags
         else case kind_from_text dec content of None \<Rightarrow> tags | Some k \<Rightarrow> Some (ts @ [kind_tag k]))"

lemma kind_of_tags_None: "kind_of_tags ts = None \<longleftrightarrow> \<not> has_kind_tag ts"
  by (induction ts) (auto simp: has_kind_tag_def)

lemma kind_tag_prefix [simp]:
  "take (length KIND_TAG_PREFIX) (kind_tag k) = KIND_TAG_PREFIX"
  "drop (length KIND_TAG_PREFIX) (kind_tag k) = k"
  by (simp_all add: kind_tag_def)

lemma kind_of_tag_last: "kind_of_tags (ts @ [kind_tag k]) = (case kind_of_tags ts of Some k' \<Rightarrow> Some k' | None \<Rightarrow> Some k)"
  by (induction ts) auto

lemma kind_from_text_known: "kind_from_text dec s = Some k \<Longrightarrow> k \<in> set KINDS"
  by (auto simp: kind_from_text_def Let_def label_kinds_def KINDS_def split: option.splits if_splits)

text \<open>A written memory's kind is the one its tags give, else the one its leading label names.\<close>

lemma with_label_kind_spec:
  "kind_of_tags (case with_label_kind dec content tags of None \<Rightarrow> [] | Some ts \<Rightarrow> ts)
     = (case kind_of_tags (case tags of None \<Rightarrow> [] | Some ts \<Rightarrow> ts) of Some k \<Rightarrow> Some k
        | None \<Rightarrow> kind_from_text dec content)"
  by (auto simp: with_label_kind_def Let_def kind_of_tags_None[symmetric] kind_of_tag_last split: option.splits)

lemma normalize_kind_known:
  "normalize_kind kind = Inr (Some k) \<Longrightarrow> k \<in> set KINDS"
  by (auto simp: normalize_kind_def split: option.splits if_splits)

end
