(* ===== verification/Redaction.thy ===== *)
theory Redaction
  imports Py_Text "HOL-Library.Sublist"
begin

text \<open>
  Write-time redaction: the rules of \<^verbatim>\<open>security/rules.py\<close>, the policy and engine of
  \<^verbatim>\<open>security/redaction.py\<close>, and the write policy that applies them with the injection screen
  (\<^verbatim>\<open>security/write_policy.py\<close>). A compiled pattern is the function that lists its matches in a
  text from left to right, with the spans of its named groups; the rule tables, the injection
  screen, \<open>str.lower\<close> and \<open>str.isalnum\<close> are arguments.
\<close>

section \<open>JSON-like values\<close>

datatype pyval = PyNone | PyBool bool | PyInt int | PyFloat real | PyStr ustr
  | PyList "pyval list" | PyTuple "pyval list" | PyDict "(ustr \<times> pyval) list"

type_synonym pydict = "(ustr \<times> pyval) list"

fun py_truthy :: "pyval \<Rightarrow> bool" where
  "py_truthy PyNone = False"
| "py_truthy (PyBool b) = b"
| "py_truthy (PyInt n) = (n \<noteq> 0)"
| "py_truthy (PyFloat x) = (x \<noteq> 0)"
| "py_truthy (PyStr s) = (s \<noteq> [])"
| "py_truthy (PyList xs) = (xs \<noteq> [])"
| "py_truthy (PyTuple xs) = (xs \<noteq> [])"
| "py_truthy (PyDict d) = (d \<noteq> [])"

text \<open>\<open>{**a, **b}\<close>.\<close>

definition dict_merge :: "pydict \<Rightarrow> pydict \<Rightarrow> pydict" where
  "dict_merge a b = fold (\<lambda>(k, v) d. AList.update k v d) b a"

section \<open>Rules\<close>

record rx_match =
  rm_start :: nat
  rm_end :: nat
  rm_groups :: "(string \<times> nat \<times> nat) list"

text \<open>A validator's verdict: \<open>False\<close>, \<open>True\<close>, or the number of characters to redact.\<close>

datatype verdict = Keep | Redact | RedactFirst int

record rule =
  ru_kind :: ustr
  ru_find :: "ustr \<Rightarrow> rx_match list"
  ru_placeholder :: ustr
  ru_validate :: "(ustr \<Rightarrow> rx_match \<Rightarrow> verdict) option"
  ru_kind_of :: "(ustr \<Rightarrow> rx_match \<Rightarrow> ustr) option"
  ru_hint :: "ustr list"
  ru_prefilter :: "(ustr \<Rightarrow> bool) option"
  ru_word_start :: bool

definition secret_placeholder :: "ustr \<Rightarrow> ustr" where
  "secret_placeholder kind = u ''[SECRET:'' @ kind @ u '']''"

definition value_groups :: "string list" where "value_groups = [''v'', ''vq'', ''vs'']"

text \<open>\<open>s[a:b]\<close> for \<open>0 \<le> a \<le> b\<close>, and \<open>s[n:]\<close> for any \<open>n\<close>.\<close>

definition span :: "ustr \<Rightarrow> nat \<Rightarrow> nat \<Rightarrow> ustr" where
  "span s a b = take (b - a) (drop a s)"

definition slice_from :: "ustr \<Rightarrow> int \<Rightarrow> ustr" where
  "slice_from s n = drop (nat (if n < 0 then max 0 (int (length s) + n) else n)) s"

text \<open>\<open>_replace\<close>: the text that replaces the match, and the kinds found so far.\<close>

definition rule_replace :: "(nat \<Rightarrow> bool) \<Rightarrow> rule \<Rightarrow> ustr \<Rightarrow> rx_match \<Rightarrow> ustr list \<Rightarrow> ustr \<times> ustr list" where
  "rule_replace alnum r text m found =
     (let whole = span text (rm_start m) (rm_end m);
          before = text ! (rm_start m - 1)
      in if ru_word_start r \<and> rm_start m \<noteq> 0 \<and> (alnum before \<or> before = 95) then (whole, found)
         else let v = (case ru_validate r of None \<Rightarrow> Redact | Some f \<Rightarrow> f text m)
           in if v = Keep then (whole, found)
              else let kind = (case ru_kind_of r of None \<Rightarrow> ru_kind r | Some f \<Rightarrow> f text m);
                       token = (if ru_placeholder r \<noteq> [] then ru_placeholder r else secret_placeholder kind);
                       found' = found @ [kind]
                in case v of RedactFirst n \<Rightarrow> (token @ slice_from whole n, found')
                   | _ \<Rightarrow> (case List.map_filter (map_of (rm_groups m)) value_groups of
                        (a, b) # _ \<Rightarrow> (take (a - rm_start m) whole @ token @ drop (b - rm_start m) whole, found')
                      | [] \<Rightarrow> (token, found')))"

text \<open>\<open>pattern.sub(f, text)\<close>, from a position.\<close>

fun rule_sub :: "(nat \<Rightarrow> bool) \<Rightarrow> rule \<Rightarrow> ustr \<Rightarrow> nat \<Rightarrow> rx_match list \<Rightarrow> ustr list \<Rightarrow> ustr \<times> ustr list" where
  "rule_sub alnum r text pos [] found = (drop pos text, found)"
| "rule_sub alnum r text pos (m # ms) found =
     (let (rep, found1) = rule_replace alnum r text m found;
          (rest, found2) = rule_sub alnum r text (rm_end m) ms found1
      in (span text pos (rm_start m) @ rep @ rest, found2))"

definition rule_run :: "(nat \<Rightarrow> bool) \<Rightarrow> rule \<Rightarrow> ustr \<Rightarrow> ustr list \<Rightarrow> ustr \<times> ustr list" where
  "rule_run alnum r text found =
     (if (case ru_prefilter r of None \<Rightarrow> False | Some p \<Rightarrow> \<not> p text) then (text, found)
      else rule_sub alnum r text 0 (ru_find r text) found)"

text \<open>\<open>apply\<close> checks the rule's own hints first.\<close>

definition rule_apply ::
  "(ustr \<Rightarrow> ustr) \<Rightarrow> (nat \<Rightarrow> bool) \<Rightarrow> rule \<Rightarrow> ustr \<Rightarrow> ustr list \<Rightarrow> ustr option \<Rightarrow> ustr \<times> ustr list" where
  "rule_apply lower alnum r text found lowered =
     (if ru_hint r \<noteq> [] \<and> \<not> list_ex (\<lambda>h. sublist h (case lowered of Some l \<Rightarrow> l | None \<Rightarrow> lower text)) (ru_hint r)
      then (text, found) else rule_run alnum r text found)"

section \<open>Policies and the engine\<close>

record redaction_policy =
  rp_secrets :: bool
  rp_pii :: bool
  rp_emails :: "bool option"
  rp_phones :: "bool option"
  rp_extra :: "rule list"

definition default_redaction :: redaction_policy where
  "default_redaction = \<lparr>rp_secrets = True, rp_pii = False, rp_emails = None, rp_phones = None, rp_extra = []\<rparr>"

text \<open>The rule tables of \<open>secret_rules*.py\<close> and \<open>pii_rules.py\<close>.\<close>

record rule_tables =
  rt_secrets :: "rule list"
  rt_email :: rule
  rt_other_pii :: "rule list"
  rt_phones :: "rule list"

definition policy_rules :: "rule_tables \<Rightarrow> redaction_policy \<Rightarrow> rule list" where
  "policy_rules tb p =
     (if rp_secrets p then rt_secrets tb else [])
     @ rp_extra p
     @ (if (case rp_emails p of Some b \<Rightarrow> b | None \<Rightarrow> rp_pii p) then [rt_email tb] else [])
     @ (if rp_pii p then rt_other_pii tb else [])
     @ (if (case rp_phones p of Some b \<Rightarrow> b | None \<Rightarrow> rp_pii p) then rt_phones tb else [])"

text \<open>What the engine needs from its surroundings.\<close>

record redact_env =
  re_lower :: "ustr \<Rightarrow> ustr"
  re_alnum :: "nat \<Rightarrow> bool"
  re_tables :: rule_tables

definition redact_rules :: "redact_env \<Rightarrow> rule list \<Rightarrow> ustr \<Rightarrow> ustr \<times> ustr list" where
  "redact_rules E rules text =
     (let lowered = re_lower E text;
          present = filter (\<lambda>h. sublist h lowered) (concat (map ru_hint rules))
      in fold (\<lambda>r (out, found).
           if ru_hint r \<noteq> [] \<and> set present \<inter> set (ru_hint r) = {} then (out, found)
           else rule_run (re_alnum E) r out found) rules (text, []))"

text \<open>\<open>redact\<close>: the text and the sorted kinds without duplicates.\<close>

definition redact :: "redact_env \<Rightarrow> redaction_policy \<Rightarrow> ustr \<Rightarrow> ustr \<times> ustr list" where
  "redact E p text =
     (if text = [] then ([], [])
      else let (out, found) = redact_rules E (policy_rules (re_tables E) p) text
           in (out, sort (remdups found)))"

definition redact_text :: "redact_env \<Rightarrow> bool \<Rightarrow> bool \<Rightarrow> ustr \<Rightarrow> ustr" where
  "redact_text E emails pii text =
     fst (redact E (default_redaction\<lparr>rp_pii := pii, rp_emails := Some emails\<rparr>) text)"

definition contains_sensitive :: "redact_env \<Rightarrow> bool \<Rightarrow> bool \<Rightarrow> ustr \<Rightarrow> bool" where
  "contains_sensitive E emails pii text \<longleftrightarrow> redact_text E emails pii text \<noteq> text"

definition redact_secrets :: "redact_env \<Rightarrow> ustr \<Rightarrow> ustr" where
  "redact_secrets E text = redact_text E True False text"

section \<open>Sync payloads\<close>

definition REDACTED :: ustr where "REDACTED = u ''[REDACTED]''"

fun redact_whole :: "pyval \<Rightarrow> pyval" where
  "redact_whole (PyDict d) = PyDict (map (\<lambda>(k, v). (k, redact_whole v)) d)"
| "redact_whole (PyList xs) = PyList (map redact_whole xs)"
| "redact_whole (PyTuple xs) = PyList (map redact_whole xs)"
| "redact_whole PyNone = PyNone"
| "redact_whole (PyBool b) = PyBool b"
| "redact_whole v = PyStr REDACTED"

text \<open>\<open>is_sensitive_key\<close> from its two patterns.\<close>

definition is_sensitive_key :: "(ustr \<Rightarrow> bool) \<Rightarrow> (ustr \<Rightarrow> bool) \<Rightarrow> ustr \<Rightarrow> bool" where
  "is_sensitive_key sensitive benign k \<longleftrightarrow> sensitive k \<and> \<not> benign k"

fun redact_sync_value :: "(ustr \<Rightarrow> ustr) \<Rightarrow> (ustr \<Rightarrow> bool) \<Rightarrow> pyval \<Rightarrow> pyval" where
  "redact_sync_value red secret (PyStr s) = PyStr (red s)"
| "redact_sync_value red secret (PyDict d) = PyDict (fold (\<lambda>(k, v) out. AList.update (red k) v out)
     (map (\<lambda>(k, v). (k, if secret k \<and> v \<noteq> PyNone \<and> \<not> (case v of PyBool b \<Rightarrow> True | _ \<Rightarrow> False)
        then redact_whole v else redact_sync_value red secret v)) d) [])"
| "redact_sync_value red secret (PyTuple xs) = PyTuple (map (redact_sync_value red secret) xs)"
| "redact_sync_value red secret (PyList xs) = PyList (map (redact_sync_value red secret) xs)"
| "redact_sync_value red secret v = v"

section \<open>The write policy\<close>

datatype injection_mode = InjectTag | InjectQuarantine | InjectOff

record write_policy =
  wp_redaction :: "redaction_policy option"
  wp_injection :: injection_mode

definition default_write_policy :: write_policy where
  "default_write_policy = \<lparr>wp_redaction = Some default_redaction, wp_injection = InjectTag\<rparr>"

text \<open>\<open>_redact_metadata\<close>: every string value, at any depth; keys stay.\<close>

fun redact_walk :: "(ustr \<Rightarrow> ustr \<times> ustr list) \<Rightarrow> pyval \<Rightarrow> pyval \<times> ustr list" where
  "redact_walk red (PyStr s) = (let (t, ks) = red s in (PyStr t, ks))"
| "redact_walk red (PyDict d) = (let rs = map (\<lambda>(k, v). (k, redact_walk red v)) d
     in (PyDict (map (\<lambda>(k, r). (k, fst r)) rs), concat (map (\<lambda>(k, r). snd r) rs)))"
| "redact_walk red (PyList xs) = (let rs = map (redact_walk red) xs
     in (PyList (map fst rs), concat (map snd rs)))"
| "redact_walk red (PyTuple xs) = (let rs = map (redact_walk red) xs
     in (PyTuple (map fst rs), concat (map snd rs)))"
| "redact_walk red v = (v, [])"

text \<open>The metadata after redaction, and the kinds found in the content and in it.\<close>

definition redacted_write ::
  "redact_env \<Rightarrow> redaction_policy option \<Rightarrow> ustr \<Rightarrow> pydict option \<Rightarrow> ustr \<times> pydict option \<times> ustr list" where
  "redacted_write E rpo content meta = (case rpo of None \<Rightarrow> (content, meta, [])
     | Some rp \<Rightarrow> (let (text, ks) = redact E rp content
               in case meta of
                    None \<Rightarrow> (text, None, ks)
                  | Some d \<Rightarrow> if d = [] then (text, meta, ks)
                      else (case redact_walk (redact E rp) (PyDict d) of
                          (PyDict d', ks') \<Rightarrow> (text, Some d', ks @ ks')
                        | (v, ks') \<Rightarrow> (text, Some d, ks @ ks'))))"

record write_decision =
  wd_content :: ustr
  wd_meta :: "pydict option"
  wd_tags :: "string list option"
  wd_quarantine :: bool
  wd_reason :: ustr

definition UNTRUSTED_TAG :: string where "UNTRUSTED_TAG = ''mark:untrusted''"

text \<open>\<open>dict(x or {})\<close>: a sequence must hold pairs. Dictionaries have text keys, so a pair with
  another key is refused here like any other element.\<close>

fun dict_pair :: "pyval \<Rightarrow> (ustr \<times> pyval) option" where
  "dict_pair (PyList [PyStr k, v]) = Some (k, v)"
| "dict_pair (PyTuple [PyStr k, v]) = Some (k, v)"
| "dict_pair (PyStr [a, b]) = Some ([a], PyStr [b])"
| "dict_pair v = None"

definition dict_of_pairs :: "pyval list \<Rightarrow> py_error + pydict" where
  "dict_of_pairs xs = (if list_ex (\<lambda>x. dict_pair x = None) xs then Inl ValueError
     else Inr (dict_merge [] (List.map_filter dict_pair xs)))"

definition py_dict_or_empty :: "pyval option \<Rightarrow> py_error + pydict" where
  "py_dict_or_empty x = (case x of None \<Rightarrow> Inr [] | Some v \<Rightarrow>
     if \<not> py_truthy v then Inr []
     else (case v of PyDict d \<Rightarrow> Inr d | PyList xs \<Rightarrow> dict_of_pairs xs | PyTuple xs \<Rightarrow> dict_of_pairs xs
       | PyStr s \<Rightarrow> Inl ValueError | _ \<Rightarrow> Inl TypeError))"

definition SECURITY_KEY :: ustr where "SECURITY_KEY = u ''mark_security''"

definition text_values :: "ustr list \<Rightarrow> pyval" where
  "text_values xs = PyList (map PyStr xs)"

text \<open>\<open>apply\<close>; \<open>screen\<close> gives the injection reasons of a text, none when it is not flagged.\<close>

definition write_policy_apply ::
  "redact_env \<Rightarrow> (ustr \<Rightarrow> ustr list) \<Rightarrow> write_policy \<Rightarrow> ustr \<Rightarrow> pydict option \<Rightarrow> string list option
    \<Rightarrow> py_error + write_decision" where
  "write_policy_apply E screen wp content meta tags =
     (let (content1, meta1, kinds) = redacted_write E (wp_redaction wp) content meta;
          f1 = (if kinds \<noteq> [] then [(u ''redacted'', text_values (sort (remdups kinds)))] else []);
          reasons = (if wp_injection wp = InjectOff then [] else screen content1);
          flagged = (reasons \<noteq> []);
          strict = (flagged \<and> wp_injection wp = InjectQuarantine);
          f2 = (if flagged then [(u ''untrusted'', PyBool True), (u ''injection'', text_values reasons)] else []);
          f3 = (if strict then [(u ''quarantined'', PyBool True)] else []);
          old_tags = (case tags of None \<Rightarrow> [] | Some ts \<Rightarrow> ts);
          tags1 = (if flagged \<and> UNTRUSTED_TAG \<notin> set old_tags then Some (old_tags @ [UNTRUSTED_TAG]) else tags);
          reason = (if strict then u ''prompt injection: '' @ py_join (u '', '') reasons else []);
          findings = f1 @ f2 @ f3;
          old_meta = (case meta1 of None \<Rightarrow> [] | Some d \<Rightarrow> d)
      in if findings = [] then Inr \<lparr>wd_content = content1, wd_meta = meta1, wd_tags = tags1,
             wd_quarantine = strict, wd_reason = reason\<rparr>
         else bind_res (py_dict_or_empty (map_of old_meta SECURITY_KEY)) (\<lambda>previous.
           Inr \<lparr>wd_content = content1,
              wd_meta = Some (AList.update SECURITY_KEY (PyDict (dict_merge previous findings)) old_meta),
              wd_tags = tags1, wd_quarantine = strict, wd_reason = reason\<rparr>))"

definition policy_redact_text :: "redact_env \<Rightarrow> write_policy \<Rightarrow> ustr \<Rightarrow> ustr \<times> ustr list" where
  "policy_redact_text E wp text =
     (case wp_redaction wp of None \<Rightarrow> (text, []) | Some rp \<Rightarrow> if text = [] then (text, []) else redact E rp text)"

text \<open>The public \<open>redact=\<close> and \<open>injection=\<close> options.\<close>

datatype redact_option = OptNone | OptBool bool | OptRedaction redaction_policy | OptPolicy write_policy | OptOther

definition resolve_write_policy :: "redact_option \<Rightarrow> injection_mode \<Rightarrow> py_error + write_policy" where
  "resolve_write_policy opt mode = (case opt of
       OptPolicy wp \<Rightarrow> Inr wp
     | OptRedaction rp \<Rightarrow> Inr \<lparr>wp_redaction = Some rp, wp_injection = mode\<rparr>
     | OptNone \<Rightarrow> Inr \<lparr>wp_redaction = Some default_redaction, wp_injection = mode\<rparr>
     | OptBool True \<Rightarrow> Inr \<lparr>wp_redaction = Some default_redaction, wp_injection = mode\<rparr>
     | OptBool False \<Rightarrow> Inr \<lparr>wp_redaction = None, wp_injection = mode\<rparr>
     | OptOther \<Rightarrow> Inl TypeError)"

section \<open>Clean text is stored as given\<close>

text \<open>What \<open>re\<close> promises of \<open>finditer\<close>: matches from left to right that do not overlap.\<close>

fun rx_ok :: "nat \<Rightarrow> nat \<Rightarrow> rx_match list \<Rightarrow> bool" where
  "rx_ok n pos [] \<longleftrightarrow> pos \<le> n"
| "rx_ok n pos (m # ms) \<longleftrightarrow> pos \<le> rm_start m \<and> rm_start m \<le> rm_end m \<and> rx_ok n (rm_end m) ms"

definition rule_ok :: "rule \<Rightarrow> bool" where
  "rule_ok r \<longleftrightarrow> (\<forall>t. rx_ok (length t) 0 (ru_find r t))"

definition tables_ok :: "rule_tables \<Rightarrow> redaction_policy \<Rightarrow> bool" where
  "tables_ok tb p \<longleftrightarrow> list_all rule_ok (policy_rules tb p)"

lemma rx_ok_le: "rx_ok n pos ms \<Longrightarrow> pos \<le> n"
  by (induction ms arbitrary: pos) fastforce+

lemma span_append: "a \<le> b \<Longrightarrow> b \<le> c \<Longrightarrow> span s a b @ span s b c = span s a c"
proof -
  assume le: "a \<le> b" "b \<le> c"
  have "take (b - a) (drop a s) @ take (c - b) (drop (b - a) (drop a s)) = take ((b - a) + (c - b)) (drop a s)"
    by (rule take_add[symmetric])
  then show ?thesis using le by (simp add: span_def)
qed

lemma span_drop: "a \<le> b \<Longrightarrow> span s a b @ drop b s = drop a s"
  using append_take_drop_id[of "b - a" "drop a s"] by (simp add: span_def)

lemma rule_replace_found:
  "rule_replace alnum r tx m found = (rep, found') \<Longrightarrow>
     (\<exists>ks. found' = found @ ks) \<and> (found' = found \<longrightarrow> rep = span tx (rm_start m) (rm_end m))"
  by (auto simp: rule_replace_def Let_def split: if_splits option.splits verdict.splits list.splits)

lemma rule_sub_found:
  assumes "rule_sub alnum r tx pos ms found = (out, found')"
  shows "\<exists>ks. found' = found @ ks"
  using assms
proof (induction alnum r tx pos ms found arbitrary: out found' rule: rule_sub.induct)
  case (2 alnum r tx pos m ms found)
  obtain rep f1 rest f2 where s: "rule_replace alnum r tx m found = (rep, f1)"
    "rule_sub alnum r tx (rm_end m) ms f1 = (rest, f2)" by (metis surj_pair)
  then show ?case
    using 2(2) 2(1)[OF s(1)[symmetric] refl s(2)] rule_replace_found[OF s(1)] by auto
qed simp

lemma rule_sub_same:
  assumes "rule_sub alnum r tx pos ms found = (out, found)" "rx_ok (length tx) pos ms"
  shows "out = drop pos tx"
  using assms
proof (induction ms arbitrary: pos out)
  case (Cons m ms)
  obtain rep f1 rest f2 where s: "rule_replace alnum r tx m found = (rep, f1)"
    "rule_sub alnum r tx (rm_end m) ms f1 = (rest, f2)" by (metis surj_pair)
  have "f2 = found" "out = span tx pos (rm_start m) @ rep @ rest" using Cons.prems(1) s by simp_all
  moreover obtain ks ks' where "f1 = found @ ks" "f2 = f1 @ ks'"
    using rule_replace_found[OF s(1)] rule_sub_found[OF s(2)] by blast
  ultimately have f: "f1 = found" "f2 = found" by simp_all
  have "rest = drop (rm_end m) tx"
    using Cons.IH[of "rm_end m" rest] s(2) Cons.prems(2) f by simp
  moreover have "rep = span tx (rm_start m) (rm_end m)" using rule_replace_found[OF s(1)] f by simp
  ultimately show ?case
    using \<open>out = _\<close> Cons.prems(2) by (simp add: span_drop)
qed simp

lemma rule_run_same:
  assumes "rule_run alnum r tx found = (out, found')" "rule_ok r"
  shows "(\<exists>ks. found' = found @ ks) \<and> (found' = found \<longrightarrow> out = tx)"
  using assms rule_sub_found[of alnum r tx 0 "ru_find r tx" found out found']
    rule_sub_same[of alnum r tx 0 "ru_find r tx" found out]
  by (auto simp: rule_run_def rule_ok_def split: if_splits)

lemma redact_fold_same:
  assumes "fold (\<lambda>r (out, found). if skip r then (out, found) else rule_run al r out found) rules (t, f) = (t', f')"
    "list_all rule_ok rules"
  shows "(\<exists>ks. f' = f @ ks) \<and> (f' = f \<longrightarrow> t' = t)"
  using assms
proof (induction rules arbitrary: t f)
  case (Cons r rules)
  obtain t1 f1 where s: "(if skip r then (t, f) else rule_run al r t f) = (t1, f1)" by (metis surj_pair)
  have one: "(\<exists>ks. f1 = f @ ks) \<and> (f1 = f \<longrightarrow> t1 = t)"
    using s rule_run_same[of al r t f t1 f1] Cons.prems(2) by (auto split: if_splits)
  have rest: "(\<exists>ks. f' = f1 @ ks) \<and> (f' = f1 \<longrightarrow> t' = t1)"
    by (rule Cons.IH) (use Cons.prems s in simp_all)
  then show ?case using one by auto
qed simp

lemma redact_same:
  assumes "redact E p tx = (out, [])" "tables_ok (re_tables E) p"
  shows "out = tx"
proof (cases "tx = []")
  case False
  obtain t f where s: "redact_rules E (policy_rules (re_tables E) p) tx = (t, f)" by (metis surj_pair)
  then have "out = t" "f = []" using assms(1) False by (simp_all add: redact_def)
  then show ?thesis
    using redact_fold_same[OF s[unfolded redact_rules_def Let_def]] assms(2) by (simp add: tables_ok_def)
qed (use assms in \<open>simp add: redact_def\<close>)

lemma redact_walk_same:
  assumes "\<And>s. snd (red s) = [] \<Longrightarrow> fst (red s) = s"
  shows "snd (redact_walk red v) = [] \<Longrightarrow> fst (redact_walk red v) = v"
proof (induction v)
  case (PyStr s)
  then show ?case using assms[of s] by (cases "red s") simp
next
  case (PyList xs)
  then have "\<forall>x\<in>set xs. fst (redact_walk red x) = x" by (simp add: Let_def)
  then show ?case by (simp add: Let_def map_idI)
next
  case (PyTuple xs)
  then have "\<forall>x\<in>set xs. fst (redact_walk red x) = x" by (simp add: Let_def)
  then show ?case by (simp add: Let_def map_idI)
next
  case (PyDict d)
  have "fst (redact_walk red (snd kv)) = snd kv" if "kv \<in> set d" for kv
  proof (rule PyDict.IH)
    show "kv \<in> set d" by fact
    show "snd kv \<in> Basic_BNFs.snds kv" by (cases kv) simp
    show "snd (redact_walk red (snd kv)) = []"
      using PyDict.prems that by (auto simp: Let_def split_def)
  qed
  then show ?case by (auto simp: Let_def split_def intro!: map_idI)
qed simp_all

lemma redacted_write_same:
  assumes "redacted_write E rpo content meta = (content1, meta1, [])"
    "case rpo of None \<Rightarrow> True | Some rp \<Rightarrow> tables_ok (re_tables E) rp"
  shows "content1 = content \<and> meta1 = meta"
proof (cases rpo)
  case (Some rp)
  have same: "snd (redact E rp s) = [] \<Longrightarrow> fst (redact E rp s) = s" for s
    using redact_same[of E rp s "fst (redact E rp s)"] assms(2) Some by (cases "redact E rp s") simp
  obtain tx ks where r: "redact E rp content = (tx, ks)" by (metis surj_pair)
  show ?thesis
  proof (cases "meta = None \<or> meta = Some []")
    case True
    then show ?thesis using assms(1) Some r same[of content] by (auto simp: redacted_write_def)
  next
    case False
    then obtain d where d: "meta = Some d" "d \<noteq> []" by auto
    obtain d' ks' where w: "redact_walk (redact E rp) (PyDict d) = (PyDict d', ks')"
      by (simp add: Let_def)
    then have "ks = []" "ks' = []" "content1 = tx" "meta1 = Some d'"
      using assms(1) Some r d by (simp_all add: redacted_write_def)
    then show ?thesis
      using redact_walk_same[OF same, of "PyDict d"] w r same[of content] d by simp
  qed
qed (use assms in \<open>simp add: redacted_write_def\<close>)

text \<open>What the policy records under \<open>mark_security\<close>.\<close>

definition write_findings ::
  "redact_env \<Rightarrow> (ustr \<Rightarrow> ustr list) \<Rightarrow> write_policy \<Rightarrow> ustr \<Rightarrow> pydict option \<Rightarrow> pydict" where
  "write_findings E screen wp content meta =
     (let (content1, meta1, kinds) = redacted_write E (wp_redaction wp) content meta;
          reasons = (if wp_injection wp = InjectOff then [] else screen content1)
      in (if kinds \<noteq> [] then [(u ''redacted'', text_values (sort (remdups kinds)))] else [])
         @ (if reasons \<noteq> [] then [(u ''untrusted'', PyBool True), (u ''injection'', text_values reasons)] else [])
         @ (if reasons \<noteq> [] \<and> wp_injection wp = InjectQuarantine then [(u ''quarantined'', PyBool True)] else []))"

definition policy_ok :: "redact_env \<Rightarrow> write_policy \<Rightarrow> bool" where
  "policy_ok E wp \<longleftrightarrow> (case wp_redaction wp of None \<Rightarrow> True | Some rp \<Rightarrow> tables_ok (re_tables E) rp)"

lemma map_of_dict_merge:
  "distinct (map fst b) \<Longrightarrow> map_of (dict_merge a b) k = (case map_of b k of Some v \<Rightarrow> Some v | None \<Rightarrow> map_of a k)"
  unfolding dict_merge_def
proof (induction b arbitrary: a)
  case (Cons kv b)
  obtain k' v where kv: "kv = (k', v)" by (cases kv)
  have "map_of b k = None" if "k = k'"
    using that Cons.prems kv by (auto simp: map_of_eq_None_iff)
  then show ?case
    using Cons.IH[of "AList.update k' v a"] Cons.prems kv
    by (cases "k = k'") (simp_all add: update_conv' del: map_of_eq_Some_iff split: option.split)
qed simp

lemma u_inject [simp]: "u a = u b \<longleftrightarrow> a = b"
  by (induction a arbitrary: b; case_tac b) (auto simp: u_def)

text \<open>The write policy either changes nothing or says what it did. When it finds no secret
  and no instruction-like text, the content, metadata and tags are stored exactly as given;
  otherwise every finding is recorded under \<open>mark_security\<close>, and a text the screen flags carries
  the untrusted tag. Only a flagged text in quarantine mode is quarantined.\<close>

theorem write_policy_transparent:
  assumes "policy_ok E wp" "write_policy_apply E screen wp content meta tags = Inr d"
  defines "findings \<equiv> write_findings E screen wp content meta"
  shows "if findings = [] then d = \<lparr>wd_content = content, wd_meta = meta, wd_tags = tags,
           wd_quarantine = False, wd_reason = []\<rparr>
     else (\<exists>m sec. wd_meta d = Some m \<and> map_of m SECURITY_KEY = Some (PyDict sec)
         \<and> list_all (\<lambda>(k, v). map_of sec k = Some v) findings)
       \<and> (if map_of findings (u ''untrusted'') = None then \<not> wd_quarantine d
          else UNTRUSTED_TAG \<in> set (the (wd_tags d)))"
proof -
  obtain content1 meta1 kinds where r: "redacted_write E (wp_redaction wp) content meta = (content1, meta1, kinds)"
    by (metis surj_pair)
  define reasons where "reasons = (if wp_injection wp = InjectOff then [] else screen content1)"
  have f: "findings = (if kinds \<noteq> [] then [(u ''redacted'', text_values (sort (remdups kinds)))] else [])
         @ (if reasons \<noteq> [] then [(u ''untrusted'', PyBool True), (u ''injection'', text_values reasons)] else [])
         @ (if reasons \<noteq> [] \<and> wp_injection wp = InjectQuarantine then [(u ''quarantined'', PyBool True)] else [])"
    by (simp add: findings_def write_findings_def r reasons_def Let_def)
  have dist: "distinct (map fst findings)" unfolding f by (auto simp del: u_simps)
  have app: "write_policy_apply E screen wp content meta tags =
     (let strict = (reasons \<noteq> [] \<and> wp_injection wp = InjectQuarantine);
          old_tags = (case tags of None \<Rightarrow> [] | Some ts \<Rightarrow> ts);
          tags1 = (if reasons \<noteq> [] \<and> UNTRUSTED_TAG \<notin> set old_tags then Some (old_tags @ [UNTRUSTED_TAG]) else tags);
          reason = (if strict then u ''prompt injection: '' @ py_join (u '', '') reasons else []);
          old_meta = (case meta1 of None \<Rightarrow> [] | Some d \<Rightarrow> d)
      in if findings = [] then Inr \<lparr>wd_content = content1, wd_meta = meta1, wd_tags = tags1,
             wd_quarantine = strict, wd_reason = reason\<rparr>
      else bind_res (py_dict_or_empty (map_of old_meta SECURITY_KEY)) (\<lambda>previous.
           Inr \<lparr>wd_content = content1,
              wd_meta = Some (AList.update SECURITY_KEY (PyDict (dict_merge previous findings)) old_meta),
              wd_tags = tags1, wd_quarantine = strict, wd_reason = reason\<rparr>))"
    unfolding write_policy_apply_def r prod.case Let_def reasons_def[symmetric] f ..
  show ?thesis
  proof (cases "findings = []")
    case True
    then have k: "kinds = []" "reasons = []" by (auto simp: f split: if_splits)
    have "content1 = content \<and> meta1 = meta"
      using redacted_write_same[of E "wp_redaction wp" content meta content1 meta1] r k(1) assms(1)
      by (simp add: policy_ok_def)
    then show ?thesis
      using assms(2) True k(2) unfolding app by simp
  next
    case False
    define old where "old = (case meta1 of None \<Rightarrow> [] | Some d \<Rightarrow> d)"
    obtain prev where prev: "py_dict_or_empty (map_of old SECURITY_KEY) = Inr prev"
      "wd_meta d = Some (AList.update SECURITY_KEY (PyDict (dict_merge prev findings)) old)"
      and t: "wd_tags d = (if reasons \<noteq> [] \<and> UNTRUSTED_TAG \<notin> set (case tags of None \<Rightarrow> [] | Some ts \<Rightarrow> ts)
          then Some ((case tags of None \<Rightarrow> [] | Some ts \<Rightarrow> ts) @ [UNTRUSTED_TAG]) else tags)"
        "wd_quarantine d = (reasons \<noteq> [] \<and> wp_injection wp = InjectQuarantine)"
      using assms(2) False unfolding app old_def by (auto simp: bind_res_Inr_iff Let_def)
    have "list_all (\<lambda>(k, v). map_of (dict_merge prev findings) k = Some v) findings"
      using dist by (auto simp: list_all_iff map_of_dict_merge split: option.split)
    moreover have "map_of findings (u ''untrusted'') = None \<longleftrightarrow> reasons = []"
      unfolding f by (auto simp del: u_simps)
    ultimately show ?thesis
      using False prev(2) t by (auto simp: update_conv' split: option.splits)
  qed
qed

definition wit_rule :: rule where
  "wit_rule = \<lparr>ru_kind = u ''api_key'', ru_find = (\<lambda>t. if take 3 t = u ''sk-''
       then [\<lparr>rm_start = 0, rm_end = length t, rm_groups = []\<rparr>] else []), ru_placeholder = [],
     ru_validate = None, ru_kind_of = None, ru_hint = [u ''sk-''], ru_prefilter = None, ru_word_start = True\<rparr>"

definition wit_redact_env :: redact_env where
  "wit_redact_env = \<lparr>re_lower = (\<lambda>t. t), re_alnum = (\<lambda>c. 48 \<le> c \<and> c \<le> 57),
     re_tables = \<lparr>rt_secrets = [wit_rule], rt_email = wit_rule, rt_other_pii = [], rt_phones = []\<rparr>\<rparr>"

lemma wit_policy_ok: "policy_ok wit_redact_env default_write_policy"
proof -
  have "rule_ok wit_rule" unfolding rule_ok_def wit_rule_def by simp
  then show ?thesis
    by (simp add: policy_ok_def default_write_policy_def tables_ok_def default_redaction_def policy_rules_def
        wit_redact_env_def)
qed

lemma wit_redact:
  "redact wit_redact_env default_redaction (u ''sk-1'') = (u ''[SECRET:api_key]'', [u ''api_key''])"
proof -
  have "sublist (u ''sk-'') (u ''sk-1'')" unfolding sublist_def u_def by (intro exI[of _ "[]"] exI) simp
  then show ?thesis
    by (simp add: redact_def redact_rules_def default_redaction_def policy_rules_def wit_redact_env_def wit_rule_def
        rule_run_def rule_replace_def span_def Let_def value_groups_def secret_placeholder_def
        List.map_filter_def)
qed

lemma write_policy_transparent_witness:
  "\<exists>d sec. write_policy_apply wit_redact_env (\<lambda>t. []) default_write_policy (u ''sk-1'') None None = Inr d
     \<and> wd_content d = u ''[SECRET:api_key]'' \<and> wd_meta d = Some [(SECURITY_KEY, PyDict sec)]
     \<and> map_of sec (u ''redacted'') = Some (text_values [u ''api_key''])"
proof -
  have f: "write_findings wit_redact_env (\<lambda>t. []) default_write_policy (u ''sk-1'') None
      = [(u ''redacted'', text_values [u ''api_key''])]"
    by (simp add: write_findings_def redacted_write_def default_write_policy_def wit_redact Let_def del: u_simps)
  have a: "write_policy_apply wit_redact_env (\<lambda>t. []) default_write_policy (u ''sk-1'') None None
      = Inr \<lparr>wd_content = u ''[SECRET:api_key]'',
          wd_meta = Some [(SECURITY_KEY, PyDict [(u ''redacted'', text_values [u ''api_key''])])],
          wd_tags = None, wd_quarantine = False, wd_reason = []\<rparr>"
    by (simp add: write_policy_apply_def redacted_write_def default_write_policy_def wit_redact Let_def
        py_dict_or_empty_def dict_merge_def del: u_simps)
  show ?thesis
    using write_policy_transparent[OF wit_policy_ok a] a unfolding f by (auto simp: SECURITY_KEY_def simp del: u_simps)
qed

section \<open>Sync payloads leak no secret\<close>

text \<open>The texts and numbers left anywhere in a value.\<close>

fun py_leaves :: "pyval \<Rightarrow> pyval list" where
  "py_leaves (PyDict d) = concat (map (\<lambda>(k, v). py_leaves v) d)"
| "py_leaves (PyList xs) = concat (map py_leaves xs)"
| "py_leaves (PyTuple xs) = concat (map py_leaves xs)"
| "py_leaves v = [v]"

definition blank_leaf :: "pyval \<Rightarrow> bool" where
  "blank_leaf v \<longleftrightarrow> v = PyNone \<or> v = PyBool True \<or> v = PyBool False \<or> v = PyStr REDACTED"

text \<open>Values under sensitive keys keep no text and no number, at any depth.\<close>

lemma redact_whole_blank: "list_all blank_leaf (py_leaves (redact_whole v))"
proof (induction v rule: redact_whole.induct)
  case (1 d)
  then show ?case by (fastforce simp: list_all_iff split_def)
qed (auto simp: list_all_iff blank_leaf_def)

text \<open>A sync payload is clean when every text in it is a redacted text or the placeholder.\<close>

definition clean_leaf :: "(ustr \<Rightarrow> ustr) \<Rightarrow> pyval \<Rightarrow> bool" where
  "clean_leaf red v = (case v of PyStr s \<Rightarrow> s = REDACTED \<or> s \<in> range red | _ \<Rightarrow> True)"

lemma fold_update_values:
  "set (map snd (fold (\<lambda>(k, v) out. AList.update (f k) v out) kvs d)) \<subseteq> set (map snd d) \<union> set (map snd kvs)"
proof (induction kvs arbitrary: d)
  case (Cons kv kvs)
  obtain k v where kv: "kv = (k, v)" by (cases kv)
  have "set (map snd (AList.update (f k) v d)) \<subseteq> insert v (set (map snd d))"
    by (induction d) auto
  then show ?case using Cons.IH[of "AList.update (f k) v d"]
    unfolding kv fold_Cons o_apply prod.case list.map(2) snd_conv list.set(2) by blast
qed simp

lemma redact_sync_clean: "list_all (clean_leaf red) (py_leaves (redact_sync_value red secret v))"
proof (induction red secret v rule: redact_sync_value.induct)
  case (2 red secret d)
  let ?g = "\<lambda>(k, v). (k, if secret k \<and> v \<noteq> PyNone \<and> \<not> (case v of PyBool b \<Rightarrow> True | _ \<Rightarrow> False)
        then redact_whole v else redact_sync_value red secret v)"
  have blank: "list_all (clean_leaf red) (py_leaves (redact_whole v))" for v
    using redact_whole_blank[of v] by (auto simp: list_all_iff blank_leaf_def clean_leaf_def split: pyval.split)
  have "list_all (clean_leaf red) (py_leaves w)" if "w \<in> set (map snd (map ?g d))" for w
    using that blank 2 by (auto split: if_splits)
  moreover have "set (map snd (fold (\<lambda>(k, v) out. AList.update (red k) v out) (map ?g d) []))
      \<subseteq> set (map snd (map ?g d))"
    using fold_update_values[of red "map ?g d" "[]"] by simp
  ultimately have "list_all (clean_leaf red) (py_leaves w)"
    if "w \<in> set (map snd (fold (\<lambda>(k, v) out. AList.update (red k) v out) (map ?g d) []))" for w
    using that by blast
  then show ?case by (fastforce simp: list_all_iff)
qed (auto simp: clean_leaf_def list_all_iff)

end
