(* ===== verification/Governance.thy ===== *)
theory Governance
  imports Fragments
begin

text \<open>
  The governance middleware and the stack it runs in (\<open>middlewares/base.py\<close>,
  \<open>middlewares/governance/\<close>): the sanitizer, the gates, the gate pipeline, the
  audit log, and \<open>MiddlewareStack.run\<close> with its before and after hooks. The redactor
  (the regular expressions of \<open>security/\<close>), the failure patterns and SHA-256 are
  arguments.
\<close>

section \<open>The sanitizer\<close>

text \<open>\<open>str.splitlines()\<close>: its line boundaries; a final boundary ends no further line, and
  CR LF counts once.\<close>

definition line_end :: "nat \<Rightarrow> bool" where
  "line_end c \<longleftrightarrow> 10 \<le> c \<and> c \<le> 13 \<or> 28 \<le> c \<and> c \<le> 30 \<or> c = 133 \<or> c = 8232 \<or> c = 8233"

fun split_lines_acc :: "ustr \<Rightarrow> ustr \<Rightarrow> ustr list" where
  "split_lines_acc cur [] = (if cur = [] then [] else [rev cur])"
| "split_lines_acc cur (c # cs) =
     (if \<not> line_end c then split_lines_acc (c # cur) cs
      else rev cur # (case cs of
          d # ds \<Rightarrow> if c = 13 \<and> d = 10 then split_lines_acc [] ds else split_lines_acc [] cs
        | [] \<Rightarrow> []))"

definition split_lines :: "ustr \<Rightarrow> ustr list" where
  "split_lines s = split_lines_acc [] s"

text \<open>\<open>(?<=\S)[ \t]{2,}\<close> replaced by one space: a run of at least two blanks after a
  character that is no white space.\<close>

definition is_blank :: "nat \<Rightarrow> bool" where
  "is_blank c \<longleftrightarrow> c = 32 \<or> c = 9"

function collapse_runs :: "bool \<Rightarrow> ustr \<Rightarrow> ustr" where
  "collapse_runs solid [] = []"
| "collapse_runs solid (c # cs) =
     (if is_blank c then
        (let run = takeWhile is_blank (c # cs); rest = dropWhile is_blank cs
         in (if solid \<and> length run \<ge> 2 then [32] else run) @ collapse_runs False rest)
      else c # collapse_runs (\<not> py_isspace c) cs)"
  by pat_completeness auto
termination
  by (relation "measure (\<lambda>(b, s). length s)") (auto simp: less_Suc_eq_le length_dropWhile_le)

definition clean_text :: "ustr \<Rightarrow> ustr" where
  "clean_text s = py_strip (py_join [10] (map (\<lambda>l. py_rstrip (collapse_runs False l)) (split_lines s)))"

record sanitized_text =
  sr_text :: ustr
  sr_truncated :: bool
  sr_original_length :: nat
  sr_redacted :: bool

record sanitizer =
  sz_redact :: "ustr \<Rightarrow> ustr"
  sz_max_length :: "nat option"

definition sanitize_report :: "sanitizer \<Rightarrow> ustr \<Rightarrow> sanitized_text" where
  "sanitize_report z text =
     (let redacted = sz_redact z text; cleaned = clean_text redacted;
          truncated = (case sz_max_length z of None \<Rightarrow> False | Some n \<Rightarrow> length cleaned > n)
      in \<lparr>sr_text = (if truncated then take (the (sz_max_length z)) cleaned else cleaned),
          sr_truncated = truncated, sr_original_length = length text, sr_redacted = (redacted \<noteq> text)\<rparr>)"

definition sanitize :: "sanitizer \<Rightarrow> ustr \<Rightarrow> ustr" where
  "sanitize z text = sr_text (sanitize_report z text)"

definition has_pii :: "sanitizer \<Rightarrow> ustr \<Rightarrow> bool" where
  "has_pii z text \<longleftrightarrow> sz_redact z text \<noteq> text"

section \<open>The gates\<close>

datatype gate_reason = TooShort | LowConfidence real real | FailureMatch | DuplicateHash

record validation_gate =
  vg_min_length :: nat
  vg_min_confidence :: real

definition validation_gate_new :: "int \<Rightarrow> real \<Rightarrow> validation_gate" where
  "validation_gate_new n c = \<lparr>vg_min_length = nat (max 1 n), vg_min_confidence = c\<rparr>"

text \<open>A gate returns \<open>None\<close> when the content passes.\<close>

definition validation_check :: "validation_gate \<Rightarrow> ustr \<Rightarrow> real \<Rightarrow> gate_reason option" where
  "validation_check g content confidence =
     (if length (py_strip content) < vg_min_length g then Some TooShort
      else if confidence < vg_min_confidence g then Some (LowConfidence confidence (vg_min_confidence g))
      else None)"

definition duplicate_check :: "(ustr \<Rightarrow> ustr) \<Rightarrow> ustr set \<Rightarrow> ustr \<Rightarrow> gate_reason option \<times> ustr set" where
  "duplicate_check sha seen content =
     (let h = sha content in if h \<in> seen then (Some DuplicateHash, seen) else (None, insert h seen))"

definition failure_check :: "(ustr \<Rightarrow> bool) list \<Rightarrow> ustr \<Rightarrow> gate_reason option" where
  "failure_check pats content = (if list_ex (\<lambda>p. p content) pats then Some FailureMatch else None)"

text \<open>The pipeline: the failure patterns and the seen hashes are optional stages.\<close>

record gate =
  gt_sanitizer :: sanitizer
  gt_validation :: validation_gate
  gt_failure :: "(ustr \<Rightarrow> bool) list option"
  gt_seen :: "ustr set option"

record gate_result =
  gr_reason :: "gate_reason option"
  gr_content :: ustr
  gr_truncated :: bool
  gr_original_length :: nat

abbreviation gr_passed :: "gate_result \<Rightarrow> bool" where
  "gr_passed r \<equiv> gr_reason r = None"

definition gate_check :: "(ustr \<Rightarrow> ustr) \<Rightarrow> gate \<Rightarrow> ustr \<Rightarrow> real \<Rightarrow> gate \<times> gate_result" where
  "gate_check sha g content confidence =
     (let rep = sanitize_report (gt_sanitizer g) content; cleaned = sr_text rep;
          result = (\<lambda>why. \<lparr>gr_reason = why, gr_content = cleaned, gr_truncated = sr_truncated rep,
                       gr_original_length = sr_original_length rep\<rparr>)
      in case validation_check (gt_validation g) cleaned confidence of
           Some why \<Rightarrow> (g, result (Some why))
         | None \<Rightarrow>
             (case (case gt_failure g of None \<Rightarrow> None | Some pats \<Rightarrow> failure_check pats cleaned) of
                Some why \<Rightarrow> (g, result (Some why))
              | None \<Rightarrow>
                  (case gt_seen g of
                     None \<Rightarrow> (g, result None)
                   | Some seen \<Rightarrow>
                       (let (why, seen') = duplicate_check sha seen cleaned
                        in (g\<lparr>gt_seen := Some seen'\<rparr>, result why)))))"

section \<open>The audit log\<close>

record audit_entry =
  ae_id :: ustr
  ae_hash :: ustr
  ae_passed :: bool
  ae_reason :: "gate_reason option"
  ae_gate :: string
  ae_agent :: "ustr option"
  ae_time :: datetime

definition audit_record ::
  "(ustr \<Rightarrow> ustr) \<Rightarrow> datetime \<Rightarrow> ustr \<Rightarrow> audit_entry list \<Rightarrow> ustr \<Rightarrow> gate_reason option \<Rightarrow> string
     \<Rightarrow> ustr option \<Rightarrow> audit_entry list" where
  "audit_record sha now eid entries content why gate agent =
     entries @ [\<lparr>ae_id = eid, ae_hash = take 16 (sha content), ae_passed = (why = None), ae_reason = why,
       ae_gate = gate, ae_agent = agent, ae_time = now\<rparr>]"

text \<open>\<open>entries[-limit:]\<close>: with \<open>limit = 0\<close> the slice is the whole list, and a
  negative limit drops that many from the front.\<close>

definition last_slice :: "int \<Rightarrow> 'a list \<Rightarrow> 'a list" where
  "last_slice n xs = (if n = 0 then xs else if n < 0 then drop (nat (- n)) xs
     else drop (length xs - nat n) xs)"

definition audit_entries :: "audit_entry list \<Rightarrow> ustr option \<Rightarrow> bool option \<Rightarrow> int \<Rightarrow> audit_entry list" where
  "audit_entries entries agent passed n = rev (last_slice n
     (filter (\<lambda>e. (agent = None \<or> ae_agent e = agent) \<and> (passed = None \<or> Some (ae_passed e) = passed)) entries))"

record audit_counts =
  as_total :: nat
  as_passed :: nat
  as_blocked :: nat
  as_by_gate :: "(string \<times> nat) list"

definition audit_stats :: "audit_entry list \<Rightarrow> audit_counts" where
  "audit_stats entries =
     (let total = length entries; passed = length (filter ae_passed entries)
      in \<lparr>as_total = total, as_passed = passed, as_blocked = total - passed,
          as_by_gate = fold (\<lambda>e m. AList.update (ae_gate e)
             ((case map_of m (ae_gate e) of None \<Rightarrow> 0 | Some n \<Rightarrow> n) + 1) m) entries []\<rparr>)"

section \<open>The middleware stack\<close>

text \<open>The mutable envelope of one operation. The payload fields are those the modelled
  middleware reads; \<open>pl_governance\<close> is the record under \<open>mark_governance\<close>.\<close>

record governance_note =
  gn_passed :: bool
  gn_reason :: "gate_reason option"
  gn_truncated_from :: "nat option"

record payload =
  pl_content :: ustr
  pl_confidence :: "real option"
  pl_importance :: "real option"
  pl_state :: "memory_state option"
  pl_tags :: "ustr list"
  pl_governance :: "governance_note option"

record op_context =
  cx_operation :: string
  cx_agent :: "ustr option"
  cx_payload :: payload
  cx_result :: "ustr option"
  cx_stopped :: bool
  cx_error :: "py_error option"

definition rejected :: "op_context \<Rightarrow> bool" where
  "rejected c \<longleftrightarrow> (case pl_governance (cx_payload c) of Some n \<Rightarrow> \<not> gn_passed n | None \<Rightarrow> False)
     \<or> pl_state (cx_payload c) = Some QUARANTINED"

definition succeeded :: "op_context \<Rightarrow> bool" where
  "succeeded c \<longleftrightarrow> \<not> cx_stopped c \<and> cx_error c = None \<and> \<not> rejected c"

definition stop_context :: "ustr option \<Rightarrow> op_context \<Rightarrow> op_context" where
  "stop_context r c = c\<lparr>cx_result := r, cx_stopped := True\<rparr>"

text \<open>A hook mutates the state \<open>'s\<close> of the world and the context, and may then raise.\<close>

type_synonym 's hook = "'s \<Rightarrow> op_context \<Rightarrow> 's \<times> op_context \<times> py_error option"

record 's middleware =
  mw_name :: string
  mw_before :: "'s hook"
  mw_after :: "'s hook"

text \<open>What was called, for statements about the order of the hooks.\<close>

datatype call = Before string | Handler | After string

text \<open>The loop over the before hooks: the middleware whose hook completed, the exception that
  ended the loop, and the calls.\<close>

fun run_before ::
  "'s middleware list \<Rightarrow> 's \<Rightarrow> op_context \<Rightarrow> 's \<times> op_context \<times> 's middleware list \<times> py_error option \<times> call list" where
  "run_before [] s c = (s, c, [], None, [])"
| "run_before (m # ms) s c =
     (case mw_before m s c of
        (s1, c1, Some e) \<Rightarrow> (s1, c1, [], Some e, [Before (mw_name m)])
      | (s1, c1, None) \<Rightarrow>
          if cx_stopped c1 then (s1, c1, [m], None, [Before (mw_name m)])
          else (let (s2, c2, fin, err, calls) = run_before ms s1 c1
                in (s2, c2, m # fin, err, Before (mw_name m) # calls)))"

text \<open>The handler returns a result or raises; the try block catches either error.\<close>

type_synonym 's handler = "'s \<Rightarrow> op_context \<Rightarrow> 's \<times> op_context \<times> (py_error + ustr option)"

definition run_handler :: "'s handler \<Rightarrow> 's \<Rightarrow> op_context \<Rightarrow> 's \<times> op_context \<times> call list" where
  "run_handler h s c =
     (if cx_stopped c then (s, c, [])
      else (case h s c of
          (s1, c1, Inl e) \<Rightarrow> (s1, c1\<lparr>cx_error := Some e\<rparr>, [Handler])
        | (s1, c1, Inr r) \<Rightarrow> (s1, c1\<lparr>cx_result := r\<rparr>, [Handler])))"

fun run_after :: "'s middleware list \<Rightarrow> 's \<Rightarrow> op_context \<Rightarrow> 's \<times> op_context \<times> call list" where
  "run_after [] s c = (s, c, [])"
| "run_after (m # ms) s c =
     (let (s1, c1, err) = mw_after m s c;
          c2 = (case err of None \<Rightarrow> c1
            | Some e \<Rightarrow> if cx_error c1 = None then c1\<lparr>cx_error := Some e\<rparr> else c1);
          (s3, c3, calls) = run_after ms s1 c2
      in (s3, c3, After (mw_name m) # calls))"

definition new_context :: "string \<Rightarrow> ustr option \<Rightarrow> payload \<Rightarrow> op_context" where
  "new_context op agent p = \<lparr>cx_operation = op, cx_agent = agent, cx_payload = p, cx_result = None,
     cx_stopped = False, cx_error = None\<rparr>"

definition run_stack ::
  "'s middleware list \<Rightarrow> 's handler \<Rightarrow> 's \<Rightarrow> string \<Rightarrow> ustr option \<Rightarrow> payload
     \<Rightarrow> 's \<times> (py_error + ustr option) \<times> op_context \<times> call list" where
  "run_stack ms h s op agent p =
     (let (s1, c1, fin, err, calls1) = run_before ms s (new_context op agent p);
          (s2, c2, calls2) = (case err of
              Some e \<Rightarrow> (s1, c1\<lparr>cx_error := Some e\<rparr>, [])
            | None \<Rightarrow> run_handler h s1 c1);
          (s3, c3, calls3) = run_after (rev fin) s2 c2
      in (s3, (case cx_error c3 of Some e \<Rightarrow> Inl e | None \<Rightarrow> Inr (cx_result c3)), c3, calls1 @ calls2 @ calls3))"

section \<open>The governance middleware\<close>

definition GOVERNED :: "string list" where "GOVERNED = [''store'', ''observe'']"

text \<open>\<open>before\<close>: the gate is the middleware's state.\<close>

definition governance_before :: "(ustr \<Rightarrow> ustr) \<Rightarrow> bool \<Rightarrow> gate hook" where
  "governance_before sha quarantine_on_reject g c =
     (if cx_operation c \<notin> set GOVERNED then (g, c, None)
      else
        (let p = cx_payload c;
             (g1, r) = gate_check sha g (pl_content p) (case pl_confidence p of None \<Rightarrow> 1 | Some x \<Rightarrow> x);
             note = \<lparr>gn_passed = gr_passed r, gn_reason = gr_reason r,
               gn_truncated_from = (if gr_truncated r then Some (gr_original_length r) else None)\<rparr>;
             p1 = p\<lparr>pl_content := gr_content r, pl_governance := Some note\<rparr>;
             p2 = (if gr_passed r then p1
               else p1\<lparr>pl_tags := pl_tags p1 @ [u ''mark:governance'', u ''mark:quarantined'']\<rparr>);
             p3 = (if gr_passed r \<or> \<not> quarantine_on_reject then p2
               else p2\<lparr>pl_state := Some QUARANTINED, pl_importance := Some 0, pl_confidence := Some 0\<rparr>)
         in (g1, c\<lparr>cx_payload := p3\<rparr>, None)))"

definition governance_middleware :: "(ustr \<Rightarrow> ustr) \<Rightarrow> bool \<Rightarrow> gate middleware" where
  "governance_middleware sha q = \<lparr>mw_name = ''governance'', mw_before = governance_before sha q,
     mw_after = (\<lambda>g c. (g, c, None))\<rparr>"

section \<open>Hooks come in pairs\<close>

lemma run_before_calls:
  assumes "run_before ms s c = (s', c', fin, err, calls)"
  shows "\<exists>n\<le>length ms. fin = take n ms \<and>
      (calls = map (\<lambda>m. Before (mw_name m)) (take n ms) \<and> err = None \<and> (n = length ms \<or> cx_stopped c')
       \<or> n < length ms \<and> calls = map (\<lambda>m. Before (mw_name m)) (take (n + 1) ms) \<and> err \<noteq> None)"
  using assms
proof (induction ms arbitrary: s c s' c' fin err calls)
  case (Cons m ms)
  obtain s1 c1 e where b: "mw_before m s c = (s1, c1, e)" by (metis prod_cases3)
  show ?case
  proof (cases e)
    case (Some x)
    with b Cons.prems show ?thesis by (intro exI[of _ 0]) auto
  next
    case None
    show ?thesis
    proof (cases "cx_stopped c1")
      case True
      with None b Cons.prems show ?thesis by (intro exI[of _ 1]) auto
    next
      case False
      obtain s2 c2 fin2 err2 calls2 where r: "run_before ms s1 c1 = (s2, c2, fin2, err2, calls2)"
        by (metis prod_cases5)
      with None False b Cons.prems have eq: "fin = m # fin2" "err = err2" "c' = c2"
          "calls = Before (mw_name m) # calls2" by auto
      from Cons.IH[OF r] obtain n where "n \<le> length ms" "fin2 = take n ms"
        "calls2 = map (\<lambda>m. Before (mw_name m)) (take n ms) \<and> err2 = None \<and> (n = length ms \<or> cx_stopped c2)
         \<or> n < length ms \<and> calls2 = map (\<lambda>m. Before (mw_name m)) (take (n + 1) ms) \<and> err2 \<noteq> None" by blast
      then show ?thesis unfolding eq by (intro exI[of _ "Suc n"]) auto
    qed
  qed
qed simp

lemma run_after_calls:
  "snd (snd (run_after ms s c)) = map (\<lambda>m. After (mw_name m)) ms"
  by (induction ms s c rule: run_after.induct) (auto simp: Let_def split: prod.splits option.splits)


section \<open>What the gate admits\<close>

text \<open>A sequence of contents through one gate.\<close>

fun gate_run :: "(ustr \<Rightarrow> ustr) \<Rightarrow> gate \<Rightarrow> (ustr \<times> real) list \<Rightarrow> (gate_result \<times> real) list" where
  "gate_run sha g [] = []"
| "gate_run sha g ((content, conf) # xs) =
     (let (g1, r) = gate_check sha g content conf in (r, conf) # gate_run sha g1 xs)"

definition admitted :: "gate \<Rightarrow> gate_result \<Rightarrow> real \<Rightarrow> bool" where
  "admitted g r conf \<longleftrightarrow> vg_min_length (gt_validation g) \<le> length (py_strip (gr_content r))
     \<and> vg_min_confidence (gt_validation g) \<le> conf
     \<and> (case gt_failure g of None \<Rightarrow> True | Some pats \<Rightarrow> \<not> list_ex (\<lambda>p. p (gr_content r)) pats)"

lemma gate_check_cases:
  assumes "gate_check sha g content conf = (g1, r)"
  shows "gr_content r = sanitize (gt_sanitizer g) content
    \<and> gt_validation g1 = gt_validation g \<and> gt_failure g1 = gt_failure g \<and> gt_sanitizer g1 = gt_sanitizer g
    \<and> (gr_passed r \<longrightarrow> admitted g r conf \<and> (case gt_seen g of None \<Rightarrow> gt_seen g1 = None
         | Some seen \<Rightarrow> sha (gr_content r) \<notin> seen \<and> gt_seen g1 = Some (insert (sha (gr_content r)) seen)))
    \<and> (\<not> gr_passed r \<longrightarrow> g1 = g)"
  using assms
  by (auto simp: gate_check_def Let_def admitted_def sanitize_def validation_check_def failure_check_def
      duplicate_check_def split: if_splits option.splits)

lemma admitted_cong:
  "gt_validation g1 = gt_validation g \<Longrightarrow> gt_failure g1 = gt_failure g \<Longrightarrow> admitted g1 r conf = admitted g r conf"
  by (simp add: admitted_def)

lemma gate_run_admits:
  assumes "gt_seen g = Some seen"
  shows "distinct (map (\<lambda>(r, x). sha (gr_content r)) (filter (\<lambda>(r, x). gr_passed r) (gate_run sha g xs)))
    \<and> set (map (\<lambda>(r, x). sha (gr_content r)) (filter (\<lambda>(r, x). gr_passed r) (gate_run sha g xs))) \<inter> seen = {}
    \<and> list_all (\<lambda>(r, x). admitted g r x) (filter (\<lambda>(r, x). gr_passed r) (gate_run sha g xs))"
  using assms
proof (induction xs arbitrary: g seen)
  case (Cons y xs)
  obtain content conf where y: "y = (content, conf)" by (cases y)
  obtain g1 r where c: "gate_check sha g content conf = (g1, r)" by (cases "gate_check sha g content conf")
  note cs = gate_check_cases[OF c]
  show ?case
  proof (cases "gr_passed r")
    case True
    with cs Cons.prems have s1: "gt_seen g1 = Some (insert (sha (gr_content r)) seen)"
      and new: "sha (gr_content r) \<notin> seen" and ad: "admitted g r conf" by auto
    from cs have "admitted g1 = admitted g" by (intro ext admitted_cong) auto
    with Cons.IH[OF s1] True new ad c show ?thesis by (auto simp: y)
  next
    case False
    then obtain why where why: "gr_reason r = Some why" by auto
    with cs have "g1 = g" by simp
    with Cons.IH[OF Cons.prems] why c show ?thesis by (simp add: y)
  qed
qed simp

text \<open>C18: what a gate with duplicate detection admits: over any sequence of contents, the admitted
  ones have pairwise different digests, and every one of them is at least as long and as confident as
  the gate demands and matches no failure pattern, judged on the sanitized text.\<close>

theorem gate_admits_each_content_once:
  "let rs = filter (\<lambda>(r, x). gr_passed r) (gate_run sha (g\<lparr>gt_seen := Some {}\<rparr>) xs)
   in distinct (map (\<lambda>(r, x). sha (gr_content r)) rs) \<and> list_all (\<lambda>(r, x). admitted g r x) rs"
proof -
  have "admitted (g\<lparr>gt_seen := Some {}\<rparr>) = admitted g" by (intro ext) (simp add: admitted_def)
  with gate_run_admits[of "g\<lparr>gt_seen := Some {}\<rparr>" "{}" sha xs] show ?thesis by (simp add: Let_def)
qed

text \<open>A rejected write cannot reach retrieval: after the governance hook of a store or observe
  operation the content is the sanitized one, and when the gate refused it, the fragment's state is
  QUARANTINED (which is not retrievable), its scores are zero, and the operation counts as rejected,
  so that later hooks see that it did not succeed.\<close>

lemma rejected_write_is_quarantined:
  assumes "governance_before sha True g c = (g1, c1, err)" "cx_operation c \<in> set GOVERNED"
  shows "err = None \<and> pl_content (cx_payload c1) = sanitize (gt_sanitizer g) (pl_content (cx_payload c))
    \<and> (case pl_governance (cx_payload c1) of None \<Rightarrow> False
       | Some n \<Rightarrow> gn_passed n \<or> pl_state (cx_payload c1) = Some QUARANTINED
           \<and> pl_importance (cx_payload c1) = Some 0 \<and> rejected c1 \<and> \<not> succeeded c1)"
proof -
  define conf where "conf = (case pl_confidence (cx_payload c) of None \<Rightarrow> 1 | Some x \<Rightarrow> x)"
  obtain g2 r where k: "gate_check sha g (pl_content (cx_payload c)) conf = (g2, r)"
    by (cases "gate_check sha g (pl_content (cx_payload c)) conf")
  from gate_check_cases[OF k] have "gr_content r = sanitize (gt_sanitizer g) (pl_content (cx_payload c))" by simp
  with assms show ?thesis
    by (auto simp: governance_before_def Let_def conf_def[symmetric] k rejected_def succeeded_def split: if_splits)
qed

definition wit_gate :: gate where
  "wit_gate = \<lparr>gt_sanitizer = \<lparr>sz_redact = (\<lambda>t. t), sz_max_length = None\<rparr>,
     gt_validation = validation_gate_new 1 (1 / 2), gt_failure = None, gt_seen = None\<rparr>"

definition wit_payload :: payload where
  "wit_payload = \<lparr>pl_content = u ''Elena  enters'', pl_confidence = Some (1 / 4), pl_importance = None,
     pl_state = None, pl_tags = [], pl_governance = None\<rparr>"

lemma rejected_write_is_quarantined_witness:
  "\<exists>g1 c1 err. governance_before (\<lambda>t. t) True wit_gate (new_context ''store'' None wit_payload) = (g1, c1, err)
    \<and> rejected c1 \<and> pl_state (cx_payload c1) = Some QUARANTINED"
proof -
  have v: "validation_check (gt_validation wit_gate) t (1 / 4)
      = Some (if length (py_strip t) < 1 then TooShort else LowConfidence (1 / 4) (1 / 2))" for t
    by (simp add: validation_check_def wit_gate_def validation_gate_new_def)
  have refused: "gr_reason (snd (gate_check (\<lambda>t. t) wit_gate t (1 / 4))) \<noteq> None" for t
    by (simp add: gate_check_def Let_def v)
  obtain g1 c1 err where r: "governance_before (\<lambda>t. t) True wit_gate (new_context ''store'' None wit_payload) = (g1, c1, err)"
    by (metis prod_cases3)
  have "pl_governance (cx_payload c1) \<noteq> None \<and> \<not> gn_passed (the (pl_governance (cx_payload c1)))"
    using r refused[of "pl_content wit_payload"]
    by (auto simp: governance_before_def new_context_def GOVERNED_def Let_def wit_payload_def split: prod.splits)
  moreover have "cx_operation (new_context ''store'' None wit_payload) \<in> set GOVERNED"
    by (simp add: new_context_def GOVERNED_def)
  ultimately have "rejected c1 \<and> pl_state (cx_payload c1) = Some QUARANTINED"
    using rejected_write_is_quarantined[OF r] by (auto split: option.splits)
  with r show ?thesis by blast
qed

lemma audit_limit_zero: "audit_entries entries None None 0 = rev entries"
  by (simp add: audit_entries_def last_slice_def)

end
