(* ===== verification/Ranking.thy ===== *)
theory Ranking
  imports Mark_Prelude
begin

text \<open>
  Lemmas on ranked lists, shared by the components that sort candidates by a score and keep the
  best ones: stable ascending and descending sorts by a key, secondary keys that break ties, and
  top-k selection, which may be done per part before it is done on the whole.
\<close>

section \<open>Stable sorts by a key\<close>

lemma filter_sort_key_desc: "filter P (sort_key_desc f xs) = sort_key_desc f (filter P xs)"
  by (simp add: sort_key_desc_def rev_filter[symmetric] filter_sort)

lemma map_sort_key: "map h (sort_key (\<lambda>x. f (h x)) xs) = sort_key f (map h xs)"
proof -
  have ins: "map h (insort_key (\<lambda>x. f (h x)) x ys) = insort_key f (h x) (map h ys)" for x ys
    by (induction ys) auto
  show ?thesis by (induction xs) (simp_all add: ins)
qed

lemma map_sort_key_desc: "map h (sort_key_desc (\<lambda>x. f (h x)) xs) = sort_key_desc f (map h xs)"
  by (simp add: sort_key_desc_def rev_map[symmetric] map_sort_key)

text \<open>A second key that only repeats the order of the list within equal first keys changes
  nothing.\<close>

lemma sort_key_refine:
  assumes "\<And>k. sorted (map g (filter (\<lambda>x. f x = k) xs))"
  shows "sort_key (\<lambda>x. (f x, g x)) xs = sort_key f xs"
proof (rule sym, rule properties_for_sort_key)
  let ?h = "\<lambda>x. (f x, g x)"
  show "mset (sort_key ?h xs) = mset xs" by simp
  show "sorted (map f (sort_key ?h xs))"
    using sorted_sort_key[of ?h xs] by (simp add: sorted_wrt_map) (erule sorted_wrt_mono_rel[rotated], auto)
  fix k assume "k \<in> set (sort_key ?h xs)"
  let ?ys = "filter (\<lambda>x. f k = f x) xs"
  have "sorted (map g ?ys)" using assms[of "f k"] by (simp add: eq_commute)
  then have "sorted (map ?h ?ys)"
    by (simp add: sorted_wrt_map) (erule sorted_wrt_mono_rel[rotated], auto)
  then show "filter (\<lambda>x. f k = f x) (sort_key ?h xs) = ?ys"
    by (simp add: filter_sort sort_key_id_if_sorted)
qed

lemma sort_key_desc_refine:
  assumes "\<And>k. sorted (map g (rev (filter (\<lambda>x. f x = k) xs)))"
  shows "sort_key_desc (\<lambda>x. (f x, g x)) xs = sort_key_desc f xs"
  unfolding sort_key_desc_def by (subst sort_key_refine) (use assms in \<open>simp_all add: rev_filter\<close>)

lemma sort_key_desc_neg: "sort_key_desc f xs = sort_key (\<lambda>x. - f x) xs" for f :: "'a \<Rightarrow> real"
proof (rule sym, rule properties_for_sort_key)
  show "mset (sort_key_desc f xs) = mset xs" by simp
  show "sorted (map (\<lambda>x. - f x) (sort_key_desc f xs))"
    using sort_key_desc_sorted[of f xs] by (simp add: sorted_wrt_map sorted_wrt_rev)
  fix k assume "k \<in> set (sort_key_desc f xs)"
  have "sort_key_desc f (filter (\<lambda>x. - f k = - f x) xs) = filter (\<lambda>x. - f k = - f x) xs"
    unfolding sort_key_desc_def
    by (subst sort_key_id_if_sorted) (auto simp: sorted_wrt_map intro!: sorted_wrt_mono_rel[OF _ sorted_wrt_true])
  then show "filter (\<lambda>x. - f k = - f x) (sort_key_desc f xs) = filter (\<lambda>x. - f k = - f x) xs"
    by (simp add: filter_sort_key_desc)
qed

section \<open>The best k\<close>

text \<open>Taking the best \<open>k\<close> of a part of a list first does not change the best \<open>k\<close>
  of the whole.\<close>

lemma take_insort_take: "take k (insort_key g x (take k zs)) = take k (insort_key g x zs)"
proof (induction zs arbitrary: k)
  case (Cons z zs)
  then show ?case by (cases k) (simp_all add: take_Cons')
qed simp

lemma insort_before: "g a \<le> g b \<Longrightarrow> insort_key g a (Y @ b # Z) = insort_key g a Y @ b # Z"
  by (induction Y) auto

lemma foldr_insort_before:
  "\<forall>a\<in>set A. \<forall>b\<in>set Z. g a \<le> g b \<Longrightarrow> foldr (insort_key g) A (Y @ Z) = foldr (insort_key g) A Y @ Z"
  by (cases Z; induction A) (simp_all add: insort_before)

lemma length_foldr_insort: "length (foldr (insort_key g) A Y) = length A + length Y"
  by (induction A) simp_all

lemma take_sort_drop_one:
  assumes "k \<le> length A" "\<forall>a\<in>set A. g a \<le> g b"
  shows "take k (sort_key g (A @ b # ys)) = take k (sort_key g (A @ ys))"
proof -
  define Y where "Y = sort_key g ys"
  define Y1 where "Y1 = takeWhile (\<lambda>y. g y < g b) Y"
  define Y2 where "Y2 = dropWhile (\<lambda>y. g y < g b) Y"
  have Y: "Y = Y1 @ Y2" by (simp add: Y1_def Y2_def)
  have "insort_key g b (us @ vs) = us @ b # vs"
    if "\<forall>y\<in>set us. g y < g b" "vs = [] \<or> g b \<le> g (hd vs)" for us vs
    using that by (induction us) (auto simp: not_less[symmetric], cases vs, auto)
  moreover have "\<forall>y\<in>set Y1. g y < g b" by (auto simp: Y1_def dest: set_takeWhileD)
  moreover have hd2: "Y2 = [] \<or> g b \<le> g (hd Y2)"
    unfolding Y2_def by (metis hd_dropWhile not_less)
  ultimately have ins: "insort_key g b Y = Y1 @ b # Y2" by (simp add: Y)
  have "sorted (map g Y2)"
    using sorted_sort_key[of g ys] by (simp add: Y_def[symmetric] Y sorted_append)
  with hd2 have ge: "\<forall>y\<in>set Y2. g b \<le> g y" by (cases Y2) auto
  have srt: "sort_key g (A @ zs) = foldr (insort_key g) A (sort_key g zs)" for zs
    by (simp add: sort_key_def)
  have "sort_key g (A @ b # ys) = foldr (insort_key g) A Y1 @ b # Y2"
    unfolding srt using foldr_insort_before[of A "b # Y2" g Y1] assms ge
    by (simp add: Y_def[symmetric] ins) (meson order_trans)
  moreover have "sort_key g (A @ ys) = foldr (insort_key g) A Y1 @ Y2"
    unfolding srt Y_def[symmetric] Y using foldr_insort_before[of A Y2 g Y1] assms ge by (meson order_trans)
  ultimately show ?thesis using assms(1) by (simp add: length_foldr_insort)
qed

lemma take_sort_drop:
  "k \<le> length A \<Longrightarrow> \<forall>a\<in>set A. \<forall>b\<in>set B. g a \<le> g b \<Longrightarrow>
   take k (sort_key g (A @ B @ ys)) = take k (sort_key g (A @ ys))"
  by (induction B) (simp_all add: take_sort_drop_one)

lemma sort_key_sort_append: "sort_key g (sort_key g xs @ ys) = sort_key g (xs @ ys)"
proof (rule sym, rule properties_for_sort_key)
  fix k assume "k \<in> set (sort_key g (sort_key g xs @ ys))"
  have "sort_key g (filter (\<lambda>x. g k = g x) zs) = filter (\<lambda>x. g k = g x) zs" for zs
    by (rule sort_key_id_if_sorted) (auto simp: sorted_wrt_map intro!: sorted_wrt_mono_rel[OF _ sorted_wrt_true])
  from this[of "xs @ ys"] this[of xs]
  show "filter (\<lambda>x. g k = g x) (sort_key g (sort_key g xs @ ys)) = filter (\<lambda>x. g k = g x) (xs @ ys)"
    by (simp add: filter_sort)
qed simp_all

lemma take_sort_left: "take k (sort_key g (take k (sort_key g xs) @ ys)) = take k (sort_key g (xs @ ys))"
proof -
  define S where "S = sort_key g xs"
  have "sorted (map g (take k S @ drop k S))" by (simp add: S_def)
  then have le: "\<forall>a\<in>set (take k S). \<forall>b\<in>set (drop k S). g a \<le> g b"
    unfolding map_append sorted_append by simp
  have "take k (sort_key g (take k S @ drop k S @ ys)) = take k (sort_key g (take k S @ ys))"
  proof (cases "k \<le> length S")
    case True
    with le show ?thesis by (intro take_sort_drop) simp_all
  qed simp
  then show ?thesis by (simp add: S_def sort_key_sort_append append_assoc[symmetric] del: append_assoc)
qed

lemma take_sort_right: "take k (sort_key g (xs @ take k (sort_key g ys))) = take k (sort_key g (xs @ ys))"
proof (induction xs)
  case Nil
  show ?case by (simp add: sort_key_id_if_sorted sorted_wrt_take take_map[symmetric])
next
  case (Cons x xs)
  have "take k (sort_key g ((x # xs) @ zs)) = take k (insort_key g x (take k (sort_key g (xs @ zs))))" for zs
    by (simp add: take_insort_take)
  with Cons show ?case by simp
qed

lemma take_sort_concat:
  "take k (sort_key g (concat (map (\<lambda>xs. take k (sort_key g xs)) xss))) = take k (sort_key g (concat xss))"
proof (induction xss)
  case (Cons xs xss)
  have "take k (sort_key g (xs @ concat (map (\<lambda>xs. take k (sort_key g xs)) xss)))
      = take k (sort_key g (xs @ take k (sort_key g (concat (map (\<lambda>xs. take k (sort_key g xs)) xss)))))"
    by (simp only: take_sort_right)
  also have "\<dots> = take k (sort_key g (xs @ concat xss))" by (simp only: Cons take_sort_right)
  finally show ?case by (simp add: take_sort_left)
qed simp

section \<open>Keys with the same order\<close>

lemma sort_key_order:
  "(\<And>x y. x \<in> set xs \<Longrightarrow> y \<in> set xs \<Longrightarrow> f x \<le> f y \<longleftrightarrow> g x \<le> g y) \<Longrightarrow> sort_key f xs = sort_key g xs"
proof (induction xs)
  case (Cons x xs)
  have "insort_key f x ys = insort_key g x ys" if "set ys \<subseteq> set xs" for ys
    using that Cons.prems by (induction ys) auto
  with Cons show ?case by simp
qed simp

lemma sort_key_desc_order:
  "(\<And>x y. x \<in> set xs \<Longrightarrow> y \<in> set xs \<Longrightarrow> f x \<le> f y \<longleftrightarrow> g x \<le> g y) \<Longrightarrow> sort_key_desc f xs = sort_key_desc g xs"
  unfolding sort_key_desc_def by (subst sort_key_order[of _ f g]) auto

text \<open>Cutting a ranking at its \<open>k\<close>-th key keeps the first \<open>k\<close>.\<close>

lemma take_desc_cut:
  fixes f :: "'a \<Rightarrow> 'k::linorder"
  assumes "k < length xs"
  shows "take k (sort_key_desc f (filter (\<lambda>x. sort (map f xs) ! (length xs - k) \<le> f x) xs)) = take k (sort_key_desc f xs)"
proof (cases "k = 0")
  case False
  let ?M = "sort_key_desc f xs"
  define c where "c = sort (map f xs) ! (length xs - k)"
  have "sort (map f (rev xs)) = sort (map f xs)" by (rule properties_for_sort) simp_all
  then have M: "map f ?M = rev (sort (map f xs))"
    unfolding sort_key_desc_def by (simp add: rev_map[symmetric] map_sort_key[of f "\<lambda>x. x", simplified])
  have "map f ?M ! (k - 1) = c"
    unfolding M c_def using False assms by (subst rev_nth) (simp_all add: Suc_diff_Suc)
  moreover have "map f ?M ! (k - 1) \<le> map f ?M ! j" if "j < k" for j
    using that assms False sort_key_desc_sorted[of f xs] by (intro sorted_rev_nth_mono) (simp_all add: rev_map)
  ultimately have "\<forall>x\<in>set (take k ?M). c \<le> f x"
    using assms by (auto simp: in_set_conv_nth)
  then have "filter (\<lambda>x. c \<le> f x) ?M = take k ?M @ filter (\<lambda>x. c \<le> f x) (drop k ?M)"
    by (metis append_take_drop_id filter_True filter_append)
  then have "take k (filter (\<lambda>x. c \<le> f x) ?M) = take k ?M" using assms by simp
  then show ?thesis by (simp add: c_def filter_sort_key_desc)
qed simp

end
