(* ===== verification/VectorIndex.thy ===== *)
theory VectorIndex
  imports Ranking
begin

text \<open>
  The in-memory vector index (\<open>index/vector.py\<close>, \<open>index/vector_backends.py\<close>): agent
  partitions of unit vectors with two interchangeable backends, a dictionary scored in Python and a
  matrix with tombstones and compaction scored with numpy, promotion from the first to the second,
  and cosine search. Floats are reals, so the two backends compute the same scores; the score
  \<open>-inf\<close> of a removed row is \<open>None\<close>, below every \<open>Some\<close>.
\<close>

type_synonym vec = "real list"

definition vdot :: "vec \<Rightarrow> vec \<Rightarrow> real" where
  "vdot a b = sum_list (map (\<lambda>(x, y). x * y) (zip a b))"

definition normalize_vec :: "vec \<Rightarrow> vec" where
  "normalize_vec v = (let n = sqrt (vdot v v) in if n = 0 then v else map (\<lambda>x. x / n) v)"

text \<open>A hit: score, insertion position, id.\<close>

type_synonym hit = "real \<times> nat \<times> ustr"

definition included :: "ustr set option \<Rightarrow> ustr \<Rightarrow> bool" where
  "included inc f \<longleftrightarrow> (case inc of None \<Rightarrow> True | Some s \<Rightarrow> f \<in> s)"

section \<open>The dictionary backend\<close>

type_synonym py_part = "(ustr \<times> vec) list"

definition py_scored :: "py_part \<Rightarrow> vec \<Rightarrow> ustr set option \<Rightarrow> hit list" where
  "py_scored p q inc = map (\<lambda>(i, f, v). (vdot q v, i, f))
     (filter (\<lambda>(i, f, v). included inc f) (enumerate 0 p))"

text \<open>\<open>heapq.nlargest(k, ..., key=(score, -position))\<close>.\<close>

definition py_top :: "py_part \<Rightarrow> vec \<Rightarrow> nat \<Rightarrow> ustr set option \<Rightarrow> hit list" where
  "py_top p q k inc = take k (sort_key_desc (\<lambda>(s, i, f). (s, - int i)) (py_scored p q inc))"

section \<open>The matrix backend\<close>

text \<open>\<open>np_rows\<close> are the written rows of the matrix, \<open>np_cap\<close> its number of rows.\<close>

record np_part =
  np_cap :: nat
  np_rows :: "vec list"
  np_ids :: "ustr option list"
  np_pos :: "(ustr \<times> nat) list"
  np_dead :: "bool list option"
  np_dead_count :: nat

definition np_new :: np_part where
  "np_new = \<lparr>np_cap = 16, np_rows = [], np_ids = [], np_pos = [], np_dead = None, np_dead_count = 0\<rparr>"

definition np_capacity :: "nat \<Rightarrow> nat" where
  "np_capacity n = max 16 (n + max (n div 8) (min n 65536))"

definition pad_mask :: "nat \<Rightarrow> bool list \<Rightarrow> bool list" where
  "pad_mask n m = m @ replicate (n - length m) False"

definition np_grow :: "nat \<Rightarrow> np_part \<Rightarrow> np_part" where
  "np_grow needed p = p\<lparr>np_cap := np_capacity needed, np_dead := map_option (pad_mask (np_capacity needed)) (np_dead p)\<rparr>"

definition np_add :: "ustr \<Rightarrow> vec \<Rightarrow> np_part \<Rightarrow> np_part" where
  "np_add f v p =
     (case map_of (np_pos p) f of
        Some row \<Rightarrow> p\<lparr>np_rows := (np_rows p)[row := v]\<rparr>
      | None \<Rightarrow>
          (let size = length (np_ids p); p1 = (if size \<ge> np_cap p then np_grow (size + 1) p else p)
           in p1\<lparr>np_rows := np_rows p1 @ [v], np_ids := np_ids p1 @ [Some f], np_pos := np_pos p1 @ [(f, size)]\<rparr>))"

definition np_add_matrix :: "(ustr \<times> vec) list \<Rightarrow> nat \<Rightarrow> np_part \<Rightarrow> np_part" where
  "np_add_matrix items expected p =
     (let size = length (np_ids p); n = size + length items;
          p1 = (if n > np_cap p then np_grow (max n expected) p else p)
      in p1\<lparr>np_rows := np_rows p1 @ map snd items, np_ids := np_ids p1 @ map (\<lambda>(f, v). Some f) items,
            np_pos := np_pos p1 @ zip (map fst items) [size..<n]\<rparr>)"

definition np_compact :: "np_part \<Rightarrow> np_part" where
  "np_compact p =
     (let n = length (np_pos p)
      in \<lparr>np_cap = np_capacity n, np_rows = map (\<lambda>(f, r). np_rows p ! r) (np_pos p),
          np_ids = map (\<lambda>(f, r). Some f) (np_pos p), np_pos = zip (map fst (np_pos p)) [0..<n],
          np_dead = None, np_dead_count = 0\<rparr>)"

definition np_remove :: "ustr \<Rightarrow> np_part \<Rightarrow> np_part" where
  "np_remove f p =
     (case map_of (np_pos p) f of
        None \<Rightarrow> p
      | Some row \<Rightarrow>
          (let mask = pad_mask (np_cap p) (case np_dead p of None \<Rightarrow> [] | Some m \<Rightarrow> m);
               p1 = p\<lparr>np_pos := AList.delete f (np_pos p), np_dead := Some (mask[row := True]),
                 np_ids := (np_ids p)[row := None], np_dead_count := np_dead_count p + 1\<rparr>
           in if np_dead_count p1 > max 64 (length (np_ids p1) div 4) then np_compact p1 else p1))"

definition np_get :: "np_part \<Rightarrow> ustr \<Rightarrow> vec option" where
  "np_get p f = map_option (\<lambda>r. np_rows p ! r) (map_of (np_pos p) f)"

definition row_dead :: "np_part \<Rightarrow> nat \<Rightarrow> bool" where
  "row_dead p r \<longleftrightarrow> np_dead_count p > 0 \<and> (case np_dead p of None \<Rightarrow> False | Some m \<Rightarrow> r < length m \<and> m ! r)"

text \<open>The rows scored, their scores, the candidates that reach the k-th score
  (\<open>np.partition\<close>), in \<open>lexsort\<close> order, and the hits among them.\<close>

definition np_top_rows :: "np_part \<Rightarrow> ustr set option \<Rightarrow> nat list" where
  "np_top_rows p inc = (case inc of None \<Rightarrow> [0..<length (np_ids p)]
     | Some s \<Rightarrow> sort (filter (\<lambda>r. r < length (np_ids p)) (map snd (filter (\<lambda>(f, r). f \<in> s) (np_pos p)))))"

definition np_score :: "np_part \<Rightarrow> vec \<Rightarrow> ustr set option \<Rightarrow> nat \<Rightarrow> real option" where
  "np_score p q inc r = (if inc = None \<and> row_dead p r then None else Some (vdot q (np_rows p ! r)))"

definition np_candidates :: "(nat \<Rightarrow> real option) \<Rightarrow> nat \<Rightarrow> nat list \<Rightarrow> nat list" where
  "np_candidates score k rows =
     (if k < length rows
      then (let kth = sort (map score rows) ! (length rows - k) in filter (\<lambda>r. kth \<le> score r) rows)
      else rows)"

definition np_hit :: "np_part \<Rightarrow> (nat \<Rightarrow> real option) \<Rightarrow> nat \<Rightarrow> hit option" where
  "np_hit p score r = (case score r of None \<Rightarrow> None | Some s \<Rightarrow> map_option (\<lambda>f. (s, r, f)) (np_ids p ! r))"

definition np_top :: "np_part \<Rightarrow> vec \<Rightarrow> nat \<Rightarrow> ustr set option \<Rightarrow> hit list" where
  "np_top p q k inc =
     (let rows = np_top_rows p inc; score = np_score p q inc
      in if length (np_ids p) = 0 then []
         else take k (List.map_filter (np_hit p score)
                (sort_key_desc score (sort_key (\<lambda>r. r) (np_candidates score k rows)))))"

section \<open>Partitions and the index\<close>

datatype partition = PyPart py_part | NpPart np_part

fun part_items :: "partition \<Rightarrow> (ustr \<times> vec) list" where
  "part_items (PyPart vs) = vs"
| "part_items (NpPart p) = map (\<lambda>(f, r). (f, np_rows p ! r)) (np_pos p)"

fun part_add :: "ustr \<Rightarrow> vec \<Rightarrow> partition \<Rightarrow> partition" where
  "part_add f v (PyPart vs) = PyPart (AList.update f v vs)"
| "part_add f v (NpPart p) = NpPart (np_add f v p)"

fun part_remove :: "ustr \<Rightarrow> partition \<Rightarrow> partition" where
  "part_remove f (PyPart vs) = PyPart (AList.delete f vs)"
| "part_remove f (NpPart p) = NpPart (np_remove f p)"

fun part_get :: "partition \<Rightarrow> ustr \<Rightarrow> vec option" where
  "part_get (PyPart vs) f = map_of vs f"
| "part_get (NpPart p) f = np_get p f"

fun part_ids :: "partition \<Rightarrow> ustr list" where
  "part_ids (PyPart vs) = map fst vs"
| "part_ids (NpPart p) = map fst (np_pos p)"

fun part_top :: "partition \<Rightarrow> vec \<Rightarrow> nat \<Rightarrow> ustr set option \<Rightarrow> hit list" where
  "part_top (PyPart vs) q k inc = py_top vs q k inc"
| "part_top (NpPart p) q k inc = np_top p q k inc"

text \<open>\<open>vi_numpy\<close> says whether numpy is active, \<open>vi_installed\<close> whether it can be
  imported.\<close>

record vector_index =
  vi_numpy :: bool
  vi_installed :: bool
  vi_auto :: bool
  vi_parts :: "(ustr option \<times> partition) list"
  vi_owner :: "(ustr \<times> ustr option) list"
  vi_content :: "(ustr \<times> ustr) list"
  vi_dim :: "nat option"
  vi_revision :: nat

definition AUTO_NUMPY_THRESHOLD :: nat where "AUTO_NUMPY_THRESHOLD = 2048"

datatype backend = BackendAuto | BackendNumpy | BackendPython

text \<open>\<open>ImportError\<close> is a \<open>RuntimeError\<close> here.\<close>

definition index_new :: "backend \<Rightarrow> bool \<Rightarrow> py_error + vector_index" where
  "index_new b installed =
     (if b = BackendNumpy \<and> \<not> installed then Inl RuntimeError
      else Inr \<lparr>vi_numpy = (b = BackendNumpy), vi_installed = installed, vi_auto = (b = BackendAuto),
        vi_parts = [], vi_owner = [], vi_content = [], vi_dim = None, vi_revision = 0\<rparr>)"

definition new_partition :: "vector_index \<Rightarrow> partition" where
  "new_partition ix = (if vi_numpy ix then NpPart np_new else PyPart [])"

definition partition_remove :: "ustr option \<Rightarrow> ustr \<Rightarrow> vector_index \<Rightarrow> vector_index" where
  "partition_remove a f ix =
     (case map_of (vi_parts ix) a of
        None \<Rightarrow> ix
      | Some p \<Rightarrow>
          (let p' = part_remove f p
           in ix\<lparr>vi_parts := (if part_ids p' = [] then AList.delete a (vi_parts ix) else AList.update a p' (vi_parts ix))\<rparr>))"

definition set_content :: "ustr \<Rightarrow> ustr \<Rightarrow> vector_index \<Rightarrow> vector_index" where
  "set_content f c ix = ix\<lparr>vi_content := (if c \<noteq> [] then AList.update f c (vi_content ix) else AList.delete f (vi_content ix))\<rparr>"

definition promote_part :: "partition \<Rightarrow> partition" where
  "promote_part p = (case p of NpPart q \<Rightarrow> NpPart q
     | PyPart vs \<Rightarrow> NpPart (if vs = [] then np_new else np_add_matrix vs 0 np_new))"

definition promote :: "vector_index \<Rightarrow> vector_index" where
  "promote ix =
     (if \<not> vi_installed ix \<or> vi_dim ix = None then ix\<lparr>vi_auto := False\<rparr>
      else ix\<lparr>vi_auto := False, vi_numpy := True, vi_parts := map (\<lambda>(a, p). (a, promote_part p)) (vi_parts ix)\<rparr>)"

definition index_add :: "ustr \<Rightarrow> vec \<Rightarrow> ustr \<Rightarrow> ustr option \<Rightarrow> vector_index \<Rightarrow> py_error + vector_index" where
  "index_add f emb content a ix =
     (let v = normalize_vec emb
      in if v = [] then Inl ValueError
         else if vi_dim ix \<noteq> None \<and> vi_dim ix \<noteq> Some (length v) then Inl ValueError
         else
           (let ix0 = ix\<lparr>vi_dim := Some (length v)\<rparr>;
                ix1 = (case map_of (vi_owner ix) f of
                    Some o' \<Rightarrow> if o' \<noteq> a then partition_remove o' f ix0 else ix0 | None \<Rightarrow> ix0);
                p = (case map_of (vi_parts ix1) a of None \<Rightarrow> new_partition ix1 | Some p \<Rightarrow> p);
                ix2 = ix1\<lparr>vi_parts := AList.update a (part_add f v p) (vi_parts ix1),
                  vi_owner := AList.update f a (vi_owner ix1)\<rparr>;
                ix3 = (set_content f content ix2)\<lparr>vi_revision := vi_revision ix + 1\<rparr>
            in Inr (if vi_auto ix3 \<and> length (vi_owner ix3) \<ge> AUTO_NUMPY_THRESHOLD then promote ix3 else ix3)))"

definition forget_dim :: "vector_index \<Rightarrow> vector_index" where
  "forget_dim ix = (if vi_owner ix = [] then ix\<lparr>vi_dim := None\<rparr> else ix)"

definition index_remove :: "ustr \<Rightarrow> vector_index \<Rightarrow> vector_index" where
  "index_remove f ix =
     (case map_of (vi_owner ix) f of
        None \<Rightarrow> ix
      | Some a \<Rightarrow>
          (let ix1 = partition_remove a f (ix\<lparr>vi_owner := AList.delete f (vi_owner ix),
                 vi_content := AList.delete f (vi_content ix)\<rparr>)
           in forget_dim (ix1\<lparr>vi_revision := vi_revision ix1 + 1\<rparr>)))"

definition index_clear :: "ustr option \<Rightarrow> vector_index \<Rightarrow> vector_index" where
  "index_clear a ix =
     (let ix1 = ix\<lparr>vi_revision := vi_revision ix + 1\<rparr>
      in case a of
           None \<Rightarrow> ix1\<lparr>vi_parts := [], vi_owner := [], vi_content := [], vi_dim := None\<rparr>
         | Some x \<Rightarrow>
             (case map_of (vi_parts ix) a of
                None \<Rightarrow> ix1
              | Some p \<Rightarrow> forget_dim (ix1\<lparr>vi_parts := AList.delete a (vi_parts ix),
                    vi_owner := fold AList.delete (part_ids p) (vi_owner ix),
                    vi_content := fold AList.delete (part_ids p) (vi_content ix)\<rparr>)))"

definition index_get :: "vector_index \<Rightarrow> ustr \<Rightarrow> vec option" where
  "index_get ix f = (case map_of (vi_owner ix) f of None \<Rightarrow> None
     | Some a \<Rightarrow> (case map_of (vi_parts ix) a of None \<Rightarrow> None | Some p \<Rightarrow> part_get p f))"

definition index_ids :: "vector_index \<Rightarrow> ustr option \<Rightarrow> ustr list" where
  "index_ids ix a = (if a = None then map fst (vi_owner ix)
     else (case map_of (vi_parts ix) a of None \<Rightarrow> [] | Some p \<Rightarrow> part_ids p))"

definition index_count :: "vector_index \<Rightarrow> ustr option \<Rightarrow> nat" where
  "index_count ix a = length (index_ids ix a)"

definition index_missing :: "vector_index \<Rightarrow> ustr set \<Rightarrow> ustr option \<Rightarrow> ustr set" where
  "index_missing ix ids a = ids - (case map_of (vi_parts ix) a of None \<Rightarrow> {} | Some p \<Rightarrow> set (part_ids p))"

text \<open>\<open>search\<close>: the hits of every searched partition, ordered by score, partition and
  position.\<close>

definition searched :: "vector_index \<Rightarrow> ustr option \<Rightarrow> partition list" where
  "searched ix a = (case a of None \<Rightarrow> map snd (vi_parts ix)
     | Some x \<Rightarrow> (case map_of (vi_parts ix) a of None \<Rightarrow> [] | Some p \<Rightarrow> [p]))"

definition all_hits :: "partition list \<Rightarrow> vec \<Rightarrow> nat \<Rightarrow> ustr set option \<Rightarrow> (real \<times> nat \<times> nat \<times> ustr) list" where
  "all_hits ps q k inc = concat (map (\<lambda>(n, p). map (\<lambda>(s, i, f). (s, n, i, f)) (part_top p q k inc)) (enumerate 0 ps))"

definition index_search ::
  "vec \<Rightarrow> int \<Rightarrow> real \<Rightarrow> ustr set option \<Rightarrow> ustr option \<Rightarrow> vector_index \<Rightarrow> py_error + (ustr \<times> real \<times> ustr) list" where
  "index_search q top_k min_score inc a ix =
     (if top_k \<le> 0 \<or> inc = Some {} then Inr []
      else (case vi_dim ix of
          None \<Rightarrow> Inr []
        | Some d \<Rightarrow>
            if length q \<noteq> d then Inl ValueError
            else
              (let k = nat top_k;
                   hits = sort_key (\<lambda>(s, n, i, f). (- s, n, i)) (all_hits (searched ix a) (normalize_vec q) k inc)
               in Inr (map (\<lambda>(s, n, i, f). (f, s, case map_of (vi_content ix) f of None \<Rightarrow> [] | Some c \<Rightarrow> c))
                    (filter (\<lambda>(s, n, i, f). s \<ge> min_score) (take k hits))))))"

section \<open>The contract of a backend\<close>

text \<open>What a search of a partition should return: the best \<open>k\<close> included vectors,
  best score first, ties in insertion order.\<close>

definition scored_items :: "(ustr \<times> vec) list \<Rightarrow> vec \<Rightarrow> ustr set option \<Rightarrow> (real \<times> ustr) list" where
  "scored_items xs q inc = map (\<lambda>(f, v). (vdot q v, f)) (filter (\<lambda>(f, v). included inc f) xs)"

definition best_hits :: "(ustr \<times> vec) list \<Rightarrow> vec \<Rightarrow> nat \<Rightarrow> ustr set option \<Rightarrow> (real \<times> ustr) list" where
  "best_hits xs q k inc = take k (sort_key (\<lambda>h. - fst h) (scored_items xs q inc))"

definition hit_value :: "hit \<Rightarrow> real \<times> ustr" where
  "hit_value h = (fst h, snd (snd h))"

text \<open>The hits come in order of score and, at one score, of position.\<close>

definition hits_ranked :: "hit list \<Rightarrow> bool" where
  "hits_ranked hs \<longleftrightarrow> sorted (map (\<lambda>(s, i, f). (- s, i)) hs)"

locale vector_partition =
  fixes items :: "'p \<Rightarrow> (ustr \<times> vec) list"
    and ok :: "'p \<Rightarrow> bool"
    and new :: 'p
    and add :: "ustr \<Rightarrow> vec \<Rightarrow> 'p \<Rightarrow> 'p"
    and remove :: "ustr \<Rightarrow> 'p \<Rightarrow> 'p"
    and get :: "'p \<Rightarrow> ustr \<Rightarrow> vec option"
    and ids :: "'p \<Rightarrow> ustr list"
    and top :: "'p \<Rightarrow> vec \<Rightarrow> nat \<Rightarrow> ustr set option \<Rightarrow> hit list"
  assumes ok_new: "ok new" and items_new: "items new = []"
    and ok_distinct: "ok p \<Longrightarrow> distinct (map fst (items p))"
    and ok_add: "ok p \<Longrightarrow> ok (add f v p)"
    and items_add: "ok p \<Longrightarrow> items (add f v p) = AList.update f v (items p)"
    and ok_remove: "ok p \<Longrightarrow> ok (remove f p)"
    and items_remove: "ok p \<Longrightarrow> items (remove f p) = AList.delete f (items p)"
    and get_items: "ok p \<Longrightarrow> get p f = map_of (items p) f"
    and ids_items: "ok p \<Longrightarrow> ids p = map fst (items p)"
    and top_items: "ok p \<Longrightarrow> map hit_value (top p q k inc) = best_hits (items p) q k inc"
    and top_ranked: "ok p \<Longrightarrow> hits_ranked (top p q k inc)"
begin

lemma get_add: "ok p \<Longrightarrow> get (add f v p) g = (if g = f then Some v else get p g)"
  by (simp add: get_items ok_add items_add update_conv')

lemma get_remove: "ok p \<Longrightarrow> get (remove f p) g = (if g = f then None else get p g)"
  by (simp add: get_items ok_remove items_remove delete_conv')

lemma get_ids: "ok p \<Longrightarrow> get p f \<noteq> None \<longleftrightarrow> f \<in> set (ids p)"
  by (simp add: get_items ids_items map_of_eq_None_iff)

text \<open>A removed vector is not found, and a vector added is the one that is scored.\<close>

lemma length_top: "ok p \<Longrightarrow> length (top p q k inc) \<le> k"
  by (metis top_items best_hits_def length_map length_take min.cobounded2)

end

section \<open>The dictionary backend keeps the contract\<close>

lemma py_top_items: "map hit_value (py_top vs q k inc) = best_hits vs q k inc"
proof -
  let ?L = "filter (\<lambda>(i, f, v). included inc f) (enumerate 0 vs)"
  let ?g = "\<lambda>(i :: nat, f :: ustr, v). (vdot q v, i, f)"
  have pos: "sorted (map (\<lambda>x. - int (fst (snd x))) (rev (filter P (map ?g ?L))))" for P
  proof -
    have "sorted_wrt (<) (map fst (enumerate 0 vs))" by simp
    then have "sorted_wrt (\<lambda>x y. fst x < fst y) (enumerate 0 vs)" by (simp only: sorted_wrt_map)
    then have "sorted_wrt (\<lambda>x y. fst x < fst y) ?L" by (rule sorted_wrt_filter)
    then have "sorted_wrt (\<lambda>x y. fst (snd x) < fst (snd y)) (map ?g ?L)"
      by (simp add: sorted_wrt_map case_prod_unfold)
    then have "sorted_wrt (\<lambda>x y. fst (snd x) < fst (snd y)) (filter P (map ?g ?L))" by (rule sorted_wrt_filter)
    then show ?thesis by (simp add: sorted_wrt_map sorted_wrt_rev) (erule sorted_wrt_mono_rel[rotated], simp)
  qed
  have "py_top vs q k inc = take k (sort_key_desc (\<lambda>x. (fst x, - int (fst (snd x)))) (map ?g ?L))"
    by (simp add: py_top_def py_scored_def case_prod_unfold)
  also have "sort_key_desc (\<lambda>x. (fst x, - int (fst (snd x)))) (map ?g ?L) = sort_key_desc fst (map ?g ?L)"
    by (rule sort_key_desc_refine) (rule pos)
  finally have "map hit_value (py_top vs q k inc) = take k (map hit_value (sort_key_desc fst (map ?g ?L)))"
    by (simp add: take_map)
  also have "map hit_value (sort_key_desc fst (map ?g ?L)) = sort_key_desc fst (map hit_value (map ?g ?L))"
    using map_sort_key_desc[of hit_value fst "map ?g ?L"] by (simp add: hit_value_def)
  also have "map hit_value (map ?g ?L) = map (\<lambda>(f, v). (vdot q v, f)) (map snd ?L)"
    by (simp add: hit_value_def case_prod_unfold)
  also have "map snd ?L = filter (\<lambda>(f, v). included inc f) (map snd (enumerate 0 vs))"
    by (simp only: filter_map comp_def case_prod_unfold)
  finally show ?thesis by (simp add: best_hits_def scored_items_def sort_key_desc_neg)
qed

lemma py_top_ranked: "hits_ranked (py_top vs q k inc)"
proof -
  let ?h = "\<lambda>x :: hit. (fst x, - int (fst (snd x)))"
  let ?xs = "sort_key_desc ?h (py_scored vs q inc)"
  have "sorted (rev (map ?h ?xs))" by (rule sort_key_desc_sorted)
  then have "sorted_wrt (\<lambda>x y. ?h y \<le> ?h x) ?xs" by (simp add: sorted_wrt_map sorted_wrt_rev)
  then have "sorted_wrt (\<lambda>x y. ?h y \<le> ?h x) (take k ?xs)" by (rule sorted_wrt_take)
  then show ?thesis
    by (simp add: hits_ranked_def py_top_def case_prod_unfold sorted_wrt_map less_eq_prod_def)
qed

interpretation py: vector_partition "\<lambda>vs :: py_part. vs" "\<lambda>vs. distinct (map fst vs)" "[]" AList.update
    AList.delete map_of "map fst" py_top
  by unfold_locales (simp_all add: py_top_items py_top_ranked distinct_update distinct_delete)

section \<open>The matrix backend keeps the contract\<close>

text \<open>The invariant of a matrix partition: the position table lists the live rows in row
  order, and the mask marks exactly the rows whose id was removed.\<close>

definition mask_at :: "np_part \<Rightarrow> nat \<Rightarrow> bool" where
  "mask_at p r \<longleftrightarrow> (case np_dead p of None \<Rightarrow> False | Some m \<Rightarrow> r < length m \<and> m ! r)"

definition live_rows :: "np_part \<Rightarrow> nat list" where
  "live_rows p = filter (\<lambda>r. np_ids p ! r \<noteq> None) [0..<length (np_ids p)]"

definition np_ok :: "np_part \<Rightarrow> bool" where
  "np_ok p \<longleftrightarrow> length (np_rows p) = length (np_ids p) \<and> length (np_ids p) \<le> np_cap p
     \<and> np_pos p = map (\<lambda>r. (the (np_ids p ! r), r)) (live_rows p) \<and> distinct (map fst (np_pos p))
     \<and> (\<forall>r. mask_at p r \<longleftrightarrow> r < length (np_ids p) \<and> np_ids p ! r = None)
     \<and> (np_dead_count p = 0 \<longrightarrow> None \<notin> set (np_ids p))"

definition np_items :: "np_part \<Rightarrow> (ustr \<times> vec) list" where
  "np_items p = map (\<lambda>(f, r). (f, np_rows p ! r)) (np_pos p)"

lemma fst_np_items [simp]: "map fst (np_items p) = map fst (np_pos p)"
  by (simp add: np_items_def case_prod_unfold)

lemma np_okD:
  assumes "np_ok p"
  shows "length (np_rows p) = length (np_ids p)" "length (np_ids p) \<le> np_cap p"
    "np_pos p = map (\<lambda>r. (the (np_ids p ! r), r)) (live_rows p)" "distinct (map fst (np_pos p))"
    "mask_at p r \<longleftrightarrow> r < length (np_ids p) \<and> np_ids p ! r = None"
    "np_dead_count p = 0 \<Longrightarrow> None \<notin> set (np_ids p)"
  using assms unfolding np_ok_def by blast+

lemma np_okI:
  assumes "length (np_rows p) = length (np_ids p)" "length (np_ids p) \<le> np_cap p"
    "np_pos p = map (\<lambda>r. (the (np_ids p ! r), r)) (live_rows p)" "distinct (map fst (np_pos p))"
    "\<And>r. mask_at p r \<longleftrightarrow> r < length (np_ids p) \<and> np_ids p ! r = None"
    "np_dead_count p = 0 \<Longrightarrow> None \<notin> set (np_ids p)"
  shows "np_ok p"
  using assms unfolding np_ok_def by blast

lemma live_rows_in: "r \<in> set (live_rows p) \<longleftrightarrow> r < length (np_ids p) \<and> np_ids p ! r \<noteq> None"
  by (simp add: live_rows_def)

lemma np_pos_in: "np_ok p \<Longrightarrow> (f, r) \<in> set (np_pos p) \<longleftrightarrow> r < length (np_ids p) \<and> np_ids p ! r = Some f"
  by (auto simp: np_okD(3) live_rows_in image_iff)

lemma np_pos_of: "np_ok p \<Longrightarrow> map_of (np_pos p) f = Some r \<longleftrightarrow> r < length (np_ids p) \<and> np_ids p ! r = Some f"
  by (metis map_of_eq_Some_iff np_okD(4) np_pos_in)

lemma np_pos_None: "np_ok p \<Longrightarrow> map_of (np_pos p) f = None \<longleftrightarrow> Some f \<notin> set (np_ids p)"
  by (metis in_set_conv_nth not_None_eq np_pos_of)

lemma nth_pad_mask: "r < length (pad_mask n m) \<and> pad_mask n m ! r \<longleftrightarrow> r < length m \<and> m ! r"
  by (auto simp: pad_mask_def nth_append)

lemma mask_at_grow [simp]: "mask_at (np_grow n p) r = mask_at p r"
  by (auto simp: mask_at_def np_grow_def nth_pad_mask split: option.splits)

lemma np_grow_simps [simp]:
  "np_rows (np_grow n p) = np_rows p" "np_ids (np_grow n p) = np_ids p" "np_pos (np_grow n p) = np_pos p"
  "np_dead_count (np_grow n p) = np_dead_count p" "n \<le> np_cap (np_grow n p)"
  by (simp_all add: np_grow_def np_capacity_def)

lemma np_ok_new: "np_ok np_new" "np_items np_new = []"
  by (simp_all add: np_ok_def np_new_def live_rows_def mask_at_def np_items_def)

text \<open>Association lists with distinct keys.\<close>

lemma update_in: "f \<in> set (map fst xs) \<Longrightarrow> distinct (map fst xs) \<Longrightarrow>
    AList.update f v xs = map (\<lambda>(g, w). (g, if g = f then v else w)) xs"
proof (induction xs)
  case (Cons x xs)
  have "map (\<lambda>(g, w). (g, if g = fst x then v else w)) xs = xs" if "fst x \<notin> set (map fst xs)"
  proof -
    have "\<forall>y\<in>set xs. fst y \<noteq> fst x" using that by (metis image_eqI list.set_map)
    then show ?thesis by (auto intro!: map_idI simp: case_prod_unfold)
  qed
  with Cons show ?case by (cases x) auto
qed simp

lemma update_new: "f \<notin> set (map fst xs) \<Longrightarrow> AList.update f v xs = xs @ [(f, v)]"
  by (induction xs) auto

subsection \<open>Adding\<close>

lemma live_rows_snoc:
  "np_ids p' = np_ids p @ [Some f] \<Longrightarrow> live_rows p' = live_rows p @ [length (np_ids p)]"
  by (auto simp: live_rows_def nth_append intro!: filter_cong)

lemma np_add_new:
  assumes "np_ok p" "map_of (np_pos p) f = None"
  shows "np_ok (np_add f v p)" "np_items (np_add f v p) = np_items p @ [(f, v)]"
proof -
  let ?n = "length (np_ids p)"
  define p1 where "p1 = (if ?n \<ge> np_cap p then np_grow (?n + 1) p else p)"
  have p1: "np_rows p1 = np_rows p" "np_ids p1 = np_ids p" "np_pos p1 = np_pos p"
    "np_dead_count p1 = np_dead_count p" "mask_at p1 = mask_at p" "?n + 1 \<le> np_cap p1"
    by (auto simp: p1_def)
  define p2 where "p2 = p1\<lparr>np_rows := np_rows p @ [v], np_ids := np_ids p @ [Some f], np_pos := np_pos p @ [(f, ?n)]\<rparr>"
  have add: "np_add f v p = p2" using assms(2) by (simp add: np_add_def Let_def p1_def p2_def)
  have live: "live_rows p2 = live_rows p @ [?n]" by (rule live_rows_snoc) (simp add: p2_def)
  have mask: "mask_at p2 r = mask_at p r" for r
    using p1(5) by (simp add: p2_def mask_at_def fun_eq_iff)
  have lt: "\<forall>r\<in>set (live_rows p). r < ?n" by (simp add: live_rows_def)
  show "np_ok (np_add f v p)"
    unfolding add
  proof (rule np_okI)
    show "np_pos p2 = map (\<lambda>r. (the (np_ids p2 ! r), r)) (live_rows p2)"
      using lt unfolding live by (simp add: p2_def np_okD(3)[OF assms(1)] nth_append)
    show "distinct (map fst (np_pos p2))"
      using assms np_okD(4)[OF assms(1)] by (simp add: p2_def map_of_eq_None_iff)
    show "mask_at p2 r \<longleftrightarrow> r < length (np_ids p2) \<and> np_ids p2 ! r = None" for r
      unfolding mask np_okD(5)[OF assms(1)] by (auto simp: p2_def nth_append less_Suc_eq)
  qed (use np_okD[OF assms(1)] p1 in \<open>auto simp: p2_def\<close>)
  have "length (np_rows p) = ?n" "\<forall>(g, r)\<in>set (np_pos p). r < ?n"
    using np_okD(1)[OF assms(1)] np_pos_in[OF assms(1)] by auto
  then show "np_items (np_add f v p) = np_items p @ [(f, v)]"
    unfolding add by (auto simp: p2_def np_items_def nth_append)
qed

lemma np_add_old:
  assumes "np_ok p" "map_of (np_pos p) f = Some row"
  shows "np_ok (np_add f v p)" "np_items (np_add f v p) = AList.update f v (np_items p)"
proof -
  have add: "np_add f v p = p\<lparr>np_rows := (np_rows p)[row := v]\<rparr>" using assms(2) by (simp add: np_add_def)
  show "np_ok (np_add f v p)"
    unfolding add by (rule np_okI) (use np_okD[OF assms(1)] in \<open>simp_all add: live_rows_def mask_at_def\<close>)
  have row: "row < length (np_rows p)" "np_ids p ! row = Some f"
    using assms np_pos_of np_okD(1) by auto
  have uniq: "r = row" if "(f, r) \<in> set (np_pos p)" for r
    using that assms(2) np_okD(4)[OF assms(1)] by (metis map_of_eq_Some_iff option.inject)
  have "(np_rows p)[row := v] ! r = (if g = f then v else np_rows p ! r)" if "(g, r) \<in> set (np_pos p)" for g r
    using that row np_pos_in[OF assms(1)] uniq by (cases "r = row") auto
  then have "np_items (np_add f v p) = map (\<lambda>(g, r). (g, if g = f then v else np_rows p ! r)) (np_pos p)"
    unfolding add by (auto simp: np_items_def)
  also have "\<dots> = AList.update f v (np_items p)"
  proof -
    have "f \<in> set (map fst (np_items p))" "distinct (map fst (np_items p))"
      using assms map_of_SomeD[OF assms(2)] by (force, simp add: np_okD(4))
    then show ?thesis by (simp only: update_in) (simp add: np_items_def case_prod_unfold)
  qed
  finally show "np_items (np_add f v p) = AList.update f v (np_items p)" .
qed

lemma np_ok_add: "np_ok p \<Longrightarrow> np_ok (np_add f v p)"
  by (cases "map_of (np_pos p) f") (simp_all add: np_add_new np_add_old)

lemma np_items_add: "np_ok p \<Longrightarrow> np_items (np_add f v p) = AList.update f v (np_items p)"
proof (cases "map_of (np_pos p) f")
  case None
  then have "f \<notin> set (map fst (np_items p))" by (simp only: fst_np_items) (simp add: map_of_eq_None_iff)
  then show "np_ok p \<Longrightarrow> ?thesis" 
    using None np_add_new(2)[of p f v] update_new[of f "np_items p" v] by metis
qed (simp add: np_add_old)

subsection \<open>Removing and compaction\<close>

lemma live_rows_full: "None \<notin> set (np_ids p) \<Longrightarrow> live_rows p = [0..<length (np_ids p)]"
  by (auto simp: live_rows_def filter_id_conv) (metis nth_mem not_Some_eq)

lemma np_compact_ok:
  assumes "np_ok p" shows "np_ok (np_compact p)" "np_items (np_compact p) = np_items p"
proof -
  let ?n = "length (np_pos p)"
  let ?c = "np_compact p"
  have ids: "np_ids ?c = map (\<lambda>x. Some (fst x)) (np_pos p)" "np_pos ?c = zip (map fst (np_pos p)) [0..<?n]"
    "np_rows ?c = map (\<lambda>x. np_rows p ! snd x) (np_pos p)" "np_dead ?c = None" "np_dead_count ?c = 0"
    "?n \<le> np_cap ?c"
    by (simp_all add: np_compact_def Let_def case_prod_unfold np_capacity_def)
  have live: "live_rows ?c = [0..<?n]" by (subst live_rows_full) (auto simp: ids)
  show "np_ok ?c"
  proof (rule np_okI)
    show "np_pos ?c = map (\<lambda>r. (the (np_ids ?c ! r), r)) (live_rows ?c)"
      unfolding live by (rule nth_equalityI) (simp_all add: ids)
    show "distinct (map fst (np_pos ?c))" using np_okD(4)[OF assms] by (simp add: ids)
  qed (auto simp: ids mask_at_def)
  show "np_items ?c = np_items p"
    by (rule nth_equalityI) (simp_all add: np_items_def ids case_prod_unfold)
qed

lemma np_remove_mark:
  assumes "np_ok p" "map_of (np_pos p) f = Some row"
    "p1 = p\<lparr>np_pos := AList.delete f (np_pos p), np_dead := Some ((pad_mask (np_cap p) m)[row := True]),
       np_ids := (np_ids p)[row := None], np_dead_count := np_dead_count p + 1\<rparr>"
    "m = (case np_dead p of None \<Rightarrow> [] | Some m \<Rightarrow> m)"
  shows "np_ok p1" "np_items p1 = AList.delete f (np_items p)"
proof -
  have row: "row < length (np_ids p)" "np_ids p ! row = Some f" using assms np_pos_of by blast+
  have m: "mask_at p r \<longleftrightarrow> r < length m \<and> m ! r" for r
    using assms(4) by (cases "np_dead p") (simp_all add: mask_at_def)
  have cap: "row < length (pad_mask (np_cap p) m)"
    using row(1) np_okD(2)[OF assms(1)] by (simp add: pad_mask_def)
  have only: "r = row" if "r < length (np_ids p)" "np_ids p ! r = Some f" for r
    using that assms(2) np_pos_of[OF assms(1)] by (metis option.inject)
  have live: "live_rows p1 = filter (\<lambda>r. r \<noteq> row) (live_rows p)"
    unfolding live_rows_def assms(3) using row(1) by (auto simp: nth_list_update intro!: filter_cong split: if_splits)
  have pos: "np_pos p1 = filter (\<lambda>x. fst x \<noteq> f) (np_pos p)"
    by (simp add: assms(3) AList.delete_eq case_prod_unfold eq_commute)
  show "np_ok p1"
  proof (rule np_okI)
    have "filter (\<lambda>r. the (np_ids p ! r) \<noteq> f) (live_rows p) = filter (\<lambda>r. r \<noteq> row) (live_rows p)"
    proof (rule filter_cong[OF refl])
      fix r assume "r \<in> set (live_rows p)"
      then show "the (np_ids p ! r) \<noteq> f \<longleftrightarrow> r \<noteq> row"
        using only[of r] row(2) unfolding live_rows_in by (metis option.collapse option.sel)
    qed
    then have "filter (\<lambda>x. fst x \<noteq> f) (map (\<lambda>r. (the (np_ids p ! r), r)) (live_rows p))
        = map (\<lambda>r. (the (np_ids p ! r), r)) (filter (\<lambda>r. r \<noteq> row) (live_rows p))"
      by (simp add: filter_map comp_def)
    then show "np_pos p1 = map (\<lambda>r. (the (np_ids p1 ! r), r)) (live_rows p1)"
      unfolding pos live np_okD(3)[OF assms(1)] by (auto simp: assms(3))
    show "distinct (map fst (np_pos p1))"
      using np_okD(4)[OF assms(1)] by (simp add: pos distinct_map_filter)
    show "mask_at p1 r \<longleftrightarrow> r < length (np_ids p1) \<and> np_ids p1 ! r = None" for r
    proof (cases "r = row")
      case True
      then show ?thesis using cap row by (simp add: assms(3) mask_at_def)
    next
      case False
      then have "mask_at p1 r = mask_at p r" using m nth_pad_mask[of r] by (simp add: assms(3) mask_at_def)
      with False show ?thesis by (simp add: np_okD(5)[OF assms(1)] assms(3))
    qed
  qed (use np_okD(1,2)[OF assms(1)] in \<open>simp_all add: assms(3)\<close>)
  show "np_items p1 = AList.delete f (np_items p)"
    by (simp add: np_items_def pos AList.delete_eq filter_map comp_def case_prod_unfold assms(3) eq_commute)
qed

lemma np_remove_ok:
  assumes "np_ok p"
  shows "np_ok (np_remove f p)" "np_items (np_remove f p) = AList.delete f (np_items p)"
proof -
  have "np_ok (np_remove f p) \<and> np_items (np_remove f p) = AList.delete f (np_items p)"
  proof (cases "map_of (np_pos p) f")
    case None
    then have "f \<notin> fst ` set (np_items p)"
      by (metis fst_np_items image_set map_of_eq_None_iff)
    with None assms show ?thesis by (simp add: np_remove_def)
  next
    case (Some row)
    note mark = np_remove_mark[OF assms Some refl refl]
    from Some mark np_compact_ok[OF mark(1)] show ?thesis by (simp add: np_remove_def Let_def)
  qed
  then show "np_ok (np_remove f p)" "np_items (np_remove f p) = AList.delete f (np_items p)" by blast+
qed

lemma np_get_items: "np_get p f = map_of (np_items p) f"
proof -
  have "map_of (map (\<lambda>(g, r). (g, h r)) xs) f = map_option h (map_of xs f)" for h :: "nat \<Rightarrow> vec" and xs
    by (induction xs) auto
  then show ?thesis by (simp add: np_get_def np_items_def)
qed

subsection \<open>Search\<close>

lemma take_takeWhile_take: "take k (takeWhile P xs) = takeWhile P (take k xs)"
  by (induction xs arbitrary: k) (simp_all add: take_Cons')

lemma take_filter_desc:
  "take k (filter (\<lambda>x. t < f x) (sort_key_desc f xs)) = takeWhile (\<lambda>x. t < f x) (take k (sort_key_desc f xs))"
  by (simp only: filter_equals_takeWhile_sorted_rev[OF sort_key_desc_sorted] take_takeWhile_take)

lemma np_candidates_take:
  "take k (sort_key_desc score (np_candidates score k rows)) = take k (sort_key_desc score rows)"
  by (simp add: np_candidates_def Let_def take_desc_cut)

text \<open>The rows a search may return, in row order.\<close>

definition hit_rows :: "np_part \<Rightarrow> ustr set option \<Rightarrow> nat list" where
  "hit_rows p inc = filter (\<lambda>r. included inc (the (np_ids p ! r))) (live_rows p)"

lemma row_dead_iff: "np_ok p \<Longrightarrow> r < length (np_ids p) \<Longrightarrow> row_dead p r \<longleftrightarrow> np_ids p ! r = None"
  using np_okD(5)[of p r] np_okD(6)[of p] nth_mem[of r "np_ids p"]
  unfolding row_dead_def mask_at_def by (metis gr0I)

lemma sorted_live_rows: "sorted_wrt (<) (live_rows p)"
  unfolding live_rows_def by (rule sorted_wrt_filter) simp

lemma sorted_hit_rows: "sorted_wrt (<) (hit_rows p inc)"
  unfolding hit_rows_def by (rule sorted_wrt_filter) (rule sorted_live_rows)

lemma np_top_rows_scored:
  assumes "np_ok p"
  shows "sort_key (\<lambda>r. r) (np_top_rows p inc) = np_top_rows p inc"
    "filter (\<lambda>r. None < np_score p q inc r) (np_top_rows p inc) = hit_rows p inc"
    "set (np_top_rows p inc) \<subseteq> {..<length (np_ids p)}"
proof -
  have "np_top_rows p (Some s) = hit_rows p (Some s)" for s
  proof -
    let ?xs = "map snd (filter (\<lambda>(f, r). f \<in> s) (np_pos p))"
    have xs: "?xs = hit_rows p (Some s)"
      by (simp add: np_okD(3)[OF assms] hit_rows_def included_def filter_map comp_def)
    have "filter (\<lambda>r. r < length (np_ids p)) (hit_rows p (Some s)) = hit_rows p (Some s)"
      by (rule filter_True) (simp add: hit_rows_def live_rows_in)
    then show ?thesis
      using sorted_hit_rows[of p "Some s"] unfolding np_top_rows_def option.case xs
      by (simp add: sort_key_id_if_sorted strict_sorted_iff)
  qed
  note some = this
  show "sort_key (\<lambda>r. r) (np_top_rows p inc) = np_top_rows p inc"
    using sorted_hit_rows[of p inc] by (cases inc) (simp_all add: some sort_key_id_if_sorted strict_sorted_iff, simp add: np_top_rows_def sort_key_id_if_sorted)
  show "filter (\<lambda>r. None < np_score p q inc r) (np_top_rows p inc) = hit_rows p inc"
  proof (cases inc)
    case None
    then show ?thesis
      by (auto simp: np_score_def np_top_rows_def hit_rows_def live_rows_def included_def row_dead_iff[OF assms]
          intro!: filter_cong)
  next
    case (Some s)
    then show ?thesis by (simp only: some) (rule filter_True, simp add: np_score_def)
  qed
  show "set (np_top_rows p inc) \<subseteq> {..<length (np_ids p)}"
    by (cases inc) (auto simp: some np_top_rows_def hit_rows_def live_rows_in)
qed

lemma np_hit_row:
  assumes "np_ok p" "r \<in> set (np_top_rows p inc)"
  shows "np_hit p (np_score p q inc) r =
    (if None < np_score p q inc r then Some (vdot q (np_rows p ! r), r, the (np_ids p ! r)) else None)"
proof -
  have r: "r < length (np_ids p)" using np_top_rows_scored(3)[OF assms(1)] assms(2) by blast
  have "np_ids p ! r \<noteq> None" if "None < np_score p q inc r"
  proof -
    from that assms(2) have "r \<in> set (filter (\<lambda>r. None < np_score p q inc r) (np_top_rows p inc))" by simp
    then have "r \<in> set (hit_rows p inc)" by (simp only: np_top_rows_scored(2)[OF assms(1)])
    then show ?thesis by (simp add: hit_rows_def live_rows_in)
  qed
  then show ?thesis
    by (cases "np_score p q inc r") (auto simp: np_hit_def, auto simp: np_score_def split: if_splits)
qed

lemma map_filter_if: "(\<And>x. x \<in> set xs \<Longrightarrow> g x = (if P x then Some (h x) else None)) \<Longrightarrow>
    List.map_filter g xs = map h (filter P xs)"
  by (induction xs) simp_all

lemma np_top_rows_hits:
  assumes "np_ok p"
  shows "np_top p q k inc = map (\<lambda>r. (vdot q (np_rows p ! r), r, the (np_ids p ! r)))
    (take k (sort_key_desc (\<lambda>r. vdot q (np_rows p ! r)) (hit_rows p inc)))"
proof -
  let ?score = "np_score p q inc"
  let ?rows = "np_top_rows p inc"
  let ?h = "\<lambda>r. (vdot q (np_rows p ! r), r, the (np_ids p ! r))"
  let ?c = "np_candidates ?score k ?rows"
  have c: "set ?c \<subseteq> set ?rows" "sort_key (\<lambda>r. r) ?c = ?c"
    using np_top_rows_scored(1)[OF assms, of inc]
    by (auto simp: np_candidates_def Let_def filter_sort[symmetric])
  have "take k (List.map_filter (np_hit p ?score) (sort_key_desc ?score (sort_key (\<lambda>r. r) ?c)))
      = take k (map ?h (filter (\<lambda>r. None < ?score r) (sort_key_desc ?score ?c)))"
    using c by (subst map_filter_if[where P = "\<lambda>r. None < ?score r" and h = ?h]) (auto simp: np_hit_row[OF assms])
  also have "\<dots> = map ?h (take k (filter (\<lambda>r. None < ?score r) (sort_key_desc ?score ?rows)))"
    by (simp only: take_map take_filter_desc np_candidates_take)
  also have "filter (\<lambda>r. None < ?score r) (sort_key_desc ?score ?rows) = sort_key_desc ?score (hit_rows p inc)"
    by (simp only: filter_sort_key_desc np_top_rows_scored(2)[OF assms])
  also have "\<dots> = sort_key_desc (\<lambda>r. vdot q (np_rows p ! r)) (hit_rows p inc)"
  proof (rule sort_key_desc_order)
    have s: "?score r = Some (vdot q (np_rows p ! r))" if "r \<in> set (hit_rows p inc)" for r
    proof -
      from that have "r \<in> set (filter (\<lambda>r. None < ?score r) ?rows)" by (simp only: np_top_rows_scored(2)[OF assms])
      then have "None < ?score r" by simp
      then show ?thesis by (simp add: np_score_def split: if_splits)
    qed
    fix x y assume "x \<in> set (hit_rows p inc)" "y \<in> set (hit_rows p inc)"
    then show "?score x \<le> ?score y \<longleftrightarrow> vdot q (np_rows p ! x) \<le> vdot q (np_rows p ! y)" by (simp add: s)
  qed
  finally have "take k (List.map_filter (np_hit p ?score) (sort_key_desc ?score (sort_key (\<lambda>r. r) ?c)))
    = map ?h (take k (sort_key_desc (\<lambda>r. vdot q (np_rows p ! r)) (hit_rows p inc)))" .
  then show ?thesis by (auto simp: np_top_def Let_def hit_rows_def live_rows_def)
qed

lemma np_top_items: "np_ok p \<Longrightarrow> map hit_value (np_top p q k inc) = best_hits (np_items p) q k inc"
proof -
  assume ok: "np_ok p"
  let ?g = "\<lambda>r. (vdot q (np_rows p ! r), the (np_ids p ! r))"
  have "scored_items (np_items p) q inc = map ?g (hit_rows p inc)"
    by (simp add: scored_items_def np_items_def np_okD(3)[OF ok] filter_map comp_def case_prod_unfold hit_rows_def)
  then have "best_hits (np_items p) q k inc = take k (map ?g (sort_key_desc (\<lambda>r. vdot q (np_rows p ! r)) (hit_rows p inc)))"
    using map_sort_key_desc[of ?g fst "hit_rows p inc"] by (simp add: best_hits_def sort_key_desc_neg[symmetric])
  then show ?thesis by (simp add: np_top_rows_hits[OF ok] hit_value_def take_map comp_def)
qed

lemma np_top_ranked: "np_ok p \<Longrightarrow> hits_ranked (np_top p q k inc)"
proof -
  assume ok: "np_ok p"
  let ?f = "\<lambda>r. - vdot q (np_rows p ! r)"
  have "sort_key (\<lambda>r. (?f r, r)) (hit_rows p inc) = sort_key ?f (hit_rows p inc)"
  proof (rule sort_key_refine)
    show "sorted (map (\<lambda>r. r) (filter P (hit_rows p inc)))" for P
      using sorted_wrt_filter[OF sorted_hit_rows[of p inc]] by (simp add: strict_sorted_iff)
  qed
  then have "sort_key_desc (\<lambda>r. vdot q (np_rows p ! r)) (hit_rows p inc) = sort_key (\<lambda>r. (?f r, r)) (hit_rows p inc)"
    by (simp add: sort_key_desc_neg)
  moreover have "sorted (take k (map (\<lambda>r. (?f r, r)) (sort_key (\<lambda>r. (?f r, r)) (hit_rows p inc))))"
    by (rule sorted_wrt_take) simp
  ultimately show ?thesis by (simp add: hits_ranked_def np_top_rows_hits[OF ok] comp_def take_map)
qed

interpretation np: vector_partition np_items np_ok np_new np_add np_remove np_get "\<lambda>p. map fst (np_pos p)" np_top
  by unfold_locales (simp_all add: np_ok_new np_ok_add np_items_add np_remove_ok np_okD(4) np_get_items
      np_top_items np_top_ranked)

section \<open>Partitions keep the contract, promotion included\<close>

fun part_ok :: "partition \<Rightarrow> bool" where
  "part_ok (PyPart vs) \<longleftrightarrow> distinct (map fst vs)"
| "part_ok (NpPart p) \<longleftrightarrow> np_ok p"

lemma part_items_np [simp]: "part_items (NpPart p) = np_items p"
  by (simp add: np_items_def)

declare part_items.simps(2) [simp del]

interpretation pt: vector_partition part_items part_ok "PyPart []" part_add part_remove part_get part_ids part_top
proof unfold_locales
  fix p f v q k inc assume "part_ok p"
  then show "distinct (map fst (part_items p))" "part_ok (part_add f v p)"
    "part_items (part_add f v p) = AList.update f v (part_items p)" "part_ok (part_remove f p)"
    "part_items (part_remove f p) = AList.delete f (part_items p)" "part_get p f = map_of (part_items p) f"
    "part_ids p = map fst (part_items p)" "map hit_value (part_top p q k inc) = best_hits (part_items p) q k inc"
    "hits_ranked (part_top p q k inc)"
    by (cases p; simp add: py.ok_add py.ok_remove py_top_items py_top_ranked np.ok_distinct[simplified] np.ok_add
        np.items_add np.ok_remove np.items_remove np.get_items np.top_items np.top_ranked)+
qed simp_all

lemma promote_part_ok:
  assumes "part_ok p" shows "part_ok (promote_part p)" "part_items (promote_part p) = part_items p"
proof -
  have "np_ok (np_add_matrix vs 0 np_new) \<and> np_items (np_add_matrix vs 0 np_new) = vs"
    if "distinct (map fst vs)" for vs
  proof
    let ?n = "length vs"
    let ?p = "np_add_matrix vs 0 np_new"
    have p: "np_ids ?p = map (\<lambda>x. Some (fst x)) vs" "np_rows ?p = map snd vs" "np_pos ?p = zip (map fst vs) [0..<?n]"
      "np_dead ?p = None" "np_dead_count ?p = 0" "?n \<le> np_cap ?p"
      by (auto simp: np_add_matrix_def Let_def np_new_def np_grow_def np_capacity_def case_prod_unfold)
    have live: "live_rows ?p = [0..<?n]" by (subst live_rows_full) (auto simp: p)
    show "np_ok ?p"
    proof (rule np_okI)
      show "np_pos ?p = map (\<lambda>r. (the (np_ids ?p ! r), r)) (live_rows ?p)"
        unfolding live by (rule nth_equalityI) (simp_all add: p)
      show "distinct (map fst (np_pos ?p))" using that by (simp add: p)
    qed (auto simp: p mask_at_def)
    show "np_items ?p = vs" by (rule nth_equalityI) (simp_all add: np_items_def p case_prod_unfold)
  qed
  with assms show "part_ok (promote_part p)" "part_items (promote_part p) = part_items p"
    by (cases p; auto simp: promote_part_def np_ok_new)+
qed

lemma new_partition_ok [simp]: "part_ok (new_partition ix)" "part_items (new_partition ix) = []"
  by (simp_all add: new_partition_def np_ok_new)

section \<open>The index refines its pure-Python reading\<close>

definition map_parts :: "('p \<Rightarrow> 'q) \<Rightarrow> ('a \<times> 'p) list \<Rightarrow> ('a \<times> 'q) list" where
  "map_parts h = map (\<lambda>(a, p). (a, h p))"

lemma map_parts_simps [simp]:
  "map_parts h (AList.update a p xs) = AList.update a (h p) (map_parts h xs)"
  "map_parts h (AList.delete a xs) = AList.delete a (map_parts h xs)"
  "map_of (map_parts h xs) a = map_option h (map_of xs a)"
  "map snd (map_parts h xs) = map h (map snd xs)"
  "map fst (map_parts h xs) = map fst xs"
  "map_parts h [] = []"
  by (induction xs) (auto simp: map_parts_def)

definition as_python :: "vector_index \<Rightarrow> vector_index" where
  "as_python ix = ix\<lparr>vi_numpy := False, vi_auto := False, vi_parts := map_parts (\<lambda>p. PyPart (part_items p)) (vi_parts ix)\<rparr>"

definition parts_ok :: "vector_index \<Rightarrow> bool" where
  "parts_ok ix \<longleftrightarrow> distinct (map fst (vi_parts ix)) \<and> (\<forall>a p. map_of (vi_parts ix) a = Some p \<longrightarrow> part_ok p)"

lemma parts_okD: "parts_ok ix \<Longrightarrow> map_of (vi_parts ix) a = Some p \<Longrightarrow> part_ok p"
  by (simp add: parts_ok_def)

lemma parts_ok_cong: "vi_parts ix = vi_parts ix' \<Longrightarrow> parts_ok ix \<longleftrightarrow> parts_ok ix'"
  by (simp add: parts_ok_def)

lemma parts_ok_update:
  "parts_ok ix \<Longrightarrow> vi_parts ix' = AList.update a p (vi_parts ix) \<Longrightarrow> part_ok p \<Longrightarrow> parts_ok ix'"
  by (simp add: parts_ok_def AList.update_conv' distinct_update)

lemma parts_ok_delete:
  "parts_ok ix \<Longrightarrow> vi_parts ix' = AList.delete a (vi_parts ix) \<Longrightarrow> parts_ok ix'"
  by (simp add: parts_ok_def delete_conv' distinct_delete)

lemmas part_laws = pt.ok_add pt.items_add pt.ok_remove pt.items_remove pt.get_items pt.ids_items
  pt.top_items pt.top_ranked

subsection \<open>Every operation commutes with the reading\<close>

lemma as_python_sel [simp]:
  "vi_numpy (as_python ix) = False" "vi_auto (as_python ix) = False" "vi_owner (as_python ix) = vi_owner ix"
  "vi_content (as_python ix) = vi_content ix" "vi_dim (as_python ix) = vi_dim ix" "vi_revision (as_python ix) = vi_revision ix"
  "vi_parts (as_python ix) = map_parts (\<lambda>p. PyPart (part_items p)) (vi_parts ix)" "vi_installed (as_python ix) = vi_installed ix"
  by (simp_all add: as_python_def)

lemma set_content_sel [simp]:
  "vi_auto (set_content f c ix) = vi_auto ix" "vi_parts (set_content f c ix) = vi_parts ix"
  "vi_owner (set_content f c ix) = vi_owner ix" "vi_dim (set_content f c ix) = vi_dim ix"
  by (simp_all add: set_content_def)

lemma partition_remove_sim:
  assumes "parts_ok ix"
  shows "parts_ok (partition_remove a f ix)" "as_python (partition_remove a f ix) = partition_remove a f (as_python ix)"
proof -
  have "parts_ok (partition_remove a f ix) \<and> as_python (partition_remove a f ix) = partition_remove a f (as_python ix)"
  proof (cases "map_of (vi_parts ix) a")
    case None
    with assms show ?thesis by (simp add: partition_remove_def)
  next
    case (Some p)
    have ok: "part_ok p" using assms Some by (rule parts_okD)
    have "parts_ok (partition_remove a f ix)"
      using assms ok Some by (auto simp: partition_remove_def Let_def pt.ok_remove intro: parts_ok_update parts_ok_delete)
    moreover have "as_python (partition_remove a f ix) = partition_remove a f (as_python ix)"
      using Some ok by (simp add: partition_remove_def Let_def part_laws as_python_def)
    ultimately show ?thesis ..
  qed
  then show "parts_ok (partition_remove a f ix)" "as_python (partition_remove a f ix) = partition_remove a f (as_python ix)"
    by blast+
qed

lemma promote_sim:
  assumes "parts_ok ix" shows "parts_ok (promote ix)" "as_python (promote ix) = as_python ix"
proof -
  have parts: "vi_parts (promote ix) = vi_parts ix \<or> vi_parts (promote ix) = map_parts promote_part (vi_parts ix)"
    by (simp add: promote_def map_parts_def)
  then show "parts_ok (promote ix)"
    using assms by (auto simp: parts_ok_def promote_part_ok)
  have "map_parts (\<lambda>p. PyPart (part_items p)) (map_parts promote_part (vi_parts ix))
      = map_parts (\<lambda>p. PyPart (part_items p)) (vi_parts ix)"
    using assms by (auto simp: map_parts_def parts_ok_def promote_part_ok)
  then show "as_python (promote ix) = as_python ix"
    by (simp add: promote_def as_python_def map_parts_def[of promote_part, symmetric])
qed

lemma index_add_sim:
  assumes "parts_ok ix"
  shows "case index_add f v c a ix of Inl e \<Rightarrow> index_add f v c a (as_python ix) = Inl e
    | Inr ix' \<Rightarrow> parts_ok ix' \<and> index_add f v c a (as_python ix) = Inr (as_python ix')"
proof -
  let ?v = "normalize_vec v"
  define ix0 where "ix0 = ix\<lparr>vi_dim := Some (length ?v)\<rparr>"
  define ix1 where "ix1 = (case map_of (vi_owner ix) f of
     Some o' \<Rightarrow> if o' \<noteq> a then partition_remove o' f ix0 else ix0 | None \<Rightarrow> ix0)"
  define p where "p = (case map_of (vi_parts ix1) a of None \<Rightarrow> new_partition ix1 | Some p \<Rightarrow> p)"
  define ix3 where "ix3 = (set_content f c (ix1\<lparr>vi_parts := AList.update a (part_add f ?v p) (vi_parts ix1),
     vi_owner := AList.update f a (vi_owner ix1)\<rparr>))\<lparr>vi_revision := vi_revision ix + 1\<rparr>"
  have ok0: "parts_ok ix0" using assms by (simp add: ix0_def parts_ok_def)
  have ok1: "parts_ok ix1" using ok0 partition_remove_sim(1)[OF ok0] by (simp add: ix1_def split: option.split)
  have okp: "part_ok p" using ok1 by (auto simp: p_def parts_ok_def split: option.split)
  have ok3: "parts_ok ix3"
    by (rule parts_ok_update[OF ok1 _ pt.ok_add[OF okp]]) (simp add: ix3_def set_content_def)
  have abs0: "as_python ix0 = (as_python ix)\<lparr>vi_dim := Some (length ?v)\<rparr>" by (simp add: ix0_def as_python_def)
  have abs1: "as_python ix1 = (case map_of (vi_owner ix) f of
     Some o' \<Rightarrow> if o' \<noteq> a then partition_remove o' f (as_python ix0) else as_python ix0 | None \<Rightarrow> as_python ix0)"
    using partition_remove_sim(2)[OF ok0] by (simp add: ix1_def split: option.split)
  have absp: "PyPart (part_items p) = (case map_of (vi_parts (as_python ix1)) a of None \<Rightarrow> new_partition (as_python ix1) | Some p \<Rightarrow> p)"
    by (simp add: p_def new_partition_def[of "as_python ix1"] split: option.split)
  have add: "index_add f v c a ix = (if ?v = [] then Inl ValueError
      else if vi_dim ix \<noteq> None \<and> vi_dim ix \<noteq> Some (length ?v) then Inl ValueError
      else Inr (if vi_auto ix3 \<and> length (vi_owner ix3) \<ge> AUTO_NUMPY_THRESHOLD then promote ix3 else ix3))"
    by (simp only: index_add_def Let_def ix3_def p_def ix1_def ix0_def)
  have "as_python ix3 = (set_content f c ((as_python ix1)\<lparr>vi_parts := AList.update a (part_add f ?v (PyPart (part_items p))) (vi_parts (as_python ix1)),
     vi_owner := AList.update f a (vi_owner (as_python ix1))\<rparr>))\<lparr>vi_revision := vi_revision ix + 1\<rparr>"
    using okp by (simp add: ix3_def set_content_def as_python_def part_laws)
  then have "index_add f v c a (as_python ix) = (if ?v = [] then Inl ValueError
      else if vi_dim ix \<noteq> None \<and> vi_dim ix \<noteq> Some (length ?v) then Inl ValueError
      else Inr (as_python ix3))"
    by (simp only: index_add_def Let_def as_python_sel(2-6) abs0[symmetric] abs1[symmetric] absp[symmetric]) simp
  then show ?thesis using ok3 promote_sim[OF ok3] by (simp add: add)
qed

lemma forget_dim_sim [simp]: "as_python (forget_dim ix) = forget_dim (as_python ix)" "parts_ok (forget_dim ix) = parts_ok ix"
  by (simp_all add: forget_dim_def as_python_def parts_ok_def)

lemma index_remove_sim:
  assumes "parts_ok ix"
  shows "parts_ok (index_remove f ix)" "as_python (index_remove f ix) = index_remove f (as_python ix)"
proof -
  let ?ix = "ix\<lparr>vi_owner := AList.delete f (vi_owner ix), vi_content := AList.delete f (vi_content ix)\<rparr>"
  have ok: "parts_ok ?ix" using assms by (simp add: parts_ok_def)
  have abs: "as_python ?ix = (as_python ix)\<lparr>vi_owner := AList.delete f (vi_owner ix), vi_content := AList.delete f (vi_content ix)\<rparr>"
    by (simp add: as_python_def)
  note sim = partition_remove_sim[OF ok, unfolded abs]
  have rev: "as_python (i\<lparr>vi_revision := n\<rparr>) = (as_python i)\<lparr>vi_revision := n\<rparr>" "parts_ok (i\<lparr>vi_revision := n\<rparr>) = parts_ok i" for i n
    by (simp_all add: as_python_def parts_ok_def)
  have sel: "vi_revision i = vi_revision (as_python i)" for i by simp
  show "parts_ok (index_remove f ix)"
    using assms sim(1) by (simp add: index_remove_def Let_def rev split: option.split)
  show "as_python (index_remove f ix) = index_remove f (as_python ix)"
  proof (cases "map_of (vi_owner ix) f")
    case (Some a)
    have "vi_revision (partition_remove a f ?ix) = vi_revision (as_python (partition_remove a f ?ix))" by simp
    then show ?thesis using Some by (simp add: index_remove_def Let_def rev sim(2))
  qed (simp add: index_remove_def)
qed

lemma index_clear_sim:
  assumes "parts_ok ix"
  shows "parts_ok (index_clear a ix)" "as_python (index_clear a ix) = index_clear a (as_python ix)"
proof -
  have "parts_ok (index_clear a ix) \<and> as_python (index_clear a ix) = index_clear a (as_python ix)"
  proof (cases a)
    case None
    then show ?thesis by (simp add: index_clear_def as_python_def parts_ok_def)
  next
    case (Some x)
    show ?thesis
    proof (cases "map_of (vi_parts ix) a")
      case None
      with Some assms show ?thesis by (simp add: index_clear_def as_python_def parts_ok_def)
    next
      case (Some p)
      have "part_ok p" using assms Some by (rule parts_okD)
      moreover have "parts_ok (index_clear a ix)"
        using \<open>a = Some x\<close> Some by (simp add: index_clear_def Let_def) (rule parts_ok_delete[OF assms], simp)
      ultimately show ?thesis using \<open>a = Some x\<close> Some
        by (simp add: index_clear_def Let_def pt.ids_items) (simp add: as_python_def forget_dim_def)
    qed
  qed
  then show "parts_ok (index_clear a ix)" "as_python (index_clear a ix) = index_clear a (as_python ix)" by blast+
qed

subsection \<open>Runs of operations\<close>

text \<open>A refused \<open>add\<close> leaves the index as it was.\<close>

datatype index_op = OpAdd ustr vec ustr "ustr option" | OpRemove ustr | OpClear "ustr option"

fun index_step :: "index_op \<Rightarrow> vector_index \<Rightarrow> vector_index" where
  "index_step (OpAdd f v c a) ix = (case index_add f v c a ix of Inl e \<Rightarrow> ix | Inr ix' \<Rightarrow> ix')"
| "index_step (OpRemove f) ix = index_remove f ix"
| "index_step (OpClear a) ix = index_clear a ix"

definition index_empty :: "backend \<Rightarrow> bool \<Rightarrow> vector_index" where
  "index_empty b installed = \<lparr>vi_numpy = (b = BackendNumpy), vi_installed = installed, vi_auto = (b = BackendAuto),
     vi_parts = [], vi_owner = [], vi_content = [], vi_dim = None, vi_revision = 0\<rparr>"

lemma index_new_empty: "index_new b installed =
    (if b = BackendNumpy \<and> \<not> installed then Inl RuntimeError else Inr (index_empty b installed))"
  by (simp add: index_new_def index_empty_def)

definition index_run :: "backend \<Rightarrow> bool \<Rightarrow> index_op list \<Rightarrow> vector_index" where
  "index_run b installed ops = fold index_step ops (index_empty b installed)"

lemma index_step_sim:
  assumes "parts_ok ix"
  shows "parts_ok (index_step op ix)" "as_python (index_step op ix) = index_step op (as_python ix)"
proof -
  have "parts_ok (index_step op ix) \<and> as_python (index_step op ix) = index_step op (as_python ix)"
  proof (cases op)
    case (OpAdd f v c a)
    show ?thesis using index_add_sim[OF assms, of f v c a] assms
      by (cases "index_add f v c a ix") (simp_all add: OpAdd)
  qed (simp_all add: index_remove_sim[OF assms] index_clear_sim[OF assms])
  then show "parts_ok (index_step op ix)" "as_python (index_step op ix) = index_step op (as_python ix)" by blast+
qed

lemma index_run_sim:
  "parts_ok (index_run b installed ops)"
  "as_python (index_run b installed ops) = index_run BackendPython installed ops"
proof -
  have "parts_ok ix \<Longrightarrow> parts_ok (fold index_step ops ix) \<and> as_python (fold index_step ops ix) = fold index_step ops (as_python ix)" for ix
    by (induction ops arbitrary: ix) (simp_all add: index_step_sim)
  moreover have "parts_ok (index_empty b installed)" "as_python (index_empty b installed) = index_empty BackendPython installed"
    by (simp_all add: index_empty_def parts_ok_def as_python_def)
  ultimately show "parts_ok (index_run b installed ops)"
    "as_python (index_run b installed ops) = index_run BackendPython installed ops"
    by (simp_all add: index_run_def)
qed

section \<open>Search is exhaustive\<close>

text \<open>The reference: score every vector of the searched partitions, rank, cut.\<close>

definition reference_search ::
  "vec \<Rightarrow> int \<Rightarrow> real \<Rightarrow> ustr set option \<Rightarrow> ustr option \<Rightarrow> vector_index \<Rightarrow> py_error + (ustr \<times> real \<times> ustr) list" where
  "reference_search q top_k min_score inc a ix =
     (if top_k \<le> 0 \<or> inc = Some {} \<or> vi_dim ix = None then Inr []
      else if Some (length q) \<noteq> vi_dim ix then Inl ValueError
      else Inr (map (\<lambda>(s, f). (f, s, case map_of (vi_content ix) f of None \<Rightarrow> [] | Some c \<Rightarrow> c))
        (filter (\<lambda>(s, f). s \<ge> min_score)
          (best_hits (concat (map part_items (searched ix a))) (normalize_vec q) (nat top_k) inc))))"

lemma scored_items_concat: "scored_items (concat xss) q inc = concat (map (\<lambda>xs. scored_items xs q inc) xss)"
  by (induction xss) (simp_all add: scored_items_def)

lemma all_hits_ranked:
  assumes "\<forall>p\<in>set ps. part_ok p"
  shows "sort_key (\<lambda>(s, n, i, f). (- s, n, i)) (all_hits ps q k inc) = sort_key (\<lambda>h. - fst h) (all_hits ps q k inc)"
proof -
  define L where "L m ps = concat (map (\<lambda>(n, p). map (\<lambda>(s, i, f). (s, n, i, f)) (part_top p q k inc)) (enumerate m ps))"
    for m and ps :: "partition list"
  have rank: "sorted (map snd' (filter (\<lambda>h. - fst h = c) (L m ps))) \<and> (\<forall>h\<in>set (L m ps). m \<le> fst (snd h))"
    if "\<forall>p\<in>set ps. part_ok p" "snd' = (\<lambda>h. (fst (snd h), fst (snd (snd h))))" for snd' c m ps
    using that(1)
  proof (induction ps arbitrary: m)
    case (Cons p ps)
    have "hits_ranked (part_top p q k inc)" using Cons.prems by (simp add: pt.top_ranked)
    then have "sorted_wrt (\<lambda>x y. - fst x = c \<and> - fst y = c \<longrightarrow> fst (snd x) \<le> fst (snd y)) (part_top p q k inc)"
      by (simp add: hits_ranked_def sorted_wrt_map case_prod_unfold) (erule sorted_wrt_mono_rel[rotated], auto)
    then have "sorted_wrt (\<lambda>x y. - fst x = c \<and> - fst y = c \<longrightarrow> fst (snd x) \<le> fst (snd y)) (filter (\<lambda>h. - fst h = c) (part_top p q k inc))"
      by (rule sorted_wrt_filter)
    then have "sorted (map (\<lambda>h. (m, fst (snd h))) (filter (\<lambda>h. - fst h = c) (part_top p q k inc)))"
      by (simp add: sorted_wrt_map) (erule sorted_wrt_mono_rel[rotated], auto)
    then have "sorted (map snd' (filter (\<lambda>h. - fst h = c) (map (\<lambda>(s, i, f). (s, m, i, f)) (part_top p q k inc))))"
      by (simp add: that(2) filter_map comp_def case_prod_unfold)
    moreover have "L m (p # ps) = map (\<lambda>(s, i, f). (s, m, i, f)) (part_top p q k inc) @ L (Suc m) ps"
      by (simp add: L_def)
    moreover have IH: "sorted (map snd' (filter (\<lambda>h. - fst h = c) (L (Suc m) ps)))" "\<forall>h\<in>set (L (Suc m) ps). Suc m \<le> fst (snd h)"
      using Cons by simp_all
    moreover have "\<forall>h\<in>set (L (Suc m) ps). \<forall>j. (m, j) \<le> snd' h" using IH(2) by (fastforce simp: that(2) less_eq_prod_def)
    ultimately show ?case
      by (simp add: sorted_append) (fastforce simp: that(2))
  qed (simp add: L_def)
  have "sort_key (\<lambda>h. (- fst h, fst (snd h), fst (snd (snd h)))) (L 0 ps) = sort_key (\<lambda>h. - fst h) (L 0 ps)"
    by (rule sort_key_refine) (use rank[OF assms refl] in blast)
  then show ?thesis by (simp add: all_hits_def L_def case_prod_unfold)
qed

lemma search_reference:
  assumes "parts_ok ix"
  shows "index_search q top_k min_score inc a ix = reference_search q top_k min_score inc a ix"
proof -
  let ?ps = "searched ix a" and ?q = "normalize_vec q" and ?k = "nat top_k"
  let ?v = "\<lambda>h :: real \<times> nat \<times> nat \<times> ustr. (fst h, snd (snd (snd h)))"
  have ok: "\<forall>p\<in>set ?ps. part_ok p"
    using assms by (auto simp: searched_def parts_ok_def split: option.splits)
  have concat: "map ?v (all_hits ps ?q ?k inc) = concat (map (\<lambda>p. map hit_value (part_top p ?q ?k inc)) ps)" for ps
  proof -
    have "map ?v (concat (map (\<lambda>(n, p). map (\<lambda>(s, i, f). (s, n, i, f)) (part_top p ?q ?k inc)) (enumerate m ps)))
        = concat (map (\<lambda>p. map hit_value (part_top p ?q ?k inc)) ps)" for m
      by (induction ps arbitrary: m) (simp_all add: hit_value_def case_prod_unfold comp_def)
    then show ?thesis by (simp add: all_hits_def)
  qed
  let ?g = "\<lambda>h :: real \<times> ustr. - fst h"
  have "map ?v (take ?k (sort_key (\<lambda>(s, n, i, f). (- s, n, i)) (all_hits ?ps ?q ?k inc)))
      = take ?k (map ?v (sort_key (\<lambda>h. - fst h) (all_hits ?ps ?q ?k inc)))"
    by (simp only: all_hits_ranked[OF ok] take_map)
  also have "\<dots> = take ?k (sort_key ?g (concat (map (\<lambda>p. map hit_value (part_top p ?q ?k inc)) ?ps)))"
    using map_sort_key[of ?v ?g "all_hits ?ps ?q ?k inc"] by (simp add: concat)
  also have "map (\<lambda>p. map hit_value (part_top p ?q ?k inc)) ?ps
      = map (\<lambda>xs. take ?k (sort_key ?g xs)) (map (\<lambda>p. scored_items (part_items p) ?q inc) ?ps)"
    using ok by (simp add: pt.top_items best_hits_def)
  also have "take ?k (sort_key ?g (concat \<dots>)) = best_hits (concat (map part_items ?ps)) ?q ?k inc"
    using take_sort_concat[of ?k ?g "map (\<lambda>p. scored_items (part_items p) ?q inc) ?ps"]
    by (simp add: best_hits_def scored_items_concat comp_def)
  finally have hits: "map ?v (take ?k (sort_key (\<lambda>(s, n, i, f). (- s, n, i)) (all_hits ?ps ?q ?k inc)))
    = best_hits (concat (map part_items ?ps)) ?q ?k inc" .
  let ?c = "\<lambda>f. case map_of (vi_content ix) f of None \<Rightarrow> [] | Some c \<Rightarrow> c"
  have res: "map (\<lambda>(s, n, i, f). (f, s, ?c f)) (filter (\<lambda>(s, n, i, f). s \<ge> min_score) H)
    = map (\<lambda>(s, f). (f, s, ?c f)) (filter (\<lambda>(s, f). s \<ge> min_score) (map ?v H))" for H
    by (simp add: filter_map comp_def case_prod_unfold)
  show ?thesis
    by (auto simp: index_search_def reference_search_def Let_def res hits split: option.split)
qed

section \<open>Consistency of owners and partitions\<close>

definition vec_of :: "vector_index \<Rightarrow> ustr option \<Rightarrow> ustr \<Rightarrow> vec option" where
  "vec_of ix a f = (case map_of (vi_parts ix) a of None \<Rightarrow> None | Some p \<Rightarrow> map_of (part_items p) f)"

definition index_ok :: "vector_index \<Rightarrow> bool" where
  "index_ok ix \<longleftrightarrow> parts_ok ix \<and> distinct (map fst (vi_owner ix))
     \<and> (\<forall>f a. map_of (vi_owner ix) f = Some a \<longleftrightarrow> vec_of ix a f \<noteq> None)
     \<and> (\<forall>a. map_of (vi_parts ix) a \<noteq> None \<longrightarrow> (\<exists>f. vec_of ix a f \<noteq> None))
     \<and> (\<forall>a f v. vec_of ix a f = Some v \<longrightarrow> vi_dim ix = Some (length v))
     \<and> (vi_dim ix = None \<longleftrightarrow> vi_owner ix = [])
     \<and> (\<forall>f. map_of (vi_content ix) f \<noteq> None \<longrightarrow> map_of (vi_owner ix) f \<noteq> None)"

lemma index_okD:
  assumes "index_ok ix"
  shows "parts_ok ix" "distinct (map fst (vi_owner ix))"
    "map_of (vi_owner ix) f = Some a \<longleftrightarrow> vec_of ix a f \<noteq> None"
    "map_of (vi_parts ix) a \<noteq> None \<Longrightarrow> \<exists>f. vec_of ix a f \<noteq> None"
    "vec_of ix a f = Some v \<Longrightarrow> vi_dim ix = Some (length v)"
    "vi_dim ix = None \<longleftrightarrow> vi_owner ix = []"
    "map_of (vi_content ix) f \<noteq> None \<Longrightarrow> map_of (vi_owner ix) f \<noteq> None"
  using assms unfolding index_ok_def by blast+

lemma index_get_vec_of: "index_ok ix \<Longrightarrow> index_get ix f = (case map_of (vi_owner ix) f of None \<Rightarrow> None | Some a \<Rightarrow> vec_of ix a f)"
  by (auto simp: index_get_def vec_of_def pt.get_items parts_okD[OF index_okD(1)] split: option.split)

lemma vec_of_cong: "vi_parts ix = vi_parts ix' \<Longrightarrow> vec_of ix = vec_of ix'"
  by (simp add: vec_of_def fun_eq_iff)

lemma vec_of_promote: "parts_ok ix \<Longrightarrow> vec_of (promote ix) = vec_of ix"
  by (simp add: promote_def vec_of_def fun_eq_iff map_parts_def[symmetric] promote_part_ok parts_okD split: option.split)

lemma vec_of_partition_remove:
  assumes "parts_ok ix"
  shows "vec_of (partition_remove a f ix) b g = (if b = a \<and> g = f then None else vec_of ix b g)"
proof (cases "map_of (vi_parts ix) a")
  case (Some p)
  have ok: "part_ok p" using assms Some by (rule parts_okD)
  have "map_of (part_items (part_remove f p)) g = (if g = f then None else map_of (part_items p) g)"
    by (simp add: part_laws ok delete_conv')
  moreover have "part_items (part_remove f p) = [] \<Longrightarrow> g \<noteq> f \<Longrightarrow> map_of (part_items p) g = None"
    using calculation by (metis map_of.simps(1))
  ultimately show ?thesis using Some ok
    by (auto simp: partition_remove_def Let_def vec_of_def AList.update_conv' delete_conv' part_laws)
qed (auto simp: partition_remove_def vec_of_def)

lemma partition_remove_parts:
  assumes "parts_ok ix" "\<And>b. map_of (vi_parts ix) b \<noteq> None \<Longrightarrow> \<exists>f. vec_of ix b f \<noteq> None"
    "map_of (vi_parts (partition_remove a f ix)) b \<noteq> None"
  shows "\<exists>g. vec_of (partition_remove a f ix) b g \<noteq> None"
proof (cases "b = a \<and> map_of (vi_parts ix) a \<noteq> None")
  case True
  then obtain p where p: "map_of (vi_parts ix) a = Some p" by blast
  have ok: "part_ok p" using assms(1) p by (rule parts_okD)
  with assms(3) True p have "part_items (part_remove f p) \<noteq> []"
    by (auto simp: partition_remove_def Let_def delete_conv' part_laws split: if_splits)
  then obtain g w where "map_of (part_items (part_remove f p)) g = Some w"
    by (metis not_None_eq map_of_eq_empty_iff)
  with True p ok \<open>part_items (part_remove f p) \<noteq> []\<close> show ?thesis
    by (auto simp: partition_remove_def Let_def vec_of_def AList.update_conv' part_laws intro!: exI[of _ g])
next
  case False
  then have same: "map_of (vi_parts (partition_remove a f ix)) b = map_of (vi_parts ix) b"
    by (auto simp: partition_remove_def Let_def AList.update_conv' delete_conv' split: option.splits)
  with assms(2,3) obtain g where "vec_of ix b g \<noteq> None" by metis
  then show ?thesis by (intro exI[of _ g]) (simp add: vec_of_def same)
qed

lemma partition_remove_sel [simp]:
  "vi_owner (partition_remove a f ix) = vi_owner ix" "vi_dim (partition_remove a f ix) = vi_dim ix"
  "vi_content (partition_remove a f ix) = vi_content ix" "vi_revision (partition_remove a f ix) = vi_revision ix"
  by (simp_all add: partition_remove_def Let_def split: option.split)

lemma promote_sel [simp]:
  "vi_owner (promote ix) = vi_owner ix" "vi_dim (promote ix) = vi_dim ix"
  "vi_content (promote ix) = vi_content ix" "vi_revision (promote ix) = vi_revision ix"
  by (simp_all add: promote_def)

text \<open>What an accepted \<open>add\<close> does.\<close>

lemma index_add_effect:
  assumes "index_ok ix" "index_add f v c a ix = Inr ix'"
  shows "normalize_vec v \<noteq> []" "vi_dim ix = None \<or> vi_dim ix = vi_dim ix'" "vi_dim ix' = Some (length (normalize_vec v))"
    "vi_owner ix' = AList.update f a (vi_owner ix)"
    "map_of (vi_content ix') = (map_of (vi_content ix))(f := if c \<noteq> [] then Some c else None)"
    "parts_ok ix'"
    "vec_of ix' b g = (if g = f then if b = a then Some (normalize_vec v) else None else vec_of ix b g)"
    "map_of (vi_parts ix') b \<noteq> None \<Longrightarrow> \<exists>g. vec_of ix' b g \<noteq> None"
proof -
  let ?v = "normalize_vec v"
  define ix0 where "ix0 = ix\<lparr>vi_dim := Some (length ?v)\<rparr>"
  define ix1 where "ix1 = (case map_of (vi_owner ix) f of
     Some o' \<Rightarrow> if o' \<noteq> a then partition_remove o' f ix0 else ix0 | None \<Rightarrow> ix0)"
  define p where "p = (case map_of (vi_parts ix1) a of None \<Rightarrow> new_partition ix1 | Some p \<Rightarrow> p)"
  define ix3 where "ix3 = (set_content f c (ix1\<lparr>vi_parts := AList.update a (part_add f ?v p) (vi_parts ix1),
     vi_owner := AList.update f a (vi_owner ix1)\<rparr>))\<lparr>vi_revision := vi_revision ix + 1\<rparr>"
  have add: "index_add f v c a ix = (if ?v = [] then Inl ValueError
      else if vi_dim ix \<noteq> None \<and> vi_dim ix \<noteq> Some (length ?v) then Inl ValueError
      else Inr (if vi_auto ix3 \<and> length (vi_owner ix3) \<ge> AUTO_NUMPY_THRESHOLD then promote ix3 else ix3))"
    by (simp only: index_add_def Let_def ix3_def p_def ix1_def ix0_def)
  have ix': "ix' = promote ix3 \<or> ix' = ix3" using assms(2) unfolding add by (auto split: if_splits)
  have ok0: "parts_ok ix0" using index_okD(1)[OF assms(1)] by (simp add: ix0_def parts_ok_def)
  have ok1: "parts_ok ix1" using ok0 partition_remove_sim(1)[OF ok0] by (simp add: ix1_def split: option.split)
  have okp: "part_ok p" using ok1 by (auto simp: p_def parts_ok_def split: option.split)
  have ok3: "parts_ok ix3"
    by (rule parts_ok_update[OF ok1 _ pt.ok_add[OF okp]]) (simp add: ix3_def)
  have own: "vi_owner ix1 = vi_owner ix" "vi_dim ix1 = Some (length ?v)" "vi_content ix1 = vi_content ix"
    by (simp_all add: ix1_def ix0_def split: option.split)
  have v0: "vec_of ix0 = vec_of ix" by (rule vec_of_cong) (simp add: ix0_def)
  have v1: "vec_of ix1 b g = (if b \<noteq> a \<and> g = f then None else vec_of ix b g)" for b g
    using index_okD(3)[OF assms(1), of f b] by (auto simp: ix1_def vec_of_partition_remove[OF ok0] v0 split: option.split)
  have items: "map_of (part_items (part_add f ?v p)) g = (if g = f then Some ?v else vec_of ix1 a g)" for g
  proof -
    have "map_of (part_items p) g = vec_of ix1 a g" by (simp add: p_def vec_of_def split: option.split)
    then show ?thesis by (simp add: part_laws okp AList.update_conv')
  qed
  have v3: "vec_of ix3 b g = (if g = f then if b = a then Some ?v else None else vec_of ix b g)" for b g
    using v1[of b g] items[of g] v1[of a g] by (auto simp: ix3_def vec_of_def AList.update_conv' split: if_splits)
  have keep: "\<exists>g. vec_of ix3 b g \<noteq> None" if "map_of (vi_parts ix3) b \<noteq> None" for b
  proof (cases "b = a")
    case True
    then show ?thesis by (intro exI[of _ f]) (simp add: v3)
  next
    case False
    have "\<exists>g. vec_of ix0 b g \<noteq> None" if "map_of (vi_parts ix0) b \<noteq> None" for b
      using index_okD(4)[OF assms(1), of b] that v0 by (simp add: ix0_def)
    moreover have "map_of (vi_parts ix1) b \<noteq> None" using that False by (simp add: ix3_def AList.update_conv')
    ultimately have "\<exists>g. vec_of ix1 b g \<noteq> None"
      using partition_remove_parts[OF ok0] by (simp add: ix1_def split: option.splits if_splits)
    then show ?thesis using v1 v3 False by metis
  qed
  show "?v \<noteq> []" "vi_dim ix = None \<or> vi_dim ix = vi_dim ix'" "vi_dim ix' = Some (length ?v)"
    using assms(2) ix' own unfolding add by (auto simp: ix3_def split: if_splits)
  show "vi_owner ix' = AList.update f a (vi_owner ix)"
    "map_of (vi_content ix') = (map_of (vi_content ix))(f := if c \<noteq> [] then Some c else None)"
    using ix' own by (auto simp: ix3_def set_content_def AList.update_conv' delete_conv')
  show "parts_ok ix'" using ix' ok3 promote_sim(1) by blast
  show vec: "vec_of ix' b g = (if g = f then if b = a then Some ?v else None else vec_of ix b g)" for b g
    using ix' v3 vec_of_promote[OF ok3] by metis
  assume "map_of (vi_parts ix') b \<noteq> None"
  then have "map_of (vi_parts ix3) b \<noteq> None"
    using ix' by (auto simp: promote_def map_parts_def[symmetric] split: if_splits)
  then show "\<exists>g. vec_of ix' b g \<noteq> None" using keep ix' vec_of_promote[OF ok3] by metis
qed

lemma index_okI:
  assumes "parts_ok ix" "distinct (map fst (vi_owner ix))"
    "\<And>f a. map_of (vi_owner ix) f = Some a \<longleftrightarrow> vec_of ix a f \<noteq> None"
    "\<And>a. map_of (vi_parts ix) a \<noteq> None \<Longrightarrow> \<exists>f. vec_of ix a f \<noteq> None"
    "\<And>a f v. vec_of ix a f = Some v \<Longrightarrow> vi_dim ix = Some (length v)"
    "vi_dim ix = None \<longleftrightarrow> vi_owner ix = []"
    "\<And>f. map_of (vi_content ix) f \<noteq> None \<Longrightarrow> map_of (vi_owner ix) f \<noteq> None"
  shows "index_ok ix"
  using assms unfolding index_ok_def by blast

lemma index_add_ok: "index_ok ix \<Longrightarrow> index_add f v c a ix = Inr ix' \<Longrightarrow> index_ok ix'"
proof -
  assume ok: "index_ok ix" and add: "index_add f v c a ix = Inr ix'"
  note eff = index_add_effect[OF ok add]
  show "index_ok ix'"
  proof (rule index_okI)
    show "distinct (map fst (vi_owner ix'))" by (simp add: eff(4) distinct_update index_okD(2)[OF ok])
    show "map_of (vi_owner ix') g = Some b \<longleftrightarrow> vec_of ix' b g \<noteq> None" for g b
      using index_okD(3)[OF ok, of g b] by (auto simp: eff(4) eff(7)[of b g] AList.update_conv')
    show "vi_dim ix' = Some (length w)" if "vec_of ix' b g = Some w" for b g w
    proof (cases "g = f")
      case False
      with that have "vi_dim ix = Some (length w)" by (simp add: eff(7) index_okD(5)[OF ok])
      with eff(2) show ?thesis by auto
    qed (use that eff(3) in \<open>simp add: eff(7) split: if_splits\<close>)
    show "map_of (vi_owner ix') g \<noteq> None" if "map_of (vi_content ix') g \<noteq> None" for g
      using that index_okD(7)[OF ok, of g] by (auto simp: eff(4,5) AList.update_conv')
  qed (use eff(3,4,6,8) in simp_all)
qed

lemma forget_dim_ok:
  assumes "parts_ok ix" "distinct (map fst (vi_owner ix))"
    "\<And>f a. map_of (vi_owner ix) f = Some a \<longleftrightarrow> vec_of ix a f \<noteq> None"
    "\<And>a. map_of (vi_parts ix) a \<noteq> None \<Longrightarrow> \<exists>f. vec_of ix a f \<noteq> None"
    "\<And>a f v. vec_of ix a f = Some v \<Longrightarrow> vi_dim ix = Some (length v)"
    "\<And>f. map_of (vi_content ix) f \<noteq> None \<Longrightarrow> map_of (vi_owner ix) f \<noteq> None"
  shows "index_ok (forget_dim ix)"
proof (cases "vi_owner ix = []")
  case True
  then have none: "vec_of ix a f = None" "map_of (vi_content ix) f = None" for a f
    using assms(3)[of f a] assms(6)[of f] by (auto simp del: not_None_eq)
  then have "map_of (vi_parts ix) a = None" for a using assms(4)[of a] by (auto simp del: not_None_eq)
  note none = none this
  show ?thesis using none assms(1,2) True
    by (intro index_okI) (auto simp: forget_dim_def vec_of_cong[of "ix\<lparr>vi_dim := None\<rparr>" ix] parts_ok_def)
next
  case False
  then obtain f a where "map_of (vi_owner ix) f = Some a" by (metis map_of_eq_empty_iff not_None_eq)
  then have "vi_dim ix \<noteq> None" using assms(3,5) by fastforce
  with False assms show ?thesis by (intro index_okI) (simp_all add: forget_dim_def)
qed

lemma index_remove_ok: "index_ok ix \<Longrightarrow> index_ok (index_remove f ix)"
proof (cases "map_of (vi_owner ix) f")
  case (Some a)
  assume ok: "index_ok ix"
  define ix0 where "ix0 = ix\<lparr>vi_owner := AList.delete f (vi_owner ix), vi_content := AList.delete f (vi_content ix)\<rparr>"
  define ix1 where "ix1 = partition_remove a f ix0"
  define ix2 where "ix2 = ix1\<lparr>vi_revision := vi_revision ix1 + 1\<rparr>"
  have rem: "index_remove f ix = forget_dim ix2" using Some by (simp add: index_remove_def ix2_def ix1_def ix0_def Let_def)
  have ok0: "parts_ok ix0" using index_okD(1)[OF ok] by (simp add: ix0_def parts_ok_def)
  have v0: "vec_of ix0 = vec_of ix" by (rule vec_of_cong) (simp add: ix0_def)
  have v2: "vec_of ix2 b g = (if b = a \<and> g = f then None else vec_of ix b g)" for b g
    using vec_of_cong[of ix2 ix1] by (simp add: ix2_def ix1_def vec_of_partition_remove[OF ok0] v0)
  have a: "vec_of ix b f \<noteq> None \<longleftrightarrow> b = a" for b using index_okD(3)[OF ok, of f b] Some by auto
  show ?thesis unfolding rem
  proof (rule forget_dim_ok)
    show "parts_ok ix2" using partition_remove_sim(1)[OF ok0, of a f] by (simp add: ix2_def ix1_def parts_ok_def)
    show "distinct (map fst (vi_owner ix2))"
      by (simp add: ix2_def ix1_def ix0_def distinct_delete index_okD(2)[OF ok])
    show "map_of (vi_owner ix2) g = Some b \<longleftrightarrow> vec_of ix2 b g \<noteq> None" for g b
      using index_okD(3)[OF ok, of g b] a[of b] unfolding v2 by (auto simp: ix2_def ix1_def ix0_def delete_conv')
    show "\<exists>g. vec_of ix2 b g \<noteq> None" if "map_of (vi_parts ix2) b \<noteq> None" for b
    proof -
      have "\<exists>g. vec_of ix1 b g \<noteq> None" unfolding ix1_def
        by (rule partition_remove_parts[OF ok0]) (use that index_okD(4)[OF ok] v0 in \<open>simp_all add: ix0_def ix1_def ix2_def\<close>)
      then show ?thesis using vec_of_cong[of ix2 ix1] by (simp add: ix2_def)
    qed
    show "vi_dim ix2 = Some (length w)" if "vec_of ix2 b g = Some w" for b g w
      using that index_okD(5)[OF ok, of b g w] unfolding v2 by (auto simp: ix2_def ix1_def ix0_def split: if_splits)
    show "map_of (vi_owner ix2) g \<noteq> None" if "map_of (vi_content ix2) g \<noteq> None" for g
      using that index_okD(7)[OF ok, of g] by (auto simp: ix2_def ix1_def ix0_def delete_conv' split: if_splits)
  qed
qed (simp add: index_remove_def)

lemma map_of_fold_delete: "map_of (fold AList.delete ks xs) f = (if f \<in> set ks then None else map_of xs f)"
  by (induction ks arbitrary: xs) (auto simp: delete_conv')

lemma distinct_fold_delete: "distinct (map fst xs) \<Longrightarrow> distinct (map fst (fold AList.delete ks xs))"
  by (induction ks arbitrary: xs) (auto simp: distinct_delete)

lemma index_clear_ok: "index_ok ix \<Longrightarrow> index_ok (index_clear a ix)"
proof -
  assume ok: "index_ok ix"
  consider "a = None" | x where "a = Some x" "map_of (vi_parts ix) a = None" | x p where "a = Some x" "map_of (vi_parts ix) a = Some p"
    by (cases a; cases "map_of (vi_parts ix) a") auto
  then show ?thesis
  proof cases
    case 1
    then show ?thesis by (intro index_okI) (simp_all add: index_clear_def parts_ok_def vec_of_def)
  next
    case 2
    have "vec_of (ix\<lparr>vi_revision := n\<rparr>) = vec_of ix" for n by (rule vec_of_cong) simp
    then have "index_ok (ix\<lparr>vi_revision := n\<rparr>) = index_ok ix" for n by (simp add: index_ok_def parts_ok_def)
    with 2 ok show ?thesis by (simp add: index_clear_def Let_def)
  next
    case 3
    have okp: "part_ok p" using index_okD(1)[OF ok] 3(2) by (rule parts_okD)
    define ix1 where "ix1 = ix\<lparr>vi_revision := vi_revision ix + 1, vi_parts := AList.delete a (vi_parts ix),
      vi_owner := fold AList.delete (part_ids p) (vi_owner ix), vi_content := fold AList.delete (part_ids p) (vi_content ix)\<rparr>"
    have clr: "index_clear a ix = forget_dim ix1" using 3 by (simp add: index_clear_def Let_def ix1_def)
    have v1: "vec_of ix1 b g = (if b = a then None else vec_of ix b g)" for b g
      by (simp add: ix1_def vec_of_def delete_conv')
    have ids: "g \<in> set (part_ids p) \<longleftrightarrow> map_of (vi_owner ix) g = Some a" for g
      using 3(2) by (simp add: index_okD(3)[OF ok] vec_of_def part_laws okp map_of_eq_None_iff image_iff del: not_None_eq)
    show ?thesis unfolding clr
    proof (rule forget_dim_ok)
      show "parts_ok ix1" by (rule parts_ok_delete[OF index_okD(1)[OF ok]]) (simp add: ix1_def)
      show "distinct (map fst (vi_owner ix1))" by (simp add: ix1_def distinct_fold_delete index_okD(2)[OF ok])
      show "map_of (vi_owner ix1) g = Some b \<longleftrightarrow> vec_of ix1 b g \<noteq> None" for g b
        using index_okD(3)[OF ok, of g b] unfolding v1 by (auto simp: ix1_def map_of_fold_delete ids)
      show "\<exists>g. vec_of ix1 b g \<noteq> None" if "map_of (vi_parts ix1) b \<noteq> None" for b
        using that index_okD(4)[OF ok, of b] unfolding v1 by (auto simp: ix1_def delete_conv' split: if_splits)
      show "vi_dim ix1 = Some (length w)" if "vec_of ix1 b g = Some w" for b g w
        using that index_okD(5)[OF ok, of b g w] unfolding v1 by (auto simp: ix1_def split: if_splits)
      show "map_of (vi_owner ix1) g \<noteq> None" if "map_of (vi_content ix1) g \<noteq> None" for g
        using that index_okD(7)[OF ok, of g] by (auto simp: ix1_def map_of_fold_delete split: if_splits)
    qed
  qed
qed

lemma index_run_ok: "index_ok (index_run b installed ops)"
proof -
  have "index_ok (index_step op ix)" if "index_ok ix" for op ix
    using that by (cases op) (auto simp: index_remove_ok index_clear_ok intro: index_add_ok split: sum.split)
  then have "index_ok ix \<Longrightarrow> index_ok (fold index_step ops ix)" for ix
    by (induction ops arbitrary: ix) simp_all
  moreover have "index_ok (index_empty b installed)"
    by (simp add: index_ok_def index_empty_def parts_ok_def vec_of_def)
  ultimately show ?thesis by (simp add: index_run_def)
qed

section \<open>Properties\<close>


text \<open>C21: a search is exhaustive: after any run it returns what scoring every vector of the
  searched partitions, ranking them by score with ties in partition and insertion order, and keeping
  the first \<open>top_k\<close> at or above \<open>min_score\<close> returns, although each partition only
  reports its own best \<open>top_k\<close>.\<close>

theorem search_is_exhaustive:
  "index_search q top_k min_score inc a (index_run b installed ops)
     = reference_search q top_k min_score inc a (index_run b installed ops)"
  by (rule search_reference) (rule index_run_sim)

text \<open>After any run, an id is owned by an agent exactly when that agent's partition, and no
  other, holds its vector; no partition is empty, every vector has the dimension of the index, and
  an index without vectors has no dimension.\<close>

theorem owners_match_partitions: "index_ok (index_run b installed ops)"
  by (rule index_run_ok)

text \<open>An accepted \<open>add\<close> stores the normalised vector under the id, for the given agent
  only, and leaves every other id as it was.\<close>

theorem add_moves_the_vector:
  "index_ok ix \<Longrightarrow> index_add f v c a ix = Inr ix' \<Longrightarrow>
   index_get ix' g = (if g = f then Some (normalize_vec v) else index_get ix g)
   \<and> (f \<in> set (index_ids ix' (Some x)) \<longleftrightarrow> a = Some x)"
proof -
  assume ok: "index_ok ix" and add: "index_add f v c a ix = Inr ix'"
  note eff = index_add_effect[OF ok add] and ok' = index_add_ok[OF ok add]
  have "index_get ix' g = (if g = f then Some (normalize_vec v) else index_get ix g)"
    by (simp add: index_get_vec_of ok ok' eff(4) eff(7) AList.update_conv' split: option.split)
  moreover have "f \<in> set (index_ids ix' (Some x)) \<longleftrightarrow> vec_of ix' (Some x) f \<noteq> None"
  proof (cases "map_of (vi_parts ix') (Some x)")
    case (Some p)
    with parts_okD[OF eff(6) this] show ?thesis
      by (simp add: index_ids_def vec_of_def pt.ids_items map_of_eq_None_iff del: not_None_eq)
  qed (simp add: index_ids_def vec_of_def)
  ultimately show ?thesis by (simp add: eff(7))
qed

theorem add_moves_the_vector_witness:
  "\<exists>ix'. index_add (u ''f'') [1, 0] [] (Some (u ''a'')) (index_empty BackendAuto True) = Inr ix'
     \<and> index_get ix' (u ''f'') = Some [1, 0]"
proof -
  let ?ix = "index_empty BackendAuto True"
  have ok: "index_ok ?ix" using index_run_ok[of BackendAuto True "[]"] by (simp add: index_run_def)
  have n: "normalize_vec [1, 0] = [1, 0]" by (simp add: normalize_vec_def vdot_def)
  obtain ix' where add: "index_add (u ''f'') [1, 0] [] (Some (u ''a'')) ?ix = Inr ix'"
    by (cases "index_add (u ''f'') [1, 0] [] (Some (u ''a'')) ?ix")
      (simp_all add: index_add_def Let_def n index_empty_def del: u_simps)
  from add_moves_the_vector[OF ok add, of "u ''f''" "u ''a''"] add n show ?thesis by auto
qed

section \<open>Bulk loading\<close>

text \<open>\<open>add_many\<close>: the exception raised, if any, and the index as it is left. A block of
  new ids on an active matrix backend is appended at once; otherwise the ids are added one by one,
  up to the first refused one. A ragged block is refused by \<open>np.array\<close>.\<close>

fun add_each :: "(ustr \<times> vec) list \<Rightarrow> ustr option \<Rightarrow> vector_index \<Rightarrow> py_error option \<times> vector_index" where
  "add_each [] a ix = (None, ix)"
| "add_each ((f, v) # xs) a ix = (case index_add f v [] a ix of Inl e \<Rightarrow> (Some e, ix) | Inr ix' \<Rightarrow> add_each xs a ix')"

definition add_block :: "(ustr \<times> vec) list \<Rightarrow> ustr option \<Rightarrow> nat \<Rightarrow> bool \<Rightarrow> vector_index \<Rightarrow> py_error option \<times> vector_index" where
  "add_block xs a expected normalised ix =
     (let d = length (snd (hd xs))
      in if \<exists>(f, v)\<in>set xs. length v \<noteq> d then (Some ValueError, ix)
         else
           (let ix1 = (if vi_dim ix = None then ix\<lparr>vi_dim := Some d\<rparr> else ix)
            in if d = 0 \<or> vi_dim ix1 \<noteq> Some d then (Some ValueError, ix1)
               else
                 (let rows = (if normalised then xs else map (\<lambda>(f, v). (f, normalize_vec v)) xs);
                      p = (case map_of (vi_parts ix1) a of None \<Rightarrow> new_partition ix1 | Some p \<Rightarrow> p);
                      p' = (case p of NpPart q \<Rightarrow> NpPart (np_add_matrix rows expected q) | PyPart vs \<Rightarrow> PyPart vs)
                  in (None, ix1\<lparr>vi_parts := AList.update a p' (vi_parts ix1),
                       vi_owner := fold (\<lambda>(f, v). AList.update f a) xs (vi_owner ix1),
                       vi_revision := vi_revision ix1 + 1\<rparr>))))"

definition index_add_many ::
  "ustr list \<Rightarrow> vec list \<Rightarrow> ustr option \<Rightarrow> nat \<Rightarrow> bool \<Rightarrow> vector_index \<Rightarrow> py_error option \<times> vector_index" where
  "index_add_many ids embs a expected normalised ix =
     (if ids = [] then (None, ix)
      else if length embs \<noteq> length ids then (Some ValueError, ix)
      else
        (let ix1 = (if vi_auto ix \<and> length (vi_owner ix) + length ids \<ge> AUTO_NUMPY_THRESHOLD
                    then promote (if vi_dim ix = None then ix\<lparr>vi_dim := Some (length (hd embs))\<rparr> else ix) else ix)
         in if vi_numpy ix1 \<and> set ids \<inter> fst ` set (vi_owner ix1) = {} \<and> distinct ids
            then add_block (zip ids embs) a expected normalised ix1
            else add_each (zip ids embs) a ix1))"

text \<open>A refused block leaves its dimension behind: an empty embedding given to \<open>add_many\<close> on an
  empty matrix index raises, and from then on every vector is refused. \<open>add\<close> checks for
  an empty vector before it sets the dimension.\<close>

lemma refused_block_poisons_the_index:
  "\<exists>ix. index_add_many [u ''a''] [[]] None 0 False (index_empty BackendNumpy True) = (Some ValueError, ix)
     \<and> vi_owner ix = [] \<and> vi_dim ix = Some 0 \<and> index_add (u ''b'') v [] None ix = Inl ValueError"
  by (auto simp: index_add_many_def add_block_def index_empty_def Let_def index_add_def)

text \<open>The live rows of a matrix partition, for a vector snapshot.\<close>

definition export_rows :: "vector_index \<Rightarrow> ustr option \<Rightarrow> (ustr option \<times> vec) list option" where
  "export_rows ix a = (case map_of (vi_parts ix) a of
       Some (NpPart p) \<Rightarrow>
         if np_pos p = [] then None
         else Some (map (\<lambda>r. (np_ids p ! r, np_rows p ! r)) (filter (\<lambda>r. \<not> row_dead p r) [0..<length (np_ids p)]))
     | _ \<Rightarrow> None)"

lemma export_rows_items:
  assumes "parts_ok ix" "export_rows ix a = Some rows"
  shows "\<exists>p. map_of (vi_parts ix) a = Some p \<and> rows = map (\<lambda>(f, v). (Some f, v)) (part_items p)"
proof -
  obtain p where p: "map_of (vi_parts ix) a = Some (NpPart p)"
    and rows: "rows = map (\<lambda>r. (np_ids p ! r, np_rows p ! r)) (filter (\<lambda>r. \<not> row_dead p r) [0..<length (np_ids p)])"
    using assms(2) by (auto simp: export_rows_def split: option.splits partition.splits if_splits)
  have ok: "np_ok p" using parts_okD[OF assms(1) p] by simp
  have "filter (\<lambda>r. \<not> row_dead p r) [0..<length (np_ids p)] = live_rows p"
    unfolding live_rows_def by (rule filter_cong) (simp_all add: row_dead_iff[OF ok])
  then have "rows = map (\<lambda>(f, v). (Some f, v)) (np_items p)"
    unfolding rows np_items_def np_okD(3)[OF ok] by (auto simp: live_rows_in)
  with p show ?thesis by auto
qed

end
