(* ===== verification/BlockChain.thy ===== *)
theory BlockChain
  imports Json Store_Laws
begin

text \<open>
  Sealing and chaining of memory blocks: the canonical hashes over immutable fields
  (\<^verbatim>\<open>memory/block_hashing.py\<close>), seal, verify, the chain check, quarantine and release
  (\<^verbatim>\<open>memory/block_chain.py\<close>) and the ids a seal protects (\<^verbatim>\<open>memory/block_membership.py\<close>).
  SHA-256 of a text is the argument \<open>H\<close>.
\<close>

section \<open>Hashes over immutable fields\<close>

definition opt_text :: "ustr option \<Rightarrow> json" where
  "opt_text x = (case x of None \<Rightarrow> JNull | Some s \<Rightarrow> JStr s)"

definition canonical_hash :: "(ustr \<Rightarrow> ustr) \<Rightarrow> (ustr \<times> json) list \<Rightarrow> ustr" where
  "canonical_hash H payload = H (json_dumps_sorted payload)"

definition fragment_payload :: "fragment \<Rightarrow> (ustr \<times> json) list" where
  "fragment_payload f = [(u ''kind'', JStr (u ''fragment'')), (u ''id'', JStr (fr_id f)),
     (u ''content'', JStr (fr_content f)), (u ''agent_id'', JStr (fr_agent f)),
     (u ''session_id'', opt_text (fr_session f)), (u ''source'', opt_text (fr_source f)),
     (u ''created_at'', JStr (u (iso_text (fr_created f))))]"

definition node_payload :: "node \<Rightarrow> (ustr \<times> json) list" where
  "node_payload n = [(u ''kind'', JStr (u ''node'')), (u ''id'', JStr (nd_id n)),
     (u ''node_type'', JStr (u (nd_type n))), (u ''label'', JStr (nd_label n)),
     (u ''fragment_id'', opt_text (nd_fragment n)),
     (u ''created_at'', JStr (u (iso_text (nd_created n))))]"

definition edge_payload :: "edge \<Rightarrow> (ustr \<times> json) list" where
  "edge_payload e = [(u ''kind'', JStr (u ''edge'')), (u ''id'', JStr (ed_id e)),
     (u ''source_id'', JStr (ed_source e)), (u ''target_id'', JStr (ed_target e)),
     (u ''relation'', JStr (u (ed_relation e))),
     (u ''created_at'', JStr (u (iso_text (ed_created e))))]"

definition hash_fragment :: "(ustr \<Rightarrow> ustr) \<Rightarrow> fragment \<Rightarrow> ustr" where
  "hash_fragment H f = canonical_hash H (fragment_payload f)"

definition hash_node :: "(ustr \<Rightarrow> ustr) \<Rightarrow> node \<Rightarrow> ustr" where
  "hash_node H n = canonical_hash H (node_payload n)"

definition hash_edge :: "(ustr \<Rightarrow> ustr) \<Rightarrow> edge \<Rightarrow> ustr" where
  "hash_edge H e = canonical_hash H (edge_payload e)"

definition block_content_hash :: "(ustr \<Rightarrow> ustr) \<Rightarrow> (ustr \<times> ustr) list \<Rightarrow> ustr" where
  "block_content_hash H hs = H (json_dumps (JArr (map (\<lambda>(k, v). JArr [JStr k, JStr v]) (sort hs))))"

definition MEMBER_HASHES_KEY :: string where "MEMBER_HASHES_KEY = ''mark_member_hashes''"

section \<open>Seal, verify, quarantine\<close>

text \<open>A dictionary is an association list in insertion order.\<close>

definition member_hashes ::
  "provider \<Rightarrow> (ustr \<Rightarrow> ustr) \<Rightarrow> store_db \<Rightarrow> ustr \<Rightarrow> (ustr \<times> ustr) list" where
  "member_hashes P H db bid =
     fold (\<lambda>e. AList.update (ed_id e) (hash_edge H e)) (edges_in_block db bid)
       (fold (\<lambda>n. AList.update (nd_id n) (hash_node H n)) (nodes_in_block db bid)
         (fold (\<lambda>f. AList.update (fr_id f) (hash_fragment H f)) (fragments_for_block P db bid) []))"

definition seal_block ::
  "provider \<Rightarrow> (ustr \<Rightarrow> ustr) \<Rightarrow> datetime \<Rightarrow> ustr \<Rightarrow> store_db \<Rightarrow> ustr \<Rightarrow> py_error + (store_db \<times> block)" where
  "seal_block P H now agent db bid =
     (case get_block db bid of
        None \<Rightarrow> Inl KeyError
      | Some b \<Rightarrow>
          if bk_status b \<noteq> BLOCK_OPEN then Inl ValueError
          else
            (let hs = member_hashes P H db bid;
                 prev = latest_sealed_block db agent (Some bid);
                 sealed = b\<lparr>bk_status := BLOCK_SEALED, bk_content_hash := Some (block_content_hash H hs),
                   bk_prev_id := map_option bk_id prev,
                   bk_prev_hash := Option.bind prev bk_content_hash,
                   bk_sealed_at := Some now,
                   bk_meta := AList.update MEMBER_HASHES_KEY (MvHashes hs) (bk_meta b)\<rparr>
             in Inr (store_block db sealed, sealed)))"

definition sealed_hashes :: "block \<Rightarrow> (ustr \<times> ustr) list" where
  "sealed_hashes b = (case map_of (bk_meta b) MEMBER_HASHES_KEY of Some (MvHashes hs) \<Rightarrow> hs | _ \<Rightarrow> [])"

record block_verification =
  bv_valid :: bool
  bv_block :: ustr
  bv_corrupted :: "ustr list"
  bv_missing :: "ustr list"
  bv_added :: "ustr list"
  bv_reason :: string

fun nat_text :: "nat \<Rightarrow> string" where
  "nat_text n = (if n < 10 then [digit_char n] else nat_text (n div 10) @ [digit_char (n mod 10)])"

declare nat_text.simps [simp del]

definition verify_block ::
  "provider \<Rightarrow> (ustr \<Rightarrow> ustr) \<Rightarrow> store_db \<Rightarrow> ustr \<Rightarrow> py_error + block_verification" where
  "verify_block P H db bid =
     (case get_block db bid of
        None \<Rightarrow> Inl KeyError
      | Some b \<Rightarrow>
          if bk_content_hash b = None then
            Inr \<lparr>bv_valid = False, bv_block = bid, bv_corrupted = [], bv_missing = [], bv_added = [],
              bv_reason = ''block has never been sealed''\<rparr>
          else
            (let sealed = sealed_hashes b; current = member_hashes P H db bid;
                 corrupted = sort (map fst (filter (\<lambda>(m, h). map_of current m \<noteq> None \<and> map_of current m \<noteq> Some h) sealed));
                 missing = sort (filter (\<lambda>m. map_of current m = None) (remdups (map fst sealed)));
                 added = sort (filter (\<lambda>m. map_of sealed m = None) (remdups (map fst current)));
                 content_ok = Some (block_content_hash H sealed) = bk_content_hash b;
                 valid = (corrupted = [] \<and> missing = [] \<and> added = [] \<and> content_ok)
             in Inr \<lparr>bv_valid = valid, bv_block = bid, bv_corrupted = corrupted, bv_missing = missing,
                  bv_added = added,
                  bv_reason =
                    (if valid then ''ok''
                     else if \<not> content_ok \<and> corrupted = [] \<and> missing = [] \<and> added = []
                     then ''sealed content_hash does not match sealed member hashes (seal record tampered)''
                     else py_join '', ''
                       ((if corrupted = [] then [] else [nat_text (length corrupted) @ '' corrupted member(s)''])
                        @ (if missing = [] then [] else [nat_text (length missing) @ '' missing member(s)''])
                        @ (if added = [] then [] else [nat_text (length added) @ '' member(s) added after seal''])))\<rparr>))"

datatype link_break = LinkGone | LinkMismatch

record chain_verification =
  cv_valid :: bool
  cv_checked :: nat
  cv_broken_blocks :: "ustr list"
  cv_broken_links :: "(ustr \<times> link_break) list"

definition block_invalid :: "provider \<Rightarrow> (ustr \<Rightarrow> ustr) \<Rightarrow> store_db \<Rightarrow> block \<Rightarrow> bool" where
  "block_invalid P H db b = (case verify_block P H db (bk_id b) of Inr v \<Rightarrow> \<not> bv_valid v | Inl e \<Rightarrow> True)"

definition broken_link :: "block list \<Rightarrow> block \<Rightarrow> (ustr \<times> link_break) list" where
  "broken_link chain b =
     (case bk_prev_id b of
        None \<Rightarrow> []
      | Some p \<Rightarrow>
          (case map_of (rev (map (\<lambda>c. (bk_id c, bk_content_hash c)) chain)) p of
             Some (Some h) \<Rightarrow> if Some h \<noteq> bk_prev_hash b then [(bk_id b, LinkMismatch)] else []
           | _ \<Rightarrow> [(bk_id b, LinkGone)]))"

definition verify_chain :: "provider \<Rightarrow> (ustr \<Rightarrow> ustr) \<Rightarrow> ustr \<Rightarrow> store_db \<Rightarrow> chain_verification" where
  "verify_chain P H agent db =
     (let chain = sealed_chain db agent;
          broken = map bk_id (filter (block_invalid P H db) chain);
          links = concat (map (broken_link chain) chain)
      in \<lparr>cv_valid = (broken = [] \<and> links = []), cv_checked = length chain,
          cv_broken_blocks = broken, cv_broken_links = links\<rparr>)"

definition quarantine_block :: "store_db \<Rightarrow> ustr \<Rightarrow> py_error + (store_db \<times> block)" where
  "quarantine_block db bid =
     (case get_block db bid of
        None \<Rightarrow> Inl KeyError
      | Some b \<Rightarrow> (let b' = b\<lparr>bk_status := BLOCK_QUARANTINED\<rparr> in Inr (store_block db b', b')))"

definition release_block :: "store_db \<Rightarrow> ustr \<Rightarrow> py_error + (store_db \<times> block)" where
  "release_block db bid =
     (case get_block db bid of
        None \<Rightarrow> Inl KeyError
      | Some b \<Rightarrow>
          (let b' = b\<lparr>bk_status := (if bk_content_hash b \<noteq> None then BLOCK_SEALED else BLOCK_OPEN)\<rparr>
           in Inr (store_block db b', b')))"

section \<open>Ids protected by seals\<close>

text \<open>Sets of ids as lists.\<close>

record sealed_ids =
  sm_blocks :: "ustr list"
  sm_fragments :: "ustr list"
  sm_nodes :: "ustr list"
  sm_edges :: "ustr list"

definition no_membership :: sealed_ids where
  "no_membership = \<lparr>sm_blocks = [], sm_fragments = [], sm_nodes = [], sm_edges = []\<rparr>"

definition sm_nonempty :: "sealed_ids \<Rightarrow> bool" where
  "sm_nonempty m \<longleftrightarrow> sm_blocks m \<noteq> []"

definition protects_fragment :: "sealed_ids \<Rightarrow> fragment \<Rightarrow> bool" where
  "protects_fragment m f \<longleftrightarrow> fr_id f \<in> set (sm_fragments m) \<or> fr_block f \<in> Some ` set (sm_blocks m)"

definition protects_node :: "sealed_ids \<Rightarrow> node \<Rightarrow> bool" where
  "protects_node m n \<longleftrightarrow> nd_id n \<in> set (sm_nodes m)"

definition protects_edge :: "sealed_ids \<Rightarrow> edge \<Rightarrow> bool" where
  "protects_edge m e \<longleftrightarrow> ed_id e \<in> set (sm_edges m) \<or> ed_block e \<in> Some ` set (sm_blocks m)"

definition membership_step :: "provider \<Rightarrow> store_db \<Rightarrow> block \<Rightarrow> sealed_ids \<Rightarrow> sealed_ids" where
  "membership_step P db b m =
     (if bk_content_hash b = None \<and> bk_status b \<noteq> BLOCK_SEALED then m
      else
        (let nodes = sm_nodes m @ map nd_id (nodes_in_block db (bk_id b));
             edges = sm_edges m @ map ed_id (edges_in_block db (bk_id b));
             frags = sm_fragments m @ map fr_id (fragments_for_block P db (bk_id b));
             recorded = filter (\<lambda>i. i \<notin> set nodes \<and> i \<notin> set edges) (map fst (sealed_hashes b))
         in \<lparr>sm_blocks = sm_blocks m @ [bk_id b], sm_fragments = frags @ recorded,
             sm_nodes = nodes, sm_edges = edges\<rparr>))"

definition sealed_membership :: "provider \<Rightarrow> store_db \<Rightarrow> ustr \<Rightarrow> sealed_ids" where
  "sealed_membership P db agent = fold (membership_step P db) (list_blocks db agent) no_membership"

section \<open>Member hashes as a map\<close>

lemma fold_update_map_of:
  "map_of (fold (\<lambda>x. AList.update (k x) (v x)) xs al) = map_of al ++ map_of (rev (map (\<lambda>x. (k x, v x)) xs))"
  by (induction xs arbitrary: al) (simp_all add: AList.update_conv' map_add_def fun_eq_iff split: option.splits)

lemma fold_update_dom:
  "fst ` set (fold (\<lambda>x. AList.update (k x) (v x)) xs al) = fst ` set al \<union> k ` set xs"
  by (induction xs arbitrary: al) (auto simp: dom_update)

lemma fold_update_distinct:
  "distinct (map fst al) \<Longrightarrow> distinct (map fst (fold (\<lambda>x. AList.update (k x) (v x)) xs al))"
  by (induction xs arbitrary: al) (simp_all add: distinct_update)

lemma member_hashes_distinct: "distinct (map fst (member_hashes P H db bid))"
  by (simp add: member_hashes_def fold_update_distinct)

text \<open>The canonical texts of a block's members, with their ids.\<close>

definition member_texts :: "provider \<Rightarrow> store_db \<Rightarrow> ustr \<Rightarrow> (ustr \<times> ustr) list" where
  "member_texts P db bid =
     map (\<lambda>f. (fr_id f, json_dumps_sorted (fragment_payload f))) (fragments_for_block P db bid)
     @ map (\<lambda>n. (nd_id n, json_dumps_sorted (node_payload n))) (nodes_in_block db bid)
     @ map (\<lambda>e. (ed_id e, json_dumps_sorted (edge_payload e))) (edges_in_block db bid)"

lemma member_hashes_fold:
  "member_hashes P H db bid = fold (\<lambda>(i, t). AList.update i (H t)) (member_texts P db bid) []"
  by (simp add: member_hashes_def member_texts_def fold_map comp_def hash_fragment_def hash_node_def
      hash_edge_def canonical_hash_def)

lemma map_of_hashed: "map_of (map (\<lambda>x. (fst x, H (snd x))) xs) i = map_option H (map_of xs i)"
  by (induction xs) auto

lemma member_hashes_map:
  "distinct (map fst (member_texts P db bid)) \<Longrightarrow>
   map_of (member_hashes P H db bid) = (\<lambda>i. map_option H (map_of (member_texts P db bid) i))"
proof -
  assume d: "distinct (map fst (member_texts P db bid))"
  have "map_of (member_hashes P H db bid)
      = map_of (rev (map (\<lambda>x. (fst x, H (snd x))) (member_texts P db bid)))"
    unfolding member_hashes_fold split_def fold_update_map_of by simp
  also have "\<dots> = map_of (map (\<lambda>x. (fst x, H (snd x))) (member_texts P db bid))"
    using d by (intro map_of_rev_distinct) (simp add: comp_def)
  also have "\<dots> = (\<lambda>i. map_option H (map_of (member_texts P db bid) i))"
    by (simp add: fun_eq_iff map_of_hashed)
  finally show ?thesis .
qed

lemma get_block_store: "get_block (store_block db b) i = (if i = bk_id b then Some (b\<lparr>bk_fragments := []\<rparr>) else get_block db i)"
  by (simp add: get_block_def store_block_def tbl_get_replace)

lemma get_block_id: "get_block db bid = Some b \<Longrightarrow> bk_id b = bid"
  by (auto simp: get_block_def dest: tbl_get_SomeD)

lemma members_store_block [simp]: "member_hashes P H (store_block db b) bid = member_hashes P H db bid"
  by (simp add: member_hashes_def fragments_for_block_def nodes_in_block_def edges_in_block_def store_block_def)

lemma seal_block_InrD:
  assumes "seal_block P H now agent db bid = Inr (db', b)"
  shows "db' = store_block db b \<and> bk_id b = bid \<and> bk_status b = BLOCK_SEALED
    \<and> sealed_hashes b = member_hashes P H db bid
    \<and> bk_content_hash b = Some (block_content_hash H (member_hashes P H db bid))
    \<and> bk_sealed_at b = Some now"
  using assms by (auto simp: seal_block_def Let_def sealed_hashes_def AList.update_conv'
      dest: get_block_id split: option.splits if_splits)

lemma sealed_get_block:
  assumes "seal_block P H now agent db bid = Inr (db', b)"
  shows "get_block db' bid = Some (b\<lparr>bk_fragments := []\<rparr>)"
  using seal_block_InrD[OF assms] by (simp add: get_block_store)

text \<open>What a valid verification establishes: the recorded map is the current one.\<close>

lemma verify_block_validD:
  assumes "verify_block P H db bid = Inr v" "bv_valid v" "get_block db bid = Some b"
    and "distinct (map fst (sealed_hashes b))"
  shows "map_of (member_hashes P H db bid) = map_of (sealed_hashes b)
    \<and> bk_content_hash b = Some (block_content_hash H (sealed_hashes b))"
proof -
  define cur where "cur = member_hashes P H db bid"
  define sl where "sl = sealed_hashes b"
  have d: "distinct (map fst cur)" "distinct (map fst sl)"
    using assms(4) by (simp_all add: cur_def sl_def member_hashes_distinct)
  have "bk_content_hash b \<noteq> None"
    using assms(1-3) by (auto simp: verify_block_def split: if_splits)
  then have c: "filter (\<lambda>(m, h). map_of cur m \<noteq> None \<and> map_of cur m \<noteq> Some h) sl = []"
    and m: "filter (\<lambda>m. map_of cur m = None) (remdups (map fst sl)) = []"
    and a: "filter (\<lambda>m. map_of sl m = None) (remdups (map fst cur)) = []"
    and ok: "bk_content_hash b = Some (block_content_hash H sl)"
    using assms(1-3) unfolding verify_block_def cur_def[symmetric] sl_def[symmetric]
    by (auto simp: Let_def sl_def cur_def)
  have "map_of cur i = map_of sl i" for i
  proof (cases "map_of sl i")
    case None
    then have "i \<notin> fst ` set cur" using a by (force simp: filter_empty_conv map_of_eq_None_iff)
    then show ?thesis using None by (metis map_of_eq_None_iff)
  next
    case (Some h)
    then have "(i, h) \<in> set sl" by (rule map_of_SomeD)
    then have "map_of cur i \<noteq> None" "map_of cur i = None \<or> map_of cur i = Some h"
      using c m by (force simp: filter_empty_conv)+
    with Some show ?thesis by auto
  qed
  with ok show ?thesis by (auto simp: cur_def sl_def)
qed

lemma verify_sealed:
  assumes r: "seal_block P H now agent db bid = Inr (db', b)"
  shows "verify_block P H db' bid = Inr \<lparr>bv_valid = True, bv_block = bid, bv_corrupted = [],
          bv_missing = [], bv_added = [], bv_reason = ''ok''\<rparr>"
proof -
  let ?hs = "member_hashes P H db bid"
  have d: "distinct (map fst ?hs)" by (rule member_hashes_distinct)
  have f1: "filter (\<lambda>(m, h). map_of ?hs m \<noteq> None \<and> map_of ?hs m \<noteq> Some h) ?hs = []"
    using d by (auto simp: filter_empty_conv)
  have f2: "filter (\<lambda>m. map_of ?hs m = None) (remdups (map fst ?hs)) = []"
    by (auto simp: filter_empty_conv map_of_eq_None_iff image_iff)
  note s = seal_block_InrD[OF r]
  have "sealed_hashes (b\<lparr>bk_fragments := []\<rparr>) = ?hs" using s by (simp add: sealed_hashes_def)
  moreover have "member_hashes P H db' bid = ?hs" using s by simp
  ultimately show ?thesis
    using s unfolding verify_block_def sealed_get_block[OF r] by (simp add: f1[simplified] f2 Let_def)
qed

text \<open>Sealing an open block always succeeds, and a freshly sealed block verifies: no member
  is reported corrupted, missing or added, and the reason is \<open>ok\<close>. Sealing any other block is
  refused and writes nothing.\<close>

theorem seal_then_verify:
  "case seal_block P H now agent db bid of
     Inl e \<Rightarrow> (case get_block db bid of None \<Rightarrow> e = KeyError | Some b \<Rightarrow> e = ValueError \<and> bk_status b \<noteq> BLOCK_OPEN)
   | Inr (db', b) \<Rightarrow> bk_status b = BLOCK_SEALED
      \<and> map_option bk_status (get_block db bid) = Some BLOCK_OPEN
      \<and> verify_block P H db' bid = Inr \<lparr>bv_valid = True, bv_block = bid, bv_corrupted = [],
          bv_missing = [], bv_added = [], bv_reason = ''ok''\<rparr>
      \<and> db_fragments db' = db_fragments db \<and> db_nodes db' = db_nodes db \<and> db_edges db' = db_edges db"
proof (cases "seal_block P H now agent db bid")
  case (Inl e)
  then show ?thesis by (auto simp: seal_block_def Let_def split: option.splits if_splits)
next
  case (Inr r)
  then obtain db' b where r: "seal_block P H now agent db bid = Inr (db', b)" by (cases r) auto
  have "map_option bk_status (get_block db bid) = Some BLOCK_OPEN"
    using r by (auto simp: seal_block_def split: option.splits if_splits)
  with verify_sealed[OF r] seal_block_InrD[OF r] show ?thesis unfolding r by (simp add: store_block_def)
qed

text \<open>The fields a seal commits to, one tuple per member.\<close>

definition fragment_identity where
  "fragment_identity f = (fr_id f, fr_content f, fr_agent f, fr_session f, fr_source f, fr_created f)"

definition node_identity where
  "node_identity n = (nd_id n, nd_type n, nd_label n, nd_fragment n, nd_created n)"

definition edge_identity where
  "edge_identity e = (ed_id e, ed_source e, ed_target e, ed_relation e, ed_created e)"

lemma u_inj: "u s = u t \<longleftrightarrow> s = t"
proof -
  have "inj (map (of_char :: char \<Rightarrow> nat))" by (rule inj_mapI) (simp add: inj_on_def)
  then show ?thesis by (simp add: u_def inj_eq)
qed

lemma opt_text_inj [simp]: "opt_text x = opt_text y \<longleftrightarrow> x = y"
  by (auto simp: opt_text_def split: option.splits)

text \<open>Text that Python can encode as UTF-8, in every hashed field, and calendar timestamps.\<close>

definition opt_valid :: "ustr option \<Rightarrow> bool" where
  "opt_valid x = (case x of None \<Rightarrow> True | Some s \<Rightarrow> ustr_valid s)"

definition fragment_sane :: "fragment \<Rightarrow> bool" where
  "fragment_sane f \<longleftrightarrow> ustr_valid (fr_id f) \<and> ustr_valid (fr_content f) \<and> ustr_valid (fr_agent f)
     \<and> opt_valid (fr_session f) \<and> opt_valid (fr_source f) \<and> dt_valid (fr_created f)"

definition node_sane :: "node \<Rightarrow> bool" where
  "node_sane n \<longleftrightarrow> ustr_valid (nd_id n) \<and> ustr_valid (nd_label n) \<and> opt_valid (nd_fragment n) \<and> dt_valid (nd_created n)"

definition edge_sane :: "edge \<Rightarrow> bool" where
  "edge_sane e \<longleftrightarrow> ustr_valid (ed_id e) \<and> ustr_valid (ed_source e) \<and> ustr_valid (ed_target e) \<and> dt_valid (ed_created e)"

lemma ustr_valid_u [simp]: "ustr_valid (u s)"
proof -
  have "uni_scalar (of_char c)" for c
    unfolding uni_scalar_def using nat_of_char_less_256[of c] by linarith
  then show ?thesis by (simp add: ustr_valid_def list_all_iff u_def)
qed

lemma opt_text_valid [simp]: "json_valid (opt_text x) = opt_valid x"
  by (simp add: opt_text_def opt_valid_def split: option.splits)

lemma payload_valid:
  "fragment_sane f \<Longrightarrow> json_valid (JObj (fragment_payload f))"
  "node_sane n \<Longrightarrow> json_valid (JObj (node_payload n))"
  "edge_sane e \<Longrightarrow> json_valid (JObj (edge_payload e))"
  by (simp_all only: fragment_payload_def node_payload_def edge_payload_def json_valid.simps
      list.pred_inject prod.case ustr_valid_u opt_text_valid
      fragment_sane_def node_sane_def edge_sane_def simp_thms)

lemmas payload_simps = fragment_payload_def node_payload_def edge_payload_def u_inj

lemma payload_entriesD:
  assumes "set xs = set ys"
  shows "(k, v) \<in> set xs \<Longrightarrow> (k, v) \<in> set ys"
  using assms by blast

lemma fragment_payload_commits:
  assumes "set (fragment_payload f) = set (fragment_payload g)" "dt_valid (fr_created f)" "dt_valid (fr_created g)"
  shows "fragment_identity f = fragment_identity g"
proof -
  note d = payload_entriesD[OF assms(1)]
  from d[of "u ''id''" "JStr (fr_id f)"] have 1: "fr_id f = fr_id g"
    by (simp add: payload_simps del: u_simps)
  from d[of "u ''content''" "JStr (fr_content f)"] have 2: "fr_content f = fr_content g"
    by (simp add: payload_simps del: u_simps)
  from d[of "u ''agent_id''" "JStr (fr_agent f)"] have 3: "fr_agent f = fr_agent g"
    by (simp add: payload_simps del: u_simps)
  from d[of "u ''session_id''" "opt_text (fr_session f)"] have 4: "fr_session f = fr_session g"
    by (simp add: payload_simps del: u_simps)
  from d[of "u ''source''" "opt_text (fr_source f)"] have 5: "fr_source f = fr_source g"
    by (simp add: payload_simps del: u_simps)
  from d[of "u ''created_at''" "JStr (u (iso_text (fr_created f)))"]
  have "iso_text (fr_created f) = iso_text (fr_created g)" by (simp add: payload_simps del: u_simps)
  then have "fr_created f = fr_created g" using iso_text_inj[OF assms(2,3)] by simp
  with 1 2 3 4 5 show ?thesis by (simp add: fragment_identity_def)
qed

lemma node_payload_commits:
  assumes "set (node_payload f) = set (node_payload g)" "dt_valid (nd_created f)" "dt_valid (nd_created g)"
  shows "node_identity f = node_identity g"
proof -
  note d = payload_entriesD[OF assms(1)]
  from d[of "u ''id''" "JStr (nd_id f)"] have 1: "nd_id f = nd_id g"
    by (simp add: payload_simps del: u_simps)
  from d[of "u ''node_type''" "JStr (u (nd_type f))"] have 2: "nd_type f = nd_type g"
    by (simp add: payload_simps del: u_simps)
  from d[of "u ''label''" "JStr (nd_label f)"] have 3: "nd_label f = nd_label g"
    by (simp add: payload_simps del: u_simps)
  from d[of "u ''fragment_id''" "opt_text (nd_fragment f)"] have 4: "nd_fragment f = nd_fragment g"
    by (simp add: payload_simps del: u_simps)
  from d[of "u ''created_at''" "JStr (u (iso_text (nd_created f)))"]
  have "iso_text (nd_created f) = iso_text (nd_created g)" by (simp add: payload_simps del: u_simps)
  then have "nd_created f = nd_created g" using iso_text_inj[OF assms(2,3)] by simp
  with 1 2 3 4 show ?thesis by (simp add: node_identity_def)
qed

lemma edge_payload_commits:
  assumes "set (edge_payload f) = set (edge_payload g)" "dt_valid (ed_created f)" "dt_valid (ed_created g)"
  shows "edge_identity f = edge_identity g"
proof -
  note d = payload_entriesD[OF assms(1)]
  from d[of "u ''id''" "JStr (ed_id f)"] have 1: "ed_id f = ed_id g"
    by (simp add: payload_simps del: u_simps)
  from d[of "u ''source_id''" "JStr (ed_source f)"] have 2: "ed_source f = ed_source g"
    by (simp add: payload_simps del: u_simps)
  from d[of "u ''target_id''" "JStr (ed_target f)"] have 3: "ed_target f = ed_target g"
    by (simp add: payload_simps del: u_simps)
  from d[of "u ''relation''" "JStr (u (ed_relation f))"] have 4: "ed_relation f = ed_relation g"
    by (simp add: payload_simps del: u_simps)
  from d[of "u ''created_at''" "JStr (u (iso_text (ed_created f)))"]
  have "iso_text (ed_created f) = iso_text (ed_created g)" by (simp add: payload_simps del: u_simps)
  then have "ed_created f = ed_created g" using iso_text_inj[OF assms(2,3)] by simp
  with 1 2 3 4 show ?thesis by (simp add: edge_identity_def)
qed

lemma payload_kinds_differ:
  "set (fragment_payload f) \<noteq> set (node_payload n)"
  "set (fragment_payload f) \<noteq> set (edge_payload e)"
  "set (node_payload n) \<noteq> set (edge_payload e)"
proof -
  have f: "(u ''kind'', JStr (u ''fragment'')) \<in> set (fragment_payload f)"
    and n: "(u ''kind'', JStr (u ''node'')) \<in> set (node_payload n)"
    by (simp_all add: payload_simps del: u_simps)
  show "set (fragment_payload f) \<noteq> set (node_payload n)"
    by (rule notI, drule payload_entriesD[OF _ f]) (simp add: payload_simps del: u_simps)
  show "set (fragment_payload f) \<noteq> set (edge_payload e)"
    by (rule notI, drule payload_entriesD[OF _ f]) (simp add: payload_simps del: u_simps)
  show "set (node_payload n) \<noteq> set (edge_payload e)"
    by (rule notI, drule payload_entriesD[OF _ n]) (simp add: payload_simps del: u_simps)
qed

definition members_sane :: "provider \<Rightarrow> store_db \<Rightarrow> ustr \<Rightarrow> bool" where
  "members_sane P db bid \<longleftrightarrow> list_all fragment_sane (fragments_for_block P db bid)
     \<and> list_all node_sane (nodes_in_block db bid) \<and> list_all edge_sane (edges_in_block db bid)
     \<and> distinct (map fst (member_texts P db bid))"

lemma sane_created:
  "fragment_sane f \<Longrightarrow> dt_valid (fr_created f)" "node_sane n \<Longrightarrow> dt_valid (nd_created n)"
  "edge_sane e \<Longrightarrow> dt_valid (ed_created e)"
  by (simp_all add: fragment_sane_def node_sane_def edge_sane_def)

lemmas payload_text_entries =
  json_sorted_entries[OF payload_valid(1) payload_valid(1)] json_sorted_entries[OF payload_valid(1) payload_valid(2)]
  json_sorted_entries[OF payload_valid(1) payload_valid(3)] json_sorted_entries[OF payload_valid(2) payload_valid(1)]
  json_sorted_entries[OF payload_valid(2) payload_valid(2)] json_sorted_entries[OF payload_valid(2) payload_valid(3)]
  json_sorted_entries[OF payload_valid(3) payload_valid(1)] json_sorted_entries[OF payload_valid(3) payload_valid(2)]
  json_sorted_entries[OF payload_valid(3) payload_valid(3)]

text \<open>A member text found among a block's texts is the text of a member of the same kind with the
  same committed fields.\<close>

lemma fragment_text_covered:
  assumes "(i, json_dumps_sorted (fragment_payload f)) \<in> set (member_texts P db bid)"
    and "fragment_sane f" "members_sane P db bid"
  shows "fragment_identity f \<in> fragment_identity ` set (fragments_for_block P db bid)"
proof -
  from assms(1) consider
      g where "g \<in> set (fragments_for_block P db bid)" "json_dumps_sorted (fragment_payload f) = json_dumps_sorted (fragment_payload g)"
    | n where "n \<in> set (nodes_in_block db bid)" "json_dumps_sorted (fragment_payload f) = json_dumps_sorted (node_payload n)"
    | e where "e \<in> set (edges_in_block db bid)" "json_dumps_sorted (fragment_payload f) = json_dumps_sorted (edge_payload e)"
    by (auto simp: member_texts_def)
  then show ?thesis
  proof cases
    case 1
    then have "fragment_sane g" using assms(3) by (simp add: members_sane_def list_all_iff)
    with 1 assms(2) have "fragment_identity f = fragment_identity g"
      by (intro fragment_payload_commits payload_text_entries(1) sane_created)
    with 1 show ?thesis by blast
  next
    case 2
    then have "node_sane n" using assms(3) by (simp add: members_sane_def list_all_iff)
    with payload_text_entries(2)[OF assms(2) this 2(2)] payload_kinds_differ(1) show ?thesis by blast
  next
    case 3
    then have "edge_sane e" using assms(3) by (simp add: members_sane_def list_all_iff)
    with payload_text_entries(3)[OF assms(2) this 3(2)] payload_kinds_differ(2) show ?thesis by blast
  qed
qed

lemma node_text_covered:
  assumes "(i, json_dumps_sorted (node_payload m)) \<in> set (member_texts P db bid)"
    and "node_sane m" "members_sane P db bid"
  shows "node_identity m \<in> node_identity ` set (nodes_in_block db bid)"
proof -
  from assms(1) consider
      g where "g \<in> set (fragments_for_block P db bid)" "json_dumps_sorted (node_payload m) = json_dumps_sorted (fragment_payload g)"
    | n where "n \<in> set (nodes_in_block db bid)" "json_dumps_sorted (node_payload m) = json_dumps_sorted (node_payload n)"
    | e where "e \<in> set (edges_in_block db bid)" "json_dumps_sorted (node_payload m) = json_dumps_sorted (edge_payload e)"
    by (auto simp: member_texts_def)
  then show ?thesis
  proof cases
    case 1
    then have "fragment_sane g" using assms(3) by (simp add: members_sane_def list_all_iff)
    with payload_text_entries(4)[OF assms(2) this 1(2)] payload_kinds_differ(1) show ?thesis by metis
  next
    case 2
    then have "node_sane n" using assms(3) by (simp add: members_sane_def list_all_iff)
    with 2 assms(2) have "node_identity m = node_identity n"
      by (intro node_payload_commits payload_text_entries(5) sane_created)
    with 2 show ?thesis by blast
  next
    case 3
    then have "edge_sane e" using assms(3) by (simp add: members_sane_def list_all_iff)
    with payload_text_entries(6)[OF assms(2) this 3(2)] payload_kinds_differ(3) show ?thesis by blast
  qed
qed

lemma edge_text_covered:
  assumes "(i, json_dumps_sorted (edge_payload m)) \<in> set (member_texts P db bid)"
    and "edge_sane m" "members_sane P db bid"
  shows "edge_identity m \<in> edge_identity ` set (edges_in_block db bid)"
proof -
  from assms(1) consider
      g where "g \<in> set (fragments_for_block P db bid)" "json_dumps_sorted (edge_payload m) = json_dumps_sorted (fragment_payload g)"
    | n where "n \<in> set (nodes_in_block db bid)" "json_dumps_sorted (edge_payload m) = json_dumps_sorted (node_payload n)"
    | e where "e \<in> set (edges_in_block db bid)" "json_dumps_sorted (edge_payload m) = json_dumps_sorted (edge_payload e)"
    by (auto simp: member_texts_def)
  then show ?thesis
  proof cases
    case 1
    then have "fragment_sane g" using assms(3) by (simp add: members_sane_def list_all_iff)
    with payload_text_entries(7)[OF assms(2) this 1(2)] payload_kinds_differ(2) show ?thesis by metis
  next
    case 2
    then have "node_sane n" using assms(3) by (simp add: members_sane_def list_all_iff)
    with payload_text_entries(8)[OF assms(2) this 2(2)] payload_kinds_differ(3) show ?thesis by metis
  next
    case 3
    then have "edge_sane e" using assms(3) by (simp add: members_sane_def list_all_iff)
    with 3 assms(2) have "edge_identity m = edge_identity e"
      by (intro edge_payload_commits payload_text_entries(9) sane_created)
    with 3 show ?thesis by blast
  qed
qed

definition sealed_view where
  "sealed_view P db bid = (fragment_identity ` set (fragments_for_block P db bid),
     node_identity ` set (nodes_in_block db bid), edge_identity ` set (edges_in_block db bid))"

lemma texts_cover_view:
  assumes "set (member_texts P db bid) \<subseteq> set (member_texts P db2 bid)"
    and "members_sane P db bid" "members_sane P db2 bid"
  shows "fst (sealed_view P db bid) \<subseteq> fst (sealed_view P db2 bid)
    \<and> fst (snd (sealed_view P db bid)) \<subseteq> fst (snd (sealed_view P db2 bid))
    \<and> snd (snd (sealed_view P db bid)) \<subseteq> snd (snd (sealed_view P db2 bid))"
proof -
  have f: "(fr_id f, json_dumps_sorted (fragment_payload f)) \<in> set (member_texts P db2 bid)" "fragment_sane f"
    if "f \<in> set (fragments_for_block P db bid)" for f
    using that assms(1,2) by (auto simp: member_texts_def members_sane_def list_all_iff)
  have n: "(nd_id f, json_dumps_sorted (node_payload f)) \<in> set (member_texts P db2 bid)" "node_sane f"
    if "f \<in> set (nodes_in_block db bid)" for f
    using that assms(1,2) by (auto simp: member_texts_def members_sane_def list_all_iff)
  have e: "(ed_id f, json_dumps_sorted (edge_payload f)) \<in> set (member_texts P db2 bid)" "edge_sane f"
    if "f \<in> set (edges_in_block db bid)" for f
    using that assms(1,2) by (auto simp: member_texts_def members_sane_def list_all_iff)
  show ?thesis unfolding sealed_view_def fst_conv snd_conv
    using fragment_text_covered[OF f assms(3)] node_text_covered[OF n assms(3)]
      edge_text_covered[OF e assms(3)] by (intro conjI image_subsetI)
qed

section \<open>Which changes a seal tolerates\<close>

lemma verify_block_cong:
  assumes "get_block db' bid = get_block db bid"
    and "map_of (member_hashes P H db' bid) = map_of (member_hashes P H db bid)"
  shows "verify_block P H db' bid = verify_block P H db bid"
proof -
  let ?c = "member_hashes P H db bid" and ?c' = "member_hashes P H db' bid"
  have "fst ` set ?c' = fst ` set ?c" using arg_cong[OF assms(2), of dom] by (simp add: dom_map_of_conv_image_fst)
  then have "sort (filter p (remdups (map fst ?c'))) = sort (filter p (remdups (map fst ?c)))" for p
    by (intro sorted_distinct_set_unique) (auto simp: distinct_filter)
  then show ?thesis
    by (simp only: verify_block_def Let_def assms)
qed

text \<open>The columns of a fragment row that a seal depends on.\<close>

definition row_core where
  "row_core r = (fr_id r, fr_content r, fr_agent r, fr_block r, fr_session r, fr_source r, fr_created r)"

definition core_text where
  "core_text P = (\<lambda>(i, c, a, b, s, src, t). (i, json_dumps_sorted (fragment_payload
     (undefined\<lparr>fr_id := i, fr_content := (case pv_decrypt P c of Some c \<Rightarrow> py_strip c | None \<Rightarrow> UNREADABLE),
       fr_agent := a, fr_session := s, fr_source := src, fr_created := t\<rparr>))))"

lemma decode_text:
  "(fr_id (fst (decode_fragment P r)), json_dumps_sorted (fragment_payload (fst (decode_fragment P r))))
     = core_text P (row_core r)"
proof -
  have "fragment_payload (fst (decode_fragment P r)) = fragment_payload
     (undefined\<lparr>fr_id := fr_id r, fr_content := (case pv_decrypt P (fr_content r) of Some c \<Rightarrow> py_strip c | None \<Rightarrow> UNREADABLE),
       fr_agent := fr_agent r, fr_session := fr_session r, fr_source := fr_source r, fr_created := fr_created r\<rparr>)"
    unfolding fragment_payload_def by (simp add: decode_fragment_def Let_def del: u_simps)
  then show ?thesis by (simp add: core_text_def row_core_def)
qed

lemma fragment_texts_mset:
  assumes "map row_core (db_fragments db') = map row_core (db_fragments db)"
  shows "mset (map (\<lambda>f. (fr_id f, json_dumps_sorted (fragment_payload f))) (fragments_for_block P db' bid))
    = mset (map (\<lambda>f. (fr_id f, json_dumps_sorted (fragment_payload f))) (fragments_for_block P db bid))"
proof -
  have "mset (map (\<lambda>f. (fr_id f, json_dumps_sorted (fragment_payload f))) (fragments_for_block P d bid))
      = mset (map (core_text P) (filter (\<lambda>(i, c, a, b, x). b = Some bid) (map row_core (db_fragments d))))" for d
    unfolding fragments_for_block_def map_map comp_def decode_text filter_map
    by (simp add: row_core_def)
  then show ?thesis by (simp only: assms)
qed

lemma member_hashes_core_cong:
  assumes "map row_core (db_fragments db') = map row_core (db_fragments db)"
    and "db_nodes db' = db_nodes db" "db_block_nodes db' = db_block_nodes db"
    and "mset (map (\<lambda>e. (ed_id e, json_dumps_sorted (edge_payload e))) (edges_in_block db' bid))
       = mset (map (\<lambda>e. (ed_id e, json_dumps_sorted (edge_payload e))) (edges_in_block db bid))"
    and "distinct (map fst (member_texts P db bid))"
  shows "map_of (member_hashes P H db' bid) = map_of (member_hashes P H db bid)"
proof -
  have n: "nodes_in_block db' bid = nodes_in_block db bid"
    using assms(2,3) by (simp add: nodes_in_block_def)
  have m: "mset (member_texts P db' bid) = mset (member_texts P db bid)"
    unfolding member_texts_def mset_append n fragment_texts_mset[OF assms(1)] assms(4) ..
  then have "mset (map fst (member_texts P db' bid)) = mset (map fst (member_texts P db bid))"
    by (simp only: mset_map)
  then have d: "distinct (map fst (member_texts P db' bid))"
    using assms(5) by (metis mset_eq_imp_distinct_iff)
  have "map_of (member_texts P db' bid) = map_of (member_texts P db bid)"
    using mset_eq_setD[OF m] by (simp add: map_of_inject_set[OF d assms(5)])
  then show ?thesis unfolding member_hashes_map[OF d] member_hashes_map[OF assms(5)] by simp
qed

lemma row_core_updates [simp]:
  "row_core (r\<lparr>fr_importance := i\<rparr>) = row_core r" "row_core (r\<lparr>fr_updated := t\<rparr>) = row_core r"
  "row_core (r\<lparr>fr_state := s\<rparr>) = row_core r" "row_core (r\<lparr>fr_accessed := a\<rparr>) = row_core r"
  "row_core (r\<lparr>fr_meta := m\<rparr>) = row_core r" "row_core (r\<lparr>fr_embedding := e\<rparr>) = row_core r"
  by (simp_all add: row_core_def)

lemma core_tbl_update:
  "(\<And>r. row_core (g r) = row_core r) \<Longrightarrow> map row_core (tbl_update p g rows) = map row_core rows"
  by (simp add: tbl_update_def)

lemma core_importance_many:
  "map row_core (db_fragments (update_importance_many now db upds)) = map row_core (db_fragments db)
   \<and> db_nodes (update_importance_many now db upds) = db_nodes db
   \<and> db_block_nodes (update_importance_many now db upds) = db_block_nodes db
   \<and> db_edges (update_importance_many now db upds) = db_edges db
   \<and> db_blocks (update_importance_many now db upds) = db_blocks db"
  unfolding update_importance_many_def
proof (induction upds arbitrary: db)
  case (Cons x upds)
  then show ?case by (cases x) (simp add: core_tbl_update)
qed simp

lemma edge_weight_texts:
  "mset (map (\<lambda>e. (ed_id e, json_dumps_sorted (edge_payload e))) (edges_in_block (update_edge_weight db eid w) bid))
   = mset (map (\<lambda>e. (ed_id e, json_dumps_sorted (edge_payload e))) (edges_in_block db bid))"
proof -
  have "map (\<lambda>e. (ed_id e, json_dumps_sorted (edge_payload e))) (filter (\<lambda>e. ed_block e = Some bid)
      (tbl_update (\<lambda>e. ed_id e = eid) (\<lambda>e. e\<lparr>ed_weight := max 0 (min 1 w)\<rparr>) es))
    = map (\<lambda>e. (ed_id e, json_dumps_sorted (edge_payload e))) (filter (\<lambda>e. ed_block e = Some bid) es)" for es
    by (induction es) (simp_all add: tbl_update_def edge_payload_def del: u_simps)
  then have "mset (map (\<lambda>e. (ed_id e, json_dumps_sorted (edge_payload e))) (filter (\<lambda>e. ed_block e = Some bid)
      (tbl_update (\<lambda>e. ed_id e = eid) (\<lambda>e. e\<lparr>ed_weight := max 0 (min 1 w)\<rparr>) (db_edges db))))
    = mset (map (\<lambda>e. (ed_id e, json_dumps_sorted (edge_payload e))) (filter (\<lambda>e. ed_block e = Some bid) (db_edges db)))"
    by (rule arg_cong)
  then show ?thesis by (simp add: edges_in_block_def update_edge_weight_def)
qed

lemma edges_in_block_same: "db_edges db' = db_edges db \<Longrightarrow> edges_in_block db' bid = edges_in_block db bid"
  by (simp add: edges_in_block_def)

lemma get_block_same: "db_blocks db' = db_blocks db \<Longrightarrow> get_block db' bid = get_block db bid"
  by (simp add: get_block_def)

lemma verify_core_cong:
  assumes "map row_core (db_fragments db') = map row_core (db_fragments db)"
    and "db_nodes db' = db_nodes db" "db_block_nodes db' = db_block_nodes db"
    and "db_edges db' = db_edges db" "db_blocks db' = db_blocks db"
    and "distinct (map fst (member_texts P db bid))"
  shows "verify_block P H db' bid = verify_block P H db bid"
  by (intro verify_block_cong get_block_same member_hashes_core_cong assms)
     (simp add: edges_in_block_same[OF assms(4)])

text \<open>Legitimate changes never break a seal: importance updates, lifecycle transitions,
  access counting, new embeddings and edge weights leave the outcome of every verification as it
  was.\<close>

theorem seal_survives_plasticity:
  assumes "distinct (map fst (member_texts P db bid))"
  shows "verify_block P H (update_importance_many now db upds) bid = verify_block P H db bid
    \<and> verify_block P H (update_state now db fid s) bid = verify_block P H db bid
    \<and> verify_block P H (touch_many now db fids) bid = verify_block P H db bid
    \<and> verify_block P H (update_embedding db fid e) bid = verify_block P H db bid
    \<and> verify_block P H (persist_tampered now db fids) bid = verify_block P H db bid
    \<and> verify_block P H (update_edge_weight db eid w) bid = verify_block P H db bid"
proof (intro conjI)
  show "verify_block P H (update_importance_many now db upds) bid = verify_block P H db bid"
    using core_importance_many[of now db upds] by (intro verify_core_cong assms) simp_all
  show "verify_block P H (update_edge_weight db eid w) bid = verify_block P H db bid"
    by (intro verify_block_cong member_hashes_core_cong assms edge_weight_texts)
       (simp_all add: update_edge_weight_def get_block_def)
qed (intro verify_core_cong assms; simp add: update_state_def touch_many_def update_embedding_def
       persist_tampered_def core_tbl_update)+

text \<open>C1: a seal is tamper-evident. Let a block be sealed in one database, and let \<open>db2\<close> be
  any later database that still holds the sealed block's row. If the block verifies in \<open>db2\<close>
  then it has exactly the members it was sealed with, and every one of them has the identity,
  content, owner, session, source, label, relation, end points and creation time it had then. The
  hypotheses: the hash has no collision on the texts of these members, ids are not shared between
  members, and texts can be encoded.\<close>

theorem seal_is_tamper_evident:
  assumes "seal_block P H now agent db bid = Inr (db1, b)"
    and "get_block db2 bid = get_block db1 bid"
    and "verify_block P H db2 bid = Inr v" "bv_valid v"
    and "inj_on H (snd ` set (member_texts P db bid @ member_texts P db2 bid))"
    and "members_sane P db bid" "members_sane P db2 bid"
  shows "sealed_view P db2 bid = sealed_view P db bid"
proof -
  let ?b = "b\<lparr>bk_fragments := []\<rparr>"
  let ?T1 = "member_texts P db bid" and ?T2 = "member_texts P db2 bid"
  note s = seal_block_InrD[OF assms(1)]
  have b: "get_block db2 bid = Some ?b" unfolding assms(2) by (rule sealed_get_block[OF assms(1)])
  have sl: "sealed_hashes ?b = member_hashes P H db bid" using s by (simp add: sealed_hashes_def)
  have d1: "distinct (map fst ?T1)" and d2: "distinct (map fst ?T2)"
    using assms(6,7) by (simp_all add: members_sane_def)
  have "map_of (member_hashes P H db2 bid) = map_of (sealed_hashes ?b)"
    using verify_block_validD[OF assms(3,4) b] by (simp add: sl member_hashes_distinct)
  then have "map_of (member_hashes P H db2 bid) = map_of (member_hashes P H db bid)"
    by (simp only: sl)
  then have eq: "map_option H (map_of ?T2 i) = map_option H (map_of ?T1 i)" for i
    unfolding member_hashes_map[OF d1] member_hashes_map[OF d2] by (rule fun_cong)
  have "map_of ?T2 i = map_of ?T1 i" for i
  proof (cases "map_of ?T1 i")
    case None
    then show ?thesis using eq[of i] by simp
  next
    case (Some t)
    then obtain t' where t': "map_of ?T2 i = Some t'" "H t' = H t" using eq[of i] by auto
    have "t' \<in> snd ` set (?T1 @ ?T2)" "t \<in> snd ` set (?T1 @ ?T2)"
      using map_of_SomeD[OF t'(1)] map_of_SomeD[OF Some]
      by (auto intro: image_eqI[of _ snd "(i, t')"] image_eqI[of _ snd "(i, t)"])
    then have "t' = t" by (rule inj_onD[OF assms(5) t'(2)])
    with Some t' show ?thesis by simp
  qed
  then have "map_of ?T2 = map_of ?T1" by (rule ext)
  then have sets: "set ?T2 = set ?T1" by (simp add: map_of_inject_set[OF d2 d1])
  have "fst (sealed_view P db bid) = fst (sealed_view P db2 bid)
    \<and> fst (snd (sealed_view P db bid)) = fst (snd (sealed_view P db2 bid))
    \<and> snd (snd (sealed_view P db bid)) = snd (snd (sealed_view P db2 bid))"
    using texts_cover_view[OF _ assms(6,7)] texts_cover_view[OF _ assms(7,6)] sets
    by (intro conjI subset_antisym) simp_all
  then show ?thesis by (intro prod_eqI) simp_all
qed

definition wit_block :: block where
  "wit_block = \<lparr>bk_id = u ''b1'', bk_name = u ''day'', bk_agent = u ''a'', bk_type = ''notes'', bk_session = None,
     bk_status = BLOCK_OPEN, bk_content_hash = None, bk_prev_id = None, bk_prev_hash = None,
     bk_sealed_at = None, bk_fragments = [], bk_created = DT 2026 1 1 0 0 0 0, bk_meta = []\<rparr>"

definition wit_sealed_db :: store_db where
  "wit_sealed_db = empty_db\<lparr>db_blocks := [wit_block], db_fragments := [wit_fragment\<lparr>fr_block := Some (u ''b1'')\<rparr>]\<rparr>"

lemma wit_content_strip: "py_strip (fr_content wit_fragment) = fr_content wit_fragment"
  by (rule py_strip_clean) (simp_all add: wit_fragment_def py_isspace_def)

lemma wit_fragments_for_block:
  assumes "db_fragments db = [wit_fragment\<lparr>fr_block := Some bid, fr_state := s, fr_updated := t\<rparr>]"
  shows "fragments_for_block (noop_provider wit_sha) db bid = [wit_fragment\<lparr>fr_block := Some bid, fr_state := s, fr_updated := t\<rparr>]"
proof -
  have "map_of (fr_meta (wit_fragment\<lparr>fr_block := Some bid, fr_state := s, fr_updated := t\<rparr>)) k = None" for k
    by (simp add: wit_fragment_def)
  then show ?thesis
    by (simp add: fragments_for_block_def assms decode_fragment_def noop_provider_def wit_content_strip hash_check_def Let_def)
qed

lemma wit_members_sane:
  assumes "db_fragments db = [wit_fragment\<lparr>fr_block := Some bid, fr_state := s, fr_updated := t\<rparr>]"
    and "db_edges db = []" "db_block_nodes db = []"
  shows "members_sane (noop_provider wit_sha) db bid"
proof -
  have "fragment_sane (wit_fragment\<lparr>fr_block := Some bid, fr_state := s, fr_updated := t\<rparr>)"
    by (simp add: fragment_sane_def wit_fragment_def opt_valid_def del: u_simps)
  moreover have "nodes_in_block db bid = []" "edges_in_block db bid = []"
    using assms(2,3) by (simp_all add: nodes_in_block_def edges_in_block_def List.map_filter_def)
  ultimately show ?thesis
    by (simp add: members_sane_def member_texts_def wit_fragments_for_block[OF assms(1)])
qed

lemma seal_is_tamper_evident_witness:
  "\<exists>db1 b. seal_block (noop_provider wit_sha) (\<lambda>t. t) (DT 2026 1 3 0 0 0 0) (u ''a'') wit_sealed_db (u ''b1'') = Inr (db1, b)
     \<and> sealed_view (noop_provider wit_sha) (update_state (DT 2026 1 4 0 0 0 0) db1 (u ''f1'') VERIFIED) (u ''b1'')
       = sealed_view (noop_provider wit_sha) wit_sealed_db (u ''b1'')"
proof -
  let ?P = "noop_provider wit_sha" and ?bid = "u ''b1''" and ?H = "\<lambda>t::ustr. t"
  have rows: "db_fragments wit_sealed_db = [wit_fragment\<lparr>fr_block := Some ?bid, fr_state := RAW, fr_updated := DT 2026 1 1 0 0 0 0\<rparr>]"
    by (simp add: wit_sealed_db_def wit_fragment_def)
  have sane: "members_sane ?P wit_sealed_db ?bid"
    by (rule wit_members_sane[OF rows]) (simp_all add: wit_sealed_db_def empty_db_def)
  have "get_block wit_sealed_db ?bid = Some wit_block" "bk_status wit_block = BLOCK_OPEN"
    by (simp_all add: get_block_def tbl_get_def wit_sealed_db_def wit_block_def)
  then have "\<exists>db1 b. seal_block ?P ?H (DT 2026 1 3 0 0 0 0) (u ''a'') wit_sealed_db ?bid = Inr (db1, b)"
    by (simp add: seal_block_def Let_def)
  then obtain db1 b where s: "seal_block ?P ?H (DT 2026 1 3 0 0 0 0) (u ''a'') wit_sealed_db ?bid = Inr (db1, b)"
    by blast
  let ?db2 = "update_state (DT 2026 1 4 0 0 0 0) db1 (u ''f1'') VERIFIED"
  have db1: "db1 = store_block wit_sealed_db b" using seal_block_InrD[OF s] by blast
  have id: "fr_id wit_fragment = u ''f1''" by (simp add: wit_fragment_def)
  have rows2: "db_fragments ?db2 = [wit_fragment\<lparr>fr_block := Some ?bid, fr_state := VERIFIED, fr_updated := DT 2026 1 4 0 0 0 0\<rparr>]"
    by (simp add: update_state_def db1 rows tbl_update_def id)
  have sane2: "members_sane ?P ?db2 ?bid"
    by (rule wit_members_sane[OF rows2]) (simp_all add: update_state_def db1 store_block_def wit_sealed_db_def empty_db_def)
  have d: "distinct (map fst (member_texts ?P db1 ?bid))"
    using sane by (simp add: members_sane_def member_texts_def db1 fragments_for_block_def nodes_in_block_def
        edges_in_block_def store_block_def)
  have "verify_block ?P ?H ?db2 ?bid = verify_block ?P ?H db1 ?bid"
    by (intro verify_core_cong d) (simp_all add: update_state_def core_tbl_update)
  with verify_sealed[OF s] have v: "verify_block ?P ?H ?db2 ?bid = Inr \<lparr>bv_valid = True, bv_block = ?bid, bv_corrupted = [],
          bv_missing = [], bv_added = [], bv_reason = ''ok''\<rparr>" by simp
  have "get_block ?db2 ?bid = get_block db1 ?bid" by (simp add: get_block_def update_state_def)
  from seal_is_tamper_evident[OF s this v _ _ sane sane2] s show ?thesis by simp
qed

lemma seal_survives_plasticity_witness:
  "verify_block (noop_provider wit_sha) (\<lambda>t. t) (update_state (DT 2026 1 4 0 0 0 0) wit_sealed_db (u ''f1'') VERIFIED) (u ''b1'')
     = verify_block (noop_provider wit_sha) (\<lambda>t. t) wit_sealed_db (u ''b1'')"
proof -
  have rows: "db_fragments wit_sealed_db = [wit_fragment\<lparr>fr_block := Some (u ''b1''), fr_state := RAW, fr_updated := DT 2026 1 1 0 0 0 0\<rparr>]"
    by (simp add: wit_sealed_db_def wit_fragment_def)
  have "members_sane (noop_provider wit_sha) wit_sealed_db (u ''b1'')"
    by (rule wit_members_sane[OF rows]) (simp_all add: wit_sealed_db_def empty_db_def)
  then have "distinct (map fst (member_texts (noop_provider wit_sha) wit_sealed_db (u ''b1'')))"
    by (simp add: members_sane_def)
  from seal_survives_plasticity[OF this] show ?thesis by blast
qed

text \<open>Quarantine is reversible and total on known blocks: a quarantined block's members
  disappear from every listing of the agent, and releasing it gives back the block exactly as it
  was when its status was the one its seal record implies.\<close>

theorem quarantine_then_release:
  assumes "get_block db bid = Some b" "bk_fragments b = []"
    and "bk_status b = (if bk_content_hash b = None then BLOCK_OPEN else BLOCK_SEALED)"
  shows "case quarantine_block db bid of Inl e \<Rightarrow> False
    | Inr (db1, q) \<Rightarrow> Some bid \<notin> set (map fr_block (list_by_agent P db1 agent ff lmt))
        \<and> db_fragments db1 = db_fragments db
        \<and> (case release_block db1 bid of Inl e \<Rightarrow> False
           | Inr (db2, r) \<Rightarrow> r = b \<and> get_block db2 = get_block db \<and> db_fragments db2 = db_fragments db)"
proof -
  let ?q = "b\<lparr>bk_status := BLOCK_QUARANTINED\<rparr>" let ?db1 = "store_block db ?q"
  have id: "bk_id b = bid" by (rule get_block_id[OF assms(1)])
  have q: "quarantine_block db bid = Inr (?db1, ?q)" by (simp add: quarantine_block_def assms(1) Let_def)
  have "?q\<lparr>bk_fragments := []\<rparr> \<in> set (db_blocks ?db1)" by (simp add: store_block_def tbl_replace_def)
  then have "bk_id (?q\<lparr>bk_fragments := []\<rparr>) \<in> set (quarantined_blocks ?db1)"
    unfolding quarantined_blocks_def set_map by (intro imageI) simp
  then have hidden: "bid \<in> set (quarantined_blocks ?db1)" by (simp add: id)
  have "fr_block f \<noteq> Some bid" if "f \<in> set (list_by_agent P ?db1 agent ff lmt)" for f
  proof -
    from that obtain r where r: "fragment_matches ?db1 agent ff r" "f = fst (decode_fragment P r)"
      using set_sql_limit[of lmt "sort_key_desc fr_importance (sort_key_desc fr_created
          (filter (fragment_matches ?db1 agent ff) (db_fragments ?db1)))"]
      by (auto simp: list_by_agent_def)
    then show ?thesis using hidden by (auto simp: fragment_matches_def split: option.splits)
  qed
  then have list: "Some bid \<notin> set (map fr_block (list_by_agent P ?db1 agent ff lmt))"
    unfolding set_map by (metis (no_types, lifting) imageE)
  have g: "get_block ?db1 bid = Some (?q\<lparr>bk_fragments := []\<rparr>)" by (simp add: get_block_store id)
  have "?q\<lparr>bk_fragments := []\<rparr>\<lparr>bk_status := (if bk_content_hash b \<noteq> None then BLOCK_SEALED else BLOCK_OPEN)\<rparr> = b"
    using assms(2,3) by (cases b) auto
  then have r: "release_block ?db1 bid = Inr (store_block ?db1 b, b)"
    unfolding release_block_def g by (simp add: Let_def)
  have "get_block (store_block ?db1 b) = get_block db"
    using assms(1,2) id by (intro ext) (auto simp: get_block_store)
  then show ?thesis using list unfolding q r by (simp add: r)
qed

lemma quarantine_then_release_witness:
  "case quarantine_block wit_sealed_db (u ''b1'') of Inl e \<Rightarrow> False
    | Inr (db1, q) \<Rightarrow> Some (u ''b1'') \<notin> set (map fr_block (list_by_agent (noop_provider wit_sha) db1 (u ''a'') no_filter None))
        \<and> db_fragments db1 = db_fragments wit_sealed_db
        \<and> (case release_block db1 (u ''b1'') of Inl e \<Rightarrow> False
           | Inr (db2, r) \<Rightarrow> r = wit_block \<and> get_block db2 = get_block wit_sealed_db \<and> db_fragments db2 = db_fragments wit_sealed_db)"
  by (rule quarantine_then_release) (simp_all add: get_block_def tbl_get_def wit_sealed_db_def wit_block_def)

section \<open>The chain\<close>

text \<open>The recorded predecessor of \<open>b\<close> is in the chain with the recorded hash.\<close>

definition link_ok :: "block set \<Rightarrow> block \<Rightarrow> bool" where
  "link_ok C b \<longleftrightarrow> (case bk_prev_id b of None \<Rightarrow> True
     | Some p \<Rightarrow> \<exists>c\<in>C. bk_id c = p \<and> bk_content_hash c \<noteq> None \<and> bk_content_hash c = bk_prev_hash b)"

lemma broken_link_iff:
  assumes "distinct (map bk_id chain)"
  shows "broken_link chain b = [] \<longleftrightarrow> link_ok (set chain) b"
proof (cases "bk_prev_id b")
  case (Some p)
  let ?m = "map (\<lambda>c. (bk_id c, bk_content_hash c)) chain"
  have d: "distinct (map fst ?m)" using assms by (simp add: comp_def)
  have "map_of (rev ?m) p = map_of ?m p" by (simp only: map_of_rev_distinct[OF d])
  moreover have "map_of ?m p = Some h \<longleftrightarrow> (\<exists>c\<in>set chain. bk_id c = p \<and> bk_content_hash c = h)" for h
    using map_of_eq_Some_iff[OF d] by auto
  ultimately have m: "map_of (rev ?m) p = Some h \<longleftrightarrow> (\<exists>c\<in>set chain. bk_id c = p \<and> bk_content_hash c = h)" for h
    by simp
  show ?thesis
  proof (cases "map_of (rev ?m) p")
    case None
    then have "\<not> (\<exists>c\<in>set chain. bk_id c = p)" using m by auto
    with None Some show ?thesis by (auto simp: broken_link_def link_ok_def)
  next
    case (Some h)
    with m obtain c where c: "c \<in> set chain" "bk_id c = p" "bk_content_hash c = h" by auto
    have "c' = c" if "c' \<in> set chain" "bk_id c' = p" for c'
      using that c(1,2) assms by (auto simp: distinct_map dest: inj_onD)
    then have "(\<exists>c'\<in>set chain. bk_id c' = p \<and> Q c') = Q c" for Q using c(1,2) by blast
    then have "link_ok (set chain) b = (h \<noteq> None \<and> h = bk_prev_hash b)"
      using \<open>bk_prev_id b = Some p\<close> c(3) by (simp add: link_ok_def)
    moreover have "broken_link chain b = (case h of None \<Rightarrow> [(bk_id b, LinkGone)]
        | Some x \<Rightarrow> if Some x \<noteq> bk_prev_hash b then [(bk_id b, LinkMismatch)] else [])"
      unfolding broken_link_def \<open>bk_prev_id b = Some p\<close> option.case Some by (cases h) simp_all
    ultimately show ?thesis by (cases h) auto
  qed
qed (simp add: broken_link_def link_ok_def)

definition in_chain :: "ustr \<Rightarrow> block \<Rightarrow> bool" where
  "in_chain agent b \<longleftrightarrow> bk_agent b = agent \<and> bk_sealed_at b \<noteq> None \<and> bk_status b \<in> {BLOCK_SEALED, BLOCK_QUARANTINED}"

lemma set_sealed_chain: "set (sealed_chain db agent) = {b \<in> set (db_blocks db). in_chain agent b}"
  by (auto simp: sealed_chain_def in_chain_def)

lemma distinct_sealed_chain: "tbl_ok bk_id (db_blocks db) \<Longrightarrow> distinct (map bk_id (sealed_chain db agent))"
  unfolding sealed_chain_def by (simp add: distinct_map inj_on_def)

lemma verify_chain_valid_iff:
  assumes "tbl_ok bk_id (db_blocks db)"
  shows "cv_valid (verify_chain P H agent db) \<longleftrightarrow>
    (\<forall>b. b \<in> set (db_blocks db) \<and> in_chain agent b \<longrightarrow>
       \<not> block_invalid P H db b \<and> link_ok {c \<in> set (db_blocks db). in_chain agent c} b)"
proof -
  have "cv_valid (verify_chain P H agent db) \<longleftrightarrow>
      (\<forall>b\<in>set (sealed_chain db agent). \<not> block_invalid P H db b \<and> broken_link (sealed_chain db agent) b = [])"
    by (auto simp: verify_chain_def Let_def filter_empty_conv)
  then show ?thesis
    by (simp only: broken_link_iff[OF distinct_sealed_chain[OF assms]] set_sealed_chain mem_Collect_eq Ball_def)
qed

lemma block_invalid_store_other:
  "bk_id b \<noteq> bk_id c \<Longrightarrow> block_invalid P H (store_block db b) c = block_invalid P H db c"
  using verify_block_cong[of "store_block db b" "bk_id c" db P H]
  by (simp add: block_invalid_def get_block_store)

lemma link_ok_mono: "link_ok C b \<Longrightarrow> C \<subseteq> D \<Longrightarrow> link_ok D b"
  by (auto simp: link_ok_def split: option.splits)

lemma latest_sealed_in_chain:
  assumes "latest_sealed_block db agent excl = Some p"
  shows "p \<in> set (db_blocks db) \<and> in_chain agent p \<and> Some (bk_id p) \<noteq> excl"
proof -
  let ?xs = "sort_key_desc bk_sealed_at (sort_key_desc bk_created
             (filter (\<lambda>b. bk_agent b = agent \<and> bk_status b = BLOCK_SEALED \<and> bk_sealed_at b \<noteq> None
                \<and> Some (bk_id b) \<noteq> excl) (db_blocks db)))"
  from assms have "p \<in> set ?xs" by (cases ?xs) (auto simp: latest_sealed_block_def)
  then show ?thesis by (auto simp: in_chain_def)
qed

text \<open>C6: sealing extends a valid chain to a valid chain: when every sealed block of the agent
  verifies and every recorded predecessor hash matches, the same holds after one more block is
  sealed, and the new block's predecessor is a member of the old chain with exactly the content
  hash the new block records.\<close>

theorem seal_extends_chain:
  assumes "tbl_ok bk_id (db_blocks db)" "cv_valid (verify_chain P H agent db)"
    and "seal_block P H now agent db bid = Inr (db', b)"
  shows "cv_valid (verify_chain P H agent db')
    \<and> (case bk_prev_id b of None \<Rightarrow> bk_prev_hash b = None
       | Some p \<Rightarrow> \<exists>c. c \<in> set (sealed_chain db agent) \<and> bk_id c = p \<and> bk_prev_hash b = bk_content_hash c)"
proof -
  let ?C = "{c \<in> set (db_blocks db). in_chain agent c}"
  note s = seal_block_InrD[OF assms(3)]
  obtain b0 where b0: "get_block db bid = Some b0" "bk_status b0 = BLOCK_OPEN"
    "bk_prev_id b = map_option bk_id (latest_sealed_block db agent (Some bid))"
    "bk_prev_hash b = Option.bind (latest_sealed_block db agent (Some bid)) bk_content_hash"
    using assms(3) by (auto simp: seal_block_def Let_def split: option.splits if_splits)
  have old: "c \<in> ?C \<Longrightarrow> \<not> block_invalid P H db c \<and> link_ok ?C c" for c
    using assms(2) unfolding verify_chain_valid_iff[OF assms(1)] by blast
  have other: "bk_id c \<noteq> bid" if "c \<in> ?C" for c
  proof
    assume "bk_id c = bid"
    then have "get_block db bid = Some c" using that tbl_get_Some[OF assms(1)] by (simp add: get_block_def)
    with b0(1,2) that show False by (auto simp: in_chain_def)
  qed
  have db': "db' = store_block db b" and id: "bk_id b = bid" using s by auto
  let ?b = "b\<lparr>bk_fragments := []\<rparr>"
  have ok': "tbl_ok bk_id (db_blocks db')" unfolding db' store_block_def using assms(1) by simp
  have rows: "{c \<in> set (db_blocks db'). in_chain agent c} \<subseteq> insert ?b ?C"
    unfolding db' store_block_def tbl_replace_def by auto
  have sub: "?C \<subseteq> {c \<in> set (db_blocks db'). in_chain agent c}"
    unfolding db' store_block_def tbl_replace_def using other id by auto
  have link: "case bk_prev_id b of None \<Rightarrow> bk_prev_hash b = None
       | Some p \<Rightarrow> \<exists>c. c \<in> ?C \<and> bk_id c = p \<and> bk_prev_hash b = bk_content_hash c"
    using b0(3,4) latest_sealed_in_chain[of db agent "Some bid"]
    by (cases "latest_sealed_block db agent (Some bid)") auto
  have hash: "bk_content_hash c \<noteq> None" if "c \<in> ?C" for c
  proof
    assume n: "bk_content_hash c = None"
    have "get_block db (bk_id c) = Some c" using that tbl_get_Some[OF assms(1)] by (simp add: get_block_def)
    then have "block_invalid P H db c" by (simp add: block_invalid_def verify_block_def n)
    with old[OF that] show False by blast
  qed
  have "cv_valid (verify_chain P H agent db')"
    unfolding verify_chain_valid_iff[OF ok']
  proof (intro allI impI)
    fix c assume "c \<in> set (db_blocks db') \<and> in_chain agent c"
    with rows consider "c = ?b" | "c \<in> ?C" by blast
    then show "\<not> block_invalid P H db' c \<and> link_ok {c \<in> set (db_blocks db'). in_chain agent c} c"
    proof cases
      case 1
      have "\<not> block_invalid P H db' c" using verify_sealed[OF assms(3)] by (simp add: block_invalid_def 1 id)
      moreover have "link_ok ?C c"
      proof (cases "bk_prev_id b")
        case (Some p)
        with link obtain q where "q \<in> ?C" "bk_id q = p" "bk_prev_hash b = bk_content_hash q" by auto
        with hash[OF this(1)] Some show ?thesis by (auto simp: 1 link_ok_def)
      qed (simp add: 1 link_ok_def)
      ultimately show ?thesis using link_ok_mono[OF _ sub] by blast
    next
      case 2
      then have "block_invalid P H db' c = block_invalid P H db c"
        unfolding db' using other[OF 2] id by (intro block_invalid_store_other) auto
      with old[OF 2] link_ok_mono[OF _ sub] show ?thesis by blast
    qed
  qed
  with link show ?thesis unfolding set_sealed_chain by blast
qed

lemma seal_extends_chain_witness:
  "\<exists>db1 b. seal_block (noop_provider wit_sha) (\<lambda>t. t) (DT 2026 1 3 0 0 0 0) (u ''a'') wit_sealed_db (u ''b1'') = Inr (db1, b)
     \<and> cv_valid (verify_chain (noop_provider wit_sha) (\<lambda>t. t) (u ''a'') db1)"
proof -
  have g: "get_block wit_sealed_db (u ''b1'') = Some wit_block" "bk_status wit_block = BLOCK_OPEN"
    by (simp_all add: get_block_def tbl_get_def wit_sealed_db_def wit_block_def)
  then have "\<exists>db1 b. seal_block (noop_provider wit_sha) (\<lambda>t. t) (DT 2026 1 3 0 0 0 0) (u ''a'') wit_sealed_db (u ''b1'') = Inr (db1, b)"
    by (simp add: seal_block_def Let_def)
  then obtain db1 b where s: "seal_block (noop_provider wit_sha) (\<lambda>t. t) (DT 2026 1 3 0 0 0 0) (u ''a'') wit_sealed_db (u ''b1'') = Inr (db1, b)"
    by blast
  have "tbl_ok bk_id (db_blocks wit_sealed_db)" by (simp add: wit_sealed_db_def)
  moreover have "cv_valid (verify_chain (noop_provider wit_sha) (\<lambda>t. t) (u ''a'') wit_sealed_db)"
    by (simp add: verify_chain_def sealed_chain_def wit_sealed_db_def wit_block_def)
  ultimately show ?thesis using seal_extends_chain[OF _ _ s] s by blast
qed

text \<open>The content hash covers the members only: it is the same whatever the predecessor is, so a
  block's hash does not commit to the chain before it.\<close>

lemma content_hash_ignores_chain:
  assumes "seal_block P H now agent db bid = Inr (db1, b)" "seal_block P H now' agent' db' bid = Inr (db2, c)"
    and "db_fragments db' = db_fragments db" "db_nodes db' = db_nodes db" "db_edges db' = db_edges db"
    and "db_block_nodes db' = db_block_nodes db"
  shows "bk_content_hash c = bk_content_hash b"
proof -
  have "member_hashes P H db' bid = member_hashes P H db bid"
    using assms(3-6) by (simp add: member_hashes_def fragments_for_block_def nodes_in_block_def edges_in_block_def)
  then show ?thesis using seal_block_InrD[OF assms(1)] seal_block_InrD[OF assms(2)] by simp
qed

section \<open>Protection\<close>

definition carries_seal :: "block \<Rightarrow> bool" where
  "carries_seal b \<longleftrightarrow> bk_content_hash b \<noteq> None \<or> bk_status b = BLOCK_SEALED"

lemma membership_fold:
  "sm_blocks (fold (membership_step P db) bs m) = sm_blocks m @ map bk_id (filter carries_seal bs)
   \<and> sm_nodes (fold (membership_step P db) bs m)
      = sm_nodes m @ concat (map (\<lambda>b. map nd_id (nodes_in_block db (bk_id b))) (filter carries_seal bs))
   \<and> sm_edges (fold (membership_step P db) bs m)
      = sm_edges m @ concat (map (\<lambda>b. map ed_id (edges_in_block db (bk_id b))) (filter carries_seal bs))
   \<and> set (sm_fragments m) \<subseteq> set (sm_fragments (fold (membership_step P db) bs m))"
proof (induction bs arbitrary: m)
  case (Cons b bs)
  show ?case
    using Cons[of "membership_step P db b m"]
    by (auto simp: membership_step_def carries_seal_def Let_def)
qed simp

lemma membership_fragments:
  assumes "b \<in> set bs" "carries_seal b"
    and "i \<in> fr_id ` set (fragments_for_block P db (bk_id b)) \<or> i \<in> fst ` set (sealed_hashes b)"
  shows "i \<in> set (sm_fragments (fold (membership_step P db) bs m)) \<or>
    i \<in> set (sm_nodes (fold (membership_step P db) bs m)) \<or> i \<in> set (sm_edges (fold (membership_step P db) bs m))"
  using assms(1)
proof (induction bs arbitrary: m)
  case (Cons c bs)
  show ?case
  proof (cases "c = b")
    case True
    then have "i \<in> set (sm_fragments (membership_step P db c m)) \<or>
      i \<in> set (sm_nodes (membership_step P db c m)) \<or> i \<in> set (sm_edges (membership_step P db c m))"
      using assms(2,3) by (auto simp: membership_step_def carries_seal_def Let_def)
    then show ?thesis
      using membership_fold[of P db bs "membership_step P db c m"] by auto
  next
    case False
    with Cons.prems Cons.IH show ?thesis by simp
  qed
qed simp

text \<open>What a seal protects, for a block that is sealed or was sealed before a quarantine:
  every row in the block (and so every member fragment), every edge scoped to it and every node
  in it are protected from maintenance, and each id its seal recorded is in one of the protected
  sets even after the member moved away.\<close>

theorem seal_protects_members:
  assumes "b \<in> set (db_blocks db)" "bk_agent b = agent" "carries_seal b"
  shows "(if fr_block f = Some (bk_id b) then protects_fragment (sealed_membership P db agent) f else True)
    \<and> (if ed_block e = Some (bk_id b) then protects_edge (sealed_membership P db agent) e else True)
    \<and> (if n \<in> set (nodes_in_block db (bk_id b)) then protects_node (sealed_membership P db agent) n else True)
    \<and> (let m = sealed_membership P db agent in
         set (map fst (sealed_hashes b)) \<subseteq> set (sm_fragments m @ sm_nodes m @ sm_edges m))"
proof -
  have b: "b \<in> set (list_blocks db agent)" using assms(1,2) by (simp add: list_blocks_def)
  note m = membership_fold[of P db "list_blocks db agent" no_membership, folded sealed_membership_def]
  have "bk_id b \<in> set (sm_blocks (sealed_membership P db agent))"
    using m b assms(3) by auto
  moreover have "nd_id n \<in> set (sm_nodes (sealed_membership P db agent))"
    if "n \<in> set (nodes_in_block db (bk_id b))" for n
    using m b assms(3) that by auto
  moreover have "i \<in> set (sm_fragments (sealed_membership P db agent) @ sm_nodes (sealed_membership P db agent)
      @ sm_edges (sealed_membership P db agent))" if "i \<in> fst ` set (sealed_hashes b)" for i
    using membership_fragments[OF b assms(3), of i P db no_membership, folded sealed_membership_def] that by auto
  ultimately show ?thesis
    by (auto simp: protects_fragment_def protects_edge_def protects_node_def Let_def)
qed

lemma seal_protects_members_witness:
  "protects_fragment (sealed_membership (noop_provider wit_sha)
     (wit_sealed_db\<lparr>db_blocks := [wit_block\<lparr>bk_status := BLOCK_SEALED\<rparr>]\<rparr>) (u ''a''))
     (wit_fragment\<lparr>fr_block := Some (u ''b1'')\<rparr>)"
proof -
  let ?b = "wit_block\<lparr>bk_status := BLOCK_SEALED\<rparr>"
  have "?b \<in> set (db_blocks (wit_sealed_db\<lparr>db_blocks := [?b]\<rparr>))" "bk_agent ?b = u ''a''" "carries_seal ?b"
    "bk_id ?b = u ''b1''"
    by (simp_all add: wit_block_def carries_seal_def)
  with seal_protects_members[OF this(1,2,3), of "wit_fragment\<lparr>fr_block := Some (u ''b1'')\<rparr>"]
  show ?thesis by simp
qed

text \<open>A recorded node that has left the block is only listed among the fragment ids, so
  \<open>protects_node\<close> no longer protects it.\<close>

lemma removed_node_unprotected:
  "\<exists>db b n. b \<in> set (db_blocks db) \<and> bk_agent b = u ''a'' \<and> carries_seal b
     \<and> nd_id n \<in> set (map fst (sealed_hashes b)) \<and> n \<in> set (db_nodes db)
     \<and> \<not> protects_node (sealed_membership (noop_provider wit_sha) db (u ''a'')) n"
proof -
  let ?n = "\<lparr>nd_id = u ''n1'', nd_type = ''concept'', nd_label = u ''x'', nd_agent = None, nd_fragment = None,
    nd_document = None, nd_weight = 1, nd_created = DT 2026 1 1 0 0 0 0\<rparr>"
  let ?b = "wit_block\<lparr>bk_status := BLOCK_SEALED, bk_meta := [(MEMBER_HASHES_KEY, MvHashes [(u ''n1'', u ''h'')])]\<rparr>"
  let ?db = "empty_db\<lparr>db_blocks := [?b], db_nodes := [?n]\<rparr>"
  have "nodes_in_block ?db i = []" for i by (simp add: nodes_in_block_def empty_db_def List.map_filter_def)
  then have "sm_nodes (sealed_membership (noop_provider wit_sha) ?db (u ''a'')) = []"
    using membership_fold[of "noop_provider wit_sha" ?db "list_blocks ?db (u ''a'')" no_membership,
      folded sealed_membership_def] by (simp add: no_membership_def)
  then have "\<not> protects_node (sealed_membership (noop_provider wit_sha) ?db (u ''a'')) ?n"
    by (simp add: protects_node_def)
  then show ?thesis
    by (intro exI[of _ ?db] exI[of _ ?b] exI[of _ ?n]) (simp add: wit_block_def carries_seal_def sealed_hashes_def)
qed

end
