(* ===== verification/Write_Path.thy ===== *)
theory Write_Path
  imports Redaction Kinds Governance VectorIndex BlockChain
begin

text \<open>
  The write path of a memory (\<^verbatim>\<open>memory/facade/\<close>): validation (\<^verbatim>\<open>write_validation.py\<close>), the
  guard that decides what may be indexed (\<^verbatim>\<open>write_guard.py\<close>), single and bulk writes (\<^verbatim>\<open>write.py\<close>,
  \<^verbatim>\<open>write_batch.py\<close>) and embeddings deferred in an outage (\<^verbatim>\<open>intelligence/pending_embeddings.py\<close>),
  on the store and the vector index. No middleware is registered; fact extraction, which never
  fails a write, is left out. Arguments: the embedder, \<open>datetime.fromisoformat\<close>, the UUID hash,
  fresh ids, and \<open>we_meta\<close>, the metadata columns the store model keeps of a JSON dictionary. One
  call reads the monotonic clock once.
\<close>

section \<open>Validation\<close>

datatype write_error = InvalidMemory string | TooLarge nat nat | PolicyError py_error
  | EmbedError | VectorCount nat nat | StoreError py_error | IndexError py_error | BadArguments

datatype content_in = InText ustr | InBytes | InPath | InOther
datatype meta_in = MetaNone | MetaDict pydict | MetaNotDict | MetaNotJson
datatype tags_in = TagsNone | TagsList "string list" | TagsBad

text \<open>A finite number, or anything else (a bool, another type, NaN, an infinity).\<close>

datatype number_in = NumReal real | NumBad
datatype when_in = WhenNone | WhenDatetime datetime | WhenText ustr

definition utf8_size :: "ustr \<Rightarrow> nat" where
  "utf8_size s = sum_list (map (\<lambda>c. if c < 128 then 1 else if c < 2048 then 2 else if c < 65536 then 3 else 4) s)"

definition check_content :: "nat option \<Rightarrow> content_in \<Rightarrow> write_error + ustr" where
  "check_content mx c = (case c of
       InText s \<Rightarrow>
         if py_strip s = [] then Inl (InvalidMemory ''empty'')
         else if \<not> ustr_valid s then Inl (InvalidMemory ''invalid_unicode'')
         else (case mx of None \<Rightarrow> Inr s
           | Some m \<Rightarrow> if utf8_size s > m then Inl (TooLarge (utf8_size s) m) else Inr s)
     | _ \<Rightarrow> Inl (InvalidMemory ''not_text''))"

definition check_metadata :: "meta_in \<Rightarrow> write_error + pydict option" where
  "check_metadata m = (case m of MetaNone \<Rightarrow> Inr None | MetaDict d \<Rightarrow> Inr (Some d)
     | _ \<Rightarrow> Inl (InvalidMemory ''metadata''))"

definition check_tags :: "tags_in \<Rightarrow> write_error + string list option" where
  "check_tags t = (case t of TagsNone \<Rightarrow> Inr None | TagsList ts \<Rightarrow> Inr (Some ts)
     | TagsBad \<Rightarrow> Inl (InvalidMemory ''tags''))"

definition check_number :: "string \<Rightarrow> number_in \<Rightarrow> write_error + real" where
  "check_number name n = (case n of NumBad \<Rightarrow> Inl (InvalidMemory name)
     | NumReal x \<Rightarrow> if 0 \<le> x \<and> x \<le> 1 then Inr x else Inl (InvalidMemory name))"

definition zulu_offset :: "ustr \<Rightarrow> ustr" where
  "zulu_offset s = concat (map (\<lambda>c. if c = 90 then u ''+00:00'' else [c]) s)"

definition with_occurred_at :: "(ustr \<Rightarrow> bool) \<Rightarrow> pydict option \<Rightarrow> when_in \<Rightarrow> py_error + pydict option" where
  "with_occurred_at fromiso meta occ =
     (let put = (\<lambda>v. Some (AList.update (u ''occurred_at'') (PyStr v) (case meta of None \<Rightarrow> [] | Some d \<Rightarrow> d)))
      in case occ of
           WhenNone \<Rightarrow> Inr meta
         | WhenDatetime t \<Rightarrow> Inr (put (u (iso_text t)))
         | WhenText s \<Rightarrow> let v = py_strip s in
             if fromiso (zulu_offset v) then Inr (put v) else Inl ValueError)"

section \<open>The guard\<close>

record write_options =
  wo_importance :: real
  wo_scope :: memory_scope
  wo_tags :: "string list option"
  wo_source :: "ustr option"
  wo_state :: memory_state
  wo_confidence :: real
  wo_session :: "ustr option"
  wo_ttl :: "int option"

record rejection =
  rj_id :: ustr
  rj_reason :: ustr
  rj_content :: ustr

record write_env =
  we_agent :: ustr
  we_provider :: provider
  we_redact :: redact_env
  we_screen :: "ustr \<Rightarrow> ustr list"
  we_policy :: write_policy
  we_sha :: "ustr \<Rightarrow> ustr"
  we_why :: "gate_reason \<Rightarrow> ustr"
  we_meta :: "pydict \<Rightarrow> metadata"
  we_dec :: "nat \<Rightarrow> bool"
  we_fromiso :: "ustr \<Rightarrow> bool"
  we_uuid5 :: "ustr \<Rightarrow> ustr"
  we_max :: "nat option"

record memory_sys =
  my_db :: store_db
  my_index :: vector_index
  my_gate :: "gate option"
  my_last :: "rejection option"
  my_pending :: "ustr set"
  my_retry_at :: real
  my_outage :: bool

fun state_value :: "memory_state \<Rightarrow> ustr" where
  "state_value RAW = u ''raw''"
| "state_value UNVERIFIED = u ''unverified''"
| "state_value VERIFIED = u ''verified''"
| "state_value PROMOTED = u ''promoted''"
| "state_value CONTRADICTED = u ''contradicted''"
| "state_value QUARANTINED = u ''quarantined''"

definition build_fragment ::
  "write_env \<Rightarrow> datetime \<Rightarrow> ustr \<Rightarrow> ustr \<Rightarrow> write_options \<Rightarrow> pydict option \<Rightarrow> write_error + fragment" where
  "build_fragment E now fid content opts meta =
     (case fragment_validated \<lparr>fr_id = fid, fr_content = content, fr_agent = we_agent E, fr_block = None,
         fr_scope = wo_scope opts, fr_tier = EPISODIC, fr_session = wo_session opts,
         fr_importance = wo_importance opts, fr_state = wo_state opts, fr_confidence = wo_confidence opts,
         fr_ttl = wo_ttl opts, fr_created = now, fr_updated = now, fr_accessed = None,
         fr_tags = (case wo_tags opts of None \<Rightarrow> [] | Some ts \<Rightarrow> ts), fr_source = wo_source opts,
         fr_meta = we_meta E (case meta of None \<Rightarrow> [] | Some d \<Rightarrow> d), fr_embedding = None,
         fr_contradictions = []\<rparr> of
       Inl e \<Rightarrow> Inl (InvalidMemory ''invalid_option'') | Inr f \<Rightarrow> Inr f)"

definition GUARD_KEY :: ustr where "GUARD_KEY = u ''mark_guard''"

definition put_guard :: "pydict option \<Rightarrow> pydict \<Rightarrow> pydict option" where
  "put_guard meta entries =
     Some (AList.update GUARD_KEY (PyDict entries) (case meta of None \<Rightarrow> [] | Some d \<Rightarrow> d))"

text \<open>The options of a fragment kept for audit only.\<close>

definition audit_options :: "write_options \<Rightarrow> string list \<Rightarrow> write_options" where
  "audit_options opts extra = opts\<lparr>wo_importance := 0, wo_confidence := 0, wo_state := QUARANTINED,
     wo_tags := Some ((case wo_tags opts of None \<Rightarrow> [] | Some ts \<Rightarrow> ts) @ extra)\<rparr>"

text \<open>\<open>_guarded_fragment\<close>: the gate and the last rejection after the call, and the fragment with
  whether it may be indexed.\<close>

definition guarded_fragment ::
  "write_env \<Rightarrow> datetime \<Rightarrow> ustr \<Rightarrow> gate option \<Rightarrow> rejection option \<Rightarrow> ustr \<Rightarrow> write_options \<Rightarrow> pydict option
    \<Rightarrow> (gate option \<times> rejection option) \<times> (write_error + fragment \<times> bool)" where
  "guarded_fragment E now fid gate last0 content0 opts0 meta0 =
     (case write_policy_apply (we_redact E) (we_screen E) (we_policy E) content0 meta0 (wo_tags opts0) of
        Inl e \<Rightarrow> ((gate, last0), Inl (PolicyError e))
      | Inr d \<Rightarrow>
        (let content = wd_content d; meta = wd_meta d; opts = opts0\<lparr>wo_tags := wd_tags d\<rparr> in
         if wd_quarantine d \<and> wo_state opts \<noteq> QUARANTINED then
           (case build_fragment E now fid content (audit_options opts [''mark:quarantined''])
                  (put_guard meta [(u ''passed'', PyBool False), (u ''reason'', PyStr (wd_reason d)),
                     (u ''original_importance'', PyFloat (wo_importance opts)),
                     (u ''requested_state'', PyStr (state_value (wo_state opts)))]) of
              Inl e \<Rightarrow> ((gate, last0), Inl e)
            | Inr f \<Rightarrow> ((gate, Some \<lparr>rj_id = fr_id f, rj_reason = wd_reason d, rj_content = content\<rparr>), Inr (f, False)))
         else (case gate of
           None \<Rightarrow> (case build_fragment E now fid content opts meta of
              Inl e \<Rightarrow> ((gate, None), Inl e)
            | Inr f \<Rightarrow> ((gate, None), Inr (f, wo_state opts \<noteq> QUARANTINED)))
         | Some g \<Rightarrow>
           if wo_state opts = QUARANTINED then
             (case build_fragment E now fid content (audit_options opts [''mark:quarantined'']) meta of
                Inl e \<Rightarrow> ((gate, last0), Inl e)
              | Inr f \<Rightarrow> ((gate, last0), Inr (f, False)))
           else
             (let (g', res) = gate_check (we_sha E) g content (wo_confidence opts) in
              case gr_reason res of
                None \<Rightarrow> (case build_fragment E now fid (gr_content res) opts
                     (if gr_truncated res then put_guard meta [(u ''passed'', PyBool True), (u ''truncated'', PyBool True),
                        (u ''original_length'', PyInt (int (gr_original_length res)))] else meta) of
                   Inl e \<Rightarrow> ((Some g', None), Inl e)
                 | Inr f \<Rightarrow> ((Some g', None), Inr (f, True)))
              | Some why \<Rightarrow>
                  (case build_fragment E now fid (gr_content res)
                      (audit_options opts [''mark:quarantined'', ''mark:failure''])
                      (put_guard meta [(u ''passed'', PyBool False), (u ''reason'', PyStr (we_why E why)),
                        (u ''original_importance'', PyFloat (wo_importance opts)),
                        (u ''requested_state'', PyStr (state_value (wo_state opts))),
                        (u ''truncated'', PyBool (gr_truncated res))]) of
                     Inl e \<Rightarrow> ((Some g', last0), Inl e)
                   | Inr f \<Rightarrow> ((Some g', Some \<lparr>rj_id = fr_id f, rj_reason = we_why E why, rj_content = gr_content res\<rparr>),
                        Inr (f, False)))))))"

text \<open>The listener of the runtime (\<^verbatim>\<open>memory/runtime.py\<close>): ids that a write made unretrievable, or
  deleted, leave the index.\<close>

definition notify_gone :: "ustr list \<Rightarrow> memory_sys \<Rightarrow> memory_sys" where
  "notify_gone gone s = s\<lparr>my_index := fold index_remove gone (my_index s)\<rparr>"

text \<open>\<open>quarantine_sync\<close>: straight to the store.\<close>

definition quarantine_sync ::
  "write_env \<Rightarrow> datetime \<Rightarrow> ustr \<Rightarrow> memory_sys \<Rightarrow> ustr \<Rightarrow> ustr \<Rightarrow> write_options \<Rightarrow> pydict option
    \<Rightarrow> memory_sys \<times> (write_error + ustr)" where
  "quarantine_sync E now fid s content reason opts meta =
     (case write_policy_apply (we_redact E) (we_screen E) (we_policy E) content meta (wo_tags opts) of
        Inl e \<Rightarrow> (s, Inl (PolicyError e))
      | Inr d \<Rightarrow>
          (case build_fragment E now fid (wd_content d)
               ((audit_options (opts\<lparr>wo_tags := wd_tags d\<rparr>) [''mark:quarantined''])\<lparr>wo_ttl := None\<rparr>)
               (put_guard (wd_meta d) [(u ''passed'', PyBool False), (u ''reason'', PyStr reason),
                  (u ''quarantined_by'', PyStr (u ''quarantine_sync''))]) of
             Inl e \<Rightarrow> (s, Inl e)
           | Inr f \<Rightarrow> (case store_many (we_provider E) (my_db s) [f] of
               Inl e \<Rightarrow> (s, Inl (StoreError e))
             | Inr (db, ids, gone) \<Rightarrow> (notify_gone gone (s\<lparr>my_db := db\<rparr>), Inr (fr_id f)))))"

definition quarantined_list :: "write_env \<Rightarrow> memory_sys \<Rightarrow> nat \<Rightarrow> fragment list" where
  "quarantined_list E s n = list_by_agent (we_provider E) (my_db s) (we_agent E)
     (no_filter\<lparr>ff_states := [QUARANTINED]\<rparr>) (Some (int n))"

section \<open>Embedding for a write\<close>

datatype embed_result = Vectors "vec list" | Transient | Failed

definition RETRY_SECONDS :: real where "RETRY_SECONDS = 30"
definition EMBED_BATCH :: nat where "EMBED_BATCH = 64"

definition embed_batch_or_defer ::
  "memory_sys \<Rightarrow> real \<Rightarrow> (ustr list \<Rightarrow> embed_result) \<Rightarrow> ustr list \<Rightarrow> memory_sys \<times> (write_error + vec list option)" where
  "embed_batch_or_defer s clock emb texts =
     (if clock < my_retry_at s then (s, Inr None)
      else case emb texts of
        Vectors vs \<Rightarrow> (s\<lparr>my_outage := False\<rparr>, Inr (Some vs))
      | Transient \<Rightarrow> (s\<lparr>my_retry_at := clock + RETRY_SECONDS, my_outage := True\<rparr>, Inr None)
      | Failed \<Rightarrow> (s, Inl EmbedError))"

text \<open>\<open>embed_for_write\<close>, batch by batch; \<open>fr_embedding = None\<close> is pending.\<close>

fun embed_chunks ::
  "memory_sys \<Rightarrow> real \<Rightarrow> (ustr list \<Rightarrow> embed_result) \<Rightarrow> fragment list list
    \<Rightarrow> memory_sys \<times> (write_error + fragment list)" where
  "embed_chunks s clock emb [] = (s, Inr [])"
| "embed_chunks s clock emb (c # cs) =
     (case embed_batch_or_defer s clock emb (map fr_content c) of
        (s1, Inl e) \<Rightarrow> (s1, Inl e)
      | (s1, Inr r) \<Rightarrow>
          (case r of
             None \<Rightarrow>
               (case embed_chunks (s1\<lparr>my_pending := my_pending s1 \<union> fr_agent ` set c\<rparr>) clock emb cs of
                  (s2, Inl e) \<Rightarrow> (s2, Inl e)
                | (s2, Inr out) \<Rightarrow> (s2, Inr (map (\<lambda>f. f\<lparr>fr_embedding := None\<rparr>) c @ out)))
           | Some vs \<Rightarrow>
               if length vs \<noteq> length c then (s1, Inl (VectorCount (length vs) (length c)))
               else (case embed_chunks s1 clock emb cs of
                  (s2, Inl e) \<Rightarrow> (s2, Inl e)
                | (s2, Inr out) \<Rightarrow> (s2, Inr (map2 (\<lambda>f v. f\<lparr>fr_embedding := Some v\<rparr>) c vs @ out)))))"

function chunks_of :: "nat \<Rightarrow> 'a list \<Rightarrow> 'a list list" where
  "chunks_of n xs = (if xs = [] \<or> n = 0 then [] else take n xs # chunks_of n (drop n xs))"
  by pat_completeness auto
termination by (relation "measure (\<lambda>(n, xs). length xs)") auto

declare chunks_of.simps [simp del]

definition embed_for_write ::
  "memory_sys \<Rightarrow> real \<Rightarrow> (ustr list \<Rightarrow> embed_result) \<Rightarrow> fragment list \<Rightarrow> memory_sys \<times> (write_error + fragment list)" where
  "embed_for_write s clock emb fs = embed_chunks s clock emb (chunks_of EMBED_BATCH fs)"

section \<open>Storing and indexing\<close>

text \<open>\<open>_index_add\<close> for each fragment: without a vector the agent is marked pending.\<close>

fun index_rows :: "memory_sys \<Rightarrow> fragment list \<Rightarrow> memory_sys \<times> write_error option" where
  "index_rows s [] = (s, None)"
| "index_rows s (f # fs) = (case fr_embedding f of
       None \<Rightarrow> index_rows (s\<lparr>my_pending := insert (fr_agent f) (my_pending s)\<rparr>) fs
     | Some v \<Rightarrow> (case index_add (fr_id f) v (fr_content f) (Some (fr_agent f)) (my_index s) of
           Inl e \<Rightarrow> (s, Some (IndexError e))
         | Inr ix \<Rightarrow> index_rows (s\<lparr>my_index := ix\<rparr>) fs))"

text \<open>One transaction for all rows, then the index.\<close>

definition store_and_index ::
  "write_env \<Rightarrow> memory_sys \<Rightarrow> fragment list \<Rightarrow> fragment list \<Rightarrow> memory_sys \<times> write_error option" where
  "store_and_index E s audit embedded =
     (case store_many (we_provider E) (my_db s) (audit @ embedded) of
        Inl e \<Rightarrow> (s, Some (StoreError e))
      | Inr (db, ids, gone) \<Rightarrow> index_rows (notify_gone gone (s\<lparr>my_db := db\<rparr>)) embedded)"

text \<open>\<open>_store_sync_impl\<close>; a pending fragment is not marked here, \<open>embed_for_write\<close> has done it.\<close>

definition store_sync_impl ::
  "write_env \<Rightarrow> datetime \<Rightarrow> real \<Rightarrow> (ustr list \<Rightarrow> embed_result) \<Rightarrow> ustr \<Rightarrow> memory_sys \<Rightarrow> ustr \<Rightarrow> write_options
    \<Rightarrow> pydict option \<Rightarrow> ustr option \<Rightarrow> memory_sys \<times> (write_error + ustr)" where
  "store_sync_impl E now clock emb fid s content opts meta given =
     (let ((gate, last1), res) = guarded_fragment E now fid (my_gate s) (my_last s) content opts meta;
          s1 = s\<lparr>my_gate := gate, my_last := last1\<rparr>
      in case res of
           Inl e \<Rightarrow> (s1, Inl e)
         | Inr (f0, accepted) \<Rightarrow>
             (let f = (case given of None \<Rightarrow> f0 | Some i \<Rightarrow> f0\<lparr>fr_id := i\<rparr>) in
              if \<not> accepted then
                (case store_and_index E s1 [f] [] of
                   (s2, Some e) \<Rightarrow> (s2, Inl e) | (s2, None) \<Rightarrow> (s2, Inr (fr_id f)))
              else
                (case embed_for_write s1 clock emb [f] of
                   (s2, Inl e) \<Rightarrow> (s2, Inl e)
                 | (s2, Inr fs) \<Rightarrow>
                     (case store_and_index E s2 [] fs of
                        (s3, Some e) \<Rightarrow> (s3, Inl e) | (s3, None) \<Rightarrow> (s3, Inr (fr_id f))))))"

text \<open>\<open>store_sync\<close>: everything is checked before anything runs. The options carry everything but
  the tags and the two numbers.\<close>

definition store_sync ::
  "write_env \<Rightarrow> datetime \<Rightarrow> real \<Rightarrow> (ustr list \<Rightarrow> embed_result) \<Rightarrow> ustr \<Rightarrow> memory_sys \<Rightarrow> content_in \<Rightarrow> write_options
    \<Rightarrow> number_in \<Rightarrow> number_in \<Rightarrow> tags_in \<Rightarrow> meta_in \<Rightarrow> when_in \<Rightarrow> memory_sys \<times> (write_error + ustr)" where
  "store_sync E now clock emb fid s content opts importance confidence tags meta occ =
     (case bind_res (check_content (we_max E) content) (\<lambda>c.
           bind_res (check_metadata meta) (\<lambda>m.
           bind_res (check_tags tags) (\<lambda>ts.
           bind_res (check_number ''importance'' importance) (\<lambda>imp.
           bind_res (check_number ''confidence'' confidence) (\<lambda>conf.
             (case with_occurred_at (we_fromiso E) m occ of
                Inl e \<Rightarrow> Inl (InvalidMemory ''occurred_at'')
              | Inr m' \<Rightarrow> Inr (c, m', opts\<lparr>wo_importance := imp, wo_confidence := conf,
                   wo_tags := with_label_kind (we_dec E) c ts\<rparr>))))))) of
        Inl e \<Rightarrow> (s, Inl e)
      | Inr (c, m', opts') \<Rightarrow> store_sync_impl E now clock emb fid s c opts' m' None)"

section \<open>Bulk writes\<close>

definition idempotent_id :: "write_env \<Rightarrow> ustr \<Rightarrow> nat \<Rightarrow> ustr \<Rightarrow> ustr" where
  "idempotent_id E key index content =
     we_uuid5 E (py_join [31] [we_agent E, key, u (nat_text index), we_sha E content])"

text \<open>\<open>_validate_items\<close>: the valid items with their positions, and the skipped ones.\<close>

definition validate_item ::
  "write_env \<Rightarrow> pydict option \<Rightarrow> content_in \<Rightarrow> when_in \<Rightarrow> write_error + (ustr \<times> pydict option)" where
  "validate_item E meta content occ =
     bind_res (check_content (we_max E) content) (\<lambda>c.
       case with_occurred_at (we_fromiso E) meta occ of
         Inl e \<Rightarrow> Inl (InvalidMemory ''occurred_at'') | Inr m \<Rightarrow> Inr (c, m))"

fun validate_items ::
  "write_env \<Rightarrow> pydict option \<Rightarrow> bool \<Rightarrow> nat \<Rightarrow> (content_in \<times> when_in) list
    \<Rightarrow> write_error + ((nat \<times> ustr \<times> pydict option) list \<times> (nat \<times> write_error) list)" where
  "validate_items E meta strict i [] = Inr ([], [])"
| "validate_items E meta strict i ((c, occ) # rest) =
     (case validate_item E meta c occ of
        Inl e \<Rightarrow> if strict then Inl e
          else bind_res (validate_items E meta strict (Suc i) rest) (\<lambda>(valid, skipped). Inr (valid, (i, e) # skipped))
      | Inr (s, m) \<Rightarrow>
          bind_res (validate_items E meta strict (Suc i) rest) (\<lambda>(valid, skipped). Inr ((i, s, m) # valid, skipped)))"

text \<open>Guard every item: the accepted and the rejected fragments, and the id written for each
  position. A fresh id is a function of the position.\<close>

fun guard_items ::
  "write_env \<Rightarrow> datetime \<Rightarrow> (nat \<Rightarrow> ustr) \<Rightarrow> write_options \<Rightarrow> (nat \<Rightarrow> ustr option) \<Rightarrow> gate option \<Rightarrow> rejection option
    \<Rightarrow> (nat \<times> ustr \<times> pydict option) list
    \<Rightarrow> (gate option \<times> rejection option) \<times> (write_error + fragment list \<times> fragment list \<times> (nat \<times> ustr) list)" where
  "guard_items E now fids opts ids g l [] = ((g, l), Inr ([], [], []))"
| "guard_items E now fids opts ids g l ((i, c, m) # todo) =
     (case guarded_fragment E now (fids i) g l c opts m of
        ((g1, l1), Inl e) \<Rightarrow> ((g1, l1), Inl e)
      | ((g1, l1), Inr (f0, ok)) \<Rightarrow>
          (let f = (case ids i of None \<Rightarrow> f0 | Some x \<Rightarrow> f0\<lparr>fr_id := x\<rparr>) in
           case guard_items E now fids opts ids g1 l1 todo of
             (gl, Inl e) \<Rightarrow> (gl, Inl e)
           | (gl, Inr (acc, rej, written)) \<Rightarrow>
               (gl, Inr (if ok then f # acc else acc, if ok then rej else f # rej, (i, fr_id f) # written))))"

definition write_batch ::
  "write_env \<Rightarrow> datetime \<Rightarrow> real \<Rightarrow> (ustr list \<Rightarrow> embed_result) \<Rightarrow> (nat \<Rightarrow> ustr) \<Rightarrow> memory_sys \<Rightarrow> write_options
    \<Rightarrow> (nat \<Rightarrow> ustr option) \<Rightarrow> (nat \<times> ustr \<times> pydict option) list \<Rightarrow> memory_sys \<times> (write_error + (nat \<times> ustr) list)" where
  "write_batch E now clock emb fids s opts ids todo =
     (let ((gate, last1), res) = guard_items E now fids opts ids (my_gate s) (my_last s) todo;
          s1 = s\<lparr>my_gate := gate, my_last := last1\<rparr>
      in case res of
           Inl e \<Rightarrow> (s1, Inl e)
         | Inr (acc, rej, written) \<Rightarrow>
             (case embed_for_write s1 clock emb acc of
                (s2, Inl e) \<Rightarrow> (s2, Inl e)
              | (s2, Inr embedded) \<Rightarrow>
                  if rej @ embedded = [] then (s2, Inr written)
                  else (case store_and_index E s2 rej embedded of
                     (s3, Some e) \<Rightarrow> (s3, Inl e) | (s3, None) \<Rightarrow> (s3, Inr written))))"

record store_report =
  sp_ids :: "ustr option list"
  sp_skipped :: "(nat \<times> write_error) list"
  sp_existing :: nat

definition report_stored :: "store_report \<Rightarrow> nat" where
  "report_stored r = length (filter (\<lambda>x. x \<noteq> None) (sp_ids r))"

text \<open>The arguments of \<open>store_many_sync\<close>, checked before anything runs.\<close>

definition bulk_args ::
  "write_env \<Rightarrow> content_in list \<Rightarrow> write_options \<Rightarrow> number_in \<Rightarrow> number_in \<Rightarrow> tags_in \<Rightarrow> meta_in
    \<Rightarrow> when_in list option \<Rightarrow> bool
    \<Rightarrow> write_error + ((nat \<times> ustr \<times> pydict option) list \<times> (nat \<times> write_error) list \<times> write_options)" where
  "bulk_args E items opts importance confidence tags meta ats strict =
     (if (case ats of None \<Rightarrow> False | Some ws \<Rightarrow> length ws \<noteq> length items) then Inl BadArguments
      else bind_res (check_metadata meta) (\<lambda>m.
           bind_res (check_tags tags) (\<lambda>ts.
           bind_res (check_number ''importance'' importance) (\<lambda>imp.
           bind_res (check_number ''confidence'' confidence) (\<lambda>conf.
           bind_res (validate_items E m strict 0
               (zip items (case ats of None \<Rightarrow> replicate (length items) WhenNone | Some ws \<Rightarrow> ws))) (\<lambda>(valid, skipped).
             Inr (valid, skipped, opts\<lparr>wo_importance := imp, wo_confidence := conf, wo_tags := ts\<rparr>)))))))"

definition bulk_ids :: "write_env \<Rightarrow> ustr option \<Rightarrow> (nat \<times> ustr \<times> pydict option) list \<Rightarrow> (nat \<times> ustr) list" where
  "bulk_ids E key valid = (case key of None \<Rightarrow> []
     | Some k \<Rightarrow> map (\<lambda>(i, c, m). (i, idempotent_id E k i c)) valid)"

definition bulk_todo ::
  "store_db \<Rightarrow> (nat \<times> ustr) list \<Rightarrow> (nat \<times> ustr \<times> pydict option) list \<Rightarrow> (nat \<times> ustr \<times> pydict option) list" where
  "bulk_todo db ids valid = (let existing = set (existing_ids db (map snd ids)) in
     filter (\<lambda>(i, c, m). case map_of ids i of None \<Rightarrow> True | Some x \<Rightarrow> x \<notin> existing) valid)"

definition store_many_sync ::
  "write_env \<Rightarrow> datetime \<Rightarrow> real \<Rightarrow> (ustr list \<Rightarrow> embed_result) \<Rightarrow> (nat \<Rightarrow> ustr) \<Rightarrow> memory_sys \<Rightarrow> content_in list
    \<Rightarrow> write_options \<Rightarrow> number_in \<Rightarrow> number_in \<Rightarrow> tags_in \<Rightarrow> meta_in \<Rightarrow> when_in list option \<Rightarrow> ustr option \<Rightarrow> bool
    \<Rightarrow> memory_sys \<times> (write_error + store_report)" where
  "store_many_sync E now clock emb fids s items opts importance confidence tags meta ats key strict =
     (case bulk_args E items opts importance confidence tags meta ats strict of
         Inl e \<Rightarrow> (s, Inl e)
       | Inr (valid, skipped, opts') \<Rightarrow>
           (let ids = bulk_ids E key valid; todo = bulk_todo (my_db s) ids valid
            in case write_batch E now clock emb fids s opts' (map_of ids) todo of
                 (s1, Inl e) \<Rightarrow> (s1, Inl e)
               | (s1, Inr written) \<Rightarrow>
                   (s1, Inr \<lparr>sp_ids = map (\<lambda>i. map_of (written @ ids) i) [0..<length items],
                       sp_skipped = skipped, sp_existing = length valid - length todo\<rparr>)))"

section \<open>The guard's decision\<close>

lemma build_fragment_Inr:
  assumes "build_fragment E now fid c opts m = Inr f"
  shows "fr_id f = fid" "fr_content f = py_strip c" "fr_state f = wo_state opts" "fr_agent f = we_agent E"
    "fr_importance f = wo_importance opts" "fr_confidence f = wo_confidence opts" "fr_embedding f = None"
    "fr_tags f = (case wo_tags opts of None \<Rightarrow> [] | Some ts \<Rightarrow> ts)" "py_strip c \<noteq> []"
    "fr_meta f = we_meta E (case m of None \<Rightarrow> [] | Some d \<Rightarrow> d)"
  using assms by (auto simp: build_fragment_def fragment_validated_def Let_def split: if_splits sum.splits)

lemma gate_check_content: "gate_check sha g c conf = (g', res) \<Longrightarrow> gr_content res = sanitize (gt_sanitizer g) c"
  by (auto simp: gate_check_def Let_def sanitize_def split: option.splits prod.splits)

text \<open>The content the guard may store: the redacted text, or what the gate's sanitizer leaves of it.\<close>

definition redacted_content :: "write_env \<Rightarrow> ustr \<Rightarrow> pydict option \<Rightarrow> ustr" where
  "redacted_content E content meta = fst (redacted_write (we_redact E) (wp_redaction (we_policy E)) content meta)"

lemma write_policy_content:
  "write_policy_apply (we_redact E) sc (we_policy E) c m ts = Inr d \<Longrightarrow> wd_content d = redacted_content E c m"
  by (auto simp: write_policy_apply_def redacted_content_def Let_def split_def bind_res_Inr_iff split: if_splits)

text \<open>The guard's decision and the state of the fragment agree, whatever the write policy and
  the gate do: a fragment that may be indexed keeps the requested state, which is not QUARANTINED,
  and the requested scores; one that may not is QUARANTINED. Either way its content is the redacted
  text, cleaned by the gate when there is one, and never the text as it was given.\<close>

theorem guard_decides_state:
  assumes "guarded_fragment E now fid gate last0 content opts meta = (gl, Inr (f, accepted))"
  shows "(if accepted then fr_state f = wo_state opts \<and> fr_state f \<noteq> QUARANTINED
            \<and> fr_importance f = wo_importance opts \<and> fr_confidence f = wo_confidence opts
          else fr_state f = QUARANTINED)
     \<and> fr_content f \<in> {py_strip (redacted_content E content meta)}
         \<union> (case gate of None \<Rightarrow> {} | Some g \<Rightarrow> {py_strip (sanitize (gt_sanitizer g) (redacted_content E content meta))})"
proof -
  obtain d where d: "write_policy_apply (we_redact E) (we_screen E) (we_policy E) content meta (wo_tags opts) = Inr d"
    using assms by (cases "write_policy_apply (we_redact E) (we_screen E) (we_policy E) content meta (wo_tags opts)")
      (auto simp: guarded_fragment_def)
  note cont = write_policy_content[OF d]
  show ?thesis
  proof (cases "wd_quarantine d \<and> wo_state opts \<noteq> QUARANTINED")
    case True
    then show ?thesis
      using assms d cont by (auto simp: guarded_fragment_def Let_def audit_options_def split: sum.splits
          dest: build_fragment_Inr(2,3))
  next
    case False
    note nq = this
    show ?thesis
    proof (cases gate)
      case None
      then show ?thesis
        using assms d cont nq by (auto simp: guarded_fragment_def Let_def split: sum.splits
            dest: build_fragment_Inr(2,3,5,6))
    next
      case (Some g)
      show ?thesis
      proof (cases "wo_state opts = QUARANTINED")
        case True
        then show ?thesis
          using assms d cont nq Some by (auto simp: guarded_fragment_def Let_def audit_options_def split: sum.splits
              dest: build_fragment_Inr(2,3))
      next
        case False
        obtain g' res where g: "gate_check (we_sha E) g (wd_content d) (wo_confidence opts) = (g', res)" by (metis surj_pair)
        show ?thesis
          using assms d cont nq Some False g gate_check_content[OF g]
          by (auto simp: guarded_fragment_def Let_def audit_options_def split: sum.splits option.splits
              dest: build_fragment_Inr(2,3,5,6))
      qed
    qed
  qed
qed

section \<open>What a write leaves in the store and the index\<close>

text \<open>Every indexed id is a stored row of its owner that is not QUARANTINED.\<close>

definition index_backed :: "store_db \<Rightarrow> vector_index \<Rightarrow> bool" where
  "index_backed db ix \<longleftrightarrow> (\<forall>i a. map_of (vi_owner ix) i = Some a \<longrightarrow>
     (\<exists>r. tbl_get fr_id (db_fragments db) i = Some r \<and> fr_state r \<noteq> QUARANTINED \<and> a = Some (fr_agent r)))"

definition sys_sound :: "memory_sys \<Rightarrow> bool" where
  "sys_sound s \<longleftrightarrow> tbl_ok fr_id (db_fragments (my_db s)) \<and> index_ok (my_index s)
     \<and> index_backed (my_db s) (my_index s)"

lemma sys_sound_frame [simp]:
  "sys_sound (s\<lparr>my_gate := g, my_last := l\<rparr>) = sys_sound s"
  "sys_sound (s\<lparr>my_pending := p\<rparr>) = sys_sound s"
  "sys_sound (s\<lparr>my_outage := b\<rparr>) = sys_sound s"
  "sys_sound (s\<lparr>my_retry_at := t, my_outage := b\<rparr>) = sys_sound s"
  by (simp_all add: sys_sound_def)

abbreviation stored_row :: "provider \<Rightarrow> fragment \<Rightarrow> fragment" where
  "stored_row P f \<equiv> (hash_attach P f)\<lparr>fr_content := pv_encrypt P (fr_content f)\<rparr>"

lemma index_remove_owner:
  "map_of (vi_owner (index_remove f ix)) i = (if i = f then None else map_of (vi_owner ix) i)"
proof (cases "map_of (vi_owner ix) f")
  case (Some a)
  have "vi_owner (forget_dim x) = vi_owner x" for x by (simp add: forget_dim_def)
  with Some show ?thesis by (simp add: index_remove_def Let_def delete_conv')
qed (simp add: index_remove_def)

lemma notify_gone_sel [simp]:
  "my_db (notify_gone gone s) = my_db s" "my_gate (notify_gone gone s) = my_gate s" "my_last (notify_gone gone s) = my_last s"
  "map_of (vi_owner (my_index (notify_gone gone s))) i
     = (if i \<in> set gone then None else map_of (vi_owner (my_index s)) i)"
proof -
  have "map_of (vi_owner (fold index_remove gone ix)) i = (if i \<in> set gone then None else map_of (vi_owner ix) i)" for ix
    by (induction gone arbitrary: ix) (auto simp: index_remove_owner)
  then show "map_of (vi_owner (my_index (notify_gone gone s))) i
     = (if i \<in> set gone then None else map_of (vi_owner (my_index s)) i)" by (simp add: notify_gone_def)
qed (simp_all add: notify_gone_def)

lemma notify_gone_ok: "index_ok (my_index s) \<Longrightarrow> index_ok (my_index (notify_gone gone s))"
proof -
  have "index_ok ix \<Longrightarrow> index_ok (fold index_remove gone ix)" for ix
    by (induction gone arbitrary: ix) (auto intro: index_remove_ok)
  then show "index_ok (my_index s) \<Longrightarrow> ?thesis" by (simp add: notify_gone_def)
qed

lemma notify_gone_Nil [simp]: "notify_gone [] s = s"
  by (simp add: notify_gone_def)

lemma stored_row_sel [simp]:
  "fr_id (stored_row P f) = fr_id f" "fr_state (stored_row P f) = fr_state f"
  "fr_agent (stored_row P f) = fr_agent f"
  by (simp_all add: hash_attach_def)

lemma store_many_get:
  assumes "store_many P db fs = Inr (db', ids, gone)"
  shows "tbl_get fr_id (db_fragments db') i = (case find (\<lambda>f. fr_id f = i) (rev fs) of
     Some f \<Rightarrow> Some (stored_row P f) | None \<Rightarrow> tbl_get fr_id (db_fragments db) i)"
  using assms
proof (induction fs arbitrary: db ids gone)
  case (Cons f fs)
  then obtain db1 g ids1 gone1 where row: "store_row P db f = Inr (db1, g)"
    and many: "store_many P db1 fs = Inr (db', ids1, gone1)"
    by (auto simp: bind_res_Inr_iff)
  have db1: "tbl_get fr_id (db_fragments db1) i
      = (if i = fr_id f then Some (stored_row P f) else tbl_get fr_id (db_fragments db) i)"
    using row by (auto simp: store_row_Inr_iff tbl_get_upsert)
  have "find p (xs @ [f]) = (case find p xs of Some x \<Rightarrow> Some x | None \<Rightarrow> if p f then Some f else None)" for p xs
    by (induction xs) auto
  then show ?case unfolding Cons.IH[OF many] db1 by (auto split: option.split)
qed simp

lemma find_SomeD: "find p xs = Some x \<Longrightarrow> x \<in> set xs \<and> p x"
  by (induction xs) (auto split: if_splits)

lemma find_rev_append: "find p (rev (xs @ ys)) = (case find p (rev ys) of Some x \<Rightarrow> Some x | None \<Rightarrow> find p (rev xs))"
proof -
  have "find p (as @ bs) = (case find p as of Some x \<Rightarrow> Some x | None \<Rightarrow> find p bs)" for as bs
    by (induction as) auto
  then show ?thesis by simp
qed

lemma index_rows_effect:
  assumes "index_rows s fs = (s', r)" "index_ok (my_index s)"
  shows "index_ok (my_index s') \<and> my_db s' = my_db s \<and> my_gate s' = my_gate s \<and> my_last s' = my_last s
    \<and> (\<forall>i a. map_of (vi_owner (my_index s')) i = Some a \<longrightarrow>
         map_of (vi_owner (my_index s)) i = Some a
         \<or> (\<exists>f\<in>set fs. fr_id f = i \<and> a = Some (fr_agent f) \<and> fr_embedding f \<noteq> None))
    \<and> (\<forall>e. r = Some e \<longrightarrow> (\<exists>x. e = IndexError x))"
  using assms
proof (induction s fs rule: index_rows.induct)
  case (2 s f fs)
  show ?case
  proof (cases "fr_embedding f")
    case None
    then show ?thesis using 2(1)[OF None] 2(3,4) by fastforce
  next
    case (Some v)
    show ?thesis
    proof (cases "index_add (fr_id f) v (fr_content f) (Some (fr_agent f)) (my_index s)")
      case (Inl e)
      then show ?thesis using Some 2(3,4) by auto
    next
      case (Inr ix)
      have ok: "index_ok ix" by (rule index_add_ok[OF 2(4) Inr])
      have own: "vi_owner ix = AList.update (fr_id f) (Some (fr_agent f)) (vi_owner (my_index s))"
        by (rule index_add_effect(4)[OF 2(4) Inr])
      have rest: "index_rows (s\<lparr>my_index := ix\<rparr>) fs = (s', r)" using 2(3) Some Inr by simp
      from 2(2)[OF Some Inr rest] ok
      have IH: "index_ok (my_index s') \<and> my_db s' = my_db s \<and> my_gate s' = my_gate s \<and> my_last s' = my_last s
        \<and> (\<forall>i a. map_of (vi_owner (my_index s')) i = Some a \<longrightarrow> map_of (vi_owner ix) i = Some a
             \<or> (\<exists>f\<in>set fs. fr_id f = i \<and> a = Some (fr_agent f) \<and> fr_embedding f \<noteq> None))
        \<and> (\<forall>e. r = Some e \<longrightarrow> (\<exists>x. e = IndexError x))" by simp
      have "map_of (vi_owner ix) i = Some a \<Longrightarrow> map_of (vi_owner (my_index s)) i = Some a
           \<or> fr_id f = i \<and> a = Some (fr_agent f)" for i a
        unfolding own by (auto simp: AList.update_conv' split: if_splits)
      then show ?thesis using IH Some by (auto simp: list.set(2))
    qed
  qed
qed auto

lemma store_and_index_sound:
  assumes "sys_sound s" "store_and_index E s audit embedded = (s', r)"
    "\<And>f. f \<in> set audit \<Longrightarrow> fr_id f \<notin> fr_id ` set (db_fragments (my_db s))"
    "\<And>f. f \<in> set embedded \<Longrightarrow> fr_state f \<noteq> QUARANTINED" "\<And>f. f \<in> set (audit @ embedded) \<Longrightarrow> fr_agent f = we_agent E"
  shows "sys_sound s' \<and> my_gate s' = my_gate s \<and> my_last s' = my_last s"
proof (cases "store_many (we_provider E) (my_db s) (audit @ embedded)")
  case (Inl e)
  then show ?thesis using assms(1,2) by (simp add: store_and_index_def)
next
  case (Inr t)
  obtain db ids gone where t: "t = (db, ids, gone)" by (metis prod_cases3)
  let ?sn = "notify_gone gone (s\<lparr>my_db := db\<rparr>)"
  have run: "index_rows ?sn embedded = (s', r)"
    using assms(2) Inr t by (simp add: store_and_index_def)
  have ok: "tbl_ok fr_id (db_fragments (my_db s))" "index_ok (my_index s)" and bk: "index_backed (my_db s) (my_index s)"
    using assms(1) by (simp_all add: sys_sound_def)
  have rows: "tbl_ok fr_id (db_fragments db)" using store_many_ok[OF ok(1)] Inr t by blast
  have get: "tbl_get fr_id (db_fragments db) i = (case find (\<lambda>f. fr_id f = i) (rev (audit @ embedded)) of
     Some f \<Rightarrow> Some (stored_row (we_provider E) f) | None \<Rightarrow> tbl_get fr_id (db_fragments (my_db s)) i)" for i
    using store_many_get Inr t by blast
  have own_rows: "\<forall>f\<in>set (audit @ embedded). \<not> foreign (my_db s) f"
    using store_many_foreign[of "audit @ embedded" "we_agent E" "we_provider E" "my_db s"] assms(5) Inr by blast
  have "index_ok (my_index ?sn)" by (rule notify_gone_ok) (simp add: ok(2))
  from index_rows_effect[OF run this] have eff: "index_ok (my_index s')" "my_db s' = db" "my_gate s' = my_gate s"
    "my_last s' = my_last s"
    "\<And>i a. map_of (vi_owner (my_index s')) i = Some a \<Longrightarrow> map_of (vi_owner (my_index s)) i = Some a
       \<or> (\<exists>f\<in>set embedded. fr_id f = i \<and> a = Some (fr_agent f))"
    by (auto split: if_splits)
  have "\<exists>x. tbl_get fr_id (db_fragments db) i = Some x \<and> fr_state x \<noteq> QUARANTINED \<and> a = Some (fr_agent x)"
    if own: "map_of (vi_owner (my_index s')) i = Some a" for i a
  proof (cases "find (\<lambda>f. fr_id f = i) (rev embedded)")
    case (Some f)
    from find_SomeD[OF this] have f: "f \<in> set embedded" "fr_id f = i" by simp_all
    have g: "tbl_get fr_id (db_fragments db) i = Some (stored_row (we_provider E) f)"
      unfolding get find_rev_append Some by simp
    have "a = Some (we_agent E)"
    proof (cases "\<exists>f\<in>set embedded. fr_id f = i \<and> a = Some (fr_agent f)")
      case True
      then show ?thesis using assms(5) by auto
    next
      case False
      then have old: "map_of (vi_owner (my_index s)) i = Some a" using eff(5)[OF own] by blast
      then obtain x where x: "tbl_get fr_id (db_fragments (my_db s)) i = Some x" "a = Some (fr_agent x)"
        using bk unfolding index_backed_def by blast
      have "fr_agent x = fr_agent f"
        using own_rows f x(1) unfolding foreign_def by (auto split: option.splits)
      then show ?thesis using assms(5) f x by simp
    qed
    then show ?thesis using g assms(4,5) f by simp
  next
    case None
    then have no: "\<not> (\<exists>f\<in>set embedded. fr_id f = i)" by (auto simp: find_None_iff)
    then have old: "map_of (vi_owner (my_index s)) i = Some a" using eff(5)[OF own] by blast
    then obtain x where x: "tbl_get fr_id (db_fragments (my_db s)) i = Some x" "fr_state x \<noteq> QUARANTINED"
      "a = Some (fr_agent x)" using bk unfolding index_backed_def by blast
    then have "i \<in> fr_id ` set (db_fragments (my_db s))" using tbl_get_SomeD[OF x(1)] by auto
    then have "find (\<lambda>f. fr_id f = i) (rev audit) = None"
      using assms(3) by (auto simp: find_None_iff)
    then have "tbl_get fr_id (db_fragments db) i = Some x"
      unfolding get find_rev_append None using x(1) by simp
    then show ?thesis using x by blast
  qed
  then show ?thesis using rows eff(1-4) by (simp add: sys_sound_def index_backed_def)
qed

subsection \<open>Embedding changes nothing but the vectors\<close>

lemma concat_chunks_of: "n \<noteq> 0 \<Longrightarrow> concat (chunks_of n xs) = xs"
  by (induction n xs rule: chunks_of.induct) (subst chunks_of.simps, auto)

lemma chunks_of_Nil [simp]: "chunks_of n [] = []"
  by (simp add: chunks_of.simps)

definition same_memory :: "fragment \<Rightarrow> fragment \<Rightarrow> bool" where
  "same_memory f g \<longleftrightarrow> g = f\<lparr>fr_embedding := fr_embedding g\<rparr>"

lemma same_memory_sel:
  "same_memory f g \<Longrightarrow> fr_id g = fr_id f \<and> fr_state g = fr_state f \<and> fr_agent g = fr_agent f
     \<and> fr_content g = fr_content f"
  unfolding same_memory_def by (metis fragment.ext_inject fragment.surjective fragment.update_convs(18))

lemma embed_batch_frame:
  "embed_batch_or_defer s clock emb texts = (s1, r) \<Longrightarrow>
     my_db s1 = my_db s \<and> my_index s1 = my_index s \<and> my_gate s1 = my_gate s \<and> my_last s1 = my_last s"
  by (auto simp: embed_batch_or_defer_def split: if_splits embed_result.splits)

lemma embed_chunks_frame:
  assumes "embed_chunks s clock emb cs = (s', r)"
  shows "my_db s' = my_db s \<and> my_index s' = my_index s \<and> my_gate s' = my_gate s \<and> my_last s' = my_last s
    \<and> (case r of Inl e \<Rightarrow> (\<forall>x. e \<noteq> IndexError x) | Inr out \<Rightarrow> list_all2 same_memory (concat cs) out)"
  using assms
proof (induction cs arbitrary: s s' r)
  case (Cons c cs)
  obtain s1 r1 where b: "embed_batch_or_defer s clock emb (map fr_content c) = (s1, r1)" by (metis surj_pair)
  note fr = embed_batch_frame[OF b]
  show ?case
  proof (cases r1)
    case (Inl e)
    have "e = EmbedError"
      using b Inl by (auto simp: embed_batch_or_defer_def split: if_splits embed_result.splits)
    then show ?thesis using Cons.prems b Inl fr by auto
  next
    case (Inr vo)
    show ?thesis
    proof (cases vo)
      case None
      let ?s = "s1\<lparr>my_pending := my_pending s1 \<union> fr_agent ` set c\<rparr>"
      obtain s2 r2 where t: "embed_chunks ?s clock emb cs = (s2, r2)" by (metis surj_pair)
      have "list_all2 same_memory c (map (\<lambda>f. f\<lparr>fr_embedding := None\<rparr>) c)"
        by (simp add: list_all2_map2 list_all2_refl same_memory_def)
      then show ?thesis using Cons.IH[OF t] Cons.prems b Inr None t fr
        by (auto split: sum.splits intro: list_all2_appendI)
    next
      case (Some vs)
      show ?thesis
      proof (cases "length vs = length c")
        case False
        then show ?thesis using Cons.prems b Inr Some fr by auto
      next
        case True
        obtain s2 r2 where t: "embed_chunks s1 clock emb cs = (s2, r2)" by (metis surj_pair)
        have "list_all2 same_memory c (map2 (\<lambda>f v. f\<lparr>fr_embedding := Some v\<rparr>) c vs)"
          using True by (auto simp: list_all2_conv_all_nth same_memory_def)
        then show ?thesis using Cons.IH[OF t] Cons.prems b Inr Some True t fr
          by (auto split: sum.splits intro: list_all2_appendI)
      qed
    qed
  qed
qed simp

lemma embed_for_write_frame:
  "embed_for_write s clock emb fs = (s', r) \<Longrightarrow>
   my_db s' = my_db s \<and> my_index s' = my_index s \<and> my_gate s' = my_gate s \<and> my_last s' = my_last s
   \<and> (case r of Inl e \<Rightarrow> (\<forall>x. e \<noteq> IndexError x) | Inr out \<Rightarrow> list_all2 same_memory fs out)"
proof -
  have c: "concat (chunks_of EMBED_BATCH fs) = fs" by (rule concat_chunks_of) (simp add: EMBED_BATCH_def)
  show "embed_for_write s clock emb fs = (s', r) \<Longrightarrow> ?thesis"
    using embed_chunks_frame[of s clock emb "chunks_of EMBED_BATCH fs" s' r] unfolding embed_for_write_def c .
qed

lemma embed_for_write_Nil [simp]: "embed_for_write s clock emb [] = (s, Inr [])"
  by (simp add: embed_for_write_def)

lemma embedded_all:
  assumes "list_all2 same_memory fs out" "\<And>f. f \<in> set fs \<Longrightarrow> p (fr_id f) (fr_state f) (fr_agent f)"
    "g \<in> set out"
  shows "p (fr_id g) (fr_state g) (fr_agent g)"
proof -
  obtain f where "f \<in> set fs" "same_memory f g"
    using assms(1,3) by (induction rule: list_all2_induct) auto
  then show ?thesis using assms(2) same_memory_sel by metis
qed

subsection \<open>Guarding a batch\<close>

lemma guarded_fragment_built:
  assumes "guarded_fragment E now fid gate last0 content opts meta = (gl, Inr (f, accepted))"
  shows "\<exists>c x m. build_fragment E now fid c x m = Inr f"
proof -
  obtain d where d: "write_policy_apply (we_redact E) (we_screen E) (we_policy E) content meta (wo_tags opts) = Inr d"
    using assms by (cases "write_policy_apply (we_redact E) (we_screen E) (we_policy E) content meta (wo_tags opts)")
      (auto simp: guarded_fragment_def)
  consider "wd_quarantine d \<and> wo_state opts \<noteq> QUARANTINED"
    | "\<not> (wd_quarantine d \<and> wo_state opts \<noteq> QUARANTINED)" "gate = None"
    | g where "\<not> (wd_quarantine d \<and> wo_state opts \<noteq> QUARANTINED)" "gate = Some g" "wo_state opts = QUARANTINED"
    | g where "\<not> (wd_quarantine d \<and> wo_state opts \<noteq> QUARANTINED)" "gate = Some g" "wo_state opts \<noteq> QUARANTINED"
    by (cases gate) auto
  then show ?thesis
  proof cases
    case 1
    then show ?thesis
      using assms d unfolding guarded_fragment_def by (simp add: Let_def split: sum.splits) blast
  next
    case 2
    then show ?thesis
      using assms d unfolding guarded_fragment_def by (simp add: Let_def split: sum.splits if_splits) blast+
  next
    case 3
    then show ?thesis
      using assms d unfolding guarded_fragment_def by (simp add: Let_def split: sum.splits if_splits) blast+
  next
    case 4
    obtain g' res where g: "gate_check (we_sha E) g (wd_content d) (wo_confidence opts) = (g', res)" by (metis surj_pair)
    then show ?thesis
      using assms d 4 unfolding guarded_fragment_def by (auto simp: Let_def split: sum.splits option.splits)
  qed
qed

lemma guarded_fragment_made:
  assumes "guarded_fragment E now fid gate last0 content opts meta = (gl, Inr (f, accepted))"
  shows "fr_id f = fid \<and> fr_agent f = we_agent E \<and> (accepted \<longleftrightarrow> fr_state f \<noteq> QUARANTINED)"
proof -
  obtain c x m where "build_fragment E now fid c x m = Inr f" using guarded_fragment_built[OF assms] by blast
  from build_fragment_Inr(1,4)[OF this] guard_decides_state[OF assms] show ?thesis by (cases accepted) auto
qed

lemma guard_items_made:
  assumes "guard_items E now fids opts ids g l todo = (gl, Inr (acc, rej, written))"
  shows "(\<forall>f\<in>set acc. fr_agent f = we_agent E \<and> fr_state f \<noteq> QUARANTINED)
    \<and> (\<forall>f\<in>set rej. fr_agent f = we_agent E \<and> fr_state f = QUARANTINED)
    \<and> snd ` set written = fr_id ` set (rej @ acc)
    \<and> written = map (\<lambda>(i, c, m). (i, case ids i of None \<Rightarrow> fids i | Some x \<Rightarrow> x)) todo"
  using assms
proof (induction todo arbitrary: g l acc rej written)
  case (Cons t todo)
  obtain i c m where t: "t = (i, c, m)" by (cases t)
  obtain g1 l1 r where r: "guarded_fragment E now (fids i) g l c opts m = ((g1, l1), r)" by (metis surj_pair)
  obtain f0 k where r': "r = Inr (f0, k)"
    using Cons.prems t r by (cases r) auto
  define f where "f = (case ids i of None \<Rightarrow> f0 | Some x \<Rightarrow> f0\<lparr>fr_id := x\<rparr>)"
  note made = guarded_fragment_made[OF r[unfolded r']]
  obtain acc1 rej1 w1 where rest: "guard_items E now fids opts ids g1 l1 todo = (gl, Inr (acc1, rej1, w1))"
    and res: "acc = (if k then f # acc1 else acc1)" "rej = (if k then rej1 else f # rej1)"
      "written = (i, fr_id f) # w1"
    using Cons.prems t r r' by (auto simp: f_def Let_def split: prod.splits sum.splits)
  have f: "fr_id f = (case ids i of None \<Rightarrow> fids i | Some x \<Rightarrow> x)" "fr_agent f = we_agent E"
    "k \<longleftrightarrow> fr_state f \<noteq> QUARANTINED"
    using made by (auto simp: f_def split: option.split)
  note IH = Cons.IH[OF rest]
  have "snd ` set written = fr_id ` set (rej @ acc)"
    using conjunct1[OF conjunct2[OF conjunct2[OF IH]]] by (auto simp: res)
  moreover have "written = map (\<lambda>(i, c, m). (i, case ids i of None \<Rightarrow> fids i | Some x \<Rightarrow> x)) ((i, c, m) # todo)"
    using IH f(1) by (auto simp: res)
  ultimately show ?case using IH f by (auto simp: res t)
qed simp

text \<open>A write that fails before the index leaves the tables and the index as they were.\<close>

lemma store_and_index_error:
  assumes "store_and_index E s audit embedded = (s', Some e)" "\<forall>x. e \<noteq> IndexError x" "index_ok (my_index s)"
  shows "s' = s"
proof (cases "store_many (we_provider E) (my_db s) (audit @ embedded)")
  case (Inl err)
  then show ?thesis using assms(1) by (simp add: store_and_index_def)
next
  case (Inr t)
  obtain db ids gone where "t = (db, ids, gone)" by (metis prod_cases3)
  then have run: "index_rows (notify_gone gone (s\<lparr>my_db := db\<rparr>)) embedded = (s', Some e)"
    using assms(1) Inr by (simp add: store_and_index_def)
  have "index_ok (my_index (notify_gone gone (s\<lparr>my_db := db\<rparr>)))" by (rule notify_gone_ok) (simp add: assms(3))
  from index_rows_effect[OF run this] assms(2) show ?thesis by auto
qed

lemma write_batch_error:
  assumes "write_batch E now clock emb fids s opts ids todo = (s', Inl e)" "\<forall>x. e \<noteq> IndexError x"
    "index_ok (my_index s)"
  shows "my_db s' = my_db s \<and> my_index s' = my_index s"
proof -
  obtain g l r where gi: "guard_items E now fids opts ids (my_gate s) (my_last s) todo = ((g, l), r)"
    by (metis surj_pair)
  let ?s1 = "s\<lparr>my_gate := g, my_last := l\<rparr>"
  show ?thesis
  proof (cases r)
    case (Inl e')
    then show ?thesis using assms(1) gi by (auto simp: write_batch_def)
  next
    case (Inr t)
    obtain acc rej written where t: "t = (acc, rej, written)" by (metis prod_cases3)
    obtain s2 r2 where em: "embed_for_write ?s1 clock emb acc = (s2, r2)" by (metis surj_pair)
    note fr = embed_for_write_frame[OF em]
    show ?thesis
    proof (cases r2)
      case (Inl e2)
      then show ?thesis using assms(1) gi Inr t em fr by (auto simp: write_batch_def)
    next
      case (Inr embedded)
      obtain s3 x where si: "store_and_index E s2 rej embedded = (s3, x)" by (metis surj_pair)
      have "(s3, x) = (s', Some e)"
        using assms(1) gi \<open>r = Inr t\<close> t em Inr si
        by (auto simp: write_batch_def split: option.splits if_splits)
      then show ?thesis using store_and_index_error[of E s2 rej embedded s' e] si assms(2,3) fr by simp
    qed
  qed
qed

lemma write_batch_Nil: "write_batch E now clock emb fids s opts ids [] = (s, Inr [])"
  by (simp add: write_batch_def)

lemma write_batch_sound:
  assumes "sys_sound s" "write_batch E now clock emb fids s opts ids todo = (s', r)"
    "\<And>i c m. (i, c, m) \<in> set todo \<Longrightarrow>
       (case ids i of None \<Rightarrow> fids i | Some x \<Rightarrow> x) \<notin> fr_id ` set (db_fragments (my_db s))"
  shows "sys_sound s'"
proof -
  obtain g l r1 where gi: "guard_items E now fids opts ids (my_gate s) (my_last s) todo = ((g, l), r1)"
    by (metis surj_pair)
  let ?s1 = "s\<lparr>my_gate := g, my_last := l\<rparr>"
  have s1: "sys_sound ?s1" using assms(1) by simp
  show ?thesis
  proof (cases r1)
    case (Inl e')
    then show ?thesis using assms(2) gi s1 by (auto simp: write_batch_def)
  next
    case (Inr t)
    obtain acc rej written where t: "t = (acc, rej, written)" by (metis prod_cases3)
    note made = guard_items_made[OF gi[unfolded Inr t]]
    obtain s2 r2 where em: "embed_for_write ?s1 clock emb acc = (s2, r2)" by (metis surj_pair)
    note fr = embed_for_write_frame[OF em]
    have s2: "sys_sound s2" using s1 fr by (simp add: sys_sound_def)
    show ?thesis
    proof (cases r2)
      case (Inl e2)
      then show ?thesis using assms(2) gi Inr t em s2 \<open>r1 = Inr t\<close> by (auto simp: write_batch_def)
    next
      case (Inr embedded)
      have emb: "list_all2 same_memory acc embedded" using fr Inr by simp
      have "fr_id f \<notin> fr_id ` set (db_fragments (my_db s2))" if "f \<in> set rej" for f
      proof -
        have "fr_id f \<in> snd ` set written" using made that by auto
        then obtain i c m where "(i, c, m) \<in> set todo" "fr_id f = (case ids i of None \<Rightarrow> fids i | Some x \<Rightarrow> x)"
          using made by auto
        then show ?thesis using assms(3)[of i c m] fr by simp
      qed
      moreover have "fr_state f \<noteq> QUARANTINED \<and> fr_agent f = we_agent E" if "f \<in> set embedded" for f
        by (rule embedded_all[OF emb _ that, of "\<lambda>i st a. st \<noteq> QUARANTINED \<and> a = we_agent E"]) (use made in auto)
      moreover obtain s3 x where si: "store_and_index E s2 rej embedded = (s3, x)" by (metis surj_pair)
      moreover have "fr_agent f = we_agent E" if "f \<in> set rej" for f using made that by blast
      ultimately have "sys_sound s3"
        using store_and_index_sound[OF s2 si] by (metis Un_iff set_append)
      then show ?thesis
        using assms(2) gi \<open>r1 = Inr t\<close> t em Inr si s2 by (auto simp: write_batch_def split: option.splits if_splits)
    qed
  qed
qed

lemma store_sync_impl_sound:
  assumes "sys_sound s" "store_sync_impl E now clock emb fid s c opts m given = (s', r)"
    "(case given of None \<Rightarrow> fid | Some i \<Rightarrow> i) \<notin> fr_id ` set (db_fragments (my_db s))"
  shows "sys_sound s'"
proof -
  obtain g l r1 where gf: "guarded_fragment E now fid (my_gate s) (my_last s) c opts m = ((g, l), r1)"
    by (metis surj_pair)
  let ?s1 = "s\<lparr>my_gate := g, my_last := l\<rparr>"
  have s1: "sys_sound ?s1" using assms(1) by simp
  show ?thesis
  proof (cases r1)
    case (Inl e')
    then show ?thesis using assms(2) gf s1 by (auto simp: store_sync_impl_def)
  next
    case (Inr t)
    obtain f0 k where t: "t = (f0, k)" by (cases t)
    define f where "f = (case given of None \<Rightarrow> f0 | Some i \<Rightarrow> f0\<lparr>fr_id := i\<rparr>)"
    note made = guarded_fragment_made[OF gf[unfolded Inr t]]
    have f: "fr_id f \<notin> fr_id ` set (db_fragments (my_db s))" "fr_agent f = we_agent E" "k \<longleftrightarrow> fr_state f \<noteq> QUARANTINED"
      using made assms(3) by (auto simp: f_def split: option.splits)
    show ?thesis
    proof (cases k)
      case False
      obtain s2 x where si: "store_and_index E ?s1 [f] [] = (s2, x)" by (metis surj_pair)
      have "sys_sound s2" using store_and_index_sound[OF s1 si] f by simp
      then show ?thesis
        using assms(2) gf Inr t False si by (auto simp: store_sync_impl_def f_def[symmetric] split: option.splits)
    next
      case True
      obtain s2 r2 where em: "embed_for_write ?s1 clock emb [f] = (s2, r2)" by (metis surj_pair)
      note fr = embed_for_write_frame[OF em]
      have s2: "sys_sound s2" using s1 fr by (simp add: sys_sound_def)
      show ?thesis
      proof (cases r2)
        case (Inl e)
        then show ?thesis
          using assms(2) gf \<open>r1 = Inr t\<close> t True em s2 by (auto simp: store_sync_impl_def f_def[symmetric])
      next
        case (Inr fs)
        have emb: "list_all2 same_memory [f] fs" using fr Inr by simp
        have "fr_state x \<noteq> QUARANTINED \<and> fr_agent x = we_agent E" if "x \<in> set fs" for x
          by (rule embedded_all[OF emb _ that, of "\<lambda>i st a. st \<noteq> QUARANTINED \<and> a = we_agent E"]) (use f True in auto)
        moreover obtain s3 x where si: "store_and_index E s2 [] fs = (s3, x)" by (metis surj_pair)
        ultimately have "sys_sound s3" using store_and_index_sound[OF s2 si] by auto
        then show ?thesis
          using assms(2) gf \<open>r1 = Inr t\<close> t True em Inr si
          by (auto simp: store_sync_impl_def f_def[symmetric] split: option.splits)
      qed
    qed
  qed
qed

lemma store_sync_sound:
  assumes "sys_sound s" "store_sync E now clock emb fid s c opts imp conf tags meta occ = (s', r)"
    "fid \<notin> fr_id ` set (db_fragments (my_db s))"
  shows "sys_sound s'"
  using assms store_sync_impl_sound[of s E now clock emb fid _ _ _ None s' r]
  by (auto simp: store_sync_def split: sum.splits prod.splits)

lemma quarantine_sync_sound:
  assumes "sys_sound s" "quarantine_sync E now fid s c reason opts meta = (s', r)"
    "fid \<notin> fr_id ` set (db_fragments (my_db s))"
  shows "sys_sound s'"
proof -
  have "s' = s \<or> (\<exists>f db ids gone. fr_id f = fid \<and> store_many (we_provider E) (my_db s) [f] = Inr (db, ids, gone)
      \<and> s' = notify_gone gone (s\<lparr>my_db := db\<rparr>))"
    using assms(2) by (auto simp: quarantine_sync_def simp del: store_many.simps split: sum.splits dest: build_fragment_Inr(1))
  then show ?thesis
  proof
    assume "\<exists>f db ids gone. fr_id f = fid \<and> store_many (we_provider E) (my_db s) [f] = Inr (db, ids, gone)
      \<and> s' = notify_gone gone (s\<lparr>my_db := db\<rparr>)"
    then obtain f db ids gone where f: "fr_id f = fid" "store_many (we_provider E) (my_db s) [f] = Inr (db, ids, gone)"
      and s': "s' = notify_gone gone (s\<lparr>my_db := db\<rparr>)" by blast
    have "tbl_get fr_id (db_fragments db) i = tbl_get fr_id (db_fragments (my_db s)) i" if "i \<noteq> fid" for i
      using store_many_get[OF f(2), of i] that f(1) by simp
    moreover have "tbl_get fr_id (db_fragments (my_db s)) fid = None"
      using assms(3) by (simp add: tbl_get_None)
    moreover have "index_ok (my_index s')" unfolding s' by (rule notify_gone_ok) (use assms(1) in \<open>simp add: sys_sound_def\<close>)
    moreover have "tbl_ok fr_id (db_fragments db)" using assms(1) store_many_ok[OF _ f(2)] by (simp add: sys_sound_def)
    ultimately show ?thesis
      using assms(1) unfolding s' sys_sound_def index_backed_def
      by (simp, metis option.distinct(1))
  qed (use assms(1) in simp)
qed

lemma set_existing_ids [simp]: "set (existing_ids db ids) = set ids \<inter> fr_id ` set (db_fragments db)"
  by (auto simp: existing_ids_def)

lemma bulk_todo_new:
  assumes "(i, c, m) \<in> set (bulk_todo db ids valid)" "fid \<notin> fr_id ` set (db_fragments db)"
  shows "(case map_of ids i of None \<Rightarrow> fid | Some x \<Rightarrow> x) \<notin> fr_id ` set (db_fragments db)"
proof (cases "map_of ids i")
  case (Some x)
  then have "x \<in> set (map snd ids)" using map_of_SomeD[OF Some] by force
  then show ?thesis using assms(1) Some unfolding bulk_todo_def Let_def set_existing_ids by auto
qed (use assms(2) in simp)

lemma store_many_sync_sound:
  assumes "sys_sound s"
    "store_many_sync E now clock emb fids s items opts imp conf tags meta ats key strict = (s', r)"
    "\<And>i. fids i \<notin> fr_id ` set (db_fragments (my_db s))"
  shows "sys_sound s'"
proof (cases "bulk_args E items opts imp conf tags meta ats strict")
  case (Inr t)
  obtain valid skipped opts' where t: "t = (valid, skipped, opts')" by (metis prod_cases3)
  let ?ids = "bulk_ids E key valid" and ?todo = "bulk_todo (my_db s) (bulk_ids E key valid) valid"
  obtain s1 r1 where wb: "write_batch E now clock emb fids s opts' (map_of ?ids) ?todo = (s1, r1)" by (metis surj_pair)
  have "s1 = s'" using assms(2) wb unfolding store_many_sync_def Inr t by (cases r1) (simp_all add: Let_def)
  moreover have "sys_sound s1" by (rule write_batch_sound[OF assms(1) wb bulk_todo_new[OF _ assms(3)]])
  ultimately show ?thesis by simp
qed (use assms in \<open>simp add: store_many_sync_def\<close>)

section \<open>Retrying a bulk write\<close>

lemma index_rows_db: "index_rows s fs = (s', r) \<Longrightarrow> my_db s' = my_db s"
proof (induction s fs rule: index_rows.induct)
  case (2 s f fs)
  show ?case
  proof (cases "fr_embedding f")
    case None
    then show ?thesis using 2(1)[OF None] 2(3) by simp
  next
    case (Some v)
    show ?thesis
    proof (cases "index_add (fr_id f) v (fr_content f) (Some (fr_agent f)) (my_index s)")
      case (Inr ix)
      then show ?thesis using 2(2)[OF Some Inr] 2(3) Some by simp
    qed (use 2(3) Some in simp)
  qed
qed simp

lemma store_many_row_ids:
  assumes "store_many P db fs = Inr (db', ids, gone)"
  shows "fr_id ` set (db_fragments db') = fr_id ` set (db_fragments db) \<union> fr_id ` set fs"
proof -
  have "(tbl_get fr_id (db_fragments db') i \<noteq> None) \<longleftrightarrow>
      (tbl_get fr_id (db_fragments db) i \<noteq> None \<or> i \<in> fr_id ` set fs)" for i
    unfolding store_many_get[OF assms] by (auto split: option.split simp: find_None_iff dest!: find_SomeD)
  then show ?thesis by (intro set_eqI) (simp add: tbl_get_None)
qed

lemma store_and_index_ids:
  assumes "store_and_index E s audit embedded = (s', None)"
  shows "fr_id ` set (db_fragments (my_db s')) = fr_id ` set (db_fragments (my_db s)) \<union> fr_id ` set (audit @ embedded)"
proof (cases "store_many (we_provider E) (my_db s) (audit @ embedded)")
  case (Inr t)
  obtain db ids gone where t: "t = (db, ids, gone)" by (metis prod_cases3)
  then have "index_rows (notify_gone gone (s\<lparr>my_db := db\<rparr>)) embedded = (s', None)" using assms Inr by (simp add: store_and_index_def)
  then have "my_db s' = db" using index_rows_db by fastforce
  then show ?thesis using store_many_row_ids Inr t by fastforce
qed (use assms in \<open>simp add: store_and_index_def\<close>)

lemma same_memory_ids: "list_all2 same_memory fs out \<Longrightarrow> fr_id ` set out = fr_id ` set fs"
  by (induction rule: list_all2_induct) (auto dest: same_memory_sel)

lemma write_batch_stored:
  assumes "write_batch E now clock emb fids s opts ids todo = (s', Inr written)"
  shows "written = map (\<lambda>(i, c, m). (i, case ids i of None \<Rightarrow> fids i | Some x \<Rightarrow> x)) todo
    \<and> fr_id ` set (db_fragments (my_db s')) = fr_id ` set (db_fragments (my_db s)) \<union> snd ` set written"
proof -
  obtain g l r1 where gi: "guard_items E now fids opts ids (my_gate s) (my_last s) todo = ((g, l), r1)"
    by (metis surj_pair)
  let ?s1 = "s\<lparr>my_gate := g, my_last := l\<rparr>"
  obtain t where r1: "r1 = Inr t" using assms gi by (cases r1) (auto simp: write_batch_def)
  obtain acc rej w where t: "t = (acc, rej, w)" by (metis prod_cases3)
  note made = guard_items_made[OF gi[unfolded r1 t]]
  obtain s2 r2 where em: "embed_for_write ?s1 clock emb acc = (s2, r2)" by (metis surj_pair)
  obtain embedded where r2: "r2 = Inr embedded" using assms gi r1 t em by (cases r2) (auto simp: write_batch_def)
  note fr = embed_for_write_frame[OF em]
  have "snd ` set w = fr_id ` set (rej @ acc)" using made by blast
  then have ids: "fr_id ` set (rej @ embedded) = snd ` set w"
    using same_memory_ids[of acc embedded] fr r2 unfolding set_append image_Un by simp
  show ?thesis
  proof (cases "rej @ embedded = []")
    case True
    then show ?thesis using assms gi r1 t em r2 made fr ids by (auto simp: write_batch_def)
  next
    case False
    obtain s3 x where si: "store_and_index E s2 rej embedded = (s3, x)" by (metis surj_pair)
    have "x = None" "s3 = s'" "w = written"
      using assms gi r1 t em r2 si False by (auto simp: write_batch_def split: option.splits)
    then show ?thesis using store_and_index_ids[of E s2 rej embedded s3] si made ids fr by simp
  qed
qed

lemma validate_items_length:
  "validate_items E m strict i xs = Inr (valid, skipped) \<Longrightarrow> length valid + length skipped = length xs"
  by (induction E m strict i xs arbitrary: valid skipped rule: validate_items.induct)
    (auto simp: bind_res_Inr_iff split: sum.splits if_splits)

lemma bulk_args_length:
  "bulk_args E items opts imp conf tags meta ats strict = Inr (valid, skipped, opts') \<Longrightarrow>
     length valid + length skipped = length items"
  by (auto simp: bulk_args_def bind_res_Inr_iff split: if_splits option.splits dest!: validate_items_length)

text \<open>C33: a bulk write with an idempotency key can be retried: once it has succeeded, the same call
  on the resulting state changes nothing at all and reports the same id for every position, the same
  skipped items, and every valid item as existing, whatever the clocks, the embedder and the fresh
  ids of the retry are. This holds for the rejected items too, which are stored for audit.\<close>

theorem bulk_retry_is_idempotent:
  assumes "store_many_sync E now clock emb fids s items opts imp conf tags meta ats (Some k) strict = (s', Inr rep)"
  shows "store_many_sync E now2 clock2 emb2 fids2 s' items opts imp conf tags meta ats (Some k) strict
    = (s', Inr (rep\<lparr>sp_existing := length items - length (sp_skipped rep)\<rparr>))"
proof (cases "bulk_args E items opts imp conf tags meta ats strict")
  case (Inr t)
  obtain valid skipped opts' where t: "t = (valid, skipped, opts')" by (metis prod_cases3)
  define ids where "ids = bulk_ids E (Some k) valid"
  define todo where "todo = bulk_todo (my_db s) ids valid"
  have idx: "map_of ids i \<noteq> None" if "(i, c, m) \<in> set valid" for i c m
    using that unfolding ids_def bulk_ids_def option.case map_of_eq_None_iff by force
  obtain s1 r1 where wb: "write_batch E now clock emb fids s opts' (map_of ids) todo = (s1, r1)" by (metis surj_pair)
  note run = assms[unfolded store_many_sync_def Inr t sum.case prod.case Let_def, folded ids_def, folded todo_def,
      unfolded wb prod.case]
  obtain written where r1: "r1 = Inr written" using run by (cases r1) simp_all
  have s1: "s1 = s'" and rep: "rep = \<lparr>sp_ids = map (map_of (written @ ids)) [0..<length items],
      sp_skipped = skipped, sp_existing = length valid - length todo\<rparr>"
    using run unfolding r1 by (simp_all del: map_of_append)
  note st = write_batch_stored[OF wb[unfolded r1 s1]]
  have sub: "set todo \<subseteq> set valid" unfolding todo_def bulk_todo_def Let_def by auto
  have wr: "map_of ids i = Some x" if "(i, x) \<in> set written" for i x
    using that st sub idx by (fastforce split: option.splits)
  have "map_of (written @ ids) i = map_of ids i" for i
    using wr[OF map_of_SomeD[of written i]] by (cases "map_of written i") (simp_all add: map_add_def)
  then have ids_eq: "sp_ids rep = map (map_of ids) [0..<length items]" unfolding rep by simp
  have stored: "x \<in> fr_id ` set (db_fragments (my_db s'))" if v: "(i, c, m) \<in> set valid" and x: "map_of ids i = Some x" for i c m x
  proof (cases "(i, c, m) \<in> set todo")
    case True
    then show ?thesis using st x by force
  next
    case False
    then show ?thesis using v x st unfolding todo_def bulk_todo_def Let_def set_existing_ids by auto
  qed
  have "bulk_todo (my_db s') ids valid = []"
  proof -
    have "\<not> (case map_of ids i of None \<Rightarrow> True | Some x \<Rightarrow> x \<notin> set (existing_ids (my_db s') (map snd ids)))"
      if v: "(i, c, m) \<in> set valid" for i c m
    proof -
      obtain x where x: "map_of ids i = Some x" using idx[OF v] by blast
      have "x \<in> set (map snd ids)" using map_of_SomeD[OF x] by force
      then show ?thesis using stored[OF v x] x unfolding set_existing_ids by simp
    qed
    then show ?thesis unfolding bulk_todo_def Let_def filter_empty_conv by (simp add: split_paired_all)
  qed
  then show ?thesis
    unfolding store_many_sync_def Inr t sum.case prod.case Let_def ids_def[symmetric]
    using bulk_args_length[OF Inr[unfolded t]] ids_eq by (simp add: write_batch_Nil rep)
qed (use assms in \<open>simp add: store_many_sync_def\<close>)

section \<open>Reachable systems\<close>

text \<open>Systems reached from an empty store and index by writes with fresh ids, whatever their
  outcome.\<close>

inductive write_reach :: "write_env \<Rightarrow> memory_sys \<Rightarrow> bool" for E where
  start: "write_reach E \<lparr>my_db = empty_db, my_index = index_empty b installed, my_gate = g, my_last = None,
      my_pending = {}, my_retry_at = 0, my_outage = False\<rparr>"
| store: "write_reach E s \<Longrightarrow> fid \<notin> fr_id ` set (db_fragments (my_db s)) \<Longrightarrow>
    write_reach E (fst (store_sync E now clock emb fid s content opts importance confidence tags meta occ))"
| bulk: "write_reach E s \<Longrightarrow> (\<And>i. fids i \<notin> fr_id ` set (db_fragments (my_db s))) \<Longrightarrow>
    write_reach E (fst (store_many_sync E now clock emb fids s items opts importance confidence tags meta ats key strict))"
| quarantine: "write_reach E s \<Longrightarrow> fid \<notin> fr_id ` set (db_fragments (my_db s)) \<Longrightarrow>
    write_reach E (fst (quarantine_sync E now fid s ct reason opts md))"

lemma index_empty_ok: "index_ok (index_empty b installed)"
  using index_run_ok[of b installed "[]"] by (simp add: index_run_def)

lemma write_reach_sound: "write_reach E s \<Longrightarrow> sys_sound s"
proof (induction rule: write_reach.induct)
  case (start b installed g)
  show ?case using index_empty_ok
    by (simp add: sys_sound_def index_backed_def index_empty_def empty_db_def)
next
  case (store s fid now clock emb content opts importance confidence tags meta occ)
  then show ?case using store_sync_sound by (metis prod.collapse)
next
  case (bulk s fids now clock emb items opts importance confidence tags meta ats key strict)
  then show ?case using store_many_sync_sound by (metis prod.collapse)
next
  case (quarantine s fid now ct reason opts md)
  then show ?case using quarantine_sync_sound by (metis prod.collapse)
qed

lemma best_hits_ids: "(sc, f) \<in> set (best_hits xs q k inc) \<Longrightarrow> f \<in> fst ` set xs"
  by (force simp: best_hits_def scored_items_def dest!: in_set_takeD)

lemma search_hit_owner:
  assumes "index_ok ix" "index_search q k m inc (Some a) ix = Inr hits" "(f, sc, c) \<in> set hits"
  shows "map_of (vi_owner ix) f = Some (Some a)"
proof -
  note ok = index_okD[OF assms(1)]
  have "(sc, f) \<in> set (best_hits (concat (map part_items (searched ix (Some a)))) (normalize_vec q) (nat k) inc)"
    using assms(2,3) unfolding search_reference[OF ok(1)] reference_search_def
    by (auto split: if_splits)
  from best_hits_ids[OF this]
  have "f \<in> fst ` set (concat (map part_items (searched ix (Some a))))" .
  then obtain p where "map_of (vi_parts ix) (Some a) = Some p" "f \<in> fst ` set (part_items p)"
    by (cases "map_of (vi_parts ix) (Some a)") (auto simp: searched_def)
  then have "vec_of ix (Some a) f \<noteq> None" by (auto simp: vec_of_def map_of_eq_None_iff simp del: not_None_eq)
  then show ?thesis using ok(3) by blast
qed

text \<open>C32: whatever is written, in bulk or one by one, accepted or refused, with the embedder up, down
  or failing and with a call that raised half-way, a vector search for an agent returns only ids of
  rows that are stored, belong to that agent and are not QUARANTINED: a refused memory never becomes
  retrievable, and the index never points to a row that was not written.\<close>

theorem search_hits_are_stored:
  assumes "write_reach E s" "index_search q k m inc (Some a) (my_index s) = Inr hits"
  shows "list_all (\<lambda>(f, sc, c). case tbl_get fr_id (db_fragments (my_db s)) f of
      None \<Rightarrow> False | Some r \<Rightarrow> fr_state r \<noteq> QUARANTINED \<and> fr_agent r = a) hits"
proof -
  have ok: "index_ok (my_index s)" and bk: "index_backed (my_db s) (my_index s)"
    using write_reach_sound[OF assms(1)] by (simp_all add: sys_sound_def)
  show ?thesis unfolding list_all_iff
  proof safe
    fix f sc c assume "(f, sc, c) \<in> set hits"
    from search_hit_owner[OF ok assms(2) this] bk
    show "case tbl_get fr_id (db_fragments (my_db s)) f of
        None \<Rightarrow> False | Some r \<Rightarrow> fr_state r \<noteq> QUARANTINED \<and> fr_agent r = a"
      unfolding index_backed_def by fastforce
  qed
qed

section \<open>Concrete writes\<close>

definition wit_write_env :: write_env where
  "wit_write_env = \<lparr>we_agent = u ''a'', we_provider = noop_provider wit_sha, we_redact = wit_redact_env,
     we_screen = (\<lambda>t. []), we_policy = \<lparr>wp_redaction = None, wp_injection = InjectOff\<rparr>, we_sha = (\<lambda>t. t),
     we_why = (\<lambda>r. u ''refused''), we_meta = (\<lambda>d. []), we_dec = (\<lambda>c. False), we_fromiso = (\<lambda>t. False),
     we_uuid5 = (\<lambda>t. u ''f1''), we_max = None\<rparr>"

definition wit_options :: write_options where
  "wit_options = \<lparr>wo_importance = 1 / 2, wo_scope = ScopeAgent, wo_tags = None, wo_source = None, wo_state = UNVERIFIED,
     wo_confidence = 1 / 4, wo_session = None, wo_ttl = None\<rparr>"

definition wit_system :: "gate option \<Rightarrow> memory_sys" where
  "wit_system g = \<lparr>my_db = empty_db, my_index = index_empty BackendAuto True, my_gate = g, my_last = None,
      my_pending = {}, my_retry_at = 0, my_outage = False\<rparr>"

lemma wit_strip: "py_strip (u ''sky'') = u ''sky''"
  by (rule py_strip_clean) (simp_all add: py_isspace_def)

lemma wit_policy_apply:
  "write_policy_apply (we_redact wit_write_env) (we_screen wit_write_env) (we_policy wit_write_env) (u ''sky'') None None
     = Inr \<lparr>wd_content = u ''sky'', wd_meta = None, wd_tags = None, wd_quarantine = False, wd_reason = []\<rparr>"
  by (simp add: write_policy_apply_def wit_write_env_def redacted_write_def Let_def del: u_simps)

lemma wit_nonempty [simp]: "u ''sky'' \<noteq> []"
  by simp

lemma wit_build:
  "build_fragment wit_write_env (DT 2026 1 1 0 0 0 0) (u ''f1'') (u ''sky'') wit_options None
     = Inr (wit_fragment\<lparr>fr_content := u ''sky'', fr_state := UNVERIFIED, fr_confidence := 1 / 4\<rparr>)"
  by (simp add: build_fragment_def fragment_validated_def wit_strip wit_options_def wit_fragment_def wit_write_env_def
      Let_def del: u_simps)

lemma wit_guarded:
  "guarded_fragment wit_write_env (DT 2026 1 1 0 0 0 0) (u ''f1'') None None (u ''sky'') wit_options None
     = ((None, None), Inr (wit_fragment\<lparr>fr_content := u ''sky'', fr_state := UNVERIFIED, fr_confidence := 1 / 4\<rparr>, True))"
  using wit_build wit_policy_apply by (simp add: guarded_fragment_def wit_options_def Let_def del: u_simps)

lemma guard_decides_state_witness:
  "\<exists>gl f. guarded_fragment wit_write_env (DT 2026 1 1 0 0 0 0) (u ''f1'') None None (u ''sky'') wit_options None = (gl, Inr (f, True))
     \<and> fr_state f = UNVERIFIED"
  using wit_guarded guard_decides_state[OF wit_guarded] by (simp add: wit_options_def)

definition wit_embedder :: "ustr list \<Rightarrow> embed_result" where
  "wit_embedder ts = Vectors (map (\<lambda>t. [1, 0]) ts)"

definition wit_embedded :: fragment where
  "wit_embedded = wit_fragment\<lparr>fr_content := u ''sky'', fr_state := UNVERIFIED, fr_confidence := 1 / 4,
     fr_embedding := Some [1, 0]\<rparr>"

lemma wit_valid: "ustr_valid (u ''sky'')"
  by (simp add: ustr_valid_def uni_scalar_def)

lemma wit_args:
  "bulk_args wit_write_env [InText (u ''sky'')] wit_options (NumReal (1 / 2)) (NumReal (1 / 4)) TagsNone MetaNone None True
     = Inr ([(0, u ''sky'', None)], [], wit_options)"
  by (simp add: bulk_args_def check_metadata_def check_tags_def check_number_def validate_item_def check_content_def
      wit_strip wit_valid with_occurred_at_def
      wit_write_env_def wit_options_def Let_def del: u_simps)

lemma wit_guard_items:
  "guard_items wit_write_env (DT 2026 1 1 0 0 0 0) (\<lambda>i. u ''f1'') wit_options [0 \<mapsto> u ''f1''] None None [(0, u ''sky'', None)]
     = ((None, None), Inr ([wit_embedded\<lparr>fr_embedding := None\<rparr>], [], [(0, u ''f1'')]))"
  unfolding guard_items.simps wit_guarded by (simp add: wit_embedded_def wit_fragment_def Let_def del: u_simps)

lemma wit_embed:
  "embed_for_write (wit_system None) 0 wit_embedder [wit_embedded\<lparr>fr_embedding := None\<rparr>] = (wit_system None, Inr [wit_embedded])"
  by (simp add: embed_for_write_def chunks_of.simps EMBED_BATCH_def embed_batch_or_defer_def wit_embedder_def wit_embedded_def
      wit_system_def wit_fragment_def del: u_simps)

lemma wit_indexed:
  "\<exists>s'. store_and_index wit_write_env (wit_system None) [] [wit_embedded] = (s', None)
     \<and> (\<exists>c. index_search [1, 0] 1 0 None (Some (u ''a'')) (my_index s') = Inr [(u ''f1'', 1, c)])"
proof -
  have n: "normalize_vec [1, 0] = [1, 0]" by (simp add: normalize_vec_def vdot_def)
  show ?thesis
    by (simp add: store_and_index_def wit_system_def store_row_def tbl_get_def empty_db_def hash_attach_def Let_def
        wit_embedded_def wit_fragment_def index_add_def n index_empty_def index_search_def searched_def all_hits_def
        new_partition_def py_top_def vdot_def included_def set_content_def AUTO_NUMPY_THRESHOLD_def
        py_scored_def sort_key_desc_def del: u_simps)
qed

lemma wit_bulk:
  assumes "store_and_index wit_write_env (wit_system None) [] [wit_embedded] = (s', None)"
  shows "store_many_sync wit_write_env (DT 2026 1 1 0 0 0 0) 0 wit_embedder (\<lambda>i. u ''f1'') (wit_system None) [InText (u ''sky'')] wit_options
      (NumReal (1 / 2)) (NumReal (1 / 4)) TagsNone MetaNone None (Some (u ''k'')) True
    = (s', Inr \<lparr>sp_ids = [Some (u ''f1'')], sp_skipped = [], sp_existing = 0\<rparr>)"
proof -
  have ids: "bulk_ids wit_write_env (Some (u ''k'')) [(0, u ''sky'', None)] = [(0, u ''f1'')]"
    by (simp add: bulk_ids_def idempotent_id_def wit_write_env_def del: u_simps)
  have todo: "bulk_todo (my_db (wit_system None)) [(0, u ''f1'')] [(0, u ''sky'', None)] = [(0, u ''sky'', None)]"
    by (simp add: bulk_todo_def existing_ids_def wit_system_def empty_db_def del: u_simps)
  have g: "my_gate (wit_system None) = None" "my_last (wit_system None) = None"
    "(wit_system None)\<lparr>my_gate := None, my_last := None\<rparr> = wit_system None" by (simp_all add: wit_system_def)
  have m: "map_of [(0 :: nat, u ''f1'')] = [0 \<mapsto> u ''f1'']" by simp
  have "write_batch wit_write_env (DT 2026 1 1 0 0 0 0) 0 wit_embedder (\<lambda>i. u ''f1'') (wit_system None) wit_options
      (map_of [(0, u ''f1'')]) [(0, u ''sky'', None)] = (s', Inr [(0, u ''f1'')])"
    unfolding write_batch_def m g wit_guard_items prod.case Let_def sum.case wit_embed using assms by simp
  then show ?thesis
    unfolding store_many_sync_def wit_args sum.case prod.case Let_def ids todo by (simp del: u_simps)
qed

lemma bulk_retry_is_idempotent_witness:
  "\<exists>s' rep. store_many_sync wit_write_env (DT 2026 1 1 0 0 0 0) 0 wit_embedder (\<lambda>i. u ''f1'') (wit_system None) [InText (u ''sky'')] wit_options
      (NumReal (1 / 2)) (NumReal (1 / 4)) TagsNone MetaNone None (Some (u ''k'')) True = (s', Inr rep) \<and> sp_existing rep = 0
    \<and> store_many_sync wit_write_env (DT 2026 2 1 0 0 0 0) 1 (\<lambda>ts. Failed) (\<lambda>i. u ''f2'') s' [InText (u ''sky'')] wit_options
      (NumReal (1 / 2)) (NumReal (1 / 4)) TagsNone MetaNone None (Some (u ''k'')) True = (s', Inr (rep\<lparr>sp_existing := 1\<rparr>))"
proof -
  obtain s' where "store_and_index wit_write_env (wit_system None) [] [wit_embedded] = (s', None)" using wit_indexed by blast
  from wit_bulk[OF this] bulk_retry_is_idempotent[OF wit_bulk[OF this]] show ?thesis
    by (intro exI conjI) (assumption, simp, simp)
qed

lemma search_hits_are_stored_witness:
  "\<exists>s c. write_reach wit_write_env s \<and> index_search [1, 0] 1 0 None (Some (u ''a'')) (my_index s) = Inr [(u ''f1'', 1, c)]
     \<and> tbl_get fr_id (db_fragments (my_db s)) (u ''f1'') \<noteq> None"
proof -
  obtain s' c where s: "store_and_index wit_write_env (wit_system None) [] [wit_embedded] = (s', None)"
    and hit: "index_search [1, 0] 1 0 None (Some (u ''a'')) (my_index s') = Inr [(u ''f1'', 1, c)]" using wit_indexed by blast
  have "write_reach wit_write_env (wit_system None)" unfolding wit_system_def by (rule write_reach.start)
  then have "write_reach wit_write_env s'"
    using write_reach.bulk[of wit_write_env "wit_system None" "\<lambda>i. u ''f1''"] wit_bulk[OF s]
    by (metis (no_types, lifting) empty_iff empty_set fst_conv image_empty empty_db_def memory_sys.select_convs(1)
        store_db.select_convs(1) wit_system_def)
  then show ?thesis using hit search_hits_are_stored[OF _ hit] by (fastforce split: option.splits)
qed

text \<open>The last rejection names the id the fragment was built with. With an idempotency key the
  row is stored under another id, so the rejection points to a row that does not exist.\<close>

lemma rejection_id:
  assumes "guarded_fragment E now fid gate last0 content opts meta = ((g, l), Inr (f, False))"
    "wo_state opts \<noteq> QUARANTINED"
  shows "\<exists>r. l = Some r \<and> rj_id r = fid"
proof -
  obtain d where d: "write_policy_apply (we_redact E) (we_screen E) (we_policy E) content meta (wo_tags opts) = Inr d"
    using assms by (cases "write_policy_apply (we_redact E) (we_screen E) (we_policy E) content meta (wo_tags opts)")
      (auto simp: guarded_fragment_def)
  show ?thesis
  proof (cases "wd_quarantine d")
    case True
    then show ?thesis using assms d
      by (auto simp: guarded_fragment_def Let_def split: sum.splits dest: build_fragment_Inr(1))
  next
    case False
    then obtain g0 where g: "gate = Some g0" using assms d
      by (cases gate) (auto simp: guarded_fragment_def Let_def split: sum.splits)
    obtain g' res where k: "gate_check (we_sha E) g0 (wd_content d) (wo_confidence opts) = (g', res)" by (metis surj_pair)
    show ?thesis using assms d False g k
      by (auto simp: guarded_fragment_def Let_def split: sum.splits option.splits dest: build_fragment_Inr(1))
  qed
qed

lemma bulk_rejection_names_no_row:
  assumes "guard_items E now fids opts ids g0 l0 [(i, c, m)] = ((g, l), Inr ([], [f], w))"
    "ids i = Some x" "x \<noteq> fids i" "wo_state opts \<noteq> QUARANTINED"
  shows "fr_id f = x \<and> (\<exists>r. l = Some r \<and> rj_id r \<noteq> fr_id f)"
proof -
  obtain g1 l1 r1 where r: "guarded_fragment E now (fids i) g0 l0 c opts m = ((g1, l1), r1)" by (metis surj_pair)
  obtain f0 k where r1: "r1 = Inr (f0, k)" using assms(1) r by (cases r1) auto
  have "k = False" "g1 = g" "l1 = l" "f = f0\<lparr>fr_id := x\<rparr>" using assms(1,2) r r1 by (auto simp: Let_def split: if_splits)
  then show ?thesis using rejection_id[of E now "fids i" g0 l0 c opts m g l f0] r r1 assms(3,4) by auto
qed

text \<open>When the embedder fails, nothing of the batch is stored, yet the gate has already recorded
  its contents as seen.\<close>

lemma embedder_failure_keeps_gate:
  assumes "guard_items E now fids opts ids (my_gate s) (my_last s) todo = ((g, l), Inr (acc, rej, w))"
    "embed_for_write (s\<lparr>my_gate := g, my_last := l\<rparr>) clock emb acc = (s2, Inl e)"
  shows "\<exists>s'. write_batch E now clock emb fids s opts ids todo = (s', Inl e)
    \<and> my_db s' = my_db s \<and> my_index s' = my_index s \<and> my_gate s' = g"
  using assms embed_for_write_frame[OF assms(2)] by (auto simp: write_batch_def)

section \<open>Stored rows are well-formed\<close>

definition frag_typed :: "ustr \<Rightarrow> fragment \<Rightarrow> bool" where
  "frag_typed a f \<longleftrightarrow> fr_agent f = a \<and> 0 \<le> fr_importance f \<and> fr_importance f \<le> 1 \<and> 0 \<le> fr_confidence f
     \<and> fr_confidence f \<le> 1 \<and> fr_content f \<noteq> [] \<and> py_strip (fr_content f) = fr_content f"

definition row_typed :: "write_env \<Rightarrow> fragment \<Rightarrow> bool" where
  "row_typed E r \<longleftrightarrow> (\<exists>f. frag_typed (we_agent E) f \<and> r = stored_row (we_provider E) f)"

lemma py_strip_Nil [simp]: "py_strip [] = []"
  by (simp add: py_strip_def py_lstrip_def py_rstrip_def)

lemma py_strip_idem: "py_strip (py_strip s) = py_strip s"
proof (cases "py_strip s = []")
  case False
  have p: "prefix (py_strip s) (dropWhile py_isspace s)" using py_rstrip_prefix by (simp add: py_strip_def py_lstrip_def)
  then have ne: "dropWhile py_isspace s \<noteq> []" using p False by (metis prefix_Nil)
  have "hd (py_strip s) = hd (dropWhile py_isspace s)" using p False by (auto simp: prefix_def)
  then have h: "\<not> py_isspace (hd (py_strip s))" using hd_dropWhile[OF ne] by simp
  have d: "rev (py_strip s) = dropWhile py_isspace (rev (dropWhile py_isspace s))"
    by (simp add: py_strip_def py_rstrip_def py_lstrip_def)
  then have "dropWhile py_isspace (rev (dropWhile py_isspace s)) \<noteq> []" using False by (metis rev.simps(1) rev_rev_ident)
  from hd_dropWhile[OF this] have "\<not> py_isspace (last (py_strip s))" using False d by (metis hd_rev)
  with False h show ?thesis by (rule py_strip_clean)
qed simp

lemma build_fragment_typed:
  assumes "build_fragment E now fid c opts m = Inr f"
  shows "frag_typed (we_agent E) f"
  using assms py_strip_idem by (auto simp: build_fragment_def fragment_validated_def frag_typed_def Let_def
      split: if_splits sum.splits)

lemma frag_typed_update [simp]: "frag_typed a (f\<lparr>fr_id := i\<rparr>) = frag_typed a f"
  by (simp add: frag_typed_def)

lemma frag_typed_embedding [simp]: "frag_typed a (f\<lparr>fr_embedding := e\<rparr>) = frag_typed a f"
  by (simp add: frag_typed_def)

lemma same_memory_typed: "same_memory f g \<Longrightarrow> frag_typed a g = frag_typed a f"
  by (metis same_memory_def frag_typed_embedding)

lemma guard_items_typed:
  assumes "guard_items E now fids opts ids g l todo = (gl, Inr (acc, rej, written))"
  shows "list_all (frag_typed (we_agent E)) (acc @ rej)"
  using assms
proof (induction todo arbitrary: g l acc rej written)
  case (Cons t todo)
  obtain i c m where t: "t = (i, c, m)" by (cases t)
  obtain g1 l1 r where r: "guarded_fragment E now (fids i) g l c opts m = ((g1, l1), r)" by (metis surj_pair)
  obtain f0 k where r': "r = Inr (f0, k)" using Cons.prems t r by (cases r) auto
  have f0: "frag_typed (we_agent E) f0" using guarded_fragment_built[OF r[unfolded r']] build_fragment_typed by blast
  define f where "f = (case ids i of None \<Rightarrow> f0 | Some x \<Rightarrow> f0\<lparr>fr_id := x\<rparr>)"
  obtain acc1 rej1 w1 where rest: "guard_items E now fids opts ids g1 l1 todo = (gl, Inr (acc1, rej1, w1))"
    and res: "acc = (if k then f # acc1 else acc1)" "rej = (if k then rej1 else f # rej1)"
    using Cons.prems t r r' by (auto simp: f_def Let_def split: prod.splits sum.splits)
  have "frag_typed (we_agent E) f" using f0 by (simp add: f_def split: option.split)
  then show ?case using Cons.IH[OF rest] res by simp
qed simp

lemma store_many_rows:
  "store_many P db fs = Inr (db', ids, gone) \<Longrightarrow>
     set (db_fragments db') \<subseteq> set (db_fragments db) \<union> stored_row P ` set fs"
proof (induction fs arbitrary: db ids gone)
  case (Cons f fs)
  then obtain db1 g ids1 gone1 where row: "store_row P db f = Inr (db1, g)"
    and many: "store_many P db1 fs = Inr (db', ids1, gone1)"
    by (auto simp: bind_res_Inr_iff)
  have "set (db_fragments db1) \<subseteq> insert (stored_row P f) (set (db_fragments db))"
    using row set_tbl_upsert by (fastforce simp: store_row_Inr_iff)
  then show ?case using Cons.IH[OF many] by auto
qed simp

definition rows_typed :: "write_env \<Rightarrow> memory_sys \<Rightarrow> bool" where
  "rows_typed E s \<longleftrightarrow> list_all (row_typed E) (db_fragments (my_db s))"

lemma store_many_typed:
  assumes "store_many (we_provider E) (my_db s) fs = Inr (db, ids, gone)" "rows_typed E s"
    "list_all (frag_typed (we_agent E)) fs"
  shows "list_all (row_typed E) (db_fragments db)"
  using store_many_rows[OF assms(1)] assms(2,3) by (fastforce simp: rows_typed_def list_all_iff row_typed_def)

lemma store_and_index_typed:
  assumes "store_and_index E s audit embedded = (s', r)" "rows_typed E s"
    "list_all (frag_typed (we_agent E)) (audit @ embedded)"
  shows "rows_typed E s'"
proof (cases "store_many (we_provider E) (my_db s) (audit @ embedded)")
  case (Inr t)
  obtain db ids gone where t: "t = (db, ids, gone)" by (metis prod_cases3)
  then have "index_rows (notify_gone gone (s\<lparr>my_db := db\<rparr>)) embedded = (s', r)" using assms(1) Inr by (simp add: store_and_index_def)
  from index_rows_db[OF this] store_many_typed[OF Inr[unfolded t] assms(2,3)] show ?thesis by (simp add: rows_typed_def)
qed (use assms in \<open>simp add: store_and_index_def\<close>)

lemma embed_for_write_typed:
  assumes "embed_for_write s clock emb fs = (s', Inr out)" "list_all (frag_typed a) fs"
  shows "list_all (frag_typed a) out"
proof -
  have "list_all2 same_memory fs out" using embed_for_write_frame[OF assms(1)] by simp
  then show ?thesis using assms(2) by (induction rule: list_all2_induct) (auto simp: same_memory_typed)
qed

lemma write_batch_typed:
  assumes "write_batch E now clock emb fids s opts ids todo = (s', r)" "rows_typed E s"
  shows "rows_typed E s'"
proof -
  obtain g l r1 where gi: "guard_items E now fids opts ids (my_gate s) (my_last s) todo = ((g, l), r1)"
    by (metis surj_pair)
  let ?s1 = "s\<lparr>my_gate := g, my_last := l\<rparr>"
  show ?thesis
  proof (cases r1)
    case (Inl e)
    then show ?thesis using assms gi by (auto simp: write_batch_def rows_typed_def)
  next
    case (Inr t)
    obtain acc rej w where t: "t = (acc, rej, w)" by (metis prod_cases3)
    obtain s2 r2 where em: "embed_for_write ?s1 clock emb acc = (s2, r2)" by (metis surj_pair)
    have s2: "rows_typed E s2" using embed_for_write_frame[OF em] assms(2) by (simp add: rows_typed_def)
    show ?thesis
    proof (cases r2)
      case (Inl e)
      then show ?thesis using assms gi \<open>r1 = Inr t\<close> t em s2 by (auto simp: write_batch_def)
    next
      case (Inr out)
      obtain s3 x where si: "store_and_index E s2 rej out = (s3, x)" by (metis surj_pair)
      have "list_all (frag_typed (we_agent E)) (rej @ out)"
        using guard_items_typed[OF gi[unfolded \<open>r1 = Inr t\<close> t]] embed_for_write_typed[OF em[unfolded Inr]] by simp
      from store_and_index_typed[OF si s2 this] show ?thesis
        using assms gi \<open>r1 = Inr t\<close> t em Inr si s2 by (auto simp: write_batch_def split: option.splits if_splits)
    qed
  qed
qed

lemma store_sync_impl_typed:
  assumes "store_sync_impl E now clock emb fid s c opts m given = (s', r)" "rows_typed E s"
  shows "rows_typed E s'"
proof -
  obtain g l r1 where gf: "guarded_fragment E now fid (my_gate s) (my_last s) c opts m = ((g, l), r1)"
    by (metis surj_pair)
  let ?s1 = "s\<lparr>my_gate := g, my_last := l\<rparr>"
  have s1: "rows_typed E ?s1" using assms(2) by (simp add: rows_typed_def)
  show ?thesis
  proof (cases r1)
    case (Inl e)
    then show ?thesis using assms(1) gf s1 by (auto simp: store_sync_impl_def)
  next
    case (Inr t)
    obtain f0 k where t: "t = (f0, k)" by (cases t)
    define f where "f = (case given of None \<Rightarrow> f0 | Some i \<Rightarrow> f0\<lparr>fr_id := i\<rparr>)"
    have "frag_typed (we_agent E) f0" using guarded_fragment_built[OF gf[unfolded Inr t]] build_fragment_typed by blast
    then have f: "frag_typed (we_agent E) f" by (simp add: f_def split: option.split)
    show ?thesis
    proof (cases k)
      case False
      obtain s2 x where si: "store_and_index E ?s1 [f] [] = (s2, x)" by (metis surj_pair)
      from store_and_index_typed[OF si s1] f show ?thesis
        using assms(1) gf Inr t False si by (auto simp: store_sync_impl_def f_def[symmetric] split: option.splits)
    next
      case True
      obtain s2 r2 where em: "embed_for_write ?s1 clock emb [f] = (s2, r2)" by (metis surj_pair)
      have s2: "rows_typed E s2" using embed_for_write_frame[OF em] s1 by (simp add: rows_typed_def)
      show ?thesis
      proof (cases r2)
        case (Inl e)
        then show ?thesis
          using assms(1) gf \<open>r1 = Inr t\<close> t True em s2 by (auto simp: store_sync_impl_def f_def[symmetric])
      next
        case (Inr fs)
        obtain s3 x where si: "store_and_index E s2 [] fs = (s3, x)" by (metis surj_pair)
        have "list_all (frag_typed (we_agent E)) ([] @ fs)"
          using embed_for_write_typed[OF em[unfolded Inr]] f by simp
        from store_and_index_typed[OF si s2 this] show ?thesis
          using assms(1) gf \<open>r1 = Inr t\<close> t True em Inr si
          by (auto simp: store_sync_impl_def f_def[symmetric] split: option.splits)
      qed
    qed
  qed
qed

lemma store_sync_typed:
  "store_sync E now clock emb fid s c opts imp conf tags meta occ = (s', r) \<Longrightarrow> rows_typed E s \<Longrightarrow> rows_typed E s'"
  using store_sync_impl_typed[of E now clock emb fid s _ _ _ None s' r]
  by (auto simp: store_sync_def split: sum.splits prod.splits)

lemma store_many_sync_typed:
  assumes "store_many_sync E now clock emb fids s items opts imp conf tags meta ats key strict = (s', r)" "rows_typed E s"
  shows "rows_typed E s'"
proof (cases "bulk_args E items opts imp conf tags meta ats strict")
  case (Inr t)
  obtain valid skipped opts' where t: "t = (valid, skipped, opts')" by (metis prod_cases3)
  let ?ids = "bulk_ids E key valid" and ?todo = "bulk_todo (my_db s) (bulk_ids E key valid) valid"
  obtain s1 r1 where wb: "write_batch E now clock emb fids s opts' (map_of ?ids) ?todo = (s1, r1)" by (metis surj_pair)
  have "s1 = s'" using assms(1) wb unfolding store_many_sync_def Inr t by (cases r1) (simp_all add: Let_def)
  then show ?thesis using write_batch_typed[OF wb assms(2)] by simp
qed (use assms in \<open>simp add: store_many_sync_def\<close>)

lemma quarantine_sync_typed:
  assumes "quarantine_sync E now fid s c reason opts meta = (s', r)" "rows_typed E s"
  shows "rows_typed E s'"
proof -
  have "s' = s \<or> (\<exists>f db ids gone cc oo mm. build_fragment E now fid cc oo mm = Inr f
      \<and> store_many (we_provider E) (my_db s) [f] = Inr (db, ids, gone) \<and> s' = notify_gone gone (s\<lparr>my_db := db\<rparr>))"
    using assms(1) by (auto simp: quarantine_sync_def simp del: store_many.simps split: sum.splits)
  then show ?thesis
  proof
    assume "\<exists>f db ids gone cc oo mm. build_fragment E now fid cc oo mm = Inr f
      \<and> store_many (we_provider E) (my_db s) [f] = Inr (db, ids, gone) \<and> s' = notify_gone gone (s\<lparr>my_db := db\<rparr>)"
    then obtain f db ids gone cc oo mm where f: "build_fragment E now fid cc oo mm = Inr f"
      "store_many (we_provider E) (my_db s) [f] = Inr (db, ids, gone)" "s' = notify_gone gone (s\<lparr>my_db := db\<rparr>)" by blast
    from store_many_typed[OF f(2) assms(2)] build_fragment_typed[OF f(1)] show ?thesis
      by (simp add: rows_typed_def f(3))
  qed (use assms in simp)
qed

text \<open>C34: every row that the write path puts into the store is a well-formed fragment, whatever the
  call was given and however it ended: it belongs to the writing agent, its importance and confidence
  lie in [0, 1], and its content is the encryption of a text that is stripped and not blank.\<close>

theorem written_rows_are_typed:
  assumes "write_reach E s"
  shows "list_all (row_typed E) (db_fragments (my_db s))"
proof -
  have "write_reach E s \<Longrightarrow> rows_typed E s"
  proof (induction rule: write_reach.induct)
    case (start b installed g)
    show ?case by (simp add: rows_typed_def empty_db_def)
  next
    case (store s fid now clock emb content opts importance confidence tags meta occ)
    then show ?case using store_sync_typed by (metis prod.collapse)
  next
    case (bulk s fids now clock emb items opts importance confidence tags meta ats key strict)
    then show ?case using store_many_sync_typed by (metis prod.collapse)
  next
    case (quarantine s fid now ct reason opts md)
    then show ?case using quarantine_sync_typed by (metis prod.collapse)
  qed
  then show ?thesis using assms by (simp add: rows_typed_def)
qed

lemma written_rows_are_typed_witness:
  "\<exists>s. write_reach wit_write_env s \<and> my_db s \<noteq> empty_db \<and> list_all (row_typed wit_write_env) (db_fragments (my_db s))"
proof -
  obtain s' c where s: "store_and_index wit_write_env (wit_system None) [] [wit_embedded] = (s', None)" using wit_indexed by blast
  have start: "write_reach wit_write_env (wit_system None)" unfolding wit_system_def by (rule write_reach.start)
  then have r: "write_reach wit_write_env s'"
    using write_reach.bulk[of wit_write_env "wit_system None" "\<lambda>i. u ''f1''"] wit_bulk[OF s]
    by (metis (no_types, lifting) empty_iff empty_set fst_conv image_empty empty_db_def memory_sys.select_convs(1)
        store_db.select_convs(1) wit_system_def)
  have "fr_id ` set (db_fragments (my_db s')) \<noteq> {}" using store_and_index_ids[OF s] by simp
  then have "my_db s' \<noteq> empty_db" by (auto simp: empty_db_def)
  with r written_rows_are_typed[OF r] show ?thesis by blast
qed

end
