(* ===== verification/Conflicts.thy ===== *)
theory Conflicts
  imports Facts Py_Text Kinds Write_Path
begin

text \<open>
  Memories that disagree or are no longer current: the keyword heuristic for contradictions and the marking of
  a conflict (\<^verbatim>\<open>memory/contradiction.py\<close>), and the labels that tell the reader of a recall which memories are
  resolved, superseded or outdated (\<^verbatim>\<open>memory/result_states.py\<close>). Proved: the check is symmetric and reports
  exactly the conflicting candidates; marking takes both memories out of retrieval and touches nothing else; an
  unlabelled memory is open, and an outdated one states no current value. Two flaws of the code are shown.
\<close>

section \<open>The heuristic\<close>

definition STOP_WORDS :: "ustr set" where
  "STOP_WORDS = set (map u [''a'', ''an'', ''the'', ''is'', ''are'', ''was'', ''were'', ''be'', ''been'',
     ''and'', ''or'', ''but'', ''in'', ''on'', ''at'', ''to'', ''for'', ''of'', ''it''])"

definition NEGATION :: "ustr set" where
  "NEGATION = set (map u [''not'', ''never'', ''no'', ''without'', ''except'', ''neither'', ''nor'', ''removed'',
     ''deleted'', ''changed'', ''different'', ''incorrect'', ''wrong'', ''false''])"

definition WORD_EDGES :: "nat set" where "WORD_EDGES = set (u ''.,!?;:'')"

definition key_words :: "(ustr \<Rightarrow> ustr) \<Rightarrow> ustr \<Rightarrow> ustr set" where
  "key_words lower txt = set (map (\<lambda>w. strip_chars WORD_EDGES (lower w))
     (filter (\<lambda>w. 3 \<le> length w \<and> lower w \<notin> STOP_WORDS) (py_split txt)))"

text \<open>\<open>words_a or _keywords(content_a)\<close>: no words given, or an empty set, reads the content.\<close>

definition is_contradiction :: "(ustr \<Rightarrow> ustr) \<Rightarrow> real \<Rightarrow> ustr \<Rightarrow> ustr \<Rightarrow> ustr set option \<Rightarrow> bool" where
  "is_contradiction lower threshold a b words_a =
     (let wa = (case words_a of None \<Rightarrow> key_words lower a | Some ws \<Rightarrow> if ws = {} then key_words lower a else ws);
          wb = key_words lower b
      in wa \<noteq> {} \<and> wb \<noteq> {}
         \<and> \<not> real (card (wa \<inter> wb)) / real (min (card wa) (card wb)) < threshold
         \<and> (wa \<inter> NEGATION \<noteq> {} \<or> wb \<inter> NEGATION \<noteq> {}))"

record contradiction_report =
  cr_fragment :: ustr
  cr_conflicts :: "ustr list"
  cr_reason :: string
  cr_confidence :: real

definition check_contradictions ::
  "(ustr \<Rightarrow> ustr) \<Rightarrow> real \<Rightarrow> provider \<Rightarrow> store_db \<Rightarrow> ustr \<Rightarrow> fragment \<Rightarrow> fragment list option \<Rightarrow> contradiction_report list" where
  "check_contradictions lower threshold P db agent f candidates =
     (let cs = (case candidates of Some cs \<Rightarrow> cs
            | None \<Rightarrow> list_by_agent P db agent (no_filter\<lparr>ff_states := [VERIFIED, PROMOTED]\<rparr>) None);
          words = key_words lower (fr_content f)
      in map (\<lambda>e. \<lparr>cr_fragment = fr_id f, cr_conflicts = [fr_id e], cr_reason = ''content_conflict'', cr_confidence = 6 / 10\<rparr>)
           (filter (\<lambda>e. fr_id e \<noteq> fr_id f \<and> is_contradiction lower threshold (fr_content f) (fr_content e) (Some words)) cs))"

section \<open>Marking a conflict\<close>

definition mark_conflict ::
  "provider \<Rightarrow> datetime \<Rightarrow> store_db \<Rightarrow> ustr \<Rightarrow> ustr \<Rightarrow> py_error + (store_db \<times> (fragment \<times> fragment) option)" where
  "mark_conflict P now db a b =
     (let (db1, fa) = get_fragment P now db a; (db2, fb) = get_fragment P now db1 b
      in case (fa, fb) of
           (Some x, Some y) \<Rightarrow>
             (let x' = mark_contradicted now x b; y' = mark_contradicted now y a
              in bind_res (store_fragment P db2 x') (\<lambda>db3.
                   bind_res (store_fragment P db3 y') (\<lambda>db4. Inr (db4, Some (x', y')))))
         | _ \<Rightarrow> Inr (db2, None))"

section \<open>Labels of a recall\<close>

text \<open>The result of a recall as the labels read it. \<open>shown\<close> is \<open>str(value)\<close>; \<open>word\<close> is the class of word
  characters and \<open>same\<close> the equality of characters that ignores case, as the regular expressions use them.\<close>

record recall_view =
  rv_fragments :: "fragment list"
  rv_facts :: "fact list"
  rv_outdated :: "ustr list"

record label_lang =
  ll_lower :: "ustr \<Rightarrow> ustr"
  ll_word :: "nat \<Rightarrow> bool"
  ll_same :: "nat \<Rightarrow> nat \<Rightarrow> bool"
  ll_shown :: "fact_value \<Rightarrow> ustr"

definition mentions_value :: "label_lang \<Rightarrow> ustr \<Rightarrow> ustr \<Rightarrow> bool" where
  "mentions_value T txt value =
     (let v = py_join [32] (py_split value)
      in 2 \<le> length v \<and> list_ex (\<lambda>i. i + length v \<le> length txt
           \<and> list_all2 (ll_same T) (take (length v) (drop i txt)) v
           \<and> (i = 0 \<or> \<not> ll_word T (txt ! (i - 1)))
           \<and> (i + length v = length txt \<or> \<not> ll_word T (txt ! (i + length v)))) [0..<Suc (length txt)])"

definition shown_value :: "label_lang \<Rightarrow> fact \<Rightarrow> ustr" where
  "shown_value T f = ll_shown T (decode_value (fc_value f))"

definition current_values :: "label_lang \<Rightarrow> datetime \<Rightarrow> recall_view \<Rightarrow> ustr list" where
  "current_values T now v = map (shown_value T) (filter (valid_at now) (rv_facts v))"

definition stale_values :: "label_lang \<Rightarrow> datetime \<Rightarrow> recall_view \<Rightarrow> fact list \<Rightarrow> ustr \<Rightarrow> ustr list" where
  "stale_values T now v rows agent = filter (\<lambda>x. x \<notin> set (current_values T now v))
     (concat (map (\<lambda>f. filter (\<lambda>x. x \<noteq> shown_value T f)
          (map (shown_value T) (fact_history (ll_lower T) rows agent (fc_subject f) (fc_attr f))))
        (filter (valid_at now) (rv_facts v))))"

definition fact_outdated :: "label_lang \<Rightarrow> datetime \<Rightarrow> recall_view \<Rightarrow> fact list \<Rightarrow> ustr \<Rightarrow> ustr set" where
  "fact_outdated T now v rows agent =
     (let stale = stale_values T now v rows agent
      in if stale = [] then {} else set (map fr_id (filter (\<lambda>f. list_ex (mentions_value T (fr_content f)) stale
            \<and> \<not> list_ex (mentions_value T (fr_content f)) (current_values T now v)) (rv_fragments v))))"

definition label_of :: "ustr set \<Rightarrow> fragment \<Rightarrow> string option" where
  "label_of replaced f =
     (if TAG_RESOLVED \<in> set (fr_tags f) then Some ''resolved''
      else if TAG_SUPERSEDED \<in> set (fr_tags f) then Some ''superseded''
      else if fr_id f \<in> replaced then Some ''outdated'' else None)"

text \<open>\<open>src\<close> is the store's facts and the agent, when both are given.\<close>

definition result_states :: "label_lang \<Rightarrow> datetime \<Rightarrow> recall_view \<Rightarrow> (fact list \<times> ustr) option \<Rightarrow> (ustr \<times> string) list" where
  "result_states T now v src =
     (let replaced = set (rv_outdated v) \<union> (case src of None \<Rightarrow> {} | Some (rows, agent) \<Rightarrow> fact_outdated T now v rows agent)
      in fold (\<lambda>f out. case label_of replaced f of None \<Rightarrow> out | Some l \<Rightarrow> AList.update (fr_id f) l out) (rv_fragments v) [])"

section \<open>The check is symmetric and exact\<close>

lemma contradiction_words: "is_contradiction lower t a b (Some (key_words lower a)) = is_contradiction lower t a b None"
  by (simp add: is_contradiction_def)

lemma contradiction_symmetric: "is_contradiction lower t a b None = is_contradiction lower t b a None"
  by (auto simp: is_contradiction_def Let_def Int_commute min.commute)

lemma contradiction_needs_a_negation:
  "is_contradiction lower t a b None \<Longrightarrow> (key_words lower a \<union> key_words lower b) \<inter> NEGATION \<noteq> {}"
  by (auto simp: is_contradiction_def Let_def)

lemma check_reports_exactly:
  "(\<exists>r\<in>set (check_contradictions lower t P db agent f (Some cs)). e \<in> set (cr_conflicts r)) \<longleftrightarrow>
     e \<noteq> fr_id f \<and> (\<exists>c\<in>set cs. fr_id c = e \<and> is_contradiction lower t (fr_content f) (fr_content c) None)"
  by (auto simp: check_contradictions_def Let_def contradiction_words)

text \<open>The word \<open>no\<close> is one of the negations, and no text whose words are lower-cased without changing their
  length has it as a keyword, unless punctuation is attached: words of two letters are dropped before the
  punctuation is stripped.\<close>

lemma bare_no_is_dropped:
  assumes "\<And>w. length (lower w) = length w" "u ''no'' \<in> key_words lower txt"
  shows "\<exists>w\<in>set (py_split txt). w \<noteq> u ''no'' \<and> lower w \<noteq> u ''no'' \<and> strip_chars WORD_EDGES (lower w) = u ''no''"
proof -
  obtain w where w: "w \<in> set (py_split txt)" "3 \<le> length w" "strip_chars WORD_EDGES (lower w) = u ''no''"
    using assms(2) by (auto simp: key_words_def simp del: u_simps)
  have "length (u ''no'') = 2" by simp
  then have "w \<noteq> u ''no''" "lower w \<noteq> u ''no''" using w(2) assms(1)[of w] by (auto simp del: u_simps length_u)
  then show ?thesis using w by blast
qed

lemma no_is_not_heard:
  "\<not> is_contradiction (\<lambda>w. w) (4 / 10) (u ''job has no lag'') (u ''job has lag'') None"
  "is_contradiction (\<lambda>w. w) (4 / 10) (u ''job has not lag'') (u ''job has lag'') None"
proof -
  have split: "py_split (u ''job has no lag'') = [u ''job'', u ''has'', u ''no'', u ''lag'']"
    "py_split (u ''job has not lag'') = [u ''job'', u ''has'', u ''not'', u ''lag'']"
    "py_split (u ''job has lag'') = [u ''job'', u ''has'', u ''lag'']"
    by (simp_all add: py_split_def py_isspace_def)
  have k: "key_words (\<lambda>w. w) (u ''job has no lag'') = {u ''job'', u ''has'', u ''lag''}"
    "key_words (\<lambda>w. w) (u ''job has not lag'') = {u ''job'', u ''has'', u ''not'', u ''lag''}"
    "key_words (\<lambda>w. w) (u ''job has lag'') = {u ''job'', u ''has'', u ''lag''}"
    unfolding key_words_def split by (simp_all add: strip_chars_def WORD_EDGES_def STOP_WORDS_def)
  have n: "{u ''job'', u ''has'', u ''lag''} \<inter> NEGATION = {}" "u ''not'' \<in> NEGATION" by (simp_all add: NEGATION_def)
  have c: "{u ''job'', u ''has'', u ''not'', u ''lag''} \<inter> {u ''job'', u ''has'', u ''lag''} = {u ''job'', u ''has'', u ''lag''}" by blast
  have d: "card {u ''job'', u ''has'', u ''not'', u ''lag''} = 4" "card {u ''job'', u ''has'', u ''lag''} = 3" by simp_all
  show "\<not> is_contradiction (\<lambda>w. w) (4 / 10) (u ''job has no lag'') (u ''job has lag'') None"
    unfolding is_contradiction_def Let_def option.case k n(1) by simp
  show "is_contradiction (\<lambda>w. w) (4 / 10) (u ''job has not lag'') (u ''job has lag'') None"
    unfolding is_contradiction_def Let_def option.case k c d using n(2) by (simp del: u_simps) 
qed

section \<open>A marked conflict leaves retrieval\<close>

lemma get_fragment_effect:
  assumes "get_fragment P now db i = (db', x)"
  shows "x = map_option (\<lambda>r. fst (decode_fragment P r)) (tbl_get fr_id (db_fragments db) i)"
    and "k \<noteq> i \<Longrightarrow> tbl_get fr_id (db_fragments db') k = tbl_get fr_id (db_fragments db) k"
    and "map_option fr_agent (tbl_get fr_id (db_fragments db') k) = map_option fr_agent (tbl_get fr_id (db_fragments db) k)"
proof -
  have pt: "tbl_get fr_id (db_fragments (persist_tampered now db ids)) j = map_option (\<lambda>r. if fr_id r \<in> set ids \<and> fr_state r \<noteq> CONTRADICTED
       then r\<lparr>fr_state := CONTRADICTED, fr_updated := now\<rparr> else r) (tbl_get fr_id (db_fragments db) j)" for ids j
    by (simp add: persist_tampered_def tbl_get_update)
  have "x = map_option (\<lambda>r. fst (decode_fragment P r)) (tbl_get fr_id (db_fragments db) i) \<and> (db' = db \<or> db' = persist_tampered now db [i])"
    using assms tbl_get_SomeD[of fr_id "db_fragments db" i]
    by (auto simp: get_fragment_def split: option.splits prod.splits if_splits) (metis decode_fragment_keeps fst_conv)+
  then show "x = map_option (\<lambda>r. fst (decode_fragment P r)) (tbl_get fr_id (db_fragments db) i)"
    "k \<noteq> i \<Longrightarrow> tbl_get fr_id (db_fragments db') k = tbl_get fr_id (db_fragments db) k"
    "map_option fr_agent (tbl_get fr_id (db_fragments db') k) = map_option fr_agent (tbl_get fr_id (db_fragments db) k)"
    using tbl_get_SomeD[of fr_id "db_fragments db" k]
    by (auto simp: pt option.map_comp o_def split: option.splits intro!: option.map_cong0) (cases "tbl_get fr_id (db_fragments db) k"; auto)
qed

lemma store_own_row:
  assumes "map_option fr_agent (tbl_get fr_id (db_fragments db) (fr_id f)) = Some (fr_agent f)"
  obtains db' where "store_fragment P db f = Inr db'"
    "\<And>k. tbl_get fr_id (db_fragments db') k = (if k = fr_id f then Some (stored_row P f) else tbl_get fr_id (db_fragments db) k)"
proof -
  obtain db' g where row: "store_row P db f = Inr (db', g)"
    using assms by (auto simp: store_row_def Let_def split: option.splits)
  then have "store_fragment P db f = Inr db'" by (simp add: store_fragment_def)
  moreover have "tbl_get fr_id (db_fragments db') k = (if k = fr_id f then Some (stored_row P f) else tbl_get fr_id (db_fragments db) k)" for k
    using row by (auto simp: store_row_Inr_iff tbl_get_upsert)
  ultimately show ?thesis using that by blast
qed

theorem conflict_is_marked:
  fixes P :: provider and now :: datetime
  assumes a: "tbl_get fr_id (db_fragments db) a = Some ra" and b: "tbl_get fr_id (db_fragments db) b = Some rb" and ne: "a \<noteq> b"
  defines "x \<equiv> mark_contradicted now (fst (decode_fragment P ra)) b" and "y \<equiv> mark_contradicted now (fst (decode_fragment P rb)) a"
  shows "\<exists>db'. mark_conflict P now db a b = Inr (db', Some (x, y))
    \<and> (\<forall>k. tbl_get fr_id (db_fragments db') k = (if k = b then Some (stored_row P y) else if k = a then Some (stored_row P x)
          else tbl_get fr_id (db_fragments db) k))"
proof -
  obtain db1 fa where g1: "get_fragment P now db a = (db1, fa)" by (cases "get_fragment P now db a")
  obtain db2 fb where g2: "get_fragment P now db1 b = (db2, fb)" by (cases "get_fragment P now db1 b")
  note e1 = get_fragment_effect[OF g1] and e2 = get_fragment_effect[OF g2]
  have b1: "tbl_get fr_id (db_fragments db1) b = Some rb" using e1(2)[of b] b ne by simp
  have f: "fa = Some (fst (decode_fragment P ra))" "fb = Some (fst (decode_fragment P rb))" using e1(1) e2(1) a b1 by simp_all
  have ids: "fr_id x = a" "fr_id y = b" "fr_agent x = fr_agent ra" "fr_agent y = fr_agent rb"
    using tbl_get_SomeD[OF a] tbl_get_SomeD[OF b] by (simp_all add: x_def y_def mark_contradicted_def)
  have ag: "map_option fr_agent (tbl_get fr_id (db_fragments db2) k) = map_option fr_agent (tbl_get fr_id (db_fragments db) k)" for k
    using e1(3) e2(3) by metis
  obtain db3 where s3: "store_fragment P db2 x = Inr db3"
    "\<And>k. tbl_get fr_id (db_fragments db3) k = (if k = a then Some (stored_row P x) else tbl_get fr_id (db_fragments db2) k)"
    using store_own_row[of db2 x P] ag[of a] a ids by auto
  obtain db4 where s4: "store_fragment P db3 y = Inr db4"
    "\<And>k. tbl_get fr_id (db_fragments db4) k = (if k = b then Some (stored_row P y) else tbl_get fr_id (db_fragments db3) k)"
    using store_own_row[of db3 y P] ag[of b] b ids ne s3(2)[of b] by auto
  have "mark_conflict P now db a b = Inr (db4, Some (x, y))"
    using g1 g2 f s3(1) s4(1) by (simp add: mark_conflict_def Let_def x_def y_def)
  moreover have "tbl_get fr_id (db_fragments db4) k = (if k = b then Some (stored_row P y) else if k = a then Some (stored_row P x)
      else tbl_get fr_id (db_fragments db) k)" for k
    using s3(2) s4(2) e1(2) e2(2) by simp
  ultimately show ?thesis by blast
qed

text \<open>Both leave retrieval and name each other.\<close>

lemma marked_is_not_retrievable:
  "\<not> is_retrievable (fr_state (stored_row P (mark_contradicted now f i)))" "i \<in> set (fr_contradictions (mark_contradicted now f i))"
  by (simp_all add: mark_contradicted_def hash_attach_def is_retrievable_def retrievable_states_def)

text \<open>A memory that cannot be decrypted is stored back with the placeholder as its content.\<close>

lemma marking_overwrites_unreadable:
  "pv_decrypt P (fr_content r) = None \<Longrightarrow>
     fr_content (stored_row P (mark_contradicted now (fst (decode_fragment P r)) i)) = pv_encrypt P UNREADABLE"
  by (simp add: mark_contradicted_def decode_fragment_def Let_def)

section \<open>What a label means\<close>

lemma label_fold:
  "distinct (map fr_id fs) \<Longrightarrow> map_of (fold (\<lambda>f out. case label_of rep f of None \<Rightarrow> out | Some l \<Rightarrow> AList.update (fr_id f) l out) fs out) i
     = (case find (\<lambda>f. fr_id f = i \<and> label_of rep f \<noteq> None) fs of Some f \<Rightarrow> label_of rep f | None \<Rightarrow> map_of out i)"
proof (induction fs arbitrary: out)
  case (Cons f fs)
  have "find (\<lambda>f. fr_id f = i \<and> label_of rep f \<noteq> None) fs = None" if "fr_id f = i"
    using Cons.prems that by (auto simp: find_None_iff) (metis imageI)
  then show ?case using Cons by (auto simp: AList.update_conv' split: option.splits)
qed simp

theorem labels_are_exact:
  fixes T :: label_lang and now :: datetime and src :: "(fact list \<times> ustr) option"
  assumes "distinct (map fr_id (rv_fragments v))" "f \<in> set (rv_fragments v)"
  defines "rep \<equiv> set (rv_outdated v) \<union> (case src of None \<Rightarrow> {} | Some (rows, agent) \<Rightarrow> fact_outdated T now v rows agent)"
  shows "map_of (result_states T now v src) (fr_id f) = label_of rep f"
proof -
  have uniq: "g = f" if "g \<in> set (rv_fragments v)" "fr_id g = fr_id f" for g
    using assms(1,2) that by (meson distinct_map inj_onD)
  have "find (\<lambda>g. fr_id g = fr_id f \<and> label_of rep g \<noteq> None) (rv_fragments v) = (if label_of rep f = None then None else Some f)"
  proof (cases "find (\<lambda>g. fr_id g = fr_id f \<and> label_of rep g \<noteq> None) (rv_fragments v)")
    case None
    then have "label_of rep f = None" using assms(2) by (auto simp: find_None_iff)
    then show ?thesis using None by simp
  next
    case (Some g)
    then show ?thesis using find_SomeD[OF Some] uniq[of g] by auto
  qed
  then show ?thesis using label_fold[OF assms(1), of rep "[]" "fr_id f"]
    by (auto simp: result_states_def Let_def rep_def)
qed

lemma unlabelled_is_open: "label_of rep f = None \<Longrightarrow> is_open (fr_tags f)"
  by (auto simp: label_of_def is_open_def split: if_splits)

lemma outdated_by_facts:
  "i \<in> fact_outdated T now v rows agent \<longleftrightarrow> (\<exists>f\<in>set (rv_fragments v). fr_id f = i
      \<and> (\<exists>x\<in>set (stale_values T now v rows agent). mentions_value T (fr_content f) x)
      \<and> (\<forall>x\<in>set (current_values T now v). \<not> mentions_value T (fr_content f) x))"
  by (auto simp: fact_outdated_def Let_def list_ex_iff)

text \<open>The history of a fact also holds values that are only scheduled: a memory that states one is labelled outdated
  although its value has not begun.\<close>

lemma scheduled_value_is_called_outdated:
  assumes "h \<in> set (rv_facts v)" "valid_at now h" "f \<in> set (rv_fragments v)"
    and "r \<in> set (fact_history (ll_lower T) rows agent (fc_subject h) (fc_attr h))" "now < fc_from r"
    and "shown_value T r \<notin> set (current_values T now v)" "mentions_value T (fr_content f) (shown_value T r)"
    and "\<forall>x\<in>set (current_values T now v). \<not> mentions_value T (fr_content f) x"
  shows "\<not> valid_at now r" "fr_id f \<in> fact_outdated T now v rows agent"
proof -
  show "\<not> valid_at now r" using assms(5) by (auto simp: valid_at_def dest: leD)
  have "shown_value T h \<in> set (current_values T now v)" using assms(1,2) by (simp add: current_values_def)
  then have "shown_value T r \<in> set (stale_values T now v rows agent)"
    using assms(1,2,4,6) by (auto simp: stale_values_def)
  then show "fr_id f \<in> fact_outdated T now v rows agent" using assms(3,7,8) unfolding outdated_by_facts by blast
qed

text \<open>For instance: a value is porto until June and oslo from then on; in March a note about the move is
  labelled outdated.\<close>

definition wit_labels :: label_lang where
  "wit_labels = \<lparr>ll_lower = (\<lambda>t. t), ll_word = (\<lambda>c. 97 \<le> c \<and> c \<le> 122), ll_same = (=),
     ll_shown = (\<lambda>v. case v of FText t \<Rightarrow> t | FJson t \<Rightarrow> t)\<rparr>"

definition wit_city :: "ustr \<Rightarrow> ustr \<Rightarrow> datetime \<Rightarrow> datetime option \<Rightarrow> fact" where
  "wit_city i city start stop = wit_fact\<lparr>fc_id := i, fc_value := city, fc_from := start, fc_to := stop\<rparr>"

lemma scheduled_move_is_called_outdated:
  assumes "fr_content f = u ''off to oslo''"
  defines "june \<equiv> DT 2026 6 1 0 0 0 0"
  defines "porto \<equiv> wit_city (u ''x1'') (u ''porto'') (DT 2026 1 1 0 0 0 0) (Some june)"
    and "oslo \<equiv> wit_city (u ''x2'') (u ''oslo'') june None"
  shows "fr_id f \<in> fact_outdated wit_labels (DT 2026 3 1 0 0 0 0)
     \<lparr>rv_fragments = [f], rv_facts = [porto], rv_outdated = []\<rparr> [porto, oslo] (u ''a'')"
proof (rule scheduled_value_is_called_outdated(2))
  have keys: "fc_skey porto = u ''svc''" "fc_akey porto = u ''port''" "fc_skey oslo = u ''svc''" "fc_akey oslo = u ''port''"
    "fc_agent porto = u ''a''" "fc_agent oslo = u ''a''" "fc_subject porto = u ''svc''" "fc_attr porto = u ''port''"
    "fc_retracted porto = None" "fc_retracted oslo = None"
    by (simp_all add: porto_def oslo_def wit_city_def wit_fact_def new_fact_def py_strip_clean py_isspace_def)
  have vals: "decode_value (fc_value porto) = FText (u ''porto'')" "decode_value (fc_value oslo) = FText (u ''oslo'')"
    by (simp_all add: porto_def oslo_def wit_city_def decode_value_def TYPED_def)
  have "sort_key (\<lambda>r. (fc_from r, fc_recorded r)) [porto, oslo] = [porto, oslo]"
    by (simp add: porto_def oslo_def wit_city_def june_def less_eq_datetime_def)
  then have "fact_history (ll_lower wit_labels) [porto, oslo] (u ''a'') (fc_subject porto) (fc_attr porto) = [porto, oslo]"
    by (simp add: fact_history_def on_timeline_def keys wit_fact_key wit_labels_def collapse_def vals del: u_simps)
  then show "oslo \<in> set (fact_history (ll_lower wit_labels) [porto, oslo] (u ''a'') (fc_subject porto) (fc_attr porto))" by simp
  show "porto \<in> set (rv_facts \<lparr>rv_fragments = [f], rv_facts = [porto], rv_outdated = []\<rparr>)"
    "f \<in> set (rv_fragments \<lparr>rv_fragments = [f], rv_facts = [porto], rv_outdated = []\<rparr>)" by simp_all
  show now: "valid_at (DT 2026 3 1 0 0 0 0) porto" "DT 2026 3 1 0 0 0 0 < fc_from oslo"
    by (simp_all add: porto_def oslo_def wit_city_def june_def valid_at_def less_eq_datetime_def less_datetime_def)
  have cur: "current_values wit_labels (DT 2026 3 1 0 0 0 0) \<lparr>rv_fragments = [f], rv_facts = [porto], rv_outdated = []\<rparr> = [u ''porto'']"
    using now(1) by (simp add: current_values_def shown_value_def vals wit_labels_def)
  have shown: "shown_value wit_labels oslo = u ''oslo''" by (simp add: shown_value_def vals wit_labels_def)
  show "shown_value wit_labels oslo \<notin> set (current_values wit_labels (DT 2026 3 1 0 0 0 0) \<lparr>rv_fragments = [f], rv_facts = [porto], rv_outdated = []\<rparr>)"
    unfolding cur shown by simp
  show "mentions_value wit_labels (fr_content f) (shown_value wit_labels oslo)"
    unfolding shown assms(1) by (simp add: mentions_value_def py_split_def py_isspace_def wit_labels_def upt_rec)
  show "\<forall>x\<in>set (current_values wit_labels (DT 2026 3 1 0 0 0 0) \<lparr>rv_fragments = [f], rv_facts = [porto], rv_outdated = []\<rparr>).
      \<not> mentions_value wit_labels (fr_content f) x"
    unfolding cur assms(1) by (simp add: mentions_value_def py_split_def py_isspace_def wit_labels_def upt_rec)
qed

end
