(* ===== verification/Embeddings.thy ===== *)
theory Embeddings
  imports Py_Text Complex_Main
begin

text \<open>
  The embedding providers that need no model: word segmentation (\<^verbatim>\<open>embeddings/segments.py\<close>), the
  feature-hashing embedder (\<^verbatim>\<open>embeddings/base.py\<close>), and the LRU cache that wraps any provider
  (\<^verbatim>\<open>embeddings/cache.py\<close>). The class of word characters of the patterns, the symbol category of
  Unicode, \<open>str.lower\<close> and the 64-bit feature hash are arguments; floats are reals.
\<close>

section \<open>Word segmentation\<close>

definition is_cjk :: "nat \<Rightarrow> bool" where
  "is_cjk c \<longleftrightarrow> list_ex (\<lambda>(a, b). a \<le> c \<and> c \<le> b) [(12352, 12543), (13312, 19903), (19968, 40959),
     (63744, 64255), (44032, 55215), (4352, 4607), (12592, 12687)]"

definition symbol_noise :: "nat \<Rightarrow> bool" where
  "symbol_noise c \<longleftrightarrow> c = 65038 \<or> c = 65039 \<or> c = 8205 \<or> (127995 \<le> c \<and> c < 128000)"

record char_classes =
  cc_word :: "nat \<Rightarrow> bool"
  cc_symbol :: "nat \<Rightarrow> bool"
  cc_lower :: "ustr \<Rightarrow> ustr"
  cc_hash :: "ustr \<Rightarrow> nat"

definition is_symbol :: "char_classes \<Rightarrow> nat \<Rightarrow> bool" where
  "is_symbol C c \<longleftrightarrow> c > 127 \<and> \<not> symbol_noise c \<and> cc_symbol C c"

definition cjk_bigrams :: "ustr \<Rightarrow> ustr list" where
  "cjk_bigrams run = map (\<lambda>i. take 2 (drop i run)) [0..<max 1 (length run - 1)]"

text \<open>\<open>\w+\<close> and \<open>\w+|[^\w\s]\<close>: the runs of word characters, without and with the single others.\<close>

function tokens :: "(nat \<Rightarrow> bool) \<Rightarrow> ustr \<Rightarrow> ustr list" where
  "tokens w [] = []"
| "tokens w (c # cs) = (if w c then (c # takeWhile w cs) # tokens w (dropWhile w cs)
     else if py_isspace c then tokens w cs else [c] # tokens w cs)"
  by pat_completeness auto
termination by (relation "measure (\<lambda>(w, s). length s)") (auto simp: le_imp_less_Suc length_dropWhile_le)

function word_runs :: "(nat \<Rightarrow> bool) \<Rightarrow> ustr \<Rightarrow> ustr list" where
  "word_runs w [] = []"
| "word_runs w (c # cs) = (if w c then (c # takeWhile w cs) # word_runs w (dropWhile w cs) else word_runs w cs)"
  by pat_completeness auto
termination by (relation "measure (\<lambda>(w, s). length s)") (auto simp: le_imp_less_Suc length_dropWhile_le)

text \<open>The non-empty parts of \<open>re.split("([CJK]+)", token)\<close>: runs inside and outside the class.\<close>

function cjk_parts :: "ustr \<Rightarrow> ustr list" where
  "cjk_parts [] = []"
| "cjk_parts (c # cs) = (c # takeWhile (\<lambda>d. is_cjk d = is_cjk c) cs) # cjk_parts (dropWhile (\<lambda>d. is_cjk d = is_cjk c) cs)"
  by pat_completeness auto
termination by (relation "measure length") (auto simp: le_imp_less_Suc length_dropWhile_le)

definition is_ascii :: "ustr \<Rightarrow> bool" where
  "is_ascii s \<longleftrightarrow> list_all (\<lambda>c. c < 128) s"

definition segment_token :: "char_classes \<Rightarrow> ustr \<Rightarrow> ustr list" where
  "segment_token C t =
     (if cc_word C (hd t) then
        (if \<not> list_ex is_cjk t then [t]
         else concat (map (\<lambda>part. if list_all is_cjk part then cjk_bigrams part else [part]) (cjk_parts t)))
      else if is_symbol C (hd t) then [t] else [])"

definition segment_words :: "char_classes \<Rightarrow> ustr \<Rightarrow> ustr list" where
  "segment_words C s = (if is_ascii s then word_runs (cc_word C) s
     else concat (map (segment_token C) (tokens (cc_word C) s)))"

section \<open>Hashed features\<close>

definition STOPWORDS :: "ustr list" where
  "STOPWORDS = map u [
    ''a'', ''an'', ''and'', ''are'', ''as'', ''at'', ''be'', ''been'', ''but'', ''by'', ''can'', ''could'',
    ''did'', ''do'', ''does'', ''for'', ''from'', ''had'', ''has'', ''have'', ''he'', ''her'', ''hers'',
    ''him'', ''his'', ''how'', ''i'', ''if'', ''in'', ''into'', ''is'', ''it'', ''its'', ''me'', ''my'',
    ''no'', ''nor'', ''not'', ''of'', ''on'', ''or'', ''our'', ''ours'', ''she'', ''so'', ''than'', ''that'',
    ''the'', ''their'', ''theirs'', ''them'', ''then'', ''there'', ''these'', ''they'', ''this'', ''those'',
    ''to'', ''too'', ''us'', ''was'', ''we'', ''were'', ''what'', ''when'', ''where'', ''which'', ''who'',
    ''whom'', ''why'', ''will'', ''with'', ''would'', ''you'', ''your'', ''yours'']"

text \<open>\<open>_POSSESSIVE_RE.sub\<close>: a word character, an apostrophe and a final s lose the last two.\<close>

fun strip_possessive :: "(nat \<Rightarrow> bool) \<Rightarrow> ustr \<Rightarrow> ustr" where
  "strip_possessive w (a # q # s # rest) =
     (if w a \<and> (q = 39 \<or> q = 8217) \<and> s = 115 \<and> (case rest of [] \<Rightarrow> True | b # _ \<Rightarrow> \<not> w b)
      then a # strip_possessive w rest else a # strip_possessive w (q # s # rest))"
| "strip_possessive w s = s"

definition count_feature :: "ustr \<Rightarrow> (ustr \<times> real) list \<Rightarrow> (ustr \<times> real) list" where
  "count_feature key counts = AList.update key ((case map_of counts key of None \<Rightarrow> 0 | Some n \<Rightarrow> n) + 1) counts"

definition word_features :: "ustr \<Rightarrow> ustr list" where
  "word_features word = (let padded = 60 # word @ [62] in
     (u ''w:'' @ word) # map (\<lambda>i. u ''c:'' @ take 3 (drop i padded)) [0..<length padded - 2])"

definition bigram_features :: "ustr list \<Rightarrow> ustr list" where
  "bigram_features content = map (\<lambda>(l, r). u ''b:'' @ l @ [32] @ r) (zip content (drop 1 content))"

definition hash_features :: "char_classes \<Rightarrow> ustr \<Rightarrow> (ustr \<times> real) list" where
  "hash_features C s =
     (let words = segment_words C (strip_possessive (cc_word C) (cc_lower C s));
          kept = filter (\<lambda>w. w \<notin> set STOPWORDS) words;
          content = (if kept = [] then words else kept)
      in fold count_feature (concat (map word_features content) @ bigram_features content) [])"

definition feature_weight :: "ustr \<Rightarrow> real" where
  "feature_weight f = (if hd f = 99 then 1 / 2 else 1)"

definition feature_value :: "char_classes \<Rightarrow> ustr \<Rightarrow> real \<Rightarrow> real" where
  "feature_value C f n = (let value = feature_weight f * (1 + ln n)
     in if cc_hash C f div 2 ^ 63 \<noteq> 0 then - value else value)"

definition hash_raw :: "char_classes \<Rightarrow> nat \<Rightarrow> ustr \<Rightarrow> real list" where
  "hash_raw C dm s = fold (\<lambda>(f, n) v. v[cc_hash C f mod dm := v ! (cc_hash C f mod dm) + feature_value C f n])
     (hash_features C s) (replicate dm 0)"

definition hash_embed :: "char_classes \<Rightarrow> nat \<Rightarrow> ustr \<Rightarrow> real list" where
  "hash_embed C dm s =
     (let v = hash_raw C dm s; norm2 = sqrt (sum_list (map (\<lambda>x. x * x) v))
      in if norm2 = 0 then v else map (\<lambda>x. x / norm2) v)"

definition hash_provider_new :: "int \<Rightarrow> py_error + nat" where
  "hash_provider_new dm = (if dm \<le> 0 then Inl ValueError else Inr (nat dm))"

text \<open>Which stored texts need a new vector when hash v2 becomes v3.\<close>

definition differs_from_v2 :: "char_classes \<Rightarrow> ustr \<Rightarrow> bool" where
  "differs_from_v2 C s \<longleftrightarrow> \<not> is_ascii s \<and> (list_ex is_cjk s \<or> list_ex (is_symbol C) s)"

section \<open>Segmentation\<close>

lemma tokens_ne: "t \<in> set (tokens w s) \<Longrightarrow> t \<noteq> []"
  by (induction w s rule: tokens.induct) (auto split: if_splits)

lemma tokens_chars: "t \<in> set (tokens w s) \<Longrightarrow> set t \<subseteq> set s"
proof (induction w s rule: tokens.induct)
  case (2 w c cs)
  then show ?case by (auto split: if_splits dest: set_takeWhileD set_dropWhileD)
qed simp

lemma word_runs_tokens: "word_runs w s = filter (\<lambda>t. w (hd t)) (tokens w s)"
  by (induction w s rule: word_runs.induct) auto

lemma concat_single_filter: "concat (map (\<lambda>t. if p t then [t] else []) ts) = filter p ts"
  by (induction ts) auto

text \<open>Without CJK text and symbols the words are those of \<open>\w+\<close>, so an upgrade need not embed the
  text again.\<close>

lemma segment_plain:
  assumes "\<not> differs_from_v2 C s"
  shows "segment_words C s = word_runs (cc_word C) s"
proof (cases "is_ascii s")
  case False
  have "segment_token C t = (if cc_word C (hd t) then [t] else [])" if "t \<in> set (tokens (cc_word C) s)" for t
  proof -
    have "hd t \<in> set s" "\<not> list_ex is_cjk t"
      using tokens_chars[OF that] tokens_ne[OF that] assms False by (auto simp: differs_from_v2_def list_ex_iff)
    then show ?thesis using assms False by (auto simp: segment_token_def differs_from_v2_def list_ex_iff)
  qed
  then have "map (segment_token C) (tokens (cc_word C) s)
      = map (\<lambda>t. if cc_word C (hd t) then [t] else []) (tokens (cc_word C) s)"
    by (intro map_cong) simp_all
  then have "concat (map (segment_token C) (tokens (cc_word C) s)) = filter (\<lambda>t. cc_word C (hd t)) (tokens (cc_word C) s)"
    unfolding concat_single_filter[symmetric] by (rule arg_cong)
  then show ?thesis using False by (simp add: segment_words_def word_runs_tokens)
qed (simp add: segment_words_def)

lemma cjk_parts_concat: "concat (cjk_parts s) = s"
  by (induction s rule: cjk_parts.induct) auto

lemma cjk_bigrams_single: "length run \<le> 1 \<Longrightarrow> cjk_bigrams run = [run]"
  by (auto simp: cjk_bigrams_def)

section \<open>The hash embedder\<close>

lemma hash_raw_length: "length (hash_raw C dm s) = dm"
proof -
  have "length (fold (\<lambda>(f, n) v. v[cc_hash C f mod dm := v ! (cc_hash C f mod dm) + feature_value C f n]) fs v) = length v"
    for fs v by (induction fs arbitrary: v) auto
  then show ?thesis by (simp add: hash_raw_def)
qed

lemma sum_squares_scaled: "sum_list (map (\<lambda>x. x * x) (map (\<lambda>x. x / n) v)) = sum_list (map (\<lambda>x. x * x) v) / (n * n)" for n :: real
  by (induction v) (simp_all add: add_divide_distrib)

lemma sum_squares_nonneg: "0 \<le> sum_list (map (\<lambda>x. x * x) v)" for v :: "real list"
  by (induction v) simp_all

lemma sum_squares_zero: "sum_list (map (\<lambda>x. x * x) v) = 0 \<Longrightarrow> v = replicate (length v) 0" for v :: "real list"
proof (induction v)
  case (Cons x v)
  then show ?case using sum_squares_nonneg[of v] by (simp add: add_nonneg_eq_0_iff)
qed simp

text \<open>Every text has an embedding of exactly the configured dimension that is either a unit
  vector or all zero, and the vector depends on the words only: texts that differ in nothing but what
  segmentation drops have the same one.\<close>

theorem hash_embedding_unit:
  "length (hash_embed C dm s) = dm
   \<and> (sum_list (map (\<lambda>x. x * x) (hash_embed C dm s)) = 1 \<or> hash_embed C dm s = replicate dm 0)
   \<and> (if segment_words C (strip_possessive (cc_word C) (cc_lower C s))
         = segment_words C (strip_possessive (cc_word C) (cc_lower C t)) then hash_embed C dm s = hash_embed C dm t else True)"
proof -
  let ?v = "hash_raw C dm s" let ?q = "sum_list (map (\<lambda>x. x * x) ?v)"
  have unit: "sum_list (map (\<lambda>x. x * x) (hash_embed C dm s)) = 1 \<or> hash_embed C dm s = replicate dm 0"
  proof (cases "?q = 0")
    case True
    then show ?thesis using sum_squares_zero[OF True] hash_raw_length[of C dm s] by (simp add: hash_embed_def)
  next
    case False
    then have "0 < ?q" using sum_squares_nonneg[of ?v] by simp
    then show ?thesis using sum_squares_scaled[of "sqrt ?q" ?v] by (simp add: hash_embed_def Let_def)
  qed
  moreover have "length (hash_embed C dm s) = dm" by (simp add: hash_embed_def hash_raw_length Let_def)
  ultimately show ?thesis by (simp add: hash_embed_def hash_raw_def hash_features_def)
qed

section \<open>The cache\<close>

type_synonym vector = "real list"
type_synonym batch_embedder = "ustr list \<Rightarrow> py_error + vector list"

text \<open>\<open>EmbeddingProvider.embed_batch\<close>: one text after another.\<close>

definition base_embed_batch :: "(ustr \<Rightarrow> vector) \<Rightarrow> batch_embedder" where
  "base_embed_batch f texts = Inr (map f texts)"

text \<open>The ordered dictionary lists the least recently used text first.\<close>

record embed_cache =
  ec_max :: nat
  ec_items :: "(ustr \<times> vector) list"
  ec_hits :: nat
  ec_misses :: nat

definition embed_cache_new :: "int \<Rightarrow> py_error + embed_cache" where
  "embed_cache_new mx = (if mx < 1 then Inl ValueError
     else Inr \<lparr>ec_max = nat mx, ec_items = [], ec_hits = 0, ec_misses = 0\<rparr>)"

definition move_to_end :: "ustr \<Rightarrow> vector \<Rightarrow> (ustr \<times> vector) list \<Rightarrow> (ustr \<times> vector) list" where
  "move_to_end t v items = AList.delete t items @ [(t, v)]"

text \<open>One text of the first pass: the cache, the results so far, and the missing texts with the
  positions that wait for them.\<close>

definition look_up ::
  "nat \<times> ustr \<Rightarrow> embed_cache \<times> vector option list \<times> (ustr \<times> nat list) list
    \<Rightarrow> embed_cache \<times> vector option list \<times> (ustr \<times> nat list) list" where
  "look_up pt st = (case (pt, st) of ((p, t), (c, res, missing)) \<Rightarrow>
     (case map_of (ec_items c) t of
        Some v \<Rightarrow> (c\<lparr>ec_items := move_to_end t v (ec_items c), ec_hits := ec_hits c + 1\<rparr>, res[p := Some v], missing)
      | None \<Rightarrow> (case map_of missing t of
          Some ps \<Rightarrow> (c\<lparr>ec_hits := ec_hits c + 1\<rparr>, res, AList.update t (ps @ [p]) missing)
        | None \<Rightarrow> (c, res, missing @ [(t, [p])]))))"

definition take_vector ::
  "(ustr \<times> nat list) \<times> vector \<Rightarrow> embed_cache \<times> vector option list \<Rightarrow> embed_cache \<times> vector option list" where
  "take_vector m st = (case (m, st) of (((t, ps), v), (c, res)) \<Rightarrow>
     (c\<lparr>ec_items := move_to_end t v (ec_items c), ec_misses := ec_misses c + 1\<rparr>,
      fold (\<lambda>p r. r[p := Some v]) ps res))"

definition evict :: "embed_cache \<Rightarrow> embed_cache" where
  "evict c = c\<lparr>ec_items := drop (length (ec_items c) - ec_max c) (ec_items c)\<rparr>"

definition cached_embed_batch ::
  "batch_embedder \<Rightarrow> embed_cache \<Rightarrow> ustr list \<Rightarrow> embed_cache \<times> (py_error + vector list)" where
  "cached_embed_batch inner c texts =
     (let (c1, res, missing) = fold look_up (enumerate 0 texts) (c, replicate (length texts) None, [])
      in if missing = [] then (c1, Inr (map (\<lambda>r. case r of Some v \<Rightarrow> v | None \<Rightarrow> []) res))
         else case inner (map fst missing) of
           Inl e \<Rightarrow> (c1, Inl e)
         | Inr vs \<Rightarrow> (let (c2, res2) = fold take_vector (zip missing vs) (c1, res)
             in (evict c2, Inr (map (\<lambda>r. case r of Some v \<Rightarrow> v | None \<Rightarrow> []) res2))))"

definition cached_embed :: "batch_embedder \<Rightarrow> embed_cache \<Rightarrow> ustr \<Rightarrow> embed_cache \<times> (py_error + vector)" where
  "cached_embed inner c t = (case cached_embed_batch inner c [t] of
       (c', Inl e) \<Rightarrow> (c', Inl e)
     | (c', Inr vs) \<Rightarrow> (c', (case vs of [] \<Rightarrow> Inl LookupError | v # _ \<Rightarrow> Inr v)))"

definition cache_clear :: "embed_cache \<Rightarrow> embed_cache" where
  "cache_clear c = c\<lparr>ec_items := [], ec_hits := 0, ec_misses := 0\<rparr>"

definition hit_rate :: "embed_cache \<Rightarrow> real" where
  "hit_rate c = (if ec_hits c + ec_misses c = 0 then 0 else real (ec_hits c) / real (ec_hits c + ec_misses c))"

subsection \<open>Order and contents of the dictionary\<close>

lemma map_of_move_to_end: "map_of (move_to_end t v items) = (map_of items)(t \<mapsto> v)"
  by (auto simp: move_to_end_def map_add_def delete_conv' fun_eq_iff split: option.split)

lemma distinct_move_to_end: "distinct (map fst items) \<Longrightarrow> distinct (map fst (move_to_end t v items))"
  by (auto simp: move_to_end_def AList.delete_eq distinct_map_filter)

text \<open>The texts of \<open>S\<close> are the most recently used ones.\<close>

definition recent_texts :: "ustr set \<Rightarrow> (ustr \<times> vector) list \<Rightarrow> bool" where
  "recent_texts S items \<longleftrightarrow> (\<exists>old new. items = old @ new \<and> fst ` set new = S)"

lemma recent_texts_empty [simp]: "recent_texts {} items"
  unfolding recent_texts_def by (intro exI[of _ items] exI[of _ "[]"]) simp

lemma recent_texts_move: "recent_texts S items \<Longrightarrow> recent_texts (insert t S) (move_to_end t v items)"
proof -
  assume "recent_texts S items"
  then obtain old new where i: "items = old @ new" "fst ` set new = S" by (auto simp: recent_texts_def)
  have "AList.delete t (old @ new) = AList.delete t old @ AList.delete t new" by (simp add: AList.delete_eq)
  then have "move_to_end t v items = AList.delete t old @ (AList.delete t new @ [(t, v)])"
    by (simp add: move_to_end_def i(1))
  moreover have "fst ` set (AList.delete t new @ [(t, v)]) = insert t S"
    using i(2) by (auto simp: AList.delete_eq)
  ultimately show ?thesis unfolding recent_texts_def by blast
qed

lemma recent_texts_survive:
  assumes "recent_texts S items" "distinct (map fst items)" "card S \<le> n"
  shows "S \<subseteq> fst ` set (drop (length items - n) items)"
proof -
  obtain old new where i: "items = old @ new" "fst ` set new = S" using assms(1) by (auto simp: recent_texts_def)
  have "length new = card S" using assms(2) i by (metis distinct_append distinct_card length_map list.set_map map_append)
  then have "drop (length items - n) items = drop (length items - n) old @ new" using assms(3) i(1) by simp
  then show ?thesis using i(2) by auto
qed

subsection \<open>The first pass\<close>

text \<open>What holds when the first \<open>k\<close> texts have been looked up in a cache \<open>c\<close>.\<close>

definition looked_up :: "embed_cache \<Rightarrow> ustr list \<Rightarrow> nat \<Rightarrow> embed_cache \<times> vector option list \<times> (ustr \<times> nat list) list \<Rightarrow> bool" where
  "looked_up c texts k st \<longleftrightarrow> (case st of (c1, res, missing) \<Rightarrow>
     map_of (ec_items c1) = map_of (ec_items c) \<and> distinct (map fst (ec_items c1)) \<and> ec_max c1 = ec_max c
     \<and> recent_texts (set (take k texts) \<inter> dom (map_of (ec_items c))) (ec_items c1)
     \<and> ec_hits c1 + length missing = ec_hits c + k \<and> ec_misses c1 = ec_misses c
     \<and> res = map (\<lambda>p. if p < k then map_of (ec_items c) (texts ! p) else None) [0..<length texts]
     \<and> distinct (map fst missing) \<and> fst ` set missing = set (take k texts) - dom (map_of (ec_items c))
     \<and> (\<forall>t ps. (t, ps) \<in> set missing \<longrightarrow> set ps = {p. p < k \<and> texts ! p = t}))"

lemma set_alist_update:
  "distinct (map fst xs) \<Longrightarrow> set (AList.update k v xs) = insert (k, v) {x \<in> set xs. fst x \<noteq> k}"
  by (induction xs) (auto simp: image_iff)

lemma length_alist_update: "k \<in> fst ` set xs \<Longrightarrow> length (AList.update k v xs) = length xs"
  by (induction xs) auto

lemma look_up_step:
  assumes "looked_up c texts k st" "k < length texts"
  shows "looked_up c texts (Suc k) (look_up (k, texts ! k) st)"
proof -
  obtain c1 res missing where st: "st = (c1, res, missing)" by (metis prod_cases3)
  note h = assms(1)[unfolded looked_up_def st prod.case]
  let ?t = "texts ! k" and ?m = "map_of (ec_items c)"
  have tk: "take (Suc k) texts = take k texts @ [?t]" using assms(2) by (simp add: take_Suc_conv_app_nth)
  have mono: "{p. p < Suc k \<and> texts ! p = t} = {p. p < k \<and> texts ! p = t} \<union> (if t = ?t then {k} else {})" for t
    by (auto simp: less_Suc_eq)
  show ?thesis
  proof (cases "?m ?t")
    case (Some v)
    have "(map (\<lambda>p. if p < k then ?m (texts ! p) else None) [0..<length texts])[k := Some v]
        = map (\<lambda>p. if p < Suc k then ?m (texts ! p) else None) [0..<length texts]"
      using Some assms(2) by (intro nth_equalityI) (auto simp: nth_list_update less_Suc_eq)
    moreover have "fst ` set missing = set (take (Suc k) texts) - dom ?m" using h Some by (auto simp: tk)
    moreover have "set (take (Suc k) texts) \<inter> dom ?m = insert ?t (set (take k texts) \<inter> dom ?m)" using Some by (auto simp: tk)
    moreover have "?t \<notin> fst ` set missing" using h Some by auto
    then have "\<forall>t ps. (t, ps) \<in> set missing \<longrightarrow> set ps = {p. p < Suc k \<and> texts ! p = t}"
      using h unfolding mono by force
    ultimately show ?thesis using h Some recent_texts_move[of _ "ec_items c1" ?t v]
      unfolding st looked_up_def look_up_def
      by (simp add: map_of_move_to_end distinct_move_to_end fun_upd_idem)
  next
    case None
    have none: "map_of (ec_items c1) ?t = None" using h None by simp
    have res: "map (\<lambda>p. if p < k then ?m (texts ! p) else None) [0..<length texts]
        = map (\<lambda>p. if p < Suc k then ?m (texts ! p) else None) [0..<length texts]"
      using None by (auto simp: less_Suc_eq)
    have int: "set (take (Suc k) texts) \<inter> dom ?m = set (take k texts) \<inter> dom ?m" using None by (auto simp: tk)
    have diff: "set (take (Suc k) texts) - dom ?m = insert ?t (set (take k texts) - dom ?m)" using None by (auto simp: tk)
    show ?thesis
    proof (cases "map_of missing ?t")
      case None
      then have new: "?t \<notin> fst ` set missing" by (simp add: map_of_eq_None_iff)
      have "?t \<notin> set (take k texts)" using new h \<open>?m ?t = None\<close> by auto
      then have "{p. p < k \<and> texts ! p = ?t} = {}" using assms(2) by (auto simp: in_set_conv_nth)
      then have "\<forall>t ps. (t, ps) \<in> set (missing @ [(?t, [k])]) \<longrightarrow> set ps = {p. p < Suc k \<and> texts ! p = t}"
      proof (intro allI impI)
        fix t ps assume a: "(t, ps) \<in> set (missing @ [(?t, [k])])"
        show "set ps = {p. p < Suc k \<and> texts ! p = t}"
        proof (cases "(t, ps) \<in> set missing")
          case True
          then have "t \<noteq> ?t" using new by force
          moreover have "set ps = {p. p < k \<and> texts ! p = t}" using h True by blast
          ultimately show ?thesis unfolding mono by simp
        next
          case False
          then have "t = ?t" "ps = [k]" using a by auto
          then show ?thesis unfolding mono using \<open>{p. p < k \<and> texts ! p = ?t} = {}\<close> by auto
        qed
      qed
      then show ?thesis using h none None new res int diff
        unfolding st looked_up_def look_up_def by simp
    next
      case (Some ps)
      then have mem: "(?t, ps) \<in> set missing" by (rule map_of_SomeD)
      have set_upd: "set (AList.update ?t (ps @ [k]) missing) = insert (?t, ps @ [k]) {x \<in> set missing. fst x \<noteq> ?t}"
        using h by (intro set_alist_update) simp
      have "\<forall>t qs. (t, qs) \<in> set (AList.update ?t (ps @ [k]) missing) \<longrightarrow> set qs = {p. p < Suc k \<and> texts ! p = t}"
        using h mem unfolding set_upd mono by (auto simp: fst_conv)
      moreover have "fst ` set (AList.update ?t (ps @ [k]) missing) = set (take (Suc k) texts) - dom ?m"
        using h mem unfolding diff dom_update by auto
      moreover have "length (AList.update ?t (ps @ [k]) missing) = length missing"
        using mem by (intro length_alist_update) force
      ultimately show ?thesis using h none Some res int
        unfolding st looked_up_def look_up_def by (simp add: distinct_update)
    qed
  qed
qed

lemma looked_up_all:
  assumes "distinct (map fst (ec_items c))"
  shows "looked_up c texts (length texts) (fold look_up (enumerate 0 texts) (c, replicate (length texts) None, []))"
proof -
  let ?s0 = "(c, replicate (length texts) None, [])"
  have "looked_up c texts k (fold look_up (enumerate 0 (take k texts)) ?s0)" if "k \<le> length texts" for k
    using that
  proof (induction k)
    case 0
    have "replicate (length texts) None = map (\<lambda>p. None) [0..<length texts]" by (simp add: map_replicate_trivial)
    then show ?case using assms by (simp add: looked_up_def)
  next
    case (Suc k)
    have "enumerate 0 (take (Suc k) texts) = enumerate 0 (take k texts) @ [(k, texts ! k)]"
      using Suc.prems by (simp add: take_Suc_conv_app_nth enumerate_append_eq)
    then show ?case using look_up_step[OF Suc.IH] Suc.prems by simp
  qed
  from this[of "length texts"] show ?thesis by simp
qed

subsection \<open>The second pass\<close>

lemma fold_positions:
  "q < length res \<Longrightarrow> fold (\<lambda>p r. r[p := x]) ps res ! q = (if q \<in> set ps then x else res ! q)"
  "length (fold (\<lambda>p r. r[p := x]) ps res) = length res"
  by (induction ps arbitrary: res) (auto simp: nth_list_update)

lemma take_vector_simp:
  "take_vector ((t, ps), v) (c, res) = (c\<lparr>ec_items := move_to_end t v (ec_items c), ec_misses := ec_misses c + 1\<rparr>,
     fold (\<lambda>p r. r[p := Some v]) ps res)"
  by (simp add: take_vector_def)

lemma take_vectors:
  assumes "distinct (map fst (ec_items c))" "recent_texts S (ec_items c)"
    "\<forall>t v. map_of (ec_items c) t = Some v \<longrightarrow> v = f t"
    "\<forall>t ps. (t, ps) \<in> set ms \<longrightarrow> set ps = {p. p < length res \<and> txts ! p = t}"
  shows "case fold take_vector (zip ms (map f (map fst ms))) (c, res) of (c2, res2) \<Rightarrow>
     distinct (map fst (ec_items c2)) \<and> recent_texts (S \<union> fst ` set ms) (ec_items c2)
     \<and> (\<forall>t v. map_of (ec_items c2) t = Some v \<longrightarrow> v = f t) \<and> ec_max c2 = ec_max c \<and> ec_hits c2 = ec_hits c
     \<and> ec_misses c2 = ec_misses c + length ms \<and> length res2 = length res
     \<and> (\<forall>q<length res. res2 ! q = (if txts ! q \<in> fst ` set ms then Some (f (txts ! q)) else res ! q))"
  using assms
proof (induction ms arbitrary: c res S)
  case (Cons m ms)
  obtain t ps where m: "m = (t, ps)" by (cases m)
  let ?c = "c\<lparr>ec_items := move_to_end t (f t) (ec_items c), ec_misses := ec_misses c + 1\<rparr>"
  let ?res = "fold (\<lambda>p r. r[p := Some (f t)]) ps res"
  have ps: "set ps = {p. p < length res \<and> txts ! p = t}" using Cons.prems(4) m by simp
  have "case fold take_vector (zip ms (map f (map fst ms))) (?c, ?res) of (c2, res2) \<Rightarrow>
     distinct (map fst (ec_items c2)) \<and> recent_texts (insert t S \<union> fst ` set ms) (ec_items c2)
     \<and> (\<forall>t v. map_of (ec_items c2) t = Some v \<longrightarrow> v = f t) \<and> ec_max c2 = ec_max ?c \<and> ec_hits c2 = ec_hits ?c
     \<and> ec_misses c2 = ec_misses ?c + length ms \<and> length res2 = length ?res
     \<and> (\<forall>q<length ?res. res2 ! q = (if txts ! q \<in> fst ` set ms then Some (f (txts ! q)) else ?res ! q))"
    by (rule Cons.IH)
      (use Cons.prems in \<open>auto simp: distinct_move_to_end recent_texts_move map_of_move_to_end fold_positions(2)\<close>)
  moreover have "fold take_vector (zip (m # ms) (map f (map fst (m # ms)))) (c, res)
      = fold take_vector (zip ms (map f (map fst ms))) (?c, ?res)"
    by (simp only: m take_vector_simp fold_Cons o_apply zip_Cons_Cons list.map fst_conv)
  moreover have "(if txts ! q \<in> fst ` set ms then Some (f (txts ! q)) else ?res ! q)
      = (if txts ! q \<in> fst ` set (m # ms) then Some (f (txts ! q)) else res ! q)" if "q < length res" for q
    using fold_positions(1)[OF that, of "Some (f t)" ps] that unfolding m ps by auto
  moreover have "insert t S \<union> fst ` set ms = S \<union> fst ` set (m # ms)" unfolding m by auto
  ultimately show ?case by (auto simp: fold_positions(2) split: prod.split_asm)
qed simp

lemma set_drop_items: "distinct (map fst items) \<Longrightarrow> map_of (drop n items) t = Some v \<Longrightarrow> map_of items t = Some v"
  by (meson in_set_dropD map_of_SomeD map_of_eq_Some_iff)

subsection \<open>The cache is transparent\<close>

definition cache_ok :: "(ustr \<Rightarrow> vector) \<Rightarrow> embed_cache \<Rightarrow> bool" where
  "cache_ok f c \<longleftrightarrow> distinct (map fst (ec_items c)) \<and> (\<forall>t v. map_of (ec_items c) t = Some v \<longrightarrow> v = f t)
     \<and> length (ec_items c) \<le> ec_max c"

text \<open>A batch whose texts are all cached needs no embedder.\<close>

lemma cached_batch_hit:
  assumes "cache_ok f c" "set texts \<subseteq> fst ` set (ec_items c)"
  shows "snd (cached_embed_batch inner c texts) = Inr (map f texts)"
proof -
  obtain c1 res missing where p: "fold look_up (enumerate 0 texts) (c, replicate (length texts) None, []) = (c1, res, missing)"
    by (metis prod_cases3)
  have "distinct (map fst (ec_items c))" using assms(1) by (simp add: cache_ok_def)
  note l = looked_up_all[OF this, of texts, unfolded p looked_up_def prod.case]
  have dom: "t \<in> dom (map_of (ec_items c))" if "t \<in> set texts" for t
    using that assms(2) by (auto simp: dom_map_of_conv_image_fst)
  then have "set texts - dom (map_of (ec_items c)) = {}" by blast
  then have "fst ` set missing = {}" using l by simp
  then have "missing = []" by simp
  moreover have "map_of (ec_items c) (texts ! i) = Some (f (texts ! i))" if "i < length texts" for i
    using dom[OF nth_mem[OF that]] assms(1) by (auto simp: cache_ok_def)
  then have "map (\<lambda>r. case r of Some v \<Rightarrow> v | None \<Rightarrow> []) res = map f texts"
    using l by (intro nth_equalityI) auto
  ultimately show ?thesis by (simp add: cached_embed_batch_def p)
qed

text \<open>The contract of a provider: a batch is embedded text by text.\<close>

locale pointwise_embedder =
  fixes inner :: "ustr list \<Rightarrow> py_error + real list list" and f :: "ustr \<Rightarrow> real list"
  assumes inner_map: "inner texts = Inr (map f texts)"
begin

lemma cached_batch:
  assumes "cache_ok f c"
  shows "\<exists>c'. cached_embed_batch inner c texts = (c', Inr (map f texts)) \<and> cache_ok f c' \<and> ec_max c' = ec_max c
    \<and> ec_hits c' + ec_misses c' = ec_hits c + ec_misses c + length texts
    \<and> (card (set texts) \<le> ec_max c \<longrightarrow> set texts \<subseteq> fst ` set (ec_items c'))"
proof -
  obtain c1 res missing where p: "fold look_up (enumerate 0 texts) (c, replicate (length texts) None, []) = (c1, res, missing)"
    by (metis prod_cases3)
  have dist: "distinct (map fst (ec_items c))" and sound: "\<And>t v. map_of (ec_items c) t = Some v \<Longrightarrow> v = f t"
    using assms by (auto simp: cache_ok_def)
  note l = looked_up_all[OF dist, of texts, unfolded p looked_up_def prod.case]
  have keys: "fst ` set (ec_items c1) = fst ` set (ec_items c)" using l by (metis dom_map_of_conv_image_fst)
  then have len: "length (ec_items c1) = length (ec_items c)"
    using l dist by (metis distinct_card length_map list.set_map)
  have res: "length res = length texts" "\<And>q. q < length texts \<Longrightarrow> res ! q = map_of (ec_items c) (texts ! q)"
    using l by auto
  show ?thesis
  proof (cases "missing = []")
    case True
    then have "set texts - dom (map_of (ec_items c)) = {}" using l by simp
    then have "set texts \<subseteq> fst ` set (ec_items c)" by (auto simp: dom_map_of_conv_image_fst)
    from cached_batch_hit[OF assms this, of inner] show ?thesis
      using True l len assms \<open>set texts \<subseteq> fst ` set (ec_items c)\<close>
      keys by (simp add: cached_embed_batch_def p cache_ok_def)
  next
    case False
    obtain c2 res2 where t: "fold take_vector (zip missing (map f (map fst missing))) (c1, res) = (c2, res2)" by (metis surj_pair)
    have pos: "\<forall>t ps. (t, ps) \<in> set missing \<longrightarrow> set ps = {p. p < length res \<and> texts ! p = t}" using l res(1) by simp
    have v: "case fold take_vector (zip missing (map f (map fst missing))) (c1, res) of (c2, res2) \<Rightarrow>
       distinct (map fst (ec_items c2)) \<and> recent_texts (set texts \<inter> dom (map_of (ec_items c)) \<union> fst ` set missing) (ec_items c2)
       \<and> (\<forall>t v. map_of (ec_items c2) t = Some v \<longrightarrow> v = f t) \<and> ec_max c2 = ec_max c1 \<and> ec_hits c2 = ec_hits c1
       \<and> ec_misses c2 = ec_misses c1 + length missing \<and> length res2 = length res
       \<and> (\<forall>q<length res. res2 ! q = (if texts ! q \<in> fst ` set missing then Some (f (texts ! q)) else res ! q))"
      by (rule take_vectors) (use l sound pos in auto)
    note v = v[unfolded t prod.case]
    have "set texts \<inter> dom (map_of (ec_items c)) \<union> fst ` set missing = set texts" using l by auto
    then have recent: "recent_texts (set texts) (ec_items c2)" using v by simp
    have "map (\<lambda>r. case r of Some v \<Rightarrow> v | None \<Rightarrow> []) res2 = map f texts"
    proof (rule nth_equalityI)
      fix i assume "i < length (map (\<lambda>r. case r of Some v \<Rightarrow> v | None \<Rightarrow> []) res2)"
      then have i: "i < length texts" using v res(1) by simp
      have "texts ! i \<in> fst ` set missing \<or> texts ! i \<in> dom (map_of (ec_items c))" using l nth_mem[OF i] by auto
      then show "map (\<lambda>r. case r of Some v \<Rightarrow> v | None \<Rightarrow> []) res2 ! i = map f texts ! i"
        using v res i sound by auto
    qed (use v res(1) in simp)
    then have run: "cached_embed_batch inner c texts = (evict c2, Inr (map f texts))"
      using False by (simp add: cached_embed_batch_def p inner_map t[simplified])
    have "cache_ok f (evict c2)"
      using v set_drop_items[of "ec_items c2"] by (auto simp: cache_ok_def evict_def drop_map[symmetric] distinct_drop)
    moreover have "ec_max (evict c2) = ec_max c" "ec_hits (evict c2) + ec_misses (evict c2) = ec_hits c + ec_misses c + length texts"
      using v l by (simp_all add: evict_def)
    moreover have "card (set texts) \<le> ec_max c \<longrightarrow> set texts \<subseteq> fst ` set (ec_items (evict c2))"
      using recent_texts_survive[OF recent, of "ec_max c"] v l by (simp add: evict_def)
    ultimately show ?thesis using run by blast
  qed
qed

end

interpretation base_batch: pointwise_embedder "base_embed_batch f" f for f
  by unfold_locales (simp add: base_embed_batch_def)

datatype cache_op = CacheBatch "ustr list" | CacheOne ustr | CacheClear

fun cache_step :: "batch_embedder \<Rightarrow> cache_op \<Rightarrow> embed_cache \<Rightarrow> embed_cache" where
  "cache_step inner (CacheBatch ts) c = fst (cached_embed_batch inner c ts)"
| "cache_step inner (CacheOne t) c = fst (cached_embed inner c t)"
| "cache_step inner CacheClear c = cache_clear c"

definition cache_run :: "batch_embedder \<Rightarrow> cache_op list \<Rightarrow> embed_cache \<Rightarrow> embed_cache" where
  "cache_run inner ops c = fold (cache_step inner) ops c"

lemma cache_step_ok:
  assumes "cache_ok f c"
  shows "cache_ok f (cache_step (base_embed_batch f) x c) \<and> ec_max (cache_step (base_embed_batch f) x c) = ec_max c"
proof (cases x)
  case (CacheBatch ts)
  then show ?thesis using base_batch.cached_batch[OF assms, of ts] by auto
next
  case (CacheOne t)
  then show ?thesis using base_batch.cached_batch[OF assms, of "[t]"] by (auto simp: cached_embed_def)
next
  case CacheClear
  then show ?thesis using assms by (simp add: cache_clear_def cache_ok_def)
qed

lemma cache_run_ok:
  "cache_ok f c \<Longrightarrow> cache_ok f (cache_run (base_embed_batch f) ops c) \<and> ec_max (cache_run (base_embed_batch f) ops c) = ec_max c"
proof (induction ops arbitrary: c)
  case (Cons x ops)
  then show ?case using cache_step_ok[OF Cons.prems, of x] by (simp add: cache_run_def)
qed (simp add: cache_run_def)

text \<open>C40: a cached provider returns exactly what the wrapped provider returns, after any sequence of
  batches, single texts and clears, and never holds more than \<open>maxsize\<close> vectors. Each text is counted
  once, as a hit or as a miss. A batch with at most \<open>maxsize\<close> different texts can be repeated without
  the wrapped provider: the second answer is the same even if the provider now fails.\<close>

theorem cached_embeddings_transparent:
  assumes "embed_cache_new mx = Inr c0"
  shows "let c = cache_run (base_embed_batch f) ops c0; (c', r) = cached_embed_batch (base_embed_batch f) c texts
    in r = base_embed_batch f texts \<and> length (ec_items c') \<le> nat mx
     \<and> ec_hits c' + ec_misses c' = ec_hits c + ec_misses c + length texts
     \<and> (if card (set texts) \<le> nat mx then snd (cached_embed_batch failing c' texts) = r else True)"
proof -
  have "cache_ok f c0" "ec_max c0 = nat mx"
    using assms by (auto simp: embed_cache_new_def cache_ok_def split: if_splits)
  then have c: "cache_ok f (cache_run (base_embed_batch f) ops c0)" "ec_max (cache_run (base_embed_batch f) ops c0) = nat mx"
    using cache_run_ok by auto
  from base_batch.cached_batch[OF c(1), of texts] c(2) show ?thesis
    using cached_batch_hit by (auto simp: Let_def base_embed_batch_def cache_ok_def)
qed

definition wit_classes :: char_classes where
  "wit_classes = \<lparr>cc_word = (\<lambda>c. 97 \<le> c \<and> c \<le> 122), cc_symbol = (\<lambda>c. False), cc_lower = (\<lambda>s. s), cc_hash = length\<rparr>"

lemma cached_embeddings_transparent_witness:
  "\<exists>c0. embed_cache_new 2 = Inr c0
     \<and> snd (cached_embed_batch (base_embed_batch (hash_embed wit_classes 4)) (cache_run (base_embed_batch (hash_embed wit_classes 4))
          [CacheBatch [u ''x'', u ''y'', u ''z''], CacheOne (u ''x'')] c0) [u ''z'', u ''x'', u ''z''])
        = Inr [hash_embed wit_classes 4 (u ''z''), hash_embed wit_classes 4 (u ''x''), hash_embed wit_classes 4 (u ''z'')]"
proof -
  obtain c0 where c0: "embed_cache_new 2 = Inr c0" by (simp add: embed_cache_new_def)
  from cached_embeddings_transparent[OF c0, of "hash_embed wit_classes 4" "[CacheBatch [u ''x'', u ''y'', u ''z''], CacheOne (u ''x'')]"
      "[u ''z'', u ''x'', u ''z'']"] c0
  show ?thesis by (simp add: Let_def base_embed_batch_def case_prod_unfold del: u_simps)
qed

end
