(* ===== verification/FactJobs.thy ===== *)
theory FactJobs
  imports Facts
begin

text \<open>
  The durable queue of fact-extraction jobs and the ledger of extracted assertions
  (\<^verbatim>\<open>store/_sqlite/fact_jobs.py\<close>). A job is one (fragment, extractor) pair; the side table
  records which process holds a running job. The clock, the expiry limit of a lease
  (\<open>stale\<close> is \<open>now\<close> minus the lease) and the judgement that an owner process is dead
  are arguments.
\<close>

section \<open>Tables\<close>

datatype job_status = JPending | JRunning | JDone | JFailed

record job =
  jb_fragment :: ustr
  jb_extractor :: ustr
  jb_agent :: ustr
  jb_occurrence :: int
  jb_status :: job_status
  jb_attempts :: int
  jb_error :: "ustr option"
  jb_created :: datetime
  jb_updated :: datetime

definition jb_key :: "job \<Rightarrow> ustr \<times> ustr" where
  "jb_key j = (jb_fragment j, jb_extractor j)"

record job_db =
  jd_jobs :: "job list"
  jd_owners :: "((ustr \<times> ustr) \<times> ustr) list"

definition update_job :: "ustr \<times> ustr \<Rightarrow> (job \<Rightarrow> job) \<Rightarrow> job_db \<Rightarrow> job_db" where
  "update_job k g db = db\<lparr>jd_jobs := tbl_update (\<lambda>j. jb_key j = k) g (jd_jobs db)\<rparr>"

definition drop_owner :: "ustr \<times> ustr \<Rightarrow> job_db \<Rightarrow> job_db" where
  "drop_owner k db = db\<lparr>jd_owners := filter (\<lambda>(k', o'). k' \<noteq> k) (jd_owners db)\<rparr>"

definition set_owner :: "ustr \<times> ustr \<Rightarrow> ustr \<Rightarrow> job_db \<Rightarrow> job_db" where
  "set_owner k who db = db\<lparr>jd_owners := filter (\<lambda>(k', o'). k' \<noteq> k) (jd_owners db) @ [(k, who)]\<rparr>"

definition owner_of :: "job_db \<Rightarrow> ustr \<times> ustr \<Rightarrow> ustr option" where
  "owner_of db k = map_of (jd_owners db) k"

section \<open>Operations\<close>

text \<open>\<open>INSERT OR IGNORE\<close>.\<close>

fun enqueue_jobs :: "datetime \<Rightarrow> ustr \<Rightarrow> ustr \<Rightarrow> (ustr \<times> int) list \<Rightarrow> job_db \<Rightarrow> job_db \<times> nat" where
  "enqueue_jobs now agent ext [] db = (db, 0)"
| "enqueue_jobs now agent ext ((fid, occ) # items) db =
     (if (fid, ext) \<in> set (map jb_key (jd_jobs db)) then enqueue_jobs now agent ext items db
      else
        (let new = \<lparr>jb_fragment = fid, jb_extractor = ext, jb_agent = agent, jb_occurrence = occ,
               jb_status = JPending, jb_attempts = 0, jb_error = None, jb_created = now, jb_updated = now\<rparr>;
             (db', n) = enqueue_jobs now agent ext items (db\<lparr>jd_jobs := jd_jobs db @ [new]\<rparr>)
         in (db', n + 1)))"

definition abandoned :: "datetime \<Rightarrow> ustr \<Rightarrow> job \<Rightarrow> job" where
  "abandoned now reason j = j\<lparr>jb_status := JFailed,
     jb_error := (case jb_error j of None \<Rightarrow> Some reason | Some e \<Rightarrow> Some e), jb_updated := now\<rparr>"

definition abandon_job :: "datetime \<Rightarrow> ustr \<times> ustr \<Rightarrow> ustr \<Rightarrow> job_db \<Rightarrow> job_db" where
  "abandon_job now k reason db = drop_owner k (update_job k (abandoned now reason) db)"

definition DIED :: ustr where "DIED = u ''abandoned: worker process died mid-job''"
definition STOPPED :: ustr where "STOPPED = u ''abandoned: worker stopped mid-job''"

fun reclaim_loop :: "datetime \<Rightarrow> (ustr \<Rightarrow> bool) \<Rightarrow> int \<Rightarrow> (job \<times> ustr) list \<Rightarrow> job_db \<Rightarrow> job_db \<times> nat" where
  "reclaim_loop now dead mx [] db = (db, 0)"
| "reclaim_loop now dead mx ((j, who) # rs) db =
     (if \<not> dead who then reclaim_loop now dead mx rs db
      else if jb_attempts j \<ge> mx then reclaim_loop now dead mx rs (abandon_job now (jb_key j) DIED db)
      else
        (let (db', n) = reclaim_loop now dead mx rs
               (drop_owner (jb_key j) (update_job (jb_key j) (\<lambda>j. j\<lparr>jb_status := JPending\<rparr>) db))
         in (db', n + 1)))"

text \<open>\<open>_reclaim_dead\<close>: the running jobs joined with their owners.\<close>

definition reclaim_dead :: "datetime \<Rightarrow> (ustr \<Rightarrow> bool) \<Rightarrow> ustr option \<Rightarrow> int \<Rightarrow> job_db \<Rightarrow> job_db \<times> nat" where
  "reclaim_dead now dead ext mx db =
     reclaim_loop now dead mx
       (List.map_filter (\<lambda>j. if jb_status j = JRunning
             \<and> (case ext of None \<Rightarrow> True | Some e \<Rightarrow> e = [] \<or> jb_extractor j = e)
           then map_option (\<lambda>who. (j, who)) (owner_of db (jb_key j)) else None) (jd_jobs db)) db"

definition runnable :: "ustr \<Rightarrow> ustr option \<Rightarrow> datetime \<Rightarrow> datetime option \<Rightarrow> job \<Rightarrow> bool" where
  "runnable ext agent stale not_after j \<longleftrightarrow> jb_extractor j = ext
     \<and> (jb_status j = JPending \<and> (case not_after of None \<Rightarrow> True | Some t \<Rightarrow> jb_updated j \<le> t)
        \<or> jb_status j = JRunning \<and> jb_updated j < stale)
     \<and> (case agent of None \<Rightarrow> True | Some a \<Rightarrow> jb_agent j = a)"

definition started_job :: "datetime \<Rightarrow> job \<Rightarrow> job" where
  "started_job now j = j\<lparr>jb_status := JRunning, jb_attempts := jb_attempts j + 1, jb_updated := now\<rparr>"

definition exhausted :: "int \<Rightarrow> job \<Rightarrow> bool" where
  "exhausted mx j \<longleftrightarrow> jb_status j = JRunning \<and> jb_attempts j \<ge> mx"

fun claim_loop :: "datetime \<Rightarrow> ustr \<Rightarrow> int \<Rightarrow> job list \<Rightarrow> job_db \<Rightarrow> job_db \<times> job list" where
  "claim_loop now who mx [] db = (db, [])"
| "claim_loop now who mx (r # rs) db =
     (if exhausted mx r then claim_loop now who mx rs (abandon_job now (jb_key r) STOPPED db)
      else
        (let (db', cl) = claim_loop now who mx rs
               (set_owner (jb_key r) who (update_job (jb_key r) (started_job now) db))
         in (db', r\<lparr>jb_attempts := jb_attempts r + 1\<rparr> # cl)))"

definition claim_jobs ::
  "datetime \<Rightarrow> (ustr \<Rightarrow> bool) \<Rightarrow> datetime \<Rightarrow> ustr \<Rightarrow> ustr option \<Rightarrow> int \<Rightarrow> int \<Rightarrow> datetime option \<Rightarrow> ustr
     \<Rightarrow> job_db \<Rightarrow> job_db \<times> job list" where
  "claim_jobs now dead stale ext agent lmt mx not_after who db =
     (let db1 = fst (reclaim_dead now dead (Some ext) mx db)
      in claim_loop now who mx (sql_limit (Some lmt)
           (sort_key jb_created (filter (runnable ext agent stale not_after) (jd_jobs db1)))) db1)"

definition start_job :: "datetime \<Rightarrow> ustr \<Rightarrow> ustr \<Rightarrow> job_db \<Rightarrow> job_db" where
  "start_job now fid ext db = update_job (fid, ext)
     (\<lambda>j. if jb_status j = JRunning then j\<lparr>jb_updated := now\<rparr> else j) db"

fun release_jobs :: "bool \<Rightarrow> ustr \<Rightarrow> ustr \<Rightarrow> ustr list \<Rightarrow> job_db \<Rightarrow> job_db \<times> nat" where
  "release_jobs started who ext [] db = (db, 0)"
| "release_jobs started who ext (fid # fids) db =
     (if list_ex (\<lambda>j. jb_key j = (fid, ext) \<and> jb_status j = JRunning) (jd_jobs db)
         \<and> owner_of db (fid, ext) = Some who
      then (let (db', n) = release_jobs started who ext fids
              (drop_owner (fid, ext) (update_job (fid, ext)
                (\<lambda>j. if jb_status j = JRunning
                     then j\<lparr>jb_status := JPending, jb_attempts := max 0 (jb_attempts j - (if started then 0 else 1))\<rparr>
                     else j) db))
            in (db', n + 1))
      else release_jobs started who ext fids db)"

definition settle_job :: "datetime \<Rightarrow> ustr \<Rightarrow> ustr \<Rightarrow> job_status \<Rightarrow> ustr option \<Rightarrow> job_db \<Rightarrow> job_db" where
  "settle_job now fid ext st err db = drop_owner (fid, ext)
     (update_job (fid, ext) (\<lambda>j. j\<lparr>jb_status := st, jb_error := err, jb_updated := now\<rparr>) db)"

definition complete_job :: "datetime \<Rightarrow> ustr \<Rightarrow> ustr \<Rightarrow> job_db \<Rightarrow> job_db" where
  "complete_job now fid ext db = settle_job now fid ext JDone None db"

definition fail_job :: "datetime \<Rightarrow> ustr \<Rightarrow> ustr \<Rightarrow> ustr \<Rightarrow> int \<Rightarrow> job_db \<Rightarrow> job_db \<times> job_status" where
  "fail_job now fid ext err mx db =
     (let st = (case tbl_get jb_key (jd_jobs db) (fid, ext) of
             None \<Rightarrow> JFailed | Some j \<Rightarrow> if jb_attempts j \<ge> mx then JFailed else JPending)
      in (settle_job now fid ext st (Some (take 2000 err)) db, st))"

definition job_counts :: "job_db \<Rightarrow> ustr option \<Rightarrow> ustr option \<Rightarrow> (job_status \<times> nat) list" where
  "job_counts db agent ext = map (\<lambda>s. (s, length (filter (\<lambda>j. jb_status j = s
       \<and> (case agent of None \<Rightarrow> True | Some a \<Rightarrow> jb_agent j = a)
       \<and> (case ext of None \<Rightarrow> True | Some e \<Rightarrow> jb_extractor j = e)) (jd_jobs db)))) [JPending, JRunning, JDone, JFailed]"

definition list_jobs :: "job_db \<Rightarrow> job_status option \<Rightarrow> ustr option \<Rightarrow> int \<Rightarrow> job list" where
  "list_jobs db st agent lmt = sql_limit (Some lmt) (sort_key jb_created
     (filter (\<lambda>j. (case st of None \<Rightarrow> True | Some s \<Rightarrow> jb_status j = s)
        \<and> (case agent of None \<Rightarrow> True | Some a \<Rightarrow> jb_agent j = a)) (jd_jobs db)))"

section \<open>The ledger of extracted assertions\<close>

record ledger_row =
  lg_agent :: ustr
  lg_key :: ustr
  lg_fragment :: "ustr option"
  lg_fact :: "ustr option"
  lg_created :: datetime

definition lg_id :: "ledger_row \<Rightarrow> ustr \<times> ustr" where
  "lg_id l = (lg_agent l, lg_key l)"

text \<open>\<open>fact_set_extracted\<close>: one transaction; an error of \<open>fact_set\<close> rolls the ledger
  row back.\<close>

definition set_extracted ::
  "(ustr \<Rightarrow> ustr) \<Rightarrow> datetime \<Rightarrow> ustr \<Rightarrow> fact list \<times> ledger_row list \<Rightarrow> ustr \<Rightarrow> ustr \<Rightarrow> ustr \<Rightarrow> ustr \<Rightarrow> fact_value
     \<Rightarrow> datetime \<Rightarrow> ustr option \<Rightarrow> metadata \<Rightarrow> py_error + ((fact list \<times> ledger_row list) \<times> fact option)" where
  "set_extracted lower now fid st agent key subject attr value v source meta =
     (let (rows, ledger) = st
      in if (agent, key) \<in> set (map lg_id ledger) then Inr (st, None)
         else bind_res (fact_set lower now fid rows agent subject attr value v source meta False) (\<lambda>(rows', f).
           Inr ((rows', ledger @ [\<lparr>lg_agent = agent, lg_key = key, lg_fragment = source,
             lg_fact = map_option fc_id f, lg_created = now\<rparr>]), f)))"

section \<open>Closed forms\<close>

lemma jd_simps [simp]:
  "jd_jobs (drop_owner k db) = jd_jobs db" "jd_jobs (set_owner k who db) = jd_jobs db"
  "jd_jobs (update_job k g db) = map (\<lambda>j. if jb_key j = k then g j else j) (jd_jobs db)"
  "jd_owners (update_job k g db) = jd_owners db"
  by (simp_all add: drop_owner_def set_owner_def update_job_def tbl_update_def)

lemma owner_of_simps [simp]:
  "owner_of (update_job k g db) k' = owner_of db k'"
  "owner_of (drop_owner k db) k' = (if k' = k then None else owner_of db k')"
  "owner_of (set_owner k who db) k' = (if k' = k then Some who else owner_of db k')"
proof -
  have f: "map_of (filter (\<lambda>(x, y). x \<noteq> k) al) k' = (if k' = k then None else map_of al k')"
    for al :: "((ustr \<times> ustr) \<times> ustr) list"
    by (induction al) auto
  show "owner_of (drop_owner k db) k' = (if k' = k then None else owner_of db k')"
    by (simp add: owner_of_def drop_owner_def f)
  show "owner_of (set_owner k who db) k' = (if k' = k then Some who else owner_of db k')"
    by (simp add: owner_of_def set_owner_def f map_add_def split: option.splits)
qed (simp add: owner_of_def update_job_def)

lemma abandon_simps [simp]:
  "jd_jobs (abandon_job now k reason db) = map (\<lambda>j. if jb_key j = k then abandoned now reason j else j) (jd_jobs db)"
  "owner_of (abandon_job now k reason db) k' = (if k' = k then None else owner_of db k')"
  by (simp_all add: abandon_job_def)

lemma key_simps [simp]:
  "jb_key (abandoned now reason j) = jb_key j" "jb_key (started_job now j) = jb_key j"
  "jb_key (j\<lparr>jb_status := s\<rparr>) = jb_key j" "jb_key (j\<lparr>jb_updated := t\<rparr>) = jb_key j"
  "jb_key (j\<lparr>jb_attempts := n\<rparr>) = jb_key j" "jb_key (j\<lparr>jb_error := e\<rparr>) = jb_key j"
  by (simp_all add: jb_key_def abandoned_def started_job_def)

text \<open>What claiming does to one job, given whether its snapshot was exhausted.\<close>

lemma claim_loop_eq:
  assumes "distinct (map jb_key rs)"
  shows "jd_jobs (fst (claim_loop now who mx rs db)) = map (\<lambda>j.
       if jb_key j \<in> jb_key ` {r \<in> set rs. exhausted mx r} then abandoned now STOPPED j
       else if jb_key j \<in> jb_key ` set rs then started_job now j else j) (jd_jobs db)
     \<and> snd (claim_loop now who mx rs db) = map (\<lambda>r. r\<lparr>jb_attempts := jb_attempts r + 1\<rparr>) (filter (\<lambda>r. \<not> exhausted mx r) rs)
     \<and> owner_of (fst (claim_loop now who mx rs db)) k =
        (if k \<in> jb_key ` {r \<in> set rs. exhausted mx r} then None
         else if k \<in> jb_key ` set rs then Some who else owner_of db k)"
  using assms
proof (induction rs arbitrary: db)
  case (Cons r rs)
  have d: "distinct (map jb_key rs)" "jb_key r \<notin> jb_key ` set rs" using Cons.prems by auto
  then have n: "jb_key r \<notin> jb_key ` {r \<in> set rs. exhausted mx r}" by auto
  show ?case
  proof (cases "exhausted mx r")
    case True
    then have s: "{x \<in> set (r # rs). exhausted mx x} = insert r {x \<in> set rs. exhausted mx x}" by auto
    show ?thesis
      using Cons.IH[OF d(1), of "abandon_job now (jb_key r) STOPPED db"] True n d(2) unfolding s
      by (auto simp: comp_def intro!: map_cong)
  next
    case False
    then have s: "{x \<in> set (r # rs). exhausted mx x} = {x \<in> set rs. exhausted mx x}" by auto
    show ?thesis
      using Cons.IH[OF d(1), of "set_owner (jb_key r) who (update_job (jb_key r) (started_job now) db)"] False n d(2)
      unfolding s by (auto simp: comp_def Let_def split_def intro!: map_cong)
  qed
qed simp

lemma reclaim_loop_eq:
  assumes "distinct (map (jb_key \<circ> fst) rs)"
  shows "jd_jobs (fst (reclaim_loop now dead mx rs db)) = map (\<lambda>j.
       if jb_key j \<in> (jb_key \<circ> fst) ` {x \<in> set rs. dead (snd x) \<and> jb_attempts (fst x) \<ge> mx} then abandoned now DIED j
       else if jb_key j \<in> (jb_key \<circ> fst) ` {x \<in> set rs. dead (snd x)} then j\<lparr>jb_status := JPending\<rparr> else j) (jd_jobs db)"
  using assms
proof (induction rs arbitrary: db)
  case (Cons x rs)
  obtain r w where x: "x = (r, w)" by (cases x)
  let ?D = "(jb_key \<circ> fst) ` {x \<in> set rs. dead (snd x)}"
  let ?E = "(jb_key \<circ> fst) ` {x \<in> set rs. dead (snd x) \<and> jb_attempts (fst x) \<ge> mx}"
  have d: "distinct (map (jb_key \<circ> fst) rs)" and n: "jb_key r \<notin> ?D" "jb_key r \<notin> ?E"
    using Cons.prems by (auto simp: x image_iff comp_def)
  note IH = Cons.IH[OF d]
  consider "\<not> dead w" | "dead w" "jb_attempts r \<ge> mx" | "dead w" "\<not> jb_attempts r \<ge> mx" by blast
  then show ?case
  proof cases
    case 1
    then have "{y \<in> set (x # rs). dead (snd y)} = {y \<in> set rs. dead (snd y)}"
      "{y \<in> set (x # rs). dead (snd y) \<and> jb_attempts (fst y) \<ge> mx} = {y \<in> set rs. dead (snd y) \<and> jb_attempts (fst y) \<ge> mx}"
      by (auto simp: x)
    then show ?thesis using 1 IH[of db] by (simp add: x)
  next
    case 2
    then have s: "{y \<in> set (x # rs). dead (snd y)} = insert (r, w) {y \<in> set rs. dead (snd y)}"
      "{y \<in> set (x # rs). dead (snd y) \<and> jb_attempts (fst y) \<ge> mx} = insert (r, w) {y \<in> set rs. dead (snd y) \<and> jb_attempts (fst y) \<ge> mx}"
      by (auto simp: x)
    show ?thesis unfolding s using 2 n IH[of "abandon_job now (jb_key r) DIED db"]
      by (auto simp: x comp_def intro!: map_cong)
  next
    case 3
    then have s: "{y \<in> set (x # rs). dead (snd y)} = insert (r, w) {y \<in> set rs. dead (snd y)}"
      "{y \<in> set (x # rs). dead (snd y) \<and> jb_attempts (fst y) \<ge> mx} = {y \<in> set rs. dead (snd y) \<and> jb_attempts (fst y) \<ge> mx}"
      by (auto simp: x)
    show ?thesis unfolding s using 3 n
        IH[of "drop_owner (jb_key r) (update_job (jb_key r) (\<lambda>j. j\<lparr>jb_status := JPending\<rparr>) db)"]
      by (auto simp: x comp_def Let_def split_def intro!: map_cong)
  qed
qed simp

text \<open>One job before and after the reclaim of dead owners.\<close>

definition reclaimed_from :: "(ustr \<Rightarrow> bool) \<Rightarrow> datetime \<Rightarrow> int \<Rightarrow> job_db \<Rightarrow> job \<Rightarrow> job \<Rightarrow> bool" where
  "reclaimed_from dead now mx db j0 j \<longleftrightarrow> j = j0
     \<or> jb_status j0 = JRunning \<and> (\<exists>w. owner_of db (jb_key j0) = Some w \<and> dead w)
       \<and> (if jb_attempts j0 \<ge> mx then j = abandoned now DIED j0 else j = j0\<lparr>jb_status := JPending\<rparr>)"

lemma job_same_key: "tbl_ok jb_key js \<Longrightarrow> i \<in> set js \<Longrightarrow> j \<in> set js \<Longrightarrow> jb_key i = jb_key j \<Longrightarrow> i = j"
  by (auto simp: distinct_map dest: inj_onD)

lemma map_filter_join: "map (jb_key \<circ> fst) (List.map_filter (\<lambda>j. if q j then map_option (\<lambda>w. (j, w)) (h j) else None) js)
   = map jb_key (filter (\<lambda>j. q j \<and> h j \<noteq> None) js)"
  by (induction js) (auto simp: List.map_filter_def)

lemma set_map_filter_join: "set (List.map_filter (\<lambda>j. if q j then map_option (\<lambda>w. (j, w)) (h j) else None) js)
   = {(j, w). j \<in> set js \<and> q j \<and> h j = Some w}"
  by (induction js) (auto simp: List.map_filter_def split: option.splits)

lemma reclaim_dead_jobs:
  assumes "tbl_ok jb_key (jd_jobs db)"
  shows "\<exists>g. jd_jobs (fst (reclaim_dead now dead ext mx db)) = map g (jd_jobs db)
    \<and> (\<forall>j\<in>set (jd_jobs db). reclaimed_from dead now mx db j (g j)) \<and> (\<forall>j. jb_key (g j) = jb_key j)"
proof -
  let ?q = "\<lambda>j. jb_status j = JRunning \<and> (case ext of None \<Rightarrow> True | Some e \<Rightarrow> e = [] \<or> jb_extractor j = e)"
  let ?rs = "List.map_filter (\<lambda>j. if ?q j then map_option (\<lambda>who. (j, who)) (owner_of db (jb_key j)) else None) (jd_jobs db)"
  have d: "distinct (map (jb_key \<circ> fst) ?rs)"
    unfolding map_filter_join using assms by (simp add: distinct_map_filter)
  define g where "g j = (if jb_key j \<in> (jb_key \<circ> fst) ` {x \<in> set ?rs. dead (snd x) \<and> jb_attempts (fst x) \<ge> mx} then abandoned now DIED j
       else if jb_key j \<in> (jb_key \<circ> fst) ` {x \<in> set ?rs. dead (snd x)} then j\<lparr>jb_status := JPending\<rparr> else j)" for j
  have e: "jd_jobs (fst (reclaim_dead now dead ext mx db)) = map g (jd_jobs db)"
    unfolding reclaim_dead_def g_def by (rule reclaim_loop_eq[OF d])
  have "reclaimed_from dead now mx db j (g j)" if j: "j \<in> set (jd_jobs db)" for j
  proof -
    have S: "set ?rs = {(j, w). j \<in> set (jd_jobs db) \<and> ?q j \<and> owner_of db (jb_key j) = Some w}"
      by (rule set_map_filter_join)
    have in1: "jb_key j \<in> (jb_key \<circ> fst) ` {x \<in> set ?rs. dead (snd x) \<and> R (fst x)}
        \<longleftrightarrow> ?q j \<and> (\<exists>w. owner_of db (jb_key j) = Some w \<and> dead w) \<and> R j" for R
    proof
      assume "jb_key j \<in> (jb_key \<circ> fst) ` {x \<in> set ?rs. dead (snd x) \<and> R (fst x)}"
      then obtain i w where i: "i \<in> set (jd_jobs db)" "?q i" "owner_of db (jb_key i) = Some w" "dead w" "R i"
        "jb_key j = jb_key i" unfolding S by auto
      have "i = j" by (rule job_same_key[OF assms i(1) j i(6)[symmetric]])
      with i show "?q j \<and> (\<exists>w. owner_of db (jb_key j) = Some w \<and> dead w) \<and> R j" by blast
    next
      assume "?q j \<and> (\<exists>w. owner_of db (jb_key j) = Some w \<and> dead w) \<and> R j"
      then obtain w where "?q j" "owner_of db (jb_key j) = Some w" "dead w" "R j" by blast
      then have "(j, w) \<in> {x \<in> set ?rs. dead (snd x) \<and> R (fst x)}" unfolding S using j by simp
      then show "jb_key j \<in> (jb_key \<circ> fst) ` {x \<in> set ?rs. dead (snd x) \<and> R (fst x)}"
        by (rule image_eqI[rotated]) simp
    qed
    have in2: "jb_key j \<in> (jb_key \<circ> fst) ` {x \<in> set ?rs. dead (snd x)}
        \<longleftrightarrow> ?q j \<and> (\<exists>w. owner_of db (jb_key j) = Some w \<and> dead w)"
      using in1[of "\<lambda>_. True"] by simp
    show ?thesis unfolding g_def reclaimed_from_def in1[of "\<lambda>j. jb_attempts j \<ge> mx"] in2 by auto
  qed
  moreover have "jb_key (g j) = jb_key j" for j by (simp add: g_def)
  ultimately show ?thesis using e by blast
qed

lemma sql_limit_distinct: "distinct (map f xs) \<Longrightarrow> distinct (map f (sql_limit n xs))"
  by (auto simp: sql_limit_def take_map[symmetric] distinct_take split: option.splits)

section \<open>Properties\<close>

text \<open>C12: a claim is exclusive and bounded: it returns at most \<open>limit\<close> distinct jobs of the
  extractor; each of them was free when it was claimed (pending, or running with an owner process
  that is dead, or running with an expired lease), is now running under the claiming owner, and
  counts one more attempt. A job that another live process holds under a lease that has not expired
  is not handed out.\<close>

theorem claim_is_exclusive:
  assumes "tbl_ok jb_key (jd_jobs db)" "0 \<le> lmt"
    and "claim_jobs now dead stale ext agent lmt mx not_after who db = (db', cl)"
  shows "length cl \<le> nat lmt \<and> distinct (map jb_key cl)
    \<and> (\<forall>c\<in>set cl. owner_of db' (jb_key c) = Some who
        \<and> (\<exists>j\<in>set (jd_jobs db'). jb_key j = jb_key c \<and> jb_status j = JRunning \<and> jb_attempts j = jb_attempts c)
        \<and> (\<exists>j\<in>set (jd_jobs db). jb_key j = jb_key c \<and> jb_extractor j = ext \<and> jb_attempts c = jb_attempts j + 1
             \<and> (jb_status j = JPending
                \<or> jb_status j = JRunning \<and> (jb_updated j < stale \<or> (\<exists>w. owner_of db (jb_key j) = Some w \<and> dead w)))))"
proof -
  let ?db1 = "fst (reclaim_dead now dead (Some ext) mx db)"
  let ?rs = "sql_limit (Some lmt) (sort_key jb_created (filter (runnable ext agent stale not_after) (jd_jobs ?db1)))"
  obtain g where g: "jd_jobs ?db1 = map g (jd_jobs db)"
    "\<And>j. j \<in> set (jd_jobs db) \<Longrightarrow> reclaimed_from dead now mx db j (g j)" "\<And>j. jb_key (g j) = jb_key j"
    using reclaim_dead_jobs[OF assms(1), of now dead "Some ext" mx] by blast
  have ok1: "tbl_ok jb_key (jd_jobs ?db1)" using assms(1) by (simp add: g(1,3) comp_def)
  then have "distinct (map jb_key (sort_key jb_created (filter (runnable ext agent stale not_after) (jd_jobs ?db1))))"
    by (simp add: distinct_map inj_on_def)
  then have d: "distinct (map jb_key ?rs)" by (rule sql_limit_distinct)
  have sub: "r \<in> set ?rs \<Longrightarrow> r \<in> set (jd_jobs ?db1) \<and> runnable ext agent stale not_after r" for r
    using set_sql_limit[of "Some lmt"] by fastforce
  have cl: "cl = map (\<lambda>r. r\<lparr>jb_attempts := jb_attempts r + 1\<rparr>) (filter (\<lambda>r. \<not> exhausted mx r) ?rs)"
    and db': "db' = fst (claim_loop now who mx ?rs ?db1)"
    using assms(3) claim_loop_eq[OF d, of now who mx ?db1] by (auto simp: claim_jobs_def Let_def)
  note eq = claim_loop_eq[OF d, of now who mx ?db1, folded db']
  have "length cl \<le> length ?rs" by (simp add: cl)
  also have "\<dots> \<le> nat lmt" using assms(2) by (simp add: sql_limit_def)
  finally have len: "length cl \<le> nat lmt" .
  have dist: "distinct (map jb_key cl)" using d by (simp add: cl comp_def distinct_map_filter)
  show ?thesis
  proof (intro conjI len dist ballI)
    fix c assume "c \<in> set cl"
    then obtain r where r: "r \<in> set ?rs" "\<not> exhausted mx r" "c = r\<lparr>jb_attempts := jb_attempts r + 1\<rparr>"
      by (auto simp: cl)
    then have key: "jb_key c = jb_key r" by simp
    have nin: "jb_key r \<notin> jb_key ` {x \<in> set ?rs. exhausted mx x}"
      using r(1,2) d by (auto simp: distinct_map dest: inj_onD)
    show "owner_of db' (jb_key c) = Some who" using eq nin r(1) by (simp add: key)
    have "started_job now r \<in> set (jd_jobs db')"
      using eq nin r(1) sub[OF r(1)] by (auto simp: image_iff intro!: bexI[of _ r])
    then show "\<exists>j\<in>set (jd_jobs db'). jb_key j = jb_key c \<and> jb_status j = JRunning \<and> jb_attempts j = jb_attempts c"
      by (intro bexI[of _ "started_job now r"]) (simp_all add: key started_job_def r(3))
    from sub[OF r(1)] g(1) obtain j where j: "j \<in> set (jd_jobs db)" "r = g j" by auto
    note rf = g(2)[OF j(1), folded j(2)]
    have run: "runnable ext agent stale not_after r" using sub[OF r(1)] by blast
    have "jb_key j = jb_key c \<and> jb_extractor j = ext \<and> jb_attempts c = jb_attempts j + 1
             \<and> (jb_status j = JPending
                \<or> jb_status j = JRunning \<and> (jb_updated j < stale \<or> (\<exists>w. owner_of db (jb_key j) = Some w \<and> dead w)))"
      using rf run r(3) g(3)[of j] j(2)
      by (auto simp: reclaimed_from_def runnable_def abandoned_def key split: if_splits)
    with j(1) show "\<exists>j\<in>set (jd_jobs db). jb_key j = jb_key c \<and> jb_extractor j = ext \<and> jb_attempts c = jb_attempts j + 1
             \<and> (jb_status j = JPending
                \<or> jb_status j = JRunning \<and> (jb_updated j < stale \<or> (\<exists>w. owner_of db (jb_key j) = Some w \<and> dead w)))"
      by blast
  qed
qed

section \<open>Attempts\<close>

text \<open>For one \<open>max_attempts\<close>: a waiting job still has an attempt left, and no job was ever
  claimed more often than allowed.\<close>

definition job_within :: "int \<Rightarrow> job \<Rightarrow> bool" where
  "job_within mx j \<longleftrightarrow> 0 \<le> jb_attempts j \<and> jb_attempts j \<le> mx
     \<and> (if jb_status j = JPending then jb_attempts j < mx else True)"

definition jobs_ok :: "int \<Rightarrow> job_db \<Rightarrow> bool" where
  "jobs_ok mx db \<longleftrightarrow> tbl_ok jb_key (jd_jobs db) \<and> list_all (job_within mx) (jd_jobs db)"

text \<open>The queue in use, with releases of jobs that were not started.\<close>

inductive jobs_step :: "int \<Rightarrow> job_db \<Rightarrow> job_db \<Rightarrow> bool" for mx where
  jstep_enqueue: "jobs_step mx db (fst (enqueue_jobs now agent ext items db))"
| jstep_claim: "jobs_step mx db (fst (claim_jobs now dead stale ext agent' lmt mx not_after who db))"
| jstep_reclaim: "jobs_step mx db (fst (reclaim_dead now dead ext' mx db))"
| jstep_start: "jobs_step mx db (start_job now fid ext db)"
| jstep_release: "jobs_step mx db (fst (release_jobs False who ext fids db))"
| jstep_complete: "jobs_step mx db (complete_job now fid ext db)"
| jstep_fail: "jobs_step mx db (fst (fail_job now fid ext err mx db))"

inductive jobs_reachable :: "int \<Rightarrow> job_db \<Rightarrow> bool" for mx where
  jobs_empty: "jobs_reachable mx \<lparr>jd_jobs = [], jd_owners = []\<rparr>"
| jobs_next: "jobs_reachable mx db \<Longrightarrow> jobs_step mx db db' \<Longrightarrow> jobs_reachable mx db'"

lemma jobs_ok_map:
  assumes "jobs_ok mx db" "jd_jobs db' = map g (jd_jobs db)"
    and "\<And>j. jb_key (g j) = jb_key j" "\<And>j. j \<in> set (jd_jobs db) \<Longrightarrow> job_within mx j \<Longrightarrow> job_within mx (g j)"
  shows "jobs_ok mx db'"
  using assms by (auto simp: jobs_ok_def list_all_iff comp_def)

lemma enqueue_ok: "0 < mx \<Longrightarrow> jobs_ok mx db \<Longrightarrow> jobs_ok mx (fst (enqueue_jobs now agent ext items db))"
proof (induction now agent ext items db rule: enqueue_jobs.induct)
  case (2 now agent ext fid occ items db)
  show ?case
  proof (cases "(fid, ext) \<in> set (map jb_key (jd_jobs db))")
    case True
    with 2 show ?thesis by simp
  next
    case False
    let ?new = "\<lparr>jb_fragment = fid, jb_extractor = ext, jb_agent = agent, jb_occurrence = occ,
               jb_status = JPending, jb_attempts = 0, jb_error = None, jb_created = now, jb_updated = now\<rparr>"
    have "jobs_ok mx (db\<lparr>jd_jobs := jd_jobs db @ [?new]\<rparr>)"
      using "2.prems" False by (auto simp: jobs_ok_def job_within_def jb_key_def)
    from "2.IH"(2)[OF False refl "2.prems"(1) this] False show ?thesis by (simp add: Let_def split_def)
  qed
qed simp

lemma reclaim_ok: "jobs_ok mx db \<Longrightarrow> jobs_ok mx (fst (reclaim_dead now dead ext mx db))"
proof -
  assume ok: "jobs_ok mx db"
  then obtain g where g: "jd_jobs (fst (reclaim_dead now dead ext mx db)) = map g (jd_jobs db)"
    "\<And>j. j \<in> set (jd_jobs db) \<Longrightarrow> reclaimed_from dead now mx db j (g j)" "\<And>j. jb_key (g j) = jb_key j"
    using reclaim_dead_jobs[of db now dead ext mx] by (auto simp: jobs_ok_def)
  show ?thesis
  proof (rule jobs_ok_map[OF ok g(1,3)])
    fix j assume j: "j \<in> set (jd_jobs db)" "job_within mx j"
    from g(2)[OF j(1)] consider "g j = j" | "jb_attempts j \<ge> mx" "g j = abandoned now DIED j"
      | "\<not> jb_attempts j \<ge> mx" "g j = j\<lparr>jb_status := JPending\<rparr>"
      unfolding reclaimed_from_def by (metis (full_types))
    then show "job_within mx (g j)"
      using j(2) by cases (simp_all add: job_within_def abandoned_def)
  qed
qed

lemma claim_ok:
  assumes ok: "jobs_ok mx db"
  shows "jobs_ok mx (fst (claim_jobs now dead stale ext agent lmt mx not_after who db))"
proof -
  let ?db1 = "fst (reclaim_dead now dead (Some ext) mx db)"
  let ?rs = "sql_limit (Some lmt) (sort_key jb_created (filter (runnable ext agent stale not_after) (jd_jobs ?db1)))"
  have ok1: "jobs_ok mx ?db1" by (rule reclaim_ok[OF ok])
  then have "distinct (map jb_key (sort_key jb_created (filter (runnable ext agent stale not_after) (jd_jobs ?db1))))"
    by (simp add: distinct_map inj_on_def jobs_ok_def)
  then have d: "distinct (map jb_key ?rs)" by (rule sql_limit_distinct)
  have sub: "r \<in> set ?rs \<Longrightarrow> r \<in> set (jd_jobs ?db1) \<and> runnable ext agent stale not_after r" for r
    using set_sql_limit[of "Some lmt"] by fastforce
  define g where "g j = (if jb_key j \<in> jb_key ` {r \<in> set ?rs. exhausted mx r} then abandoned now STOPPED j
       else if jb_key j \<in> jb_key ` set ?rs then started_job now j else j)" for j
  have "jd_jobs (fst (claim_jobs now dead stale ext agent lmt mx not_after who db)) = map g (jd_jobs ?db1)"
    using claim_loop_eq[OF d, of now who mx ?db1] by (simp add: claim_jobs_def Let_def g_def)
  then show ?thesis
  proof (rule jobs_ok_map[OF ok1])
    fix j show "jb_key (g j) = jb_key j" by (simp add: g_def)
  next
    fix j assume j: "j \<in> set (jd_jobs ?db1)" "job_within mx j"
    have same: "r = j" if "r \<in> set ?rs" "jb_key r = jb_key j" for r
    proof (rule job_same_key)
      show "tbl_ok jb_key (jd_jobs ?db1)" using ok1 by (simp add: jobs_ok_def)
      show "r \<in> set (jd_jobs ?db1)" using sub[OF that(1)] by blast
    qed (fact j(1) that(2))+
    show "job_within mx (g j)"
    proof (cases "jb_key j \<in> jb_key ` set ?rs")
      case True
      then obtain r where r: "r \<in> set ?rs" "jb_key j = jb_key r" by blast
      have rj: "r = j" by (rule same[OF r(1) r(2)[symmetric]])
      then have run: "jb_status j = JPending \<or> jb_status j = JRunning"
        using sub[OF r(1)] by (auto simp: runnable_def)
      have "jb_key j \<in> jb_key ` {r \<in> set ?rs. exhausted mx r} \<longleftrightarrow> exhausted mx j"
      proof
        assume "jb_key j \<in> jb_key ` {r \<in> set ?rs. exhausted mx r}"
        then obtain q where "q \<in> set ?rs" "exhausted mx q" "jb_key j = jb_key q" by blast
        with same[of q] show "exhausted mx j" by simp
      next
        assume "exhausted mx j"
        with r(1) rj show "jb_key j \<in> jb_key ` {r \<in> set ?rs. exhausted mx r}" by blast
      qed
      then have "g j = (if exhausted mx j then abandoned now STOPPED j else started_job now j)"
        using True by (simp only: g_def if_True)
      with j(2) run show ?thesis
        by (auto simp: job_within_def exhausted_def abandoned_def started_job_def split: if_splits)
    next
      case False
      then have "jb_key j \<notin> jb_key ` {r \<in> set ?rs. exhausted mx r}" by blast
      with False have "g j = j" by (simp only: g_def if_False)
      with j(2) show ?thesis by simp
    qed
  qed
qed

lemma update_job_ok:
  assumes "jobs_ok mx db" "\<And>j. jb_key (g j) = jb_key j"
    and "\<And>j. j \<in> set (jd_jobs db) \<Longrightarrow> jb_key j = k \<Longrightarrow> job_within mx j \<Longrightarrow> job_within mx (g j)"
  shows "jobs_ok mx (update_job k g db)"
  by (rule jobs_ok_map[OF assms(1), of _ "\<lambda>j. if jb_key j = k then g j else j"]) (use assms(2,3) in auto)

lemma drop_owner_ok: "jobs_ok mx (drop_owner k db) = jobs_ok mx db"
  by (simp add: jobs_ok_def)

lemma release_ok: "0 < mx \<Longrightarrow> jobs_ok mx db \<Longrightarrow> jobs_ok mx (fst (release_jobs False who ext fids db))"
proof (induction fids arbitrary: db)
  case (Cons fid fids)
  let ?db1 = "drop_owner (fid, ext) (update_job (fid, ext) (\<lambda>j. if jb_status j = JRunning
      then j\<lparr>jb_status := JPending, jb_attempts := max 0 (jb_attempts j - (if False then 0 else 1))\<rparr> else j) db)"
  have "jobs_ok mx ?db1"
    unfolding drop_owner_ok
    by (rule update_job_ok[OF Cons.prems(2)]) (use Cons.prems(1) in \<open>auto simp: job_within_def\<close>)
  from Cons.IH[OF Cons.prems(1) this] Cons.IH[OF Cons.prems] show ?case by (simp add: Let_def split_def)
qed simp

lemma settle_ok:
  assumes "jobs_ok mx db" "\<And>j. j \<in> set (jd_jobs db) \<Longrightarrow> jb_key j = (fid, ext) \<Longrightarrow> st = JPending \<Longrightarrow> jb_attempts j < mx"
  shows "jobs_ok mx (settle_job now fid ext st err db)"
  unfolding settle_job_def drop_owner_ok
  by (rule update_job_ok[OF assms(1)]) (use assms(2) in \<open>auto simp: job_within_def\<close>)

lemma jobs_step_ok:
  assumes "jobs_step mx db db'" "0 < mx" "jobs_ok mx db"
  shows "jobs_ok mx db'"
  using assms
proof (induction rule: jobs_step.induct)
  case (jstep_start db now fid ext)
  then show ?case unfolding start_job_def by (intro update_job_ok) (auto simp: job_within_def)
next
  case (jstep_complete db now fid ext)
  then show ?case unfolding complete_job_def by (intro settle_ok) auto
next
  case (jstep_fail db now fid ext err)
  then have "tbl_ok jb_key (jd_jobs db)" by (simp add: jobs_ok_def)
  from jstep_fail show ?case
    unfolding fail_job_def Let_def fst_conv
    by (intro settle_ok) (auto simp: tbl_get_Some[OF \<open>tbl_ok jb_key (jd_jobs db)\<close>, THEN iffD2] split: if_splits)
qed (auto intro: enqueue_ok claim_ok reclaim_ok release_ok)

text \<open>Retries are bounded: as long as running jobs are settled or released unstarted, a job
  is never claimed more than \<open>max_attempts\<close> times, a pending job always has an attempt left,
  and there is one job per (fragment, extractor).\<close>

theorem attempts_are_bounded:
  assumes "jobs_reachable mx db" "0 < mx"
  shows "tbl_ok jb_key (jd_jobs db) \<and> list_all (job_within mx) (jd_jobs db)"
proof -
  have "jobs_ok mx db" using assms(1)
  proof (induction rule: jobs_reachable.induct)
    case jobs_empty
    show ?case by (simp add: jobs_ok_def)
  next
    case (jobs_next db db')
    show ?case by (rule jobs_step_ok[OF jobs_next.hyps(2) assms(2) jobs_next.IH])
  qed
  then show ?thesis by (simp add: jobs_ok_def)
qed

lemma enqueue_keys:
  "set (map jb_key (jd_jobs (fst (enqueue_jobs now agent ext items db))))
     = set (map jb_key (jd_jobs db)) \<union> (\<lambda>(fid, occ). (fid, ext)) ` set items"
proof (induction now agent ext items db rule: enqueue_jobs.induct)
  case (2 now agent ext fid occ items db)
  then show ?case by (cases "(fid, ext) \<in> set (map jb_key (jd_jobs db))") (auto simp: Let_def split_def jb_key_def)
qed simp

lemma enqueue_known:
  "(\<lambda>(fid, occ). (fid, ext)) ` set items \<subseteq> set (map jb_key (jd_jobs db)) \<Longrightarrow> enqueue_jobs now agent ext items db = (db, 0)"
proof (induction now agent ext items db rule: enqueue_jobs.induct)
  case (2 now agent ext fid occ items db)
  have known: "(fid, ext) \<in> set (map jb_key (jd_jobs db))" using "2.prems" by auto
  then show ?case using "2.IH"(1)[OF known] "2.prems" by (simp del: set_map)
qed simp

text \<open>C13: enqueueing is idempotent and an assertion is recorded once: queueing the same memories
  again, at any time and whatever happened to the earlier jobs, adds no job and changes nothing; and
  after an extracted assertion was recorded under a key, every later attempt under that key is
  refused without touching the facts.\<close>

theorem extraction_is_idempotent:
  "enqueue_jobs now2 agent2 ext items (fst (enqueue_jobs now1 agent1 ext items db))
     = (fst (enqueue_jobs now1 agent1 ext items db), 0)
   \<and> (case set_extracted lower now1 fid1 st agent key subject attr value v source meta of
        Inl e \<Rightarrow> True
      | Inr (st', f) \<Rightarrow> set_extracted lower now2 fid2 st' agent key subject2 attr2 value2 v2 source2 meta2 = Inr (st', None))"
proof
  show "enqueue_jobs now2 agent2 ext items (fst (enqueue_jobs now1 agent1 ext items db))
     = (fst (enqueue_jobs now1 agent1 ext items db), 0)"
    by (rule enqueue_known) (simp only: enqueue_keys Un_upper2)
  obtain rows ledger where st: "st = (rows, ledger)" by (cases st)
  show "case set_extracted lower now1 fid1 st agent key subject attr value v source meta of
        Inl e \<Rightarrow> True
      | Inr (st', f) \<Rightarrow> set_extracted lower now2 fid2 st' agent key subject2 attr2 value2 v2 source2 meta2 = Inr (st', None)"
  proof (cases "(agent, key) \<in> set (map lg_id ledger)")
    case True
    then show ?thesis by (simp add: set_extracted_def st)
  next
    case False
    then show ?thesis
      by (cases "fact_set lower now1 fid1 rows agent subject attr value v source meta False")
         (auto simp: set_extracted_def st lg_id_def split_def)
  qed
qed

text \<open>A job that hangs and is given back as started is pending again whatever its attempts are,
  and a pending job is claimed without looking at them: it never fails.\<close>

lemma hanging_job_is_claimed_forever:
  assumes "jd_jobs db = [j]" "jd_owners db = []" "jb_status j = JPending"
  shows "\<exists>db2. fst (release_jobs True who (jb_extractor j) [jb_fragment j]
        (fst (claim_jobs now dead stale (jb_extractor j) None 4 mx None who db))) = db2
     \<and> jd_jobs db2 = [j\<lparr>jb_attempts := max 0 (jb_attempts j + 1), jb_updated := now\<rparr>] \<and> jd_owners db2 = []"
proof -
  have "reclaim_dead now dead (Some (jb_extractor j)) mx db = (db, 0)"
    using assms by (simp add: reclaim_dead_def List.map_filter_def)
  then have "fst (claim_jobs now dead stale (jb_extractor j) None 4 mx None who db)
      = set_owner (jb_key j) who (update_job (jb_key j) (started_job now) db)"
    using assms by (simp add: claim_jobs_def runnable_def sql_limit_def exhausted_def)
  then show ?thesis
    using assms by (simp add: started_job_def owner_of_def set_owner_def drop_owner_def update_job_def
        tbl_update_def jb_key_def)
qed

section \<open>Witnesses\<close>

definition wit_queue :: job_db where
  "wit_queue = fst (enqueue_jobs (DT 2026 1 1 0 0 0 0) (u ''a'') (u ''llm'') [(u ''f1'', 0), (u ''f2'', 0)]
     \<lparr>jd_jobs = [], jd_owners = []\<rparr>)"

lemma attempts_are_bounded_witness:
  "list_all (job_within 3) (jd_jobs wit_queue) \<and> length (jd_jobs wit_queue) = 2"
proof -
  have "jobs_reachable 3 wit_queue" unfolding wit_queue_def by (rule jobs_next[OF jobs_empty jstep_enqueue])
  from attempts_are_bounded[OF this] show ?thesis by (simp add: wit_queue_def Let_def jb_key_def)
qed

lemma claim_is_exclusive_witness:
  "\<exists>db' cl. claim_jobs (DT 2026 1 2 0 0 0 0) (\<lambda>w. False) (DT 2026 1 1 23 0 0 0) (u ''llm'') None 1 3 None (u ''w1'') wit_queue = (db', cl)
     \<and> length cl \<le> 1 \<and> distinct (map jb_key cl)"
proof -
  obtain db' cl where c: "claim_jobs (DT 2026 1 2 0 0 0 0) (\<lambda>w. False) (DT 2026 1 1 23 0 0 0) (u ''llm'') None 1 3 None (u ''w1'') wit_queue = (db', cl)"
    by (cases "claim_jobs (DT 2026 1 2 0 0 0 0) (\<lambda>w. False) (DT 2026 1 1 23 0 0 0) (u ''llm'') None 1 3 None (u ''w1'') wit_queue")
  have "tbl_ok jb_key (jd_jobs wit_queue)" by (simp add: wit_queue_def Let_def jb_key_def)
  from claim_is_exclusive[OF this _ c] c show ?thesis by simp
qed

end
