(* ===== verification/History.thy ===== *)
theory History
  imports Py_Text "HOL-Library.Sublist"
begin

text \<open>
  The sliding conversation window (\<^verbatim>\<open>context/history.py\<close>): which messages of a chat the model sees
  and which ones memory must hold instead. A message is a record of what the code reads of it; a
  value that is only tested for truth is a bool, and the content of a message that is neither text
  nor a list is its \<open>str()\<close>. The JSON text and the hash of a message key are an argument.
\<close>

section \<open>Messages\<close>

datatype part = PartText ustr | PartOther

datatype msg_content = ContentNone | ContentText ustr | ContentParts "part list" | ContentOther ustr

record message =
  ms_dict :: bool
  ms_role :: "ustr option"
  ms_type :: "ustr option"
  ms_content :: msg_content
  ms_tool_calls :: bool
  ms_function_call :: bool
  ms_status :: "ustr option"
  ms_name :: "ustr option"
  ms_id :: "ustr option"
  ms_call_id :: "ustr option"

datatype role = RUser | RAssistant | RTool | RSystem | ROther ustr

definition role_aliases :: "(ustr \<times> role) list" where
  "role_aliases = [(u ''human'', RUser), (u ''user'', RUser), (u ''ai'', RAssistant), (u ''assistant'', RAssistant),
     (u ''tool'', RTool), (u ''function'', RTool), (u ''system'', RSystem), (u ''developer'', RSystem)]"

text \<open>\<open>a or b\<close> on optional texts: the empty text is as good as none.\<close>

definition or_text :: "ustr option \<Rightarrow> ustr option \<Rightarrow> ustr option" where
  "or_text a b = (if a = None \<or> a = Some [] then b else a)"

definition message_role :: "message \<Rightarrow> role" where
  "message_role m =
     (let raw = (case or_text (or_text (if ms_dict m then ms_role m else None) (ms_type m)) (ms_role m) of
          None \<Rightarrow> [] | Some r \<Rightarrow> r)
      in case map_of role_aliases raw of Some r \<Rightarrow> r | None \<Rightarrow> ROther raw)"

definition message_text :: "message \<Rightarrow> ustr" where
  "message_text m = (case ms_content m of
       ContentNone \<Rightarrow> []
     | ContentText s \<Rightarrow> s
     | ContentParts ps \<Rightarrow> py_join [10]
         (List.map_filter (\<lambda>p. case p of PartText s \<Rightarrow> if s = [] then None else Some s | PartOther \<Rightarrow> None) ps)
     | ContentOther s \<Rightarrow> s)"

definition has_tool_calls :: "message \<Rightarrow> bool" where
  "has_tool_calls m \<longleftrightarrow> ms_tool_calls m \<or> ms_function_call m"

definition message_status :: "message \<Rightarrow> ustr" where
  "message_status m = (case ms_status m of None \<Rightarrow> [] | Some s \<Rightarrow> s)"

definition turn_text :: "nat \<Rightarrow> message \<Rightarrow> ustr" where
  "turn_text limit m =
     (let txt0 = take limit (py_join [32] (py_split (message_text m)))
      in if txt0 = [] then []
         else case message_role m of
           RUser \<Rightarrow> u ''User said: '' @ txt0
         | RAssistant \<Rightarrow> u ''Assistant replied: '' @ txt0
         | RTool \<Rightarrow> u ''Tool ['' @ (case or_text (ms_name m) (Some (u ''tool'')) of None \<Rightarrow> [] | Some n \<Rightarrow> n) @ u ''] ''
             @ (if message_status m = u ''error'' then u ''failed'' else u ''returned'') @ u '': '' @ txt0
         | RSystem \<Rightarrow> txt0
         | ROther r \<Rightarrow> txt0)"

text \<open>\<open>message_key\<close>; \<open>digest\<close> is the hash of the JSON text of the four values.\<close>

definition message_key ::
  "(role \<times> ustr \<times> ustr option \<times> ustr option \<Rightarrow> ustr) \<Rightarrow> message \<Rightarrow> ustr" where
  "message_key digest m =
     (let ident = (if ms_call_id m \<noteq> None \<and> ms_call_id m \<noteq> Some [] \<and> message_role m = RTool then None else ms_id m)
      in digest (message_role m, message_text m, ident, ms_call_id m))"

section \<open>Splitting\<close>

abbreviation is_tool :: "message list \<Rightarrow> nat \<Rightarrow> bool" where
  "is_tool items i \<equiv> message_role (items ! i) = RTool"

definition body_of :: "message list \<Rightarrow> nat list" where
  "body_of items = filter (\<lambda>i. message_role (items ! i) \<noteq> RSystem) [0..<length items]"

text \<open>The window never starts inside a tool exchange.\<close>

fun walk_back :: "message list \<Rightarrow> nat list \<Rightarrow> nat \<Rightarrow> nat" where
  "walk_back items body 0 = 0"
| "walk_back items body (Suc s) = (if is_tool items (body ! Suc s) then walk_back items body s else Suc s)"

definition window_of :: "message list \<Rightarrow> nat list \<Rightarrow> nat \<Rightarrow> nat list" where
  "window_of items body keep_last =
     (let window = dropWhile (is_tool items) (drop (walk_back items body (length body - keep_last)) body);
          users = filter (\<lambda>i. message_role (items ! i) = RUser) body
      in if users \<noteq> [] \<and> last users \<notin> set window then last users # window else window)"

definition kept_indices :: "message list \<Rightarrow> nat \<Rightarrow> nat set" where
  "kept_indices items keep_last =
     (let body = body_of items
      in if length body \<le> keep_last then {0..<length items}
         else set (window_of items body keep_last) \<union> {i. i < length items \<and> message_role (items ! i) = RSystem})"

definition split_history :: "message list \<Rightarrow> int \<Rightarrow> py_error + (message list \<times> message list)" where
  "split_history items keep_last =
     (if keep_last < 1 then Inl ValueError
      else (let body = body_of items; keep = kept_indices items (nat keep_last) in
        if length body \<le> nat keep_last then Inr (items, [])
        else Inr (map ((!) items) (filter (\<lambda>i. i \<in> keep) [0..<length items]),
                  map ((!) items) (filter (\<lambda>i. i \<notin> keep) body))))"

section \<open>The window\<close>

lemma set_body_of: "i \<in> set (body_of items) \<longleftrightarrow> i < length items \<and> message_role (items ! i) \<noteq> RSystem"
  by (auto simp: body_of_def)

lemma sorted_body_of: "sorted_wrt (<) (body_of items)"
  by (simp add: body_of_def sorted_wrt_filter)

lemma walk_back_le: "walk_back items body s \<le> s"
  by (induction items body s rule: walk_back.induct) (auto simp: le_SucI)

text \<open>The window is a part of the body from some place on that starts with no tool result.\<close>

lemma window_suffix:
  obtains s where "dropWhile (is_tool items) (drop k body) = drop s body"
    "s < length body \<Longrightarrow> \<not> is_tool items (body ! s)"
proof -
  let ?t = "length (takeWhile (is_tool items) (drop k body))"
  have d: "dropWhile (is_tool items) (drop k body) = drop (k + ?t) body"
    by (simp add: dropWhile_eq_drop add.commute)
  moreover have "\<not> is_tool items (body ! (k + ?t))" if "k + ?t < length body"
  proof -
    have "dropWhile (is_tool items) (drop k body) \<noteq> []" using that d by simp
    then have "\<not> is_tool items (hd (dropWhile (is_tool items) (drop k body)))" by (rule hd_dropWhile)
    then show ?thesis using that d by (simp add: hd_drop_conv_nth)
  qed
  ultimately show ?thesis using that by blast
qed

text \<open>Between two neighbours of the body there are system messages only.\<close>

lemma body_gap:
  assumes "body_of items ! p < k" "k < length items" "p < length (body_of items)"
    "\<And>q. p < q \<Longrightarrow> q < length (body_of items) \<Longrightarrow> k < body_of items ! q"
  shows "message_role (items ! k) = RSystem"
proof (rule ccontr)
  assume "message_role (items ! k) \<noteq> RSystem"
  then have "k \<in> set (body_of items)" using assms(2) by (simp add: set_body_of)
  then obtain q where q: "q < length (body_of items)" "body_of items ! q = k" by (auto simp: in_set_conv_nth)
  then have "p < q"
    using assms(1,3) sorted_wrt_nth_less[OF sorted_body_of, of q p items] by (metis linorder_neqE_nat order_less_asym)
  then show False using assms(4)[OF _ q(1)] q(2) by simp
qed

lemma nths_filter_upt: "nths xs A = map ((!) xs) (filter (\<lambda>i. i \<in> A) [0..<length xs])"
proof (induction xs rule: rev_induct)
  case (snoc x xs)
  have "map ((!) (xs @ [x])) (filter (\<lambda>i. i \<in> A) [0..<length xs]) = map ((!) xs) (filter (\<lambda>i. i \<in> A) [0..<length xs])"
    by (auto simp: nth_append)
  then show ?case using snoc by (simp add: nths_append)
qed simp

text \<open>A tool result of the window has its call in the window, with everything between them.\<close>

lemma window_call:
  assumes "j \<in> set (drop s (body_of items))" "is_tool items j"
    "s < length (body_of items) \<Longrightarrow> \<not> is_tool items (body_of items ! s)"
  shows "\<exists>i<j. i \<in> set (drop s (body_of items)) \<and> message_role (items ! i) \<notin> {RTool, RSystem}
    \<and> (\<forall>m. i < m \<and> m < j \<longrightarrow> message_role (items ! m) \<in> {RTool, RSystem}
         \<and> (message_role (items ! m) = RTool \<longrightarrow> m \<in> set (drop s (body_of items))))"
proof -
  let ?b = "body_of items"
  obtain p where p: "s \<le> p" "p < length ?b" "?b ! p = j"
    using assms(1) by (auto simp: in_set_conv_nth) (metis add.commute le_add1 less_diff_conv)
  define Q where "Q = {q. s \<le> q \<and> q \<le> p \<and> \<not> is_tool items (?b ! q)}"
  have "s \<in> Q" "finite Q" using assms(3) p by (auto simp: Q_def)
  then have qQ: "Max Q \<in> Q" by (auto intro: Max_in)
  let ?q = "Max Q"
  have q: "s \<le> ?q" "?q < p" "\<not> is_tool items (?b ! ?q)"
    using qQ p assms(2) by (auto simp: Q_def order_le_less)
  have above: "is_tool items (?b ! t)" if "?q < t" "t \<le> p" for t
  proof (rule ccontr)
    assume "\<not> is_tool items (?b ! t)"
    then have "t \<in> Q" using that q(1) unfolding Q_def by simp
    then show False using Max_ge[OF \<open>finite Q\<close>] that(1) by (meson leD)
  qed
  have lt: "?b ! a < ?b ! c" if "a < c" "c < length ?b" for a c
    using sorted_wrt_nth_less[OF sorted_body_of that] .
  have in_drop: "?b ! t \<in> set (drop s ?b)" if "s \<le> t" "t < length ?b" for t
    using that by (auto simp: in_set_conv_nth intro!: exI[of _ "t - s"])
  have "?b ! ?q < j" using lt[of ?q p] q p by simp
  moreover have "?b ! ?q \<in> set ?b" using q p by simp
  then have "message_role (items ! (?b ! ?q)) \<notin> {RTool, RSystem}" using q(3) by (simp add: set_body_of)
  moreover have "message_role (items ! m) \<in> {RTool, RSystem} \<and> (message_role (items ! m) = RTool \<longrightarrow> m \<in> set (drop s ?b))"
    if m: "?b ! ?q < m" "m < j" for m
  proof (cases "message_role (items ! m) = RSystem")
    case False
    have "j < length items" using p nth_mem[OF p(2)] by (simp add: set_body_of)
    then have "m \<in> set ?b" using m False by (simp add: set_body_of)
    then obtain t where t: "t < length ?b" "?b ! t = m" by (auto simp: in_set_conv_nth)
    have "?q < t" using lt[of t ?q] m(1) t q p by (metis linorder_neqE_nat order_less_asym order_less_trans)
    moreover have "t < p" using lt[of p t] m(2) t p by (metis linorder_neqE_nat order_less_asym)
    ultimately show ?thesis using above[of t] in_drop[of t] q t by auto
  qed simp
  ultimately show ?thesis using in_drop[of ?q] q p by (intro exI[of _ "?b ! ?q"]) auto
qed

lemma walk_back_stops: "walk_back items body s = 0 \<or> \<not> is_tool items (body ! walk_back items body s)"
  by (induction items body s rule: walk_back.induct) auto

text \<open>The last \<open>k\<close> messages of the body are in the window, except results with no message before them.\<close>

lemma window_tail:
  assumes "i \<in> set (drop k (body_of items))"
    "i \<notin> set (dropWhile (is_tool items) (drop (walk_back items (body_of items) k) (body_of items)))"
    "m \<le> i"
  shows "message_role (items ! m) \<in> {RTool, RSystem}"
proof (cases "message_role (items ! m) = RSystem")
  case False
  let ?b = "body_of items" and ?w = "walk_back items (body_of items) k"
  have i: "i \<in> set (drop ?w ?b)"
    using assms(1) set_drop_subset_set_drop[OF walk_back_le[of items ?b k], of ?b] by blast
  then have iw: "i \<in> set (takeWhile (is_tool items) (drop ?w ?b))"
    using assms(2) by (metis UnE set_append takeWhile_dropWhile_id)
  have "?w = 0"
  proof (rule ccontr)
    assume "?w \<noteq> 0"
    then have "\<not> is_tool items (?b ! ?w)" using walk_back_stops[of items ?b k] by simp
    then have "takeWhile (is_tool items) (drop ?w ?b) = []"
      by (cases "?w < length ?b") (simp_all add: Cons_nth_drop_Suc[symmetric])
    then show False using iw by simp
  qed
  with iw obtain p where p: "p < length (takeWhile (is_tool items) ?b)" "takeWhile (is_tool items) ?b ! p = i"
    by (auto simp: in_set_conv_nth)
  then have pi: "?b ! p = i" "p < length ?b"
    using length_takeWhile_le[of "is_tool items" ?b] by (auto simp: takeWhile_nth)
  have "i < length items" using nth_mem[OF pi(2)] pi(1) by (simp add: set_body_of)
  then have "m \<in> set ?b" using False assms(3) by (simp add: set_body_of)
  then obtain t where t: "t < length ?b" "?b ! t = m" by (auto simp: in_set_conv_nth)
  have "t \<le> p" using sorted_wrt_nth_less[OF sorted_body_of, of p t items] t pi assms(3) by (metis leD leI)
  then have "?b ! t \<in> set (takeWhile (is_tool items) ?b)"
    using p(1) by (metis nth_mem order_le_less_trans takeWhile_nth)
  then show ?thesis using t(2) by (auto dest: set_takeWhileD)
qed simp

section \<open>What a split keeps\<close>

text \<open>A kept tool result has its call kept, and all that is between them.\<close>

definition call_kept :: "message list \<Rightarrow> nat set \<Rightarrow> nat \<Rightarrow> bool" where
  "call_kept items K j \<longleftrightarrow> (\<exists>i<j. i \<in> K \<and> message_role (items ! i) \<notin> {RTool, RSystem}
     \<and> (\<forall>m. i < m \<and> m < j \<longrightarrow> m \<in> K \<and> message_role (items ! m) \<in> {RTool, RSystem}))"

text \<open>C39: splitting a history never fails for \<open>keep_last \<ge> 1\<close> and divides the messages, in order, into
  the kept and the dropped ones. System messages and the latest user message are always kept; so are
  the last \<open>keep_last\<close> others, except tool results that no message precedes. When anything may be
  dropped, every kept tool result has the message that called it kept, with everything between.\<close>

theorem split_history_sound:
  assumes "1 \<le> k"
  shows "case split_history items k of Inl e \<Rightarrow> False
     | Inr (kept, dropped) \<Rightarrow> (\<exists>K. kept = nths items K \<and> dropped = nths items (- K)
         \<and> (\<forall>i<length items. message_role (items ! i) = RSystem \<longrightarrow> i \<in> K)
         \<and> (\<forall>i<length items. message_role (items ! i) = RUser
              \<and> (\<forall>j. i < j \<and> j < length items \<longrightarrow> message_role (items ! j) \<noteq> RUser) \<longrightarrow> i \<in> K)
         \<and> (\<forall>i\<in>set (drop (length (body_of items) - nat k) (body_of items)). i \<in> K
              \<or> (\<forall>m\<le>i. message_role (items ! m) \<in> {RTool, RSystem}))
         \<and> (nat k < length (body_of items) \<longrightarrow> (\<forall>j\<in>K. is_tool items j \<longrightarrow> call_kept items K j)))"
proof (cases "length (body_of items) \<le> nat k")
  case True
  then have s: "split_history items k = Inr (items, [])" using assms by (simp add: split_history_def)
  have "items = nths items UNIV" "[] = nths items (- UNIV)" by (simp_all add: nths_all)
  then show ?thesis using True unfolding s by (auto intro!: exI[of _ UNIV])
next
  case False
  let ?b = "body_of items" and ?K = "kept_indices items (nat k)"
  let ?W = "dropWhile (is_tool items) (drop (walk_back items ?b (length ?b - nat k)) ?b)"
  let ?sys = "{i. i < length items \<and> message_role (items ! i) = RSystem}"
  let ?us = "filter (\<lambda>i. message_role (items ! i) = RUser) ?b"
  have K: "?K = set (window_of items ?b (nat k)) \<union> ?sys" using False by (simp add: kept_indices_def)
  have win: "set (window_of items ?b (nat k)) = set ?W \<union> (if ?us = [] then {} else {last ?us})"
    by (auto simp: window_of_def Let_def)
  obtain s where s: "?W = drop s ?b" "s < length ?b \<Longrightarrow> \<not> is_tool items (?b ! s)"
    using window_suffix[of items "walk_back items ?b (length ?b - nat k)" ?b] by blast
  have dropped: "filter (\<lambda>i. i \<notin> ?K) ?b = filter (\<lambda>i. i \<in> - ?K) [0..<length items]"
    unfolding body_of_def filter_filter by (rule filter_cong) (auto simp: K)
  have split: "split_history items k = Inr (nths items ?K, nths items (- ?K))"
    using False assms unfolding nths_filter_upt dropped[symmetric] by (simp add: split_history_def Let_def)
  have user: "i \<in> ?K" if "i < length items" "message_role (items ! i) = RUser"
    "\<forall>j. i < j \<and> j < length items \<longrightarrow> message_role (items ! j) \<noteq> RUser" for i
  proof -
    have i: "i \<in> set ?us" using that by (simp add: set_body_of)
    then have ne: "?us \<noteq> []" by force
    have "last ?us \<in> set ?us" using ne by (rule last_in_set)
    then have l: "last ?us < length items" "message_role (items ! last ?us) = RUser" by (auto simp: set_body_of)
    have "i \<le> last ?us"
    proof -
      have "sorted ?us" using sorted_body_of[of items] by (simp add: sorted_wrt_filter strict_sorted_imp_sorted)
      moreover obtain t where "t < length ?us" "?us ! t = i" using i unfolding in_set_conv_nth by blast
      ultimately show ?thesis using ne sorted_nth_mono[of ?us t "length ?us - 1"] by (simp add: last_conv_nth)
    qed
    then have "i = last ?us" using that(3) l by (metis order_le_less)
    then show ?thesis using ne unfolding K win by simp
  qed
  have tail: "i \<in> ?K \<or> (\<forall>m\<le>i. message_role (items ! m) \<in> {RTool, RSystem})"
    if "i \<in> set (drop (length ?b - nat k) ?b)" for i
    using window_tail[OF that] unfolding K win by blast
  have call: "call_kept items ?K j" if j: "j \<in> ?K" "is_tool items j" for j
  proof -
    have "j \<in> set ?W"
    proof -
      have "last ?us \<in> set ?us" if "?us \<noteq> []" using that by (rule last_in_set)
      then show ?thesis using j unfolding K win by (auto split: if_splits)
    qed
    then have jd: "j \<in> set (drop s ?b)" using s(1) by simp
    then have jn: "j < length items" using in_set_dropD[OF jd] by (simp add: set_body_of)
    show ?thesis
      using window_call[OF jd j(2) s(2)] jn unfolding call_kept_def K win s(1) by fastforce
  qed
  show ?thesis
    unfolding split sum.case prod.case using user tail call by (intro exI[of _ ?K]) (auto simp: K)
qed

definition wit_message :: "string \<Rightarrow> message" where
  "wit_message r = \<lparr>ms_dict = True, ms_role = Some (u r), ms_type = None, ms_content = ContentText (u r),
     ms_tool_calls = False, ms_function_call = False, ms_status = None, ms_name = None, ms_id = None, ms_call_id = None\<rparr>"

lemma wit_roles [simp]:
  "message_role (wit_message ''user'') = RUser" "message_role (wit_message ''ai'') = RAssistant"
  "message_role (wit_message ''tool'') = RTool"
  by (simp_all add: message_role_def wit_message_def role_aliases_def or_text_def)

text \<open>One tool result is asked for: its call and the question stay visible.\<close>

lemma split_history_sound_witness:
  "\<exists>K. nths (map wit_message [''user'', ''user'', ''ai'', ''tool'']) K = map wit_message [''user'', ''ai'', ''tool'']
     \<and> call_kept (map wit_message [''user'', ''user'', ''ai'', ''tool'']) K 3"
proof -
  let ?ms = "map wit_message [''user'', ''user'', ''ai'', ''tool'']"
  have body: "body_of ?ms = [0, 1, 2, 3]" by (simp add: body_of_def upt_rec numeral_eq_Suc)
  have win: "window_of ?ms [0, 1, 2, 3] 1 = [1, 2, 3]" by (simp add: window_of_def numeral_eq_Suc Let_def)
  have "split_history ?ms 1 = Inr (map wit_message [''user'', ''ai'', ''tool''], [wit_message ''user''])"
    using body win by (simp add: split_history_def kept_indices_def upt_rec numeral_eq_Suc Let_def)
  with split_history_sound[of 1 ?ms] obtain K where
    K: "map wit_message [''user'', ''ai'', ''tool''] = nths ?ms K" "[wit_message ''user''] = nths ?ms (- K)"
    "\<forall>i\<in>set (drop 3 (body_of ?ms)). i \<in> K \<or> (\<forall>m\<le>i. message_role (?ms ! m) \<in> {RTool, RSystem})"
    "nat 1 < length (body_of ?ms) \<longrightarrow> (\<forall>j\<in>K. is_tool ?ms j \<longrightarrow> call_kept ?ms K j)"
    unfolding body by auto
  have "3 \<in> K" using K(3) unfolding body by (auto simp: numeral_eq_Suc dest: spec[of _ 0])
  then show ?thesis using K(1,4) unfolding body by (intro exI[of _ K]) (auto simp: numeral_eq_Suc)
qed

text \<open>A result whose call is missing is dropped only when something else is: a short history is kept
  as it is, orphans included.\<close>

lemma short_history_keeps_orphans: "split_history [wit_message ''tool''] 3 = Inr ([wit_message ''tool''], [])"
  by (simp add: split_history_def body_of_def upt_rec)

text \<open>The key of a tool result does not depend on its message id.\<close>

lemma tool_key_ignores_id:
  "message_role m = RTool \<Longrightarrow> ms_call_id m = Some (c # cs) \<Longrightarrow> message_key d (m\<lparr>ms_id := i\<rparr>) = message_key d m"
proof -
  have "message_role (m\<lparr>ms_id := i\<rparr>) = message_role m" "message_text (m\<lparr>ms_id := i\<rparr>) = message_text m"
    by (simp_all add: message_role_def message_text_def)
  then show "message_role m = RTool \<Longrightarrow> ms_call_id m = Some (c # cs) \<Longrightarrow> ?thesis"
    by (simp add: message_key_def Let_def)
qed

end
