(* ===== verification/Scope_Ids.thy ===== *)
theory Scope_Ids
  imports Mark_Prelude
begin

text \<open>
  The id set the store hands to retrieval, \<open>ScopeIds\<close> of \<^verbatim>\<open>store/_sqlite/scope_ids.py\<close>: a shared
  base with two small overlays, the exact difference from the set it was derived from, and the
  set operations that work on the parts. A frozenset is a set; the process-wide token counter is
  an argument, and every constructor takes one token from it. The cached \<open>_frozen\<close> value is not
  kept: it is a function of the parts.
\<close>

section \<open>The set\<close>

record scope_ids =
  si_base :: "ustr set"
  si_plus :: "ustr set"
  si_minus :: "ustr set"
  si_len :: int
  si_token :: nat
  si_parent :: "nat option"
  si_added :: "ustr set"
  si_removed :: "ustr set"

definition COMPACT_MIN :: int where "COMPACT_MIN = 4096"

definition scope_ids_init :: "nat \<Rightarrow> ustr set \<Rightarrow> ustr set \<Rightarrow> ustr set \<Rightarrow> scope_ids" where
  "scope_ids_init tok base pl mi = \<lparr>si_base = base, si_plus = pl, si_minus = mi,
     si_len = int (card base) + int (card pl) - int (card mi), si_token = tok,
     si_parent = None, si_added = {}, si_removed = {}\<rparr>"

definition scope_ids_new :: "nat \<Rightarrow> ustr set \<Rightarrow> scope_ids" where
  "scope_ids_new tok ids = scope_ids_init tok ids {} {}"

definition scope_contains :: "scope_ids \<Rightarrow> ustr \<Rightarrow> bool" where
  "scope_contains s i \<longleftrightarrow> (if i \<in> si_plus s then True else i \<in> si_base s \<and> i \<notin> si_minus s)"

text \<open>\<open>derive\<close>: the arguments are cut to the ids that really change; overlays that grew past
  the bound are folded into a new base.\<close>

definition scope_derive :: "nat \<Rightarrow> scope_ids \<Rightarrow> ustr set \<Rightarrow> ustr set \<Rightarrow> scope_ids" where
  "scope_derive tok parent added0 removed0 =
     (let added = {i \<in> added0. \<not> scope_contains parent i};
          removed = {i \<in> removed0. scope_contains parent i};
          core = si_base parent;
          pl = (si_plus parent - removed) \<union> (added - core);
          mi = (si_minus parent - added) \<union> (removed \<inter> core);
          new = (if int (card pl) + int (card mi) > max COMPACT_MIN (si_len parent div 64)
                 then scope_ids_init tok ((core - mi) \<union> pl) {} {}
                 else scope_ids_init tok core pl mi)
      in new\<lparr>si_parent := Some (si_token parent), si_added := added, si_removed := removed\<rparr>)"

text \<open>\<open>__iter__\<close> yields the base without the removed ids, then the added ones; \<open>frozen\<close> is the
  same set.\<close>

definition scope_iter :: "scope_ids \<Rightarrow> ustr set" where
  "scope_iter s = {i \<in> si_base s. i \<notin> si_minus s} \<union> si_plus s"

definition scope_frozen :: "scope_ids \<Rightarrow> ustr set" where
  "scope_frozen s = (si_base s - si_minus s) \<union> si_plus s"

definition scope_nonempty :: "scope_ids \<Rightarrow> bool" where
  "scope_nonempty s \<longleftrightarrow> si_len s > 0"

text \<open>\<open>__eq__\<close> between two of them; \<open>same_base\<close> says that they share the base object.\<close>

definition scope_eq :: "bool \<Rightarrow> scope_ids \<Rightarrow> scope_ids \<Rightarrow> bool" where
  "scope_eq same_base s t \<longleftrightarrow>
     (if si_token s = si_token t then True
      else if si_len t \<noteq> si_len s then False
      else if same_base then si_plus t = si_plus s \<and> si_minus t = si_minus s
      else scope_frozen s = scope_frozen t)"

definition scope_eq_set :: "scope_ids \<Rightarrow> ustr set \<Rightarrow> bool" where
  "scope_eq_set s X \<longleftrightarrow> int (card X) = si_len s \<and> (\<forall>i\<in>scope_iter s. i \<in> X)"

definition scope_difference :: "scope_ids \<Rightarrow> ustr set list \<Rightarrow> ustr set" where
  "scope_difference s others =
     ((si_base s - si_minus s) - \<Union> (set others)) \<union> (si_plus s - \<Union> (set others))"

definition scope_intersection :: "scope_ids \<Rightarrow> ustr set list \<Rightarrow> ustr set" where
  "scope_intersection s others = (case others of [] \<Rightarrow> scope_frozen s
     | X # Xs \<Rightarrow> fold (\<lambda>Y acc. acc \<inter> Y) Xs {i \<in> X. scope_contains s i})"

definition scope_union :: "scope_ids \<Rightarrow> ustr set list \<Rightarrow> ustr set" where
  "scope_union s others = scope_frozen s \<union> \<Union> (set others)"

definition scope_issubset :: "scope_ids \<Rightarrow> ustr set \<Rightarrow> bool" where
  "scope_issubset s X \<longleftrightarrow> si_len s \<le> int (card X) \<and> (\<forall>i\<in>scope_iter s. i \<in> X)"

definition scope_issuperset :: "scope_ids \<Rightarrow> ustr set \<Rightarrow> bool" where
  "scope_issuperset s X \<longleftrightarrow> (\<forall>i\<in>X. scope_contains s i)"

definition scope_isdisjoint :: "scope_ids \<Rightarrow> ustr set \<Rightarrow> bool" where
  "scope_isdisjoint s X \<longleftrightarrow> (\<forall>i\<in>X. \<not> scope_contains s i)"

section \<open>The overlay invariant\<close>

definition scope_inv :: "scope_ids \<Rightarrow> bool" where
  "scope_inv s \<longleftrightarrow> finite (si_base s) \<and> finite (si_plus s) \<and> finite (si_minus s)
     \<and> si_plus s \<inter> si_base s = {} \<and> si_minus s \<subseteq> si_base s
     \<and> si_len s = int (card (si_base s)) + int (card (si_plus s)) - int (card (si_minus s))"

definition scope_set :: "scope_ids \<Rightarrow> ustr set" where
  "scope_set s = {i. scope_contains s i}"

lemma scope_set_alt: "scope_set s = scope_frozen s"
  by (auto simp: scope_set_def scope_frozen_def scope_contains_def)

lemma scope_contains_set: "scope_contains s i \<longleftrightarrow> i \<in> scope_set s"
  by (simp add: scope_set_def)

lemma scope_iter_set: "scope_iter s = scope_set s"
  by (auto simp: scope_set_alt scope_frozen_def scope_iter_def)

lemma scope_inv_finite: "scope_inv s \<Longrightarrow> finite (scope_set s)"
  by (simp add: scope_inv_def scope_set_alt scope_frozen_def)

lemma scope_len:
  assumes "scope_inv s"
  shows "si_len s = int (card (scope_set s))"
proof -
  have "card (scope_set s) = card (si_base s - si_minus s) + card (si_plus s)"
    unfolding scope_set_alt scope_frozen_def
    using assms by (subst card_Un_disjoint) (auto simp: scope_inv_def)
  also have "card (si_base s - si_minus s) = card (si_base s) - card (si_minus s)"
    using assms by (intro card_Diff_subset) (auto simp: scope_inv_def)
  moreover have "card (si_minus s) \<le> card (si_base s)"
    using assms by (auto simp: scope_inv_def intro: card_mono)
  ultimately show ?thesis using assms by (simp add: scope_inv_def)
qed

lemma scope_init_inv:
  "finite base \<Longrightarrow> finite pl \<Longrightarrow> pl \<inter> base = {} \<Longrightarrow> mi \<subseteq> base \<Longrightarrow>
   scope_inv (scope_ids_init tok base pl mi)"
  by (auto simp: scope_inv_def scope_ids_init_def intro: finite_subset)

lemma scope_init_set [simp]:
  "scope_set (scope_ids_init tok base pl mi) = (base - mi) \<union> pl"
  by (auto simp: scope_set_alt scope_frozen_def scope_ids_init_def)

lemma scope_new [simp]:
  "finite ids \<Longrightarrow> scope_inv (scope_ids_new tok ids)"
  "scope_set (scope_ids_new tok ids) = ids"
  by (simp_all add: scope_ids_new_def scope_init_inv)

lemma scope_lineage [simp]:
  "scope_inv (s\<lparr>si_parent := p, si_added := a, si_removed := r\<rparr>) = scope_inv s"
  "scope_set (s\<lparr>si_parent := p, si_added := a, si_removed := r\<rparr>) = scope_set s"
  by (simp_all add: scope_inv_def scope_set_def scope_contains_def)

lemma overlay_algebra:
  assumes "P \<inter> B = {}" "M \<subseteq> B" "A \<inter> R = {}" "S = (B - M) \<union> P"
  shows "(B - ((M - (A - S)) \<union> ((R \<inter> S) \<inter> B))) \<union> ((P - (R \<inter> S)) \<union> ((A - S) - B)) = (S \<union> A) - R"
proof (rule set_eqI)
  fix x
  show "x \<in> (B - ((M - (A - S)) \<union> ((R \<inter> S) \<inter> B))) \<union> ((P - (R \<inter> S)) \<union> ((A - S) - B))
      \<longleftrightarrow> x \<in> (S \<union> A) - R"
    using assms(1-3) unfolding assms(4) by (cases "x \<in> B"; cases "x \<in> A"; cases "x \<in> M") auto
qed

lemma scope_derive_set:
  assumes "scope_inv s" "A \<inter> R = {}"
  shows "scope_set (scope_derive tok s A R) = (scope_set s \<union> A) - R"
proof -
  let ?S = "scope_set s"
  have cut: "{i \<in> A. \<not> scope_contains s i} = A - ?S" "{i \<in> R. scope_contains s i} = R \<inter> ?S"
    by (auto simp: scope_contains_set)
  have "scope_set (scope_derive tok s A R)
     = (si_base s - ((si_minus s - (A - ?S)) \<union> ((R \<inter> ?S) \<inter> si_base s)))
       \<union> ((si_plus s - (R \<inter> ?S)) \<union> ((A - ?S) - si_base s))"
    unfolding scope_derive_def Let_def cut by (simp only: scope_lineage if_distrib[of scope_set] scope_init_set
        Diff_empty Un_empty_right if_cancel)
  also have "\<dots> = (?S \<union> A) - R"
    by (rule overlay_algebra)
      (use assms in \<open>simp_all add: scope_inv_def scope_set_alt scope_frozen_def\<close>)
  finally show ?thesis .
qed

lemma scope_derive_inv:
  assumes "scope_inv s" "finite A" "finite R" "A \<inter> R = {}"
  shows "scope_inv (scope_derive tok s A R)"
proof -
  let ?added = "{i \<in> A. \<not> scope_contains s i}" and ?removed = "{i \<in> R. scope_contains s i}"
  let ?pl = "(si_plus s - ?removed) \<union> (?added - si_base s)"
  let ?mi = "(si_minus s - ?added) \<union> (?removed \<inter> si_base s)"
  have fin: "finite (si_base s)" "finite ?pl"
    and parts: "?pl \<inter> si_base s = {}" "?mi \<subseteq> si_base s"
    using assms by (auto simp: scope_inv_def)
  have "scope_inv (scope_ids_init tok ((si_base s - ?mi) \<union> ?pl) {} {})"
    by (rule scope_init_inv) (use fin in simp_all)
  moreover have "scope_inv (scope_ids_init tok (si_base s) ?pl ?mi)"
    by (rule scope_init_inv[OF fin parts])
  ultimately show ?thesis by (simp add: scope_derive_def Let_def)
qed

text \<open>Deriving a set from a parent with disjoint additions and removals keeps the overlay
  invariant, gives exactly the parent with them applied, at its exact size, and records as its
  lineage the parent's token and the true difference of the two sets.\<close>

theorem derived_scope_exact:
  assumes "scope_inv s" "finite A" "finite R" "A \<inter> R = {}"
  shows "let t = scope_derive tok s A R in
     scope_inv t \<and> scope_set t = (scope_set s \<union> A) - R \<and> si_len t = int (card (scope_set t))
     \<and> si_parent t = Some (si_token s) \<and> si_added t = scope_set t - scope_set s
     \<and> si_removed t = scope_set s - scope_set t"
proof -
  let ?t = "scope_derive tok s A R"
  have inv: "scope_inv ?t" by (rule scope_derive_inv[OF assms])
  have "si_parent ?t = Some (si_token s)" "si_added ?t = {i \<in> A. \<not> scope_contains s i}"
    "si_removed ?t = {i \<in> R. scope_contains s i}"
    by (simp_all add: scope_derive_def Let_def)
  then show ?thesis
    using inv scope_len[OF inv] scope_derive_set[OF assms(1,4), of tok] assms(4)
    by (auto simp: Let_def scope_contains_set)
qed

lemma derived_scope_exact_witness:
  "let s = scope_ids_new 1 {u ''a'', u ''b''}; t = scope_derive 2 s {u ''c'', u ''a''} {u ''b''} in
     scope_inv t \<and> scope_set t = (scope_set s \<union> {u ''c'', u ''a''}) - {u ''b''}
     \<and> si_len t = int (card (scope_set t))
     \<and> si_parent t = Some (si_token s) \<and> si_added t = scope_set t - scope_set s
     \<and> si_removed t = scope_set s - scope_set t"
  using derived_scope_exact[of "scope_ids_new 1 {u ''a'', u ''b''}" "{u ''c'', u ''a''}" "{u ''b''}" 2]
  by (simp add: Let_def)

text \<open>The fast paths agree with the operations on plain sets.\<close>

lemma scope_eq_correct:
  assumes "scope_inv s" "scope_inv t" "same_base \<Longrightarrow> si_base s = si_base t"
    "si_token s = si_token t \<Longrightarrow> s = t"
  shows "scope_eq same_base s t \<longleftrightarrow> scope_set s = scope_set t"
proof -
  have len: "scope_set s = scope_set t \<Longrightarrow> si_len t = si_len s"
    using assms(1,2) by (simp add: scope_len)
  have parts: "scope_set s = scope_set t \<longleftrightarrow> si_plus t = si_plus s \<and> si_minus t = si_minus s"
    if "si_base s = si_base t"
  proof
    assume "scope_set s = scope_set t"
    then show "si_plus t = si_plus s \<and> si_minus t = si_minus s"
      using assms(1,2) that unfolding scope_set_alt scope_frozen_def scope_inv_def by blast
  qed (use that in \<open>simp add: scope_set_alt scope_frozen_def\<close>)
  show ?thesis
  proof (cases "si_token s = si_token t")
    case True
    then show ?thesis using assms(4) by (simp add: scope_eq_def)
  next
    case False
    then show ?thesis
      using len parts assms(3) by (cases same_base) (auto simp: scope_eq_def scope_set_alt)
  qed
qed

lemma scope_ops_correct:
  "scope_difference s others = scope_set s - \<Union> (set others)"
  "scope_union s others = scope_set s \<union> \<Union> (set others)"
  "scope_issuperset s X \<longleftrightarrow> X \<subseteq> scope_set s"
  "scope_isdisjoint s X \<longleftrightarrow> scope_set s \<inter> X = {}"
  by (auto simp: scope_difference_def scope_union_def scope_issuperset_def scope_isdisjoint_def
      scope_contains_set scope_set_alt scope_frozen_def)

lemma scope_compare_correct:
  assumes "scope_inv s" "finite X"
  shows "scope_issubset s X \<longleftrightarrow> scope_set s \<subseteq> X"
    "scope_eq_set s X \<longleftrightarrow> scope_set s = X"
    "scope_nonempty s \<longleftrightarrow> scope_set s \<noteq> {}"
proof -
  show "scope_issubset s X \<longleftrightarrow> scope_set s \<subseteq> X"
    using card_mono[OF assms(2), of "scope_set s"]
    by (auto simp: scope_issubset_def scope_len[OF assms(1)] scope_iter_set)
  show "scope_eq_set s X \<longleftrightarrow> scope_set s = X"
    using card_subset_eq[OF assms(2), of "scope_set s"]
    by (auto simp: scope_eq_set_def scope_len[OF assms(1)] scope_iter_set subset_iff)
  show "scope_nonempty s \<longleftrightarrow> scope_set s \<noteq> {}"
    using scope_inv_finite[OF assms(1)] by (simp add: scope_nonempty_def scope_len[OF assms(1)] card_gt_0_iff)
qed

lemma scope_intersection_correct:
  "scope_intersection s others = (\<Inter>X\<in>set others. X) \<inter> scope_set s"
proof (cases others)
  case (Cons X Xs)
  have "fold (\<lambda>Y acc. acc \<inter> Y) Ys acc = (\<Inter>X\<in>set Ys. X) \<inter> acc" for Ys and acc :: "ustr set"
    by (induction Ys arbitrary: acc) auto
  then show ?thesis using Cons by (auto simp: scope_intersection_def scope_contains_set)
qed (simp add: scope_intersection_def scope_set_alt)

end
