(* ===== verification/Index_Laws.thy ===== *)
theory Index_Laws
  imports VectorIndex
begin

text \<open>
  What the writers of the vector index rely on: which ids an agent's partition holds, when a vector
  is accepted, and that a block of new ids appended at once (\<open>add_many\<close> of \<^verbatim>\<open>index/vector_bulk.py\<close>)
  leaves the index as adding them one by one would.
\<close>

lemma length_normalize [simp]: "length (normalize_vec v) = length v"
  by (simp add: normalize_vec_def Let_def)

lemma normalize_nonempty [simp]: "normalize_vec v = [] \<longleftrightarrow> v = []"
  by (metis length_0_conv length_normalize)

lemma index_ids_owner:
  assumes "index_ok ix"
  shows "i \<in> set (index_ids ix (Some a)) \<longleftrightarrow> map_of (vi_owner ix) i = Some (Some a)"
proof -
  have "i \<in> set (index_ids ix (Some a)) \<longleftrightarrow> vec_of ix (Some a) i \<noteq> None"
  proof (cases "map_of (vi_parts ix) (Some a)")
    case (Some p)
    have "part_ids p = map fst (part_items p)"
      by (rule pt.ids_items[OF parts_okD[OF index_okD(1)[OF assms] Some]])
    then show ?thesis by (simp add: index_ids_def vec_of_def Some map_of_eq_None_iff)
  qed (simp add: index_ids_def vec_of_def)
  then show ?thesis using index_okD(3)[OF assms] by simp
qed

lemma index_missing_ids: "index_missing ix ids (Some a) = ids - set (index_ids ix (Some a))"
  by (simp add: index_missing_def index_ids_def split: option.split)

lemma index_ids_distinct: "index_ok ix \<Longrightarrow> distinct (index_ids ix (Some a))"
  using parts_okD[OF index_okD(1), of ix "Some a"]
  by (auto simp: index_ids_def pt.ids_items pt.ok_distinct split: option.split)

lemma index_count_card: "index_ok ix \<Longrightarrow> index_count ix (Some a) = card (set (index_ids ix (Some a)))"
  by (simp add: index_count_def distinct_card index_ids_distinct)

section \<open>An index that takes vectors of one dimension\<close>

definition numpy_parts :: "vector_index \<Rightarrow> bool" where
  "numpy_parts ix \<longleftrightarrow> (vi_numpy ix \<longrightarrow> (\<forall>p\<in>snd ` set (vi_parts ix). \<exists>q. p = NpPart q))"

definition index_takes :: "nat \<Rightarrow> vector_index \<Rightarrow> bool" where
  "index_takes d ix \<longleftrightarrow> index_ok ix \<and> numpy_parts ix \<and> (vi_dim ix = None \<or> vi_dim ix = Some d)"

lemma index_takesD:
  assumes "index_takes d ix"
  shows "index_ok ix" "numpy_parts ix" "vi_dim ix = None \<or> vi_dim ix = Some d"
  using assms by (simp_all add: index_takes_def)

lemma part_add_numpy: "(\<exists>q. part_add f v p = NpPart q) \<longleftrightarrow> (\<exists>q. p = NpPart q)"
  by (cases p) auto

lemma part_remove_numpy: "(\<exists>q. part_remove f p = NpPart q) \<longleftrightarrow> (\<exists>q. p = NpPart q)"
  by (cases p) auto

lemma promote_part_numpy [simp]: "\<exists>q. promote_part p = NpPart q"
  by (cases p) (auto simp: promote_part_def)

lemma snd_update: "snd ` set (AList.update k v xs) \<subseteq> insert v (snd ` set xs)"
  by (induction xs) auto

lemma snd_delete: "snd ` set (AList.delete k xs) \<subseteq> snd ` set xs"
  by (auto simp: AList.delete_eq)

lemma map_of_snd: "map_of xs k = Some v \<Longrightarrow> v \<in> snd ` set xs"
  by (force dest: map_of_SomeD)

lemma numpy_promote: "numpy_parts ix \<Longrightarrow> numpy_parts (promote ix)"
  by (auto simp: numpy_parts_def promote_def)

lemma numpy_update: "numpy_parts ix \<Longrightarrow> (vi_numpy ix \<Longrightarrow> \<exists>q. p = NpPart q) \<Longrightarrow> numpy_parts (ix\<lparr>vi_parts := AList.update a p (vi_parts ix)\<rparr>)"
  using snd_update[of a p "vi_parts ix"] by (simp add: numpy_parts_def del: ball_simps) blast

lemma numpy_delete: "numpy_parts ix \<Longrightarrow> numpy_parts (ix\<lparr>vi_parts := AList.delete a (vi_parts ix)\<rparr>)"
  using snd_delete[of a "vi_parts ix"] by (simp add: numpy_parts_def del: ball_simps) blast

lemma numpy_part: "numpy_parts ix \<Longrightarrow> map_of (vi_parts ix) a = Some p \<Longrightarrow> vi_numpy ix \<Longrightarrow> \<exists>q. p = NpPart q"
  unfolding numpy_parts_def by (blast dest: map_of_snd)

lemma numpy_cong: "vi_parts ix = vi_parts ix' \<Longrightarrow> vi_numpy ix = vi_numpy ix' \<Longrightarrow> numpy_parts ix = numpy_parts ix'"
  by (simp add: numpy_parts_def)

lemma numpy_partition_remove: "numpy_parts ix \<Longrightarrow> numpy_parts (partition_remove a f ix)"
  by (auto simp: partition_remove_def Let_def part_remove_numpy intro!: numpy_update numpy_delete
      dest: numpy_part split: option.split)

lemma numpy_index_remove: "numpy_parts ix \<Longrightarrow> numpy_parts (index_remove f ix)"
proof (cases "map_of (vi_owner ix) f")
  case (Some a)
  assume n: "numpy_parts ix"
  let ?ix = "ix\<lparr>vi_owner := AList.delete f (vi_owner ix), vi_content := AList.delete f (vi_content ix)\<rparr>"
  have "numpy_parts ?ix" by (rule iffD1[OF numpy_cong n]) simp_all
  then have "numpy_parts (partition_remove a f ?ix)" by (rule numpy_partition_remove)
  then show ?thesis by (simp add: index_remove_def Some Let_def forget_dim_def numpy_parts_def)
qed (simp add: index_remove_def)

lemma numpy_index_add:
  assumes "numpy_parts ix" "index_add f v c a ix = Inr ix'"
  shows "numpy_parts ix'"
proof -
  let ?v = "normalize_vec v"
  define ix0 where "ix0 = ix\<lparr>vi_dim := Some (length ?v)\<rparr>"
  define ix1 where "ix1 = (case map_of (vi_owner ix) f of
     Some o' \<Rightarrow> if o' \<noteq> a then partition_remove o' f ix0 else ix0 | None \<Rightarrow> ix0)"
  define p where "p = (case map_of (vi_parts ix1) a of None \<Rightarrow> new_partition ix1 | Some p \<Rightarrow> p)"
  define ix2 where "ix2 = ix1\<lparr>vi_parts := AList.update a (part_add f ?v p) (vi_parts ix1)\<rparr>"
  define ix3 where "ix3 = (set_content f c (ix2\<lparr>vi_owner := AList.update f a (vi_owner ix1)\<rparr>))\<lparr>vi_revision := vi_revision ix + 1\<rparr>"
  have "index_add f v c a ix = (if ?v = [] then Inl ValueError
      else if vi_dim ix \<noteq> None \<and> vi_dim ix \<noteq> Some (length ?v) then Inl ValueError
      else Inr (if vi_auto ix3 \<and> length (vi_owner ix3) \<ge> AUTO_NUMPY_THRESHOLD then promote ix3 else ix3))"
    by (simp only: index_add_def Let_def ix3_def ix2_def p_def ix1_def ix0_def)
  then have ix': "ix' = promote ix3 \<or> ix' = ix3" using assms(2) by (simp split: if_splits)
  have n0: "numpy_parts ix0" using assms(1) by (simp add: ix0_def numpy_parts_def)
  have n1: "numpy_parts ix1" using n0 numpy_partition_remove[OF n0] by (simp add: ix1_def split: option.split)
  have "vi_numpy ix1 \<Longrightarrow> \<exists>q. p = NpPart q"
    by (auto simp: p_def new_partition_def dest: numpy_part[OF n1] split: option.split)
  then have "numpy_parts ix2" unfolding ix2_def by (intro numpy_update[OF n1]) (simp add: part_add_numpy)
  then have "numpy_parts ix3" by (simp add: ix3_def set_content_def numpy_parts_def)
  with ix' show ?thesis using numpy_promote by blast
qed

lemma index_takes_add:
  assumes "index_takes d ix" "length v = d" "0 < d"
  shows "\<exists>ix'. index_add f v c a ix = Inr ix' \<and> index_takes d ix'
    \<and> vi_owner ix' = AList.update f a (vi_owner ix)"
proof -
  note ix = index_takesD[OF assms(1)]
  have "v \<noteq> []" using assms(2,3) by auto
  then obtain ix' where add: "index_add f v c a ix = Inr ix'"
    using ix(3) assms(2) by (auto simp: index_add_def Let_def)
  then show ?thesis
    using index_add_ok[OF ix(1) add] numpy_index_add[OF ix(2) add] index_add_effect(3,4)[OF ix(1) add] assms(2)
    by (auto simp: index_takes_def)
qed

lemma index_takes_remove: "index_takes d ix \<Longrightarrow> index_takes d (index_remove f ix)"
proof -
  have "vi_dim (index_remove f ix) = vi_dim ix \<or> vi_dim (index_remove f ix) = None"
    by (auto simp: index_remove_def Let_def forget_dim_def split: option.split)
  then show "index_takes d ix \<Longrightarrow> ?thesis"
    by (auto simp: index_takes_def index_remove_ok numpy_index_remove)
qed

lemma index_takes_removes: "index_takes d ix \<Longrightarrow> index_takes d (fold index_remove fs ix)"
  by (induction fs arbitrary: ix) (auto intro: index_takes_remove)

section \<open>A block appended at once\<close>

lemma live_rows_append:
  assumes "np_ids p' = np_ids p @ map (\<lambda>(f, v). Some f) xs"
  shows "live_rows p' = live_rows p @ [length (np_ids p)..<length (np_ids p) + length xs]"
proof -
  let ?n = "length (np_ids p)"
  have up: "[0..<?n + length xs] = [0..<?n] @ [?n..<?n + length xs]" by (rule upt_add_eq_append) simp
  have "filter (\<lambda>r. np_ids p' ! r \<noteq> None) [?n..<?n + length xs] = [?n..<?n + length xs]"
    by (rule filter_True) (auto simp: assms nth_append case_prod_unfold)
  moreover have "filter (\<lambda>r. np_ids p' ! r \<noteq> None) [0..<?n] = live_rows p"
    unfolding live_rows_def by (rule filter_cong) (simp_all add: assms nth_append)
  moreover have "length (np_ids p') = ?n + length xs" by (simp add: assms)
  ultimately show ?thesis unfolding live_rows_def[of p'] by (simp only: up filter_append)
qed

lemma np_add_matrix_ok:
  assumes "np_ok p" "distinct (map fst xs)" "set (map fst xs) \<inter> set (map fst (np_pos p)) = {}"
  shows "np_ok (np_add_matrix xs e p)" "np_items (np_add_matrix xs e p) = np_items p @ xs"
proof -
  let ?n = "length (np_ids p)"
  let ?p = "np_add_matrix xs e p"
  have sel: "np_rows ?p = np_rows p @ map snd xs" "np_ids ?p = np_ids p @ map (\<lambda>(f, v). Some f) xs"
    "np_pos ?p = np_pos p @ zip (map fst xs) [?n..<?n + length xs]" "np_dead_count ?p = np_dead_count p"
    "?n + length xs \<le> np_cap ?p"
    using order_trans[OF max.cobounded1 np_grow_simps(5)[of "max (?n + length xs) e" p]]
    by (simp_all add: np_add_matrix_def Let_def)
  have mask: "mask_at ?p r = mask_at p r" for r
    using mask_at_grow[of "max (?n + length xs) e" p r] by (simp add: np_add_matrix_def Let_def mask_at_def)
  have live: "live_rows ?p = live_rows p @ [?n..<?n + length xs]" by (rule live_rows_append) (rule sel(2))
  have lt: "\<forall>r\<in>set (live_rows p). r < ?n" by (simp add: live_rows_def)
  have fsts: "map fst (np_pos ?p) = map fst (np_pos p) @ map fst xs" by (simp add: sel)
  have zip: "zip (map fst xs) [?n..<?n + length xs] = map (\<lambda>r. (the (np_ids ?p ! r), r)) [?n..<?n + length xs]"
    by (rule nth_equalityI) (auto simp: sel nth_append case_prod_unfold)
  show "np_ok ?p"
  proof (rule np_okI)
    show "np_pos ?p = map (\<lambda>r. (the (np_ids ?p ! r), r)) (live_rows ?p)"
      using lt unfolding live map_append zip[symmetric] sel(3) np_okD(3)[OF assms(1)] by (simp add: sel(2) nth_append)
    show "distinct (map fst (np_pos ?p))"
      using assms(2,3) np_okD(4)[OF assms(1)] unfolding fsts by auto
    show "mask_at ?p r \<longleftrightarrow> r < length (np_ids ?p) \<and> np_ids ?p ! r = None" for r
      unfolding mask np_okD(5)[OF assms(1)] by (auto simp: sel nth_append case_prod_unfold)
    show "np_dead_count ?p = 0 \<Longrightarrow> None \<notin> set (np_ids ?p)"
      using np_okD(6)[OF assms(1)] by (auto simp: sel)
  qed (use np_okD(1,2)[OF assms(1)] sel in auto)
  have old: "map (\<lambda>(f, r). (f, np_rows ?p ! r)) (np_pos p) = np_items p"
    unfolding np_items_def using np_okD(1)[OF assms(1)] np_pos_in[OF assms(1)] by (auto simp: sel nth_append)
  have "map (\<lambda>(f, r). (f, np_rows ?p ! r)) (zip (map fst xs) [?n..<?n + length xs]) = xs"
    by (rule nth_equalityI) (auto simp: sel nth_append np_okD(1)[OF assms(1)])
  then show "np_items ?p = np_items p @ xs" unfolding np_items_def[of ?p] sel(3) map_append old by simp
qed

text \<open>\<open>add_many\<close> sets the dimension of an empty index before it adds; until then the index is
  ready, but not yet in order.\<close>

definition index_ready :: "nat \<Rightarrow> vector_index \<Rightarrow> bool" where
  "index_ready d ix \<longleftrightarrow> index_takes d ix \<or> (vi_dim ix = Some d \<and> index_takes d (ix\<lparr>vi_dim := None\<rparr>))"

lemma index_add_dim: "vi_dim ix = Some (length v) \<Longrightarrow> index_add f v c a (ix\<lparr>vi_dim := None\<rparr>) = index_add f v c a ix"
  by (simp add: index_add_def Let_def set_content_def partition_remove_def new_partition_def promote_def
      cong: option.case_cong split: option.split)

lemma index_ready_add:
  assumes "index_ready d ix" "length v = d" "0 < d"
  shows "\<exists>ix'. index_add f v c a ix = Inr ix' \<and> index_takes d ix' \<and> vi_owner ix' = AList.update f a (vi_owner ix)"
proof (cases "index_takes d ix")
  case True
  then show ?thesis using index_takes_add assms(2,3) by blast
next
  case False
  then have ix: "vi_dim ix = Some (length v)" "index_takes d (ix\<lparr>vi_dim := None\<rparr>)"
    using assms(1,2) by (auto simp: index_ready_def)
  show ?thesis using index_takes_add[OF ix(2) assms(2,3), of f c a] by (simp add: index_add_dim[OF ix(1)])
qed

lemma add_each_takes:
  assumes "index_ready d ix" "\<forall>(f, v)\<in>set xs. length v = d" "0 < d"
  shows "\<exists>ix'. add_each xs a ix = (None, ix') \<and> (if xs = [] then ix' = ix else index_takes d ix')
    \<and> (\<forall>i. map_of (vi_owner ix') i = (if i \<in> fst ` set xs then Some a else map_of (vi_owner ix) i))"
  using assms(1,2)
proof (induction xs arbitrary: ix)
  case (Cons x xs)
  obtain f v where x: "x = (f, v)" by fastforce
  have "length v = d" using Cons.prems(2) x by simp
  then obtain ix1 where add: "index_add f v [] a ix = Inr ix1" "index_takes d ix1"
    "vi_owner ix1 = AList.update f a (vi_owner ix)"
    using index_ready_add[OF Cons.prems(1) _ assms(3)] by blast
  have "index_ready d ix1" using add(2) by (simp add: index_ready_def)
  from Cons.IH[OF this] Cons.prems(2) obtain ix' where "add_each xs a ix1 = (None, ix')"
    "if xs = [] then ix' = ix1 else index_takes d ix'"
    "\<forall>i. map_of (vi_owner ix') i = (if i \<in> fst ` set xs then Some a else map_of (vi_owner ix1) i)" by auto
  then show ?case using add by (auto simp: x AList.update_conv' split: if_splits)
qed simp

lemma fold_update_owner: "map_of (fold (\<lambda>(f, v). AList.update f a) xs ow) i = (if i \<in> fst ` set xs then Some a else map_of ow i)"
  by (induction xs arbitrary: ow) (auto simp: AList.update_conv')

lemma distinct_fold_update: "distinct (map fst ow) \<Longrightarrow> distinct (map fst (fold (\<lambda>(f, v). AList.update f a) xs ow))"
  by (induction xs arbitrary: ow) (auto simp: distinct_update)

lemma add_block_takes:
  assumes "index_ready d ix" "vi_numpy ix" "xs \<noteq> []" "\<forall>(f, v)\<in>set xs. length v = d" "0 < d"
    "distinct (map fst xs)" "fst ` set xs \<inter> fst ` set (vi_owner ix) = {}"
  shows "\<exists>ix'. add_block xs a e False ix = (None, ix') \<and> index_takes d ix'
    \<and> (\<forall>i. map_of (vi_owner ix') i = (if i \<in> fst ` set xs then Some a else map_of (vi_owner ix) i))"
proof -
  define ix0 where "ix0 = (if index_takes d ix then ix else ix\<lparr>vi_dim := None\<rparr>)"
  have ix0: "index_takes d ix0" "vi_owner ix0 = vi_owner ix" "vi_parts ix0 = vi_parts ix" "vi_numpy ix0 = vi_numpy ix"
    "vi_content ix0 = vi_content ix"
    using assms(1) by (auto simp: ix0_def index_ready_def)
  have vdim: "vi_dim ix = None \<or> vi_dim ix = Some d" using assms(1) by (auto simp: index_ready_def index_takes_def)
  note ok = index_takesD(1)[OF ix0(1)]
  define rows where "rows = map (\<lambda>(f, v). (f, normalize_vec v)) xs"
  define q where "q = (case map_of (vi_parts ix) a of Some (NpPart q) \<Rightarrow> q | _ \<Rightarrow> np_new)"
  let ?p = "NpPart (np_add_matrix rows e q)"
  define ix' where "ix' = ix\<lparr>vi_dim := Some d, vi_parts := AList.update a ?p (vi_parts ix),
     vi_owner := fold (\<lambda>(f, v). AList.update f a) xs (vi_owner ix), vi_revision := vi_revision ix + 1\<rparr>"
  have part: "(case map_of (vi_parts ix) a of None \<Rightarrow> new_partition ix | Some p \<Rightarrow> p) = NpPart q"
    using numpy_part[OF index_takesD(2)[OF ix0(1)], of a] assms(2)
    by (auto simp: q_def ix0 new_partition_def split: option.split)
  have len: "length (snd (hd xs)) = d" using assms(3,4) by (cases xs) auto
  have flat: "\<not> (\<exists>(f, v)\<in>set xs. length v \<noteq> d)" using assms(4) by blast
  define ix1 where "ix1 = (if vi_dim ix = None then ix\<lparr>vi_dim := Some d\<rparr> else ix)"
  have ix1: "ix1 = ix\<lparr>vi_dim := Some d\<rparr>" using vdim by (auto simp: ix1_def)
  have run: "add_block xs a e False ix = (None, ix')"
  proof -
    have "(case map_of (vi_parts ix1) a of None \<Rightarrow> new_partition ix1 | Some p \<Rightarrow> p) = NpPart q"
      using part by (simp add: ix1 new_partition_def cong: option.case_cong)
    then show ?thesis
      unfolding add_block_def Let_def len ix1_def[symmetric] rows_def[symmetric] using flat assms(5)
      by (simp add: ix1 ix'_def rows_def)
  qed
  have okq: "np_ok q" "map_of (np_items q) f = vec_of ix0 a f" for f
  proof -
    have "part_ok (NpPart q) \<and> map_of (part_items (NpPart q)) f = vec_of ix0 a f" for f
    proof (cases "map_of (vi_parts ix) a")
      case None
      then show ?thesis using part by (auto simp: vec_of_def ix0 new_partition_def np_ok_new split: if_splits)
    next
      case (Some p)
      then show ?thesis using part parts_okD[OF index_okD(1)[OF ok], of a p] by (simp add: vec_of_def ix0)
    qed
    then show "np_ok q" "map_of (np_items q) f = vec_of ix0 a f" by simp_all
  qed
  have rows: "map fst rows = map fst xs" "set (map fst rows) = fst ` set xs" by (auto simp: rows_def case_prod_unfold)
  have fresh: "vec_of ix0 b f = None" if "f \<in> fst ` set xs" for b f
  proof -
    have "map_of (vi_owner ix0) f = None" using that assms(7) by (simp only: ix0(2) map_of_eq_None_iff) blast
    then show ?thesis using index_okD(3)[OF ok, of f b] by simp
  qed
  have disj: "set (map fst rows) \<inter> set (map fst (np_pos q)) = {}"
  proof -
    have "f \<notin> fst ` set (np_items q)" if "f \<in> fst ` set xs" for f
      using fresh[OF that, of a] okq(2)[of f] by (metis map_of_eq_None_iff)
    then have "f \<notin> set (map fst (np_items q))" if "f \<in> fst ` set xs" for f using that by (metis list.set_map)
    then show ?thesis by (simp only: fst_np_items rows(2)) blast
  qed
  have dist: "distinct (map fst rows)" using assms(6) by (simp add: rows)
  note mat = np_add_matrix_ok[OF okq(1) dist disj]
  have vec: "vec_of ix' b f = (if b = a \<and> f \<in> fst ` set xs then map_of rows f else vec_of ix0 b f)" for b f
  proof (cases "b = a")
    case True
    have "vec_of ix' a f = map_of (np_items q @ rows) f"
      by (simp add: ix'_def vec_of_def AList.update_conv' mat(2))
    also have "\<dots> = (if f \<in> fst ` set xs then map_of rows f else vec_of ix0 a f)"
    proof (cases "f \<in> fst ` set xs")
      case t: True
      then have "map_of (np_items q) f = None" using fresh okq(2) by simp
      then show ?thesis using t by (simp add: map_add_def split: option.split)
    next
      case f: False
      then have "map_of rows f = None" using rows(2) by (metis map_of_eq_None_iff list.set_map)
      then show ?thesis using f okq(2) by (simp add: map_add_def split: option.split)
    qed
    finally show ?thesis using True by simp
  next
    case False
    then show ?thesis by (simp add: ix'_def vec_of_def AList.update_conv' ix0)
  qed
  have rowd: "map_of rows f \<noteq> None \<longleftrightarrow> f \<in> fst ` set xs" "map_of rows f = Some v \<Longrightarrow> length v = d" for f v
    using rows(2) assms(4) by (metis map_of_eq_None_iff list.set_map, force simp: rows_def dest!: map_of_SomeD)
  have own: "map_of (vi_owner ix') i = (if i \<in> fst ` set xs then Some a else map_of (vi_owner ix) i)" for i
    by (simp add: ix'_def fold_update_owner)
  have "index_ok ix'"
  proof (rule index_okI)
    show "parts_ok ix'"
      by (rule parts_ok_update[of ix0 _ a ?p]) (use index_okD(1)[OF ok] in \<open>simp_all add: ix'_def ix0 mat(1)\<close>)
    show "distinct (map fst (vi_owner ix'))"
      using index_okD(2)[OF ok] by (simp add: ix'_def ix0 distinct_fold_update)
    show "map_of (vi_owner ix') f = Some b \<longleftrightarrow> vec_of ix' b f \<noteq> None" for f b
      unfolding own vec using fresh[of f b] index_okD(3)[OF ok, of f b] rowd(1)[of f] by (auto simp: ix0 simp del: not_None_eq)
    show "\<exists>f. vec_of ix' b f \<noteq> None" if "map_of (vi_parts ix') b \<noteq> None" for b
    proof (cases "b = a")
      case True
      then show ?thesis using assms(3) vec rowd(1) by (intro exI[of _ "fst (hd xs)"]) (cases xs; auto)
    next
      case False
      then have "map_of (vi_parts ix0) b \<noteq> None" using that by (simp add: ix'_def ix0 AList.update_conv')
      then show ?thesis using index_okD(4)[OF ok] vec False by metis
    qed
    show "vi_dim ix' = Some (length v)" if "vec_of ix' b f = Some v" for b f v
    proof (cases "b = a \<and> f \<in> fst ` set xs")
      case True
      then have "map_of rows f = Some v" using that by (simp add: vec)
      then show ?thesis using rowd(2) by (simp add: ix'_def)
    next
      case False
      then have "vec_of ix0 b f = Some v" using that unfolding vec by (simp only: if_False)
      then have "vi_dim ix0 = Some (length v)" by (rule index_okD(5)[OF ok])
      then show ?thesis using index_takesD(3)[OF ix0(1)] by (simp add: ix'_def)
    qed
    show "vi_dim ix' = None \<longleftrightarrow> vi_owner ix' = []"
    proof -
      have "map_of (vi_owner ix') (fst (hd xs)) = Some a" unfolding own using assms(3) by simp
      then have "vi_owner ix' \<noteq> []" by auto
      then show ?thesis by (simp add: ix'_def)
    qed
    show "map_of (vi_owner ix') f \<noteq> None" if "map_of (vi_content ix') f \<noteq> None" for f
      using that index_okD(7)[OF ok, of f] unfolding own by (simp add: ix'_def ix0)
  qed
  moreover have "numpy_parts ix'"
  proof -
    have "numpy_parts (ix\<lparr>vi_parts := AList.update a ?p (vi_parts ix)\<rparr>)"
      by (rule numpy_update) (use index_takesD(2)[OF ix0(1)] numpy_cong[OF ix0(3,4)] in auto)
    then show ?thesis by (simp add: ix'_def numpy_parts_def)
  qed
  ultimately have "index_takes d ix'" by (simp add: index_takes_def ix'_def)
  with run own show ?thesis by blast
qed

text \<open>\<open>add_many\<close> of vectors of one dimension, as a block or one by one.\<close>

lemma index_ready_promote: "index_ready d ix \<Longrightarrow> index_ready d (promote ix)"
proof -
  have one: "index_takes d (promote ix)" if "index_takes d ix" for ix
  proof -
    note ix = index_takesD[OF that]
    have "index_ok (promote ix)"
      by (rule index_okI) (use index_okD[OF ix(1)] in \<open>simp_all add: vec_of_promote promote_sim(1)\<close>,
        use index_okD(4)[OF ix(1)] in \<open>auto simp: promote_def map_parts_def[symmetric] split: if_splits\<close>)
    then show ?thesis using numpy_promote[OF ix(2)] ix(3) by (simp add: index_takes_def)
  qed
  show "index_ready d ix \<Longrightarrow> index_ready d (promote ix)"
  proof (cases "index_takes d ix")
    case False
    assume "index_ready d ix"
    with False have ix: "vi_dim ix = Some d" "index_takes d (ix\<lparr>vi_dim := None\<rparr>)" by (auto simp: index_ready_def)
    note ok = index_takesD[OF ix(2)]
    have empty: "vi_owner ix = []" using index_okD(6)[OF ok(1)] by simp
    have "map_of (vi_parts ix) a = None" for a
    proof (rule ccontr)
      assume "map_of (vi_parts ix) a \<noteq> None"
      then obtain f where "vec_of (ix\<lparr>vi_dim := None\<rparr>) a f \<noteq> None" using index_okD(4)[OF ok(1), of a] by auto
      then show False using index_okD(3)[OF ok(1), of f a] empty by simp
    qed
    then have none: "vi_parts ix = []" using map_of_eq_empty_iff by blast
    have "map_of (vi_content ix) f = None" for f using index_okD(7)[OF ok(1), of f] empty by (auto simp del: not_None_eq)
    moreover have "vi_parts (promote ix) = []" by (simp add: promote_def none)
    ultimately have "index_ok ((promote ix)\<lparr>vi_dim := None\<rparr>)"
      using empty by (intro index_okI) (simp_all add: vec_of_def parts_ok_def)
    moreover have "numpy_parts ((promote ix)\<lparr>vi_dim := None\<rparr>)" by (simp add: numpy_parts_def promote_def none)
    ultimately show ?thesis using ix(1) by (simp add: index_ready_def index_takes_def)
  qed (simp add: index_ready_def one)
qed

lemma index_add_many_takes:
  assumes "index_takes d ix" "length embs = length ids" "\<forall>v\<in>set embs. length v = d" "0 < d" "distinct ids"
  shows "\<exists>ix'. index_add_many ids embs a e False ix = (None, ix') \<and> index_takes d ix'
    \<and> (\<forall>i. map_of (vi_owner ix') i = (if i \<in> set ids then Some a else map_of (vi_owner ix) i))"
proof (cases "ids = []")
  case True
  then show ?thesis using assms(1) by (simp add: index_add_many_def)
next
  case False
  let ?xs = "zip ids embs"
  have xs: "?xs \<noteq> []" "\<forall>(f, v)\<in>set ?xs. length v = d" "map fst ?xs = ids" "fst ` set ?xs = set ids"
    using False assms(2,3) by (auto dest: set_zip_rightD simp flip: list.set_map)
  define ix1 where "ix1 = (if vi_auto ix \<and> length (vi_owner ix) + length ids \<ge> AUTO_NUMPY_THRESHOLD
     then promote (if vi_dim ix = None then ix\<lparr>vi_dim := Some (length (hd embs))\<rparr> else ix) else ix)"
  have "hd embs \<in> set embs" using False assms(2) by (cases embs) auto
  then have hd: "length (hd embs) = d" using assms(3) by blast
  have "index_ready d (if vi_dim ix = None then ix\<lparr>vi_dim := Some (length (hd embs))\<rparr> else ix)"
    using assms(1) unfolding hd by (cases ix) (auto simp: index_ready_def)
  then have ready: "index_ready d ix1"
    using index_ready_promote assms(1) by (simp add: ix1_def index_ready_def)
  have own: "vi_owner ix1 = vi_owner ix" by (simp add: ix1_def)
  have run: "index_add_many ids embs a e False ix =
      (if vi_numpy ix1 \<and> set ids \<inter> fst ` set (vi_owner ix1) = {} \<and> distinct ids
       then add_block ?xs a e False ix1 else add_each ?xs a ix1)"
    using False assms(2) by (simp add: index_add_many_def Let_def flip: ix1_def)
  show ?thesis
  proof (cases "vi_numpy ix1 \<and> set ids \<inter> fst ` set (vi_owner ix1) = {} \<and> distinct ids")
    case True
    then have block: "index_add_many ids embs a e False ix = add_block ?xs a e False ix1"
      and free: "set ids \<inter> fst ` set (vi_owner ix1) = {}" and np: "vi_numpy ix1"
      using run by simp_all
    show ?thesis
      using add_block_takes[OF ready np xs(1,2) assms(4), of a e] free assms(5) xs(3) unfolding block xs(4) own by simp
  next
    case f: False
    obtain ix' where "add_each ?xs a ix1 = (None, ix')" "index_takes d ix'"
      "\<forall>i. map_of (vi_owner ix') i = (if i \<in> fst ` set ?xs then Some a else map_of (vi_owner ix1) i)"
      using add_each_takes[OF ready xs(2) assms(4), of a] xs(1) by auto
    then show ?thesis using run f unfolding xs(4) own by (intro exI[of _ ix']) simp
  qed
qed

end
