(* ===== verification/Index_Sync.thy ===== *)
theory Index_Sync
  imports Write_Path Scope_Ids Index_Laws
begin

text \<open>
  The index side of retrieval (\<^verbatim>\<open>intelligence/retrieval_index.py\<close>): before every recall the vector
  index is brought in line with the ids the store allows. Stored vectors are loaded one by one or in
  blocks (\<^verbatim>\<open>index_bulk_load.py\<close>), what has no usable vector is embedded in growing batches until a
  deadline, and an embedder that is down leaves the rest pending (\<^verbatim>\<open>pending_embeddings.py\<close>); a
  changed embedder re-embeds once. Each read of the monotonic clock is an argument (\<open>ticks\<close>), as is the
  order in which Python lists a set (\<open>listing\<close>). The store and the index are the SDK's own, so the
  probes for older ones (\<^verbatim>\<open>retrieval_index_compat.py\<close>) take their first branch. Vector snapshots,
  for agents of 50000 memories and more, are not modelled: an agent here has none.
\<close>

section \<open>The state of the sync\<close>

text \<open>\<open>se_result = None\<close>: the result was the scope object itself.\<close>

record synced =
  se_scope :: scope_ids
  se_revision :: nat
  se_result :: "ustr set option"

record sync_sys =
  yn_sys :: memory_sys
  yn_verified :: "ustr set"
  yn_synced :: "ustr \<rightharpoonup> synced"
  yn_meta :: "ustr \<rightharpoonup> ustr"

text \<open>What a sync sees of the embedder. \<open>em_dim\<close> is the attribute when vectors are loaded,
  \<open>em_probed\<close> the fingerprint after the probe call.\<close>

record embedder_env =
  em_batch :: "ustr list \<Rightarrow> embed_result"
  em_dim :: "nat option"
  em_print :: "ustr option"
  em_probe :: embed_result
  em_probed :: ustr
  em_filter :: "ustr \<Rightarrow> (ustr \<Rightarrow> bool) option"

text \<open>The clock reads of one batch: the deadline check, the start, the retry check, the end.\<close>

record tick =
  tk_check :: real
  tk_began :: real
  tk_retry :: real
  tk_end :: real

definition CATCHUP_SECONDS :: real where "CATCHUP_SECONDS = 2"
definition CATCHUP_FIRST_BATCH :: nat where "CATCHUP_FIRST_BATCH = 8"
definition BY_ID_FRACTION :: nat where "BY_ID_FRACTION = 16"
definition BULK_GAP :: nat where "BULK_GAP = 256"
definition PAGE_ROWS :: nat where "PAGE_ROWS = 20000"

definition catchup_deadline :: "real \<Rightarrow> real" where
  "catchup_deadline now = now + CATCHUP_SECONDS"

definition embedding_failed :: "real \<Rightarrow> memory_sys \<Rightarrow> memory_sys" where
  "embedding_failed now s = s\<lparr>my_retry_at := now + RETRY_SECONDS, my_outage := True\<rparr>"

definition has_pending :: "ustr \<Rightarrow> real \<Rightarrow> memory_sys \<Rightarrow> bool" where
  "has_pending agent now s \<longleftrightarrow> agent \<in> my_pending s \<and> my_retry_at s \<le> now"

definition mark_pending :: "ustr \<Rightarrow> memory_sys \<Rightarrow> memory_sys" where
  "mark_pending agent s = s\<lparr>my_pending := insert agent (my_pending s)\<rparr>"

definition pending_done :: "ustr \<Rightarrow> memory_sys \<Rightarrow> memory_sys" where
  "pending_done agent s = s\<lparr>my_pending := my_pending s - {agent}\<rparr>"

section \<open>One vector at a time\<close>

text \<open>\<open>_index_add\<close>.\<close>

definition index_add_vec ::
  "ustr \<Rightarrow> vec option \<Rightarrow> ustr \<Rightarrow> ustr \<Rightarrow> memory_sys \<Rightarrow> memory_sys \<times> write_error option" where
  "index_add_vec fid v content agent s =
     (case v of
        None \<Rightarrow> (mark_pending agent s, None)
      | Some x \<Rightarrow> (case index_add fid x content (Some agent) (my_index s) of
            Inl e \<Rightarrow> (s, Some (IndexError e))
          | Inr ix \<Rightarrow> (s\<lparr>my_index := ix\<rparr>, None)))"

text \<open>\<open>_stored_embeddings\<close>: the rows of some ids, or of the agent's retrievable fragments.\<close>

definition stored_embeddings :: "store_db \<Rightarrow> ustr \<Rightarrow> ustr set option \<Rightarrow> (ustr \<times> vec option) list" where
  "stored_embeddings db agent ids = (case ids of
     Some X \<Rightarrow> map (\<lambda>r. (fr_id r, fr_embedding r)) (filter (\<lambda>r. fr_id r \<in> X) (db_fragments db))
   | None \<Rightarrow> embeddings_for_agent db agent)"

definition usable_vector :: "nat option \<Rightarrow> vec option option \<Rightarrow> vec option" where
  "usable_vector d v = (case v of
     Some (Some x) \<Rightarrow> if x \<noteq> [] \<and> (d = None \<or> d = Some (length x)) then Some x else None
   | _ \<Rightarrow> None)"

fun index_each ::
  "(ustr \<times> vec option) list \<Rightarrow> nat option \<Rightarrow> ustr \<Rightarrow> ustr list \<Rightarrow> memory_sys \<Rightarrow> memory_sys \<times> (write_error + ustr list)" where
  "index_each stored d agent [] s = (s, Inr [])"
| "index_each stored d agent (i # is) s =
     (case usable_vector d (map_of stored i) of
        Some v \<Rightarrow> (case index_add_vec i (Some v) [] agent s of
            (s1, Some e) \<Rightarrow> (s1, Inl e)
          | (s1, None) \<Rightarrow> index_each stored d agent is s1)
      | None \<Rightarrow> (case index_each stored d agent is s of
            (s1, Inl e) \<Rightarrow> (s1, Inl e)
          | (s1, Inr rest) \<Rightarrow> (s1, Inr (i # rest))))"

section \<open>Embedding what has no vector\<close>

text \<open>The body of one batch of \<open>_embed_and_index\<close>: each vector is stored, then indexed.\<close>

fun index_vectors :: "ustr \<Rightarrow> (fragment \<times> vec) list \<Rightarrow> memory_sys \<Rightarrow> memory_sys \<times> write_error option" where
  "index_vectors agent [] s = (s, None)"
| "index_vectors agent ((f, v) # xs) s =
     (case index_add_vec (fr_id f) (Some v) (fr_content f) agent
        (s\<lparr>my_db := update_embedding (my_db s) (fr_id f) v\<rparr>) of
        (s1, Some e) \<Rightarrow> (s1, Some e)
      | (s1, None) \<Rightarrow> index_vectors agent xs s1)"

text \<open>\<open>_get_many\<close>: rows found tampered with leave the index through the store's listener.\<close>

definition read_chunk ::
  "provider \<Rightarrow> datetime \<Rightarrow> ustr list \<Rightarrow> memory_sys \<Rightarrow> memory_sys \<times> fragment list" where
  "read_chunk P now chunk s =
     (let (db, found) = get_many P now (my_db s) chunk;
          rows = filter (\<lambda>r. fr_id r \<in> set chunk) (db_fragments (my_db s));
          gone = map fr_id (filter (\<lambda>r. snd (decode_fragment P r)) rows)
      in (notify_gone gone (s\<lparr>my_db := db\<rparr>), List.map_filter (map_of found) chunk))"

datatype batch_result = BatchDone | BatchDeferred | BatchError write_error

definition embed_chunk ::
  "provider \<Rightarrow> datetime \<Rightarrow> embedder_env \<Rightarrow> ustr \<Rightarrow> real \<Rightarrow> ustr list \<Rightarrow> memory_sys \<Rightarrow> memory_sys \<times> batch_result" where
  "embed_chunk P now em agent retry chunk s =
     (let (s1, ordered) = read_chunk P now chunk s in
      if ordered = [] then (s1, BatchDone)
      else case embed_batch_or_defer s1 retry (em_batch em) (map fr_content ordered) of
        (s2, Inl e) \<Rightarrow> (s2, BatchError e)
      | (s2, Inr None) \<Rightarrow> (mark_pending agent s2, BatchDeferred)
      | (s2, Inr (Some vs)) \<Rightarrow> (case index_vectors agent (zip ordered vs) s2 of
            (s3, Some e) \<Rightarrow> (s3, BatchError e)
          | (s3, None) \<Rightarrow> (s3, BatchDone)))"

text \<open>\<open>_embed_and_index\<close> from the \<open>k\<close>-th batch on: \<open>Inr False\<close> when some ids were left
  pending. A batch that found none of its rows does not grow the next one. The batch size is never
  0 in the code; the guard makes the recursion total.\<close>

function embed_loop ::
  "provider \<Rightarrow> datetime \<Rightarrow> embedder_env \<Rightarrow> ustr \<Rightarrow> real option \<Rightarrow> (nat \<Rightarrow> tick) \<Rightarrow> nat \<Rightarrow> nat \<Rightarrow> ustr list
    \<Rightarrow> memory_sys \<Rightarrow> memory_sys \<times> (write_error + bool)" where
  "embed_loop P now em agent deadline ticks k batch ids s =
     (if ids = [] \<or> batch = 0 then (s, Inr True)
      else if (case deadline of None \<Rightarrow> False | Some d \<Rightarrow> d \<le> tk_check (ticks k))
        then (mark_pending agent s, Inr False)
      else (case embed_chunk P now em agent (tk_retry (ticks k)) (take batch ids) s of
          (s1, BatchError e) \<Rightarrow> (s1, Inl e)
        | (s1, BatchDeferred) \<Rightarrow> (s1, Inr False)
        | (s1, BatchDone) \<Rightarrow>
            embed_loop P now em agent deadline ticks (Suc k)
              (if deadline \<noteq> None \<and> snd (read_chunk P now (take batch ids) s) \<noteq> []
                  \<and> tk_end (ticks k) - tk_began (ticks k) < CATCHUP_SECONDS / 8
               then min EMBED_BATCH (batch * 2) else batch)
              (drop batch ids) s1))"
  by pat_completeness auto
termination by (relation "measure (\<lambda>(P, now, em, agent, deadline, ticks, k, batch, ids, s). length ids)") auto

declare embed_loop.simps [simp del]

definition embed_and_index ::
  "provider \<Rightarrow> datetime \<Rightarrow> embedder_env \<Rightarrow> ustr \<Rightarrow> real option \<Rightarrow> (nat \<Rightarrow> tick) \<Rightarrow> ustr list
    \<Rightarrow> memory_sys \<Rightarrow> memory_sys \<times> (write_error + bool)" where
  "embed_and_index P now em agent deadline ticks ids s =
     embed_loop P now em agent deadline ticks 0
       (if deadline = None then EMBED_BATCH else min EMBED_BATCH CATCHUP_FIRST_BATCH) ids s"

section \<open>Blocks of stored vectors\<close>

text \<open>\<open>bulk_index\<close>: rows whose vector has the dimension are added as one block per page, the others
  are returned. With no dimension known, the first vector read decides. Decoding the blobs with
  numpy or without gives the same numbers, and the store keeps no legacy JSON vectors.\<close>

definition page_dim :: "nat option \<Rightarrow> (ustr \<times> vec option) list \<Rightarrow> nat option" where
  "page_dim d page = (case d of Some n \<Rightarrow> Some n
     | None \<Rightarrow> (case List.map_filter (\<lambda>(i, v). case v of Some x \<Rightarrow> if x = [] then None else Some (length x)
           | None \<Rightarrow> None) page of
         [] \<Rightarrow> None | n # ns \<Rightarrow> Some n))"

definition good_row :: "ustr set \<Rightarrow> nat option \<Rightarrow> ustr \<times> vec option \<Rightarrow> bool" where
  "good_row wanted d row \<longleftrightarrow> snd row \<noteq> None \<and> map_option length (snd row) = d \<and> fst row \<in> wanted"

fun bulk_index ::
  "(ustr \<times> vec option) list list \<Rightarrow> ustr set \<Rightarrow> nat option \<Rightarrow> ustr \<Rightarrow> vector_index
    \<Rightarrow> vector_index \<times> (write_error + ustr list)" where
  "bulk_index [] wanted d agent ix = (ix, Inr [])"
| "bulk_index (page # pages) wanted d agent ix =
     (let d' = page_dim d page;
          good = filter (good_row wanted d') page;
          bad = map fst (filter (\<lambda>row. fst row \<in> wanted \<and> \<not> good_row wanted d' row) page)
      in case (if good = [] then (None, ix)
               else index_add_many (map fst good) (map (the \<circ> snd) good) (Some agent) (card wanted) False ix) of
           (Some e, ix1) \<Rightarrow> (ix1, Inl (IndexError e))
         | (None, ix1) \<Rightarrow> (case bulk_index pages wanted d' agent ix1 of
               (ix2, Inl e) \<Rightarrow> (ix2, Inl e)
             | (ix2, Inr rest) \<Rightarrow> (ix2, Inr (bad @ rest))))"

text \<open>The bulk branch of \<open>_load_missing\<close>: a small gap is read by id, a large one page by page; SQL
  promises no order for rows read by id, here it is the table's.\<close>

definition bulk_load ::
  "embedder_env \<Rightarrow> (ustr set \<Rightarrow> ustr list) \<Rightarrow> ustr \<Rightarrow> nat \<Rightarrow> ustr set \<Rightarrow> memory_sys
    \<Rightarrow> memory_sys \<times> (write_error + ustr list)" where
  "bulk_load em listing agent before missing s =
     (let small = card missing * BY_ID_FRACTION < before + card missing;
          pages = (if small then [stored_embeddings (my_db s) agent (Some missing)]
                   else chunks_of PAGE_ROWS (embeddings_for_agent (my_db s) agent))
      in case bulk_index pages missing (em_dim em) agent (my_index s) of
           (ix, Inl e) \<Rightarrow> (s\<lparr>my_index := ix\<rparr>, Inl e)
         | (ix, Inr bad) \<Rightarrow> (s\<lparr>my_index := ix\<rparr>, Inr
             (if int (index_count ix (Some agent)) - int before + int (length bad) \<noteq> int (card missing)
              then listing (missing - set (index_ids ix (Some agent))) else bad)))"

definition load_missing ::
  "provider \<Rightarrow> datetime \<Rightarrow> embedder_env \<Rightarrow> (ustr set \<Rightarrow> ustr list) \<Rightarrow> real \<Rightarrow> (nat \<Rightarrow> tick) \<Rightarrow> ustr \<Rightarrow> scope_ids
    \<Rightarrow> memory_sys \<Rightarrow> memory_sys \<times> (write_error + bool)" where
  "load_missing P now em listing deadline ticks agent A s =
     (let before = index_count (my_index s) (Some agent);
          missing = (if before = 0 then scope_frozen A else index_missing (my_index s) (scope_frozen A) (Some agent))
      in if missing = {} then (s, Inr True)
         else case (if card missing > BULK_GAP then bulk_load em listing agent before missing s
                    else index_each (stored_embeddings (my_db s) agent (Some missing)) (em_dim em) agent
                           (listing missing) s) of
           (s1, Inl e) \<Rightarrow> (s1, Inl e)
         | (s1, Inr todo) \<Rightarrow>
             if todo = [] then (s1, Inr True)
             else (case embed_and_index P now em agent (Some deadline) ticks todo s1 of
               (s2, Inl e) \<Rightarrow> (s2, Inl e)
             | (s2, Inr fin) \<Rightarrow> (s2, Inr (fin \<and> set todo \<subseteq> set (index_ids (my_index s2) (Some agent))))))"

section \<open>A changed embedder\<close>

definition rpartition :: "nat \<Rightarrow> ustr \<Rightarrow> ustr \<times> ustr" where
  "rpartition c s = (rev (List.tl (dropWhile (\<lambda>x. x \<noteq> c) (rev s))), rev (takeWhile (\<lambda>x. x \<noteq> c) (rev s)))"

definition COLON :: nat where "COLON = 58"

definition same_embedding_space :: "ustr \<Rightarrow> ustr \<Rightarrow> bool" where
  "same_embedding_space stored now_used \<longleftrightarrow>
     (if stored = now_used then True
      else fst (rpartition COLON stored) = fst (rpartition COLON now_used)
        \<and> u ''None'' \<in> {snd (rpartition COLON stored), snd (rpartition COLON now_used)})"

definition dim_unknown :: "ustr \<Rightarrow> bool" where
  "dim_unknown fp \<longleftrightarrow> suffix (u '':None'') fp"

definition agent_contents :: "provider \<Rightarrow> store_db \<Rightarrow> ustr \<Rightarrow> (ustr \<times> ustr) list" where
  "agent_contents P db agent = List.map_filter (\<lambda>r. map_option (\<lambda>c. (fr_id r, c)) (pv_decrypt P (fr_content r)))
     (filter (\<lambda>r. fr_agent r = agent \<and> is_retrievable (fr_state r)) (db_fragments db))"

definition changed_ids :: "provider \<Rightarrow> embedder_env \<Rightarrow> store_db \<Rightarrow> ustr \<Rightarrow> ustr \<Rightarrow> ustr list option" where
  "changed_ids P em db agent stored = (case em_filter em stored of
       None \<Rightarrow> None
     | Some needs \<Rightarrow> Some (map fst (filter (\<lambda>(i, c). needs c) (agent_contents P db agent))))"

definition meta_key :: "ustr \<Rightarrow> ustr" where
  "meta_key agent = u ''embedder_fingerprint'' @ u '':'' @ agent"

datatype verify_result = VerifyOk | VerifyTransient | VerifyError write_error

text \<open>\<open>_verify_embedder\<close>. The result of \<open>_embed_and_index\<close> is not looked at: the new fingerprint is
  recorded even when the embedder went down half way.\<close>

definition reembed ::
  "provider \<Rightarrow> datetime \<Rightarrow> embedder_env \<Rightarrow> (nat \<Rightarrow> tick) \<Rightarrow> ustr \<Rightarrow> ustr \<Rightarrow> memory_sys
    \<Rightarrow> memory_sys \<times> (write_error + bool)" where
  "reembed P now em ticks agent stored s =
     (case changed_ids P em (my_db s) agent stored of
        None \<Rightarrow> embed_and_index P now em agent None ticks (map fst (stored_embeddings (my_db s) agent None))
                  (s\<lparr>my_index := index_clear (Some agent) (my_index s)\<rparr>)
      | Some ids \<Rightarrow> embed_and_index P now em agent None ticks ids
                  (s\<lparr>my_index := fold index_remove ids (my_index s)\<rparr>))"

definition record_print ::
  "provider \<Rightarrow> datetime \<Rightarrow> embedder_env \<Rightarrow> (nat \<Rightarrow> tick) \<Rightarrow> ustr \<Rightarrow> ustr option \<Rightarrow> ustr \<Rightarrow> sync_sys \<Rightarrow> sync_sys \<times> verify_result" where
  "record_print P now em ticks agent stored fp y =
     (if dim_unknown fp then (y, VerifyOk)
      else case stored of
        None \<Rightarrow> (y\<lparr>yn_meta := (yn_meta y)(meta_key agent \<mapsto> fp)\<rparr>, VerifyOk)
      | Some old \<Rightarrow> (case reembed P now em ticks agent old (yn_sys y) of
            (s1, Inl e) \<Rightarrow> (y\<lparr>yn_sys := s1\<rparr>, VerifyError e)
          | (s1, Inr _) \<Rightarrow> (y\<lparr>yn_sys := s1, yn_meta := (yn_meta y)(meta_key agent \<mapsto> fp)\<rparr>, VerifyOk)))"

definition verify_embedder ::
  "provider \<Rightarrow> datetime \<Rightarrow> embedder_env \<Rightarrow> (nat \<Rightarrow> tick) \<Rightarrow> ustr \<Rightarrow> sync_sys \<Rightarrow> sync_sys \<times> verify_result" where
  "verify_embedder P now em ticks agent y =
     (let stored = yn_meta y (meta_key agent) in
      case em_print em of
        None \<Rightarrow> (y, VerifyOk)
      | Some fp \<Rightarrow>
          if fp = [] then (y, VerifyOk)
          else if \<exists>old\<in>Option.set_option stored. same_embedding_space old fp then (y, VerifyOk)
          else if dim_unknown fp \<and> stored \<noteq> None then
            (case em_probe em of
               Transient \<Rightarrow> (y, VerifyTransient)
             | Failed \<Rightarrow> (y, VerifyError EmbedError)
             | Vectors _ \<Rightarrow>
                 if same_embedding_space (the stored) (em_probed em) then (y, VerifyOk)
                 else record_print P now em ticks agent stored (em_probed em) y)
          else record_print P now em ticks agent stored fp y)"

section \<open>The sync of a scope\<close>

text \<open>\<open>sync_delta\<close>: \<open>Inr None\<close> falls back to the full comparison.\<close>

definition sync_delta ::
  "provider \<Rightarrow> datetime \<Rightarrow> embedder_env \<Rightarrow> (ustr set \<Rightarrow> ustr list) \<Rightarrow> (nat \<Rightarrow> tick) \<Rightarrow> ustr \<Rightarrow> synced option \<Rightarrow> scope_ids
    \<Rightarrow> memory_sys \<Rightarrow> memory_sys \<times> (write_error + synced option)" where
  "sync_delta P now em listing ticks agent prev A s =
     (case prev of
        None \<Rightarrow> (s, Inr None)
      | Some l \<Rightarrow>
          if se_result l \<noteq> None \<or> si_parent A = None \<or> si_parent A \<noteq> Some (si_token (se_scope l)) then (s, Inr None)
          else
            (let s1 = s\<lparr>my_index := fold index_remove (listing (si_removed A)) (my_index s)\<rparr>;
                 missing = index_missing (my_index s1) (si_added A) (Some agent)
             in case (if missing = {} then (s1, Inr [])
                      else index_each (stored_embeddings (my_db s1) agent (Some missing)) (em_dim em) agent
                             (listing missing) s1) of
                  (s2, Inl e) \<Rightarrow> (s2, Inl e)
                | (s2, Inr todo) \<Rightarrow>
                    (case (if todo = [] then (s2, Inr True) else embed_and_index P now em agent None ticks todo s2) of
                       (s3, Inl e) \<Rightarrow> (s3, Inl e)
                     | (s3, Inr _) \<Rightarrow> (s3, Inr
                         (if int (index_count (my_index s3) (Some agent)) \<noteq> si_len A
                             \<or> index_missing (my_index s3) (si_added A) (Some agent) \<noteq> {} then None
                          else Some \<lparr>se_scope = A, se_revision = vi_revision (my_index s3), se_result = None\<rparr>)))))"

text \<open>The clock reads of one sync: its start, the failure of the probe, the check for pending work and
  those of the three places that embed.\<close>

record sync_clock =
  ck_start :: real
  ck_failed :: real
  ck_pending :: real
  ck_verify :: "nat \<Rightarrow> tick"
  ck_delta :: "nat \<Rightarrow> tick"
  ck_load :: "nat \<Rightarrow> tick"

definition verify_once ::
  "provider \<Rightarrow> datetime \<Rightarrow> embedder_env \<Rightarrow> sync_clock \<Rightarrow> ustr \<Rightarrow> sync_sys \<Rightarrow> sync_sys \<times> write_error option" where
  "verify_once P now em ck agent y =
     (if agent \<in> yn_verified y then (y, None)
      else case verify_embedder P now em (ck_verify ck) agent y of
        (y1, VerifyOk) \<Rightarrow> (y1\<lparr>yn_verified := insert agent (yn_verified y1)\<rparr>, None)
      | (y1, VerifyTransient) \<Rightarrow> (y1\<lparr>yn_sys := embedding_failed (ck_failed ck) (yn_sys y1)\<rparr>, None)
      | (y1, VerifyError e) \<Rightarrow> (y1, Some e))"

text \<open>\<open>_sync_index\<close>: \<open>None\<close> as a result is the allowed scope itself.\<close>

definition full_sync ::
  "provider \<Rightarrow> datetime \<Rightarrow> embedder_env \<Rightarrow> (ustr set \<Rightarrow> ustr list) \<Rightarrow> sync_clock \<Rightarrow> ustr \<Rightarrow> scope_ids
    \<Rightarrow> memory_sys \<Rightarrow> memory_sys \<times> (write_error + synced)" where
  "full_sync P now em listing ck agent A s =
     (case load_missing P now em listing (catchup_deadline (ck_start ck)) (ck_load ck) agent A s of
        (s1, Inl e) \<Rightarrow> (s1, Inl e)
      | (s1, Inr full) \<Rightarrow>
          (let found = index_ids (my_index s1) (Some agent);
               entry = \<lparr>se_scope = A, se_revision = vi_revision (my_index s1), se_result = None\<rparr>
           in if full \<and> int (length found) = si_len A then (pending_done agent s1, Inr entry)
              else (s1, Inr (if scope_eq_set A (set found) then entry else entry\<lparr>se_result := Some (set found)\<rparr>))))"

definition sync_index ::
  "provider \<Rightarrow> datetime \<Rightarrow> embedder_env \<Rightarrow> (ustr set \<Rightarrow> ustr list) \<Rightarrow> sync_clock \<Rightarrow> ustr \<Rightarrow> scope_ids
    \<Rightarrow> sync_sys \<Rightarrow> sync_sys \<times> (write_error + ustr set option)" where
  "sync_index P now em listing ck agent A y0 =
     (case verify_once P now em ck agent y0 of
        (y, Some e) \<Rightarrow> (y, Inl e)
      | (y, None) \<Rightarrow>
          (let prev = yn_synced y agent;
               unchanged = (case prev of None \<Rightarrow> False
                 | Some l \<Rightarrow> si_token (se_scope l) = si_token A \<and> se_revision l = vi_revision (my_index (yn_sys y)))
           in if unchanged \<and> \<not> has_pending agent (ck_pending ck) (yn_sys y) then (y, Inr (se_result (the prev)))
              else case sync_delta P now em listing (ck_delta ck) agent prev A (yn_sys y) of
                (s1, Inl e) \<Rightarrow> (y\<lparr>yn_sys := s1\<rparr>, Inl e)
              | (s1, Inr (Some entry)) \<Rightarrow>
                  (y\<lparr>yn_sys := s1, yn_synced := (yn_synced y)(agent \<mapsto> entry)\<rparr>, Inr None)
              | (s1, Inr None) \<Rightarrow>
                  (case full_sync P now em listing ck agent A s1 of
                     (s2, Inl e) \<Rightarrow> (y\<lparr>yn_sys := s2\<rparr>, Inl e)
                   | (s2, Inr entry) \<Rightarrow>
                       (y\<lparr>yn_sys := s2, yn_synced := (yn_synced y)(agent \<mapsto> entry)\<rparr>, Inr (se_result entry)))))"

section \<open>Queries and direct indexing\<close>

text \<open>\<open>_vector_search\<close>: an index of another dimension is rebuilt for the agent. An embedder that answers
  with no vector at all is an \<open>IndexError\<close> of Python.\<close>

definition vector_search ::
  "provider \<Rightarrow> datetime \<Rightarrow> embedder_env \<Rightarrow> (ustr set \<Rightarrow> ustr list) \<Rightarrow> real \<Rightarrow> (nat \<Rightarrow> tick) \<Rightarrow> ustr \<Rightarrow> ustr
    \<Rightarrow> scope_ids \<Rightarrow> ustr set option \<Rightarrow> int \<Rightarrow> memory_sys \<Rightarrow> memory_sys \<times> (write_error + (ustr \<times> real \<times> ustr) list)" where
  "vector_search P now em listing clock ticks agent qtext A scope depth s =
     (case embed_batch_or_defer s clock (em_batch em) [qtext] of
        (s1, Inl e) \<Rightarrow> (s1, Inl e)
      | (s1, Inr None) \<Rightarrow> (s1, Inr [])
      | (s1, Inr (Some [])) \<Rightarrow> (s1, Inl (IndexError LookupError))
      | (s1, Inr (Some (q # _))) \<Rightarrow>
          (case index_search q depth (-1) scope (Some agent) (my_index s1) of
             Inr hits \<Rightarrow> (s1, Inr hits)
           | Inl _ \<Rightarrow>
               (case embed_and_index P now em agent None ticks (listing (scope_frozen A))
                       (s1\<lparr>my_index := index_clear (Some agent) (my_index s1)\<rparr>) of
                  (s2, Inl e) \<Rightarrow> (s2, Inl e)
                | (s2, Inr _) \<Rightarrow>
                    (case index_search q depth (-1) (Some (scope_frozen A)) (Some agent) (my_index s2) of
                       Inl e \<Rightarrow> (s2, Inl (IndexError e))
                     | Inr hits \<Rightarrow> (s2, Inr hits)))))"

text \<open>\<open>index_fragments\<close>, batch by batch.\<close>

fun index_fragments ::
  "provider \<Rightarrow> (nat \<Rightarrow> real) \<Rightarrow> embedder_env \<Rightarrow> fragment list list \<Rightarrow> memory_sys \<Rightarrow> memory_sys \<times> (write_error + fragment list)" where
  "index_fragments P clocks em [] s = (s, Inr [])"
| "index_fragments P clocks em (c # cs) s =
     (case embed_for_write s (clocks 0) (em_batch em) c of
        (s1, Inl e) \<Rightarrow> (s1, Inl e)
      | (s1, Inr fs) \<Rightarrow>
          (case store_many P (my_db s1) fs of
             Inl e \<Rightarrow> (s1, Inl (StoreError e))
           | Inr (db, ids, gone) \<Rightarrow>
               (case index_rows (notify_gone gone (s1\<lparr>my_db := db\<rparr>)) (filter (\<lambda>f. fr_embedding f \<noteq> None) fs) of
                  (s2, Some e) \<Rightarrow> (s2, Inl e)
                | (s2, None) \<Rightarrow> (case index_fragments P (clocks \<circ> Suc) em cs s2 of
                      (s3, Inl e) \<Rightarrow> (s3, Inl e)
                    | (s3, Inr rest) \<Rightarrow> (s3, Inr (fs @ rest))))))"

section \<open>What loading and embedding do to the index\<close>

abbreviation held :: "memory_sys \<Rightarrow> ustr \<Rightarrow> ustr set" where
  "held s agent \<equiv> set (index_ids (my_index s) (Some agent))"

abbreviation row_ids :: "memory_sys \<Rightarrow> ustr set" where
  "row_ids s \<equiv> fr_id ` set (db_fragments (my_db s))"

lemma held_owner: "index_takes d (my_index s) \<Longrightarrow> i \<in> held s agent \<longleftrightarrow> map_of (vi_owner (my_index s)) i = Some (Some agent)"
  by (rule index_ids_owner[OF index_takesD(1)])

text \<open>The index gained exactly the ids of \<open>D\<close> for the agent; nothing but the index changed.\<close>

definition gained :: "nat \<Rightarrow> ustr \<Rightarrow> ustr set \<Rightarrow> vector_index \<Rightarrow> vector_index \<Rightarrow> bool" where
  "gained d agent D ix ix' \<longleftrightarrow> index_takes d ix'
     \<and> (\<forall>i. map_of (vi_owner ix') i = (if i \<in> D then Some (Some agent) else map_of (vi_owner ix) i))"

lemma gainedD:
  assumes "gained d agent D (my_index s) (my_index s')"
  shows "index_takes d (my_index s')" "index_takes d (my_index s) \<Longrightarrow> held s' agent = held s agent \<union> D"
  using assms by (auto simp: gained_def held_owner)

lemma gained_refl: "index_takes d ix \<Longrightarrow> gained d agent {} ix ix"
  by (simp add: gained_def)

lemma gained_trans: "gained d agent D ix ix1 \<Longrightarrow> gained d agent E ix1 ix2 \<Longrightarrow> gained d agent (D \<union> E) ix ix2"
  by (auto simp: gained_def)

lemma index_add_vec_gained:
  assumes "index_takes d (my_index s)" "length v = d" "0 < d"
  shows "\<exists>ix. index_add_vec i (Some v) c agent s = (s\<lparr>my_index := ix\<rparr>, None) \<and> gained d agent {i} (my_index s) ix"
proof -
  obtain ix where "index_add i v c (Some agent) (my_index s) = Inr ix" "index_takes d ix"
    "vi_owner ix = AList.update i (Some agent) (vi_owner (my_index s))"
    using index_takes_add[OF assms] by blast
  then show ?thesis by (auto simp: index_add_vec_def gained_def AList.update_conv')
qed

lemma usable_vector_dim: "usable_vector (Some d) v = Some x \<Longrightarrow> length x = d"
  by (auto simp: usable_vector_def split: option.splits if_splits)

definition has_vector :: "nat \<Rightarrow> (ustr \<times> vec option) list \<Rightarrow> ustr \<Rightarrow> bool" where
  "has_vector d rows i \<longleftrightarrow> usable_vector (Some d) (map_of rows i) \<noteq> None"

lemma index_each_gained:
  assumes "index_takes d (my_index s)" "0 < d"
  shows "\<exists>ix. index_each stored (Some d) agent is s
       = (s\<lparr>my_index := ix\<rparr>, Inr (filter (\<lambda>i. \<not> has_vector d stored i) is))
    \<and> gained d agent {i \<in> set is. has_vector d stored i} (my_index s) ix"
  using assms(1)
proof (induction "is" arbitrary: s)
  case Nil
  then show ?case by (intro exI[of _ "my_index s"]) (simp add: gained_refl)
next
  case (Cons i "is")
  show ?case
  proof (cases "usable_vector (Some d) (map_of stored i)")
    case None
    moreover have "{j \<in> set (i # is). has_vector d stored j} = {j \<in> set is. has_vector d stored j}"
      using None by (auto simp: has_vector_def simp del: not_None_eq)
    ultimately show ?thesis using Cons.IH[OF Cons.prems] by (auto simp: has_vector_def)
  next
    case (Some v)
    obtain ix where add: "index_add_vec i (Some v) [] agent s = (s\<lparr>my_index := ix\<rparr>, None)"
      and g: "gained d agent {i} (my_index s) ix"
      using index_add_vec_gained[OF Cons.prems usable_vector_dim[OF Some] assms(2)] by blast
    have "index_takes d (my_index (s\<lparr>my_index := ix\<rparr>))" using g by (simp add: gained_def)
    from Cons.IH[OF this] obtain ix' where
      "index_each stored (Some d) agent is (s\<lparr>my_index := ix\<rparr>)
        = (s\<lparr>my_index := ix'\<rparr>, Inr (filter (\<lambda>i. \<not> has_vector d stored i) is))"
      "gained d agent {i \<in> set is. has_vector d stored i} ix ix'" by auto
    moreover have "{j \<in> set (i # is). has_vector d stored j} = {i} \<union> {j \<in> set is. has_vector d stored j}"
      using Some by (auto simp: has_vector_def)
    ultimately show ?thesis using add Some gained_trans[OF g] by (auto simp: has_vector_def)
  qed
qed

lemma filter_good: "set (map fst (filter (good_row W (Some d)) rows)) = {i \<in> W. \<exists>v. (i, Some v) \<in> set rows \<and> length v = d}"
  by (auto simp: good_row_def image_iff split: prod.splits) force

lemma bulk_index_gained:
  assumes "index_takes d ix" "0 < d" "distinct (map fst (concat pages))"
  shows "\<exists>ix' bad. bulk_index pages W (Some d) agent ix = (ix', Inr bad)
    \<and> gained d agent {i \<in> W. \<exists>v. (i, Some v) \<in> set (concat pages) \<and> length v = d} ix ix'
    \<and> bad = map fst (filter (\<lambda>row. fst row \<in> W \<and> \<not> good_row W (Some d) row) (concat pages))"
  using assms(1,3)
proof (induction pages arbitrary: ix)
  case Nil
  then show ?case by (simp add: gained_refl)
next
  case (Cons page pages)
  define good where "good = filter (good_row W (Some d)) page"
  define bad where "bad = map fst (filter (\<lambda>row. fst row \<in> W \<and> \<not> good_row W (Some d) row) page)"
  have dim: "page_dim (Some d) page = Some d" by (simp add: page_dim_def)
  have vs: "\<forall>v\<in>set (map (the \<circ> snd) good). length v = d" by (auto simp: good_def good_row_def)
  have dist: "distinct (map fst good)" using Cons.prems(2) by (auto simp: good_def intro: distinct_map_filter)
  obtain ix1 where add: "(if good = [] then (None, ix)
      else index_add_many (map fst good) (map (the \<circ> snd) good) (Some agent) (card W) False ix) = (None, ix1)"
    and g: "gained d agent (set (map fst good)) ix ix1"
  proof (cases "good = []")
    case True
    with that[of ix] Cons.prems(1) show ?thesis by (simp add: gained_refl)
  next
    case False
    with that index_add_many_takes[OF Cons.prems(1) _ vs assms(2) dist, of "Some agent" "card W"]
    show ?thesis by (fastforce simp: gained_def)
  qed
  have "index_takes d ix1" "distinct (map fst (concat pages))" using g Cons.prems(2) by (auto simp: gained_def)
  from Cons.IH[OF this] obtain ix' rest where rest: "bulk_index pages W (Some d) agent ix1 = (ix', Inr rest)"
    "gained d agent {i \<in> W. \<exists>v. (i, Some v) \<in> set (concat pages) \<and> length v = d} ix1 ix'"
    "rest = map fst (filter (\<lambda>row. fst row \<in> W \<and> \<not> good_row W (Some d) row) (concat pages))" by blast
  have "bulk_index (page # pages) W (Some d) agent ix = (ix', Inr (bad @ rest))"
    unfolding bulk_index.simps dim Let_def good_def[symmetric] bad_def[symmetric] add by (simp add: rest(1))
  moreover have "gained d agent {i \<in> W. \<exists>v. (i, Some v) \<in> set (concat (page # pages)) \<and> length v = d} ix ix'"
  proof -
    have "{i \<in> W. \<exists>v. (i, Some v) \<in> set (concat (page # pages)) \<and> length v = d}
        = set (map fst good) \<union> {i \<in> W. \<exists>v. (i, Some v) \<in> set (concat pages) \<and> length v = d}"
      unfolding good_def filter_good by auto
    then show ?thesis using gained_trans[OF g rest(2)] by simp
  qed
  ultimately show ?case by (simp add: rest(3) bad_def)
qed
text \<open>Whatever way the vectors are loaded: the missing ids with a stored vector of the dimension are
  indexed, the others are left for embedding.\<close>

definition vectored :: "nat \<Rightarrow> memory_sys \<Rightarrow> ustr set" where
  "vectored d s = {fr_id r |r. r \<in> set (db_fragments (my_db s)) \<and> (\<exists>v. fr_embedding r = Some v \<and> length v = d)}"

definition lists_sets :: "(ustr set \<Rightarrow> ustr list) \<Rightarrow> ustr set \<Rightarrow> bool" where
  "lists_sets listing U \<longleftrightarrow> (\<forall>X. X \<subseteq> U \<longrightarrow> set (listing X) = X \<and> distinct (listing X))"

definition load_some ::
  "embedder_env \<Rightarrow> (ustr set \<Rightarrow> ustr list) \<Rightarrow> ustr \<Rightarrow> nat \<Rightarrow> ustr set \<Rightarrow> memory_sys \<Rightarrow> memory_sys \<times> (write_error + ustr list)" where
  "load_some em listing agent before missing s =
     (if card missing > BULK_GAP then bulk_load em listing agent before missing s
      else index_each (stored_embeddings (my_db s) agent (Some missing)) (em_dim em) agent (listing missing) s)"

lemma stored_embeddings_ids: "map fst (stored_embeddings db agent (Some X)) = map fr_id (filter (\<lambda>r. fr_id r \<in> X) (db_fragments db))"
  by (simp add: stored_embeddings_def)

lemma has_vector_stored:
  assumes "tbl_ok fr_id (db_fragments (my_db s))" "i \<in> X" "0 < d"
  shows "has_vector d (stored_embeddings (my_db s) agent (Some X)) i \<longleftrightarrow> i \<in> vectored d s"
proof -
  let ?rows = "stored_embeddings (my_db s) agent (Some X)"
  have dist: "distinct (map fst ?rows)"
    using assms(1) by (simp add: stored_embeddings_ids distinct_map_filter)
  have "map_of ?rows i = Some (Some v) \<longleftrightarrow> (\<exists>r\<in>set (db_fragments (my_db s)). fr_id r = i \<and> fr_embedding r = Some v)" for v
    unfolding map_of_eq_Some_iff[OF dist] using assms(2) by (auto simp: stored_embeddings_def)
  moreover have "has_vector d ?rows i \<longleftrightarrow> (\<exists>v. map_of ?rows i = Some (Some v) \<and> length v = d)"
    using assms(3) by (auto simp: has_vector_def usable_vector_def split: option.splits)
  ultimately show ?thesis by (auto simp: vectored_def)
qed

lemma load_each_gained:
  assumes "index_takes d (my_index s)" "0 < d" "em_dim em = Some d" "lists_sets listing missing" "finite missing"
    "tbl_ok fr_id (db_fragments (my_db s))" "\<not> card missing > BULK_GAP"
  shows "\<exists>ix todo. load_some em listing agent before missing s = (s\<lparr>my_index := ix\<rparr>, Inr todo)
    \<and> gained d agent (missing \<inter> vectored d s) (my_index s) ix \<and> set todo = missing - vectored d s \<and> distinct todo"
proof -
  let ?rows = "stored_embeddings (my_db s) agent (Some missing)"
  have l: "set (listing missing) = missing" "distinct (listing missing)"
    using assms(4,5) by (auto simp: lists_sets_def)
  have "{i \<in> set (listing missing). has_vector d ?rows i} = missing \<inter> vectored d s"
    using has_vector_stored[OF assms(6) _ assms(2)] unfolding l(1) by blast
  moreover have "set (filter (\<lambda>i. \<not> has_vector d ?rows i) (listing missing)) = missing - vectored d s"
    using has_vector_stored[OF assms(6) _ assms(2)] unfolding set_filter l(1) by blast
  ultimately show ?thesis
    using index_each_gained[OF assms(1,2), of ?rows agent "listing missing"] assms(3,7) l(2)
    by (auto simp: load_some_def)
qed

lemma load_bulk_gained:
  assumes "index_takes d (my_index s)" "0 < d" "em_dim em = Some d" "lists_sets listing missing" "finite missing"
    "tbl_ok fr_id (db_fragments (my_db s))" "card missing > BULK_GAP"
    "before = index_count (my_index s) (Some agent)" "missing \<inter> held s agent = {}"
  shows "\<exists>ix todo D. load_some em listing agent before missing s = (s\<lparr>my_index := ix\<rparr>, Inr todo)
    \<and> D \<subseteq> missing \<and> gained d agent D (my_index s) ix \<and> set todo = missing - D \<and> distinct todo"
proof -
  define pages where "pages = (if card missing * BY_ID_FRACTION < before + card missing
     then [stored_embeddings (my_db s) agent (Some missing)]
     else chunks_of PAGE_ROWS (embeddings_for_agent (my_db s) agent))"
  have rows: "concat pages = stored_embeddings (my_db s) agent (Some missing) \<or> concat pages = embeddings_for_agent (my_db s) agent"
    by (simp add: pages_def concat_chunks_of PAGE_ROWS_def)
  have dist: "distinct (map fst (concat pages))"
    using rows assms(6) by (auto simp: stored_embeddings_ids embeddings_for_agent_def comp_def distinct_map_filter)
  define D where "D = {i \<in> missing. \<exists>v. (i, Some v) \<in> set (concat pages) \<and> length v = d}"
  obtain ix bad where run: "bulk_index pages missing (Some d) agent (my_index s) = (ix, Inr bad)"
    and g: "gained d agent D (my_index s) ix"
    and bad: "bad = map fst (filter (\<lambda>row. fst row \<in> missing \<and> \<not> good_row missing (Some d) row) (concat pages))"
    using bulk_index_gained[OF assms(1,2) dist, of missing agent] unfolding D_def by blast
  define todo where "todo = (if int (index_count ix (Some agent)) - int before + int (length bad) \<noteq> int (card missing)
              then listing (missing - set (index_ids ix (Some agent))) else bad)"
  have ids: "set (index_ids ix (Some agent)) = held s agent \<union> D"
    using gainedD(2)[of d agent D s "s\<lparr>my_index := ix\<rparr>"] g assms(1) by simp
  have D: "D \<subseteq> missing" by (auto simp: D_def)
  have left: "missing - set (index_ids ix (Some agent)) = missing - D" unfolding ids using assms(9) by blast
  have fin: "finite (missing - D)" "finite D" using assms(5) D finite_subset by auto
  have badset: "set bad \<subseteq> missing - D" "distinct bad"
  proof -
    have "v' = v" if "(i, v) \<in> set (concat pages)" "(i, v') \<in> set (concat pages)" for i v v'
      using that dist by (metis map_of_is_SomeI option.inject)
    then show "set bad \<subseteq> missing - D" unfolding bad D_def good_row_def by fastforce
    show "distinct bad" unfolding bad using dist by (rule distinct_map_filter)
  qed
  have "set todo = missing - D \<and> distinct todo"
  proof (cases "int (index_count ix (Some agent)) - int before + int (length bad) = int (card missing)")
    case False
    then show ?thesis using assms(4) fin(1) left by (simp add: todo_def lists_sets_def)
  next
    case True
    have "index_ok ix" "index_ok (my_index s)" using g assms(1) by (auto simp: gained_def index_takes_def)
    moreover have "card (held s agent \<union> D) = card (held s agent) + card D"
      by (rule card_Un_disjoint) (use D assms(9) fin(2) in auto)
    ultimately have "index_count ix (Some agent) = before + card D"
      by (simp only: index_count_card assms(8) ids)
    then have "card D + length bad = card missing" using True by simp
    then have "card (set bad) = card (missing - D)"
      using D fin(2) badset(2) by (simp add: card_Diff_subset distinct_card)
    then have "set bad = missing - D" using badset(1) fin(1) card_subset_eq by blast
    then show ?thesis using True badset(2) by (simp add: todo_def)
  qed
  moreover have "load_some em listing agent before missing s = (s\<lparr>my_index := ix\<rparr>, Inr todo)"
    using assms(7) by (simp add: load_some_def bulk_load_def Let_def assms(3) run flip: pages_def) (simp add: todo_def)
  ultimately show ?thesis using g D by blast
qed
section \<open>An embedder that answers\<close>

definition embedder_answers :: "nat \<Rightarrow> embedder_env \<Rightarrow> bool" where
  "embedder_answers d em \<longleftrightarrow> (\<forall>ts. case em_batch em ts of
     Vectors vs \<Rightarrow> length vs = length ts \<and> (\<forall>v\<in>set vs. length v = d) | _ \<Rightarrow> False)"

lemma answers_deferred:
  assumes "embedder_answers d em" "my_retry_at s \<le> clock"
  shows "\<exists>vs. embed_batch_or_defer s clock (em_batch em) ts = (s\<lparr>my_outage := False\<rparr>, Inr (Some vs))
    \<and> length vs = length ts \<and> (\<forall>v\<in>set vs. length v = d)"
  using assms(2) spec[OF assms(1)[unfolded embedder_answers_def], of ts]
  by (auto simp: embed_batch_or_defer_def split: embed_result.splits)

lemma fr_id_decode [simp]: "fr_id (fst (decode_fragment P r)) = fr_id r"
  by (simp add: decode_fragment_def Let_def)

lemma persist_ids [simp]: "map fr_id (db_fragments (persist_tampered now db gone)) = map fr_id (db_fragments db)"
  by (auto simp: persist_tampered_def tbl_update_def)

lemma update_embedding_ids [simp]: "map fr_id (db_fragments (update_embedding db i v)) = map fr_id (db_fragments db)"
  by (auto simp: update_embedding_def tbl_update_def)

text \<open>What stays while the index is filled.\<close>

definition same_rows :: "memory_sys \<Rightarrow> memory_sys \<Rightarrow> bool" where
  "same_rows s s' \<longleftrightarrow> map fr_id (db_fragments (my_db s')) = map fr_id (db_fragments (my_db s))
     \<and> my_retry_at s' = my_retry_at s"

lemma same_rows_ids: "same_rows s s' \<Longrightarrow> row_ids s' = row_ids s"
  unfolding same_rows_def by (metis list.set_map)

lemma read_chunk_effect:
  assumes "index_takes d (my_index s)" "read_chunk P now chunk s = (s', ordered)"
  shows "same_rows s s' \<and> my_pending s' = my_pending s \<and> index_takes d (my_index s')
    \<and> fr_id ` set ordered = set chunk \<inter> row_ids s
    \<and> (\<forall>i. i \<notin> set chunk \<inter> row_ids s \<longrightarrow> map_of (vi_owner (my_index s')) i = map_of (vi_owner (my_index s)) i)"
proof -
  define rows where "rows = filter (\<lambda>r. fr_id r \<in> set chunk) (db_fragments (my_db s))"
  define gone where "gone = map fr_id (filter (\<lambda>r. snd (decode_fragment P r)) rows)"
  define found where "found = map (\<lambda>r. (fr_id r, fst (decode_fragment P r))) rows"
  define db where "db = (if gone = [] then my_db s else persist_tampered now (my_db s) gone)"
  have get: "get_many P now (my_db s) chunk = (db, found)"
    by (simp add: get_many_def Let_def db_def found_def gone_def flip: rows_def)
  have s': "s' = notify_gone gone (s\<lparr>my_db := db\<rparr>)" and ord: "ordered = List.map_filter (map_of found) chunk"
    using assms(2) by (auto simp: read_chunk_def get Let_def gone_def simp flip: rows_def)
  have dbids: "map fr_id (db_fragments db) = map fr_id (db_fragments (my_db s))" by (simp add: db_def)
  have rowids: "fr_id ` set rows = set chunk \<inter> row_ids s" by (auto simp: rows_def)
  have keys: "map_of found i = Some f \<Longrightarrow> fr_id f = i" for i f
    by (auto simp: found_def dest!: map_of_SomeD)
  have dom: "map_of found i \<noteq> None \<longleftrightarrow> i \<in> set chunk \<inter> row_ids s" for i
    unfolding rowids[symmetric] by (auto simp: found_def map_of_eq_None_iff image_iff simp del: not_None_eq)
  have "fr_id ` set ordered = set chunk \<inter> row_ids s"
  proof (intro set_eqI iffI)
    fix i assume "i \<in> fr_id ` set ordered"
    then obtain j f where "j \<in> set chunk" "map_of found j = Some f" "fr_id f = i"
      by (auto simp: ord map_filter_def)
    then show "i \<in> set chunk \<inter> row_ids s" using keys[of j f] dom[of j] by simp
  next
    fix i assume i: "i \<in> set chunk \<inter> row_ids s"
    then obtain f where "map_of found i = Some f" using dom[of i] by blast
    then show "i \<in> fr_id ` set ordered" using keys[of i f] i
      by (auto simp: ord map_filter_def image_iff intro!: bexI[of _ i])
  qed
  moreover have "set gone \<subseteq> set chunk \<inter> row_ids s" unfolding rowids[symmetric] by (auto simp: gone_def)
  ultimately show ?thesis
    using index_takes_removes[OF assms(1), of gone]
    by (auto simp: same_rows_def s' dbids) (auto simp: notify_gone_def)
qed

lemma index_vectors_effect:
  assumes "index_takes d (my_index s)" "0 < d" "\<forall>(f, v)\<in>set xs. length v = d"
  shows "\<exists>s'. index_vectors agent xs s = (s', None) \<and> same_rows s s' \<and> my_pending s' = my_pending s
    \<and> gained d agent (fr_id ` fst ` set xs) (my_index s) (my_index s')"
  using assms(1,3)
proof (induction xs arbitrary: s)
  case Nil
  then show ?case by (simp add: gained_refl same_rows_def)
next
  case (Cons x xs)
  obtain f v where x: "x = (f, v)" by fastforce
  define s1 where "s1 = s\<lparr>my_db := update_embedding (my_db s) (fr_id f) v\<rparr>"
  have "index_takes d (my_index s1)" "length v = d" using Cons.prems by (simp_all add: s1_def x)
  then obtain ix where add: "index_add_vec (fr_id f) (Some v) (fr_content f) agent s1 = (s1\<lparr>my_index := ix\<rparr>, None)"
    and g: "gained d agent {fr_id f} (my_index s1) ix" using index_add_vec_gained[OF _ _ assms(2)] by blast
  have "index_takes d (my_index (s1\<lparr>my_index := ix\<rparr>))" using g by (simp add: gained_def)
  from Cons.IH[OF this] Cons.prems(2) obtain s' where rest: "index_vectors agent xs (s1\<lparr>my_index := ix\<rparr>) = (s', None)"
    "same_rows (s1\<lparr>my_index := ix\<rparr>) s'" "my_pending s' = my_pending s"
    "gained d agent (fr_id ` fst ` set xs) ix (my_index s')" by (auto simp: s1_def)
  have "gained d agent (fr_id ` fst ` set (x # xs)) (my_index s) (my_index s')"
    using gained_trans[OF g rest(4)] by (simp add: s1_def x)
  moreover have "index_vectors agent (x # xs) s = (s', None)" using add rest(1) by (simp add: x flip: s1_def)
  moreover have "same_rows s s'" using rest(2) by (simp add: same_rows_def s1_def)
  ultimately show ?case using rest(3) by blast
qed

lemma embed_chunk_effect:
  assumes "index_takes d (my_index s)" "0 < d" "embedder_answers d em" "my_retry_at s \<le> retry"
  shows "\<exists>s'. embed_chunk P now em agent retry chunk s = (s', BatchDone) \<and> same_rows s s' \<and> my_pending s' = my_pending s
    \<and> gained d agent (set chunk \<inter> row_ids s) (my_index s) (my_index s')"
proof -
  obtain s1 ordered where rd: "read_chunk P now chunk s = (s1, ordered)" by fastforce
  note eff = read_chunk_effect[OF assms(1) rd]
  show ?thesis
  proof (cases "ordered = []")
    case True
    then have "set chunk \<inter> row_ids s = {}" using eff by auto
    then show ?thesis using True eff by (intro exI[of _ s1]) (auto simp: embed_chunk_def rd gained_def)
  next
    case False
    obtain vs where emb: "embed_batch_or_defer s1 retry (em_batch em) (map fr_content ordered)
        = (s1\<lparr>my_outage := False\<rparr>, Inr (Some vs))" "length vs = length ordered" "\<forall>v\<in>set vs. length v = d"
      using answers_deferred[OF assms(3), of s1 retry "map fr_content ordered"] assms(4) eff that
      by (auto simp: same_rows_def)
    let ?s2 = "s1\<lparr>my_outage := False\<rparr>"
    have "\<forall>(f, v)\<in>set (zip ordered vs). length v = d" using emb(3) by (auto dest: set_zip_rightD)
    then obtain s' where iv: "index_vectors agent (zip ordered vs) ?s2 = (s', None)" "same_rows ?s2 s'"
      "my_pending s' = my_pending ?s2" "gained d agent (fr_id ` fst ` set (zip ordered vs)) (my_index ?s2) (my_index s')"
      using index_vectors_effect[of d ?s2 "zip ordered vs" agent] eff assms(2) by auto
    have "fst ` set (zip ordered vs) = set ordered" using emb(2) by (metis map_fst_zip list.set_map)
    then have "gained d agent (set chunk \<inter> row_ids s) (my_index s) (my_index s')"
      using iv(4) eff by (auto simp: gained_def)
    then show ?thesis using False iv(1-3) eff emb(1)
      by (intro exI[of _ s']) (auto simp: embed_chunk_def rd same_rows_def)
  qed
qed

text \<open>A run of batches treats a prefix of the ids. It stops early only at the deadline, and never
  before the first batch unless the deadline has already passed.\<close>

lemma embed_loop_effect:
  assumes "index_takes d (my_index s)" "0 < d" "embedder_answers d em" "\<forall>k. my_retry_at s \<le> tk_retry (ticks k)"
  shows "0 < batch \<Longrightarrow> \<exists>s' n. embed_loop P now em agent deadline ticks k batch ids s = (s', Inr (n = length ids))
    \<and> n \<le> length ids \<and> same_rows s s' \<and> gained d agent (set (take n ids) \<inter> row_ids s) (my_index s) (my_index s')
    \<and> (if n = length ids then my_pending s' = my_pending s else agent \<in> my_pending s')
    \<and> ((case deadline of None \<Rightarrow> True | Some x \<Rightarrow> tk_check (ticks k) < x) \<longrightarrow> min batch (length ids) \<le> n)"
  using assms(1,3,4)
proof (induction P now em agent deadline ticks k batch ids s rule: embed_loop.induct)
  case (1 P now em agent deadline ticks k batch ids s)
  note loop = embed_loop.simps[of P now em agent deadline ticks k batch ids s]
  show ?case
  proof (cases "ids = [] \<or> (case deadline of None \<Rightarrow> False | Some x \<Rightarrow> x \<le> tk_check (ticks k))")
    case True
    define s' where "s' = (if ids = [] then s else mark_pending agent s)"
    have "embed_loop P now em agent deadline ticks k batch ids s = (s', Inr (0 = length ids))"
      using True 1(2) by (auto simp: loop s'_def)
    then show ?thesis using True 1(3)
      by (intro exI[of _ s'] exI[of _ 0])
        (auto simp: s'_def mark_pending_def same_rows_def gained_def split: option.splits)
  next
    case False
    obtain s1 where ch: "embed_chunk P now em agent (tk_retry (ticks k)) (take batch ids) s = (s1, BatchDone)"
      and s1: "same_rows s s1" "my_pending s1 = my_pending s"
        "gained d agent (set (take batch ids) \<inter> row_ids s) (my_index s) (my_index s1)"
      using embed_chunk_effect[OF 1(3) assms(2) 1(4)] 1(5) by metis
    define b where "b = (if deadline \<noteq> None \<and> snd (read_chunk P now (take batch ids) s) \<noteq> []
        \<and> tk_end (ticks k) - tk_began (ticks k) < CATCHUP_SECONDS / 8 then min EMBED_BATCH (batch * 2) else batch)"
    have rec: "embed_loop P now em agent deadline ticks k batch ids s
        = embed_loop P now em agent deadline ticks (Suc k) b (drop batch ids) s1"
      using False 1(2) by (simp add: loop ch b_def)
    have pos: "0 < b" using 1(2) by (simp add: b_def EMBED_BATCH_def)
    have "\<not> (ids = [] \<or> batch = 0)" "\<not> (case deadline of None \<Rightarrow> False | Some x \<Rightarrow> x \<le> tk_check (ticks k))"
      using False 1(2) by auto
    from 1(1)[OF this ch[symmetric] refl, folded b_def, OF pos] s1(1,3) 1(4,5)
    obtain s' n where s': "embed_loop P now em agent deadline ticks (Suc k) b (drop batch ids) s1 = (s', Inr (n = length (drop batch ids)))"
      "n \<le> length (drop batch ids)" "same_rows s1 s'"
      "gained d agent (set (take n (drop batch ids)) \<inter> row_ids s1) (my_index s1) (my_index s')"
      "if n = length (drop batch ids) then my_pending s' = my_pending s1 else agent \<in> my_pending s'"
      unfolding same_rows_def gained_def by metis
    define m where "m = (if length ids \<le> batch then length ids else batch + n)"
    have tk: "set (take m ids) = set (take batch ids) \<union> set (take n (drop batch ids))" using s'(2)
      by (auto simp: m_def take_add)
    have "gained d agent (set (take m ids) \<inter> row_ids s) (my_index s) (my_index s')"
      using gained_trans[OF s1(3) s'(4)] unfolding tk same_rows_ids[OF s1(1)] by (simp add: Int_Un_distrib2)
    moreover have "m \<le> length ids" "(n = length (drop batch ids)) = (m = length ids)" "min batch (length ids) \<le> m"
      using s'(2) by (auto simp: m_def)
    moreover have "same_rows s s'" using s1(1) s'(3) by (simp add: same_rows_def)
    ultimately show ?thesis using s' s1(2) unfolding rec by (intro exI[of _ s'] exI[of _ m]) simp
  qed
qed

lemma load_missing_alt:
  assumes "index_ok (my_index s)"
  shows "load_missing P now em listing deadline ticks agent A s =
    (let missing = scope_frozen A - held s agent
     in if missing = {} then (s, Inr True)
        else case load_some em listing agent (index_count (my_index s) (Some agent)) missing s of
          (s1, Inl e) \<Rightarrow> (s1, Inl e)
        | (s1, Inr todo) \<Rightarrow>
            if todo = [] then (s1, Inr True)
            else (case embed_and_index P now em agent (Some deadline) ticks todo s1 of
              (s2, Inl e) \<Rightarrow> (s2, Inl e)
            | (s2, Inr fin) \<Rightarrow> (s2, Inr (fin \<and> set todo \<subseteq> held s2 agent))))"
proof -
  have "(if index_count (my_index s) (Some agent) = 0 then scope_frozen A
      else index_missing (my_index s) (scope_frozen A) (Some agent)) = scope_frozen A - held s agent"
    by (auto simp: index_missing_ids index_count_def)
  then show ?thesis by (simp only: load_missing_def load_some_def Let_def)
qed

lemma load_some_gained:
  assumes "index_takes d (my_index s)" "0 < d" "em_dim em = Some d" "lists_sets listing missing" "finite missing"
    "tbl_ok fr_id (db_fragments (my_db s))" "missing \<inter> held s agent = {}"
  obtains ix todo D where "load_some em listing agent (index_count (my_index s) (Some agent)) missing s = (s\<lparr>my_index := ix\<rparr>, Inr todo)"
    "D \<subseteq> missing" "gained d agent D (my_index s) ix" "set todo = missing - D" "distinct todo"
proof (cases "card missing > BULK_GAP")
  case True
  then show ?thesis using that load_bulk_gained[OF assms(1-6) True refl assms(7)] by blast
next
  case False
  obtain ix todo where "load_some em listing agent (index_count (my_index s) (Some agent)) missing s = (s\<lparr>my_index := ix\<rparr>, Inr todo)"
    "gained d agent (missing \<inter> vectored d s) (my_index s) ix" "set todo = missing - vectored d s" "distinct todo"
    using load_each_gained[OF assms(1-6) False] by blast
  then show ?thesis using that[of ix todo "missing \<inter> vectored d s"] by blast
qed

definition sync_step :: "ustr \<Rightarrow> ustr set \<Rightarrow> nat \<Rightarrow> memory_sys \<Rightarrow> memory_sys \<Rightarrow> bool \<Rightarrow> bool" where
  "sync_step agent X d s s' b \<longleftrightarrow> same_rows s s' \<and> index_takes d (my_index s') \<and> held s agent \<subseteq> held s' agent
     \<and> (b \<longleftrightarrow> X \<subseteq> held s' agent) \<and> (if b then my_pending s' = my_pending s else agent \<in> my_pending s')
     \<and> (\<not> b \<longrightarrow> card (X - held s' agent) + CATCHUP_FIRST_BATCH \<le> card (X - held s agent))"

lemma load_missing_effect:
  assumes "index_takes d (my_index s)" "0 < d" "em_dim em = Some d" "embedder_answers d em" "lists_sets listing (scope_frozen A)"
    "tbl_ok fr_id (db_fragments (my_db s))" "finite (scope_frozen A)" "scope_frozen A \<subseteq> row_ids s"
    "\<forall>k. my_retry_at s \<le> tk_retry (ticks k)" "tk_check (ticks 0) < deadline"
  shows "\<exists>s' b. load_missing P now em listing deadline ticks agent A s = (s', Inr b)
    \<and> sync_step agent (scope_frozen A) d s s' b"
proof (cases "scope_frozen A - held s agent = {}")
  case True
  then show ?thesis using assms(1) index_takesD(1)[OF assms(1)]
    by (intro exI[of _ s] exI[of _ True]) (auto simp: load_missing_alt sync_step_def same_rows_def)
next
  case False
  let ?A = "scope_frozen A"
  let ?M = "?A - held s agent"
  have fin: "finite ?M" and dis: "?M \<inter> held s agent = {}" using assms(7) by auto
  obtain ix todo D where ld: "load_some em listing agent (index_count (my_index s) (Some agent)) ?M s = (s\<lparr>my_index := ix\<rparr>, Inr todo)"
    "D \<subseteq> ?M" "gained d agent D (my_index s) ix" "set todo = ?M - D" "distinct todo"
  proof (rule load_some_gained[OF assms(1-3) _ fin assms(6) dis])
    show "lists_sets listing ?M" using assms(5) by (auto simp: lists_sets_def)
  qed
  let ?s1 = "s\<lparr>my_index := ix\<rparr>"
  have h1: "index_takes d (my_index ?s1)" "held ?s1 agent = held s agent \<union> D"
    using gainedD[of d agent D s ?s1] ld(3) assms(1) by auto
  show ?thesis
  proof (cases "todo = []")
    case True
    then have "?A \<subseteq> held ?s1 agent" using ld(2,4) h1(2) by auto
    then show ?thesis using True ld(1) h1 False index_takesD(1)[OF assms(1)]
      by (intro exI[of _ ?s1] exI[of _ True]) (auto simp: load_missing_alt Let_def sync_step_def same_rows_def)
  next
    case todo: False
    have ck: "case Some deadline of None \<Rightarrow> True | Some x \<Rightarrow> tk_check (ticks 0) < x" using assms(10) by simp
    have "\<forall>k. my_retry_at ?s1 \<le> tk_retry (ticks k)" using assms(9) by simp
    from embed_loop_effect[OF h1(1) assms(2,4) this, of 8 P now agent "Some deadline" 0 todo] ck
    obtain s' n where emb: "embed_and_index P now em agent (Some deadline) ticks todo ?s1 = (s', Inr (n = length todo))"
      "n \<le> length todo" "same_rows ?s1 s'" "gained d agent (set (take n todo) \<inter> row_ids ?s1) (my_index ?s1) (my_index s')"
      "if n = length todo then my_pending s' = my_pending s else agent \<in> my_pending s'" "min 8 (length todo) \<le> n"
      by (auto simp: embed_and_index_def EMBED_BATCH_def CATCHUP_FIRST_BATCH_def)
    have "set (take n todo) \<inter> row_ids ?s1 = set (take n todo)" using assms(8) ld(4) set_take_subset[of n todo] by auto
    then have h2: "index_takes d (my_index s')" "held s' agent = held s agent \<union> D \<union> set (take n todo)"
      using gainedD[OF emb(4)] h1 by auto
    have left: "?A - held s' agent = set (drop n todo)"
    proof -
      have "set todo = set (take n todo) \<union> set (drop n todo)" by (metis append_take_drop_id set_append)
      moreover have "set (take n todo) \<inter> set (drop n todo) = {}" using ld(5) by (simp add: set_take_disj_set_drop_if_distinct)
      ultimately show ?thesis using ld(2,4) h2(2) by blast
    qed
    have "?A \<subseteq> held s' agent \<longleftrightarrow> set (drop n todo) = {}" unfolding left[symmetric] by blast
    then have b: "(n = length todo) \<longleftrightarrow> ?A \<subseteq> held s' agent" using emb(2) by simp linarith
    have "card (?A - held s' agent) + 8 \<le> card ?M" if "n \<noteq> length todo"
    proof -
      have "card (set todo) \<le> card ?M" using ld(4) fin by (auto intro: card_mono)
      then have "length todo \<le> card ?M" using ld(5) by (simp add: distinct_card)
      then show ?thesis using that emb(2,6) ld(5) unfolding left by (simp add: distinct_card)
    qed
    then have "sync_step agent ?A d s s' (n = length todo)"
      using h2 emb(3,5) b by (auto simp: sync_step_def same_rows_def CATCHUP_FIRST_BATCH_def)
    moreover have "n = length todo \<Longrightarrow> set todo \<subseteq> held s' agent" using h2(2) by auto
    ultimately show ?thesis using False todo ld(1) emb(1) index_takesD(1)[OF assms(1)]
      by (intro exI[of _ s'] exI[of _ "n = length todo"]) (auto simp: load_missing_alt Let_def)
  qed
qed

section \<open>Repeated syncs finish a backlog\<close>

text \<open>One sync per clock; the answers in order.\<close>

fun sync_rounds ::
  "provider \<Rightarrow> datetime \<Rightarrow> embedder_env \<Rightarrow> (ustr set \<Rightarrow> ustr list) \<Rightarrow> ustr \<Rightarrow> scope_ids \<Rightarrow> sync_clock list
    \<Rightarrow> sync_sys \<Rightarrow> sync_sys \<times> (write_error + ustr set option list)" where
  "sync_rounds P now em listing agent A [] y = (y, Inr [])"
| "sync_rounds P now em listing agent A (ck # cks) y =
     (case sync_index P now em listing ck agent A y of
        (y1, Inl e) \<Rightarrow> (y1, Inl e)
      | (y1, Inr r) \<Rightarrow> (case sync_rounds P now em listing agent A cks y1 of
            (y2, Inl e) \<Rightarrow> (y2, Inl e)
          | (y2, Inr rs) \<Rightarrow> (y2, Inr (r # rs))))"

text \<open>The ids a sync says are indexed.\<close>

definition sync_answer :: "scope_ids \<Rightarrow> ustr set option \<Rightarrow> ustr set" where
  "sync_answer A r = (case r of None \<Rightarrow> scope_set A | Some R \<Rightarrow> R)"

text \<open>The clock of a sync that may retry and whose first batch starts in time.\<close>

definition clock_runs :: "real \<Rightarrow> sync_clock \<Rightarrow> bool" where
  "clock_runs t ck \<longleftrightarrow> t \<le> ck_pending ck \<and> (\<forall>k. t \<le> tk_retry (ck_load ck k))
     \<and> tk_check (ck_load ck 0) < ck_start ck + CATCHUP_SECONDS"

definition sync_state :: "nat \<Rightarrow> ustr \<Rightarrow> scope_ids \<Rightarrow> sync_sys \<Rightarrow> bool" where
  "sync_state d agent A y \<longleftrightarrow> index_takes d (my_index (yn_sys y)) \<and> tbl_ok fr_id (db_fragments (my_db (yn_sys y)))
     \<and> scope_set A \<subseteq> row_ids (yn_sys y) \<and> agent \<in> yn_verified y
     \<and> (\<forall>l. yn_synced y agent = Some l \<and> si_token (se_scope l) = si_token A
           \<and> se_revision l = vi_revision (my_index (yn_sys y))
         \<longrightarrow> sync_answer A (se_result l) = held (yn_sys y) agent
           \<and> (scope_set A \<subseteq> held (yn_sys y) agent \<or> agent \<in> my_pending (yn_sys y)))"

lemma full_sync_effect:
  assumes "index_takes d (my_index s)" "0 < d" "em_dim em = Some d" "embedder_answers d em"
    "lists_sets listing (scope_set A)" "tbl_ok fr_id (db_fragments (my_db s))" "scope_inv A" "scope_set A \<subseteq> row_ids s"
    "clock_runs (my_retry_at s) ck"
  shows "\<exists>s' l. full_sync P now em listing ck agent A s = (s', Inr l) \<and> same_rows s s' \<and> index_takes d (my_index s')
    \<and> held s agent \<subseteq> held s' agent
    \<and> (scope_set A \<subseteq> held s' agent
       \<or> agent \<in> my_pending s' \<and> card (scope_set A - held s' agent) + CATCHUP_FIRST_BATCH \<le> card (scope_set A - held s agent))
    \<and> sync_answer A (se_result l) = held s' agent"
proof -
  have fin: "finite (scope_frozen A)" using scope_inv_finite[OF assms(7)] by (simp add: scope_set_alt)
  obtain s1 b where ld: "load_missing P now em listing (catchup_deadline (ck_start ck)) (ck_load ck) agent A s = (s1, Inr b)"
    and st: "sync_step agent (scope_set A) d s s1 b"
    using load_missing_effect[OF assms(1-4), of listing A "ck_load ck" "catchup_deadline (ck_start ck)" P now agent]
      assms(5,6,8,9) fin by (auto simp: scope_set_alt clock_runs_def catchup_deadline_def)
  have ok: "index_ok (my_index s1)" using st by (simp add: sync_step_def index_takes_def)
  have eq: "scope_eq_set A X \<longleftrightarrow> scope_set A = X" if "finite X" for X
    using scope_compare_correct assms(7) that by simp
  have cnt: "held s1 agent = scope_set A" if "b" "int (length (index_ids (my_index s1) (Some agent))) = si_len A"
  proof -
    have "card (held s1 agent) = card (scope_set A)"
      using that(2) by (simp add: scope_len[OF assms(7)] distinct_card[OF index_ids_distinct[OF ok]])
    moreover have "scope_set A \<subseteq> held s1 agent" using st that(1) by (simp add: sync_step_def)
    ultimately show ?thesis by (metis card_subset_eq List.finite_set)
  qed
  have prog: "same_rows s s1 \<and> index_takes d (my_index s1) \<and> held s agent \<subseteq> held s1 agent"
    "scope_set A \<subseteq> held s1 agent
      \<or> agent \<in> my_pending s1 \<and> card (scope_set A - held s1 agent) + CATCHUP_FIRST_BATCH \<le> card (scope_set A - held s agent)"
    using st by (cases b; simp add: sync_step_def)+
  show ?thesis
  proof (cases "b \<and> int (length (index_ids (my_index s1) (Some agent))) = si_len A")
    case True
    then have "full_sync P now em listing ck agent A s = (pending_done agent s1,
        Inr \<lparr>se_scope = A, se_revision = vi_revision (my_index s1), se_result = None\<rparr>)"
      by (simp add: full_sync_def ld Let_def)
    moreover have "held s1 agent = scope_set A" using cnt True by blast
    ultimately show ?thesis using prog(1)
      by (intro exI[of _ "pending_done agent s1"] exI conjI) (assumption | simp add: pending_done_def same_rows_def sync_answer_def)+
  next
    case False
    define l where "l = \<lparr>se_scope = A, se_revision = vi_revision (my_index s1),
      se_result = (if scope_eq_set A (held s1 agent) then None else Some (held s1 agent))\<rparr>"
    have "full_sync P now em listing ck agent A s = (s1, Inr l)"
      by (simp add: full_sync_def ld Let_def l_def if_not_P[OF False])
    moreover have "sync_answer A (se_result l) = held s1 agent" using eq[of "held s1 agent"] by (simp add: l_def sync_answer_def)
    ultimately show ?thesis using prog by blast
  qed
qed

lemma sync_index_effect:
  assumes "sync_state d agent A y" "0 < d" "em_dim em = Some d" "embedder_answers d em"
    "lists_sets listing (scope_set A)" "scope_inv A" "si_parent A = None"
    "clock_runs (my_retry_at (yn_sys y)) ck"
  shows "\<exists>y' r. sync_index P now em listing ck agent A y = (y', Inr r) \<and> sync_state d agent A y'
    \<and> my_retry_at (yn_sys y') = my_retry_at (yn_sys y) \<and> sync_answer A r = held (yn_sys y') agent
    \<and> (scope_set A \<subseteq> held (yn_sys y') agent
       \<or> card (scope_set A - held (yn_sys y') agent) + CATCHUP_FIRST_BATCH \<le> card (scope_set A - held (yn_sys y) agent))"
proof -
  let ?s = "yn_sys y"
  define unchanged where "unchanged = (case yn_synced y agent of None \<Rightarrow> False
     | Some l \<Rightarrow> si_token (se_scope l) = si_token A \<and> se_revision l = vi_revision (my_index ?s))"
  have st: "index_takes d (my_index ?s)" "tbl_ok fr_id (db_fragments (my_db ?s))" "scope_set A \<subseteq> row_ids ?s" "agent \<in> yn_verified y"
    using assms(1) by (simp_all add: sync_state_def)
  have once: "verify_once P now em ck agent y = (y, None)" using st(4) by (simp add: verify_once_def)
  have delta: "sync_delta P now em listing (ck_delta ck) agent l A ?s = (?s, Inr None)" for l
    using assms(7) by (simp add: sync_delta_def split: option.split)
  show ?thesis
  proof (cases "unchanged \<and> \<not> has_pending agent (ck_pending ck) ?s")
    case True
    then obtain l where l: "yn_synced y agent = Some l" "si_token (se_scope l) = si_token A" "se_revision l = vi_revision (my_index ?s)"
      by (auto simp: unchanged_def split: option.splits)
    then have ans: "sync_answer A (se_result l) = held ?s agent" "scope_set A \<subseteq> held ?s agent \<or> agent \<in> my_pending ?s"
      using assms(1) by (auto simp: sync_state_def)
    have "agent \<notin> my_pending ?s" using True assms(8) by (simp add: has_pending_def clock_runs_def)
    moreover have "sync_index P now em listing ck agent A y = (y, Inr (se_result l))"
      using True l by (simp add: sync_index_def once Let_def)
    ultimately show ?thesis using assms(1) ans by blast
  next
    case False
    obtain s' l where fs: "full_sync P now em listing ck agent A ?s = (s', Inr l)" "same_rows ?s s'" "index_takes d (my_index s')"
      "scope_set A \<subseteq> held s' agent
       \<or> agent \<in> my_pending s' \<and> card (scope_set A - held s' agent) + CATCHUP_FIRST_BATCH \<le> card (scope_set A - held ?s agent)"
      "sync_answer A (se_result l) = held s' agent"
      using full_sync_effect[OF st(1) assms(2-5) st(2) assms(6) st(3) assms(8)] by blast
    define y' where "y' = y\<lparr>yn_sys := s', yn_synced := (yn_synced y)(agent \<mapsto> l)\<rparr>"
    have "sync_index P now em listing ck agent A y = (y', Inr (se_result l))"
      by (simp add: sync_index_def once Let_def delta fs(1) y'_def if_not_P[OF False[unfolded unchanged_def]])
    moreover have "sync_state d agent A y'"
      using st same_rows_ids[OF fs(2)] fs(2-5) by (auto simp: sync_state_def y'_def same_rows_def)
    moreover have "my_retry_at (yn_sys y') = my_retry_at ?s" "yn_sys y' = s'" using fs(2) by (simp_all add: y'_def same_rows_def)
    ultimately show ?thesis using fs(4,5) by blast
  qed
qed

lemma sync_rounds_effect:
  assumes "sync_state d agent A y" "0 < d" "em_dim em = Some d" "embedder_answers d em"
    "lists_sets listing (scope_set A)" "scope_inv A" "si_parent A = None"
    "\<forall>ck\<in>set cks. clock_runs (my_retry_at (yn_sys y)) ck" "cks \<noteq> []"
    "card (scope_set A - held (yn_sys y) agent) \<le> CATCHUP_FIRST_BATCH * length cks"
  shows "\<exists>y' rs. sync_rounds P now em listing agent A cks y = (y', Inr rs) \<and> rs \<noteq> []
    \<and> scope_set A \<subseteq> sync_answer A (last rs) \<and> sync_answer A (last rs) = held (yn_sys y') agent"
  using assms(1,8-10)
proof (induction cks arbitrary: y)
  case (Cons ck cks)
  have "clock_runs (my_retry_at (yn_sys y)) ck" using Cons.prems(2) by simp
  from sync_index_effect[OF Cons.prems(1) assms(2-7) this, of P now] obtain y1 r
    where one: "sync_index P now em listing ck agent A y = (y1, Inr r)" "sync_state d agent A y1"
      "my_retry_at (yn_sys y1) = my_retry_at (yn_sys y)" "sync_answer A r = held (yn_sys y1) agent"
      "scope_set A \<subseteq> held (yn_sys y1) agent
       \<or> card (scope_set A - held (yn_sys y1) agent) + CATCHUP_FIRST_BATCH \<le> card (scope_set A - held (yn_sys y) agent)"
    by blast
  have fin: "finite (scope_set A)" by (rule scope_inv_finite[OF assms(6)])
  have left: "card (scope_set A - held (yn_sys y1) agent) \<le> CATCHUP_FIRST_BATCH * length cks"
    using one(5)
  proof
    assume "scope_set A \<subseteq> held (yn_sys y1) agent"
    then have "scope_set A - held (yn_sys y1) agent = {}" by blast
    then show ?thesis by (metis card.empty le0)
  qed (use Cons.prems(4) in simp)
  show ?case
  proof (cases cks)
    case Nil
    then have "scope_set A - held (yn_sys y1) agent = {}" using left fin by simp
    then have "scope_set A \<subseteq> sync_answer A r" using one(4) by blast
    then show ?thesis using one Nil by (intro exI[of _ y1] exI[of _ "[r]"]) simp
  next
    case (Cons c cs)
    from Cons.IH[OF one(2)] Cons.prems(2) Cons left one(3)
    obtain y' rs where "sync_rounds P now em listing agent A cks y1 = (y', Inr rs)" "rs \<noteq> []"
      "scope_set A \<subseteq> sync_answer A (last rs)" "sync_answer A (last rs) = held (yn_sys y') agent" by auto
    then show ?thesis using one(1) by (intro exI[of _ y'] exI[of _ "r # rs"]) simp
  qed
qed simp

text \<open>C31: The sync always finishes. With an embedder that answers vectors of its one dimension, an
  index of that dimension, and syncs that may retry and whose first batch starts before the deadline,
  a scope of stored memories is indexed completely after one sync per eight memories that were
  missing, however long their embedding takes, by whatever path their vectors are loaded; no sync
  raises, and the last answer is exactly what the index then holds for the agent.\<close>

theorem backlog_is_indexed:
  assumes "embedder_answers d em" "em_dim em = Some d" "0 < d"
    "index_takes d (my_index (yn_sys y))" "tbl_ok fr_id (db_fragments (my_db (yn_sys y)))"
    "scope_set A \<subseteq> fr_id ` set (db_fragments (my_db (yn_sys y)))" "scope_inv A" "si_parent A = None"
    "agent \<in> yn_verified y" "yn_synced y agent = None" "lists_sets listing (scope_set A)"
    "\<forall>ck\<in>set cks. clock_runs (my_retry_at (yn_sys y)) ck" "cks \<noteq> []"
    "card (index_missing (my_index (yn_sys y)) (scope_set A) (Some agent)) \<le> CATCHUP_FIRST_BATCH * length cks"
  shows "\<exists>y' rs. sync_rounds P now em listing agent A cks y = (y', Inr rs) \<and> rs \<noteq> []
    \<and> scope_set A \<subseteq> sync_answer A (last rs)
    \<and> sync_answer A (last rs) = set (index_ids (my_index (yn_sys y')) (Some agent))"
proof -
  have "sync_state d agent A y" using assms(4-6,9,10) by (simp add: sync_state_def)
  then show ?thesis
    by (rule sync_rounds_effect[OF _ assms(3,2,1,11,7,8,12,13) assms(14)[unfolded index_missing_ids]])
qed

definition wit_sync_embedder :: embedder_env where
  "wit_sync_embedder = \<lparr>em_batch = wit_embedder, em_dim = Some 2, em_print = Some (u ''m:2''), em_probe = Vectors [],
     em_probed = u ''m:2'', em_filter = (\<lambda>fp. None)\<rparr>"

definition wit_tick :: tick where "wit_tick = \<lparr>tk_check = 0, tk_began = 0, tk_retry = 0, tk_end = 0\<rparr>"

definition wit_clock :: sync_clock where
  "wit_clock = \<lparr>ck_start = 0, ck_failed = 0, ck_pending = 0, ck_verify = (\<lambda>k. wit_tick), ck_delta = (\<lambda>k. wit_tick),
     ck_load = (\<lambda>k. wit_tick)\<rparr>"

definition wit_sync :: sync_sys where
  "wit_sync = \<lparr>yn_sys = (wit_system None)\<lparr>my_db := empty_db\<lparr>db_fragments := [wit_embedded\<lparr>fr_embedding := None\<rparr>]\<rparr>\<rparr>,
     yn_verified = {u ''a''}, yn_synced = (\<lambda>a. None), yn_meta = (\<lambda>k. None)\<rparr>"

definition wit_listing :: "ustr set \<Rightarrow> ustr list" where
  "wit_listing X = (if X = {} then [] else [u ''f1''])"

lemma backlog_is_indexed_witness:
  "\<exists>y' rs. sync_rounds (noop_provider wit_sha) (DT 2026 1 1 0 0 0 0) wit_sync_embedder wit_listing (u ''a'')
       (scope_ids_new 1 {u ''f1''}) [wit_clock] wit_sync = (y', Inr rs)
     \<and> u ''f1'' \<in> set (index_ids (my_index (yn_sys y')) (Some (u ''a'')))"
proof -
  let ?A = "scope_ids_new 1 {u ''f1''}"
  have A: "scope_set ?A = {u ''f1''}" "scope_inv ?A" "si_parent ?A = None"
    by (simp_all add: scope_ids_new_def scope_init_inv del: u_simps) (simp add: scope_ids_init_def)
  have em: "embedder_answers 2 wit_sync_embedder" "em_dim wit_sync_embedder = Some 2"
    by (auto simp: embedder_answers_def wit_sync_embedder_def wit_embedder_def)
  have ix: "index_takes 2 (my_index (yn_sys wit_sync))"
    using index_empty_ok[of BackendAuto True]
    by (simp add: index_takes_def wit_sync_def wit_system_def numpy_parts_def index_empty_def)
  have rows: "tbl_ok fr_id (db_fragments (my_db (yn_sys wit_sync)))"
    "scope_set ?A \<subseteq> fr_id ` set (db_fragments (my_db (yn_sys wit_sync)))"
    by (simp_all add: A wit_sync_def wit_embedded_def wit_fragment_def del: u_simps)
  have ver: "u ''a'' \<in> yn_verified wit_sync" "yn_synced wit_sync (u ''a'') = None"
    by (simp_all add: wit_sync_def del: u_simps)
  have lst: "lists_sets wit_listing (scope_set ?A)" unfolding A by (auto simp: lists_sets_def wit_listing_def simp del: u_simps)
  have ck: "\<forall>ck\<in>set [wit_clock]. clock_runs (my_retry_at (yn_sys wit_sync)) ck" "[wit_clock] \<noteq> []"
    by (simp_all add: clock_runs_def wit_clock_def wit_tick_def wit_sync_def wit_system_def CATCHUP_SECONDS_def)
  have gap: "card (index_missing (my_index (yn_sys wit_sync)) (scope_set ?A) (Some (u ''a'')))
      \<le> CATCHUP_FIRST_BATCH * length [wit_clock]"
    by (simp add: A index_missing_def wit_sync_def wit_system_def index_empty_def CATCHUP_FIRST_BATCH_def del: u_simps)
  show ?thesis
    using backlog_is_indexed[OF em _ ix rows A(2,3) ver lst ck gap, of "noop_provider wit_sha" "DT 2026 1 1 0 0 0 0"]
    by (auto simp: A simp del: u_simps)
qed

section \<open>An outage while a changed embedder re-embeds\<close>

text \<open>The new fingerprint is recorded although nothing was embedded, and the same sync loads the
  vectors of the old embedder back as current ones: the agent is no longer pending, and the two vector
  spaces stay mixed.\<close>

definition down_embedder :: embedder_env where
  "down_embedder = wit_sync_embedder\<lparr>em_batch := (\<lambda>ts. Transient), em_print := Some (u ''n:2'')\<rparr>"

definition old_sync :: sync_sys where
  "old_sync = \<lparr>yn_sys = (wit_system None)\<lparr>my_db := empty_db\<lparr>db_fragments := [wit_embedded]\<rparr>\<rparr>,
     yn_verified = {}, yn_synced = (\<lambda>a. None), yn_meta = (\<lambda>k. Some (u ''m:2''))\<rparr>"

definition old_deferred :: memory_sys where
  "old_deferred = (yn_sys old_sync)\<lparr>my_index := index_clear (Some (u ''a'')) (index_empty BackendAuto True),
     my_retry_at := 30, my_outage := True, my_pending := {u ''a''}\<rparr>"

lemma old_clean: "decode_fragment (noop_provider wit_sha) wit_embedded = (wit_embedded, False)"
  by (simp add: decode_fragment_def Let_def wit_embedded_def wit_fragment_def wit_strip noop_provider_def hash_check_def
      del: u_simps)

lemma old_row: "fr_id wit_embedded = u ''f1''" "fr_agent wit_embedded = u ''a''" "fr_state wit_embedded = UNVERIFIED"
  "fr_embedding wit_embedded = Some [1, 0]"
  by (simp_all add: wit_embedded_def wit_fragment_def del: u_simps)

lemma old_chunk:
  "embed_chunk (noop_provider wit_sha) now down_embedder (u ''a'') 0 [u ''f1'']
     ((yn_sys old_sync)\<lparr>my_index := index_clear (Some (u ''a'')) (index_empty BackendAuto True)\<rparr>) = (old_deferred, BatchDeferred)"
  by (simp add: old_row embed_chunk_def read_chunk_def get_many_def old_sync_def old_clean Let_def wit_system_def
      old_deferred_def embed_batch_or_defer_def down_embedder_def mark_pending_def RETRY_SECONDS_def map_filter_simps
      del: u_simps)

lemma old_prints: "\<not> same_embedding_space (u ''m:2'') (u ''n:2'')" "\<not> dim_unknown (u ''n:2'')" "u ''n:2'' \<noteq> []"
  by (simp_all add: same_embedding_space_def rpartition_def COLON_def dim_unknown_def suffix_to_prefix)

lemma old_reembed:
  "reembed (noop_provider wit_sha) now down_embedder (\<lambda>k. wit_tick) (u ''a'') (u ''m:2'') (yn_sys old_sync)
     = (old_deferred, Inr False)"
proof -
  have ids: "map fst (stored_embeddings (my_db (yn_sys old_sync)) (u ''a'') None) = [u ''f1'']"
    by (simp add: stored_embeddings_def embeddings_for_agent_def old_sync_def old_row is_retrievable_def
        retrievable_states_def del: u_simps)
  have ix: "my_index (yn_sys old_sync) = index_empty BackendAuto True" by (simp add: old_sync_def wit_system_def)
  have none: "changed_ids P down_embedder db a f = None" for P db a f
    by (simp add: changed_ids_def down_embedder_def wit_sync_embedder_def)
  show ?thesis
    unfolding reembed_def none option.case ids ix
    by (simp add: embed_and_index_def EMBED_BATCH_def embed_loop.simps wit_tick_def old_chunk del: u_simps)
qed

lemma old_verify:
  "verify_once (noop_provider wit_sha) now down_embedder wit_clock (u ''a'') old_sync
     = (old_sync\<lparr>yn_sys := old_deferred, yn_verified := {u ''a''},
          yn_meta := (\<lambda>k. if k = meta_key (u ''a'') then Some (u ''n:2'') else Some (u ''m:2''))\<rparr>, None)"
proof -
  have m: "yn_meta old_sync k = Some (u ''m:2'')" "yn_verified old_sync = {}" "em_print down_embedder = Some (u ''n:2'')" for k
    by (simp_all add: old_sync_def down_embedder_def del: u_simps)
  have "verify_embedder (noop_provider wit_sha) now down_embedder (\<lambda>k. wit_tick) (u ''a'') old_sync
      = (old_sync\<lparr>yn_sys := old_deferred, yn_meta := (yn_meta old_sync)(meta_key (u ''a'') \<mapsto> u ''n:2'')\<rparr>, VerifyOk)"
    by (simp add: verify_embedder_def m old_prints record_print_def old_reembed Let_def del: u_simps)
  then show ?thesis
    by (simp add: verify_once_def m wit_clock_def fun_eq_iff old_sync_def fun_upd_def del: u_simps)
qed

lemma outage_mixes_spaces:
  "\<exists>y'. sync_index (noop_provider wit_sha) now down_embedder wit_listing wit_clock (u ''a'')
       (scope_ids_new tok {u ''f1''}) old_sync = (y', Inr None)
     \<and> yn_meta y' (meta_key (u ''a'')) = Some (u ''n:2'') \<and> my_pending (yn_sys y') = {}
     \<and> vec_of (my_index (yn_sys y')) (Some (u ''a'')) (u ''f1'') = Some (normalize_vec [1, 0])"
proof -
  let ?A = "scope_ids_new tok {u ''f1''}" and ?ix = "my_index old_deferred"
  have A: "scope_frozen ?A = {u ''f1''}" "si_len ?A = 1"
    by (simp_all add: scope_ids_new_def scope_ids_init_def scope_frozen_def del: u_simps)
  have ix0: "?ix = (index_empty BackendAuto True)\<lparr>vi_revision := 1\<rparr>"
    by (simp add: old_deferred_def index_clear_def index_empty_def Let_def)
  have takes: "index_takes 2 ?ix" unfolding ix0 using index_empty_ok[of BackendAuto True]
    by (simp add: index_takes_def numpy_parts_def index_empty_def index_ok_def parts_ok_def vec_of_def)
  obtain ix where add: "index_add (u ''f1'') [1, 0] [] (Some (u ''a'')) ?ix = Inr ix" "index_takes 2 ix"
    "vi_owner ix = AList.update (u ''f1'') (Some (u ''a'')) (vi_owner ?ix)"
    using index_takes_add[OF takes, of "[1, 0]"] by fastforce
  have vec: "vec_of ix (Some (u ''a'')) (u ''f1'') = Some (normalize_vec [1, 0])"
    using index_add_effect(7)[OF index_takesD(1)[OF takes] add(1)] by simp
  have held: "set (index_ids ix (Some (u ''a''))) = {u ''f1''}"
    using index_ids_owner[OF index_takesD(1)[OF add(2)]] by (auto simp: add(3) ix0 index_empty_def simp del: u_simps split: if_splits)
  have cnt: "length (index_ids ix (Some (u ''a''))) = 1"
    unfolding distinct_card[OF index_ids_distinct[OF index_takesD(1)[OF add(2)]], of "u ''a''", symmetric] held by simp
  have db: "my_db old_deferred = empty_db\<lparr>db_fragments := [wit_embedded]\<rparr>" "em_dim down_embedder = Some 2"
    by (simp_all add: old_deferred_def old_sync_def down_embedder_def wit_sync_embedder_def)
  have load: "load_missing (noop_provider wit_sha) now down_embedder wit_listing dl (\<lambda>k. wit_tick) (u ''a'') ?A old_deferred
      = (old_deferred\<lparr>my_index := ix\<rparr>, Inr True)" for dl
    by (simp add: load_missing_def Let_def A index_count_def index_ids_def ix0 index_empty_def BULK_GAP_def
        wit_listing_def stored_embeddings_def db old_row usable_vector_def index_add_vec_def del: u_simps)
      (use add(1) in \<open>simp add: ix0 index_empty_def del: u_simps\<close>)
  define y where "y = old_sync\<lparr>yn_sys := old_deferred, yn_verified := {u ''a''},
          yn_meta := (\<lambda>k. if k = meta_key (u ''a'') then Some (u ''n:2'') else Some (u ''m:2''))\<rparr>"
  have y: "yn_synced y (u ''a'') = None" "yn_sys y = old_deferred" "yn_meta y (meta_key (u ''a'')) = Some (u ''n:2'')"
    by (simp_all add: y_def old_sync_def del: u_simps)
  have full: "full_sync (noop_provider wit_sha) now down_embedder wit_listing wit_clock (u ''a'') ?A old_deferred
      = (pending_done (u ''a'') (old_deferred\<lparr>my_index := ix\<rparr>),
         Inr \<lparr>se_scope = ?A, se_revision = vi_revision ix, se_result = None\<rparr>)"
    using load cnt by (simp add: full_sync_def A wit_clock_def Let_def del: u_simps)
  show ?thesis
    unfolding sync_index_def old_verify y_def[symmetric]
    using vec by (simp add: y Let_def sync_delta_def full pending_done_def del: u_simps) (simp add: old_deferred_def)
qed

end
