(* ===== verification/Lifecycle.thy ===== *)
theory Lifecycle
  imports Write_Path FactJobs Py_Text
begin

text \<open>
  The lifecycle of stored memories (\<^verbatim>\<open>memory/facade/lifecycle.py\<close>, \<^verbatim>\<open>revisions.py\<close>,
  \<^verbatim>\<open>forget_match.py\<close>, \<^verbatim>\<open>verbs.py\<close>, \<^verbatim>\<open>store/_sqlite/paging.py\<close> and \<open>forget_fragment\<close> of
  \<^verbatim>\<open>store/_sqlite/lifecycle.py\<close>): looking a memory up by its id or a short id, listing and paging,
  forgetting by id or by words with its cascade to the facts, the job queue and the ledger, and the
  revisions, which write a new memory and retire the old one. Case folding, the word characters,
  Python's \<open>str\<close> of a metadata value and the parser of natural dates are arguments.
\<close>

section \<open>State\<close>

record life_env =
  le_write :: write_env
  le_word :: "nat \<Rightarrow> bool"
  le_same :: "nat \<Rightarrow> nat \<Rightarrow> bool"
  le_casefold :: "ustr \<Rightarrow> ustr"
  le_str :: "meta_val \<Rightarrow> ustr"
  le_parse_time :: "ustr \<Rightarrow> datetime option"

record mem_world =
  mw_sys :: memory_sys
  mw_facts :: "fact list"
  mw_jobs :: job_db
  mw_ledger :: "ledger_row list"

record forget_preview =
  pw_match :: ustr
  pw_count :: nat
  pw_ids :: "ustr list"
  pw_lines :: "ustr list"

datatype life_error = BadSelector | ShortMatch | CommonWords | OverCap forget_preview | MemoryNotFound ustr
  | NotResolvable "string option" | UnknownId ustr | BadKind | BadDate | WriteFailed write_error | StoreFailed py_error

datatype forget_result = Forgotten nat | Preview forget_preview

text \<open>\<open>list(dict.fromkeys(xs))\<close>.\<close>

definition fromkeys :: "'a list \<Rightarrow> 'a list" where
  "fromkeys xs = rev (remdups (rev xs))"

section \<open>Reading one memory\<close>

text \<open>\<open>store.get\<close>: a row whose digest does not verify is relabelled and leaves the index.\<close>

definition sys_get :: "write_env \<Rightarrow> datetime \<Rightarrow> memory_sys \<Rightarrow> ustr \<Rightarrow> memory_sys \<times> fragment option" where
  "sys_get E now s mid =
     (let (db, r) = get_fragment (we_provider E) now (my_db s) mid;
          gone = (case tbl_get fr_id (db_fragments (my_db s)) mid of None \<Rightarrow> []
            | Some row \<Rightarrow> if snd (decode_fragment (we_provider E) row) then [mid] else [])
      in (notify_gone gone (s\<lparr>my_db := db\<rparr>), r))"

definition ids_with_prefix :: "store_db \<Rightarrow> ustr \<Rightarrow> ustr \<Rightarrow> nat \<Rightarrow> ustr list" where
  "ids_with_prefix db agent p n = take n (map fr_id
     (filter (\<lambda>r. fr_agent r = agent \<and> take (length p) (fr_id r) = p) (db_fragments db)))"

definition short_id :: "ustr \<Rightarrow> bool" where
  "short_id mid \<longleftrightarrow> 4 \<le> length (py_strip mid) \<and> length (py_strip mid) < 36"

definition own_fragment :: "write_env \<Rightarrow> fragment option \<Rightarrow> fragment option" where
  "own_fragment E r = (case r of None \<Rightarrow> None | Some f \<Rightarrow> if fr_agent f = we_agent E then Some f else None)"

definition facade_get :: "write_env \<Rightarrow> datetime \<Rightarrow> memory_sys \<Rightarrow> ustr \<Rightarrow> memory_sys \<times> fragment option" where
  "facade_get E now s mid =
     (let (s1, r) = sys_get E now s mid
      in if r = None \<and> short_id mid then
           (case ids_with_prefix (my_db s1) (we_agent E) (py_strip mid) 2 of
              [i] \<Rightarrow> (let (s2, r2) = sys_get E now s1 i in (s2, own_fragment E r2))
            | _ \<Rightarrow> (s1, None))
         else (s1, own_fragment E r))"

section \<open>Listing\<close>

definition UNREADABLE_TAG :: string where "UNREADABLE_TAG = ''mark:unreadable''"

text \<open>The rows \<open>_page_where\<close> selects: the filters, and no tag that is excluded.\<close>

definition page_rows :: "store_db \<Rightarrow> ustr \<Rightarrow> fragment_filter \<Rightarrow> string list \<Rightarrow> fragment list" where
  "page_rows db agent ff excl = filter (\<lambda>r. fragment_matches db agent ff r
     \<and> list_all (\<lambda>t. t \<notin> set (fr_tags r)) (excl @ [UNREADABLE_TAG])) (db_fragments db)"

definition sql_page :: "int option \<Rightarrow> int \<Rightarrow> 'a list \<Rightarrow> 'a list" where
  "sql_page lmt off xs = (if lmt \<noteq> None \<or> off \<noteq> 0
     then sql_limit lmt (drop (nat (max 0 off)) xs) else xs)"

definition page_fragments ::
  "provider \<Rightarrow> store_db \<Rightarrow> ustr \<Rightarrow> fragment_filter \<Rightarrow> string list \<Rightarrow> int option \<Rightarrow> int \<Rightarrow> fragment list" where
  "page_fragments P db agent ff excl lmt off =
     map (\<lambda>r. fst (decode_fragment P r))
       (sql_page lmt off (sort_key_desc fr_importance (sort_key_desc fr_created (rev (page_rows db agent ff excl)))))"

definition count_matching :: "store_db \<Rightarrow> ustr \<Rightarrow> fragment_filter \<Rightarrow> string list \<Rightarrow> nat" where
  "count_matching db agent ff excl = length (page_rows db agent ff excl)"

text \<open>\<open>_list_filters\<close>: the wanted and the excluded tags.\<close>

definition list_filters ::
  "memory_state list \<Rightarrow> string option \<Rightarrow> bool option \<Rightarrow> string list \<Rightarrow> ustr option
    \<Rightarrow> life_error + (fragment_filter \<times> string list)" where
  "list_filters states kind opn tags session =
     (case normalize_kind kind of
        Inl e \<Rightarrow> Inl BadKind
      | Inr k \<Rightarrow>
          (let wanted = tags @ (case k of None \<Rightarrow> [] | Some x \<Rightarrow> [kind_tag x]);
               closed = (if opn = Some False then [TAG_SUPERSEDED] else [])
           in Inr (no_filter\<lparr>ff_states := states, ff_tags := wanted @ closed, ff_session := session\<rparr>,
                if opn = Some True then [TAG_RESOLVED, TAG_SUPERSEDED] else [])))"

definition DEFAULT_LIMIT :: int where "DEFAULT_LIMIT = 100"

text \<open>\<open>list\<close>: the page, and the total when the default limit cut it short (the warning). The outer
  \<open>None\<close> of the limit is the default, the inner one asks for everything.\<close>

definition facade_list ::
  "write_env \<Rightarrow> memory_sys \<Rightarrow> memory_state list \<Rightarrow> int option option \<Rightarrow> int \<Rightarrow> string option \<Rightarrow> bool option
    \<Rightarrow> string list \<Rightarrow> ustr option \<Rightarrow> life_error + (fragment list \<times> nat option)" where
  "facade_list E s states lmt off kind opn tags session =
     bind_res (list_filters states kind opn tags session) (\<lambda>(ff, excl).
       let page = page_fragments (we_provider E) (my_db s) (we_agent E) ff excl
             (case lmt of None \<Rightarrow> Some DEFAULT_LIMIT | Some l \<Rightarrow> l) off;
           total = count_matching (my_db s) (we_agent E) ff excl
       in Inr (page, if lmt = None \<and> int (length page) = DEFAULT_LIMIT \<and> off + int (length page) < int total
            then Some total else None))"

definition facade_count ::
  "write_env \<Rightarrow> memory_sys \<Rightarrow> memory_state list \<Rightarrow> string option \<Rightarrow> bool option \<Rightarrow> string list \<Rightarrow> ustr option
    \<Rightarrow> life_error + nat" where
  "facade_count E s states kind opn tags session =
     bind_res (list_filters states kind opn tags session) (\<lambda>(ff, excl).
       Inr (count_matching (my_db s) (we_agent E) ff excl))"

definition list_by_session ::
  "write_env \<Rightarrow> memory_sys \<Rightarrow> ustr \<Rightarrow> memory_state list \<Rightarrow> int option \<Rightarrow> fragment list" where
  "list_by_session E s session states lmt = list_by_agent (we_provider E) (my_db s) (we_agent E)
     (no_filter\<lparr>ff_states := states, ff_session := Some session\<rparr>) lmt"

section \<open>Matching words\<close>

definition FORGET_MATCH_CAP :: nat where "FORGET_MATCH_CAP = 50"
definition MIN_MATCH_CHARS :: nat where "MIN_MATCH_CHARS = 3"
definition PREVIEW_CHARS :: nat where "PREVIEW_CHARS = 80"

definition FORGET_STOPWORDS :: "ustr list" where
  "FORGET_STOPWORDS = map u [''a'', ''an'', ''and'', ''are'', ''as'', ''at'', ''be'', ''but'', ''by'', ''for'', ''from'', ''has'',
     ''have'', ''he'', ''her'', ''his'', ''i'', ''if'', ''in'', ''into'', ''is'', ''it'', ''its'', ''me'', ''my'', ''no'',
     ''not'', ''of'', ''on'', ''or'', ''our'', ''she'', ''so'', ''than'', ''that'', ''the'', ''their'', ''them'', ''then'',
     ''there'', ''these'', ''they'', ''this'', ''to'', ''too'', ''was'', ''we'', ''were'', ''what'', ''when'', ''where'',
     ''which'', ''who'', ''will'', ''with'', ''you'', ''your'']"

text \<open>\<open>match_pattern\<close>: the words of the pattern, or why it is refused.\<close>

definition match_words :: "life_env \<Rightarrow> ustr \<Rightarrow> life_error + ustr list" where
  "match_words L m =
     (let ws = py_split m
      in if length (py_join [32] ws) < MIN_MATCH_CHARS then Inl ShortMatch
         else if list_all (\<lambda>w. strip_chars {34, 39, 33, 44, 46, 58, 59, 63} (le_casefold L w) \<in> set FORGET_STOPWORDS) ws
         then Inl CommonWords else Inr ws)"

fun eat :: "(nat \<Rightarrow> nat \<Rightarrow> bool) \<Rightarrow> ustr \<Rightarrow> ustr \<Rightarrow> ustr option" where
  "eat same [] s = Some s"
| "eat same (c # w) [] = None"
| "eat same (c # w) (d # s) = (if same c d then eat same w s else None)"

text \<open>The words with white space between them, at the start of the text: what is left after them.\<close>

fun eat_words :: "(nat \<Rightarrow> nat \<Rightarrow> bool) \<Rightarrow> ustr list \<Rightarrow> ustr \<Rightarrow> ustr option" where
  "eat_words same [] s = Some s"
| "eat_words same [w] s = eat same w s"
| "eat_words same (w # v # ws) s = (case eat same w s of
       None \<Rightarrow> None
     | Some r \<Rightarrow> if takeWhile py_isspace r = [] then None else eat_words same (v # ws) (dropWhile py_isspace r))"

definition matches_here :: "life_env \<Rightarrow> ustr list \<Rightarrow> nat option \<Rightarrow> ustr \<Rightarrow> bool" where
  "matches_here L ws before s \<longleftrightarrow>
     (case before of None \<Rightarrow> True | Some c \<Rightarrow> \<not> le_word L c)
     \<and> (case eat_words (le_same L) ws s of None \<Rightarrow> False | Some r \<Rightarrow> r = [] \<or> \<not> le_word L (hd r))"

fun search_words :: "life_env \<Rightarrow> ustr list \<Rightarrow> nat option \<Rightarrow> ustr \<Rightarrow> bool" where
  "search_words L ws before [] = matches_here L ws before []"
| "search_words L ws before (c # s) = (matches_here L ws before (c # s) \<or> search_words L ws (Some c) s)"

definition matching :: "life_env \<Rightarrow> fragment list \<Rightarrow> ustr \<Rightarrow> life_error + fragment list" where
  "matching L fs m = bind_res (match_words L m) (\<lambda>ws. Inr (filter (\<lambda>f. search_words L ws None (fr_content f)) fs))"

definition preview_line :: "fragment \<Rightarrow> ustr" where
  "preview_line f = (let t = py_join [32] (py_split (fr_content f))
     in take 8 (fr_id f) @ [32, 32] @ (if PREVIEW_CHARS < length t then take (PREVIEW_CHARS - 1) t @ [8230] else t))"

definition preview :: "ustr \<Rightarrow> fragment list \<Rightarrow> forget_preview" where
  "preview m fs = \<lparr>pw_match = py_join [32] (py_split m), pw_count = length fs, pw_ids = map fr_id fs,
     pw_lines = map preview_line fs\<rparr>"

definition over_cap :: "forget_preview \<Rightarrow> bool" where
  "over_cap p \<longleftrightarrow> FORGET_MATCH_CAP < pw_count p"

section \<open>Forgetting\<close>

text \<open>\<open>forget_fragment\<close>: the row, the facts it is the source of, its jobs and its ledger rows.\<close>

definition drop_jobs :: "ustr \<Rightarrow> job_db \<Rightarrow> job_db" where
  "drop_jobs fid db = db\<lparr>jd_jobs := tbl_delete (\<lambda>j. jb_fragment j = fid) (jd_jobs db)\<rparr>"

definition forget_fragment :: "datetime \<Rightarrow> bool \<Rightarrow> mem_world \<Rightarrow> ustr \<Rightarrow> mem_world \<times> bool" where
  "forget_fragment now secure w fid =
     (case tbl_get fr_id (db_fragments (my_db (mw_sys w))) fid of
        None \<Rightarrow> (w, False)
      | Some row \<Rightarrow>
          (let (db, removed) = delete_fragment (my_db (mw_sys w)) fid
           in (w\<lparr>mw_sys := notify_gone [fid] ((mw_sys w)\<lparr>my_db := db\<rparr>),
                 mw_facts := cascade_facts now secure (fr_agent row) [fid] (mw_facts w),
                 mw_jobs := drop_jobs fid (mw_jobs w),
                 mw_ledger := tbl_delete (\<lambda>l. lg_fragment l = Some fid) (mw_ledger w)\<rparr>, True)))"

definition unindex :: "ustr \<Rightarrow> mem_world \<Rightarrow> mem_world" where
  "unindex fid w = w\<lparr>mw_sys := (mw_sys w)\<lparr>my_index := index_remove fid (my_index (mw_sys w))\<rparr>\<rparr>"

text \<open>The loop of \<open>forget\<close>: the index entry goes before the row.\<close>

fun forget_ids :: "datetime \<Rightarrow> bool \<Rightarrow> mem_world \<Rightarrow> ustr list \<Rightarrow> mem_world \<times> nat" where
  "forget_ids now secure w [] = (w, 0)"
| "forget_ids now secure w (i # ids) =
     (let (w1, hit) = forget_fragment now secure (unindex i w) i;
          (w2, n) = forget_ids now secure w1 ids
      in (w2, (if hit then 1 else 0) + n))"

definition forget ::
  "life_env \<Rightarrow> datetime \<Rightarrow> mem_world \<Rightarrow> ustr option \<Rightarrow> ustr option \<Rightarrow> bool \<Rightarrow> bool \<Rightarrow> bool
    \<Rightarrow> mem_world \<times> (life_error + forget_result)" where
  "forget L now w mid match secure dry everything =
     (let E = le_write L;
          targets = (case (mid, match) of
              (Some i, None) \<Rightarrow> (let (s1, r) = facade_get E now (mw_sys w) i
                 in (w\<lparr>mw_sys := s1\<rparr>, Inr (i, case r of None \<Rightarrow> [] | Some f \<Rightarrow> [f])))
            | (None, Some m) \<Rightarrow> (w, bind_res (matching L (page_fragments (we_provider E) (my_db (mw_sys w))
                  (we_agent E) no_filter [] None 0) m) (\<lambda>fs. Inr (m, fs)))
            | _ \<Rightarrow> (w, Inl BadSelector))
      in case targets of
           (w1, Inl e) \<Rightarrow> (w1, Inl e)
         | (w1, Inr (what, fs)) \<Rightarrow>
             (let found = preview what fs
              in if dry then (w1, Inr (Preview found))
                 else if match \<noteq> None \<and> over_cap found \<and> \<not> everything then (w1, Inl (OverCap found))
                 else (let (w2, n) = forget_ids now secure w1 (pw_ids found) in (w2, Inr (Forgotten n)))))"

text \<open>\<open>clear\<close>: counts what \<open>list_by_agent\<close> shows and deletes every row of the agent.\<close>

definition facade_clear :: "write_env \<Rightarrow> memory_sys \<Rightarrow> memory_sys \<times> nat" where
  "facade_clear E s =
     (let fs = list_by_agent (we_provider E) (my_db s) (we_agent E) no_filter None;
          ids = map fr_id (filter (\<lambda>r. fr_agent r = we_agent E) (db_fragments (my_db s)))
      in (notify_gone ids (s\<lparr>my_index := fold (\<lambda>f. index_remove (fr_id f)) fs (my_index s),
              my_db := clear_fragments (my_db s) (Some (we_agent E))\<rparr>), length fs))"

section \<open>Promoting\<close>

definition sys_store :: "write_env \<Rightarrow> memory_sys \<Rightarrow> fragment \<Rightarrow> memory_sys \<times> life_error option" where
  "sys_store E s f = (case store_many (we_provider E) (my_db s) [f] of
       Inl e \<Rightarrow> (s, Some (StoreFailed e))
     | Inr (db, ids, gone) \<Rightarrow> (notify_gone gone (s\<lparr>my_db := db\<rparr>), None))"

definition promoted :: "datetime \<Rightarrow> fragment \<Rightarrow> py_error + fragment" where
  "promoted now f =
     bind_res (if fr_state f = UNVERIFIED then transition_to now f VERIFIED else Inr f) (\<lambda>g.
       if fr_state g = VERIFIED then transition_to now g PROMOTED else Inr g)"

text \<open>\<open>promote\<close> reads the store, whatever the agent of the row.\<close>

definition promote :: "write_env \<Rightarrow> datetime \<Rightarrow> memory_sys \<Rightarrow> ustr \<Rightarrow> memory_sys \<times> life_error option" where
  "promote E now s fid =
     (case sys_get E now s fid of
        (s1, None) \<Rightarrow> (s1, Some (UnknownId fid))
      | (s1, Some f) \<Rightarrow> (case promoted now f of
            Inl e \<Rightarrow> (s1, Some (StoreFailed e))
          | Inr g \<Rightarrow> sys_store E s1 g))"

section \<open>Remembering\<close>

text \<open>\<open>remember\<close>: the kind is the given one, else the one of the leading label when no tag names one.\<close>

definition remember_tags :: "(nat \<Rightarrow> bool) \<Rightarrow> ustr \<Rightarrow> string option \<Rightarrow> string list \<Rightarrow> string list" where
  "remember_tags dec content kind tags =
     (let ts = fromkeys tags;
          k = (if kind = None \<and> \<not> has_kind_tag ts then kind_from_text dec content else kind)
      in case k of None \<Rightarrow> ts | Some x \<Rightarrow> if kind_tag x \<in> set ts then ts else ts @ [kind_tag x])"

definition remember ::
  "life_env \<Rightarrow> datetime \<Rightarrow> real \<Rightarrow> (ustr list \<Rightarrow> embed_result) \<Rightarrow> ustr \<Rightarrow> memory_sys \<Rightarrow> content_in \<Rightarrow> write_options
    \<Rightarrow> number_in \<Rightarrow> number_in \<Rightarrow> string list \<Rightarrow> string option \<Rightarrow> meta_in \<Rightarrow> when_in \<Rightarrow> memory_sys \<times> (life_error + ustr)" where
  "remember L now clock emb fid s content opts imp conf tags kind meta occ =
     (case bind_res (case content of
               InText t \<Rightarrow> if py_strip t = [] then Inl (WriteFailed (InvalidMemory ''empty'')) else Inr t
             | _ \<Rightarrow> (case check_content (we_max (le_write L)) content of Inl e \<Rightarrow> Inl (WriteFailed e) | Inr t \<Rightarrow> Inr t)) (\<lambda>t.
           bind_res (case occ of
               WhenText x \<Rightarrow> (case le_parse_time L x of None \<Rightarrow> Inl BadDate | Some d \<Rightarrow> Inr (WhenDatetime d))
             | _ \<Rightarrow> Inr occ) (\<lambda>occ'.
           bind_res (case normalize_kind kind of Inl e \<Rightarrow> Inl BadKind | Inr k \<Rightarrow> Inr k) (\<lambda>k.
             Inr (occ', remember_tags (we_dec (le_write L)) t k tags)))) of
        Inl e \<Rightarrow> (s, Inl e)
      | Inr (occ', ts) \<Rightarrow>
          (case store_sync (le_write L) now clock emb fid s content opts imp conf
              (if ts = [] then TagsNone else TagsList ts) meta occ' of
             (s1, Inl e) \<Rightarrow> (s1, Inl (WriteFailed e))
           | (s1, Inr i) \<Rightarrow> (s1, Inr i)))"

section \<open>Revisions\<close>

definition RESOLVABLE_KINDS :: "string list" where "RESOLVABLE_KINDS = [''todo'', ''bug'']"

definition LIFECYCLE_KEYS :: "string list" where
  "LIFECYCLE_KEYS = [''lifecycle'', ''superseded_by'', ''superseded_at'', ''resolved_at'', ''resolution'',
     ''supersedes'', ''history'', ''content_hash'']"

text \<open>A stored metadata value as the Python object it is read back to.\<close>

fun meta_py :: "meta_val \<Rightarrow> pyval" where
  "meta_py (MvBool b) = PyBool b"
| "meta_py (MvInt n) = PyInt n"
| "meta_py (MvText t) = PyStr t"
| "meta_py (MvTexts ts) = PyList (map PyStr ts)"
| "meta_py (MvHashes hs) = PyDict (map (\<lambda>(k, h). (k, PyStr h)) hs)"
| "meta_py (MvDecay b t) = PyDict [(u ''base_importance'', PyFloat b), (u ''last_decay_at'', PyStr (u (iso_text t)))]"

definition as_list :: "meta_val option \<Rightarrow> ustr list" where
  "as_list v = (case v of Some (MvTexts ts) \<Rightarrow> ts | _ \<Rightarrow> [])"

text \<open>The link \<open>superseded_by\<close>, when it is truthy, as text.\<close>

definition next_link :: "life_env \<Rightarrow> fragment \<Rightarrow> ustr option" where
  "next_link L f = (case map_of (fr_meta f) ''superseded_by'' of
       None \<Rightarrow> None
     | Some v \<Rightarrow> if \<not> truthy v then None else Some (case v of MvText t \<Rightarrow> t | _ \<Rightarrow> le_str L v))"

text \<open>\<open>_newest\<close> follows the links as long as they name a memory not seen yet; it need not end.\<close>

partial_function (option) newest ::
  "life_env \<Rightarrow> datetime \<Rightarrow> memory_sys \<Rightarrow> ustr set \<Rightarrow> fragment \<Rightarrow> (memory_sys \<times> fragment) option" where
  "newest L now s seen f = (case next_link L f of
       None \<Rightarrow> Some (s, f)
     | Some nxt \<Rightarrow> if nxt \<in> seen then Some (s, f)
         else (case facade_get (le_write L) now s nxt of
             (s1, None) \<Rightarrow> Some (s1, f)
           | (s1, Some g) \<Rightarrow> newest L now s1 (insert (fr_id g) seen) g))"

text \<open>\<open>_require\<close> and \<open>_newest\<close> from the memory itself; the warning is whether the id changed.\<close>

definition require_newest ::
  "life_env \<Rightarrow> datetime \<Rightarrow> memory_sys \<Rightarrow> ustr \<Rightarrow> (memory_sys \<times> (life_error + fragment)) option" where
  "require_newest L now s mid = (case facade_get (le_write L) now s mid of
       (s1, None) \<Rightarrow> Some (s1, Inl (MemoryNotFound mid))
     | (s1, Some f) \<Rightarrow> map_option (\<lambda>(s2, g). (s2, Inr g)) (newest L now s1 {fr_id f} f))"

definition current_version :: "life_env \<Rightarrow> datetime \<Rightarrow> memory_sys \<Rightarrow> ustr \<Rightarrow> (memory_sys \<times> (life_error + ustr)) option" where
  "current_version L now s mid =
     map_option (\<lambda>(s1, r). (s1, map_sum id fr_id r)) (require_newest L now s mid)"

text \<open>\<open>_retire\<close>: the lifecycle keys and tags on the memory as it was read.\<close>

definition retired :: "datetime \<Rightarrow> fragment \<Rightarrow> ustr \<Rightarrow> string list \<Rightarrow> metadata \<Rightarrow> fragment" where
  "retired now f lifecycle tags extra =
     (let m1 = fold (\<lambda>(k, v). AList.update k v) ((''lifecycle'', MvText lifecycle) # extra) (fr_meta f);
          m2 = (if lifecycle = u ''superseded'' \<and> map_of m1 ''superseded_at'' = None
            then AList.update ''superseded_at'' (MvText (u (iso_text now))) m1 else m1)
      in f\<lparr>fr_meta := m2, fr_tags := fromkeys (fr_tags f @ tags), fr_updated := now\<rparr>)"

definition retire ::
  "write_env \<Rightarrow> datetime \<Rightarrow> memory_sys \<Rightarrow> fragment \<Rightarrow> ustr \<Rightarrow> string list \<Rightarrow> metadata \<Rightarrow> memory_sys \<times> life_error option" where
  "retire E now s f lifecycle tags extra = sys_store E s (retired now f lifecycle tags extra)"

text \<open>The options of a revision: what is not given is inherited.\<close>

record revision_options =
  ro_meta :: pydict
  ro_kind :: "string option option"
  ro_tags :: "string list"
  ro_session :: "ustr option option"
  ro_importance :: "number_in option"
  ro_source :: "ustr option option"
  ro_confidence :: number_in
  ro_occurred :: when_in
  ro_write :: write_options

definition revision_meta :: "fragment \<Rightarrow> pydict \<Rightarrow> pydict" where
  "revision_meta old given =
     (let kept = map (\<lambda>(k, v). (u k, meta_py v)) (filter (\<lambda>(k, v). k \<notin> set LIFECYCLE_KEYS
            \<and> k \<noteq> ''occurred_at'' \<and> k \<noteq> ''access_count'') (fr_meta old))
      in AList.update (u ''history'') (PyList (map PyStr (as_list (map_of (fr_meta old) ''history'') @ [fr_id old])))
           (AList.update (u ''supersedes'') (PyStr (fr_id old)) (dict_merge kept given)))"

definition inherited_tags :: "fragment \<Rightarrow> string list" where
  "inherited_tags old = filter (\<lambda>t. take (length KIND_TAG_PREFIX) t \<noteq> KIND_TAG_PREFIX \<and> take 5 t \<noteq> ''mark:'') (fr_tags old)"

definition supersede ::
  "life_env \<Rightarrow> datetime \<Rightarrow> real \<Rightarrow> (ustr list \<Rightarrow> embed_result) \<Rightarrow> ustr \<Rightarrow> memory_sys \<Rightarrow> ustr \<Rightarrow> content_in
    \<Rightarrow> revision_options \<Rightarrow> (memory_sys \<times> (life_error + ustr)) option" where
  "supersede L now clock emb fid s mid content ro = (case require_newest L now s mid of
       None \<Rightarrow> None
     | Some (s1, Inl e) \<Rightarrow> Some (s1, Inl e)
     | Some (s1, Inr old) \<Rightarrow> Some
         (case remember L now clock emb fid s1 content
             ((ro_write ro)\<lparr>wo_session := (case ro_session ro of None \<Rightarrow> fr_session old | Some x \<Rightarrow> x),
                wo_source := (case ro_source ro of None \<Rightarrow> fr_source old | Some x \<Rightarrow> x)\<rparr>)
             (case ro_importance ro of None \<Rightarrow> NumReal (fr_importance old) | Some x \<Rightarrow> x) (ro_confidence ro)
             (fromkeys (inherited_tags old @ ro_tags ro))
             (case ro_kind ro of None \<Rightarrow> kind_of_tags (fr_tags old) | Some k \<Rightarrow> k)
             (MetaDict (revision_meta old (ro_meta ro))) (ro_occurred ro) of
            (s2, Inl e) \<Rightarrow> (s2, Inl e)
          | (s2, Inr new) \<Rightarrow>
              (case retire (le_write L) now s2 old (u ''superseded'') [TAG_SUPERSEDED]
                  [(''superseded_by'', MvText new)] of
                 (s3, Some e) \<Rightarrow> (s3, Inl e)
               | (s3, None) \<Rightarrow> (s3, Inr new))))"

definition resolution_meta :: "datetime \<Rightarrow> ustr option \<Rightarrow> metadata" where
  "resolution_meta now why = [(''resolved_at'', MvText (u (iso_text now)))]
     @ (case why of None \<Rightarrow> [] | Some t \<Rightarrow> if t = [] then [] else [(''resolution'', MvText t)])"

definition resolve ::
  "life_env \<Rightarrow> datetime \<Rightarrow> memory_sys \<Rightarrow> ustr \<Rightarrow> ustr option \<Rightarrow> (memory_sys \<times> (life_error + ustr)) option" where
  "resolve L now s mid why = (case facade_get (le_write L) now s mid of
       (s1, None) \<Rightarrow> Some (s1, Inl (MemoryNotFound mid))
     | (s1, Some f) \<Rightarrow> if TAG_RESOLVED \<in> set (fr_tags f) then Some (s1, Inr (fr_id f))
         else map_option (\<lambda>(s2, g).
           if TAG_RESOLVED \<in> set (fr_tags g) then (s2, Inr (fr_id g))
           else let k = kind_of (we_dec (le_write L)) g in
             if k \<notin> Some ` set RESOLVABLE_KINDS then (s2, Inl (NotResolvable k))
             else (case retire (le_write L) now s2 g (u ''resolved'') [TAG_RESOLVED, TAG_SUPERSEDED]
                   (resolution_meta now why) of
                 (s3, Some e) \<Rightarrow> (s3, Inl e)
               | (s3, None) \<Rightarrow> (s3, Inr (fr_id g))))
         (newest L now s1 {fr_id f} f))"

section \<open>Lookups\<close>

text \<open>What a read cannot change of a row: everything but its state and its update time.\<close>

definition bare :: "fragment \<Rightarrow> fragment" where
  "bare r = r\<lparr>fr_state := RAW, fr_updated := fr_created r\<rparr>"

lemma bare_sel: "bare r = bare r' \<Longrightarrow> fr_id r = fr_id r' \<and> fr_agent r = fr_agent r' \<and> fr_meta r = fr_meta r'
    \<and> fr_tags r = fr_tags r' \<and> fr_content r = fr_content r'"
  unfolding bare_def by (cases r; cases r') simp

lemma persist_tampered_get:
  "tbl_get fr_id (db_fragments (persist_tampered now db ids)) i = map_option (\<lambda>r. if fr_id r \<in> set ids \<and> fr_state r \<noteq> CONTRADICTED
     then r\<lparr>fr_state := CONTRADICTED, fr_updated := now\<rparr> else r) (tbl_get fr_id (db_fragments db) i)"
  by (simp add: persist_tampered_def tbl_get_update)

lemma decode_meta [simp]: "fr_meta (fst (decode_fragment P r)) = fr_meta r"
  "fr_tags (fst (decode_fragment P r)) = fr_tags r"
  "fr_embedding (fst (decode_fragment P r)) = fr_embedding r"
  by (simp_all add: decode_fragment_def Let_def)

lemma decode_settled [simp]:
  "fr_state r = CONTRADICTED \<Longrightarrow> \<not> snd (decode_fragment P r)"
  by (simp add: decode_fragment_def Let_def)

text \<open>A read of any id keeps what a row is and never unsettles it.\<close>

definition settled :: "write_env \<Rightarrow> memory_sys \<Rightarrow> ustr \<Rightarrow> bool" where
  "settled E s i = (case tbl_get fr_id (db_fragments (my_db s)) i of None \<Rightarrow> True
     | Some row \<Rightarrow> \<not> snd (decode_fragment (we_provider E) row))"

lemma sys_get_db:
  "my_db (fst (sys_get E now s mid)) = (if settled E s mid then my_db s else persist_tampered now (my_db s) [mid])"
  by (auto simp: sys_get_def get_fragment_def settled_def Let_def split_def split: option.split dest: tbl_get_SomeD)

lemma sys_get_result:
  "snd (sys_get E now s mid) = map_option (\<lambda>r. fst (decode_fragment (we_provider E) r)) (tbl_get fr_id (db_fragments (my_db s)) mid)"
  by (auto simp: sys_get_def get_fragment_def Let_def split_def split: option.split)

lemma sys_get_settled: "settled E s mid \<Longrightarrow> fst (sys_get E now s mid) = s"
  by (auto simp: sys_get_def get_fragment_def settled_def Let_def split_def split: option.split)

lemma sys_get_row:
  "map_option bare (tbl_get fr_id (db_fragments (my_db (fst (sys_get E now s mid)))) i)
   = map_option bare (tbl_get fr_id (db_fragments (my_db s)) i)"
  by (auto simp: sys_get_db persist_tampered_get bare_def option.map_comp comp_def intro!: map_option_cong)

lemma sys_get_settles:
  "settled E (fst (sys_get E now s mid)) mid"
  "settled E s i \<Longrightarrow> settled E (fst (sys_get E now s mid)) i"
  by (auto simp: settled_def sys_get_db persist_tampered_get dest: tbl_get_SomeD split: option.splits)

lemma sys_get_ids: "fr_id ` set (db_fragments (my_db (fst (sys_get E now s mid)))) = fr_id ` set (db_fragments (my_db s))"
proof -
  have "i \<in> fr_id ` set (db_fragments (my_db (fst (sys_get E now s mid)))) \<longleftrightarrow> i \<in> fr_id ` set (db_fragments (my_db s))" for i
    using sys_get_row[of E now s mid i] tbl_get_None[of fr_id _ i] by (metis option.map_disc_iff)
  then show ?thesis by blast
qed

text \<open>\<open>get\<close>: at most two reads, and a result that is the agent's own row as it reads back.\<close>

definition reads_as :: "write_env \<Rightarrow> memory_sys \<Rightarrow> fragment \<Rightarrow> bool" where
  "reads_as E s f \<longleftrightarrow> fr_agent f = we_agent E \<and> settled E s (fr_id f)
     \<and> map_option bare (tbl_get fr_id (db_fragments (my_db s)) (fr_id f)) \<noteq> None
     \<and> (\<forall>r. tbl_get fr_id (db_fragments (my_db s)) (fr_id f) = Some r \<longrightarrow> fr_agent r = we_agent E
          \<and> fr_tags r = fr_tags f \<and> fr_meta r = fr_meta f)"

lemma reads_as_kept: "reads_as E s f \<Longrightarrow> reads_as E (fst (sys_get E now s mid)) f"
proof -
  assume f: "reads_as E s f"
  let ?g = "\<lambda>s. tbl_get fr_id (db_fragments (my_db s)) (fr_id f)"
  have eq: "map_option bare (?g (fst (sys_get E now s mid))) = map_option bare (?g s)" by (rule sys_get_row)
  have "fr_agent r = we_agent E \<and> fr_tags r = fr_tags f \<and> fr_meta r = fr_meta f"
    if r: "?g (fst (sys_get E now s mid)) = Some r" for r
  proof -
    obtain r0 where "?g s = Some r0" "bare r0 = bare r" using eq r by (cases "?g s") auto
    then show ?thesis using f bare_sel[of r0 r] by (auto simp: reads_as_def)
  qed
  then show ?thesis using f eq sys_get_settles(2) by (auto simp: reads_as_def)
qed

lemma sys_get_reads:
  assumes "sys_get E now s mid = (s', Some f)" "fr_agent f = we_agent E"
  shows "reads_as E s' f \<and> fr_id f = mid"
proof -
  obtain r where r: "tbl_get fr_id (db_fragments (my_db s)) mid = Some r" "f = fst (decode_fragment (we_provider E) r)"
    using sys_get_result[of E now s mid] assms(1) by (cases "tbl_get fr_id (db_fragments (my_db s)) mid") auto
  then have i: "fr_id f = mid" using tbl_get_SomeD by fastforce
  let ?g = "tbl_get fr_id (db_fragments (my_db s')) mid"
  have eq: "map_option bare ?g = Some (bare r)" using sys_get_row[of E now s mid mid] assms(1) r by simp
  then obtain r' where r': "?g = Some r'" "bare r' = bare r" by (cases ?g) auto
  then show ?thesis using bare_sel[of r' r] sys_get_settles(1)[of E now s mid] assms r(2) i
    by (auto simp: reads_as_def)
qed

lemma facade_get_cases:
  assumes "facade_get E now s mid = (s', r)"
  obtains "s' = fst (sys_get E now s mid)" "r = own_fragment E (snd (sys_get E now s mid))"
  | i s1 where "short_id mid" "sys_get E now s mid = (s1, None)" "s' = fst (sys_get E now s1 i)"
      "r = own_fragment E (snd (sys_get E now s1 i))"
proof -
  obtain s1 r1 where g: "sys_get E now s mid = (s1, r1)" by (metis surj_pair)
  show ?thesis
  proof (cases "r1 = None \<and> short_id mid")
    case False
    then show ?thesis using that(1) assms g by (auto simp: facade_get_def)
  next
    case True
    show ?thesis
    proof (cases "\<exists>i. ids_with_prefix (my_db s1) (we_agent E) (py_strip mid) 2 = [i]")
      case True
      then obtain i where "ids_with_prefix (my_db s1) (we_agent E) (py_strip mid) 2 = [i]" by blast
      then show ?thesis using that(2) assms g \<open>r1 = None \<and> short_id mid\<close> by (auto simp: facade_get_def split_def Let_def)
    next
      case False
      then have "s' = s1 \<and> r = None"
        using assms g True by (auto simp: facade_get_def Let_def split: list.splits)
      then show ?thesis using that(1) g True by (simp add: own_fragment_def)
    qed
  qed
qed

lemma own_fragment_Some: "own_fragment E r = Some f \<longleftrightarrow> r = Some f \<and> fr_agent f = we_agent E"
  by (auto simp: own_fragment_def split: option.splits)

lemma facade_get_reads:
  assumes "facade_get E now s mid = (s', Some f)"
  shows "reads_as E s' f \<and> (\<not> short_id mid \<longrightarrow> fr_id f = mid)"
  using assms
proof (cases rule: facade_get_cases)
  case 1
  then show ?thesis using sys_get_reads[of E now s mid s' f] by (metis own_fragment_Some prod.collapse)
next
  case (2 i s1)
  then show ?thesis using sys_get_reads[of E now s1 i s' f] by (metis own_fragment_Some prod.collapse)
qed

lemma facade_get_kept:
  assumes "facade_get E now s mid = (s', r)"
  shows "(reads_as E s f \<longrightarrow> reads_as E s' f)
    \<and> map_option bare (tbl_get fr_id (db_fragments (my_db s')) i) = map_option bare (tbl_get fr_id (db_fragments (my_db s)) i)
    \<and> fr_id ` set (db_fragments (my_db s')) = fr_id ` set (db_fragments (my_db s))"
  using assms
proof (cases rule: facade_get_cases)
  case 1
  then show ?thesis using reads_as_kept sys_get_row sys_get_ids by simp
next
  case (2 j s1)
  have "s1 = fst (sys_get E now s mid)" using 2 by simp
  then show ?thesis using 2(3) reads_as_kept sys_get_row sys_get_ids by simp
qed

lemma reads_as_again:
  assumes "reads_as E s f"
  shows "\<exists>g. facade_get E now s (fr_id f) = (s, Some g) \<and> fr_id g = fr_id f \<and> fr_tags g = fr_tags f \<and> fr_meta g = fr_meta f"
proof -
  obtain r where r: "tbl_get fr_id (db_fragments (my_db s)) (fr_id f) = Some r" "fr_agent r = we_agent E"
    "fr_tags r = fr_tags f" "fr_meta r = fr_meta f" using assms by (auto simp: reads_as_def)
  have "sys_get E now s (fr_id f) = (s, Some (fst (decode_fragment (we_provider E) r)))"
    using sys_get_settled[of E s "fr_id f"] sys_get_result[of E now s "fr_id f"] r assms
    by (metis option.simps(9) prod.collapse reads_as_def)
  moreover have "fr_id r = fr_id f" using tbl_get_SomeD[OF r(1)] by simp
  ultimately show ?thesis using r by (simp add: facade_get_def own_fragment_def)
qed

section \<open>The newest version\<close>

definition full_link :: "life_env \<Rightarrow> fragment \<Rightarrow> bool" where
  "full_link L f = (case next_link L f of None \<Rightarrow> True | Some t \<Rightarrow> \<not> short_id t)"

definition full_links :: "life_env \<Rightarrow> memory_sys \<Rightarrow> bool" where
  "full_links L s = list_all (full_link L) (db_fragments (my_db s))"

lemma next_link_meta: "fr_meta f = fr_meta g \<Longrightarrow> next_link L f = next_link L g \<and> full_link L f = full_link L g"
  by (simp add: next_link_def full_link_def)

lemma reads_as_stored:
  assumes "reads_as E s f"
  obtains r where "r \<in> set (db_fragments (my_db s))" "fr_id r = fr_id f" "fr_meta r = fr_meta f"
  using assms tbl_get_SomeD by (fastforce simp: reads_as_def)

text \<open>Rows of the same id may differ only before the keys are checked; the link of every row counts.\<close>

lemma sys_get_full: "full_links L s \<Longrightarrow> full_links L (fst (sys_get E now s mid))"
  by (auto simp: full_links_def sys_get_db persist_tampered_def tbl_update_def list_all_iff
      full_link_def next_link_def)

lemma facade_get_full:
  assumes "facade_get E now s mid = (s', r)" "full_links L s"
  shows "full_links L s'"
  using assms(1)
proof (cases rule: facade_get_cases)
  case 1
  then show ?thesis using assms(2) sys_get_full by simp
next
  case (2 i s1)
  have "full_links L s1" using sys_get_full[OF assms(2), of "le_write L"] sys_get_full[OF assms(2), of E now mid] 2(2) by simp
  then show ?thesis using 2(3) sys_get_full by simp
qed

lemma reads_as_full: "reads_as E s f \<Longrightarrow> full_links L s \<Longrightarrow> full_link L f"
  using next_link_meta by (metis full_links_def list_all_iff reads_as_stored)

lemma newest_ends:
  assumes "full_links L s" "reads_as (le_write L) s f"
  shows "\<exists>s' g. newest L now s seen f = Some (s', g) \<and> reads_as (le_write L) s' g"
  using assms
proof (induction "card (fr_id ` set (db_fragments (my_db s)) - seen)" arbitrary: s seen f rule: less_induct)
  case less
  have link: "full_link L f" using less.prems reads_as_full by blast
  show ?case
  proof (cases "next_link L f")
    case None
    then show ?thesis using less.prems newest.simps[of L now s seen f] by simp
  next
    case (Some nxt)
    obtain s1 r where g: "facade_get (le_write L) now s nxt = (s1, r)" by (metis surj_pair)
    note keep = facade_get_kept[OF g]
    show ?thesis
    proof (cases "nxt \<in> seen \<or> r = None")
      case True
      then have "newest L now s seen f = Some (if nxt \<in> seen then s else s1, f)"
        using Some g newest.simps[of L now s seen f] by auto
      moreover have "reads_as (le_write L) s1 f" using conjunct1[OF keep] less.prems(2) by simp
      ultimately show ?thesis using less.prems(2) by auto
    next
      case False
      then obtain f' where r: "r = Some f'" by blast
      have f': "reads_as (le_write L) s1 f'" "fr_id f' = nxt"
        using facade_get_reads[OF g[unfolded r]] link Some by (auto simp: full_link_def)
      have "nxt \<in> fr_id ` set (db_fragments (my_db s1))" using f' by (metis image_eqI reads_as_stored)
      then have "fr_id ` set (db_fragments (my_db s1)) - insert nxt seen \<subset> fr_id ` set (db_fragments (my_db s)) - seen"
        using conjunct2[OF conjunct2[OF keep]] False by auto
      then have "card (fr_id ` set (db_fragments (my_db s1)) - insert nxt seen)
          < card (fr_id ` set (db_fragments (my_db s)) - seen)"
        by (intro psubset_card_mono) auto
      from less.hyps[OF this facade_get_full[OF g less.prems(1)] f'(1)]
      obtain s' h where h: "newest L now s1 (insert nxt seen) f' = Some (s', h)" "reads_as (le_write L) s' h" by blast
      have "newest L now s seen f = newest L now s1 (insert nxt seen) f'"
        using Some False g r f'(2) newest.simps[of L now s seen f] by simp
      with h show ?thesis by simp
    qed
  qed
qed

lemma require_newest_ends:
  assumes "full_links L s"
  shows "\<exists>s' r. require_newest L now s mid = Some (s', r)
    \<and> (case r of Inl e \<Rightarrow> e = MemoryNotFound mid | Inr g \<Rightarrow> reads_as (le_write L) s' g)"
proof -
  obtain s1 r where g: "facade_get (le_write L) now s mid = (s1, r)" by (metis surj_pair)
  show ?thesis
  proof (cases r)
    case (Some f)
    have "full_links L s1" "reads_as (le_write L) s1 f"
      using facade_get_full[OF g assms] facade_get_reads[OF g[unfolded Some]] by auto
    from newest_ends[OF this, of now "{fr_id f}"] g Some show ?thesis by (auto simp: require_newest_def)
  qed (use g in \<open>simp add: require_newest_def\<close>)
qed

text \<open>C36: following \<open>superseded_by\<close> ends when the links of the stored memories are whole ids and not
  the short ids that \<open>get\<close> expands: then \<open>current_version\<close>, \<open>supersede\<close> and \<open>resolve\<close> all return,
  even when the links form a cycle, and the newest version is a stored memory of the agent itself.\<close>

theorem revisions_terminate:
  assumes "full_links L s"
  shows "(\<exists>s' r. require_newest L now s mid = Some (s', r)
      \<and> (case r of Inl e \<Rightarrow> e = MemoryNotFound mid | Inr g \<Rightarrow> fr_agent g = we_agent (le_write L)
           \<and> fr_id g \<in> fr_id ` set (db_fragments (my_db s'))))
    \<and> current_version L now s mid \<noteq> None
    \<and> supersede L now clock emb fid s mid content ro \<noteq> None
    \<and> resolve L now s mid why \<noteq> None"
proof -
  obtain s' r where r: "require_newest L now s mid = Some (s', r)"
    "case r of Inl e \<Rightarrow> e = MemoryNotFound mid | Inr g \<Rightarrow> reads_as (le_write L) s' g"
    using require_newest_ends[OF assms] by blast
  have stored: "fr_agent g = we_agent E \<and> fr_id g \<in> fr_id ` set (db_fragments (my_db x))" if "reads_as E x g" for E x g
    using that by (metis image_eqI reads_as_def reads_as_stored)
  have "resolve L now s mid why \<noteq> None"
  proof -
    obtain s1 r1 where g: "facade_get (le_write L) now s mid = (s1, r1)" by (metis surj_pair)
    show ?thesis
    proof (cases r1)
      case (Some f)
      obtain s' h where "newest L now s1 {fr_id f} f = Some (s', h)"
        using newest_ends[OF facade_get_full[OF g assms]] facade_get_reads[OF g[unfolded Some]] by blast
      then show ?thesis using g Some by (simp add: resolve_def del: not_None_eq)
    qed (use g in \<open>simp add: resolve_def\<close>)
  qed
  moreover have "case r of Inl e \<Rightarrow> e = MemoryNotFound mid | Inr g \<Rightarrow> fr_agent g = we_agent (le_write L)
           \<and> fr_id g \<in> fr_id ` set (db_fragments (my_db s'))"
    using r(2) stored by (cases r) auto
  ultimately show ?thesis
    using r(1) by (auto simp: current_version_def supersede_def split: sum.split)
qed

text \<open>Two memories that supersede each other, under whole ids, and one whose link is a short id of
  its own.\<close>

definition wit_life :: life_env where
  "wit_life = \<lparr>le_write = wit_write_env, le_word = (\<lambda>c. c \<noteq> 32), le_same = (=), le_casefold = id,
     le_str = (\<lambda>v. []), le_parse_time = (\<lambda>t. None)\<rparr>"

definition wit_now :: datetime where "wit_now = DT 2026 1 1 0 0 0 0"
definition wit_later :: datetime where "wit_later = DT 2026 2 1 0 0 0 0"

definition wit_long :: "nat \<Rightarrow> ustr" where "wit_long c = replicate 36 c"

definition wit_version :: "nat \<Rightarrow> ustr \<Rightarrow> fragment" where
  "wit_version c link = wit_fragment\<lparr>fr_id := wit_long c, fr_agent := we_agent wit_write_env,
     fr_meta := [(''superseded_by'', MvText link)]\<rparr>"

definition wit_cycle :: memory_sys where
  "wit_cycle = (wit_system None)\<lparr>my_db := empty_db\<lparr>db_fragments :=
     [wit_version 97 (wit_long 98), wit_version 98 (wit_long 97)]\<rparr>\<rparr>"

definition wit_short :: memory_sys where
  "wit_short = (wit_system None)\<lparr>my_db := empty_db\<lparr>db_fragments := [wit_version 97 (replicate 8 97)]\<rparr>\<rparr>"

lemma py_strip_replicate: "\<not> py_isspace c \<Longrightarrow> py_strip (replicate n c) = replicate n c"
  by (cases "n = 0") (simp_all add: py_strip_clean)

lemma revisions_terminate_witness:
  "full_links wit_life wit_cycle \<and> resolve wit_life wit_now wit_cycle (wit_long 97) None \<noteq> None"
proof -
  have "\<not> short_id (wit_long 97)" "\<not> short_id (wit_long 98)"
    by (simp_all add: short_id_def wit_long_def py_strip_replicate py_isspace_def)
  then have "full_links wit_life wit_cycle"
    by (simp add: full_links_def wit_cycle_def full_link_def next_link_def wit_version_def wit_long_def)
  with revisions_terminate[OF this] show ?thesis by blast
qed

text \<open>With a link that is a short id of the memory itself, \<open>newest\<close> never returns: the text looked up
  is not among the ids seen.\<close>

lemma self_link_never_returns:
  assumes "next_link L f = Some t" "t \<notin> seen" "fr_id f \<in> seen" "facade_get (le_write L) now s t = (s, Some f)"
  shows "newest L now s seen f = None"
proof (rule ccontr)
  assume "newest L now s seen f \<noteq> None"
  then obtain y where y: "newest L now s seen f = Some y" by blast
  have "\<not> (next_link L f = Some t \<and> t \<notin> seen \<and> fr_id f \<in> seen \<and> facade_get (le_write L) now s t = (s, Some f))"
  proof (rule newest.raw_induct[OF _ y, where P = "\<lambda>L now s seen f y. \<not> (next_link L f = Some t \<and> t \<notin> seen
      \<and> fr_id f \<in> seen \<and> facade_get (le_write L) now s t = (s, Some f))"])
    fix rec L now s seen f y
    assume IH: "\<And>L now s seen f y. rec L now s seen f = Some y \<Longrightarrow> \<not> (next_link L f = Some t \<and> t \<notin> seen
        \<and> fr_id f \<in> seen \<and> facade_get (le_write L) now s t = (s, Some f))"
      and body: "(case next_link L f of None \<Rightarrow> Some (s, f) | Some nxt \<Rightarrow> if nxt \<in> seen then Some (s, f)
         else (case facade_get (le_write L) now s nxt of (s1, None) \<Rightarrow> Some (s1, f)
           | (s1, Some g) \<Rightarrow> rec L now s1 (insert (fr_id g) seen) g)) = Some y"
    show "\<not> (next_link L f = Some t \<and> t \<notin> seen \<and> fr_id f \<in> seen \<and> facade_get (le_write L) now s t = (s, Some f))"
    proof
      assume h: "next_link L f = Some t \<and> t \<notin> seen \<and> fr_id f \<in> seen \<and> facade_get (le_write L) now s t = (s, Some f)"
      then have "rec L now s seen f = Some y" using body by (simp add: insert_absorb)
      from IH[OF this] h show False by blast
    qed
  qed
  with assms show False by blast
qed

lemma short_link_loops:
  "\<exists>f. facade_get wit_write_env now wit_short (wit_long 97) = (wit_short, Some f)
     \<and> newest wit_life now wit_short {fr_id f} f = None"
proof -
  let ?row = "wit_version 97 (replicate 8 97)"
  let ?f = "fst (decode_fragment (we_provider wit_write_env) ?row)"
  have rows: "db_fragments (my_db wit_short) = [?row]" by (simp add: wit_short_def empty_db_def)
  have sel: "fr_id ?row = wit_long 97" "fr_agent ?row = we_agent wit_write_env"
    "fr_meta ?row = [(''superseded_by'', MvText (replicate 8 97))]" by (simp_all add: wit_version_def)
  have "settled wit_write_env wit_short i" for i
    by (auto simp: settled_def rows tbl_get_def wit_version_def wit_write_env_def noop_provider_def decode_fragment_def
        hash_check_def Let_def split: if_splits)
  then have same: "fst (sys_get wit_write_env now wit_short i) = wit_short" for i by (rule sys_get_settled)
  have get: "sys_get wit_write_env now wit_short i = (wit_short, if i = wit_long 97 then Some ?f else None)" for i
    using same[of i] sys_get_result[of wit_write_env now wit_short i] sel
    by (auto simp: rows tbl_get_def prod_eq_iff)
  have ne: "replicate 8 97 \<noteq> wit_long 97" by (simp add: wit_long_def)
  have short: "short_id (replicate 8 97)" "py_strip (replicate 8 97) = replicate 8 97"
    by (simp_all add: short_id_def py_strip_replicate py_isspace_def)
  have "take 8 (wit_long 97) = replicate 8 97" by (simp add: wit_long_def)
  then have "ids_with_prefix (my_db wit_short) (we_agent wit_write_env) (replicate 8 97) 2 = [wit_long 97]"
    by (simp add: ids_with_prefix_def rows sel)
  then have self: "facade_get wit_write_env now wit_short (replicate 8 97) = (wit_short, Some ?f)"
    using get[of "replicate 8 97"] get[of "wit_long 97"] ne short sel by (simp add: facade_get_def own_fragment_def)
  have link: "next_link wit_life ?f = Some (replicate 8 97)" by (simp add: next_link_def sel)
  have "newest wit_life now wit_short {fr_id ?f} ?f = None"
    by (rule self_link_never_returns[OF link]) (use self ne sel in \<open>simp_all add: wit_life_def\<close>)
  moreover have "facade_get wit_write_env now wit_short (wit_long 97) = (wit_short, Some ?f)"
    using get[of "wit_long 97"] sel by (simp add: facade_get_def own_fragment_def)
  ultimately show ?thesis by blast
qed

section \<open>What one write leaves of the other rows\<close>

abbreviation row_of :: "memory_sys \<Rightarrow> ustr \<Rightarrow> fragment option" where
  "row_of s i \<equiv> tbl_get fr_id (db_fragments (my_db s)) i"

lemma store_and_index_rows:
  assumes "store_and_index E s audit embedded = (s', r)"
  shows "(i \<notin> fr_id ` set (audit @ embedded) \<longrightarrow> row_of s' i = row_of s i)
    \<and> (tbl_ok fr_id (db_fragments (my_db s)) \<longrightarrow> tbl_ok fr_id (db_fragments (my_db s')))
    \<and> (r = None \<longrightarrow> (\<forall>f. audit @ embedded = [f] \<longrightarrow> row_of s' (fr_id f) = Some (stored_row (we_provider E) f)))"
proof (cases "store_many (we_provider E) (my_db s) (audit @ embedded)")
  case (Inr t)
  obtain db ids gone where t: "t = (db, ids, gone)" by (metis prod_cases3)
  then have "index_rows (notify_gone gone (s\<lparr>my_db := db\<rparr>)) embedded = (s', r)" using assms Inr by (simp add: store_and_index_def)
  then have db: "my_db s' = db" using index_rows_db by fastforce
  have "row_of s' i = row_of s i" if "i \<notin> fr_id ` set (audit @ embedded)"
  proof -
    have "find (\<lambda>f. fr_id f = i) (rev (audit @ embedded)) = None" using that by (auto simp: find_None_iff)
    then show ?thesis using store_many_get[OF Inr[unfolded t], of i] unfolding db by (simp only: option.case)
  qed
  moreover have "row_of s' (fr_id f) = Some (stored_row (we_provider E) f)" if "audit @ embedded = [f]" for f
    using store_many_get[OF Inr[unfolded t], of "fr_id f"] unfolding that db by simp
  moreover have "tbl_ok fr_id (db_fragments (my_db s)) \<Longrightarrow> tbl_ok fr_id (db_fragments (my_db s'))"
    unfolding db by (rule store_many_ok[OF _ Inr[unfolded t]])
  ultimately show ?thesis by blast
qed (use assms in \<open>auto simp: store_and_index_def\<close>)

lemma embed_one:
  assumes "embed_for_write s clock emb [f] = (s', Inr fs)"
  obtains g where "fs = [g]" "same_memory f g"
  using embed_for_write_frame[OF assms] by (auto simp: list_all2_Cons1)

lemma store_sync_impl_rows:
  assumes "store_sync_impl E now clock emb fid s c opts m None = (s', r)"
  shows "(i \<noteq> fid \<longrightarrow> row_of s' i = row_of s i)
    \<and> (tbl_ok fr_id (db_fragments (my_db s)) \<longrightarrow> tbl_ok fr_id (db_fragments (my_db s')))
    \<and> (\<forall>j. r = Inr j \<longrightarrow> j = fid \<and> (\<exists>row. row_of s' fid = Some row \<and> fr_agent row = we_agent E))"
proof -
  obtain g l r1 where gf: "guarded_fragment E now fid (my_gate s) (my_last s) c opts m = ((g, l), r1)"
    by (metis surj_pair)
  let ?s1 = "s\<lparr>my_gate := g, my_last := l\<rparr>"
  show ?thesis
  proof (cases r1)
    case (Inl e)
    then show ?thesis using assms gf by (auto simp: store_sync_impl_def)
  next
    case (Inr t)
    obtain f k where t: "t = (f, k)" by (cases t)
    note made = guarded_fragment_made[OF gf[unfolded Inr t]]
    show ?thesis
    proof (cases k)
      case False
      obtain s2 x where si: "store_and_index E ?s1 [f] [] = (s2, x)" by (metis surj_pair)
      have "s2 = s'" "x = None \<or> (\<exists>e. r = Inl e)" "\<forall>j. r = Inr j \<longrightarrow> j = fid"
        using assms gf Inr t False si made by (auto simp: store_sync_impl_def split: option.splits)
      then show ?thesis using store_and_index_rows[OF si, of i] made by (auto simp: hash_attach_def)
    next
      case True
      obtain s2 r2 where em: "embed_for_write ?s1 clock emb [f] = (s2, r2)" by (metis surj_pair)
      note fr = embed_for_write_frame[OF em]
      show ?thesis
      proof (cases r2)
        case (Inl e)
        then show ?thesis using assms gf \<open>r1 = Inr t\<close> t True em fr by (auto simp: store_sync_impl_def)
      next
        case (Inr fs)
        obtain h where h: "fs = [h]" "same_memory f h" using embed_one[OF em[unfolded Inr]] .
        obtain s3 x where si: "store_and_index E s2 [] fs = (s3, x)" by (metis surj_pair)
        have "s3 = s'" "x = None \<or> (\<exists>e. r = Inl e)" "\<forall>j. r = Inr j \<longrightarrow> j = fid"
          using assms gf \<open>r1 = Inr t\<close> t True em Inr si made by (auto simp: store_sync_impl_def split: option.splits)
        then show ?thesis using store_and_index_rows[OF si, of i] made h same_memory_sel[OF h(2)] fr
          by (auto simp: hash_attach_def)
      qed
    qed
  qed
qed

lemma store_sync_rows:
  assumes "store_sync E now clock emb fid s c opts imp conf tags meta occ = (s', r)"
  shows "(i \<noteq> fid \<longrightarrow> row_of s' i = row_of s i)
    \<and> (tbl_ok fr_id (db_fragments (my_db s)) \<longrightarrow> tbl_ok fr_id (db_fragments (my_db s')))
    \<and> (\<forall>j. r = Inr j \<longrightarrow> j = fid \<and> (\<exists>row. row_of s' fid = Some row \<and> fr_agent row = we_agent E))"
proof -
  have "s' = s \<and> (\<exists>e. r = Inl e) \<or> (\<exists>c opts m. store_sync_impl E now clock emb fid s c opts m None = (s', r))"
    using assms by (auto simp: store_sync_def split: sum.splits prod.splits)
  then show ?thesis using store_sync_impl_rows by (elim disjE exE) auto
qed

lemma remember_rows:
  assumes "remember L now clock emb fid s c opts imp conf tags kind meta occ = (s', r)"
  shows "(i \<noteq> fid \<longrightarrow> row_of s' i = row_of s i)
    \<and> (tbl_ok fr_id (db_fragments (my_db s)) \<longrightarrow> tbl_ok fr_id (db_fragments (my_db s')))
    \<and> (\<forall>j. r = Inr j \<longrightarrow> j = fid \<and> (\<exists>row. row_of s' fid = Some row \<and> fr_agent row = we_agent (le_write L)))"
proof -
  have "s' = s \<and> (\<exists>e. r = Inl e)
      \<or> (\<exists>ts occ' x. store_sync (le_write L) now clock emb fid s c opts imp conf ts meta occ' = (s', x)
           \<and> r = map_sum WriteFailed id x)"
  proof -
    define chk where "chk = bind_res (case c of
               InText t \<Rightarrow> if py_strip t = [] then Inl (WriteFailed (InvalidMemory ''empty'')) else Inr t
             | _ \<Rightarrow> (case check_content (we_max (le_write L)) c of Inl e \<Rightarrow> Inl (WriteFailed e) | Inr t \<Rightarrow> Inr t)) (\<lambda>t.
           bind_res (case occ of
               WhenText x \<Rightarrow> (case le_parse_time L x of None \<Rightarrow> Inl BadDate | Some d \<Rightarrow> Inr (WhenDatetime d))
             | _ \<Rightarrow> Inr occ) (\<lambda>occ'.
           bind_res (case normalize_kind kind of Inl e \<Rightarrow> Inl BadKind | Inr k \<Rightarrow> Inr k) (\<lambda>k.
             Inr (occ', remember_tags (we_dec (le_write L)) t k tags))))"
    show ?thesis
    proof (cases chk)
      case (Inl e)
      then show ?thesis using assms unfolding remember_def chk_def[symmetric] by auto
    next
      case (Inr p)
      obtain occ' ts where p: "p = (occ', ts)" by (cases p)
      obtain s1 x where w: "store_sync (le_write L) now clock emb fid s c opts imp conf
              (if ts = [] then TagsNone else TagsList ts) meta occ' = (s1, x)" by (metis surj_pair)
      have "s1 = s'" "r = map_sum WriteFailed id x"
        using assms unfolding remember_def chk_def[symmetric] Inr p by (cases x; simp add: w)+
      then show ?thesis using w by blast
    qed
  qed
  then show ?thesis
  proof (elim disjE exE conjE)
    fix ts occ' x
    assume w: "store_sync (le_write L) now clock emb fid s c opts imp conf ts meta occ' = (s', x)"
      and r: "r = map_sum WriteFailed id x"
    show ?thesis using store_sync_rows[OF w, of i] unfolding r by (cases x) auto
  qed auto
qed

section \<open>Retiring a memory\<close>

lemma newest_invariant:
  assumes run: "newest L now s seen f = Some (s', g)" and start: "Q s f"
    and step: "\<And>s s1 nxt f g. Q s f \<Longrightarrow> facade_get (le_write L) now s nxt = (s1, Some g) \<Longrightarrow> Q s1 g"
    and miss: "\<And>s s1 nxt f. Q s f \<Longrightarrow> facade_get (le_write L) now s nxt = (s1, None) \<Longrightarrow> Q s1 f"
  shows "Q s' g"
proof -
  have "L' = L \<and> now' = now \<and> Q s f \<longrightarrow> Q (fst y) (snd y)" if "newest L' now' s seen f = Some y" for L' now' s seen f y
  proof (rule newest.raw_induct[OF _ that, where P = "\<lambda>L' now' s seen f y. L' = L \<and> now' = now \<and> Q s f \<longrightarrow> Q (fst y) (snd y)"])
    fix rec L' now' s seen f y
    assume IH: "\<And>L' now' s seen f y. rec L' now' s seen f = Some y \<Longrightarrow> L' = L \<and> now' = now \<and> Q s f \<longrightarrow> Q (fst y) (snd y)"
      and body: "(case next_link L' f of None \<Rightarrow> Some (s, f) | Some nxt \<Rightarrow> if nxt \<in> seen then Some (s, f)
         else (case facade_get (le_write L') now' s nxt of (s1, None) \<Rightarrow> Some (s1, f)
           | (s1, Some g) \<Rightarrow> rec L' now' s1 (insert (fr_id g) seen) g)) = Some y"
    show "L' = L \<and> now' = now \<and> Q s f \<longrightarrow> Q (fst y) (snd y)"
    proof (intro impI, elim conjE)
      assume h: "L' = L" "now' = now" "Q s f"
      show "Q (fst y) (snd y)"
      proof (cases "case next_link L f of None \<Rightarrow> True | Some nxt \<Rightarrow> nxt \<in> seen")
        case True
        then show ?thesis using body h by (auto split: option.splits)
      next
        case False
        then obtain nxt where n: "next_link L f = Some nxt" "nxt \<notin> seen" by (auto split: option.splits)
        obtain s1 r where g: "facade_get (le_write L) now s nxt = (s1, r)" by (metis surj_pair)
        show ?thesis
        proof (cases r)
          case None
          then show ?thesis using body h n g miss[OF h(3), of nxt s1] by auto
        next
          case (Some g')
          then have "rec L now s1 (insert (fr_id g') seen) g' = Some y" using body h n g by simp
          from IH[OF this] step[OF h(3) g[unfolded Some]] show ?thesis by simp
        qed
      qed
    qed
  qed
  from this[OF run] start show ?thesis by simp
qed

lemma sys_store_rows:
  assumes "sys_store E s f = (s', None)"
  shows "row_of s' i = (if i = fr_id f then Some (stored_row (we_provider E) f) else row_of s i)"
    "tbl_ok fr_id (db_fragments (my_db s)) \<Longrightarrow> tbl_ok fr_id (db_fragments (my_db s'))"
proof -
  obtain db ids gone where m: "store_many (we_provider E) (my_db s) [f] = Inr (db, ids, gone)" and db: "my_db s' = db"
    using assms by (auto simp: sys_store_def simp del: store_many.simps split: sum.splits)
  show "row_of s' i = (if i = fr_id f then Some (stored_row (we_provider E) f) else row_of s i)"
    using store_many_get[OF m, of i] unfolding db by simp
  show "tbl_ok fr_id (db_fragments (my_db s)) \<Longrightarrow> tbl_ok fr_id (db_fragments (my_db s'))"
    unfolding db by (rule store_many_ok[OF _ m])
qed

lemma decode_strips: "py_strip (fr_content (fst (decode_fragment P r))) = fr_content (fst (decode_fragment P r))"
proof -
  have "py_strip UNREADABLE = UNREADABLE" by (rule py_strip_clean) (simp_all add: UNREADABLE_def py_isspace_def)
  then show ?thesis by (simp add: decode_fragment_def Let_def py_strip_idem split: option.split)
qed

definition read_back :: "write_env \<Rightarrow> memory_sys \<Rightarrow> fragment \<Rightarrow> bool" where
  "read_back E s f \<longleftrightarrow> reads_as E s f \<and> py_strip (fr_content f) = fr_content f"

lemma facade_get_read_back:
  assumes "facade_get E now s mid = (s', Some f)"
  shows "read_back E s' f"
proof -
  have d: "py_strip (fr_content g) = fr_content g" if "own_fragment E (snd (sys_get E now x i)) = Some g" for x i g
    using that decode_strips by (auto simp: sys_get_result own_fragment_Some)
  have "py_strip (fr_content f) = fr_content f"
    using assms by (cases rule: facade_get_cases) (metis d)+
  then show ?thesis using facade_get_reads[OF assms] by (simp add: read_back_def)
qed

lemma newest_read_back:
  assumes "newest L now s seen f = Some (s', g)" "read_back (le_write L) s f"
  shows "read_back (le_write L) s' g"
  by (rule newest_invariant[of L now s seen f s' g "read_back (le_write L)", OF assms])
     (use facade_get_read_back facade_get_kept in \<open>auto simp: read_back_def\<close>)

lemma stored_reads:
  assumes "provider_laws (we_provider E)" "py_strip (fr_content f) = fr_content f" "fr_agent f = we_agent E"
    "sys_store E s f = (s', None)"
  shows "sys_get E now s' (fr_id f) = (s', Some (hash_attach (we_provider E) f)) \<and> reads_as E s' (hash_attach (we_provider E) f)"
proof -
  have row: "row_of s' (fr_id f) = Some (stored_row (we_provider E) f)" using sys_store_rows(1)[OF assms(4)] by simp
  note dec = provider_laws.decode_stored[OF assms(1,2)]
  have set: "settled E s' (fr_id f)" by (simp add: settled_def row dec)
  have get: "sys_get E now s' (fr_id f) = (s', Some (hash_attach (we_provider E) f))"
    using sys_get_settled[OF set] sys_get_result[of E now s' "fr_id f"] row dec by (metis fst_conv option.simps(9) prod.collapse)
  have "reads_as E s' (hash_attach (we_provider E) f)"
    using sys_get_reads[OF get] assms(3) by (simp add: hash_attach_def)
  with get show ?thesis by blast
qed

lemma set_fromkeys [simp]: "set (fromkeys xs) = set xs"
  by (simp add: fromkeys_def)

lemma retired_sel [simp]:
  "fr_id (retired now f k tags extra) = fr_id f" "fr_agent (retired now f k tags extra) = fr_agent f"
  "fr_content (retired now f k tags extra) = fr_content f" "fr_state (retired now f k tags extra) = fr_state f"
  "set (fr_tags (retired now f k tags extra)) = set (fr_tags f) \<union> set tags"
  by (simp_all add: retired_def Let_def)

lemma hash_attach_sel [simp]:
  "fr_id (hash_attach P f) = fr_id f" "fr_agent (hash_attach P f) = fr_agent f" "fr_tags (hash_attach P f) = fr_tags f"
  "fr_content (hash_attach P f) = fr_content f" "fr_state (hash_attach P f) = fr_state f"
  by (simp_all add: hash_attach_def)

lemma resolved_stays:
  assumes "reads_as (le_write L) s f" "TAG_RESOLVED \<in> set (fr_tags f)"
  shows "resolve L now s (fr_id f) why = Some (s, Inr (fr_id f))"
  using reads_as_again[OF assms(1), of now] assms(2) by (auto simp: resolve_def)

text \<open>Resolving leaves a stored memory of the agent that carries the tag.\<close>

lemma resolve_tags:
  assumes P: "provider_laws (we_provider (le_write L))" and run: "resolve L now s mid why = Some (s', Inr i)"
  shows "\<exists>f. fr_id f = i \<and> reads_as (le_write L) s' f \<and> TAG_RESOLVED \<in> set (fr_tags f)"
proof -
  obtain s1 r1 where g: "facade_get (le_write L) now s mid = (s1, r1)" by (metis surj_pair)
  obtain f where r1: "r1 = Some f" using run g by (cases r1) (auto simp: resolve_def)
  note f = facade_get_read_back[OF g[unfolded r1]]
  show ?thesis
  proof (cases "TAG_RESOLVED \<in> set (fr_tags f)")
    case True
    then show ?thesis using run g r1 f by (auto simp: resolve_def read_back_def)
  next
    case False
    obtain s2 h where n: "newest L now s1 {fr_id f} f = Some (s2, h)" using run g r1 False by (auto simp: resolve_def)
    note h = newest_read_back[OF n f]
    show ?thesis
    proof (cases "TAG_RESOLVED \<in> set (fr_tags h)")
      case True
      then show ?thesis using run g r1 False n h by (auto simp: resolve_def read_back_def)
    next
      case unresolved: False
      define ret where "ret = retired now h (u ''resolved'') [TAG_RESOLVED, TAG_SUPERSEDED] (resolution_meta now why)"
      obtain s3 e where st: "sys_store (le_write L) s2 ret = (s3, e)" by (metis surj_pair)
      have "e = None" "s3 = s'" "fr_id h = i"
        using run g r1 False n unresolved st
        by (auto simp: resolve_def retire_def Let_def ret_def[symmetric] simp del: u_simps split: if_splits option.splits)
      moreover have "reads_as (le_write L) s3 (hash_attach (we_provider (le_write L)) ret)"
        using stored_reads[OF P, of ret s2 s3] h st \<open>e = None\<close> by (simp add: read_back_def reads_as_def ret_def)
      moreover have "TAG_RESOLVED \<in> set (fr_tags ret)" by (simp add: ret_def)
      moreover have "fr_id ret = fr_id h" by (simp add: ret_def)
      ultimately show ?thesis by (intro exI[of _ "hash_attach (we_provider (le_write L)) ret"]) simp
    qed
  qed
qed

lemma page_rows_closed:
  assumes "reads_as E s f" "tbl_ok fr_id (db_fragments (my_db s))" "set (fr_tags f) \<inter> set excl \<noteq> {}"
  shows "fr_id f \<notin> fr_id ` set (page_rows (my_db s) a ff excl)"
proof
  assume "fr_id f \<in> fr_id ` set (page_rows (my_db s) a ff excl)"
  then obtain r where r: "r \<in> set (db_fragments (my_db s))" "fr_id r = fr_id f" "list_all (\<lambda>t. t \<notin> set (fr_tags r)) excl"
    by (auto simp: page_rows_def)
  then have "row_of s (fr_id f) = Some r" using tbl_get_Some[OF assms(2)] by simp
  then have "fr_tags r = fr_tags f" using assms(1) by (simp add: reads_as_def)
  with r(3) assms(3) show False by (auto simp: list_all_iff)
qed

text \<open>Resolving is idempotent: once a TODO or a bug is resolved, through whatever older version
  or short id it was named, resolving the returned id again, at any later time and with any note,
  changes nothing and returns the same id; and the memory is gone from every listing of open
  memories.\<close>

theorem resolve_idempotent:
  assumes "provider_laws (we_provider (le_write L))" "resolve L now s mid why = Some (s', Inr i)"
    "tbl_ok fr_id (db_fragments (my_db s'))"
  shows "resolve L now' s' i why' = Some (s', Inr i)
    \<and> (case list_filters states kind (Some True) tags session of Inl e \<Rightarrow> True | Inr (ff, excl) \<Rightarrow>
         i \<notin> fr_id ` set (page_rows (my_db s') (we_agent (le_write L)) ff excl))"
proof -
  obtain f where f: "fr_id f = i" "reads_as (le_write L) s' f" "TAG_RESOLVED \<in> set (fr_tags f)"
    using resolve_tags[OF assms(1,2)] by blast
  have "i \<notin> fr_id ` set (page_rows (my_db s') a ff [TAG_RESOLVED, TAG_SUPERSEDED])" for a ff
    using page_rows_closed[OF f(2) assms(3), of "[TAG_RESOLVED, TAG_SUPERSEDED]" a ff] f by auto
  then show ?thesis using resolved_stays[OF f(2,3)] f(1) by (auto simp: list_filters_def Let_def split: sum.split)
qed

lemma newest_keeps:
  assumes "newest L now s seen f = Some (s', g)"
  shows "map_option bare (row_of s' i) = map_option bare (row_of s i)"
  by (rule newest_invariant[of L now s seen f s' g "\<lambda>x h. map_option bare (row_of x i) = map_option bare (row_of s i)", OF assms])
     (use facade_get_kept in \<open>auto simp del: map_option_is_None\<close>)

lemma require_newest_keeps:
  assumes "require_newest L now s mid = Some (s', Inr g)"
  shows "read_back (le_write L) s' g" "map_option bare (row_of s' i) = map_option bare (row_of s i)"
proof -
  obtain s1 r where g: "facade_get (le_write L) now s mid = (s1, r)" by (metis surj_pair)
  obtain f where r: "r = Some f" using assms g by (cases r) (auto simp: require_newest_def)
  have n: "newest L now s1 {fr_id f} f = Some (s', g)" using assms g r by (auto simp: require_newest_def)
  show "read_back (le_write L) s' g" by (rule newest_read_back[OF n facade_get_read_back[OF g[unfolded r]]])
  show "map_option bare (row_of s' i) = map_option bare (row_of s i)"
    using newest_keeps[OF n, of i] facade_get_kept[OF g] by simp
qed

text \<open>C35: a revision never loses history: when \<open>supersede\<close> returns, the newest version of the memory
  it was given still reads back, with the same content and state and all its tags, now tagged
  superseded and linked to the new id; the new id is the fresh one, stored for the agent; and no other
  row changed but for its tamper mark.\<close>

theorem supersede_keeps_history:
  assumes P: "provider_laws (we_provider (le_write L))"
    and run: "supersede L now clock emb fid s mid content ro = Some (s', Inr new)"
    and fresh: "fid \<notin> fr_id ` set (db_fragments (my_db s))"
  shows "\<exists>s1 old g. require_newest L now s mid = Some (s1, Inr old) \<and> new = fid \<and> fr_id old \<noteq> new
    \<and> sys_get (le_write L) later s' (fr_id old) = (s', Some g) \<and> fr_content g = fr_content old \<and> fr_state g = fr_state old
    \<and> set (fr_tags g) = insert TAG_SUPERSEDED (set (fr_tags old))
    \<and> map_of (fr_meta g) ''superseded_by'' = Some (MvText new)
    \<and> (case row_of s' new of None \<Rightarrow> False | Some r \<Rightarrow> fr_agent r = we_agent (le_write L))
    \<and> (\<forall>i. i \<noteq> new \<and> i \<noteq> fr_id old \<longrightarrow> map_option bare (row_of s' i) = map_option bare (row_of s i))"
proof -
  let ?E = "le_write L"
  obtain s1 old where n: "require_newest L now s mid = Some (s1, Inr old)"
    using run by (auto simp: supersede_def split: option.splits sum.splits prod.splits)
  define opts where "opts = (ro_write ro)\<lparr>wo_session := (case ro_session ro of None \<Rightarrow> fr_session old | Some x \<Rightarrow> x),
                wo_source := (case ro_source ro of None \<Rightarrow> fr_source old | Some x \<Rightarrow> x)\<rparr>"
  obtain s2 r2 where w: "remember L now clock emb fid s1 content opts
             (case ro_importance ro of None \<Rightarrow> NumReal (fr_importance old) | Some x \<Rightarrow> x) (ro_confidence ro)
             (fromkeys (inherited_tags old @ ro_tags ro))
             (case ro_kind ro of None \<Rightarrow> kind_of_tags (fr_tags old) | Some k \<Rightarrow> k)
             (MetaDict (revision_meta old (ro_meta ro))) (ro_occurred ro) = (s2, r2)" by (metis surj_pair)
  have r2: "r2 = Inr new" "retire ?E now s2 old (u ''superseded'') [TAG_SUPERSEDED] [(''superseded_by'', MvText new)] = (s', None)"
    using run n w by (auto simp: supersede_def opts_def split: sum.splits prod.splits option.splits)
  note rows = remember_rows[OF w]
  have new: "new = fid" using rows r2 by blast
  let ?ret = "retired now old (u ''superseded'') [TAG_SUPERSEDED] [(''superseded_by'', MvText new)]"
  have st: "sys_store ?E s2 ?ret = (s', None)" using r2(2) by (simp add: retire_def)
  have old: "read_back ?E s1 old" and
    keep: "map_option bare (row_of s1 i) = map_option bare (row_of s i)" for i
    using require_newest_keeps[OF n] by auto
  have stored: "row_of s1 (fr_id old) \<noteq> None" using old by (auto simp: read_back_def reads_as_def)
  have "row_of s fid = None" using fresh by (simp add: tbl_get_None)
  then have "row_of s1 fid = None" using keep[of fid] by simp
  then have ne: "fr_id old \<noteq> new" using stored new by auto
  have get: "sys_get ?E later s' (fr_id old) = (s', Some (hash_attach (we_provider ?E) ?ret))"
    using stored_reads[OF P, of ?ret s2 s'] st old by (simp add: read_back_def reads_as_def)
  have link: "map_of (fr_meta (hash_attach (we_provider ?E) ?ret)) ''superseded_by'' = Some (MvText new)"
    by (simp add: hash_attach_def retired_def Let_def AList.update_conv)
  have "case row_of s' new of None \<Rightarrow> False | Some r \<Rightarrow> fr_agent r = we_agent ?E"
  proof -
    obtain row where "row_of s2 fid = Some row" "fr_agent row = we_agent ?E" using remember_rows[OF w, of fid] r2(1) by blast
    then show ?thesis using sys_store_rows(1)[OF st, of new] ne new by simp
  qed
  moreover have "map_option bare (row_of s' i) = map_option bare (row_of s i)" if "i \<noteq> new \<and> i \<noteq> fr_id old" for i
    using sys_store_rows(1)[OF st, of i] remember_rows[OF w, of i] keep[of i] that new by simp
  ultimately show ?thesis using n new ne get link
    by (intro exI[of _ s1] exI[of _ old] exI[of _ "hash_attach (we_provider ?E) ?ret"]) (simp del: u_simps)
qed

lemma single_row_get:
  assumes "db_fragments (my_db s) = [r]" "fr_agent r = we_agent E" "\<not> snd (decode_fragment (we_provider E) r)"
  shows "facade_get E now s (fr_id r) = (s, Some (fst (decode_fragment (we_provider E) r)))"
proof -
  have "settled E s (fr_id r)" by (simp add: settled_def assms tbl_get_def)
  then have "sys_get E now s (fr_id r) = (s, Some (fst (decode_fragment (we_provider E) r)))"
    using sys_get_settled sys_get_result[of E now s "fr_id r"] by (simp add: prod_eq_iff assms tbl_get_def)
  then show ?thesis using assms(2) by (simp add: facade_get_def own_fragment_def)
qed

definition wit_todo :: fragment where
  "wit_todo = wit_fragment\<lparr>fr_id := wit_long 97, fr_tags := [''kind:todo'']\<rparr>"

definition wit_todos :: memory_sys where
  "wit_todos = (wit_system None)\<lparr>my_db := empty_db\<lparr>db_fragments := [wit_todo]\<rparr>\<rparr>"

lemma wit_todo_decodes: "decode_fragment (we_provider wit_write_env) wit_todo = (wit_todo, False)"
proof -
  have "py_strip (u ''the sky is blue'') = u ''the sky is blue''" by (rule py_strip_clean) (simp_all add: py_isspace_def)
  then show ?thesis
    by (simp add: decode_fragment_def wit_todo_def wit_fragment_def wit_write_env_def noop_provider_def hash_check_def Let_def del: u_simps)
qed

lemma wit_todo_newest:
  "facade_get wit_write_env now wit_todos (wit_long 97) = (wit_todos, Some wit_todo)"
  "newest wit_life now wit_todos {wit_long 97} wit_todo = Some (wit_todos, wit_todo)"
proof -
  have "db_fragments (my_db wit_todos) = [wit_todo]" "fr_agent wit_todo = we_agent wit_write_env" "fr_id wit_todo = wit_long 97"
    by (simp_all add: wit_todos_def empty_db_def wit_todo_def wit_fragment_def wit_write_env_def)
  then show "facade_get wit_write_env now wit_todos (wit_long 97) = (wit_todos, Some wit_todo)"
    using single_row_get[of wit_todos wit_todo wit_write_env now] wit_todo_decodes by simp
  show "newest wit_life now wit_todos {wit_long 97} wit_todo = Some (wit_todos, wit_todo)"
  proof -
    have "next_link wit_life wit_todo = None" by (simp add: next_link_def wit_todo_def wit_fragment_def)
    then show ?thesis by (simp add: newest.simps[of wit_life now wit_todos "{wit_long 97}" wit_todo])
  qed
qed

lemma wit_provider: "provider_laws (we_provider (le_write wit_life))"
  by (simp add: wit_life_def wit_write_env_def noop.provider_laws_axioms)

lemma wit_resolved:
  "\<exists>s'. resolve wit_life now wit_todos (wit_long 97) None = Some (s', Inr (wit_long 97))
     \<and> tbl_ok fr_id (db_fragments (my_db s'))"
proof -
  have k: "kind_of (we_dec wit_write_env) wit_todo = Some ''todo''"
    by (simp add: kind_of_def wit_todo_def KIND_TAG_PREFIX_def)
  let ?ret = "retired now wit_todo (u ''resolved'') [TAG_RESOLVED, TAG_SUPERSEDED] (resolution_meta now None)"
  have sel: "fr_id wit_todo = wit_long 97" "fr_tags wit_todo = [''kind:todo'']" by (simp_all add: wit_todo_def)
  have same: "fr_agent wit_todo = fr_agent wit_todo" ..
  obtain s' e where st: "sys_store wit_write_env wit_todos ?ret = (s', e)" by (metis surj_pair)
  have e: "e = None"
    using st by (auto simp: sys_store_def store_row_def wit_todos_def empty_db_def tbl_get_def Let_def hash_attach_def
        split: sum.splits)
  have "tbl_ok fr_id (db_fragments (my_db s'))"
    by (rule sys_store_rows(2)[OF st[unfolded e]]) (simp add: wit_todos_def empty_db_def)
  moreover have "resolve wit_life now wit_todos (wit_long 97) None = Some (s', Inr (wit_long 97))"
    using wit_todo_newest[of now] k st e sel
    by (simp add: resolve_def wit_life_def TAG_RESOLVED_def RESOLVABLE_KINDS_def retire_def del: u_simps)
  ultimately show ?thesis by blast
qed

lemma resolve_idempotent_witness:
  "\<exists>s'. resolve wit_life wit_now wit_todos (wit_long 97) None = Some (s', Inr (wit_long 97))
     \<and> resolve wit_life wit_later s' (wit_long 97) (Some (u ''again'')) = Some (s', Inr (wit_long 97))"
proof -
  obtain s' where s: "resolve wit_life wit_now wit_todos (wit_long 97) None = Some (s', Inr (wit_long 97))"
    "tbl_ok fr_id (db_fragments (my_db s'))" using wit_resolved by blast
  from resolve_idempotent[OF wit_provider s] s(1) show ?thesis by blast
qed

definition wit_revision :: revision_options where
  "wit_revision = \<lparr>ro_meta = [], ro_kind = Some (Some ''note''), ro_tags = [], ro_session = None, ro_importance = None,
     ro_source = None, ro_confidence = NumReal (1 / 4), ro_occurred = WhenNone,
     ro_write = wit_options\<lparr>wo_state := QUARANTINED\<rparr>\<rparr>"

lemma wit_policy_plain:
  "write_policy_apply (we_redact wit_write_env) (we_screen wit_write_env) (we_policy wit_write_env) c m ts
     = Inr \<lparr>wd_content = c, wd_meta = m, wd_tags = ts, wd_quarantine = False, wd_reason = []\<rparr>"
  by (simp add: write_policy_apply_def wit_write_env_def redacted_write_def Let_def)

lemma wit_quarantined_write:
  assumes "wo_state opts = QUARANTINED" "0 \<le> wo_importance opts" "wo_importance opts \<le> 1" "0 \<le> wo_confidence opts"
    "wo_confidence opts \<le> 1" "my_gate s = None" "u ''f1'' \<notin> fr_id ` set (db_fragments (my_db s))"
  shows "\<exists>s'. store_sync_impl wit_write_env now clock emb (u ''f1'') s (u ''sky'') opts m None = (s', Inr (u ''f1''))"
proof -
  obtain f where f: "build_fragment wit_write_env now (u ''f1'') (u ''sky'') opts m = Inr f"
    using assms by (auto simp: build_fragment_def fragment_validated_def wit_strip Let_def simp del: u_simps)
  then have id: "fr_id f = u ''f1''" by (rule build_fragment_Inr)
  have g: "guarded_fragment wit_write_env now (u ''f1'') (my_gate s) (my_last s) (u ''sky'') opts m = ((None, None), Inr (f, False))"
    using f assms by (simp add: guarded_fragment_def wit_policy_plain Let_def del: u_simps)
  let ?s1 = "s\<lparr>my_gate := None, my_last := None\<rparr>"
  have "tbl_get fr_id (db_fragments (my_db ?s1)) (fr_id f) = None" using assms(7) id by (simp add: tbl_get_None del: u_simps)
  then obtain s' where "store_and_index wit_write_env ?s1 [f] [] = (s', None)"
    by (simp add: store_and_index_def store_row_def Let_def hash_attach_def)
  then have "store_sync_impl wit_write_env now clock emb (u ''f1'') s (u ''sky'') opts m None = (s', Inr (u ''f1''))"
    using g id by (simp add: store_sync_impl_def del: u_simps)
  then show ?thesis by blast
qed

lemma wit_fresh: "u ''f1'' \<noteq> wit_long 97" "u ''f1'' \<notin> fr_id ` set (db_fragments (my_db wit_todos))"
proof -
  have "length (u ''f1'') \<noteq> length (wit_long 97)" by (simp add: wit_long_def)
  then show "u ''f1'' \<noteq> wit_long 97" by metis
  then show "u ''f1'' \<notin> fr_id ` set (db_fragments (my_db wit_todos))"
    by (simp add: wit_todos_def empty_db_def wit_todo_def del: u_simps)
qed

lemma wit_remembered:
  "\<exists>s'. remember wit_life now clock emb (u ''f1'') wit_todos (InText (u ''sky''))
      (wit_options\<lparr>wo_state := QUARANTINED, wo_session := x, wo_source := y\<rparr>) (NumReal (1 / 2)) (NumReal (1 / 4)) [] (Some ''note'')
      (MetaDict m) WhenNone = (s', Inr (u ''f1''))"
proof -
  have tags: "remember_tags (we_dec wit_write_env) (u ''sky'') (Some ''note'') [] = [''kind:note'']"
    by (simp add: remember_tags_def fromkeys_def kind_tag_def KIND_TAG_PREFIX_def del: u_simps)
  have label: "with_label_kind dec c (Some [''kind:note'']) = Some [''kind:note'']" for dec c
    by (simp add: with_label_kind_def has_kind_tag_def KIND_TAG_PREFIX_def)
  let ?opts = "wit_options\<lparr>wo_state := QUARANTINED, wo_session := x, wo_source := y, wo_importance := 1 / 2,
      wo_confidence := 1 / 4, wo_tags := Some [''kind:note'']\<rparr>"
  note wit_fresh(2)
  moreover have "my_gate wit_todos = None" by (simp add: wit_todos_def wit_system_def)
  ultimately obtain s' where w: "store_sync_impl wit_write_env now clock emb (u ''f1'') wit_todos (u ''sky'') ?opts (Some m) None
      = (s', Inr (u ''f1''))"
    using wit_quarantined_write[of ?opts wit_todos now clock emb "Some m"] by auto
  have max: "we_max wit_write_env = None" by (simp add: wit_write_env_def)
  have "store_sync wit_write_env now clock emb (u ''f1'') wit_todos (InText (u ''sky''))
      (wit_options\<lparr>wo_state := QUARANTINED, wo_session := x, wo_source := y\<rparr>) (NumReal (1 / 2)) (NumReal (1 / 4))
      (TagsList [''kind:note'']) (MetaDict m) WhenNone = (s', Inr (u ''f1''))"
    using w by (simp add: store_sync_def check_content_def max wit_strip wit_valid check_metadata_def check_tags_def
        check_number_def with_occurred_at_def label del: u_simps)
  then show ?thesis
    by (simp add: remember_def wit_strip wit_life_def normalize_kind_def KINDS_def tags del: u_simps)
qed

lemma supersede_keeps_history_witness:
  "\<exists>s'. supersede wit_life wit_now 0 wit_embedder (u ''f1'') wit_todos (wit_long 97) (InText (u ''sky'')) wit_revision = Some (s', Inr (u ''f1''))
     \<and> (\<exists>g. sys_get wit_write_env wit_later s' (wit_long 97) = (s', Some g) \<and> fr_content g = u ''the sky is blue''
          \<and> set (fr_tags g) = {TAG_SUPERSEDED, ''kind:todo''})"
proof -
  have sel: "fr_id wit_todo = wit_long 97" "fr_tags wit_todo = [''kind:todo'']" "fr_content wit_todo = u ''the sky is blue''"
    "fr_importance wit_todo = 1 / 2" by (simp_all add: wit_todo_def wit_fragment_def)
  have E: "le_write wit_life = wit_write_env" by (simp add: wit_life_def)
  have n: "require_newest wit_life wit_now wit_todos (wit_long 97) = Some (wit_todos, Inr wit_todo)"
    using wit_todo_newest[of wit_now] by (simp add: require_newest_def E sel)
  have tags: "fromkeys (inherited_tags wit_todo @ ro_tags wit_revision) = []"
    by (simp add: inherited_tags_def sel KIND_TAG_PREFIX_def wit_revision_def fromkeys_def)
  obtain s2 where w: "remember wit_life wit_now 0 wit_embedder (u ''f1'') wit_todos (InText (u ''sky''))
      (wit_options\<lparr>wo_state := QUARANTINED, wo_session := fr_session wit_todo, wo_source := fr_source wit_todo\<rparr>)
      (NumReal (1 / 2)) (NumReal (1 / 4)) [] (Some ''note'')
      (MetaDict (revision_meta wit_todo [])) WhenNone = (s2, Inr (u ''f1''))"
    using wit_remembered by blast
  let ?ret = "retired wit_now wit_todo (u ''superseded'') [TAG_SUPERSEDED] [(''superseded_by'', MvText (u ''f1''))]"
  have row: "row_of s2 (wit_long 97) = Some wit_todo"
    using remember_rows[OF w, of "wit_long 97"] wit_fresh by (simp add: wit_todos_def empty_db_def tbl_get_def sel)
  obtain s' e where st: "sys_store wit_write_env s2 ?ret = (s', e)" by (metis surj_pair)
  have "e = None"
    using st row by (auto simp: sys_store_def store_row_def Let_def hash_attach_def sel split: sum.splits)
  then have run: "supersede wit_life wit_now 0 wit_embedder (u ''f1'') wit_todos (wit_long 97) (InText (u ''sky'')) wit_revision = Some (s', Inr (u ''f1''))"
    using n w st tags by (simp add: supersede_def wit_revision_def retire_def E sel del: u_simps)
  obtain s1 old g where h: "require_newest wit_life wit_now wit_todos (wit_long 97) = Some (s1, Inr old)"
    "sys_get (le_write wit_life) wit_later s' (fr_id old) = (s', Some g)" "fr_content g = fr_content old"
    "set (fr_tags g) = insert TAG_SUPERSEDED (set (fr_tags old))"
    using supersede_keeps_history[OF wit_provider run wit_fresh(2), of wit_later] by blast
  then have "old = wit_todo" using n by simp
  with run h sel E show ?thesis by (intro exI[of _ s'] conjI exI[of _ g]) (simp_all del: u_simps)
qed

section \<open>What forgetting removes\<close>

lemma unindex_sel [simp]:
  "my_db (mw_sys (unindex i w)) = my_db (mw_sys w)" "mw_facts (unindex i w) = mw_facts w"
  "mw_jobs (unindex i w) = mw_jobs w" "mw_ledger (unindex i w) = mw_ledger w"
  by (simp_all add: unindex_def)

lemma forget_fragment_effect:
  assumes "row_of (mw_sys w) i = Some r" "forget_fragment now secure (unindex i w) i = (w1, hit)"
  shows "hit" "my_db (mw_sys w1) = (my_db (mw_sys w))\<lparr>db_fragments := tbl_delete (\<lambda>x. fr_id x = i) (db_fragments (my_db (mw_sys w)))\<rparr>"
    "mw_facts w1 = cascade_facts now secure (fr_agent r) [i] (mw_facts w)"
    "mw_jobs w1 = drop_jobs i (mw_jobs w)" "mw_ledger w1 = tbl_delete (\<lambda>l. lg_fragment l = Some i) (mw_ledger w)"
    "map_of (vi_owner (my_index (mw_sys w1))) j = (if j = i then None else map_of (vi_owner (my_index (mw_sys w))) j)"
  using assms by (auto simp: forget_fragment_def delete_fragment_def unindex_def index_remove_owner)

lemma cascade_one:
  "map fact_core (filter (\<lambda>r. fact_live r \<and> \<not> sourced a ids r) (cascade_facts now secure a [i] rows))
   = map fact_core (filter (\<lambda>r. fact_live r \<and> \<not> sourced a (i # ids) r) rows)"
proof -
  have c: "concat (py_chunks SQL_CHUNK [i]) = [i]" by (simp add: concat_py_chunks SQL_CHUNK_def)
  have "map fact_core (filter fact_live (cascade_facts now secure a [i] rows))
      = map fact_core (filter (\<lambda>r. fact_live r \<and> \<not> sourced a [i] r) rows)"
    using cascade_fold[of now secure a "py_chunks SQL_CHUNK [i]" rows] unfolding cascade_facts_def c by simp
  from map_core_filter_sourced[OF this, of a ids] show ?thesis
    using sourced_append[of a "[i]" ids] by (simp add: conj_ac)
qed

lemma forget_ids_effect:
  assumes "forget_ids now secure w ids = (w', n)" "distinct ids"
    "\<And>i. i \<in> set ids \<Longrightarrow> \<exists>r. row_of (mw_sys w) i = Some r \<and> fr_agent r = a"
  shows "n = length ids
    \<and> my_db (mw_sys w') = (my_db (mw_sys w))\<lparr>db_fragments := filter (\<lambda>r. fr_id r \<notin> set ids) (db_fragments (my_db (mw_sys w)))\<rparr>
    \<and> jd_jobs (mw_jobs w') = filter (\<lambda>j. jb_fragment j \<notin> set ids) (jd_jobs (mw_jobs w))
    \<and> mw_ledger w' = filter (\<lambda>l. lg_fragment l \<notin> Some ` set ids) (mw_ledger w)
    \<and> (\<forall>j. map_of (vi_owner (my_index (mw_sys w'))) j = (if j \<in> set ids then None else map_of (vi_owner (my_index (mw_sys w))) j))
    \<and> map fact_core (filter fact_live (mw_facts w')) = map fact_core (filter (\<lambda>r. fact_live r \<and> \<not> sourced a ids r) (mw_facts w))"
  using assms
proof (induction ids arbitrary: w n)
  case Nil
  then show ?case by (simp add: sourced_def)
next
  case (Cons i ids)
  obtain r where r: "row_of (mw_sys w) i = Some r" "fr_agent r = a" using Cons.prems(3) by auto
  obtain w1 hit where f: "forget_fragment now secure (unindex i w) i = (w1, hit)" by (metis surj_pair)
  note eff = forget_fragment_effect[OF r(1) f]
  obtain n1 where rest: "forget_ids now secure w1 ids = (w', n1)" and n: "n = Suc n1"
    using Cons.prems(1) f eff(1) by (auto simp: Let_def split: prod.splits)
  have "\<exists>r. row_of (mw_sys w1) j = Some r \<and> fr_agent r = a" if "j \<in> set ids" for j
    using Cons.prems(2,3) that eff(2) by (auto simp: tbl_get_delete_key)
  from Cons.IH[OF rest _ this] Cons.prems(2) have IH: "n1 = length ids"
    "my_db (mw_sys w') = (my_db (mw_sys w1))\<lparr>db_fragments := filter (\<lambda>r. fr_id r \<notin> set ids) (db_fragments (my_db (mw_sys w1)))\<rparr>"
    "jd_jobs (mw_jobs w') = filter (\<lambda>j. jb_fragment j \<notin> set ids) (jd_jobs (mw_jobs w1))"
    "mw_ledger w' = filter (\<lambda>l. lg_fragment l \<notin> Some ` set ids) (mw_ledger w1)"
    "\<And>j. map_of (vi_owner (my_index (mw_sys w'))) j = (if j \<in> set ids then None else map_of (vi_owner (my_index (mw_sys w1))) j)"
    "map fact_core (filter fact_live (mw_facts w')) = map fact_core (filter (\<lambda>r. fact_live r \<and> \<not> sourced a ids r) (mw_facts w1))"
    by auto
  have "map fact_core (filter fact_live (mw_facts w')) = map fact_core (filter (\<lambda>r. fact_live r \<and> \<not> sourced a (i # ids) r) (mw_facts w))"
    using IH(6) eff(3) r(2) cascade_one by simp
  moreover have "mw_ledger w' = filter (\<lambda>l. lg_fragment l \<notin> Some ` set (i # ids)) (mw_ledger w)"
    unfolding IH(4) eff(5) tbl_delete_def filter_filter by (rule filter_cong) auto
  moreover have "jd_jobs (mw_jobs w') = filter (\<lambda>j. jb_fragment j \<notin> set (i # ids)) (jd_jobs (mw_jobs w))"
    unfolding IH(3) eff(4) by (simp add: drop_jobs_def tbl_delete_def conj_commute)
  ultimately show ?case
    using IH(1,2,5) eff(2,6) n by (simp add: tbl_delete_def conj_commute)
qed

text \<open>The rows a pattern selects: those a listing shows whose text, as it reads back, has the words.\<close>

definition forget_hit :: "life_env \<Rightarrow> store_db \<Rightarrow> ustr list \<Rightarrow> fragment \<Rightarrow> bool" where
  "forget_hit L db ws r \<longleftrightarrow> r \<in> set (page_rows db (we_agent (le_write L)) no_filter [])
     \<and> search_words L ws None (fr_content (fst (decode_fragment (we_provider (le_write L)) r)))"

lemma matching_rows:
  assumes "tbl_ok fr_id (db_fragments db)" "match_words L m = Inr ws"
    "matching L (page_fragments (we_provider (le_write L)) db (we_agent (le_write L)) no_filter [] None 0) m = Inr fs"
  shows "distinct (map fr_id fs) \<and> set (map fr_id fs) = fr_id ` set (filter (forget_hit L db ws) (db_fragments db))
    \<and> length fs = length (filter (forget_hit L db ws) (db_fragments db))"
proof -
  let ?P = "we_provider (le_write L)" and ?rows = "page_rows db (we_agent (le_write L)) no_filter []"
  let ?sorted = "sort_key_desc fr_importance (sort_key_desc fr_created (rev ?rows))"
  let ?p = "\<lambda>r. search_words L ws None (fr_content (fst (decode_fragment ?P r)))"
  have fs: "fs = map (\<lambda>r. fst (decode_fragment ?P r)) (filter ?p ?sorted)"
    using assms(2,3) by (auto simp: matching_def page_fragments_def sql_page_def filter_map comp_def)
  have mset: "mset (filter ?p ?sorted) = mset (filter (forget_hit L db ws) (db_fragments db))"
  proof -
    have "filter (forget_hit L db ws) (db_fragments db) = filter ?p ?rows"
      unfolding page_rows_def filter_filter by (rule filter_cong) (auto simp: forget_hit_def page_rows_def)
    then show ?thesis by (simp add: mset_filter)
  qed
  have ids: "map fr_id fs = map fr_id (filter ?p ?sorted)" unfolding fs by simp
  have "mset (map fr_id fs) = mset (map fr_id (filter (forget_hit L db ws) (db_fragments db)))"
    unfolding ids using mset by (metis mset_map)
  then have "distinct (map fr_id fs)" "set (map fr_id fs) = set (map fr_id (filter (forget_hit L db ws) (db_fragments db)))"
    "length (map fr_id fs) = length (map fr_id (filter (forget_hit L db ws) (db_fragments db)))"
    using assms(1) by (metis mset_eq_imp_distinct_iff tbl_ok_filter, metis mset_eq_setD, metis mset_eq_length)
  then show ?thesis by simp
qed

lemma forget_hit_kept:
  assumes "tbl_ok fr_id rows" "r \<in> set rows"
  shows "fr_id r \<in> fr_id ` set (filter p rows) \<longleftrightarrow> p r"
  using assms by (auto simp: distinct_map dest: inj_onD)

text \<open>C37: forgetting by words is exact. A refusal (a pattern that is too short or of common words only,
  more than fifty matches without \<open>all\<close>) and a dry run change nothing. Otherwise exactly the
  listed memories of the agent whose text has the words are gone from the store, the index, the job
  queue and the ledger, the live facts are those with no forgotten source, the count is the number
  of those memories, and every other row is untouched.\<close>

theorem forget_match_is_exact:
  assumes "tbl_ok fr_id (db_fragments (my_db (mw_sys w)))"
    "forget L now w None (Some m) secure dry everything = (w', res)"
  shows "(case match_words L m of Inl e \<Rightarrow> w' = w \<and> res = Inl e
    | Inr ws \<Rightarrow> (let db = my_db (mw_sys w); hits = filter (forget_hit L db ws) (db_fragments db); ids = map fr_id hits
        in case res of
             Inl e \<Rightarrow> w' = w \<and> \<not> dry \<and> \<not> everything \<and> FORGET_MATCH_CAP < length hits
           | Inr (Preview p) \<Rightarrow> w' = w \<and> dry \<and> set (pw_ids p) = set ids \<and> pw_count p = length hits
           | Inr (Forgotten n) \<Rightarrow> \<not> dry \<and> n = length hits \<and> (n \<le> FORGET_MATCH_CAP \<or> everything)
               \<and> my_db (mw_sys w') = db\<lparr>db_fragments := filter (\<lambda>r. \<not> forget_hit L db ws r) (db_fragments db)\<rparr>
               \<and> list_all (\<lambda>i. map_of (vi_owner (my_index (mw_sys w'))) i = None) ids
               \<and> jd_jobs (mw_jobs w') = filter (\<lambda>j. jb_fragment j \<notin> set ids) (jd_jobs (mw_jobs w))
               \<and> mw_ledger w' = filter (\<lambda>l. lg_fragment l \<notin> Some ` set ids) (mw_ledger w)
               \<and> map fact_core (filter fact_live (mw_facts w'))
                   = map fact_core (filter (\<lambda>r. fact_live r \<and> \<not> sourced (we_agent (le_write L)) ids r) (mw_facts w))))"
proof (cases "match_words L m")
  case (Inl e)
  then show ?thesis using assms(2) by (simp add: forget_def matching_def Let_def)
next
  case (Inr ws)
  let ?db = "my_db (mw_sys w)" and ?a = "we_agent (le_write L)"
  let ?hits = "filter (forget_hit L ?db ws) (db_fragments ?db)"
  let ?ids = "map fr_id ?hits"
  obtain fs where fs: "matching L (page_fragments (we_provider (le_write L)) ?db ?a no_filter [] None 0) m = Inr fs"
    using Inr by (simp add: matching_def)
  note rows = matching_rows[OF assms(1) Inr fs]
  have len: "length fs = length ?hits" and set: "set (map fr_id fs) = set ?ids" and dist: "distinct (map fr_id fs)"
    using rows by (blast, simp, blast)
  have pv: "pw_ids (preview x fs) = map fr_id fs" "pw_count (preview x fs) = length fs" for x by (simp_all add: preview_def)
  have run: "forget L now w None (Some m) secure dry everything =
      (if dry then (w, Inr (Preview (preview m fs)))
       else if FORGET_MATCH_CAP < length fs \<and> \<not> everything then (w, Inl (OverCap (preview m fs)))
       else (let (w2, n) = forget_ids now secure w (map fr_id fs) in (w2, Inr (Forgotten n))))"
    by (simp add: forget_def fs Let_def over_cap_def pv)
  show ?thesis
  proof (cases "dry \<or> FORGET_MATCH_CAP < length fs \<and> \<not> everything")
    case True
    then show ?thesis using assms(2) run Inr len set pv by (auto simp: Let_def split: if_splits)
  next
    case False
    obtain w2 n where f: "forget_ids now secure w (map fr_id fs) = (w2, n)" by (metis surj_pair)
    have res: "w' = w2" "res = Inr (Forgotten n)" using assms(2) run f False by (auto split: if_splits)
    have own: "\<exists>r. row_of (mw_sys w) i = Some r \<and> fr_agent r = ?a" if i: "i \<in> set (map fr_id fs)" for i
    proof -
      obtain r where "r \<in> set (db_fragments ?db)" "forget_hit L ?db ws r" "fr_id r = i" using i unfolding set by auto
      then show ?thesis using tbl_get_Some[OF assms(1)] by (auto simp: forget_hit_def page_rows_def fragment_matches_def)
    qed
    note eff = forget_ids_effect[OF f dist own]
    have keep: "filter (\<lambda>r. fr_id r \<notin> set ?ids) (db_fragments ?db) = filter (\<lambda>r. \<not> forget_hit L ?db ws r) (db_fragments ?db)"
      by (rule filter_cong) (use forget_hit_kept[OF assms(1)] in simp_all)
    have src: "sourced ?a (map fr_id fs) = sourced ?a ?ids" unfolding sourced_def set ..
    have "length ?hits \<le> FORGET_MATCH_CAP \<or> everything" using False len by linarith
    then show ?thesis
      using eff False len Inr unfolding res set src keep[unfolded set] by (simp add: Let_def list_all_iff keep)
  qed
qed

definition wit_world :: mem_world where
  "wit_world = \<lparr>mw_sys = wit_todos, mw_facts = [], mw_jobs = \<lparr>jd_jobs = [], jd_owners = []\<rparr>, mw_ledger = []\<rparr>"

lemma forget_match_is_exact_witness:
  "\<exists>w'. forget wit_life wit_now wit_world None (Some (u ''sky'')) False False False = (w', Inr (Forgotten 1))
     \<and> db_fragments (my_db (mw_sys w')) = []"
proof -
  have sky: "py_split (u ''sky'') = [u ''sky'']" by (rule py_split_one) (simp_all add: py_isspace_def)
  have words: "match_words wit_life (u ''sky'') = Inr [u ''sky'']"
  proof -
    have "strip_chars {34, 39, 33, 44, 46, 58, 59, 63} (u ''sky'') = u ''sky''" by (simp add: strip_chars_def rstrip_chars_def)
    moreover have "u ''sky'' \<notin> set FORGET_STOPWORDS" by (simp add: FORGET_STOPWORDS_def)
    ultimately show ?thesis unfolding match_words_def sky Let_def by (simp add: MIN_MATCH_CHARS_def wit_life_def)
  qed
  let ?db = "my_db (mw_sys wit_world)"
  have rows: "db_fragments ?db = [wit_todo]" by (simp add: wit_world_def wit_todos_def empty_db_def)
  have sel: "fr_agent wit_todo = we_agent wit_write_env" "fr_block wit_todo = None" "fr_tags wit_todo = [''kind:todo'']"
    "fr_content wit_todo = u ''the sky is blue''" by (simp_all add: wit_todo_def wit_fragment_def wit_write_env_def)
  have E: "le_write wit_life = wit_write_env" by (simp add: wit_life_def)
  have "search_words wit_life [u ''sky''] None (u ''the sky is blue'')"
    by (simp add: matches_here_def wit_life_def)
  then have hit: "forget_hit wit_life ?db [u ''sky''] wit_todo"
    using wit_todo_decodes sel
    by (simp add: forget_hit_def page_rows_def rows fragment_matches_def no_filter_def UNREADABLE_TAG_def E del: u_simps)
  obtain w' res where run: "forget wit_life wit_now wit_world None (Some (u ''sky'')) False False False = (w', res)" by (metis surj_pair)
  have ok: "tbl_ok fr_id (db_fragments ?db)" by (simp add: rows)
  from forget_match_is_exact[OF ok run] have "res = Inr (Forgotten 1) \<and> db_fragments (my_db (mw_sys w')) = []"
    unfolding words by (cases res; cases "projr res") (auto simp: rows hit Let_def FORGET_MATCH_CAP_def simp del: u_simps split: forget_result.splits)
  with run show ?thesis by blast
qed

text \<open>A memory the key cannot decrypt reads back as a placeholder; promoting it stores the placeholder
  over the ciphertext, under a digest that verifies.\<close>

lemma promote_overwrites_unreadable:
  assumes "row_of s fid = Some r" "pv_decrypt (we_provider E) (fr_content r) = None" "fr_state r = CONTRADICTED"
  shows "\<exists>s' r'. promote E now s fid = (s', None) \<and> row_of s' fid = Some r'
    \<and> fr_content r' = pv_encrypt (we_provider E) UNREADABLE"
proof -
  have i: "fr_id r = fid" using tbl_get_SomeD[OF assms(1)] by simp
  have dec: "decode_fragment (we_provider E) r = (r\<lparr>fr_content := UNREADABLE, fr_state := CONTRADICTED\<rparr>, False)"
    using assms(2,3) by (simp add: decode_fragment_def Let_def)
  let ?f = "r\<lparr>fr_content := UNREADABLE, fr_state := CONTRADICTED\<rparr>"
  have get: "sys_get E now s fid = (s, Some ?f)"
    using sys_get_settled[of E s fid now] sys_get_result[of E now s fid] assms(1) dec by (simp add: settled_def prod_eq_iff)
  obtain s' e where st: "sys_store E s ?f = (s', e)" by (metis surj_pair)
  have e: "e = None" using st assms(1) i by (auto simp: sys_store_def store_row_def Let_def hash_attach_def split: sum.splits)
  have "promote E now s fid = (s', None)" using get st e by (simp add: promote_def promoted_def)
  moreover have "row_of s' fid = Some (stored_row (we_provider E) ?f)" using sys_store_rows(1)[OF st[unfolded e]] i by simp
  ultimately show ?thesis by (auto simp: hash_attach_def)
qed

text \<open>Promoting is not limited to the agent's own memories, unlike every other verb.\<close>

lemma promote_ignores_the_agent:
  assumes "row_of s fid = Some r" "\<not> snd (decode_fragment (we_provider E) r)" "fr_state r = VERIFIED"
    "fr_agent r \<noteq> we_agent E"
  shows "\<exists>s' r'. promote E now s fid = (s', None) \<and> row_of s' fid = Some r' \<and> fr_state r' = PROMOTED"
proof -
  have i: "fr_id r = fid" using tbl_get_SomeD[OF assms(1)] by simp
  let ?f = "fst (decode_fragment (we_provider E) r)"
  have get: "sys_get E now s fid = (s, Some ?f)"
    using sys_get_settled[of E s fid now] sys_get_result[of E now s fid] assms(1,2) by (simp add: settled_def prod_eq_iff)
  have st: "fr_state ?f = VERIFIED" using assms(2,3) by (auto simp: decode_fragment_def Let_def split: if_splits)
  let ?g = "?f\<lparr>fr_state := PROMOTED, fr_updated := now\<rparr>"
  obtain s' e where w: "sys_store E s ?g = (s', e)" by (metis surj_pair)
  have e: "e = None" using w assms(1) i by (auto simp: sys_store_def store_row_def Let_def hash_attach_def split: sum.splits)
  have "promoted now ?f = Inr ?g" using st by (simp add: promoted_def transition_to_def can_transition_to_def bind_res_def)
  then have "promote E now s fid = (s', None)" using get w e by (simp add: promote_def)
  moreover have "row_of s' fid = Some (stored_row (we_provider E) ?g)" using sys_store_rows(1)[OF w[unfolded e]] i by simp
  ultimately show ?thesis by (auto simp: hash_attach_def)
qed

section \<open>Paging\<close>

lemma concat_pages: "concat (map (\<lambda>i. take k (drop (i * k) xs)) [0..<n]) = take (n * k) xs"
proof (induction n)
  case (Suc n)
  have "take (Suc n * k) xs = take (n * k) xs @ take k (drop (n * k) xs)" using take_add[of "n * k" k xs] by (simp only: mult_Suc add.commute)
  with Suc show ?case by simp
qed simp

text \<open>Pages of one size, one after another, are the whole listing cut into pieces: no memory is skipped
  or shown twice; and the count is the length of the whole listing.\<close>

lemma pages_cover_the_listing:
  "concat (map (\<lambda>i. page_fragments P db a ff excl (Some (int k)) (int (i * k))) [0..<n])
     = take (n * k) (page_fragments P db a ff excl None 0)"
  "length (page_fragments P db a ff excl None 0) = count_matching db a ff excl"
proof -
  let ?xs = "map (\<lambda>r. fst (decode_fragment P r))
    (sort_key_desc fr_importance (sort_key_desc fr_created (rev (page_rows db a ff excl))))"
  have full: "page_fragments P db a ff excl None 0 = ?xs" by (simp add: page_fragments_def sql_page_def)
  have page: "page_fragments P db a ff excl (Some (int k)) (int (i * k)) = take k (drop (i * k) ?xs)" for i
    by (simp add: page_fragments_def sql_page_def sql_limit_def take_map drop_map del: of_nat_mult)
  show "concat (map (\<lambda>i. page_fragments P db a ff excl (Some (int k)) (int (i * k))) [0..<n])
     = take (n * k) (page_fragments P db a ff excl None 0)" unfolding page full by (rule concat_pages)
  show "length (page_fragments P db a ff excl None 0) = count_matching db a ff excl"
    by (simp add: full count_matching_def)
qed

end
