(* ===== verification/Maintenance.thy ===== *)
theory Maintenance
  imports BlockChain Governance
begin

text \<open>
  Memory hygiene: exponential decay, Hebbian reinforcement and pruning (\<open>plasticity/\<close>), working
  memory expiry (\<open>memory/working.py\<close>), consolidation (\<open>memory/consolidation.py\<close>),
  deduplication by embedding clusters (\<open>memory/deduplication.py\<close>) and the maintenance
  cycle that runs the three (\<open>memory/runtime_maintenance.py\<close>). Floats are reals; a pass that
  raises returns the exception with the database it leaves behind.
\<close>

section \<open>Decay and reinforcement\<close>

datatype temporal_scope = SHORT_TERM | MEDIUM_TERM | LONG_TERM | PERMANENT

definition DECAY_FLOOR :: real where "DECAY_FLOOR = 5 / 100"
definition REINFORCE_DELTA :: real where "REINFORCE_DELTA = 5 / 100"
definition COACTIVATION_DELTA :: real where "COACTIVATION_DELTA = 3 / 100"
definition EDGE_FLOOR :: real where "EDGE_FLOOR = 10 / 100"
definition DECAY_METADATA_KEY :: string where "DECAY_METADATA_KEY = ''mark_decay''"

fun half_life_hours :: "temporal_scope \<Rightarrow> real option" where
  "half_life_hours SHORT_TERM = Some 48"
| "half_life_hours MEDIUM_TERM = Some 168"
| "half_life_hours LONG_TERM = Some 720"
| "half_life_hours PERMANENT = None"

record decay =
  dc_scope :: temporal_scope
  dc_floor :: real

definition decay_lambda :: "decay \<Rightarrow> real option" where
  "decay_lambda d = map_option (\<lambda>h. ln 2 / h) (half_life_hours (dc_scope d))"

definition decay_factor :: "decay \<Rightarrow> real \<Rightarrow> real" where
  "decay_factor d age_hours = (case decay_lambda d of None \<Rightarrow> 1 | Some l \<Rightarrow> exp (- l * max 0 age_hours))"

text \<open>When decay was last applied, else the creation time; both are UTC times.\<close>

definition reference_time :: "fragment \<Rightarrow> datetime" where
  "reference_time f = (case map_of (fr_meta f) DECAY_METADATA_KEY of Some (MvDecay b t) \<Rightarrow> t | _ \<Rightarrow> fr_created f)"

definition hours_between :: "datetime \<Rightarrow> datetime \<Rightarrow> real" where
  "hours_between now t = real_of_int (dt_micros now - dt_micros t) / 3600000000"

definition decay_apply :: "decay \<Rightarrow> datetime \<Rightarrow> fragment \<Rightarrow> real" where
  "decay_apply d now f =
     (if fr_state f = PROMOTED then fr_importance f
      else max (dc_floor d) (min 1 (fr_importance f * decay_factor d (hours_between now (reference_time f)))))"

definition decay_metadata :: "datetime \<Rightarrow> fragment \<Rightarrow> metadata" where
  "decay_metadata now f = AList.update DECAY_METADATA_KEY
     (MvDecay (case map_of (fr_meta f) DECAY_METADATA_KEY of Some (MvDecay b t) \<Rightarrow> b | _ \<Rightarrow> fr_importance f) now)
     (fr_meta f)"

definition should_prune :: "decay \<Rightarrow> datetime \<Rightarrow> fragment \<Rightarrow> bool" where
  "should_prune d now f \<longleftrightarrow> decay_apply d now f \<le> dc_floor d"

text \<open>\<open>HebbianReinforcement.on_access\<close> and \<open>EdgeCoActivation\<close>.\<close>

definition on_access :: "real \<Rightarrow> fragment \<Rightarrow> real" where
  "on_access delta f = min 1 (fr_importance f + delta * (1 - exp (- real_of_int (access_count (fr_meta f)) / 10)))"

definition on_co_retrieval :: "real \<Rightarrow> real \<Rightarrow> real" where
  "on_co_retrieval delta w = min 1 (w + delta)"

definition should_dissolve :: "real \<Rightarrow> real \<Rightarrow> bool" where
  "should_dissolve least w \<longleftrightarrow> w < least"

section \<open>Passes over the store\<close>

type_synonym 'a pass = "(py_error \<times> store_db) + 'a"

definition save_fragment :: "provider \<Rightarrow> store_db \<Rightarrow> fragment \<Rightarrow> store_db pass" where
  "save_fragment P db f = (case store_fragment P db f of Inl e \<Rightarrow> Inl (e, db) | Inr db' \<Rightarrow> Inr db')"

definition delete_row :: "store_db \<Rightarrow> ustr \<Rightarrow> store_db" where
  "delete_row db i = Product_Type.fst (delete_fragment db i)"

section \<open>Pruning\<close>

record pruner_stats =
  ps_pruned :: nat
  ps_dissolved :: nat
  ps_updated :: nat
  ps_protected :: nat

definition no_pruning :: pruner_stats where
  "no_pruning = \<lparr>ps_pruned = 0, ps_dissolved = 0, ps_updated = 0, ps_protected = 0\<rparr>"

definition prune_exempt :: "sealed_ids \<Rightarrow> fragment \<Rightarrow> bool" where
  "prune_exempt m f \<longleftrightarrow> fr_state f \<in> {PROMOTED, QUARANTINED, CONTRADICTED} \<or> protects_fragment m f"

definition persist_decay :: "provider \<Rightarrow> datetime \<Rightarrow> store_db \<Rightarrow> fragment \<Rightarrow> real \<Rightarrow> store_db pass" where
  "persist_decay P now db f imp =
     save_fragment P db (f\<lparr>fr_importance := imp, fr_meta := decay_metadata now f\<rparr>)"

definition prune_one ::
  "provider \<Rightarrow> decay \<Rightarrow> datetime \<Rightarrow> sealed_ids \<Rightarrow> fragment \<Rightarrow> store_db \<times> pruner_stats \<Rightarrow> (store_db \<times> pruner_stats) pass" where
  "prune_one P d now m f = (\<lambda>(db, st).
     if prune_exempt m f then Inr (db, st\<lparr>ps_protected := ps_protected st + 1\<rparr>)
     else
       (let imp = decay_apply d now f
        in bind_res
             (if \<bar>imp - fr_importance f\<bar> > 1 / 1000000
              then bind_res (persist_decay P now db f imp) (\<lambda>db'. Inr (db', st\<lparr>ps_updated := ps_updated st + 1\<rparr>))
              else Inr (db, st))
             (\<lambda>(db1, st1).
               if imp \<le> dc_floor d then Inr (delete_row db1 (fr_id f), st1\<lparr>ps_pruned := ps_pruned st1 + 1\<rparr>)
               else Inr (db1, st1))))"

text \<open>A pass over a list that stops at the first exception.\<close>

fun run_pass :: "('x \<Rightarrow> 's \<Rightarrow> 'e + 's) \<Rightarrow> 'x list \<Rightarrow> 's \<Rightarrow> 'e + 's" where
  "run_pass step [] s = Inr s"
| "run_pass step (x # xs) s = bind_res (step x s) (run_pass step xs)"

definition dissolve_one :: "(real \<Rightarrow> bool) \<Rightarrow> sealed_ids \<Rightarrow> edge \<Rightarrow> store_db \<times> pruner_stats \<Rightarrow> store_db \<times> pruner_stats" where
  "dissolve_one weak m e = (\<lambda>(db, st).
     if protects_edge m e then (db, st)
     else if weak (ed_weight e) then (Product_Type.fst (delete_edge db (ed_id e)), st\<lparr>ps_dissolved := ps_dissolved st + 1\<rparr>)
     else (db, st))"

definition prune ::
  "provider \<Rightarrow> decay \<Rightarrow> (real \<Rightarrow> bool) \<Rightarrow> datetime \<Rightarrow> ustr \<Rightarrow> store_db \<Rightarrow> (store_db \<times> pruner_stats) pass" where
  "prune P d weak now agent db =
     (let m = sealed_membership P db agent
      in bind_res (run_pass (prune_one P d now m) (list_by_agent P db agent no_filter None) (db, no_pruning))
           (\<lambda>(db1, st). Inr (fold (dissolve_one weak m) (list_edges db1 agent) (db1, st))))"

section \<open>Working memory\<close>

definition working_fragment ::
  "datetime \<Rightarrow> ustr \<Rightarrow> ustr \<Rightarrow> ustr option \<Rightarrow> ustr \<Rightarrow> int \<Rightarrow> real \<Rightarrow> string list \<Rightarrow> metadata \<Rightarrow> py_error + fragment" where
  "working_fragment now fid agent session content ttl imp tags meta =
     fragment_validated \<lparr>fr_id = fid, fr_content = content, fr_agent = agent, fr_block = None,
       fr_scope = ScopeAgent, fr_tier = WORKING, fr_session = session, fr_importance = imp,
       fr_state = UNVERIFIED, fr_confidence = 1, fr_ttl = Some ttl, fr_created = now, fr_updated = now,
       fr_accessed = None, fr_tags = ''working_memory'' # tags, fr_source = None, fr_meta = meta,
       fr_embedding = None, fr_contradictions = []\<rparr>"

definition working_store ::
  "provider \<Rightarrow> datetime \<Rightarrow> ustr \<Rightarrow> store_db \<Rightarrow> ustr \<Rightarrow> ustr option \<Rightarrow> ustr \<Rightarrow> int \<Rightarrow> real \<Rightarrow> string list \<Rightarrow> metadata
     \<Rightarrow> (store_db \<times> ustr) pass" where
  "working_store P now fid db agent session content ttl imp tags meta =
     (case working_fragment now fid agent session content ttl imp tags meta of
        Inl e \<Rightarrow> Inl (e, db)
      | Inr f \<Rightarrow> bind_res (save_fragment P db f) (\<lambda>db'. Inr (db', fr_id f)))"

definition working_active :: "provider \<Rightarrow> datetime \<Rightarrow> ustr \<Rightarrow> store_db \<Rightarrow> fragment list" where
  "working_active P now agent db = filter (\<lambda>f. fr_tier f = WORKING \<and> \<not> is_expired now f)
     (list_by_agent P db agent (no_filter\<lparr>ff_states := [UNVERIFIED, VERIFIED], ff_tier := Some WORKING\<rparr>) None)"

definition evidence :: "memory_state \<Rightarrow> bool" where
  "evidence s \<longleftrightarrow> s = QUARANTINED \<or> s = CONTRADICTED"

definition expire_one :: "datetime \<Rightarrow> sealed_ids \<Rightarrow> fragment \<Rightarrow> store_db \<times> nat \<Rightarrow> store_db \<times> nat" where
  "expire_one now m f = (\<lambda>(db, n).
     if fr_tier f \<noteq> WORKING \<or> \<not> is_expired now f then (db, n)
     else if protects_fragment m f \<or> evidence (fr_state f) then (db, n)
     else (delete_row db (fr_id f), n + 1))"

definition working_expire :: "provider \<Rightarrow> datetime \<Rightarrow> ustr \<Rightarrow> store_db \<Rightarrow> store_db \<times> nat" where
  "working_expire P now agent db =
     fold (expire_one now (sealed_membership P db agent))
       (list_by_agent P db agent (no_filter\<lparr>ff_tier := Some WORKING\<rparr>) None) (db, 0)"

section \<open>Consolidation\<close>

record consolidation_result =
  cr_promoted :: nat
  cr_expired :: nat
  cr_skipped :: nat
  cr_blocked :: nat
  cr_sanitized :: nat

text \<open>The state of a pass: the database, the gate, the audit log when there is one, the counts.\<close>

record consolidation =
  co_db :: store_db
  co_gate :: gate
  co_log :: "audit_entry list option"
  co_result :: consolidation_result

definition promoted_fragment :: "datetime \<Rightarrow> fragment \<Rightarrow> ustr \<Rightarrow> fragment" where
  "promoted_fragment now f content = f\<lparr>fr_content := content, fr_tier := EPISODIC, fr_state := VERIFIED,
     fr_ttl := None, fr_updated := now\<rparr>"

definition count_skipped :: "consolidation \<Rightarrow> consolidation" where
  "count_skipped s = s\<lparr>co_result := (co_result s)\<lparr>cr_skipped := cr_skipped (co_result s) + 1\<rparr>\<rparr>"

text \<open>The gate's verdict on one fragment, recorded in the audit log under the id \<open>eid\<close> of the
  entry's number.\<close>

definition judge ::
  "(ustr \<Rightarrow> ustr) \<Rightarrow> (nat \<Rightarrow> ustr) \<Rightarrow> datetime \<Rightarrow> ustr \<Rightarrow> fragment \<Rightarrow> consolidation \<Rightarrow> consolidation \<times> gate_result" where
  "judge sha eid now agent f s =
     (let (g, r) = gate_check sha (co_gate s) (fr_content f) (fr_confidence f)
      in (s\<lparr>co_gate := g, co_log := map_option (\<lambda>old. audit_record sha now (eid (length old)) old (gr_content r)
            (gr_reason r) ''ConsolidationGate'' (Some agent)) (co_log s)\<rparr>, r))"

definition consolidate_one ::
  "provider \<Rightarrow> (ustr \<Rightarrow> ustr) \<Rightarrow> (nat \<Rightarrow> ustr) \<Rightarrow> datetime \<Rightarrow> ustr \<Rightarrow> real \<Rightarrow> sealed_ids \<Rightarrow> fragment \<Rightarrow> consolidation
     \<Rightarrow> consolidation pass" where
  "consolidate_one P sha eid now agent threshold m f s =
     (let res = co_result s
      in if fr_tier f \<noteq> WORKING \<and> fr_ttl f = None then Inr (count_skipped s)
         else if protects_fragment m f \<or> evidence (fr_state f) then Inr (count_skipped s)
         else if is_expired now f then
           Inr (s\<lparr>co_db := delete_row (co_db s) (fr_id f), co_result := res\<lparr>cr_expired := cr_expired res + 1\<rparr>\<rparr>)
         else if fr_importance f \<ge> threshold then
           (let (s1, r) = judge sha eid now agent f s
            in if \<not> gr_passed r then Inr (s1\<lparr>co_result := res\<lparr>cr_blocked := cr_blocked res + 1\<rparr>\<rparr>)
               else
                 (let res1 = (if gr_content r \<noteq> fr_content f then res\<lparr>cr_sanitized := cr_sanitized res + 1\<rparr> else res)
                  in bind_res (save_fragment P (co_db s1) (promoted_fragment now f (gr_content r)))
                       (\<lambda>db'. Inr (s1\<lparr>co_db := db', co_result := res1\<lparr>cr_promoted := cr_promoted res1 + 1\<rparr>\<rparr>))))
         else Inr (count_skipped s))"

definition consolidate ::
  "provider \<Rightarrow> (ustr \<Rightarrow> ustr) \<Rightarrow> (nat \<Rightarrow> ustr) \<Rightarrow> datetime \<Rightarrow> ustr \<Rightarrow> real \<Rightarrow> gate \<Rightarrow> audit_entry list option \<Rightarrow> store_db
     \<Rightarrow> consolidation pass" where
  "consolidate P sha eid now agent threshold g alog db =
     run_pass (consolidate_one P sha eid now agent threshold (sealed_membership P db agent))
       (list_by_agent P db agent no_filter None)
       \<lparr>co_db = db, co_gate = g, co_log = alog,
        co_result = \<lparr>cr_promoted = 0, cr_expired = 0, cr_skipped = 0, cr_blocked = 0, cr_sanitized = 0\<rparr>\<rparr>"

section \<open>Deduplication\<close>

text \<open>\<open>_cosine\<close>: the dot product over the common length, 0 for a zero vector.\<close>

definition dot :: "real list \<Rightarrow> real list \<Rightarrow> real" where
  "dot a b = sum_list (map (\<lambda>(x, y). x * y) (zip a b))"

definition cosine :: "real list \<Rightarrow> real list \<Rightarrow> real" where
  "cosine a b =
     (let na = sqrt (dot a a); nb = sqrt (dot b b)
      in if na = 0 \<or> nb = 0 then 0 else dot a b / (na * nb))"

text \<open>\<open>_centroid\<close> indexes every embedding up to the first one's length: \<open>IndexError\<close> when
  one is shorter.\<close>

definition centroid :: "real list list \<Rightarrow> py_error + real list" where
  "centroid es = (case es of [] \<Rightarrow> Inr []
     | e # _ \<Rightarrow> if list_all (\<lambda>x. length e \<le> length x) es
         then Inr (map (\<lambda>k. sum_list (map (\<lambda>x. x ! k) es) / real (length es)) [0..<length e])
         else Inl LookupError)"

text \<open>Greedy seed-based clustering: the first cluster whose seed is similar takes the item.\<close>

fun place :: "('x \<Rightarrow> 'x \<Rightarrow> bool) \<Rightarrow> 'x \<Rightarrow> 'x list list \<Rightarrow> 'x list list" where
  "place sim x [] = [[x]]"
| "place sim x (c # cs) = (if sim x (hd c) then (c @ [x]) # cs else c # place sim x cs)"

definition build_clusters :: "('x \<Rightarrow> 'x \<Rightarrow> bool) \<Rightarrow> 'x list \<Rightarrow> 'x list list" where
  "build_clusters sim xs = fold (place sim) xs []"

definition embedding_of :: "fragment \<Rightarrow> real list" where
  "embedding_of f = (case fr_embedding f of None \<Rightarrow> [] | Some e \<Rightarrow> e)"

definition similar :: "real \<Rightarrow> fragment \<Rightarrow> fragment \<Rightarrow> bool" where
  "similar threshold f seed \<longleftrightarrow> cosine (embedding_of f) (embedding_of seed) \<ge> threshold"

record cluster_result =
  cl_kept :: ustr
  cl_merged :: "ustr list"
  cl_size :: nat
  cl_centroid :: "real list option"

record dedup_result =
  dr_merged :: nat
  dr_kept :: nat
  dr_skipped :: nat
  dr_clusters :: "cluster_result list"

definition merged_before :: "fragment \<Rightarrow> ustr list" where
  "merged_before f = (case map_of (fr_meta f) ''merged_from_ids'' of Some (MvTexts ids) \<Rightarrow> ids | _ \<Rightarrow> [])"

definition merged_seed :: "fragment \<Rightarrow> ustr list \<Rightarrow> nat \<Rightarrow> fragment" where
  "merged_seed seed ids n = seed\<lparr>fr_meta := AList.update ''cluster_size'' (MvInt (int n))
     (AList.update ''merged_from_ids'' (MvTexts (merged_before seed @ ids)) (fr_meta seed))\<rparr>"

text \<open>Repoint the duplicate's nodes to the seed, then delete it.\<close>

definition absorb :: "fragment \<Rightarrow> fragment \<Rightarrow> store_db \<Rightarrow> store_db" where
  "absorb seed dup db = delete_row
     (fold (\<lambda>n d. store_node d (n\<lparr>nd_fragment := Some (fr_id seed)\<rparr>)) (nodes_for_fragment db (fr_id dup)) db) (fr_id dup)"

definition merge_cluster ::
  "provider \<Rightarrow> fragment list \<Rightarrow> store_db \<times> dedup_result \<Rightarrow> (store_db \<times> dedup_result) pass" where
  "merge_cluster P c = (\<lambda>(db, res).
     (let seed = hd c; rest = List.tl c; ids = map fr_id rest
      in if rest = [] then
           Inr (db, res\<lparr>dr_kept := dr_kept res + 1,
             dr_clusters := dr_clusters res @ [\<lparr>cl_kept = fr_id seed, cl_merged = [], cl_size = 1, cl_centroid = None\<rparr>]\<rparr>)
         else
           (case centroid (map embedding_of c) of
              Inl e \<Rightarrow> Inl (e, db)
            | Inr mid \<Rightarrow>
                bind_res (save_fragment P db (merged_seed seed ids (length c))) (\<lambda>db1.
                  Inr (fold (absorb seed) rest db1,
                    res\<lparr>dr_merged := dr_merged res + length rest, dr_kept := dr_kept res + 1,
                      dr_clusters := dr_clusters res
                        @ [\<lparr>cl_kept = fr_id seed, cl_merged = ids, cl_size = length c, cl_centroid = Some mid\<rparr>]\<rparr>)))))"

text \<open>The fragments a deduplication may touch, and those it clusters: the ones with an
  embedding, most important first.\<close>

definition dedup_eligible :: "store_db \<Rightarrow> sealed_ids \<Rightarrow> fragment list \<Rightarrow> fragment list" where
  "dedup_eligible db m fs =
     (let free = filter (\<lambda>f. \<not> protects_fragment m f \<and> \<not> evidence (fr_state f)) fs
      in if sm_nonempty m
         then filter (\<lambda>f. \<not> list_ex (protects_node m) (nodes_for_fragment db (fr_id f))) free
         else free)"

definition dedup_input :: "store_db \<Rightarrow> sealed_ids \<Rightarrow> fragment list \<Rightarrow> fragment list" where
  "dedup_input db m fs = sort_key_desc fr_importance (filter (\<lambda>f. embedding_of f \<noteq> []) (dedup_eligible db m fs))"

definition deduplicate ::
  "provider \<Rightarrow> ustr \<Rightarrow> ustr option \<Rightarrow> real \<Rightarrow> store_db \<Rightarrow> (store_db \<times> dedup_result) pass" where
  "deduplicate P agent session threshold db =
     (let m = sealed_membership P db agent;
          all = list_by_agent P db agent (no_filter\<lparr>ff_session := session\<rparr>) None;
          embedded = dedup_input db m all;
          start = \<lparr>dr_merged = 0, dr_kept = 0, dr_skipped = length all - length embedded, dr_clusters = []\<rparr>
      in run_pass (merge_cluster P) (build_clusters (similar threshold) embedded) (db, start))"

section \<open>The maintenance cycle\<close>

record cycle_summary =
  cy_consolidation :: consolidation_result
  cy_dedup :: dedup_result
  cy_pruning :: pruner_stats

definition run_cycle ::
  "provider \<Rightarrow> (ustr \<Rightarrow> ustr) \<Rightarrow> (nat \<Rightarrow> ustr) \<Rightarrow> datetime \<Rightarrow> ustr \<Rightarrow> real \<Rightarrow> gate \<Rightarrow> audit_entry list option \<Rightarrow> store_db
     \<Rightarrow> (store_db \<times> audit_entry list option \<times> cycle_summary) pass" where
  "run_cycle P sha eid now agent threshold g alog db =
     bind_res (consolidate P sha eid now agent threshold g alog db) (\<lambda>s.
       bind_res (deduplicate P agent None (95 / 100) (co_db s)) (\<lambda>(db2, dr).
         bind_res (prune P \<lparr>dc_scope = MEDIUM_TERM, dc_floor = DECAY_FLOOR\<rparr> (should_dissolve EDGE_FLOOR) now agent db2)
           (\<lambda>(db3, ps). Inr (db3, co_log s,
              \<lparr>cy_consolidation = co_result s, cy_dedup = dr, cy_pruning = ps\<rparr>))))"

section \<open>Passes that leave a block alone\<close>

text \<open>What a verification of block \<open>bid\<close> reads, row for row.\<close>

definition block_rows :: "store_db \<Rightarrow> ustr \<Rightarrow> fragment list \<times> node list \<times> edge list \<times> block option" where
  "block_rows db bid = (filter (\<lambda>r. fr_block r = Some bid) (db_fragments db), nodes_in_block db bid,
     edges_in_block db bid, get_block db bid)"

lemma verify_block_rows:
  assumes "block_rows db' bid = block_rows db bid"
  shows "verify_block P H db' bid = verify_block P H db bid"
proof -
  have "member_hashes P H db' bid = member_hashes P H db bid"
    using assms by (simp add: member_hashes_def fragments_for_block_def block_rows_def)
  with assms show ?thesis by (intro verify_block_cong) (simp_all add: block_rows_def)
qed

text \<open>A block whose members the ids \<open>m\<close> protect.\<close>

definition guarded :: "sealed_ids \<Rightarrow> store_db \<Rightarrow> ustr \<Rightarrow> bool" where
  "guarded m db bid \<longleftrightarrow> bid \<in> set (sm_blocks m)
     \<and> list_all (\<lambda>r. fr_id r \<in> set (sm_fragments m)) (filter (\<lambda>r. fr_block r = Some bid) (db_fragments db))
     \<and> nd_id ` set (nodes_in_block db bid) \<subseteq> set (sm_nodes m)
     \<and> ed_id ` set (edges_in_block db bid) \<subseteq> set (sm_edges m)"

lemma guarded_cong: "block_rows db' bid = block_rows db bid \<Longrightarrow> guarded m db' bid = guarded m db bid"
  by (simp add: guarded_def block_rows_def)

lemma membership_guards:
  assumes "get_block db bid = Some b" "bk_agent b = agent" "carries_seal b"
  shows "guarded (sealed_membership P db agent) db bid"
proof -
  have id: "bk_id b = bid" by (rule get_block_id[OF assms(1)])
  have "b \<in> set (db_blocks db)" using assms(1) by (auto simp: get_block_def dest: tbl_get_SomeD)
  then have b: "b \<in> set (list_blocks db agent)" using assms(2) by (simp add: list_blocks_def)
  note m = membership_fold[of P db "list_blocks db agent" no_membership, folded sealed_membership_def]
  have frag: "fr_id r \<in> set (sm_fragments (sealed_membership P db agent))"
    if "r \<in> set (db_fragments db)" "fr_block r = Some bid" for r
  proof -
    obtain xs ys where bs: "list_blocks db agent = xs @ b # ys" using b by (meson split_list)
    let ?m1 = "membership_step P db b (fold (membership_step P db) xs no_membership)"
    have "fr_id r \<in> fr_id ` set (fragments_for_block P db bid)"
      using that by (auto simp: fragments_for_block_def image_image intro!: image_eqI[of _ _ r])
    then have "fr_id r \<in> set (sm_fragments ?m1)"
      using assms(3) id by (auto simp: membership_step_def carries_seal_def Let_def)
    then show ?thesis
      using membership_fold[of P db ys ?m1] by (auto simp: sealed_membership_def bs)
  qed
  show ?thesis
    unfolding guarded_def list_all_iff using m b assms(3) frag by (auto simp: id[symmetric])
qed

lemma delete_row_keeps:
  assumes "guarded m db bid" "i \<notin> set (sm_fragments m)"
  shows "block_rows (delete_row db i) bid = block_rows db bid"
proof -
  have "filter (\<lambda>r. fr_block r = Some bid) (tbl_delete (\<lambda>r. fr_id r = i) (db_fragments db))
      = filter (\<lambda>r. fr_block r = Some bid) (db_fragments db)"
    using assms by (auto simp: tbl_delete_def guarded_def list_all_iff intro: filter_cong)
  then show ?thesis
    by (auto simp: delete_row_def delete_fragment_def block_rows_def nodes_in_block_def edges_in_block_def
        get_block_def split: option.split)
qed

lemma save_fragment_keeps:
  assumes "guarded m db bid" "\<not> protects_fragment m f" "save_fragment P db f = Inr db'"
  shows "block_rows db' bid = block_rows db bid \<and> db_nodes db' = db_nodes db \<and> db_edges db' = db_edges db"
proof -
  let ?row = "(hash_attach P f)\<lparr>fr_content := pv_encrypt P (fr_content f)\<rparr>"
  have "store_fragment P db f = Inr db'" using assms(3) by (auto simp: save_fragment_def split: sum.splits)
  then obtain g where "store_row P db f = Inr (db', g)"
    by (auto simp: store_fragment_def bind_res_Inr_iff split: prod.splits)
  then have db': "db' = db\<lparr>db_fragments := tbl_upsert fr_id ?row (db_fragments db)\<rparr>"
    by (simp add: store_row_Inr_iff)
  have "filter (\<lambda>r. fr_block r = Some bid) (tbl_upsert fr_id ?row (db_fragments db))
      = filter (\<lambda>r. fr_block r = Some bid) (db_fragments db)"
    by (rule filter_tbl_upsert) (use assms(1,2) in \<open>auto simp: guarded_def list_all_iff protects_fragment_def hash_attach_def\<close>)
  then show ?thesis
    by (simp add: db' block_rows_def nodes_in_block_def edges_in_block_def get_block_def)
qed

lemma delete_edge_keeps:
  assumes "guarded m db bid" "\<not> protects_edge m e"
  shows "block_rows (Product_Type.fst (delete_edge db (ed_id e))) bid = block_rows db bid"
proof -
  have "filter (\<lambda>x. ed_block x = Some bid) (tbl_delete (\<lambda>x. ed_id x = ed_id e) (db_edges db))
      = filter (\<lambda>x. ed_block x = Some bid) (db_edges db)"
    using assms by (auto simp: tbl_delete_def guarded_def list_all_iff protects_edge_def edges_in_block_def intro!: filter_cong)
  then show ?thesis
    by (simp add: delete_edge_def block_rows_def nodes_in_block_def edges_in_block_def get_block_def)
qed

lemma store_node_keeps:
  assumes "\<forall>(b, k, t) \<in> set (db_block_nodes db). b = bid \<longrightarrow> k \<noteq> nd_id n"
  shows "block_rows (store_node db n) bid = block_rows db bid"
proof -
  have mf: "List.map_filter (\<lambda>(b, k, t). tbl_get nd_id (tbl_replace nd_id n (db_nodes db)) k) xs
      = List.map_filter (\<lambda>(b, k, t). tbl_get nd_id (db_nodes db) k) xs"
    if "list_all (\<lambda>(b, k, t). k \<noteq> nd_id n) xs" for xs :: "(ustr \<times> ustr \<times> datetime) list"
    using that by (induction xs) (auto simp: List.map_filter_simps tbl_get_replace split: option.splits)
  have "nodes_in_block (store_node db n) bid = nodes_in_block db bid"
    unfolding nodes_in_block_def store_node_def
    by (simp, rule mf) (use assms in \<open>auto simp: list_all_iff\<close>)
  then show ?thesis by (simp add: block_rows_def edges_in_block_def get_block_def) (simp add: store_node_def)
qed

lemma outside_block:
  assumes "tbl_ok nd_id (db_nodes db)" "n \<in> set (db_nodes db)" "n \<notin> set (nodes_in_block db bid)"
  shows "\<forall>(b, k, t) \<in> set (db_block_nodes db). b = bid \<longrightarrow> k \<noteq> nd_id n"
proof -
  have row: "tbl_get nd_id (db_nodes db) (nd_id n) = Some n" using assms(1,2) by (simp add: tbl_get_Some)
  have "k \<noteq> nd_id n" if "(bid, k, t) \<in> set (db_block_nodes db)" for k t
  proof
    assume "k = nd_id n"
    with that row assms(3) show False
      by (auto simp: nodes_in_block_def List.map_filter_def image_iff)
  qed
  then show ?thesis by auto
qed

lemma nodes_in_block_rows: "n \<in> set (nodes_in_block db bid) \<Longrightarrow> n \<in> set (db_nodes db)"
  by (auto simp: nodes_in_block_def List.map_filter_def dest: tbl_get_SomeD)

section \<open>Every pass leaves sealed blocks alone\<close>

lemma run_pass_inv:
  assumes "\<And>x s. x \<in> set xs \<Longrightarrow> I s \<Longrightarrow> (case step x s of Inl e \<Rightarrow> J e | Inr s' \<Rightarrow> I s')" "I s"
  shows "case run_pass step xs s of Inl e \<Rightarrow> J e | Inr s' \<Rightarrow> I s'"
  using assms
proof (induction xs arbitrary: s)
  case (Cons x xs)
  have "case step x s of Inl e \<Rightarrow> J e | Inr s' \<Rightarrow> I s'" using Cons.prems by simp
  then show ?case
  proof (cases "step x s")
    case (Inr s')
    then have "I s'" using \<open>case step x s of Inl e \<Rightarrow> J e | Inr s' \<Rightarrow> I s'\<close> by simp
    with Cons.IH[OF Cons.prems(1)] Inr show ?thesis by simp
  qed (simp add: bind_res_def)
qed simp

lemma fold_inv:
  assumes "\<And>x s. x \<in> set xs \<Longrightarrow> I s \<Longrightarrow> I (f x s)" "I s"
  shows "I (fold f xs s)"
  using assms by (induction xs arbitrary: s) auto

text \<open>The state a pass has to keep for block \<open>bid\<close> of the database \<open>db0\<close> it started on.\<close>

definition intact :: "store_db \<Rightarrow> ustr \<Rightarrow> store_db \<Rightarrow> bool" where
  "intact db0 bid db \<longleftrightarrow> block_rows db bid = block_rows db0 bid \<and> tbl_ok nd_id (db_nodes db)"

abbreviation outcome_intact :: "store_db \<Rightarrow> ustr \<Rightarrow> ('s \<Rightarrow> store_db) \<Rightarrow> 's pass \<Rightarrow> bool" where
  "outcome_intact db0 bid get r \<equiv> (case r of Inl (e, db) \<Rightarrow> intact db0 bid db | Inr s \<Rightarrow> intact db0 bid (get s))"

lemma intact_guarded: "guarded m db0 bid \<Longrightarrow> intact db0 bid db \<Longrightarrow> guarded m db bid"
  unfolding intact_def by (metis guarded_cong)

lemma pass_frame [simp]:
  "db_nodes (delete_row db i) = db_nodes db"
  "db_nodes (Product_Type.fst (delete_edge db e)) = db_nodes db"
  by (simp_all add: delete_row_def delete_fragment_def delete_edge_def split: option.split)

lemma intact_delete:
  assumes "guarded m db0 bid" "intact db0 bid db" "\<not> protects_fragment m f"
  shows "intact db0 bid (delete_row db (fr_id f))"
proof -
  have "guarded m db bid" by (rule intact_guarded[OF assms(1,2)])
  moreover have "fr_id f \<notin> set (sm_fragments m)" using assms(3) by (simp add: protects_fragment_def)
  ultimately show ?thesis using assms(2) by (simp add: intact_def delete_row_keeps)
qed

lemma intact_save:
  assumes "guarded m db0 bid" "intact db0 bid db" "\<not> protects_fragment m f"
  shows "outcome_intact db0 bid (\<lambda>d. d) (save_fragment P db f)"
proof -
  have "guarded m db bid" by (rule intact_guarded[OF assms(1,2)])
  note keep = save_fragment_keeps[OF this assms(3), of P]
  show ?thesis
  proof (cases "save_fragment P db f")
    case (Inl e)
    then have "\<exists>err. e = (err, db)" by (auto simp: save_fragment_def split: sum.splits)
    then show ?thesis using assms(2) Inl by auto
  next
    case (Inr db')
    with keep assms(2) show ?thesis by (simp add: intact_def)
  qed
qed

lemma protects_fragment_update [simp]:
  "protects_fragment m (f\<lparr>fr_importance := i\<rparr>) = protects_fragment m f"
  "protects_fragment m (f\<lparr>fr_meta := x\<rparr>) = protects_fragment m f"
  "protects_fragment m (promoted_fragment now f c) = protects_fragment m f"
  "protects_fragment m (merged_seed f ids n) = protects_fragment m f"
  by (simp_all add: protects_fragment_def promoted_fragment_def merged_seed_def)

lemma prune_one_intact:
  assumes "guarded m db0 bid" "intact db0 bid (Product_Type.fst s)"
  shows "outcome_intact db0 bid Product_Type.fst (prune_one P d now m f s)"
proof -
  obtain db st where s: "s = (db, st)" by (cases s)
  show ?thesis
  proof (cases "prune_exempt m f")
    case True
    then show ?thesis using assms(2) by (simp add: s prune_one_def)
  next
    case False
    then have free: "\<not> protects_fragment m f" by (simp add: prune_exempt_def)
    let ?imp = "decay_apply d now f"
    have start: "intact db0 bid db" using assms(2) by (simp add: s)
    have save: "outcome_intact db0 bid (\<lambda>d. d) (persist_decay P now db f ?imp)"
      unfolding persist_decay_def by (rule intact_save[OF assms(1) start]) (simp add: free)
    have del: "intact db0 bid x \<Longrightarrow> intact db0 bid (delete_row x (fr_id f))" for x
      using intact_delete[OF assms(1) _ free] .
    show ?thesis
    proof (cases "\<bar>?imp - fr_importance f\<bar> > 1 / 1000000")
      case True
      with save del False show ?thesis
        by (cases "persist_decay P now db f ?imp") (auto simp: s prune_one_def Let_def)
    next
      case no: False
      with del start False show ?thesis by (simp add: s prune_one_def Let_def)
    qed
  qed
qed

lemma dissolve_intact:
  assumes "guarded m db0 bid" "intact db0 bid (Product_Type.fst s)"
  shows "intact db0 bid (Product_Type.fst (dissolve_one weak m e s))"
proof -
  obtain db st where s: "s = (db, st)" by (cases s)
  have "guarded m db bid" by (rule intact_guarded[OF assms(1)]) (use assms(2) in \<open>simp add: s\<close>)
  then have "intact db0 bid (Product_Type.fst (delete_edge db (ed_id e)))" if "\<not> protects_edge m e"
    using delete_edge_keeps[OF _ that, of db] assms(2) by (simp add: s intact_def)
  with assms(2) show ?thesis by (simp add: s dissolve_one_def)
qed

lemma prune_intact:
  assumes "guarded (sealed_membership P db agent) db bid" "tbl_ok nd_id (db_nodes db)"
  shows "outcome_intact db bid Product_Type.fst (prune P d weak now agent db)"
proof -
  let ?m = "sealed_membership P db agent"
  have start: "intact db bid (Product_Type.fst (db, no_pruning))" using assms(2) by (simp add: intact_def)
  have "outcome_intact db bid Product_Type.fst
      (run_pass (prune_one P d now ?m) (list_by_agent P db agent no_filter None) (db, no_pruning))"
    by (rule run_pass_inv[where I = "\<lambda>s. intact db bid (Product_Type.fst s)", OF _ start])
       (rule prune_one_intact[OF assms(1)])
  moreover have "intact db bid (Product_Type.fst (fold (dissolve_one weak ?m) es s))"
    if "intact db bid (Product_Type.fst s)" for es s
    using dissolve_intact[OF assms(1)] that by (rule fold_inv)
  ultimately show ?thesis
    by (cases "run_pass (prune_one P d now ?m) (list_by_agent P db agent no_filter None) (db, no_pruning)")
       (auto simp: prune_def Let_def split_def)
qed

lemma judge_db [simp]: "co_db (Product_Type.fst (judge sha eid now agent f s)) = co_db s"
  by (simp add: judge_def split_def Let_def)

lemma consolidate_one_intact:
  assumes "guarded m db0 bid" "intact db0 bid (co_db s)"
  shows "outcome_intact db0 bid co_db (consolidate_one P sha eid now agent threshold m f s)"
proof (cases "(fr_tier f \<noteq> WORKING \<and> fr_ttl f = None) \<or> protects_fragment m f \<or> evidence (fr_state f)")
  case True
  then show ?thesis using assms(2) by (auto simp: consolidate_one_def count_skipped_def Let_def)
next
  case False
  then have free: "\<not> protects_fragment m f" by blast
  obtain s1 r where j: "judge sha eid now agent f s = (s1, r)" by (cases "judge sha eid now agent f s")
  have s1: "co_db s1 = co_db s" using judge_db[of sha eid now agent f s] j by simp
  have save: "outcome_intact db0 bid (\<lambda>d. d) (save_fragment P (co_db s) (promoted_fragment now f (gr_content r)))"
    by (rule intact_save[OF assms]) (simp add: free)
  show ?thesis
    by (cases "save_fragment P (co_db s) (promoted_fragment now f (gr_content r))")
       (use False save assms(2) intact_delete[OF assms free] s1 in
         \<open>auto simp: consolidate_one_def j Let_def count_skipped_def\<close>)
qed

lemma consolidate_intact:
  assumes "guarded (sealed_membership P db agent) db bid" "tbl_ok nd_id (db_nodes db)"
  shows "outcome_intact db bid co_db (consolidate P sha eid now agent threshold g alog db)"
  unfolding consolidate_def
  by (rule run_pass_inv[where I = "\<lambda>s. intact db bid (co_db s)"])
     (use consolidate_one_intact[OF assms(1)] assms(2) in \<open>simp_all add: intact_def\<close>)

definition unshared :: "sealed_ids \<Rightarrow> store_db \<Rightarrow> fragment \<Rightarrow> bool" where
  "unshared m db f \<longleftrightarrow> \<not> protects_fragment m f \<and> \<not> list_ex (protects_node m) (nodes_for_fragment db (fr_id f))"

lemma absorb_intact:
  assumes "guarded m db0 bid" "intact db0 bid db" "unshared m db0 f"
  shows "intact db0 bid (absorb seed f db)"
proof -
  have same: "nodes_in_block db bid = nodes_in_block db0 bid"
    using assms(2) by (simp add: intact_def block_rows_def)
  have out: "\<forall>(b, k, t) \<in> set (db_block_nodes db). b = bid \<longrightarrow> k \<noteq> nd_id n"
    if n: "n \<in> set (nodes_for_fragment db (fr_id f))" for n
  proof (rule outside_block)
    show "tbl_ok nd_id (db_nodes db)" using assms(2) by (simp add: intact_def)
    show "n \<in> set (db_nodes db)" using n by (simp add: nodes_for_fragment_def)
    show "n \<notin> set (nodes_in_block db bid)"
    proof
      assume "n \<in> set (nodes_in_block db bid)"
      then have i: "n \<in> set (nodes_in_block db0 bid)" by (simp only: same)
      then have "n \<in> set (nodes_for_fragment db0 (fr_id f))"
        using n nodes_in_block_rows by (simp add: nodes_for_fragment_def)
      moreover have "protects_node m n" using i assms(1) by (auto simp: guarded_def protects_node_def)
      ultimately show False using assms(3) by (auto simp: unshared_def list_ex_iff)
    qed
  qed
  let ?step = "\<lambda>n d. store_node d (n\<lparr>nd_fragment := Some (fr_id seed)\<rparr>)"
  have "intact db0 bid (fold ?step ns d) \<and> db_block_nodes (fold ?step ns d) = db_block_nodes db"
    if "set ns \<subseteq> set (nodes_for_fragment db (fr_id f))" "intact db0 bid d" "db_block_nodes d = db_block_nodes db" for ns d
  proof (rule fold_inv[where I = "\<lambda>d. intact db0 bid d \<and> db_block_nodes d = db_block_nodes db"])
    fix n d assume n: "n \<in> set ns" and d: "intact db0 bid d \<and> db_block_nodes d = db_block_nodes db"
    have "\<forall>(b, k, t) \<in> set (db_block_nodes d). b = bid \<longrightarrow> k \<noteq> nd_id (n\<lparr>nd_fragment := Some (fr_id seed)\<rparr>)"
      using out[OF subsetD[OF that(1) n]] d by auto
    with d store_node_keeps show "intact db0 bid (?step n d) \<and> db_block_nodes (?step n d) = db_block_nodes db"
      by (simp add: intact_def) (simp add: store_node_def)
  qed (use that in simp)
  then show ?thesis
    using assms(2,3) by (auto simp: absorb_def unshared_def intro!: intact_delete[OF assms(1)])
qed

lemma place_set: "set (concat (place sim x cs)) = insert x (set (concat cs))"
  by (induction cs) auto

lemma clusters_set: "set (concat (build_clusters sim xs)) = set xs"
proof -
  have "set (concat (fold (place sim) xs cs)) = set (concat cs) \<union> set xs" for cs
    by (induction xs arbitrary: cs) (simp_all add: place_set del: set_concat)
  then show ?thesis by (simp add: build_clusters_def del: set_concat)
qed

lemma place_nonempty: "[] \<notin> set cs \<Longrightarrow> [] \<notin> set (place sim x cs)"
  by (induction cs) auto

lemma clusters_nonempty: "[] \<notin> set (build_clusters sim xs)"
  unfolding build_clusters_def by (rule fold_inv) (simp_all add: place_nonempty)

lemma merge_cluster_intact:
  assumes "guarded m db0 bid" "intact db0 bid (Product_Type.fst s)" "c \<noteq> []" "list_all (unshared m db0) c"
  shows "outcome_intact db0 bid Product_Type.fst (merge_cluster P c s)"
proof -
  obtain db res where s: "s = (db, res)" by (cases s)
  obtain seed rest where c: "c = seed # rest" using assms(3) by (cases c) auto
  have start: "intact db0 bid db" using assms(2) by (simp add: s)
  let ?f = "merged_seed seed (map fr_id rest) (length c)"
  have save: "outcome_intact db0 bid (\<lambda>d. d) (save_fragment P db ?f)"
    by (rule intact_save[OF assms(1) start]) (use assms(4) in \<open>simp add: c unshared_def\<close>)
  have fold: "intact db0 bid (fold (absorb seed) rest d)" if "intact db0 bid d" for d
    by (rule fold_inv) (use that assms(1,4) absorb_intact in \<open>auto simp: c list_all_iff\<close>)
  show ?thesis
  proof (cases "rest = []")
    case True
    then show ?thesis using start by (simp add: s c merge_cluster_def Let_def)
  next
    case False
    then show ?thesis
      using save fold start
      by (cases "centroid (map embedding_of c)"; cases "save_fragment P db ?f")
         (auto simp: s c merge_cluster_def Let_def)
  qed
qed

lemma deduplicate_intact:
  assumes g: "guarded (sealed_membership P db agent) db bid" and "tbl_ok nd_id (db_nodes db)"
  shows "outcome_intact db bid Product_Type.fst (deduplicate P agent session threshold db)"
proof -
  let ?m = "sealed_membership P db agent"
  have ne: "sm_nonempty ?m" using g by (auto simp: guarded_def sm_nonempty_def)
  have "list_all (unshared ?m db) (dedup_input db ?m fs)" for fs
    using ne by (auto simp: dedup_input_def dedup_eligible_def unshared_def list_all_iff)
  then have un: "list_all (unshared ?m db) c"
    if "c \<in> set (build_clusters sim (dedup_input db ?m fs))" for c sim fs
    using that clusters_set[of sim "dedup_input db ?m fs"] by (fastforce simp: list_all_iff)
  show ?thesis unfolding deduplicate_def Let_def
  proof (rule run_pass_inv[where I = "\<lambda>s. intact db bid (Product_Type.fst s)"], goal_cases)
    case (1 c s)
    show ?case by (rule merge_cluster_intact[OF g 1(2)]) (use 1(1) un clusters_nonempty in \<open>force+\<close>)
  qed (use assms(2) in \<open>simp add: intact_def\<close>)
qed

text \<open>A block of the agent that carries a seal stays guarded through a pass that keeps it intact.\<close>

lemma intact_seal:
  assumes "get_block db bid = Some b" "bk_agent b = agent" "carries_seal b" "intact db bid db'"
  shows "guarded (sealed_membership P db' agent) db' bid"
  using assms by (intro membership_guards[of _ _ b]) (simp_all add: intact_def block_rows_def)

lemma intact_trans: "intact db0 bid db1 \<Longrightarrow> intact db1 bid db2 \<Longrightarrow> intact db0 bid db2"
  by (simp add: intact_def)

text \<open>C14: maintenance never breaks a seal: a whole cycle of consolidation, deduplication and
  pruning for the agent that owns a sealed block (or one that was sealed before a quarantine),
  whether it completes or raises on the way, leaves the outcome of that block's verification as it
  was. The same holds for the expiry of working memory.\<close>

theorem maintenance_keeps_seals:
  assumes "get_block db bid = Some b" "bk_agent b = agent" "carries_seal b" "tbl_ok nd_id (db_nodes db)"
  shows "(case run_cycle P sha eid now agent threshold g alog db of
       Inl (e, db') \<Rightarrow> verify_block P H db' bid = verify_block P H db bid
     | Inr (db', alog', summary) \<Rightarrow> verify_block P H db' bid = verify_block P H db bid)
    \<and> verify_block P H (Product_Type.fst (working_expire P now agent db)) bid = verify_block P H db bid"
proof -
  have v: "verify_block P H d bid = verify_block P H db bid" if "intact db bid d" for d
    using that by (intro verify_block_rows) (simp add: intact_def)
  have gd: "guarded (sealed_membership P d agent) d bid" if "intact db bid d" for d
    by (rule intact_seal[OF assms(1-3) that])
  have start: "intact db bid db" using assms(4) by (simp add: intact_def)
  have ok: "tbl_ok nd_id (db_nodes d)" if "intact db bid d" for d using that by (simp add: intact_def)
  have c: "outcome_intact db bid co_db (consolidate P sha eid now agent threshold g alog db)"
    by (rule consolidate_intact[OF gd ok]) (rule start)+
  have d: "outcome_intact db bid Product_Type.fst (deduplicate P agent session t d)" if "intact db bid d" for d session t
    using deduplicate_intact[OF gd ok, OF that that, of session t] intact_trans[OF that]
    by (auto split: sum.splits prod.splits)
  have p: "outcome_intact db bid Product_Type.fst (prune P dc weak now agent d)" if "intact db bid d" for d dc weak
    using prune_intact[OF gd ok, OF that that, of dc weak now] intact_trans[OF that]
    by (auto split: sum.splits prod.splits)
  have "case run_cycle P sha eid now agent threshold g alog db of
      Inl (e, db') \<Rightarrow> intact db bid db' | Inr (db', alog', summary) \<Rightarrow> intact db bid db'"
  proof (cases "consolidate P sha eid now agent threshold g alog db")
    case (Inr s)
    then have s: "intact db bid (co_db s)" using c by simp
    show ?thesis
    proof (cases "deduplicate P agent None (95 / 100) (co_db s)")
      case (Inr r)
      then have "intact db bid (Product_Type.fst r)" using d[OF s, of None "95 / 100"] by simp
      from p[OF this, of "\<lparr>dc_scope = MEDIUM_TERM, dc_floor = DECAY_FLOOR\<rparr>" "should_dissolve EDGE_FLOOR"]
      show ?thesis using Inr \<open>consolidate _ _ _ _ _ _ _ _ _ = Inr s\<close>
        by (auto simp: run_cycle_def split_def split: sum.splits)
    qed (use d[OF s, of None "95 / 100"] Inr in \<open>simp add: run_cycle_def split_def\<close>)
  qed (use c in \<open>simp add: run_cycle_def split_def\<close>)
  moreover have "intact db bid (Product_Type.fst (working_expire P now agent db))"
    unfolding working_expire_def
  proof (rule fold_inv[where I = "\<lambda>s. intact db bid (Product_Type.fst s)"], goal_cases)
    case (1 f s)
    then show ?case using intact_delete[OF gd[OF start], of "Product_Type.fst s" f]
      by (cases s) (simp add: expire_one_def)
  qed (use start in simp)
  ultimately show ?thesis using v by (auto split: sum.splits)
qed

lemma maintenance_keeps_seals_witness:
  "let P = noop_provider wit_sha; b = wit_block\<lparr>bk_status := BLOCK_SEALED\<rparr>; db = wit_sealed_db\<lparr>db_blocks := [b]\<rparr>;
       now = DT 2026 3 1 0 0 0 0
   in (case run_cycle P wit_sha (\<lambda>n. []) now (u ''a'') (7 / 10) wit_gate None db of
       Inl (e, db') \<Rightarrow> verify_block P wit_sha db' (u ''b1'') = verify_block P wit_sha db (u ''b1'')
     | Inr (db', alog', summary) \<Rightarrow> verify_block P wit_sha db' (u ''b1'') = verify_block P wit_sha db (u ''b1''))"
proof -
  let ?b = "wit_block\<lparr>bk_status := BLOCK_SEALED\<rparr>"
  let ?db = "wit_sealed_db\<lparr>db_blocks := [?b]\<rparr>"
  have "get_block ?db (u ''b1'') = Some ?b" "bk_agent ?b = u ''a''" "carries_seal ?b" "tbl_ok nd_id (db_nodes ?db)"
    by (simp_all add: get_block_def tbl_get_def wit_block_def carries_seal_def wit_sealed_db_def empty_db_def)
  from conjunct1[OF maintenance_keeps_seals[OF this]] show ?thesis by (simp only: Let_def)
qed

section \<open>Decay composes\<close>

lemma decay_factor_add:
  "0 \<le> a \<Longrightarrow> 0 \<le> b \<Longrightarrow> decay_factor d (a + b) = decay_factor d a * decay_factor d b"
  by (auto simp: decay_factor_def mult_exp_exp algebra_simps split: option.split)

lemma decay_factor_range: "0 < decay_factor d a \<and> decay_factor d a \<le> 1"
proof -
  have "0 \<le> h" if "half_life_hours s = Some h" for s h
    using that by (cases s) auto
  then have "0 \<le> ln 2 / h * max 0 a" if "half_life_hours (dc_scope d) = Some h" for h
    using that by (intro mult_nonneg_nonneg divide_nonneg_nonneg) auto
  then show ?thesis
    by (cases "half_life_hours (dc_scope d)") (simp_all add: decay_factor_def decay_lambda_def)
qed

lemma clamped_product:
  fixes i k1 k2 F :: real
  assumes "0 \<le> F" "F \<le> 1" "0 \<le> i" "i \<le> 1" "0 < k1" "k1 \<le> 1" "0 < k2" "k2 \<le> 1"
  shows "max F (min 1 (max F (min 1 (i * k1)) * k2)) = max F (min 1 (i * (k1 * k2)))"
proof -
  have "i * k1 \<le> 1" using mult_le_one[of i k1] assms by simp
  then have e: "min 1 (i * k1) = i * k1" by simp
  have p: "F * k2 \<le> F" "i * k1 * k2 \<le> 1" "F * k2 \<le> 1"
    using assms mult_left_le[of k2 F] mult_le_one[of "i * k1" k2] \<open>i * k1 \<le> 1\<close> mult_nonneg_nonneg[of i k1] by auto
  show ?thesis
  proof (cases "F \<le> i * k1")
    case True
    then show ?thesis using p by (simp add: e max_absorb2 mult.assoc)
  next
    case False
    then have "i * k1 * k2 \<le> F * k2" using assms by simp
    then show ?thesis using False p by (simp add: e mult.assoc[symmetric])
  qed
qed

definition decayed :: "decay \<Rightarrow> datetime \<Rightarrow> fragment \<Rightarrow> fragment" where
  "decayed d t f = f\<lparr>fr_importance := decay_apply d t f, fr_meta := decay_metadata t f\<rparr>"

lemma reference_decayed: "reference_time (decayed d t f) = t"
  by (simp add: reference_time_def decayed_def decay_metadata_def AList.update_conv')

text \<open>Decay composes: applying decay at one time and again at a later time gives the
  importance that one application at the later time gives, whatever the half-life, and applying it
  again at the same instant changes nothing; the importance stays between the floor and 1.\<close>

theorem decay_composes:
  assumes "fr_state f \<noteq> PROMOTED" "0 \<le> fr_importance f" "fr_importance f \<le> 1"
    and "0 \<le> dc_floor d" "dc_floor d \<le> 1"
    and "dt_micros (reference_time f) \<le> dt_micros t1" "dt_micros t1 \<le> dt_micros t2"
  shows "decay_apply d t2 (decayed d t1 f) = decay_apply d t2 f
    \<and> decay_apply d t1 (decayed d t1 f) = decay_apply d t1 f
    \<and> dc_floor d \<le> decay_apply d t2 f \<and> decay_apply d t2 f \<le> 1"
proof -
  have st: "fr_state (decayed d t1 f) \<noteq> PROMOTED" using assms(1) by (simp add: decayed_def)
  have imp: "fr_importance (decayed d t1 f) = max (dc_floor d) (min 1 (fr_importance f
      * decay_factor d (hours_between t1 (reference_time f))))"
    using assms(1) by (simp add: decayed_def decay_apply_def)
  have twice: "decay_apply d t (decayed d t1 f) = decay_apply d t f" if "dt_micros t1 \<le> dt_micros t" for t
  proof -
    have split: "hours_between t (reference_time f) = hours_between t1 (reference_time f) + hours_between t t1"
      by (simp add: hours_between_def add_divide_distrib[symmetric])
    have ge: "0 \<le> hours_between t1 (reference_time f)" "0 \<le> hours_between t t1"
      using assms(6) that by (simp_all add: hours_between_def)
    show ?thesis
      using clamped_product[OF assms(4,5,2,3)] decay_factor_range
      by (simp add: decay_apply_def[of d t] st assms(1) imp reference_decayed split decay_factor_add[OF ge])
  qed
  from twice[OF assms(7)] twice[of t1] assms(1,5) show ?thesis by (simp add: decay_apply_def)
qed

lemma decay_composes_witness:
  "decay_apply \<lparr>dc_scope = SHORT_TERM, dc_floor = DECAY_FLOOR\<rparr> (DT 2026 1 9 0 0 0 0)
     (decayed \<lparr>dc_scope = SHORT_TERM, dc_floor = DECAY_FLOOR\<rparr> (DT 2026 1 5 0 0 0 0) wit_fragment)
   = decay_apply \<lparr>dc_scope = SHORT_TERM, dc_floor = DECAY_FLOOR\<rparr> (DT 2026 1 9 0 0 0 0) wit_fragment"
proof -
  have "fr_state wit_fragment \<noteq> PROMOTED" "0 \<le> fr_importance wit_fragment" "fr_importance wit_fragment \<le> 1"
    and "dt_micros (reference_time wit_fragment) \<le> dt_micros (DT 2026 1 5 0 0 0 0)"
    by (simp_all add: wit_fragment_def reference_time_def)
  from decay_composes[OF this(1-3) _ _ this(4), of "\<lparr>dc_scope = SHORT_TERM, dc_floor = DECAY_FLOOR\<rparr>" "DT 2026 1 9 0 0 0 0"]
  show ?thesis by (simp add: DECAY_FLOOR_def)
qed

section \<open>Clusters\<close>

lemma place_mset: "mset (concat (place sim x cs)) = add_mset x (mset (concat cs))"
  by (induction cs) auto

lemma clusters_snoc: "build_clusters sim (xs @ [x]) = place sim x (build_clusters sim xs)"
  by (simp add: build_clusters_def)

lemma place_cases:
  "c \<in> set (place sim x cs) \<Longrightarrow> c \<in> set cs \<or> (c = [x] \<and> (\<forall>d \<in> set cs. \<not> sim x (hd d)))
     \<or> (\<exists>d \<in> set cs. c = d @ [x] \<and> sim x (hd d))"
  by (induction cs) (auto split: if_splits)

lemma clusters_subseq: "c \<in> set (build_clusters sim xs) \<Longrightarrow> subseq c xs"
proof (induction xs arbitrary: c rule: rev_induct)
  case (snoc x xs)
  then have "c \<in> set (place sim x (build_clusters sim xs))" by (simp add: clusters_snoc)
  from place_cases[OF this] snoc.IH show ?case
    by (auto intro: list_emb_append2 subseq_rev_drop_many list_emb_append_mono)
qed (simp add: build_clusters_def)

lemma clusters_similar: "c \<in> set (build_clusters sim xs) \<Longrightarrow> list_all (\<lambda>x. sim x (hd c)) (List.tl c)"
proof (induction xs arbitrary: c rule: rev_induct)
  case (snoc x xs)
  then have "c \<in> set (place sim x (build_clusters sim xs))" by (simp add: clusters_snoc)
  moreover have "list_all (\<lambda>y. sim y (hd (d @ [x]))) (List.tl (d @ [x]))"
    if "d \<in> set (build_clusters sim xs)" "sim x (hd d)" for d
  proof -
    have "d \<noteq> []" using that(1) clusters_nonempty[of sim xs] by metis
    with that snoc.IH[OF that(1)] show ?thesis by (cases d) simp_all
  qed
  ultimately show ?case using place_cases[of c sim x "build_clusters sim xs"] snoc.IH by auto
qed (simp add: build_clusters_def)

lemma place_heads: "[] \<notin> set cs \<Longrightarrow> map hd (place sim x cs) = map hd cs \<or>
    (map hd (place sim x cs) = map hd cs @ [x] \<and> (\<forall>d \<in> set cs. \<not> sim x (hd d)))"
  by (induction cs) auto

lemma clusters_seeds: "sorted_wrt (\<lambda>s x. \<not> sim x s) (map hd (build_clusters sim xs))"
proof (induction xs rule: rev_induct)
  case (snoc x xs)
  from place_heads[OF clusters_nonempty[of sim xs], of sim x] snoc show ?case
    by (auto simp: clusters_snoc sorted_wrt_append)
qed (simp add: build_clusters_def)

text \<open>C15: deduplication clusters: clustering the fragments by descending importance loses and
  duplicates none; every cluster's first member, the one that is kept, is at least as important as
  every member merged into it, and each of these is within the similarity threshold of it; and no
  kept fragment is within the threshold of one kept before it.\<close>

theorem dedup_keeps_the_most_important:
  "let cs = build_clusters (similar t) (sort_key_desc fr_importance fs)
   in mset (concat cs) = mset fs
    \<and> list_all (\<lambda>c. c \<noteq> [] \<and> list_all (\<lambda>f. similar t f (hd c) \<and> fr_importance f \<le> fr_importance (hd c)) (List.tl c)) cs
    \<and> sorted_wrt (\<lambda>c d. \<not> similar t (hd d) (hd c)) cs"
proof -
  let ?xs = "sort_key_desc fr_importance fs"
  let ?cs = "build_clusters (similar t) ?xs"
  have "mset (concat (fold (place sim) ys cs)) = mset (concat cs) + mset ys" for sim and ys :: "fragment list" and cs
    by (induction ys arbitrary: cs) (simp_all add: place_mset)
  then have "mset (concat ?cs) = mset fs" by (simp add: build_clusters_def)
  moreover have "fr_importance f \<le> fr_importance (hd c)" if "c \<in> set ?cs" "f \<in> set (List.tl c)" for c f
  proof -
    have "sorted_wrt (\<lambda>x y. fr_importance y \<le> fr_importance x) ?xs"
      using sort_key_desc_sorted[of fr_importance fs] by (simp add: sorted_wrt_rev sorted_wrt_map)
    moreover have "sorted_wrt R c" if "subseq c ys" "sorted_wrt R ys" for R ys
      using that by (induction rule: list_emb.induct) (auto dest: subseq_set_mono)
    ultimately have "sorted_wrt (\<lambda>x y. fr_importance y \<le> fr_importance x) c"
      using clusters_subseq[OF that(1)] by blast
    with that(2) show ?thesis by (cases c) auto
  qed
  moreover have "sorted_wrt (\<lambda>c d. \<not> similar t (hd d) (hd c)) ?cs"
    using clusters_seeds[of "similar t" ?xs] by (simp add: sorted_wrt_map)
  ultimately show ?thesis
    using clusters_nonempty[of "similar t" ?xs] clusters_similar[of _ "similar t" ?xs]
    by (auto simp: Let_def list_all_iff)
qed

end
