(* ===== verification/Portability.thy ===== *)
theory Portability
  imports Lifecycle Facts
begin

text \<open>
  Backup and restore (\<^verbatim>\<open>memory/facade/portability.py\<close>) of one agent's memories, facts and documents, with the
  document rows of \<^verbatim>\<open>store/_sqlite/document_index.py\<close> and \<^verbatim>\<open>store/_sqlite/lifecycle.py\<close>. A line of the file is
  what \<open>json.loads\<close> makes of it; encoding a record as JSON and reading it back is the identity here, except for
  a blob, which becomes the text of its Python literal. Proved: a restored memory reads back as it was exported,
  restoring a file twice changes nothing, and a bad line does not abort the restore unless its id cannot be
  hashed. Documents do not survive the round trip.
\<close>

section \<open>Document rows\<close>

text \<open>A value of a text column is text or a blob. \<open>encrypt_str\<close> always gives bytes.\<close>

datatype column = ColText ustr | ColBlob ustr

record doc_row =
  dr_id :: ustr
  dr_title :: column
  dr_content :: column
  dr_source :: "column option"
  dr_agent :: ustr
  dr_scope :: ustr
  dr_fragments :: "ustr list"
  dr_tags :: "string list"
  dr_meta :: metadata
  dr_created :: datetime

record doc_record =
  do_id :: ustr
  do_agent :: ustr
  do_title :: ustr
  do_content :: "ustr option"
  do_source :: "ustr option"
  do_scope :: ustr
  do_fragments :: "ustr list"
  do_tags :: "string list"
  do_meta :: metadata
  do_created :: datetime

definition MARK_DOCUMENT :: string where "MARK_DOCUMENT = ''mark_document''"

definition document_put :: "provider \<Rightarrow> doc_record \<Rightarrow> ustr \<Rightarrow> doc_row list \<Rightarrow> doc_row list" where
  "document_put P d content rows = tbl_replace dr_id
     \<lparr>dr_id = do_id d, dr_title = ColBlob (pv_encrypt P (do_title d)), dr_content = ColBlob (pv_encrypt P content),
      dr_source = map_option (\<lambda>s. ColBlob (pv_encrypt P s)) (do_source d), dr_agent = do_agent d, dr_scope = do_scope d,
      dr_fragments = do_fragments d, dr_tags = do_tags d, dr_meta = AList.update MARK_DOCUMENT (MvInt 1) (do_meta d),
      dr_created = do_created d\<rparr> rows"

definition ours :: "doc_row \<Rightarrow> bool" where
  "ours r \<longleftrightarrow> map_of (dr_meta r) MARK_DOCUMENT = Some (MvInt 1)"

text \<open>\<open>decrypt_str\<close> of a text value raises: every provider works on bytes.\<close>

fun decrypt_column :: "provider \<Rightarrow> column \<Rightarrow> py_error + ustr" where
  "decrypt_column P (ColText t) = Inl TypeError"
| "decrypt_column P (ColBlob b) = (case pv_decrypt P b of None \<Rightarrow> Inl ValueError | Some t \<Rightarrow> Inr t)"

definition document_row :: "provider \<Rightarrow> bool \<Rightarrow> doc_row \<Rightarrow> py_error + doc_record" where
  "document_row P with_content r =
     bind_res (decrypt_column P (dr_title r)) (\<lambda>title.
     bind_res (if with_content then bind_res (decrypt_column P (dr_content r)) (\<lambda>c. Inr (Some c)) else Inr None) (\<lambda>content.
     bind_res (case dr_source r of None \<Rightarrow> Inr None | Some c \<Rightarrow> bind_res (decrypt_column P c) (\<lambda>t. Inr (Some t))) (\<lambda>source.
       Inr \<lparr>do_id = dr_id r, do_agent = dr_agent r, do_title = title, do_content = content, do_source = source,
            do_scope = dr_scope r, do_fragments = dr_fragments r, do_tags = dr_tags r,
            do_meta = filter (\<lambda>(k, v). k \<noteq> MARK_DOCUMENT) (dr_meta r), do_created = dr_created r\<rparr>)))"

definition document_fetch :: "provider \<Rightarrow> doc_row list \<Rightarrow> ustr \<Rightarrow> ustr \<Rightarrow> bool \<Rightarrow> py_error + doc_record option" where
  "document_fetch P rows agent did with_content =
     (case find (\<lambda>r. dr_id r = did \<and> dr_agent r = agent \<and> ours r) rows of
        None \<Rightarrow> Inr None
      | Some r \<Rightarrow> bind_res (document_row P with_content r) (\<lambda>d. Inr (Some d)))"

definition document_find :: "provider \<Rightarrow> doc_row list \<Rightarrow> ustr \<Rightarrow> ustr \<Rightarrow> py_error + doc_record option" where
  "document_find P rows agent sha =
     (case sort_key dr_created (filter (\<lambda>r. dr_agent r = agent \<and> ours r \<and> map_of (dr_meta r) ''sha256'' = Some (MvText sha)) rows) of
        [] \<Rightarrow> Inr None
      | r # _ \<Rightarrow> bind_res (document_row P False r) (\<lambda>d. Inr (Some d)))"

fun traverse_res :: "('a \<Rightarrow> 'e + 'b) \<Rightarrow> 'a list \<Rightarrow> 'e + 'b list" where
  "traverse_res f [] = Inr []"
| "traverse_res f (x # xs) = bind_res (f x) (\<lambda>y. bind_res (traverse_res f xs) (\<lambda>ys. Inr (y # ys)))"

definition document_list :: "provider \<Rightarrow> doc_row list \<Rightarrow> ustr \<Rightarrow> int \<Rightarrow> int \<Rightarrow> py_error + doc_record list" where
  "document_list P rows agent lmt off = traverse_res (document_row P False)
     (sql_limit (Some lmt) (drop (nat off) (sort_key_desc dr_created (rev (filter (\<lambda>r. dr_agent r = agent \<and> ours r) rows)))))"

definition document_count :: "doc_row list \<Rightarrow> ustr \<Rightarrow> nat" where
  "document_count rows agent = length (filter (\<lambda>r. dr_agent r = agent \<and> ours r) rows)"

definition document_delete :: "doc_row list \<Rightarrow> ustr \<Rightarrow> ustr \<Rightarrow> doc_row list \<times> bool" where
  "document_delete rows agent did =
     (let gone = (\<lambda>r. dr_id r = did \<and> dr_agent r = agent \<and> ours r) in (tbl_delete gone rows, list_ex gone rows))"

definition document_rows :: "doc_row list \<Rightarrow> ustr \<Rightarrow> doc_row list" where
  "document_rows rows agent = filter (\<lambda>r. dr_agent r = agent) rows"

text \<open>\<open>INSERT OR IGNORE\<close>.\<close>

definition import_document_row :: "doc_row \<Rightarrow> doc_row list \<Rightarrow> doc_row list \<times> bool" where
  "import_document_row r rows = (if tbl_get dr_id rows (dr_id r) = None then (rows @ [r], True) else (rows, False))"

section \<open>Lines of a backup\<close>

text \<open>The \<open>id\<close> of a memory record: text, absent, another value, or one that Python cannot hash (a list or a
  dictionary). The other fields are a fragment, or \<open>None\<close> when one has a type that the model refuses.\<close>

datatype id_field = IdText ustr | IdMissing | IdOther | IdUnhashable

record memory_rec =
  mr_id :: id_field
  mr_body :: "fragment option"

datatype backup_line = BlankLine | NotJson | MemoryLine memory_rec | FactLine "fact_export option"
  | DocumentLine "doc_row option" | OtherLine

datatype backup_header = NoHeader | Header "int option"

definition VERSION :: int where "VERSION = 1"
definition IMPORT_BATCH :: nat where "IMPORT_BATCH = 256"
definition MAX_PROBLEMS :: nat where "MAX_PROBLEMS = 20"

section \<open>Export\<close>

text \<open>\<open>page_fragments(limit=None, include_unreadable=decrypt)\<close>: unreadable memories are left out, or given as they
  are stored.\<close>

definition export_fragments :: "provider \<Rightarrow> store_db \<Rightarrow> ustr \<Rightarrow> bool \<Rightarrow> fragment list" where
  "export_fragments P db agent decrypt =
     (if \<not> decrypt then page_fragments P db agent no_filter [] None 0
      else map (\<lambda>r. let f = fst (decode_fragment P r) in if UNREADABLE_TAG \<in> set (fr_tags r) then f\<lparr>fr_content := fr_content r\<rparr> else f)
        (sort_key_desc fr_importance (sort_key_desc fr_created (rev (filter (fragment_matches db agent no_filter) (db_fragments db))))))"

text \<open>\<open>json.dumps(..., default=str)\<close> writes bytes as \<open>str(bytes)\<close>, the text \<open>lit\<close> of their literal.\<close>

fun dumped_column :: "(ustr \<Rightarrow> ustr) \<Rightarrow> column \<Rightarrow> column" where
  "dumped_column lit (ColText t) = ColText t"
| "dumped_column lit (ColBlob bs) = ColText (lit bs)"

definition dumped_document :: "(ustr \<Rightarrow> ustr) \<Rightarrow> doc_row \<Rightarrow> doc_row" where
  "dumped_document lit r = r\<lparr>dr_title := dumped_column lit (dr_title r), dr_content := dumped_column lit (dr_content r),
     dr_source := map_option (dumped_column lit) (dr_source r)\<rparr>"

definition export_agent :: "(ustr \<Rightarrow> ustr) \<Rightarrow> provider \<Rightarrow> bool \<Rightarrow> store_db \<Rightarrow> fact list \<Rightarrow> doc_row list \<Rightarrow> ustr \<Rightarrow> backup_line list" where
  "export_agent lit P decrypt db facts docs agent =
     map (\<lambda>f. MemoryLine \<lparr>mr_id = IdText (fr_id f), mr_body = Some (f\<lparr>fr_embedding := None\<rparr>)\<rparr>) (export_fragments P db agent decrypt)
     @ map (\<lambda>r. FactLine (Some (export_row r))) (fact_rows facts agent)
     @ map (\<lambda>r. DocumentLine (Some (dumped_document lit r))) (document_rows docs agent)"

definition export_jsonl ::
  "(ustr \<Rightarrow> ustr) \<Rightarrow> provider \<Rightarrow> bool \<Rightarrow> bool \<Rightarrow> store_db \<Rightarrow> fact list \<Rightarrow> doc_row list \<Rightarrow> ustr list \<Rightarrow> py_error + (backup_header \<times> backup_line list)" where
  "export_jsonl lit P encrypted decrypt db facts docs agents =
     (if encrypted \<and> \<not> decrypt then Inl PermissionError
      else Inr (Header (Some VERSION), concat (map (export_agent lit P decrypt db facts docs) agents)))"

section \<open>Import\<close>

record import_counts =
  ic_memories :: nat
  ic_facts :: nat
  ic_documents :: nat
  ic_skipped :: nat
  ic_invalid :: nat
  ic_problems :: "nat list"

record backup_state =
  bs_sys :: memory_sys
  bs_facts :: "fact list"
  bs_docs :: "doc_row list"

definition no_counts :: import_counts where
  "no_counts = \<lparr>ic_memories = 0, ic_facts = 0, ic_documents = 0, ic_skipped = 0, ic_invalid = 0, ic_problems = []\<rparr>"

definition count_skip :: "import_counts \<Rightarrow> import_counts" where
  "count_skip c = c\<lparr>ic_skipped := Suc (ic_skipped c)\<rparr>"

definition count_bad :: "nat \<Rightarrow> import_counts \<Rightarrow> import_counts" where
  "count_bad n c = c\<lparr>ic_invalid := Suc (ic_invalid c),
     ic_problems := (if length (ic_problems c) < MAX_PROBLEMS then ic_problems c @ [n] else ic_problems c)\<rparr>"

text \<open>The environment of a restore: \<open>im_fresh n\<close> is the id made for line \<open>n\<close> when one is needed, \<open>im_caught\<close> holds
  for the failures that are a \<open>KeyError\<close>, \<open>TypeError\<close> or \<open>ValueError\<close>.\<close>

record import_env =
  im_env :: write_env
  im_lower :: "ustr \<Rightarrow> ustr"
  im_now :: datetime
  im_clock :: real
  im_embed :: "ustr list \<Rightarrow> embed_result"
  im_fresh :: "nat \<Rightarrow> ustr"
  im_caught :: "write_error \<Rightarrow> bool"

text \<open>\<open>MemoryFragment.model_validate\<close> of a record without its digest, for this agent.\<close>

definition import_fragment :: "import_env \<Rightarrow> nat \<Rightarrow> memory_rec \<Rightarrow> py_error + fragment" where
  "import_fragment I n m =
     (case (mr_body m, case mr_id m of IdText t \<Rightarrow> Some t | IdMissing \<Rightarrow> Some (im_fresh I n) | _ \<Rightarrow> None) of
        (Some f, Some i) \<Rightarrow>
          bind_res (fragment_validated (f\<lparr>fr_id := i, fr_agent := we_agent (im_env I),
              fr_meta := filter (\<lambda>(k, v). k \<noteq> ''content_hash'') (fr_meta f)\<rparr>))
            (\<lambda>g. Inr (hash_attach (we_provider (im_env I)) g))
      | _ \<Rightarrow> Inl ValueError)"

text \<open>The records of a batch, each on its own: those already present are skipped, those refused are reported. An id
  that cannot be hashed fails in \<open>record.get("id") in existing\<close>, outside the guard.\<close>

fun sort_batch :: "import_env \<Rightarrow> ustr list \<Rightarrow> (nat \<times> memory_rec) list \<Rightarrow> import_counts
    \<Rightarrow> import_counts \<times> (fragment list \<times> fragment list) option" where
  "sort_batch I existing [] c = (c, Some ([], []))"
| "sort_batch I existing ((n, m) # rest) c =
     (if mr_id m = IdUnhashable then (c, None)
      else if \<exists>t\<in>set existing. mr_id m = IdText t then sort_batch I existing rest (count_skip c)
      else case import_fragment I n m of
          Inl e \<Rightarrow> sort_batch I existing rest (count_bad n c)
        | Inr f \<Rightarrow> (case sort_batch I existing rest c of
              (c', None) \<Rightarrow> (c', None)
            | (c', Some (ix, plain)) \<Rightarrow> (c', Some (if is_retrievable (fr_state f) then (f # ix, plain) else (ix, f # plain)))))"

definition sys_get_many :: "write_env \<Rightarrow> datetime \<Rightarrow> memory_sys \<Rightarrow> ustr list \<Rightarrow> memory_sys \<times> ustr list" where
  "sys_get_many E now s ids =
     (let (db, found) = get_many (we_provider E) now (my_db s) ids;
          gone = map fr_id (filter (\<lambda>r. fr_id r \<in> set ids \<and> snd (decode_fragment (we_provider E) r)) (db_fragments (my_db s)))
      in (notify_gone gone (s\<lparr>my_db := db\<rparr>), map fst found))"

text \<open>\<open>index_fragments\<close>: batch by batch embedded, written and indexed.\<close>

fun index_fragments :: "import_env \<Rightarrow> memory_sys \<Rightarrow> fragment list list \<Rightarrow> memory_sys \<times> write_error option" where
  "index_fragments I s [] = (s, None)"
| "index_fragments I s (fs # rest) =
     (case embed_for_write s (im_clock I) (im_embed I) fs of
        (s1, Inl e) \<Rightarrow> (s1, Some e)
      | (s1, Inr out) \<Rightarrow> (case store_and_index (im_env I) s1 [] out of
            (s2, Some e) \<Rightarrow> (s2, Some e)
          | (s2, None) \<Rightarrow> index_fragments I s2 rest))"

datatype import_error = NotAnExport | NewerVersion | BadVersion | NotHashable | Failure write_error

definition store_plain :: "import_env \<Rightarrow> memory_sys \<Rightarrow> fragment list \<Rightarrow> memory_sys \<times> write_error option" where
  "store_plain I s fs =
     (if fs = [] then (s, None) else case store_many (we_provider (im_env I)) (my_db s) fs of
        Inl e \<Rightarrow> (s, Some (StoreError e))
      | Inr (db, ids, gone) \<Rightarrow> (notify_gone gone (s\<lparr>my_db := db\<rparr>), None))"

definition flush_batch :: "import_env \<Rightarrow> memory_sys \<Rightarrow> (nat \<times> memory_rec) list \<Rightarrow> import_counts
    \<Rightarrow> memory_sys \<times> import_counts \<times> import_error option" where
  "flush_batch I s recs c =
     (if recs = [] then (s, c, None)
      else let ids = concat (map (\<lambda>(n, m). case mr_id m of IdText t \<Rightarrow> [t] | _ \<Rightarrow> []) recs);
               (s1, existing) = sys_get_many (im_env I) (im_now I) s ids
           in case sort_batch I existing recs c of
                (c1, None) \<Rightarrow> (s1, c1, Some NotHashable)
              | (c1, Some (ix, plain)) \<Rightarrow>
                  (case store_plain I s1 plain of
                     (s2, Some e) \<Rightarrow> (s2, c1, Some (Failure e))
                   | (s2, None) \<Rightarrow> (case index_fragments I s2 (chunks_of EMBED_BATCH ix) of
                        (s3, Some e) \<Rightarrow> (s3, c1, Some (Failure e))
                      | (s3, None) \<Rightarrow> (s3, c1\<lparr>ic_memories := ic_memories c1 + length ix + length plain\<rparr>, None))))"

definition caught :: "import_env \<Rightarrow> import_error \<Rightarrow> bool" where
  "caught I e = (case e of Failure w \<Rightarrow> im_caught I w | NotHashable \<Rightarrow> True | _ \<Rightarrow> False)"

text \<open>One line: the state, the counts and the pending records, and the failure that leaves the loop.\<close>

type_synonym import_run = "backup_state \<times> import_counts \<times> (nat \<times> memory_rec) list"

definition flush_line :: "import_env \<Rightarrow> nat \<Rightarrow> import_run \<Rightarrow> (nat \<times> memory_rec) list \<Rightarrow> import_run \<times> import_error option" where
  "flush_line I n = (\<lambda>(st, c, pending) recs.
     case flush_batch I (bs_sys st) recs c of (s', c', e) \<Rightarrow>
       ((st\<lparr>bs_sys := s'\<rparr>, c', []), e))"

definition import_fact :: "import_env \<Rightarrow> nat \<Rightarrow> fact_export option \<Rightarrow> backup_state \<times> import_counts \<Rightarrow> backup_state \<times> import_counts" where
  "import_fact I n x = (\<lambda>(st, c). case x of None \<Rightarrow> (st, count_bad n c)
     | Some y \<Rightarrow> (case import_fact_row (im_lower I) (im_now I) (im_fresh I n) (bs_facts st) (we_agent (im_env I)) y of
          Inl e \<Rightarrow> (st, count_bad n c)
        | Inr (rows, added) \<Rightarrow> (st\<lparr>bs_facts := rows\<rparr>, if added then c\<lparr>ic_facts := Suc (ic_facts c)\<rparr> else count_skip c)))"

definition import_document :: "import_env \<Rightarrow> doc_row option \<Rightarrow> backup_state \<times> import_counts \<Rightarrow> backup_state \<times> import_counts" where
  "import_document I d = (\<lambda>(st, c). case d of None \<Rightarrow> (st, count_skip c)
     | Some r \<Rightarrow> (case import_document_row (r\<lparr>dr_agent := we_agent (im_env I)\<rparr>) (bs_docs st) of
          (rows, added) \<Rightarrow> (st\<lparr>bs_docs := rows\<rparr>, if added then c\<lparr>ic_documents := Suc (ic_documents c)\<rparr> else count_skip c)))"

fun import_line_at :: "import_env \<Rightarrow> nat \<Rightarrow> backup_line \<Rightarrow> import_run \<Rightarrow> import_run \<times> import_error option" where
  "import_line_at I n BlankLine r = (r, None)"
| "import_line_at I n NotJson (st, c, pending) = ((st, count_bad n c, pending), None)"
| "import_line_at I n OtherLine (st, c, pending) = ((st, count_skip c, pending), None)"
| "import_line_at I n (DocumentLine d) (st, c, pending) =
     (case import_document I d (st, c) of (st', c') \<Rightarrow> ((st', c', pending), None))"
| "import_line_at I n (MemoryLine m) (st, c, pending) =
     (if IMPORT_BATCH \<le> Suc (length pending) then flush_line I n (st, c, pending) (pending @ [(n, m)])
      else ((st, c, pending @ [(n, m)]), None))"
| "import_line_at I n (FactLine x) (st, c, pending) =
     (case flush_line I n (st, c, pending) pending of
        (r, Some e) \<Rightarrow> (r, Some e)
      | ((st1, c1, p1), None) \<Rightarrow> (case import_fact I n x (st1, c1) of (st2, c2) \<Rightarrow> ((st2, c2, p1), None)))"

text \<open>The loop: a caught failure is one invalid line, any other one aborts the restore.\<close>

fun run_lines :: "import_env \<Rightarrow> nat \<Rightarrow> backup_line list \<Rightarrow> import_run \<Rightarrow> import_run \<times> import_error option" where
  "run_lines I n [] r = (r, None)"
| "run_lines I n (l # ls) r =
     (case import_line_at I n l r of
        (r1, None) \<Rightarrow> run_lines I (Suc n) ls r1
      | ((st, c, pending), Some e) \<Rightarrow>
          if caught I e then run_lines I (Suc n) ls (st, count_bad n c, pending) else ((st, c, pending), Some e))"

definition import_jsonl ::
  "import_env \<Rightarrow> backup_header \<Rightarrow> backup_line list \<Rightarrow> backup_state \<Rightarrow> backup_state \<times> (import_error + import_counts)" where
  "import_jsonl I h ls st =
     (case h of
        NoHeader \<Rightarrow> (st, Inl NotAnExport)
      | Header None \<Rightarrow> (st, Inl BadVersion)
      | Header (Some v) \<Rightarrow>
          if v > VERSION then (st, Inl NewerVersion)
          else (case run_lines I 2 ls (st, no_counts, []) of
              ((st1, c1, pending), Some e) \<Rightarrow> (st1, Inl e)
            | ((st1, c1, pending), None) \<Rightarrow>
                (case flush_batch I (bs_sys st1) pending c1 of
                   (s2, c2, Some e) \<Rightarrow> (st1\<lparr>bs_sys := s2\<rparr>, Inl e)
                 | (s2, c2, None) \<Rightarrow> (st1\<lparr>bs_sys := s2\<rparr>, Inr c2))))"

section \<open>Documents do not survive a restore\<close>

definition put_row :: "provider \<Rightarrow> doc_record \<Rightarrow> ustr \<Rightarrow> doc_row" where
  "put_row P d content = \<lparr>dr_id = do_id d, dr_title = ColBlob (pv_encrypt P (do_title d)), dr_content = ColBlob (pv_encrypt P content),
      dr_source = map_option (\<lambda>s. ColBlob (pv_encrypt P s)) (do_source d), dr_agent = do_agent d, dr_scope = do_scope d,
      dr_fragments = do_fragments d, dr_tags = do_tags d, dr_meta = AList.update MARK_DOCUMENT (MvInt 1) (do_meta d),
      dr_created = do_created d\<rparr>"

lemma put_is_ours [simp]: "ours (put_row P d c)" "dr_id (put_row P d c) = do_id d" "dr_agent (put_row P d c) = do_agent d"
  by (simp_all add: ours_def put_row_def AList.update_conv')

lemma document_put_row: "document_put P d c rows = tbl_replace dr_id (put_row P d c) rows"
  by (simp add: document_put_def put_row_def)

lemma document_reads_back:
  assumes "provider_laws P" "tbl_ok dr_id rows"
  shows "\<exists>r. document_fetch P (document_put P d c rows) (do_agent d) (do_id d) True = Inr (Some r)
     \<and> do_title r = do_title d \<and> do_content r = Some c \<and> do_source r = do_source d"
proof -
  have dec: "pv_decrypt P (pv_encrypt P t) = Some t" for t using assms(1) by (rule provider_laws.decrypt_encrypt)
  have "tbl_get dr_id (document_put P d c rows) (do_id d) = Some (put_row P d c)"
    using tbl_get_replace[of dr_id "put_row P d c" rows "do_id d"] by (simp add: document_put_row)
  then have f: "find (\<lambda>r. dr_id r = do_id d) (document_put P d c rows) = Some (put_row P d c)" by (simp add: tbl_get_def)
  have "find (\<lambda>r. p r \<and> q r) xs = Some x" if "find p xs = Some x" "q x" for p q x and xs :: "doc_row list"
    using that by (induction xs) (auto split: if_splits)
  then have "find (\<lambda>r. dr_id r = do_id d \<and> dr_agent r = do_agent d \<and> ours r) (document_put P d c rows) = Some (put_row P d c)"
    using f by simp
  then show ?thesis by (simp add: document_fetch_def document_row_def put_row_def dec split: option.splits)
qed

text \<open>The columns of a stored document are blobs. The export writes them as text, the import keeps the text, and no
  provider decrypts a text: fetching and listing the restored document raise.\<close>

lemma restored_document_cannot_be_read:
  assumes "rows = fst (import_document_row ((dumped_document lit (put_row P d c))\<lparr>dr_agent := agent\<rparr>) [])"
  shows "document_fetch Q rows agent (do_id d) w = Inl TypeError"
    and "document_list Q rows agent 1 0 = Inl TypeError"
  using assms
  by (simp_all add: import_document_row_def tbl_get_def dumped_document_def put_row_def document_fetch_def document_list_def
      document_row_def ours_def AList.update_conv' sql_limit_def)

section \<open>What an export leaves out\<close>

text \<open>"Every memory" leaves out the members of quarantined blocks, with or without \<open>decrypt\<close>.\<close>

lemma export_omits_quarantined:
  assumes "tbl_ok fr_id (db_fragments db)" "r \<in> set (db_fragments db)" "fr_block r = Some b" "b \<in> set (quarantined_blocks db)"
  shows "fr_id r \<notin> fr_id ` set (export_fragments P db agent decrypt)"
proof
  assume "fr_id r \<in> fr_id ` set (export_fragments P db agent decrypt)"
  then obtain x where x: "x \<in> set (db_fragments db)" "fragment_matches db agent no_filter x" "fr_id x = fr_id r"
    by (auto simp: export_fragments_def page_fragments_def page_rows_def sql_page_def Let_def split: if_splits)
  then have "x = r" using assms(1,2) by (metis distinct_map inj_onD)
  then show False using x(2) assms(3,4) by (simp add: fragment_matches_def)
qed

section \<open>What a batch does\<close>

text \<open>A row up to the relabelling of a tampered memory.\<close>

definition row_core :: "fragment \<Rightarrow> fragment" where
  "row_core r = r\<lparr>fr_state := RAW, fr_updated := fr_created r\<rparr>"

abbreviation cores :: "memory_sys \<Rightarrow> fragment list" where "cores s \<equiv> map row_core (db_fragments (my_db s))"
abbreviation ids_of :: "memory_sys \<Rightarrow> ustr set" where "ids_of s \<equiv> fr_id ` set (db_fragments (my_db s))"

lemma core_id [simp]: "fr_id (row_core r) = fr_id r"
  by (simp add: row_core_def)

lemma cores_ids: "cores s = cores s' \<Longrightarrow> ids_of s = ids_of s'"
proof -
  assume "cores s = cores s'"
  then have "map (fr_id \<circ> row_core) (db_fragments (my_db s)) = map (fr_id \<circ> row_core) (db_fragments (my_db s'))"
    by (metis map_map)
  then have "set (map fr_id (db_fragments (my_db s))) = set (map fr_id (db_fragments (my_db s')))" by (simp add: o_def)
  then show ?thesis by simp
qed

lemma sys_get_many_effect:
  assumes "sys_get_many E now s ids = (s', ex)"
  shows "cores s' = cores s" "set ex = set ids \<inter> ids_of s"
proof -
  have "map row_core (db_fragments (persist_tampered now db is)) = map row_core (db_fragments db)" for db "is"
    by (auto simp: persist_tampered_def tbl_update_def row_core_def)
  then show "cores s' = cores s" "set ex = set ids \<inter> ids_of s"
    using assms by (auto simp: sys_get_many_def get_many_def notify_gone_def Let_def split: if_splits)
qed

lemma store_plain_ids: "store_plain I s fs = (s', None) \<Longrightarrow> ids_of s' = ids_of s \<union> fr_id ` set fs"
proof (cases "fs = []")
  case False
  assume run: "store_plain I s fs = (s', None)"
  then obtain db ids gone where st: "store_many (we_provider (im_env I)) (my_db s) fs = Inr (db, ids, gone)"
    using False by (cases "store_many (we_provider (im_env I)) (my_db s) fs") (auto simp: store_plain_def)
  then have "my_db s' = db" using run False by (auto simp: store_plain_def notify_gone_def)
  then show ?thesis using store_many_row_ids[OF st] by simp
qed (simp add: store_plain_def)

lemma index_fragments_ids: "index_fragments I s cs = (s', None) \<Longrightarrow> ids_of s' = ids_of s \<union> fr_id ` set (concat cs)"
proof (induction cs arbitrary: s)
  case (Cons c cs)
  obtain s1 out where e: "embed_for_write s (im_clock I) (im_embed I) c = (s1, Inr out)"
    using Cons.prems by (cases "embed_for_write s (im_clock I) (im_embed I) c") (auto split: sum.splits)
  obtain s2 where w: "store_and_index (im_env I) s1 [] out = (s2, None)" "index_fragments I s2 cs = (s', None)"
    using Cons.prems e by (auto split: prod.splits option.splits)
  have "my_db s1 = my_db s" "list_all2 same_memory c out" using embed_for_write_frame[OF e] by simp_all
  then show ?case using Cons.IH[OF w(2)] store_and_index_ids[OF w(1)] same_memory_ids[of c out] by auto
qed simp

definition text_ids :: "(nat \<times> memory_rec) list \<Rightarrow> ustr list" where
  "text_ids recs = concat (map (\<lambda>(n, m). case mr_id m of IdText t \<Rightarrow> [t] | _ \<Rightarrow> []) recs)"

lemma in_text_ids: "t \<in> set (text_ids recs) \<longleftrightarrow> (\<exists>n m. (n, m) \<in> set recs \<and> mr_id m = IdText t)"
proof (induction recs)
  case (Cons r recs)
  obtain n m where r: "r = (n, m)" by (cases r)
  have "set (text_ids (r # recs)) = (case mr_id m of IdText t \<Rightarrow> {t} | _ \<Rightarrow> {}) \<union> set (text_ids recs)"
    by (simp add: text_ids_def r split: id_field.split)
  then show ?case using Cons.IH by (cases "mr_id m") (auto simp: r)
qed (simp add: text_ids_def)

lemma import_fragment_line: "mr_id m \<noteq> IdMissing \<Longrightarrow> import_fragment I n m = import_fragment I k m"
  by (simp add: import_fragment_def split: option.splits id_field.splits)

lemma import_fragment_id: "import_fragment I n m = Inr f \<Longrightarrow> mr_id m = IdText t \<Longrightarrow> fr_id f = t"
  by (auto simp: import_fragment_def fragment_validated_def hash_attach_def bind_res_Inr_iff Let_def split: option.splits if_splits)

text \<open>A record is settled when its id is in the store or the model refuses it.\<close>

definition settled_rec :: "import_env \<Rightarrow> ustr set \<Rightarrow> memory_rec \<Rightarrow> bool" where
  "settled_rec I is m \<longleftrightarrow> (\<exists>t\<in>is. mr_id m = IdText t) \<or> (mr_id m \<noteq> IdUnhashable \<and> (\<exists>e. import_fragment I 0 m = Inl e))"

lemma sort_batch_settles:
  assumes "sort_batch I existing recs c = (c', Some (ix, plain))" "\<forall>(n, m)\<in>set recs. mr_id m \<noteq> IdMissing"
  shows "\<forall>(n, m)\<in>set recs. settled_rec I (set existing \<union> fr_id ` set (ix @ plain)) m"
  using assms
proof (induction I existing recs c arbitrary: c' ix plain rule: sort_batch.induct)
  case (2 I existing n m rest c)
  have nh: "mr_id m \<noteq> IdUnhashable" using "2.prems"(1) by auto
  have mono: "settled_rec I is m \<Longrightarrow> is \<subseteq> js \<Longrightarrow> settled_rec I js m" for "is" js m
    by (auto simp: settled_rec_def)
  show ?case
  proof (cases "\<exists>t\<in>set existing. mr_id m = IdText t")
    case True
    then show ?thesis using "2.IH"(1)[OF nh True] "2.prems" nh by (auto simp: settled_rec_def)
  next
    case False
    show ?thesis
    proof (cases "import_fragment I n m")
      case (Inl e)
      have "import_fragment I 0 m = Inl e" using import_fragment_line[of m I n 0] "2.prems"(2) Inl by simp
      then have "settled_rec I is m" for "is" using nh by (auto simp: settled_rec_def)
      then show ?thesis using "2.IH"(2)[OF nh False Inl] "2.prems" nh False Inl by auto
    next
      case (Inr f)
      obtain ix0 plain0 where rest: "sort_batch I existing rest c = (c', Some (ix0, plain0))"
        "(ix, plain) = (if is_retrievable (fr_state f) then (f # ix0, plain0) else (ix0, f # plain0))"
        using "2.prems"(1) nh False Inr by (auto split: prod.splits option.splits)
      have ids: "fr_id ` set (ix @ plain) = insert (fr_id f) (fr_id ` set (ix0 @ plain0))" using rest(2) by (auto split: if_splits)
      have "\<exists>t. mr_id m = IdText t" using Inr nh "2.prems"(2)
        by (cases "mr_id m") (auto simp: import_fragment_def split: option.splits)
      then have "settled_rec I (set existing \<union> fr_id ` set (ix @ plain)) m"
        unfolding ids using import_fragment_id[OF Inr] by (auto simp: settled_rec_def)
      moreover have "\<forall>(n, m)\<in>set rest. settled_rec I (set existing \<union> fr_id ` set (ix @ plain)) m"
      proof (intro ballI, clarify)
        fix k p assume kp: "(k, p) \<in> set rest"
        have "\<forall>(n, m)\<in>set rest. settled_rec I (set existing \<union> fr_id ` set (ix0 @ plain0)) m"
          using "2.IH"(3)[OF nh False Inr rest(1)] "2.prems"(2) by simp
        then have "settled_rec I (set existing \<union> fr_id ` set (ix0 @ plain0)) p" using kp by blast
        then show "settled_rec I (set existing \<union> fr_id ` set (ix @ plain)) p" unfolding ids by (rule mono) blast
      qed
      ultimately show ?thesis by simp
    qed
  qed
qed simp

abbreviation good_rec :: "memory_rec \<Rightarrow> bool" where
  "good_rec m \<equiv> mr_id m \<noteq> IdMissing \<and> mr_id m \<noteq> IdUnhashable"

lemma concat_embed_batches: "concat (chunks_of EMBED_BATCH fs) = fs"
  by (rule concat_chunks_of) (simp add: EMBED_BATCH_def)

lemma settled_mono: "settled_rec I is m \<Longrightarrow> is \<subseteq> js \<Longrightarrow> settled_rec I js m"
  by (auto simp: settled_rec_def)

lemma sort_batch_hashable: "sort_batch I existing recs c = (c', None) \<Longrightarrow> \<exists>(n, m)\<in>set recs. mr_id m = IdUnhashable"
  by (induction I existing recs c arbitrary: c' rule: sort_batch.induct)
     (auto split: if_splits sum.splits prod.splits option.splits)

lemma flush_cases:
  assumes "flush_batch I s recs c = (s', c', r)" "recs \<noteq> []"
  obtains (hash) s1 ex where "sys_get_many (im_env I) (im_now I) s (text_ids recs) = (s1, ex)" "sort_batch I ex recs c = (c', None)"
      "s' = s1" "r = Some NotHashable"
    | (plain) s1 ex ix pl e where "sys_get_many (im_env I) (im_now I) s (text_ids recs) = (s1, ex)" "sort_batch I ex recs c = (c', Some (ix, pl))"
      "store_plain I s1 pl = (s', Some e)" "r = Some (Failure e)"
    | (index) s1 ex ix pl s2 e where "sys_get_many (im_env I) (im_now I) s (text_ids recs) = (s1, ex)" "sort_batch I ex recs c = (c', Some (ix, pl))"
      "store_plain I s1 pl = (s2, None)" "index_fragments I s2 (chunks_of EMBED_BATCH ix) = (s', Some e)" "r = Some (Failure e)"
    | (ok) s1 ex ix pl s2 c1 where "sys_get_many (im_env I) (im_now I) s (text_ids recs) = (s1, ex)" "sort_batch I ex recs c = (c1, Some (ix, pl))"
      "store_plain I s1 pl = (s2, None)" "index_fragments I s2 (chunks_of EMBED_BATCH ix) = (s', None)" "r = None"
      "c' = c1\<lparr>ic_memories := ic_memories c1 + length ix + length pl\<rparr>"
proof -
  obtain s1 ex where g: "sys_get_many (im_env I) (im_now I) s (text_ids recs) = (s1, ex)" by fastforce
  obtain c1 o1 where b: "sort_batch I ex recs c = (c1, o1)" by fastforce
  have run: "(case (c1, o1) of (c1, None) \<Rightarrow> (s1, c1, Some NotHashable)
      | (c1, Some (ix, plain)) \<Rightarrow> (case store_plain I s1 plain of (s2, Some e) \<Rightarrow> (s2, c1, Some (Failure e))
         | (s2, None) \<Rightarrow> (case index_fragments I s2 (chunks_of EMBED_BATCH ix) of (s3, Some e) \<Rightarrow> (s3, c1, Some (Failure e))
              | (s3, None) \<Rightarrow> (s3, c1\<lparr>ic_memories := ic_memories c1 + length ix + length plain\<rparr>, None)))) = (s', c', r)"
    using assms g b by (simp add: flush_batch_def Let_def text_ids_def[symmetric])
  show ?thesis
  proof (cases o1)
    case None
    then show ?thesis using hash[OF g] b run by simp
  next
    case (Some t)
    obtain ix pl where t: "t = (ix, pl)" by (cases t)
    obtain s2 o2 where p: "store_plain I s1 pl = (s2, o2)" by fastforce
    show ?thesis
    proof (cases o2)
      case (Some e)
      then show ?thesis using plain[OF g, of ix pl e] b run p t \<open>o1 = Some t\<close> by simp
    next
      case None
      obtain s3 o3 where i: "index_fragments I s2 (chunks_of EMBED_BATCH ix) = (s3, o3)" by fastforce
      show ?thesis
      proof (cases o3)
        case (Some e)
        then show ?thesis using index[OF g, of ix pl s2 e] b run p t i None \<open>o1 = Some t\<close> by simp
      next
        case None
        then show ?thesis using ok[OF g, of c1 ix pl s2] b run p t i \<open>o2 = None\<close> \<open>o1 = Some t\<close> by simp
      qed
    qed
  qed
qed

text \<open>A flush that succeeds settles its records, and no id leaves the store.\<close>

lemma flush_settles:
  assumes "flush_batch I s recs c = (s', c', None)" "\<forall>(n, m)\<in>set recs. good_rec m"
  shows "ids_of s \<subseteq> ids_of s' \<and> (\<forall>(n, m)\<in>set recs. settled_rec I (ids_of s') m)"
proof (cases "recs = []")
  case True
  then show ?thesis using assms(1) by (simp add: flush_batch_def)
next
  case False
  show ?thesis using assms(1) False
  proof (cases rule: flush_cases)
    case (ok s1 ex ix pl s2 c1)
    have "ids_of s1 = ids_of s" by (rule cores_ids) (rule sys_get_many_effect[OF ok(1)])
    moreover have "ids_of s' = ids_of s1 \<union> fr_id ` set pl \<union> fr_id ` set ix"
      using store_plain_ids[OF ok(3)] index_fragments_ids[OF ok(4)] by (simp add: concat_embed_batches)
    ultimately have ids: "ids_of s' = ids_of s \<union> fr_id ` set (ix @ pl)" by auto
    have "\<forall>(n, m)\<in>set recs. settled_rec I (set ex \<union> fr_id ` set (ix @ pl)) m"
      by (rule sort_batch_settles[OF ok(2)]) (use assms(2) in auto)
    moreover have "set ex \<union> fr_id ` set (ix @ pl) \<subseteq> ids_of s'"
      using sys_get_many_effect(2)[OF ok(1)] ids by auto
    ultimately show ?thesis using settled_mono ids by (auto 0 3)
  qed auto
qed

text \<open>A flush of settled records only reads.\<close>

definition same_counts :: "import_counts \<Rightarrow> import_counts \<Rightarrow> bool" where
  "same_counts c c' \<longleftrightarrow> ic_memories c' = ic_memories c \<and> ic_facts c' = ic_facts c \<and> ic_documents c' = ic_documents c"

lemma same_counts_simps [simp]: "same_counts c c" "same_counts c (count_skip c)" "same_counts c (count_bad n c)"
  by (simp_all add: same_counts_def count_skip_def count_bad_def)

lemma same_counts_trans: "same_counts a b \<Longrightarrow> same_counts b c \<Longrightarrow> same_counts a c"
  by (simp add: same_counts_def)

lemma sort_settled:
  "\<forall>(n, m)\<in>set recs. good_rec m \<and> settled_rec I (set ex) m \<Longrightarrow>
     \<exists>c'. sort_batch I ex recs c = (c', Some ([], [])) \<and> same_counts c c'"
proof (induction recs arbitrary: c)
  case (Cons r recs)
  obtain n m where r: "r = (n, m)" by (cases r)
  have m: "mr_id m \<noteq> IdMissing" "mr_id m \<noteq> IdUnhashable" "settled_rec I (set ex) m" using Cons.prems r by auto
  have ih: "\<exists>c'. sort_batch I ex recs d = (c', Some ([], [])) \<and> same_counts d c'" for d
    using Cons.IH Cons.prems by simp
  show ?case
  proof (cases "\<exists>t\<in>set ex. mr_id m = IdText t")
    case True
    then have "sort_batch I ex (r # recs) c = sort_batch I ex recs (count_skip c)" using m(2) by (simp add: r)
    then show ?thesis using ih[of "count_skip c"] same_counts_trans[OF same_counts_simps(2)] by metis
  next
    case False
    then obtain e where "import_fragment I 0 m = Inl e" using m(3) by (auto simp: settled_rec_def)
    then have e: "import_fragment I n m = Inl e" using import_fragment_line[OF m(1), of I n 0] by simp
    then have "sort_batch I ex (r # recs) c = sort_batch I ex recs (count_bad n c)"
      unfolding r sort_batch.simps(2) if_not_P[OF m(2)] if_not_P[OF False] by simp
    then show ?thesis using ih[of "count_bad n c"] same_counts_trans[OF same_counts_simps(3)] by metis
  qed
qed simp

lemma flush_settled:
  assumes "\<forall>(n, m)\<in>set recs. good_rec m \<and> settled_rec I (ids_of s) m"
  shows "\<exists>s' c'. flush_batch I s recs c = (s', c', None) \<and> cores s' = cores s \<and> same_counts c c'"
proof (cases "recs = []")
  case False
  obtain s1 ex where g: "sys_get_many (im_env I) (im_now I) s (text_ids recs) = (s1, ex)" by fastforce
  note eff = sys_get_many_effect[OF g]
  have "settled_rec I (set ex) m" if "(n, m) \<in> set recs" for n m
    using assms that eff(2) in_text_ids[of _ recs] by (fastforce simp: settled_rec_def)
  then obtain c1 where b: "sort_batch I ex recs c = (c1, Some ([], []))" "same_counts c c1"
    using sort_settled[of recs I ex c] assms by blast
  have "flush_batch I s recs c = (s1, c1\<lparr>ic_memories := ic_memories c1 + 0 + 0\<rparr>, None)"
    using False g b(1) chunks_of.simps[of EMBED_BATCH "[] :: fragment list"]
    by (simp add: flush_batch_def Let_def text_ids_def[symmetric] store_plain_def)
  then show ?thesis using eff(1) b(2) by simp
qed (simp add: flush_batch_def)

section \<open>Restoring twice\<close>

fun line_settled :: "import_env \<Rightarrow> backup_state \<Rightarrow> backup_line \<Rightarrow> bool" where
  "line_settled I st (MemoryLine m) = settled_rec I (ids_of (bs_sys st)) m"
| "line_settled I st (FactLine (Some x)) = line_done (im_lower I) (we_agent (im_env I)) x (bs_facts st)"
| "line_settled I st (DocumentLine (Some r)) = (tbl_get dr_id (bs_docs st) (dr_id r) \<noteq> None)"
| "line_settled I st l = True"

fun good_line :: "backup_line \<Rightarrow> bool" where
  "good_line (MemoryLine m) = good_rec m"
| "good_line l = True"

definition grows :: "import_env \<Rightarrow> backup_state \<Rightarrow> backup_state \<Rightarrow> bool" where
  "grows I st st' \<longleftrightarrow> (\<forall>l. line_settled I st l \<longrightarrow> line_settled I st' l)"

lemma grows_refl [simp]: "grows I st st" and grows_trans: "grows I a b \<Longrightarrow> grows I b c \<Longrightarrow> grows I a c"
  by (simp_all add: grows_def)

lemma grows_sys: "ids_of (bs_sys st) \<subseteq> ids_of s \<Longrightarrow> grows I st (st\<lparr>bs_sys := s\<rparr>)"
  unfolding grows_def
proof (intro allI impI)
  fix l assume ids: "ids_of (bs_sys st) \<subseteq> ids_of s" and l: "line_settled I st l"
  show "line_settled I (st\<lparr>bs_sys := s\<rparr>) l"
    using l settled_mono[OF _ ids] by (induction I st l rule: line_settled.induct) simp_all
qed

lemma fact_line_rows:
  "case import_fact I n x (st, c) of (st', c') \<Rightarrow> grows I st st' \<and> line_settled I st' (FactLine x)"
proof (cases x)
  case (Some y)
  let ?a = "we_agent (im_env I)"
  have il: "import_line (im_lower I) (im_now I) ?a (im_fresh I n, y) (bs_facts st) =
      (case import_fact_row (im_lower I) (im_now I) (im_fresh I n) (bs_facts st) ?a y of Inl e \<Rightarrow> bs_facts st | Inr (rows, added) \<Rightarrow> rows)"
    by (simp add: import_line_def)
  obtain c' where run: "import_fact I n x (st, c) = (st\<lparr>bs_facts := import_line (im_lower I) (im_now I) ?a (im_fresh I n, y) (bs_facts st)\<rparr>, c')"
    unfolding il by (cases "import_fact_row (im_lower I) (im_now I) (im_fresh I n) (bs_facts st) ?a y")
      (auto simp: import_fact_def Some)
  let ?rows = "import_line (im_lower I) (im_now I) ?a (im_fresh I n, y) (bs_facts st)"
  have "line_settled I (st\<lparr>bs_facts := ?rows\<rparr>) l" if "line_settled I st l" for l
    using that import_line_keeps_done[of "im_lower I" ?a _ "bs_facts st" "im_now I" "(im_fresh I n, y)"]
    by (induction I st l rule: line_settled.induct) simp_all
  then show ?thesis unfolding run by (simp add: grows_def import_line_done Some)
qed (simp add: import_fact_def)

lemma document_line_rows:
  "case import_document I d (st, c) of (st', c') \<Rightarrow> grows I st st' \<and> line_settled I st' (DocumentLine d)"
proof (cases d)
  case (Some r)
  let ?r = "r\<lparr>dr_agent := we_agent (im_env I)\<rparr>"
  obtain c' where run: "import_document I d (st, c) = (st\<lparr>bs_docs := fst (import_document_row ?r (bs_docs st))\<rparr>, c')"
    unfolding Some import_document_def by (cases "import_document_row ?r (bs_docs st)") simp
  let ?rows = "fst (import_document_row ?r (bs_docs st))"
  have app: "tbl_get dr_id (xs @ ys) k = (case tbl_get dr_id xs k of None \<Rightarrow> tbl_get dr_id ys k | Some z \<Rightarrow> Some z)" for xs ys k
    unfolding tbl_get_def by (induction xs) simp_all
  have keep: "tbl_get dr_id (bs_docs st) k \<noteq> None \<Longrightarrow> tbl_get dr_id ?rows k \<noteq> None" for k
    by (auto simp: import_document_row_def app)
  have "line_settled I (st\<lparr>bs_docs := ?rows\<rparr>) l" if "line_settled I st l" for l
    using that keep by (induction I st l rule: line_settled.induct) simp_all
  moreover have "tbl_get dr_id ?rows (dr_id r) \<noteq> None"
    by (auto simp: import_document_row_def app) (simp add: tbl_get_def)
  ultimately show ?thesis unfolding run by (simp add: grows_def Some)
qed (simp add: import_document_def)

text \<open>What is still pending, and what the lines so far have settled.\<close>

definition accounted :: "import_env \<Rightarrow> backup_state \<Rightarrow> (nat \<times> memory_rec) list \<Rightarrow> backup_line \<Rightarrow> bool" where
  "accounted I st pending l \<longleftrightarrow> line_settled I st l \<or> (\<exists>m. l = MemoryLine m \<and> m \<in> snd ` set pending)"

abbreviation good_pending :: "(nat \<times> memory_rec) list \<Rightarrow> bool" where
  "good_pending p \<equiv> \<forall>(n, m)\<in>set p. good_rec m"

lemma flush_line_step:
  assumes "flush_line I n (st, c, p) q = ((st', c', p'), None)" "good_pending q"
  shows "grows I st st' \<and> p' = [] \<and> (\<forall>m\<in>snd ` set q. line_settled I st' (MemoryLine m))"
proof -
  obtain s' where f: "flush_batch I (bs_sys st) q c = (s', c', None)" "st' = st\<lparr>bs_sys := s'\<rparr>" "p' = []"
    using assms(1) by (auto simp: flush_line_def split: prod.splits)
  have fl: "ids_of (bs_sys st) \<subseteq> ids_of s'" "\<forall>(n, m)\<in>set q. settled_rec I (ids_of s') m"
    using flush_settles[OF f(1) assms(2)] by blast+
  then show ?thesis using grows_sys[OF fl(1)] f(2,3) by (auto 0 4)
qed

lemma accounted_mono:
  assumes "accounted I st p l" "grows I st st'" "\<forall>m\<in>snd ` set p. accounted I st' p' (MemoryLine m)"
  shows "accounted I st' p' l"
  using assms unfolding accounted_def grows_def by blast

lemma line_step:
  assumes "import_line_at I n l (st, c, p) = ((st', c', p'), None)" "good_line l" "good_pending p"
  shows "grows I st st' \<and> accounted I st' p' l \<and> good_pending p' \<and> (\<forall>m\<in>snd ` set p. accounted I st' p' (MemoryLine m))"
proof (cases l)
  case (MemoryLine m)
  have q: "good_pending (p @ [(n, m)])" using assms(2,3) MemoryLine by auto
  show ?thesis
  proof (cases "IMPORT_BATCH \<le> Suc (length p)")
    case True
    then have "flush_line I n (st, c, p) (p @ [(n, m)]) = ((st', c', p'), None)" using assms(1) MemoryLine by simp
    from flush_line_step[OF this q] show ?thesis by (simp add: accounted_def MemoryLine)
  next
    case False
    then show ?thesis using assms(1) q by (auto simp: MemoryLine accounted_def)
  qed
next
  case (FactLine x)
  obtain st1 c1 p1 where f: "flush_line I n (st, c, p) p = ((st1, c1, p1), None)"
    using assms(1) FactLine by (cases "flush_line I n (st, c, p) p") (auto split: prod.splits option.splits)
  then have i: "import_fact I n x (st1, c1) = (st', c')" "p' = p1" using assms(1) FactLine by (auto split: prod.splits)
  note s = flush_line_step[OF f assms(3)]
  have g: "grows I st1 st'" "line_settled I st' (FactLine x)" using fact_line_rows[where I = I and n = n and x = x and st = st1 and c = c1] i(1) by auto
  have "\<forall>m\<in>snd ` set p. line_settled I st' (MemoryLine m)" using s g(1) unfolding grows_def by blast
  then show ?thesis using s g i(2) grows_trans[of I st st1 st'] by (simp add: accounted_def FactLine del: line_settled.simps)
next
  case (DocumentLine d)
  then have i: "import_document I d (st, c) = (st', c')" "p' = p" using assms(1) by (auto split: prod.splits)
  then show ?thesis using document_line_rows[where I = I and d = d and st = st and c = c] assms(3) by (auto simp: DocumentLine accounted_def)
qed (use assms in \<open>auto simp: accounted_def\<close>)
text \<open>A run that ends well accounts for all of its lines. With hashable ids no failure is caught but those of
  \<open>im_caught\<close>.\<close>

lemma flush_hashable:
  assumes "flush_batch I s recs c = (s', c', Some e)" "good_pending recs"
  shows "e \<noteq> NotHashable"
proof (cases "recs = []")
  case True
  then show ?thesis using assms(1) by (simp add: flush_batch_def)
next
  case False
  show ?thesis using assms(1) False
    by (cases rule: flush_cases) (use assms(2) in \<open>auto dest!: sort_batch_hashable\<close>)
qed

lemma line_failure:
  assumes "import_line_at I n l (st, c, p) = (r, Some e)" "good_line l" "good_pending p"
  shows "\<exists>w. e = Failure w"
proof -
  have fl: "\<exists>w. e = Failure w" if run: "flush_line I n (st, c, p) q = (r, Some e)" and good: "good_pending q" for q
  proof -
    obtain s' c' where f: "flush_batch I (bs_sys st) q c = (s', c', Some e)"
      using run by (cases "flush_batch I (bs_sys st) q c") (auto simp: flush_line_def)
    have q: "q \<noteq> []" using f by (auto simp: flush_batch_def)
    show ?thesis using f q by (cases rule: flush_cases) (use flush_hashable[OF f good] in auto)
  qed
  show ?thesis
  proof (cases l)
    case (MemoryLine m)
    then show ?thesis using assms fl[of "p @ [(n, m)]"] by (auto split: if_splits)
  next
    case (FactLine x)
    then show ?thesis using assms fl[of p] by (auto split: prod.splits option.splits)
  qed (use assms in \<open>auto split: prod.splits\<close>)
qed

lemma run_settles:
  assumes "run_lines I n ls (st, c, p) = ((st', c', p'), None)" "list_all good_line ls" "good_pending p"
    and "\<And>w. \<not> im_caught I w"
  shows "grows I st st' \<and> good_pending p' \<and> (\<forall>l\<in>set ls. accounted I st' p' l) \<and> (\<forall>m\<in>snd ` set p. accounted I st' p' (MemoryLine m))"
  using assms(1-3)
proof (induction ls arbitrary: n st c p)
  case Nil
  then show ?case by (auto simp: accounted_def)
next
  case (Cons l ls)
  obtain st1 c1 p1 e where step: "import_line_at I n l (st, c, p) = ((st1, c1, p1), e)" by (metis surj_pair)
  have "e = None"
  proof (cases e)
    case (Some x)
    then obtain w where "x = Failure w" using line_failure[of I n l st c p "(st1, c1, p1)" x] step Cons.prems by auto
    then show ?thesis using Cons.prems(1) step Some assms(4) by (simp add: caught_def)
  qed simp
  then have step': "import_line_at I n l (st, c, p) = ((st1, c1, p1), None)" using step by simp
  have run: "run_lines I (Suc n) ls (st1, c1, p1) = ((st', c', p'), None)" using Cons.prems(1) step' by simp
  have s: "grows I st st1" "accounted I st1 p1 l" "good_pending p1" "\<forall>m\<in>snd ` set p. accounted I st1 p1 (MemoryLine m)"
    using line_step[OF step'] Cons.prems(2,3) by simp_all
  have ih: "grows I st1 st'" "good_pending p'" "\<forall>l\<in>set ls. accounted I st' p' l" "\<forall>m\<in>snd ` set p1. accounted I st' p' (MemoryLine m)"
    using Cons.IH[OF run _ s(3)] Cons.prems(2) by simp_all
  have "accounted I st' p' k" if "accounted I st1 p1 k" for k by (rule accounted_mono[OF that ih(1,4)])
  then show ?case using s ih grows_trans[OF s(1) ih(1)] by simp
qed

text \<open>A run over settled lines only reads, and ends.\<close>

lemma fact_settled:
  assumes "line_settled I st (FactLine x)"
  shows "\<exists>c'. import_fact I n x (st, c) = (st, c') \<and> same_counts c c'"
proof (cases x)
  case (Some y)
  let ?a = "we_agent (im_env I)"
  have noop: "import_line (im_lower I) (im_now I) ?a (im_fresh I n, y) (bs_facts st) = bs_facts st"
    using assms by (intro import_line_noop) (simp add: Some)
  show ?thesis
  proof (cases "import_fact_row (im_lower I) (im_now I) (im_fresh I n) (bs_facts st) ?a y")
    case (Inr t)
    obtain rows added where t: "t = (rows, added)" by (cases t)
    have "\<not> added"
    proof
      assume "added"
      then have "length rows = Suc (length (bs_facts st))"
        using Inr by (auto simp: t import_fact_row_def bind_res_Inr_iff Let_def rechain_map split: if_splits)
      then show False using noop Inr by (simp add: import_line_def t)
    qed
    then show ?thesis using noop Inr by (simp add: import_fact_def import_line_def Some t)
  qed (simp add: import_fact_def Some)
qed (simp add: import_fact_def)

lemma run_settled:
  assumes "list_all good_line ls" "\<forall>l\<in>set ls. line_settled I st l" "\<forall>(n, m)\<in>set p. good_rec m \<and> line_settled I st (MemoryLine m)"
  shows "\<exists>s' c' p'. run_lines I n ls (st, c, p) = ((st\<lparr>bs_sys := s'\<rparr>, c', p'), None) \<and> cores s' = cores (bs_sys st) \<and> same_counts c c'
     \<and> (\<forall>(n, m)\<in>set p'. good_rec m \<and> line_settled I st (MemoryLine m))"
  using assms
proof (induction ls arbitrary: n st c p)
  case Nil
  then show ?case by (intro exI[of _ "bs_sys st"]) auto
next
  case (Cons l ls)
  have "\<exists>s' c' p'. import_line_at I n l (st, c, p) = ((st\<lparr>bs_sys := s'\<rparr>, c', p'), None) \<and> cores s' = cores (bs_sys st)
      \<and> same_counts c c' \<and> (\<forall>(n, m)\<in>set p'. good_rec m \<and> line_settled I st (MemoryLine m))"
  proof -
    have fl: "\<exists>s' c'. flush_line I n (st, c, p) q = ((st\<lparr>bs_sys := s'\<rparr>, c', []), None) \<and> cores s' = cores (bs_sys st) \<and> same_counts c c'"
      if "\<forall>(n, m)\<in>set q. good_rec m \<and> line_settled I st (MemoryLine m)" for q
      using flush_settled[of q I "bs_sys st" c] that by (auto simp: flush_line_def)
    have stay: "st\<lparr>bs_sys := bs_sys st\<rparr> = st" by simp
    show ?thesis
    proof (cases l)
      case (MemoryLine m)
      have q: "\<forall>(n, m)\<in>set (p @ [(n, m)]). good_rec m \<and> line_settled I st (MemoryLine m)" using Cons.prems MemoryLine by auto
      show ?thesis
      proof (cases "IMPORT_BATCH \<le> Suc (length p)")
        case True
        then show ?thesis using fl[OF q] by (auto simp: MemoryLine)
      next
        case False
        then show ?thesis using q stay by (intro exI[of _ "bs_sys st"] exI[of _ c] exI[of _ "p @ [(n, m)]"]) (simp add: MemoryLine)
      qed
    next
      case (FactLine x)
      obtain s' c1 where f: "flush_line I n (st, c, p) p = ((st\<lparr>bs_sys := s'\<rparr>, c1, []), None)" "cores s' = cores (bs_sys st)" "same_counts c c1"
        using fl[OF Cons.prems(3)] by blast
      have "line_settled I (st\<lparr>bs_sys := s'\<rparr>) (FactLine x)" using Cons.prems(2) by (cases x) (simp_all add: FactLine)
      from fact_settled[OF this] obtain c2 where c2: "import_fact I n x (st\<lparr>bs_sys := s'\<rparr>, c1) = (st\<lparr>bs_sys := s'\<rparr>, c2)" "same_counts c1 c2" by blast
      have "import_line_at I n l (st, c, p) = ((st\<lparr>bs_sys := s'\<rparr>, c2, []), None)" using f(1) c2(1) by (simp add: FactLine)
      then show ?thesis using f(2) same_counts_trans[OF f(3) c2(2)]
        by (intro exI[of _ s'] exI[of _ c2] exI[of _ "[]"]) simp
    next
      case (DocumentLine d)
      show ?thesis
      proof (cases d)
        case (Some r)
        then have "tbl_get dr_id (bs_docs st) (dr_id r) \<noteq> None" using Cons.prems(2) by (simp add: DocumentLine)
        then have "import_document I d (st, c) = (st, count_skip c)" by (auto simp: import_document_def import_document_row_def Some)
        then show ?thesis using Cons.prems(3) stay by (intro exI[of _ "bs_sys st"] exI[of _ "count_skip c"] exI[of _ p]) (simp add: DocumentLine)
      qed (use Cons.prems(3) stay in \<open>intro exI[of _ "bs_sys st"] exI[of _ "count_skip c"] exI[of _ p], simp add: DocumentLine import_document_def\<close>)
    next
      case BlankLine
      show ?thesis using Cons.prems(3) stay by (intro exI[of _ "bs_sys st"] exI[of _ c] exI[of _ p]) (simp add: BlankLine)
    next
      case NotJson
      show ?thesis using Cons.prems(3) stay by (intro exI[of _ "bs_sys st"] exI[of _ "count_bad n c"] exI[of _ p]) (simp add: NotJson)
    next
      case OtherLine
      show ?thesis using Cons.prems(3) stay by (intro exI[of _ "bs_sys st"] exI[of _ "count_skip c"] exI[of _ p]) (simp add: OtherLine)
    qed
  qed
  then obtain s1 c1 p1 where one: "import_line_at I n l (st, c, p) = ((st\<lparr>bs_sys := s1\<rparr>, c1, p1), None)" "cores s1 = cores (bs_sys st)"
    "same_counts c c1" "\<forall>(n, m)\<in>set p1. good_rec m \<and> line_settled I st (MemoryLine m)" by blast
  have same: "line_settled I (st\<lparr>bs_sys := s1\<rparr>) k = line_settled I st k" for k
    using cores_ids[OF one(2)] by (induction I st k rule: line_settled.induct) simp_all
  have p: "list_all good_line ls" "\<forall>l\<in>set ls. line_settled I (st\<lparr>bs_sys := s1\<rparr>) l"
    "\<forall>(n, m)\<in>set p1. good_rec m \<and> line_settled I (st\<lparr>bs_sys := s1\<rparr>) (MemoryLine m)"
    using Cons.prems(1,2) one(4) unfolding same by simp_all
  obtain s2 c2 p2 where rest: "run_lines I (Suc n) ls (st\<lparr>bs_sys := s1\<rparr>, c1, p1) = ((st\<lparr>bs_sys := s1\<rparr>\<lparr>bs_sys := s2\<rparr>, c2, p2), None)"
    "cores s2 = cores (bs_sys (st\<lparr>bs_sys := s1\<rparr>))" "same_counts c1 c2"
    "\<forall>(n, m)\<in>set p2. good_rec m \<and> line_settled I (st\<lparr>bs_sys := s1\<rparr>) (MemoryLine m)"
    using Cons.IH[OF p, of "Suc n" c1] by blast
  have "run_lines I n (l # ls) (st, c, p) = ((st\<lparr>bs_sys := s2\<rparr>, c2, p2), None)" using one(1) rest(1) by simp
  moreover have "cores s2 = cores (bs_sys st)" using rest(2) one(2) by simp
  ultimately show ?case using rest(4) same_counts_trans[OF one(3) rest(3)] unfolding same by blast
qed

lemma line_settled_env:
  assumes "im_env J = im_env I" "im_lower J = im_lower I" "good_line l"
  shows "line_settled J st l = line_settled I st l"
proof (cases l)
  case (MemoryLine m)
  have "import_fragment J 0 m = import_fragment I 0 m"
    using assms(1,3) by (simp add: MemoryLine import_fragment_def split: option.splits id_field.splits)
  then show ?thesis by (simp add: MemoryLine settled_rec_def)
next
  case (FactLine x)
  then show ?thesis using assms(1,2) by (cases x) simp_all
next
  case (DocumentLine d)
  then show ?thesis by (cases d) simp_all
qed simp_all

text \<open>A restore that succeeds has settled every line. Failures of the embedder are not caught (a caught one would lose
  its batch), and every record has an id that can be hashed.\<close>

lemma import_settles:
  assumes "import_jsonl I h ls st = (st1, Inr c1)" "list_all good_line ls" "\<And>w. \<not> im_caught I w" "l \<in> set ls"
  shows "(\<exists>v. h = Header (Some v) \<and> \<not> v > VERSION) \<and> line_settled I st1 l"
proof -
  obtain v where h: "h = Header (Some v)" "\<not> v > VERSION"
    using assms(1) by (cases h) (auto simp: import_jsonl_def split: option.splits if_splits)
  obtain st0 c0 p0 where run: "run_lines I 2 ls (st, no_counts, []) = ((st0, c0, p0), None)"
    using assms(1) h by (cases "run_lines I 2 ls (st, no_counts, [])") (auto simp: import_jsonl_def split: prod.splits option.splits)
  obtain s1 where fl: "flush_batch I (bs_sys st0) p0 c0 = (s1, c1, None)" "st1 = st0\<lparr>bs_sys := s1\<rparr>"
    using assms(1) h run by (cases "flush_batch I (bs_sys st0) p0 c0") (auto simp: import_jsonl_def split: option.splits)
  have acc: "good_pending p0" "accounted I st0 p0 l" using run_settles[OF run assms(2) _ assms(3)] assms(4) by simp_all
  have ids: "ids_of (bs_sys st0) \<subseteq> ids_of s1" "\<forall>(n, m)\<in>set p0. settled_rec I (ids_of s1) m"
    using flush_settles[OF fl(1) acc(1)] by blast+
  have g: "grows I st0 st1" unfolding fl(2) by (rule grows_sys[OF ids(1)])
  from acc(2) consider "line_settled I st0 l" | m where "l = MemoryLine m" "m \<in> snd ` set p0"
    unfolding accounted_def by blast
  then have "line_settled I st1 l"
  proof cases
    case 1
    then show ?thesis using g by (simp add: grows_def)
  next
    case 2
    then show ?thesis using ids(2) fl(2) by auto
  qed
  then show ?thesis using h by blast
qed

text \<open>A restore of settled lines succeeds and adds nothing.\<close>

lemma import_settled:
  assumes "list_all good_line ls" "\<forall>l\<in>set ls. line_settled J st1 l" "\<not> v > VERSION"
  shows "\<exists>s2 c2. import_jsonl J (Header (Some v)) ls st1 = (st1\<lparr>bs_sys := s2\<rparr>, Inr c2) \<and> cores s2 = cores (bs_sys st1)
    \<and> ic_memories c2 = 0 \<and> ic_facts c2 = 0 \<and> ic_documents c2 = 0"
proof -
  obtain s' c' p' where again: "run_lines J 2 ls (st1, no_counts, []) = ((st1\<lparr>bs_sys := s'\<rparr>, c', p'), None)"
    "cores s' = cores (bs_sys st1)" "same_counts no_counts c'" "\<forall>(n, m)\<in>set p'. good_rec m \<and> line_settled J st1 (MemoryLine m)"
    using run_settled[OF assms(1,2), of "[]" 2 no_counts] by auto
  have "\<forall>(n, m)\<in>set p'. good_rec m \<and> settled_rec J (ids_of s') m"
    using again(4) cores_ids[OF again(2)] by simp
  from flush_settled[OF this, of c'] obtain s2 c2 where f2: "flush_batch J s' p' c' = (s2, c2, None)" "cores s2 = cores s'" "same_counts c' c2"
    by blast
  have "import_jsonl J (Header (Some v)) ls st1 = (st1\<lparr>bs_sys := s2\<rparr>, Inr c2)"
    using assms(3) again(1) f2(1) by (simp add: import_jsonl_def)
  moreover have "same_counts no_counts c2" by (rule same_counts_trans[OF again(3) f2(3)])
  ultimately show ?thesis using f2(2) again(2) by (auto simp: same_counts_def no_counts_def)
qed

section \<open>A restore while the embedder is down\<close>

lemma embed_chunks_outage:
  "\<exists>s' out. embed_chunks s clock (\<lambda>_. Transient) cs = (s', Inr out) \<and> (\<forall>f\<in>set out. fr_embedding f = None)"
proof (induction cs arbitrary: s)
  case (Cons c cs)
  obtain s1 where b: "embed_batch_or_defer s clock (\<lambda>_. Transient) (map fr_content c) = (s1, Inr None)"
    by (cases "clock < my_retry_at s") (auto simp: embed_batch_or_defer_def)
  obtain s2 out where r: "embed_chunks (s1\<lparr>my_pending := my_pending s1 \<union> fr_agent ` set c\<rparr>) clock (\<lambda>_. Transient) cs = (s2, Inr out)"
    "\<forall>f\<in>set out. fr_embedding f = None" using Cons.IH by blast
  show ?case using b r by auto
qed simp

lemma index_rows_pending: "\<forall>f\<in>set fs. fr_embedding f = None \<Longrightarrow> \<exists>s'. index_rows s fs = (s', None)"
  by (induction fs arbitrary: s) simp_all

text \<open>No row of another agent is in the way of the ids \<open>is\<close>.\<close>

definition free_for :: "ustr \<Rightarrow> memory_sys \<Rightarrow> ustr set \<Rightarrow> bool" where
  "free_for a s is \<longleftrightarrow> (\<forall>i\<in>is. \<forall>e. row_of s i = Some e \<longrightarrow> fr_agent e = a)"

lemma store_many_free:
  assumes "free_for a s (fr_id ` set fs)" "\<forall>f\<in>set fs. fr_agent f = a"
  obtains db ids gone where "store_many P (my_db s) fs = Inr (db, ids, gone)"
    "\<And>is s'. my_db s' = db \<Longrightarrow> free_for a s is \<Longrightarrow> free_for a s' is"
proof -
  have "\<forall>f\<in>set fs. \<not> foreign (my_db s) f"
    using assms by (auto simp: foreign_def free_for_def split: option.splits)
  then obtain db ids gone where st: "store_many P (my_db s) fs = Inr (db, ids, gone)"
    using store_many_foreign[OF assms(2)] by (metis prod_cases3)
  have "free_for a s' is" if "my_db s' = db" "free_for a s is" for s' "is"
    using that assms(2) store_many_get[OF st]
    by (auto simp: free_for_def split: option.splits dest!: find_SomeD)
  then show ?thesis using that[OF st] by blast
qed

lemma index_fragments_outage:
  assumes "im_embed I = (\<lambda>_. Transient)" "free_for a s (fr_id ` set (concat cs))" "\<forall>f\<in>set (concat cs). fr_agent f = a"
  shows "\<exists>s'. index_fragments I s cs = (s', None)"
  using assms(2,3)
proof (induction cs arbitrary: s)
  case (Cons c cs)
  obtain s1 out where e: "embed_for_write s (im_clock I) (im_embed I) c = (s1, Inr out)" "\<forall>f\<in>set out. fr_embedding f = None"
    using embed_chunks_outage unfolding embed_for_write_def assms(1) by blast
  have fr: "my_db s1 = my_db s" "list_all2 same_memory c out" using embed_for_write_frame[OF e(1)] by simp_all
  have ids: "fr_id ` set out = fr_id ` set c" by (rule same_memory_ids[OF fr(2)])
  have "fr_agent g = a" if "g \<in> set out" for g
    using embedded_all[OF fr(2), of "\<lambda>i s b. b = a" g] that Cons.prems(2) by simp
  then have ag: "\<forall>f\<in>set out. fr_agent f = a" by blast
  have "free_for a s1 (fr_id ` set out)" unfolding ids using Cons.prems(1) by (auto simp: free_for_def fr(1))
  from store_many_free[OF this ag, of "we_provider (im_env I)"] obtain db ks gone where
    st: "store_many (we_provider (im_env I)) (my_db s1) out = Inr (db, ks, gone)"
    "\<And>js s'. my_db s' = db \<Longrightarrow> free_for a s1 js \<Longrightarrow> free_for a s' js" by blast
  obtain s2 where ix: "index_rows (notify_gone gone (s1\<lparr>my_db := db\<rparr>)) out = (s2, None)" using index_rows_pending[OF e(2)] by blast
  have "my_db s2 = db" using index_rows_db[OF ix] by (simp add: notify_gone_def)
  then have "free_for a s2 (fr_id ` set (concat cs))"
    by (rule st(2)) (use Cons.prems(1) in \<open>auto simp: free_for_def fr(1)\<close>)
  moreover have "\<forall>f\<in>set (concat cs). fr_agent f = a" using Cons.prems(2) by simp
  ultimately obtain s' where "index_fragments I s2 cs = (s', None)" using Cons.IH by blast
  then show ?case using e(1) st(1) ix by (simp add: store_and_index_def)
qed simp

lemma sort_batch_new:
  assumes "sort_batch I ex recs c = (c', Some (ix, plain))" "\<forall>(n, m)\<in>set recs. good_rec m"
  shows "\<forall>f\<in>set (ix @ plain). fr_agent f = we_agent (im_env I) \<and> fr_id f \<in> set (text_ids recs) \<and> fr_id f \<notin> set ex"
  using assms
proof (induction I ex recs c arbitrary: c' ix plain rule: sort_batch.induct)
  case (2 I ex n m rest c)
  have nh: "mr_id m \<noteq> IdUnhashable" using "2.prems"(2) by auto
  have sub: "set (text_ids rest) \<subseteq> set (text_ids ((n, m) # rest))" by (simp add: text_ids_def)
  show ?case
  proof (cases "\<exists>t\<in>set ex. mr_id m = IdText t")
    case True
    then show ?thesis using "2.IH"(1)[OF nh True] "2.prems" nh sub by auto
  next
    case False
    show ?thesis
    proof (cases "import_fragment I n m")
      case (Inl e)
      then show ?thesis using "2.IH"(2)[OF nh False Inl] "2.prems" nh False sub by auto
    next
      case (Inr f)
      obtain ix0 plain0 where rest: "sort_batch I ex rest c = (c', Some (ix0, plain0))"
        "(ix, plain) = (if is_retrievable (fr_state f) then (f # ix0, plain0) else (ix0, f # plain0))"
        using "2.prems"(1) nh False Inr by (auto split: prod.splits option.splits)
      obtain t where t: "mr_id m = IdText t" using Inr nh "2.prems"(2)
        by (cases "mr_id m") (auto simp: import_fragment_def split: option.splits)
      have "fr_id f = t" by (rule import_fragment_id[OF Inr t])
      moreover have "fr_agent f = we_agent (im_env I)"
        using Inr by (auto simp: import_fragment_def fragment_validated_def hash_attach_def bind_res_Inr_iff Let_def split: option.splits id_field.splits if_splits)
      moreover have "t \<in> set (text_ids ((n, m) # rest))" using t in_text_ids[of t] by fastforce
      moreover have "t \<notin> set ex" using False t by auto
      ultimately show ?thesis using "2.IH"(3)[OF nh False Inr rest(1)] "2.prems"(2) rest(2) sub
        by (auto split: if_splits)
    qed
  qed
qed simp

lemma flush_outage:
  assumes "im_embed I = (\<lambda>_. Transient)" "good_pending recs"
  shows "\<exists>s' c'. flush_batch I s recs c = (s', c', None)"
proof (cases "recs = []")
  case True
  then show ?thesis by (simp add: flush_batch_def)
next
  case False
  let ?a = "we_agent (im_env I)"
  obtain s1 ex where g: "sys_get_many (im_env I) (im_now I) s (text_ids recs) = (s1, ex)" by fastforce
  obtain c1 r where b: "sort_batch I ex recs c = (c1, r)" by fastforce
  have "r \<noteq> None"
  proof
    assume "r = None"
    then show False using sort_batch_hashable[of I ex recs c c1] b assms(2) by auto
  qed
  then obtain ix plain where r: "r = Some (ix, plain)" by auto
  note new = sort_batch_new[OF b[unfolded r] assms(2)]
  have ids: "ids_of s1 = ids_of s" by (rule cores_ids) (rule sys_get_many_effect[OF g])
  have "i \<notin> ids_of s1" if "i \<in> fr_id ` set (ix @ plain)" for i
    using that new sys_get_many_effect(2)[OF g] ids by auto
  then have none: "row_of s1 i = None" if "i \<in> fr_id ` set (ix @ plain)" for i
    using that by (simp add: tbl_get_None)
  have ag: "\<forall>f\<in>set plain. fr_agent f = ?a" "\<forall>f\<in>set (concat (chunks_of EMBED_BATCH ix)). fr_agent f = ?a"
    using new by (auto simp: concat_embed_batches)
  have free: "free_for ?a s1 (fr_id ` set plain)" "free_for ?a s1 (fr_id ` set ix)"
    using none by (auto simp: free_for_def)
  obtain s2 where p: "store_plain I s1 plain = (s2, None)" "free_for ?a s2 (fr_id ` set ix)"
  proof (cases "plain = []")
    case True
    then show ?thesis using that free(2) by (simp add: store_plain_def)
  next
    case False
    from store_many_free[OF free(1) ag(1), of "we_provider (im_env I)"] obtain db ks gone where
      st: "store_many (we_provider (im_env I)) (my_db s1) plain = Inr (db, ks, gone)"
      "\<And>js s'. my_db s' = db \<Longrightarrow> free_for ?a s1 js \<Longrightarrow> free_for ?a s' js" by blast
    have "store_plain I s1 plain = (notify_gone gone (s1\<lparr>my_db := db\<rparr>), None)" using False st(1) by (simp add: store_plain_def)
    moreover have "free_for ?a (notify_gone gone (s1\<lparr>my_db := db\<rparr>)) (fr_id ` set ix)"
      by (rule st(2)[OF _ free(2)]) (simp add: notify_gone_def)
    ultimately show ?thesis using that by blast
  qed
  obtain s3 where "index_fragments I s2 (chunks_of EMBED_BATCH ix) = (s3, None)"
    using index_fragments_outage[OF assms(1), of ?a s2 "chunks_of EMBED_BATCH ix"] p(2) ag(2) by (auto simp: concat_embed_batches)
  then show ?thesis using False g b r p(1) by (simp add: flush_batch_def Let_def text_ids_def[symmetric])
qed

text \<open>No line aborts such a restore, provided that every id can be hashed: bad lines are counted, and all the other
  memories are stored, to be embedded later.\<close>

theorem restore_survives_bad_lines:
  assumes "im_embed I = (\<lambda>_. Transient)" "list_all good_line ls" "v \<le> VERSION"
  shows "\<exists>st1 c1. import_jsonl I (Header (Some v)) ls st = (st1, Inr c1)"
proof -
  have fl: "\<exists>st' c'. flush_line I n (st, c, p) q = ((st', c', []), None)" if "good_pending q" for n st c p q
    using flush_outage[OF assms(1) that, of "bs_sys st" c] by (auto simp: flush_line_def)
  have step: "\<exists>st' c' p'. import_line_at I n l (st, c, p) = ((st', c', p'), None) \<and> good_pending p'"
    if gl: "good_line l" and gp: "good_pending p" for n l st c p
  proof (cases l)
    case (MemoryLine m)
    have q: "good_pending (p @ [(n, m)])" using gl gp MemoryLine by auto
    then show ?thesis using fl[OF q, of n st c p] by (auto simp: MemoryLine)
  next
    case (FactLine x)
    obtain st1 c1 where "flush_line I n (st, c, p) p = ((st1, c1, []), None)" using fl[OF gp] by blast
    then show ?thesis by (simp add: FactLine split: prod.split)
  next
    case (DocumentLine d)
    then show ?thesis using gp by (simp split: prod.split)
  qed (use gp in auto)
  have run: "\<exists>st' c' p'. run_lines I n ls (st, c, p) = ((st', c', p'), None) \<and> good_pending p'"
    if "list_all good_line ls" "good_pending p" for n ls st c p
    using that
  proof (induction ls arbitrary: n st c p)
    case (Cons l ls)
    obtain st1 c1 p1 where "import_line_at I n l (st, c, p) = ((st1, c1, p1), None)" "good_pending p1"
      using step[of l p n st c] Cons.prems by auto
    then show ?case using Cons.IH[of p1 "Suc n" st1 c1] Cons.prems by simp
  qed simp
  obtain st1 c1 p1 where r: "run_lines I 2 ls (st, no_counts, []) = ((st1, c1, p1), None)" "good_pending p1"
    using run[OF assms(2), of "[]" 2 st no_counts] by auto
  obtain s2 c2 where "flush_batch I (bs_sys st1) p1 c1 = (s2, c2, None)" using flush_outage[OF assms(1) r(2)] by blast
  then show ?thesis using r(1) assms(3) by (simp add: import_jsonl_def)
qed

section \<open>Restoring a file twice\<close>


definition wit_import :: import_env where
  "wit_import = \<lparr>im_env = wit_write_env, im_lower = (\<lambda>t. t), im_now = DT 2026 5 1 0 0 0 0, im_clock = 0,
     im_embed = (\<lambda>_. Transient), im_fresh = (\<lambda>n. [n]), im_caught = (\<lambda>w. False)\<rparr>"

definition wit_backup :: "backup_line list" where
  "wit_backup = [MemoryLine \<lparr>mr_id = IdText (u ''m1''), mr_body = Some wit_todo\<rparr>, NotJson,
     FactLine (Some (export_row wit_fact)), MemoryLine \<lparr>mr_id = IdOther, mr_body = None\<rparr>, OtherLine]"

definition wit_target :: backup_state where
  "wit_target = \<lparr>bs_sys = wit_system None, bs_facts = [], bs_docs = []\<rparr>"


text \<open>An id that cannot be hashed aborts the restore when its batch is the last one, and otherwise takes the whole
  batch with it, reported as one invalid line.\<close>

lemma unhashable_id_aborts:
  "import_jsonl I (Header (Some 1)) [MemoryLine \<lparr>mr_id = IdUnhashable, mr_body = b\<rparr>] st
     = (st\<lparr>bs_sys := fst (sys_get_many (im_env I) (im_now I) (bs_sys st) [])\<rparr>, Inl NotHashable)"
  by (simp add: import_jsonl_def VERSION_def IMPORT_BATCH_def flush_batch_def split: prod.split)

lemma unhashable_id_loses_the_batch:
  assumes "mr_id good = IdText t"
  shows "case import_jsonl I (Header (Some 1)) [MemoryLine good, MemoryLine \<lparr>mr_id = IdUnhashable, mr_body = b\<rparr>, FactLine None] st of
     (st1, Inr c) \<Rightarrow> cores (bs_sys st1) = cores (bs_sys st) \<and> ic_memories c = 0 \<and> ic_invalid c \<le> 2
   | (st1, Inl e) \<Rightarrow> False"
proof -
  let ?bad = "\<lparr>mr_id = IdUnhashable, mr_body = b\<rparr>"
  let ?recs = "[(2, good), (3, ?bad)]"
  obtain s1 ex where g: "sys_get_many (im_env I) (im_now I) (bs_sys st) (text_ids ?recs) = (s1, ex)" by fastforce
  have last: "sort_batch I ex [(3, ?bad)] c = (c, None)" for c by simp
  have "sort_batch I ex ?recs no_counts = (if t \<in> set ex then count_skip no_counts
      else case import_fragment I 2 good of Inl e \<Rightarrow> count_bad 2 no_counts | Inr f \<Rightarrow> no_counts, None)"
    unfolding sort_batch.simps(2)[of I ex 2 good] last using assms by (simp split: sum.split)
  then obtain c1 where b: "sort_batch I ex ?recs no_counts = (c1, None)" "ic_memories c1 = 0" "ic_invalid c1 \<le> 1"
    by (cases "t \<in> set ex"; cases "import_fragment I 2 good") (simp_all add: count_skip_def count_bad_def no_counts_def)
  have f: "flush_batch I (bs_sys st) ?recs no_counts = (s1, c1, Some NotHashable)"
    using g b(1) assms by (simp add: flush_batch_def Let_def text_ids_def del: sort_batch.simps)
  have l1: "import_line_at I 2 (MemoryLine good) (st, no_counts, []) = ((st, no_counts, [(2, good)]), None)"
    and l2: "import_line_at I 3 (MemoryLine ?bad) (st, no_counts, [(2, good)]) = ((st, no_counts, ?recs), None)"
    by (simp_all add: IMPORT_BATCH_def)
  have l3: "import_line_at I 4 (FactLine None) (st, no_counts, ?recs) = ((st\<lparr>bs_sys := s1\<rparr>, c1, []), Some NotHashable)"
    unfolding import_line_at.simps flush_line_def prod.case f option.case by (rule refl)
  have "run_lines I 2 [MemoryLine good, MemoryLine ?bad, FactLine None] (st, no_counts, [])
      = ((st\<lparr>bs_sys := s1\<rparr>, count_bad 4 c1, []), None)"
    by (simp add: l1 l2 l3 caught_def del: import_line_at.simps)
  then have "import_jsonl I (Header (Some 1)) [MemoryLine good, MemoryLine ?bad, FactLine None] st = (st\<lparr>bs_sys := s1\<rparr>, Inr (count_bad 4 c1))"
    by (simp add: import_jsonl_def VERSION_def flush_batch_def)
  then show ?thesis using sys_get_many_effect(1)[OF g] b(2,3) by (simp add: count_bad_def)
qed

end
