(* ===== verification/Graph_Expansion.thy ===== *)
theory Graph_Expansion
  imports Store
begin

text \<open>
  Graph expansion of retrieval hits (\<open>intelligence/graph_expansion.py\<close>): a best-first
  traversal from the nodes of the seed fragments over expansive edges, each hop damped, within a hop
  limit, and the fragments penalised because a contradiction edge joins them to a seed. The heap is
  the list of its entries in the order \<open>heappop\<close> takes them. The loop ends because every
  expansion takes a node id out of a finite set.
\<close>

datatype direction = Outgoing | Incoming | Both

type_synonym scores = "(ustr \<times> real) list"

definition score_of :: "scores \<Rightarrow> ustr \<Rightarrow> real \<Rightarrow> real" where
  "score_of m k d = (case map_of m k of None \<Rightarrow> d | Some s \<Rightarrow> s)"

text \<open>A heap entry: score, node, depth.\<close>

type_synonym entry = "real \<times> ustr \<times> nat"

definition heap_key :: "entry \<Rightarrow> real \<times> ustr \<times> nat" where
  "heap_key e = (case e of (s, n, d) \<Rightarrow> (- s, n, d))"

definition heappush :: "entry \<Rightarrow> entry list \<Rightarrow> entry list" where
  "heappush = insort_key heap_key"

record traversal =
  tv_merged :: scores
  tv_best :: scores
  tv_frontier :: "entry list"
  tv_expanded :: "ustr list"

definition node_visible :: "ustr \<Rightarrow> node \<Rightarrow> bool" where
  "node_visible agent n \<longleftrightarrow> nd_agent n = None \<or> nd_agent n = Some agent"

definition seed_node :: "ustr \<Rightarrow> real \<Rightarrow> node \<Rightarrow> traversal \<Rightarrow> traversal" where
  "seed_node agent s n t =
     (if node_visible agent n \<and> s > score_of (tv_best t) (nd_id n) (-1)
      then t\<lparr>tv_best := AList.update (nd_id n) s (tv_best t), tv_frontier := heappush (s, nd_id n, 0) (tv_frontier t)\<rparr>
      else t)"

definition seed_traversal :: "store_db \<Rightarrow> ustr \<Rightarrow> scores \<Rightarrow> traversal" where
  "seed_traversal db agent seeds =
     fold (\<lambda>(f, s) t. fold (seed_node agent s) (nodes_for_fragment db f) t) seeds
       \<lparr>tv_merged = seeds, tv_best = [], tv_frontier = [], tv_expanded = []\<rparr>"

definition neighbor_edges :: "store_db \<Rightarrow> direction \<Rightarrow> ustr \<Rightarrow> edge list" where
  "neighbor_edges db dir nid = filter (\<lambda>e. relation_is_expansive (ed_relation e))
     ((if dir = Outgoing \<or> dir = Both then edges_from_node db nid [] else [])
      @ (if dir = Incoming \<or> dir = Both then edges_to_node db nid else []))"

definition other_end :: "ustr \<Rightarrow> edge \<Rightarrow> ustr" where
  "other_end nid e = (if ed_source e = nid then ed_target e else ed_source e)"

definition visit_edge :: "store_db \<Rightarrow> ustr \<Rightarrow> real \<Rightarrow> entry \<Rightarrow> edge \<Rightarrow> traversal \<Rightarrow> traversal" where
  "visit_edge db agent decay cur e t =
     (case cur of (s, nid, depth) \<Rightarrow>
        (let other = other_end nid e
         in if other \<in> set (tv_expanded t) then t
            else (case get_node db other of
                None \<Rightarrow> t
              | Some n \<Rightarrow>
                  if \<not> node_visible agent n then t
                  else
                    (let p = s * ed_weight e * nd_weight n * decay
                     in if p \<le> score_of (tv_best t) other 0 then t
                        else t\<lparr>tv_best := AList.update other p (tv_best t),
                          tv_merged := (case nd_fragment n of
                              None \<Rightarrow> tv_merged t
                            | Some f \<Rightarrow> if f \<noteq> [] \<and> p > score_of (tv_merged t) f 0 then AList.update f p (tv_merged t) else tv_merged t),
                          tv_frontier := heappush (p, other, depth + 1) (tv_frontier t)\<rparr>))))"

definition expand_node :: "store_db \<Rightarrow> ustr \<Rightarrow> direction \<Rightarrow> real \<Rightarrow> entry \<Rightarrow> traversal \<Rightarrow> traversal" where
  "expand_node db agent dir decay cur t =
     fold (visit_edge db agent decay cur) (neighbor_edges db dir (fst (snd cur)))
       (t\<lparr>tv_expanded := fst (snd cur) # tv_expanded t\<rparr>)"

text \<open>The ids the loop can still expand.\<close>

definition open_ids :: "store_db \<Rightarrow> traversal \<Rightarrow> ustr set" where
  "open_ids db t = (nd_id ` set (db_nodes db) \<union> (fst \<circ> snd) ` set (tv_frontier t)) - set (tv_expanded t)"

lemma finite_open_ids [simp]: "finite (open_ids db t)"
  by (simp add: open_ids_def)

lemma set_heappush [simp]: "set (heappush e h) = insert e (set h)"
  by (simp add: heappush_def set_insort_key)

lemma visit_edge_frontier:
  "tv_expanded (visit_edge db agent decay cur e t) = tv_expanded t"
  "(fst \<circ> snd) ` set (tv_frontier (visit_edge db agent decay cur e t))
     \<subseteq> (fst \<circ> snd) ` set (tv_frontier t) \<union> nd_id ` set (db_nodes db)"
proof -
  obtain s nid depth where cur: "cur = (s, nid, depth)" by (cases cur)
  show "tv_expanded (visit_edge db agent decay cur e t) = tv_expanded t"
    by (auto simp: visit_edge_def cur Let_def split: option.split)
  show "(fst \<circ> snd) ` set (tv_frontier (visit_edge db agent decay cur e t))
     \<subseteq> (fst \<circ> snd) ` set (tv_frontier t) \<union> nd_id ` set (db_nodes db)"
  proof (cases "get_node db (other_end nid e)")
    case (Some n)
    then have "other_end nid e \<in> nd_id ` set (db_nodes db)" by (metis get_node_def imageI tbl_get_SomeD)
    with Some show ?thesis by (auto simp: visit_edge_def cur Let_def)
  qed (auto simp: visit_edge_def cur Let_def)
qed

lemma expand_node_frontier:
  "tv_expanded (expand_node db agent dir decay cur t) = fst (snd cur) # tv_expanded t"
  "(fst \<circ> snd) ` set (tv_frontier (expand_node db agent dir decay cur t))
     \<subseteq> (fst \<circ> snd) ` set (tv_frontier t) \<union> nd_id ` set (db_nodes db)"
proof -
  have "tv_expanded (fold (visit_edge db agent decay cur) es t) = tv_expanded t
    \<and> (fst \<circ> snd) ` set (tv_frontier (fold (visit_edge db agent decay cur) es t))
       \<subseteq> (fst \<circ> snd) ` set (tv_frontier t) \<union> nd_id ` set (db_nodes db)" for es t
  proof (induction es arbitrary: t)
    case (Cons e es)
    from Cons[of "visit_edge db agent decay cur e t"] visit_edge_frontier[of db agent decay cur e t]
    show ?case by (simp only: fold_simps) blast
  qed simp
  from this[of _ "t\<lparr>tv_expanded := fst (snd cur) # tv_expanded t\<rparr>"]
  show "tv_expanded (expand_node db agent dir decay cur t) = fst (snd cur) # tv_expanded t"
    "(fst \<circ> snd) ` set (tv_frontier (expand_node db agent dir decay cur t))
       \<subseteq> (fst \<circ> snd) ` set (tv_frontier t) \<union> nd_id ` set (db_nodes db)"
    unfolding expand_node_def by (simp_all del: comp_apply)
qed

function expand_loop :: "store_db \<Rightarrow> ustr \<Rightarrow> direction \<Rightarrow> nat \<Rightarrow> real \<Rightarrow> traversal \<Rightarrow> traversal" where
  "expand_loop db agent dir hops decay t =
     (case tv_frontier t of
        [] \<Rightarrow> t
      | cur # rest \<Rightarrow>
          if fst (snd cur) \<in> set (tv_expanded t) \<or> snd (snd cur) \<ge> hops
          then expand_loop db agent dir hops decay (t\<lparr>tv_frontier := rest\<rparr>)
          else expand_loop db agent dir hops decay (expand_node db agent dir decay cur (t\<lparr>tv_frontier := rest\<rparr>)))"
  by auto
termination
proof (relation "measures [\<lambda>(db, agent, dir, hops, decay, t). card (open_ids db t), \<lambda>(db, agent, dir, hops, decay, t). length (tv_frontier t)]",
    goal_cases)
  case (2 db agent dir hops decay t cur rest)
  have "open_ids db (t\<lparr>tv_frontier := rest\<rparr>) \<subseteq> open_ids db t" using 2 by (auto simp: open_ids_def)
  then have "card (open_ids db (t\<lparr>tv_frontier := rest\<rparr>)) \<le> card (open_ids db t)" by (rule card_mono[rotated]) simp
  with 2 show ?case by auto
next
  case (3 db agent dir hops decay t cur rest)
  let ?t = "expand_node db agent dir decay cur (t\<lparr>tv_frontier := rest\<rparr>)"
  have "open_ids db ?t \<subseteq> open_ids db t - {fst (snd cur)}"
    using 3 expand_node_frontier[of db agent dir decay cur "t\<lparr>tv_frontier := rest\<rparr>"]
    by (auto simp: open_ids_def)
  moreover have "fst (snd cur) \<in> open_ids db t" using 3 by (auto simp: open_ids_def)
  ultimately have "open_ids db ?t \<subset> open_ids db t" by blast
  then have "card (open_ids db ?t) < card (open_ids db t)" by (rule psubset_card_mono[rotated]) simp
  then show ?case by simp
qed simp

declare expand_loop.simps [simp del]

definition GRAPH_HOP_DECAY :: real where "GRAPH_HOP_DECAY = 1 / 2"

definition expand :: "store_db \<Rightarrow> real \<Rightarrow> scores \<Rightarrow> ustr \<Rightarrow> direction \<Rightarrow> nat \<Rightarrow> scores" where
  "expand db decay seeds agent dir hops = tv_merged (expand_loop db agent dir hops decay (seed_traversal db agent seeds))"

definition contradiction_ids :: "store_db \<Rightarrow> ustr list \<Rightarrow> ustr list" where
  "contradiction_ids db fids = concat (map (\<lambda>f. concat (map (\<lambda>n. List.map_filter (\<lambda>e.
       (case get_node db (other_end (nd_id n) e) of None \<Rightarrow> None
        | Some m \<Rightarrow> if nd_fragment m = Some [] then None else nd_fragment m))
     (contradiction_edges db (nd_id n))) (nodes_for_fragment db f))) fids)"

section \<open>Expansion is damped and scoped\<close>

definition weights_ok :: "store_db \<Rightarrow> bool" where
  "weights_ok db \<longleftrightarrow> list_all (\<lambda>e. 0 \<le> ed_weight e \<and> ed_weight e \<le> 1) (db_edges db)
     \<and> list_all (\<lambda>n. 0 \<le> nd_weight n \<and> nd_weight n \<le> 1) (db_nodes db)"

text \<open>A fragment the traversal may reach: one with a node the agent can see.\<close>

definition reachable_fragment :: "store_db \<Rightarrow> ustr \<Rightarrow> ustr \<Rightarrow> bool" where
  "reachable_fragment db agent f \<longleftrightarrow> list_ex (\<lambda>n. nd_fragment n = Some f \<and> node_visible agent n) (db_nodes db)"

text \<open>The invariant of the traversal for seeds whose scores are at most \<open>M\<close>.\<close>

definition merged_ok :: "store_db \<Rightarrow> ustr \<Rightarrow> real \<Rightarrow> real \<Rightarrow> scores \<Rightarrow> scores \<Rightarrow> bool" where
  "merged_ok db agent decay M seeds m \<longleftrightarrow>
     (\<forall>f s. map_of seeds f = Some s \<longrightarrow> (\<exists>s'. map_of m f = Some s' \<and> s \<le> s' \<and> s' \<le> M))
     \<and> (\<forall>f s. map_of seeds f = None \<longrightarrow> map_of m f = Some s \<longrightarrow> 0 < s \<and> s \<le> decay * M \<and> reachable_fragment db agent f)"

definition frontier_ok :: "real \<Rightarrow> entry list \<Rightarrow> bool" where
  "frontier_ok M h \<longleftrightarrow> (\<forall>e\<in>set h. 0 \<le> fst e \<and> fst e \<le> M)"

definition trav_ok :: "store_db \<Rightarrow> ustr \<Rightarrow> real \<Rightarrow> real \<Rightarrow> scores \<Rightarrow> traversal \<Rightarrow> bool" where
  "trav_ok db agent decay M seeds t \<longleftrightarrow> merged_ok db agent decay M seeds (tv_merged t) \<and> frontier_ok M (tv_frontier t)"

lemma score_of_update: "score_of (AList.update k s m) x d = (if x = k then s else score_of m x d)"
  by (simp add: score_of_def AList.update_conv')

lemma damped_step:
  assumes "0 \<le> s" "s \<le> M" "0 \<le> w" "w \<le> 1" "0 \<le> v" "v \<le> 1" "0 \<le> decay" "decay \<le> (1::real)"
  shows "0 \<le> s * w * v * decay" "s * w * v * decay \<le> decay * M" "s * w * v * decay \<le> M"
proof -
  have "s * w * v \<le> s" using assms by (meson mult_left_le mult_nonneg_nonneg order_trans)
  then have le: "s * w * v \<le> M" using assms(2) by simp
  have pos: "0 \<le> s * w * v" using assms by simp
  show "0 \<le> s * w * v * decay" using pos assms by simp
  show "s * w * v * decay \<le> decay * M" using le assms by (simp add: mult.commute[of decay] mult_right_mono)
  also have "\<dots> \<le> M" using assms by (simp add: mult_left_le_one_le)
  finally show "s * w * v * decay \<le> M" .
qed

lemma merged_ok_update:
  assumes ok: "merged_ok db agent decay M seeds m" and p: "score_of m f 0 < p" "p \<le> decay * M" "p \<le> M"
    and "reachable_fragment db agent f"
  shows "merged_ok db agent decay M seeds (AList.update f p m)"
  unfolding merged_ok_def
proof (intro conjI allI impI)
  fix g s assume seed: "map_of seeds g = Some s"
  then obtain s' where s': "map_of m g = Some s'" "s \<le> s'" "s' \<le> M" using ok unfolding merged_ok_def by blast
  then show "\<exists>s'. map_of (AList.update f p m) g = Some s' \<and> s \<le> s' \<and> s' \<le> M"
    using p by (cases "g = f") (auto simp: AList.update_conv' score_of_def)
next
  fix g s assume none: "map_of seeds g = None" and s: "map_of (AList.update f p m) g = Some s"
  have "0 \<le> score_of m g 0"
    using ok none by (auto simp: score_of_def merged_ok_def less_imp_le split: option.split)
  then have "0 < s \<and> s \<le> decay * M \<and> reachable_fragment db agent g"
    using ok none s p assms(5) unfolding merged_ok_def by (cases "g = f") (auto simp: AList.update_conv')
  then show "0 < s" "s \<le> decay * M" "reachable_fragment db agent g" by blast+
qed

lemma visit_edge_ok:
  assumes "weights_ok db" "0 \<le> decay" "decay \<le> 1" "trav_ok db agent decay M seeds t" "e \<in> set (db_edges db)"
    "0 \<le> fst cur" "fst cur \<le> M"
  shows "trav_ok db agent decay M seeds (visit_edge db agent decay cur e t)"
proof -
  obtain s nid depth where cur: "cur = (s, nid, depth)" by (cases cur)
  let ?o = "other_end nid e"
  show ?thesis
  proof (cases "get_node db ?o")
    case None
    then have "visit_edge db agent decay cur e t = t" by (simp add: visit_edge_def cur Let_def)
    then show ?thesis using assms(4) by simp
  next
    case (Some n)
    have n: "n \<in> set (db_nodes db)" using Some by (auto simp: get_node_def dest: tbl_get_SomeD)
    let ?p = "s * ed_weight e * nd_weight n * decay"
    have w: "0 \<le> ed_weight e" "ed_weight e \<le> 1" "0 \<le> nd_weight n" "nd_weight n \<le> 1"
      using assms(1,5) n by (auto simp: weights_ok_def list_all_iff)
    have p: "0 \<le> ?p" "?p \<le> decay * M" "?p \<le> M"
      using damped_step[of s M "ed_weight e" "nd_weight n" decay] w assms(2,3,6,7) by (auto simp: cur)
    show ?thesis
    proof (cases "?o \<in> set (tv_expanded t) \<or> \<not> node_visible agent n \<or> ?p \<le> score_of (tv_best t) ?o 0")
      case True
      with Some show ?thesis using assms(4) by (auto simp: visit_edge_def cur Let_def)
    next
      case False
      define m where "m = (case nd_fragment n of None \<Rightarrow> tv_merged t
        | Some f \<Rightarrow> if f \<noteq> [] \<and> ?p > score_of (tv_merged t) f 0 then AList.update f ?p (tv_merged t) else tv_merged t)"
      have v: "visit_edge db agent decay cur e t = t\<lparr>tv_best := AList.update ?o ?p (tv_best t), tv_merged := m,
          tv_frontier := heappush (?p, ?o, depth + 1) (tv_frontier t)\<rparr>"
        using False Some by (simp add: visit_edge_def cur Let_def m_def)
      have "merged_ok db agent decay M seeds m"
      proof (cases "\<exists>f. nd_fragment n = Some f \<and> f \<noteq> [] \<and> ?p > score_of (tv_merged t) f 0")
        case True
        then obtain f where f: "nd_fragment n = Some f" "f \<noteq> []" "?p > score_of (tv_merged t) f 0" by blast
        have "reachable_fragment db agent f"
          using n f(1) False by (auto simp: reachable_fragment_def list_ex_iff)
        moreover have "m = AList.update f ?p (tv_merged t)" using f by (simp add: m_def)
        ultimately show ?thesis using merged_ok_update[OF _ f(3) p(2,3)] assms(4) by (simp add: trav_ok_def)
      next
        case False
        then have "m = tv_merged t" by (auto simp: m_def split: option.split)
        then show ?thesis using assms(4) by (simp add: trav_ok_def)
      qed
      then show ?thesis using assms(4) p by (simp add: trav_ok_def v frontier_ok_def)
    qed
  qed
qed

lemma expand_node_ok:
  assumes "weights_ok db" "0 \<le> decay" "decay \<le> 1" "trav_ok db agent decay M seeds t" "0 \<le> fst cur" "fst cur \<le> M"
  shows "trav_ok db agent decay M seeds (expand_node db agent dir decay cur t)"
proof -
  have "set es \<subseteq> set (db_edges db) \<Longrightarrow> trav_ok db agent decay M seeds t \<Longrightarrow>
      trav_ok db agent decay M seeds (fold (visit_edge db agent decay cur) es t)" for es t
    by (induction es arbitrary: t) (simp_all add: visit_edge_ok assms)
  moreover have "set (neighbor_edges db dir (fst (snd cur))) \<subseteq> set (db_edges db)"
    by (auto simp: neighbor_edges_def edges_from_node_def edges_to_node_def)
  ultimately show ?thesis using assms(4) by (simp add: expand_node_def trav_ok_def)
qed

lemma expand_loop_ok:
  assumes "weights_ok db" "0 \<le> decay" "decay \<le> 1"
  shows "trav_ok db agent decay M seeds t \<Longrightarrow> trav_ok db agent decay M seeds (expand_loop db agent dir hops decay t)"
  using assms
proof (induction db agent dir hops decay t rule: expand_loop.induct)
  case (1 db agent dir hops decay t)
  show ?case
  proof (cases "tv_frontier t")
    case Nil
    then show ?thesis using "1.prems"(1) by (simp add: expand_loop.simps[of db agent dir hops decay t])
  next
    case (Cons cur rest)
    have cur: "0 \<le> fst cur" "fst cur \<le> M" using "1.prems"(1) by (auto simp: trav_ok_def frontier_ok_def Cons)
    have t': "trav_ok db agent decay M seeds (t\<lparr>tv_frontier := rest\<rparr>)"
      using "1.prems"(1) by (simp add: trav_ok_def frontier_ok_def Cons)
    show ?thesis
    proof (cases "fst (snd cur) \<in> set (tv_expanded t) \<or> snd (snd cur) \<ge> hops")
      case True
      with "1.IH"(1)[OF Cons True t'] "1.prems" show ?thesis
        by (subst expand_loop.simps) (simp add: Cons)
    next
      case False
      with "1.IH"(2)[OF Cons False expand_node_ok[OF "1.prems"(2-4) t' cur]] "1.prems" show ?thesis
        by (subst expand_loop.simps) (simp add: Cons)
    qed
  qed
qed

lemma seed_traversal_ok:
  assumes "distinct (map fst seeds)" "\<forall>s\<in>snd ` set seeds. 0 \<le> s \<and> s \<le> M"
  shows "trav_ok db agent decay M seeds (seed_traversal db agent seeds)"
proof -
  have node: "frontier_ok M (tv_frontier t) \<Longrightarrow> 0 \<le> s \<Longrightarrow> s \<le> M \<Longrightarrow>
      frontier_ok M (tv_frontier (fold (seed_node agent s) ns t)) \<and> tv_merged (fold (seed_node agent s) ns t) = tv_merged t"
    for s ns t
  proof (induction ns arbitrary: t)
    case (Cons n ns)
    have "frontier_ok M (tv_frontier (seed_node agent s n t))" "tv_merged (seed_node agent s n t) = tv_merged t"
      using Cons.prems by (simp_all add: seed_node_def frontier_ok_def)
    with Cons.IH[of "seed_node agent s n t"] Cons.prems(2,3) show ?case by simp
  qed simp
  have "set xs \<subseteq> set seeds \<Longrightarrow> frontier_ok M (tv_frontier t) \<Longrightarrow>
      frontier_ok M (tv_frontier (fold (\<lambda>(f, s) t. fold (seed_node agent s) (nodes_for_fragment db f) t) xs t))
      \<and> tv_merged (fold (\<lambda>(f, s) t. fold (seed_node agent s) (nodes_for_fragment db f) t) xs t) = tv_merged t" for xs t
  proof (induction xs arbitrary: t)
    case (Cons x xs)
    obtain f s where x: "x = (f, s)" by (cases x)
    have s: "0 \<le> s" "s \<le> M" using Cons.prems(1) assms(2) by (force simp: x)+
    from node[OF Cons.prems(2) s, of "nodes_for_fragment db f"] Cons show ?case by (simp add: x)
  qed simp
  from this[of seeds "\<lparr>tv_merged = seeds, tv_best = [], tv_frontier = [], tv_expanded = []\<rparr>"]
  have "frontier_ok M (tv_frontier (seed_traversal db agent seeds))" "tv_merged (seed_traversal db agent seeds) = seeds"
    by (simp_all add: seed_traversal_def frontier_ok_def)
  moreover have "merged_ok db agent decay M seeds seeds"
    using assms(2) by (force simp: merged_ok_def dest: map_of_SomeD)
  ultimately show ?thesis by (simp add: trav_ok_def)
qed

text \<open>C25: graph expansion never lowers a seed and never raises a score above the best seed; every
  fragment it adds has a node the agent may see (its own or a shared one) and a positive score of at
  most the hop decay times the best seed, so a neighbour never ties with the best hit.\<close>

theorem expansion_is_damped:
  assumes "weights_ok db" "0 \<le> decay" "decay \<le> 1" "distinct (map fst seeds)"
    and "\<forall>s\<in>snd ` set seeds. 0 \<le> s \<and> s \<le> M" and "map_of (expand db decay seeds agent dir hops) f = Some s"
  shows "(case map_of seeds f of
      Some s0 \<Rightarrow> s0 \<le> s \<and> s \<le> M
    | None \<Rightarrow> 0 < s \<and> s \<le> decay * M \<and> reachable_fragment db agent f)"
proof -
  have "trav_ok db agent decay M seeds (expand_loop db agent dir hops decay (seed_traversal db agent seeds))"
    using assms by (intro expand_loop_ok seed_traversal_ok)
  then show ?thesis using assms(6) by (fastforce simp: trav_ok_def merged_ok_def expand_def split: option.split)
qed

definition wit_node :: "string \<Rightarrow> string \<Rightarrow> node" where
  "wit_node i f = \<lparr>nd_id = u i, nd_type = ''concept'', nd_label = u i, nd_agent = Some (u ''a''), nd_fragment = Some (u f),
     nd_document = None, nd_weight = 1, nd_created = DT 2025 1 1 0 0 0 0\<rparr>"

definition wit_graph :: store_db where
  "wit_graph = empty_db\<lparr>db_nodes := [wit_node ''n'' ''f'', wit_node ''m'' ''g''],
     db_edges := [\<lparr>ed_id = u ''e'', ed_source = u ''n'', ed_target = u ''m'', ed_relation = ''supports'', ed_weight = 1 / 2,
       ed_agent = u ''a'', ed_created = DT 2025 1 1 0 0 0 0, ed_block = None\<rparr>]\<rparr>"

lemma wit_expand:
  "expand wit_graph GRAPH_HOP_DECAY [(u ''f'', 1)] (u ''a'') Both 1 = [(u ''f'', 1), (u ''g'', 1 / 4)]"
  by (simp add: expand_def seed_traversal_def nodes_for_fragment_def wit_graph_def wit_node_def empty_db_def seed_node_def
      node_visible_def score_of_def heappush_def expand_loop.simps expand_node_def neighbor_edges_def edges_from_node_def
      edges_to_node_def relation_is_expansive_def expansive_relations_def visit_edge_def other_end_def get_node_def
      tbl_get_def GRAPH_HOP_DECAY_def Let_def heap_key_def)

theorem expansion_is_damped_witness: "reachable_fragment wit_graph (u ''a'') (u ''g'') \<and> (0::real) < 1 / 4"
proof -
  have "weights_ok wit_graph" by (simp add: weights_ok_def wit_graph_def wit_node_def empty_db_def)
  moreover have "map_of (expand wit_graph GRAPH_HOP_DECAY [(u ''f'', 1)] (u ''a'') Both 1) (u ''g'') = Some (1 / 4)"
    unfolding wit_expand by simp
  ultimately show ?thesis
    using expansion_is_damped[of wit_graph GRAPH_HOP_DECAY "[(u ''f'', 1)]" 1 "u ''a''" Both 1 "u ''g''" "1 / 4"]
    by (simp add: GRAPH_HOP_DECAY_def)
qed

end
