(* ===== verification/Retrieval_Fusion.thy ===== *)
theory Retrieval_Fusion
  imports Graph_Expansion VectorIndex Py_Text
begin

text \<open>
  Hybrid retrieval up to the materialised top-k: rank fusion of the channels and seed scores
  (\<open>intelligence/retrieval_fusion.py\<close>, \<open>intelligence/fusion_scoring.py\<close>), graph
  expansion of the seeds, deduplication and reranking (\<open>intelligence/reranker.py\<close>), and the
  displayed order with its per-document limit (\<open>intelligence/retrieval_finish.py\<close>).
  Dictionaries are association lists in insertion order. What the language rules of a question say
  (its terms, dates, asked kind, anchors) is a \<open>question\<close> record of the values and tests they
  yield; term coverage is its field \<open>qn_coverage\<close>. Reads of the store are the function
  \<open>fetch\<close> with the contract \<open>fragment_source\<close>. Floats are reals and
  \<open>round\<close> is rounding half to even.
\<close>

section \<open>Numbers\<close>

definition round_even :: "real \<Rightarrow> int" where
  "round_even x = (let n = \<lfloor>x\<rfloor>; d = x - of_int n
     in if d < 1 / 2 then n else if d > 1 / 2 then n + 1 else if even n then n else n + 1)"

definition py_round :: "nat \<Rightarrow> real \<Rightarrow> real" where
  "py_round k x = of_int (round_even (x * 10 ^ k)) / 10 ^ k"

section \<open>Reading the store\<close>

type_synonym fetch = "ustr list \<Rightarrow> (ustr \<times> fragment) list"

locale fragment_source =
  fixes fetch :: fetch
  assumes fetch_id: "(f, r) \<in> set (fetch ids) \<Longrightarrow> fr_id r = f"
    and fetch_asked: "(f, r) \<in> set (fetch ids) \<Longrightarrow> f \<in> set ids"
begin

lemma fetched: "map_of (fetch ids) f = Some r \<Longrightarrow> fr_id r = f \<and> f \<in> set ids"
  using fetch_id fetch_asked map_of_SomeD by fastforce

end

definition store_fetch :: "provider \<Rightarrow> datetime \<Rightarrow> store_db \<Rightarrow> fetch" where
  "store_fetch P now db ids = snd (get_many P now db ids)"

interpretation store: fragment_source "store_fetch P now db"
  by unfold_locales (auto simp: store_fetch_def get_many_def Let_def decode_fragment_def split: option.splits)

section \<open>The question\<close>

record question =
  qn_terms :: "ustr list"
  qn_coverage :: "ustr list \<Rightarrow> ustr \<Rightarrow> real"
  qn_dated :: bool
  qn_in_window :: "fragment \<Rightarrow> bool"
  qn_kind :: "(fragment \<Rightarrow> bool) option"
  qn_anchored :: "ustr \<Rightarrow> bool"
  qn_listing :: bool
  qn_demote_retired :: bool
  qn_quoted :: "(ustr \<times> ustr) list \<Rightarrow> ustr list"
  qn_recency :: real

definition relevance :: "question \<Rightarrow> ustr \<Rightarrow> real \<Rightarrow> real" where
  "relevance q content cosine = max 0 (min 1 (max cosine (qn_coverage q (qn_terms q) content)))"

section \<open>Channels and rank fusion\<close>

definition RRF_K :: nat where "RRF_K = 60"

type_synonym channel_hits = "(ustr \<times> real) list"

record fusion =
  fu_fused :: scores
  fu_cosine :: scores
  fu_norm :: scores
  fu_vector :: nat
  fu_lexical :: nat

definition add_rank :: "nat \<times> ustr \<times> real \<Rightarrow> scores \<Rightarrow> scores" where
  "add_rank h m = (case h of (rank, f, s) \<Rightarrow> AList.update f (score_of m f 0 + 1 / (real RRF_K + real rank)) m)"

definition keep_best :: "ustr \<times> real \<Rightarrow> scores \<Rightarrow> scores" where
  "keep_best h m = (case h of (f, s) \<Rightarrow> if s > score_of m f (-1) then AList.update f s m else m)"

definition merge_max :: "scores \<Rightarrow> scores \<Rightarrow> scores" where
  "merge_max target update = fold keep_best update target"

definition set_default :: "real \<Rightarrow> ustr \<Rightarrow> scores \<Rightarrow> scores" where
  "set_default d f m = (if map_of m f = None then m @ [(f, d)] else m)"

definition normalised_cosines :: "channel_hits \<Rightarrow> ustr list \<Rightarrow> scores" where
  "normalised_cosines hits also =
     (if hits = [] then []
      else (let best = Max (snd ` set hits);
                sc = fold (\<lambda>(f, s). AList.update f (if best \<le> 0 then 0 else max 0 (s / best))) hits [];
                least = Min (snd ` set sc)
            in fold (set_default least) also sc))"

definition fuse_text :: "channel_hits \<times> channel_hits \<Rightarrow> fusion \<Rightarrow> fusion" where
  "fuse_text hits fu =
     (case hits of (vs, ls) \<Rightarrow>
        \<lparr>fu_fused = fold add_rank (enumerate 1 ls) (fold add_rank (enumerate 1 vs) (fu_fused fu)),
         fu_cosine = fold keep_best vs (fu_cosine fu),
         fu_norm = merge_max (fu_norm fu) (normalised_cosines vs (map fst ls)),
         fu_vector = fu_vector fu + length vs, fu_lexical = fu_lexical fu + length ls\<rparr>)"

definition fuse_channels :: "(channel_hits \<times> channel_hits) list \<Rightarrow> fusion" where
  "fuse_channels searches = fold fuse_text searches
     \<lparr>fu_fused = [], fu_cosine = [], fu_norm = [], fu_vector = 0, fu_lexical = 0\<rparr>"

text \<open>\<open>_vector_search\<close>: no query vector, no hits; an index of another dimension is
  rebuilt and searched again in the scope.\<close>

definition vector_search ::
  "vector_index \<Rightarrow> vector_index \<Rightarrow> vec option \<Rightarrow> ustr \<Rightarrow> ustr set \<Rightarrow> ustr set option \<Rightarrow> nat \<Rightarrow> channel_hits" where
  "vector_search ix rebuilt qvec agent allowed scope depth =
     (case qvec of None \<Rightarrow> []
      | Some v \<Rightarrow>
          (case index_search v (int depth) (-1) scope (Some agent) ix of
             Inr hs \<Rightarrow> map (\<lambda>(f, s, c). (f, s)) hs
           | Inl e \<Rightarrow> (case index_search v (int depth) (-1) (Some allowed) (Some agent) rebuilt of
               Inr hs \<Rightarrow> map (\<lambda>(f, s, c). (f, s)) hs | Inl e \<Rightarrow> [])))"

definition lexical_search :: "(ustr \<times> real) list \<Rightarrow> ustr set \<Rightarrow> channel_hits" where
  "lexical_search hits allowed = filter (\<lambda>(f, s). f \<in> allowed) hits"

section \<open>Seed scores\<close>

definition OUT_OF_WINDOW :: real where "OUT_OF_WINDOW = 7 / 10"
definition OFF_KIND :: real where "OFF_KIND = 1 / 2"

record fusion_config =
  fc_score_fusion :: bool
  fc_lexical_weight :: real
  fc_anchor_weight :: real

definition rrf_seed_score :: "real \<Rightarrow> real \<Rightarrow> real \<Rightarrow> real" where
  "rrf_seed_score fused best rel = 1 / 2 * min 1 (fused / best) + 1 / 2 * rel"

definition max_rrf :: "nat \<Rightarrow> real" where
  "max_rrf n = real n * 2 / (real RRF_K + 1)"

definition score_fusion_seed :: "real \<Rightarrow> real \<Rightarrow> real \<Rightarrow> real" where
  "score_fusion_seed nrm cov weight = (1 - weight) * nrm + weight * cov"

text \<open>A document chunk is judged without its heading line.\<close>

definition document_id :: "fragment \<Rightarrow> ustr option" where
  "document_id f = (case map_of (fr_meta f) ''document_id'' of Some (MvText d) \<Rightarrow> if d = [] then None else Some d | _ \<Rightarrow> None)"

definition scored_text :: "fragment \<Rightarrow> ustr" where
  "scored_text f =
     (if take 2 (fr_content f) = [35, 32] \<and> document_id f \<noteq> None \<and> 10 \<in> set (fr_content f)
      then drop 1 (dropWhile (\<lambda>c. c \<noteq> 10) (fr_content f)) else fr_content f)"

definition literal_hit :: "ustr list \<Rightarrow> scores \<Rightarrow> bool" where
  "literal_hit terms cov \<longleftrightarrow> list_ex (\<lambda>t. list_ex (\<lambda>c. c \<ge> 128) t) terms \<and> list_ex (\<lambda>(f, c). c \<ge> 999 / 1000) cov"

definition lexical_share :: "fusion_config \<Rightarrow> question \<Rightarrow> ustr list \<Rightarrow> real" where
  "lexical_share cfg q contents = (if list_ex (qn_anchored q) contents then fc_anchor_weight cfg else fc_lexical_weight cfg)"

text \<open>The pool: the best fused ids, then the extra candidates that are not among the fetched.\<close>

record pool =
  po_fragments :: "(ustr \<times> fragment) list"
  po_relevance :: scores
  po_seeds :: scores

definition seed_pool :: "fetch \<Rightarrow> fusion \<Rightarrow> nat \<Rightarrow> (ustr \<times> fragment) list \<Rightarrow> ustr list \<times> (ustr \<times> fragment) list" where
  "seed_pool fetch fu depth extra =
     (let ids = map fst (take depth (sort_key_desc snd (fu_fused fu))); got = fetch ids;
          more = filter (\<lambda>(f, r). map_of got f = None) extra
      in (ids @ map fst more, got @ more))"

definition apply_kind :: "(fragment \<Rightarrow> bool) \<Rightarrow> pool \<Rightarrow> pool" where
  "apply_kind asked p =
     fold (\<lambda>(f, r) p. if map_of (po_seeds p) f = None then p
        else if asked r
        then p\<lparr>po_relevance := AList.update f 1 (po_relevance p),
               po_seeds := AList.update f (max (score_of (po_seeds p) f 0) 1) (po_seeds p)\<rparr>
        else p\<lparr>po_relevance := AList.update f (score_of (po_relevance p) f 0 * OFF_KIND) (po_relevance p),
               po_seeds := AList.update f (score_of (po_seeds p) f 0 * OFF_KIND) (po_seeds p)\<rparr>)
       (po_fragments p) p"

definition seed_coverage :: "question \<Rightarrow> ustr list \<Rightarrow> (ustr \<times> fragment) list \<Rightarrow> scores" where
  "seed_coverage q ids frags =
     List.map_filter (\<lambda>f. map_option (\<lambda>r.
        (let c = qn_coverage q (qn_terms q) (scored_text r); n = real (length (qn_terms q))
         in (f, if qn_dated q then (c * n + (if qn_in_window q r then 1 else 0)) / (n + 1) else c)))
       (map_of frags f)) (rev (remdups (rev ids)))"

definition score_seeds ::
  "fusion_config \<Rightarrow> question \<Rightarrow> fetch \<Rightarrow> nat \<Rightarrow> fusion \<Rightarrow> nat \<Rightarrow> (ustr \<times> fragment) list \<Rightarrow> pool" where
  "score_seeds cfg q fetch texts fu depth extra =
     (let (ids, frags) = seed_pool fetch fu depth extra;
          cov = seed_coverage q ids frags;
          dated = (\<lambda>f. qn_dated q \<and> (case map_of frags f of Some r \<Rightarrow> qn_in_window q r | None \<Rightarrow> False));
          rel = map (\<lambda>(f, c). (f, max 0 (min 1 (max (score_of (fu_cosine fu) f 0) c)))) cov;
          w0 = lexical_share cfg q (List.map_filter (\<lambda>(f, c). map_option fr_content (map_of frags f)) cov);
          w = (if literal_hit (qn_terms q) cov then max w0 (fc_anchor_weight cfg) else w0);
          sc = (if fc_score_fusion cfg
                then map (\<lambda>(f, c). (f, score_fusion_seed (score_of (fu_norm fu) f 0) c w)) cov
                else map (\<lambda>(f, r). (f, rrf_seed_score (score_of (fu_fused fu) f 0) (max_rrf texts) r)) rel);
          any = list_ex (\<lambda>(f, c). dated f) cov;
          sc' = (if any then map (\<lambda>(f, s). (f, if dated f then max s (score_of cov f 0) else s * OUT_OF_WINDOW)) sc else sc);
          rel' = (if any then map (\<lambda>(f, r). (f, if dated f then r else r * OUT_OF_WINDOW)) rel else rel);
          p = \<lparr>po_fragments = frags, po_relevance = rel', po_seeds = sc'\<rparr>
      in case qn_kind q of None \<Rightarrow> p | Some asked \<Rightarrow> apply_kind asked p)"

section \<open>Expansion of the seeds\<close>

definition take_graph_score :: "ustr set \<Rightarrow> ustr \<times> real \<Rightarrow> scores \<times> scores \<Rightarrow> scores \<times> scores" where
  "take_graph_score allowed h st =
     (case h of (f, s) \<Rightarrow> case st of (expanded, rel) \<Rightarrow>
        if f \<in> allowed \<and> s > score_of expanded f 0
        then (AList.update f s expanded, case map_of rel f of None \<Rightarrow> rel | Some r \<Rightarrow> AList.update f (max r (min 1 s)) rel)
        else (expanded, rel))"

definition expand_seeds ::
  "store_db \<Rightarrow> fetch \<Rightarrow> question \<Rightarrow> nat \<Rightarrow> direction \<Rightarrow> nat \<Rightarrow> ustr \<Rightarrow> ustr set \<Rightarrow> scores \<Rightarrow> pool \<Rightarrow> pool \<times> ustr list" where
  "expand_seeds db fetch q hops dir top_k agent allowed cosine p =
     (if hops = 0 \<or> po_seeds p = [] then (p, [])
      else
        (let top = take top_k (sort_key_desc snd (po_seeds p));
             graph = expand db GRAPH_HOP_DECAY top agent dir hops;
             (expanded, rel) = fold (take_graph_score allowed) graph (po_seeds p, po_relevance p);
             missing = filter (\<lambda>f. map_of (po_fragments p) f = None) (map fst expanded);
             got = (if missing = [] then [] else fetch missing);
             rel' = fold (\<lambda>f m. case map_of got f of None \<Rightarrow> m
               | Some r \<Rightarrow> AList.update f (max (min 1 (score_of expanded f 0))
                   (relevance q (scored_text r) (score_of cosine f 0))) m) missing rel
         in (\<lparr>po_fragments = po_fragments p @ got, po_relevance = rel', po_seeds = expanded\<rparr>,
             contradiction_ids db (map fst top))))"

section \<open>Ranking\<close>

definition RETIRED_TAGS :: "string list" where "RETIRED_TAGS = [''mark:superseded'', ''mark:resolved'']"
definition LOW_TRUST_TAGS :: "string list" where "LOW_TRUST_TAGS = [''mark:assistant'', ''mark:question'']"

definition meta_set :: "string \<Rightarrow> fragment \<Rightarrow> bool" where
  "meta_set k f = (case map_of (fr_meta f) k of None \<Rightarrow> False | Some (MvText t) \<Rightarrow> t \<noteq> [] | Some (MvTexts ts) \<Rightarrow> ts \<noteq> []
     | Some (MvHashes hs) \<Rightarrow> hs \<noteq> [] | Some (MvInt i) \<Rightarrow> i \<noteq> 0 | Some (MvBool b) \<Rightarrow> b | Some (MvDecay x t) \<Rightarrow> True)"

definition is_retired :: "fragment \<Rightarrow> bool" where
  "is_retired f \<longleftrightarrow> list_ex (\<lambda>t. t \<in> set (fr_tags f)) RETIRED_TAGS \<or> meta_set ''superseded_by'' f \<or> meta_set ''resolved_by'' f"

definition is_superseded :: "fragment \<Rightarrow> bool" where
  "is_superseded f \<longleftrightarrow>
     \<not> (''mark:resolved'' \<in> set (fr_tags f) \<or> meta_set ''resolved_by'' f
        \<or> map_of (fr_meta f) ''lifecycle'' = Some (MvText (u ''resolved'')))
     \<and> (''mark:superseded'' \<in> set (fr_tags f) \<or> meta_set ''superseded_by'' f)"

record candidate =
  cd_id :: ustr
  cd_content :: ustr
  cd_score :: real

definition content_key :: "(ustr \<Rightarrow> ustr) \<Rightarrow> ustr \<Rightarrow> ustr" where
  "content_key lower c = py_join [32] (py_split (lower c))"

definition dedupe_step :: "(ustr \<Rightarrow> ustr) \<Rightarrow> candidate \<Rightarrow> (ustr \<times> candidate) list \<Rightarrow> (ustr \<times> candidate) list" where
  "dedupe_step lower c best =
     (case map_of best (content_key lower (cd_content c)) of
        None \<Rightarrow> AList.update (content_key lower (cd_content c)) c best
      | Some b \<Rightarrow> if cd_score c > cd_score b then AList.update (content_key lower (cd_content c)) c best else best)"

definition dedupe_content :: "(ustr \<Rightarrow> ustr) \<Rightarrow> candidate list \<Rightarrow> candidate list" where
  "dedupe_content lower cs = map snd (fold (dedupe_step lower) cs [])"

definition W_PRIOR :: real where "W_PRIOR = 1 / 4"

record ranked =
  rk_id :: ustr
  rk_score :: real
  rk_demotion :: real

definition node_weight :: "store_db \<Rightarrow> ustr \<Rightarrow> real" where
  "node_weight db f = (case nodes_for_fragment db f of [] \<Rightarrow> 1 / 2 | n # ns \<Rightarrow> Max (nd_weight ` set (n # ns)))"

definition recency :: "datetime \<Rightarrow> fragment \<Rightarrow> real" where
  "recency now f = exp (- ln 2 * max 0 (of_int (dt_micros now - dt_micros (fr_updated f)) / 86400000000) / 30)"

definition prior :: "store_db \<Rightarrow> datetime \<Rightarrow> real \<Rightarrow> fragment \<Rightarrow> real" where
  "prior db now rw f =
     (let base = 55 / 100 * fr_importance f + 20 / 100 * fr_confidence f + 25 / 100 * node_weight db (fr_id f);
          w = min 1 (max 0 rw)
      in if w = 0 then base else (1 - w) * base + w * recency now f)"

definition demotion :: "question \<Rightarrow> ustr list \<Rightarrow> (ustr \<Rightarrow> bool) \<Rightarrow> fragment \<Rightarrow> real" where
  "demotion q contradicted keep f =
     (if fr_id f \<in> set contradicted then 6 / 10 else 1)
     * (if qn_demote_retired q \<and> \<not> keep (fr_id f) \<and> is_retired f then 1 / 2 else 1)
     * (if list_ex (\<lambda>t. t \<in> set (fr_tags f)) LOW_TRUST_TAGS then 6 / 10 else 1)"

definition rerank_one ::
  "store_db \<Rightarrow> datetime \<Rightarrow> question \<Rightarrow> ustr list \<Rightarrow> (ustr \<Rightarrow> bool) \<Rightarrow> candidate \<Rightarrow> fragment \<Rightarrow> ranked" where
  "rerank_one db now q contradicted keep c f =
     (let factor = (1 - W_PRIOR) + W_PRIOR * min 1 (max 0 (prior db now (qn_recency q) f)); d = demotion q contradicted keep f
      in \<lparr>rk_id = cd_id c, rk_score = py_round 6 (max 0 (cd_score c) * factor * d), rk_demotion = py_round 4 d\<rparr>)"

definition rerank ::
  "store_db \<Rightarrow> datetime \<Rightarrow> question \<Rightarrow> ustr \<Rightarrow> ustr list \<Rightarrow> (ustr \<Rightarrow> bool) \<Rightarrow> (ustr \<times> fragment) list \<Rightarrow> nat \<Rightarrow> candidate list \<Rightarrow> ranked list" where
  "rerank db now q agent contradicted keep frags top_k cs =
     take top_k (sort_key_desc rk_score (List.map_filter (\<lambda>c. if cd_id c = [] then None
       else (case map_of frags (cd_id c) of None \<Rightarrow> None
         | Some f \<Rightarrow> if fr_agent f \<noteq> agent then None else Some (rerank_one db now q contradicted keep c f))) cs))"

text \<open>A scoring plugin replaces the reranker; its results carry no demotion.\<close>

type_synonym scorer = "candidate list \<Rightarrow> (ustr \<times> real) list"

definition rank_candidates :: "(ustr \<Rightarrow> ustr) \<Rightarrow> pool \<Rightarrow> candidate list" where
  "rank_candidates lower p = dedupe_content lower (List.map_filter (\<lambda>(f, s).
     (case map_of (po_fragments p) f of None \<Rightarrow> None
      | Some r \<Rightarrow> if is_retrievable (fr_state r) then Some \<lparr>cd_id = f, cd_content = fr_content r, cd_score = s\<rparr> else None))
     (po_seeds p))"

definition rank ::
  "store_db \<Rightarrow> datetime \<Rightarrow> (ustr \<Rightarrow> ustr) \<Rightarrow> question \<Rightarrow> scorer option \<Rightarrow> ustr \<Rightarrow> pool \<Rightarrow> ustr list \<Rightarrow> nat \<Rightarrow> ranked list" where
  "rank db now lower q plugin agent p contradicted top_k =
     (let cs = rank_candidates lower p;
          keep = (\<lambda>f. qn_demote_retired q \<and> f \<in> set (qn_quoted q (map (\<lambda>c. (cd_id c, cd_content c)) cs))
             \<and> (case map_of (po_fragments p) f of Some r \<Rightarrow> \<not> is_superseded r | None \<Rightarrow> False))
      in case plugin of
           Some sc \<Rightarrow> take top_k (map (\<lambda>(f, s). \<lparr>rk_id = f, rk_score = s, rk_demotion = 1\<rparr>) (sc cs))
         | None \<Rightarrow> rerank db now q agent contradicted keep (po_fragments p) top_k cs)"

section \<open>The displayed list\<close>

text \<open>A result: fragment, ranking score, displayed relevance.\<close>

type_synonym result = "fragment \<times> real \<times> real"

abbreviation res_score :: "result \<Rightarrow> real" where "res_score r \<equiv> fst (snd r)"
abbreviation res_shown :: "result \<Rightarrow> real" where "res_shown r \<equiv> snd (snd r)"

definition display_key :: "(fragment \<Rightarrow> real) \<Rightarrow> result \<Rightarrow> real \<times> real \<times> real \<times> ustr" where
  "display_key when r = (- py_round 6 (res_shown r), - py_round 3 (res_score r), - when (fst r), fr_id (fst r))"

definition sort_by_display :: "(fragment \<Rightarrow> real) \<Rightarrow> result list \<Rightarrow> result list" where
  "sort_by_display when rs = sort_key (display_key when) rs"

definition MAX_PER_DOCUMENT :: nat where "MAX_PER_DOCUMENT = 2"

text \<open>\<open>diversify\<close>: \<open>seen\<close> are the documents of the kept chunks; the loop stops when
  \<open>top_k\<close> results are kept (the test comes after a result is kept).\<close>

fun diversify_loop :: "nat \<Rightarrow> nat \<Rightarrow> ustr list \<Rightarrow> nat \<Rightarrow> result list \<Rightarrow> result list" where
  "diversify_loop per top_k seen kept [] = []"
| "diversify_loop per top_k seen kept (r # rs) =
     (case document_id (fst r) of
        Some d \<Rightarrow>
          if count_list seen d \<ge> per then diversify_loop per top_k seen kept rs
          else r # (if kept + 1 \<ge> top_k then [] else diversify_loop per top_k (d # seen) (kept + 1) rs)
      | None \<Rightarrow> r # (if kept + 1 \<ge> top_k then [] else diversify_loop per top_k seen (kept + 1) rs))"

definition diversify :: "nat \<Rightarrow> result list \<Rightarrow> result list" where
  "diversify top_k rs = diversify_loop MAX_PER_DOCUMENT top_k [] 0 rs"

definition materialise ::
  "(fragment \<Rightarrow> real) \<Rightarrow> fetch \<Rightarrow> pool \<Rightarrow> nat \<Rightarrow> ranked list \<Rightarrow> result list" where
  "materialise when fetch p top_k rs =
     diversify top_k (sort_by_display when (List.map_filter (\<lambda>r.
       (case (case map_of (po_fragments p) (rk_id r) of Some f \<Rightarrow> Some f | None \<Rightarrow> map_of (fetch [rk_id r]) (rk_id r)) of
          None \<Rightarrow> None
        | Some f \<Rightarrow> if is_retrievable (fr_state f)
            then Some (f, rk_score r, score_of (po_relevance p) (rk_id r) 0 * rk_demotion r) else None)) rs))"

section \<open>Rounding\<close>

lemma round_even_bounds: "\<lfloor>x\<rfloor> \<le> round_even x" "round_even x \<le> \<lfloor>x\<rfloor> + 1"
  by (auto simp: round_even_def Let_def)

lemma round_even_mono: "x \<le> y \<Longrightarrow> round_even x \<le> round_even y"
proof (cases "\<lfloor>x\<rfloor> = \<lfloor>y\<rfloor>")
  case True
  assume "x \<le> y"
  then have "x - of_int \<lfloor>x\<rfloor> \<le> y - of_int \<lfloor>x\<rfloor>" by simp
  with True show ?thesis by (auto simp: round_even_def Let_def)
next
  case False
  assume "x \<le> y"
  with False have "\<lfloor>x\<rfloor> + 1 \<le> \<lfloor>y\<rfloor>" using floor_mono[of x y] by simp
  then show ?thesis using round_even_bounds[of x] round_even_bounds[of y] by simp
qed

lemma py_round_mono: "x \<le> y \<Longrightarrow> py_round k x \<le> py_round k y"
  unfolding py_round_def using round_even_mono[of "x * 10 ^ k" "y * 10 ^ k"]
  by (intro divide_right_mono) (simp_all add: mult_right_mono)

section \<open>Reranking: relevance first\<close>

definition prior_factor :: "store_db \<Rightarrow> datetime \<Rightarrow> question \<Rightarrow> fragment \<Rightarrow> real" where
  "prior_factor db now q f = (1 - W_PRIOR) + W_PRIOR * min 1 (max 0 (prior db now (qn_recency q) f))"

lemma prior_factor_range: "3 / 4 \<le> prior_factor db now q f" "prior_factor db now q f \<le> 1"
  by (auto simp: prior_factor_def W_PRIOR_def min_def max_def)

lemma demotion_range: "0 < demotion q contradicted keep f" "demotion q contradicted keep f \<le> 1"
  by (auto simp: demotion_def)

lemma rerank_one_score:
  "rk_score (rerank_one db now q contradicted keep c f)
     = py_round 6 (max 0 (cd_score c) * prior_factor db now q f * demotion q contradicted keep f)"
  by (simp add: rerank_one_def prior_factor_def Let_def)

lemma rerank_one_upper: "rk_score (rerank_one db now q contradicted keep c f) \<le> py_round 6 (max 0 (cd_score c))"
  unfolding rerank_one_score
proof (rule py_round_mono)
  have "max 0 (cd_score c) * (prior_factor db now q f * demotion q contradicted keep f) \<le> max 0 (cd_score c) * 1"
    using prior_factor_range[of db now q f] demotion_range[of q contradicted keep f]
    by (intro mult_left_mono mult_le_one) (auto simp: less_imp_le)
  then show "max 0 (cd_score c) * prior_factor db now q f * demotion q contradicted keep f \<le> max 0 (cd_score c)"
    by (simp add: mult.assoc)
qed

lemma rerank_one_lower:
  "demotion q contradicted keep f = 1 \<Longrightarrow>
   py_round 6 (3 / 4 * max 0 (cd_score c)) \<le> rk_score (rerank_one db now q contradicted keep c f)"
  unfolding rerank_one_score
  using mult_left_mono[OF prior_factor_range(1)[of db now q f], of "max 0 (cd_score c)"]
  by (intro py_round_mono) (simp add: mult.commute)


definition wit_question :: question where
  "wit_question = \<lparr>qn_terms = [], qn_coverage = \<lambda>ts c. 0, qn_dated = False, qn_in_window = \<lambda>f. False,
     qn_kind = None, qn_anchored = \<lambda>c. False, qn_listing = False, qn_demote_retired = True,
     qn_quoted = \<lambda>cs. [], qn_recency = 0\<rparr>"


section \<open>Duplicate contents\<close>

definition best_copies :: "(ustr \<Rightarrow> ustr) \<Rightarrow> candidate list \<Rightarrow> (ustr \<times> candidate) list \<Rightarrow> bool" where
  "best_copies lower cs best \<longleftrightarrow> distinct (map fst best)
     \<and> (\<forall>k c. map_of best k = Some c \<longrightarrow> c \<in> set cs \<and> content_key lower (cd_content c) = k)
     \<and> (\<forall>c\<in>set cs. \<exists>b. map_of best (content_key lower (cd_content c)) = Some b \<and> cd_score c \<le> cd_score b)"

lemma dedupe_step_best: "best_copies lower cs best \<Longrightarrow> best_copies lower (cs @ [c]) (dedupe_step lower c best)"
proof -
  assume ok: "best_copies lower cs best"
  let ?k = "content_key lower (cd_content c)"
  show ?thesis
  proof (cases "\<exists>b. map_of best ?k = Some b \<and> cd_score c \<le> cd_score b")
    case True
    then have "dedupe_step lower c best = best" by (auto simp: dedupe_step_def)
    with ok True show ?thesis by (auto simp: best_copies_def)
  next
    case False
    then have step: "dedupe_step lower c best = AList.update ?k c best"
      by (auto simp: dedupe_step_def not_le split: option.split)
    have lower: "cd_score d \<le> cd_score c" if "d \<in> set cs" "content_key lower (cd_content d) = ?k" for d
      using ok that False unfolding best_copies_def by (metis le_cases order_trans)
    show ?thesis
      unfolding best_copies_def step
    proof (intro conjI allI ballI impI)
      show "distinct (map fst (AList.update ?k c best))" using ok by (simp add: best_copies_def distinct_update)
      fix k d assume "map_of (AList.update ?k c best) k = Some d"
      then show "d \<in> set (cs @ [c])" "content_key lower (cd_content d) = k"
        using ok by (auto simp: AList.update_conv' best_copies_def split: if_splits)
    next
      fix d assume "d \<in> set (cs @ [c])"
      then show "\<exists>b. map_of (AList.update ?k c best) (content_key lower (cd_content d)) = Some b \<and> cd_score d \<le> cd_score b"
        using ok lower by (cases "content_key lower (cd_content d) = ?k") (auto simp: AList.update_conv' best_copies_def)
    qed
  qed
qed

lemma dedupe_content_best:
  "set (dedupe_content lower cs) \<subseteq> set cs"
  "distinct (map (\<lambda>c. content_key lower (cd_content c)) (dedupe_content lower cs))"
  "c \<in> set cs \<Longrightarrow> \<exists>b\<in>set (dedupe_content lower cs). content_key lower (cd_content b) = content_key lower (cd_content c) \<and> cd_score c \<le> cd_score b"
proof -
  have "best_copies lower (ds @ cs) (fold (dedupe_step lower) cs best)" if "best_copies lower ds best" for ds best
    using that
  proof (induction cs arbitrary: ds best)
    case (Cons x cs)
    from Cons.IH[OF dedupe_step_best[OF Cons.prems, of x]] show ?case by simp
  qed simp
  moreover have "best_copies lower [] []" by (simp add: best_copies_def)
  ultimately have ok: "best_copies lower cs (fold (dedupe_step lower) cs [])" by fastforce
  let ?best = "fold (dedupe_step lower) cs []"
  have all: "c \<in> set cs \<and> content_key lower (cd_content c) = k" if "(k, c) \<in> set ?best" for k c
    using ok that unfolding best_copies_def by (metis map_of_is_SomeI)
  then show "set (dedupe_content lower cs) \<subseteq> set cs" by (auto simp: dedupe_content_def)
  have "map (\<lambda>c. content_key lower (cd_content c)) (dedupe_content lower cs) = map fst ?best"
    unfolding dedupe_content_def map_map comp_def by (rule map_cong[OF refl]) (use all in force)
  then show "distinct (map (\<lambda>c. content_key lower (cd_content c)) (dedupe_content lower cs))"
    using ok by (simp add: best_copies_def)
  assume "c \<in> set cs"
  moreover from ok have "\<forall>c\<in>set cs. \<exists>b. map_of ?best (content_key lower (cd_content c)) = Some b \<and> cd_score c \<le> cd_score b"
    unfolding best_copies_def by (elim conjE)
  ultimately obtain b where b: "map_of ?best (content_key lower (cd_content c)) = Some b" "cd_score c \<le> cd_score b"
    by (elim ballE) auto
  from map_of_SomeD[OF b(1)] have "(content_key lower (cd_content c), b) \<in> set ?best" .
  with all b(2) show "\<exists>b\<in>set (dedupe_content lower cs). content_key lower (cd_content b) = content_key lower (cd_content c) \<and> cd_score c \<le> cd_score b"
    unfolding dedupe_content_def by force
qed

section \<open>The displayed list\<close>

definition per_document :: "ustr \<Rightarrow> result list \<Rightarrow> nat" where
  "per_document d rs = length (filter (\<lambda>r. document_id (fst r) = Some d) rs)"

lemma diversify_loop_ok:
  "subseq (diversify_loop per top_k seen kept rs) rs"
  "count_list seen d + per_document d (diversify_loop per top_k seen kept rs) \<le> max per (count_list seen d)"
  "length (diversify_loop per top_k seen kept rs) \<le> max 1 (top_k - kept)"
proof -
  show "subseq (diversify_loop per top_k seen kept rs) rs"
    by (induction per top_k seen kept rs rule: diversify_loop.induct) (auto split: option.splits)
  show "count_list seen d + per_document d (diversify_loop per top_k seen kept rs) \<le> max per (count_list seen d)"
  proof (induction per top_k seen kept rs rule: diversify_loop.induct)
    case (2 per top_k seen kept r rs)
    then show ?case by (cases "document_id (fst r)") (auto simp: per_document_def split: if_splits)
  qed (simp add: per_document_def)
  show "length (diversify_loop per top_k seen kept rs) \<le> max 1 (top_k - kept)"
    by (induction per top_k seen kept rs rule: diversify_loop.induct) (auto split: option.splits if_splits)
qed

lemma diversify_ok:
  "subseq (diversify top_k rs) rs" "per_document d (diversify top_k rs) \<le> 2" "length (diversify top_k rs) \<le> max 1 top_k"
  using diversify_loop_ok(1)[of 2 top_k "[]" 0 rs] diversify_loop_ok(2)[of "[]" d 2 top_k 0 rs]
    diversify_loop_ok(3)[of 2 top_k "[]" 0 rs]
  by (simp_all add: diversify_def MAX_PER_DOCUMENT_def)

end
