(* ===== verification/Retrieval_Order.thy ===== *)
theory Retrieval_Order
  imports Retrieval_Fusion Maintenance
begin

text \<open>
  Retrieval after the materialised top-k: hops through bridge entities and superseding updates
  (\<open>intelligence/multi_hop.py\<close>), the order for the asked point in time
  (\<open>intelligence/temporal_order.py\<close>, \<open>supersession.py\<close>, \<open>state_change.py\<close>), the shown
  scores and the relevance floor (\<open>retrieval_finish.py\<close>), the composition of one query
  (\<open>retrieval_pipeline.py\<close>, \<open>retrieval_ordering.py\<close>) and the plasticity feedback
  (\<open>retrieval_feedback.py\<close>). The values and tests that the language rules derive from texts
  (normal forms, stems, entities, update wording) are the fields of a \<open>reading\<close>; every
  statement here holds for all of them. Results are lists of (fragment, score, relevance). The
  per-question lookup cache memoises a function of the entity and is not modelled.
\<close>

section \<open>What the language rules read\<close>

datatype temporal_intent = NoIntent | CurrentIntent | OriginalIntent

record features =
  ft_norm :: ustr
  ft_topic :: "ustr list"
  ft_entities :: "ustr list"
  ft_stems :: "ustr list"
  ft_update :: bool
  ft_replaced :: "ustr list"

record reading =
  rd_intent :: temporal_intent
  rd_dated :: bool
  rd_norm :: ustr
  rd_gap_anchors :: "ustr list"
  rd_anchors :: "ustr list"
  rd_terms :: "ustr list"
  rd_asked :: "ustr list"
  rd_member :: "(ustr \<Rightarrow> bool) option"
  rd_lookups :: "ustr list"
  rd_listing :: bool
  rd_norm_of :: "ustr \<Rightarrow> ustr"
  rd_contains :: "ustr \<Rightarrow> ustr \<Rightarrow> bool"
  rd_stem :: "ustr \<Rightarrow> ustr"
  rd_stems_of :: "ustr \<Rightarrow> ustr list"
  rd_entities :: "ustr \<Rightarrow> ustr list"
  rd_features :: "ustr \<Rightarrow> features"
  rd_is_update :: "ustr \<Rightarrow> bool"
  rd_is_change :: "ustr \<Rightarrow> bool"
  rd_topic_terms :: "ustr \<Rightarrow> ustr list"
  rd_values :: "ustr \<Rightarrow> ustr list"
  rd_items :: "ustr \<Rightarrow> ustr list"
  rd_unit :: "ustr \<Rightarrow> ustr option"
  rd_declared :: "fragment \<Rightarrow> datetime option"

definition event_time :: "reading \<Rightarrow> fragment \<Rightarrow> datetime" where
  "event_time rd f = (case rd_declared rd f of Some t \<Rightarrow> t | None \<Rightarrow> fr_created f)"

definition anchor_present :: "reading \<Rightarrow> ustr \<Rightarrow> ustr \<Rightarrow> bool" where
  "anchor_present rd c a \<longleftrightarrow> rd_contains rd c a
     \<or> (length (py_split a) > 1 \<and> list_all (rd_contains rd c) (py_split a))"

section \<open>Positions\<close>

text \<open>\<open>list.index\<close> of a present element.\<close>

definition position :: "'a \<Rightarrow> 'a list \<Rightarrow> nat" where
  "position x xs = length (takeWhile (\<lambda>y. y \<noteq> x) xs)"

definition result_ids :: "result list \<Rightarrow> ustr list" where
  "result_ids rs = map (\<lambda>r. fr_id (fst r)) rs"

definition insert_at :: "nat \<Rightarrow> 'a \<Rightarrow> 'a list \<Rightarrow> 'a list" where
  "insert_at n x xs = take n xs @ x # drop n xs"

section \<open>Hops and updates\<close>

definition HOP_EVIDENCE :: real where "HOP_EVIDENCE = 7 / 10"
definition WEAK_MATCH :: real where "WEAK_MATCH = 1 / 4"
definition MIN_SOURCE_RELEVANCE :: real where "MIN_SOURCE_RELEVANCE = 1 / 4"
definition MAX_SOURCES :: nat where "MAX_SOURCES = 3"
definition MAX_BRIDGES :: nat where "MAX_BRIDGES = 3"
definition LOOKUP_DEPTH :: nat where "LOOKUP_DEPTH = 8"
definition PER_BRIDGE :: nat where "PER_BRIDGE = 2"
definition SUPERSEDER_SOURCES :: nat where "SUPERSEDER_SOURCES = 3"

text \<open>\<open>_place_after\<close>: \<open>None\<close> is the \<open>ValueError\<close> of \<open>list.index\<close> when the source is not
  in the list. \<open>shown\<close> is the optional shown evidence of an update.\<close>

definition hop_slot :: "real option \<Rightarrow> real \<Rightarrow> real \<Rightarrow> nat \<Rightarrow> result list \<Rightarrow> nat" where
  "hop_slot shown score ev src out =
     src + 1 + (if shown = None
       then length (takeWhile (\<lambda>r. res_score r = score \<or> res_shown r \<ge> ev) (drop (src + 1) out)) else 0)"

definition place_after ::
  "question \<Rightarrow> nat \<Rightarrow> bool \<Rightarrow> real option \<Rightarrow> real \<Rightarrow> fragment \<Rightarrow> fragment \<Rightarrow> result list \<Rightarrow> (result list \<times> bool) option" where
  "place_after q top_k move shown ev source candidate out =
     (let ids = result_ids out; src = position (fr_id source) ids;
          put = (\<lambda>out f rel. (let n = hop_slot shown (res_score (out ! src)) ev src out
             in (insert_at n (f, res_score (out ! (n - 1)), rel) out, True)))
      in if fr_id source \<notin> set ids then None
         else if fr_id candidate \<in> set ids
         then (let cur = position (fr_id candidate) ids
               in if cur \<le> src \<or> \<not> move then Some (out, False)
                  else (let entry = out ! cur in
                    Some (put (take cur out @ drop (Suc cur) out) (fst entry) (res_shown entry))))
         else (let tail = (if length out \<ge> top_k then res_shown (out ! (if top_k = 0 then length out - 1 else top_k - 1)) else 0)
               in if tail \<ge> WEAK_MATCH \<and> tail > ev then Some (out, False)
                  else Some (put out candidate
                    (max (case shown of None \<Rightarrow> ev | Some s \<Rightarrow> s) (relevance q (fr_content candidate) 0)))))"

text \<open>\<open>_lookup\<close>: the best few memories that contain the bridge, those that match the question
  first. \<open>lexical\<close> is the keyword index of the store.\<close>

type_synonym lexical = "ustr \<Rightarrow> nat \<Rightarrow> (ustr \<times> real) list"

definition lookup_bridge :: "reading \<Rightarrow> question \<Rightarrow> lexical \<Rightarrow> fetch \<Rightarrow> ustr set \<Rightarrow> ustr \<Rightarrow> fragment list" where
  "lookup_bridge rd q lexical fetch allowed bridge =
     (let hits = lexical_search (lexical bridge LOOKUP_DEPTH) allowed; got = fetch (map fst hits)
      in take PER_BRIDGE (sort_key_desc (\<lambda>f. qn_coverage q (qn_terms q) (fr_content f))
           (filter (\<lambda>f. rd_contains rd (rd_norm_of rd (fr_content f)) bridge)
             (List.map_filter (\<lambda>(f, s). map_of got f) hits))))"

text \<open>Candidates of one lookup, each placed behind its source; the list gains the placed ones.\<close>

fun place_all ::
  "question \<Rightarrow> nat \<Rightarrow> bool \<Rightarrow> real option \<Rightarrow> real \<Rightarrow> fragment \<Rightarrow> fragment list \<Rightarrow> result list
     \<Rightarrow> (result list \<times> fragment list) option" where
  "place_all q top_k move shown ev source [] out = Some (out, [])"
| "place_all q top_k move shown ev source (c # cs) out =
     (case place_after q top_k move shown ev source c out of None \<Rightarrow> None
      | Some (out', changed) \<Rightarrow>
          (case place_all q top_k move shown ev source cs out' of None \<Rightarrow> None
           | Some (out'', placed) \<Rightarrow> Some (out'', (if changed then [c] else []) @ placed)))"

record hop_state =
  hs_seen :: "ustr list"
  hs_bridges :: nat
  hs_reached :: "(fragment \<times> real) list"
  hs_out :: "result list"

fun hop_entities ::
  "reading \<Rightarrow> question \<Rightarrow> (ustr \<Rightarrow> fragment list) \<Rightarrow> nat \<Rightarrow> fragment \<Rightarrow> real \<Rightarrow> ustr list \<Rightarrow> hop_state \<Rightarrow> hop_state option" where
  "hop_entities rd q lookup top_k source ev [] st = Some st"
| "hop_entities rd q lookup top_k source ev (e # es) st =
     (if hs_bridges st \<ge> MAX_BRIDGES then Some st
      else if e \<in> set (hs_seen st) \<or> rd_contains rd (rd_norm rd) e
      then hop_entities rd q lookup top_k source ev es st
      else (let inherited = ev * HOP_EVIDENCE in
        case place_all q top_k True None inherited source (lookup e) (hs_out st) of None \<Rightarrow> None
        | Some (out, placed) \<Rightarrow> hop_entities rd q lookup top_k source ev es
            (st\<lparr>hs_seen := e # hs_seen st, hs_bridges := Suc (hs_bridges st),
                hs_reached := hs_reached st @ map (\<lambda>c. (c, inherited)) placed, hs_out := out\<rparr>)))"

fun hop_sources ::
  "reading \<Rightarrow> question \<Rightarrow> (ustr \<Rightarrow> fragment list) \<Rightarrow> nat \<Rightarrow> (fragment \<times> real) list \<Rightarrow> hop_state \<Rightarrow> hop_state option" where
  "hop_sources rd q lookup top_k [] st = Some st"
| "hop_sources rd q lookup top_k ((source, ev) # ss) st =
     (case hop_entities rd q lookup top_k source ev (rd_entities rd (fr_content source)) st of None \<Rightarrow> None
      | Some st' \<Rightarrow> hop_sources rd q lookup top_k ss st')"

fun hop_rounds ::
  "reading \<Rightarrow> question \<Rightarrow> (ustr \<Rightarrow> fragment list) \<Rightarrow> nat \<Rightarrow> nat \<Rightarrow> (fragment \<times> real) list \<Rightarrow> ustr list \<Rightarrow> result list
     \<Rightarrow> result list option" where
  "hop_rounds rd q lookup top_k 0 sources seen out = Some out"
| "hop_rounds rd q lookup top_k (Suc n) sources seen out =
     (case hop_sources rd q lookup top_k sources \<lparr>hs_seen = seen, hs_bridges = 0, hs_reached = [], hs_out = out\<rparr> of
        None \<Rightarrow> None
      | Some st \<Rightarrow> if hs_reached st = [] then Some (hs_out st)
          else hop_rounds rd q lookup top_k n (take MAX_SOURCES (hs_reached st)) (hs_seen st) (hs_out st))"

definition multi_hop ::
  "reading \<Rightarrow> question \<Rightarrow> (ustr \<Rightarrow> fragment list) \<Rightarrow> nat \<Rightarrow> nat \<Rightarrow> result list \<Rightarrow> result list option" where
  "multi_hop rd q lookup top_k hops rs =
     (if hops = 0 \<or> rd_gap_anchors rd = [] \<or> rs = [] then Some rs
      else if qn_coverage q (qn_terms q) (fr_content (fst (hd rs))) \<ge> 1 then Some rs
      else map_option (take top_k) (hop_rounds rd q lookup top_k hops
        (map (\<lambda>(f, s, r). (f, r)) (filter (\<lambda>(f, s, r).
           list_ex (anchor_present rd (rd_norm_of rd (fr_content f))) (rd_gap_anchors rd)) (take MAX_SOURCES rs))) [] rs))"

section \<open>Supersession\<close>

definition PROFILE_CHARS :: nat where "PROFILE_CHARS = 1500"

definition is_newer :: "reading \<Rightarrow> fragment \<Rightarrow> fragment \<Rightarrow> bool" where
  "is_newer rd new old =
     (if event_time rd new \<noteq> event_time rd old then event_time rd new > event_time rd old
      else fr_created new > fr_created old)"

definition near_terms :: "reading \<Rightarrow> ustr \<Rightarrow> ustr \<Rightarrow> ustr list \<Rightarrow> nat \<Rightarrow> bool" where
  "near_terms rd text value terms window =
     (let ts = py_split text; vs = py_split value; n = length vs
      in list_ex (\<lambda>i. take n (drop i ts) = vs
           \<and> list_ex (\<lambda>t. rd_stem rd t \<in> set terms) (take (i + n + window - (i - window)) (drop (i - window) ts)))
         [0..<length ts + 1 - n])"

definition same_topic :: "features \<Rightarrow> features \<Rightarrow> bool" where
  "same_topic n m =
     (let shared = set (ft_topic n) \<inter> set (ft_topic m);
          smaller = (if ft_topic n = [] \<or> ft_topic m = [] then 1 else min (card (set (ft_topic n))) (card (set (ft_topic m))))
      in shared - set (ft_stems n) - set (ft_stems m) \<noteq> {} \<and> card shared \<ge> 2
         \<and> real (card shared) / real smaller \<ge> 4 / 10)"

definition supersedes :: "reading \<Rightarrow> fragment \<Rightarrow> fragment \<Rightarrow> bool" where
  "supersedes rd new old =
     (let n = rd_features rd (take PROFILE_CHARS (fr_content new)); m = rd_features rd (take PROFILE_CHARS (fr_content old));
          asked = filter (\<lambda>t. t \<in> set (ft_topic m)) (rd_asked rd)
      in if fr_id new = fr_id old \<or> \<not> ft_update n \<or> \<not> is_newer rd new old then False
         else if document_id new \<noteq> None \<and> document_id new = document_id old then False
         else if ft_entities n \<noteq> [] \<and> ft_entities m \<noteq> [] \<and> set (ft_entities n) \<inter> set (ft_entities m) = {} then False
         else if \<not> list_all (\<lambda>a. rd_contains rd (ft_norm n) a \<and> rd_contains rd (ft_norm m) a) (rd_anchors rd) then False
         else if list_ex (\<lambda>v. rd_contains rd (ft_norm m) v \<and> \<not> (rd_norm rd \<noteq> [] \<and> rd_contains rd (rd_norm rd) v)
                 \<and> (asked = [] \<or> near_terms rd (ft_norm m) v asked 5)) (ft_replaced n) then True
         else if asked \<noteq> [] \<and> set asked \<inter> set (ft_topic n) = {} then False
         else same_topic n m)"

text \<open>\<open>_pull_superseders\<close> and \<open>_pull_unnamed_updates\<close>: each update is put right behind the
  result it updates and shows its evidence.\<close>

fun place_lookups :: "question \<Rightarrow> nat \<Rightarrow> fragment \<Rightarrow> real \<Rightarrow> fragment list list \<Rightarrow> result list \<Rightarrow> result list option" where
  "place_lookups q top_k source rel [] out = Some out"
| "place_lookups q top_k source rel (cs # css) out =
     (case place_all q top_k False (Some rel) 1 source cs out of None \<Rightarrow> None
      | Some (out', placed) \<Rightarrow> place_lookups q top_k source rel css out')"

definition bridge_values :: "reading \<Rightarrow> question \<Rightarrow> fragment \<Rightarrow> ustr list" where
  "bridge_values rd q source =
     take 2 (sort_key (\<lambda>e. \<not> near_terms rd (rd_norm_of rd (fr_content source)) e (qn_terms q) 2)
       (filter (\<lambda>e. \<not> rd_contains rd (rd_norm rd) e) (rd_entities rd (fr_content source))))"

fun pull_sources ::
  "reading \<Rightarrow> question \<Rightarrow> (ustr \<Rightarrow> fragment list) \<Rightarrow> nat \<Rightarrow> result list \<Rightarrow> result list \<Rightarrow> result list option" where
  "pull_sources rd q lookup top_k [] out = Some out"
| "pull_sources rd q lookup top_k ((source, s, rel) # rest) out =
     (if rel < MIN_SOURCE_RELEVANCE then pull_sources rd q lookup top_k rest out
      else case place_lookups q top_k source rel
          (map (\<lambda>e. filter (\<lambda>c. rd_is_update rd (fr_content c) \<and> supersedes rd c source) (lookup e)) (bridge_values rd q source)) out
        of None \<Rightarrow> None | Some out' \<Rightarrow> pull_sources rd q lookup top_k rest out')"

definition pull_unnamed_updates ::
  "reading \<Rightarrow> question \<Rightarrow> (ustr \<Rightarrow> fragment list) \<Rightarrow> nat \<Rightarrow> result list \<Rightarrow> result list option" where
  "pull_unnamed_updates rd q lookup top_k out =
     (case rd_member rd of None \<Rightarrow> Some out
      | Some member \<Rightarrow>
          if rd_lookups rd = [] \<or> out = [] then Some out
          else (case find (\<lambda>r. member (fr_content (fst r))) out of None \<Rightarrow> Some out
            | Some (source, s, rel) \<Rightarrow>
                if rel < MIN_SOURCE_RELEVANCE then Some out
                else place_lookups q top_k source rel
                  (map (\<lambda>w. filter (\<lambda>c. fr_id c \<noteq> fr_id source \<and> rd_is_update rd (fr_content c) \<and> member (fr_content c)
                     \<and> event_time rd c > event_time rd source) (lookup w)) (rd_lookups rd)) out))"

definition pull_superseders ::
  "reading \<Rightarrow> question \<Rightarrow> (ustr \<Rightarrow> fragment list) \<Rightarrow> nat \<Rightarrow> result list \<Rightarrow> result list option" where
  "pull_superseders rd q lookup top_k rs =
     (if rd_anchors rd \<noteq> [] then Some rs
      else (case pull_sources rd q lookup top_k (take SUPERSEDER_SOURCES rs) rs of None \<Rightarrow> None
        | Some out \<Rightarrow> map_option (take top_k) (pull_unnamed_updates rd q lookup top_k out)))"

section \<open>Temporal order\<close>

definition restamp :: "real list \<Rightarrow> result list \<Rightarrow> result list" where
  "restamp scores rs = map2 (\<lambda>s r. (fst r, s, res_shown r)) scores rs"

definition pick :: "'a list \<Rightarrow> nat list \<Rightarrow> 'a list" where
  "pick xs order = map (\<lambda>i. xs ! i) order"

definition order_band :: "reading \<Rightarrow> fragment list \<Rightarrow> nat list \<Rightarrow> bool \<Rightarrow> nat list" where
  "order_band rd fs band newest_first =
     (let dated = filter (\<lambda>i. rd_declared rd (fs ! i) \<noteq> None) band;
          undated = filter (\<lambda>i. rd_declared rd (fs ! i) = None) band
      in if dated = [] then (if newest_first then sort_key_desc (\<lambda>i. event_time rd (fs ! i)) band
                             else sort_key (\<lambda>i. event_time rd (fs ! i)) band)
         else (let key = (\<lambda>i. (event_time rd (fs ! i), fr_created (fs ! i)));
                   dated' = (if newest_first then sort_key_desc key dated else sort_key key dated)
               in if \<not> newest_first \<or> undated = [] then dated' @ undated
                  else (let newest = Max ((\<lambda>i. fr_created (fs ! i)) ` set dated);
                            later = sort_key_desc (\<lambda>i. fr_created (fs ! i)) (filter (\<lambda>i. fr_created (fs ! i) > newest) undated)
                        in later @ dated' @ filter (\<lambda>i. i \<notin> set later) undated)))"

definition asked_band :: "reading \<Rightarrow> question \<Rightarrow> fragment list \<Rightarrow> nat list" where
  "asked_band rd q fs =
     (let covers = (\<lambda>ts i. qn_coverage q ts (fr_content (fs ! i)) \<ge> 1); every = [0..<length fs]
      in if rd_anchors rd = []
         then (let terms = filter (\<lambda>t. covers [t] 0) (rd_terms rd) in if terms = [] then [] else filter (covers terms) every)
         else (let words = concat (map py_split (rd_anchors rd));
                   attribute = filter (\<lambda>t. t \<notin> set words) (rd_terms rd);
                   states = (\<lambda>t i. t \<in> set (rd_stems_of rd (fr_content (fs ! i))));
                   subject = filter (\<lambda>i. list_all (rd_contains rd (rd_norm_of rd (fr_content (fs ! i)))) (rd_anchors rd)) every;
                   common = filter (\<lambda>t. length (filter (states t) subject) * 2 > length subject) attribute
               in if length subject < 2 \<or> attribute = [] then subject
                  else if common = [] then []
                  else filter (\<lambda>i. list_all (\<lambda>t. states t i) common) subject))"

fun running_min :: "real \<Rightarrow> real list \<Rightarrow> real list" where
  "running_min m [] = []"
| "running_min m (s # ss) = min m s # running_min (min m s) ss"

definition temporal_order :: "reading \<Rightarrow> question \<Rightarrow> result list \<Rightarrow> result list" where
  "temporal_order rd q rs =
     (let fs = map fst rs; band = asked_band rd q fs
      in if rd_intent rd = NoIntent \<or> length rs < 2 \<or> length band < 2 then rs
         else (let b = order_band rd fs band (rd_intent rd = CurrentIntent);
                   rest = filter (\<lambda>i. i \<notin> set b) [0..<length rs];
                   top = rev (sort (map (\<lambda>i. res_score (rs ! i)) b))
               in restamp (top @ running_min (last top) (map (\<lambda>i. res_score (rs ! i)) rest)) (pick rs (b @ rest))))"

section \<open>Supersession order\<close>

definition move_before :: "nat \<times> nat \<Rightarrow> nat list \<Rightarrow> nat list" where
  "move_before p order =
     (case p of (a, b) \<Rightarrow>
        if position a order > position b order
        then (let os = remove1 a order in insert_at (position b os) a os) else order)"

definition apply_order :: "nat list \<Rightarrow> result list \<Rightarrow> result list" where
  "apply_order order rs = restamp (rev (sort (map res_score rs))) (pick rs order)"

definition supersession_pairs :: "reading \<Rightarrow> fragment list \<Rightarrow> (nat \<times> nat) list" where
  "supersession_pairs rd fs =
     filter (\<lambda>(j, i). i \<noteq> j \<and> supersedes rd (fs ! j) (fs ! i)) (List.product [0..<length fs] [0..<length fs])"

definition order_by_supersession :: "reading \<Rightarrow> result list \<Rightarrow> result list \<times> ustr list" where
  "order_by_supersession rd rs =
     (let fs = map fst rs; pairs = supersession_pairs rd fs; original = (rd_intent rd = OriginalIntent)
      in if length rs < 2 \<or> pairs = [] then (rs, [])
         else (apply_order (fold (\<lambda>(new, old). move_before (if original then (old, new) else (new, old))) pairs [0..<length rs]) rs,
               if original then [] else map (\<lambda>(new, old). fr_id (fs ! old)) pairs))"

section \<open>State bands\<close>

record state_change =
  sc_order :: "nat list"
  sc_outdated :: "ustr list"
  sc_conflicts :: "(ustr \<times> ustr list) list"

definition MIN_TOPIC_SHARE :: real where "MIN_TOPIC_SHARE = 1 / 2"

text \<open>\<open>_conflicts\<close>: members with a common topic and different values, neither a part of the
  other's. \<open>add_conflict\<close> is \<open>setdefault(a, []).append(b)\<close>.\<close>

definition disagree :: "reading \<Rightarrow> fragment \<Rightarrow> fragment \<Rightarrow> bool" where
  "disagree rd a b =
     (let ta = set (rd_topic_terms rd (fr_content a)); tb = set (rd_topic_terms rd (fr_content b));
          va = set (rd_values rd (fr_content a)); vb = set (rd_values rd (fr_content b))
      in real (card (ta \<inter> tb)) \<ge> MIN_TOPIC_SHARE * real (min (card ta) (card tb))
         \<and> va \<noteq> {} \<and> vb \<noteq> {} \<and> \<not> (va \<subseteq> vb \<or> vb \<subseteq> va))"

definition add_conflict :: "ustr \<Rightarrow> ustr \<Rightarrow> (ustr \<times> ustr list) list \<Rightarrow> (ustr \<times> ustr list) list" where
  "add_conflict a b m = AList.update a ((case map_of m a of None \<Rightarrow> [] | Some bs \<Rightarrow> bs) @ [b]) m"

fun member_conflicts :: "reading \<Rightarrow> fragment list \<Rightarrow> (ustr \<times> ustr list) list \<Rightarrow> (ustr \<times> ustr list) list" where
  "member_conflicts rd [] m = m"
| "member_conflicts rd (a # bs) m =
     member_conflicts rd bs (fold (\<lambda>b m. add_conflict (fr_id b) (fr_id a) (add_conflict (fr_id a) (fr_id b) m))
       (filter (disagree rd a) bs) m)"

definition state_band :: "reading \<Rightarrow> fragment list \<Rightarrow> state_change option" where
  "state_band rd fs =
     (case rd_member rd of None \<Rightarrow> None
      | Some member \<Rightarrow>
          (let band = filter (\<lambda>i. member (fr_content (fs ! i)) \<and> \<not> list_ex (\<lambda>t. t \<in> set (fr_tags (fs ! i))) LOW_TRUST_TAGS) [0..<length fs]
           in if length fs < 2 \<or> length band < 2 then None
              else (let order = order_band rd fs band True; newest = fs ! hd order;
                        original = (rd_intent rd = OriginalIntent);
                        update = rd_is_update rd (fr_content newest) \<or> rd_is_change rd (fr_content newest);
                        outdated = (if update then map (\<lambda>i. fr_id (fs ! i)) (tl order) else []);
                        conflicts = (if update then [] else member_conflicts rd (pick fs order) []);
                        rest = filter (\<lambda>i. i \<notin> set band) [0..<length fs];
                        n = length (filter (\<lambda>i. i < hd band) rest)
                    in if \<not> update \<and> conflicts = [] then None
                       else Some \<lparr>sc_order = take n rest @ (if original then rev order else order) @ drop n rest,
                         sc_outdated = (if original then [] else outdated), sc_conflicts = conflicts\<rparr>)))"

definition apply_band :: "state_change \<Rightarrow> result list \<Rightarrow> result list" where
  "apply_band b rs = restamp (map res_score rs) (pick rs (sc_order b))"

section \<open>Agreement with current facts\<close>

definition order_by_fact_agreement ::
  "reading \<Rightarrow> ustr list \<times> ustr list \<Rightarrow> result list \<Rightarrow> result list \<times> ustr list" where
  "order_by_fact_agreement rd vals rs =
     (let norms = (\<lambda>vs. filter (\<lambda>v. v \<noteq> []) (map (rd_norm_of rd) vs));
          cur = norms (fst vals); stale = filter (\<lambda>v. v \<notin> set cur) (norms (snd vals));
          states = (\<lambda>vs r. list_ex (rd_contains rd (rd_norm_of rd (fr_content (fst r)))) vs);
          is_stale = (\<lambda>r. \<not> states cur r \<and> states stale r);
          items = concat (map (rd_items rd) (fst vals));
          replaced = filter (\<lambda>v. v \<notin> set items) stale;
          outdated = map (\<lambda>r. fr_id (fst r)) (filter (\<lambda>r. is_stale r \<and> states replaced r) rs);
          n = length (takeWhile (\<lambda>r. \<not> is_stale r) rs);
          movers = filter (\<lambda>i. i > n \<and> states cur (rs ! i)) [0..<length rs];
          rest = filter (\<lambda>i. i \<notin> set movers) [0..<length rs]
      in if cur = [] \<or> stale = [] then (rs, [])
         else if n = length rs \<or> movers = [] then (rs, outdated)
         else (apply_order (take n rest @ movers @ drop n rest) rs, outdated))"

section \<open>Shown scores and the relevance floor\<close>

definition OUTDATED_FACTOR :: real where "OUTDATED_FACTOR = 8 / 10"
definition ABSOLUTE_FLOOR :: real where "ABSOLUTE_FLOOR = 1 / 10"
definition TIME_SCOPED_FLOOR :: real where "TIME_SCOPED_FLOOR = 2 / 10"
definition RELATIVE_FLOOR :: real where "RELATIVE_FLOOR = 3 / 10"
definition PINNED :: real where "PINNED = 9 / 10"

fun display_scores :: "result list \<Rightarrow> result list" where
  "display_scores [] = []"
| "display_scores ((f, s, rel) # rs) =
     (let shown = display_scores rs in (f, s, case shown of [] \<Rightarrow> rel | r # xs \<Rightarrow> max rel (res_shown r)) # shown)"

definition demote_outdated :: "ustr list \<Rightarrow> result list \<Rightarrow> result list" where
  "demote_outdated outdated rs =
     (if outdated = [] \<or> \<not> list_ex (\<lambda>r. fr_id (fst r) \<in> set outdated) rs then rs
      else restamp (rev (sort (map res_score rs)))
        (sort_key (\<lambda>r. - res_shown r) (map (\<lambda>(f, s, rel). (f, s, if fr_id f \<in> set outdated then rel * OUTDATED_FACTOR else rel)) rs)))"

definition apply_floor :: "reading \<Rightarrow> bool \<Rightarrow> result list \<Rightarrow> result list" where
  "apply_floor rd time_scoped rs =
     (case rs of [] \<Rightarrow> []
      | best # others \<Rightarrow>
          if time_scoped \<and> rd_listing rd then rs
          else (let least = (if time_scoped then TIME_SCOPED_FLOOR else ABSOLUTE_FLOOR);
                    bound = max least (RELATIVE_FLOOR * res_shown best);
                    clear = (\<lambda>i. res_shown (rs ! i) \<ge> bound \<or> (i = 0 \<and> \<not> time_scoped) \<or> fr_importance (fst (rs ! i)) \<ge> PINNED);
                    parts = (\<lambda>i. rd_unit rd (fr_content (fst (rs ! i))));
                    units = filter (\<lambda>w. w \<noteq> None) (map parts (filter clear [0..<length rs]))
                in pick rs (filter (\<lambda>i. clear i \<or> (res_shown (rs ! i) \<ge> least \<and> parts i \<in> set units)) [0..<length rs])))"

section \<open>One query\<close>

text \<open>\<open>_order_and_report\<close> without the gap report: the shown results, the ids of outdated results
  and the conflicts. \<open>vals\<close> are the current and the earlier values of the facts asked about
  (both empty when no fact matches).\<close>

record report =
  rp_results :: "result list"
  rp_outdated :: "ustr list"
  rp_conflicts :: "(ustr \<times> ustr list) list"

definition order_states :: "reading \<Rightarrow> question \<Rightarrow> result list \<Rightarrow> report" where
  "order_states rd q rs =
     (let rs1 = temporal_order rd q rs
      in if rd_dated rd then \<lparr>rp_results = rs1, rp_outdated = [], rp_conflicts = []\<rparr>
         else (let (rs2, old) = order_by_supersession rd rs1
               in case state_band rd (map fst rs2) of
                    None \<Rightarrow> \<lparr>rp_results = rs2, rp_outdated = old, rp_conflicts = []\<rparr>
                  | Some b \<Rightarrow> \<lparr>rp_results = apply_band b rs2, rp_outdated = old @ sc_outdated b, rp_conflicts = sc_conflicts b\<rparr>))"

definition order_facts ::
  "reading \<Rightarrow> (fragment list \<Rightarrow> ustr list \<times> ustr list) \<Rightarrow> report \<Rightarrow> report" where
  "order_facts rd vals p =
     (if rd_intent rd = OriginalIntent then p
      else (let (rs, old) = order_by_fact_agreement rd (vals (map fst (rp_results p))) (rp_results p)
            in p\<lparr>rp_results := rs, rp_outdated := (if rd_dated rd then rp_outdated p else rp_outdated p @ old)\<rparr>))"

definition order_results ::
  "reading \<Rightarrow> question \<Rightarrow> (fragment list \<Rightarrow> ustr list \<times> ustr list) \<Rightarrow> bool \<Rightarrow> result list \<Rightarrow> report" where
  "order_results rd q vals time_scoped rs =
     (let p = order_facts rd vals (order_states rd q rs);
          shown = display_scores (rp_results p);
          shown' = (if rd_intent rd = OriginalIntent then shown else demote_outdated (rp_outdated p) shown);
          final = apply_floor rd time_scoped shown'; ids = set (result_ids final)
      in \<lparr>rp_results = final, rp_outdated = filter (\<lambda>i. i \<in> ids) (rp_outdated p),
          rp_conflicts = filter (\<lambda>(k, vs). vs \<noteq> [])
            (map (\<lambda>(k, vs). (k, filter (\<lambda>v. v \<in> ids) vs)) (filter (\<lambda>(k, vs). k \<in> ids) (rp_conflicts p)))\<rparr>)"

definition CHANNEL_DEPTH_MIN :: nat where "CHANNEL_DEPTH_MIN = 50"
definition CHANNEL_DEPTH_FACTOR :: nat where "CHANNEL_DEPTH_FACTOR = 5"

text \<open>What a query runs against: the store, its keyword index, the vector index (and the index a
  rebuild would give), the query embedder, the fusion settings and the scoring plugin.\<close>

record search_env =
  en_db :: store_db
  en_now :: datetime
  en_fetch :: fetch
  en_lexical :: lexical
  en_index :: vector_index
  en_rebuilt :: vector_index
  en_embed :: "ustr \<Rightarrow> vec option"
  en_lower :: "ustr \<Rightarrow> ustr"
  en_fusion :: fusion_config
  en_scorer :: "scorer option"
  en_values :: "fragment list \<Rightarrow> ustr list \<times> ustr list"

record policy =
  pl_top_k :: nat
  pl_depth :: nat
  pl_direction :: direction

definition search_channels :: "search_env \<Rightarrow> ustr list \<Rightarrow> ustr \<Rightarrow> ustr set \<Rightarrow> ustr set option \<Rightarrow> nat \<Rightarrow> fusion" where
  "search_channels en texts agent allowed scope depth =
     fuse_channels (map (\<lambda>t. (vector_search (en_index en) (en_rebuilt en) (en_embed en t) agent allowed scope depth,
       lexical_search (en_lexical en t depth) allowed)) texts)"

text \<open>\<open>_retrieve_one\<close> up to \<open>materialise\<close>, then the hops, the updates and the order.\<close>

definition first_results ::
  "search_env \<Rightarrow> reading \<Rightarrow> question \<Rightarrow> policy \<Rightarrow> ustr list \<Rightarrow> ustr \<Rightarrow> ustr set \<Rightarrow> ustr set option \<Rightarrow> (ustr \<times> fragment) list \<Rightarrow> result list" where
  "first_results en rd q pl texts agent allowed scope extra =
     (let top_k = pl_top_k pl; depth = max CHANNEL_DEPTH_MIN (top_k * CHANNEL_DEPTH_FACTOR);
          fu = search_channels en texts agent allowed scope depth;
          seeds = score_seeds (en_fusion en) q (en_fetch en) (length texts) fu depth extra;
          (p, contradicted) = expand_seeds (en_db en) (en_fetch en) q (pl_depth pl) (pl_direction pl) top_k agent allowed (fu_cosine fu) seeds
      in materialise (\<lambda>f. of_int (dt_micros (event_time rd f)) / 1000000) (en_fetch en) p top_k
           (rank (en_db en) (en_now en) (en_lower en) q (en_scorer en) agent p contradicted (top_k * 2)))"

definition retrieve_one ::
  "search_env \<Rightarrow> reading \<Rightarrow> question \<Rightarrow> policy \<Rightarrow> ustr list \<Rightarrow> ustr \<Rightarrow> ustr set \<Rightarrow> ustr set option \<Rightarrow> bool \<Rightarrow> (ustr \<times> fragment) list
     \<Rightarrow> report option" where
  "retrieve_one en rd q pl texts agent allowed scope time_scoped extra =
     (let lookup = lookup_bridge rd q (en_lexical en) (en_fetch en) allowed;
          found = first_results en rd q pl texts agent allowed scope extra;
          hopped = multi_hop rd q lookup (pl_top_k pl) (min (pl_depth pl) 2) found;
          pulled = (if rd_dated rd then hopped else Option.bind hopped (pull_superseders rd q lookup (pl_top_k pl)))
      in map_option (order_results rd q (en_values en) (time_scoped \<or> rd_dated rd)) pulled)"

section \<open>Plasticity feedback\<close>

datatype reinforce_mode = ReinforceNone | ReinforceRelevant | ReinforceAll

text \<open>\<open>_coactivate\<close>: every edge between two co-retrieved fragments is strengthened once.
  A node belongs to one fragment, so the order of the fragments does not matter.\<close>

definition coactivate_edge :: "(ustr \<times> ustr) list \<Rightarrow> ustr \<Rightarrow> ustr \<Rightarrow> edge \<Rightarrow> ustr list \<times> store_db \<Rightarrow> ustr list \<times> store_db" where
  "coactivate_edge owner nid fid e st =
     (case st of (seen, db) \<Rightarrow>
        if ed_id e \<in> set seen then st
        else (case map_of owner (if ed_source e = nid then ed_target e else ed_source e) of
            None \<Rightarrow> st
          | Some other \<Rightarrow>
              if other = fid then st
              else (let w = on_co_retrieval COACTIVATION_DELTA (ed_weight e)
                    in (ed_id e # seen, if \<bar>w - ed_weight e\<bar> > 1 / 10 ^ 9 then update_edge_weight db (ed_id e) w else db))))"

definition coactivate :: "store_db \<Rightarrow> ustr list \<Rightarrow> store_db" where
  "coactivate db fids =
     (let owner = fold (\<lambda>f m. fold (\<lambda>n. AList.update (nd_id n) f) (nodes_for_fragment db f) m) (remdups fids) []
      in if length (remdups fids) < 2 then db
         else snd (fold (\<lambda>(nid, fid) st. fold (coactivate_edge owner nid fid)
           (edges_from_node (snd st) nid [] @ edges_to_node (snd st) nid) st) owner ([], db)))"

definition reinforce_results ::
  "provider \<Rightarrow> datetime \<Rightarrow> reinforce_mode \<Rightarrow> real \<Rightarrow> result list \<Rightarrow> store_db \<Rightarrow> store_db" where
  "reinforce_results P now mode min_confidence rs db =
     (let touched = touch_many now db (result_ids rs);
          fs = map fst (filter (\<lambda>r. mode = ReinforceAll \<or> res_shown r \<ge> min_confidence) rs);
          (read, got) = get_many P now touched (map fr_id fs);
          cur = (\<lambda>f. case map_of got (fr_id f) of Some r \<Rightarrow> r | None \<Rightarrow> f);
          updates = fold (\<lambda>f. AList.update (fr_id f) (on_access REINFORCE_DELTA (cur f)))
            (filter (\<lambda>f. \<bar>on_access REINFORCE_DELTA (cur f) - fr_importance (cur f)\<bar> > 1 / 10 ^ 9) fs) []
      in if mode = ReinforceNone \<or> rs = [] then db
         else if fs = [] then touched
         else coactivate (if updates = [] then read else update_importance_many now read updates) (map fr_id fs))"

lemma fold_steps:
  assumes "\<And>x st. R\<^sup>*\<^sup>* (h st) (h (g x st))"
  shows "R\<^sup>*\<^sup>* (h st) (h (fold g xs st))"
proof (induction xs arbitrary: st)
  case (Cons x xs)
  show ?case using rtranclp_trans[OF assms Cons.IH] by simp
qed simp

lemma coactivate_steps: "(store_step P)\<^sup>*\<^sup>* db (coactivate db fids)"
proof -
  have edge: "(store_step P)\<^sup>*\<^sup>* (snd st) (snd (coactivate_edge owner nid fid e st))" for owner nid fid e st
    by (auto simp: coactivate_edge_def Let_def step_edge_weight split: prod.split option.split)
  have "(store_step P)\<^sup>*\<^sup>* (snd st) (snd (fold (\<lambda>(nid, fid) st. fold (coactivate_edge owner nid fid)
      (edges_from_node (snd st) nid [] @ edges_to_node (snd st) nid) st) ns st))" for owner ns st
    by (rule fold_steps[where h = snd]) (simp only: case_prod_unfold fold_steps[where h = snd, OF edge])
  from this[of "([], db)"] show ?thesis by (simp add: coactivate_def Let_def)
qed

text \<open>Feedback is a sequence of store operations, so it keeps the store invariant.\<close>

lemma reinforce_results_steps: "(store_step P)\<^sup>*\<^sup>* db (reinforce_results P now mode m rs db)"
proof -
  let ?touched = "touch_many now db (result_ids rs)"
  let ?fs = "map fst (filter (\<lambda>r. mode = ReinforceAll \<or> res_shown r \<ge> m) rs)"
  have touched: "(store_step P)\<^sup>*\<^sup>* db ?touched" by (simp add: step_touch r_into_rtranclp)
  obtain read got where read: "get_many P now ?touched (map fr_id ?fs) = (read, got)" by fastforce
  then have "(store_step P)\<^sup>*\<^sup>* ?touched read" using step_get_many[of P ?touched now "map fr_id ?fs"] by simp
  with touched have r: "(store_step P)\<^sup>*\<^sup>* db read" by simp
  have i: "(store_step P)\<^sup>*\<^sup>* db (update_importance_many now read ups)" for ups
    using r step_importance[of P read now ups] by simp
  show ?thesis
    unfolding reinforce_results_def Let_def read prod.case
    using touched rtranclp_trans[OF r coactivate_steps] rtranclp_trans[OF i coactivate_steps] by simp
qed

section \<open>Ordering stages are permutations\<close>

abbreviation shown_pair :: "result \<Rightarrow> fragment \<times> real" where "shown_pair r \<equiv> (fst r, res_shown r)"

locale order_stage =
  fixes stage :: "result list \<Rightarrow> result list"
  assumes keeps_pairs: "mset (map shown_pair (stage rs)) = mset (map shown_pair rs)"
begin

lemma keeps_fragments: "mset (map fst (stage rs)) = mset (map fst rs)"
proof -
  have "image_mset fst (mset (map shown_pair (stage rs))) = image_mset fst (mset (map shown_pair rs))"
    by (simp only: keeps_pairs)
  then show ?thesis by (simp add: multiset.map_comp comp_def)
qed

lemma keeps_set: "fst ` set (stage rs) = fst ` set rs"
  using keeps_fragments[of rs] by (metis list.set_map set_mset_mset)

lemma keeps_length: "length (stage rs) = length rs"
  using keeps_fragments[of rs] by (metis length_map size_mset)

end

lemma length_restamp: "length (restamp ss rs) = min (length ss) (length rs)"
  by (simp add: restamp_def)

lemma restamp_pairs: "length rs \<le> length ss \<Longrightarrow> map shown_pair (restamp ss rs) = map shown_pair rs"
proof (induction rs arbitrary: ss)
  case (Cons r rs)
  then show ?case by (cases ss) (simp_all add: restamp_def)
qed (simp add: restamp_def)

lemma restamp_shown: "length rs \<le> length ss \<Longrightarrow> map res_shown (restamp ss rs) = map res_shown rs"
  using arg_cong[OF restamp_pairs[of rs ss], of "map snd"] by (simp add: comp_def)

lemma pick_perm: "mset order = mset [0..<length rs] \<Longrightarrow> mset (pick rs order) = mset rs"
proof -
  assume "mset order = mset [0..<length rs]"
  then have "mset (pick rs order) = image_mset ((!) rs) (mset [0..<length rs])" by (simp add: pick_def)
  then show ?thesis by (metis map_nth mset_map)
qed

lemma length_pick [simp]: "length (pick rs order) = length order"
  by (simp add: pick_def)

lemma stage_pairs:
  assumes "mset order = mset [0..<length rs]" "length rs \<le> length ss"
  shows "mset (map shown_pair (restamp ss (pick rs order))) = mset (map shown_pair rs)"
proof -
  have "length order = length rs" using arg_cong[OF assms(1), of size] by simp
  then have "map shown_pair (restamp ss (pick rs order)) = map shown_pair (pick rs order)"
    using assms(2) by (intro restamp_pairs) simp
  then show ?thesis using pick_perm[OF assms(1)] by (simp only: mset_map)
qed

text \<open>A block of positions moved to one place of the rest.\<close>

lemma block_perm:
  assumes "mset b = mset (filter P xs)" "set c = set b"
  shows "mset (take n (filter (\<lambda>i. i \<notin> set c) xs) @ b @ drop n (filter (\<lambda>i. i \<notin> set c) xs)) = mset xs"
proof -
  have "set b = set (filter P xs)" using assms(1) by (metis set_mset_mset)
  then have "filter (\<lambda>i. i \<notin> set c) xs = filter (\<lambda>i. \<not> P i) xs" using assms(2) by (auto intro: filter_cong)
  moreover have "mset (take n ys) + mset (drop n ys) = mset ys" for ys :: "'a list"
    by (metis append_take_drop_id mset_append)
  ultimately have "mset (take n (filter (\<lambda>i. i \<notin> set c) xs)) + mset (drop n (filter (\<lambda>i. i \<notin> set c) xs))
    = mset (filter (\<lambda>i. \<not> P i) xs)" by simp
  then show ?thesis using assms(1) by (simp add: add.commute add.left_commute)
qed

lemma order_band_perm: "mset (order_band rd fs band newest_first) = mset band"
proof -
  let ?d = "\<lambda>i. rd_declared rd (fs ! i) \<noteq> None"
  have parts: "mset (filter ?d band) + mset (filter (\<lambda>i. rd_declared rd (fs ! i) = None) band) = mset band"
    by (induction band) auto
  have later: "mset (filter Q xs) + mset (filter (\<lambda>i. i \<notin> set (sort_key_desc key (filter Q xs))) xs) = mset xs"
    for Q xs and key :: "nat \<Rightarrow> datetime"
  proof -
    have "filter (\<lambda>i. i \<notin> set (sort_key_desc key (filter Q xs))) xs = filter (\<lambda>i. \<not> Q i) xs"
      by (auto intro: filter_cong)
    then show ?thesis by simp
  qed
  show ?thesis
    using parts later[of "\<lambda>i. Max ((\<lambda>i. fr_created (fs ! i)) ` set (filter ?d band)) < fr_created (fs ! i)"
        "filter (\<lambda>i. rd_declared rd (fs ! i) = None) band" "\<lambda>i. fr_created (fs ! i)"]
    unfolding order_band_def Let_def
    by (auto simp: add.commute add.left_commute simp del: mset_filter)
qed

lemma asked_band_filter: "\<exists>P. asked_band rd q fs = filter P [0..<length fs]"
proof -
  have "\<exists>P. [] = filter P [0..<length fs]" by (rule exI[of _ "\<lambda>i. False"]) simp
  then show ?thesis unfolding asked_band_def Let_def filter_filter by (auto split: if_splits)
qed

lemma length_running_min [simp]: "length (running_min m ss) = length ss"
  by (induction m ss rule: running_min.induct) simp_all

interpretation temporal: order_stage "temporal_order rd q"
proof
  fix rs :: "result list"
  let ?b = "order_band rd (map fst rs) (asked_band rd q (map fst rs)) (rd_intent rd = CurrentIntent)"
  obtain P where "asked_band rd q (map fst rs) = filter P [0..<length rs]"
    using asked_band_filter[of rd q "map fst rs"] by auto
  then have b: "mset ?b = mset (filter P [0..<length rs])" by (simp add: order_band_perm)
  have perm: "mset (?b @ filter (\<lambda>i. i \<notin> set ?b) [0..<length rs]) = mset [0..<length rs]"
    using block_perm[OF b refl, of 0] by simp
  then have "length rs = length ?b + length (filter (\<lambda>i. i \<notin> set ?b) [0..<length rs])"
    by (metis length_append length_upt minus_nat.diff_0 size_mset)
  with stage_pairs[OF perm] show "mset (map shown_pair (temporal_order rd q rs)) = mset (map shown_pair rs)"
    by (simp add: temporal_order_def Let_def)
qed

lemma length_sorted_scores: "length (rev (sort (map res_score rs))) = length rs"
  by simp

lemma apply_order_pairs: "mset order = mset [0..<length rs] \<Longrightarrow> mset (map shown_pair (apply_order order rs)) = mset (map shown_pair rs)"
  unfolding apply_order_def by (rule stage_pairs) simp_all

lemma move_before_perm: "fst p \<in> set order \<Longrightarrow> mset (move_before p order) = mset order"
proof -
  have "mset (insert_at n a xs) = add_mset a (mset xs)" for n and a :: nat and xs
    unfolding insert_at_def by (metis append_take_drop_id mset.simps(2) mset_append union_mset_add_mset_right)
  moreover assume "fst p \<in> set order"
  ultimately show ?thesis by (auto simp: move_before_def Let_def split: prod.split)
qed

lemma moves_perm: "fst ` set ps \<subseteq> set order \<Longrightarrow> mset (fold move_before ps order) = mset order"
proof (induction ps arbitrary: order)
  case (Cons p ps)
  have m: "mset (move_before p order) = mset order" using Cons.prems by (intro move_before_perm) simp
  with Cons.IH[of "move_before p order"] Cons.prems show ?case using mset_eq_setD[OF m] by simp
qed simp

interpretation supersession: order_stage "\<lambda>rs. fst (order_by_supersession rd rs)"
proof
  fix rs :: "result list"
  let ?fs = "map fst rs" and ?o = "rd_intent rd = OriginalIntent"
  have moves: "fold (\<lambda>(new, old). move_before (if ?o then (old, new) else (new, old))) ps xs
    = fold move_before (map (\<lambda>(new, old). if ?o then (old, new) else (new, old)) ps) xs" for ps xs
    by (simp add: fold_map comp_def case_prod_unfold)
  have "fst ` set (map (\<lambda>(new, old). if ?o then (old, new) else (new, old)) (supersession_pairs rd ?fs)) \<subseteq> set [0..<length rs]"
    by (auto simp: supersession_pairs_def split: if_splits)
  from moves_perm[OF this] have "mset (fold (\<lambda>(new, old). move_before (if ?o then (old, new) else (new, old)))
      (supersession_pairs rd ?fs) [0..<length rs]) = mset [0..<length rs]"
    by (simp only: moves)
  from apply_order_pairs[OF this]
  show "mset (map shown_pair (fst (order_by_supersession rd rs))) = mset (map shown_pair rs)"
    by (simp add: order_by_supersession_def Let_def)
qed

definition band_stage :: "reading \<Rightarrow> result list \<Rightarrow> result list" where
  "band_stage rd rs = (case state_band rd (map fst rs) of None \<Rightarrow> rs | Some b \<Rightarrow> apply_band b rs)"

lemma state_band_perm: "state_band rd fs = Some b \<Longrightarrow> mset (sc_order b) = mset [0..<length fs]"
proof -
  assume b: "state_band rd fs = Some b"
  then obtain member where m: "rd_member rd = Some member" by (auto simp: state_band_def split: option.splits)
  define P where "P i \<longleftrightarrow> member (fr_content (fs ! i)) \<and> \<not> list_ex (\<lambda>t. t \<in> set (fr_tags (fs ! i))) LOW_TRUST_TAGS" for i
  define band where "band = filter P [0..<length fs]"
  define order where "order = order_band rd fs band True"
  define c where "c = (if rd_intent rd = OriginalIntent then rev order else order)"
  have "\<exists>n. sc_order b = take n (filter (\<lambda>i. i \<notin> set band) [0..<length fs]) @ c @ drop n (filter (\<lambda>i. i \<notin> set band) [0..<length fs])"
    using b unfolding state_band_def m option.case Let_def P_def[symmetric] band_def[symmetric] order_def[symmetric] c_def[symmetric]
    by (auto split: if_splits)
  moreover have c: "mset c = mset (filter P [0..<length fs])" by (simp add: c_def order_def order_band_perm band_def)
  moreover have "set band = set c" using c by (metis band_def set_mset_mset)
  ultimately show ?thesis using block_perm[OF c] by metis
qed

interpretation band: order_stage "band_stage rd"
proof
  fix rs :: "result list"
  show "mset (map shown_pair (band_stage rd rs)) = mset (map shown_pair rs)"
  proof (cases "state_band rd (map fst rs)")
    case (Some b)
    from state_band_perm[OF this] have "mset (sc_order b) = mset [0..<length rs]" by simp
    from stage_pairs[OF this] show ?thesis by (simp add: band_stage_def Some apply_band_def)
  qed (simp add: band_stage_def)
qed

lemma fst_if: "(A \<Longrightarrow> P (fst x)) \<Longrightarrow> (\<not> A \<Longrightarrow> P (fst y)) \<Longrightarrow> P (fst (if A then x else y))"
  by simp

interpretation facts: order_stage "\<lambda>rs. fst (order_by_fact_agreement rd vals rs)"
proof
  fix rs :: "result list"
  let ?P = "\<lambda>ys. mset (map shown_pair ys) = mset (map shown_pair rs)"
  have moved: "?P (apply_order (take n (filter (\<lambda>i. i \<notin> set (filter P [0..<length rs])) [0..<length rs])
      @ filter P [0..<length rs] @ drop n (filter (\<lambda>i. i \<notin> set (filter P [0..<length rs])) [0..<length rs])) rs)" for n P
    by (rule apply_order_pairs, rule block_perm) simp_all
  show "?P (fst (order_by_fact_agreement rd vals rs))"
    unfolding order_by_fact_agreement_def Let_def
    by (rule fst_if[where P = ?P], simp only: fst_conv, rule fst_if[where P = ?P]) (simp_all only: fst_conv moved)
qed

section \<open>The shown list\<close>

lemma order_states_pairs: "mset (map shown_pair (rp_results (order_states rd q rs))) = mset (map shown_pair rs)"
proof -
  let ?s = "\<lambda>ys. fst (order_by_supersession rd ys)"
  have "rp_results (order_states rd q rs)
    = (if rd_dated rd then temporal_order rd q rs else band_stage rd (?s (temporal_order rd q rs)))"
    by (simp add: order_states_def band_stage_def Let_def split: prod.split option.split)
  then show ?thesis using temporal.keeps_pairs band.keeps_pairs supersession.keeps_pairs by (simp del: mset_map)
qed

lemma order_facts_pairs: "mset (map shown_pair (rp_results (order_facts rd vals p))) = mset (map shown_pair (rp_results p))"
  using facts.keeps_pairs[of rd "vals (map fst (rp_results p))" "rp_results p"]
  by (cases "order_by_fact_agreement rd (vals (map fst (rp_results p))) (rp_results p)")
    (simp add: order_facts_def Let_def del: mset_map)

lemma display_scores_fst [simp]: "map fst (display_scores rs) = map fst rs"
  by (induction rs rule: display_scores.induct) (simp_all add: Let_def)

abbreviation descending :: "result list \<Rightarrow> bool" where
  "descending rs \<equiv> sorted_wrt (\<ge>) (map res_shown rs)"

lemma display_scores_descending: "descending (display_scores rs)"
proof (induction rs rule: display_scores.induct)
  case (2 f s rel rs)
  then show ?case
    by (cases "display_scores rs") (auto simp: Let_def le_max_iff_disj)
qed simp

lemma length_sorted_restamp: "map fst (restamp (rev (sort (map res_score rs))) ys) = map fst ys"
  if "length ys = length rs"
  using arg_cong[OF restamp_pairs[of ys "rev (sort (map res_score rs))"], of "map fst"] that by (simp add: comp_def)

lemma demote_outdated_fragments: "mset (map fst (demote_outdated old rs)) = mset (map fst rs)"
proof -
  let ?m = "map (\<lambda>(f, s, rel). (f, s, if fr_id f \<in> set old then rel * OUTDATED_FACTOR else rel)) rs"
  have "map fst ?m = map fst rs" by (simp add: case_prod_unfold comp_def)
  moreover have "mset (map fst (sort_key (\<lambda>r. - res_shown r) ?m)) = mset (map fst ?m)" by (simp only: mset_map mset_sort)
  ultimately have m: "mset (map fst (sort_key (\<lambda>r. - res_shown r) ?m)) = mset (map fst rs)" by (simp only:)
  have "length (sort_key (\<lambda>r. - res_shown r) ?m) = length rs" by simp
  from length_sorted_restamp[OF this] m show ?thesis unfolding demote_outdated_def by (simp only: split: if_split) simp
qed

lemma demote_outdated_descending: "descending rs \<Longrightarrow> descending (demote_outdated old rs)"
proof -
  assume d: "descending rs"
  let ?m = "map (\<lambda>(f, s, rel). (f, s, if fr_id f \<in> set old then rel * OUTDATED_FACTOR else rel)) rs"
  have "sorted (map (\<lambda>r. - res_shown r) (sort_key (\<lambda>r. - res_shown r) ?m))" by simp
  then have "descending (sort_key (\<lambda>r. - res_shown r) ?m)"
    unfolding sorted_wrt_map by (rule sorted_wrt_mono_rel[rotated]) simp
  then show ?thesis using d
    by (simp add: demote_outdated_def restamp_shown)
qed

lemma pick_filter_subseq: "subseq (pick xs (filter P [0..<length xs])) xs"
  unfolding pick_def by (rule subseq_map_filter_nth)

lemma descending_subseq: "subseq ys xs \<Longrightarrow> descending xs \<Longrightarrow> descending ys"
  by (induction rule: list_emb.induct) (auto dest: subseq_set_mono)

lemma set_pick_filter: "set (pick xs (filter P [0..<length xs])) = {xs ! i |i. i < length xs \<and> P i}"
  by (auto simp: pick_def)

lemma apply_floor_pick:
  obtains P where "apply_floor rd ts rs = pick rs (filter P [0..<length rs])"
    "\<And>i. PINNED \<le> fr_importance (fst (rs ! i)) \<Longrightarrow> P i" "\<not> ts \<Longrightarrow> P 0"
proof (cases rs)
  case Nil
  then show thesis using that[of "\<lambda>i. True"] by (simp add: apply_floor_def pick_def)
next
  case (Cons best others)
  show thesis
  proof (cases "ts \<and> rd_listing rd")
    case True
    then have "apply_floor rd ts rs = pick rs (filter (\<lambda>i. True) [0..<length rs])"
      using map_nth[of rs] by (simp add: apply_floor_def Cons pick_def del: upt_Suc)
    then show thesis using that[of "\<lambda>i. True"] by simp
  next
    case False
    then have "apply_floor rd ts rs = (let least = (if ts then TIME_SCOPED_FLOOR else ABSOLUTE_FLOOR);
        bound = max least (RELATIVE_FLOOR * res_shown best);
        clear = (\<lambda>i. res_shown (rs ! i) \<ge> bound \<or> (i = 0 \<and> \<not> ts) \<or> fr_importance (fst (rs ! i)) \<ge> PINNED);
        parts = (\<lambda>i. rd_unit rd (fr_content (fst (rs ! i))));
        units = filter (\<lambda>w. w \<noteq> None) (map parts (filter clear [0..<length rs]))
      in pick rs (filter (\<lambda>i. clear i \<or> (res_shown (rs ! i) \<ge> least \<and> parts i \<in> set units)) [0..<length rs]))"
      by (simp only: Cons apply_floor_def list.case if_False)
    then show thesis by (intro that) (simp only: Let_def, simp, simp)
  qed
qed

lemma apply_floor_subseq: "subseq (apply_floor rd ts rs) rs"
  by (rule apply_floor_pick[of rd ts rs]) (simp only: pick_filter_subseq)

lemma apply_floor_keeps:
  "r \<in> set rs \<Longrightarrow> fr_importance (fst r) \<ge> PINNED \<Longrightarrow> r \<in> set (apply_floor rd ts rs)"
  "\<not> ts \<Longrightarrow> rs \<noteq> [] \<Longrightarrow> rs ! 0 \<in> set (apply_floor rd ts rs)"
proof -
  obtain P where P: "apply_floor rd ts rs = pick rs (filter P [0..<length rs])"
    "\<And>i. PINNED \<le> fr_importance (fst (rs ! i)) \<Longrightarrow> P i" "\<not> ts \<Longrightarrow> P 0"
    by (rule apply_floor_pick[of rd ts rs]) blast
  show "r \<in> set rs \<Longrightarrow> fr_importance (fst r) \<ge> PINNED \<Longrightarrow> r \<in> set (apply_floor rd ts rs)"
    unfolding P(1) set_pick_filter in_set_conv_nth using P(2) by blast
  show "\<not> ts \<Longrightarrow> rs \<noteq> [] \<Longrightarrow> rs ! 0 \<in> set (apply_floor rd ts rs)"
    unfolding P(1) set_pick_filter using P(3) by blast
qed

definition before_floor ::
  "reading \<Rightarrow> question \<Rightarrow> (fragment list \<Rightarrow> ustr list \<times> ustr list) \<Rightarrow> result list \<Rightarrow> result list" where
  "before_floor rd q vals rs =
     (let p = order_facts rd vals (order_states rd q rs); shown = display_scores (rp_results p)
      in if rd_intent rd = OriginalIntent then shown else demote_outdated (rp_outdated p) shown)"

lemma before_floor_ok:
  "mset (map fst (before_floor rd q vals rs)) = mset (map fst rs)" "descending (before_floor rd q vals rs)"
proof -
  let ?p = "order_facts rd vals (order_states rd q rs)"
  have "mset (map shown_pair (rp_results ?p)) = mset (map shown_pair rs)"
    by (simp only: order_facts_pairs order_states_pairs)
  then have "image_mset fst (mset (map shown_pair (rp_results ?p))) = image_mset fst (mset (map shown_pair rs))"
    by (simp only:)
  then have "mset (map fst (rp_results ?p)) = mset (map fst rs)" by (simp add: multiset.map_comp comp_def)
  moreover have "mset (map fst (before_floor rd q vals rs)) = mset (map fst (rp_results ?p))"
    by (simp only: before_floor_def Let_def demote_outdated_fragments display_scores_fst split: if_split) simp
  ultimately show "mset (map fst (before_floor rd q vals rs)) = mset (map fst rs)" by simp
  show "descending (before_floor rd q vals rs)"
    by (simp add: before_floor_def Let_def display_scores_descending demote_outdated_descending)
qed

lemma order_results_floor:
  "rp_results (order_results rd q vals ts rs) = apply_floor rd ts (before_floor rd q vals rs)"
  by (simp add: order_results_def before_floor_def Let_def)

lemma subseq_mset: "subseq xs ys \<Longrightarrow> mset xs \<subseteq># mset ys"
  by (induction rule: list_emb.induct) (auto intro: subset_mset.order_trans)

text \<open>C23: the order stages never invent, repeat or silently lose a memory: they permute the
  results, the shown scores never increase down the list, the relevance floor only drops
  memories that are not pinned, the list is not emptied unless a time window was asked for, and
  every id flagged as outdated is in the list.\<close>

theorem ordering_is_honest:
  "let p = order_results rd q vals time_scoped rs
   in descending (rp_results p) \<and> mset (map fst (rp_results p)) \<subseteq># mset (map fst rs)
      \<and> list_all (\<lambda>f. f \<in> fst ` set (rp_results p)) (filter (\<lambda>f. fr_importance f \<ge> PINNED) (map fst rs))
      \<and> (if time_scoped then True else (rp_results p = []) = (rs = []))
      \<and> list_all (\<lambda>i. i \<in> set (result_ids (rp_results p))) (rp_outdated p)"
proof -
  let ?x = "before_floor rd q vals rs"
  let ?final = "apply_floor rd time_scoped ?x"
  have sub: "subseq ?final ?x" by (rule apply_floor_subseq)
  have frs: "mset (map fst ?x) = mset (map fst rs)" by (rule before_floor_ok)
  have set: "fst ` set ?x = fst ` set rs" using mset_eq_setD[OF frs] by simp
  have "mset (map fst ?final) \<subseteq># mset (map fst ?x)" by (rule subseq_mset, rule subseq_map[OF sub])
  moreover have "list_all (\<lambda>f. f \<in> fst ` set ?final) (filter (\<lambda>f. fr_importance f \<ge> PINNED) (map fst rs))"
  proof (clarsimp simp: list_all_iff)
    fix f s rel assume f: "(f, s, rel) \<in> set rs" "PINNED \<le> fr_importance f"
    from f(1) have "f \<in> fst ` set rs" by (rule image_eqI[rotated]) simp
    then obtain r where "r \<in> set ?x" "f = fst r" unfolding set[symmetric] by (elim imageE)
    with apply_floor_keeps(1)[of r ?x rd time_scoped] f(2) show "f \<in> fst ` set ?final" by simp
  qed
  moreover have "(?final = []) = (rs = [])" if "\<not> time_scoped"
    using apply_floor_keeps(2)[OF that, of ?x rd] sub set by (cases "?x = []") auto
  moreover have "list_all (\<lambda>i. i \<in> set (result_ids ?final)) (rp_outdated (order_results rd q vals time_scoped rs))"
    by (simp add: order_results_floor[symmetric]) (simp add: order_results_def Let_def list_all_iff)
  ultimately show ?thesis
    unfolding Let_def order_results_floor using frs descending_subseq[OF sub before_floor_ok(2)] by simp
qed

section \<open>Hops stay in scope\<close>

lemma position_less: "x \<in> set xs \<Longrightarrow> position x xs < length xs \<and> xs ! position x xs = x"
  unfolding position_def by (induction xs) auto

lemma mset_insert_at: "mset (insert_at n x xs) = add_mset x (mset xs)"
  unfolding insert_at_def by (metis append_take_drop_id mset.simps(2) mset_append union_mset_add_mset_right)

lemma mset_without: "n < length xs \<Longrightarrow> mset xs = add_mset (xs ! n) (mset (take n xs @ drop (Suc n) xs))"
  by (subst id_take_nth_drop[of n xs]) simp_all

lemma result_ids_mset: "mset (result_ids xs) = image_mset fr_id (mset (map fst xs))"
  by (simp add: result_ids_def multiset.map_comp comp_def)

lemma place_after_cases:
  assumes "fr_id source \<in> set (result_ids out)"
  shows "place_after q k mv shown ev source c out = Some (out, False)
    \<or> (let n = position (fr_id c) (result_ids out) in fr_id c \<in> set (result_ids out)
        \<and> (\<exists>m x. place_after q k mv shown ev source c out
             = Some (insert_at m (fst (out ! n), x) (take n out @ drop (Suc n) out), True)))
    \<or> fr_id c \<notin> set (result_ids out) \<and> (\<exists>m x. place_after q k mv shown ev source c out = Some (insert_at m (c, x) out, True))"
  using assms unfolding place_after_def Let_def by (simp only: if_True if_False not_True_eq_False split: if_split) blast

lemma place_after_fragments:
  assumes "fr_id source \<in> set (result_ids out)"
  obtains out' b where "place_after q k mv shown ev source c out = Some (out', b)" "b \<longrightarrow> fr_id c \<in> set (result_ids out')"
    "mset (map fst out') = mset (map fst out)
     \<or> fr_id c \<notin> set (result_ids out) \<and> mset (map fst out') = add_mset c (mset (map fst out))"
proof (cases "fr_id c \<in> set (result_ids out)")
  case True
  let ?n = "position (fr_id c) (result_ids out)"
  from position_less[OF True] have n: "?n < length out" "fr_id (fst (out ! ?n)) = fr_id c" by (auto simp: result_ids_def)
  have same: "mset (map fst (insert_at m (fst (out ! ?n), x) (take ?n out @ drop (Suc ?n) out))) = mset (map fst out)" for m x
    by (subst (2) mset_map, subst mset_without[OF n(1)]) (simp add: mset_insert_at)
  have "fr_id c \<in> set (result_ids xs)" if "mset (map fst xs) = mset (map fst out)" for xs
  proof -
    have "mset (result_ids xs) = mset (result_ids out)" by (simp only: result_ids_mset that)
    then show ?thesis using True by (metis set_mset_mset)
  qed
  with place_after_cases[OF assms, of q k mv shown ev c] True same show thesis
    by (simp only: Let_def not_True_eq_False simp_thms) (metis that)
next
  case False
  have new: "mset (map fst (insert_at m (c, x) out)) = add_mset c (mset (map fst out))" for m x
    by (simp add: mset_insert_at)
  have mem: "fr_id c \<in> set (result_ids (insert_at m (c, x) out))" for m x
    by (simp add: insert_at_def result_ids_def)
  from place_after_cases[OF assms, of q k mv shown ev c] False new mem show thesis
    by (simp only: Let_def simp_thms) (metis that)
qed

text \<open>The results satisfy \<open>ok\<close>, no memory twice, the ids \<open>I\<close> among them.\<close>

definition hop_ok :: "(fragment \<Rightarrow> bool) \<Rightarrow> ustr set \<Rightarrow> result list \<Rightarrow> bool" where
  "hop_ok ok ids out \<longleftrightarrow> (\<forall>f\<in>fst ` set out. ok f) \<and> distinct (result_ids out) \<and> ids \<subseteq> set (result_ids out)"

lemma hop_ok_mono: "hop_ok ok ids out \<Longrightarrow> ids' \<subseteq> ids \<Longrightarrow> hop_ok ok ids' out"
  by (auto simp: hop_ok_def)

lemma hop_ok_take: "hop_ok ok ids out \<Longrightarrow> hop_ok ok {} (take n out)"
  by (auto simp: hop_ok_def result_ids_def take_map[symmetric] dest: in_set_takeD)

lemma hop_ok_mset: "mset (map fst out') = mset (map fst out) \<Longrightarrow> hop_ok ok ids out' = hop_ok ok ids out"
proof -
  assume m: "mset (map fst out') = mset (map fst out)"
  have ids: "mset (result_ids out') = mset (result_ids out)" by (simp only: result_ids_mset m)
  show ?thesis
    using mset_eq_setD[OF m] mset_eq_setD[OF ids] mset_eq_imp_distinct_iff[OF ids] by (simp add: hop_ok_def)
qed

lemma hop_ok_add:
  assumes "mset (map fst out') = add_mset c (mset (map fst out))" "fr_id c \<notin> set (result_ids out)" "ok c" "hop_ok ok ids out"
  shows "hop_ok ok ids out'"
proof -
  have "mset (map fst out') = mset (map fst ((c, 0, 0) # out))" using assms(1) by simp
  from hop_ok_mset[OF this] show ?thesis using assms(2-4) by (auto simp: hop_ok_def result_ids_def)
qed

lemma place_after_hop:
  assumes "hop_ok ok ids out" "fr_id source \<in> ids" "ok c"
  obtains out' b where "place_after q k mv shown ev source c out = Some (out', b)" "hop_ok ok ids out'"
    "b \<longrightarrow> fr_id c \<in> set (result_ids out')"
proof -
  have "fr_id source \<in> set (result_ids out)" using assms(1,2) by (auto simp: hop_ok_def)
  then show thesis
    by (rule place_after_fragments[of source out q k mv shown ev c]) (metis that hop_ok_mset hop_ok_add assms(1,3))
qed

text \<open>What the client of a lookup relies on: the lookups return memories in scope.\<close>

locale bridge_lookup =
  fixes lookup :: "ustr \<Rightarrow> fragment list" and ok :: "fragment \<Rightarrow> bool"
  assumes lookup_ok: "f \<in> set (lookup e) \<Longrightarrow> ok f"
begin

lemma place_all_hop:
  assumes "hop_ok ok ids out" "fr_id source \<in> ids" "\<forall>c\<in>set cs. ok c"
  shows "\<exists>out' placed. place_all q k mv shown ev source cs out = Some (out', placed)
    \<and> hop_ok ok (ids \<union> fr_id ` set placed) out'"
  using assms
proof (induction cs arbitrary: ids out)
  case (Cons c cs)
  from Cons.prems(3) have "ok c" by simp
  obtain out1 b where 1: "place_after q k mv shown ev source c out = Some (out1, b)" "hop_ok ok ids out1"
      "b \<longrightarrow> fr_id c \<in> set (result_ids out1)"
    by (rule place_after_hop[OF Cons.prems(1,2) \<open>ok c\<close>])
  let ?ids = "if b then insert (fr_id c) ids else ids"
  have "hop_ok ok ?ids out1" "fr_id source \<in> ?ids" "\<forall>c\<in>set cs. ok c"
    using 1(2,3) Cons.prems(2,3) by (auto simp: hop_ok_def)
  from Cons.IH[OF this] obtain out' placed
    where "place_all q k mv shown ev source cs out1 = Some (out', placed)" "hop_ok ok (?ids \<union> fr_id ` set placed) out'"
    by blast
  note rest = this
  have "ids \<union> fr_id ` set ((if b then [c] else []) @ placed) \<subseteq> ?ids \<union> fr_id ` set placed" by auto
  from hop_ok_mono[OF rest(2) this] show ?case by (simp add: 1(1) rest(1))
qed simp

lemma hop_entities_ok:
  assumes "hop_ok ok (ids \<union> fr_id ` fst ` set (hs_reached st)) (hs_out st)" "fr_id source \<in> ids"
  shows "\<exists>st'. hop_entities rd q lookup k source ev es st = Some st' \<and> hop_ok ok (ids \<union> fr_id ` fst ` set (hs_reached st')) (hs_out st')"
  using assms
proof (induction es arbitrary: st)
  case (Cons e es)
  let ?I = "ids \<union> fr_id ` fst ` set (hs_reached st)"
  have "fr_id source \<in> ?I" "\<forall>c\<in>set (lookup e). ok c" using Cons.prems(2) lookup_ok by simp_all
  from place_all_hop[OF Cons.prems(1) this] obtain out placed where p: "place_all q k True None (ev * HOP_EVIDENCE) source (lookup e) (hs_out st) = Some (out, placed)"
      "hop_ok ok (?I \<union> fr_id ` set placed) out"
    by blast
  let ?st = "st\<lparr>hs_seen := e # hs_seen st, hs_bridges := Suc (hs_bridges st),
    hs_reached := hs_reached st @ map (\<lambda>c. (c, ev * HOP_EVIDENCE)) placed, hs_out := out\<rparr>"
  have "fst ` set (hs_reached ?st) = fst ` set (hs_reached st) \<union> set placed" by (auto simp: image_Un image_image)
  then have "hop_ok ok (ids \<union> fr_id ` fst ` set (hs_reached ?st)) (hs_out ?st)" using p(2) by (simp add: image_Un Un_assoc)
  from Cons.IH[OF this Cons.prems(2)] Cons.IH[OF Cons.prems] Cons.prems(1) show ?case by (simp add: p(1) Let_def)
qed simp

lemma hop_sources_ok:
  assumes "hop_ok ok (ids \<union> fr_id ` fst ` set (hs_reached st)) (hs_out st)" "fr_id ` fst ` set ss \<subseteq> ids"
  shows "\<exists>st'. hop_sources rd q lookup k ss st = Some st' \<and> hop_ok ok (ids \<union> fr_id ` fst ` set (hs_reached st')) (hs_out st')"
  using assms
proof (induction ss arbitrary: st)
  case (Cons s ss)
  obtain source ev where s: "s = (source, ev)" by fastforce
  have "fr_id source \<in> ids" using Cons.prems(2) by (simp add: s)
  from hop_entities_ok[OF Cons.prems(1) this, of rd q k ev "rd_entities rd (fr_content source)"] obtain st1 where 1: "hop_entities rd q lookup k source ev (rd_entities rd (fr_content source)) st = Some st1"
    and "hop_ok ok (ids \<union> fr_id ` fst ` set (hs_reached st1)) (hs_out st1)"
    by blast
  from Cons.IH[OF this(2)] Cons.prems(2) show ?case by (auto simp: s 1)
qed simp

lemma hop_rounds_ok:
  assumes "hop_ok ok ids out" "fr_id ` fst ` set ss \<subseteq> ids"
  shows "\<exists>out'. hop_rounds rd q lookup k n ss seen out = Some out' \<and> hop_ok ok {} out'"
  using assms
proof (induction n arbitrary: ids ss seen out)
  case (Suc n)
  let ?st = "\<lparr>hs_seen = seen, hs_bridges = 0, hs_reached = [], hs_out = out\<rparr>"
  obtain st where st: "hop_sources rd q lookup k ss ?st = Some st"
      "hop_ok ok (ids \<union> fr_id ` fst ` set (hs_reached st)) (hs_out st)"
    using hop_sources_ok[of ids ?st ss rd q k] Suc.prems by auto
  have "fr_id ` fst ` set (take MAX_SOURCES (hs_reached st)) \<subseteq> ids \<union> fr_id ` fst ` set (hs_reached st)"
    by (auto dest!: in_set_takeD)
  from Suc.IH[OF st(2) this] show ?case using st hop_ok_mono[OF st(2) empty_subsetI] by auto
qed (simp add: hop_ok_mono[OF _ empty_subsetI])

lemma multi_hop_ok:
  assumes "hop_ok ok {} rs"
  shows "\<exists>out. multi_hop rd q lookup k hops rs = Some out \<and> hop_ok ok {} out"
proof -
  let ?ss = "map (\<lambda>(f, s, r). (f, r)) (filter (\<lambda>(f, s, r).
    list_ex (anchor_present rd (rd_norm_of rd (fr_content f))) (rd_gap_anchors rd)) (take MAX_SOURCES rs))"
  have "hop_ok ok (set (result_ids rs)) rs" using assms by (simp add: hop_ok_def)
  moreover have "fr_id ` fst ` set ?ss \<subseteq> set (result_ids rs)" by (force simp: result_ids_def dest: in_set_takeD)
  ultimately have "\<exists>out. hop_rounds rd q lookup k hops ?ss [] rs = Some out \<and> hop_ok ok {} out"
    by (rule hop_rounds_ok)
  then obtain out where "hop_rounds rd q lookup k hops ?ss [] rs = Some out" "hop_ok ok {} out" by blast
  then show ?thesis using assms hop_ok_take[of ok "{}" out k] by (simp add: multi_hop_def)
qed

lemma place_lookups_ok:
  assumes "hop_ok ok ids out" "fr_id source \<in> ids" "\<forall>cs\<in>set css. \<forall>c\<in>set cs. ok c"
  shows "\<exists>out'. place_lookups q k source rel css out = Some out' \<and> hop_ok ok ids out'"
  using assms
proof (induction css arbitrary: out)
  case (Cons cs css)
  then obtain out1 placed where 1: "place_all q k False (Some rel) 1 source cs out = Some (out1, placed)"
      "hop_ok ok (ids \<union> fr_id ` set placed) out1"
    using place_all_hop[of ids out source cs q k False "Some rel" 1] by auto
  from Cons.IH[OF hop_ok_mono[OF 1(2)]] Cons.prems show ?case by (auto simp: 1(1))
qed simp

lemma pull_sources_ok:
  assumes "hop_ok ok ids out" "fr_id ` fst ` set ss \<subseteq> ids"
  shows "\<exists>out'. pull_sources rd q lookup k ss out = Some out' \<and> hop_ok ok ids out'"
  using assms
proof (induction ss arbitrary: out)
  case (Cons s ss)
  obtain source sc rel where s: "s = (source, sc, rel)" by (cases s) auto
  let ?css = "map (\<lambda>e. filter (\<lambda>c. rd_is_update rd (fr_content c) \<and> supersedes rd c source) (lookup e)) (bridge_values rd q source)"
  obtain out1 where 1: "place_lookups q k source rel ?css out = Some out1" "hop_ok ok ids out1"
    using place_lookups_ok[OF Cons.prems(1), of source ?css q k rel] Cons.prems(2) lookup_ok by (auto simp: s)
  from Cons.IH[OF 1(2)] Cons.IH[OF Cons.prems(1)] Cons.prems(2) show ?case by (auto simp: s 1(1))
qed simp

lemma pull_superseders_ok:
  assumes "hop_ok ok {} rs"
  shows "\<exists>out. pull_superseders rd q lookup k rs = Some out \<and> hop_ok ok {} out"
proof -
  have "hop_ok ok (set (result_ids rs)) rs" using assms by (simp add: hop_ok_def)
  moreover have "fr_id ` fst ` set (take SUPERSEDER_SOURCES rs) \<subseteq> set (result_ids rs)"
    by (force simp: result_ids_def dest: in_set_takeD)
  ultimately have "\<exists>out. pull_sources rd q lookup k (take SUPERSEDER_SOURCES rs) rs = Some out \<and> hop_ok ok (set (result_ids rs)) out"
    by (rule pull_sources_ok)
  then obtain out where 1: "pull_sources rd q lookup k (take SUPERSEDER_SOURCES rs) rs = Some out"
      "hop_ok ok (set (result_ids rs)) out"
    by blast
  have out: "hop_ok ok (set (result_ids out)) out" using 1(2) by (simp add: hop_ok_def)
  have "\<exists>out'. pull_unnamed_updates rd q lookup k out = Some out' \<and> hop_ok ok {} out'"
  proof (cases "rd_member rd")
    case (Some member)
    show ?thesis
    proof (cases "find (\<lambda>r. member (fr_content (fst r))) out")
      case None
      then show ?thesis using hop_ok_mono[OF out] by (simp add: pull_unnamed_updates_def Some)
    next
      case found: (Some r)
      obtain source s rel where r: "r = (source, s, rel)" by (cases r) auto
      from found have "r \<in> set out" by (auto simp: find_Some_iff)
      then have src: "fr_id source \<in> set (result_ids out)" by (force simp: r result_ids_def)
      let ?css = "map (\<lambda>w. filter (\<lambda>c. fr_id c \<noteq> fr_id source \<and> rd_is_update rd (fr_content c) \<and> member (fr_content c)
        \<and> event_time rd c > event_time rd source) (lookup w)) (rd_lookups rd)"
      have "\<forall>cs\<in>set ?css. \<forall>c\<in>set cs. ok c" using lookup_ok by auto
      from place_lookups_ok[OF out src this, of q k rel]
      obtain out' where "place_lookups q k source rel ?css out = Some out'" "hop_ok ok (set (result_ids out)) out'" by blast
      with hop_ok_mono[OF out empty_subsetI] hop_ok_mono[OF this(2) empty_subsetI] show ?thesis
        by (simp add: pull_unnamed_updates_def Some found r)
    qed
  qed (use hop_ok_mono[OF out] in \<open>simp add: pull_unnamed_updates_def\<close>)
  then show ?thesis using assms 1 by (auto simp: pull_superseders_def hop_ok_take)
qed

end

interpretation lookup_store: bridge_lookup "lookup_bridge rd q lexical (store_fetch P now db) allowed" "\<lambda>f. fr_id f \<in> allowed"
proof
  fix f e assume "f \<in> set (lookup_bridge rd q lexical (store_fetch P now db) allowed e)"
  then have "\<exists>i s. (i, s) \<in> set (lexical_search (lexical e LOOKUP_DEPTH) allowed)
      \<and> map_of (store_fetch P now db (map fst (lexical_search (lexical e LOOKUP_DEPTH) allowed))) i = Some f"
    by (force simp: lookup_bridge_def Let_def List.map_filter_def dest!: in_set_takeD)
  then show "fr_id f \<in> allowed" using store.fetched by (fastforce simp: lexical_search_def)
qed

section \<open>The first results\<close>

definition scope_ok :: "vector_index \<Rightarrow> ustr \<Rightarrow> ustr set \<Rightarrow> ustr set option \<Rightarrow> bool" where
  "scope_ok ix agent allowed scope \<longleftrightarrow>
     (case scope of Some s \<Rightarrow> s = allowed
      | None \<Rightarrow> set (index_ids ix (Some agent)) \<subseteq> allowed)"

lemma search_ids:
  assumes "parts_ok ix" "index_search v k m inc a ix = Inr hs" "(f, s, c) \<in> set hs"
  shows "included inc f" "\<exists>p\<in>set (searched ix a). f \<in> fst ` set (part_items p)"
proof -
  have "\<exists>s. (s, f) \<in> set (scored_items (concat (map part_items (searched ix a))) (normalize_vec v) inc)"
    using assms(2,3) unfolding search_reference[OF assms(1)] reference_search_def
    by (auto simp: best_hits_def split: if_splits dest!: in_set_takeD) blast
  then show "included inc f" "\<exists>p\<in>set (searched ix a). f \<in> fst ` set (part_items p)"
    by (force simp: scored_items_def)+
qed

lemma vector_search_scope:
  assumes "parts_ok ix" "parts_ok rebuilt" "scope_ok ix agent allowed scope"
  shows "fst ` set (vector_search ix rebuilt v agent allowed scope depth) \<subseteq> allowed"
proof -
  have 1: "f \<in> allowed" if "index_search w k m scope (Some agent) ix = Inr hs" "(f, s, c) \<in> set hs" for w k m hs f s c
  proof (cases scope)
    case None
    from search_ids(2)[OF assms(1) that] obtain p where p: "map_of (vi_parts ix) (Some agent) = Some p" "f \<in> fst ` set (part_items p)"
      by (cases "map_of (vi_parts ix) (Some agent)") (auto simp: searched_def)
    from p(2) have "f \<in> set (part_ids p)" by (simp add: pt.ids_items[OF parts_okD[OF assms(1) p(1)]])
    then show ?thesis using assms(3) None p(1) by (auto simp: scope_ok_def index_ids_def)
  qed (use search_ids(1)[OF assms(1) that] assms(3) in \<open>simp add: scope_ok_def included_def\<close>)
  have 2: "f \<in> allowed" if "index_search w k m (Some allowed) (Some agent) rebuilt = Inr hs" "(f, s, c) \<in> set hs" for w k m hs f s c
    using search_ids(1)[OF assms(2) that] by (simp add: included_def)
  show ?thesis
  proof (cases v)
    case (Some w)
    show ?thesis
    proof (cases "index_search w (int depth) (-1) scope (Some agent) ix")
      case (Inr hs)
      then show ?thesis using 1[OF Inr] by (auto simp: vector_search_def Some)
    next
      case (Inl e)
      show ?thesis
        using 2 by (cases "index_search w (int depth) (-1) (Some allowed) (Some agent) rebuilt") (auto simp: vector_search_def Some Inl)
    qed
  qed (simp add: vector_search_def)
qed

lemma fuse_scope:
  assumes "\<forall>(vs, ls)\<in>set searches. fst ` set vs \<union> fst ` set ls \<subseteq> A"
  shows "fst ` set (fu_fused (fuse_channels searches)) \<subseteq> A"
proof -
  have ranks: "fst ` set (fold add_rank hs m) \<subseteq> A" if "fst ` snd ` set hs \<subseteq> A" "fst ` set m \<subseteq> A" for hs m
    using that by (induction hs arbitrary: m) (auto simp: add_rank_def dom_update case_prod_unfold)
  have enum: "snd ` set (enumerate n xs) = set xs" for n and xs :: channel_hits
    by (metis list.set_map map_snd_enumerate)
  have step: "fst ` set (fu_fused (fuse_text h fu)) \<subseteq> A" if "h \<in> set searches" "fst ` set (fu_fused fu) \<subseteq> A" for h fu
  proof -
    obtain vs ls where h: "h = (vs, ls)" by fastforce
    then have "fst ` set vs \<subseteq> A" "fst ` set ls \<subseteq> A" using bspec[OF assms that(1)] by (simp_all add: h)
    then show ?thesis
      unfolding fuse_text_def h prod.case fusion.simps
      by (intro ranks that(2)) (simp_all only: enum)
  qed
  have "fst ` set (fu_fused (fold fuse_text hs fu)) \<subseteq> A" if "set hs \<subseteq> set searches" "fst ` set (fu_fused fu) \<subseteq> A" for hs fu
    using that by (induction hs arbitrary: fu) (simp_all add: step)
  then show ?thesis by (simp add: fuse_channels_def)
qed

definition pool_ok :: "ustr set \<Rightarrow> pool \<Rightarrow> bool" where
  "pool_ok A p \<longleftrightarrow> (\<forall>(f, r)\<in>set (po_fragments p). fr_id r = f) \<and> fst ` set (po_seeds p) \<subseteq> A \<and> distinct (map fst (po_seeds p))"

lemma update_present:
  "map_of m f \<noteq> None \<Longrightarrow> map fst (AList.update f s m) = map fst m"
  by (induction m) (auto split: if_splits)

lemma apply_kind_ok:
  "pool_ok A p \<Longrightarrow> pool_ok A (apply_kind asked p)"
proof -
  let ?step = "\<lambda>(f, r) p. if map_of (po_seeds p) f = None then p
        else if asked r
        then p\<lparr>po_relevance := AList.update f 1 (po_relevance p),
               po_seeds := AList.update f (max (score_of (po_seeds p) f 0) 1) (po_seeds p)\<rparr>
        else p\<lparr>po_relevance := AList.update f (score_of (po_relevance p) f 0 * OFF_KIND) (po_relevance p),
               po_seeds := AList.update f (score_of (po_seeds p) f 0 * OFF_KIND) (po_seeds p)\<rparr>"
  have "pool_ok A (?step h p)" if "pool_ok A p" for h p
    using that by (cases h) (auto simp: pool_ok_def dom_update distinct_update image_iff map_of_eq_None_iff)
  then have "pool_ok A p \<Longrightarrow> pool_ok A (fold ?step hs p)" for hs
    by (induction hs arbitrary: p) (simp_all only: fold_simps id_apply comp_apply fold.simps)
  then show "pool_ok A p \<Longrightarrow> pool_ok A (apply_kind asked p)" by (simp only: apply_kind_def)
qed

lemma seed_coverage_ids: "map fst (seed_coverage q ids frags) = filter (\<lambda>f. map_of frags f \<noteq> None) (rev (remdups (rev ids)))"
proof -
  have "map fst (List.map_filter (\<lambda>f. map_option (\<lambda>r. (f, g f r)) (map_of frags f)) xs) = filter (\<lambda>f. map_of frags f \<noteq> None) xs" for g :: "ustr \<Rightarrow> fragment \<Rightarrow> real" and xs :: "ustr list" by (induction xs) (auto simp: List.map_filter_def)
  then show ?thesis unfolding seed_coverage_def Let_def .
qed

lemma score_seeds_ok:
  assumes "fst ` set (fu_fused fu) \<subseteq> A" "\<forall>(f, r)\<in>set extra. f \<in> A \<and> fr_id r = f"
  shows "pool_ok A (score_seeds cfg q (store_fetch P now db) n fu depth extra)"
proof -
  obtain ids frags where pool: "seed_pool (store_fetch P now db) fu depth extra = (ids, frags)" by fastforce
  have frags: "\<forall>(f, r)\<in>set frags. fr_id r = f"
    using pool store.fetch_id assms(2) by (auto simp: seed_pool_def Let_def)
  have "x \<in> set (fu_fused fu) \<Longrightarrow> fst x \<in> A" "y \<in> set extra \<Longrightarrow> fst y \<in> A" for x y using assms by auto
  then have "set ids \<subseteq> A"
    using pool by (auto simp: seed_pool_def Let_def simp del: split_paired_All dest!: in_set_takeD)
  then have cov: "fst ` set (seed_coverage q ids frags) \<subseteq> A" "distinct (map fst (seed_coverage q ids frags))"
    unfolding list.set_map[symmetric] seed_coverage_ids by auto
  have keep: "map fst (map (\<lambda>(f, c). (f, g f c)) xs) = map fst xs" for g :: "ustr \<Rightarrow> real \<Rightarrow> real" and xs
    by (simp add: case_prod_unfold comp_def)
  have seeds: "pool_ok A \<lparr>po_fragments = frags, po_relevance = rel, po_seeds = sc\<rparr>"
    if "map fst sc = map fst (seed_coverage q ids frags)" for rel sc
    using that frags cov unfolding pool_ok_def list.set_map[symmetric] by simp
  show ?thesis
    unfolding score_seeds_def pool prod.case Let_def
    by (auto simp del: map_map intro!: apply_kind_ok seeds simp: keep split: option.split)
qed

lemma expand_seeds_ok:
  assumes "pool_ok A p"
  shows "pool_ok A (fst (expand_seeds db (store_fetch P now db') q hops dir k agent A cs p))"
proof -
  have take: "fst ` set (fst (take_graph_score A h st)) \<subseteq> A \<and> distinct (map fst (fst (take_graph_score A h st)))"
    if "fst ` set (fst st) \<subseteq> A \<and> distinct (map fst (fst st))" for h st
    using that by (auto simp: take_graph_score_def dom_update distinct_update split: prod.split option.split) force+
  have "fst ` set (fst (fold (take_graph_score A) hs st)) \<subseteq> A \<and> distinct (map fst (fst (fold (take_graph_score A) hs st)))"
    if "fst ` set (fst st) \<subseteq> A \<and> distinct (map fst (fst st))" for hs st
    using that by (induction hs arbitrary: st) (simp_all only: fold_simps take)
  note folded = this
  obtain ex rel where e: "fold (take_graph_score A) (expand db GRAPH_HOP_DECAY (take k (sort_key_desc snd (po_seeds p))) agent dir hops)
      (po_seeds p, po_relevance p) = (ex, rel)" by fastforce
  have "fst ` set ex \<subseteq> A \<and> distinct (map fst ex)"
    using folded[of "(po_seeds p, po_relevance p)", unfolded fst_conv, OF _] assms e by (metis fst_conv pool_ok_def)
  with assms show ?thesis
    using store.fetch_id by (auto simp: expand_seeds_def Let_def e pool_ok_def)
qed

lemma in_map_filter: "y \<in> set (List.map_filter f xs) \<longleftrightarrow> (\<exists>x\<in>set xs. f x = Some y)"
  by (induction xs) (auto simp: List.map_filter_def)

lemma rerank_in:
  assumes "rk \<in> set (rerank db now q agent con keep frags k cs)"
  shows "\<exists>c\<in>set cs. \<exists>f. map_of frags (cd_id c) = Some f \<and> fr_agent f = agent \<and> rk = rerank_one db now q con keep c f"
proof -
  obtain c where c: "c \<in> set cs" "(if cd_id c = [] then None else (case map_of frags (cd_id c) of None \<Rightarrow> None
      | Some f \<Rightarrow> if fr_agent f \<noteq> agent then None else Some (rerank_one db now q con keep c f))) = Some rk"
    using in_set_takeD[OF assms[unfolded rerank_def]] by (auto simp only: set_sort_key_desc in_map_filter)
  show ?thesis by (rule bexI[OF _ c(1)]) (use c(2) in \<open>simp split: if_splits option.splits\<close>)
qed

lemma rank_ok:
  assumes "pool_ok A p" "rk \<in> set (rank db now lower q None agent p con k)"
  shows "rk_id rk \<in> A" "\<exists>f. map_of (po_fragments p) (rk_id rk) = Some f \<and> fr_agent f = agent"
proof -
  obtain c f where c: "c \<in> set (rank_candidates lower p)" "map_of (po_fragments p) (cd_id c) = Some f" "fr_agent f = agent" "rk_id rk = cd_id c"
    using assms(2) rerank_in unfolding rank_def Let_def option.case by (fastforce simp: rerank_one_def Let_def)
  from c(1) dedupe_content_best(1) have "cd_id c \<in> fst ` set (po_seeds p)"
    by (force simp: rank_candidates_def in_map_filter split: option.splits if_splits)
  with assms(1) c show "rk_id rk \<in> A" "\<exists>f. map_of (po_fragments p) (rk_id rk) = Some f \<and> fr_agent f = agent"
    by (auto simp: pool_ok_def)
qed

lemma distinct_map_filter:
  assumes "distinct (map k xs)" "\<And>x y. g x = Some y \<Longrightarrow> h y = k x"
  shows "distinct (map h (List.map_filter g xs))"
  using assms(1)
proof (induction xs)
  case (Cons x xs)
  have "h ` set (List.map_filter g xs) \<subseteq> k ` set xs" using assms(2) by (auto simp: in_map_filter)
  moreover have "List.map_filter g (x # xs) = (case g x of None \<Rightarrow> List.map_filter g xs | Some y \<Rightarrow> y # List.map_filter g xs)"
    by (simp add: List.map_filter_def split: option.split)
  ultimately show ?case using Cons assms(2)[of x] by (auto split: option.split)
qed (simp add: List.map_filter_def)

lemma rank_candidates_distinct: "pool_ok A p \<Longrightarrow> distinct (map cd_id (rank_candidates lower p))"
proof -
  assume "pool_ok A p"
  let ?cs = "List.map_filter (\<lambda>(f, s). (case map_of (po_fragments p) f of None \<Rightarrow> None
      | Some r \<Rightarrow> if is_retrievable (fr_state r) then Some \<lparr>cd_id = f, cd_content = fr_content r, cd_score = s\<rparr> else None)) (po_seeds p)"
  have "distinct (map cd_id ?cs)"
    by (rule distinct_map_filter[where k = fst])
       (use \<open>pool_ok A p\<close> in \<open>auto simp: pool_ok_def split: option.splits if_splits\<close>)
  then have "inj_on cd_id (set ?cs)" by (simp add: distinct_map)
  then have "inj_on cd_id (set (dedupe_content lower ?cs))" using dedupe_content_best(1) by (rule inj_on_subset)
  moreover have "distinct (dedupe_content lower ?cs)" using dedupe_content_best(2) by (simp add: distinct_map)
  ultimately show ?thesis by (simp add: rank_candidates_def distinct_map)
qed

lemma rank_distinct:
  assumes "pool_ok A p"
  shows "distinct (map rk_id (rank db now lower q None agent p con k))"
proof -
  have "distinct (map rk_id (rerank db now q agent con keep frags k cs))" if "distinct (map cd_id cs)" for keep frags cs
  proof -
    have "distinct (map rk_id (List.map_filter (\<lambda>c. if cd_id c = [] then None
       else (case map_of frags (cd_id c) of None \<Rightarrow> None
         | Some f \<Rightarrow> if fr_agent f \<noteq> agent then None else Some (rerank_one db now q con keep c f))) cs))" (is "distinct (map rk_id ?xs)")
      by (rule distinct_map_filter[OF that]) (auto simp: rerank_one_def Let_def split: if_splits option.splits)
    then have "distinct (map rk_id (sort_key_desc rk_score ?xs))" by (simp add: distinct_map)
    then show ?thesis by (simp only: rerank_def take_map[symmetric] distinct_take)
  qed
  with rank_candidates_distinct[OF assms] show ?thesis by (simp add: rank_def Let_def)
qed

lemma materialise_ok:
  assumes "pool_ok A p" "\<And>rk. rk \<in> set rs \<Longrightarrow> rk_id rk \<in> A" "distinct (map rk_id rs)"
  shows "hop_ok (\<lambda>f. fr_id f \<in> A) {} (materialise when (store_fetch P now db) p k rs)"
    "list_all (\<lambda>r. is_retrievable (fr_state (fst r))) (materialise when (store_fetch P now db) p k rs)"
    "length (materialise when (store_fetch P now db) p k rs) \<le> max 1 k"
    "per_document d (materialise when (store_fetch P now db) p k rs) \<le> 2"
proof -
  let ?F = "\<lambda>r. case (case map_of (po_fragments p) (rk_id r) of Some f \<Rightarrow> Some f
      | None \<Rightarrow> map_of (store_fetch P now db [rk_id r]) (rk_id r)) of None \<Rightarrow> None
    | Some f \<Rightarrow> if is_retrievable (fr_state f) then Some (f, rk_score r, score_of (po_relevance p) (rk_id r) 0 * rk_demotion r) else None"
  let ?xs = "List.map_filter ?F rs"
  have frags: "fr_id f = i" if "map_of (po_fragments p) i = Some f" for i f
    using assms(1) map_of_SomeD[OF that] by (auto simp: pool_ok_def)
  have F: "fr_id (fst x) = rk_id r \<and> is_retrievable (fr_state (fst x))" if "?F r = Some x" for r :: ranked and x
    using that frags store.fetched by (auto split: option.splits if_splits)
  have "distinct (map (\<lambda>x. fr_id (fst x)) ?xs)" by (rule distinct_map_filter[OF assms(3)]) (use F in blast)
  then have dist: "distinct (result_ids (sort_by_display when ?xs))"
    by (simp add: result_ids_def sort_by_display_def distinct_map)
  have ok: "fr_id (fst x) \<in> A \<and> is_retrievable (fr_state (fst x))" if "x \<in> set (sort_by_display when ?xs)" for x
  proof -
    from that obtain r where r: "r \<in> set rs" "?F r = Some x" by (auto simp only: sort_by_display_def set_sort in_map_filter)
    show ?thesis using F[OF r(2)] assms(2)[OF r(1)] by simp
  qed
  have m: "materialise when (store_fetch P now db) p k rs = diversify k (sort_by_display when ?xs)"
    by (simp only: materialise_def)
  have sub: "subseq (diversify k (sort_by_display when ?xs)) (sort_by_display when ?xs)" by (rule diversify_ok)
  have "subseq (result_ids (diversify k (sort_by_display when ?xs))) (result_ids (sort_by_display when ?xs))"
    unfolding result_ids_def by (rule subseq_map[OF sub])
  from subseq_distinct[OF this dist] ok subseq_set_mono[OF sub]
  show "hop_ok (\<lambda>f. fr_id f \<in> A) {} (materialise when (store_fetch P now db) p k rs)"
    unfolding m hop_ok_def by blast
  show "list_all (\<lambda>r. is_retrievable (fr_state (fst r))) (materialise when (store_fetch P now db) p k rs)"
    unfolding m list_all_iff using ok subseq_set_mono[OF sub] by blast
  show "length (materialise when (store_fetch P now db) p k rs) \<le> max 1 k"
    "per_document d (materialise when (store_fetch P now db) p k rs) \<le> 2"
    unfolding m by (rule diversify_ok)+
qed

lemma first_results_ok:
  assumes "en_fetch en = store_fetch P now db" "en_scorer en = None" "parts_ok (en_index en)" "parts_ok (en_rebuilt en)"
    and "scope_ok (en_index en) agent allowed scope" "\<forall>(f, r)\<in>set extra. f \<in> allowed \<and> fr_id r = f"
  shows "hop_ok (\<lambda>f. fr_id f \<in> allowed) {} (first_results en rd q pl texts agent allowed scope extra)"
    "list_all (\<lambda>r. is_retrievable (fr_state (fst r))) (first_results en rd q pl texts agent allowed scope extra)"
    "length (first_results en rd q pl texts agent allowed scope extra) \<le> max 1 (pl_top_k pl)"
    "per_document d (first_results en rd q pl texts agent allowed scope extra) \<le> 2"
proof -
  let ?depth = "max CHANNEL_DEPTH_MIN (pl_top_k pl * CHANNEL_DEPTH_FACTOR)"
  let ?fu = "search_channels en texts agent allowed scope ?depth"
  let ?seeds = "score_seeds (en_fusion en) q (store_fetch P now db) (length texts) ?fu ?depth extra"
  obtain p con where e: "expand_seeds (en_db en) (store_fetch P now db) q (pl_depth pl) (pl_direction pl) (pl_top_k pl) agent
      allowed (fu_cosine ?fu) ?seeds = (p, con)" by fastforce
  let ?rs = "rank (en_db en) (en_now en) (en_lower en) q None agent p con (pl_top_k pl * 2)"
  have "fst ` set (fu_fused ?fu) \<subseteq> allowed"
    unfolding search_channels_def
    by (rule fuse_scope) (auto simp: lexical_search_def dest: subsetD[OF vector_search_scope[OF assms(3-5)], OF imageI])
  from score_seeds_ok[OF this assms(6)] have "pool_ok allowed ?seeds" .
  from expand_seeds_ok[OF this] have pool: "pool_ok allowed p" by (metis e fst_conv)
  have f: "first_results en rd q pl texts agent allowed scope extra
      = materialise (\<lambda>f. of_int (dt_micros (event_time rd f)) / 1000000) (store_fetch P now db) p (pl_top_k pl) ?rs"
    unfolding first_results_def Let_def assms(1,2) e prod.case ..
  note ok = materialise_ok[OF pool rank_ok(1)[OF pool] rank_distinct[OF pool]]
  show "hop_ok (\<lambda>f. fr_id f \<in> allowed) {} (first_results en rd q pl texts agent allowed scope extra)"
    "list_all (\<lambda>r. is_retrievable (fr_state (fst r))) (first_results en rd q pl texts agent allowed scope extra)"
    "length (first_results en rd q pl texts agent allowed scope extra) \<le> max 1 (pl_top_k pl)"
    "per_document d (first_results en rd q pl texts agent allowed scope extra) \<le> 2"
    unfolding f by (rule ok, assumption?)+
qed

lemma multi_hop_length: "multi_hop rd q lookup k n rs = Some out \<Longrightarrow> length out \<le> max (length rs) k"
  by (auto simp: multi_hop_def split: if_splits)

lemma pull_superseders_length: "pull_superseders rd q lookup k rs = Some out \<Longrightarrow> length out \<le> max (length rs) k"
  by (auto simp: pull_superseders_def split: if_splits option.splits)

lemma order_results_ok:
  assumes "hop_ok ok {} rs"
  shows "hop_ok ok {} (rp_results (order_results rd q vals ts rs))" "length (rp_results (order_results rd q vals ts rs)) \<le> length rs"
proof -
  let ?x = "before_floor rd q vals rs"
  have sub: "subseq (rp_results (order_results rd q vals ts rs)) ?x"
    unfolding order_results_floor by (rule apply_floor_subseq)
  have x: "hop_ok ok {} ?x" using assms hop_ok_mset[OF before_floor_ok(1)] by simp
  have "subseq (result_ids (rp_results (order_results rd q vals ts rs))) (result_ids ?x)"
    unfolding result_ids_def by (rule subseq_map[OF sub])
  with x subseq_set_mono[OF sub] show "hop_ok ok {} (rp_results (order_results rd q vals ts rs))"
    unfolding hop_ok_def using subseq_distinct by blast
  have "length ?x = length rs" using arg_cong[OF before_floor_ok(1)[of rd q vals rs], of size] by simp
  then show "length (rp_results (order_results rd q vals ts rs)) \<le> length rs"
    using list_emb_length[OF sub] by simp
qed


section \<open>Examples\<close>

definition wit_reading :: reading where
  "wit_reading = \<lparr>rd_intent = NoIntent, rd_dated = False, rd_norm = [], rd_gap_anchors = [u ''sky''], rd_anchors = [u ''sky''],
     rd_terms = [], rd_asked = [], rd_member = None, rd_lookups = [], rd_listing = False, rd_norm_of = \<lambda>c. c,
     rd_contains = \<lambda>c a. c \<noteq> [], rd_stem = \<lambda>w. w, rd_stems_of = \<lambda>c. [], rd_entities = \<lambda>c. [u ''blue''],
     rd_features = \<lambda>c. \<lparr>ft_norm = c, ft_topic = [], ft_entities = [], ft_stems = [], ft_update = False, ft_replaced = []\<rparr>,
     rd_is_update = \<lambda>c. False, rd_is_change = \<lambda>c. False, rd_topic_terms = \<lambda>c. [], rd_values = \<lambda>c. [], rd_items = \<lambda>v. [],
     rd_unit = \<lambda>c. None, rd_declared = \<lambda>f. None\<rparr>"

definition tampered_row :: fragment where
  "tampered_row = wit_fragment\<lparr>fr_state := VERIFIED, fr_meta := [(''content_hash'', MvText (wit_sha (u ''the sea is blue'')))]\<rparr>"

definition wit_env :: search_env where
  "wit_env = \<lparr>en_db = empty_db, en_now = DT 2026 1 2 0 0 0 0,
     en_fetch = store_fetch (noop_provider wit_sha) (DT 2026 1 2 0 0 0 0) (empty_db\<lparr>db_fragments := [tampered_row]\<rparr>),
     en_lexical = \<lambda>t n. [(u ''f1'', 1)], en_index = index_empty BackendPython False, en_rebuilt = index_empty BackendPython False,
     en_embed = \<lambda>t. None, en_lower = \<lambda>t. t, en_fusion = \<lparr>fc_score_fusion = False, fc_lexical_weight = 0, fc_anchor_weight = 0\<rparr>,
     en_scorer = None, en_values = \<lambda>fs. ([], [])\<rparr>"


lemma tampered_row_decoded: "decode_fragment (noop_provider wit_sha) tampered_row = (tampered_row\<lparr>fr_state := CONTRADICTED\<rparr>, True)"
proof -
  have "py_strip (u ''the sky is blue'') = u ''the sky is blue''"
    by (rule py_strip_clean) (simp_all add: py_isspace_def)
  then show ?thesis
    by (simp add: tampered_row_def decode_fragment_def hash_check_def hash_verify_def noop_provider_def wit_sha_def wit_fragment_def Let_def)
qed

text \<open>The hops do not repeat the state check of the first results: a memory whose content no
  longer matches its digest is decoded as contradicted and still enters the results through a
  bridge of a valid memory.\<close>

theorem hops_skip_the_state_check:
  "let source = wit_fragment\<lparr>fr_id := u ''f0'', fr_state := VERIFIED\<rparr>;
       lookup = lookup_bridge wit_reading wit_question (en_lexical wit_env) (en_fetch wit_env) {u ''f1''}
   in map_option (map (\<lambda>r. (fr_id (fst r), fr_state (fst r)))) (multi_hop wit_reading wit_question lookup 5 1 [(source, 1, 1)])
      = Some [(u ''f0'', VERIFIED), (u ''f1'', CONTRADICTED)]"
proof -
  let ?c = "tampered_row\<lparr>fr_state := CONTRADICTED\<rparr>"
  have id: "fr_id tampered_row = u ''f1''" "fr_content ?c = u ''the sky is blue''" by (simp_all add: tampered_row_def wit_fragment_def)
  define lookup where "lookup = lookup_bridge wit_reading wit_question (en_lexical wit_env) (en_fetch wit_env) {u ''f1''}"
  have look: "lookup e = [?c]" for e
    unfolding lookup_def lookup_bridge_def Let_def wit_env_def
    by (simp add: lexical_search_def store_fetch_def get_many_def Let_def tampered_row_decoded id List.map_filter_def
        wit_reading_def PER_BRIDGE_def)
  show ?thesis
    unfolding Let_def lookup_def[symmetric]
    by (simp add: multi_hop_def look wit_reading_def wit_question_def MAX_SOURCES_def anchor_present_def MAX_BRIDGES_def
        place_after_def Let_def result_ids_def position_def insert_at_def hop_slot_def HOP_EVIDENCE_def wit_fragment_def id tampered_row_def)
qed

text \<open>The moves of a pair can undo those of an earlier pair: with results A, C, B of which C
  updates B and B updates A, the superseded B ends ahead of its update C.\<close>

lemma a_later_move_passes_the_update: "fold move_before [(1, 2), (2, 0)] [0, 1, 2] = [2, 0, 1]"
  by (simp add: move_before_def position_def insert_at_def)

end
