(* ===== verification/Scope_Cache.thy ===== *)
theory Scope_Cache
  imports Store_Laws Scope_Ids "HOL-Library.Countable"
begin

text \<open>
  The cached retrievable-id scopes of \<^verbatim>\<open>store/_sqlite/scope_delta.py\<close> and their snapshots
  (\<^verbatim>\<open>scope_snapshot.py\<close>): a structural write bumps \<open>write_version\<close> and logs the ids it
  changed, and a read brings a cached set up to date from the log instead of scanning the agent.
  The theory shows that the cached scope is the one a scan gives. Time is one clock in
  microseconds, \<open>julianday\<close> differences are exact, and \<open>float('inf')\<close> is \<open>None\<close>. The key of a
  cache entry, the text and parameters of the WHERE clause, is the agent and the filter they are
  built from. The statements of one transaction run at one instant.
\<close>

section \<open>Constants and records\<close>

definition MAX_DELTA_IDS :: nat where "MAX_DELTA_IDS = 5000"
definition SNAPSHOT_MAX_DELTA_IDS :: nat where "SNAPSHOT_MAX_DELTA_IDS = 50000"
definition MAX_LOGGED_IDS :: nat where "MAX_LOGGED_IDS = 512"
definition LOG_KEEP :: nat where "LOG_KEEP = 1024"
definition PRUNE_EVERY :: nat where "PRUNE_EVERY = 64"
definition IDS_CACHE_SIZE :: nat where "IDS_CACHE_SIZE = 64"
definition IDS_CACHE_MAX_AGE :: int where "IDS_CACHE_MAX_AGE = 300000000"
definition MIN_ROWS :: int where "MIN_ROWS = 50000"
definition PART_IDS :: nat where "PART_IDS = 65536"

type_synonym scope_key = "ustr \<times> fragment_filter"

record scope_entry =
  se_ids :: scope_ids
  se_version :: nat
  se_expiry :: "int option"
  se_refresh :: int

record scope_snap =
  sn_version :: nat
  sn_key :: ustr
  sn_count :: nat
  sn_digest :: ustr
  sn_parts :: "ustr list"

text \<open>The database as the caches see it: the tables, \<open>write_version\<close>, the rows of
  \<open>write_log\<close> (\<open>None\<close> for NULL ids) and the scope snapshot of each agent.\<close>

record scope_world =
  sw_db :: store_db
  sw_version :: nat
  sw_log :: "(nat \<times> ustr list option) list"
  sw_snaps :: "(ustr \<times> scope_snap) list"

section \<open>The write side\<close>

text \<open>What a committed write told the log: nothing (a non-structural write), or a structural
  change with the ids it noted, \<open>None\<close> when it noted none.\<close>

datatype change = Unstructural | Structural "ustr list option"

definition log_structural_write :: "ustr list option \<Rightarrow> scope_world \<Rightarrow> scope_world" where
  "log_structural_write notes w =
     (let v = sw_version w;
          ids = (case notes of None \<Rightarrow> None
                 | Some ns \<Rightarrow> if length ns > MAX_LOGGED_IDS then None else Some (remdups ns));
          lg = tbl_replace fst (v, ids) (sw_log w)
      in w\<lparr>sw_log := (if v mod PRUNE_EVERY = 0 then tbl_delete (\<lambda>row. fst row + LOG_KEEP \<le> v) lg
                      else lg)\<rparr>)"

fun commit_write :: "scope_world \<Rightarrow> store_db \<Rightarrow> change \<Rightarrow> scope_world" where
  "commit_write w db' Unstructural = w\<lparr>sw_db := db'\<rparr>"
| "commit_write w db' (Structural notes) =
     log_structural_write notes (w\<lparr>sw_db := db', sw_version := sw_version w + 1\<rparr>)"

section \<open>The queries\<close>

definition ttl_deadline :: "fragment \<Rightarrow> int option" where
  "ttl_deadline r = map_option (\<lambda>t. dt_micros (fr_created r) + t * 1000000) (fr_ttl r)"

definition ttl_live :: "int \<Rightarrow> fragment \<Rightarrow> bool" where
  "ttl_live now r = (case ttl_deadline r of None \<Rightarrow> True | Some d \<Rightarrow> now \<le> d)"

definition scope_rows :: "store_db \<Rightarrow> scope_key \<Rightarrow> fragment list" where
  "scope_rows db key = filter (fragment_matches db (fst key) (snd key)) (db_fragments db)"

text \<open>The ids a scan returns.\<close>

definition scope_query :: "store_db \<Rightarrow> scope_key \<Rightarrow> int \<Rightarrow> ustr set" where
  "scope_query db key now = fr_id ` set (filter (ttl_live now) (scope_rows db key))"

definition opt_min :: "int option \<Rightarrow> int option \<Rightarrow> int option" where
  "opt_min a b = (case (a, b) of (None, _) \<Rightarrow> b | (_, None) \<Rightarrow> a | (Some x, Some y) \<Rightarrow> Some (min x y))"

definition next_expiry :: "store_db \<Rightarrow> ustr \<Rightarrow> int \<Rightarrow> int option" where
  "next_expiry db agent now =
     (let ds = List.map_filter ttl_deadline
            (filter (\<lambda>r. fr_agent r = agent \<and> fr_ttl r \<noteq> None \<and> ttl_live now r) (db_fragments db))
      in if ds = [] then None else Some (max 0 (Min (set ds) - now)))"

fun collect_changes :: "nat \<Rightarrow> ustr set \<Rightarrow> (nat \<times> ustr list option) list \<Rightarrow> ustr set option" where
  "collect_changes mx acc [] = Some acc"
| "collect_changes mx acc ((v, None) # rows) = None"
| "collect_changes mx acc ((v, Some ids) # rows) =
     (let acc' = acc \<union> set ids in if card acc' > mx then None else collect_changes mx acc' rows)"

definition changed_since :: "(nat \<times> ustr list option) list \<Rightarrow> nat \<Rightarrow> nat \<Rightarrow> nat \<Rightarrow> ustr set option" where
  "changed_since lg old new mx =
     (if new < old \<or> new - old > LOG_KEEP then None
      else let rows = filter (\<lambda>row. old < fst row \<and> fst row \<le> new) lg
           in if length rows \<noteq> new - old then None else collect_changes mx {} rows)"

section \<open>Maintaining an entry\<close>

text \<open>The functions that create a \<open>ScopeIds\<close> take the next token and return the one after it.\<close>

definition full_scope :: "nat \<Rightarrow> scope_world \<Rightarrow> scope_key \<Rightarrow> nat \<Rightarrow> int \<Rightarrow> scope_entry \<times> nat" where
  "full_scope tok w key version now =
     (\<lparr>se_ids = scope_ids_new tok (scope_query (sw_db w) key now), se_version = version,
       se_expiry = map_option (\<lambda>left. now + left) (next_expiry (sw_db w) (fst key) now),
       se_refresh = now + IDS_CACHE_MAX_AGE\<rparr>, tok + 1)"

definition rows_by_id :: "store_db \<Rightarrow> scope_key \<Rightarrow> ustr set \<Rightarrow> int \<Rightarrow> fragment list" where
  "rows_by_id db key touched now =
     filter (\<lambda>r. fr_id r \<in> touched \<and> ttl_live now r) (scope_rows db key)"

definition apply_log ::
  "nat \<Rightarrow> scope_world \<Rightarrow> scope_entry \<Rightarrow> nat \<Rightarrow> scope_key \<Rightarrow> int \<Rightarrow> nat \<Rightarrow> scope_entry option \<times> nat" where
  "apply_log tok w e version key now mx =
     (case changed_since (sw_log w) (se_version e) version mx of
        None \<Rightarrow> (None, tok)
      | Some touched \<Rightarrow>
          (let rows = rows_by_id (sw_db w) key touched now;
               present = fr_id ` set rows;
               soonest = fold (\<lambda>r s. case ttl_deadline r of None \<Rightarrow> s
                   | Some d \<Rightarrow> opt_min s (Some (max 0 (d - now)))) rows None;
               ids = se_ids e;
               stale = (\<not> (\<forall>i\<in>present. scope_contains ids i) \<or> \<not> scope_isdisjoint ids (touched - present))
           in (Some \<lparr>se_ids = (if stale then scope_derive tok ids present (touched - present) else ids),
                 se_version = version,
                 se_expiry = opt_min (se_expiry e) (map_option (\<lambda>left. now + left) soonest),
                 se_refresh = se_refresh e\<rparr>,
               if stale then tok + 1 else tok)))"

definition scope_expire :: "nat \<Rightarrow> scope_world \<Rightarrow> scope_entry \<Rightarrow> ustr \<Rightarrow> int \<Rightarrow> scope_entry \<times> nat" where
  "scope_expire tok w e agent now =
     (let gone = fr_id ` set (filter (\<lambda>r. fr_agent r = agent \<and> \<not> ttl_live now r) (db_fragments (sw_db w)));
          calm = scope_isdisjoint (se_ids e) gone
      in (\<lparr>se_ids = (if calm then se_ids e else scope_derive tok (se_ids e) {} gone),
           se_version = se_version e,
           se_expiry = map_option (\<lambda>left. now + left) (next_expiry (sw_db w) agent now),
           se_refresh = se_refresh e\<rparr>, if calm then tok else tok + 1))"

section \<open>Scope snapshots\<close>

definition default_scope_key :: "ustr \<Rightarrow> scope_key" where
  "default_scope_key agent = (agent, no_filter\<lparr>ff_states := retrievable_states\<rparr>)"

text \<open>\<open>text.split("\n")\<close>, and the parts of at most \<open>PART_IDS\<close> ids joined by newlines.\<close>

fun split_lines :: "ustr \<Rightarrow> ustr list" where
  "split_lines [] = [[]]"
| "split_lines (c # cs) =
     (if c = 10 then [] # split_lines cs
      else case split_lines cs of [] \<Rightarrow> [[c]] | x # xs \<Rightarrow> (c # x) # xs)"

definition scope_texts :: "ustr list \<Rightarrow> ustr list" where
  "scope_texts ids = map (\<lambda>k. py_join [10] (take PART_IDS (drop (k * PART_IDS) ids)))
     [0..<(length ids + PART_IDS - 1) div PART_IDS]"

text \<open>The hash of the filter and the digest of the parts are arguments.\<close>

definition save_scope_snapshot ::
  "(scope_key \<Rightarrow> ustr) \<Rightarrow> (ustr list \<Rightarrow> ustr) \<Rightarrow> scope_world \<Rightarrow> scope_key \<Rightarrow> ustr list \<Rightarrow> nat \<Rightarrow> scope_world" where
  "save_scope_snapshot kh dg w key ids version =
     w\<lparr>sw_snaps := AList.update (fst key)
        \<lparr>sn_version = version, sn_key = kh key, sn_count = length ids, sn_digest = dg (scope_texts ids),
         sn_parts = scope_texts ids\<rparr> (sw_snaps w)\<rparr>"

definition snapshot_scope_ids ::
  "(scope_key \<Rightarrow> ustr) \<Rightarrow> (ustr list \<Rightarrow> ustr) \<Rightarrow> scope_world \<Rightarrow> scope_key \<Rightarrow> (nat \<times> ustr list) option" where
  "snapshot_scope_ids kh dg w key =
     (case map_of (sw_snaps w) (fst key) of
        None \<Rightarrow> None
      | Some sn \<Rightarrow>
          if sn_key sn \<noteq> kh key then None
          else if sn_parts sn = [] \<or> dg (sn_parts sn) \<noteq> sn_digest sn then None
          else (let ids = concat (map split_lines (sn_parts sn))
                in if length ids = sn_count sn then Some (sn_version sn, ids) else None))"

definition scope_snapshot_version :: "scope_world \<Rightarrow> ustr \<Rightarrow> nat option" where
  "scope_snapshot_version w agent = map_option sn_version (map_of (sw_snaps w) agent)"

definition scope_snapshot_wanted :: "scope_key \<Rightarrow> int \<Rightarrow> bool" where
  "scope_snapshot_wanted key n \<longleftrightarrow> n \<ge> MIN_ROWS \<and> key = default_scope_key (fst key)"

definition snapshot_scope ::
  "(scope_key \<Rightarrow> ustr) \<Rightarrow> (ustr list \<Rightarrow> ustr) \<Rightarrow> nat \<Rightarrow> scope_world \<Rightarrow> nat \<Rightarrow> scope_key \<Rightarrow> int
    \<Rightarrow> scope_entry option \<times> nat" where
  "snapshot_scope kh dg tok w version key now =
     (case snapshot_scope_ids kh dg w key of
        None \<Rightarrow> (None, tok)
      | Some (sv, ids) \<Rightarrow>
          if sv > version then (None, tok)
          else (let e0 = \<lparr>se_ids = scope_ids_new tok (set ids), se_version = sv, se_expiry = None,
                      se_refresh = now + IDS_CACHE_MAX_AGE\<rparr>;
                    (e1, tok1) = (if sv \<noteq> version
                       then apply_log (tok + 1) w e0 version key now SNAPSHOT_MAX_DELTA_IDS
                       else (Some e0, tok + 1))
                in case e1 of None \<Rightarrow> (None, tok1)
                   | Some e \<Rightarrow> (let (e2, tok2) = scope_expire tok1 w e (fst key) now in (Some e2, tok2))))"

text \<open>The ids of a set are saved in some order; here they are sorted.\<close>

definition save_scanned_scope ::
  "(scope_key \<Rightarrow> ustr) \<Rightarrow> (ustr list \<Rightarrow> ustr) \<Rightarrow> scope_world \<Rightarrow> scope_key \<Rightarrow> scope_entry \<Rightarrow> scope_world" where
  "save_scanned_scope kh dg w key e =
     (if scope_snapshot_wanted key (si_len (se_ids e))
      then save_scope_snapshot kh dg w key (sorted_list_of_set (scope_iter (se_ids e))) (se_version e)
      else w)"

section \<open>Reading a scope\<close>

type_synonym scope_cache = "(scope_key \<times> scope_entry) list"

definition cache_put :: "scope_cache \<Rightarrow> scope_key \<Rightarrow> scope_entry \<Rightarrow> scope_cache" where
  "cache_put c key e = AList.update key e
     (if map_of c key = None \<and> length c \<ge> IDS_CACHE_SIZE then tl c else c)"

text \<open>A cached entry that is not due for its periodic recompute, brought to \<open>version\<close>.\<close>

definition refresh_cached ::
  "nat \<Rightarrow> scope_world \<Rightarrow> scope_cache \<Rightarrow> nat \<Rightarrow> scope_key \<Rightarrow> int \<Rightarrow> scope_entry option \<times> nat" where
  "refresh_cached tok w c version key now =
     (case map_of c key of
        None \<Rightarrow> (None, tok)
      | Some e \<Rightarrow>
          if \<not> now < se_refresh e then (None, tok)
          else (let (e1, tok1) = (if se_version e \<noteq> version
                      then apply_log tok w e version key now MAX_DELTA_IDS else (Some e, tok))
                in case e1 of None \<Rightarrow> (None, tok1)
                   | Some e' \<Rightarrow> (case se_expiry e' of
                       None \<Rightarrow> (Some e', tok1)
                     | Some x \<Rightarrow> if x \<le> now
                         then (let (e2, tok2) = scope_expire tok1 w e' (fst key) now in (Some e2, tok2))
                         else (Some e', tok1))))"

text \<open>\<open>retrievable_id_set\<close> after it has read the version: the entry, the cache and the next token,
  and the world with the snapshot a first scan may save.\<close>

definition retrievable_id_set ::
  "(scope_key \<Rightarrow> ustr) \<Rightarrow> (ustr list \<Rightarrow> ustr) \<Rightarrow> scope_world \<Rightarrow> scope_cache \<Rightarrow> nat \<Rightarrow> nat \<Rightarrow> scope_key \<Rightarrow> int
    \<Rightarrow> scope_entry \<times> scope_world \<times> scope_cache \<times> nat" where
  "retrievable_id_set kh dg w c tok version key now =
     (let (e1, tok1) = refresh_cached tok w c version key now;
          first_use = (e1 = None \<and> map_of c key = None);
          (e2, tok2) = (if first_use then snapshot_scope kh dg tok1 w version key now else (e1, tok1))
      in case e2 of
           Some e \<Rightarrow> (e, w, cache_put c key e, tok2)
         | None \<Rightarrow>
             (let (e, tok3) = full_scope tok2 w key version now
              in (e, if first_use then save_scanned_scope kh dg w key e else w, cache_put c key e, tok3)))"

definition record_scope_if_exact ::
  "(scope_key \<Rightarrow> ustr) \<Rightarrow> (ustr list \<Rightarrow> ustr) \<Rightarrow> scope_world \<Rightarrow> scope_cache \<Rightarrow> ustr \<Rightarrow> ustr list \<Rightarrow> nat \<Rightarrow> scope_world" where
  "record_scope_if_exact kh dg w c agent ids version =
     (let key = default_scope_key agent in
      case map_of c key of
        None \<Rightarrow> w
      | Some e \<Rightarrow>
          if se_version e \<noteq> version \<or> si_len (se_ids e) \<noteq> int (length ids) then w
          else if list_all (scope_contains (se_ids e)) ids
            then save_scope_snapshot kh dg w key ids version else w)"

section \<open>What the log knows\<close>

definition log_known :: "(nat \<times> ustr list option) list \<Rightarrow> nat \<Rightarrow> nat \<Rightarrow> bool" where
  "log_known lg a b \<longleftrightarrow> (\<forall>v. a < v \<and> v \<le> b \<longrightarrow> (\<exists>ids. (v, Some ids) \<in> set lg))"

definition log_touched :: "(nat \<times> ustr list option) list \<Rightarrow> nat \<Rightarrow> nat \<Rightarrow> ustr set" where
  "log_touched lg a b = \<Union> {set ids | v ids. (v, Some ids) \<in> set lg \<and> a < v \<and> v \<le> b}"

definition log_ok :: "scope_world \<Rightarrow> bool" where
  "log_ok w \<longleftrightarrow> distinct (map fst (sw_log w)) \<and> (\<forall>row\<in>set (sw_log w). fst row \<le> sw_version w)"

lemma log_known_refl [simp]: "log_known lg v v" "log_touched lg v v = {}"
  by (auto simp: log_known_def log_touched_def)

lemma in_log_touched:
  "i \<in> log_touched lg a b \<longleftrightarrow> (\<exists>v ids. (v, Some ids) \<in> set lg \<and> a < v \<and> v \<le> b \<and> i \<in> set ids)"
  by (auto simp: log_touched_def)

lemma between_split: "a \<le> b \<Longrightarrow> b \<le> c \<Longrightarrow> a < v \<and> v \<le> c \<longleftrightarrow> (a < v \<and> v \<le> b) \<or> (b < v \<and> v \<le> c)"
  for a b c v :: nat
  by linarith

lemma log_touched_split: "a \<le> b \<Longrightarrow> b \<le> c \<Longrightarrow> log_touched lg a c = log_touched lg a b \<union> log_touched lg b c"
  using between_split[of a b c] by (intro set_eqI) (simp add: in_log_touched, blast)

lemma log_known_split: "a \<le> b \<Longrightarrow> b \<le> c \<Longrightarrow> log_known lg a c \<longleftrightarrow> log_known lg a b \<and> log_known lg b c"
  using between_split[of a b c] by (simp add: log_known_def, blast)

lemma collect_changes_Some:
  "collect_changes mx acc rows = Some t \<Longrightarrow>
     t = acc \<union> \<Union> {set ids | v ids. (v, Some ids) \<in> set rows} \<and> (\<forall>row\<in>set rows. snd row \<noteq> None)
     \<and> (finite acc \<longrightarrow> finite t)"
  by (induction mx acc rows rule: collect_changes.induct) (auto simp: Let_def split: if_splits)

lemma log_touched_finite: "finite (log_touched lg a b)"
proof -
  have "log_touched lg a b \<subseteq> (\<Union>row\<in>set lg. case snd row of None \<Rightarrow> {} | Some ids \<Rightarrow> set ids)"
    by (auto simp: log_touched_def)
  then show ?thesis by (rule finite_subset) (auto split: option.splits)
qed

lemma changed_since_Some:
  assumes "log_ok w" "changed_since (sw_log w) a b mx = Some t"
  shows "a \<le> b \<and> log_known (sw_log w) a b \<and> t = log_touched (sw_log w) a b"
proof -
  let ?rows = "filter (\<lambda>row. a < fst row \<and> fst row \<le> b) (sw_log w)"
  from assms(2) have le: "a \<le> b" and len: "length ?rows = b - a"
    and col: "collect_changes mx {} ?rows = Some t"
    by (auto simp: changed_since_def Let_def split: if_splits)
  have "distinct (map fst ?rows)"
    using assms(1) by (simp add: log_ok_def distinct_map_filter)
  from distinct_card[OF this] have "card (fst ` set ?rows) = length ?rows"
    unfolding set_map length_map .
  with len have "card (fst ` set ?rows) = card {a<..b}" by simp
  moreover have "fst ` set ?rows \<subseteq> {a<..b}" by auto
  ultimately have all: "fst ` set ?rows = {a<..b}"
    by (simp add: card_subset_eq)
  note t = collect_changes_Some[OF col]
  have "\<exists>ids. (v, Some ids) \<in> set (sw_log w)" if "a < v" "v \<le> b" for v
  proof -
    have "v \<in> fst ` set ?rows" using that all by simp
    then obtain x where "(v, x) \<in> set ?rows" by auto
    with t show ?thesis by (cases x) auto
  qed
  then have "log_known (sw_log w) a b" by (auto simp: log_known_def)
  moreover have "t = log_touched (sw_log w) a b"
    using t by (auto simp: log_touched_def)
  ultimately show ?thesis using le by blast
qed

section \<open>What an entry promises\<close>

text \<open>The part of the tables a scope depends on: whether an id is in it, and its TTL deadline.\<close>

definition scope_view :: "store_db \<Rightarrow> scope_key \<Rightarrow> ustr \<Rightarrow> int option option" where
  "scope_view db key i = (case tbl_get fr_id (db_fragments db) i of None \<Rightarrow> None
     | Some r \<Rightarrow> if fragment_matches db (fst key) (snd key) r then Some (ttl_deadline r) else None)"

definition view_live :: "store_db \<Rightarrow> scope_key \<Rightarrow> int \<Rightarrow> ustr \<Rightarrow> bool" where
  "view_live db key now i = (case scope_view db key i of None \<Rightarrow> False
     | Some None \<Rightarrow> True | Some (Some d) \<Rightarrow> now \<le> d)"

lemma scope_view_row:
  assumes "tbl_ok fr_id (db_fragments db)" "r \<in> set (scope_rows db key)"
  shows "scope_view db key (fr_id r) = Some (ttl_deadline r)"
proof -
  have "tbl_get fr_id (db_fragments db) (fr_id r) = Some r"
    using assms by (simp add: tbl_get_Some scope_rows_def)
  then show ?thesis using assms(2) by (simp add: scope_view_def scope_rows_def)
qed

lemma scope_query_view:
  assumes "tbl_ok fr_id (db_fragments db)"
  shows "i \<in> scope_query db key now \<longleftrightarrow> view_live db key now i"
proof
  assume "i \<in> scope_query db key now"
  then obtain r where "r \<in> set (scope_rows db key)" "ttl_live now r" "i = fr_id r"
    by (auto simp: scope_query_def)
  then show "view_live db key now i"
    using scope_view_row[OF assms, of r key] by (simp add: view_live_def ttl_live_def split: option.splits)
next
  assume live: "view_live db key now i"
  then obtain d where d: "scope_view db key i = Some d" by (auto simp: view_live_def split: option.splits)
  then obtain r where "tbl_get fr_id (db_fragments db) i = Some r"
    "fragment_matches db (fst key) (snd key) r" "ttl_deadline r = d"
    by (auto simp: scope_view_def split: option.splits if_splits)
  moreover from this have "r \<in> set (scope_rows db key)" "fr_id r = i"
    using tbl_get_SomeD[of fr_id "db_fragments db" i r] by (auto simp: scope_rows_def)
  ultimately show "i \<in> scope_query db key now"
    using live d by (auto simp: scope_query_def view_live_def ttl_live_def split: option.splits)
qed

text \<open>\<open>unsure w v i\<close>: after version \<open>v\<close> the log is incomplete or names the id, so an entry of that
  version says nothing about it. An id set is sound for a version when it is right about every
  other id: it holds only ids of matching rows, and every live one.\<close>

definition unsure :: "scope_world \<Rightarrow> nat \<Rightarrow> ustr \<Rightarrow> bool" where
  "unsure w v i \<longleftrightarrow> \<not> log_known (sw_log w) v (sw_version w) \<or> i \<in> log_touched (sw_log w) v (sw_version w)"

definition scope_sound :: "ustr set \<Rightarrow> nat \<Rightarrow> scope_world \<Rightarrow> scope_key \<Rightarrow> int \<Rightarrow> bool" where
  "scope_sound X v w key now \<longleftrightarrow> v \<le> sw_version w \<and> (\<forall>i. unsure w v i
     \<or> (i \<in> X \<longrightarrow> scope_view (sw_db w) key i \<noteq> None) \<and> (view_live (sw_db w) key now i \<longrightarrow> i \<in> X))"

definition entry_sound :: "scope_entry \<Rightarrow> scope_world \<Rightarrow> scope_key \<Rightarrow> int \<Rightarrow> bool" where
  "entry_sound e w key now \<longleftrightarrow> scope_inv (se_ids e) \<and> scope_sound (scope_set (se_ids e)) (se_version e) w key now"

text \<open>The expiry of the entry comes no later than the deadline of any of its members.\<close>

definition entry_timed :: "scope_entry \<Rightarrow> scope_world \<Rightarrow> scope_key \<Rightarrow> bool" where
  "entry_timed e w key \<longleftrightarrow> (\<forall>i d. unsure w (se_version e) i \<or> i \<notin> scope_set (se_ids e)
     \<or> scope_view (sw_db w) key i \<noteq> Some (Some d) \<or> (\<exists>x. se_expiry e = Some x \<and> x \<le> d))"

text \<open>No member has expired.\<close>

definition entry_fresh :: "scope_entry \<Rightarrow> scope_world \<Rightarrow> scope_key \<Rightarrow> int \<Rightarrow> bool" where
  "entry_fresh e w key now \<longleftrightarrow> (\<forall>i. unsure w (se_version e) i
     \<or> (i \<in> scope_set (se_ids e) \<longrightarrow> view_live (sw_db w) key now i))"

abbreviation entry_ok :: "scope_entry \<Rightarrow> scope_world \<Rightarrow> scope_key \<Rightarrow> int \<Rightarrow> bool" where
  "entry_ok e w key now \<equiv> entry_sound e w key now \<and> entry_timed e w key"

definition world_ok :: "scope_world \<Rightarrow> bool" where
  "world_ok w \<longleftrightarrow> tbl_ok fr_id (db_fragments (sw_db w)) \<and> log_ok w"

lemma unsure_now [simp]: "\<not> unsure w (sw_version w) i"
  by (simp add: unsure_def)

lemma unsure_split:
  "a \<le> b \<Longrightarrow> b \<le> sw_version w \<Longrightarrow> log_known (sw_log w) a b \<Longrightarrow>
   unsure w a i \<longleftrightarrow> unsure w b i \<or> i \<in> log_touched (sw_log w) a b"
  unfolding unsure_def using log_touched_split[of a b "sw_version w" "sw_log w"]
    log_known_split[of a b "sw_version w" "sw_log w"] by auto

lemma view_live_view: "view_live db key now i \<Longrightarrow> scope_view db key i \<noteq> None"
  by (auto simp: view_live_def split: option.splits)

lemma view_live_mono: "view_live db key now' i \<Longrightarrow> now \<le> now' \<Longrightarrow> view_live db key now i"
  by (auto simp: view_live_def split: option.splits)

lemma timed_fresh:
  assumes "entry_ok e w key now" "\<And>x. se_expiry e = Some x \<Longrightarrow> now < x"
  shows "entry_fresh e w key now"
proof -
  have "view_live (sw_db w) key now i" if "\<not> unsure w (se_version e) i" "i \<in> scope_set (se_ids e)" for i
  proof -
  from that have "scope_view (sw_db w) key i \<noteq> None"
    "\<And>d. scope_view (sw_db w) key i = Some (Some d) \<Longrightarrow> \<exists>x. se_expiry e = Some x \<and> x \<le> d"
    using assms(1) unfolding entry_sound_def scope_sound_def entry_timed_def by blast+
  then show "view_live (sw_db w) key now i"
    using assms(2) by (fastforce simp: view_live_def split: option.splits)
  qed
  then show ?thesis unfolding entry_fresh_def by blast
qed

text \<open>An entry that is right about every id is the answer of a scan.\<close>

lemma entry_exact:
  assumes "world_ok w" "entry_sound e w key now" "entry_fresh e w key now" "se_version e = sw_version w"
  shows "scope_set (se_ids e) = scope_query (sw_db w) key now"
  using assms scope_query_view[of "sw_db w" _ key now]
  by (auto simp: world_ok_def entry_sound_def scope_sound_def entry_fresh_def)

subsection \<open>A scan\<close>

lemma next_expiry_le:
  assumes "r \<in> set (db_fragments db)" "fr_agent r = a" "ttl_live now r" "ttl_deadline r = Some d"
  shows "\<exists>left. next_expiry db a now = Some left \<and> now + left \<le> d"
proof -
  define ds where "ds = List.map_filter ttl_deadline
    (filter (\<lambda>r. fr_agent r = a \<and> fr_ttl r \<noteq> None \<and> ttl_live now r) (db_fragments db))"
  have "r \<in> set (filter (\<lambda>r. fr_agent r = a \<and> fr_ttl r \<noteq> None \<and> ttl_live now r) (db_fragments db))"
    using assms by (auto simp: ttl_deadline_def)
  then have d: "d \<in> set ds"
    using assms(4) by (force simp: ds_def List.map_filter_def)
  then have "Min (set ds) \<le> d" by (intro Min_le) simp_all
  moreover have "now \<le> d" using assms(3,4) by (simp add: ttl_live_def)
  moreover have "next_expiry db a now = Some (max 0 (Min (set ds) - now))"
    using d unfolding next_expiry_def Let_def ds_def[symmetric] by auto
  ultimately show ?thesis by auto
qed

lemma next_expiry_view:
  assumes "tbl_ok fr_id (db_fragments db)" "scope_view db key i = Some (Some d)" "view_live db key now i"
  shows "\<exists>left. next_expiry db (fst key) now = Some left \<and> now + left \<le> d"
proof -
  obtain r where r: "tbl_get fr_id (db_fragments db) i = Some r" "fragment_matches db (fst key) (snd key) r"
    "ttl_deadline r = Some d"
    using assms(2) by (auto simp: scope_view_def split: option.splits if_splits)
  then have "r \<in> set (db_fragments db)" "fr_agent r = fst key" "ttl_live now r"
    using assms(2,3) tbl_get_SomeD[OF r(1)]
    by (auto simp: fragment_matches_def ttl_live_def view_live_def)
  then show ?thesis using next_expiry_le r(3) by blast
qed

lemma full_scope_ok:
  assumes "world_ok w" "v \<le> sw_version w"
  shows "entry_ok (fst (full_scope tok w key v now)) w key now
    \<and> entry_fresh (fst (full_scope tok w key v now)) w key now
    \<and> se_version (fst (full_scope tok w key v now)) = v"
proof -
  let ?e = "fst (full_scope tok w key v now)"
  have ids: "scope_set (se_ids ?e) = scope_query (sw_db w) key now" "scope_inv (se_ids ?e)"
    by (simp_all add: full_scope_def scope_query_def)
  have ex: "se_expiry ?e = map_option (\<lambda>left. now + left) (next_expiry (sw_db w) (fst key) now)"
    "se_version ?e = v" by (simp_all add: full_scope_def)
  have tbl: "tbl_ok fr_id (db_fragments (sw_db w))" using assms(1) by (simp add: world_ok_def)
  have "entry_timed ?e w key"
    using next_expiry_view[OF tbl, of key _ _ now]
    unfolding entry_timed_def ids ex scope_query_view[OF tbl] by fastforce
  then show ?thesis
    using assms(2) view_live_view[of "sw_db w" key now]
    unfolding entry_sound_def scope_sound_def entry_fresh_def ids ex(2) scope_query_view[OF tbl]
    using ids(2) by blast
qed

subsection \<open>The logged delta\<close>

lemma rows_by_id_view:
  "tbl_ok fr_id (db_fragments db) \<Longrightarrow>
   fr_id ` set (rows_by_id db key T now) = {i \<in> T. view_live db key now i}"
proof -
  have "fr_id ` set (rows_by_id db key T now) = T \<inter> scope_query db key now"
    by (auto simp: rows_by_id_def scope_query_def)
  then show "tbl_ok fr_id (db_fragments db) \<Longrightarrow> ?thesis"
    by (auto simp: scope_query_view)
qed

lemma opt_min_le:
  "opt_min a (Some x) = Some y \<Longrightarrow> y \<le> x" "\<exists>y. opt_min a (Some x) = Some y \<and> y \<le> x"
  "\<exists>y. opt_min (Some x) b = Some y \<and> y \<le> x"
  by (auto simp: opt_min_def split: option.splits)

lemma soonest_le:
  assumes "r \<in> set rows" "ttl_deadline r = Some d"
  shows "\<exists>left. fold (\<lambda>r s. case ttl_deadline r of None \<Rightarrow> s
      | Some d \<Rightarrow> opt_min s (Some (max 0 (d - now)))) rows s0 = Some left \<and> left \<le> max 0 (d - now)"
    (is "\<exists>left. fold ?f rows s0 = _ \<and> _")
proof -
  have keep: "\<exists>y. fold ?f rs (Some x) = Some y \<and> y \<le> x" for rs x
  proof (induction rs arbitrary: x)
    case (Cons q rs)
    obtain y where "?f q (Some x) = Some y" "y \<le> x"
      using opt_min_le(3)[of x] by (cases "ttl_deadline q") auto
    then show ?case using Cons.IH[of y] by fastforce
  qed simp
  from assms(1) obtain as bs where "rows = as @ r # bs" by (auto simp: in_set_conv_decomp)
  moreover obtain y where "?f r (fold ?f as s0) = Some y" "y \<le> max 0 (d - now)"
    using opt_min_le(2)[of "fold ?f as s0" "max 0 (d - now)"] assms(2) by auto
  ultimately show ?thesis using keep[of bs y] by fastforce
qed

lemma soonest_view:
  assumes "tbl_ok fr_id (db_fragments db)" "i \<in> T" "view_live db key now i"
    "scope_view db key i = Some (Some d)"
  shows "\<exists>left. fold (\<lambda>r s. case ttl_deadline r of None \<Rightarrow> s
      | Some d \<Rightarrow> opt_min s (Some (max 0 (d - now)))) (rows_by_id db key T now) s0 = Some left
      \<and> now + left \<le> d"
proof -
  have "i \<in> fr_id ` set (rows_by_id db key T now)"
    using assms by (simp add: rows_by_id_view)
  then obtain r where r: "r \<in> set (rows_by_id db key T now)" "i = fr_id r" by blast
  then have "r \<in> set (scope_rows db key)" by (simp add: rows_by_id_def)
  then have "ttl_deadline r = Some d"
    using scope_view_row[OF assms(1)] assms(4) r(2) by simp
  moreover have "now \<le> d" using assms(3,4) by (simp add: view_live_def)
  ultimately show ?thesis using soonest_le[OF r(1), of d now s0] by fastforce
qed

text \<open>The ids after the delta: the logged ids are re-evaluated, the others stay.\<close>

lemma apply_log_set:
  assumes "world_ok w" "scope_inv (se_ids e)" "apply_log tok w e v key now mx = (Some e', tok')"
  shows "scope_inv (se_ids e') \<and> se_version e' = v \<and> se_version e \<le> v
    \<and> log_known (sw_log w) (se_version e) v
    \<and> (\<forall>i. i \<in> scope_set (se_ids e') \<longleftrightarrow> (if i \<in> log_touched (sw_log w) (se_version e) v
         then view_live (sw_db w) key now i else i \<in> scope_set (se_ids e)))"
proof -
  obtain T where T: "changed_since (sw_log w) (se_version e) v mx = Some T"
    using assms(3) by (auto simp: apply_log_def split: option.splits)
  note ch = changed_since_Some[OF _ T]
  have log: "se_version e \<le> v" "log_known (sw_log w) (se_version e) v" "T = log_touched (sw_log w) (se_version e) v"
    using ch assms(1) by (auto simp: world_ok_def)
  let ?P = "{i \<in> T. view_live (sw_db w) key now i}"
  have P: "fr_id ` set (rows_by_id (sw_db w) key T now) = ?P"
    using assms(1) by (simp add: rows_by_id_view world_ok_def)
  have fin: "finite T" unfolding log(3) by (rule log_touched_finite)
  define stale where "stale = (\<not> (\<forall>i\<in>?P. scope_contains (se_ids e) i) \<or> \<not> scope_isdisjoint (se_ids e) (T - ?P))"
  have e': "se_version e' = v" "se_ids e' = (if stale then scope_derive tok (se_ids e) ?P (T - ?P) else se_ids e)"
    using assms(3) unfolding apply_log_def T option.case Let_def P stale_def[symmetric] by auto
  have inv: "scope_inv (scope_derive tok (se_ids e) ?P (T - ?P))"
    and set: "scope_set (scope_derive tok (se_ids e) ?P (T - ?P)) = (scope_set (se_ids e) \<union> ?P) - (T - ?P)"
    using fin by (auto intro!: scope_derive_inv scope_derive_set assms(2))
  have "scope_inv (se_ids e')" using inv assms(2) by (simp add: e')
  moreover have "i \<in> scope_set (se_ids e') \<longleftrightarrow> (if i \<in> T then i \<in> ?P else i \<in> scope_set (se_ids e))" for i
    using set stale_def by (auto simp: e' scope_ops_correct scope_contains_set)
  ultimately show ?thesis using e' log by auto
qed

lemma apply_log_expiry:
  assumes "world_ok w" "apply_log tok w e v key now mx = (Some e', tok')"
    "scope_view (sw_db w) key i = Some (Some d)" "view_live (sw_db w) key now i"
    "i \<in> log_touched (sw_log w) (se_version e) v"
  shows "\<exists>x. se_expiry e' = Some x \<and> x \<le> d"
proof -
  obtain T where T: "changed_since (sw_log w) (se_version e) v mx = Some T"
    using assms(2) by (auto simp: apply_log_def split: option.splits)
  then have "i \<in> T" using changed_since_Some[OF _ T] assms(1,5) by (simp add: world_ok_def)
  then obtain left where "fold (\<lambda>r s. case ttl_deadline r of None \<Rightarrow> s
      | Some d \<Rightarrow> opt_min s (Some (max 0 (d - now)))) (rows_by_id (sw_db w) key T now) None = Some left"
      "now + left \<le> d"
    using soonest_view[of "sw_db w" i T key now d None] assms(1,3,4) by (auto simp: world_ok_def)
  moreover have "se_expiry e' = opt_min (se_expiry e) (map_option (\<lambda>left. now + left)
      (fold (\<lambda>r s. case ttl_deadline r of None \<Rightarrow> s
      | Some d \<Rightarrow> opt_min s (Some (max 0 (d - now)))) (rows_by_id (sw_db w) key T now) None))"
    using assms(2) unfolding apply_log_def T option.case Let_def by auto
  ultimately show ?thesis
    using opt_min_le(2)[of "se_expiry e" "now + left"] by fastforce
qed

lemma apply_log_expiry_le:
  assumes "apply_log tok w e v key now mx = (Some e', tok')" "se_expiry e = Some x"
  shows "\<exists>y. se_expiry e' = Some y \<and> y \<le> x"
  using assms opt_min_le(3)[of x] by (auto simp: apply_log_def Let_def split: option.splits)

lemma apply_log_ok:
  assumes "world_ok w" "entry_sound e w key now" "v \<le> sw_version w"
    "apply_log tok w e v key now mx = (Some e', tok')"
  shows "entry_sound e' w key now \<and> se_version e' = v \<and> (entry_timed e w key \<longrightarrow> entry_timed e' w key)"
proof -
  note inv = conjunct1[OF assms(2)[unfolded entry_sound_def]]
  note ap = apply_log_set[OF assms(1) inv assms(4)]
  have uns: "unsure w (se_version e) i \<longleftrightarrow> unsure w v i \<or> i \<in> log_touched (sw_log w) (se_version e) v" for i
    using unsure_split[of "se_version e" v w] ap assms(3) by blast
  have "scope_sound (scope_set (se_ids e')) v w key now"
    using assms(2,3) ap view_live_view[of "sw_db w" key now]
    unfolding entry_sound_def scope_sound_def uns by (metis (full_types))
  moreover have "entry_timed e' w key" if t: "entry_timed e w key"
  proof -
    have "\<exists>x. se_expiry e' = Some x \<and> x \<le> d"
      if i: "\<not> unsure w v i" "i \<in> scope_set (se_ids e')" "scope_view (sw_db w) key i = Some (Some d)" for i d
    proof (cases "i \<in> log_touched (sw_log w) (se_version e) v")
      case True
      with i ap show ?thesis using apply_log_expiry[OF assms(1,4) i(3)] by auto
    next
      case False
      with i ap uns t obtain x where "se_expiry e = Some x" "x \<le> d"
        unfolding entry_timed_def by metis
      then show ?thesis using apply_log_expiry_le[OF assms(4)] by fastforce
    qed
    then show ?thesis using ap unfolding entry_timed_def by metis
  qed
  ultimately show ?thesis using ap by (simp add: entry_sound_def)
qed

subsection \<open>Expiry\<close>

lemma not_live_row:
  assumes "tbl_ok fr_id (db_fragments db)" "scope_view db key i \<noteq> None" "\<not> view_live db key now i"
  shows "\<exists>r\<in>set (db_fragments db). fr_agent r = fst key \<and> \<not> ttl_live now r \<and> fr_id r = i"
proof -
  obtain r where r: "tbl_get fr_id (db_fragments db) i = Some r" "fragment_matches db (fst key) (snd key) r"
    using assms(2) by (auto simp: scope_view_def split: option.splits if_splits)
  then have "\<not> ttl_live now r"
    using assms(3) by (auto simp: view_live_def scope_view_def ttl_live_def split: option.splits)
  moreover have "fr_agent r = fst key" using r(2) by (simp add: fragment_matches_def)
  ultimately show ?thesis using tbl_get_SomeD[OF r(1)] by blast
qed

lemma live_not_gone:
  assumes "tbl_ok fr_id (db_fragments db)" "view_live db key now (fr_id r)" "r \<in> set (db_fragments db)"
  shows "ttl_live now r"
proof -
  have "tbl_get fr_id (db_fragments db) (fr_id r) = Some r" using assms(1,3) by (simp add: tbl_get_Some)
  with assms(2) show ?thesis
    by (auto simp: view_live_def scope_view_def ttl_live_def split: option.splits if_splits)
qed

lemma scope_expire_set:
  assumes "scope_inv (se_ids e)"
    and gone_def: "gone = fr_id ` set (filter (\<lambda>r. fr_agent r = a \<and> \<not> ttl_live now r) (db_fragments (sw_db w)))"
  shows "scope_inv (se_ids (fst (scope_expire tok w e a now)))"
    "scope_set (se_ids (fst (scope_expire tok w e a now))) = scope_set (se_ids e) - gone"
proof -
  let ?e = "fst (scope_expire tok w e a now)"
  have e: "se_ids ?e = (if scope_isdisjoint (se_ids e) gone then se_ids e else scope_derive tok (se_ids e) {} gone)"
    unfolding gone_def by (simp add: scope_expire_def Let_def)
  have "finite gone" by (simp add: gone_def)
  then show "scope_inv (se_ids ?e)" unfolding e using assms(1) by (auto intro: scope_derive_inv)
  show "scope_set (se_ids ?e) = scope_set (se_ids e) - gone"
    unfolding e using assms(1) by (auto simp: scope_derive_set scope_ops_correct)
qed

lemma scope_expire_ok:
  assumes "world_ok w" "entry_sound e w key now"
  shows "entry_ok (fst (scope_expire tok w e (fst key) now)) w key now
    \<and> entry_fresh (fst (scope_expire tok w e (fst key) now)) w key now
    \<and> se_version (fst (scope_expire tok w e (fst key) now)) = se_version e"
proof -
  let ?e = "fst (scope_expire tok w e (fst key) now)"
  let ?gone = "fr_id ` set (filter (\<lambda>r. fr_agent r = fst key \<and> \<not> ttl_live now r) (db_fragments (sw_db w)))"
  have tbl: "tbl_ok fr_id (db_fragments (sw_db w))" using assms(1) by (simp add: world_ok_def)
  have inv0: "scope_inv (se_ids e)" using assms(2) by (simp add: entry_sound_def)
  note ids = scope_expire_set[OF inv0 refl, where a = "fst key" and now = now and w = w and tok = tok]
  have v: "se_version ?e = se_version e" "se_expiry ?e = map_option (\<lambda>left. now + left) (next_expiry (sw_db w) (fst key) now)"
    by (simp_all add: scope_expire_def Let_def)
  have live: "view_live (sw_db w) key now i \<Longrightarrow> i \<notin> ?gone" for i
    using live_not_gone[OF tbl, of key now] by auto
  have gone: "scope_view (sw_db w) key i \<noteq> None \<Longrightarrow> \<not> view_live (sw_db w) key now i \<Longrightarrow> i \<in> ?gone" for i
    using not_live_row[OF tbl, of key i now] by auto
  have fresh: "view_live (sw_db w) key now i"
    if "\<not> unsure w (se_version e) i" "i \<in> scope_set (se_ids ?e)" for i
  proof -
    have "scope_view (sw_db w) key i \<noteq> None"
      using that assms(2) ids(2) unfolding entry_sound_def scope_sound_def by blast
    then show ?thesis using that(2) ids(2) gone by blast
  qed
  have "entry_timed ?e w key"
    unfolding entry_timed_def v
  proof (intro allI)
    fix i d
    have "\<exists>x. map_option (\<lambda>left. now + left) (next_expiry (sw_db w) (fst key) now) = Some x \<and> x \<le> d"
      if "\<not> unsure w (se_version e) i" "i \<in> scope_set (se_ids ?e)" "scope_view (sw_db w) key i = Some (Some d)"
      using next_expiry_view[OF tbl that(3) fresh[OF that(1,2)]] by auto
    then show "unsure w (se_version e) i \<or> i \<notin> scope_set (se_ids ?e)
       \<or> scope_view (sw_db w) key i \<noteq> Some (Some d)
       \<or> (\<exists>x. map_option (\<lambda>left. now + left) (next_expiry (sw_db w) (fst key) now) = Some x \<and> x \<le> d)" by blast
  qed
  moreover have "entry_sound ?e w key now"
    using assms(2) live unfolding entry_sound_def scope_sound_def ids(2) v(1)
    using ids(1) by blast
  ultimately show ?thesis
    using fresh unfolding entry_fresh_def v(1) by blast
qed

subsection \<open>Snapshots\<close>

lemma split_lines_not_Nil [simp]: "split_lines s \<noteq> []"
  by (cases s) (auto split: list.splits)

lemma split_lines_append: "split_lines (x @ 10 # y) = split_lines x @ split_lines y"
  by (induction x) (auto split: list.splits)

lemma split_lines_join: "xs \<noteq> [] \<Longrightarrow> split_lines (py_join [10] xs) = concat (map split_lines xs)"
  by (induction "[10::nat]" xs rule: py_join.induct) (auto simp: split_lines_append)

lemma split_lines_single: "length (split_lines x) = 1 \<Longrightarrow> split_lines x = [x]"
proof (induction x)
  case (Cons c cs)
  then show ?case by (cases "split_lines cs") (auto split: if_splits)
qed simp

lemma split_lines_ge1: "1 \<le> length (split_lines x)"
  by (metis length_0_conv less_one linorder_not_le split_lines_not_Nil)

lemma concat_split_lines_ge: "length xs \<le> length (concat (map split_lines xs))"
proof (induction xs)
  case (Cons x xs)
  then show ?case using split_lines_ge1[of x] by simp
qed simp

lemma concat_split_lines_eq:
  "length (concat (map split_lines xs)) = length xs \<Longrightarrow> concat (map split_lines xs) = xs"
proof (induction xs)
  case (Cons x xs)
  have "length (split_lines x) = 1" "length (concat (map split_lines xs)) = length xs"
    using Cons.prems split_lines_ge1[of x] concat_split_lines_ge[of xs] by (simp_all del: One_nat_def)
  then show ?case using Cons.IH split_lines_single by simp
qed simp

lemma concat_slices:
  "n * k \<ge> length xs \<Longrightarrow> concat (map (\<lambda>j. take k (drop (j * k) xs)) [0..<n]) = xs"
proof (induction n arbitrary: xs)
  case (Suc n)
  have "[0..<Suc n] = 0 # map Suc [0..<n]" by (metis map_Suc_upt upt_conv_Cons zero_less_Suc)
  then have "concat (map (\<lambda>j. take k (drop (j * k) xs)) [0..<Suc n])
      = take k xs @ concat (map (\<lambda>j. take k (drop (j * k) (drop k xs))) [0..<n])"
    by (simp add: comp_def add.commute)
  also have "\<dots> = xs" using Suc.IH[of "drop k xs"] Suc.prems by simp
  finally show ?case .
qed simp

lemma scope_texts_ids:
  "concat (map split_lines (scope_texts ids)) = concat (map split_lines ids)"
proof -
  let ?n = "(length ids + PART_IDS - 1) div PART_IDS"
  have pos: "0 < PART_IDS" by (simp add: PART_IDS_def)
  have part: "take PART_IDS (drop (j * PART_IDS) ids) \<noteq> []" if "j < ?n" for j
  proof -
    have "(j + 1) * PART_IDS \<le> length ids + PART_IDS - 1"
      using that pos by (metis Suc_eq_plus1 Suc_leI less_eq_div_iff_mult_less_eq)
    then show ?thesis using pos by auto
  qed
  have "length ids \<le> ?n * PART_IDS"
  proof -
    have "length ids + PART_IDS - 1 < (?n + 1) * PART_IDS"
      using pos by (metis Suc_eq_plus1 dividend_less_div_times mult.commute mult_Suc)
    then show ?thesis using pos by simp
  qed
  then have "ids = concat (map (\<lambda>j. take PART_IDS (drop (j * PART_IDS) ids)) [0..<?n])"
    by (rule concat_slices[symmetric])
  moreover have "map split_lines (scope_texts ids)
      = map (\<lambda>j. concat (map split_lines (take PART_IDS (drop (j * PART_IDS) ids)))) [0..<?n]"
    unfolding scope_texts_def using part by (auto simp: split_lines_join)
  moreover have "concat (map (\<lambda>j. concat (map split_lines (f j))) js) = concat (map split_lines (concat (map f js)))"
    for f :: "nat \<Rightarrow> ustr list" and js
    by (induction js) auto
  ultimately show ?thesis by simp
qed

text \<open>A snapshot is read back as it was saved or not at all: an id with a line break in it makes
  the count wrong.\<close>

lemma snapshot_read_back:
  assumes "inj kh" "snapshot_scope_ids kh dg (save_scope_snapshot kh dg w key ids v) key' = Some (v', ids')"
  shows "key' = key \<and> v' = v \<and> ids' = ids \<or> snapshot_scope_ids kh dg w key' = Some (v', ids')"
proof (cases "fst key' = fst key")
  case True
  then have *: "kh key = kh key'" "v' = v" "ids' = concat (map split_lines ids)"
    "length (concat (map split_lines ids)) = length ids"
    using assms(2)
    by (auto simp: snapshot_scope_ids_def save_scope_snapshot_def update_conv' Let_def scope_texts_ids
        split: if_splits)
  from concat_split_lines_eq[OF *(4)] *(3) have "ids' = ids" by simp
  moreover have "key' = key" using *(1) assms(1) by (simp add: inj_eq)
  ultimately show ?thesis using *(2) by simp
next
  case False
  then show ?thesis
    using assms(2) by (simp add: snapshot_scope_ids_def save_scope_snapshot_def update_conv')
qed

definition snaps_ok :: "(scope_key \<Rightarrow> ustr) \<Rightarrow> (ustr list \<Rightarrow> ustr) \<Rightarrow> scope_world \<Rightarrow> int \<Rightarrow> bool" where
  "snaps_ok kh dg w now \<longleftrightarrow> (\<forall>key v ids.
     snapshot_scope_ids kh dg w key = Some (v, ids) \<longrightarrow> scope_sound (set ids) v w key now)"

definition cache_ok :: "scope_world \<Rightarrow> scope_cache \<Rightarrow> int \<Rightarrow> bool" where
  "cache_ok w c now \<longleftrightarrow> (\<forall>key e. map_of c key = Some e \<longrightarrow> entry_ok e w key now)"

lemma snaps_frame [simp]:
  "unsure (save_scope_snapshot kh dg w key ids v) a i = unsure w a i"
  "sw_db (save_scope_snapshot kh dg w key ids v) = sw_db w"
  "sw_version (save_scope_snapshot kh dg w key ids v) = sw_version w"
  "sw_log (save_scope_snapshot kh dg w key ids v) = sw_log w"
  by (simp_all add: save_scope_snapshot_def unsure_def)

lemma world_frame:
  assumes "sw_db w' = sw_db w" "sw_version w' = sw_version w" "sw_log w' = sw_log w"
  shows "world_ok w' = world_ok w" "cache_ok w' c now = cache_ok w c now"
    "scope_sound X v w' key now = scope_sound X v w key now" "entry_fresh e w' key now = entry_fresh e w key now"
    "entry_sound e w' key now = entry_sound e w key now" "entry_timed e w' key = entry_timed e w key"
proof -
  have uns: "unsure w' v i = unsure w v i" for v i using assms by (simp add: unsure_def)
  show s: "scope_sound X v w' key now = scope_sound X v w key now" for X v key
    by (simp add: scope_sound_def assms uns)
  show es: "entry_sound e w' key now = entry_sound e w key now" for e key by (simp add: entry_sound_def s)
  show et: "entry_timed e w' key = entry_timed e w key" for e key by (simp add: entry_timed_def uns assms)
  show "entry_fresh e w' key now = entry_fresh e w key now" by (simp add: entry_fresh_def uns assms)
  show "world_ok w' = world_ok w" by (simp add: world_ok_def log_ok_def assms)
  show "cache_ok w' c now = cache_ok w c now" by (simp add: cache_ok_def es et)
qed

lemma save_snaps_ok:
  assumes "inj kh" "snaps_ok kh dg w now" "scope_sound (set ids) v w key now"
  shows "snaps_ok kh dg (save_scope_snapshot kh dg w key ids v) now"
  unfolding snaps_ok_def
proof (intro allI impI)
  fix key' v' ids'
  assume "snapshot_scope_ids kh dg (save_scope_snapshot kh dg w key ids v) key' = Some (v', ids')"
  from snapshot_read_back[OF assms(1) this] assms(2,3)
  have "scope_sound (set ids') v' w key' now" unfolding snaps_ok_def by blast
  then show "scope_sound (set ids') v' (save_scope_snapshot kh dg w key ids v) key' now"
    by (simp add: scope_sound_def)
qed

lemma record_scope_ok:
  assumes "inj kh" "snaps_ok kh dg w now" "cache_ok w c now" "distinct ids"
  shows "snaps_ok kh dg (record_scope_if_exact kh dg w c a ids v) now"
proof (cases "map_of c (default_scope_key a)")
  case None
  then show ?thesis using assms(2) by (simp add: record_scope_if_exact_def Let_def)
next
  case (Some e)
  then have ok: "entry_sound e w (default_scope_key a) now" using assms(3) unfolding cache_ok_def by blast
  show ?thesis
  proof (cases "se_version e = v \<and> si_len (se_ids e) = int (length ids) \<and> list_all (scope_contains (se_ids e)) ids")
    case True
    have inv: "scope_inv (se_ids e)" using ok by (simp add: entry_sound_def)
    have "set ids \<subseteq> scope_set (se_ids e)" using True by (auto simp: list_all_iff scope_contains_set)
    moreover have "card (set ids) = card (scope_set (se_ids e))"
      using True scope_len[OF inv] distinct_card[OF assms(4)] by simp
    ultimately have "set ids = scope_set (se_ids e)"
      using scope_inv_finite[OF inv] by (simp add: card_subset_eq)
    then have "scope_sound (set ids) v w (default_scope_key a) now"
      using ok True by (simp add: entry_sound_def)
    with True Some show ?thesis
      using save_snaps_ok[OF assms(1,2)] by (simp add: record_scope_if_exact_def Let_def)
  qed (use Some assms(2) in \<open>auto simp: record_scope_if_exact_def Let_def\<close>)
qed

subsection \<open>Reading\<close>

lemma refresh_cached_ok:
  assumes "world_ok w" "cache_ok w c now" "v \<le> sw_version w" "refresh_cached tok w c v key now = (Some e, t)"
  shows "entry_ok e w key now \<and> entry_fresh e w key now \<and> se_version e = v"
proof -
  obtain e0 where e0: "map_of c key = Some e0"
    using assms(4) by (auto simp: refresh_cached_def split: option.splits)
  then have ok0: "entry_ok e0 w key now" using assms(2) unfolding cache_ok_def by blast
  define r where "r = (if se_version e0 \<noteq> v then apply_log tok w e0 v key now MAX_DELTA_IDS else (Some e0, tok))"
  obtain e1 t1 where r: "r = (Some e1, t1)"
    using assms(4) e0 by (cases r) (auto simp: refresh_cached_def r_def[symmetric] split: if_splits option.splits)
  have ok1: "entry_ok e1 w key now \<and> se_version e1 = v"
    using r ok0 apply_log_ok[OF assms(1) _ assms(3), of e0 key now tok MAX_DELTA_IDS e1 t1]
    by (auto simp: r_def split: if_splits)
  have res: "(Some e, t) = (case se_expiry e1 of None \<Rightarrow> (Some e1, t1)
     | Some x \<Rightarrow> if x \<le> now then (let (e2, tok2) = scope_expire t1 w e1 (fst key) now in (Some e2, tok2))
         else (Some e1, t1))"
    using assms(4) e0 r by (simp add: refresh_cached_def r_def[symmetric] split: if_splits)
  show ?thesis
  proof (cases "\<exists>x. se_expiry e1 = Some x \<and> x \<le> now")
    case True
    then have "e = fst (scope_expire t1 w e1 (fst key) now)"
      using res by (auto simp: split_def Let_def)
    then show ?thesis using scope_expire_ok[OF assms(1), of e1 key now t1] ok1 by simp
  next
    case False
    then have "e = e1" using res by (auto split: option.splits if_splits)
    moreover have "entry_fresh e1 w key now"
      by (rule timed_fresh) (use ok1 False in fastforce)+
    ultimately show ?thesis using ok1 by simp
  qed
qed

lemma snapshot_scope_ok:
  assumes "world_ok w" "snaps_ok kh dg w now" "v \<le> sw_version w"
    "snapshot_scope kh dg tok w v key now = (Some e, t)"
  shows "entry_ok e w key now \<and> entry_fresh e w key now \<and> se_version e = v"
proof -
  obtain sv ids where s: "snapshot_scope_ids kh dg w key = Some (sv, ids)" "sv \<le> v"
    using assms(4) by (auto simp: snapshot_scope_def split: option.splits if_splits)
  let ?e0 = "\<lparr>se_ids = scope_ids_new tok (set ids), se_version = sv, se_expiry = None,
                      se_refresh = now + IDS_CACHE_MAX_AGE\<rparr>"
  have "scope_sound (set ids) sv w key now" using assms(2) s(1) unfolding snaps_ok_def by blast
  then have ok0: "entry_sound ?e0 w key now" by (simp add: entry_sound_def)
  define r where "r = (if sv \<noteq> v then apply_log (tok + 1) w ?e0 v key now SNAPSHOT_MAX_DELTA_IDS
                       else (Some ?e0, tok + 1))"
  obtain e1 t1 where r: "r = (Some e1, t1)"
    using assms(4) s by (cases r) (auto simp: snapshot_scope_def Let_def r_def[symmetric] split: option.splits)
  have ok1: "entry_sound e1 w key now \<and> se_version e1 = v"
    using r ok0 apply_log_ok[OF assms(1) ok0 assms(3), of "tok + 1" SNAPSHOT_MAX_DELTA_IDS e1 t1]
    by (auto simp: r_def split: if_splits)
  have "e = fst (scope_expire t1 w e1 (fst key) now)"
    using assms(4) s r by (simp add: snapshot_scope_def Let_def r_def[symmetric] split_def)
  then show ?thesis using scope_expire_ok[OF assms(1), of e1 key now t1] ok1 by simp
qed

lemma cache_put_ok:
  assumes "cache_ok w c now" "entry_ok e w key now" "distinct (map fst c)"
  shows "cache_ok w (cache_put c key e) now" "distinct (map fst (cache_put c key e))"
proof -
  have tl: "map_of (tl c) k = Some x \<Longrightarrow> map_of c k = Some x" for k x
    using assms(3) by (cases c) (auto dest: map_of_SomeD simp: image_iff)
  show "cache_ok w (cache_put c key e) now"
    using assms(1,2) tl by (auto simp: cache_ok_def cache_put_def update_conv' split: if_splits)
  show "distinct (map fst (cache_put c key e))"
    using assms(3) by (auto simp: cache_put_def distinct_tl map_tl intro!: distinct_update)
qed

lemma retrievable_ok:
  assumes "inj kh" "world_ok w" "cache_ok w c now" "distinct (map fst c)" "snaps_ok kh dg w now"
    "v \<le> sw_version w" "retrievable_id_set kh dg w c tok v key now = (e, w', c', tok')"
  shows "entry_ok e w key now \<and> entry_fresh e w key now \<and> se_version e = v
    \<and> sw_db w' = sw_db w \<and> sw_version w' = sw_version w \<and> sw_log w' = sw_log w
    \<and> cache_ok w' c' now \<and> distinct (map fst c') \<and> snaps_ok kh dg w' now"
proof -
  obtain e1 tok1 where r: "refresh_cached tok w c v key now = (e1, tok1)" by (cases "refresh_cached tok w c v key now")
  define first where "first = (e1 = None \<and> map_of c key = None)"
  obtain e2 tok2 where s: "(if first then snapshot_scope kh dg tok1 w v key now else (e1, tok1)) = (e2, tok2)"
    by (cases "if first then snapshot_scope kh dg tok1 w v key now else (e1, tok1)")
  have found: "entry_ok x w key now \<and> entry_fresh x w key now \<and> se_version x = v" if "e2 = Some x" for x
    using that s r refresh_cached_ok[OF assms(2,3,6)] snapshot_scope_ok[OF assms(2,5,6)]
    by (auto split: if_splits)
  have res: "(e, w', c', tok') = (case e2 of
           Some e \<Rightarrow> (e, w, cache_put c key e, tok2)
         | None \<Rightarrow> (let (e, tok3) = full_scope tok2 w key v now
              in (e, if first then save_scanned_scope kh dg w key e else w, cache_put c key e, tok3)))"
    using assms(7) unfolding retrievable_id_set_def r Let_def prod.case first_def[symmetric] s by simp
  show ?thesis
  proof (cases e2)
    case (Some x)
    then have "e = x" "w' = w" "c' = cache_put c key x" using res by simp_all
    then show ?thesis using found[OF Some] cache_put_ok[OF assms(3) _ assms(4), of x key] assms(5) by simp
  next
    case None
    let ?e = "fst (full_scope tok2 w key v now)"
    have e: "e = ?e" "w' = (if first then save_scanned_scope kh dg w key e else w)" "c' = cache_put c key ?e"
      using res None by (simp_all add: Let_def split_def)
    note full = full_scope_ok[OF assms(2,6), of tok2 key now]
    have inv: "scope_inv (se_ids e)" using full by (simp add: entry_sound_def e)
    have "scope_sound (scope_set (se_ids e)) (se_version e) w key now"
      using full unfolding e(1) entry_sound_def by blast
    then have "scope_sound (set (sorted_list_of_set (scope_iter (se_ids e)))) (se_version e) w key now"
      using scope_inv_finite[OF inv] by (simp add: scope_iter_set)
    from save_snaps_ok[OF assms(1,5) this] have "snaps_ok kh dg w' now"
      unfolding e(2) save_scanned_scope_def using assms(5) by simp
    moreover have "sw_db w' = sw_db w" "sw_version w' = sw_version w" "sw_log w' = sw_log w"
      by (simp_all add: e(2) save_scanned_scope_def)
    ultimately show ?thesis
      using full cache_put_ok[OF assms(3) _ assms(4), of ?e key] world_frame(2)[of w' w c' now] by (simp add: e(1,3))
  qed
qed

section \<open>Writes\<close>

text \<open>A later world: what an entry was sure of before and is still sure of has not changed.\<close>

definition world_later :: "scope_world \<Rightarrow> scope_world \<Rightarrow> bool" where
  "world_later w w' \<longleftrightarrow> sw_version w \<le> sw_version w' \<and> sw_snaps w' = sw_snaps w
     \<and> (\<forall>a i. a \<le> sw_version w \<longrightarrow> \<not> unsure w' a i \<longrightarrow>
          \<not> unsure w a i \<and> (\<forall>key. scope_view (sw_db w') key i = scope_view (sw_db w) key i))"

lemma world_later_sound:
  assumes "world_later w w'" "now \<le> now'"
  shows "scope_sound X v w key now \<Longrightarrow> scope_sound X v w' key now'"
proof -
  assume s: "scope_sound X v w key now"
  then have v: "v \<le> sw_version w" "v \<le> sw_version w'"
    using assms(1) by (auto simp: scope_sound_def world_later_def)
  have "(i \<in> X \<longrightarrow> scope_view (sw_db w') key i \<noteq> None) \<and> (view_live (sw_db w') key now' i \<longrightarrow> i \<in> X)"
    if "\<not> unsure w' v i" for i
  proof -
    have old: "\<not> unsure w v i" "scope_view (sw_db w') key i = scope_view (sw_db w) key i"
      using assms(1) that v unfolding world_later_def by blast+
    have "view_live (sw_db w) key now i" if "view_live (sw_db w') key now' i"
      using that old(2) view_live_mono[OF _ assms(2), of "sw_db w" key i] by (simp add: view_live_def)
    then show ?thesis using s old unfolding scope_sound_def by metis
  qed
  then show "scope_sound X v w' key now'" using v by (auto simp: scope_sound_def)
qed

lemma world_later_entry:
  assumes "world_later w w'" "now \<le> now'" "entry_ok e w key now"
  shows "entry_ok e w' key now'"
proof -
  have s: "entry_sound e w' key now'"
    using assms(3) world_later_sound[OF assms(1,2)] by (simp add: entry_sound_def)
  have v: "se_version e \<le> sw_version w" using assms(3) by (simp add: entry_sound_def scope_sound_def)
  have old: "\<not> unsure w (se_version e) i \<and> scope_view (sw_db w') key i = scope_view (sw_db w) key i"
    if "\<not> unsure w' (se_version e) i" for i
    using assms(1) that v unfolding world_later_def by blast
  have "entry_timed e w' key"
    unfolding entry_timed_def
  proof (intro allI)
    fix i d
    show "unsure w' (se_version e) i \<or> i \<notin> scope_set (se_ids e)
       \<or> scope_view (sw_db w') key i \<noteq> Some (Some d) \<or> (\<exists>x. se_expiry e = Some x \<and> x \<le> d)"
    proof (cases "unsure w' (se_version e) i")
      case False
      then show ?thesis using old[OF False] assms(3) unfolding entry_timed_def by metis
    qed simp
  qed
  then show ?thesis using s by simp
qed

lemma world_later_ok:
  assumes "world_later w w'" "now \<le> now'"
  shows "cache_ok w c now \<Longrightarrow> cache_ok w' c now'" "snaps_ok kh dg w now \<Longrightarrow> snaps_ok kh dg w' now'"
proof -
  show "cache_ok w c now \<Longrightarrow> cache_ok w' c now'"
    using world_later_entry[OF assms] unfolding cache_ok_def by blast
  have "snapshot_scope_ids kh dg w' key = snapshot_scope_ids kh dg w key" for key
    using assms(1) by (simp add: snapshot_scope_ids_def world_later_def)
  then show "snaps_ok kh dg w now \<Longrightarrow> snaps_ok kh dg w' now'"
    using world_later_sound[OF assms] unfolding snaps_ok_def by metis
qed

lemma world_later_refl: "world_later w w"
  by (simp add: world_later_def)

text \<open>A structural write that logged its ids, or not.\<close>

lemma commit_log:
  assumes "log_ok w" "w' = commit_write w db' (Structural notes)"
  shows "log_ok w'" "sw_version w' = Suc (sw_version w)" "sw_db w' = db'" "sw_snaps w' = sw_snaps w"
    "(x, Some ids) \<in> set (sw_log w') \<Longrightarrow> x \<le> sw_version w \<and> (x, Some ids) \<in> set (sw_log w)
       \<or> x = Suc (sw_version w) \<and> (\<exists>ns. notes = Some ns \<and> ids = remdups ns)"
proof -
  have le: "row \<in> set (sw_log w) \<Longrightarrow> fst row \<le> sw_version w" for row
    using assms(1) by (simp add: log_ok_def)
  let ?row = "(Suc (sw_version w), case notes of None \<Rightarrow> None
      | Some ns \<Rightarrow> if length ns > MAX_LOGGED_IDS then None else Some (remdups ns))"
  have sub: "set (sw_log w') \<subseteq> insert ?row (set (sw_log w))"
    unfolding assms(2) by (auto simp: log_structural_write_def Let_def tbl_replace_def split: if_splits)
  have dist: "distinct (map fst (sw_log w'))"
    using assms(1) unfolding assms(2) by (auto simp: log_structural_write_def Let_def log_ok_def)
  show v: "sw_version w' = Suc (sw_version w)" "sw_db w' = db'" "sw_snaps w' = sw_snaps w"
    by (simp_all add: assms(2) log_structural_write_def Let_def)
  show "log_ok w'"
    using dist sub le v(1) unfolding log_ok_def by fastforce
  show "x \<le> sw_version w \<and> (x, Some ids) \<in> set (sw_log w)
       \<or> x = Suc (sw_version w) \<and> (\<exists>ns. notes = Some ns \<and> ids = remdups ns)" if "(x, Some ids) \<in> set (sw_log w')"
    using that sub le[of "(x, Some ids)"] by (auto split: option.splits if_splits)
qed

lemma commit_sure:
  assumes "log_ok w" "w' = commit_write w db' (Structural notes)" "a \<le> sw_version w" "\<not> unsure w' a i"
  shows "\<not> unsure w a i \<and> (\<exists>ns. notes = Some ns \<and> i \<notin> set ns)"
proof -
  note cl = commit_log[OF assms(1,2)]
  have known': "a < x \<Longrightarrow> x \<le> Suc (sw_version w) \<Longrightarrow> \<exists>ids. (x, Some ids) \<in> set (sw_log w') \<and> i \<notin> set ids" for x
    using assms(4) cl(2) unfolding unsure_def log_known_def in_log_touched by metis
  have old: "\<exists>ids. (x, Some ids) \<in> set (sw_log w) \<and> i \<notin> set ids" if "a < x" "x \<le> sw_version w" for x
    using known'[of x] cl(5)[of x] that by fastforce
  have "log_known (sw_log w) a (sw_version w)" using old unfolding log_known_def by blast
  moreover have "i \<notin> log_touched (sw_log w) a (sw_version w)"
  proof
    assume "i \<in> log_touched (sw_log w) a (sw_version w)"
    then obtain x ids where x: "(x, Some ids) \<in> set (sw_log w)" "a < x" "x \<le> sw_version w" "i \<in> set ids"
      by (auto simp: in_log_touched)
    obtain ids' where "(x, Some ids') \<in> set (sw_log w)" "i \<notin> set ids'" using old x(2,3) by blast
    then show False using x(1,4) assms(1) by (auto simp: log_ok_def dest: eq_key_imp_eq_value)
  qed
  moreover obtain ids where "(Suc (sw_version w), Some ids) \<in> set (sw_log w')" "i \<notin> set ids"
    using known'[of "Suc (sw_version w)"] assms(3) by auto
  moreover from this obtain ns where "notes = Some ns" "ids = remdups ns" using cl(5) by fastforce
  ultimately show ?thesis by (auto simp: unsure_def)
qed

section \<open>The store's writes and what they note\<close>

datatype fragment_write =
    StoreMany "fragment list"
  | UpdateState datetime ustr memory_state
  | UpdateEmbedding ustr "real list"
  | DeleteFragment ustr
  | ClearFragments "ustr option"
  | PersistTampered datetime "ustr list"
  | UpdateImportance datetime "(ustr \<times> real) list"
  | TouchMany datetime "ustr list"

datatype block_write =
    StoreBlock block
  | AssignBlock datetime ustr "ustr option"
  | AddNode datetime ustr ustr
  | RemoveNode ustr ustr
  | StoreLink block_link
  | DeleteLink ustr

datatype graph_write =
    StoreNode node
  | StoreEdge edge
  | DeleteBetween ustr ustr "string option"
  | DeleteEdge ustr
  | UpdateEdgeWeight ustr real

text \<open>\<open>None\<close> is a write that raised and was rolled back. \<open>store_many([])\<close> notes nothing, so its
  change is unknown.\<close>

fun fragment_effect :: "provider \<Rightarrow> fragment_write \<Rightarrow> store_db \<Rightarrow> (store_db \<times> change) option" where
  "fragment_effect P (StoreMany fs) db = (case store_many P db fs of Inl _ \<Rightarrow> None
     | Inr (db', ids, gone) \<Rightarrow> Some (db', Structural (if fs = [] then None else Some (map fr_id fs))))"
| "fragment_effect P (UpdateState now fid s) db = Some (update_state now db fid s, Structural (Some [fid]))"
| "fragment_effect P (UpdateEmbedding fid e) db = Some (update_embedding db fid e, Unstructural)"
| "fragment_effect P (DeleteFragment fid) db =
     Some (Product_Type.fst (delete_fragment db fid), Structural (Some [fid]))"
| "fragment_effect P (ClearFragments a) db = Some (clear_fragments db a, Structural None)"
| "fragment_effect P (PersistTampered now fids) db = Some (persist_tampered now db fids, Structural (Some fids))"
| "fragment_effect P (UpdateImportance now upds) db = Some (update_importance_many now db upds, Unstructural)"
| "fragment_effect P (TouchMany now fids) db = Some (touch_many now db fids, Unstructural)"

fun block_effect :: "block_write \<Rightarrow> store_db \<Rightarrow> (store_db \<times> change) option" where
  "block_effect (StoreBlock b) db = Some (store_block db b, Structural None)"
| "block_effect (AssignBlock now fid bid) db = (case assign_fragment_block now db fid bid of Inl _ \<Rightarrow> None
     | Inr db' \<Rightarrow> Some (db', Structural (Some [fid])))"
| "block_effect (AddNode now bid nid) db = Some (add_node_to_block now db bid nid, Structural (Some []))"
| "block_effect (RemoveNode bid nid) db =
     Some (Product_Type.fst (remove_node_from_block db bid nid), Structural (Some []))"
| "block_effect (StoreLink l) db = Some (store_block_link db l, Structural (Some []))"
| "block_effect (DeleteLink lid) db = Some (Product_Type.fst (delete_block_link db lid), Structural (Some []))"

fun graph_effect :: "graph_write \<Rightarrow> store_db \<Rightarrow> (store_db \<times> change) option" where
  "graph_effect (StoreNode n) db = Some (store_node db n, Structural (Some []))"
| "graph_effect (StoreEdge e) db = Some (store_edge db e, Structural (Some []))"
| "graph_effect (DeleteBetween s t rel) db =
     Some (Product_Type.fst (delete_edges_between db s t rel), Structural (Some []))"
| "graph_effect (DeleteEdge eid) db = Some (Product_Type.fst (delete_edge db eid), Structural (Some []))"
| "graph_effect (UpdateEdgeWeight eid x) db = Some (update_edge_weight db eid x, Unstructural)"

datatype store_write = FragmentWrite fragment_write | BlockWrite block_write | GraphWrite graph_write

fun store_effect :: "provider \<Rightarrow> store_write \<Rightarrow> store_db \<Rightarrow> (store_db \<times> change) option" where
  "store_effect P (FragmentWrite x) db = fragment_effect P x db"
| "store_effect P (BlockWrite x) db = block_effect x db"
| "store_effect P (GraphWrite x) db = graph_effect x db"

lemma fragment_matches_cong:
  assumes "db_blocks db' = db_blocks db" "fr_agent r' = fr_agent r" "fr_block r' = fr_block r"
    "fr_scope r' = fr_scope r" "fr_tier r' = fr_tier r" "fr_session r' = fr_session r"
    "fr_tags r' = fr_tags r" "fr_state r' = fr_state r"
  shows "fragment_matches db' a ff r' = fragment_matches db a ff r"
  unfolding fragment_matches_def quarantined_blocks_def assms ..

lemma scope_view_cong:
  assumes "db_blocks db' = db_blocks db"
    "tbl_get fr_id (db_fragments db') i = tbl_get fr_id (db_fragments db) i"
  shows "scope_view db' key i = scope_view db key i"
  using assms fragment_matches_cong[of db' db]
  by (simp add: scope_view_def split: option.split)

text \<open>Updates of columns no scope looks at.\<close>

lemma scope_view_update:
  assumes "\<And>r. fr_id (g r) = fr_id r \<and> fr_agent (g r) = fr_agent r \<and> fr_block (g r) = fr_block r
    \<and> fr_scope (g r) = fr_scope r \<and> fr_tier (g r) = fr_tier r \<and> fr_session (g r) = fr_session r
    \<and> fr_tags (g r) = fr_tags r \<and> fr_state (g r) = fr_state r \<and> fr_ttl (g r) = fr_ttl r
    \<and> fr_created (g r) = fr_created r"
  shows "scope_view (db\<lparr>db_fragments := tbl_update p g (db_fragments db)\<rparr>) key i = scope_view db key i"
proof -
  let ?db = "db\<lparr>db_fragments := tbl_update p g (db_fragments db)\<rparr>"
  have m: "fragment_matches ?db a ff (g r) = fragment_matches db a ff r"
    "fragment_matches ?db a ff r = fragment_matches db a ff r" for a ff r
    by (rule fragment_matches_cong; simp add: assms)+
  have d: "ttl_deadline (g r) = ttl_deadline r" for r using assms by (simp add: ttl_deadline_def)
  show ?thesis
    unfolding scope_view_def using assms m d
    by (simp add: tbl_get_update split: option.split)
qed

lemma scope_view_other:
  assumes "\<And>r. fr_id (g r) = fr_id r" "\<not> p' i" "\<And>r. p r \<Longrightarrow> p' (fr_id r)"
  shows "scope_view (db\<lparr>db_fragments := tbl_update p g (db_fragments db)\<rparr>) key i = scope_view db key i"
proof (rule scope_view_cong)
  show "tbl_get fr_id (db_fragments (db\<lparr>db_fragments := tbl_update p g (db_fragments db)\<rparr>)) i
      = tbl_get fr_id (db_fragments db) i"
    using assms tbl_get_SomeD[of fr_id "db_fragments db" i]
    by (cases "tbl_get fr_id (db_fragments db) i") (auto simp: tbl_get_update)
qed simp

lemma store_many_frame:
  assumes "tbl_ok fr_id (db_fragments db)" "store_many P db fs = Inr (db', ids, gone)"
  shows "tbl_ok fr_id (db_fragments db') \<and> db_blocks db' = db_blocks db
    \<and> (\<forall>i. i \<notin> set (map fr_id fs) \<longrightarrow> tbl_get fr_id (db_fragments db') i = tbl_get fr_id (db_fragments db) i)"
  using assms
proof (induction fs arbitrary: db ids gone)
  case (Cons f fs)
  then obtain db1 g ids1 gone1 where row: "store_row P db f = Inr (db1, g)"
    and many: "store_many P db1 fs = Inr (db', ids1, gone1)"
    by (auto simp: bind_res_Inr_iff)
  from row have db1: "db_blocks db1 = db_blocks db" "tbl_ok fr_id (db_fragments db1)"
    "i \<noteq> fr_id f \<Longrightarrow> tbl_get fr_id (db_fragments db1) i = tbl_get fr_id (db_fragments db) i" for i
    using Cons.prems(1) by (auto simp: store_row_Inr_iff tbl_get_upsert hash_attach_def)
  show ?case using Cons.IH[OF db1(2) many] db1 by simp
qed simp

lemma importance_many_view:
  "tbl_ok fr_id (db_fragments (update_importance_many now db upds)) = tbl_ok fr_id (db_fragments db)
   \<and> scope_view (update_importance_many now db upds) key i = scope_view db key i"
  unfolding update_importance_many_def
proof (induction upds arbitrary: db)
  case (Cons x upds)
  obtain fid imp where x: "x = (fid, imp)" by (cases x)
  let ?g = "\<lambda>r. r\<lparr>fr_importance := max 0 (min 1 imp), fr_updated := now\<rparr>"
  have "scope_view (db\<lparr>db_fragments := tbl_update (\<lambda>r. fr_id r = fid) ?g (db_fragments db)\<rparr>) key i
      = scope_view db key i" by (rule scope_view_update) simp
  then show ?case unfolding x fold.simps o_apply case_prod_conv by (simp add: Cons.IH)
qed simp

text \<open>The contract of a store whose writes note what they change: primary keys stay unique,
  non-structural writes change no scope, and a structural write changes none outside its note.\<close>

locale noting_store =
  fixes effect :: "'w \<Rightarrow> store_db \<Rightarrow> (store_db \<times> change) option"
  assumes keys_kept: "tbl_ok fr_id (db_fragments db) \<Longrightarrow> effect x db = Some (db', ch) \<Longrightarrow>
      tbl_ok fr_id (db_fragments db')"
    and silent: "tbl_ok fr_id (db_fragments db) \<Longrightarrow> effect x db = Some (db', Unstructural) \<Longrightarrow>
      scope_view db' key i = scope_view db key i"
    and noted: "tbl_ok fr_id (db_fragments db) \<Longrightarrow> effect x db = Some (db', Structural (Some ids)) \<Longrightarrow>
      i \<notin> set ids \<Longrightarrow> scope_view db' key i = scope_view db key i"
begin

lemma commit_later:
  assumes "world_ok w" "effect x (sw_db w) = Some (db', ch)"
  shows "world_ok (commit_write w db' ch) \<and> world_later w (commit_write w db' ch)"
proof -
  have tbl: "tbl_ok fr_id (db_fragments (sw_db w))" and lg: "log_ok w"
    using assms(1) by (simp_all add: world_ok_def)
  note keys = keys_kept[OF tbl assms(2)]
  show ?thesis
  proof (cases ch)
    case Unstructural
    then have "scope_view db' key i = scope_view (sw_db w) key i" for key i
      using silent[OF tbl] assms(2) by simp
    moreover have "unsure (commit_write w db' ch) a i = unsure w a i" for a i
      by (simp add: unsure_def Unstructural)
    ultimately show ?thesis
      using keys lg by (simp add: Unstructural world_ok_def log_ok_def world_later_def)
  next
    case (Structural ns0)
    let ?w = "commit_write w db' (Structural ns0)"
    note cl = commit_log[OF lg, of ?w db' ns0, OF refl]
    have "\<not> unsure w a i \<and> (\<forall>key. scope_view db' key i = scope_view (sw_db w) key i)"
      if a: "a \<le> sw_version w" "\<not> unsure ?w a i" for a i
    proof -
      obtain ns where "ns0 = Some ns" "i \<notin> set ns" "\<not> unsure w a i"
        using commit_sure[OF lg refl a] by blast
      then show ?thesis using noted[OF tbl, of x db' ns i] assms(2) by (simp add: Structural)
    qed
    then show ?thesis using cl(1-4) keys by (simp add: Structural world_ok_def world_later_def)
  qed
qed

end

lemma fragment_effect_laws:
  assumes "tbl_ok fr_id (db_fragments db)" "fragment_effect P x db = Some (db', ch)"
  shows "tbl_ok fr_id (db_fragments db')" "ch = Unstructural \<Longrightarrow> scope_view db' key i = scope_view db key i"
    "ch = Structural (Some ids) \<Longrightarrow> i \<notin> set ids \<Longrightarrow> scope_view db' key i = scope_view db key i"
proof -
  note defs = update_state_def update_embedding_def persist_tampered_def touch_many_def
  have upd: "tbl_ok fr_id (db_fragments (update_state now db fid s)) = tbl_ok fr_id (db_fragments db)"
    for now fid s by (simp add: update_state_def)
  show "tbl_ok fr_id (db_fragments db')"
  proof (cases x)
    case (StoreMany fs)
    then obtain ids gone where "store_many P db fs = Inr (db', ids, gone)"
      using assms(2) by (auto split: sum.splits)
    then show ?thesis using store_many_frame[OF assms(1)] by blast
  qed (use assms importance_many_view in \<open>auto simp: delete_fragment_def clear_fragments_def split: option.splits\<close>)
  show "ch = Unstructural \<Longrightarrow> scope_view db' key i = scope_view db key i"
    using assms(2) importance_many_view[of _ db _ key i]
    by (cases x) (auto simp: update_embedding_def touch_many_def split: sum.splits intro!: scope_view_update)
  show "scope_view db' key i = scope_view db key i" if c: "ch = Structural (Some ids)" "i \<notin> set ids"
  proof (cases x)
    case (StoreMany fs)
    then obtain ids' gone where s: "store_many P db fs = Inr (db', ids', gone)" "ids = map fr_id fs"
      using assms(2) c(1) by (auto split: sum.splits if_splits)
    show ?thesis
      using store_many_frame[OF assms(1) s(1)] c(2) s(2) by (intro scope_view_cong) auto
  next
    case (UpdateState now fid s)
    then have "ids = [fid]" "db' = update_state now db fid s" using assms(2) c(1) by auto
    then show ?thesis
      using c(2) unfolding update_state_def by (auto intro!: scope_view_other[where p' = "\<lambda>j. j = fid"])
  next
    case (DeleteFragment fid)
    then show ?thesis using assms(2) c
      by (auto simp: delete_fragment_def tbl_get_delete_key split: option.splits intro!: scope_view_cong)
  next
    case (PersistTampered now fids)
    then have "ids = fids" "db' = persist_tampered now db fids" using assms(2) c(1) by auto
    then show ?thesis
      using c(2) unfolding persist_tampered_def by (auto intro!: scope_view_other[where p' = "\<lambda>j. j \<in> set fids"])
  qed (use assms(2) c in auto)
qed

lemma block_effect_laws:
  assumes "tbl_ok fr_id (db_fragments db)" "block_effect x db = Some (db', ch)"
  shows "tbl_ok fr_id (db_fragments db')" "ch = Structural (Some ids) \<Longrightarrow> i \<notin> set ids \<Longrightarrow>
      scope_view db' key i = scope_view db key i" "ch \<noteq> Unstructural"
proof -
  have assign: "db' = db\<lparr>db_fragments := tbl_update (\<lambda>r. fr_id r = fid)
                (\<lambda>r. r\<lparr>fr_block := bid, fr_updated := now\<rparr>) (db_fragments db)\<rparr>"
    if "assign_fragment_block now db fid bid = Inr db'" for now fid bid
    using that by (auto simp: assign_fragment_block_def Let_def split: if_splits)
  show "tbl_ok fr_id (db_fragments db')"
    using assms by (cases x) (auto split: sum.splits dest!: assign)
  show "ch \<noteq> Unstructural" using assms(2) by (cases x) (auto split: sum.splits)
  show "scope_view db' key i = scope_view db key i" if "ch = Structural (Some ids)" "i \<notin> set ids"
  proof (cases x)
    case (AssignBlock now fid bid)
    then have "assign_fragment_block now db fid bid = Inr db'" and i: "ids = [fid]"
      using assms(2) that(1) by (auto split: sum.splits)
    then have "db' = db\<lparr>db_fragments := tbl_update (\<lambda>r. fr_id r = fid)
                (\<lambda>r. r\<lparr>fr_block := bid, fr_updated := now\<rparr>) (db_fragments db)\<rparr>" by (auto dest: assign)
    then show ?thesis
      using that(2) i by (auto intro!: scope_view_other[where p' = "\<lambda>j. j = fid"])
  qed (use assms(2) that in \<open>auto intro!: scope_view_cong simp: add_node_to_block_def
      remove_node_from_block_def store_block_link_def delete_block_link_def\<close>)
qed

lemma graph_effect_laws:
  assumes "graph_effect x db = Some (db', ch)"
  shows "db_fragments db' = db_fragments db" "scope_view db' key i = scope_view db key i"
  using assms by (cases x; auto simp: store_node_def store_edge_def delete_edges_between_def
      delete_edge_def update_edge_weight_def Let_def intro!: scope_view_cong)+

interpretation scopes: noting_store "store_effect P" for P
proof unfold_locales
  fix db db' :: store_db and x :: store_write and ch key i ids
  assume tbl: "tbl_ok fr_id (db_fragments db)"
  show "tbl_ok fr_id (db_fragments db')" if e: "store_effect P x db = Some (db', ch)"
  proof (cases x)
    case (GraphWrite y)
    then show ?thesis using tbl graph_effect_laws(1) e by simp
  qed (use e fragment_effect_laws(1)[OF tbl] block_effect_laws(1)[OF tbl] in auto)
  show "scope_view db' key i = scope_view db key i" if e: "store_effect P x db = Some (db', Unstructural)"
  proof (cases x)
    case (BlockWrite y)
    then show ?thesis using block_effect_laws(3)[OF tbl, of y] e by auto
  qed (use e fragment_effect_laws(2)[OF tbl] graph_effect_laws(2) in auto)
  show "scope_view db' key i = scope_view db key i"
    if e: "store_effect P x db = Some (db', Structural (Some ids))" "i \<notin> set ids"
  proof (cases x)
    case (FragmentWrite y)
    then show ?thesis using fragment_effect_laws(3)[OF tbl, of P y db' "Structural (Some ids)"] e by simp
  next
    case (BlockWrite y)
    then show ?thesis using block_effect_laws(2)[OF tbl, of y db' "Structural (Some ids)"] e by simp
  qed (use e graph_effect_laws(2) in auto)
qed

section \<open>The cache among concurrent writers\<close>

text \<open>A reader process beside any writers: writes of the store and of builds that do not log,
  the clock, and reads in two halves, so that writes may come between the version a read saw and
  its queries.\<close>

record scope_sys =
  sy_world :: scope_world
  sy_cache :: scope_cache
  sy_tok :: nat
  sy_now :: int
  sy_pending :: "(scope_key \<times> nat) list"

inductive scope_reach ::
  "('w \<Rightarrow> store_db \<Rightarrow> (store_db \<times> change) option) \<Rightarrow> (scope_key \<Rightarrow> ustr) \<Rightarrow> (ustr list \<Rightarrow> ustr)
    \<Rightarrow> scope_sys \<Rightarrow> bool" for effect kh dg where
  scope_start: "tbl_ok fr_id (db_fragments db) \<Longrightarrow> scope_reach effect kh dg
     \<lparr>sy_world = \<lparr>sw_db = db, sw_version = v, sw_log = [], sw_snaps = []\<rparr>, sy_cache = [], sy_tok = 1,
      sy_now = now, sy_pending = []\<rparr>"
| scope_write: "scope_reach effect kh dg s \<Longrightarrow> effect x (sw_db (sy_world s)) = Some (db', ch) \<Longrightarrow>
     scope_reach effect kh dg (s\<lparr>sy_world := commit_write (sy_world s) db' ch\<rparr>)"
| scope_old_write: "scope_reach effect kh dg s \<Longrightarrow> tbl_ok fr_id (db_fragments db') \<Longrightarrow>
     scope_reach effect kh dg
       (s\<lparr>sy_world := (sy_world s)\<lparr>sw_db := db', sw_version := sw_version (sy_world s) + 1\<rparr>\<rparr>)"
| scope_tick: "scope_reach effect kh dg s \<Longrightarrow> sy_now s \<le> now \<Longrightarrow> scope_reach effect kh dg (s\<lparr>sy_now := now\<rparr>)"
| scope_begin: "scope_reach effect kh dg s \<Longrightarrow>
     scope_reach effect kh dg (s\<lparr>sy_pending := (key, sw_version (sy_world s)) # sy_pending s\<rparr>)"
| scope_finish: "scope_reach effect kh dg s \<Longrightarrow> (key, v) \<in> set (sy_pending s) \<Longrightarrow>
     retrievable_id_set kh dg (sy_world s) (sy_cache s) (sy_tok s) v key (sy_now s) = (e, w', c', tok') \<Longrightarrow>
     scope_reach effect kh dg (s\<lparr>sy_world := w', sy_cache := c', sy_tok := tok',
       sy_pending := remove1 (key, v) (sy_pending s)\<rparr>)"
| scope_record: "scope_reach effect kh dg s \<Longrightarrow> distinct ids \<Longrightarrow>
     scope_reach effect kh dg (s\<lparr>sy_world := record_scope_if_exact kh dg (sy_world s) (sy_cache s) a ids v\<rparr>)"

definition sys_ok :: "(scope_key \<Rightarrow> ustr) \<Rightarrow> (ustr list \<Rightarrow> ustr) \<Rightarrow> scope_sys \<Rightarrow> bool" where
  "sys_ok kh dg s \<longleftrightarrow> world_ok (sy_world s) \<and> cache_ok (sy_world s) (sy_cache s) (sy_now s)
     \<and> distinct (map fst (sy_cache s)) \<and> snaps_ok kh dg (sy_world s) (sy_now s)
     \<and> (\<forall>p\<in>set (sy_pending s). snd p \<le> sw_version (sy_world s))"

lemma old_write_later:
  assumes "world_ok w" "tbl_ok fr_id (db_fragments db')" "w' = w\<lparr>sw_db := db', sw_version := sw_version w + 1\<rparr>"
  shows "world_ok w' \<and> world_later w w'"
proof -
  have rows: "row \<in> set (sw_log w) \<Longrightarrow> fst row \<le> sw_version w" for row
    using assms(1) by (simp add: world_ok_def log_ok_def)
  then have "\<nexists>ids. (Suc (sw_version w), Some ids) \<in> set (sw_log w)" by fastforce
  then have "unsure w' a i" if "a \<le> sw_version w" for a i
    using that unfolding unsure_def log_known_def assms(3) by (auto intro!: exI[of _ "Suc (sw_version w)"])
  then show ?thesis
    using assms rows by (auto simp: world_later_def world_ok_def log_ok_def le_Suc_eq)
qed

lemma sys_later:
  assumes "sys_ok kh dg s" "world_ok w'" "world_later (sy_world s) w'"
  shows "sys_ok kh dg (s\<lparr>sy_world := w'\<rparr>)"
proof -
  have "sw_version (sy_world s) \<le> sw_version w'" using assms(3) by (simp add: world_later_def)
  then have "\<forall>p\<in>set (sy_pending s). snd p \<le> sw_version w'"
    using assms(1) by (auto simp: sys_ok_def dest: order_trans)
  then show ?thesis
    using assms(1,2) world_later_ok[OF assms(3) order_refl] by (simp add: sys_ok_def)
qed

lemma sys_frame:
  assumes "sys_ok kh dg s" "sw_db w' = sw_db (sy_world s)" "sw_version w' = sw_version (sy_world s)"
    "sw_log w' = sw_log (sy_world s)" "snaps_ok kh dg w' (sy_now s)"
  shows "sys_ok kh dg (s\<lparr>sy_world := w'\<rparr>)"
  using assms world_frame[OF assms(2-4)] by (simp add: sys_ok_def)

context noting_store
begin

lemma reach_ok:
  assumes "inj kh" "scope_reach effect kh dg s"
  shows "sys_ok kh dg s"
  using assms(2)
proof (induction rule: scope_reach.induct)
  case (scope_start db v now)
  then show ?case
    by (simp add: sys_ok_def world_ok_def log_ok_def cache_ok_def snaps_ok_def snapshot_scope_ids_def)
next
  case (scope_write s x db' ch)
  have "world_ok (sy_world s)" using scope_write.IH by (simp add: sys_ok_def)
  from commit_later[OF this scope_write.hyps(2)] show ?case using sys_later[OF scope_write.IH] by blast
next
  case (scope_old_write s db')
  have "world_ok (sy_world s)" using scope_old_write.IH by (simp add: sys_ok_def)
  from old_write_later[OF this scope_old_write.hyps(2) refl] show ?case
    using sys_later[OF scope_old_write.IH] by blast
next
  case (scope_tick s now)
  then show ?case
    using world_later_ok[OF world_later_refl scope_tick.hyps(2)] by (simp add: sys_ok_def)
next
  case (scope_begin s key)
  then show ?case by (simp add: sys_ok_def)
next
  case (scope_finish s key v e w' c' tok')
  have ok: "world_ok (sy_world s)" "cache_ok (sy_world s) (sy_cache s) (sy_now s)"
    "distinct (map fst (sy_cache s))" "snaps_ok kh dg (sy_world s) (sy_now s)" "v \<le> sw_version (sy_world s)"
    using scope_finish.IH scope_finish.hyps(2) by (auto simp: sys_ok_def)
  note r = retrievable_ok[OF assms(1) ok scope_finish.hyps(3)]
  have "\<forall>p\<in>set (remove1 (key, v) (sy_pending s)). snd p \<le> sw_version w'"
    using scope_finish.IH r by (auto simp: sys_ok_def dest: notin_set_remove1[THEN contrapos_pn])
  then show ?case
    using r ok(1) world_frame(1)[of w' "sy_world s"] by (simp add: sys_ok_def)
next
  case (scope_record s ids a v)
  have same: "sw_db (record_scope_if_exact kh dg (sy_world s) (sy_cache s) a ids v) = sw_db (sy_world s)"
    "sw_version (record_scope_if_exact kh dg (sy_world s) (sy_cache s) a ids v) = sw_version (sy_world s)"
    "sw_log (record_scope_if_exact kh dg (sy_world s) (sy_cache s) a ids v) = sw_log (sy_world s)"
    by (auto simp: record_scope_if_exact_def Let_def split: option.split)
  then show ?case
    using scope_record record_scope_ok[OF assms(1)] by (intro sys_frame) (auto simp: sys_ok_def)
qed

lemma read_exact:
  assumes "inj kh" "scope_reach effect kh dg s"
    "retrievable_id_set kh dg (sy_world s) (sy_cache s) (sy_tok s) (sw_version (sy_world s)) key (sy_now s)
      = (e, w', c', tok')"
  shows "scope_set (se_ids e) = scope_query (sw_db (sy_world s)) key (sy_now s)
    \<and> si_len (se_ids e) = int (card (scope_query (sw_db (sy_world s)) key (sy_now s)))"
proof -
  have ok: "world_ok (sy_world s)" "cache_ok (sy_world s) (sy_cache s) (sy_now s)"
    "distinct (map fst (sy_cache s))" "snaps_ok kh dg (sy_world s) (sy_now s)"
    using reach_ok[OF assms(1,2)] by (auto simp: sys_ok_def)
  note r = retrievable_ok[OF assms(1) ok order_refl assms(3)]
  then have "scope_set (se_ids e) = scope_query (sw_db (sy_world s)) key (sy_now s)"
    by (intro entry_exact[OF ok(1)]) simp_all
  moreover have "scope_inv (se_ids e)" using r by (simp add: entry_sound_def)
  ultimately show ?thesis using scope_len by metis
qed

end

text \<open>The cache stays within its bound.\<close>

lemma cache_put_length:
  "length c \<le> IDS_CACHE_SIZE \<Longrightarrow> length (cache_put c key e) \<le> IDS_CACHE_SIZE"
proof -
  have "length (AList.update key e d) = (if map_of d key = None then Suc (length d) else length d)" for d
    by (induction d) auto
  moreover have "map_of (tl c) key = None" if "map_of c key = None"
    using that by (cases c) (auto split: if_splits)
  ultimately show "length c \<le> IDS_CACHE_SIZE \<Longrightarrow> ?thesis"
    by (auto simp: cache_put_def IDS_CACHE_SIZE_def)
qed

text \<open>C28: in any interleaving of the store's writes, writes of builds that log nothing, raced
  reads, saved snapshots and the passing of time, a read that no write overtakes returns, from its
  cache, the log, a snapshot or a scan, exactly the ids that a full scan of the tables gives at
  that instant, with their exact number.\<close>

theorem cached_scope_is_scan:
  assumes "inj kh" "scope_reach (store_effect P) kh dg s"
  shows "case retrievable_id_set kh dg (sy_world s) (sy_cache s) (sy_tok s)
      (sw_version (sy_world s)) key (sy_now s) of (e, w', c', tok') \<Rightarrow>
    scope_set (se_ids e) = scope_query (sw_db (sy_world s)) key (sy_now s)
    \<and> si_len (se_ids e) = int (card (scope_query (sw_db (sy_world s)) key (sy_now s)))"
proof -
  obtain e w' c' tok' where r: "retrievable_id_set kh dg (sy_world s) (sy_cache s) (sy_tok s)
      (sw_version (sy_world s)) key (sy_now s) = (e, w', c', tok')" by (metis prod_cases4)
  then show ?thesis using scopes.read_exact[OF assms r] by simp
qed

instance memory_scope :: countable by countable_datatype
instance memory_state :: countable by countable_datatype
instance memory_tier :: countable by countable_datatype

definition wit_key_hash :: "scope_key \<Rightarrow> ustr" where
  "wit_key_hash k = (case k of (a, ff) \<Rightarrow> [to_nat (a, ff_scope ff, ff_states ff, ff_tier ff, ff_session ff,
     ff_prefix ff, ff_tags ff, ff_block ff, ff_blocks ff)])"

lemma inj_wit_key_hash: "inj wit_key_hash"
  by (auto simp: inj_def wit_key_hash_def)

definition wit_scope_sys :: scope_sys where
  "wit_scope_sys = \<lparr>sy_world = \<lparr>sw_db = empty_db\<lparr>db_fragments := [wit_fragment\<lparr>fr_state := VERIFIED\<rparr>]\<rparr>,
     sw_version = 7, sw_log = [], sw_snaps = []\<rparr>, sy_cache = [], sy_tok = 1, sy_now = 0, sy_pending = []\<rparr>"

lemma cached_scope_is_scan_witness:
  "case retrievable_id_set wit_key_hash concat (sy_world wit_scope_sys) (sy_cache wit_scope_sys)
      (sy_tok wit_scope_sys) (sw_version (sy_world wit_scope_sys)) (default_scope_key (u ''a'')) (sy_now wit_scope_sys)
    of (e, w', c', tok') \<Rightarrow> scope_set (se_ids e) = {u ''f1''} \<and> si_len (se_ids e) = 1"
proof -
  have reach: "scope_reach (store_effect (noop_provider wit_sha)) wit_key_hash concat wit_scope_sys"
    unfolding wit_scope_sys_def by (rule scope_start) (simp add: wit_fragment_def)
  have scan: "scope_query (sw_db (sy_world wit_scope_sys)) (default_scope_key (u ''a'')) (sy_now wit_scope_sys)
      = {u ''f1''}"
    by (simp add: scope_query_def scope_rows_def wit_scope_sys_def default_scope_key_def fragment_matches_def
        no_filter_def wit_fragment_def quarantined_blocks_def empty_db_def ttl_live_def ttl_deadline_def
        retrievable_states_def)
  show ?thesis
    using cached_scope_is_scan[OF inj_wit_key_hash reach, of "default_scope_key (u ''a'')"] unfolding scan
    by (auto split: prod.splits)
qed

end
