(* ===== verification/Screening.thy ===== *)
theory Screening
  imports Mark_Prelude
begin

text \<open>
  Helpers of the security screens: the checksums that keep number-shaped rules precise
  (\<^verbatim>\<open>security/checksums.py\<close>) and the windows in which a pattern is searched when a text is long
  (\<^verbatim>\<open>security/windows.py\<close>). Proved: both checksums notice every single wrong character (and Luhn every
  swapped pair but 09/90); the windows are disjoint, and a match of bounded length that contains a hint lies
  in one of them, so that searching the windows finds a match exactly when searching the whole text does.
\<close>

section \<open>Checksums\<close>

text \<open>\<open>dv\<close> gives the decimal value of a code point of Unicode's class of digits, which is what
  \<open>\<setminus>D\<close> leaves and what \<open>int(char)\<close> reads.\<close>

definition luhn_term :: "nat \<Rightarrow> nat \<Rightarrow> nat" where
  "luhn_term i v = (if odd i then if 2 * v > 9 then 2 * v - 9 else 2 * v else v)"

definition luhn_total :: "nat list \<Rightarrow> nat" where
  "luhn_total vs = sum_list (map (\<lambda>(i, v). luhn_term i v) (enumerate 0 (rev vs)))"

definition luhn_valid :: "(nat \<Rightarrow> nat option) \<Rightarrow> ustr \<Rightarrow> bool" where
  "luhn_valid dv txt =
     (let digits = filter (\<lambda>c. dv c \<noteq> None) txt
      in 13 \<le> length digits \<and> length digits \<le> 19 \<and> hd digits \<in> set (u ''23456'')
         \<and> length (remdups digits) \<noteq> 1 \<and> luhn_total (map (\<lambda>c. the (dv c)) digits) mod 10 = 0)"

definition ascii_digit :: "nat \<Rightarrow> bool" where "ascii_digit c \<longleftrightarrow> 48 \<le> c \<and> c \<le> 57"

definition ascii_letter :: "nat \<Rightarrow> bool" where
  "ascii_letter c \<longleftrightarrow> 65 \<le> c \<and> c \<le> 90 \<or> 97 \<le> c \<and> c \<le> 122"

definition ascii_upper :: "nat \<Rightarrow> nat" where
  "ascii_upper c = (if 97 \<le> c \<and> c \<le> 122 then c - 32 else c)"

definition IBAN_LENGTHS :: "(string \<times> nat) list" where
  "IBAN_LENGTHS = [
    (''AD'', 24), (''AE'', 23), (''AT'', 20), (''BE'', 16), (''BG'', 22), (''BH'', 22), (''BR'', 29), (''CH'', 21),
    (''CY'', 28), (''CZ'', 24), (''DE'', 22), (''DK'', 18), (''EE'', 20), (''ES'', 24), (''FI'', 18), (''FR'', 27),
    (''GB'', 22), (''GR'', 27), (''HR'', 21), (''HU'', 28), (''IE'', 22), (''IL'', 23), (''IS'', 26), (''IT'', 27),
    (''KW'', 30), (''KZ'', 20), (''LT'', 20), (''LU'', 20), (''LV'', 21), (''MT'', 31), (''NL'', 18), (''NO'', 15),
    (''PL'', 28), (''PT'', 25), (''QA'', 29), (''RO'', 24), (''SA'', 24), (''SE'', 24), (''SI'', 19), (''SK'', 24),
    (''TR'', 26), (''UA'', 29)]"

definition iban_length :: "ustr \<Rightarrow> nat option" where
  "iban_length country = map_of (map (\<lambda>(k, n). (u k, n)) IBAN_LENGTHS) country"

definition base36 :: "nat \<Rightarrow> nat" where
  "base36 c = (if ascii_digit c then c - 48 else c - 55)"

definition decimal_digits :: "nat \<Rightarrow> nat list" where
  "decimal_digits n = (if n < 10 then [n] else [n div 10, n mod 10])"

definition int_of_digits :: "nat list \<Rightarrow> nat" where
  "int_of_digits ds = foldl (\<lambda>n d. 10 * n + d) 0 ds"

definition iban_number :: "ustr \<Rightarrow> nat" where
  "iban_number s = int_of_digits (concat (map (\<lambda>c. decimal_digits (base36 c)) s))"

definition iban_ok :: "ustr \<Rightarrow> bool" where
  "iban_ok iban \<longleftrightarrow> 15 \<le> length iban \<and> length iban \<le> 34 \<and> list_all ascii_letter (take 2 iban)
     \<and> list_all ascii_digit (take 2 (drop 2 iban))
     \<and> (case iban_length (take 2 iban) of None \<Rightarrow> True | Some n \<Rightarrow> length iban = n)
     \<and> iban_number (drop 4 iban @ take 4 iban) mod 97 = 1"

definition iban_valid :: "ustr \<Rightarrow> bool" where
  "iban_valid txt = iban_ok (map ascii_upper (filter (\<lambda>c. ascii_letter c \<or> ascii_digit c) txt))"

section \<open>Windows around hints\<close>

definition RADIUS :: nat where "RADIUS = 600"

text \<open>\<open>text.find(hint, i)\<close>.\<close>

definition found_at :: "ustr \<Rightarrow> ustr \<Rightarrow> nat \<Rightarrow> bool" where
  "found_at hay h j \<longleftrightarrow> take (length h) (drop j hay) = h"

definition find_from :: "ustr \<Rightarrow> ustr \<Rightarrow> nat \<Rightarrow> nat option" where
  "find_from hay h i = find (found_at hay h) [i..<Suc (length hay) - length h]"

text \<open>The loop over the occurrences of a hint; an empty hint would keep it in place for ever.\<close>

partial_function (option) hint_ats :: "ustr \<Rightarrow> ustr \<Rightarrow> nat \<Rightarrow> nat list option" where
  "hint_ats hay h i = (case find_from hay h i of None \<Rightarrow> Some []
     | Some a \<Rightarrow> Option.bind (hint_ats hay h (a + length h)) (\<lambda>r. Some (a # r)))"

fun raw_spans :: "ustr \<Rightarrow> nat \<Rightarrow> ustr list \<Rightarrow> (nat \<times> nat) list option" where
  "raw_spans hay radius [] = Some []"
| "raw_spans hay radius (h # hs) = Option.bind (hint_ats hay h 0) (\<lambda>ats. Option.bind (raw_spans hay radius hs)
     (\<lambda>r. Some (map (\<lambda>a. (a - radius, min (length hay) (a + length h + radius))) ats @ r)))"

definition merge_span :: "(nat \<times> nat) list \<Rightarrow> nat \<times> nat \<Rightarrow> (nat \<times> nat) list" where
  "merge_span ms w = (if ms \<noteq> [] \<and> fst w \<le> snd (last ms)
     then butlast ms @ [(fst (last ms), max (snd (last ms)) (snd w))] else ms @ [w])"

definition spans :: "ustr \<Rightarrow> ustr list \<Rightarrow> nat \<Rightarrow> (nat \<times> nat) list option" where
  "spans lowered hints radius = map_option (\<lambda>ws. foldl merge_span [] (sort ws)) (raw_spans lowered radius hints)"

text \<open>\<open>text.count(hint)\<close>: the occurrences that do not overlap; one at every place for an empty hint.\<close>

definition py_count :: "ustr \<Rightarrow> ustr \<Rightarrow> nat" where
  "py_count hay h = (if h = [] then Suc (length hay) else case hint_ats hay h 0 of None \<Rightarrow> 0 | Some ats \<Rightarrow> length ats)"

text \<open>\<open>fi lo hi\<close> is \<open>pattern.finditer(text, lo, hi)\<close>.\<close>

definition finditer_near :: "(nat \<Rightarrow> nat \<Rightarrow> 'm list) \<Rightarrow> ustr \<Rightarrow> ustr \<Rightarrow> ustr list \<Rightarrow> nat \<Rightarrow> 'm list option" where
  "finditer_near fi txt lowered hints radius =
     (if length txt \<le> 4 * radius \<or> length lowered \<noteq> length txt
         \<or> length txt \<le> sum_list (map (py_count lowered) hints) * radius
      then Some (fi 0 (length txt))
      else map_option (\<lambda>ws. concat (map (\<lambda>(s, e). fi s e) ws)) (spans lowered hints radius))"

definition search_near :: "(nat \<Rightarrow> nat \<Rightarrow> 'm list) \<Rightarrow> ustr \<Rightarrow> ustr \<Rightarrow> ustr list \<Rightarrow> nat \<Rightarrow> 'm option option" where
  "search_near fi txt lowered hints radius =
     map_option (\<lambda>ms. case ms of [] \<Rightarrow> None | m # _ \<Rightarrow> Some m) (finditer_near fi txt lowered hints radius)"

section \<open>Luhn's checksum\<close>

lemma luhn_term_less: "v < 10 \<Longrightarrow> luhn_term i v < 10"
  by (auto simp: luhn_term_def)

lemma luhn_term_inj: "v < 10 \<Longrightarrow> w < 10 \<Longrightarrow> luhn_term i v = luhn_term i w \<Longrightarrow> v = w"
  by (simp add: luhn_term_def split: if_splits; presburger)

lemma luhn_total_split:
  "luhn_total (xs @ v # ys) = luhn_total ys + luhn_term (length ys) v
     + sum_list (map (\<lambda>(i, v). luhn_term i v) (enumerate (Suc (length ys)) (rev xs)))"
  by (simp add: luhn_total_def enumerate_append_eq)

lemma mod_cancel: "(n + a) mod k = (n + b) mod k \<Longrightarrow> a mod k = b mod (k::nat)"
proof -
  assume "(n + a) mod k = (n + b) mod k"
  then have "int k dvd int (n + a) - int (n + b)" by (metis mod_eq_dvd_iff zmod_int)
  then have "int a mod int k = int b mod int k" by (simp add: mod_eq_dvd_iff)
  then show ?thesis by (metis of_nat_eq_iff zmod_int)
qed

lemma mod_10_differ: "a < 10 \<Longrightarrow> b < 10 \<Longrightarrow> (n + a) mod 10 = (n + b) mod (10::nat) \<Longrightarrow> a = b"
  using mod_cancel[of n a 10 b] by simp

text \<open>One wrong digit is always noticed.\<close>

lemma luhn_detects_a_wrong_digit:
  assumes "v < 10" "w < 10" "v \<noteq> w" "luhn_total (xs @ v # ys) mod 10 = 0"
  shows "luhn_total (xs @ w # ys) mod 10 \<noteq> 0"
proof
  assume "luhn_total (xs @ w # ys) mod 10 = 0"
  let ?r = "luhn_total ys + sum_list (map (\<lambda>(i, v). luhn_term i v) (enumerate (Suc (length ys)) (rev xs)))"
  have "(?r + luhn_term (length ys) v) mod 10 = (?r + luhn_term (length ys) w) mod 10"
    using assms(4) \<open>luhn_total (xs @ w # ys) mod 10 = 0\<close> by (simp add: luhn_total_split ac_simps)
  then have "luhn_term (length ys) v = luhn_term (length ys) w"
    by (rule mod_10_differ[OF luhn_term_less[OF assms(1)] luhn_term_less[OF assms(2)]])
  then show False using luhn_term_inj assms(1-3) by blast
qed

text \<open>Two swapped neighbours are noticed, except 09 and 90.\<close>

lemma luhn_swap_term:
  assumes "v < 10" "w < 10" "v \<noteq> w" "{v, w} \<noteq> {0, 9}"
  shows "(luhn_term i v + luhn_term (Suc i) w) mod 10 \<noteq> (luhn_term i w + luhn_term (Suc i) v) mod 10"
proof -
  let ?d = "\<lambda>v::nat. if 2 * v > 9 then 2 * v - 9 else 2 * v"
  have "\<forall>v\<in>set [0..<10]. \<forall>w\<in>set [0..<10]. v = w \<or> v = 0 \<and> w = 9 \<or> v = 9 \<and> w = 0 \<or> (v + ?d w) mod 10 \<noteq> (w + ?d v) mod 10"
    by code_simp
  then have sep: "(a + ?d b) mod 10 \<noteq> (b + ?d a) mod 10" if "a < 10" "b < 10" "a \<noteq> b" "{a, b} \<noteq> {0, 9}" for a b
    using that by fastforce
  show ?thesis using sep[OF assms] by (cases "even i") (simp_all add: luhn_term_def add.commute)
qed

lemma luhn_detects_a_swap:
  assumes "v < 10" "w < 10" "v \<noteq> w" "{v, w} \<noteq> {0, 9}" "luhn_total (xs @ v # w # ys) mod 10 = 0"
  shows "luhn_total (xs @ w # v # ys) mod 10 \<noteq> 0"
proof
  assume s: "luhn_total (xs @ w # v # ys) mod 10 = 0"
  have tot: "luhn_total (xs @ a # b # ys) = luhn_total ys
      + sum_list (map (\<lambda>(i, v). luhn_term i v) (enumerate (Suc (Suc (length ys))) (rev xs)))
      + (luhn_term (length ys) b + luhn_term (Suc (length ys)) a)" for a b
    using luhn_total_split[of xs a "b # ys"] luhn_total_split[of "[]" b ys] by simp
  define n where "n = luhn_total ys + sum_list (map (\<lambda>(i, v). luhn_term i v) (enumerate (Suc (Suc (length ys))) (rev xs)))"
  have "(n + (luhn_term (length ys) v + luhn_term (Suc (length ys)) w)) mod 10
      = (n + (luhn_term (length ys) w + luhn_term (Suc (length ys)) v)) mod 10"
    using s assms(5) unfolding tot n_def by (simp only:)
  then have "(luhn_term (length ys) v + luhn_term (Suc (length ys)) w) mod 10
      = (luhn_term (length ys) w + luhn_term (Suc (length ys)) v) mod 10"
    by (rule mod_cancel)
  then show False using luhn_swap_term[OF assms(1-4)] by blast
qed

section \<open>The check digits of an IBAN\<close>

lemma int_of_digits_append: "int_of_digits (xs @ ys) = int_of_digits xs * 10 ^ length ys + int_of_digits ys"
proof -
  have "foldl (\<lambda>n d. 10 * n + d) a ys = a * 10 ^ length ys + foldl (\<lambda>n d. 10 * n + d) 0 ys" for a :: nat
    by (induction ys rule: rev_induct) (simp_all add: algebra_simps)
  then show ?thesis unfolding int_of_digits_def foldl_append by blast
qed

lemma iban_number_append:
  "iban_number (xs @ ys) = iban_number xs * 10 ^ length (concat (map (\<lambda>c. decimal_digits (base36 c)) ys)) + iban_number ys"
  by (simp add: iban_number_def int_of_digits_append)

lemma iban_number_single: "base36 c < 100 \<Longrightarrow> iban_number [c] = base36 c"
  by (simp add: iban_number_def int_of_digits_def decimal_digits_def)

lemma coprime_97: "coprime (10 ^ k) (97::nat)"
proof -
  have "coprime (10::nat) 97"
  proof (rule coprimeI)
    fix c :: nat
    assume "c dvd 10" "c dvd 97"
    then have "c dvd 97 - 9 * 10" "c dvd 3 * 10 - (97 - 9 * 10) * 4" by (meson dvd_diff_nat dvd_mult dvd_mult2)+
    then have "c dvd 7" "c dvd 2" by simp_all
    then have "c dvd 7 - 3 * 2" by (meson dvd_diff_nat dvd_mult)
    then show "is_unit c" by simp
  qed
  then show ?thesis by simp
qed

text \<open>Both blocks of a character have the same number of digits, so that only the weight of one place changes.\<close>

lemma wrong_place_changes_number:
  assumes "base36 c < 36" "base36 d < 36" "base36 c \<noteq> base36 d" "(base36 c < 10) = (base36 d < 10)"
  shows "iban_number (xs @ c # ys) mod 97 \<noteq> iban_number (xs @ d # ys) mod 97"
proof
  let ?k = "length (concat (map (\<lambda>c. decimal_digits (base36 c)) ys))"
  let ?w = "if base36 d < 10 then 10 else 100 :: nat"
  have n: "iban_number (xs @ e # ys) = (iban_number xs * ?w + base36 e) * 10 ^ ?k + iban_number ys"
    if "base36 e < 36" "(base36 e < 10) = (base36 d < 10)" for e
    using iban_number_append[of "xs @ [e]" ys] iban_number_append[of xs "[e]"] iban_number_single[of e] that
    by (simp add: decimal_digits_def split: if_splits)
  define a b where "a = iban_number xs * ?w + base36 c" and "b = iban_number xs * ?w + base36 d"
  assume "iban_number (xs @ c # ys) mod 97 = iban_number (xs @ d # ys) mod 97"
  then have "(a * 10 ^ ?k + iban_number ys) mod 97 = (b * 10 ^ ?k + iban_number ys) mod 97"
    using n[OF assms(1,4)] n[OF assms(2) refl] by (simp add: a_def b_def)
  then have "int 97 dvd int (a * 10 ^ ?k + iban_number ys) - int (b * 10 ^ ?k + iban_number ys)"
    by (metis mod_eq_dvd_iff zmod_int)
  then have "97 dvd (int a - int b) * int (10 ^ ?k)" by (simp add: algebra_simps)
  moreover have "coprime 97 (int (10 ^ ?k))" using coprime_97[of ?k] by (metis coprime_commute coprime_int_iff of_nat_numeral)
  ultimately have "97 dvd int a - int b" by (metis coprime_dvd_mult_left_iff)
  then have "97 dvd int (base36 c) - int (base36 d)" by (simp add: a_def b_def)
  moreover have "\<bar>int (base36 c) - int (base36 d)\<bar> < 97" "int (base36 c) - int (base36 d) \<noteq> 0" using assms(1-3) by auto
  ultimately show False using zdvd_imp_le[of 97 "\<bar>int (base36 c) - int (base36 d)\<bar>"] by auto
qed

text \<open>One wrong character (a digit for a digit, a letter for a letter) makes a valid IBAN invalid.\<close>

lemma iban_detects_a_wrong_character:
  assumes ok: "iban_ok iban" and i: "i < length iban" and ne: "d \<noteq> iban ! i"
    and kind: "ascii_digit (iban ! i) \<and> ascii_digit d
      \<or> 65 \<le> iban ! i \<and> iban ! i \<le> 90 \<and> 65 \<le> d \<and> d \<le> 90"
  shows "\<not> iban_ok (iban[i := d])"
proof
  assume ok': "iban_ok (iban[i := d])"
  let ?c = "iban ! i"
  have b: "base36 ?c < 36" "base36 d < 36" "base36 ?c \<noteq> base36 d" "(base36 ?c < 10) = (base36 d < 10)"
    using kind ne by (auto simp: base36_def ascii_digit_def)
  have "\<exists>xs ys. drop 4 iban @ take 4 iban = xs @ ?c # ys \<and> drop 4 (iban[i := d]) @ take 4 (iban[i := d]) = xs @ d # ys"
  proof (cases "i < 4")
    case True
    then have "take 4 iban = take i iban @ ?c # drop (Suc i) (take 4 iban)"
      using i id_take_nth_drop[of i "take 4 iban"] by (simp add: min_def)
    moreover have "take 4 (iban[i := d]) = take i iban @ d # drop (Suc i) (take 4 iban)"
      using True i upd_conv_take_nth_drop[of i "take 4 iban" d] by (simp add: take_update_swap min_def)
    moreover have "drop 4 (iban[i := d]) = drop 4 iban" using True by simp
    ultimately show ?thesis by (metis append_assoc)
  next
    case False
    then have j: "i - 4 < length (drop 4 iban)" using i by simp
    have "drop 4 iban = take (i - 4) (drop 4 iban) @ ?c # drop (Suc (i - 4)) (drop 4 iban)"
      using id_take_nth_drop[OF j] False i by simp
    moreover have "drop 4 (iban[i := d]) = (drop 4 iban)[i - 4 := d]" using False by (simp add: drop_update_swap)
    moreover have "take 4 (iban[i := d]) = take 4 iban" using False by simp
    ultimately show ?thesis using upd_conv_take_nth_drop[OF j, of d] by (metis append_assoc append_Cons)
  qed
  then obtain xs ys where "drop 4 iban @ take 4 iban = xs @ ?c # ys"
    "drop 4 (iban[i := d]) @ take 4 (iban[i := d]) = xs @ d # ys" by blast
  then show False using ok ok' wrong_place_changes_number[OF b, of xs ys] by (simp add: iban_ok_def)
qed

section \<open>Occurrences of a hint\<close>

lemma find_from_Some: "find_from hay h i = Some a \<Longrightarrow> i \<le> a \<and> a + length h \<le> length hay \<and> found_at hay h a
    \<and> (\<forall>q. i \<le> q \<longrightarrow> found_at hay h q \<longrightarrow> q + length h \<le> length hay \<longrightarrow> a \<le> q)"
proof -
  assume "find_from hay h i = Some a"
  then obtain k where k: "k < length [i..<Suc (length hay) - length h]" "a = [i..<Suc (length hay) - length h] ! k"
    "found_at hay h a" "\<forall>j<k. \<not> found_at hay h ([i..<Suc (length hay) - length h] ! j)"
    unfolding find_from_def find_Some_iff by blast
  then have a: "a = i + k" "a + length h \<le> length hay" by auto
  have least: "a \<le> q" if "i \<le> q" "found_at hay h q" "q + length h \<le> length hay" for q
  proof (rule ccontr)
    assume "\<not> a \<le> q"
    then have "q - i < k" using that(1) a(1) by simp
    then show False using k(1,4) that by auto
  qed
  show ?thesis using a k(3) least by simp
qed

lemma find_from_None: "find_from hay h i = None \<Longrightarrow> i \<le> q \<Longrightarrow> found_at hay h q \<Longrightarrow> q + length h \<le> length hay \<Longrightarrow> False"
  by (auto simp: find_from_def find_None_iff)

text \<open>The loop ends for every hint that is not empty, and its hits reach every occurrence.\<close>

lemma hint_ats_ends:
  assumes "h \<noteq> []"
  shows "\<exists>ats. hint_ats hay h i = Some ats \<and> (\<forall>a\<in>set ats. a + length h \<le> length hay)
      \<and> (\<forall>q. i \<le> q \<longrightarrow> found_at hay h q \<longrightarrow> q + length h \<le> length hay \<longrightarrow> (\<exists>a\<in>set ats. a \<le> q \<and> q < a + length h))"
proof (induction "Suc (length hay) - i" arbitrary: i rule: less_induct)
  case less
  show ?case
  proof (cases "find_from hay h i")
    case None
    then show ?thesis using find_from_None by (subst hint_ats.simps) fastforce
  next
    case (Some a)
    note a = find_from_Some[OF Some]
    have "Suc (length hay) - (a + length h) < Suc (length hay) - i" using a assms by (cases h) auto
    from less[OF this] obtain ats where ats: "hint_ats hay h (a + length h) = Some ats" "\<forall>b\<in>set ats. b + length h \<le> length hay"
      "\<forall>q. a + length h \<le> q \<longrightarrow> found_at hay h q \<longrightarrow> q + length h \<le> length hay \<longrightarrow> (\<exists>b\<in>set ats. b \<le> q \<and> q < b + length h)"
      by blast
    have "hint_ats hay h i = Some (a # ats)" using Some ats(1) by (subst hint_ats.simps) simp
    moreover have "\<exists>b\<in>set (a # ats). b \<le> q \<and> q < b + length h"
      if "i \<le> q" "found_at hay h q" "q + length h \<le> length hay" for q
      using a ats(3) that by (cases "q < a + length h") (auto simp: not_less)
    ultimately show ?thesis using a ats(2) by (intro exI[of _ "a # ats"]) auto
  qed
qed

lemma raw_spans_cover:
  assumes "[] \<notin> set hs"
  shows "\<exists>ws. raw_spans hay r hs = Some ws \<and> (\<forall>(s, e)\<in>set ws. s \<le> e \<and> e \<le> length hay)
      \<and> (\<forall>h\<in>set hs. \<forall>q s e. found_at hay h q \<longrightarrow> s \<le> q \<longrightarrow> q + length h \<le> e \<longrightarrow> e \<le> length hay \<longrightarrow> e \<le> s + r \<longrightarrow>
            (\<exists>(a, b)\<in>set ws. a \<le> s \<and> e \<le> b))"
  using assms
proof (induction hs)
  case (Cons h hs)
  then have h: "h \<noteq> []" by auto
  from Cons obtain ws where ws: "raw_spans hay r hs = Some ws" "\<forall>(s, e)\<in>set ws. s \<le> e \<and> e \<le> length hay"
    "\<forall>h\<in>set hs. \<forall>q s e. found_at hay h q \<longrightarrow> s \<le> q \<longrightarrow> q + length h \<le> e \<longrightarrow> e \<le> length hay \<longrightarrow> e \<le> s + r \<longrightarrow>
        (\<exists>(a, b)\<in>set ws. a \<le> s \<and> e \<le> b)" by auto
  obtain ats where ats: "hint_ats hay h 0 = Some ats" "\<forall>a\<in>set ats. a + length h \<le> length hay"
    "\<forall>q. found_at hay h q \<longrightarrow> q + length h \<le> length hay \<longrightarrow> (\<exists>a\<in>set ats. a \<le> q \<and> q < a + length h)"
    using hint_ats_ends[OF h, of hay 0] by auto
  let ?w = "\<lambda>a. (a - r, min (length hay) (a + length h + r))"
  have eq: "raw_spans hay r (h # hs) = Some (map ?w ats @ ws)" using ws(1) ats(1) by simp
  have in_bounds: "s \<le> e \<and> e \<le> length hay" if "(s, e) \<in> set (map ?w ats @ ws)" for s e
    using that ws(2) ats(2) by fastforce
  have cover: "\<exists>(a, b)\<in>set (map ?w ats @ ws). a \<le> s \<and> e \<le> b"
    if "g \<in> set (h # hs)" "found_at hay g q" "s \<le> q" "q + length g \<le> e" "e \<le> length hay" "e \<le> s + r" for g q s e
  proof (cases "g = h")
    case True
    then have "found_at hay h q" "q + length h \<le> length hay" using that by simp_all
    then obtain a where a: "a \<in> set ats" "a \<le> q" "q < a + length h" using ats(3) by blast
    have "?w a \<in> set (map ?w ats @ ws)" using a(1) by simp
    moreover have "a - r \<le> s" "e \<le> min (length hay) (a + length h + r)" using that a True by auto
    ultimately show ?thesis by (intro bexI[of _ "?w a"]) simp_all
  next
    case False
    then have "\<exists>(a, b)\<in>set ws. a \<le> s \<and> e \<le> b" using ws(3) that by auto
    then show ?thesis by auto
  qed
  show ?case unfolding eq using in_bounds cover by blast
qed simp
section \<open>Merged windows\<close>

definition gaps :: "(nat \<times> nat) list \<Rightarrow> bool" where
  "gaps ms \<longleftrightarrow> sorted_wrt (\<lambda>a b. snd a < fst b) ms"

lemma merge_spans_inv:
  assumes "sorted ws" "\<forall>(s, e)\<in>set ws. s \<le> e \<and> e \<le> n"
  shows "gaps (foldl merge_span [] ws) \<and> (ws \<noteq> [] \<longrightarrow> fst (last (foldl merge_span [] ws)) \<le> fst (last ws) \<and> foldl merge_span [] ws \<noteq> [])
     \<and> (\<forall>(s, e)\<in>set (foldl merge_span [] ws). s \<le> e \<and> e \<le> n)
     \<and> (\<forall>w\<in>set ws. \<exists>m\<in>set (foldl merge_span [] ws). fst m \<le> fst w \<and> snd w \<le> snd m)"
  using assms
proof (induction ws rule: rev_induct)
  case (snoc w ws)
  define ms where "ms = foldl merge_span [] ws"
  have ih: "gaps ms" "ws \<noteq> [] \<Longrightarrow> fst (last ms) \<le> fst (last ws) \<and> ms \<noteq> []" "\<forall>(s, e)\<in>set ms. s \<le> e \<and> e \<le> n"
    "\<forall>w\<in>set ws. \<exists>m\<in>set ms. fst m \<le> fst w \<and> snd w \<le> snd m"
    using snoc unfolding ms_def by (auto simp: sorted_append)
  have w: "fst w \<le> snd w" "snd w \<le> n" using snoc.prems(2) by auto
  have after: "fst (last ms) \<le> fst w" if "ms \<noteq> []"
  proof -
    have "ws \<noteq> []" using that by (auto simp: ms_def)
    then have "last ws \<le> w" using snoc.prems(1) by (simp add: sorted_append)
    then have "fst (last ws) \<le> fst w" by (auto simp: less_eq_prod_def)
    then show ?thesis using ih(2)[OF \<open>ws \<noteq> []\<close>] by linarith
  qed
  show ?case
  proof (cases "ms \<noteq> [] \<and> fst w \<le> snd (last ms)")
    case True
    then obtain init l where ms: "ms = init @ [l]" by (metis append_butlast_last_id)
    let ?m = "(fst l, max (snd l) (snd w))"
    have new: "foldl merge_span [] (ws @ [w]) = init @ [?m]" using True by (simp add: ms_def[symmetric] merge_span_def ms)
    show ?thesis unfolding new using ih after w ms True by (auto simp: gaps_def sorted_wrt_append le_max_iff_disj)
  next
    case False
    have new: "foldl merge_span [] (ws @ [w]) = ms @ [w]"
      unfolding foldl_append ms_def[symmetric] by (simp add: merge_span_def if_not_P[OF False])
    have "snd m < fst w" if m_in: "m \<in> set ms" for m
    proof -
      obtain init l where ms: "ms = init @ [l]" using m_in by (cases ms rule: rev_cases) auto
      have "snd l < fst w" using False ms by simp
      moreover have "m = l \<or> snd m < fst l" using that ih(1) by (auto simp: ms gaps_def sorted_wrt_append)
      moreover have "fst l \<le> snd l" using ih(3) by (auto simp: ms)
      ultimately show ?thesis by auto
    qed
    then show ?thesis unfolding new using ih w by (auto simp: gaps_def sorted_wrt_append)
  qed
qed (simp add: gaps_def)

text \<open>The windows are apart from each other, inside the text, and hold every bounded match with a hint.\<close>

theorem windows_hold_every_match:
  assumes "[] \<notin> set hs"
  shows "\<exists>ms. spans hay hs r = Some ms \<and> gaps ms \<and> (\<forall>(s, e)\<in>set ms. s \<le> e \<and> e \<le> length hay)
      \<and> (\<forall>h\<in>set hs. \<forall>q s e. found_at hay h q \<longrightarrow> s \<le> q \<longrightarrow> q + length h \<le> e \<longrightarrow> e \<le> length hay \<longrightarrow> e \<le> s + r \<longrightarrow>
            (\<exists>(a, b)\<in>set ms. a \<le> s \<and> e \<le> b))"
proof -
  obtain ws where ws: "raw_spans hay r hs = Some ws" "\<forall>(s, e)\<in>set ws. s \<le> e \<and> e \<le> length hay"
    "\<forall>h\<in>set hs. \<forall>q s e. found_at hay h q \<longrightarrow> s \<le> q \<longrightarrow> q + length h \<le> e \<longrightarrow> e \<le> length hay \<longrightarrow> e \<le> s + r \<longrightarrow>
        (\<exists>(a, b)\<in>set ws. a \<le> s \<and> e \<le> b)"
    using raw_spans_cover[OF assms] by blast
  define ms where "ms = foldl merge_span [] (sort ws)"
  have inv: "gaps ms" "\<forall>(s, e)\<in>set ms. s \<le> e \<and> e \<le> length hay" "\<forall>w\<in>set ws. \<exists>m\<in>set ms. fst m \<le> fst w \<and> snd w \<le> snd m"
    using merge_spans_inv[of "sort ws" "length hay"] ws(2) by (auto simp: ms_def)
  have "\<exists>(a, b)\<in>set ms. a \<le> s \<and> e \<le> b"
    if "h \<in> set hs" "found_at hay h q" "s \<le> q" "q + length h \<le> e" "e \<le> length hay" "e \<le> s + r" for h q s e
  proof -
    have "\<exists>(a, b)\<in>set ws. a \<le> s \<and> e \<le> b" using ws(3) that by blast
    then obtain a b where ab: "(a, b) \<in> set ws" "a \<le> s" "e \<le> b" by blast
    then obtain m where "m \<in> set ms" "fst m \<le> a" "b \<le> snd m" using inv(3) by fastforce
    then have "(fst m, snd m) \<in> set ms" "fst m \<le> s" "e \<le> snd m" using ab by auto
    then show ?thesis by blast
  qed
  then show ?thesis using inv ws(1) by (auto simp: spans_def ms_def[symmetric])
qed

text \<open>The search near the hints always returns, and it finds a match exactly when the text has one: for a
  pattern whose matches \<open>M\<close> are bounded and contain a hint, and an engine that finds something in a part of
  the text exactly when a match lies in it.\<close>

theorem search_near_is_exact:
  assumes r: "0 < r"
    and engine: "\<And>lo hi. fi lo hi = [] \<longleftrightarrow> \<not> (\<exists>(s, e)\<in>M. lo \<le> s \<and> e \<le> hi)"
    and bounded: "\<And>s e. (s, e) \<in> M \<Longrightarrow> e \<le> length txt \<and> e \<le> s + r"
    and hinted: "\<And>s e. (s, e) \<in> M \<Longrightarrow> \<exists>h\<in>set hints. \<exists>q. found_at lowered h q \<and> s \<le> q \<and> q + length h \<le> e"
  shows "\<exists>found. search_near fi txt lowered hints r = Some found \<and> (found = None \<longleftrightarrow> M = {})"
proof -
  have whole: "fi 0 (length txt) = [] \<longleftrightarrow> M = {}" using engine bounded by fastforce
  have "\<exists>ms. finditer_near fi txt lowered hints r = Some ms \<and> (ms = [] \<longleftrightarrow> M = {})"
  proof (cases "length txt \<le> 4 * r \<or> length lowered \<noteq> length txt \<or> length txt \<le> sum_list (map (py_count lowered) hints) * r")
    case True
    then show ?thesis using whole by (simp add: finditer_near_def)
  next
    case False
    have "[] \<notin> set hints"
    proof
      assume "[] \<in> set hints"
      then have "Suc (length lowered) \<le> sum_list (map (py_count lowered) hints)"
        using member_le_sum_list[of "py_count lowered []" "map (py_count lowered) hints"] by (simp add: py_count_def)
      then have "length txt \<le> sum_list (map (py_count lowered) hints) * r"
        using r False by (metis Suc_leD mult_le_mono nat_mult_1_right One_nat_def Suc_leI)
      then show False using False by simp
    qed
    then obtain ws where ws: "spans lowered hints r = Some ws"
      "\<forall>h\<in>set hints. \<forall>q s e. found_at lowered h q \<longrightarrow> s \<le> q \<longrightarrow> q + length h \<le> e \<longrightarrow> e \<le> length lowered \<longrightarrow> e \<le> s + r \<longrightarrow>
        (\<exists>(a, b)\<in>set ws. a \<le> s \<and> e \<le> b)"
      using windows_hold_every_match[of hints lowered r] by blast
    have "(\<exists>(a, b)\<in>set ws. fi a b \<noteq> []) \<longleftrightarrow> M \<noteq> {}"
    proof
      assume "M \<noteq> {}"
      then obtain s e where m: "(s, e) \<in> M" by auto
      then obtain h q where h: "h \<in> set hints" "found_at lowered h q" "s \<le> q" "q + length h \<le> e" using hinted by blast
      have "e \<le> length lowered" "e \<le> s + r" using bounded[OF m] False by auto
      then have "\<exists>(a, b)\<in>set ws. a \<le> s \<and> e \<le> b" using ws(2) h by blast
      then obtain a b where "(a, b) \<in> set ws" "a \<le> s" "e \<le> b" by blast
      then show "\<exists>(a, b)\<in>set ws. fi a b \<noteq> []" using m engine[of a b] by blast
    next
      assume "\<exists>(a, b)\<in>set ws. fi a b \<noteq> []"
      then show "M \<noteq> {}" using engine by blast
    qed
    moreover have "finditer_near fi txt lowered hints r = Some (concat (map (\<lambda>(s, e). fi s e) ws))"
      using False ws(1) by (auto simp: finditer_near_def)
    ultimately show ?thesis by (intro exI[of _ "concat (map (\<lambda>(s, e). fi s e) ws)"]) fastforce
  qed
  then obtain ms where ms: "finditer_near fi txt lowered hints r = Some ms" "ms = [] \<longleftrightarrow> M = {}" by blast
  show ?thesis using ms(2) by (intro exI[of _ "case ms of [] \<Rightarrow> None | m # _ \<Rightarrow> Some m"]) (cases ms; simp add: search_near_def ms(1))
qed

end
