(* ===== verification/Signals.thy ===== *)
theory Signals
  imports Mark_Prelude "HOL-Library.AList"
begin

text \<open>
  The local learning signals (\<^verbatim>\<open>rl/\<close>): the experience tuple and the circular replay buffer
  (\<^verbatim>\<open>buffer.py\<close>), the decision log and the signal collector (\<^verbatim>\<open>collectors.py\<close>), the feature encoder
  (\<^verbatim>\<open>encoder.py\<close>), the fallback reward (\<^verbatim>\<open>reward.py\<close>) and the filter that keeps actions of a learned policy
  inside the governance rules (\<^verbatim>\<open>safety.py\<close>). SHA-256 and the random choice are arguments.
\<close>

section \<open>Experiences and the replay buffer\<close>

record experience =
  ex_state :: "real list"
  ex_action :: string
  ex_reward :: real
  ex_next :: "real list"
  ex_done :: bool
  ex_agent :: ustr
  ex_time :: real

definition experience_valid :: "experience \<Rightarrow> bool" where
  "experience_valid e \<longleftrightarrow> length (ex_state e) > 0 \<and> length (ex_next e) = length (ex_state e)
     \<and> ex_action e \<in> set [''FAST'', ''BALANCED'', ''DEEP''] \<and> 0 \<le> ex_reward e \<and> ex_reward e \<le> 1
     \<and> length (ex_agent e) > 0"

record 'a replay_buffer =
  rb_capacity :: nat
  rb_items :: "'a list"
  rb_pos :: nat

definition rb_new :: "int \<Rightarrow> py_error + 'a replay_buffer" where
  "rb_new capacity = (if capacity < 1 then Inl ValueError
     else Inr \<lparr>rb_capacity = nat capacity, rb_items = [], rb_pos = 0\<rparr>)"

definition rb_push :: "'a \<Rightarrow> 'a replay_buffer \<Rightarrow> 'a replay_buffer" where
  "rb_push x b = b\<lparr>rb_items := (if length (rb_items b) < rb_capacity b then rb_items b @ [x] else (rb_items b)[rb_pos b := x]),
     rb_pos := (rb_pos b + 1) mod rb_capacity b\<rparr>"

text \<open>\<open>random.choices\<close> draws with replacement; \<open>pick i\<close> is the \<open>i\<close>-th draw from \<open>n\<close> items.\<close>

definition rb_sample :: "(nat \<Rightarrow> nat \<Rightarrow> nat) \<Rightarrow> int \<Rightarrow> 'a replay_buffer \<Rightarrow> 'a list" where
  "rb_sample pick n b = map (\<lambda>i. rb_items b ! pick (length (rb_items b)) i)
     [0..<nat (min n (int (length (rb_items b))))]"

definition rb_size :: "'a replay_buffer \<Rightarrow> nat" where "rb_size b = length (rb_items b)"

section \<open>Bounded logs\<close>

text \<open>A deque with \<open>maxlen\<close> drops its oldest entry.\<close>

record decision =
  dn_agent :: ustr
  dn_query :: ustr
  dn_policy :: string
  dn_reward :: real
  dn_time :: real

record decision_log =
  dl_max :: nat
  dl_entries :: "decision list"

definition dl_new :: "int \<Rightarrow> py_error + decision_log" where
  "dl_new n = (if n < 1 then Inl ValueError else Inr \<lparr>dl_max = nat n, dl_entries = []\<rparr>)"

definition dl_log :: "experience \<Rightarrow> ustr \<Rightarrow> string \<Rightarrow> decision_log \<Rightarrow> decision_log" where
  "dl_log e query policy l =
     (let es = dl_entries l @ [\<lparr>dn_agent = ex_agent e, dn_query = query, dn_policy = policy, dn_reward = ex_reward e,
            dn_time = ex_time e\<rparr>]
      in l\<lparr>dl_entries := (if length es > dl_max l then drop 1 es else es)\<rparr>)"

definition dl_recent :: "int \<Rightarrow> decision_log \<Rightarrow> decision list" where
  "dl_recent n l = (if n \<le> 0 then [] else drop (length (dl_entries l) - nat n) (dl_entries l))"

record gov_signal =
  gs_content :: ustr
  gs_label :: string
  gs_confidence :: real
  gs_hint :: ustr

record collector =
  co_raw :: bool
  co_signals :: "gov_signal list"

definition collect_signal :: "(ustr \<Rightarrow> ustr) \<Rightarrow> ustr \<Rightarrow> string \<Rightarrow> real \<Rightarrow> ustr \<Rightarrow> collector \<Rightarrow> collector" where
  "collect_signal sha content label conf hint c = c\<lparr>co_signals := co_signals c
     @ [\<lparr>gs_content = (if co_raw c then content else sha content), gs_label = label, gs_confidence = conf, gs_hint = hint\<rparr>]\<rparr>"

section \<open>Features and rewards\<close>

text \<open>The dimension of the encoder is a natural number here, and floats are reals.\<close>

definition FEATURES :: "string list" where
  "FEATURES = [''query_complexity'', ''result_count'', ''avg_importance'', ''edge_density'', ''routing_signal'']"

definition raw_features :: "(string \<rightharpoonup> real) \<Rightarrow> real list" where
  "raw_features f = map (\<lambda>k. let v = (case f k of None \<Rightarrow> 0 | Some x \<Rightarrow> x) in if k = ''result_count'' then v / 20 else v) FEATURES"

definition l2_norm :: "real list \<Rightarrow> real" where
  "l2_norm xs = sqrt (sum_list (map (\<lambda>x. x\<^sup>2) xs))"

definition encode_features :: "nat \<Rightarrow> (string \<rightharpoonup> real) \<Rightarrow> real list" where
  "encode_features dims f =
     (let padded = take dims (raw_features f @ replicate dims 0); n = l2_norm padded
      in if n > 1 / 10 ^ 8 then map (\<lambda>x. x / n) padded else padded)"

definition compute_reward :: "real \<Rightarrow> real" where
  "compute_reward score = max 0 (min 1 score)"

section \<open>The safety layer\<close>

record rl_action =
  ac_policy :: string
  ac_consolidation :: string
  ac_override :: bool
  ac_delta :: real
  ac_mask :: "(string \<times> bool) list"

definition MANDATORY_HOOKS :: "string list" where
  "MANDATORY_HOOKS = [''validation_gate'', ''failure_filter'']"

definition safety_filter :: "rl_action \<Rightarrow> rl_action" where
  "safety_filter a =
     (let cons = (if ac_override a \<and> ac_consolidation a \<in> set [''APPROVE'', ''PROMOTE''] then ''QUARANTINE''
                  else ac_consolidation a);
          delta = max 0 (min 1 (ac_delta a));
          mask = fold (\<lambda>h m. if map_of m h \<noteq> None then AList.update h True m else m) MANDATORY_HOOKS (ac_mask a)
      in if cons = ac_consolidation a \<and> delta = ac_delta a \<and> mask = ac_mask a then a
         else a\<lparr>ac_consolidation := cons, ac_delta := delta, ac_mask := mask\<rparr>)"

section \<open>The buffer is the queue of the last experiences\<close>

text \<open>The content of the buffer, oldest first.\<close>

definition rb_queue :: "'a replay_buffer \<Rightarrow> 'a list" where
  "rb_queue b = (if length (rb_items b) < rb_capacity b then rb_items b
     else drop (rb_pos b) (rb_items b) @ take (rb_pos b) (rb_items b))"

definition rb_ok :: "'a replay_buffer \<Rightarrow> bool" where
  "rb_ok b \<longleftrightarrow> 0 < rb_capacity b \<and> length (rb_items b) \<le> rb_capacity b
     \<and> (if length (rb_items b) < rb_capacity b then rb_pos b = length (rb_items b) else rb_pos b < rb_capacity b)"

lemma rb_push_queue:
  assumes "rb_ok b"
  shows "rb_ok (rb_push x b)" "rb_capacity (rb_push x b) = rb_capacity b"
    "rb_queue (rb_push x b) = drop (length (rb_queue b @ [x]) - rb_capacity b) (rb_queue b @ [x])"
proof -
  have c: "0 < rb_capacity b" "length (rb_items b) \<le> rb_capacity b" using assms by (simp_all add: rb_ok_def)
  consider (grow) "Suc (length (rb_items b)) < rb_capacity b" | (fill) "Suc (length (rb_items b)) = rb_capacity b"
    | (full) "length (rb_items b) = rb_capacity b" using c(2) by linarith
  then have "rb_ok (rb_push x b) \<and> rb_queue (rb_push x b) = drop (length (rb_queue b @ [x]) - rb_capacity b) (rb_queue b @ [x])"
  proof cases
    case full
    let ?p = "rb_pos b" and ?xs = "rb_items b"
    have p: "?p < length ?xs" using assms full by (simp add: rb_ok_def)
    have q: "rb_queue b = drop ?p ?xs @ take ?p ?xs" using full by (simp add: rb_queue_def)
    have len: "length (rb_queue b @ [x]) - rb_capacity b = 1" using full p by (simp add: q)
    have "rb_queue b @ [x] = ?xs ! ?p # drop (Suc ?p) ?xs @ take ?p ?xs @ [x]"
      using Cons_nth_drop_Suc[OF p, symmetric] by (simp add: q)
    then have "drop 1 (rb_queue b @ [x]) = drop (Suc ?p) ?xs @ take ?p ?xs @ [x]" by simp
    moreover have "rb_queue (rb_push x b) = drop (Suc ?p) ?xs @ take ?p ?xs @ [x]"
    proof (cases "Suc ?p = rb_capacity b")
      case True
      then have "rb_queue (rb_push x b) = ?xs[?p := x]" using full by (simp add: rb_queue_def rb_push_def)
      also have "\<dots> = take ?p ?xs @ [x] @ drop (Suc ?p) ?xs" using p by (simp add: upd_conv_take_nth_drop)
      finally show ?thesis using True full by simp
    next
      case False
      then have "(?p + 1) mod rb_capacity b = Suc ?p" using p full by simp
      then have "rb_queue (rb_push x b) = drop (Suc ?p) (?xs[?p := x]) @ take (Suc ?p) (?xs[?p := x])"
        using full by (simp add: rb_queue_def rb_push_def)
      then show ?thesis using p by (simp add: drop_update_cancel take_Suc_conv_app_nth)
    qed
    moreover have "rb_ok (rb_push x b)" using full c by (simp add: rb_ok_def rb_push_def)
    ultimately show ?thesis using len by simp
  qed (use assms in \<open>auto simp: rb_ok_def rb_queue_def rb_push_def\<close>)
  then show "rb_ok (rb_push x b)" "rb_queue (rb_push x b) = drop (length (rb_queue b @ [x]) - rb_capacity b) (rb_queue b @ [x])"
    by blast+
  show "rb_capacity (rb_push x b) = rb_capacity b" by (simp add: rb_push_def)
qed

text \<open>The buffer refines the queue of the last \<open>capacity\<close> experiences, whatever was pushed.\<close>

theorem buffer_keeps_the_latest:
  assumes "rb_new n = Inr b"
  shows "rb_queue (fold rb_push xs b) = drop (length xs - nat n) xs"
    and "set (rb_items (fold rb_push xs b)) = set (drop (length xs - nat n) xs)"
proof -
  have b: "rb_ok b" "rb_queue b = []" "rb_capacity b = nat n" "0 < nat n"
    using assms by (auto simp: rb_new_def rb_ok_def rb_queue_def split: if_splits)
  have "rb_ok (fold rb_push xs b) \<and> rb_capacity (fold rb_push xs b) = nat n
      \<and> rb_queue (fold rb_push xs b) = drop (length xs - nat n) xs"
  proof (induction xs rule: rev_induct)
    case (snoc x xs)
    define q where "q = drop (length xs - nat n) xs"
    have "rb_queue (fold rb_push (xs @ [x]) b) = drop (length (q @ [x]) - nat n) (q @ [x])"
      using rb_push_queue(3)[of "fold rb_push xs b" x] snoc by (simp add: q_def)
    also have "\<dots> = drop (length (xs @ [x]) - nat n) (xs @ [x])"
    proof (cases "length xs < nat n")
      case False
      then have "length (q @ [x]) - nat n = 1" "length (xs @ [x]) - nat n = Suc (length xs - nat n)" by (simp_all add: q_def)
      then show ?thesis using False b(4) by (simp add: q_def drop_drop add.commute)
    qed (simp add: q_def)
    finally show ?case using rb_push_queue(1,2)[of "fold rb_push xs b" x] snoc by simp
  qed (use b in simp)
  then show q: "rb_queue (fold rb_push xs b) = drop (length xs - nat n) xs" by blast
  have "set (rb_queue c) = set (rb_items c)" for c :: "'a replay_buffer"
    by (simp add: rb_queue_def) (metis append_take_drop_id set_append sup_commute)
  then show "set (rb_items (fold rb_push xs b)) = set (drop (length xs - nat n) xs)" using q by metis
qed

lemma decision_log_bounded:
  "length (dl_entries l) \<le> dl_max l \<Longrightarrow> 0 < dl_max l \<Longrightarrow> length (dl_entries (dl_log e q p l)) \<le> dl_max (dl_log e q p l)"
  by (auto simp: dl_log_def Let_def)

lemma recent_is_a_suffix: "\<exists>old. dl_entries l = old @ dl_recent n l \<and> length (dl_recent n l) = min (nat n) (length (dl_entries l))"
proof (cases "n \<le> 0")
  case False
  then show ?thesis
    by (intro exI[of _ "take (length (dl_entries l) - nat n) (dl_entries l)"]) (simp add: dl_recent_def min_def)
qed (simp add: dl_recent_def)

text \<open>Without the raw option no signal holds a content, only its digest.\<close>

lemma collected_content_is_hashed:
  "\<not> co_raw c \<Longrightarrow> \<forall>s\<in>set (co_signals c). \<exists>t. gs_content s = sha t \<Longrightarrow>
     \<forall>s\<in>set (co_signals (collect_signal sha content label conf hint c)). \<exists>t. gs_content s = sha t"
  by (auto simp: collect_signal_def)

lemma encoded_length: "length (encode_features n f) = n"
  by (simp add: encode_features_def Let_def raw_features_def FEATURES_def)

lemma encoded_unit:
  assumes "l2_norm (take n (raw_features f @ replicate n 0)) > 1 / 10 ^ 8"
  shows "l2_norm (encode_features n f) = 1"
proof -
  let ?xs = "take n (raw_features f @ replicate n 0)"
  let ?n = "l2_norm ?xs"
  have pos: "0 < ?n" by (rule less_trans[OF _ assms]) simp
  have "0 \<le> sum_list (map (\<lambda>x. x\<^sup>2) xs)" for xs :: "real list" by (rule sum_list_nonneg) auto
  from real_sqrt_pow2[OF this, of ?xs] have sq: "sum_list (map (\<lambda>x. x\<^sup>2) ?xs) = ?n\<^sup>2" unfolding l2_norm_def by (rule sym)
  have "sum_list (map (\<lambda>x. x\<^sup>2) (map (\<lambda>x. x / m) xs)) = sum_list (map (\<lambda>x. x\<^sup>2) xs) / m\<^sup>2" for xs and m :: real
    by (induction xs) (simp_all add: power_divide add_divide_distrib)
  from this[of ?n ?xs] have "sum_list (map (\<lambda>x. x\<^sup>2) (map (\<lambda>x. x / ?n) ?xs)) = 1"
    unfolding sq using pos by (metis divide_self_if less_irrefl power_not_zero)
  then have "l2_norm (map (\<lambda>x. x / ?n) ?xs) = 1" unfolding l2_norm_def by (simp only: real_sqrt_one)
  moreover have "encode_features n f = map (\<lambda>x. x / ?n) ?xs" unfolding encode_features_def Let_def if_P[OF assms] by (rule refl)
  ultimately show ?thesis by (rule ssubst[rotated])
qed

lemma reward_in_range: "0 \<le> compute_reward s \<and> compute_reward s \<le> 1"
  by (simp add: compute_reward_def)

text \<open>The safety layer: an action that tried to override a gate is never approved, the delta is in range,
  a mandatory hook is never switched off, and filtering again changes nothing.\<close>

definition action_safe :: "rl_action \<Rightarrow> bool" where
  "action_safe a \<longleftrightarrow> (ac_override a \<longrightarrow> ac_consolidation a \<notin> set [''APPROVE'', ''PROMOTE'']) \<and> 0 \<le> ac_delta a \<and> ac_delta a \<le> 1
     \<and> (\<forall>h\<in>set MANDATORY_HOOKS. map_of (ac_mask a) h \<noteq> Some False)"

definition keep_hook :: "string \<Rightarrow> (string \<times> bool) list \<Rightarrow> (string \<times> bool) list" where
  "keep_hook h m = (if map_of m h \<noteq> None then AList.update h True m else m)"

lemma safety_filter_hooks:
  "safety_filter a = (let cons = (if ac_override a \<and> ac_consolidation a \<in> set [''APPROVE'', ''PROMOTE''] then ''QUARANTINE''
        else ac_consolidation a); delta = max 0 (min 1 (ac_delta a)); mask = fold keep_hook MANDATORY_HOOKS (ac_mask a)
      in if cons = ac_consolidation a \<and> delta = ac_delta a \<and> mask = ac_mask a then a
         else a\<lparr>ac_consolidation := cons, ac_delta := delta, ac_mask := mask\<rparr>)"
  unfolding safety_filter_def keep_hook_def[abs_def] by (rule refl)

lemma keep_hook_on: "map_of (keep_hook h m) h \<noteq> Some False"
  by (simp add: keep_hook_def AList.update_conv')

lemma keep_hook_other: "k \<noteq> h \<Longrightarrow> map_of (keep_hook h m) k = map_of m k"
  by (simp add: keep_hook_def AList.update_conv')

lemma update_same: "map_of m h = Some v \<Longrightarrow> AList.update h v m = m"
  by (induction m) (auto split: if_splits)

lemma keep_hook_same: "map_of m h \<noteq> Some False \<Longrightarrow> keep_hook h m = m"
  by (cases "map_of m h") (auto simp: keep_hook_def update_same)

lemma keep_hooks_on: "h \<in> set hs \<Longrightarrow> map_of (fold keep_hook hs m) h \<noteq> Some False"
  by (induction hs rule: rev_induct) (auto simp: keep_hook_on keep_hook_other simp del: not_None_eq, metis keep_hook_on keep_hook_other)

lemma keep_hooks_same: "\<forall>h\<in>set hs. map_of m h \<noteq> Some False \<Longrightarrow> fold keep_hook hs m = m"
  by (induction hs) (simp_all add: keep_hook_same)

lemma safety_filter_safe: "action_safe (safety_filter a)"
proof -
  have "\<forall>h\<in>set MANDATORY_HOOKS. map_of (fold keep_hook MANDATORY_HOOKS (ac_mask a)) h \<noteq> Some False"
    using keep_hooks_on by blast
  moreover have "0 \<le> max 0 (min 1 (ac_delta a))" "max 0 (min 1 (ac_delta a)) \<le> 1" by simp_all
  ultimately show ?thesis unfolding safety_filter_hooks Let_def action_safe_def by auto
qed

lemma safe_is_unchanged: "action_safe a \<Longrightarrow> safety_filter a = a"
  unfolding safety_filter_hooks Let_def action_safe_def by (auto simp: keep_hooks_same)

lemma safety_filter_idem: "safety_filter (safety_filter a) = safety_filter a"
  by (rule safe_is_unchanged[OF safety_filter_safe])

end
