(* ===== verification/Timeline.thy ===== *)
theory Timeline
  imports Facts Embeddings Store_Laws
begin

text \<open>
  Subject timelines (\<^verbatim>\<open>memory/timeline.py\<close>, \<^verbatim>\<open>timeline_build.py\<close>, \<^verbatim>\<open>timeline_order.py\<close>): every memory that
  names a subject as a whole (\<^verbatim>\<open>store/_sqlite/mentions.py\<close>, \<^verbatim>\<open>intelligence/query_anchors.py\<close>), merged with
  the subject's fact history and ordered by two clocks that are never compared. Arguments: the class of
  word characters, lower case, the stemmer and the content terms of an attribute, Python's \<open>str\<close> of a
  fact value, \<open>datetime.fromisoformat\<close>, and which rows the full-text tables or sketches offer.
\<close>

section \<open>Whole anchors\<close>

record tl_lang =
  tg_word :: "nat \<Rightarrow> bool"
  tg_dec :: "nat \<Rightarrow> bool"
  tg_lower :: "ustr \<Rightarrow> ustr"
  tg_terms :: "ustr \<Rightarrow> ustr list"
  tg_stem :: "ustr \<Rightarrow> ustr"
  tg_iso :: "ustr \<Rightarrow> datetime option"
  tg_str :: "fact_value \<Rightarrow> ustr"

definition norm_char :: "nat \<Rightarrow> nat" where
  "norm_char c = (if c = 8217 then 39 else if c = 95 then 32 else c)"

definition anchor_norm :: "tl_lang \<Rightarrow> ustr \<Rightarrow> ustr" where
  "anchor_norm T s = py_join [32] (word_runs (tg_word T) (map norm_char (tg_lower T s)))"

definition extends_word :: "(nat \<Rightarrow> bool) \<Rightarrow> nat \<Rightarrow> bool" where
  "extends_word w c \<longleftrightarrow> w c \<and> \<not> is_cjk c"

text \<open>\<open>_contains_anchor\<close>: for ASCII texts the regex \<open>(?<!\w)anchor(?!\w)\<close>, otherwise the scan, which
  needs no boundary at a CJK edge. An empty anchor takes the regex.\<close>

definition anchor_at :: "bool \<Rightarrow> bool \<Rightarrow> (nat \<Rightarrow> bool) \<Rightarrow> ustr \<Rightarrow> ustr \<Rightarrow> nat \<Rightarrow> bool" where
  "anchor_at free_left free_right ext content anchor i \<longleftrightarrow>
     take (length anchor) (drop i content) = anchor
     \<and> (free_left \<or> i = 0 \<or> \<not> ext (content ! (i - 1)))
     \<and> (free_right \<or> i + length anchor = length content \<or> \<not> ext (content ! (i + length anchor)))"

definition contains_anchor :: "tl_lang \<Rightarrow> ustr \<Rightarrow> ustr \<Rightarrow> bool" where
  "contains_anchor T content anchor \<longleftrightarrow>
     (let plain = anchor = [] \<or> (is_ascii anchor \<and> is_ascii content);
          ext = (if plain then tg_word T else extends_word (tg_word T));
          fl = \<not> plain \<and> is_cjk (hd anchor); fr = \<not> plain \<and> is_cjk (last anchor)
      in list_ex (anchor_at fl fr ext content anchor) [0..<Suc (length content - length anchor)]
         \<and> length anchor \<le> length content)"

section \<open>The memories that name a subject\<close>

text \<open>One page: accepted rows are decoded, tampered ones are persisted as CONTRADICTED and skipped. The
  test reads the decrypted content before the row is decoded, and an undecryptable row raises there.
  \<open>psize = 0\<close> gives no page.\<close>

fun scan_page :: "provider \<Rightarrow> (ustr \<Rightarrow> bool) \<Rightarrow> fragment list \<Rightarrow> py_error + (fragment list \<times> ustr list)" where
  "scan_page P accept [] = Inr ([], [])"
| "scan_page P accept (r # rs) =
     (case pv_decrypt P (fr_content r) of
        None \<Rightarrow> Inl ValueError
      | Some c \<Rightarrow> bind_res (scan_page P accept rs) (\<lambda>(page, bad).
          if \<not> accept c then Inr (page, bad)
          else let (f, tampered) = decode_fragment P (r\<lparr>fr_embedding := None\<rparr>)
               in if tampered then Inr (page, fr_id f # bad) else Inr (f # page, bad)))"

fun scan_pages :: "provider \<Rightarrow> datetime \<Rightarrow> (ustr \<Rightarrow> bool) \<Rightarrow> fragment list list \<Rightarrow> store_db \<Rightarrow> store_db \<times> (py_error + fragment list)" where
  "scan_pages P now accept [] db = (db, Inr [])"
| "scan_pages P now accept (rows # pages) db =
     (case scan_page P accept rows of
        Inl e \<Rightarrow> (db, Inl e)
      | Inr (page, bad) \<Rightarrow>
          (case scan_pages P now accept pages (if bad = [] then db else persist_tampered now db bad) of
             (db', Inl e) \<Rightarrow> (db', Inl e)
           | (db', Inr rest) \<Rightarrow> (db', Inr (page @ rest))))"

fun pages_of :: "nat \<Rightarrow> nat \<Rightarrow> 'a list \<Rightarrow> 'a list list" where
  "pages_of 0 n xs = []"
| "pages_of (Suc k) n xs = (if xs = [] then [] else take n xs # pages_of k n (drop n xs))"

definition retrievable_row :: "datetime \<Rightarrow> store_db \<Rightarrow> ustr \<Rightarrow> fragment \<Rightarrow> bool" where
  "retrievable_row now db agent r \<longleftrightarrow>
     fragment_matches db agent (no_filter\<lparr>ff_states := retrievable_states\<rparr>) r \<and> \<not> is_expired now r"

definition mention_candidates ::
  "provider \<Rightarrow> tl_lang \<Rightarrow> datetime \<Rightarrow> (fragment \<Rightarrow> bool) \<Rightarrow> store_db \<Rightarrow> ustr \<Rightarrow> ustr \<Rightarrow> nat \<Rightarrow> (ustr \<Rightarrow> bool)
    \<Rightarrow> store_db \<times> (py_error + fragment list)" where
  "mention_candidates P T now offered db agent phrase psize accept =
     (if word_runs (tg_word T) (tg_lower T phrase) = [] \<or> psize = 0 then (db, Inr [])
      else let rows = filter (\<lambda>r. retrievable_row now db agent r \<and> offered r) (db_fragments db)
           in scan_pages P now accept (pages_of (length rows) psize rows) db)"

text \<open>\<open>declared_event_time\<close>: the metadata wins, then a stamp at the start of the content.\<close>

definition digits_at :: "(nat \<Rightarrow> bool) \<Rightarrow> nat \<Rightarrow> ustr \<Rightarrow> bool" where
  "digits_at dec n s \<longleftrightarrow> n \<le> length s \<and> list_all dec (take n s)"

definition stamp_time :: "(nat \<Rightarrow> bool) \<Rightarrow> ustr \<Rightarrow> ustr" where
  "stamp_time dec s =
     (if s \<noteq> [] \<and> hd s \<in> {84, 32} \<and> digits_at dec 2 (drop 1 s) \<and> take 1 (drop 3 s) = [58] \<and> digits_at dec 2 (drop 4 s)
      then (if take 1 (drop 6 s) = [58] \<and> digits_at dec 2 (drop 7 s) then take 8 (drop 1 s) else take 5 (drop 1 s))
      else [])"

definition lead_stamp :: "(nat \<Rightarrow> bool) \<Rightarrow> ustr \<Rightarrow> ustr option" where
  "lead_stamp dec content =
     (let s0 = dropWhile py_isspace content; s = (if take 1 s0 = [91] then drop 1 s0 else s0)
      in if digits_at dec 4 s \<and> take 1 (drop 4 s) = [45] \<and> digits_at dec 2 (drop 5 s) \<and> take 1 (drop 7 s) = [45]
            \<and> digits_at dec 2 (drop 8 s)
         then Some (take 10 s @ (let t = stamp_time dec (drop 10 s) in if t = [] then [] else 84 # t))
         else None)"

definition parse_when :: "tl_lang \<Rightarrow> ustr \<Rightarrow> datetime option" where
  "parse_when T s = tg_iso T (concat (map (\<lambda>c. if c = 90 then u ''+00:00'' else [c]) (py_strip s)))"

definition declared_event_time :: "tl_lang \<Rightarrow> fragment \<Rightarrow> datetime option" where
  "declared_event_time T f =
     (let stamp = (case lead_stamp (tg_dec T) (fr_content f) of None \<Rightarrow> None | Some s \<Rightarrow> parse_when T s)
      in case map_of (fr_meta f) ''occurred_at'' of
           Some (MvText raw) \<Rightarrow> (if raw = [] then stamp
             else (case parse_when T raw of None \<Rightarrow> stamp | Some t \<Rightarrow> Some t))
         | _ \<Rightarrow> stamp)"

text \<open>\<open>_mentions\<close>: the test on raw content, and one record per text and declared time.\<close>

definition names_subject :: "tl_lang \<Rightarrow> ustr \<Rightarrow> ustr list \<Rightarrow> ustr \<Rightarrow> bool" where
  "names_subject T anchor terms content \<longleftrightarrow>
     contains_anchor T (anchor_norm T content) anchor
     \<and> (terms = [] \<or> (let stems = map (tg_stem T) (word_runs (tg_word T) (tg_lower T content))
                     in list_all (\<lambda>t. t \<in> set stems) terms))"

definition mention_key :: "tl_lang \<Rightarrow> fragment \<Rightarrow> ustr \<times> datetime option" where
  "mention_key T f = (anchor_norm T (fr_content f), declared_event_time T f)"

fun first_by :: "('a \<Rightarrow> 'k) \<Rightarrow> 'k set \<Rightarrow> 'a list \<Rightarrow> 'a list" where
  "first_by key seen [] = []"
| "first_by key seen (x # xs) = (if key x \<in> seen then first_by key seen xs else x # first_by key (insert (key x) seen) xs)"

definition mentions ::
  "provider \<Rightarrow> tl_lang \<Rightarrow> datetime \<Rightarrow> (fragment \<Rightarrow> bool) \<Rightarrow> store_db \<Rightarrow> ustr \<Rightarrow> ustr \<Rightarrow> ustr \<Rightarrow> ustr list \<Rightarrow> nat
    \<Rightarrow> store_db \<times> (py_error + fragment list)" where
  "mentions P T now offered db agent subject anchor terms psize =
     (case mention_candidates P T now offered db agent subject psize (names_subject T anchor terms) of
        (db', Inl e) \<Rightarrow> (db', Inl e)
      | (db', Inr fs) \<Rightarrow> (db', Inr (first_by (mention_key T) {} fs)))"

section \<open>Two clocks\<close>

datatype basis = Declared | StoredAfter | UnknownPlace | Stored

definition two_clock_order :: "'a list \<Rightarrow> ('a \<Rightarrow> datetime option) \<Rightarrow> ('a \<Rightarrow> datetime) \<Rightarrow> ('a \<times> basis) list" where
  "two_clock_order items declared stored =
     (let undated = sort_key stored (filter (\<lambda>x. declared x = None) items);
          dated = sort_key (\<lambda>x. (the (declared x), stored x)) (filter (\<lambda>x. declared x \<noteq> None) items)
      in if dated = [] then map (\<lambda>x. (x, Stored)) undated
         else (let bound = fold (\<lambda>x m. max m (stored x)) (tl dated) (stored (hd dated))
               in map (\<lambda>x. (x, Declared)) dated
                  @ map (\<lambda>x. (x, UnknownPlace)) (filter (\<lambda>x. stored x \<le> bound) undated)
                  @ map (\<lambda>x. (x, StoredAfter)) (filter (\<lambda>x. stored x > bound) undated)))"

section \<open>Building a timeline\<close>

datatype event_kind = FactEvent | MemoryEvent

record tl_event =
  te_when :: "datetime option"
  te_kind :: event_kind
  te_text :: ustr
  te_dated :: bool
  te_fragment :: "ustr option"
  te_fact :: "ustr option"
  te_stored :: datetime
  te_same_day :: "(nat \<times> nat) option"
  te_basis :: basis

record tl_timeline =
  tm_subject :: ustr
  tm_attribute :: "ustr option"
  tm_events :: "tl_event list"
  tm_truncated :: nat

text \<open>\<open>_facts\<close>: one attribute, or every attribute with a current row.\<close>

definition subject_facts :: "tl_lang \<Rightarrow> datetime \<Rightarrow> fact list \<Rightarrow> ustr \<Rightarrow> ustr \<Rightarrow> ustr option \<Rightarrow> fact list" where
  "subject_facts T now rows agent subject attr = (case attr of
     Some atr \<Rightarrow> fact_history (tg_lower T) rows agent subject atr
   | None \<Rightarrow> concat (map (\<lambda>r. fact_history (tg_lower T) rows agent subject (fc_attr r))
       (fact_current (tg_lower T) now rows agent (Some subject) None)))"

text \<open>A fact extracted from a collected memory is folded into its event, the first one per memory.\<close>

fun fold_facts :: "ustr set \<Rightarrow> fact list \<Rightarrow> (ustr \<rightharpoonup> ustr) \<Rightarrow> (ustr \<rightharpoonup> ustr) \<times> fact list" where
  "fold_facts ids [] folded = (folded, [])"
| "fold_facts ids (r # rs) folded =
     (case fc_source r of
        Some src \<Rightarrow>
          if src \<noteq> [] \<and> src \<in> ids \<and> folded src = None then fold_facts ids rs (folded(src \<mapsto> fc_id r))
          else (let (m, kept) = fold_facts ids rs folded in (m, r # kept))
      | None \<Rightarrow> (let (m, kept) = fold_facts ids rs folded in (m, r # kept)))"

definition fact_event :: "tl_lang \<Rightarrow> fact \<Rightarrow> tl_event" where
  "fact_event T r = \<lparr>te_when = Some (fc_from r), te_kind = FactEvent,
     te_text = fc_subject r @ [32] @ fc_attr r @ u '' = '' @ tg_str T (decode_value (fc_value r)),
     te_dated = True, te_fragment = None, te_fact = Some (fc_id r), te_stored = fc_recorded r,
     te_same_day = None, te_basis = Declared\<rparr>"

definition memory_event :: "tl_lang \<Rightarrow> (ustr \<rightharpoonup> ustr) \<Rightarrow> fragment \<Rightarrow> tl_event" where
  "memory_event T folded f = (let d = declared_event_time T f in \<lparr>te_when = Some (case d of None \<Rightarrow> fr_created f | Some t \<Rightarrow> t),
     te_kind = MemoryEvent, te_text = fr_content f, te_dated = (d \<noteq> None), te_fragment = Some (fr_id f),
     te_fact = folded (fr_id f), te_stored = fr_created f, te_same_day = None, te_basis = Declared\<rparr>)"

definition day_of :: "tl_event \<Rightarrow> nat \<times> nat \<times> nat" where
  "day_of e = (case te_when e of None \<Rightarrow> (0, 0, 0) | Some t \<Rightarrow> (dt_year t, dt_month t, dt_day t))"

text \<open>\<open>_label_same_day\<close>: the place among the events of one declared day, when it has several.\<close>

definition label_same_day :: "tl_event list \<Rightarrow> tl_event list" where
  "label_same_day es =
     (let mates = (\<lambda>e xs. length (filter (\<lambda>x. te_basis x = Declared \<and> day_of x = day_of e) xs))
      in map (\<lambda>i. let e = es ! i in
           if te_basis e = Declared \<and> mates e es > 1
           then e\<lparr>te_same_day := Some (mates e (take (Suc i) es), mates e es)\<rparr> else e) [0..<length es])"

definition in_window :: "datetime option \<Rightarrow> datetime option \<Rightarrow> tl_event \<Rightarrow> bool" where
  "in_window low high e = (case te_when e of None \<Rightarrow> True
     | Some t \<Rightarrow> (case low of None \<Rightarrow> True | Some l \<Rightarrow> l \<le> t) \<and> (case high of None \<Rightarrow> True | Some h \<Rightarrow> t \<le> h))"

definition order_events :: "tl_event list \<Rightarrow> tl_event list" where
  "order_events es = label_same_day (map (\<lambda>(e, b). e\<lparr>te_basis := b\<rparr>)
     (two_clock_order es (\<lambda>e. if te_dated e then te_when e else None) te_stored))"

definition clean_attribute :: "ustr option \<Rightarrow> ustr option" where
  "clean_attribute a = (case a of None \<Rightarrow> None | Some x \<Rightarrow> if py_strip x = [] then None else Some (py_strip x))"

definition attribute_terms :: "tl_lang \<Rightarrow> ustr \<Rightarrow> ustr option \<Rightarrow> ustr list" where
  "attribute_terms T anchor attr = (case attr of None \<Rightarrow> []
     | Some x \<Rightarrow> filter (\<lambda>t. t \<notin> set (py_split anchor)) (tg_terms T x))"

definition build_timeline ::
  "provider \<Rightarrow> tl_lang \<Rightarrow> datetime \<Rightarrow> (fragment \<Rightarrow> bool) \<Rightarrow> store_db \<Rightarrow> fact list \<Rightarrow> ustr \<Rightarrow> ustr \<Rightarrow> ustr option \<Rightarrow> int option
    \<Rightarrow> datetime option \<Rightarrow> datetime option \<Rightarrow> nat \<Rightarrow> store_db \<times> (py_error + tl_timeline)" where
  "build_timeline P T now offered db facts agent subject attr0 lmt low high psize =
     (let anchor = anchor_norm T subject in
      if anchor = [] then (db, Inl ValueError)
      else if (case lmt of None \<Rightarrow> False | Some n \<Rightarrow> n < 0) then (db, Inl ValueError)
      else
        let attr = clean_attribute attr0; terms = attribute_terms T anchor attr
        in case mentions P T now offered db agent subject anchor terms psize of
             (db', Inl e) \<Rightarrow> (db', Inl e)
           | (db', Inr ms) \<Rightarrow>
               (let (folded, kept) = fold_facts (fr_id ` set ms) (subject_facts T now facts agent subject attr) (\<lambda>i. None);
                    ordered = order_events (map (fact_event T) kept @ map (memory_event T folded) ms);
                    events = filter (in_window low high) ordered;
                    cut = (case lmt of None \<Rightarrow> 0 | Some n \<Rightarrow> length events - nat n)
                in (db', Inr \<lparr>tm_subject = subject, tm_attribute = attr, tm_events = drop cut events, tm_truncated = cut\<rparr>)))"

section \<open>Reading a timeline\<close>

definition tl_latest :: "tl_timeline \<Rightarrow> tl_event option" where
  "tl_latest t = find (\<lambda>e. te_basis e \<noteq> UnknownPlace) (rev (tm_events t))"

definition event_id :: "tl_event \<Rightarrow> ustr" where
  "event_id e = (case te_fragment e of
     Some (c # cs) \<Rightarrow> c # cs
   | _ \<Rightarrow> (case te_fact e of None \<Rightarrow> [] | Some i \<Rightarrow> i))"

definition iso_day :: "datetime \<Rightarrow> ustr" where
  "iso_day t = u (take 10 (iso_text t))"

definition event_label :: "tl_event \<Rightarrow> ustr" where
  "event_label e = (case te_when e of
     Some t \<Rightarrow> if te_dated e then iso_day t else u ''stored '' @ iso_day (te_stored e)
   | None \<Rightarrow> u ''stored '' @ iso_day (te_stored e))"

definition DOT_SEP :: ustr where "DOT_SEP = [32, 183, 32]"

text \<open>\<open>_LEADING_STAMP_RE\<close>; a stamp has no other form than the ones tried here.\<close>

definition cut_time :: "(nat \<Rightarrow> bool) \<Rightarrow> ustr \<Rightarrow> ustr" where
  "cut_time dec s = (case s of
     c # r \<Rightarrow> if (c = 84 \<or> c = 32) \<and> takeWhile (\<lambda>x. dec x \<or> x = 58) r \<noteq> []
        then (let r' = dropWhile (\<lambda>x. dec x \<or> x = 58) r in if take 1 r' = [90] then drop 1 r' else r') else s
   | [] \<Rightarrow> [])"

definition cut_stamp :: "(nat \<Rightarrow> bool) \<Rightarrow> ustr \<Rightarrow> ustr" where
  "cut_stamp dec content =
     (let s = dropWhile py_isspace content; d = drop 1 s; r = cut_time dec (drop 10 d) in
      if take 1 s = [91] \<and> digits_at dec 4 d \<and> take 1 (drop 4 d) = [45] \<and> digits_at dec 2 (drop 5 d)
         \<and> take 1 (drop 7 d) = [45] \<and> digits_at dec 2 (drop 8 d) \<and> take 1 r = [93]
      then dropWhile py_isspace (drop 1 r) else content)"

definition slice_upto :: "ustr \<Rightarrow> int \<Rightarrow> ustr" where
  "slice_upto s n = take (nat (if n < 0 then max 0 (int (length s) + n) else n)) s"

definition event_line :: "tl_lang \<Rightarrow> int \<Rightarrow> tl_event \<Rightarrow> ustr" where
  "event_line T max_chars e =
     (let raw = (if te_kind e = MemoryEvent then cut_stamp (tg_dec T) (te_text e) else u ''fact: '' @ te_text e);
          text0 = py_join [32] (py_split raw);
          text1 = (if int (length text0) > max_chars then slice_upto text0 (max_chars - 1) @ [8230] else text0)
      in event_label e @ DOT_SEP @ text1)"

text \<open>\<open>as_text\<close> after its header, and \<open>as_context\<close>: the lines escaped inside a tag, so that no content
  can close it. \<open>xml_quote\<close> is \<open>quoteattr\<close>.\<close>

definition xml_escape :: "ustr \<Rightarrow> ustr" where
  "xml_escape s = concat (map (\<lambda>c. if c = 38 then u ''&amp;'' else if c = 62 then u ''&gt;''
     else if c = 60 then u ''&lt;'' else [c]) s)"

definition xml_quote :: "ustr \<Rightarrow> ustr" where
  "xml_quote s =
     (let e = concat (map (\<lambda>c. if c = 10 then u ''&#10;'' else if c = 13 then u ''&#13;'' else if c = 9 then u ''&#9;'' else [c])
              (xml_escape s))
      in if 34 \<in> set e then (if 39 \<in> set e then [34] @ concat (map (\<lambda>c. if c = 34 then u ''&quot;'' else [c]) e) @ [34]
                             else [39] @ e @ [39])
         else [34] @ e @ [34])"

definition context_lines :: "tl_lang \<Rightarrow> (nat \<Rightarrow> ustr) \<Rightarrow> int \<Rightarrow> tl_timeline \<Rightarrow> ustr list" where
  "context_lines T str_nat max_chars t =
     [u ''<timeline subject='' @ xml_quote (tm_subject t)
        @ (case tm_attribute t of None \<Rightarrow> [] | Some a \<Rightarrow> if a = [] then [] else u '' attribute='' @ xml_quote a)
        @ u '' order='' @ [34] @ u ''oldest-first'' @ [34] @ u '' events='' @ [34] @ str_nat (length (tm_events t)) @ [34, 62]]
     @ map (\<lambda>e. [32, 32] @ xml_escape (event_line T max_chars e)) (tm_events t)
     @ [u ''</timeline>'']"

section \<open>The two-clock rule\<close>

lemma fold_max_stored: "fold (\<lambda>x m. max m (f x)) xs (a::'b::linorder) = Max (insert a (f ` set xs))"
proof (induction xs arbitrary: a)
  case (Cons x xs)
  then show ?case by (cases "xs = []") (simp_all add: max.assoc)
qed simp

lemma two_clock_mset: "mset (map fst (two_clock_order items d s)) = mset items"
proof -
  let ?u = "sort_key s (filter (\<lambda>x. d x = None) items)"
  let ?d = "sort_key (\<lambda>x. (the (d x), s x)) (filter (\<lambda>x. d x \<noteq> None) items)"
  have all: "mset ?u + mset ?d = mset items"
    by (simp add: multiset_partition[of "mset items" "\<lambda>x. d x = None", symmetric] del: not_None_eq)
  have split: "mset (filter (\<lambda>x. s x \<le> b) ?u) + mset (filter (\<lambda>x. b < s x) ?u) = mset ?u" for b
    using multiset_partition[of "mset ?u" "\<lambda>x. s x \<le> b"] by (simp add: not_le)
  show ?thesis
  proof (cases "?d = []")
    case True
    then show ?thesis using all by (simp add: two_clock_order_def Let_def comp_def)
  next
    case False
    define b where "b = fold (\<lambda>x m. max m (s x)) (tl ?d) (s (hd ?d))"
    have "two_clock_order items d s = map (\<lambda>x. (x, Declared)) ?d @ map (\<lambda>x. (x, UnknownPlace)) (filter (\<lambda>x. s x \<le> b) ?u)
        @ map (\<lambda>x. (x, StoredAfter)) (filter (\<lambda>x. b < s x) ?u)"
      unfolding two_clock_order_def Let_def b_def[symmetric] using False by simp
    then have "mset (map fst (two_clock_order items d s))
        = mset ?d + (mset (filter (\<lambda>x. s x \<le> b) ?u) + mset (filter (\<lambda>x. b < s x) ?u))"
      by (simp only: map_append mset_append map_map comp_def fst_conv list.map_ident add.assoc)
    then show ?thesis unfolding split using all by (simp add: add.commute)
  qed
qed

definition dated_in :: "('a \<Rightarrow> datetime option) \<Rightarrow> 'a list \<Rightarrow> 'a list" where
  "dated_in d items = filter (\<lambda>x. d x \<noteq> None) items"

text \<open>The parts of the order: the dated ones by declared time, then the ones that cannot be placed, then
  those stored after every dated one.\<close>

lemma two_clock_parts:
  assumes "dated_in d items \<noteq> []"
  obtains ds un later where "two_clock_order items d s = map (\<lambda>x. (x, Declared)) ds @ map (\<lambda>x. (x, UnknownPlace)) un
      @ map (\<lambda>x. (x, StoredAfter)) later"
    "mset ds = mset (dated_in d items)" "sorted (map (\<lambda>x. (the (d x), s x)) ds)"
    "sorted (map s later)" "sorted (map s un)"
    "set later = {x \<in> set items. d x = None \<and> (\<forall>y\<in>set (dated_in d items). s y < s x)}"
    "set un = {x \<in> set items. d x = None \<and> (\<exists>y\<in>set (dated_in d items). s x \<le> s y)}"
proof -
  let ?u = "sort_key s (filter (\<lambda>x. d x = None) items)"
  let ?d = "sort_key (\<lambda>x. (the (d x), s x)) (filter (\<lambda>x. d x \<noteq> None) items)"
  define b where "b = fold (\<lambda>x m. max m (s x)) (tl ?d) (s (hd ?d))"
  have "set ?d = set (dated_in d items)" by (simp add: dated_in_def del: not_None_eq)
  then have ne: "?d \<noteq> []" using assms by (metis set_empty)
  have setd: "set ?d = insert (hd ?d) (set (tl ?d))" using ne by (cases ?d) auto
  have b: "b = Max (s ` set ?d)"
    unfolding b_def fold_max_stored by (simp only: image_insert[symmetric] setd[symmetric])
  have le: "s x \<le> b \<longleftrightarrow> (\<exists>y\<in>set (dated_in d items). s x \<le> s y)" for x
    unfolding b \<open>set ?d = set (dated_in d items)\<close>[symmetric] using ne by (simp add: Max_ge_iff del: set_sort)
  have gt: "b < s x \<longleftrightarrow> (\<forall>y\<in>set (dated_in d items). s y < s x)" for x
    unfolding b \<open>set ?d = set (dated_in d items)\<close>[symmetric] using ne by (simp del: set_sort)
  show thesis
  proof (rule that[of ?d "filter (\<lambda>x. s x \<le> b) ?u" "filter (\<lambda>x. b < s x) ?u"])
    show "two_clock_order items d s = map (\<lambda>x. (x, Declared)) ?d @ map (\<lambda>x. (x, UnknownPlace)) (filter (\<lambda>x. s x \<le> b) ?u)
        @ map (\<lambda>x. (x, StoredAfter)) (filter (\<lambda>x. b < s x) ?u)"
      unfolding two_clock_order_def Let_def b_def[symmetric] using ne by simp
    show "mset ?d = mset (dated_in d items)" by (simp add: dated_in_def del: not_None_eq)
    show "sorted (map s (filter (\<lambda>x. b < s x) ?u))" "sorted (map s (filter (\<lambda>x. s x \<le> b) ?u))"
      by (simp_all add: sorted_filter)
    show "set (filter (\<lambda>x. b < s x) ?u) = {x \<in> set items. d x = None \<and> (\<forall>y\<in>set (dated_in d items). s y < s x)}"
      unfolding gt[symmetric] by auto
    show "set (filter (\<lambda>x. s x \<le> b) ?u) = {x \<in> set items. d x = None \<and> (\<exists>y\<in>set (dated_in d items). s x \<le> s y)}"
      unfolding le[symmetric] by auto
  qed simp
qed

lemma two_clock_undated:
  "dated_in d items = [] \<Longrightarrow> two_clock_order items d s = map (\<lambda>x. (x, Stored)) (sort_key s items)"
proof -
  assume none: "dated_in d items = []"
  have "filter (\<lambda>x. d x = None) items = items"
    by (rule filter_True) (use none in \<open>auto simp: dated_in_def filter_empty_conv\<close>)
  with none show ?thesis by (simp add: two_clock_order_def dated_in_def Let_def del: not_None_eq)
qed

section \<open>Reading pages\<close>

abbreviation light :: "fragment \<Rightarrow> fragment" where "light r \<equiv> r\<lparr>fr_embedding := None\<rparr>"

definition accepted_row :: "provider \<Rightarrow> (ustr \<Rightarrow> bool) \<Rightarrow> fragment \<Rightarrow> bool" where
  "accepted_row P accept r \<longleftrightarrow> (case pv_decrypt P (fr_content r) of None \<Rightarrow> False | Some c \<Rightarrow> accept c)
     \<and> \<not> snd (decode_fragment P (light r))"

lemma scan_page_result:
  "scan_page P accept rows = Inr (page, bad) \<Longrightarrow>
     page = map (\<lambda>r. fst (decode_fragment P (light r))) (filter (accepted_row P accept) rows)"
proof (induction rows arbitrary: page bad)
  case (Cons r rows)
  then obtain c page1 bad1 where c: "pv_decrypt P (fr_content r) = Some c" and
    rest: "scan_page P accept rows = Inr (page1, bad1)"
    by (auto simp: bind_res_Inr_iff split: option.splits)
  then show ?case using Cons by (auto simp: bind_res_def accepted_row_def Let_def split_def split: if_splits)
qed simp

lemma scan_pages_result:
  "scan_pages P now accept pages db = (db', Inr fs) \<Longrightarrow>
     fs = map (\<lambda>r. fst (decode_fragment P (light r))) (filter (accepted_row P accept) (concat pages))"
  by (induction pages arbitrary: db fs) (fastforce dest: scan_page_result split: sum.splits prod.splits)+

lemma concat_pages_of: "0 < n \<Longrightarrow> length xs \<le> k \<Longrightarrow> concat (pages_of k n xs) = xs"
  by (induction k n xs rule: pages_of.induct) auto

definition offered_rows :: "datetime \<Rightarrow> (fragment \<Rightarrow> bool) \<Rightarrow> store_db \<Rightarrow> ustr \<Rightarrow> fragment list" where
  "offered_rows now offered db agent = filter (\<lambda>r. retrievable_row now db agent r \<and> offered r) (db_fragments db)"

lemma mention_candidates_result:
  assumes "mention_candidates P T now offered db agent phrase psize accept = (db', Inr fs)"
    "word_runs (tg_word T) (tg_lower T phrase) \<noteq> []" "0 < psize"
  shows "fs = map (\<lambda>r. fst (decode_fragment P (light r))) (filter (accepted_row P accept) (offered_rows now offered db agent))"
  using scan_pages_result[of P now accept "pages_of (length (offered_rows now offered db agent)) psize (offered_rows now offered db agent)" db db' fs] assms
  by (auto simp: mention_candidates_def Let_def concat_pages_of simp flip: offered_rows_def)

lemma set_first_by: "set (first_by key seen xs) \<subseteq> set xs"
  by (induction key seen xs rule: first_by.induct) auto

lemma first_by_keys: "key ` set (first_by key seen xs) = key ` set xs - seen"
  by (induction key seen xs rule: first_by.induct) auto

lemma first_by_distinct: "distinct (map key (first_by key seen xs))"
proof (induction key seen xs rule: first_by.induct)
  case (2 key seen x xs)
  then show ?case using first_by_keys[of key "insert (key x) seen" xs] by auto
qed simp

section \<open>Timelines are complete and know their latest event\<close>

lemma fold_facts_effect:
  "fold_facts ids fs m = (m', kept) \<Longrightarrow> (\<forall>i x. m i = Some x \<longrightarrow> m' i = Some x)
     \<and> (\<forall>r\<in>set fs. r \<in> set kept \<or> (\<exists>src\<in>ids. m' src = Some (fc_id r)))"
proof (induction fs arbitrary: m m' kept)
  case (Cons r rs)
  show ?case
  proof (cases "\<exists>src. fc_source r = Some src \<and> src \<noteq> [] \<and> src \<in> ids \<and> m src = None")
    case True
    then obtain src where src: "fc_source r = Some src" "src \<noteq> []" "src \<in> ids" "m src = None" by blast
    have run: "fold_facts ids rs (m(src \<mapsto> fc_id r)) = (m', kept)" using Cons.prems src by simp
    note IH = Cons.IH[OF run]
    have "m' src = Some (fc_id r)" using IH by simp
    moreover have "m' i = Some x" if "m i = Some x" for i x
      using IH that src(4) by (cases "i = src") auto
    ultimately show ?thesis using IH src(3) by (intro conjI ballI) (blast, metis set_ConsD)
  next
    case False
    obtain m1 k1 where run: "fold_facts ids rs m = (m1, k1)" by fastforce
    have "m' = m1 \<and> kept = r # k1" using Cons.prems False run by (auto split: option.splits if_splits)
    then show ?thesis using Cons.IH[OF run] by auto
  qed
qed simp

definition event_core :: "tl_event \<Rightarrow> tl_event" where
  "event_core e = e\<lparr>te_basis := Declared, te_same_day := None\<rparr>"

lemma event_core_sel [simp]:
  "te_kind (event_core e) = te_kind e" "te_text (event_core e) = te_text e" "te_when (event_core e) = te_when e"
  "te_dated (event_core e) = te_dated e" "te_fragment (event_core e) = te_fragment e" "te_fact (event_core e) = te_fact e"
  "te_stored (event_core e) = te_stored e"
  by (simp_all add: event_core_def)

lemma core_label: "map event_core (label_same_day es) = map event_core es"
  by (rule nth_equalityI) (simp_all add: label_same_day_def Let_def event_core_def)

lemma order_events_mset: "mset (map event_core (order_events es)) = mset (map event_core es)"
proof -
  let ?R = "two_clock_order es (\<lambda>e. if te_dated e then te_when e else None) te_stored"
  have "map event_core (order_events es) = map event_core (map fst ?R)"
    by (simp add: order_events_def core_label event_core_def comp_def split_def)
  then show ?thesis unfolding mset_map two_clock_mset[symmetric, of es "\<lambda>e. if te_dated e then te_when e else None" te_stored]
    by (metis mset_map)
qed

definition two_clock_top :: "('a \<Rightarrow> datetime option) \<Rightarrow> ('a \<Rightarrow> datetime) \<Rightarrow> 'a list \<Rightarrow> 'a \<Rightarrow> bool" where
  "two_clock_top d s items x \<longleftrightarrow> x \<in> set items \<and>
     (if d x \<noteq> None then (\<forall>y\<in>set items. d y \<noteq> None \<longrightarrow> (the (d y), s y) \<le> (the (d x), s x))
          \<and> (\<forall>y\<in>set items. d y = None \<longrightarrow> (\<exists>z\<in>set items. d z \<noteq> None \<and> s y \<le> s z))
      else (\<forall>y\<in>set items. if d y = None then s y \<le> s x else s y < s x))"

lemma sorted_last: "sorted (map f xs) \<Longrightarrow> x \<in> set xs \<Longrightarrow> f x \<le> f (last xs)"
  by (induction xs) (auto split: if_splits)

lemma find_map_rev: "(\<And>x. p (g x)) \<Longrightarrow> find p (rev (map g xs)) = (if xs = [] then None else Some (g (last xs)))"
  by (cases xs rule: rev_cases) auto

lemma find_append: "find p (xs @ ys) = (case find p xs of Some x \<Rightarrow> Some x | None \<Rightarrow> find p ys)"
  by (induction xs) auto

lemma find_unknown: "find (\<lambda>p. snd p \<noteq> UnknownPlace) (rev (map (\<lambda>x. (x, UnknownPlace)) xs)) = None"
  by (simp add: find_None_iff)

lemma two_clock_latest:
  "case find (\<lambda>p. snd p \<noteq> UnknownPlace) (rev (two_clock_order items d s)) of
     None \<Rightarrow> items = [] | Some (x, b) \<Rightarrow> two_clock_top d s items x"
proof (cases "dated_in d items = []")
  case True
  have none: "\<forall>y\<in>set items. d y = None" using True by (auto simp: dated_in_def filter_empty_conv)
  have "two_clock_top d s items (last (sort_key s items))" if "items \<noteq> []"
  proof -
    have "last (sort_key s items) \<in> set items" using that by (metis last_in_set set_empty set_sort)
    then show ?thesis using none sorted_last[OF sorted_sort_key[of s items]] by (simp add: two_clock_top_def)
  qed
  moreover have "sort_key s items = [] \<longleftrightarrow> items = []" by (metis set_empty set_sort)
  ultimately show ?thesis by (simp add: two_clock_undated[OF True] find_map_rev)
next
  case False
  obtain ds un later where R: "two_clock_order items d s = map (\<lambda>x. (x, Declared)) ds @ map (\<lambda>x. (x, UnknownPlace)) un
      @ map (\<lambda>x. (x, StoredAfter)) later"
    and ds: "mset ds = mset (dated_in d items)" "sorted (map (\<lambda>x. (the (d x), s x)) ds)"
    and later: "sorted (map s later)" "set later = {x \<in> set items. d x = None \<and> (\<forall>y\<in>set (dated_in d items). s y < s x)}"
    and un: "set un = {x \<in> set items. d x = None \<and> (\<exists>y\<in>set (dated_in d items). s x \<le> s y)}"
    by (rule two_clock_parts[OF False, of s])
  have dset: "set ds = {x \<in> set items. d x \<noteq> None}" "ds \<noteq> []"
    using ds(1) False by (metis dated_in_def set_filter set_mset_mset, metis mset_zero_iff)
  have dd: "set (dated_in d items) = {x \<in> set items. d x \<noteq> None}" by (simp add: dated_in_def)
  have fd: "find (\<lambda>p. snd p \<noteq> UnknownPlace) (rev (two_clock_order items d s))
      = Some (if later = [] then (last ds, Declared) else (last later, StoredAfter))"
  proof -
    have "find (\<lambda>p. snd p \<noteq> UnknownPlace) (rev (map (\<lambda>x. (x, StoredAfter)) later))
        = (if later = [] then None else Some (last later, StoredAfter))" by (rule find_map_rev) simp
    moreover have "find (\<lambda>p. snd p \<noteq> UnknownPlace) (rev (map (\<lambda>x. (x, Declared)) ds)) = Some (last ds, Declared)"
      using find_map_rev[of "\<lambda>p. snd p \<noteq> UnknownPlace" "\<lambda>x. (x, Declared)" ds] dset(2) by simp
    ultimately show ?thesis unfolding R rev_append find_append find_unknown by simp
  qed
  show ?thesis
  proof (cases "later = []")
    case True
    have "last ds \<in> set ds" using dset(2) by simp
    moreover have "\<exists>z\<in>set items. d z \<noteq> None \<and> s y \<le> s z" if "y \<in> set items" "d y = None" for y
    proof (rule ccontr)
      assume "\<not> ?thesis"
      then have "y \<in> set later" unfolding later(2) dd using that by (auto simp: not_le)
      then show False using True by simp
    qed
    ultimately show ?thesis unfolding fd using True sorted_last[OF ds(2)] dset(1)
      by (simp add: two_clock_top_def del: not_None_eq)
  next
    case False
    then have "last later \<in> set later" by simp
    then have top: "last later \<in> set items" "d (last later) = None" "\<forall>y\<in>set (dated_in d items). s y < s (last later)"
      unfolding later(2) by auto
    have "s y \<le> s (last later)" if "y \<in> set items" "d y = None" for y
    proof (cases "\<forall>z\<in>set (dated_in d items). s z < s y")
      case True
      then show ?thesis using that sorted_last[OF later(1)] later(2) by blast
    next
      case f: False
      then obtain z where "z \<in> set (dated_in d items)" "s y \<le> s z" by (auto simp: not_less)
      then show ?thesis using top(3) by fastforce
    qed
    then show ?thesis unfolding fd using False top dd by (simp add: two_clock_top_def del: not_None_eq)
  qed
qed

lemma word_runs_nonempty: "word_runs w s \<noteq> [] \<longleftrightarrow> (\<exists>c\<in>set s. w c)"
  by (induction w s rule: word_runs.induct) auto

lemma anchor_has_word:
  assumes "anchor_norm T s \<noteq> []" "\<not> tg_word T 32" "\<not> tg_word T 39"
  shows "word_runs (tg_word T) (tg_lower T s) \<noteq> []"
proof -
  have "word_runs (tg_word T) (map norm_char (tg_lower T s)) \<noteq> []" using assms(1) by (auto simp: anchor_norm_def)
  then obtain c where "c \<in> set (tg_lower T s)" "tg_word T (norm_char c)" by (auto simp: word_runs_nonempty)
  with assms(2,3) have "tg_word T c" by (auto simp: norm_char_def split: if_splits)
  then show ?thesis using \<open>c \<in> set (tg_lower T s)\<close> by (auto simp: word_runs_nonempty)
qed

definition event_key :: "tl_lang \<Rightarrow> tl_event \<Rightarrow> ustr \<times> datetime option" where
  "event_key T e = (anchor_norm T (te_text e), if te_dated e then te_when e else None)"

lemma memory_event_sel [simp]:
  "te_kind (memory_event T m f) = MemoryEvent" "event_key T (memory_event T m f) = mention_key T f"
  "te_fragment (memory_event T m f) = Some (fr_id f)" "te_fact (memory_event T m f) = m (fr_id f)"
  "te_text (memory_event T m f) = fr_content f" "event_core (memory_event T m f) = memory_event T m f"
  by (auto simp: memory_event_def Let_def event_key_def mention_key_def event_core_def split: option.split)

lemma fact_event_sel [simp]:
  "te_kind (fact_event T r) = FactEvent" "te_fact (fact_event T r) = Some (fc_id r)"
  "event_core (fact_event T r) = fact_event T r"
  by (simp_all add: fact_event_def event_core_def)

lemma event_key_core [simp]: "event_key T (event_core e) = event_key T e"
  by (simp add: event_key_def)

lemma core_memory:
  assumes "event_core e = memory_event T m f"
  shows "te_kind e = MemoryEvent" "event_key T e = mention_key T f" "te_fragment e = Some (fr_id f)" "te_fact e = m (fr_id f)"
  using assms by (metis event_core_sel(1) memory_event_sel(1), metis event_key_core memory_event_sel(2),
    metis event_core_sel(5) memory_event_sel(3), metis event_core_sel(6) memory_event_sel(4))

text \<open>The rows that a timeline of the subject must show.\<close>

definition naming_rows ::
  "provider \<Rightarrow> tl_lang \<Rightarrow> datetime \<Rightarrow> (fragment \<Rightarrow> bool) \<Rightarrow> store_db \<Rightarrow> ustr \<Rightarrow> ustr \<Rightarrow> ustr option \<Rightarrow> fragment list" where
  "naming_rows P T now offered db agent subject attr =
     (let anchor = anchor_norm T subject in
      filter (accepted_row P (names_subject T anchor (attribute_terms T anchor (clean_attribute attr))))
        (offered_rows now offered db agent))"

lemma build_timeline_parts:
  assumes "build_timeline P T now offered db facts agent subject attr None None None psize = (db', Inr tline)" "0 < psize"
    "\<not> tg_word T 32" "\<not> tg_word T 39"
  obtains ms folded kept where
    "ms = first_by (mention_key T) {} (map (\<lambda>r. fst (decode_fragment P (light r))) (naming_rows P T now offered db agent subject attr))"
    "fold_facts (fr_id ` set ms) (subject_facts T now facts agent subject (clean_attribute attr)) (\<lambda>i. None) = (folded, kept)"
    "tm_events tline = order_events (map (fact_event T) kept @ map (memory_event T folded) ms)" "tm_truncated tline = 0"
proof -
  let ?a = "anchor_norm T subject" and ?at = "clean_attribute attr"
  have ne: "?a \<noteq> []" using assms(1) by (auto simp: build_timeline_def split: if_splits)
  obtain ms folded kept where m: "mentions P T now offered db agent subject ?a (attribute_terms T ?a ?at) psize = (db', Inr ms)"
    and f: "fold_facts (fr_id ` set ms) (subject_facts T now facts agent subject ?at) (\<lambda>i. None) = (folded, kept)"
    and tevs: "tm_events tline = filter (in_window None None) (order_events (map (fact_event T) kept @ map (memory_event T folded) ms))"
      "tm_truncated tline = 0"
    using assms(1) ne by (auto simp: build_timeline_def Let_def split: prod.splits sum.splits)
  obtain fs where c: "mention_candidates P T now offered db agent subject psize (names_subject T ?a (attribute_terms T ?a ?at)) = (db', Inr fs)"
    and ms: "ms = first_by (mention_key T) {} fs"
    using m by (auto simp: mentions_def split: prod.splits sum.splits)
  have "fs = map (\<lambda>r. fst (decode_fragment P (light r))) (naming_rows P T now offered db agent subject attr)"
    unfolding naming_rows_def Let_def
    by (rule mention_candidates_result[OF c anchor_has_word[OF ne assms(3,4)] assms(2)])
  moreover have "filter (in_window None None) es = es" for es
    by (rule filter_True) (simp add: in_window_def split: option.split)
  ultimately show thesis using that[of ms folded kept] ms f tevs by simp
qed


lemma find_related:
  "list_all2 (\<lambda>x y. p x = q y \<and> Q x y) xs ys \<Longrightarrow> rel_option Q (find p xs) (find q ys)"
  by (induction rule: list_all2_induct) auto

abbreviation event_declared :: "tl_event \<Rightarrow> datetime option" where
  "event_declared e \<equiv> if te_dated e then te_when e else None"

lemma order_events_related:
  "list_all2 (\<lambda>e p. (te_basis e \<noteq> UnknownPlace) = (snd p \<noteq> UnknownPlace) \<and> event_core e = event_core (fst p))
     (order_events es) (two_clock_order es event_declared te_stored)"
  unfolding list_all2_conv_all_nth
  by (simp add: order_events_def label_same_day_def Let_def event_core_def split_def)

lemma two_clock_top_core:
  assumes "two_clock_top event_declared te_stored es x" "event_core ` set ev = event_core ` set es" "x' \<in> set ev"
    "event_core x' = event_core x"
  shows "two_clock_top event_declared te_stored ev x'"
proof -
  have same: "event_declared y' = event_declared y \<and> te_stored y' = te_stored y" if "event_core y' = event_core y" for y y'
    using that by (metis event_core_sel(3,4,7))
  have over: "\<exists>y\<in>set es. event_core y' = event_core y" if "y' \<in> set ev" for y' using assms(2) that by (metis imageE imageI)
  have onto: "\<exists>y'\<in>set ev. event_core y' = event_core y" if "y \<in> set es" for y using assms(2) that by (metis imageE imageI)
  show ?thesis
  proof (cases "event_declared x = None")
    case True
    then have t: "\<forall>y\<in>set es. if event_declared y = None then te_stored y \<le> te_stored x else te_stored y < te_stored x"
      using assms(1) by (simp add: two_clock_top_def)
    have "\<forall>y\<in>set ev. if event_declared y = None then te_stored y \<le> te_stored x' else te_stored y < te_stored x'"
    proof (intro ballI)
      fix y assume "y \<in> set ev"
      then obtain y0 where y0: "y0 \<in> set es" "event_core y = event_core y0" using over by blast
      then show "if event_declared y = None then te_stored y \<le> te_stored x' else te_stored y < te_stored x'"
        using t same[OF y0(2)] same[OF assms(4)] by fastforce
    qed
    then show ?thesis using True same[OF assms(4)] assms(3) by (simp add: two_clock_top_def)
  next
    case False
    then have t: "\<forall>y\<in>set es. event_declared y \<noteq> None \<longrightarrow> (the (event_declared y), te_stored y) \<le> (the (event_declared x), te_stored x)"
      "\<forall>y\<in>set es. event_declared y = None \<longrightarrow> (\<exists>z\<in>set es. event_declared z \<noteq> None \<and> te_stored y \<le> te_stored z)"
      using assms(1) by (simp_all add: two_clock_top_def del: not_None_eq)
    have "\<forall>y\<in>set ev. event_declared y \<noteq> None \<longrightarrow> (the (event_declared y), te_stored y) \<le> (the (event_declared x'), te_stored x')"
    proof (intro ballI impI)
      fix y assume "y \<in> set ev" "event_declared y \<noteq> None"
      then obtain y0 where y0: "y0 \<in> set es" "event_core y = event_core y0" using over by blast
      then show "(the (event_declared y), te_stored y) \<le> (the (event_declared x'), te_stored x')"
        using t(1) same[OF y0(2)] same[OF assms(4)] \<open>event_declared y \<noteq> None\<close> by fastforce
    qed
    moreover have "\<forall>y\<in>set ev. event_declared y = None \<longrightarrow> (\<exists>z\<in>set ev. event_declared z \<noteq> None \<and> te_stored y \<le> te_stored z)"
    proof (intro ballI impI)
      fix y assume "y \<in> set ev" "event_declared y = None"
      then obtain y0 where y0: "y0 \<in> set es" "event_core y = event_core y0" using over by blast
      have e: "event_declared y0 = event_declared y" "te_stored y0 = te_stored y" using same[OF y0(2)] by auto
      obtain z0 where z0: "z0 \<in> set es" "event_declared z0 \<noteq> None" "te_stored y0 \<le> te_stored z0"
        using t(2) y0(1) e(1) \<open>event_declared y = None\<close> by metis
      obtain z where z: "z \<in> set ev" "event_core z = event_core z0" using onto z0(1) by blast
      show "\<exists>z\<in>set ev. event_declared z \<noteq> None \<and> te_stored y \<le> te_stored z"
        using z z0 same[OF z(2)] e(2) by (intro bexI[of _ z]) auto
    qed
    ultimately show ?thesis using False same[OF assms(4)] assms(3) by (simp add: two_clock_top_def del: not_None_eq)
  qed
qed


definition wit_lang :: tl_lang where
  "wit_lang = \<lparr>tg_word = (\<lambda>c. 97 \<le> c \<and> c \<le> 122), tg_dec = (\<lambda>c. 48 \<le> c \<and> c \<le> 57), tg_lower = (\<lambda>s. s),
     tg_terms = (\<lambda>s. []), tg_stem = (\<lambda>s. s), tg_iso = (\<lambda>s. None), tg_str = (\<lambda>v. [])\<rparr>"

definition wit_named :: fragment where
  "wit_named = wit_fragment\<lparr>fr_content := u ''sky'', fr_state := UNVERIFIED, fr_embedding := None\<rparr>"

definition wit_named_db :: store_db where
  "wit_named_db = empty_db\<lparr>db_fragments := [wit_named]\<rparr>"

abbreviation wit_build :: "store_db \<times> (py_error + tl_timeline)" where
  "wit_build \<equiv> build_timeline (noop_provider (\<lambda>t. t)) wit_lang (DT 2026 1 1 0 0 0 0) (\<lambda>r. True) wit_named_db []
     (u ''a'') (u ''sky'') None None None None 10"

lemma wit_norm: "anchor_norm wit_lang (u ''sky'') = u ''sky''"
  by (simp add: anchor_norm_def wit_lang_def norm_char_def)

lemma wit_names: "names_subject wit_lang (u ''sky'') [] (u ''sky'')"
  unfolding names_subject_def wit_norm
  by (simp add: contains_anchor_def is_ascii_def anchor_at_def Let_def)

lemma wit_named_sel:
  "fr_content wit_named = u ''sky''" "light wit_named = wit_named" "retrievable_row now wit_named_db (u ''a'') wit_named"
  by (simp_all add: wit_named_def wit_fragment_def retrievable_row_def fragment_matches_def no_filter_def is_expired_def
      retrievable_states_def quarantined_blocks_def wit_named_db_def empty_db_def del: u_simps)

lemma wit_strip_sky: "py_strip (u ''sky'') = u ''sky''"
  by (rule py_strip_clean) (simp_all add: py_isspace_def)

lemma wit_decode: "decode_fragment (noop_provider (\<lambda>t. t)) wit_named = (wit_named, False)"
  by (simp add: decode_fragment_def Let_def wit_named_def wit_fragment_def wit_strip_sky noop_provider_def hash_check_def
      del: u_simps)

lemma wit_decrypt: "pv_decrypt (noop_provider (\<lambda>t. t)) s = Some s"
  by (simp add: noop_provider_def)

lemma wit_accepted: "accepted_row (noop_provider (\<lambda>t. t)) (names_subject wit_lang (u ''sky'') []) wit_named"
  using wit_names by (simp add: accepted_row_def wit_named_sel wit_decode wit_decrypt del: u_simps)

lemma wit_rows: "naming_rows (noop_provider (\<lambda>t. t)) wit_lang now (\<lambda>r. True) wit_named_db (u ''a'') (u ''sky'') None = [wit_named]"
proof -
  have "offered_rows now (\<lambda>r. True) wit_named_db (u ''a'') = [wit_named]"
    using wit_named_sel(3)[of now] by (simp add: offered_rows_def wit_named_db_def del: u_simps)
  then show ?thesis
    using wit_accepted by (simp add: naming_rows_def wit_norm clean_attribute_def attribute_terms_def del: u_simps)
qed

lemma wit_built: "\<exists>db tline. wit_build = (db, Inr tline)"
proof -
  have rows: "filter (\<lambda>r. retrievable_row now wit_named_db (u ''a'') r \<and> True) (db_fragments wit_named_db) = [wit_named]" for now
    using wit_named_sel(3)[of now] by (simp add: wit_named_db_def del: u_simps)
  have page: "scan_page (noop_provider (\<lambda>t. t)) (names_subject wit_lang (u ''sky'') []) [wit_named] = Inr ([wit_named], [])"
    using wit_names by (simp add: wit_named_sel wit_decode wit_decrypt bind_res_def del: u_simps)
  have runs: "word_runs (tg_word wit_lang) (tg_lower wit_lang (u ''sky'')) \<noteq> []" by (simp add: wit_lang_def word_runs_nonempty)
  have ne: "u ''sky'' \<noteq> []" by simp
  have "mention_candidates (noop_provider (\<lambda>t. t)) wit_lang now (\<lambda>r. True) wit_named_db (u ''a'') (u ''sky'') 10
      (names_subject wit_lang (u ''sky'') []) = (wit_named_db, Inr [wit_named])" for now
    unfolding mention_candidates_def Let_def rows using runs by (simp add: page del: u_simps scan_page.simps)
  then have "mentions (noop_provider (\<lambda>t. t)) wit_lang now (\<lambda>r. True) wit_named_db (u ''a'') (u ''sky'') (u ''sky'') [] 10
      = (wit_named_db, Inr [wit_named])" for now
    by (simp add: mentions_def del: u_simps)
  then show ?thesis
    by (simp add: build_timeline_def wit_norm ne Let_def clean_attribute_def attribute_terms_def split_def del: u_simps)
qed



section \<open>What a limit hides and what a broken row does\<close>

text \<open>A limit cuts from the front, where the dated events are: with an older undated memory in the
  timeline, \<open>limit = 1\<close> keeps only that one, and there is no latest event.\<close>

lemma limit_hides_latest:
  assumes "te_dated d" "te_when d \<noteq> None" "\<not> te_dated m" "te_stored m \<le> te_stored d"
  shows "tl_latest \<lparr>tm_subject = s, tm_attribute = a, tm_events = drop 1 (order_events [d, m]), tm_truncated = 1\<rparr> = None"
    "tl_latest \<lparr>tm_subject = s, tm_attribute = a, tm_events = order_events [d, m], tm_truncated = 0\<rparr> \<noteq> None"
proof -
  have "two_clock_order [d, m] event_declared te_stored = [(d, Declared), (m, UnknownPlace)]"
    using assms by (simp add: two_clock_order_def Let_def not_less)
  then show "tl_latest \<lparr>tm_subject = s, tm_attribute = a, tm_events = drop 1 (order_events [d, m]), tm_truncated = 1\<rparr> = None"
    "tl_latest \<lparr>tm_subject = s, tm_attribute = a, tm_events = order_events [d, m], tm_truncated = 0\<rparr> \<noteq> None"
    by (simp_all add: order_events_def label_same_day_def Let_def tl_latest_def)
qed

text \<open>The test reads the content before the row is decoded: one row that cannot be decrypted, and every
  timeline whose candidates include it raises, although each other read isolates such a row.\<close>

lemma broken_row_stops_scan:
  assumes "r \<in> set rows" "pv_decrypt P (fr_content r) = None"
  shows "\<exists>e. scan_page P accept rows = Inl e"
  using assms by (induction rows) (auto simp: bind_res_def split: option.splits sum.splits)

section \<open>Rendered content cannot close the tag\<close>

lemma xml_escape_safe: "60 \<notin> set (xml_escape s)" "62 \<notin> set (xml_escape s)"
  by (auto simp: xml_escape_def split: if_splits)

lemma context_body_is_escaped:
  assumes "line \<in> set (List.tl (butlast (context_lines T str_nat n t)))"
  shows "60 \<notin> set line \<and> 62 \<notin> set line"
proof -
  have "List.tl (butlast (context_lines T str_nat n t)) = map (\<lambda>e. [32, 32] @ xml_escape (event_line T n e)) (tm_events t)"
    by (simp add: context_lines_def butlast_append)
  then show ?thesis using assms xml_escape_safe by auto
qed

section \<open>A whole anchor is a run of tokens\<close>

lemma py_join_append:
  "xs \<noteq> [] \<Longrightarrow> ys \<noteq> [] \<Longrightarrow> py_join sep (xs @ ys) = py_join sep xs @ sep @ py_join sep ys"
proof (induction sep xs rule: py_join.induct)
  case (2 sep x)
  then show ?case by (cases ys) auto
qed auto

lemma py_split_tokens: "\<forall>t\<in>set ts. t \<noteq> [] \<and> (\<forall>c\<in>set t. \<not> py_isspace c) \<Longrightarrow> py_split (py_join [32] ts) = ts"
proof -
  have one: "py_split t = [t]" if "t \<noteq> []" "\<forall>c\<in>set t. \<not> py_isspace c" for t
  proof -
    have "words_acc cur t = [rev cur @ t]" if "cur @ t \<noteq> []" "\<forall>c\<in>set t. \<not> py_isspace c" for cur t
      using that by (induction t arbitrary: cur) auto
    then show ?thesis using that by (simp add: py_split_def)
  qed
  have "py_isspace 32" by (simp add: py_isspace_def)
  then have "py_split (py_join [32] ts) = concat (map py_split ts)" by (rule py_split_join)
  moreover assume "\<forall>t\<in>set ts. t \<noteq> [] \<and> (\<forall>c\<in>set t. \<not> py_isspace c)"
  then have "map py_split ts = map (\<lambda>t. [t]) ts" using one by (intro map_cong) auto
  ultimately show ?thesis by simp
qed

lemma py_split_edges:
  assumes "x = [] \<or> last x = 32" "y = [] \<or> hd y = 32"
  shows "py_split (x @ a @ y) = py_split x @ py_split a @ py_split y"
proof -
  have sp: "py_isspace 32" by (simp add: py_isspace_def)
  have right: "py_split (a @ y) = py_split a @ py_split y"
    using assms(2) by (cases y) (auto simp: py_split_space[OF sp] py_split_skip[OF sp])
  show ?thesis
  proof (cases "x = []")
    case False
    then obtain x' where x: "x = x' @ [32]" using assms(1) by (metis append_butlast_last_id)
    have "py_split ((x' @ [32]) @ z) = py_split x' @ py_split z" for z using py_split_space[OF sp, of x' z] by simp
    then show ?thesis unfolding x using right py_split_snoc[OF sp, of x'] by simp
  qed (simp add: right)
qed

lemma anchor_at_split:
  "anchor_at False False w content a i \<and> i + length a \<le> length content \<longleftrightarrow>
     (\<exists>x y. content = x @ a @ y \<and> length x = i \<and> (x = [] \<or> \<not> w (last x)) \<and> (y = [] \<or> \<not> w (hd y)))"
proof
  assume at: "anchor_at False False w content a i \<and> i + length a \<le> length content"
  let ?x = "take i content" and ?y = "drop (i + length a) content"
  have c: "content = ?x @ a @ ?y" using at
    by (metis anchor_at_def append_take_drop_id drop_drop add.commute)
  have "?x = [] \<or> \<not> w (last ?x)"
    using at by (cases i) (auto simp: anchor_at_def take_Suc_conv_app_nth)
  moreover have "?y = [] \<or> \<not> w (hd ?y)" using at by (auto simp: anchor_at_def hd_drop_conv_nth)
  moreover have "length ?x = i" using at by simp
  ultimately show "\<exists>x y. content = x @ a @ y \<and> length x = i \<and> (x = [] \<or> \<not> w (last x)) \<and> (y = [] \<or> \<not> w (hd y))"
    using c by blast
next
  assume "\<exists>x y. content = x @ a @ y \<and> length x = i \<and> (x = [] \<or> \<not> w (last x)) \<and> (y = [] \<or> \<not> w (hd y))"
  then obtain x y where xy: "content = x @ a @ y" "length x = i" "x = [] \<or> \<not> w (last x)" "y = [] \<or> \<not> w (hd y)" by blast
  have "i = 0 \<or> \<not> w (content ! (i - 1))" using xy(1-3) by (cases x rule: rev_cases) (auto simp: nth_append)
  moreover have "i + length a = length content \<or> \<not> w (content ! (i + length a))"
    using xy(1,2,4) by (cases y) (auto simp: nth_append)
  ultimately show "anchor_at False False w content a i \<and> i + length a \<le> length content"
    using xy(1,2) by (simp add: anchor_at_def)
qed

lemma list_ex_upto: "(list_ex p [0..<Suc (m - n)] \<and> n \<le> m) = (\<exists>i. p i \<and> i + n \<le> m)"
proof
  assume "\<exists>i. p i \<and> i + n \<le> m"
  then obtain i where i: "p i" "i + n \<le> m" by blast
  then have "i \<in> set [0..<Suc (m - n)]" by auto
  then show "list_ex p [0..<Suc (m - n)] \<and> n \<le> m" using i unfolding list_ex_iff by auto
qed (auto simp: list_ex_iff simp del: upt_Suc)

definition token_list :: "tl_lang \<Rightarrow> ustr list \<Rightarrow> bool" where
  "token_list T ts \<longleftrightarrow> ts \<noteq> [] \<and> (\<forall>t\<in>set ts. t \<noteq> [] \<and> (\<forall>c\<in>set t. tg_word T c))"

text \<open>An anchor matches whole tokens only. For normalised ASCII texts, whatever class of word characters
  the regular expressions have, an anchor is contained exactly when its tokens are a run of consecutive
  tokens of the content: "titan" is not in "titanium", and "atlas core" not in "atlas cored".\<close>

theorem anchor_is_whole_tokens:
  assumes "\<And>c. tg_word T c \<Longrightarrow> \<not> py_isspace c" "token_list T cts" "token_list T ats"
    "is_ascii (py_join [32] cts)" "is_ascii (py_join [32] ats)"
  shows "contains_anchor T (py_join [32] cts) (py_join [32] ats) \<longleftrightarrow> (\<exists>pre post. cts = pre @ ats @ post)"
proof -
  let ?c = "py_join [32] cts" and ?a = "py_join [32] ats"
  let ?w = "tg_word T"
  have plain: "\<forall>t\<in>set ts. t \<noteq> [] \<and> (\<forall>c\<in>set t. \<not> py_isspace c)" if "token_list T ts" for ts
    using that assms(1) by (auto simp: token_list_def)
  have nw: "\<not> ?w 32" using assms(1)[of 32] by (auto simp: py_isspace_def)
  have chars: "c = 32 \<or> ?w c" if "c \<in> set (py_join [32] ts)" "\<forall>t\<in>set ts. \<forall>c\<in>set t. ?w c" for c ts
    using that by (induction "[32::nat]" ts rule: py_join.induct) auto
  have word: "c = 32" if "c \<in> set ?c" "\<not> ?w c" for c using that chars assms(2) by (auto simp: token_list_def)
  have "contains_anchor T ?c ?a \<longleftrightarrow> (\<exists>i. anchor_at False False ?w ?c ?a i \<and> i + length ?a \<le> length ?c)"
    using assms(4,5) by (simp add: contains_anchor_def Let_def list_ex_upto del: upt_Suc)
  also have "\<dots> \<longleftrightarrow> (\<exists>x y. ?c = x @ ?a @ y \<and> (x = [] \<or> \<not> ?w (last x)) \<and> (y = [] \<or> \<not> ?w (hd y)))"
    unfolding anchor_at_split by blast
  also have "\<dots> \<longleftrightarrow> (\<exists>pre post. cts = pre @ ats @ post)"
  proof
    assume "\<exists>x y. ?c = x @ ?a @ y \<and> (x = [] \<or> \<not> ?w (last x)) \<and> (y = [] \<or> \<not> ?w (hd y))"
    then obtain x y where xy: "?c = x @ ?a @ y" "x = [] \<or> \<not> ?w (last x)" "y = [] \<or> \<not> ?w (hd y)" by blast
    have "x = [] \<or> last x = 32" using xy(1,2) word[of "last x"] by (cases "x = []") auto
    moreover have "y = [] \<or> hd y = 32" using xy(1,3) word[of "hd y"] by (cases y) auto
    ultimately have edges: "x = [] \<or> last x = 32" "y = [] \<or> hd y = 32" by blast+
    from py_split_edges[OF edges, of ?a] have "cts = py_split x @ ats @ py_split y"
      using py_split_tokens[OF plain[OF assms(2)]] py_split_tokens[OF plain[OF assms(3)]] xy(1) by simp
    then show "\<exists>pre post. cts = pre @ ats @ post" by blast
  next
    assume "\<exists>pre post. cts = pre @ ats @ post"
    then obtain pre post where cts: "cts = pre @ ats @ post" by blast
    define x where "x = (if pre = [] then [] else py_join [32] pre @ [32])"
    define y where "y = (if post = [] then [] else 32 # py_join [32] post)"
    have "ats \<noteq> []" using assms(3) by (simp add: token_list_def)
    then have "?c = x @ ?a @ y" unfolding cts x_def y_def
      by (cases "pre = []"; cases "post = []") (simp_all add: py_join_append)
    moreover have "x = [] \<or> \<not> ?w (last x)" "y = [] \<or> \<not> ?w (hd y)" using nw by (simp_all add: x_def y_def)
    ultimately show "\<exists>x y. ?c = x @ ?a @ y \<and> (x = [] \<or> \<not> ?w (last x)) \<and> (y = [] \<or> \<not> ?w (hd y))" by blast
  qed
  finally show ?thesis .
qed

lemma anchor_is_whole_tokens_witness:
  "contains_anchor wit_lang (u ''the atlas core'') (u ''atlas core'')
     \<and> \<not> contains_anchor wit_lang (u ''the atlas cored'') (u ''atlas core'')"
proof -
  have w: "\<And>c. tg_word wit_lang c \<Longrightarrow> \<not> py_isspace c" by (auto simp: wit_lang_def py_isspace_def)
  have j: "py_join [32] [u ''the'', u ''atlas'', u ''core''] = u ''the atlas core''"
    "py_join [32] [u ''the'', u ''atlas'', u ''cored''] = u ''the atlas cored''"
    "py_join [32] [u ''atlas'', u ''core''] = u ''atlas core''" by simp_all
  have t: "token_list wit_lang [u ''the'', u ''atlas'', u ''core'']" "token_list wit_lang [u ''the'', u ''atlas'', u ''cored'']"
    "token_list wit_lang [u ''atlas'', u ''core'']" by (simp_all add: token_list_def wit_lang_def)
  have a: "is_ascii (u ''the atlas core'')" "is_ascii (u ''the atlas cored'')" "is_ascii (u ''atlas core'')"
    by (simp_all add: is_ascii_def)
  have "[u ''the'', u ''atlas'', u ''core''] = [u ''the''] @ [u ''atlas'', u ''core''] @ []" by simp
  then have yes: "\<exists>pre post. [u ''the'', u ''atlas'', u ''core''] = pre @ [u ''atlas'', u ''core''] @ post" by blast
  have no: "\<not> (\<exists>pre post. [u ''the'', u ''atlas'', u ''cored''] = pre @ [u ''atlas'', u ''core''] @ post)"
    by (auto simp: Cons_eq_append_conv)
  show ?thesis
    using anchor_is_whole_tokens[OF w t(1,3)] anchor_is_whole_tokens[OF w t(2,3)] yes no a unfolding j by blast
qed

end
