(* ===== verification/TrustBus.thy ===== *)
theory TrustBus
  imports Governance Py_Text
begin

text \<open>
  The trust-aware memory bus (\<open>middlewares/trust_bus/\<close>): trust levels, the trust record that
  \<open>publish\<close> stamps and signs, the message rebuilt from a stored fragment, subscriptions,
  trust-filtered retrieval, snapshots, and the middleware that publishes outcomes. HMAC-SHA256,
  Python's \<open>str.lower\<close> and the write policy of the memory underneath are arguments.
\<close>

section \<open>Trust levels\<close>

datatype publisher_trust = SYSTEM | VERIFIED_AGENT | RAW_AGENT | EXTERNAL | UNKNOWN

definition all_trust :: "publisher_trust list" where
  "all_trust = [SYSTEM, VERIFIED_AGENT, RAW_AGENT, EXTERNAL, UNKNOWN]"

fun trust_value :: "publisher_trust \<Rightarrow> ustr" where
  "trust_value SYSTEM = u ''system''"
| "trust_value VERIFIED_AGENT = u ''verified_agent''"
| "trust_value RAW_AGENT = u ''raw_agent''"
| "trust_value EXTERNAL = u ''external''"
| "trust_value UNKNOWN = u ''unknown''"

fun trust_rank :: "publisher_trust \<Rightarrow> nat" where
  "trust_rank SYSTEM = 4"
| "trust_rank VERIFIED_AGENT = 3"
| "trust_rank RAW_AGENT = 2"
| "trust_rank EXTERNAL = 1"
| "trust_rank UNKNOWN = 0"

text \<open>\<open>PublisherTrust(raw)\<close>.\<close>

definition trust_of :: "ustr \<Rightarrow> py_error + publisher_trust" where
  "trust_of raw = (case find (\<lambda>t. trust_value t = raw) all_trust of Some t \<Rightarrow> Inr t | None \<Rightarrow> Inl ValueError)"

definition trust_or_unknown :: "ustr \<Rightarrow> publisher_trust" where
  "trust_or_unknown raw = (case trust_of raw of Inr t \<Rightarrow> t | Inl e \<Rightarrow> UNKNOWN)"

text \<open>\<open>min(levels, key=rank)\<close>: the first of the lowest rank.\<close>

fun lowest_from :: "publisher_trust \<Rightarrow> publisher_trust list \<Rightarrow> publisher_trust" where
  "lowest_from b [] = b"
| "lowest_from b (t # ts) = lowest_from (if trust_rank t < trust_rank b then t else b) ts"

definition lowest_trust :: "publisher_trust list \<Rightarrow> publisher_trust" where
  "lowest_trust ts = (case ts of [] \<Rightarrow> UNKNOWN | t # r \<Rightarrow> lowest_from t r)"

definition TRUST_TAG_PREFIX :: ustr where "TRUST_TAG_PREFIX = u ''trust:''"
definition TRUST_METADATA_KEY :: string where "TRUST_METADATA_KEY = ''mark_trust''"
definition BUS_TAG :: ustr where "BUS_TAG = u ''global_bus''"

definition is_trust_tag :: "(ustr \<Rightarrow> ustr) \<Rightarrow> ustr \<Rightarrow> bool" where
  "is_trust_tag lower tag \<longleftrightarrow> prefix TRUST_TAG_PREFIX (lower (py_strip tag))"

text \<open>\<open>tag.split(":", 1)[1].strip().lower()\<close> of a trust tag.\<close>

definition tag_level :: "(ustr \<Rightarrow> ustr) \<Rightarrow> ustr \<Rightarrow> ustr" where
  "tag_level lower tag = lower (py_strip (drop 1 (dropWhile (\<lambda>c. c \<noteq> 58) tag)))"

section \<open>Messages\<close>

text \<open>A bus fragment: the columns the bus reads; the trust record is the dictionary under
  \<open>mark_trust\<close>, the other metadata is kept apart.\<close>

record bus_row =
  br_id :: ustr
  br_content :: ustr
  br_tags :: "ustr list"
  br_source :: "ustr option"
  br_created :: datetime
  br_trust :: "(ustr \<times> ustr) list option"
  br_meta :: metadata

record bus_message =
  bm_id :: ustr
  bm_content :: ustr
  bm_publisher :: ustr
  bm_trust :: publisher_trust
  bm_tags :: "ustr list"
  bm_time :: datetime
  bm_meta :: metadata

text \<open>\<open>sign key text\<close> is the HMAC of the JSON text of publisher, level and content.\<close>

definition trust_signature :: "(ustr \<Rightarrow> ustr list \<Rightarrow> ustr) \<Rightarrow> ustr \<Rightarrow> ustr \<Rightarrow> publisher_trust \<Rightarrow> ustr \<Rightarrow> ustr" where
  "trust_signature sign key publisher t content = sign key [publisher, trust_value t, content]"

text \<open>The publisher recorded in the metadata stands in for a missing source.\<close>

definition row_publisher :: "bus_row \<Rightarrow> ustr" where
  "row_publisher f = (case br_source f of
       Some s \<Rightarrow> if s \<noteq> [] then s else (case map_of (br_meta f) ''publisher'' of Some (MvText p) \<Rightarrow> p | _ \<Rightarrow> [])
     | None \<Rightarrow> (case map_of (br_meta f) ''publisher'' of Some (MvText p) \<Rightarrow> p | _ \<Rightarrow> []))"

definition row_trust ::
  "(ustr \<Rightarrow> ustr) \<Rightarrow> (ustr \<Rightarrow> ustr list \<Rightarrow> ustr) \<Rightarrow> ustr option \<Rightarrow> bus_row \<Rightarrow> publisher_trust" where
  "row_trust lower sign key f =
     (case Option.bind (br_trust f) (\<lambda>r. map_option (\<lambda>l. (r, l)) (map_of r (u ''level''))) of
        Some (r, level) \<Rightarrow>
          (let t = trust_or_unknown level
           in case key of
                None \<Rightarrow> t
              | Some k \<Rightarrow>
                  if (case map_of r (u ''sig'') of None \<Rightarrow> [] | Some s \<Rightarrow> s)
                       \<noteq> trust_signature sign k (row_publisher f) t (br_content f)
                  then UNKNOWN else t)
      | None \<Rightarrow>
          (case key of
             Some k \<Rightarrow> UNKNOWN
           | None \<Rightarrow> lowest_trust (map (\<lambda>t. trust_or_unknown (tag_level lower t))
               (filter (is_trust_tag lower) (filter (\<lambda>t. t \<noteq> BUS_TAG) (br_tags f))))))"

definition message_from_row ::
  "(ustr \<Rightarrow> ustr) \<Rightarrow> (ustr \<Rightarrow> ustr list \<Rightarrow> ustr) \<Rightarrow> ustr option \<Rightarrow> bus_row \<Rightarrow> bus_message option" where
  "message_from_row lower sign key f =
     (if BUS_TAG \<notin> set (br_tags f) then None
      else Some \<lparr>bm_id = br_id f, bm_content = br_content f, bm_publisher = row_publisher f,
        bm_trust = row_trust lower sign key f,
        bm_tags = filter (\<lambda>t. t \<noteq> BUS_TAG \<and> \<not> is_trust_tag lower t) (br_tags f),
        bm_time = br_created f, bm_meta = br_meta f\<rparr>)"

section \<open>The bus\<close>

record bus_subscription =
  bs_topics :: "ustr list"
  bs_tags :: "ustr list"
  bs_min_trust :: publisher_trust

definition sub_matches :: "bus_subscription \<Rightarrow> bus_message \<Rightarrow> bool" where
  "sub_matches s m \<longleftrightarrow>
     (if bs_topics s = [] then True else list_ex (\<lambda>t. t \<in> set (bm_tags m)) (bs_topics s))
     \<and> (if bs_tags s = [] then True else list_all (\<lambda>t. t \<in> set (bm_tags m)) (bs_tags s))
     \<and> trust_rank (bs_min_trust s) \<le> trust_rank (bm_trust m)"

record bus =
  bu_key :: "ustr option"
  bu_rows :: "bus_row list"
  bu_messages :: "bus_message list"
  bu_subs :: "(ustr \<times> bus_subscription) list"

fun load_messages ::
  "(ustr \<Rightarrow> ustr) \<Rightarrow> (ustr \<Rightarrow> ustr list \<Rightarrow> ustr) \<Rightarrow> ustr option \<Rightarrow> bus_row list \<Rightarrow> ustr list \<Rightarrow> bus_message list" where
  "load_messages lower sign key [] seen = []"
| "load_messages lower sign key (f # fs) seen =
     (case message_from_row lower sign key f of
        None \<Rightarrow> load_messages lower sign key fs seen
      | Some m \<Rightarrow> if bm_id m \<in> set seen then load_messages lower sign key fs seen
          else m # load_messages lower sign key fs (bm_id m # seen))"

definition bus_new ::
  "(ustr \<Rightarrow> ustr) \<Rightarrow> (ustr \<Rightarrow> ustr list \<Rightarrow> ustr) \<Rightarrow> ustr option \<Rightarrow> bus_row list \<Rightarrow> bus" where
  "bus_new lower sign key rows = \<lparr>bu_key = key, bu_rows = rows,
     bu_messages = load_messages lower sign key rows [], bu_subs = []\<rparr>"

text \<open>\<open>_prepare\<close>: the stored tags, the public tags and the trust record; metadata under the
  reserved key is dropped.\<close>

definition prepare_publish ::
  "(ustr \<Rightarrow> ustr) \<Rightarrow> (ustr \<Rightarrow> ustr list \<Rightarrow> ustr) \<Rightarrow> ustr option \<Rightarrow> ustr \<Rightarrow> ustr \<Rightarrow> publisher_trust \<Rightarrow> ustr list \<Rightarrow> metadata
     \<Rightarrow> ustr list \<times> ustr list \<times> (ustr \<times> ustr) list \<times> metadata" where
  "prepare_publish lower sign key content publisher t tags meta =
     (let clean = filter (\<lambda>x. \<not> is_trust_tag lower x) tags
      in ((TRUST_TAG_PREFIX @ trust_value t) # clean, clean,
          [(u ''level'', trust_value t), (u ''publisher'', publisher)]
            @ (case key of None \<Rightarrow> []
               | Some k \<Rightarrow> [(u ''sig'', trust_signature sign k publisher t (py_strip content))]),
          filter (\<lambda>(k, v). k \<noteq> TRUST_METADATA_KEY) meta))"

text \<open>\<open>publish_sync\<close>: the memory underneath stores the text its write policy \<open>write\<close>
  leaves, stripped, with the tags the policy adds, under the new id, and refuses blank content.\<close>

definition bus_publish ::
  "(ustr \<Rightarrow> ustr) \<Rightarrow> (ustr \<Rightarrow> ustr list \<Rightarrow> ustr) \<Rightarrow> (ustr \<Rightarrow> ustr \<times> ustr list) \<Rightarrow> datetime \<Rightarrow> ustr \<Rightarrow> bus \<Rightarrow> ustr \<Rightarrow> ustr
     \<Rightarrow> publisher_trust \<Rightarrow> ustr list \<Rightarrow> metadata \<Rightarrow> py_error + (bus \<times> bus_message)" where
  "bus_publish lower sign write now fid b content publisher t tags meta =
     (let (stored, public, rec, clean) = prepare_publish lower sign (bu_key b) content publisher t tags meta;
          body = py_strip (fst (write content))
      in if body = [] then Inl ValueError
         else
           (let row = \<lparr>br_id = fid, br_content = body, br_tags = BUS_TAG # stored @ snd (write content), br_source = Some publisher,
                  br_created = now, br_trust = Some rec, br_meta = clean\<rparr>;
                m = \<lparr>bm_id = fid, bm_content = content, bm_publisher = publisher, bm_trust = t, bm_tags = public,
                  bm_time = now, bm_meta = clean\<rparr>
            in Inr (b\<lparr>bu_rows := bu_rows b @ [row], bu_messages := bu_messages b @ [m]\<rparr>, m)))"

definition bus_subscribe :: "ustr \<Rightarrow> bus_subscription \<Rightarrow> bus \<Rightarrow> bus \<times> ustr" where
  "bus_subscribe sid s b = (b\<lparr>bu_subs := AList.update sid s (bu_subs b)\<rparr>, sid)"

definition bus_unsubscribe :: "ustr \<Rightarrow> bus \<Rightarrow> bus" where
  "bus_unsubscribe sid b = b\<lparr>bu_subs := AList.delete sid (bu_subs b)\<rparr>"

definition messages_for :: "bus \<Rightarrow> ustr \<Rightarrow> bus_message list" where
  "messages_for b sid = (case map_of (bu_subs b) sid of None \<Rightarrow> []
     | Some s \<Rightarrow> filter (sub_matches s) (bu_messages b))"

text \<open>\<open>retrieve_sync\<close>: the hits of the pipeline, with their scores, restricted to the
  messages of at least the asked trust.\<close>

definition bus_retrieve :: "bus \<Rightarrow> publisher_trust \<Rightarrow> (ustr \<times> real) list \<Rightarrow> (ustr \<times> real) list" where
  "bus_retrieve b min_trust hits =
     (if min_trust = UNKNOWN then hits
      else filter (\<lambda>(i, s). i \<in> bm_id ` {m \<in> set (bu_messages b). trust_rank min_trust \<le> trust_rank (bm_trust m)}) hits)"

section \<open>Snapshots\<close>

record bus_snapshot =
  sn_messages :: "bus_message list"
  sn_captured :: ustr

definition bus_snapshot_of :: "ustr \<Rightarrow> bus \<Rightarrow> bus_subscription option \<Rightarrow> bus_snapshot" where
  "bus_snapshot_of now b s = \<lparr>sn_messages = (case s of None \<Rightarrow> bu_messages b
     | Some s \<Rightarrow> filter (sub_matches s) (bu_messages b)), sn_captured = now\<rparr>"

definition snapshot_diff :: "bus_snapshot \<Rightarrow> bus_snapshot \<Rightarrow> bus_message list" where
  "snapshot_diff s t = filter (\<lambda>m. bm_id m \<notin> bm_id ` set (sn_messages t)) (sn_messages s)"

definition facts_by_trust :: "bus_snapshot \<Rightarrow> publisher_trust \<Rightarrow> bus_message list" where
  "facts_by_trust s t = filter (\<lambda>m. trust_rank t \<le> trust_rank (bm_trust m)) (sn_messages s)"

text \<open>Messages as dictionaries; the values are texts, lists of texts, times and metadata.\<close>

datatype dict_val = DText ustr | DTexts "ustr list" | DTime datetime | DMeta metadata

type_synonym dict = "(string \<times> dict_val) list"

definition message_to_dict :: "bus_message \<Rightarrow> dict" where
  "message_to_dict m = [(''id'', DText (bm_id m)), (''content'', DText (bm_content m)),
     (''publisher'', DText (bm_publisher m)), (''trust'', DText (trust_value (bm_trust m))),
     (''tags'', DTexts (bm_tags m)), (''timestamp'', DTime (bm_time m)), (''metadata'', DMeta (bm_meta m))]"

definition message_from_dict :: "dict \<Rightarrow> py_error + bus_message" where
  "message_from_dict d =
     (case (map_of d ''id'', map_of d ''content'', map_of d ''publisher'', map_of d ''trust'', map_of d ''timestamp'') of
        (Some (DText i), Some (DText c), Some (DText p), Some (DText t), Some (DTime w)) \<Rightarrow>
          bind_res (trust_of t) (\<lambda>level. Inr \<lparr>bm_id = i, bm_content = c, bm_publisher = p, bm_trust = level,
            bm_tags = (case map_of d ''tags'' of Some (DTexts x) \<Rightarrow> x | _ \<Rightarrow> []), bm_time = w,
            bm_meta = (case map_of d ''metadata'' of Some (DMeta x) \<Rightarrow> x | _ \<Rightarrow> [])\<rparr>)
      | _ \<Rightarrow> Inl KeyError)"

text \<open>\<open>html.escape\<close>.\<close>

definition esc_char :: "bool \<Rightarrow> nat \<Rightarrow> ustr" where
  "esc_char quote c =
     (if c = 38 then u ''&amp;'' else if c = 60 then u ''&lt;'' else if c = 62 then u ''&gt;''
      else if quote \<and> c = 34 then u ''&quot;'' else if quote \<and> c = 39 then u ''&#x27;'' else [c])"

definition html_escape :: "bool \<Rightarrow> ustr \<Rightarrow> ustr" where
  "html_escape quote s = concat (map (esc_char quote) s)"

text \<open>The lines of \<open>as_context\<close>: whole messages while the words last; the first one is cut
  rather than dropped (\<open>8230\<close> is the ellipsis).\<close>

definition fact_line :: "bus_message \<Rightarrow> ustr \<Rightarrow> ustr" where
  "fact_line m content = u ''  <fact publisher='' @ [34] @ html_escape True (bm_publisher m) @ [34]
     @ u '' trust='' @ [34] @ trust_value (bm_trust m) @ [34] @ u ''>'' @ html_escape False content @ u ''</fact>''"

fun context_lines :: "nat \<Rightarrow> nat \<Rightarrow> bus_message list \<Rightarrow> ustr list \<Rightarrow> ustr list" where
  "context_lines mx n [] acc = acc"
| "context_lines mx n (m # ms) acc =
     (let ws = py_split (bm_content m)
      in if n + length ws > mx then
           (if acc \<noteq> [] then acc
            else
              (let cut = take (max 1 mx) ws
               in context_lines mx (n + length cut) ms [fact_line m (py_join [32] cut @ [32, 8230])]))
         else context_lines mx (n + length ws) ms (acc @ [fact_line m (bm_content m)]))"

section \<open>The publishing middleware\<close>

record trust_middleware =
  tm_publisher :: "ustr option"
  tm_trust :: ustr
  tm_tags :: "ustr list"
  tm_observations :: bool
  tm_writes :: bool

definition should_publish :: "trust_middleware \<Rightarrow> string \<Rightarrow> bool" where
  "should_publish w op \<longleftrightarrow> op = ''observe'' \<and> tm_observations w \<or> op = ''store'' \<and> tm_writes w"

definition operation_meta :: "op_context \<Rightarrow> metadata" where
  "operation_meta c = [(''source_operation'', MvText (u (cx_operation c)))]
     @ (case cx_result c of None \<Rightarrow> [] | Some r \<Rightarrow> [(''source_result'', MvText r)])"

definition first_set :: "ustr option \<Rightarrow> ustr option \<Rightarrow> ustr" where
  "first_set a b = (case (a, b) of (Some x, _) \<Rightarrow> if x \<noteq> [] then x else (case b of Some y \<Rightarrow> if y \<noteq> [] then y else u ''mark'' | None \<Rightarrow> u ''mark'')
     | (None, Some y) \<Rightarrow> if y \<noteq> [] then y else u ''mark'' | (None, None) \<Rightarrow> u ''mark'')"

definition trust_after ::
  "(ustr \<Rightarrow> ustr) \<Rightarrow> (ustr \<Rightarrow> ustr list \<Rightarrow> ustr) \<Rightarrow> (ustr \<Rightarrow> ustr \<times> ustr list) \<Rightarrow> datetime \<Rightarrow> ustr \<Rightarrow> trust_middleware \<Rightarrow> bus hook" where
  "trust_after lower sign write now fid w b c =
     (if \<not> should_publish w (cx_operation c) then (b, c, None)
      else if \<not> succeeded c then (b, c, None)
      else if py_strip (pl_content (cx_payload c)) = [] then (b, c, None)
      else
        (case trust_of (tm_trust w) of
           Inl e \<Rightarrow> (b, c, Some e)
         | Inr t \<Rightarrow>
             (case bus_publish lower sign write now fid b (pl_content (cx_payload c))
                 (first_set (tm_publisher w) (cx_agent c)) t (tm_tags w @ pl_tags (cx_payload c)) (operation_meta c) of
                Inl e \<Rightarrow> (b, c, Some e)
              | Inr (b', m) \<Rightarrow> (b', c, None))))"

section \<open>Who may claim which trust\<close>

definition ascii_down :: "ustr \<Rightarrow> ustr" where
  "ascii_down s = map (\<lambda>c. if 65 \<le> c \<and> c \<le> 90 then c + 32 else c) s"


lemma trust_of_value [simp]: "trust_of (trust_value t) = Inr t"
  by (cases t) (simp_all add: trust_of_def all_trust_def)

lemma trust_or_unknown_value [simp]: "trust_or_unknown (trust_value t) = t"
  by (simp add: trust_or_unknown_def)

lemma trust_of_InrD: "trust_of raw = Inr t \<Longrightarrow> trust_value t = raw"
  by (auto simp: trust_of_def find_Some_iff split: option.splits)

lemma trust_or_unknownD: "trust_or_unknown raw \<noteq> UNKNOWN \<Longrightarrow> trust_value (trust_or_unknown raw) = raw"
  by (auto simp: trust_or_unknown_def dest: trust_of_InrD split: sum.splits)

lemma strip_trust_tag: "py_strip (TRUST_TAG_PREFIX @ trust_value t) = TRUST_TAG_PREFIX @ trust_value t"
  by (rule py_strip_clean; cases t) (simp_all add: TRUST_TAG_PREFIX_def py_isspace_def)

lemma bus_tag_plain: "BUS_TAG \<noteq> TRUST_TAG_PREFIX @ trust_value t"
  by (simp add: BUS_TAG_def TRUST_TAG_PREFIX_def)

lemma publish_InrD:
  assumes "bus_publish lower sign write now fid b content publisher t tags meta = Inr (b', m)"
  shows "bu_messages b' = bu_messages b @ [m] \<and> bm_trust m = t \<and> bm_publisher m = publisher \<and> bm_content m = content
    \<and> bm_id m = fid \<and> bm_tags m = filter (\<lambda>x. \<not> is_trust_tag lower x) tags \<and> bu_key b' = bu_key b
    \<and> bu_rows b' = bu_rows b @ [\<lparr>br_id = fid, br_content = py_strip (fst (write content)),
        br_tags = BUS_TAG # (TRUST_TAG_PREFIX @ trust_value t) # bm_tags m @ snd (write content), br_source = Some publisher, br_created = bm_time m,
        br_trust = Some ([(u ''level'', trust_value t), (u ''publisher'', publisher)]
            @ (case bu_key b of None \<Rightarrow> []
               | Some k \<Rightarrow> [(u ''sig'', trust_signature sign k publisher t (py_strip content))])), br_meta = bm_meta m\<rparr>]"
  using assms
  by (auto simp: bus_publish_def prepare_publish_def Let_def simp del: u_simps split: if_splits)

lemma record_keys [simp]:
  "u ''sig'' \<noteq> u ''level''" "u ''sig'' \<noteq> u ''publisher''" "u ''publisher'' \<noteq> u ''level''"
  "u ''level'' \<noteq> u ''sig''" "u ''publisher'' \<noteq> u ''sig''" "u ''level'' \<noteq> u ''publisher''"
  by simp_all

lemma signed_record_lookup:
  "map_of ([(u ''level'', l), (u ''publisher'', p)] @ xs) (u ''level'') = Some l"
  "map_of ([(u ''level'', l), (u ''publisher'', p), (u ''sig'', s)]) (u ''sig'') = Some s"
  by simp_all

text \<open>A published message keeps exactly the trust it was published with: whatever tags and
  metadata the caller passed, the row that \<open>publish\<close> stores is rebuilt, with or without a
  signing key, to a message with the given publisher, the given trust level, the stripped content
  and the caller's tags without any \<open>trust:\<close> tag. The hypotheses: the write policy changed
  nothing, the publisher is named, and lower-casing leaves the five lower-case tags alone.\<close>

theorem published_trust_roundtrip:
  assumes "bus_publish lower sign write now fid b content publisher t tags meta = Inr (b', m)"
    and "write content = (content, [])" "publisher \<noteq> []"
    and "lower (TRUST_TAG_PREFIX @ trust_value t) = TRUST_TAG_PREFIX @ trust_value t"
  shows "message_from_row lower sign (bu_key b) (last (bu_rows b'))
    = Some (m\<lparr>bm_content := py_strip content, bm_tags := removeAll BUS_TAG (filter (\<lambda>x. \<not> is_trust_tag lower x) tags)\<rparr>)"
proof -
  note p = publish_InrD[OF assms(1)]
  have tag: "is_trust_tag lower (TRUST_TAG_PREFIX @ trust_value t)"
    using assms(4) by (simp add: is_trust_tag_def strip_trust_tag)
  have tags: "filter (\<lambda>x. x \<noteq> BUS_TAG \<and> \<not> is_trust_tag lower x)
        (BUS_TAG # (TRUST_TAG_PREFIX @ trust_value t) # filter (\<lambda>x. \<not> is_trust_tag lower x) tags)
      = removeAll BUS_TAG (filter (\<lambda>x. \<not> is_trust_tag lower x) tags)"
    using tag by (auto simp: removeAll_filter_not_eq intro: filter_cong)
  define row where "row = last (bu_rows b')"
  have row: "br_id row = fid" "br_content row = py_strip content" "br_source row = Some publisher"
    "br_tags row = BUS_TAG # (TRUST_TAG_PREFIX @ trust_value t) # filter (\<lambda>x. \<not> is_trust_tag lower x) tags"
    "br_created row = bm_time m" "br_meta row = bm_meta m"
    "br_trust row = Some ([(u ''level'', trust_value t), (u ''publisher'', publisher)]
            @ (case bu_key b of None \<Rightarrow> []
               | Some k \<Rightarrow> [(u ''sig'', trust_signature sign k publisher t (py_strip content))]))"
    using p assms(2) by (simp_all add: row_def del: u_simps)
  have m: "bm_id m = fid" "bm_trust m = t" "bm_publisher m = publisher" using p by simp_all
  have pub: "row_publisher row = publisher" using assms(3) by (simp add: row_publisher_def row)
  have tr: "row_trust lower sign (bu_key b) row = t"
    by (cases "bu_key b") (simp_all add: row_trust_def row pub signed_record_lookup del: u_simps)
  show ?thesis unfolding row_def[symmetric]
    by (cases m) (use m in \<open>simp add: message_from_row_def row pub tr tags[simplified]\<close>)
qed

text \<open>C16: trust cannot be claimed: on a bus with a signing key, a stored row is rebuilt with a
  level above UNKNOWN only if it carries a record signed with that key for exactly this publisher,
  this level and this content; no tag has any influence. The hypothesis: signatures are not
  empty.\<close>

theorem trust_needs_a_signature:
  assumes "message_from_row lower sign (Some k) f = Some m" "bm_trust m \<noteq> UNKNOWN"
    and "\<And>x. sign k x \<noteq> []"
  shows "(\<exists>r. br_trust f = Some r \<and> map_of r (u ''level'') = Some (trust_value (bm_trust m))
      \<and> map_of r (u ''sig'') = Some (trust_signature sign k (bm_publisher m) (bm_trust m) (bm_content m)))
    \<and> bm_trust m = row_trust lower sign (Some k) (f\<lparr>br_tags := tags'\<rparr>)"
proof -
  have m: "bm_trust m = row_trust lower sign (Some k) f" "bm_publisher m = row_publisher f" "bm_content m = br_content f"
    using assms(1) by (auto simp: message_from_row_def split: if_splits)
  have pub: "row_publisher (f\<lparr>br_tags := tags'\<rparr>) = row_publisher f"
    by (cases "br_source f") (simp_all add: row_publisher_def)
  have "row_trust lower sign (Some k) f \<noteq> UNKNOWN" using assms(2) m by simp
  then obtain r level where r: "br_trust f = Some r" "map_of r (u ''level'') = Some level"
    by (auto simp: row_trust_def bind_eq_Some_conv simp del: u_simps split: option.splits)
  let ?t = "trust_or_unknown level"
  have eq: "row_trust lower sign (Some k) f = ?t" "(case map_of r (u ''sig'') of None \<Rightarrow> [] | Some s \<Rightarrow> s)
      = trust_signature sign k (row_publisher f) ?t (br_content f)" "?t \<noteq> UNKNOWN"
    using \<open>row_trust lower sign (Some k) f \<noteq> UNKNOWN\<close> r
    by (auto simp: row_trust_def Let_def simp del: u_simps split: if_splits)
  then have "map_of r (u ''sig'') = Some (trust_signature sign k (row_publisher f) ?t (br_content f))"
    using assms(3)[symmetric] by (auto simp: trust_signature_def simp del: u_simps split: option.splits)
  moreover have "row_trust lower sign (Some k) (f\<lparr>br_tags := tags'\<rparr>) = row_trust lower sign (Some k) f"
    using r by (simp add: row_trust_def pub del: u_simps)
  ultimately show ?thesis using r eq trust_or_unknownD[OF eq(3)] m by simp
qed

text \<open>The write policy works on the text after the signature is made, so a message whose stored
  text differs from the signed one loses its trust when the bus is loaded again.\<close>

lemma redacted_message_loses_trust:
  assumes "bus_publish lower sign write now fid b content publisher t tags meta = Inr (b', m)"
    and "bu_key b = Some k" "publisher \<noteq> []" "inj (sign k)"
    and "py_strip (fst (write content)) \<noteq> py_strip content"
  shows "bm_trust m = t \<and> row_trust lower sign (Some k) (last (bu_rows b')) = UNKNOWN"
proof -
  note p = publish_InrD[OF assms(1)]
  let ?row = "last (bu_rows b')"
  have pub: "row_publisher ?row = publisher" using p assms(3) by (simp add: row_publisher_def)
  have "trust_signature sign k publisher t (py_strip content) \<noteq> trust_signature sign k publisher t (py_strip (fst (write content)))"
    using assms(5) by (simp add: trust_signature_def inj_eq[OF assms(4)])
  then show ?thesis using p assms(2) pub
    by (simp add: row_trust_def Let_def signed_record_lookup del: u_simps)
qed

section \<open>Rejected content stays off the bus\<close>

text \<open>C17: governance and the bus together: once the governance hook has refused the content of a
  store or observe operation, the publishing hook leaves the bus as it is, whatever its settings and
  whatever happened to the operation in between, as long as the payload is the one governance
  left.\<close>

theorem rejected_content_is_never_published:
  assumes "governance_before sha True g c = (g1, c1, err)" "cx_operation c \<in> set GOVERNED"
    and "pl_governance (cx_payload c1) = Some note" "\<not> gn_passed note"
    and "cx_payload c2 = cx_payload c1"
  shows "trust_after lower sign write now fid w b c2 = (b, c2, None)
    \<and> pl_state (cx_payload c2) = Some QUARANTINED"
proof -
  have "pl_state (cx_payload c1) = Some QUARANTINED"
    using rejected_write_is_quarantined[OF assms(1,2)] assms(3,4) by simp
  then have "pl_state (cx_payload c2) = Some QUARANTINED" by (simp add: assms(5))
  moreover from this have "rejected c2" by (simp add: rejected_def)
  ultimately show ?thesis by (simp add: trust_after_def succeeded_def)
qed

section \<open>Snapshots and rendering\<close>

lemma message_dict_roundtrip: "message_from_dict (message_to_dict m) = Inr m"
  by (simp add: message_from_dict_def message_to_dict_def)

text \<open>Escaped text holds no angle bracket, and no double quote when quotes are escaped, so a message
  cannot close its element or add an attribute.\<close>

lemma html_escape_safe: "60 \<notin> set (html_escape q s) \<and> 62 \<notin> set (html_escape q s) \<and> 34 \<notin> set (html_escape True s)"
  by (auto simp: html_escape_def esc_char_def)

text \<open>A key-dependent text for the witnesses: the fields separated by a mark.\<close>

definition wit_sign :: "ustr \<Rightarrow> ustr list \<Rightarrow> ustr" where
  "wit_sign k xs = k @ concat (map (\<lambda>x. 0 # x) xs)"

definition wit_bus :: bus where
  "wit_bus = \<lparr>bu_key = Some (u ''k''), bu_rows = [], bu_messages = [], bu_subs = []\<rparr>"

lemma wit_publish:
  "\<exists>b' m. bus_publish ascii_down wit_sign (\<lambda>t. (t, [])) (DT 2026 1 1 0 0 0 0) (u ''f1'') wit_bus (u ''door is open'') (u ''p'')
     EXTERNAL [u ''trust:system''] [] = Inr (b', m)"
proof -
  have "py_strip (u ''door is open'') = u ''door is open''"
    by (rule py_strip_clean) (simp_all add: py_isspace_def)
  then show ?thesis by (auto simp: bus_publish_def Let_def prepare_publish_def)
qed

lemma published_trust_roundtrip_witness:
  "\<exists>b' m. bus_publish ascii_down wit_sign (\<lambda>t. (t, [])) (DT 2026 1 1 0 0 0 0) (u ''f1'') wit_bus (u ''door is open'') (u ''p'')
     EXTERNAL [u ''trust:system''] [] = Inr (b', m)
   \<and> map_option bm_trust (message_from_row ascii_down wit_sign (bu_key wit_bus) (last (bu_rows b'))) = Some EXTERNAL"
proof -
  obtain b' m where r: "bus_publish ascii_down wit_sign (\<lambda>t. (t, [])) (DT 2026 1 1 0 0 0 0) (u ''f1'') wit_bus (u ''door is open'')
      (u ''p'') EXTERNAL [u ''trust:system''] [] = Inr (b', m)" using wit_publish by blast
  have "ascii_down (TRUST_TAG_PREFIX @ trust_value EXTERNAL) = TRUST_TAG_PREFIX @ trust_value EXTERNAL"
    by (simp add: TRUST_TAG_PREFIX_def ascii_down_def)
  with published_trust_roundtrip[OF r] publish_InrD[OF r] show ?thesis using r by auto
qed

lemma trust_needs_a_signature_witness:
  "\<exists>f m. message_from_row ascii_down wit_sign (Some (u ''k'')) f = Some m \<and> bm_trust m = EXTERNAL
     \<and> (\<exists>r. br_trust f = Some r \<and> map_of r (u ''sig'')
          = Some (trust_signature wit_sign (u ''k'') (bm_publisher m) EXTERNAL (bm_content m)))"
proof -
  let ?f = "\<lparr>br_id = u ''f1'', br_content = u ''x'', br_tags = [BUS_TAG], br_source = Some (u ''p''),
     br_created = DT 2026 1 1 0 0 0 0, br_trust = Some [(u ''level'', trust_value EXTERNAL), (u ''publisher'', u ''p''),
       (u ''sig'', trust_signature wit_sign (u ''k'') (u ''p'') EXTERNAL (u ''x''))], br_meta = []\<rparr>"
  have t: "row_trust ascii_down wit_sign (Some (u ''k'')) ?f = EXTERNAL"
    by (simp add: row_trust_def row_publisher_def Let_def del: u_simps trust_value.simps)
  then obtain m where m: "message_from_row ascii_down wit_sign (Some (u ''k'')) ?f = Some m" "bm_trust m = EXTERNAL"
    by (simp add: message_from_row_def)
  have "wit_sign (u ''k'') x \<noteq> []" for x by (simp add: wit_sign_def)
  from trust_needs_a_signature[OF m(1) _ this] m show ?thesis by (intro exI[of _ ?f] exI[of _ m]) auto
qed

lemma rejected_content_is_never_published_witness:
  "\<exists>c1. trust_after ascii_down wit_sign (\<lambda>t. (t, [])) (DT 2026 1 1 0 0 0 0) (u ''f1'')
       \<lparr>tm_publisher = None, tm_trust = u ''system'', tm_tags = [], tm_observations = True, tm_writes = True\<rparr> wit_bus c1
     = (wit_bus, c1, None)"
proof -
  have v: "validation_check (gt_validation wit_gate) t (1 / 4) \<noteq> None" for t
    by (simp add: validation_check_def wit_gate_def validation_gate_new_def)
  obtain g1 c1 err where r: "governance_before (\<lambda>t. t) True wit_gate (new_context ''store'' None wit_payload) = (g1, c1, err)"
    by (metis prod_cases3)
  have refused: "gr_reason (snd (gate_check (\<lambda>t. t) wit_gate t (1 / 4))) \<noteq> None" for t
    using v[of "sr_text (sanitize_report (gt_sanitizer wit_gate) t)"]
    by (auto simp: gate_check_def Let_def)
  have "\<exists>note. pl_governance (cx_payload c1) = Some note \<and> \<not> gn_passed note"
    using r refused[of "pl_content wit_payload"]
    by (auto simp: governance_before_def new_context_def GOVERNED_def Let_def wit_payload_def split: prod.splits)
  then obtain gn where n: "pl_governance (cx_payload c1) = Some gn" "\<not> gn_passed gn" by blast
  have "cx_operation (new_context ''store'' None wit_payload) \<in> set GOVERNED"
    by (simp add: new_context_def GOVERNED_def)
  from rejected_content_is_never_published[OF r this n refl] show ?thesis by blast
qed

end
