(* ===== verification/Spec2Isabelle.thy ===== *)
theory Spec2Isabelle
  imports Budget Chunking Conflicts Embeddings FactJobs History Index_Sync Lifecycle Maintenance Portability Retrieval_Order Scope_Cache Screening Signals Timeline TrustBus
begin

text \<open>
  A verification development for the MARK SDK (src/src/mark), a local memory for agents: text
  fragments with a lifecycle, kept in SQLite, sealed into hash-chained blocks, linked in a graph,
  distilled into temporal facts, found again by hybrid retrieval, and fitted into a token budget.

  \<^bold>\<open>Parts and theories\<close>, in the order they depend on each other.
  \<^item> \<open>Mark_Prelude\<close>, \<open>Py_Text\<close>, \<open>Ranking\<close>, \<open>Timestamps\<close>, \<open>Json\<close>: Python text as lists of code points,
    results that may raise, keyed tables, stable sorts and top-k selection, datetimes whose stored
    text sorts chronologically, and the canonical JSON text that the hashes are computed on.
  \<^item> \<open>Fragments\<close>: the data model (types/): lifecycle states with their transitions, fragments,
    blocks, nodes, edges, block links.
  \<^item> \<open>Store\<close>, \<open>Store_Laws\<close>: the tables of the store as a record of row lists and one definition per
    write and read (store/_sqlite/fragments.py, fragment_reads.py, blocks.py, graph.py, rows.py,
    security/hasher.py). The encryption provider is the locale \<open>provider_laws\<close>, interpreted by the
    no-op and the passphrase provider. \<open>store_step\<close> is the relation of all writes; the store
    invariant holds in every reachable store.
  \<^item> \<open>Scope_Ids\<close>, \<open>Scope_Cache\<close>: the immutable id sets with shared bases and overlays, and the cache
    of retrievable ids that is brought up to date from the write log (store/_sqlite/scope_ids.py,
    scope_delta.py, scope_snapshot.py). What a write must tell the log is the locale
    \<open>noting_store\<close>, interpreted by the writes of the store; \<open>scope_reach\<close> interleaves writes, reads,
    writes of builds that do not log and clock ticks.
  \<^item> \<open>BlockChain\<close>: canonical hashes, sealing, verification and the chain (memory/block_hashing.py,
    block_chain.py, block_membership.py): tampering with a member or a link is detected, plasticity
    never breaks a seal, members of sealed blocks are protected.
  \<^item> \<open>Facts\<close>, \<open>FactJobs\<close>: bi-temporal facts with typed values, single and multi-valued timelines,
    export and idempotent import (store/_sqlite/facts.py, facts_multi.py, fact_codec.py,
    fact_import.py), and the durable extraction queue with its claims, owners and retries
    (fact_jobs.py).
  \<^item> \<open>Governance\<close>, \<open>TrustBus\<close>: the middleware stack with its before and after hooks, gates, sanitizer
    and audit log (middlewares/base.py, middlewares/governance/), and the bus on which agents publish
    signed memories (middlewares/trust_bus/).
  \<^item> \<open>Redaction\<close>, \<open>Kinds\<close>, \<open>Write_Path\<close>: the redaction engine and the write policy (security/),
    memory kinds (kinds.py), and the write path of a memory: validation, the guard that decides what
    may be indexed, single and bulk writes and embeddings deferred in an outage (memory/facade/write*.py,
    intelligence/pending_embeddings.py). \<open>write_reach\<close> is every history of writes, failed ones too.
  \<^item> \<open>Lifecycle\<close>: what happens to a stored memory (memory/facade/lifecycle.py, revisions.py,
    forget_match.py, verbs.py, store/_sqlite/paging.py): lookup by id or short id, listing and paging,
    forgetting with its cascade to facts, jobs and ledger, promoting, remembering, and the revisions,
    which retire the old memory behind a new one. \<open>newest\<close> is a partial function, so that a loop over
    the links that never ends is the value \<open>None\<close>.
  \<^item> \<open>History\<close>, \<open>Embeddings\<close>: the split of a chat history that keeps tool calls and results together
    (context/history.py), and the segmentation of words, the hash embedder and the LRU cache of
    embeddings (embeddings/). The wrapped provider of the cache is the locale \<open>pointwise_embedder\<close>,
    interpreted by the batch call of the base class.
  \<^item> \<open>Timeline\<close>: everything known about one subject in the order it happened (memory/timeline*.py,
    store/_sqlite/mentions.py): memories that name it as whole tokens, merged with its facts under
    two clocks that are never compared.
  \<^item> \<open>Maintenance\<close>: decay, reinforcement, pruning, working memory, consolidation, deduplication and
    the maintenance cycle (plasticity/, memory/working.py, consolidation.py, deduplication.py,
    runtime_maintenance.py).
  \<^item> \<open>VectorIndex\<close>, \<open>Index_Laws\<close>: the in-memory index with its dictionary and array backends (index/).
    The backend is the locale \<open>vector_partition\<close>, interpreted by both backends and by their union.
    \<open>Index_Laws\<close> shows what its writers rely on: a block appended at once is adding one by one.
  \<^item> \<open>Index_Sync\<close>: before a recall the index is brought in line with the allowed ids
    (intelligence/retrieval_index.py, index_bulk_load.py, pending_embeddings.py): the delta of a scope,
    stored vectors, batches up to a deadline, a changed embedder, one that is down. Repeated syncs
    finish any backlog.
  \<^item> \<open>Chunking\<close>: documents into sections, blocks and overlapping chunks (documents/chunking.py).
  \<^item> \<open>Graph_Expansion\<close>, \<open>Retrieval_Fusion\<close>, \<open>Retrieval_Order\<close>: one query from the two channels
    through fusion, seed scores, graph expansion, reranking, hops, the order for the asked time, the
    shown scores and the floor, to the plasticity feedback (intelligence/retrieval_*.py,
    graph_expansion.py, fusion_scoring.py, reranker.py, multi_hop.py, temporal_order.py,
    supersession.py, state_change.py). The reads of the store are the locale \<open>fragment_source\<close>, the
    lookups of a hop the locale \<open>bridge_lookup\<close>, a stage that reorders results the locale
    \<open>order_stage\<close>; each is interpreted on the definitions of the model.
  \<^item> \<open>Portability\<close>: backup and restore of one agent (memory/facade/portability.py, the document rows of
    store/_sqlite/document_index.py): the lines of an export, the batched and guarded import, and the
    restore that changes nothing the second time. Documents do not survive the round trip.
  \<^item> \<open>Conflicts\<close>: memories that disagree or are no longer current (memory/contradiction.py,
    result_states.py): the keyword check, marking a conflict, the labels of a recall.
  \<^item> \<open>Screening\<close>: the checksums of card numbers and IBANs and the windows around hints in which long
    texts are searched (security/checksums.py, windows.py); the search always ends and misses nothing.
  \<^item> \<open>Signals\<close>: the local learning signals (rl/): the circular buffer is the queue of the last
    experiences, bounded logs, hashed contents, unit feature vectors, and the filter that keeps the
    actions of a learned policy inside the rules of governance.
  \<^item> \<open>Budget\<close>: the context budget that decides what a prompt receives (context/budget.py).

  \<^bold>\<open>How they interact\<close>. A write goes through the governance hook into the store and the vector
  index. Facts, jobs, blocks and the graph refer to fragments by id. A query intersects every channel
  with the ids the store allows, expands the best hits over the graph of the store, reads the
  fragments back with their digest checked, and feeds importance and edge weights back into the
  store. Maintenance runs over the same tables and asks \<open>BlockChain\<close> which members are sealed.

  \<^bold>\<open>What the lemmas show\<close>. Per component: the functional behaviour of the operations with their
  error branches, an invariant that every operation keeps, and the property the component exists
  for (isolation of agents, tamper evidence, timelines without overlap, exclusive claims, balanced
  hooks, signed trust, a budget that is a hard cap, chunks that fit and lose no word, a search equal
  to scoring every vector whatever the backend, a cached scope equal to a scan, an index that holds
  only stored and accepted memories, rows that are well-formed, bulk writes that can be retried,
  revisions that keep history and return, exact forgetting, a transparent cache, damped expansion, relevance before priors, and a
  result list that stays in scope and is shown in honest order).

  \<^bold>\<open>Bounds\<close>. No definition has fuel: the loops are structural, or have a measure (the worklist of the
  expansion: nodes not expanded yet, then the queue; the trimming of the budget: items kept; the
  halving of a cut: the interval). Hops and rounds are bounded by the constants of the code.

  \<^bold>\<open>Modelling conventions\<close>. Dictionaries are association lists in insertion order, exceptions are
  \<open>Inl\<close> values or \<open>None\<close>, scores and weights are reals where the code has floats, integers are
  Python's unbounded ones. Parameters of the definitions stand for SHA-256, HMAC and the cipher, the
  clock, the embedding model, the keyword index of SQLite, the class of word characters of the
  regular expressions, user plugins, and what the language rules read in a text.

  \<^bold>\<open>Not modelled\<close>. The command line, adapters, media, loaders and cloud sync (input and output); the
  full-text queries and schema upgrades of the store (SQL); the English word lists, patterns
  and the stemmer of retrieval and fact extraction (values and tests of the model are theirs); vector
  snapshots, the gap report, compression and query expansion of retrieval; the
  embedding providers that load a model or call a service.
\<close>

end
